(* ===== verification/Prelude.thy ===== *)
theory Prelude
  imports Main "HOL-Library.Word"
begin

text \<open>
  Shared vocabulary of the TOWER development: the machine integer types of the Rust code, its
  saturating and checked arithmetic, the little-endian byte encodings
  (\<open>to_le_bytes\<close> / \<open>from_le_bytes\<close>), the result type and its sequencing, and the list lemmas
  the component theories share. Slices and fixed arrays of bytes are lists of \<open>u8\<close>; a Rust
  \<open>Result<T, E>\<close> is \<open>'e + 'a\<close> with \<open>Inl\<close> for \<open>Err\<close>.
\<close>

unbundle bit_operations_syntax

section \<open>Machine integers\<close>

type_synonym u8 = "8 word"
type_synonym u16 = "16 word"
type_synonym u32 = "32 word"
type_synonym u64 = "64 word"
type_synonym bytes = "8 word list"

named_theorems sat_simps "the value of saturating arithmetic, read as natural numbers"
named_theorems le_simps "little-endian encodings: lengths, round trips, injectivity"

text \<open>Rust's \<open>saturating_add\<close>, \<open>saturating_sub\<close>, \<open>saturating_mul\<close>, \<open>abs_diff\<close>
  and \<open>checked_add\<close>.\<close>

definition sat_add :: "'a::len word \<Rightarrow> 'a word \<Rightarrow> 'a word" where
  "sat_add a b = (if unat a + unat b < 2 ^ LENGTH('a) then a + b else - 1)"

definition sat_sub :: "'a::len word \<Rightarrow> 'a word \<Rightarrow> 'a word" where
  "sat_sub a b = (if b \<le> a then a - b else 0)"

definition sat_mul :: "'a::len word \<Rightarrow> 'a word \<Rightarrow> 'a word" where
  "sat_mul a b = (if unat a * unat b < 2 ^ LENGTH('a) then a * b else - 1)"

definition abs_diff :: "'a::len word \<Rightarrow> 'a word \<Rightarrow> 'a word" where
  "abs_diff a b = (if a < b then b - a else a - b)"

definition checked_add :: "'a::len word \<Rightarrow> 'a word \<Rightarrow> 'a word option" where
  "checked_add a b = (if unat a + unat b < 2 ^ LENGTH('a) then Some (a + b) else None)"

lemma unat_max_word: "unat (- 1 :: 'a::len word) = 2 ^ LENGTH('a) - 1"
proof -
  have "uint (- 1 :: 'a word) = 2 ^ LENGTH('a) - 1"
    by (simp add: uint_word_ariths zmod_minus1)
  then show ?thesis by (simp add: unat_eq_nat_uint nat_diff_distrib nat_power_eq)
qed

lemma word_le_max [simp]: "(x :: 'a::len word) \<le> - 1"
  by simp

lemma unat_less_size [simp]: "unat (x :: 'a::len word) < 2 ^ LENGTH('a)"
  by (rule unsigned_less)

lemma word_succ_cases: "(x :: 'a::len word) < x + 1 \<or> x = - 1 \<and> x + 1 = 0"
proof (cases "x = - 1")
  case False
  then have "unat x \<noteq> 2 ^ LENGTH('a) - 1" by (metis unat_max_word word_unat_eq_iff)
  then have "unat x + 1 < 2 ^ LENGTH('a)" using unat_less_size [of x] by linarith
  then have "unat (x + 1) = unat x + 1" by (simp add: unat_word_ariths)
  then show ?thesis by (simp add: word_less_nat_alt)
qed simp

lemma unat_sat_add [sat_simps]:
  "unat (sat_add a b :: 'a::len word) = min (unat a + unat b) (2 ^ LENGTH('a) - 1)"
  by (auto simp: sat_add_def unat_word_ariths unat_max_word)

lemma unat_sat_sub [sat_simps]: "unat (sat_sub a b :: 'a::len word) = unat a - unat b"
  by (auto simp: sat_sub_def unat_sub word_le_nat_alt)

lemma unat_sat_mul [sat_simps]:
  "unat (sat_mul a b :: 'a::len word) = min (unat a * unat b) (2 ^ LENGTH('a) - 1)"
  by (auto simp: sat_mul_def unat_word_ariths unat_max_word)

lemma sat_add_ge: "a \<le> sat_add a (b :: 'a::len word)"
proof -
  have "unat a \<le> 2 ^ LENGTH('a) - 1"
    using unat_less_size [of a] by linarith
  then show ?thesis by (simp add: word_le_nat_alt unat_sat_add)
qed

lemma sat_add_strict: "a \<noteq> - 1 \<Longrightarrow> 0 < b \<Longrightarrow> a < sat_add a (b :: 'a::len word)"
proof -
  assume a: "a \<noteq> - 1" and b: "0 < b"
  then have "unat a \<noteq> 2 ^ LENGTH('a) - 1"
    by (metis unat_max_word word_unat_eq_iff)
  then have "unat a < 2 ^ LENGTH('a) - 1" using unat_less_size [of a] by linarith
  moreover have "0 < unat b" using b by (simp add: word_less_nat_alt)
  ultimately show ?thesis by (simp add: word_less_nat_alt unat_sat_add)
qed

lemma sat_add_mono: "a \<le> b \<Longrightarrow> sat_add a c \<le> sat_add b (c :: 'a::len word)"
  by (simp add: word_le_nat_alt unat_sat_add)

lemma unat_abs_diff [sat_simps]:
  "unat (abs_diff a b :: 'a::len word) = (if unat a < unat b then unat b - unat a else unat a - unat b)"
  by (auto simp: abs_diff_def unat_sub word_le_nat_alt word_less_nat_alt)

lemma abs_diff_commute: "abs_diff a b = abs_diff b (a :: 'a::len word)"
  by (auto simp: word_unat_eq_iff unat_abs_diff)

lemma checked_add_Some_iff:
  "checked_add a b = Some c \<longleftrightarrow> unat (c :: 'a::len word) = unat a + unat b"
proof
  assume "checked_add a b = Some c"
  then show "unat c = unat a + unat b"
    by (auto simp: checked_add_def unat_word_ariths split: if_splits)
next
  assume eq: "unat c = unat a + unat b"
  then have lt: "unat a + unat b < 2 ^ LENGTH('a)" by (metis unat_less_size)
  then have "unat (a + b) = unat c" using eq by (simp add: unat_word_ariths)
  then have "a + b = c" by (rule word_unat_eq_iff [THEN iffD2])
  then show "checked_add a b = Some c" using lt by (simp add: checked_add_def)
qed

section \<open>Little-endian encodings\<close>

text \<open>\<open>to_le_bytes\<close> gives a byte list, \<open>from_le_bytes\<close> takes the bytes one by one, the way the
  source writes \<open>u32::from_le_bytes([b[0], b[1], b[2], b[3]])\<close>.\<close>

definition u16_le :: "u16 \<Rightarrow> bytes" where
  "u16_le w = [ucast w, ucast (drop_bit 8 w)]"

definition u32_le :: "u32 \<Rightarrow> bytes" where
  "u32_le w = [ucast w, ucast (drop_bit 8 w), ucast (drop_bit 16 w), ucast (drop_bit 24 w)]"

definition le_u16 :: "u8 \<Rightarrow> u8 \<Rightarrow> u16" where
  "le_u16 a b = ucast a OR push_bit 8 (ucast b)"

definition le_u32 :: "u8 \<Rightarrow> u8 \<Rightarrow> u8 \<Rightarrow> u8 \<Rightarrow> u32" where
  "le_u32 a b c d =
     ucast a OR push_bit 8 (ucast b) OR push_bit 16 (ucast c) OR push_bit 24 (ucast d)"

lemma bit_u8_ge [simp]: "8 \<le> n \<Longrightarrow> \<not> bit (x :: u8) n"
  using bit_imp_le_length [of x n] by auto

lemma length_u16_le [le_simps, simp]: "length (u16_le w) = 2"
  by (simp add: u16_le_def)

lemma length_u32_le [le_simps, simp]: "length (u32_le w) = 4"
  by (simp add: u32_le_def)

lemma u16_le_le_u16 [le_simps, simp]: "u16_le (le_u16 a b) = [a, b]"
  unfolding u16_le_def le_u16_def
  by (auto intro!: bit_word_eqI simp: bit_simps)

lemma u32_le_le_u32 [le_simps, simp]: "u32_le (le_u32 a b c d) = [a, b, c, d]"
  unfolding u32_le_def le_u32_def
  by (auto intro!: bit_word_eqI simp: bit_simps)

lemma le_u16_ucast [le_simps, simp]: "le_u16 (ucast w) (ucast (drop_bit 8 w)) = w"
  unfolding le_u16_def by (rule bit_word_eqI) (auto simp: bit_simps)

lemma le_u32_ucast [le_simps, simp]:
  "le_u32 (ucast w) (ucast (drop_bit 8 w)) (ucast (drop_bit 16 w)) (ucast (drop_bit 24 w)) = w"
proof (rule bit_word_eqI)
  fix n assume "n < LENGTH(32)"
  then consider "n < 8" | "8 \<le> n" "n < 16" | "16 \<le> n" "n < 24" | "24 \<le> n" "n < 32" by fastforce
  then show "bit (le_u32 (ucast w) (ucast (drop_bit 8 w)) (ucast (drop_bit 16 w))
      (ucast (drop_bit 24 w))) n = bit w n"
    by cases (auto simp: le_u32_def bit_simps)
qed

lemma u16_le_inject [le_simps, simp]: "u16_le a = u16_le b \<longleftrightarrow> a = b"
proof
  assume "u16_le a = u16_le b"
  then have "le_u16 (ucast a) (ucast (drop_bit 8 a)) = le_u16 (ucast b) (ucast (drop_bit 8 b))"
    by (simp only: u16_le_def list.inject)
  then show "a = b" by (simp only: le_u16_ucast)
qed simp

lemma u32_le_inject [le_simps, simp]: "u32_le a = u32_le b \<longleftrightarrow> a = b"
proof
  assume "u32_le a = u32_le b"
  then have "le_u32 (ucast a) (ucast (drop_bit 8 a)) (ucast (drop_bit 16 a)) (ucast (drop_bit 24 a))
      = le_u32 (ucast b) (ucast (drop_bit 8 b)) (ucast (drop_bit 16 b)) (ucast (drop_bit 24 b))"
    by (simp only: u32_le_def list.inject)
  then show "a = b" by (simp only: le_u32_ucast)
qed simp

section \<open>Lists\<close>

text \<open>\<open>bslice off n xs\<close> is the Rust slice \<open>xs[off..off + n]\<close> (in range), and \<open>bsplice off ys xs\<close>
  is \<open>xs[off..off + ys.len()].copy_from_slice(ys)\<close>.\<close>

definition bslice :: "nat \<Rightarrow> nat \<Rightarrow> 'a list \<Rightarrow> 'a list" where
  "bslice off n xs = take n (drop off xs)"

definition bsplice :: "nat \<Rightarrow> 'a list \<Rightarrow> 'a list \<Rightarrow> 'a list" where
  "bsplice off ys xs = take off xs @ ys @ drop (off + length ys) xs"

lemma length_bslice [simp]: "off + n \<le> length xs \<Longrightarrow> length (bslice off n xs) = n"
  by (simp add: bslice_def)

lemma length_bsplice [simp]: "off + length ys \<le> length xs \<Longrightarrow> length (bsplice off ys xs) = length xs"
  by (simp add: bsplice_def)

lemma nth_bslice: "i < n \<Longrightarrow> off + n \<le> length xs \<Longrightarrow> bslice off n xs ! i = xs ! (off + i)"
  by (simp add: bslice_def)

lemma nth_bsplice:
  "off + length ys \<le> length xs \<Longrightarrow> i < length xs \<Longrightarrow>
     bsplice off ys xs ! i = (if off \<le> i \<and> i < off + length ys then ys ! (i - off) else xs ! i)"
  by (auto simp: bsplice_def nth_append)

lemma bslice_bsplice_same [simp]:
  "off + length ys \<le> length xs \<Longrightarrow> bslice off (length ys) (bsplice off ys xs) = ys"
  by (simp add: bslice_def bsplice_def)

lemma bslice_bsplice_disjoint:
  assumes "off + length ys \<le> length xs" and "a + n \<le> length xs"
    and "a + n \<le> off \<or> off + length ys \<le> a"
  shows "bslice a n (bsplice off ys xs) = bslice a n xs"
  using assms by (intro nth_equalityI) (auto simp: nth_bslice nth_bsplice)

lemma bslice_bslice: "a + k \<le> n \<Longrightarrow> off + n \<le> length xs \<Longrightarrow>
    bslice a k (bslice off n xs) = bslice (off + a) k xs"
  by (intro nth_equalityI) (auto simp: nth_bslice add.assoc)

lemma bslice_split: "off + (a + b) \<le> length xs \<Longrightarrow>
    bslice off (a + b) xs = bslice off a xs @ bslice (off + a) b xs"
  by (simp add: bslice_def take_add add.commute)

lemma bslice_0 [simp]: "bslice off 0 xs = []"
  by (simp add: bslice_def)

lemma list_of_length_4: "length xs = 4 \<Longrightarrow> \<exists>a b c d. xs = [a, b, c, d]"
  by (simp add: eval_nat_numeral length_Suc_conv) blast

lemma list_of_length_2: "length xs = 2 \<Longrightarrow> \<exists>a b. xs = [a, b]"
  by (simp add: eval_nat_numeral length_Suc_conv) blast


lemma find_split: "find P xs = Some x \<Longrightarrow> \<exists>us vs. xs = us @ x # vs \<and> P x \<and> (\<forall>u \<in> set us. \<not> P u)"
proof (induction xs)
  case (Cons y ys)
  show ?case
  proof (cases "P y")
    case True
    with Cons.prems show ?thesis by (auto intro: exI [of _ "[]"])
  next
    case False
    with Cons obtain us vs where "ys = us @ x # vs" "P x" "\<forall>u \<in> set us. \<not> P u" by auto
    with False show ?thesis by (intro exI [of _ "y # us"] exI [of _ vs]) auto
  qed
qed simp

lemma find_append_first: "P x \<Longrightarrow> \<forall>u \<in> set us. \<not> P u \<Longrightarrow> find P (us @ x # vs) = Some x"
  by (induction us) auto

lemma find_None_filter: "find P xs = None \<longleftrightarrow> filter P xs = []"
  by (auto simp: find_None_iff filter_empty_conv)


lemma length_filter_all: "length (filter P xs) = length xs \<longleftrightarrow> (\<forall>x \<in> set xs. P x)"
  by (metis filter_True length_filter_less less_irrefl_nat)


lemma find_filter_hd: "(case filter P xs of [] \<Rightarrow> None | x # _ \<Rightarrow> Some x) = find P xs"
  by (induction xs) auto

section \<open>Constant-time comparison\<close>

lemma foldl_or_zero: "foldl (OR) a xs = 0 \<longleftrightarrow> a = 0 \<and> (\<forall>x \<in> set xs. x = (0 :: u8))"
  by (induction xs arbitrary: a) (auto simp: or_eq_0_iff)

lemma xor_eq_zero: "a XOR b = 0 \<longleftrightarrow> a = (b :: 'a::len word)"
  by (metis xor.assoc xor.left_neutral xor.right_neutral xor_self_eq)

lemma map2_xor_zero:
  "length a = length b \<Longrightarrow> (\<forall>x \<in> set (map2 (XOR) a b). x = 0) \<longleftrightarrow> a = (b :: 'a::len word list)"
  by (induction a b rule: list_induct2) (auto simp: xor_eq_zero)

end
