(* ===== verification/Kv_Device.thy ===== *)
theory Kv_Device
  imports Prelude
begin

text \<open>
  The byte store under the key-value codec of \<open>crates/kv/src/lib.rs\<close>: the \<open>Eeprom\<close> trait and
  the power-cut device that implements it in that file (\<open>Ram\<close>, \<open>Tear\<close>), which programs the way
  the STM32L0 data EEPROM does: aligned 32-bit words, a cut tearing the word it interrupts and
  every later write failing until the reboot. On top of it the codec's error monad (the \<open>?\<close>
  operator over a mutable store) and a crash logic: \<open>crash_spec P m Q C\<close> says that \<open>m\<close>, started
  in cells satisfying \<open>P\<close>, ends in \<open>Q\<close> when it returns \<open>Ok\<close> and in \<open>C\<close> when it returns an error,
  a power cut inside any of its word programs included.
\<close>

section \<open>The device\<close>

datatype tear = Untouched | Erased | Garbled

record eeprom =
  ee_buf :: bytes
  ee_programs :: nat
  ee_cut :: "(nat \<times> tear) option"
  ee_dead :: bool
  ee_unaligned :: nat

definition ram_new :: "nat \<Rightarrow> eeprom" where
  "ram_new cap = \<lparr>ee_buf = replicate cap 0, ee_programs = 0, ee_cut = None, ee_dead = False,
     ee_unaligned = 0\<rparr>"

definition ram_arm :: "nat \<Rightarrow> tear \<Rightarrow> eeprom \<Rightarrow> eeprom" where
  "ram_arm after t d = d\<lparr>ee_cut := Some (ee_programs d + after, t)\<rparr>"

definition ram_revive :: "eeprom \<Rightarrow> eeprom" where
  "ram_revive d = d\<lparr>ee_dead := False, ee_cut := None\<rparr>"

text \<open>What a cut leaves of the word at \<open>w\<close> whose program of \<open>bs\<close> at \<open>at\<close> it interrupts.\<close>

definition torn_word :: "tear \<Rightarrow> nat \<Rightarrow> nat \<Rightarrow> bytes \<Rightarrow> bytes \<Rightarrow> bytes" where
  "torn_word t at w bs old =
     (case t of Untouched \<Rightarrow> old
      | Erased \<Rightarrow> replicate 4 0
      | Garbled \<Rightarrow> map (\<lambda>b. b XOR 1) (bsplice (at - w) bs old))"

definition ee_program :: "nat \<Rightarrow> bytes \<Rightarrow> eeprom \<Rightarrow> (unit + unit) \<times> eeprom" where
  "ee_program at bs d =
     (if ee_dead d then (Inl (), d)
      else let w = at div 4 * 4; n = ee_programs d; d1 = d\<lparr>ee_programs := n + 1\<rparr> in
        (case ee_cut d of
           Some (c, t) \<Rightarrow>
             if c = n then
               (Inl (), d1\<lparr>ee_buf := bsplice w (torn_word t at w bs (bslice w 4 (ee_buf d))) (ee_buf d),
                           ee_dead := True\<rparr>)
             else (Inr (), d1\<lparr>ee_buf := bsplice at bs (ee_buf d)\<rparr>)
         | None \<Rightarrow> (Inr (), d1\<lparr>ee_buf := bsplice at bs (ee_buf d)\<rparr>)))"

primrec ee_run :: "(nat \<times> bytes) list \<Rightarrow> eeprom \<Rightarrow> (unit + unit) \<times> eeprom" where
  "ee_run [] d = (Inr (), d)"
| "ee_run (p # ps) d =
     (case ee_program (fst p) (snd p) d of (Inl e, d') \<Rightarrow> (Inl e, d') | (Inr _, d') \<Rightarrow> ee_run ps d')"

text \<open>\<open>Eeprom::read\<close> and \<open>Eeprom::write\<close>; a write is split as \<open>eeprom_write_slice\<close> does: byte
  programs up to the first word boundary, word programs, byte programs for the tail.\<close>

definition ee_read :: "nat \<Rightarrow> nat \<Rightarrow> eeprom \<Rightarrow> unit + bytes" where
  "ee_read off n d = (if off + n \<le> length (ee_buf d) then Inr (bslice off n (ee_buf d)) else Inl ())"

definition byte_programs :: "nat \<Rightarrow> bytes \<Rightarrow> nat \<Rightarrow> nat \<Rightarrow> (nat \<times> bytes) list" where
  "byte_programs s dat i j = map (\<lambda>k. (s + k, bslice k 1 dat)) [i..<j]"

definition word_programs :: "nat \<Rightarrow> bytes \<Rightarrow> nat \<Rightarrow> nat \<Rightarrow> (nat \<times> bytes) list" where
  "word_programs s dat i n = map (\<lambda>k. (s + (i + 4 * k), bslice (i + 4 * k) 4 dat)) [0..<n]"

definition ee_write :: "nat \<Rightarrow> bytes \<Rightarrow> eeprom \<Rightarrow> (unit + unit) \<times> eeprom" where
  "ee_write s dat d =
     (if length (ee_buf d) < s + length dat then (Inl (), d)
      else let
        d1 = (if s mod 4 \<noteq> 0 \<or> length dat mod 4 \<noteq> 0 then d\<lparr>ee_unaligned := ee_unaligned d + 1\<rparr> else d);
        head = (if s mod 4 = 0 then 0 else min (4 - s mod 4) (length dat));
        n = (length dat - head) div 4
      in ee_run (byte_programs s dat 0 head @ word_programs s dat head n @
                 byte_programs s dat (head + n * 4) (length dat)) d1)"

section \<open>The codec's error monad\<close>

datatype kv_error = Backend | ValueTooLarge | Full | InvalidKey | TooManyKeys | Stale

type_synonym ('s, 'a) kvm = "'s \<Rightarrow> (kv_error + 'a) \<times> 's"

definition kv_return :: "'a \<Rightarrow> ('s, 'a) kvm" where
  "kv_return x = (\<lambda>s. (Inr x, s))"

definition kv_raise :: "kv_error \<Rightarrow> ('s, 'a) kvm" where
  "kv_raise e = (\<lambda>s. (Inl e, s))"

definition kv_bind :: "('s, 'a) kvm \<Rightarrow> ('a \<Rightarrow> ('s, 'b) kvm) \<Rightarrow> ('s, 'b) kvm" where
  "kv_bind m f = (\<lambda>s. case m s of (Inl e, s') \<Rightarrow> (Inl e, s') | (Inr x, s') \<Rightarrow> f x s')"

definition kv_then :: "('s, 'a) kvm \<Rightarrow> ('s, 'b) kvm \<Rightarrow> ('s, 'b) kvm" where
  "kv_then m m' = kv_bind m (\<lambda>_. m')"

definition kv_read :: "nat \<Rightarrow> nat \<Rightarrow> (eeprom, bytes) kvm" where
  "kv_read off n = (\<lambda>d. case ee_read off n d of Inl _ \<Rightarrow> (Inl Backend, d) | Inr b \<Rightarrow> (Inr b, d))"

definition kv_write :: "nat \<Rightarrow> bytes \<Rightarrow> (eeprom, unit) kvm" where
  "kv_write off dat = (\<lambda>d. case ee_write off dat d of (Inl _, d') \<Rightarrow> (Inl Backend, d') | (Inr _, d') \<Rightarrow> (Inr (), d'))"

text \<open>An operation on the store inside one that also carries RAM state.\<close>

definition on_dev :: "(eeprom, 'a) kvm \<Rightarrow> (eeprom \<times> 't, 'a) kvm" where
  "on_dev m = (\<lambda>(d, t). case m d of (r, d') \<Rightarrow> (r, (d', t)))"

definition kv_get :: "('s, 's) kvm" where
  "kv_get = (\<lambda>s. (Inr s, s))"

definition kv_modify_ram :: "('t \<Rightarrow> 't) \<Rightarrow> (eeprom \<times> 't, unit) kvm" where
  "kv_modify_ram f = (\<lambda>(d, t). (Inr (), (d, f t)))"

definition kv_ram :: "(eeprom \<times> 't, 't) kvm" where
  "kv_ram = (\<lambda>(d, t). (Inr t, (d, t)))"

lemma kv_monad_simps [simp]:
  "kv_return x s = (Inr x, s)" "kv_raise e s = (Inl e, s)"
  by (simp_all add: kv_return_def kv_raise_def)

lemma kv_bind_Inr: "m s = (Inr x, s') \<Longrightarrow> kv_bind m f s = f x s'"
  by (simp add: kv_bind_def)

lemma kv_then_Inr: "m s = (Inr x, s') \<Longrightarrow> kv_then m m' s = m' s'"
  by (simp add: kv_then_def kv_bind_def)

lemma kv_bind_Inr_iff:
  "kv_bind m f s = (Inr y, s') \<longleftrightarrow> (\<exists>x s1. m s = (Inr x, s1) \<and> f x s1 = (Inr y, s'))"
  by (auto simp: kv_bind_def split: prod.splits sum.splits)

lemma kv_then_Inr_iff:
  "kv_then m m' s = (Inr y, s') \<longleftrightarrow> (\<exists>x s1. m s = (Inr x, s1) \<and> m' s1 = (Inr y, s'))"
  by (simp add: kv_then_def kv_bind_Inr_iff)

lemma kv_read_ok: "off + n \<le> length (ee_buf d) \<Longrightarrow> kv_read off n d = (Inr (bslice off n (ee_buf d)), d)"
  by (simp add: kv_read_def ee_read_def)

section \<open>What a write can leave behind\<close>

text \<open>A cut is clean when the torn word reads either as before (\<open>Untouched\<close>) or erased (\<open>Erased\<close>). The third
  tear of the device, \<open>Garbled\<close>, is not clean, whether or not the codec would detect it: what a garbled word
  of a header or of a superblock reads as rests on the CRC stored beside it, which can match by chance, so no
  statement without a hypothesis on the CRC holds for it. The crash logic below and everything proved with it is
  about clean cuts. A device is healthy when
  it is powered and no cut is armed.\<close>

definition clean :: "eeprom \<Rightarrow> bool" where
  "clean d \<longleftrightarrow> (case ee_cut d of Some (_, t) \<Rightarrow> t \<noteq> Garbled | None \<Rightarrow> True)"

definition healthy :: "eeprom \<Rightarrow> bool" where
  "healthy d \<longleftrightarrow> \<not> ee_dead d \<and> ee_cut d = None"

text \<open>The cells an interrupted write of \<open>dat\<close> at \<open>s\<close> can leave: a prefix of whole words landed,
  the next word is as it was or erased, the rest is as it was.\<close>

definition torn :: "nat \<Rightarrow> bytes \<Rightarrow> bytes \<Rightarrow> bytes \<Rightarrow> bool" where
  "torn s dat c c' \<longleftrightarrow> (\<exists>k x. k < length dat div 4 \<and> (x = bslice (s + 4 * k) 4 c \<or> x = replicate 4 0) \<and>
     c' = bsplice s (take (4 * k) dat @ x) c)"

lemma clean_revive [simp]: "clean (ram_revive d)" and healthy_revive [simp]: "healthy (ram_revive d)"
  and buf_revive [simp]: "ee_buf (ram_revive d) = ee_buf d"
  by (simp_all add: clean_def healthy_def ram_revive_def)

lemma bsplice_same_word: "s + n \<le> length c \<Longrightarrow> bsplice s (bslice s n c) c = c"
  by (intro nth_equalityI) (auto simp: nth_bsplice nth_bslice)

lemma bsplice_bsplice_next:
  "s + length xs + length ys \<le> length c \<Longrightarrow>
     bsplice (s + length xs) ys (bsplice s xs c) = bsplice s (xs @ ys) c"
  by (intro nth_equalityI) (auto simp: nth_bsplice nth_append)

lemma ee_program_word:
  assumes "s mod 4 = 0" and "length w = 4" and "s + 4 \<le> length (ee_buf d)" and "clean d"
    and "ee_program s w d = (r, d')"
  shows "clean d' \<and> ee_unaligned d' = ee_unaligned d \<and> (healthy d \<longrightarrow> r = Inr () \<and> healthy d') \<and>
     (r = Inr () \<and> ee_buf d' = bsplice s w (ee_buf d) \<or>
      r = Inl () \<and> ee_dead d' \<and> (ee_buf d' = ee_buf d \<or> ee_buf d' = bsplice s (replicate 4 0) (ee_buf d)))"
proof -
  have w: "s div 4 * 4 = s" using assms(1) by presburger
  show ?thesis
    using assms(3-5)
    by (auto simp: bsplice_same_word ee_program_def Let_def w clean_def healthy_def torn_word_def
      split: if_splits option.splits tear.splits)
qed

lemma word_programs_Suc:
  "4 \<le> length dat \<Longrightarrow> word_programs s dat 0 (Suc n) =
     (s, bslice 0 4 dat) # word_programs (s + 4) (drop 4 dat) 0 n"
  by (simp add: word_programs_def bslice_def upt_conv_Cons map_Suc_upt [symmetric] add.commute
      del: upt_Suc)

lemma torn_first:
  assumes "4 \<le> length dat" and "s + length dat \<le> length c"
  shows "torn s dat c c" and "torn s dat c (bsplice s (replicate 4 0) c)"
proof -
  have "0 < length dat div 4" using assms(1) by (simp add: div_greater_zero_iff)
  then show "torn s dat c (bsplice s (replicate 4 0) c)" by (auto simp: torn_def intro!: exI [of _ 0])
  have "c = bsplice s (take (4 * 0) dat @ bslice (s + 4 * 0) 4 c) c"
    using assms by (simp add: bsplice_same_word)
  with \<open>0 < length dat div 4\<close> show "torn s dat c c" unfolding torn_def by blast
qed

lemma torn_next:
  assumes "torn (s + 4) (drop 4 dat) (bsplice s (take 4 dat) c) c'" and "4 \<le> length dat"
    and "s + length dat \<le> length c"
  shows "torn s dat c c'"
proof -
  from assms(1) obtain k x where k: "k < length (drop 4 dat) div 4"
    and x: "x = bslice (s + 4 + 4 * k) 4 (bsplice s (take 4 dat) c) \<or> x = replicate 4 0"
    and c': "c' = bsplice (s + 4) (take (4 * k) (drop 4 dat) @ x) (bsplice s (take 4 dat) c)"
    by (auto simp: torn_def)
  have k': "Suc k < length dat div 4" using k assms(2) by (simp add: less_diff_conv Suc_le_eq)
  moreover have "4 * (length dat div 4) \<le> length dat" by simp
  ultimately have "4 * Suc k + 4 \<le> length dat" by presburger
  note len = this assms(2,3)
  have x': "x = bslice (s + 4 * Suc k) 4 c \<or> x = replicate 4 0"
    using x len by (auto simp: bslice_bsplice_disjoint add.assoc)
  then have lx: "length x = 4" using len by auto
  have "take (4 * Suc k) dat = take 4 dat @ take (4 * k) (drop 4 dat)"
    by (metis mult_Suc_right take_add)
  then have "c' = bsplice s (take (4 * Suc k) dat @ x) c"
    using bsplice_bsplice_next [of s "take 4 dat" "take (4 * k) (drop 4 dat) @ x" c] len lx c' by simp
  with k' x' show ?thesis unfolding torn_def by blast
qed

lemma ee_run_words:
  assumes "s mod 4 = 0" and "length dat = 4 * n" and "s + length dat \<le> length (ee_buf d)" and "clean d"
    and "ee_run (word_programs s dat 0 n) d = (r, d')"
  shows "clean d' \<and> ee_unaligned d' = ee_unaligned d \<and> (healthy d \<longrightarrow> r = Inr () \<and> healthy d') \<and>
     (r = Inr () \<and> ee_buf d' = bsplice s dat (ee_buf d) \<or> r = Inl () \<and> ee_dead d' \<and> torn s dat (ee_buf d) (ee_buf d'))"
  using assms
proof (induction n arbitrary: s dat d)
  case 0
  then show ?case by (auto simp: word_programs_def bsplice_def)
next
  case (Suc n)
  have len: "4 \<le> length dat" using Suc.prems by simp
  obtain r1 d1 where p: "ee_program s (take 4 dat) d = (r1, d1)" by fastforce
  have "s + 4 \<le> length (ee_buf d)" using Suc.prems by simp
  from ee_program_word [OF Suc.prems(1) _ this Suc.prems(4) p] len
  have P: "clean d1" "ee_unaligned d1 = ee_unaligned d" "healthy d \<longrightarrow> r1 = Inr () \<and> healthy d1"
    and R: "r1 = Inr () \<and> ee_buf d1 = bsplice s (take 4 dat) (ee_buf d) \<or> r1 = Inl () \<and> ee_dead d1 \<and>
      (ee_buf d1 = ee_buf d \<or> ee_buf d1 = bsplice s (replicate 4 0) (ee_buf d))"
    by auto
  have run: "ee_run (word_programs s dat 0 (Suc n)) d =
      (case r1 of Inl e \<Rightarrow> (Inl e, d1) | Inr _ \<Rightarrow> ee_run (word_programs (s + 4) (drop 4 dat) 0 n) d1)"
    using word_programs_Suc [OF len] p by (simp add: bslice_def split: sum.splits)
  from R show ?case
  proof
    assume "r1 = Inl () \<and> ee_dead d1 \<and> (ee_buf d1 = ee_buf d \<or> ee_buf d1 = bsplice s (replicate 4 0) (ee_buf d))"
    with run Suc.prems(5) P torn_first [OF len Suc.prems(3)] show ?thesis by auto
  next
    assume r1: "r1 = Inr () \<and> ee_buf d1 = bsplice s (take 4 dat) (ee_buf d)"
    then have run': "ee_run (word_programs (s + 4) (drop 4 dat) 0 n) d1 = (r, d')"
      using run Suc.prems(5) by simp
    have "(s + 4) mod 4 = 0" "length (drop 4 dat) = 4 * n" "s + 4 + length (drop 4 dat) \<le> length (ee_buf d1)"
      using Suc.prems r1 len by auto
    from Suc.IH [OF this P(1) run'] P r1
    have "clean d' \<and> ee_unaligned d' = ee_unaligned d \<and> (healthy d \<longrightarrow> r = Inr () \<and> healthy d')"
      and IH: "r = Inr () \<and> ee_buf d' = bsplice (s + 4) (drop 4 dat) (bsplice s (take 4 dat) (ee_buf d)) \<or>
        r = Inl () \<and> ee_dead d' \<and> torn (s + 4) (drop 4 dat) (bsplice s (take 4 dat) (ee_buf d)) (ee_buf d')"
      by auto
    moreover have "bsplice (s + 4) (drop 4 dat) (bsplice s (take 4 dat) (ee_buf d)) = bsplice s dat (ee_buf d)"
      using bsplice_bsplice_next [of s "take 4 dat" "drop 4 dat" "ee_buf d"] len Suc.prems(3) by simp
    ultimately show ?thesis using torn_next [OF _ len Suc.prems(3)] by auto
  qed
qed

lemma kv_write_words:
  assumes "s mod 4 = 0" and "length dat mod 4 = 0" and "s + length dat \<le> length (ee_buf d)" and "clean d"
    and "kv_write s dat d = (r, d')"
  shows "clean d' \<and> ee_unaligned d' = ee_unaligned d \<and> (healthy d \<longrightarrow> r = Inr () \<and> healthy d') \<and>
     (r = Inr () \<and> ee_buf d' = bsplice s dat (ee_buf d) \<or> r = Inl Backend \<and> ee_dead d' \<and> torn s dat (ee_buf d) (ee_buf d'))"
proof -
  have n: "length dat = 4 * (length dat div 4)" using assms(2) by presburger
  obtain r1 d1 where run: "ee_run (word_programs s dat 0 (length dat div 4)) d = (r1, d1)" by fastforce
  have "ee_write s dat d = (r1, d1)"
    using assms n run by (simp add: ee_write_def byte_programs_def)
  with assms(5) have "d' = d1" "r = (case r1 of Inl _ \<Rightarrow> Inl Backend | Inr _ \<Rightarrow> Inr ())"
    by (auto simp: kv_write_def split: sum.splits)
  with ee_run_words [OF assms(1) n assms(3,4) run] show ?thesis by auto
qed

section \<open>The crash logic\<close>

text \<open>\<open>dev\<close> selects the device of the state; every operation keeps the device clean, issues only
  whole-word writes, and on a healthy device stays healthy and reports no backend error; a backend
  error means the power is gone.\<close>

definition crash_post ::
  "('s \<Rightarrow> eeprom) \<Rightarrow> ('a \<Rightarrow> 's \<Rightarrow> bool) \<Rightarrow> (kv_error \<Rightarrow> 's \<Rightarrow> bool) \<Rightarrow> 's \<Rightarrow> (kv_error + 'a) \<times> 's \<Rightarrow> bool"
where
  "crash_post dev Q C s rs \<longleftrightarrow>
     clean (dev (snd rs)) \<and> ee_unaligned (dev (snd rs)) = ee_unaligned (dev s) \<and>
     (healthy (dev s) \<longrightarrow> healthy (dev (snd rs)) \<and> fst rs \<noteq> Inl Backend) \<and>
     (fst rs = Inl Backend \<longrightarrow> ee_dead (dev (snd rs))) \<and>
     (case fst rs of Inr x \<Rightarrow> Q x (snd rs) | Inl e \<Rightarrow> C e (snd rs))"

definition crash_spec ::
  "('s \<Rightarrow> eeprom) \<Rightarrow> ('s \<Rightarrow> bool) \<Rightarrow> ('s, 'a) kvm \<Rightarrow> ('a \<Rightarrow> 's \<Rightarrow> bool) \<Rightarrow> (kv_error \<Rightarrow> 's \<Rightarrow> bool) \<Rightarrow> bool"
where
  "crash_spec dev P m Q C \<longleftrightarrow> (\<forall>s. clean (dev s) \<longrightarrow> P s \<longrightarrow> crash_post dev Q C s (m s))"

named_theorems crash_rules "rules of the crash logic"

lemma crash_specI:
  "(\<And>s. clean (dev s) \<Longrightarrow> P s \<Longrightarrow> crash_post dev Q C s (m s)) \<Longrightarrow> crash_spec dev P m Q C"
  by (simp add: crash_spec_def)

lemma crash_specD: "crash_spec dev P m Q C \<Longrightarrow> clean (dev s) \<Longrightarrow> P s \<Longrightarrow> crash_post dev Q C s (m s)"
  by (simp add: crash_spec_def)

lemma crash_postD:
  assumes "crash_post dev Q C s (r, s')"
  shows "clean (dev s')" and "ee_unaligned (dev s') = ee_unaligned (dev s)"
    and "healthy (dev s) \<Longrightarrow> healthy (dev s')" and "healthy (dev s) \<Longrightarrow> r \<noteq> Inl Backend"
    and "r = Inl Backend \<Longrightarrow> ee_dead (dev s')"
    and "r = Inr x \<Longrightarrow> Q x s'" and "r = Inl e \<Longrightarrow> C e s'"
  using assms by (auto simp: crash_post_def)

lemma crash_post_Inl: "crash_post dev Q C s (Inl e, s') \<Longrightarrow> crash_post dev R C s (Inl e, s')"
  by (auto simp: crash_post_def)

lemma crash_post_trans:
  assumes "crash_post dev Q C s (Inr x, s1)" and "crash_post dev R C s1 rs"
  shows "crash_post dev R C s rs"
  using assms by (auto simp: crash_post_def)

lemma crash_bind [crash_rules]:
  assumes "crash_spec dev P m Q C" and "\<And>x. crash_spec dev (Q x) (f x) R C"
  shows "crash_spec dev P (kv_bind m f) R C"
proof (rule crash_specI)
  fix s assume s: "clean (dev s)" "P s"
  obtain r1 s1 where m: "m s = (r1, s1)" by fastforce
  from crash_specD [OF assms(1) s] m have M: "crash_post dev Q C s (r1, s1)" by simp
  show "crash_post dev R C s (kv_bind m f s)"
  proof (cases r1)
    case (Inl e)
    with m M crash_post_Inl show ?thesis by (auto simp: kv_bind_def)
  next
    case (Inr x)
    with M have "crash_post dev R C s1 (f x s1)"
      by (intro crash_specD [OF assms(2)]) (auto dest: crash_postD)
    with M Inr m show ?thesis by (auto simp: kv_bind_def intro: crash_post_trans)
  qed
qed

lemma crash_then [crash_rules]:
  "crash_spec dev P m (\<lambda>_. Q) C \<Longrightarrow> crash_spec dev Q m' R C \<Longrightarrow> crash_spec dev P (kv_then m m') R C"
  by (simp add: kv_then_def crash_bind)

lemma crash_weaken:
  assumes "crash_spec dev P m Q C" and "\<And>s. P' s \<Longrightarrow> P s" and "\<And>x s. Q x s \<Longrightarrow> Q' x s" and "\<And>e s. C e s \<Longrightarrow> C' e s"
  shows "crash_spec dev P' m Q' C'"
proof (rule crash_specI)
  fix s assume "clean (dev s)" "P' s"
  then have "crash_post dev Q C s (m s)" using assms(1,2) by (simp add: crash_specD)
  with assms(3,4) show "crash_post dev Q' C' s (m s)" by (auto simp: crash_post_def split: sum.splits)
qed

lemma crash_return: "(\<And>s. P s \<Longrightarrow> Q x s) \<Longrightarrow> crash_spec dev P (kv_return x) Q C"
  by (auto simp: crash_spec_def crash_post_def)

lemma crash_raise: "(\<And>s. P s \<Longrightarrow> C e s) \<Longrightarrow> e \<noteq> Backend \<Longrightarrow> crash_spec dev P (kv_raise e) Q C"
  by (auto simp: crash_spec_def crash_post_def)

lemma crash_if:
  assumes "b \<Longrightarrow> crash_spec dev P m Q C" and "\<not> b \<Longrightarrow> crash_spec dev P m' Q C"
  shows "crash_spec dev P (if b then m else m') Q C"
  using assms by simp

lemma crash_fact: "(F \<Longrightarrow> crash_spec dev P m Q C) \<Longrightarrow> crash_spec dev (\<lambda>s. P s \<and> F) m Q C"
  by (auto simp: crash_spec_def)

text \<open>A precondition may be specialised to one state.\<close>

lemma crash_state:
  assumes "\<And>s0. P s0 \<Longrightarrow> crash_spec dev (\<lambda>s. s = s0) m Q C"
  shows "crash_spec dev P m Q C"
  using assms unfolding crash_spec_def by blast

text \<open>An operation that only reads, and so returns a value of the state, needs no step of its own.\<close>

lemma crash_bind_pure:
  assumes "\<And>s. P s \<Longrightarrow> m s = (Inr (x s), s)"
    and "\<And>s0. P s0 \<Longrightarrow> crash_spec dev (\<lambda>s. P s \<and> x s = x s0) (f (x s0)) R C"
  shows "crash_spec dev P (kv_bind m f) R C"
proof (rule crash_specI)
  fix s assume s: "clean (dev s)" "P s"
  with assms(1) have "kv_bind m f s = f (x s) s" by (simp add: kv_bind_Inr)
  then show "crash_post dev R C s (kv_bind m f s)" using crash_specD [OF assms(2) [OF s(2)] s(1)] s(2) by simp
qed

lemma crash_bind_const:
  "(\<And>s. P s \<Longrightarrow> m s = (Inr x, s)) \<Longrightarrow> crash_spec dev P (f x) R C \<Longrightarrow> crash_spec dev P (kv_bind m f) R C"
  using crash_bind_pure [of P m "\<lambda>_. x" dev f R C] by simp

text \<open>The rule for a whole-word write, with assertions on the cells.\<close>

definition the_dev :: "eeprom \<Rightarrow> eeprom" where
  "the_dev d = d"

abbreviation cells :: "(bytes \<Rightarrow> bool) \<Rightarrow> eeprom \<Rightarrow> bool" where
  "cells P \<equiv> \<lambda>d. P (ee_buf d)"

abbreviation crash_cells ::
  "(bytes \<Rightarrow> bool) \<Rightarrow> (eeprom, 'a) kvm \<Rightarrow> ('a \<Rightarrow> bytes \<Rightarrow> bool) \<Rightarrow> (kv_error \<Rightarrow> bytes \<Rightarrow> bool) \<Rightarrow> bool" where
  "crash_cells P m Q C \<equiv> crash_spec the_dev (cells P) m (\<lambda>x. cells (Q x)) (\<lambda>e. cells (C e))"

lemma crash_cells_fix:
  "(\<And>c0. P c0 \<Longrightarrow> crash_cells (\<lambda>c. c = c0) m Q C) \<Longrightarrow> crash_cells P m Q C"
  by (auto simp: crash_spec_def)

lemma crash_write:
  assumes "off mod 4 = 0" and "length dat mod 4 = 0"
    and "\<And>c. P c \<Longrightarrow> off + length dat \<le> length c"
    and "\<And>c. P c \<Longrightarrow> Q (bsplice off dat c)"
    and "\<And>c c'. P c \<Longrightarrow> torn off dat c c' \<Longrightarrow> C Backend c'"
  shows "crash_cells P (kv_write off dat) (\<lambda>_. Q) C"
proof (rule crash_specI)
  fix d assume d: "clean (the_dev d)" "P (ee_buf d)"
  obtain r d' where w: "kv_write off dat d = (r, d')" by fastforce
  from d have "clean d" by (simp add: the_dev_def)
  from kv_write_words [OF assms(1,2) assms(3) [OF d(2)] this w] d(2) assms(4,5)
  show "crash_post the_dev (\<lambda>_. cells Q) (\<lambda>e. cells (C e)) d (kv_write off dat d)"
    unfolding w by (auto simp: crash_post_def the_dev_def)
qed

lemma torn_cases:
  assumes "torn off dat c c'" and "off + length dat \<le> length c"
  obtains k x where "4 * k + 4 \<le> length dat" "length x = 4" "x = bslice (off + 4 * k) 4 c \<or> x = replicate 4 0"
    "c' = bsplice off (take (4 * k) dat @ x) c"
proof -
  from assms(1) obtain k x where k: "k < length dat div 4" and x: "x = bslice (off + 4 * k) 4 c \<or> x = replicate 4 0"
    and c': "c' = bsplice off (take (4 * k) dat @ x) c" by (auto simp: torn_def)
  from k have k4: "4 * k + 4 \<le> length dat" by presburger
  with x assms(2) have "length x = 4" by auto
  with k4 x c' show thesis using that by blast
qed

lemma torn_length: "torn off dat c c' \<Longrightarrow> off + length dat \<le> length c \<Longrightarrow> length c' = length c"
  by (erule (1) torn_cases) simp

lemma torn_outside:
  assumes "torn off dat c c'" and "off + length dat \<le> length c" and "i < off \<or> off + length dat \<le> i" and "i < length c"
  shows "c' ! i = c ! i"
  using assms(1,2) by (rule torn_cases) (use assms(2-4) in \<open>auto simp: nth_bsplice\<close>)

end
