(* ===== verification/Crc.thy ===== *)
theory Crc
  imports Prelude
begin

text \<open>
  CRC-32/IEEE of \<open>crates/protocol/src/crc.rs\<close>, the integrity primitive the console frame and
  the key-value store share: the bitwise update loop as the source writes it, its linearity and
  injectivity, and the burst-error guarantee that follows (any change confined to four
  consecutive bytes changes the CRC).
\<close>

section \<open>The update loop\<close>

text \<open>The body of the inner loop: \<open>mask = (crc & 1).wrapping_neg(); crc = (crc >> 1) ^ (POLY & mask)\<close>.\<close>

definition crc_bit :: "u32 \<Rightarrow> u32" where
  "crc_bit crc = drop_bit 1 crc XOR (0xEDB88320 AND (- (crc AND 1)))"

definition crc_byte :: "u32 \<Rightarrow> u8 \<Rightarrow> u32" where
  "crc_byte crc byte = (crc_bit ^^ 8) (crc XOR ucast byte)"

definition crc32_update :: "u32 \<Rightarrow> bytes \<Rightarrow> u32" where
  "crc32_update crc data = foldl crc_byte crc data"

definition crc32_ieee :: "bytes \<Rightarrow> u32" where
  "crc32_ieee data = NOT (crc32_update 0xFFFFFFFF data)"

section \<open>Evaluation\<close>

lemma crc_byte_unfold:
  "crc_byte c b = crc_bit (crc_bit (crc_bit (crc_bit (crc_bit (crc_bit (crc_bit (crc_bit
     (c XOR ucast b))))))))"
  by (simp add: crc_byte_def eval_nat_numeral)

lemma crc32_update_simps [simp]:
  "crc32_update c [] = c" "crc32_update c (b # bs) = crc32_update (crc_byte c b) bs"
  by (simp_all add: crc32_update_def)

lemma crc32_update_append: "crc32_update c (xs @ ys) = crc32_update (crc32_update c xs) ys"
  by (simp add: crc32_update_def)

lemmas crc_eval = crc32_ieee_def crc_byte_unfold crc_bit_def

section \<open>Linearity and injectivity\<close>

lemma minus_and_1: "- (c AND 1 :: u32) = (if bit c 0 then - 1 else 0)"
  by (simp add: and_one_eq odd_iff_mod_2_eq_one [symmetric] bit_0 mod_2_eq_odd)

lemma crc_bit_alt: "crc_bit c = drop_bit 1 c XOR (if bit c 0 then 0xEDB88320 else 0)"
  by (simp add: crc_bit_def minus_and_1)

lemma crc_bit_xor: "crc_bit (a XOR b) = crc_bit a XOR crc_bit b"
  unfolding crc_bit_alt by (auto intro!: bit_word_eqI simp: bit_simps bit_xor_iff)

lemma crc_bit_0 [simp]: "crc_bit 0 = 0"
  by (simp add: crc_bit_def)

lemma crc_bits_xor: "(crc_bit ^^ n) (a XOR b) = (crc_bit ^^ n) a XOR (crc_bit ^^ n) b"
  by (induction n) (simp_all add: crc_bit_xor)

lemma bit_crc_bit_31: "bit (crc_bit c) 31 = bit c 0"
  unfolding crc_bit_alt using bit_imp_le_length [of c 32] by (auto simp: bit_simps)

lemma xor_left_cancel: "(c :: u32) XOR a = c XOR b \<longleftrightarrow> a = b"
proof
  assume eq: "c XOR a = c XOR b"
  have "a = c XOR (c XOR a)" by (simp add: xor.assoc [symmetric])
  also have "\<dots> = c XOR (c XOR b)" by (simp only: eq)
  also have "\<dots> = b" by (simp add: xor.assoc [symmetric])
  finally show "a = b" .
qed simp

lemma crc_bit_eq_0: "crc_bit c = 0 \<Longrightarrow> c = 0"
proof -
  assume z: "crc_bit c = 0"
  then have "\<not> bit c 0" using bit_crc_bit_31 [of c] by simp
  with z have d: "drop_bit 1 c = 0" by (simp add: crc_bit_alt)
  have "\<not> bit c n" for n
  proof (cases n)
    case (Suc m)
    with d show ?thesis using bit_drop_bit_eq [of 1 c] by (metis bit_0_eq bot_apply comp_apply plus_1_eq_Suc bot_bool_def)
  qed (use \<open>\<not> bit c 0\<close> in simp)
  then show "c = 0" by (auto intro: bit_word_eqI)
qed

lemma inj_crc_bit: "inj crc_bit"
proof (rule injI)
  fix a b assume "crc_bit a = crc_bit b"
  then have "crc_bit (a XOR b) = 0" by (simp add: crc_bit_xor)
  then have "a XOR b = a XOR a" using crc_bit_eq_0 by simp
  then show "a = b" by (simp only: xor_left_cancel)
qed

lemma inj_crc_bits: "inj (crc_bit ^^ n)"
  by (rule inj_fn [OF inj_crc_bit])

lemma crc_byte_inject: "crc_byte c b = crc_byte d b \<longleftrightarrow> c = d"
proof -
  have "c XOR x = d XOR x \<Longrightarrow> c = d" for x :: u32
    by (simp only: xor.commute [of _ x] xor_left_cancel)
  then show ?thesis using inj_crc_bits [of 8] by (auto simp: crc_byte_def inj_def)
qed

lemma crc32_update_inject: "crc32_update c xs = crc32_update d xs \<longleftrightarrow> c = d"
  by (induction xs arbitrary: c d) (simp_all add: crc_byte_inject)

section \<open>Bursts\<close>

text \<open>Up to four bytes enter the register as one little-endian word.\<close>

primrec le_word :: "bytes \<Rightarrow> u32" where
  "le_word [] = 0"
| "le_word (b # bs) = ucast b XOR push_bit 8 (le_word bs)"

lemma le_word_bit: "8 * length bs \<le> n \<Longrightarrow> \<not> bit (le_word bs) n"
proof (induction bs arbitrary: n)
  case (Cons b bs)
  then have "\<not> bit (le_word bs) (n - 8)" by simp
  with Cons.prems show ?case by (auto simp: bit_simps)
qed simp

lemma crc_bit_shift: "\<not> bit w 31 \<Longrightarrow> crc_bit (push_bit (Suc 0) w) = w"
proof (rule bit_word_eqI)
  fix n assume w: "\<not> bit w 31" and "n < LENGTH(32)"
  then have "n < 31 \<or> n = 31" by auto
  with w show "bit (crc_bit (push_bit (Suc 0) w)) n = bit w n"
    unfolding crc_bit_alt by (auto simp: bit_simps simp del: push_bit_Suc)
qed

lemma crc_bits_shift: "\<forall>i \<ge> 32 - n. \<not> bit w i \<Longrightarrow> n \<le> 32 \<Longrightarrow> (crc_bit ^^ n) (push_bit n w) = w"
proof (induction n arbitrary: w)
  case (Suc n)
  have "push_bit (Suc n) w = push_bit (Suc 0) (push_bit n w)"
    by (simp add: push_bit_push_bit del: push_bit_Suc)
  moreover have "\<not> bit (push_bit n w) 31" using Suc.prems by (auto simp: bit_simps)
  ultimately have "crc_bit (push_bit (Suc n) w) = push_bit n w" by (simp only: crc_bit_shift not_False_eq_True)
  moreover have "(crc_bit ^^ n) (push_bit n w) = w" using Suc by auto
  ultimately show ?case by (simp only: funpow_Suc_right comp_apply)
qed simp

lemma crc32_update_short:
  "length xs \<le> 4 \<Longrightarrow> crc32_update c xs = (crc_bit ^^ (8 * length xs)) (c XOR le_word xs)"
proof (induction xs arbitrary: c)
  case (Cons b bs)
  let ?w = "le_word bs"
  have "(crc_bit ^^ 8) (push_bit 8 ?w) = ?w"
    using Cons.prems le_word_bit [of bs] by (intro crc_bits_shift) auto
  then have "crc_byte c b XOR ?w = (crc_bit ^^ 8) ((c XOR ucast b) XOR push_bit 8 ?w)"
    by (simp add: crc_byte_def crc_bits_xor)
  moreover have "8 * length (b # bs) = 8 * length bs + 8" by simp
  moreover have "crc32_update c (b # bs) = (crc_bit ^^ (8 * length bs)) (crc_byte c b XOR ?w)"
    using Cons by simp
  ultimately show ?case by (simp only: funpow_add comp_apply le_word.simps xor.assoc)
qed simp

lemma le_word_inject:
  "length xs = length ys \<Longrightarrow> length xs \<le> 4 \<Longrightarrow> le_word xs = le_word ys \<Longrightarrow> xs = ys"
proof (induction xs ys rule: list_induct2)
  case (Cons x xs y ys)
  have bits: "bit (le_word (x # xs)) n = bit (le_word (y # ys)) n" for n using Cons.prems by simp
  have "bit x n = bit y n" for n
    using bits [of n] bit_u8_ge [of n x] bit_u8_ge [of n y] by (cases "n < 8") (auto simp: bit_simps)
  then have "x = y" by (auto intro: bit_word_eqI)
  moreover have "le_word xs = le_word ys"
  proof (rule bit_word_eqI)
    fix n assume "n < LENGTH(32)"
    show "bit (le_word xs) n = bit (le_word ys) n"
    proof (cases "n + 8 < 32")
      case True
      then show ?thesis using bits [of "n + 8"] by (simp add: bit_simps)
    next
      case False
      then show ?thesis using le_word_bit [of xs n] le_word_bit [of ys n] Cons by auto
    qed
  qed
  ultimately show ?case using Cons by simp
qed simp

lemma crc32_update_burst:
  assumes "length xs = length ys" and "length xs \<le> 4"
    and "crc32_update c (pre @ xs @ post) = crc32_update c (pre @ ys @ post)"
  shows "xs = ys"
proof -
  let ?c = "crc32_update c pre"
  from assms(3) have "crc32_update ?c xs = crc32_update ?c ys"
    by (simp add: crc32_update_append crc32_update_inject)
  then have "?c XOR le_word xs = ?c XOR le_word ys"
    using assms(1,2) inj_crc_bits [of "8 * length xs"] by (simp add: crc32_update_short inj_def)
  then have "le_word xs = le_word ys" by (simp only: xor_left_cancel)
  then show ?thesis by (rule le_word_inject [OF assms(1,2)])
qed

end
