(* ===== verification/Kv.thy ===== *)
theory Kv
  imports Kv_Device Crc
begin

text \<open>
  The key-value codec of \<open>crates/kv/src/lib.rs\<close>, function by function: the layout, the
  superblocks, the record scan, the append, the blanking, the public operations and the
  compaction flip, synchronous (\<open>flip\<close>) and incremental (\<open>flip_start\<close>, \<open>flip_step\<close>,
  \<open>flip_commit\<close>, \<open>maintain\<close>). Offsets and sizes are natural numbers (the code's \<open>u32\<close> offsets
  are bounded by the capacity); the generation keeps its 32 bits. A loop of the code is a
  recursive function whose state is the loop's variables. RAM state the code mutates beside the
  store (\<open>FlipState\<close>, the pending flip, \<open>MaintState\<close>) is the second component of the state.
\<close>

section \<open>Layout\<close>

definition MAX_VALUE :: nat where
  "MAX_VALUE = 256"

definition MAX_KEYS :: nat where
  "MAX_KEYS = 64"

definition KV_HEADER :: nat where
  "KV_HEADER = 8"

definition SUPER_MAGIC :: bytes where
  "SUPER_MAGIC = [0x54, 0x4B, 0x56, 0x32]"

definition SUPER_LEN :: nat where
  "SUPER_LEN = 12"

definition FLIP_THRESHOLD :: nat where
  "FLIP_THRESHOLD = 2 * (KV_HEADER + MAX_VALUE)"

definition record_size :: "nat \<Rightarrow> nat" where
  "record_size len = KV_HEADER + (len + 3) div 4 * 4"

definition entry_crc :: "bytes \<Rightarrow> bytes \<Rightarrow> u32" where
  "entry_crc hdr4 v = NOT (crc32_update (crc32_update 0xFFFFFFFF hdr4) v)"

definition region :: "nat \<Rightarrow> nat" where
  "region capacity = capacity div 4 * 4"

definition half_len :: "nat \<Rightarrow> nat" where
  "half_len capacity = (region capacity - 2 * SUPER_LEN) div 2 div 4 * 4"

definition half_base :: "nat \<Rightarrow> nat \<Rightarrow> nat" where
  "half_base capacity h = h * half_len capacity"

definition super_off :: "nat \<Rightarrow> nat \<Rightarrow> nat" where
  "super_off capacity h = region capacity - 2 * SUPER_LEN + h * SUPER_LEN"

section \<open>Superblocks\<close>

definition super_crc :: "bytes \<Rightarrow> u32" where
  "super_crc b = NOT (crc32_update 0xFFFFFFFF b)"

text \<open>The generation in the twelve bytes of a superblock, if they validate.\<close>

definition parse_super :: "bytes \<Rightarrow> u32 option" where
  "parse_super b =
     (if take 4 b \<noteq> SUPER_MAGIC then None
      else let g = le_u32 (b ! 4) (b ! 5) (b ! 6) (b ! 7);
               crc = le_u32 (b ! 8) (b ! 9) (b ! 10) (b ! 11)
        in if super_crc (take 8 b) \<noteq> crc then None else Some g)"

definition read_gen :: "nat \<Rightarrow> nat \<Rightarrow> (eeprom, u32 option) kvm" where
  "read_gen capacity h =
     kv_bind (kv_read (super_off capacity h) SUPER_LEN) (\<lambda>b. kv_return (parse_super b))"

definition write_gen :: "nat \<Rightarrow> nat \<Rightarrow> u32 \<Rightarrow> (eeprom, unit) kvm" where
  "write_gen capacity h gen =
     (let b = SUPER_MAGIC @ u32_le gen in kv_write (super_off capacity h) (b @ u32_le (super_crc b)))"

definition pick_active :: "u32 option \<Rightarrow> u32 option \<Rightarrow> (nat \<times> u32) option" where
  "pick_active g0 g1 =
     (case (g0, g1) of
        (Some a, Some b) \<Rightarrow> Some (if b \<le> a then (0, a) else (1, b))
      | (Some a, None) \<Rightarrow> Some (0, a)
      | (None, Some b) \<Rightarrow> Some (1, b)
      | (None, None) \<Rightarrow> None)"

definition active :: "nat \<Rightarrow> (eeprom, (nat \<times> u32) option) kvm" where
  "active capacity =
     kv_bind (read_gen capacity 0) (\<lambda>g0.
     kv_bind (read_gen capacity 1) (\<lambda>g1. kv_return (pick_active g0 g1)))"

section \<open>Record scan and append\<close>

definition hdr_tag :: "bytes \<Rightarrow> u16" where
  "hdr_tag hdr = le_u16 (hdr ! 0) (hdr ! 1)"

definition hdr_len :: "bytes \<Rightarrow> nat" where
  "hdr_len hdr = unat (le_u16 (hdr ! 2) (hdr ! 3))"

definition hdr_crc :: "bytes \<Rightarrow> u32" where
  "hdr_crc hdr = le_u32 (hdr ! 4) (hdr ! 5) (hdr ! 6) (hdr ! 7)"

lemma record_size_pos: "8 \<le> record_size n"
  by (simp add: record_size_def KV_HEADER_def)

lemma record_size_progress:
  "o' < a \<Longrightarrow> a - (o' + record_size n) < a - o'"
  "\<not> a < o' + 8 \<Longrightarrow> a - (o' + record_size n) < a - o'"
  using record_size_pos [of n] by linarith+

function scan_loop ::
  "nat \<Rightarrow> nat \<Rightarrow> u16 \<Rightarrow> nat \<Rightarrow> (nat \<times> nat) option \<Rightarrow> (eeprom, nat \<times> (nat \<times> nat) option) kvm"
where
  "scan_loop base area target o' found =
     (if o' + KV_HEADER > area then kv_return (o', found)
      else kv_bind (kv_read (base + o') KV_HEADER) (\<lambda>hdr.
        if hdr_tag hdr = 0 then kv_return (o', found)
        else let len = hdr_len hdr in
          if len > MAX_VALUE \<or> o' + record_size len > area then kv_return (o', found)
          else kv_bind (kv_read (base + o' + KV_HEADER) len) (\<lambda>val.
            if entry_crc (take 4 hdr) val \<noteq> hdr_crc hdr then kv_return (o', found)
            else scan_loop base area target (o' + record_size len)
              (if hdr_tag hdr = target then Some (o', len) else found))))"
  by pat_completeness auto
termination
  by (relation "measure (\<lambda>(base, area, target, o', found). area - o')")
    (auto simp: KV_HEADER_def record_size_progress)

definition scan_half ::
  "nat \<Rightarrow> nat \<Rightarrow> u16 \<Rightarrow> (eeprom, nat \<times> (nat \<times> nat) option) kvm"
where
  "scan_half base area target = scan_loop base area target 0 None"

text \<open>The bytes of a record, header, value and pad.\<close>

definition record_bytes :: "u16 \<Rightarrow> bytes \<Rightarrow> bytes" where
  "record_bytes key v =
     (let hdr4 = u16_le key @ u16_le (of_nat (length v))
      in hdr4 @ u32_le (entry_crc hdr4 v) @ v @ replicate (record_size (length v) - KV_HEADER - length v) 0)"

definition kv_append :: "nat \<Rightarrow> u16 \<Rightarrow> bytes \<Rightarrow> (eeprom, unit) kvm" where
  "kv_append at key v =
     kv_then (kv_write (at + 4) (drop 4 (record_bytes key v))) (kv_write at (take 4 (record_bytes key v)))"

definition clear_word :: "nat \<Rightarrow> (eeprom, unit) kvm" where
  "clear_word at =
     kv_bind (kv_read at 4) (\<lambda>word.
       if word \<noteq> replicate 4 0 then kv_write at (replicate 4 0) else kv_return ())"

definition append_end :: "nat \<Rightarrow> nat \<Rightarrow> nat \<Rightarrow> u16 \<Rightarrow> bytes \<Rightarrow> (eeprom, unit) kvm" where
  "append_end base area free key v =
     kv_then (clear_word (base + free))
       (let next = free + record_size (length v) in
        kv_then (if next + KV_HEADER \<le> area then clear_word (base + next) else kv_return ())
          (kv_append (base + free) key v))"

section \<open>Blanking\<close>

text \<open>The inner loop over the words of one chunk: \<open>Inl p\<close> is the early return at \<open>p\<close> with the
  budget spent, \<open>Inr b\<close> the chunk done with budget \<open>b\<close> left.\<close>

function blank_words :: "nat \<Rightarrow> bytes \<Rightarrow> nat \<Rightarrow> nat \<Rightarrow> (eeprom, nat + nat) kvm" where
  "blank_words at chunk w budget =
     (if w < length chunk then
        let wn = min (length chunk - w) 4 in
        if \<exists>b \<in> set (bslice w wn chunk). b \<noteq> 0 then
          if budget = 0 then kv_return (Inl w)
          else kv_then (kv_write (at + w) (replicate wn 0)) (blank_words at chunk (w + wn) (budget - 1))
        else blank_words at chunk (w + wn) budget
      else kv_return (Inr budget))"
  by pat_completeness auto
termination by (relation "measure (\<lambda>(at, chunk, w, budget). length chunk - w)") auto

function blank_loop :: "nat \<Rightarrow> nat \<Rightarrow> nat \<Rightarrow> nat \<Rightarrow> (eeprom, nat \<times> nat) kvm" where
  "blank_loop base len o' budget =
     (if o' < len then
        let n = min (len - o') 64 in
        kv_bind (kv_read (base + o') n) (\<lambda>chunk.
        kv_bind (blank_words (base + o') chunk 0 budget) (\<lambda>r.
          case r of Inl w \<Rightarrow> kv_return (o' + w, 0) | Inr b \<Rightarrow> blank_loop base len (o' + n) b))
      else kv_return (len, budget))"
  by pat_completeness auto
termination by (relation "measure (\<lambda>(base, len, o', budget). len - o')") auto

text \<open>\<open>blank_step_span\<close> returns the progress offset and what is left of the budget.\<close>

definition blank_step_span :: "nat \<Rightarrow> nat \<Rightarrow> nat \<Rightarrow> nat \<Rightarrow> (eeprom, nat \<times> nat) kvm" where
  "blank_step_span base len from budget = blank_loop base len from budget"

definition U32_MAX :: nat where
  "U32_MAX = 4294967295"

definition blank :: "nat \<Rightarrow> nat \<Rightarrow> (eeprom, unit) kvm" where
  "blank at len = kv_then (blank_step_span at len 0 U32_MAX) (kv_return ())"

section \<open>Mounting and reading\<close>

definition kv_init :: "nat \<Rightarrow> (eeprom, unit) kvm" where
  "kv_init capacity =
     kv_bind (active capacity) (\<lambda>a.
       if a \<noteq> None then kv_return ()
       else kv_then
         (if KV_HEADER \<le> half_len capacity then clear_word (half_base capacity 0) else kv_return ())
         (write_gen capacity 0 1))"

text \<open>\<open>get_bytes\<close>: the value's true length and the bytes copied into an \<open>out\<close> of length \<open>n\<close>.\<close>

definition get_bytes :: "nat \<Rightarrow> u16 \<Rightarrow> nat \<Rightarrow> (eeprom, (nat \<times> bytes) option) kvm" where
  "get_bytes capacity key n =
     (if key = 0 then kv_return None
      else kv_bind (active capacity) (\<lambda>a. case a of
        None \<Rightarrow> kv_return None
      | Some (h, _) \<Rightarrow>
          let base = half_base capacity h in
          kv_bind (scan_half base (half_len capacity) key) (\<lambda>s. case snd s of
            None \<Rightarrow> kv_return None
          | Some (off, len) \<Rightarrow>
              if len = 0 then kv_return None
              else kv_bind (kv_read (base + off + KV_HEADER) (min len n)) (\<lambda>out.
                kv_return (Some (len, out))))))"

definition generation :: "nat \<Rightarrow> (eeprom, u32) kvm" where
  "generation capacity =
     kv_bind (active capacity) (\<lambda>a. kv_return (case a of None \<Rightarrow> 0 | Some (_, g) \<Rightarrow> g))"

section \<open>The flip\<close>

primrec latest_put :: "u16 \<Rightarrow> nat \<Rightarrow> (u16 \<times> nat) list \<Rightarrow> (u16 \<times> nat) list option" where
  "latest_put tag o' [] = None"
| "latest_put tag o' (e # es) =
     (if fst e = tag then Some ((fst e, o') # es) else map_option ((#) e) (latest_put tag o' es))"

function walk_loop ::
  "nat \<Rightarrow> nat \<Rightarrow> nat \<Rightarrow> (u16 \<times> nat) list \<Rightarrow> (eeprom, nat \<times> (u16 \<times> nat) list) kvm"
where
  "walk_loop base area o' latest =
     (if o' + KV_HEADER > area then kv_return (o', latest)
      else kv_bind (kv_read (base + o') KV_HEADER) (\<lambda>hdr.
        if hdr_tag hdr = 0 then kv_return (o', latest)
        else let len = hdr_len hdr in
          if len > MAX_VALUE \<or> o' + record_size len > area then kv_return (o', latest)
          else kv_bind (kv_read (base + o' + KV_HEADER) len) (\<lambda>val.
            if entry_crc (take 4 hdr) val \<noteq> hdr_crc hdr then kv_return (o', latest)
            else (case latest_put (hdr_tag hdr) o' latest of
                Some latest' \<Rightarrow> walk_loop base area (o' + record_size len) latest'
              | None \<Rightarrow>
                  if MAX_KEYS \<le> length latest then kv_raise TooManyKeys
                  else walk_loop base area (o' + record_size len) (latest @ [(hdr_tag hdr, o')])))))"
  by pat_completeness auto
termination
  by (relation "measure (\<lambda>(base, area, o', latest). area - o')")
    (auto simp: KV_HEADER_def record_size_progress)

definition walk_latest :: "nat \<Rightarrow> nat \<Rightarrow> (eeprom, nat \<times> (u16 \<times> nat) list) kvm" where
  "walk_latest base area = walk_loop base area 0 []"

function copy_loop ::
  "nat \<Rightarrow> nat \<Rightarrow> nat \<Rightarrow> nat \<Rightarrow> (u16 \<times> nat) list \<Rightarrow> nat \<Rightarrow> nat \<Rightarrow> (eeprom, unit) kvm"
where
  "copy_loop src_base dst_base half src_free latest o' wr =
     (if o' < src_free then
        kv_bind (kv_read (src_base + o') KV_HEADER) (\<lambda>hdr.
        if hdr_tag hdr = 0 then kv_return ()
        else let len = hdr_len hdr; size = record_size len in
          if len \<noteq> 0 \<and> (hdr_tag hdr, o') \<in> set latest then
            if wr + size > half then kv_raise Full
            else kv_bind (kv_read (src_base + o') size) (\<lambda>tmp.
              kv_then (kv_write (dst_base + wr) tmp)
                (copy_loop src_base dst_base half src_free latest (o' + size) (wr + size)))
          else copy_loop src_base dst_base half src_free latest (o' + size) wr)
      else kv_return ())"
  by pat_completeness auto
termination
  by (relation "measure (\<lambda>(src_base, dst_base, half, src_free, latest, o', wr). src_free - o')")
    (auto simp: record_size_progress)

definition flip :: "nat \<Rightarrow> nat \<Rightarrow> u32 \<Rightarrow> (eeprom, unit) kvm" where
  "flip capacity src_h src_gen =
     (let half = half_len capacity; src_base = half_base capacity src_h;
          dst_h = 1 - src_h; dst_base = half_base capacity dst_h in
      kv_bind (walk_latest src_base half) (\<lambda>(src_free, latest).
      kv_then (blank dst_base half)
      (kv_then (copy_loop src_base dst_base half src_free latest 0 0)
        (write_gen capacity dst_h (src_gen + 1)))))"

definition compact :: "nat \<Rightarrow> (eeprom, unit) kvm" where
  "compact capacity =
     kv_bind (active capacity) (\<lambda>a. case a of None \<Rightarrow> kv_return () | Some (h, g) \<Rightarrow> flip capacity h g)"

definition wipe :: "nat \<Rightarrow> (eeprom, unit) kvm" where
  "wipe capacity =
     (let half = half_len capacity in
      kv_bind (active capacity) (\<lambda>a. case a of
        Some (h, g) \<Rightarrow>
          let dst = 1 - h in
          kv_then (blank (half_base capacity dst) half)
          (kv_then (write_gen capacity dst (g + 1)) (blank (half_base capacity h) half))
      | None \<Rightarrow>
          kv_then (blank (half_base capacity 1) half)
          (kv_then (write_gen capacity 1 1)
          (kv_then (blank (half_base capacity 0) half) (blank (super_off capacity 0) SUPER_LEN)))))"

declare scan_loop.simps [simp del] blank_words.simps [simp del] blank_loop.simps [simp del]
  walk_loop.simps [simp del] copy_loop.simps [simp del]

end
