(* ===== verification/Kv_Incremental.thy ===== *)
theory Kv_Incremental
  imports Kv
begin

text \<open>
  The incremental flip of \<open>crates/kv/src/lib.rs\<close> (\<open>FlipState\<close>, \<open>flip_start\<close>, \<open>flip_step\<close>,
  \<open>flip_commit\<close>), the pre-blanking cursor, the maintenance driver, and the public writes, which
  take the pending flip along: \<open>set_bytes_with\<close>, \<open>delete_with\<close>, \<open>compact_with\<close>. The drive loop of
  \<open>flip_commit\<close> ends because each slice that reports more work has moved one of the three
  progress offsets; that is its termination proof.
\<close>

section \<open>Space and blankness queries\<close>

definition words :: "nat \<Rightarrow> nat" where
  "words len = (len + 3) div 4"

definition free_bytes :: "nat \<Rightarrow> (eeprom, nat) kvm" where
  "free_bytes capacity =
     (let half = half_len capacity in
      kv_bind (active capacity) (\<lambda>a. case a of
        Some (h, _) \<Rightarrow> kv_bind (scan_half (half_base capacity h) half 0) (\<lambda>s. kv_return (half - fst s))
      | None \<Rightarrow> kv_return half))"

primrec live_total :: "nat \<Rightarrow> (u16 \<times> nat) list \<Rightarrow> nat \<Rightarrow> (eeprom, nat) kvm" where
  "live_total base [] acc = kv_return acc"
| "live_total base (e # es) acc =
     kv_bind (kv_read (base + snd e) KV_HEADER) (\<lambda>hdr.
       let len = hdr_len hdr in
       live_total base es (if len \<noteq> 0 then acc + record_size len else acc))"

definition live_bytes :: "nat \<Rightarrow> (eeprom, nat) kvm" where
  "live_bytes capacity =
     kv_bind (active capacity) (\<lambda>a. case a of
       None \<Rightarrow> kv_return 0
     | Some (h, _) \<Rightarrow>
         let base = half_base capacity h in
         kv_bind (walk_latest base (half_len capacity)) (\<lambda>(_, latest). live_total base latest 0))"

function blank_check :: "nat \<Rightarrow> nat \<Rightarrow> nat \<Rightarrow> (eeprom, bool) kvm" where
  "blank_check base half o' =
     (if o' < half then
        let n = min (half - o') 64 in
        kv_bind (kv_read (base + o') n) (\<lambda>chunk.
          if \<exists>b \<in> set chunk. b \<noteq> 0 then kv_return False else blank_check base half (o' + n))
      else kv_return True)"
  by pat_completeness auto
termination by (relation "measure (\<lambda>(base, half, o'). half - o')") auto

definition dead_half_blank :: "nat \<Rightarrow> (eeprom, bool) kvm" where
  "dead_half_blank capacity =
     kv_bind (active capacity) (\<lambda>a. case a of
       None \<Rightarrow> kv_return True
     | Some (h, _) \<Rightarrow> blank_check (half_base capacity (1 - h)) (half_len capacity) 0)"

section \<open>Pre-blanking\<close>

record blank_cursor =
  bc_generation :: u32
  bc_off :: nat

definition blank_cursor_new :: blank_cursor where
  "blank_cursor_new = \<lparr>bc_generation = 0, bc_off = 0\<rparr>"

definition blank_dead_step :: "nat \<Rightarrow> nat \<Rightarrow> (eeprom \<times> blank_cursor, bool) kvm" where
  "blank_dead_step capacity budget_words =
     kv_bind (on_dev (active capacity)) (\<lambda>a. case a of
       None \<Rightarrow> kv_return False
     | Some (h, g) \<Rightarrow>
         let half = half_len capacity in
         kv_then (kv_modify_ram (\<lambda>cur. if bc_generation cur \<noteq> g then \<lparr>bc_generation = g, bc_off = 0\<rparr> else cur))
         (kv_bind kv_ram (\<lambda>cur.
           if half \<le> bc_off cur then kv_return False
           else kv_bind (on_dev (blank_step_span (half_base capacity (1 - h)) half (bc_off cur) budget_words))
             (\<lambda>(off, _). kv_then (kv_modify_ram (\<lambda>cur. cur\<lparr>bc_off := off\<rparr>)) (kv_return (off < half))))))"

section \<open>The incremental flip\<close>

record flip_state =
  fs_src_h :: nat
  fs_src_gen :: u32
  fs_src_end :: nat
  fs_latest :: "(u16 \<times> nat) list"
  fs_blank_off :: nat
  fs_read_off :: nat
  fs_write_off :: nat
  fs_rec_copied :: nat

definition flip_start :: "nat \<Rightarrow> (eeprom, flip_state option) kvm" where
  "flip_start capacity =
     kv_bind (active capacity) (\<lambda>a. case a of
       None \<Rightarrow> kv_return None
     | Some (h, g) \<Rightarrow>
         kv_bind (walk_latest (half_base capacity h) (half_len capacity)) (\<lambda>(src_end, latest).
           kv_return (Some \<lparr>fs_src_h = h, fs_src_gen = g, fs_src_end = src_end, fs_latest = latest,
             fs_blank_off = 0, fs_read_off = 0, fs_write_off = 0, fs_rec_copied = 0\<rparr>)))"

definition flip_fresh :: "nat \<Rightarrow> flip_state \<Rightarrow> (eeprom, bool) kvm" where
  "flip_fresh capacity st =
     kv_bind (active capacity) (\<lambda>a. kv_return (a = Some (fs_src_h st, fs_src_gen st)))"

text \<open>The inner copy loop of \<open>flip_step\<close>: \<open>None\<close> when the budget ran out inside the record,
  otherwise the budget left once the whole record is copied.\<close>

function fs_copy_rec ::
  "nat \<Rightarrow> nat \<Rightarrow> nat \<Rightarrow> nat \<Rightarrow> eeprom \<Rightarrow> flip_state \<Rightarrow> (kv_error + nat option) \<times> (eeprom \<times> flip_state)"
where
  "fs_copy_rec src_base dst_base sz budget d st =
     (if fs_rec_copied st < sz then
        if budget = 0 then (Inr None, (d, st))
        else let chunk = min (sz - fs_rec_copied st) (min (budget * 4) U32_MAX) in
          (case kv_read (src_base + fs_read_off st + fs_rec_copied st) chunk d of
             (Inl e, d1) \<Rightarrow> (Inl e, (d1, st))
           | (Inr tmp, d1) \<Rightarrow>
               (case kv_write (dst_base + fs_write_off st + fs_rec_copied st) tmp d1 of
                  (Inl e, d2) \<Rightarrow> (Inl e, (d2, st))
                | (Inr _, d2) \<Rightarrow>
                    fs_copy_rec src_base dst_base sz (budget - words chunk) d2
                      (st\<lparr>fs_rec_copied := fs_rec_copied st + chunk\<rparr>)))
      else (Inr (Some budget), (d, st)))"
  by pat_completeness auto
termination
  by (relation "measure (\<lambda>(src_base, dst_base, sz, budget, d, st). sz - fs_rec_copied st)")
    (auto simp: U32_MAX_def)

declare fs_copy_rec.simps [simp del] blank_check.simps [simp del]

lemma fs_copy_rec_frame:
  "fs_copy_rec src dst sz budget d st = (r, (d', st')) \<Longrightarrow>
     \<exists>k \<ge> fs_rec_copied st. st' = st\<lparr>fs_rec_copied := k\<rparr> \<and>
       (r = Inr None \<longrightarrow> k < sz \<and> (0 < budget \<longrightarrow> fs_rec_copied st < k))"
proof (induction src dst sz budget d st rule: fs_copy_rec.induct)
  case (1 src dst sz budget d st)
  show ?case
  proof (cases "fs_rec_copied st < sz \<and> budget \<noteq> 0")
    case False
    with "1.prems" show ?thesis
      by (auto simp: fs_copy_rec.simps [of src dst sz budget] split: if_splits intro!: exI [of _ "fs_rec_copied st"])
  next
    case True
    let ?chunk = "min (sz - fs_rec_copied st) (min (budget * 4) U32_MAX)"
    have chunk: "0 < ?chunk" using True by (simp add: U32_MAX_def)
    obtain r1 d1 where rd: "kv_read (src + fs_read_off st + fs_rec_copied st) ?chunk d = (r1, d1)" by fastforce
    show ?thesis
    proof (cases r1)
      case (Inl e)
      with True rd "1.prems" show ?thesis
        by (auto simp: Let_def fs_copy_rec.simps [of src dst sz budget] intro!: exI [of _ "fs_rec_copied st"])
    next
      case (Inr tmp)
      obtain r2 d2 where wr: "kv_write (dst + fs_write_off st + fs_rec_copied st) tmp d1 = (r2, d2)" by fastforce
      show ?thesis
      proof (cases r2)
        case (Inl e)
        with True rd Inr wr "1.prems" show ?thesis
        by (auto simp: Let_def fs_copy_rec.simps [of src dst sz budget] intro!: exI [of _ "fs_rec_copied st"])
      next
        case R2: (Inr u)
        have rec: "fs_copy_rec src dst sz (budget - words ?chunk) d2
            (st\<lparr>fs_rec_copied := fs_rec_copied st + ?chunk\<rparr>) = (r, (d', st'))"
          using True rd Inr wr R2 "1.prems" by (simp add: Let_def fs_copy_rec.simps [of src dst sz budget])
        obtain k where "fs_rec_copied st + ?chunk \<le> k" "st' = st\<lparr>fs_rec_copied := k\<rparr>" "r = Inr None \<longrightarrow> k < sz"
          using "1.IH" [OF _ _ refl rd [symmetric] Inr wr [symmetric] R2] rec True by auto
        with chunk show ?thesis by (intro exI [of _ k]) linarith
      qed
    qed
  qed
qed

text \<open>One turn of the outer copy loop of \<open>flip_step\<close> (phase B): \<open>Inl\<close> leaves the loop with the
  result of \<open>flip_step\<close> (\<open>True\<close> when work remains), \<open>Inr\<close> goes on with the budget left.\<close>

definition fs_turn ::
  "nat \<Rightarrow> nat \<Rightarrow> nat \<Rightarrow> nat \<Rightarrow> eeprom \<Rightarrow> flip_state \<Rightarrow>
     ((kv_error + bool) + nat) \<times> (eeprom \<times> flip_state)"
where
  "fs_turn src_base dst_base half budget d st =
     (if fs_read_off st < fs_src_end st then
        (case kv_read (src_base + fs_read_off st) KV_HEADER d of
           (Inl e, d1) \<Rightarrow> (Inl (Inl e), (d1, st))
         | (Inr hdr, d1) \<Rightarrow>
             if hdr_tag hdr = 0 then (Inl (Inr False), (d1, st))
             else let len = hdr_len hdr; sz = record_size len in
               if (hdr_tag hdr, fs_read_off st) \<notin> set (fs_latest st) \<or> len = 0 then
                 (Inr budget, (d1, st\<lparr>fs_read_off := fs_read_off st + sz\<rparr>))
               else if fs_write_off st + sz > half then (Inl (Inl Full), (d1, st))
               else (case fs_copy_rec src_base dst_base sz budget d1 st of
                   (Inl e, (d2, st2)) \<Rightarrow> (Inl (Inl e), (d2, st2))
                 | (Inr None, (d2, st2)) \<Rightarrow> (Inl (Inr True), (d2, st2))
                 | (Inr (Some budget'), (d2, st2)) \<Rightarrow>
                     (Inr budget', (d2, st2\<lparr>fs_rec_copied := 0, fs_read_off := fs_read_off st2 + sz,
                                            fs_write_off := fs_write_off st2 + sz\<rparr>))))
      else (Inl (Inr False), (d, st)))"

text \<open>What a turn keeps of the plan, and the progress it makes.\<close>

definition same_plan :: "flip_state \<Rightarrow> flip_state \<Rightarrow> bool" where
  "same_plan st st' \<longleftrightarrow>
     fs_src_h st' = fs_src_h st \<and> fs_src_gen st' = fs_src_gen st \<and> fs_src_end st' = fs_src_end st \<and>
     fs_latest st' = fs_latest st \<and> fs_blank_off st' = fs_blank_off st"

lemma same_plan_refl [simp]: "same_plan st st"
  by (simp add: same_plan_def)

lemma same_plan_trans: "same_plan a b \<Longrightarrow> same_plan b c \<Longrightarrow> same_plan a c"
  by (simp add: same_plan_def)

lemma hdr_len_le: "hdr_len hdr < 65536"
  using unat_less_size [of "le_u16 (hdr ! 2) (hdr ! 3)"] by (simp add: hdr_len_def)

lemma record_size_mono: "a \<le> b \<Longrightarrow> record_size a \<le> record_size b"
  by (auto simp: record_size_def intro: div_le_mono)

lemma fs_turn_frame:
  assumes "fs_turn src dst half budget d st = (r, (d', st'))"
  shows "same_plan st st'" and "fs_read_off st \<le> fs_read_off st'"
    and "r = Inr b \<Longrightarrow> fs_read_off st < fs_src_end st \<and> fs_read_off st + 8 \<le> fs_read_off st'"
    and "r = Inl (Inr True) \<Longrightarrow> fs_read_off st' = fs_read_off st \<and> fs_rec_copied st' < 70000 \<and>
      (0 < budget \<longrightarrow> fs_rec_copied st < fs_rec_copied st')"
proof -
  have big: "record_size (hdr_len hdr) < 70000" for hdr
    using record_size_mono [of "hdr_len hdr" 65536] hdr_len_le [of hdr]
    by (simp add: record_size_def [of 65536] KV_HEADER_def)
  note defs = fs_turn_def Let_def same_plan_def record_size_pos
  show "same_plan st st'" and "fs_read_off st \<le> fs_read_off st'"
    using assms by (auto simp: defs split: if_splits prod.splits sum.splits option.splits dest!: fs_copy_rec_frame)
  show "r = Inr b \<Longrightarrow> fs_read_off st < fs_src_end st \<and> fs_read_off st + 8 \<le> fs_read_off st'"
    using assms by (auto simp: defs split: if_splits prod.splits sum.splits option.splits dest!: fs_copy_rec_frame)
  show "r = Inl (Inr True) \<Longrightarrow> fs_read_off st' = fs_read_off st \<and> fs_rec_copied st' < 70000 \<and>
      (0 < budget \<longrightarrow> fs_rec_copied st < fs_rec_copied st')"
    using assms big
    by (auto simp: defs split: if_splits prod.splits sum.splits option.splits dest!: fs_copy_rec_frame
        intro: less_trans)
qed

lemma fs_turn_continue:
  "fs_turn src dst half budget d st = (Inr b, (d', st')) \<Longrightarrow>
     fs_src_end st' - fs_read_off st' < fs_src_end st - fs_read_off st"
  using fs_turn_frame(1,3) by (fastforce simp: same_plan_def)

function fs_copy ::
  "nat \<Rightarrow> nat \<Rightarrow> nat \<Rightarrow> nat \<Rightarrow> eeprom \<Rightarrow> flip_state \<Rightarrow> (kv_error + bool) \<times> (eeprom \<times> flip_state)"
where
  "fs_copy src_base dst_base half budget d st =
     (case fs_turn src_base dst_base half budget d st of
        (Inl r, (d', st')) \<Rightarrow> (r, (d', st'))
      | (Inr budget', (d', st')) \<Rightarrow> fs_copy src_base dst_base half budget' d' st')"
  by pat_completeness auto
termination
  by (relation "measure (\<lambda>(src_base, dst_base, half, budget, d, st). fs_src_end st - fs_read_off st)")
    (auto simp: same_plan_def dest!: fs_turn_continue [OF sym])

declare fs_copy.simps [simp del]

lemma fs_copy_frame:
  "fs_copy src dst half budget d st = (r, (d', st')) \<Longrightarrow>
     same_plan st st' \<and> fs_read_off st \<le> fs_read_off st' \<and>
     (r = Inr True \<longrightarrow> fs_rec_copied st' < 70000 \<and>
       (fs_read_off st < fs_src_end st \<and> fs_read_off st < fs_read_off st' \<or>
        fs_read_off st' = fs_read_off st \<and> (0 < budget \<longrightarrow> fs_rec_copied st < fs_rec_copied st')))"
proof (induction src dst half budget d st rule: fs_copy.induct)
  case (1 src dst half budget d st)
  obtain t d1 st1 where turn: "fs_turn src dst half budget d st = (t, (d1, st1))" by (metis prod.exhaust)
  note F = fs_turn_frame [OF turn]
  show ?case
  proof (cases t)
    case (Inl r1)
    with "1.prems" turn have "r1 = r" "d1 = d'" "st1 = st'" by (auto simp: fs_copy.simps [of src])
    with F(1,2) F(4) Inl show ?thesis by auto
  next
    case (Inr b)
    with "1.prems" turn have "fs_copy src dst half b d1 st1 = (r, (d', st'))" by (simp add: fs_copy.simps [of src])
    then have IH: "same_plan st1 st'" "fs_read_off st1 \<le> fs_read_off st'" "r = Inr True \<longrightarrow> fs_rec_copied st' < 70000"
      using "1.IH" [OF turn [symmetric] Inr refl] by auto
    with F(3) [OF Inr] same_plan_trans [OF F(1) IH(1)] show ?thesis by auto
  qed
qed

text \<open>\<open>flip_step\<close>: blank the destination (phase A), then copy (phase B).\<close>

definition flip_step :: "nat \<Rightarrow> nat \<Rightarrow> (eeprom \<times> flip_state, bool) kvm" where
  "flip_step capacity budget_words =
     kv_bind kv_ram (\<lambda>st0.
     kv_bind (on_dev (flip_fresh capacity st0)) (\<lambda>fresh.
     if \<not> fresh then kv_raise Stale
     else
       let half = half_len capacity; src_base = half_base capacity (fs_src_h st0);
           dst_base = half_base capacity (1 - fs_src_h st0) in
       kv_bind
         (if fs_blank_off st0 < half then
            kv_bind (on_dev (blank_step_span dst_base half (fs_blank_off st0) budget_words)) (\<lambda>(off, budget).
              kv_then (kv_modify_ram (\<lambda>st. st\<lparr>fs_blank_off := off\<rparr>)) (kv_return budget))
          else kv_return budget_words) (\<lambda>budget.
       \<lambda>(d, st). if fs_blank_off st < half then (Inr True, (d, st))
         else fs_copy src_base dst_base half budget d st)))"

text \<open>Progress: a blanking slice that stops short of the span with some budget has moved.\<close>

lemma blank_words_progress:
  "blank_words at chunk w budget d = (Inr (Inl p), d') \<Longrightarrow> w \<le> p \<and> p < length chunk \<and> (0 < budget \<longrightarrow> w < p)"
proof (induction at chunk w budget arbitrary: d rule: blank_words.induct)
  case (1 at chunk w budget)
  let ?wn = "min (length chunk - w) 4"
  let ?dirty = "\<exists>b \<in> set (bslice w ?wn chunk). b \<noteq> 0"
  have w: "w < length chunk" using "1.prems" by (auto simp: blank_words.simps [of at chunk w budget] split: if_splits)
  then have wn: "0 < ?wn" by simp
  consider "?dirty" "budget = 0" | "?dirty" "0 < budget" | "\<not> ?dirty" by blast
  then show ?case
  proof cases
    case 1
    with "1.prems" w show ?thesis by (simp add: blank_words.simps [of at chunk w 0] Let_def)
  next
    case 2
    with "1.prems" w obtain u d1 where "kv_write (at + w) (replicate ?wn 0) d = (Inr u, d1)"
      and "blank_words at chunk (w + ?wn) (budget - 1) d1 = (Inr (Inl p), d')"
      by (auto simp: blank_words.simps [of at chunk w budget] Let_def kv_then_Inr_iff)
    with "1.IH"(1) [OF w refl 2(1), of d1] 2 wn show ?thesis by auto
  next
    case 3
    with "1.prems" w have "blank_words at chunk (w + ?wn) budget d = (Inr (Inl p), d')"
      by (simp add: blank_words.simps [of at chunk w budget] Let_def)
    from "1.IH"(2) [OF w refl 3 this] wn show ?thesis by linarith
  qed
qed

lemma blank_loop_progress:
  "blank_loop base len o' budget d = (Inr (p, b), d') \<Longrightarrow> o' \<le> len \<Longrightarrow>
     o' \<le> p \<and> p \<le> len \<and> (0 < budget \<longrightarrow> o' < len \<longrightarrow> o' < p)"
proof (induction base len o' budget arbitrary: d rule: blank_loop.induct)
  case (1 base len o' budget)
  show ?case
  proof (cases "o' < len")
    case False
    with "1.prems" show ?thesis by (simp add: blank_loop.simps [of base len o' budget])
  next
    case True
    let ?n = "min (len - o') 64"
    from True "1.prems" obtain chunk r d1 d2 where rd: "kv_read (base + o') ?n d = (Inr chunk, d1)"
      and bw: "blank_words (base + o') chunk 0 budget d1 = (Inr r, d2)"
      and res: "(case r of Inl w \<Rightarrow> kv_return (o' + w, 0) | Inr b \<Rightarrow> blank_loop base len (o' + ?n) b) d2 = (Inr (p, b), d')"
      by (auto simp: blank_loop.simps [of base len o' budget] Let_def kv_bind_Inr_iff)
    have len: "length chunk = ?n"
      using rd by (auto simp: kv_read_def ee_read_def split: if_splits)
    show ?thesis
    proof (cases r)
      case (Inl w)
      with blank_words_progress bw len res True show ?thesis by fastforce
    next
      case (Inr b1)
      with res have "blank_loop base len (o' + ?n) b1 d2 = (Inr (p, b), d')" by simp
      moreover have "o' + ?n \<le> len" "o' < o' + ?n" using True by auto
      ultimately show ?thesis using "1.IH" [OF True refl] by fastforce
    qed
  qed
qed

lemma flip_step_progress:
  assumes "flip_step capacity budget (d, st) = (Inr True, (d', st'))" and "0 < budget"
  shows "fs_src_end st' = fs_src_end st \<and>
     (half_len capacity - fs_blank_off st' < half_len capacity - fs_blank_off st \<or>
      fs_blank_off st' = fs_blank_off st \<and>
        (fs_src_end st - fs_read_off st' < fs_src_end st - fs_read_off st \<or>
         fs_read_off st' = fs_read_off st \<and> 70000 - fs_rec_copied st' < 70000 - fs_rec_copied st))"
proof (cases "fs_blank_off st < half_len capacity")
  case True
  let ?step = "blank_step_span (half_base capacity (1 - fs_src_h st)) (half_len capacity) (fs_blank_off st) budget"
  let ?copy = "fs_copy (half_base capacity (fs_src_h st)) (half_base capacity (1 - fs_src_h st)) (half_len capacity)"
  from assms(1) True obtain d0 d1 off b where bl: "?step d0 = (Inr (off, b), d1)"
    and res: "(if off < half_len capacity then (Inr True, (d1, st\<lparr>fs_blank_off := off\<rparr>))
         else ?copy b d1 (st\<lparr>fs_blank_off := off\<rparr>)) = (Inr True, (d', st'))"
    by (auto simp: flip_step_def Let_def kv_bind_Inr_iff kv_then_Inr_iff kv_ram_def on_dev_def kv_modify_ram_def
        split: if_splits prod.splits)
  from blank_loop_progress [OF bl [unfolded blank_step_span_def]] True assms(2) have "fs_blank_off st < off" by simp
  moreover have "fs_src_end st' = fs_src_end st \<and> fs_blank_off st' = off"
    using res by (auto simp: same_plan_def split: if_splits dest!: fs_copy_frame)
  ultimately show ?thesis using True by auto
next
  case False
  with assms(1) obtain d1 where "fs_copy (half_base capacity (fs_src_h st)) (half_base capacity (1 - fs_src_h st))
           (half_len capacity) budget d1 st = (Inr True, (d', st'))"
    by (auto simp: flip_step_def Let_def kv_bind_Inr_iff kv_ram_def on_dev_def split: if_splits prod.splits)
  from fs_copy_frame [OF this] assms(2) show ?thesis by (auto simp: same_plan_def)
qed

function flip_drive :: "nat \<Rightarrow> eeprom \<Rightarrow> flip_state \<Rightarrow> (kv_error + unit) \<times> (eeprom \<times> flip_state)" where
  "flip_drive capacity d st =
     (case flip_step capacity U32_MAX (d, st) of
        (Inl e, s) \<Rightarrow> (Inl e, s)
      | (Inr again, (d', st')) \<Rightarrow> if again then flip_drive capacity d' st' else (Inr (), (d', st')))"
  by pat_completeness auto
termination
  by (relation "measures [\<lambda>(capacity, d, st). half_len capacity - fs_blank_off st,
      \<lambda>(capacity, d, st). fs_src_end st - fs_read_off st, \<lambda>(capacity, d, st). 70000 - fs_rec_copied st]")
    (auto simp: U32_MAX_def dest!: flip_step_progress [OF sym])

declare flip_drive.simps [simp del]

section \<open>Commit and the public writes\<close>

text \<open>The tail catch-up of \<open>flip_commit\<close>: every intact record past \<open>src_end\<close>, copied whole.\<close>

function tail_loop :: "nat \<Rightarrow> nat \<Rightarrow> nat \<Rightarrow> nat \<Rightarrow> nat \<Rightarrow> (eeprom, unit) kvm" where
  "tail_loop src_base dst_base half o' write_off =
     (if o' + KV_HEADER > half then kv_return ()
      else kv_bind (kv_read (src_base + o') KV_HEADER) (\<lambda>hdr.
        if hdr_tag hdr = 0 then kv_return ()
        else let len = hdr_len hdr; sz = record_size len in
          if len > MAX_VALUE \<or> o' + sz > half then kv_return ()
          else kv_bind (kv_read (src_base + o' + KV_HEADER) (sz - KV_HEADER)) (\<lambda>body.
            if entry_crc (take 4 hdr) (take len body) \<noteq> hdr_crc hdr then kv_return ()
            else if write_off + sz > half then kv_raise Full
            else kv_then (kv_write (dst_base + write_off) (hdr @ body))
              (tail_loop src_base dst_base half (o' + sz) (write_off + sz)))))"
  by pat_completeness auto
termination
  by (relation "measure (\<lambda>(src_base, dst_base, half, o', write_off). half - o')")
    (auto simp: KV_HEADER_def record_size_progress)

declare tail_loop.simps [simp del]

text \<open>\<open>flip_commit\<close>; every caller owns the flip state it passes and drops it afterwards.\<close>

definition flip_commit :: "nat \<Rightarrow> flip_state \<Rightarrow> (eeprom, unit) kvm" where
  "flip_commit capacity st0 = (\<lambda>d.
     case flip_drive capacity d st0 of
       (Inl e, (d', _)) \<Rightarrow> (Inl e, d')
     | (Inr _, (d', st)) \<Rightarrow>
         kv_then
           (tail_loop (half_base capacity (fs_src_h st)) (half_base capacity (1 - fs_src_h st))
              (half_len capacity) (fs_src_end st) (fs_write_off st))
           (write_gen capacity (1 - fs_src_h st) (fs_src_gen st + 1)) d')"

text \<open>The end of \<open>set_bytes_with\<close> on a full half, once the flip is done: find the fresh half's log
  end, flip once more if a finished incremental flip packed too loosely, append.\<close>

definition append_after_flip :: "nat \<Rightarrow> u16 \<Rightarrow> bytes \<Rightarrow> bool \<Rightarrow> (eeprom, unit) kvm" where
  "append_after_flip capacity key v finished_pending =
     (let half = half_len capacity; needed = record_size (length v) in
      kv_bind (active capacity) (\<lambda>a2. case a2 of
        None \<Rightarrow> kv_raise Full
      | Some (h2, g2) \<Rightarrow>
          kv_bind (scan_half (half_base capacity h2) half key) (\<lambda>(free2, _).
          kv_bind
            (if free2 + needed > half \<and> finished_pending then
               kv_then (flip capacity h2 g2)
               (kv_bind (active capacity) (\<lambda>a3. case a3 of
                  None \<Rightarrow> kv_raise Full
                | Some (h3, _) \<Rightarrow>
                    kv_bind (scan_half (half_base capacity h3) half key) (\<lambda>(free3, _).
                      kv_return (h3, free3))))
             else kv_return (h2, free2)) (\<lambda>(h4, free4).
          if free4 + needed > half then kv_raise Full
          else append_end (half_base capacity h4) half free4 key v))))"

text \<open>\<open>set_bytes_with\<close>: the state is the store and the pending flip, which \<open>pending.take()\<close> empties.\<close>

definition set_bytes_with :: "nat \<Rightarrow> u16 \<Rightarrow> bytes \<Rightarrow> (eeprom \<times> flip_state option, unit) kvm" where
  "set_bytes_with capacity key v =
     (if key = 0 then kv_raise InvalidKey
      else if length v > MAX_VALUE then kv_raise ValueTooLarge
      else kv_bind (on_dev (active capacity)) (\<lambda>a.
        kv_bind (case a of Some x \<Rightarrow> kv_return x
                 | None \<Rightarrow> kv_then (on_dev (kv_init capacity)) (kv_return (0, 1))) (\<lambda>(h, g).
        let half = half_len capacity; needed = record_size (length v); base = half_base capacity h in
        kv_bind (on_dev (scan_half base half key)) (\<lambda>(free, _).
        if free + needed \<le> half then on_dev (append_end base half free key v)
        else
          kv_bind kv_ram (\<lambda>pending.
          kv_then (kv_modify_ram (\<lambda>_. None))
          (kv_bind (case pending of
              Some st \<Rightarrow>
                if (fs_src_h st, fs_src_gen st) = (h, g)
                then kv_then (on_dev (flip_commit capacity st)) (kv_return True)
                else kv_then (on_dev (flip capacity h g)) (kv_return False)
            | None \<Rightarrow> kv_then (on_dev (flip capacity h g)) (kv_return False)) (\<lambda>finished_pending.
          on_dev (append_after_flip capacity key v finished_pending))))))))"

text \<open>An operation with \<open>&mut None\<close> for the pending flip.\<close>

definition no_pending :: "(eeprom \<times> flip_state option, 'a) kvm \<Rightarrow> (eeprom, 'a) kvm" where
  "no_pending m = (\<lambda>d. case m (d, None) of (r, (d', _)) \<Rightarrow> (r, d'))"

definition set_bytes :: "nat \<Rightarrow> u16 \<Rightarrow> bytes \<Rightarrow> (eeprom, unit) kvm" where
  "set_bytes capacity key v = no_pending (set_bytes_with capacity key v)"

definition delete_with :: "nat \<Rightarrow> u16 \<Rightarrow> (eeprom \<times> flip_state option, unit) kvm" where
  "delete_with capacity key =
     (if key = 0 then kv_raise InvalidKey
      else kv_bind (on_dev (active capacity)) (\<lambda>a. case a of
        None \<Rightarrow> kv_return ()
      | Some (h, _) \<Rightarrow>
          kv_bind (on_dev (scan_half (half_base capacity h) (half_len capacity) key)) (\<lambda>s.
            case snd s of
              Some (_, len) \<Rightarrow> if 0 < len then set_bytes_with capacity key [] else kv_return ()
            | None \<Rightarrow> kv_return ())))"

definition kv_delete :: "nat \<Rightarrow> u16 \<Rightarrow> (eeprom, unit) kvm" where
  "kv_delete capacity key = no_pending (delete_with capacity key)"

definition compact_with :: "nat \<Rightarrow> (eeprom \<times> flip_state option, unit) kvm" where
  "compact_with capacity = (\<lambda>(d, pending). case pending of
       Some st \<Rightarrow> (case flip_commit capacity st d of
           (Inl Stale, d') \<Rightarrow> on_dev (compact capacity) (d', None)
         | (r, d') \<Rightarrow> (r, (d', None)))
     | None \<Rightarrow> on_dev (compact capacity) (d, None))"

section \<open>Maintenance\<close>

record maint_state =
  ms_blank :: blank_cursor
  ms_flip :: "flip_state option"

definition maint_new :: maint_state where
  "maint_new = \<lparr>ms_blank = blank_cursor_new, ms_flip = None\<rparr>"

definition maintain :: "nat \<Rightarrow> nat \<Rightarrow> nat \<Rightarrow> (eeprom \<times> maint_state, bool) kvm" where
  "maintain capacity budget_words threshold =
     kv_bind (on_dev (active capacity)) (\<lambda>a. case a of
       None \<Rightarrow> kv_return False
     | Some (h, g) \<Rightarrow>
         kv_then (kv_modify_ram (\<lambda>m. case ms_flip m of
             Some st \<Rightarrow> if (fs_src_h st, fs_src_gen st) \<noteq> (h, g) then m\<lparr>ms_flip := None\<rparr> else m
           | None \<Rightarrow> m))
         (kv_bind kv_ram (\<lambda>m. case ms_flip m of
             Some st \<Rightarrow> (\<lambda>(d, m).
               case flip_step capacity budget_words (d, st) of
                 (Inl e, (d1, st1)) \<Rightarrow> (Inl e, (d1, m\<lparr>ms_flip := Some st1\<rparr>))
               | (Inr again, (d1, st1)) \<Rightarrow>
                   if again then (Inr True, (d1, m\<lparr>ms_flip := Some st1\<rparr>))
                   else kv_then (on_dev (flip_commit capacity st1)) (kv_return True) (d1, m\<lparr>ms_flip := None\<rparr>))
           | None \<Rightarrow>
               let half = half_len capacity in
               kv_bind (on_dev (scan_half (half_base capacity h) half 0)) (\<lambda>(end', _).
               kv_bind (if half - end' < threshold then on_dev (live_bytes capacity) else kv_return half) (\<lambda>live.
               if half - end' < threshold \<and> live + threshold \<le> half then
                 kv_bind (on_dev (flip_start capacity)) (\<lambda>f.
                   kv_then (kv_modify_ram (\<lambda>m. m\<lparr>ms_flip := f\<rparr>)) (kv_return True))
               else (\<lambda>(d, m). case blank_dead_step capacity budget_words (d, ms_blank m) of
                   (r, (d', cur)) \<Rightarrow> (r, (d', m\<lparr>ms_blank := cur\<rparr>))))))))"

end
