(* ===== verification/Kv_Log.thy ===== *)
theory Kv_Log
  imports Kv_Incremental
begin

text \<open>
  The record log of one half as a pure function of its bytes, and the lemmas that connect it with
  the codec's loops: \<open>rec_at\<close> is one validated record, \<open>log_of\<close> the list of records the scan
  visits, \<open>log_end\<close> where it stops, \<open>log_map\<close> the key-value map the log means (the latest record
  of a key wins, an empty value is a tombstone).
\<close>

section \<open>Records\<close>

definition rec_at :: "bytes \<Rightarrow> nat \<Rightarrow> (u16 \<times> bytes) option" where
  "rec_at hb p =
     (if length hb < p + KV_HEADER then None
      else let hdr = bslice p KV_HEADER hb; len = hdr_len hdr; v = bslice (p + KV_HEADER) len hb in
        if hdr_tag hdr = 0 \<or> len > MAX_VALUE \<or> length hb < p + record_size len \<or>
           entry_crc (take 4 hdr) v \<noteq> hdr_crc hdr
        then None else Some (hdr_tag hdr, v))"

lemma record_size_bounds: "KV_HEADER + n \<le> record_size n" "record_size n mod 4 = 0"
proof -
  have "n \<le> (n + 3) div 4 * 4" by presburger
  then show "KV_HEADER + n \<le> record_size n" by (simp add: record_size_def)
  show "record_size n mod 4 = 0" by (simp add: record_size_def KV_HEADER_def)
qed

lemma rec_at_SomeD:
  assumes "rec_at hb p = Some (t, v)"
  shows "t \<noteq> 0" and "length v \<le> MAX_VALUE" and "p + record_size (length v) \<le> length hb"
    and "p + KV_HEADER \<le> length hb" and "hdr_tag (bslice p KV_HEADER hb) = t"
    and "hdr_len (bslice p KV_HEADER hb) = length v" and "v = bslice (p + KV_HEADER) (length v) hb"
    and "entry_crc (take 4 (bslice p KV_HEADER hb)) v = hdr_crc (bslice p KV_HEADER hb)"
proof -
  let ?hdr = "bslice p KV_HEADER hb"
  from assms have b: "p + record_size (hdr_len ?hdr) \<le> length hb" and v: "v = bslice (p + KV_HEADER) (hdr_len ?hdr) hb"
    and rest: "t \<noteq> 0" "hdr_len ?hdr \<le> MAX_VALUE" "p + KV_HEADER \<le> length hb" "hdr_tag ?hdr = t"
      "entry_crc (take 4 ?hdr) v = hdr_crc ?hdr"
    by (auto simp: rec_at_def Let_def split: if_splits)
  have l: "length v = hdr_len ?hdr"
    using b v record_size_bounds(1) [of "hdr_len ?hdr"] by simp
  show "t \<noteq> 0" "length v \<le> MAX_VALUE" "p + record_size (length v) \<le> length hb"
    "p + KV_HEADER \<le> length hb" "hdr_tag ?hdr = t" "hdr_len ?hdr = length v"
    "v = bslice (p + KV_HEADER) (length v) hb" "entry_crc (take 4 ?hdr) v = hdr_crc ?hdr"
    using b v rest l by simp_all
qed

text \<open>A record is determined by its own bytes.\<close>

lemma rec_at_local:
  assumes r: "rec_at hb p = Some (t, v)" and "n = record_size (length v)"
    and "bslice p n hb = bslice q n hb'" and "q + n \<le> length hb'"
  shows "rec_at hb' q = Some (t, v)"
proof -
  note R = rec_at_SomeD [OF r] and B = record_size_bounds(1) [of "length v"]
  have "bslice 0 KV_HEADER (bslice p n hb) = bslice p KV_HEADER hb"
    "bslice 0 KV_HEADER (bslice q n hb') = bslice q KV_HEADER hb'"
    "bslice KV_HEADER (length v) (bslice p n hb) = bslice (p + KV_HEADER) (length v) hb"
    "bslice KV_HEADER (length v) (bslice q n hb') = bslice (q + KV_HEADER) (length v) hb'"
    using assms(2,4) R(3) B by (simp_all add: bslice_bslice)
  with assms(3) have "bslice q KV_HEADER hb' = bslice p KV_HEADER hb"
    "bslice (q + KV_HEADER) (length v) hb' = v" using R(7) by simp_all
  then show ?thesis using assms(2,4) R B by (auto simp: rec_at_def Let_def)
qed

lemma rec_at_zero:
  assumes "bslice p 4 hb = replicate 4 0"
  shows "rec_at hb p = None"
proof (cases "p + KV_HEADER \<le> length hb")
  case True
  then have "hdr_tag (bslice p KV_HEADER hb) = hdr_tag (bslice p 4 hb)"
    by (simp add: hdr_tag_def nth_bslice KV_HEADER_def)
  then have "hdr_tag (bslice p KV_HEADER hb) = 0"
    using assms by (simp add: hdr_tag_def le_u16_def)
  then show ?thesis by (simp add: rec_at_def Let_def)
qed (simp add: rec_at_def)

lemma length_record_bytes: "length (record_bytes key v) = record_size (length v)"
  using record_size_bounds(1) [of "length v"] by (simp add: record_bytes_def Let_def KV_HEADER_def)

lemma rec_at_record_bytes:
  assumes "bslice p (record_size (length v)) hb = record_bytes key v"
    and "p + record_size (length v) \<le> length hb" and "key \<noteq> 0" and "length v \<le> MAX_VALUE"
  shows "rec_at hb p = Some (key, v)"
proof -
  let ?n = "record_size (length v)" and ?hdr4 = "u16_le key @ u16_le (of_nat (length v))"
  note B = record_size_bounds(1) [of "length v"]
  have "bslice p KV_HEADER hb = bslice 0 KV_HEADER (bslice p ?n hb)"
    "bslice (p + KV_HEADER) (length v) hb = bslice KV_HEADER (length v) (bslice p ?n hb)"
    using assms(2) B by (simp_all add: bslice_bslice)
  then have hdr: "bslice p KV_HEADER hb = ?hdr4 @ u32_le (entry_crc ?hdr4 v)"
    and v: "bslice (p + KV_HEADER) (length v) hb = v"
    using B unfolding assms(1) by (simp_all add: record_bytes_def Let_def bslice_def KV_HEADER_def)
  have "unat (of_nat (length v) :: u16) = length v"
    using assms(4) by (simp add: MAX_VALUE_def unat_of_nat)
  then have "hdr_tag (bslice p KV_HEADER hb) = key" "hdr_len (bslice p KV_HEADER hb) = length v"
    "hdr_crc (bslice p KV_HEADER hb) = entry_crc ?hdr4 v" "take 4 (bslice p KV_HEADER hb) = ?hdr4"
    unfolding hdr by (simp_all add: hdr_tag_def hdr_len_def hdr_crc_def u16_le_def u32_le_def)
  then show ?thesis using assms B v by (simp add: rec_at_def Let_def)
qed

section \<open>The log\<close>

function log_of :: "bytes \<Rightarrow> nat \<Rightarrow> (nat \<times> u16 \<times> bytes) list" where
  "log_of hb p = (case rec_at hb p of None \<Rightarrow> []
     | Some (t, v) \<Rightarrow> (p, t, v) # log_of hb (p + record_size (length v)))"
  by pat_completeness auto
termination
  by (relation "measure (\<lambda>(hb, p). length hb - p)")
    (auto dest!: sym [of "Some _"] rec_at_SomeD(4) simp: KV_HEADER_def record_size_progress)

function log_end :: "bytes \<Rightarrow> nat \<Rightarrow> nat" where
  "log_end hb p = (case rec_at hb p of None \<Rightarrow> p
     | Some (t, v) \<Rightarrow> log_end hb (p + record_size (length v)))"
  by pat_completeness auto
termination
  by (relation "measure (\<lambda>(hb, p). length hb - p)")
    (auto dest!: sym [of "Some _"] rec_at_SomeD(4) simp: KV_HEADER_def record_size_progress)

declare log_of.simps [simp del] log_end.simps [simp del]

lemma log_stop: "rec_at hb p = None \<Longrightarrow> log_of hb p = [] \<and> log_end hb p = p"
  by (simp add: log_of.simps log_end.simps)

lemma log_step:
  "rec_at hb p = Some (t, v) \<Longrightarrow> log_of hb p = (p, t, v) # log_of hb (p + record_size (length v)) \<and>
     log_end hb p = log_end hb (p + record_size (length v))"
  by (simp add: log_of.simps [of hb p] log_end.simps [of hb p])

text \<open>Induction along a log.\<close>

lemma log_induct [case_names stop step]:
  assumes "\<And>p. rec_at hb p = None \<Longrightarrow> P p"
    and "\<And>p t v. rec_at hb p = Some (t, v) \<Longrightarrow> P (p + record_size (length v)) \<Longrightarrow> P p"
  shows "P p"
proof (induction "length hb - p" arbitrary: p rule: less_induct)
  case less
  show ?case
  proof (cases "rec_at hb p")
    case None
    then show ?thesis by (rule assms(1))
  next
    case (Some tv)
    then obtain t v where tv: "rec_at hb p = Some (t, v)" by (cases tv) auto
    from rec_at_SomeD(4) [OF tv] have "length hb - (p + record_size (length v)) < length hb - p"
      by (simp add: KV_HEADER_def record_size_progress)
    from assms(2) [OF tv less [OF this]] show ?thesis .
  qed
qed

lemma log_end_stop: "rec_at hb (log_end hb p) = None"
  by (induction p rule: log_induct [of hb]) (simp_all add: log_stop log_step)

lemma log_end_ge: "p \<le> log_end hb p"
proof (induction p rule: log_induct [of hb])
  case (step p t v)
  then show ?case using log_step [OF step(1)] by linarith
qed (simp add: log_stop)

lemma log_end_le: "p \<le> length hb \<Longrightarrow> log_end hb p \<le> length hb"
proof (induction p rule: log_induct [of hb])
  case (step p t v)
  then show ?case using log_step [OF step(1)] rec_at_SomeD(3) [OF step(1)] by simp
qed (simp add: log_stop)

lemma log_end_aligned: "p mod 4 = 0 \<Longrightarrow> log_end hb p mod 4 = 0"
proof (induction p rule: log_induct [of hb])
  case (step p t v)
  then show ?case using log_step [OF step(1)] record_size_bounds(2) [of "length v"]
    by (simp add: mod_add_eq [symmetric, of p])
qed (simp add: log_stop)

text \<open>Bytes changed only past the end of the log extend it, never change it.\<close>

lemma log_extend:
  assumes "length hb' = length hb"
  shows "(\<And>i. p \<le> i \<Longrightarrow> i < log_end hb p \<Longrightarrow> hb' ! i = hb ! i) \<Longrightarrow>
     log_of hb' p = log_of hb p @ log_of hb' (log_end hb p) \<and>
     log_end hb' p = log_end hb' (log_end hb p)"
proof (induction p rule: log_induct [of hb])
  case (stop p)
  then show ?case by (simp add: log_stop)
next
  case (step p t v)
  let ?n = "record_size (length v)"
  have e: "log_end hb p = log_end hb (p + ?n)" using log_step [OF step(1)] by simp
  have le: "p + ?n \<le> log_end hb p" unfolding e by (rule log_end_ge)
  have fits: "p + ?n \<le> length hb" using rec_at_SomeD(3) [OF step(1)] .
  have "bslice p ?n hb = bslice p ?n hb'"
    using fits assms le step.prems by (intro nth_equalityI) (auto simp: nth_bslice)
  from rec_at_local [OF step(1) refl this] fits assms have r': "rec_at hb' p = Some (t, v)" by simp
  have "log_of hb' (p + ?n) = log_of hb (p + ?n) @ log_of hb' (log_end hb (p + ?n)) \<and>
      log_end hb' (p + ?n) = log_end hb' (log_end hb (p + ?n))"
    by (rule step.IH) (use step.prems e in auto)
  with log_step [OF step(1)] log_step [OF r'] e show ?case by simp
qed

section \<open>The loops read the log\<close>

abbreviation half_of :: "nat \<Rightarrow> nat \<Rightarrow> eeprom \<Rightarrow> bytes" where
  "half_of base area d \<equiv> bslice base area (ee_buf d)"

text \<open>The reads of one turn of a scanning loop, and what they decide.\<close>

lemma rec_at_device:
  assumes "base + area \<le> length (ee_buf d)" and "p + KV_HEADER \<le> area"
  defines "hdr \<equiv> bslice (base + p) KV_HEADER (ee_buf d)"
  shows "kv_read (base + p) KV_HEADER d = (Inr hdr, d)"
    and "p + record_size (hdr_len hdr) \<le> area \<Longrightarrow>
      kv_read (base + p + KV_HEADER) (hdr_len hdr) d = (Inr (bslice (base + p + KV_HEADER) (hdr_len hdr) (ee_buf d)), d)"
    and "rec_at (half_of base area d) p =
      (if hdr_tag hdr = 0 \<or> hdr_len hdr > MAX_VALUE \<or> area < p + record_size (hdr_len hdr) \<or>
          entry_crc (take 4 hdr) (bslice (base + p + KV_HEADER) (hdr_len hdr) (ee_buf d)) \<noteq> hdr_crc hdr
       then None else Some (hdr_tag hdr, bslice (base + p + KV_HEADER) (hdr_len hdr) (ee_buf d)))"
proof -
  note B = record_size_bounds(1) [of "hdr_len hdr"]
  show "kv_read (base + p) KV_HEADER d = (Inr hdr, d)" using assms by (simp add: kv_read_ok)
  show "p + record_size (hdr_len hdr) \<le> area \<Longrightarrow>
      kv_read (base + p + KV_HEADER) (hdr_len hdr) d = (Inr (bslice (base + p + KV_HEADER) (hdr_len hdr) (ee_buf d)), d)"
    using assms(1) B by (intro kv_read_ok) linarith
  have h: "bslice p KV_HEADER (half_of base area d) = hdr"
    using assms(1,2) by (simp add: hdr_def bslice_bslice)
  have v: "p + record_size (hdr_len hdr) \<le> area \<Longrightarrow>
      bslice (p + KV_HEADER) (hdr_len hdr) (half_of base area d) = bslice (base + p + KV_HEADER) (hdr_len hdr) (ee_buf d)"
    using assms(1) B by (simp add: bslice_bslice add.assoc)
  show "rec_at (half_of base area d) p =
      (if hdr_tag hdr = 0 \<or> hdr_len hdr > MAX_VALUE \<or> area < p + record_size (hdr_len hdr) \<or>
          entry_crc (take 4 hdr) (bslice (base + p + KV_HEADER) (hdr_len hdr) (ee_buf d)) \<noteq> hdr_crc hdr
       then None else Some (hdr_tag hdr, bslice (base + p + KV_HEADER) (hdr_len hdr) (ee_buf d)))"
    using assms(1,2) v by (auto simp: rec_at_def h Let_def)
qed

definition scan_found :: "u16 \<Rightarrow> (nat \<times> nat) option \<Rightarrow> (nat \<times> u16 \<times> bytes) list \<Rightarrow> (nat \<times> nat) option" where
  "scan_found target found log =
     foldl (\<lambda>f (p, t, v). if t = target then Some (p, length v) else f) found log"

lemma scan_loop_log:
  assumes "base + area \<le> length (ee_buf d)"
  shows "scan_loop base area target p found d =
     (Inr (log_end (half_of base area d) p, scan_found target found (log_of (half_of base area d) p)), d)"
proof (induction p arbitrary: found rule: log_induct [of "half_of base area d"])
  case (stop p)
  note D = rec_at_device [OF assms, of p]
  have "scan_loop base area target p found d = (Inr (p, found), d)"
  proof (cases "p + KV_HEADER \<le> area")
    case True
    show ?thesis
      using True D(1,2) [OF True] D(3) [OF True] stop
      by (subst scan_loop.simps) (auto simp: kv_bind_def Let_def not_less split: if_splits)
  qed (simp add: scan_loop.simps not_le)
  then show ?case using log_stop [OF stop] by (simp add: scan_found_def)
next
  case (step p t v)
  let ?hdr = "bslice (base + p) KV_HEADER (ee_buf d)"
  from rec_at_SomeD(4) [OF step(1)] assms have True: "p + KV_HEADER \<le> area" by simp
  note D = rec_at_device [OF assms True]
  from step(1) D(3) have r: "hdr_tag ?hdr = t" "hdr_tag ?hdr \<noteq> 0" "\<not> MAX_VALUE < hdr_len ?hdr" "p + record_size (hdr_len ?hdr) \<le> area"
    "v = bslice (base + p + KV_HEADER) (hdr_len ?hdr) (ee_buf d)" "entry_crc (take 4 ?hdr) v = hdr_crc ?hdr"
    by (auto split: if_splits)
  have len: "length v = hdr_len ?hdr" using r(4,5) assms record_size_bounds(1) [of "hdr_len ?hdr"] by simp
  have "scan_loop base area target p found d =
      scan_loop base area target (p + record_size (length v)) (if t = target then Some (p, length v) else found) d"
    using True D(1) D(2) [OF r(4)] r len
    by (subst scan_loop.simps) (auto simp: kv_bind_def Let_def)
  also have "\<dots> = (Inr (log_end (half_of base area d) (p + record_size (length v)),
      scan_found target (if t = target then Some (p, length v) else found)
        (log_of (half_of base area d) (p + record_size (length v)))), d)"
    by (rule step.IH)
  finally show ?case using log_step [OF step(1)] by (simp add: scan_found_def)
qed

lemma scan_half_log:
  "base + area \<le> length (ee_buf d) \<Longrightarrow> scan_half base area target d =
     (Inr (log_end (half_of base area d) 0, scan_found target None (log_of (half_of base area d) 0)), d)"
  by (simp add: scan_half_def scan_loop_log)

text \<open>Pass one of a flip: the offset of the latest record per tag, or too many tags.\<close>

primrec walk_log :: "(nat \<times> u16 \<times> bytes) list \<Rightarrow> (u16 \<times> nat) list \<Rightarrow> (u16 \<times> nat) list option" where
  "walk_log [] latest = Some latest"
| "walk_log (r # rs) latest =
     (case latest_put (fst (snd r)) (fst r) latest of
        Some latest' \<Rightarrow> walk_log rs latest'
      | None \<Rightarrow> if MAX_KEYS \<le> length latest then None else walk_log rs (latest @ [(fst (snd r), fst r)]))"

lemma walk_loop_log:
  assumes "base + area \<le> length (ee_buf d)"
  shows "walk_loop base area p latest d =
     (case walk_log (log_of (half_of base area d) p) latest of
        None \<Rightarrow> (Inl TooManyKeys, d)
      | Some latest' \<Rightarrow> (Inr (log_end (half_of base area d) p, latest'), d))"
proof (induction p arbitrary: latest rule: log_induct [of "half_of base area d"])
  case (stop p)
  note D = rec_at_device [OF assms, of p]
  have "walk_loop base area p latest d = (Inr (p, latest), d)"
  proof (cases "p + KV_HEADER \<le> area")
    case True
    show ?thesis
      using True D(1,2) [OF True] D(3) [OF True] stop
      by (subst walk_loop.simps) (auto simp: kv_bind_def Let_def not_less split: if_splits)
  qed (simp add: walk_loop.simps not_le)
  then show ?case using log_stop [OF stop] by simp
next
  case (step p t v)
  let ?hdr = "bslice (base + p) KV_HEADER (ee_buf d)"
  from rec_at_SomeD(4) [OF step(1)] assms have True: "p + KV_HEADER \<le> area" by simp
  note D = rec_at_device [OF assms True]
  from step(1) D(3) have r: "hdr_tag ?hdr = t" "hdr_tag ?hdr \<noteq> 0" "\<not> MAX_VALUE < hdr_len ?hdr" "p + record_size (hdr_len ?hdr) \<le> area"
    "v = bslice (base + p + KV_HEADER) (hdr_len ?hdr) (ee_buf d)" "entry_crc (take 4 ?hdr) v = hdr_crc ?hdr"
    by (auto split: if_splits)
  have len: "length v = hdr_len ?hdr" using r(4,5) assms record_size_bounds(1) [of "hdr_len ?hdr"] by simp
  have "walk_loop base area p latest d = (case latest_put t p latest of
      Some latest' \<Rightarrow> walk_loop base area (p + record_size (length v)) latest' d
    | None \<Rightarrow> if MAX_KEYS \<le> length latest then (Inl TooManyKeys, d)
              else walk_loop base area (p + record_size (length v)) (latest @ [(t, p)]) d)"
    using True D(1) D(2) [OF r(4)] r len
    by (subst walk_loop.simps) (auto simp: kv_bind_def Let_def split: option.splits)
  then show ?case using log_step [OF step(1)] step.IH by (auto split: option.splits)
qed

lemma walk_latest_log:
  "base + area \<le> length (ee_buf d) \<Longrightarrow> walk_latest base area d =
     (case walk_log (log_of (half_of base area d) 0) [] of
        None \<Rightarrow> (Inl TooManyKeys, d)
      | Some latest \<Rightarrow> (Inr (log_end (half_of base area d) 0, latest), d))"
  by (simp add: walk_latest_def walk_loop_log)

section \<open>What a log means\<close>

primrec latest_of :: "u16 \<Rightarrow> (nat \<times> u16 \<times> bytes) list \<Rightarrow> (nat \<times> bytes) option" where
  "latest_of k [] = None"
| "latest_of k (r # rs) =
     (case latest_of k rs of
        Some x \<Rightarrow> Some x
      | None \<Rightarrow> if fst (snd r) = k then Some (fst r, snd (snd r)) else None)"

definition log_map :: "(nat \<times> u16 \<times> bytes) list \<Rightarrow> u16 \<Rightarrow> bytes option" where
  "log_map log k =
     (case latest_of k log of None \<Rightarrow> None | Some (_, v) \<Rightarrow> if v = [] then None else Some v)"

text \<open>Storing a value; the empty value is the tombstone.\<close>

definition kv_put :: "u16 \<Rightarrow> bytes \<Rightarrow> (u16 \<Rightarrow> bytes option) \<Rightarrow> u16 \<Rightarrow> bytes option" where
  "kv_put k v m = m(k := (if v = [] then None else Some v))"

lemma latest_of_append:
  "latest_of k (xs @ ys) = (case latest_of k ys of Some x \<Rightarrow> Some x | None \<Rightarrow> latest_of k xs)"
  by (induction xs) (auto split: option.splits)

lemma log_map_snoc: "log_map (log @ [(p, k, v)]) = kv_put k v (log_map log)"
  by (rule ext) (auto simp: log_map_def latest_of_append kv_put_def split: option.splits)

lemma scan_found_latest:
  "scan_found k found log = (case latest_of k log of None \<Rightarrow> found | Some (p, v) \<Rightarrow> Some (p, length v))"
  by (induction log arbitrary: found) (auto simp: scan_found_def split: option.splits)

lemma log_map_cong: "map snd a = map snd b \<Longrightarrow> log_map a = log_map b"
proof
  fix k assume "map snd a = map snd b"
  then have "map_option snd (latest_of k a) = map_option snd (latest_of k b)"
  proof (induction a arbitrary: b)
    case (Cons x xs)
    then obtain y ys where "b = y # ys" "snd x = snd y" "map snd xs = map snd ys" by (cases b) auto
    with Cons.IH [of ys] show ?case by (auto split: option.splits)
  qed simp
  then show "log_map a k = log_map b k"
    by (cases "latest_of k a"; cases "latest_of k b") (auto simp: log_map_def)
qed

lemma latest_of_split:
  "latest_of k log = Some (p, v) \<Longrightarrow> \<exists>xs ys. log = xs @ (p, k, v) # ys \<and> (\<forall>r \<in> set ys. fst (snd r) \<noteq> k)"
proof (induction log)
  case (Cons r rs)
  show ?case
  proof (cases "latest_of k rs")
    case None
    then have "\<forall>r \<in> set rs. fst (snd r) \<noteq> k"
      by (induction rs) (auto split: option.splits if_splits)
    moreover from None Cons.prems have "r # rs = [] @ (p, k, v) # rs" by (cases r) (auto split: if_splits)
    ultimately show ?thesis by blast
  next
    case (Some x)
    with Cons obtain xs ys where "rs = xs @ (p, k, v) # ys" "\<forall>r \<in> set ys. fst (snd r) \<noteq> k" by auto
    then show ?thesis by (intro exI [of _ "r # xs"] exI [of _ ys]) simp
  qed
qed simp

lemma latest_of_none: "latest_of k log = None \<longleftrightarrow> (\<forall>r \<in> set log. fst (snd r) \<noteq> k)"
  by (induction log) (auto split: option.splits)

text \<open>The live set: the records a flip keeps.\<close>

definition live :: "(u16 \<times> nat) list \<Rightarrow> nat \<times> u16 \<times> bytes \<Rightarrow> bool" where
  "live latest r \<longleftrightarrow> snd (snd r) \<noteq> [] \<and> (fst (snd r), fst r) \<in> set latest"

lemma log_map_live:
  assumes "distinct (map fst log)" and "\<And>t p. (t, p) \<in> set latest \<longleftrightarrow> (\<exists>v. latest_of t log = Some (p, v))"
  shows "log_map (filter (live latest) log) = log_map log"
proof
  fix k
  show "log_map (filter (live latest) log) k = log_map log k"
  proof (cases "latest_of k log")
    case None
    then have "latest_of k (filter (live latest) log) = None" by (simp add: latest_of_none)
    with None show ?thesis by (simp add: log_map_def)
  next
    case (Some pv)
    obtain p v where pv: "pv = (p, v)" by fastforce
    with Some obtain xs ys where L: "log = xs @ (p, k, v) # ys" and ys: "\<forall>r \<in> set ys. fst (snd r) \<noteq> k"
      using latest_of_split by blast
    have ysN: "latest_of k (filter (live latest) ys) = None" using ys by (simp add: latest_of_none)
    have "\<not> live latest r" if "r \<in> set xs" "fst (snd r) = k" for r
      using that assms(1) assms(2) [of k "fst r"] Some pv L by (auto simp: live_def)
    then have xsN: "latest_of k (filter (live latest) xs) = None" by (auto simp: latest_of_none)
    have "live latest (p, k, v) \<longleftrightarrow> v \<noteq> []" using assms(2) Some pv by (auto simp: live_def)
    then show ?thesis
      using Some pv by (auto simp: log_map_def L latest_of_append ysN xsN)
  qed
qed

lemma latest_put_Some:
  "latest_put t p l = Some l' \<Longrightarrow> distinct (map fst l) \<Longrightarrow>
     map fst l' = map fst l \<and> (\<forall>u q. (u, q) \<in> set l' \<longleftrightarrow> (if u = t then q = p else (u, q) \<in> set l))"
proof (induction l arbitrary: l')
  case (Cons e es)
  show ?case
  proof (cases "fst e = t")
    case True
    with Cons.prems show ?thesis by (cases e) (auto simp: rev_image_eqI)
  next
    case False
    with Cons.prems obtain es' where "latest_put t p es = Some es'" "l' = e # es'" by auto
    with Cons False show ?thesis by (cases e) auto
  qed
qed simp

lemma latest_put_None: "latest_put t p l = None \<longleftrightarrow> t \<notin> fst ` set l"
  by (induction l) auto

lemma walk_log_latest:
  "walk_log log l = Some l' \<Longrightarrow> distinct (map fst l) \<Longrightarrow>
     (t, p) \<in> set l' \<longleftrightarrow> (case latest_of t log of Some (q, v) \<Rightarrow> p = q | None \<Rightarrow> (t, p) \<in> set l)"
proof (induction log arbitrary: l)
  case (Cons r rs)
  show ?case
  proof (cases "latest_put (fst (snd r)) (fst r) l")
    case None
    with Cons.prems have "walk_log rs (l @ [(fst (snd r), fst r)]) = Some l'"
      "distinct (map fst (l @ [(fst (snd r), fst r)]))"
      by (auto simp: latest_put_None split: if_splits)
    from Cons.IH [OF this] None show ?thesis
      by (force simp: latest_put_None split: option.splits)
  next
    case (Some l1)
    with Cons.prems have w: "walk_log rs l1 = Some l'" by simp
    note P = latest_put_Some [OF Some Cons.prems(2)]
    with Cons.prems(2) have "distinct (map fst l1)" by simp
    from Cons.IH [OF w this] P show ?thesis by (auto split: option.splits)
  qed
qed simp

corollary walk_log_live:
  "walk_log log [] = Some l \<Longrightarrow> (t, p) \<in> set l \<longleftrightarrow> (\<exists>v. latest_of t log = Some (p, v))"
  using walk_log_latest [of log "[]" l t p] by (auto split: option.splits)

lemma log_of_mem:
  "r \<in> set (log_of hb p) \<Longrightarrow>
     p \<le> fst r \<and> rec_at hb (fst r) = Some (snd r) \<and> fst r + record_size (length (snd (snd r))) \<le> log_end hb p"
proof (induction p rule: log_induct [of hb])
  case (step p t v)
  note S = log_step [OF step(1)]
  show ?case
  proof (cases "r = (p, t, v)")
    case True
    with step(1) S log_end_ge show ?thesis by simp
  next
    case False
    with step.prems S have "r \<in> set (log_of hb (p + record_size (length v)))" by simp
    from step.IH [OF this] S show ?thesis by auto
  qed
qed (simp add: log_stop)

lemma log_of_distinct: "distinct (map fst (log_of hb p))"
proof (induction p rule: log_induct [of hb])
  case (step p t v)
  have "p \<notin> fst ` set (log_of hb (p + record_size (length v)))"
    using log_of_mem [of _ hb "p + record_size (length v)"] record_size_pos [of "length v"] by fastforce
  with step log_step [OF step(1)] show ?case by simp
qed (simp add: log_stop)

lemma log_append:
  assumes "length hb' = length hb" and "\<And>i. i < log_end hb 0 \<Longrightarrow> hb' ! i = hb ! i"
    and "rec_at hb' (log_end hb 0) = Some (t, v)"
    and "rec_at hb' (log_end hb 0 + record_size (length v)) = None"
  shows "log_of hb' 0 = log_of hb 0 @ [(log_end hb 0, t, v)]"
    and "log_end hb' 0 = log_end hb 0 + record_size (length v)"
  using log_extend [OF assms(1), of 0] assms(2) log_step [OF assms(3)] log_stop [OF assms(4)] by auto

lemma log_same:
  assumes "length hb' = length hb" and "\<And>i. i < log_end hb 0 \<Longrightarrow> hb' ! i = hb ! i"
    and "rec_at hb' (log_end hb 0) = None"
  shows "log_of hb' 0 = log_of hb 0" and "log_end hb' 0 = log_end hb 0"
  using log_extend [OF assms(1), of 0] assms(2) log_stop [OF assms(3)] by auto

end
