(* ===== verification/Kv_Crash.thy ===== *)
theory Kv_Crash
  imports Kv_Log
begin

text \<open>
  Crash specifications of the codec's building blocks, each in the logic of \<open>Kv_Device\<close>: blanking
  (\<open>blank\<close>), the append (\<open>append_end\<close>), the superblock write (\<open>write_gen\<close>) and the copying pass of
  a flip. A specification names the cells on success and on every error, a power cut inside any
  word program included.
\<close>

section \<open>Frames\<close>

definition same_outside :: "nat \<Rightarrow> nat \<Rightarrow> bytes \<Rightarrow> bytes \<Rightarrow> bool" where
  "same_outside a n c0 c \<longleftrightarrow>
     length c = length c0 \<and> (\<forall>i < length c0. (i < a \<or> a + n \<le> i) \<longrightarrow> c ! i = c0 ! i)"

lemma same_outside_refl [simp]: "same_outside a n c c"
  by (simp add: same_outside_def)

lemma same_outside_length: "same_outside a n c0 c \<Longrightarrow> length c = length c0"
  by (simp add: same_outside_def)

lemma same_outside_trans:
  "same_outside a n c0 c1 \<Longrightarrow> same_outside b m c1 c2 \<Longrightarrow> a \<le> b \<Longrightarrow> b + m \<le> a + n \<Longrightarrow> same_outside a n c0 c2"
  by (auto simp: same_outside_def)

lemma same_outside_mono: "same_outside b m c0 c \<Longrightarrow> a \<le> b \<Longrightarrow> b + m \<le> a + n \<Longrightarrow> same_outside a n c0 c"
  by (auto simp: same_outside_def)

lemma same_outside_bsplice:
  "off + length xs \<le> length c \<Longrightarrow> same_outside off (length xs) c (bsplice off xs c)"
  by (auto simp: same_outside_def nth_bsplice)

lemma same_outside_torn: "torn off dat c c' \<Longrightarrow> off + length dat \<le> length c \<Longrightarrow> same_outside off (length dat) c c'"
  by (auto simp: same_outside_def torn_length torn_outside)

lemma same_outside_bslice:
  "same_outside a n c0 c \<Longrightarrow> b + m \<le> a \<or> a + n \<le> b \<Longrightarrow> b + m \<le> length c0 \<Longrightarrow> bslice b m c = bslice b m c0"
  by (intro nth_equalityI) (auto simp: same_outside_def nth_bslice)

section \<open>Blanking\<close>

lemma torn_zero_word:
  assumes "torn off (replicate 4 0) c c'" and "off + 4 \<le> length c"
  shows "c' = c \<or> c' = bsplice off (replicate 4 0) c"
  using assms(1)
proof (rule torn_cases)
  fix k x assume "4 * k + 4 \<le> length (replicate 4 (0::u8))" "x = bslice (off + 4 * k) 4 c \<or> x = replicate 4 0"
    "c' = bsplice off (take (4 * k) (replicate 4 0) @ x) c"
  then show ?thesis using assms(2) by (auto simp: bsplice_same_word)
qed (use assms in simp)

text \<open>\<open>zeroed off n c\<close>: the cells \<open>c\<close> with the \<open>n\<close> bytes from \<open>off\<close> blank.\<close>

definition zeroed :: "nat \<Rightarrow> nat \<Rightarrow> bytes \<Rightarrow> bytes" where
  "zeroed off n c = bsplice off (replicate n 0) c"

lemma length_zeroed [simp]: "off + n \<le> length c \<Longrightarrow> length (zeroed off n c) = length c"
  by (simp add: zeroed_def)

lemma zeroed_0 [simp]: "zeroed off 0 c = c"
  by (simp add: zeroed_def bsplice_def)

lemma zeroed_zeroed: "off + (m + n) \<le> length c \<Longrightarrow> zeroed (off + m) n (zeroed off m c) = zeroed off (m + n) c"
  using bsplice_bsplice_next [of off "replicate m 0" "replicate n (0::u8)" c]
  by (simp add: zeroed_def replicate_add add.assoc)

lemma zeroed_blank: "off + n \<le> length c \<Longrightarrow> bslice off n c = replicate n 0 \<Longrightarrow> zeroed off n c = c"
  by (metis zeroed_def bsplice_same_word)

lemma same_outside_zeroed: "off + n \<le> length c \<Longrightarrow> same_outside off n c (zeroed off n c)"
  using same_outside_bsplice [of off "replicate n 0" c] by (simp add: zeroed_def)

lemma bslice_zeroed: "off + n \<le> length c \<Longrightarrow> bslice off n (zeroed off n c) = replicate n 0"
  using bslice_bsplice_same [of off "replicate n 0" c] by (simp add: zeroed_def)

lemma crash_clear_word:
  assumes "at mod 4 = 0" and "at + 4 \<le> length c0"
  shows "crash_cells (\<lambda>c. c = c0) (clear_word at) (\<lambda>_ c. c = zeroed at 4 c0)
     (\<lambda>e c. e = Backend \<and> (c = c0 \<or> c = zeroed at 4 c0))"
  unfolding clear_word_def
proof (rule crash_bind_pure [where x = "\<lambda>d. bslice at 4 (ee_buf d)"])
  fix d :: eeprom assume d: "ee_buf d = c0"
  then show "kv_read at 4 d = (Inr (bslice at 4 (ee_buf d)), d)" using assms by (simp add: kv_read_ok)
  show "crash_spec the_dev (\<lambda>s. ee_buf s = c0 \<and> bslice at 4 (ee_buf s) = bslice at 4 (ee_buf d))
     (if bslice at 4 (ee_buf d) \<noteq> replicate 4 0 then kv_write at (replicate 4 0) else kv_return ())
     (\<lambda>_ d. ee_buf d = zeroed at 4 c0) (\<lambda>e d. e = Backend \<and> (ee_buf d = c0 \<or> ee_buf d = zeroed at 4 c0))"
  proof (rule crash_if)
    have "crash_cells (\<lambda>c. c = c0) (kv_write at (replicate 4 0)) (\<lambda>_ c. c = zeroed at 4 c0)
       (\<lambda>e c. e = Backend \<and> (c = c0 \<or> c = zeroed at 4 c0))"
      by (rule crash_write) (use assms torn_zero_word in \<open>auto simp: zeroed_def\<close>)
    then show "crash_spec the_dev (\<lambda>s. ee_buf s = c0 \<and> bslice at 4 (ee_buf s) = bslice at 4 (ee_buf d))
       (kv_write at (replicate 4 0)) (\<lambda>_ d. ee_buf d = zeroed at 4 c0)
       (\<lambda>e d. e = Backend \<and> (ee_buf d = c0 \<or> ee_buf d = zeroed at 4 c0))"
      by (rule crash_weaken) auto
  next
    assume "\<not> bslice at 4 (ee_buf d) \<noteq> replicate 4 0"
    then show "crash_spec the_dev (\<lambda>s. ee_buf s = c0 \<and> bslice at 4 (ee_buf s) = bslice at 4 (ee_buf d))
       (kv_return ()) (\<lambda>_ d. ee_buf d = zeroed at 4 c0)
       (\<lambda>e d. e = Backend \<and> (ee_buf d = c0 \<or> ee_buf d = zeroed at 4 c0))"
      using d assms by (intro crash_return) (simp add: zeroed_blank)
  qed
qed

text \<open>One chunk: from word \<open>w\<close> on, what was read is what the cells hold.\<close>

definition blank_post :: "nat \<Rightarrow> nat \<Rightarrow> nat \<Rightarrow> nat \<Rightarrow> bytes \<Rightarrow> nat + nat \<Rightarrow> bytes \<Rightarrow> bool" where
  "blank_post at n w budget c0 r c \<longleftrightarrow>
     (case r of
        Inl p \<Rightarrow> w \<le> p \<and> p < n \<and> c = zeroed (at + w) (p - w) c0 \<and> 4 * budget < n - w
      | Inr b \<Rightarrow> c = zeroed (at + w) (n - w) c0 \<and> b \<le> budget \<and> 4 * budget \<le> 4 * b + (n - w))"

lemma blank_post_next:
  assumes "blank_post at n (w + 4) budget' (zeroed (at + w) 4 c0) r c" and "w + 4 \<le> n" and "at + n \<le> length c0"
    and "budget' = budget \<or> 0 < budget \<and> budget' = budget - 1"
  shows "blank_post at n w budget c0 r c"
proof (cases r)
  case (Inl p)
  with assms have "w + 4 \<le> p" "p < n" by (auto simp: blank_post_def)
  with assms(3) zeroed_zeroed [of "at + w" 4 "p - (w + 4)" c0]
  have "zeroed (at + (w + 4)) (p - (w + 4)) (zeroed (at + w) 4 c0) = zeroed (at + w) (p - w) c0"
    by (simp add: add.assoc)
  with Inl assms show ?thesis by (auto simp: blank_post_def)
next
  case (Inr b)
  from assms(2,3) zeroed_zeroed [of "at + w" 4 "n - (w + 4)" c0]
  have "zeroed (at + (w + 4)) (n - (w + 4)) (zeroed (at + w) 4 c0) = zeroed (at + w) (n - w) c0"
    by (simp add: add.assoc)
  with Inr assms show ?thesis by (auto simp: blank_post_def)
qed

text \<open>What a cut leaves of a blanking: a prefix of whole words is blank, the rest as it was.\<close>

definition blanked_part :: "nat \<Rightarrow> nat \<Rightarrow> bytes \<Rightarrow> bytes \<Rightarrow> bool" where
  "blanked_part off n c0 c \<longleftrightarrow> (\<exists>m \<le> n. m mod 4 = 0 \<and> c = zeroed off m c0)"

lemma blanked_part_same: "blanked_part off n c0 c \<Longrightarrow> off + n \<le> length c0 \<Longrightarrow> same_outside off n c0 c"
  by (auto simp: blanked_part_def intro: same_outside_mono [OF same_outside_zeroed])

lemma blanked_partI: "m \<le> n \<Longrightarrow> m mod 4 = 0 \<Longrightarrow> c = zeroed off m c0 \<Longrightarrow> blanked_part off n c0 c"
  unfolding blanked_part_def by (intro exI [of _ m] conjI)

lemma blanked_part_next:
  assumes "blanked_part (off + m) n (zeroed off m c0) c" and "off + (m + n) \<le> length c0" and "m mod 4 = 0"
  shows "blanked_part off (m + n) c0 c"
proof -
  from assms(1) obtain k where k: "k \<le> n" "k mod 4 = 0" "c = zeroed (off + m) k (zeroed off m c0)"
    by (auto simp: blanked_part_def)
  show ?thesis
  proof (rule blanked_partI)
    show "c = zeroed off (m + k) c0" using k assms(2) by (simp add: zeroed_zeroed)
    show "m + k \<le> m + n" using k by simp
    show "(m + k) mod 4 = 0" using k assms(3) by presburger
  qed
qed

lemma blanked_part_mono: "blanked_part off n c0 c \<Longrightarrow> n \<le> k \<Longrightarrow> blanked_part off k c0 c"
  unfolding blanked_part_def by (elim exE conjE, rule blanked_partI [unfolded blanked_part_def]) simp_all

lemma crash_blank_words:
  assumes "at mod 4 = 0" and "w mod 4 = 0" and "length chunk mod 4 = 0" and "w \<le> length chunk"
    and "at + length chunk \<le> length c0" and "bslice (at + w) (length chunk - w) c0 = drop w chunk"
  shows "crash_cells (\<lambda>c. c = c0) (blank_words at chunk w budget)
     (blank_post at (length chunk) w budget c0)
     (\<lambda>e c. e = Backend \<and> blanked_part (at + w) (length chunk - w) c0 c)"
  using assms
proof (induction at chunk w budget arbitrary: c0 rule: blank_words.induct)
  case (1 at chunk w budget)
  show ?case
  proof (cases "w < length chunk")
    case False
    then show ?thesis using "1.prems"(4)
      by (subst blank_words.simps) (simp add: crash_return blank_post_def)
  next
    case True
    have w4: "w + 4 \<le> length chunk" using True "1.prems"(2,3) by presburger
    then have wn: "min (length chunk - w) 4 = 4" by simp
    let ?c1 = "zeroed (at + w) 4 c0" and ?dirty = "\<exists>b \<in> set (bslice w 4 chunk). b \<noteq> 0"
    have in1: "at + w + 4 \<le> length c0" using "1.prems"(5) w4 by simp
    have "bslice (at + (w + 4)) (length chunk - (w + 4)) ?c1 = bslice (at + (w + 4)) (length chunk - (w + 4)) c0"
      using same_outside_bslice [OF same_outside_zeroed [OF in1]] w4 "1.prems"(5) by simp
    also have "\<dots> = drop 4 (bslice (at + w) (length chunk - w) c0)"
      by (simp add: bslice_def drop_take add.commute [of 4] add.assoc)
    also have "\<dots> = drop (w + 4) chunk" using "1.prems"(6) by (simp add: add.commute)
    finally have rest: "bslice (at + (w + 4)) (length chunk - (w + 4)) ?c1 = drop (w + 4) chunk" .
    have pre: "(w + 4) mod 4 = 0" "at + length chunk \<le> length ?c1" using "1.prems"(2,5) in1 by auto
    have out: "blanked_part (at + (w + 4)) (length chunk - (w + 4)) ?c1 c \<Longrightarrow> blanked_part (at + w) (length chunk - w) c0 c" for c
      using blanked_part_next [of "at + w" 4 "length chunk - (w + 4)" c0 c] w4 "1.prems"(5) by (simp add: add.assoc)
    consider (zero) "?dirty" "budget = 0" | (prog) "?dirty" "0 < budget" | (skip) "\<not> ?dirty" by blast
    then show ?thesis
    proof cases
      case zero
      with True wn show ?thesis
        by (subst blank_words.simps) (auto simp: blank_post_def intro!: crash_return)
    next
      case prog
      have "crash_cells (\<lambda>c. c = ?c1) (blank_words at chunk (w + 4) (budget - 1))
          (blank_post at (length chunk) (w + 4) (budget - 1) ?c1)
          (\<lambda>e c. e = Backend \<and> blanked_part (at + (w + 4)) (length chunk - (w + 4)) ?c1 c)"
        by (rule "1.IH"(1) [OF True refl, unfolded wn, OF prog(1) _ "1.prems"(1) pre(1) "1.prems"(3) w4 pre(2) rest])
          (use prog in simp)
      then have step: "crash_cells (\<lambda>c. c = ?c1) (blank_words at chunk (w + 4) (budget - 1))
          (blank_post at (length chunk) w budget c0) (\<lambda>e c. e = Backend \<and> blanked_part (at + w) (length chunk - w) c0 c)"
        by (rule crash_weaken) (use blank_post_next [OF _ w4 "1.prems"(5)] prog out in auto)
      have wr: "crash_cells (\<lambda>c. c = c0) (kv_write (at + w) (replicate 4 0)) (\<lambda>_ c. c = ?c1)
          (\<lambda>e c. e = Backend \<and> blanked_part (at + w) (length chunk - w) c0 c)"
      proof (rule crash_write)
        fix c c' assume "c = c0" "torn (at + w) (replicate 4 0) c c'"
        then have "c' = zeroed (at + w) 0 c0 \<or> c' = zeroed (at + w) 4 c0"
          using torn_zero_word in1 by (auto simp: zeroed_def [of _ 4])
        moreover have "4 \<le> length chunk - w" using w4 by simp
        ultimately show "Backend = Backend \<and> blanked_part (at + w) (length chunk - w) c0 c'"
          by (auto intro: blanked_partI [of 0] blanked_partI [of 4])
      qed (use "1.prems"(1,2) in1 in \<open>auto simp: zeroed_def\<close>)
      have "blank_words at chunk w budget =
          kv_then (kv_write (at + w) (replicate 4 0)) (blank_words at chunk (w + 4) (budget - 1))"
        using True prog wn by (subst blank_words.simps) (simp add: Let_def)
      then show ?thesis by (simp only:) (rule crash_then [OF wr step])
    next
      case skip
      have "bslice (at + w) 4 c0 = take 4 (bslice (at + w) (length chunk - w) c0)"
        using w4 by (simp add: bslice_def)
      also have "\<dots> = bslice w 4 chunk" using "1.prems"(6) by (simp add: bslice_def)
      also have "\<dots> = replicate 4 0"
        using skip w4 replicate_eqI [of "bslice w 4 chunk" 4 0] by auto
      finally have c1: "?c1 = c0" using in1 by (simp add: zeroed_blank)
      have "crash_cells (\<lambda>c. c = c0) (blank_words at chunk (w + 4) budget)
          (blank_post at (length chunk) (w + 4) budget c0)
          (\<lambda>e c. e = Backend \<and> blanked_part (at + (w + 4)) (length chunk - (w + 4)) c0 c)"
        using "1.IH"(2) [OF True refl, unfolded wn, OF skip "1.prems"(1) pre(1) "1.prems"(3) w4 pre(2) rest]
        unfolding c1 .
      then have "crash_cells (\<lambda>c. c = c0) (blank_words at chunk (w + 4) budget)
          (blank_post at (length chunk) w budget c0) (\<lambda>e c. e = Backend \<and> blanked_part (at + w) (length chunk - w) c0 c)"
        by (rule crash_weaken) (use blank_post_next [OF _ w4 "1.prems"(5), of budget] out c1 in auto)
      then show ?thesis using True skip wn by (subst blank_words.simps) (simp add: Let_def)
    qed
  qed
qed

text \<open>The whole span, and \<open>blank\<close>, whose budget a half never exhausts.\<close>

definition span_post :: "nat \<Rightarrow> nat \<Rightarrow> nat \<Rightarrow> nat \<Rightarrow> bytes \<Rightarrow> nat \<times> nat \<Rightarrow> bytes \<Rightarrow> bool" where
  "span_post base len from budget c0 r c \<longleftrightarrow>
     (case r of (p, b) \<Rightarrow>
        from \<le> p \<and> p \<le> len \<and> c = zeroed (base + from) (p - from) c0 \<and>
        (p < len \<longrightarrow> 4 * budget < len - from) \<and> (p = len \<longrightarrow> 4 * budget \<le> 4 * b + (len - from)))"

lemma span_post_next:
  assumes "span_post base len (p + n) b (zeroed (base + p) n c0) r c" and "p + n \<le> len"
    and "base + len \<le> length c0" and "4 * budget \<le> 4 * b + n"
  shows "span_post base len p budget c0 r c"
proof -
  obtain q b' where r: "r = (q, b')" by fastforce
  from assms(1) have q: "p + n \<le> q" "q \<le> len" "c = zeroed (base + (p + n)) (q - (p + n)) (zeroed (base + p) n c0)"
    by (auto simp: span_post_def r)
  with assms(3) zeroed_zeroed [of "base + p" n "q - (p + n)" c0]
  have "c = zeroed (base + p) (q - p) c0" by (simp add: add.assoc)
  with q(1,2) assms show ?thesis by (auto simp: span_post_def r)
qed

lemma crash_blank_loop:
  assumes "base mod 4 = 0" and "len mod 4 = 0" and "p mod 4 = 0" and "p \<le> len" and "base + len \<le> length c0"
  shows "crash_cells (\<lambda>c. c = c0) (blank_loop base len p budget)
     (span_post base len p budget c0) (\<lambda>e c. e = Backend \<and> blanked_part (base + p) (len - p) c0 c)"
  using assms
proof (induction base len p budget arbitrary: c0 rule: blank_loop.induct)
  case (1 base len p budget)
  let ?C = "\<lambda>c0 e c. e = Backend \<and> blanked_part (base + p) (len - p) c0 c"
  show ?case
  proof (cases "p < len")
    case False
    with "1.prems"(4) show ?thesis
      by (subst blank_loop.simps) (auto simp: span_post_def intro!: crash_return)
  next
    case True
    define n where "n = min (len - p) 64"
    have n: "p + n \<le> len" "n mod 4 = 0" "(p + n) mod 4 = 0" "(base + p) mod 4 = 0" "base + p + n \<le> length c0"
      using True "1.prems" by (auto simp: n_def min_def)
    let ?chunk = "bslice (base + p) n c0"
    have chunk: "length ?chunk = n" using n(5) by simp
    have eq: "blank_loop base len p budget =
        kv_bind (kv_read (base + p) n) (\<lambda>chunk. kv_bind (blank_words (base + p) chunk 0 budget) (\<lambda>r.
          case r of Inl w \<Rightarrow> kv_return (p + w, 0) | Inr b \<Rightarrow> blank_loop base len (p + n) b))"
      using True by (subst blank_loop.simps) (simp add: n_def Let_def)
    have words: "crash_cells (\<lambda>c. c = c0) (blank_words (base + p) ?chunk 0 budget)
        (blank_post (base + p) n 0 budget c0) (?C c0)"
    proof (rule crash_weaken)
      show "crash_cells (\<lambda>c. c = c0) (blank_words (base + p) ?chunk 0 budget)
        (blank_post (base + p) n 0 budget c0) (\<lambda>e c. e = Backend \<and> blanked_part (base + p) n c0 c)"
        using crash_blank_words [of "base + p" 0 ?chunk c0 budget] n chunk by simp
    qed (use n(1) in \<open>auto intro: blanked_part_mono\<close>)
    have next': "crash_cells (blank_post (base + p) n 0 budget c0 r)
        (case r of Inl w \<Rightarrow> kv_return (p + w, 0) | Inr b \<Rightarrow> blank_loop base len (p + n) b)
        (span_post base len p budget c0) (?C c0)" for r
    proof (cases r)
      case (Inl w)
      have "blank_post (base + p) n 0 budget c0 (Inl w) c \<Longrightarrow> span_post base len p budget c0 (p + w, 0) c" for c
        using n(1) by (auto simp: blank_post_def span_post_def)
      with Inl show ?thesis by (simp add: crash_return)
    next
      case (Inr b)
      let ?c1 = "zeroed (base + p) n c0"
      have "base + len \<le> length ?c1" using "1.prems"(5) n(5) by simp
      note IH = "1.IH" [OF True n_def "1.prems"(1,2) n(3,1) this]
      have "crash_cells (\<lambda>c. c = ?c1 \<and> 4 * budget \<le> 4 * b + n) (blank_loop base len (p + n) b)
          (span_post base len p budget c0) (?C c0)"
      proof (rule crash_fact, rule crash_weaken [OF IH])
        fix e d assume "e = Backend \<and> blanked_part (base + (p + n)) (len - (p + n)) ?c1 (ee_buf d)"
        then show "e = Backend \<and> blanked_part (base + p) (len - p) c0 (ee_buf d)"
          using blanked_part_next [of "base + p" n "len - (p + n)" c0 "ee_buf d"] n(1,2) "1.prems"(5)
          by (auto simp: add.assoc)
      qed (use span_post_next [OF _ n(1) "1.prems"(5)] in auto)
      moreover have "blank_post (base + p) n 0 budget c0 (Inr b) c \<Longrightarrow> c = ?c1 \<and> 4 * budget \<le> 4 * b + n" for c
        by (simp add: blank_post_def)
      ultimately show ?thesis using Inr by (auto intro: crash_weaken)
    qed
    show ?thesis
      unfolding eq
    proof (rule crash_bind_pure [where x = "\<lambda>d. bslice (base + p) n (ee_buf d)"])
      fix d :: eeprom assume d: "ee_buf d = c0"
      then show "kv_read (base + p) n d = (Inr (bslice (base + p) n (ee_buf d)), d)"
        using n(5) by (simp add: kv_read_ok)
      show "crash_spec the_dev (\<lambda>s. ee_buf s = c0 \<and> bslice (base + p) n (ee_buf s) = bslice (base + p) n (ee_buf d))
          (kv_bind (blank_words (base + p) (bslice (base + p) n (ee_buf d)) 0 budget) (\<lambda>r.
            case r of Inl w \<Rightarrow> kv_return (p + w, 0) | Inr b \<Rightarrow> blank_loop base len (p + n) b))
          (\<lambda>x d. span_post base len p budget c0 x (ee_buf d)) (\<lambda>e d. ?C c0 e (ee_buf d))"
        using crash_bind [OF words next'] d by (auto intro: crash_weaken)
    qed
  qed
qed

lemma crash_blank:
  assumes "at mod 4 = 0" and "len mod 4 = 0" and "at + len \<le> length c0" and "len \<le> 4 * U32_MAX"
  shows "crash_cells (\<lambda>c. c = c0) (blank at len) (\<lambda>_ c. c = zeroed at len c0)
     (\<lambda>e c. e = Backend \<and> blanked_part at len c0 c)"
  unfolding blank_def blank_step_span_def kv_then_def
proof (rule crash_bind)
  show "crash_cells (\<lambda>c. c = c0) (blank_loop at len 0 U32_MAX) (span_post at len 0 U32_MAX c0)
      (\<lambda>e c. e = Backend \<and> blanked_part at len c0 c)"
    using crash_blank_loop [of at len 0 c0] assms by simp
  have "span_post at len 0 U32_MAX c0 x c \<Longrightarrow> c = zeroed at len c0" for x c
    using assms(4) by (cases x) (auto simp: span_post_def le_less)
  then show "crash_cells (span_post at len 0 U32_MAX c0 x) (kv_return ()) (\<lambda>_ c. c = zeroed at len c0)
      (\<lambda>e c. e = Backend \<and> blanked_part at len c0 c)" for x
    by (rule crash_return)
qed

section \<open>The append\<close>

lemma rec_at_cong:
  assumes "length hb' = length hb" and "\<And>i. p \<le> i \<Longrightarrow> i < length hb \<Longrightarrow> hb' ! i = hb ! i"
  shows "rec_at hb' p = rec_at hb p"
proof (cases "p + KV_HEADER \<le> length hb")
  case True
  have s: "bslice q n hb' = bslice q n hb" if "p \<le> q" "q + n \<le> length hb" for q n
    using that assms by (intro nth_equalityI) (auto simp: nth_bslice)
  let ?len = "hdr_len (bslice p KV_HEADER hb)"
  have "p + record_size ?len \<le> length hb \<Longrightarrow> bslice (p + KV_HEADER) ?len hb' = bslice (p + KV_HEADER) ?len hb"
    using record_size_bounds(1) [of ?len] by (intro s) auto
  then show ?thesis using True s [of p KV_HEADER] assms(1) by (auto simp: rec_at_def Let_def)
qed (use assms in \<open>simp add: rec_at_def\<close>)

text \<open>\<open>log_kept base area c0 c\<close>: only cells past the log end of the half at \<open>base\<close> changed, and its
  log is what it was.\<close>

definition log_kept :: "nat \<Rightarrow> nat \<Rightarrow> bytes \<Rightarrow> bytes \<Rightarrow> bool" where
  "log_kept base area c0 c \<longleftrightarrow>
     (let f = log_end (bslice base area c0) 0 in
      same_outside (base + f) (area - f) c0 c \<and>
      log_of (bslice base area c) 0 = log_of (bslice base area c0) 0)"

lemma half_nth_same:
  assumes "same_outside (base + f) (area - f) c0 c" and "base + area \<le> length c0" and "f \<le> area" and "i < f"
  shows "bslice base area c ! i = bslice base area c0 ! i"
  using assms by (auto simp: same_outside_def nth_bslice)

lemma log_kept_zero:
  assumes "same_outside (base + log_end (bslice base area c0) 0) (area - log_end (bslice base area c0) 0) c0 c"
    and "base + area \<le> length c0" and "bslice (base + log_end (bslice base area c0) 0) 4 c = replicate 4 0"
    and "log_end (bslice base area c0) 0 + 4 \<le> area"
  shows "log_kept base area c0 c"
proof -
  let ?f = "log_end (bslice base area c0) 0"
  have len: "length c = length c0" using assms(1) by (rule same_outside_length)
  have "bslice ?f 4 (bslice base area c) = replicate 4 0"
    using assms(2-4) len by (simp add: bslice_bslice)
  then have "rec_at (bslice base area c) ?f = None" by (rule rec_at_zero)
  moreover have "?f \<le> area" using assms(4) by simp
  ultimately have "log_of (bslice base area c) 0 = log_of (bslice base area c0) 0"
    using len assms(2) by (intro log_same) (auto intro: half_nth_same [OF assms(1,2)])
  with assms(1) show ?thesis by (simp add: log_kept_def)
qed

lemma log_kept_refl [simp]: "log_kept base area c c"
  by (simp add: log_kept_def)

text \<open>The stages of an append at the log end \<open>f\<close> of a record of \<open>n\<close> bytes.\<close>

definition append_stage :: "nat \<Rightarrow> nat \<Rightarrow> nat \<Rightarrow> nat \<Rightarrow> bytes \<Rightarrow> bool \<Rightarrow> bytes \<Rightarrow> bytes \<Rightarrow> bool" where
  "append_stage base area f n c0 term body c \<longleftrightarrow>
     same_outside (base + f) (area - f) c0 c \<and> bslice (base + f) 4 c = replicate 4 0 \<and>
     (term \<longrightarrow> rec_at (bslice base area c) (f + n) = None) \<and>
     (body = [] \<or> bslice (base + f + 4) (n - 4) c = body)"

lemma append_stage_frame:
  assumes "append_stage base area f n c0 t body c" and "same_outside a m c c'" and "base + area \<le> length c0"
    and "base + f + 4 \<le> a" and "a + m \<le> base + area"
  shows "append_stage base area f n c0 False [] c'"
    and "a + m \<le> base + f + n \<Longrightarrow> f + n \<le> area \<Longrightarrow> t \<Longrightarrow> append_stage base area f n c0 True [] c'"
proof -
  let ?A = "append_stage base area f n c0"
  have s: "same_outside (base + f) (area - f) c0 c" "length c = length c0" "length c' = length c"
    using assms(1,2) by (auto simp: append_stage_def same_outside_def)
  have s': "same_outside (base + f) (area - f) c0 c'"
    by (rule same_outside_trans [OF s(1) assms(2)]) (use assms(4,5) in auto)
  have z: "bslice (base + f) 4 c' = replicate 4 0"
    using same_outside_bslice [OF assms(2), of "base + f" 4] assms s by (auto simp: append_stage_def)
  show "?A False [] c'" using s' z by (simp add: append_stage_def)
  assume fit: "a + m \<le> base + f + n" "f + n \<le> area" and t: t
  have "rec_at (bslice base area c') (f + n) = rec_at (bslice base area c) (f + n)"
    using assms(2,3) s fit by (intro rec_at_cong) (auto simp: nth_bslice same_outside_def)
  with s' z t assms(1) show "?A True [] c'" by (simp add: append_stage_def)
qed

lemma append_stage_kept:
  assumes "append_stage base area (log_end (bslice base area c0) 0) n c0 t body c" and "base + area \<le> length c0"
    and "log_end (bslice base area c0) 0 + 4 \<le> area"
  shows "log_kept base area c0 c"
  using assms by (intro log_kept_zero) (auto simp: append_stage_def)

text \<open>Clearing the word after the new record, when a header fits there.\<close>

lemma crash_terminate:
  assumes "base mod 4 = 0" and "f mod 4 = 0" and "n mod 4 = 0" and "8 \<le> n" and "f + n \<le> area"
    and "base + area \<le> length c0"
  shows "crash_cells (append_stage base area f n c0 False [])
     (if f + n + KV_HEADER \<le> area then clear_word (base + (f + n)) else kv_return ())
     (\<lambda>_. append_stage base area f n c0 True []) (\<lambda>e c. e = Backend \<and> append_stage base area f n c0 False [] c)"
proof (rule crash_if)
  assume fits: "f + n + KV_HEADER \<le> area"
  show "crash_cells (append_stage base area f n c0 False []) (clear_word (base + (f + n)))
     (\<lambda>_. append_stage base area f n c0 True []) (\<lambda>e c. e = Backend \<and> append_stage base area f n c0 False [] c)"
  proof (rule crash_cells_fix)
    fix c1 assume c1: "append_stage base area f n c0 False [] c1"
    then have len: "length c1 = length c0" by (simp add: append_stage_def same_outside_def)
    let ?c2 = "zeroed (base + (f + n)) 4 c1"
    have in1: "base + (f + n) + 4 \<le> length c1" using fits assms(6) len by (simp add: KV_HEADER_def)
    have c2: "append_stage base area f n c0 False [] ?c2"
      using append_stage_frame(1) [OF c1 same_outside_zeroed [OF in1] assms(6)] assms(4) fits
      by (simp add: KV_HEADER_def)
    have "bslice (f + n) 4 (bslice base area ?c2) = replicate 4 0"
      using in1 fits assms(6) len by (simp add: bslice_bslice bslice_zeroed KV_HEADER_def)
    then have "rec_at (bslice base area ?c2) (f + n) = None" by (rule rec_at_zero)
    with c2 have full: "append_stage base area f n c0 True [] ?c2" by (simp add: append_stage_def)
    have "(base + (f + n)) mod 4 = 0" using assms(1-3) by presburger
    from crash_clear_word [OF this in1] show "crash_cells (\<lambda>c. c = c1) (clear_word (base + (f + n)))
       (\<lambda>_. append_stage base area f n c0 True []) (\<lambda>e c. e = Backend \<and> append_stage base area f n c0 False [] c)"
      by (rule crash_weaken) (use full c2 c1 in auto)
  qed
next
  assume "\<not> f + n + KV_HEADER \<le> area"
  then have "rec_at hb (f + n) = None" if "length hb = area" for hb using that by (simp add: rec_at_def)
  then have "append_stage base area f n c0 False [] c \<Longrightarrow> append_stage base area f n c0 True [] c" for c
    using assms(6) by (auto simp: append_stage_def same_outside_def)
  then show "crash_cells (append_stage base area f n c0 False []) (kv_return ())
     (\<lambda>_. append_stage base area f n c0 True []) (\<lambda>e c. e = Backend \<and> append_stage base area f n c0 False [] c)"
    by (rule crash_return)
qed

lemma torn_word_zero:
  assumes "torn off dat c c'" and "length dat = 4" and "off + 4 \<le> length c" and "bslice off 4 c = replicate 4 0"
  shows "c' = c"
  using assms(1)
proof (rule torn_cases)
  fix k x assume "4 * k + 4 \<le> length dat" "x = bslice (off + 4 * k) 4 c \<or> x = replicate 4 0"
    "c' = bsplice off (take (4 * k) dat @ x) c"
  then show ?thesis using assms(2-4) bsplice_same_word [of off 4 c] by auto
qed (use assms in simp)

lemma crash_kv_append:
  assumes "base mod 4 = 0" and "f mod 4 = 0" and "n = record_size (length v)" and "f + n \<le> area"
    and "base + area \<le> length c0" and "key \<noteq> 0" and "length v \<le> MAX_VALUE" and "f = log_end (bslice base area c0) 0"
  shows "crash_cells (append_stage base area f n c0 True []) (kv_append (base + f) key v)
     (\<lambda>_ c. same_outside (base + f) (area - f) c0 c \<and>
        log_of (bslice base area c) 0 = log_of (bslice base area c0) 0 @ [(f, key, v)])
     (\<lambda>e c. e = Backend \<and> append_stage base area f n c0 False [] c)"
  unfolding kv_append_def
proof (rule crash_then)
  let ?rb = "record_bytes key v"
  have rb: "length ?rb = n" "n mod 4 = 0" "8 \<le> n"
    using length_record_bytes record_size_bounds(2) record_size_pos assms(3) by auto
  let ?S = "append_stage base area f n c0"
  show "crash_cells (?S True []) (kv_write (base + f + 4) (drop 4 ?rb)) (\<lambda>_. ?S True (drop 4 ?rb)) (\<lambda>e c. e = Backend \<and> ?S False [] c)"
  proof (rule crash_write)
    fix c assume c: "?S True [] c"
    then have len: "length c = length c0" by (simp add: append_stage_def same_outside_def)
    show in1: "base + f + 4 + length (drop 4 ?rb) \<le> length c" using len rb assms(4,5) by simp
    show "?S True (drop 4 ?rb) (bsplice (base + f + 4) (drop 4 ?rb) c)"
      using append_stage_frame(2) [OF c same_outside_bsplice [OF in1] assms(5)] rb assms(4)
        bslice_bsplice_same [OF in1] by (simp add: append_stage_def)
    show "Backend = Backend \<and> ?S False [] c'" if "torn (base + f + 4) (drop 4 ?rb) c c'" for c'
      using append_stage_frame(1) [OF c same_outside_torn [OF that in1] assms(5)] rb assms(4) by simp
  qed (use assms(1,2) rb in \<open>simp_all, presburger+\<close>)
  show "crash_cells (?S True (drop 4 ?rb)) (kv_write (base + f) (take 4 ?rb))
     (\<lambda>_ c. same_outside (base + f) (area - f) c0 c \<and>
        log_of (bslice base area c) 0 = log_of (bslice base area c0) 0 @ [(f, key, v)]) (\<lambda>e c. e = Backend \<and> ?S False [] c)"
  proof (rule crash_write)
    fix c assume c: "?S True (drop 4 ?rb) c"
    then have len: "length c = length c0" and out: "same_outside (base + f) (area - f) c0 c"
      and z: "bslice (base + f) 4 c = replicate 4 0" by (auto simp: append_stage_def same_outside_def)
    have d4: "drop 4 ?rb \<noteq> []" using rb by auto
    have l4: "length (take 4 ?rb) = 4" using rb by simp
    show in1: "base + f + length (take 4 ?rb) \<le> length c" using len rb assms(4,5) by simp
    show "Backend = Backend \<and> ?S False [] c'" if "torn (base + f) (take 4 ?rb) c c'" for c'
      using torn_word_zero [OF that l4 _ z] in1 l4 c by (simp add: append_stage_def)
    let ?c' = "bsplice (base + f) (take 4 ?rb) c"
    have out': "same_outside (base + f) (area - f) c0 ?c'"
      by (rule same_outside_trans [OF out same_outside_bsplice [OF in1]]) (use rb assms(4) in auto)
    have len': "length ?c' = length c0" using in1 len by simp
    have "bslice (base + f) n ?c' = bslice (base + f) 4 ?c' @ bslice (base + f + 4) (n - 4) ?c'"
      using bslice_split [of "base + f" 4 "n - 4" ?c'] rb len' assms(4,5) by simp
    also have "bslice (base + f) 4 ?c' = take 4 ?rb" using bslice_bsplice_same [OF in1] l4 by simp
    also have "bslice (base + f + 4) (n - 4) ?c' = bslice (base + f + 4) (n - 4) c"
      using in1 l4 rb len assms(4,5) by (intro bslice_bsplice_disjoint) auto
    also have "\<dots> = drop 4 ?rb" using c d4 by (simp add: append_stage_def)
    finally have "bslice f n (bslice base area ?c') = ?rb" using len' assms(4,5) by (simp add: bslice_bslice)
    then have r1: "rec_at (bslice base area ?c') f = Some (key, v)"
      using assms len' by (intro rec_at_record_bytes) auto
    have "rec_at (bslice base area ?c') (f + n) = rec_at (bslice base area c) (f + n)"
      using in1 l4 rb len assms(4,5) by (intro rec_at_cong) (auto simp: nth_bslice nth_bsplice)
    then have r2: "rec_at (bslice base area ?c') (f + n) = None" using c by (simp add: append_stage_def)
    have "log_of (bslice base area ?c') 0 = log_of (bslice base area c0) 0 @ [(f, key, v)]"
      unfolding assms(8)
      by (rule log_append(1)) (use r1 r2 len' assms half_nth_same [OF out' assms(5)] in auto)
    with out' show "same_outside (base + f) (area - f) c0 ?c' \<and>
        log_of (bslice base area ?c') 0 = log_of (bslice base area c0) 0 @ [(f, key, v)]" by blast
  qed (use assms(1,2) rb in \<open>simp_all, presburger+\<close>)
qed

lemma crash_append_end:
  assumes "base mod 4 = 0" and "base + area \<le> length c0" and "f = log_end (bslice base area c0) 0"
    and "f + record_size (length v) \<le> area" and "key \<noteq> 0" and "length v \<le> MAX_VALUE"
  shows "crash_cells (\<lambda>c. c = c0) (append_end base area f key v)
     (\<lambda>_ c. same_outside (base + f) (area - f) c0 c \<and>
        log_of (bslice base area c) 0 = log_of (bslice base area c0) 0 @ [(f, key, v)])
     (\<lambda>e c. e = Backend \<and> log_kept base area c0 c)"
  unfolding append_end_def Let_def
proof (rule crash_then)
  let ?n = "record_size (length v)" and ?c1 = "zeroed (base + f) 4 c0"
  let ?S = "append_stage base area f ?n c0"
  have f4: "f mod 4 = 0" using log_end_aligned [of 0] assms(3) by simp
  have n: "8 \<le> ?n" "?n mod 4 = 0" using record_size_pos record_size_bounds(2) by auto
  have in1: "base + f + 4 \<le> length c0" using assms(2,4) n by simp
  have S1: "?S False [] ?c1"
    using same_outside_mono [OF same_outside_zeroed [OF in1], of "base + f" "area - f"] assms(4) n
    by (simp add: append_stage_def bslice_zeroed [OF in1])
  have kept: "?S t b c \<Longrightarrow> log_kept base area c0 c" for t b c
    using append_stage_kept [of base area c0 ?n t b c] assms(2-4) n by simp
  have "(base + f) mod 4 = 0" using assms(1) f4 by presburger
  from crash_clear_word [OF this in1]
  show "crash_cells (\<lambda>c. c = c0) (clear_word (base + f)) (\<lambda>_. ?S False [])
      (\<lambda>e c. e = Backend \<and> log_kept base area c0 c)"
    by (rule crash_weaken) (use S1 kept in auto)
  show "crash_cells (?S False [])
      (kv_then (if f + ?n + KV_HEADER \<le> area then clear_word (base + (f + ?n)) else kv_return ())
        (kv_append (base + f) key v))
      (\<lambda>_ c. same_outside (base + f) (area - f) c0 c \<and>
        log_of (bslice base area c) 0 = log_of (bslice base area c0) 0 @ [(f, key, v)])
      (\<lambda>e c. e = Backend \<and> log_kept base area c0 c)"
  proof (rule crash_then)
    show "crash_cells (?S False []) (if f + ?n + KV_HEADER \<le> area then clear_word (base + (f + ?n)) else kv_return ())
        (\<lambda>_. ?S True []) (\<lambda>e c. e = Backend \<and> log_kept base area c0 c)"
      by (rule crash_weaken [OF crash_terminate [OF assms(1) f4 n(2,1) assms(4,2)]]) (use kept in auto)
    show "crash_cells (?S True []) (kv_append (base + f) key v)
        (\<lambda>_ c. same_outside (base + f) (area - f) c0 c \<and>
          log_of (bslice base area c) 0 = log_of (bslice base area c0) 0 @ [(f, key, v)])
        (\<lambda>e c. e = Backend \<and> log_kept base area c0 c)"
      by (rule crash_weaken [OF crash_kv_append [OF assms(1) f4 refl assms(4,2,5,6,3)]]) (use kept in auto)
  qed
qed

section \<open>The copying pass of a flip\<close>

text \<open>\<open>packed dst_base half c0 wr tvs c\<close>: only the destination half differs from \<open>c0\<close>; its log has the
  records \<open>tvs\<close>, ends at \<open>wr\<close>, and the cells from there on are blank.\<close>

definition packed :: "nat \<Rightarrow> nat \<Rightarrow> bytes \<Rightarrow> nat \<Rightarrow> (u16 \<times> bytes) list \<Rightarrow> bytes \<Rightarrow> bool" where
  "packed dst_base half c0 wr tvs c \<longleftrightarrow>
     same_outside dst_base half c0 c \<and> wr \<le> half \<and>
     log_end (bslice dst_base half c) 0 = wr \<and> map snd (log_of (bslice dst_base half c) 0) = tvs \<and>
     (\<forall>i. wr \<le> i \<longrightarrow> i < half \<longrightarrow> c ! (dst_base + i) = 0)"

lemma rec_at_blank_tail:
  assumes "\<And>i. p \<le> i \<Longrightarrow> i < length hb \<Longrightarrow> hb ! i = 0"
  shows "rec_at hb p = None"
proof (cases "p + KV_HEADER \<le> length hb")
  case True
  then have "bslice p 4 hb = replicate 4 0"
    using assms by (intro nth_equalityI) (auto simp: nth_bslice KV_HEADER_def)
  then show ?thesis by (rule rec_at_zero)
qed (simp add: rec_at_def)

text \<open>One more intact record of \<open>sz\<close> bytes written at the end of a packed half.\<close>

lemma packed_next:
  assumes P: "packed dst_base half c0 wr tvs c" and r: "rec_at hb p = Some (t, v)"
    and dat: "dat = bslice p (record_size (length v)) hb" and fit: "wr + record_size (length v) \<le> half"
    and len: "dst_base + half \<le> length c0"
  shows "packed dst_base half c0 (wr + record_size (length v)) (tvs @ [(t, v)]) (bsplice (dst_base + wr) dat c)"
proof -
  let ?n = "record_size (length v)" and ?c' = "bsplice (dst_base + wr) dat c"
  let ?db = "bslice dst_base half c" and ?db' = "bslice dst_base half ?c'"
  have D: "same_outside dst_base half c0 c" "log_end ?db 0 = wr" "map snd (log_of ?db 0) = tvs"
    "\<And>i. wr \<le> i \<Longrightarrow> i < half \<Longrightarrow> c ! (dst_base + i) = 0" "length c = length c0"
    using P by (auto simp: packed_def same_outside_def)
  have ln: "length dat = ?n" using dat rec_at_SomeD(3) [OF r] by simp
  have in1: "dst_base + wr + length dat \<le> length c" using ln fit len D(5) by simp
  have len': "length ?c' = length c0" using in1 D(5) by simp
  have out: "same_outside dst_base half c0 ?c'"
    by (rule same_outside_trans [OF D(1) same_outside_bsplice [OF in1]]) (use ln fit in auto)
  have "bslice wr ?n ?db' = dat"
    using bslice_bsplice_same [OF in1] ln fit len len' by (simp add: bslice_bslice)
  then have r1: "rec_at ?db' wr = Some (t, v)"
    using rec_at_local [OF r refl, of wr ?db'] dat fit len len' by simp
  have z: "?c' ! (dst_base + i) = 0" if "wr + ?n \<le> i" "i < half" for i
    using that D(4) [of i] in1 ln len D(5) by (simp add: nth_bsplice)
  have r2: "rec_at ?db' (wr + ?n) = None"
    by (rule rec_at_blank_tail) (use z len len' in \<open>auto simp: nth_bslice\<close>)
  have same: "?db' ! i = ?db ! i" if "i < wr" for i
    using that in1 ln fit len D(5) by (simp add: nth_bslice nth_bsplice)
  have "log_of ?db' 0 = log_of ?db 0 @ [(log_end ?db 0, t, v)]" "log_end ?db' 0 = log_end ?db 0 + ?n"
    by (rule log_append; use r1 r2 same D(2,5) len len' in simp)+
  with out D(2,3) z fit show ?thesis by (simp add: packed_def)
qed

lemma crash_packed_write:
  assumes "rec_at hb p = Some (t, v)" and "dat = bslice p (record_size (length v)) hb"
    and "wr + record_size (length v) \<le> half" and "dst_base + half \<le> length c0" and "dst_base mod 4 = 0" and "wr mod 4 = 0"
  shows "crash_cells (packed dst_base half c0 wr tvs) (kv_write (dst_base + wr) dat)
     (\<lambda>_. packed dst_base half c0 (wr + record_size (length v)) (tvs @ [(t, v)]))
     (\<lambda>e c. e = Backend \<and> same_outside dst_base half c0 c)"
proof (rule crash_write)
  have ln: "length dat = record_size (length v)" using assms(2) rec_at_SomeD(3) [OF assms(1)] by simp
  show "length dat mod 4 = 0" using ln record_size_bounds(2) by simp
  show "(dst_base + wr) mod 4 = 0" using assms(5,6) by presburger
  fix c assume c: "packed dst_base half c0 wr tvs c"
  then have out: "same_outside dst_base half c0 c" by (simp add: packed_def)
  then have "length c = length c0" by (rule same_outside_length)
  then show in1: "dst_base + wr + length dat \<le> length c" using ln assms(3,4) by simp
  show "packed dst_base half c0 (wr + record_size (length v)) (tvs @ [(t, v)]) (bsplice (dst_base + wr) dat c)"
    by (rule packed_next [OF c assms(1-4)])
  show "Backend = Backend \<and> same_outside dst_base half c0 c'" if "torn (dst_base + wr) dat c c'" for c'
    using same_outside_trans [OF out same_outside_torn [OF that in1]] ln assms(3) by simp
qed

lemma crash_copy_loop:
  assumes disj: "src_base + half \<le> dst_base \<or> dst_base + half \<le> src_base"
    and len: "src_base + half \<le> length c0" "dst_base + half \<le> length c0" and al: "dst_base mod 4 = 0"
  defines "hb \<equiv> bslice src_base half c0"
  shows "wr \<le> p \<Longrightarrow> wr mod 4 = 0 \<Longrightarrow>
     crash_cells (packed dst_base half c0 wr tvs)
       (copy_loop src_base dst_base half (log_end hb p) latest p wr)
       (\<lambda>_ c. \<exists>wr'. packed dst_base half c0 wr' (tvs @ map snd (filter (live latest) (log_of hb p))) c)
       (\<lambda>e c. e = Backend \<and> same_outside dst_base half c0 c)"
proof (induction p arbitrary: wr tvs rule: log_induct [of hb])
  case (stop p)
  then show ?case
    by (subst copy_loop.simps) (auto simp: log_stop intro!: crash_return)
next
  case (step p t v)
  let ?n = "record_size (length v)" and ?P = "packed dst_base half c0"
  let ?Q = "\<lambda>tvs _ c. \<exists>wr'. ?P wr' (tvs @ map snd (filter (live latest) (log_of hb p))) c"
  let ?C = "\<lambda>e c. e = Backend \<and> same_outside dst_base half c0 c"
  note S = log_step [OF step(1)] and R = rec_at_SomeD [OF step(1)]
  have lhb: "length hb = half" using len(1) by (simp add: hb_def)
  have lt: "p < log_end hb p" using S log_end_ge [of "p + ?n" hb] record_size_pos [of "length v"] by linarith
  have src: "bslice (src_base + q) m (ee_buf d) = bslice q m hb" if "?P wr tvs (ee_buf d)" "q + m \<le> half" for d q m
    using that disj len same_outside_bslice [of dst_base half c0 "ee_buf d" "src_base + q" m]
    by (auto simp: packed_def hb_def bslice_bslice)
  have rd: "kv_read (src_base + q) m d = (Inr (bslice q m hb), d)" if "?P wr tvs (ee_buf d)" "q + m \<le> half" for d q m
  proof -
    have "length (ee_buf d) = length c0" using that(1) by (auto simp: packed_def same_outside_def)
    with src [OF that] that(2) len(1) show ?thesis by (simp add: kv_read_ok)
  qed
  let ?skip = "copy_loop src_base dst_base half (log_end hb p) latest (p + ?n) wr"
  let ?more = "copy_loop src_base dst_base half (log_end hb p) latest (p + ?n) (wr + ?n)"
  have n4: "(wr + ?n) mod 4 = 0" using step.prems(2) record_size_bounds(2) [of "length v"] by presburger
  have eq: "copy_loop src_base dst_base half (log_end hb p) latest p wr =
     kv_bind (kv_read (src_base + p) KV_HEADER) (\<lambda>hdr. if hdr_tag hdr = 0 then kv_return ()
        else let len = hdr_len hdr; size = record_size len in
          if len \<noteq> 0 \<and> (hdr_tag hdr, p) \<in> set latest then
            if wr + size > half then kv_raise Full
            else kv_bind (kv_read (src_base + p) size) (\<lambda>tmp.
              kv_then (kv_write (dst_base + wr) tmp)
                (copy_loop src_base dst_base half (log_end hb p) latest (p + size) (wr + size)))
          else copy_loop src_base dst_base half (log_end hb p) latest (p + size) wr)"
    using lt by (subst copy_loop.simps) simp
  show ?case
    unfolding eq
  proof (rule crash_bind_const [where x = "bslice p KV_HEADER hb"])
    show "kv_read (src_base + p) KV_HEADER d = (Inr (bslice p KV_HEADER hb), d)" if "?P wr tvs (ee_buf d)" for d
      using rd [OF that] R(4) lhb by simp
    have keep: "crash_cells (?P wr tvs) (kv_bind (kv_read (src_base + p) ?n) (\<lambda>tmp.
          kv_then (kv_write (dst_base + wr) tmp) ?more)) (?Q tvs) ?C"
      if live: "live latest (p, t, v)"
    proof (rule crash_bind_const [where x = "bslice p ?n hb"])
      show "kv_read (src_base + p) ?n d = (Inr (bslice p ?n hb), d)" if "?P wr tvs (ee_buf d)" for d
        using rd [OF that] R(3) lhb by simp
      have fit: "wr + ?n \<le> half" using step.prems(1) R(3) lhb by simp
      show "crash_cells (?P wr tvs) (kv_then (kv_write (dst_base + wr) (bslice p ?n hb)) ?more) (?Q tvs) ?C"
      proof (rule crash_then)
        show "crash_cells (?P wr tvs) (kv_write (dst_base + wr) (bslice p ?n hb))
            (\<lambda>_. ?P (wr + ?n) (tvs @ [(t, v)])) ?C"
          by (rule crash_packed_write [OF step(1) refl fit len(2) al step.prems(2)])
        show "crash_cells (?P (wr + ?n) (tvs @ [(t, v)])) ?more (?Q tvs) ?C"
          using step.IH [of "wr + ?n" "tvs @ [(t, v)]"] step.prems(1) n4 S live by simp
      qed
    qed
    have skip: "crash_cells (?P wr tvs) ?skip (?Q tvs) ?C" if "\<not> live latest (p, t, v)"
      using step.IH [of wr tvs] step.prems S that by (simp add: trans_le_add1)
    show "crash_cells (?P wr tvs) (if hdr_tag (bslice p KV_HEADER hb) = 0 then kv_return ()
        else let len = hdr_len (bslice p KV_HEADER hb); size = record_size len in
          if len \<noteq> 0 \<and> (hdr_tag (bslice p KV_HEADER hb), p) \<in> set latest then
            if wr + size > half then kv_raise Full
            else kv_bind (kv_read (src_base + p) size) (\<lambda>tmp.
              kv_then (kv_write (dst_base + wr) tmp)
                (copy_loop src_base dst_base half (log_end hb p) latest (p + size) (wr + size)))
          else copy_loop src_base dst_base half (log_end hb p) latest (p + size) wr) (?Q tvs) ?C"
      using keep skip R(1,3,5,6) lhb step.prems(1) by (auto simp: Let_def live_def)
  qed
qed

end
