(* ===== verification/Kv_Store.thy ===== *)
theory Kv_Store
  imports Kv_Crash
begin

text \<open>
  The key-value store as a whole: the well-formedness of the cells (\<open>kv_wf\<close>), the map they mean
  (\<open>kv_abs\<close>), and the crash specification of every public operation against that map. The
  superblock write is the commit: whatever word of it a cut tears, the active half is the old
  one or, complete, the new one.
\<close>

section \<open>Layout\<close>

definition kv_layout :: "nat \<Rightarrow> bytes \<Rightarrow> bool" where
  "kv_layout cap c \<longleftrightarrow> 2 * SUPER_LEN \<le> region cap \<and> cap \<le> length c \<and> cap \<le> U32_MAX"

definition half_at :: "nat \<Rightarrow> nat \<Rightarrow> bytes \<Rightarrow> bytes" where
  "half_at cap h c = bslice (half_base cap h) (half_len cap) c"

definition slot_at :: "nat \<Rightarrow> nat \<Rightarrow> bytes \<Rightarrow> bytes" where
  "slot_at cap h c = bslice (super_off cap h) SUPER_LEN c"

lemma layout_facts:
  assumes "kv_layout cap c"
  shows "half_base cap 0 = 0" "half_base cap 1 = half_len cap" "2 * half_len cap \<le> super_off cap 0"
    "super_off cap 1 = super_off cap 0 + 12" "super_off cap 0 + 24 \<le> length c"
    "half_len cap mod 4 = 0" "super_off cap 0 mod 4 = 0" "half_len cap \<le> 4 * U32_MAX"
proof -
  let ?r = "region cap - 24"
  have r: "24 \<le> region cap" "region cap \<le> cap" "cap \<le> length c" "cap \<le> U32_MAX" "region cap mod 4 = 0"
    using assms by (auto simp: kv_layout_def region_def SUPER_LEN_def)
  have so: "super_off cap 0 = ?r" "super_off cap 1 = ?r + 12" by (simp_all add: super_off_def SUPER_LEN_def)
  have hl: "half_len cap = ?r div 2 div 4 * 4" by (simp add: half_len_def SUPER_LEN_def)
  show "half_base cap 0 = 0" "half_base cap 1 = half_len cap" by (simp_all add: half_base_def)
  have "half_len cap \<le> ?r div 2" unfolding hl by simp
  then show two: "2 * half_len cap \<le> super_off cap 0" unfolding so by linarith
  show "super_off cap 1 = super_off cap 0 + 12" using so by simp
  show "super_off cap 0 + 24 \<le> length c" using so(1) r by simp
  show "half_len cap mod 4 = 0" by (simp add: hl)
  show "super_off cap 0 mod 4 = 0" using so(1) r(1,5) by presburger
  show "half_len cap \<le> 4 * U32_MAX" using two so(1) r by linarith
qed

lemma layout_half:
  assumes "kv_layout cap c" and "h \<le> 1"
  shows "half_base cap h + half_len cap \<le> super_off cap 0" and "half_base cap h + half_len cap \<le> length c"
    and "half_base cap h mod 4 = 0" and "length (half_at cap h c) = half_len cap"
proof -
  note L = layout_facts [OF assms(1)]
  from assms(2) have "h = 0 \<or> h = 1" by auto
  then show "half_base cap h + half_len cap \<le> super_off cap 0" "half_base cap h mod 4 = 0" using L by auto
  then show "half_base cap h + half_len cap \<le> length c" "length (half_at cap h c) = half_len cap"
    using L(5) by (auto simp: half_at_def)
qed

lemma layout_slot:
  assumes "kv_layout cap c" and "h \<le> 1"
  shows "super_off cap 0 \<le> super_off cap h" and "super_off cap h + 12 \<le> length c"
    and "super_off cap h mod 4 = 0" and "length (slot_at cap h c) = 12"
proof -
  note L = layout_facts [OF assms(1)]
  from assms(2) have "h = 0 \<or> h = 1" by auto
  then show "super_off cap 0 \<le> super_off cap h" "super_off cap h + 12 \<le> length c" "super_off cap h mod 4 = 0"
    using L by (auto simp: mod_add_eq [symmetric, of "super_off cap 0" 12])
  then show "length (slot_at cap h c) = 12" by (simp add: slot_at_def SUPER_LEN_def)
qed

lemma layout_disjoint:
  assumes "kv_layout cap c" and "h \<le> 1"
  shows "half_base cap h + half_len cap \<le> half_base cap (1 - h) \<or> half_base cap (1 - h) + half_len cap \<le> half_base cap h"
    and "super_off cap h + 12 \<le> super_off cap (1 - h) \<or> super_off cap (1 - h) + 12 \<le> super_off cap h"
proof -
  from assms(2) have "h = 0 \<or> h = 1" by auto
  with layout_facts [OF assms(1)]
  show "half_base cap h + half_len cap \<le> half_base cap (1 - h) \<or> half_base cap (1 - h) + half_len cap \<le> half_base cap h"
    "super_off cap h + 12 \<le> super_off cap (1 - h) \<or> super_off cap (1 - h) + 12 \<le> super_off cap h"
    by auto
qed

lemma layout_same: "kv_layout cap c0 \<Longrightarrow> length c = length c0 \<Longrightarrow> kv_layout cap c"
  by (simp add: kv_layout_def)

text \<open>Writes inside one half leave the other half and the superblocks alone; a superblock write
  leaves the halves and the other superblock alone.\<close>

lemma half_frame:
  assumes "kv_layout cap c0" and "h \<le> 1" and "same_outside (half_base cap h + a) n c0 c" and "a + n \<le> half_len cap"
  shows "k \<le> 1 \<Longrightarrow> slot_at cap k c = slot_at cap k c0" and "half_at cap (1 - h) c = half_at cap (1 - h) c0"
    and "kv_layout cap c"
proof -
  note H = layout_half [OF assms(1,2)]
  show "kv_layout cap c" using assms(1,3) by (auto simp: same_outside_def intro: layout_same)
  show "slot_at cap k c = slot_at cap k c0" if "k \<le> 1"
    unfolding slot_at_def SUPER_LEN_def using H(1) layout_slot [OF assms(1) that] assms(4)
    by (intro same_outside_bslice [OF assms(3)]) auto
  have "1 - h \<le> 1" by simp
  from layout_half(2) [OF assms(1) this] show "half_at cap (1 - h) c = half_at cap (1 - h) c0"
    unfolding half_at_def using layout_disjoint(1) [OF assms(1,2)] assms(4)
    by (intro same_outside_bslice [OF assms(3)]) auto
qed

lemma slot_frame:
  assumes "kv_layout cap c0" and "h \<le> 1" and "same_outside (super_off cap h) 12 c0 c"
  shows "slot_at cap (1 - h) c = slot_at cap (1 - h) c0" and "k \<le> 1 \<Longrightarrow> half_at cap k c = half_at cap k c0"
    and "kv_layout cap c"
proof -
  note S = layout_slot [OF assms(1,2)]
  show "kv_layout cap c" using assms(1,3) by (auto simp: same_outside_def intro: layout_same)
  show "half_at cap k c = half_at cap k c0" if "k \<le> 1"
    unfolding half_at_def using S(1) layout_half(1,2) [OF assms(1) that]
    by (intro same_outside_bslice [OF assms(3)]) auto
  have "1 - h \<le> 1" by simp
  from layout_slot(2) [OF assms(1) this] show "slot_at cap (1 - h) c = slot_at cap (1 - h) c0"
    unfolding slot_at_def SUPER_LEN_def using layout_disjoint(2) [OF assms(1,2)]
    by (intro same_outside_bslice [OF assms(3)]) auto
qed

section \<open>Superblocks\<close>

definition slot_gen :: "bytes \<Rightarrow> u32" where
  "slot_gen b = le_u32 (b ! 4) (b ! 5) (b ! 6) (b ! 7)"

definition slot_crc :: "bytes \<Rightarrow> u32" where
  "slot_crc b = le_u32 (b ! 8) (b ! 9) (b ! 10) (b ! 11)"

text \<open>The CRC word of the slot would validate generation \<open>g\<close>.\<close>

definition seals :: "bytes \<Rightarrow> u32 \<Rightarrow> bool" where
  "seals b g \<longleftrightarrow> super_crc (SUPER_MAGIC @ u32_le g) = slot_crc b"

lemma parse_super_iff:
  assumes "length b = 12"
  shows "parse_super b = Some g \<longleftrightarrow> take 4 b = SUPER_MAGIC \<and> g = slot_gen b \<and> seals b g"
proof -
  have b8: "take 8 b = take 4 b @ u32_le (slot_gen b)"
  proof -
    have "take 8 b = take 4 b @ [b ! 4, b ! 5, b ! 6, b ! 7]"
      using assms by (intro nth_equalityI) (auto simp: nth_append nth_Cons' less_Suc_eq eval_nat_numeral)
    then show ?thesis by (simp add: slot_gen_def)
  qed
  then show ?thesis by (auto simp: parse_super_def Let_def seals_def slot_gen_def [symmetric] slot_crc_def [symmetric])
qed

definition super_bytes :: "u32 \<Rightarrow> bytes" where
  "super_bytes g = SUPER_MAGIC @ u32_le g @ u32_le (super_crc (SUPER_MAGIC @ u32_le g))"

lemma length_super_bytes [simp]: "length (super_bytes g) = 12"
  by (simp add: super_bytes_def SUPER_MAGIC_def)

lemma write_gen_super: "write_gen cap h g = kv_write (super_off cap h) (super_bytes g)"
  by (simp add: write_gen_def super_bytes_def Let_def)

lemma slot_super_bytes: "slot_gen (super_bytes g) = g" "seals (super_bytes g) g" "parse_super (super_bytes g) = Some g"
proof -
  show 1: "slot_gen (super_bytes g) = g"
    by (simp add: slot_gen_def super_bytes_def SUPER_MAGIC_def u32_le_def nth_append)
  show 2: "seals (super_bytes g) g"
    unfolding seals_def slot_crc_def super_bytes_def SUPER_MAGIC_def by (simp add: u32_le_def nth_append)
  show "parse_super (super_bytes g) = Some g"
    using 1 2 by (simp add: parse_super_iff) (simp add: super_bytes_def SUPER_MAGIC_def)
qed

text \<open>What a torn superblock write leaves in the slot.\<close>

lemma torn_super:
  assumes "torn 0 (super_bytes g) b b'" and "length b = 12"
  shows "slot_gen b' = slot_gen b \<and> slot_crc b' = slot_crc b \<or>
     slot_gen b' = 0 \<and> slot_crc b' = slot_crc b \<or>
     take 4 b' = SUPER_MAGIC \<and> slot_gen b' = g \<and> (slot_crc b' = slot_crc b \<or> slot_crc b' = 0)"
  using assms(1)
proof (rule torn_cases)
  fix k x assume k: "4 * k + 4 \<le> length (super_bytes g)" and x: "length x = 4" "x = bslice (0 + 4 * k) 4 b \<or> x = replicate 4 0"
    and b': "b' = bsplice 0 (take (4 * k) (super_bytes g) @ x) b"
  have nth: "b' ! i = (if i < 4 * k then super_bytes g ! i else if i < 4 * k + 4 then x ! (i - 4 * k) else b ! i)"
    if "i < 12" for i
    using that k x(1) assms(2) unfolding b' by (subst nth_bsplice) (auto simp: nth_append)
  have xs: "x = bslice (4 * k) 4 b \<or> x = replicate 4 0" using x(2) by simp
  have x0: "le_u32 (x ! 0) (x ! 1) (x ! 2) (x ! 3) = 0" if "x = replicate 4 0"
    using that by (simp add: le_u32_def)
  from k have "k = 0 \<or> k = 1 \<or> k = 2" by auto
  then consider "k = 0" | "k = 1" | "k = 2" by blast
  then show ?thesis
  proof cases
    case 1
    then show ?thesis by (simp add: slot_gen_def slot_crc_def nth)
  next
    case 2
    then have g: "slot_gen b' = le_u32 (x ! 0) (x ! 1) (x ! 2) (x ! 3)" and "slot_crc b' = slot_crc b"
      by (simp_all add: slot_gen_def slot_crc_def nth)
    moreover have "x = bslice 4 4 b \<Longrightarrow> slot_gen b' = slot_gen b"
      unfolding g using assms(2) by (simp add: slot_gen_def nth_bslice)
    ultimately show ?thesis using xs x0 2 by auto
  next
    case 3
    then have "slot_gen b' = slot_gen (super_bytes g)" and c: "slot_crc b' = le_u32 (x ! 0) (x ! 1) (x ! 2) (x ! 3)"
      by (simp_all add: slot_gen_def slot_crc_def nth)
    moreover have "x = bslice 8 4 b \<Longrightarrow> slot_crc b' = slot_crc b"
      unfolding c using assms(2) by (simp add: slot_crc_def nth_bslice)
    moreover have "take 4 b' = SUPER_MAGIC"
    proof -
      have "length b' = 12" using b' x(1) 3 assms(2) by simp
      then have "take 4 b' = take 4 (super_bytes g)"
        using 3 by (intro nth_equalityI) (auto simp: nth)
      then show ?thesis by (simp add: super_bytes_def SUPER_MAGIC_def)
    qed
    ultimately show ?thesis using xs x0 3 slot_super_bytes(1) by auto
  qed
qed (use assms in simp)

section \<open>Well-formed cells and the map they mean\<close>

definition active_of :: "nat \<Rightarrow> bytes \<Rightarrow> (nat \<times> u32) option" where
  "active_of cap c = pick_active (parse_super (slot_at cap 0 c)) (parse_super (slot_at cap 1 c))"

text \<open>A slot that cannot outrank generation \<open>g\<close>, and one no torn write can validate by accident.\<close>

definition stale :: "bytes \<Rightarrow> u32 \<Rightarrow> bool" where
  "stale b g \<longleftrightarrow> (seals b (slot_gen b) \<longrightarrow> slot_gen b < g)"

definition virgin :: "bytes \<Rightarrow> bool" where
  "virgin b \<longleftrightarrow> \<not> seals b 0 \<and> \<not> seals b (slot_gen b)"

definition kv_wf :: "nat \<Rightarrow> bytes \<Rightarrow> bool" where
  "kv_wf cap c \<longleftrightarrow> kv_layout cap c \<and>
     (case active_of cap c of
        Some (h, g) \<Rightarrow> 0 < g \<and> stale (slot_at cap (1 - h) c) g
      | None \<Rightarrow> virgin (slot_at cap 0 c) \<and> virgin (slot_at cap 1 c))"

definition kv_abs :: "nat \<Rightarrow> bytes \<Rightarrow> u16 \<Rightarrow> bytes option" where
  "kv_abs cap c =
     (case active_of cap c of None \<Rightarrow> Map.empty | Some (h, _) \<Rightarrow> log_map (log_of (half_at cap h c) 0))"

lemma active_ok: "kv_layout cap (ee_buf d) \<Longrightarrow> active cap d = (Inr (active_of cap (ee_buf d)), d)"
proof -
  assume L: "kv_layout cap (ee_buf d)"
  have "read_gen cap h d = (Inr (parse_super (slot_at cap h (ee_buf d))), d)" if "h \<le> 1" for h
    using layout_slot(2) [OF L that]
    by (simp add: read_gen_def kv_bind_def kv_read_ok slot_at_def SUPER_LEN_def)
  then show ?thesis by (simp add: active_def kv_bind_def active_of_def)
qed

lemma active_of_half: "active_of cap c = Some (h, g) \<Longrightarrow> h \<le> 1"
  by (auto simp: active_of_def pick_active_def split: option.splits if_splits)

lemma active_of_slot: "active_of cap c = Some (h, g) \<Longrightarrow> parse_super (slot_at cap h c) = Some g"
  by (auto simp: active_of_def pick_active_def split: option.splits if_splits)

text \<open>The active half by its slots.\<close>

lemma active_ofI:
  assumes "parse_super (slot_at cap h c) = Some g" and "h \<le> 1"
    and "\<And>g'. parse_super (slot_at cap (1 - h) c) = Some g' \<Longrightarrow> g' < g"
  shows "active_of cap c = Some (h, g)"
proof -
  from assms(2) have "h = 0 \<or> h = 1" by auto
  with assms(1,3) show ?thesis
    by (fastforce simp: active_of_def pick_active_def split: option.splits)
qed

lemma stale_parse: "stale b g \<Longrightarrow> length b = 12 \<Longrightarrow> parse_super b = Some g' \<Longrightarrow> g' < g"
  by (auto simp: stale_def parse_super_iff)

lemma virgin_parse: "virgin b \<Longrightarrow> length b = 12 \<Longrightarrow> parse_super b = None"
  by (cases "parse_super b") (auto simp: virgin_def parse_super_iff)

lemma parse_stale: "parse_super b = Some g \<Longrightarrow> length b = 12 \<Longrightarrow> g < g' \<Longrightarrow> stale b g'"
  by (auto simp: stale_def parse_super_iff)

lemma kv_wfD:
  assumes "kv_wf cap c"
  shows "kv_layout cap c" and "active_of cap c = Some (h, g) \<Longrightarrow> 0 < g \<and> stale (slot_at cap (1 - h) c) g"
    and "active_of cap c = None \<Longrightarrow> k \<le> 1 \<Longrightarrow> virgin (slot_at cap k c)"
proof -
  show "kv_layout cap c" and "active_of cap c = Some (h, g) \<Longrightarrow> 0 < g \<and> stale (slot_at cap (1 - h) c) g"
    using assms by (auto simp: kv_wf_def)
  show "active_of cap c = None \<Longrightarrow> k \<le> 1 \<Longrightarrow> virgin (slot_at cap k c)"
    using assms by (cases "k = 0") (auto simp: kv_wf_def le_Suc_eq)
qed

lemma kv_wf_activeI:
  assumes "kv_layout cap c" and "h \<le> 1" and "parse_super (slot_at cap h c) = Some g" and "0 < g"
    and "stale (slot_at cap (1 - h) c) g"
  shows "active_of cap c = Some (h, g)" and "kv_wf cap c"
proof -
  show a: "active_of cap c = Some (h, g)"
    using assms stale_parse layout_slot(4) [OF assms(1), of "1 - h"] by (intro active_ofI) auto
  show "kv_wf cap c" using a assms by (simp add: kv_wf_def)
qed

section \<open>The commit\<close>

lemma torn_bslice:
  assumes "torn off dat c c'" and "off + length dat \<le> length c"
  shows "torn 0 dat (bslice off (length dat) c) (bslice off (length dat) c')"
  using assms
proof (rule torn_cases)
  fix k x assume k: "4 * k + 4 \<le> length dat" and x: "length x = 4" "x = bslice (off + 4 * k) 4 c \<or> x = replicate 4 0"
    and c': "c' = bsplice off (take (4 * k) dat @ x) c"
  let ?y = "take (4 * k) dat @ x"
  have y: "length ?y = 4 * k + 4" using k x(1) by simp
  have "bslice off (length dat) c' = bsplice 0 ?y (bslice off (length dat) c)"
    unfolding c' using assms(2) k y
    by (intro nth_equalityI) (auto simp: nth_bslice nth_bsplice)
  moreover have "x = bslice (0 + 4 * k) 4 (bslice off (length dat) c) \<or> x = replicate 4 0"
    using x(2) k assms(2) by (auto simp: bslice_bslice)
  moreover have "k < length dat div 4" using k by presburger
  ultimately show ?thesis unfolding torn_def by blast
qed

lemma zero_not_sealed: "super_crc (SUPER_MAGIC @ u32_le 0) \<noteq> 0"
  by (simp add: super_crc_def SUPER_MAGIC_def u32_le_def crc_byte_unfold crc_bit_def)

text \<open>The commit of a flip: the slot of the dead half is rewritten with the next generation.\<close>

lemma commit_torn:
  assumes wf: "kv_wf cap c" and a: "active_of cap c = Some (h, g)"
    and t: "torn (super_off cap (1 - h)) (super_bytes (g + 1)) c c'"
  shows "kv_wf cap c' \<and> (active_of cap c' = Some (h, g) \<or> active_of cap c' = Some (1 - h, g + 1))"
proof -
  note L = kv_wfD(1) [OF wf] and h = active_of_half [OF a] and A = active_of_slot [OF a]
  have d: "1 - h \<le> 1" "1 - (1 - h) = h" using h by auto
  note S = layout_slot [OF L d(1)]
  have in1: "super_off cap (1 - h) + length (super_bytes (g + 1)) \<le> length c" using S(2) by simp
  have out: "same_outside (super_off cap (1 - h)) 12 c c'" using same_outside_torn [OF t in1] by simp
  note F = slot_frame [OF L d(1) out]
  have keep: "slot_at cap h c' = slot_at cap h c" using F(1) d(2) by simp
  let ?b = "slot_at cap (1 - h) c" and ?b' = "slot_at cap (1 - h) c'"
  have l': "length ?b' = 12" "length (slot_at cap h c') = 12" using layout_slot(4) [OF F(3)] d h by auto
  from torn_bslice [OF t in1] have "torn 0 (super_bytes (g + 1)) ?b ?b'"
    by (simp add: slot_at_def SUPER_LEN_def)
  note T = torn_super [OF this S(4)]
  have st: "stale ?b g" and g0: "0 < g" using kv_wfD(2) [OF wf a] by auto
  have old: "kv_wf cap c' \<and> active_of cap c' = Some (h, g)" if "stale ?b' g"
    using kv_wf_activeI [OF F(3) h] A keep g0 that by simp
  have sc: "seals ?b' x = seals ?b x" if "slot_crc ?b' = slot_crc ?b" for x using that by (simp add: seals_def)
  from T consider (same) "slot_gen ?b' = slot_gen ?b" "slot_crc ?b' = slot_crc ?b"
    | (erased) "slot_gen ?b' = 0" | (landed) "take 4 ?b' = SUPER_MAGIC" "slot_gen ?b' = g + 1" by blast
  then show ?thesis
  proof cases
    case same
    then have "stale ?b' g" using st sc by (simp add: stale_def)
    then show ?thesis using old by blast
  next
    case erased
    then have "stale ?b' g" using g0 by (simp add: stale_def)
    then show ?thesis using old by blast
  next
    case m: landed
    show ?thesis
    proof (cases "seals ?b' (g + 1) \<and> g < g + 1")
      case True
      then have p: "parse_super ?b' = Some (g + 1)" using m l' by (simp add: parse_super_iff)
      have "stale (slot_at cap h c') (g + 1)" using parse_stale [OF _ l'(2)] A keep True by simp
      then show ?thesis using kv_wf_activeI [OF F(3) d(1) p] True d(2) g0
        by (metis order_less_trans)
    next
      case False
      then have "stale ?b' g"
        using word_succ_cases [of g] m(2) g0 by (auto simp: stale_def)
      then show ?thesis using old by blast
    qed
  qed
qed

lemma commit_done:
  assumes wf: "kv_wf cap c" and a: "active_of cap c = Some (h, g)"
  defines "c' \<equiv> bsplice (super_off cap (1 - h)) (super_bytes (g + 1)) c"
  shows "kv_wf cap c' \<and> active_of cap c' = (if g = - 1 then Some (h, g) else Some (1 - h, g + 1))"
proof -
  note L = kv_wfD(1) [OF wf] and h = active_of_half [OF a] and A = active_of_slot [OF a]
  have d: "1 - h \<le> 1" "1 - (1 - h) = h" using h by auto
  note S = layout_slot [OF L d(1)]
  have in1: "super_off cap (1 - h) + length (super_bytes (g + 1)) \<le> length c" using S(2) by simp
  have out: "same_outside (super_off cap (1 - h)) 12 c c'"
    using same_outside_bsplice [OF in1] by (simp add: c'_def)
  note F = slot_frame [OF L d(1) out]
  have keep: "slot_at cap h c' = slot_at cap h c" using F(1) d(2) by simp
  have new: "slot_at cap (1 - h) c' = super_bytes (g + 1)"
    using bslice_bsplice_same [OF in1] by (simp add: slot_at_def SUPER_LEN_def c'_def)
  note P = slot_super_bytes [of "g + 1"]
  have g0: "0 < g" using kv_wfD(2) [OF wf a] by auto
  show ?thesis
  proof (cases "g = - 1")
    case True
    then have "stale (super_bytes (g + 1)) g" using P(1) g0 by (simp add: stale_def)
    then show ?thesis using kv_wf_activeI [OF F(3) h] A keep new g0 True by simp
  next
    case False
    then have lt: "g < g + 1" using word_succ_cases [of g] by blast
    have l: "length (slot_at cap h c') = 12" using layout_slot(4) [OF F(3) h] .
    have "stale (slot_at cap h c') (g + 1)" using parse_stale [OF _ l lt] A keep by simp
    moreover have "0 < g + 1" using g0 lt by (rule order_less_trans)
    ultimately show ?thesis using kv_wf_activeI [OF F(3) d(1)] P(3) new d(2) False by simp
  qed
qed

text \<open>A superblock write as a crash specification; the halves stay as they were.\<close>

definition same_halves :: "nat \<Rightarrow> bytes \<Rightarrow> bytes \<Rightarrow> bool" where
  "same_halves cap c0 c \<longleftrightarrow> (\<forall>k \<le> 1. half_at cap k c = half_at cap k c0)"

lemma crash_commit:
  assumes wf: "kv_wf cap c0" and a: "active_of cap c0 = Some (h, g)"
  shows "crash_cells (\<lambda>c. c = c0) (write_gen cap (1 - h) (g + 1))
     (\<lambda>_ c. kv_wf cap c \<and> active_of cap c = (if g = - 1 then Some (h, g) else Some (1 - h, g + 1)) \<and> same_halves cap c0 c)
     (\<lambda>e c. e = Backend \<and> kv_wf cap c \<and>
        (active_of cap c = Some (h, g) \<or> active_of cap c = Some (1 - h, g + 1)) \<and> same_halves cap c0 c)"
  unfolding write_gen_super
proof (rule crash_write)
  note L = kv_wfD(1) [OF wf]
  have d: "1 - h \<le> 1" by simp
  note S = layout_slot [OF L d]
  show "super_off cap (1 - h) mod 4 = 0" "length (super_bytes (g + 1)) mod 4 = 0" using S by simp_all
  fix c assume c: "c = c0"
  show in1: "super_off cap (1 - h) + length (super_bytes (g + 1)) \<le> length c" using S c by simp
  have halves: "same_outside (super_off cap (1 - h)) 12 c0 c' \<Longrightarrow> same_halves cap c0 c'" for c'
    using slot_frame(2) [OF L d] unfolding same_halves_def by blast
  let ?c' = "bsplice (super_off cap (1 - h)) (super_bytes (g + 1)) c"
  show "kv_wf cap ?c' \<and> active_of cap ?c' = (if g = - 1 then Some (h, g) else Some (1 - h, g + 1)) \<and> same_halves cap c0 ?c'"
    using commit_done [OF wf a] halves [OF same_outside_bsplice [OF in1, unfolded c length_super_bytes]]
    unfolding c by blast
  fix c' assume t: "torn (super_off cap (1 - h)) (super_bytes (g + 1)) c c'"
  show "Backend = Backend \<and> kv_wf cap c' \<and>
        (active_of cap c' = Some (h, g) \<or> active_of cap c' = Some (1 - h, g + 1)) \<and> same_halves cap c0 c'"
    using commit_torn [OF wf a t [unfolded c]] halves [OF same_outside_torn [OF t in1, unfolded c length_super_bytes]]
    by blast
qed

section \<open>The flip\<close>

text \<open>Cells that differ only in the dead half mean the same.\<close>

lemma dead_half_frame:
  assumes wf: "kv_wf cap c0" and a: "active_of cap c0 = Some (h, g)"
    and s: "same_outside (half_base cap (1 - h)) (half_len cap) c0 c"
  shows "kv_wf cap c" and "active_of cap c = Some (h, g)" and "half_at cap h c = half_at cap h c0"
    and "kv_abs cap c = kv_abs cap c0"
proof -
  note L = kv_wfD(1) [OF wf] and h = active_of_half [OF a]
  have d: "1 - h \<le> 1" "1 - (1 - h) = h" using h by auto
  have s0: "same_outside (half_base cap (1 - h) + 0) (half_len cap) c0 c" using s by simp
  note F = half_frame [OF L d(1) s0]
  have slots: "slot_at cap k c = slot_at cap k c0" if "k \<le> 1" for k using F(1) that by simp
  show h': "half_at cap h c = half_at cap h c0" using F(2) d(2) by simp
  show a': "active_of cap c = Some (h, g)" using a slots by (simp add: active_of_def)
  show "kv_wf cap c" using wf F(3) a a' slots d(1) by (simp add: kv_wf_def)
  show "kv_abs cap c = kv_abs cap c0" by (simp add: kv_abs_def a a' h')
qed

lemma packed_zeroed:
  assumes "base + half \<le> length c"
  shows "packed base half c 0 [] (zeroed base half c)"
proof -
  have z: "bslice base half (zeroed base half c) = replicate half 0" using assms by (rule bslice_zeroed)
  have "rec_at (replicate half 0) 0 = None" by (rule rec_at_blank_tail) simp
  then have l: "log_of (replicate half 0) 0 = []" "log_end (replicate half 0) 0 = 0" by (auto simp: log_stop)
  have "zeroed base half c ! (base + i) = 0" if "i < half" for i
    using that assms by (simp add: zeroed_def nth_bsplice)
  with assms show ?thesis by (simp add: packed_def z l same_outside_zeroed)
qed

definition flip_post :: "nat \<Rightarrow> bytes \<Rightarrow> nat \<Rightarrow> u32 \<Rightarrow> bytes \<Rightarrow> bool" where
  "flip_post cap c0 h g c \<longleftrightarrow> kv_wf cap c \<and> kv_abs cap c = kv_abs cap c0 \<and>
     (active_of cap c = Some (h, g) \<or> active_of cap c = Some (1 - h, g + 1))"

text \<open>Committing a packed half keeps the map.\<close>

lemma crash_flip_commit:
  assumes wf: "kv_wf cap c0" and a: "active_of cap c0 = Some (h, g)"
    and m: "\<And>log. map snd log = tvs \<Longrightarrow> log_map log = kv_abs cap c0"
  shows "crash_cells (\<lambda>c. \<exists>wr. packed (half_base cap (1 - h)) (half_len cap) c0 wr tvs c)
     (write_gen cap (1 - h) (g + 1))
     (\<lambda>_ c. flip_post cap c0 h g c \<and> (g \<noteq> - 1 \<longrightarrow> active_of cap c = Some (1 - h, g + 1)) \<and>
        map snd (log_of (half_at cap (1 - h) c) 0) = tvs)
     (\<lambda>e c. e = Backend \<and> flip_post cap c0 h g c)"
proof (rule crash_cells_fix)
  fix c1 assume "\<exists>wr. packed (half_base cap (1 - h)) (half_len cap) c0 wr tvs c1"
  then obtain wr where "packed (half_base cap (1 - h)) (half_len cap) c0 wr tvs c1" by blast
  then have s: "same_outside (half_base cap (1 - h)) (half_len cap) c0 c1"
    and l: "map snd (log_of (half_at cap (1 - h) c1) 0) = tvs" by (auto simp: packed_def half_at_def)
  note D = dead_half_frame [OF wf a s]
  have h: "h \<le> 1" using active_of_half [OF a] .
  have post: "kv_abs cap c = kv_abs cap c0 \<and> map snd (log_of (half_at cap (1 - h) c) 0) = tvs"
    if "same_halves cap c1 c" "active_of cap c = Some (h, g) \<or> active_of cap c = Some (1 - h, g + 1)" for c
    using that l m [OF l] D(2,3) h a by (auto simp: kv_abs_def same_halves_def)
  show "crash_cells (\<lambda>c. c = c1) (write_gen cap (1 - h) (g + 1))
     (\<lambda>_ c. flip_post cap c0 h g c \<and> (g \<noteq> - 1 \<longrightarrow> active_of cap c = Some (1 - h, g + 1)) \<and>
        map snd (log_of (half_at cap (1 - h) c) 0) = tvs)
     (\<lambda>e c. e = Backend \<and> flip_post cap c0 h g c)"
    by (rule crash_weaken [OF crash_commit [OF D(1,2)]]) (use post in \<open>auto simp: flip_post_def split: if_splits\<close>)
qed

lemma flip_live_map:
  assumes "kv_layout cap c" and "active_of cap c = Some (h, g)" and "walk_log (log_of (half_at cap h c) 0) [] = Some latest"
    and "map snd log = map snd (filter (live latest) (log_of (half_at cap h c) 0))"
  shows "log_map log = kv_abs cap c"
proof -
  have "log_map log = log_map (filter (live latest) (log_of (half_at cap h c) 0))"
    using assms(4) by (rule log_map_cong)
  also have "\<dots> = log_map (log_of (half_at cap h c) 0)"
    using log_of_distinct walk_log_live [OF assms(3)] by (rule log_map_live)
  finally show ?thesis by (simp add: kv_abs_def assms(2))
qed

text \<open>What a completed flip packed: the live set, in log order.\<close>

definition flip_packed :: "nat \<Rightarrow> bytes \<Rightarrow> nat \<Rightarrow> bytes \<Rightarrow> bool" where
  "flip_packed cap c0 h c \<longleftrightarrow> (\<exists>latest. walk_log (log_of (half_at cap h c0) 0) [] = Some latest \<and>
     map snd (log_of (half_at cap (1 - h) c) 0) = map snd (filter (live latest) (log_of (half_at cap h c0) 0)))"

lemma crash_flip:
  assumes wf: "kv_wf cap c0" and a: "active_of cap c0 = Some (h, g)"
  shows "crash_cells (\<lambda>c. c = c0) (flip cap h g)
     (\<lambda>_ c. flip_post cap c0 h g c \<and> (g \<noteq> - 1 \<longrightarrow> active_of cap c = Some (1 - h, g + 1)) \<and> flip_packed cap c0 h c)
     (\<lambda>e c. (e = Backend \<or> e = TooManyKeys \<and> walk_log (log_of (half_at cap h c0) 0) [] = None) \<and> flip_post cap c0 h g c)"
proof -
  note L = kv_wfD(1) [OF wf]
  have h: "h \<le> 1" using active_of_half [OF a] .
  have d: "1 - h \<le> 1" by simp
  let ?half = "half_len cap" and ?src = "half_base cap h" and ?dst = "half_base cap (1 - h)"
  let ?log = "log_of (half_at cap h c0) 0"
  note Hs = layout_half [OF L h] and Hd = layout_half [OF L d]
  let ?C = "\<lambda>e c. (e = Backend \<or> e = TooManyKeys \<and> walk_log ?log [] = None) \<and> flip_post cap c0 h g c"
  have dead: "same_outside ?dst ?half c0 c \<Longrightarrow> flip_post cap c0 h g c" for c
    unfolding flip_post_def using dead_half_frame [OF wf a] by blast
  have walk: "walk_latest ?src ?half d = (case walk_log ?log [] of None \<Rightarrow> (Inl TooManyKeys, d)
      | Some latest \<Rightarrow> (Inr (log_end (half_at cap h c0) 0, latest), d))" if "ee_buf d = c0" for d
    using walk_latest_log [of ?src ?half d] Hs(2) that unfolding half_at_def that [symmetric] by blast
  show ?thesis
  proof (cases "walk_log ?log []")
    case None
    with walk have "flip cap h g d = (Inl TooManyKeys, d)" if "ee_buf d = c0" for d
      using that by (simp add: flip_def Let_def kv_bind_def)
    with dead None show ?thesis by (auto simp: crash_spec_def crash_post_def the_dev_def)
  next
    case (Some latest)
    let ?tvs = "map snd (filter (live latest) ?log)"
    let ?packed = "\<lambda>c. \<exists>wr. packed ?dst ?half c0 wr ?tvs c"
    have blank: "crash_cells (\<lambda>c. c = c0) (blank ?dst ?half) (\<lambda>_. packed ?dst ?half c0 0 []) ?C"
      by (rule crash_weaken [OF crash_blank])
        (use layout_facts(6,8) [OF L] Hd dead [OF blanked_part_same] packed_zeroed [OF Hd(2)] in auto)
    have copy: "crash_cells (packed ?dst ?half c0 0 []) (copy_loop ?src ?dst ?half (log_end (half_at cap h c0) 0) latest 0 0)
        (\<lambda>_. ?packed) ?C"
      using crash_copy_loop [OF layout_disjoint(1) [OF L h] Hs(2) Hd(2,3), of 0 0 "[]" latest] dead
      by (intro crash_weaken [OF crash_copy_loop [OF layout_disjoint(1) [OF L h] Hs(2) Hd(2,3), of 0 0 "[]" latest, folded half_at_def]])
        auto
    have commit: "crash_cells ?packed (write_gen cap (1 - h) (g + 1))
        (\<lambda>_ c. flip_post cap c0 h g c \<and> (g \<noteq> - 1 \<longrightarrow> active_of cap c = Some (1 - h, g + 1)) \<and> flip_packed cap c0 h c) ?C"
      by (rule crash_weaken [OF crash_flip_commit [OF wf a flip_live_map [OF L a Some]]])
        (use Some in \<open>auto simp: flip_packed_def\<close>)
    show ?thesis
      unfolding flip_def Let_def
      by (rule crash_bind_const [where x = "(log_end (half_at cap h c0) 0, latest)"])
        (use walk Some crash_then [OF blank crash_then [OF copy commit]] in \<open>auto\<close>)
  qed
qed

section \<open>Appending to the active half\<close>

definition put_post :: "nat \<Rightarrow> u16 \<Rightarrow> bytes \<Rightarrow> bytes \<Rightarrow> bytes \<Rightarrow> bool" where
  "put_post cap key v c0 c \<longleftrightarrow> kv_wf cap c \<and> kv_abs cap c = kv_put key v (kv_abs cap c0)"

definition kept_post :: "nat \<Rightarrow> bytes \<Rightarrow> bytes \<Rightarrow> bool" where
  "kept_post cap c0 c \<longleftrightarrow> kv_wf cap c \<and> kv_abs cap c = kv_abs cap c0"

lemma active_half_frame:
  assumes wf: "kv_wf cap c0" and a: "active_of cap c0 = Some (h, g)"
    and s: "same_outside (half_base cap h + f) (half_len cap - f) c0 c" and f: "f \<le> half_len cap"
  shows "kv_wf cap c" and "active_of cap c = Some (h, g)"
proof -
  note L = kv_wfD(1) [OF wf] and h = active_of_half [OF a]
  note F = half_frame [OF L h s]
  have slots: "slot_at cap k c = slot_at cap k c0" if "k \<le> 1" for k using F(1) that f by simp
  show a': "active_of cap c = Some (h, g)" using a slots by (simp add: active_of_def)
  show "kv_wf cap c" using wf F(3) a a' slots f by (simp add: kv_wf_def)
qed

lemma crash_append_active:
  assumes wf: "kv_wf cap c0" and a: "active_of cap c0 = Some (h, g)"
    and f: "f = log_end (half_at cap h c0) 0" "f + record_size (length v) \<le> half_len cap"
    and k: "key \<noteq> 0" "length v \<le> MAX_VALUE"
  shows "crash_cells (\<lambda>c. c = c0) (append_end (half_base cap h) (half_len cap) f key v)
     (\<lambda>_. put_post cap key v c0) (\<lambda>e c. e = Backend \<and> kept_post cap c0 c)"
proof -
  note L = kv_wfD(1) [OF wf] and h = active_of_half [OF a]
  note H = layout_half [OF L h]
  have fl: "f \<le> half_len cap" using f(2) by simp
  note A = active_half_frame [OF wf a _ fl]
  have "put_post cap key v c0 c"
    if "same_outside (half_base cap h + f) (half_len cap - f) c0 c"
      "log_of (half_at cap h c) 0 = log_of (half_at cap h c0) 0 @ [(f, key, v)]" for c
    using A [OF that(1)] that(2) a by (simp add: put_post_def kv_abs_def log_map_snoc)
  moreover have "kept_post cap c0 c" if "log_kept (half_base cap h) (half_len cap) c0 c" for c
    using A [of c] that a f(1) by (auto simp: kept_post_def kv_abs_def log_kept_def Let_def half_at_def)
  ultimately show ?thesis
    using crash_append_end [OF H(3,2) f(1) [unfolded half_at_def] f(2) k]
    by (auto simp: half_at_def intro: crash_weaken)
qed

section \<open>Formatting\<close>

lemma kv_wf_noneI:
  assumes "kv_layout cap c" and "\<And>k. k \<le> 1 \<Longrightarrow> virgin (slot_at cap k c)"
  shows "active_of cap c = None" and "kv_wf cap c"
proof -
  have "parse_super (slot_at cap k c) = None" if "k \<le> 1" for k
    using virgin_parse assms(2) layout_slot(4) [OF assms(1)] that by blast
  then show a: "active_of cap c = None" by (simp add: active_of_def pick_active_def)
  show "kv_wf cap c" using assms a by (simp add: kv_wf_def)
qed

definition format_post :: "nat \<Rightarrow> nat \<Rightarrow> bytes \<Rightarrow> bytes \<Rightarrow> bool" where
  "format_post cap k c0 c \<longleftrightarrow> kv_wf cap c \<and> same_halves cap c0 c \<and>
     (active_of cap c = None \<or> active_of cap c = Some (k, 1)) \<and> slot_at cap (1 - k) c = slot_at cap (1 - k) c0"

lemma crash_format:
  assumes L: "kv_layout cap c0" and v: "\<And>j. j \<le> 1 \<Longrightarrow> virgin (slot_at cap j c0)" and k: "k \<le> 1"
  shows "crash_cells (\<lambda>c. c = c0) (write_gen cap k 1)
     (\<lambda>_ c. format_post cap k c0 c \<and> active_of cap c = Some (k, 1))
     (\<lambda>e c. e = Backend \<and> format_post cap k c0 c)"
  unfolding write_gen_super
proof (rule crash_write)
  note S = layout_slot [OF L k]
  show "super_off cap k mod 4 = 0" "length (super_bytes 1) mod 4 = 0" using S by simp_all
  fix c assume c: "c = c0"
  show in1: "super_off cap k + length (super_bytes 1) \<le> length c" using S c by simp
  have new: "kv_wf cap c' \<and> active_of cap c' = Some (k, 1)"
    if "same_outside (super_off cap k) 12 c0 c'" "parse_super (slot_at cap k c') = Some 1" for c'
  proof -
    note F = slot_frame [OF L k that(1)]
    have "stale (slot_at cap (1 - k) c') 1" using v [of "1 - k"] F(1) by (simp add: stale_def virgin_def)
    then show ?thesis using kv_wf_activeI [OF F(3) k that(2)] by simp
  qed
  have halves: "same_outside (super_off cap k) 12 c0 c' \<Longrightarrow>
      same_halves cap c0 c' \<and> slot_at cap (1 - k) c' = slot_at cap (1 - k) c0" for c'
    using slot_frame(1,2) [OF L k] unfolding same_halves_def by blast
  let ?c' = "bsplice (super_off cap k) (super_bytes 1) c"
  have out: "same_outside (super_off cap k) 12 c0 ?c'" using same_outside_bsplice [OF in1] c by simp
  have "slot_at cap k ?c' = super_bytes 1"
    using bslice_bsplice_same [OF in1] by (simp add: slot_at_def SUPER_LEN_def)
  then show "format_post cap k c0 ?c' \<and> active_of cap ?c' = Some (k, 1)"
    using new [OF out] halves [OF out] slot_super_bytes(3) [of 1] by (auto simp: format_post_def)
  fix c' assume t: "torn (super_off cap k) (super_bytes 1) c c'"
  have out': "same_outside (super_off cap k) 12 c0 c'" using same_outside_torn [OF t in1] c by simp
  note F = slot_frame [OF L k out']
  let ?b = "slot_at cap k c0" and ?b' = "slot_at cap k c'"
  have l': "length ?b' = 12" using layout_slot(4) [OF F(3) k] .
  from torn_bslice [OF t in1] c have "torn 0 (super_bytes 1) ?b ?b'" by (simp add: slot_at_def SUPER_LEN_def)
  note T = torn_super [OF this S(4)]
  have vb: "\<not> seals ?b 0" "\<not> seals ?b (slot_gen ?b)" using v [OF k] by (auto simp: virgin_def)
  have none: "kv_wf cap c' \<and> active_of cap c' = None" if "virgin ?b'"
  proof -
    have "virgin (slot_at cap j c')" if "j \<le> 1" for j
      using that \<open>virgin ?b'\<close> v [of "1 - k"] F(1) k by (cases "j = k") (auto simp: le_Suc_eq)
    then show ?thesis using kv_wf_noneI [OF F(3)] by blast
  qed
  have "kv_wf cap c' \<and> (active_of cap c' = None \<or> active_of cap c' = Some (k, 1))"
  proof (cases "parse_super ?b' = Some 1")
    case True
    then show ?thesis using new [OF out'] by blast
  next
    case False
    have "virgin ?b'"
      using T vb False zero_not_sealed l' by (auto simp: virgin_def seals_def parse_super_iff)
    then show ?thesis using none by blast
  qed
  then show "Backend = Backend \<and> format_post cap k c0 c'" using halves [OF out'] by (auto simp: format_post_def)
qed

text \<open>\<open>init\<close>: an initialised region is left alone, any other becomes an empty store.\<close>

lemma half0_frame:
  assumes "kv_wf cap c0" and "active_of cap c0 = None" and "same_outside (half_base cap k) (half_len cap) c0 c" and "k \<le> 1"
  shows "kv_layout cap c" and "j \<le> 1 \<Longrightarrow> virgin (slot_at cap j c)" and "kv_wf cap c" and "kv_abs cap c = kv_abs cap c0"
    and "active_of cap c = None"
proof -
  note L = kv_wfD(1) [OF assms(1)]
  have s0: "same_outside (half_base cap k + 0) (half_len cap) c0 c" using assms(3) by simp
  note F = half_frame [OF L assms(4) s0]
  show L': "kv_layout cap c" using F(3) by simp
  show v: "virgin (slot_at cap j c)" if "j \<le> 1" for j using kv_wfD(3) [OF assms(1,2) that] F(1) [OF _ that] by simp
  show "kv_wf cap c" "active_of cap c = None" using kv_wf_noneI [OF L' v] by auto
  then show "kv_abs cap c = kv_abs cap c0" using assms(2) by (simp add: kv_abs_def)
qed

lemma crash_init:
  assumes wf: "kv_wf cap c0"
  shows "crash_cells (\<lambda>c. c = c0) (kv_init cap)
     (\<lambda>_ c. kept_post cap c0 c \<and> active_of cap c = (if active_of cap c0 = None then Some (0, 1) else active_of cap c0))
     (\<lambda>e c. e = Backend \<and> kept_post cap c0 c)"
  unfolding kv_init_def
proof (rule crash_bind_const [where x = "active_of cap c0"])
  note L = kv_wfD(1) [OF wf]
  show "active cap d = (Inr (active_of cap c0), d)" if "ee_buf d = c0" for d using active_ok [of cap d] L that by simp
  let ?C = "\<lambda>e c. e = Backend \<and> kept_post cap c0 c"
  let ?clear = "if KV_HEADER \<le> half_len cap then clear_word (half_base cap 0) else kv_return ()"
  show "crash_cells (\<lambda>c. c = c0) (if active_of cap c0 \<noteq> None then kv_return () else kv_then ?clear (write_gen cap 0 1))
     (\<lambda>_ c. kept_post cap c0 c \<and> active_of cap c = (if active_of cap c0 = None then Some (0, 1) else active_of cap c0)) ?C"
  proof (rule crash_if)
    show "crash_cells (\<lambda>c. c = c0) (kv_return ())
       (\<lambda>_ c. kept_post cap c0 c \<and> active_of cap c = (if active_of cap c0 = None then Some (0, 1) else active_of cap c0)) ?C"
      if "active_of cap c0 \<noteq> None"
      by (rule crash_return) (use wf that in \<open>auto simp: kept_post_def\<close>)
    assume "\<not> active_of cap c0 \<noteq> None"
    then have n: "active_of cap c0 = None" by blast
    note B = layout_facts(1) [OF L] and H = layout_half [OF L, of 0, simplified]
    let ?P = "\<lambda>c. same_outside (half_base cap 0) (half_len cap) c0 c \<and> log_of (half_at cap 0 c) 0 = []"
    have kept: "same_outside (half_base cap 0) (half_len cap) c0 c \<Longrightarrow> kept_post cap c0 c" for c
      using half0_frame [OF wf n, of 0 c] unfolding kept_post_def by blast
    have clear: "crash_cells (\<lambda>c. c = c0) ?clear (\<lambda>_. ?P) ?C"
    proof (rule crash_if)
      assume fits: "KV_HEADER \<le> half_len cap"
      have in1: "half_base cap 0 + 4 \<le> length c0" using fits H(2) by (simp add: KV_HEADER_def)
      let ?z = "zeroed (half_base cap 0) 4 c0"
      have out: "same_outside (half_base cap 0) (half_len cap) c0 ?z"
        using same_outside_mono [OF same_outside_zeroed [OF in1]] fits by (simp add: KV_HEADER_def)
      have "bslice 0 4 (half_at cap 0 ?z) = replicate 4 0"
        using in1 fits H(2) bslice_zeroed [OF in1] by (simp add: half_at_def bslice_bslice KV_HEADER_def)
      then have "log_of (half_at cap 0 ?z) 0 = []" using rec_at_zero log_stop by blast
      with out have "?P ?z" by blast
      then show "crash_cells (\<lambda>c. c = c0) (clear_word (half_base cap 0)) (\<lambda>_. ?P) ?C"
        using crash_clear_word [OF H(3) in1] kept by (auto intro!: crash_weaken [OF crash_clear_word [OF H(3) in1]])
    next
      assume "\<not> KV_HEADER \<le> half_len cap"
      then have "log_of (half_at cap 0 c0) 0 = []" using H(4) by (simp add: log_stop rec_at_def)
      then show "crash_cells (\<lambda>c. c = c0) (kv_return ()) (\<lambda>_. ?P) ?C" by (intro crash_return) auto
    qed
    show "crash_cells (\<lambda>c. c = c0) (kv_then ?clear (write_gen cap 0 1))
       (\<lambda>_ c. kept_post cap c0 c \<and> active_of cap c = (if active_of cap c0 = None then Some (0, 1) else active_of cap c0)) ?C"
    proof (rule crash_then [OF clear], rule crash_cells_fix)
      fix c1 assume c1: "?P c1"
      note F = half0_frame [OF wf n conjunct1 [OF c1]]
      have post: "format_post cap 0 c1 c \<Longrightarrow> kept_post cap c0 c" for c
        using c1 n by (auto simp: format_post_def kept_post_def kv_abs_def same_halves_def log_map_def)
      show "crash_cells (\<lambda>c. c = c1) (write_gen cap 0 1)
       (\<lambda>_ c. kept_post cap c0 c \<and> active_of cap c = (if active_of cap c0 = None then Some (0, 1) else active_of cap c0)) ?C"
        by (rule crash_weaken [OF crash_format [of cap c1 0]]) (use F(1,2) post n in auto)
    qed
  qed
qed

section \<open>The public writes\<close>

lemma kept_trans: "kept_post cap c0 c1 \<Longrightarrow> kept_post cap c1 c2 \<Longrightarrow> kept_post cap c0 c2"
  by (simp add: kept_post_def)

lemma put_kept: "kept_post cap c0 c1 \<Longrightarrow> put_post cap key v c1 c2 \<Longrightarrow> put_post cap key v c0 c2"
  by (simp add: kept_post_def put_post_def)

lemma flip_kept: "flip_post cap c0 h g c \<Longrightarrow> kept_post cap c0 c"
  by (simp add: kept_post_def flip_post_def)

lemma scan_ok:
  "kv_layout cap (ee_buf d) \<Longrightarrow> h \<le> 1 \<Longrightarrow> scan_half (half_base cap h) (half_len cap) key d =
     (Inr (log_end (half_at cap h (ee_buf d)) 0, scan_found key None (log_of (half_at cap h (ee_buf d)) 0)), d)"
  using layout_half(2) [of cap "ee_buf d" h] by (simp add: scan_half_log half_at_def)

text \<open>Append into the active half, or report \<open>Full\<close>.\<close>

lemma crash_append_or_full:
  assumes wf: "kv_wf cap c0" and a: "active_of cap c0 = Some (h, g)" and f: "f = log_end (half_at cap h c0) 0"
    and k: "key \<noteq> 0" "length v \<le> MAX_VALUE"
  shows "crash_cells (\<lambda>c. c = c0)
     (if f + record_size (length v) > half_len cap then kv_raise Full
      else append_end (half_base cap h) (half_len cap) f key v)
     (\<lambda>_. put_post cap key v c0) (\<lambda>e c. e \<noteq> Stale \<and> kept_post cap c0 c)"
proof (rule crash_if)
  show "crash_cells (\<lambda>c. c = c0) (kv_raise Full) (\<lambda>_. put_post cap key v c0) (\<lambda>e c. e \<noteq> Stale \<and> kept_post cap c0 c)"
    by (rule crash_raise) (use wf in \<open>auto simp: kept_post_def\<close>)
  show "crash_cells (\<lambda>c. c = c0) (append_end (half_base cap h) (half_len cap) f key v)
      (\<lambda>_. put_post cap key v c0) (\<lambda>e c. e \<noteq> Stale \<and> kept_post cap c0 c)"
    if "\<not> half_len cap < f + record_size (length v)"
    by (rule crash_weaken [OF crash_append_active [OF wf a f _ k]]) (use that in auto)
qed

lemma crash_append_after_flip:
  assumes wf: "kv_wf cap c0" and a: "active_of cap c0 \<noteq> None" and k: "key \<noteq> 0" "length v \<le> MAX_VALUE"
  shows "crash_cells (\<lambda>c. c = c0) (append_after_flip cap key v fin)
     (\<lambda>_. put_post cap key v c0) (\<lambda>e c. e \<noteq> Stale \<and> kept_post cap c0 c)"
proof -
  let ?C = "\<lambda>e c. e \<noteq> Stale \<and> kept_post cap c0 c" and ?Q = "\<lambda>_. put_post cap key v c0"
  obtain h g where a': "active_of cap c0 = Some (h, g)" using a by auto
  note L = kv_wfD(1) [OF wf] and h = active_of_half [OF a']
  let ?f = "\<lambda>h c. log_end (half_at cap h c) 0"
  let ?fin = "\<lambda>x. case x of (h4, free4) \<Rightarrow> if free4 + record_size (length v) > half_len cap then kv_raise Full
      else append_end (half_base cap h4) (half_len cap) free4 key v"
  define P where "P = (\<lambda>x c. kept_post cap c0 c \<and> (\<exists>g. active_of cap c = Some (fst x, g)) \<and> snd x = ?f (fst x) c)"
  have last: "crash_cells (P x) (?fin x) ?Q ?C" for x
  proof (rule crash_cells_fix)
    fix c1 assume c1: "P x c1"
    then obtain g1 where g1: "active_of cap c1 = Some (fst x, g1)" "kv_wf cap c1" "snd x = ?f (fst x) c1"
      by (auto simp: P_def kept_post_def)
    have kp: "kept_post cap c0 c1" using c1 by (simp add: P_def)
    show "crash_cells (\<lambda>c. c = c1) (?fin x) ?Q ?C"
      using crash_weaken [OF crash_append_or_full [OF g1(2,1,3) k]] kept_trans [OF kp] put_kept [OF kp]
      by (cases x) auto
  qed
  let ?re = "kv_then (flip cap h g)
      (kv_bind (active cap) (\<lambda>a3. case a3 of None \<Rightarrow> kv_raise Full
        | Some (h3, _) \<Rightarrow> kv_bind (scan_half (half_base cap h3) (half_len cap) key) (\<lambda>(free3, _). kv_return (h3, free3))))"
  have re: "crash_cells (\<lambda>c. c = c0) ?re P ?C"
  proof (rule crash_then)
    show "crash_cells (\<lambda>c. c = c0) (flip cap h g) (\<lambda>_ c. flip_post cap c0 h g c) ?C"
      by (rule crash_weaken [OF crash_flip [OF wf a']]) (auto dest: flip_kept)
    show "crash_cells (flip_post cap c0 h g) (kv_bind (active cap) (\<lambda>a3. case a3 of None \<Rightarrow> kv_raise Full
        | Some (h3, _) \<Rightarrow> kv_bind (scan_half (half_base cap h3) (half_len cap) key) (\<lambda>(free3, _). kv_return (h3, free3)))) P ?C"
    proof (rule crash_cells_fix)
      fix c1 assume c1: "flip_post cap c0 h g c1"
      then obtain h3 g3 where a3: "active_of cap c1 = Some (h3, g3)" and wf1: "kv_wf cap c1" by (auto simp: flip_post_def)
      note L1 = kv_wfD(1) [OF wf1]
      have run: "kv_bind (active cap) (\<lambda>a3. case a3 of None \<Rightarrow> kv_raise Full
        | Some (h3, _) \<Rightarrow> kv_bind (scan_half (half_base cap h3) (half_len cap) key) (\<lambda>(free3, _). kv_return (h3, free3))) d
        = (Inr (h3, ?f h3 c1), d)" if "ee_buf d = c1" for d
        using active_ok [of cap d] scan_ok [of cap d h3] L1 that a3 active_of_half [OF a3] by (simp add: kv_bind_def)
      show "crash_cells (\<lambda>c. c = c1) (kv_bind (active cap) (\<lambda>a3. case a3 of None \<Rightarrow> kv_raise Full
        | Some (h3, _) \<Rightarrow> kv_bind (scan_half (half_base cap h3) (half_len cap) key) (\<lambda>(free3, _). kv_return (h3, free3)))) P ?C"
        using run a3 flip_kept [OF c1] by (auto simp: crash_spec_def crash_post_def the_dev_def P_def)
    qed
  qed
  have mid: "crash_cells (\<lambda>c. c = c0)
      (if ?f h c0 + record_size (length v) > half_len cap \<and> fin then ?re else kv_return (h, ?f h c0)) P ?C"
    by (rule crash_if [OF re]) (rule crash_return, use wf a' in \<open>auto simp: P_def kept_post_def\<close>)
  show ?thesis
    unfolding append_after_flip_def Let_def
  proof (rule crash_bind_const [where x = "active_of cap c0"])
    show "active cap d = (Inr (active_of cap c0), d)" if "ee_buf d = c0" for d using active_ok [of cap d] L that by simp
    show "crash_cells (\<lambda>c. c = c0) (case active_of cap c0 of None \<Rightarrow> kv_raise Full
      | Some (h2, g2) \<Rightarrow>
          kv_bind (scan_half (half_base cap h2) (half_len cap) key) (\<lambda>(free2, _).
          kv_bind (if half_len cap < free2 + record_size (length v) \<and> fin then kv_then (flip cap h2 g2)
               (kv_bind (active cap) (\<lambda>a3. case a3 of None \<Rightarrow> kv_raise Full
                | Some (h3, _) \<Rightarrow> kv_bind (scan_half (half_base cap h3) (half_len cap) key) (\<lambda>(free3, _). kv_return (h3, free3))))
             else kv_return (h2, free2)) ?fin)) ?Q ?C"
      unfolding a' option.case prod.case
      by (rule crash_bind_const [where x = "(?f h c0, scan_found key None (log_of (half_at cap h c0) 0))"])
        (use scan_ok L h crash_bind [OF mid last] in auto)
  qed
qed

text \<open>Running an operation without a pending flip, operation by operation.\<close>

lemma no_pending_simps:
  "no_pending (kv_raise e) = kv_raise e" "no_pending (kv_return x) = kv_return x" "no_pending (on_dev n) = n"
  "no_pending (kv_bind (on_dev m) f) = kv_bind m (\<lambda>x. no_pending (f x))"
  "no_pending (kv_then (on_dev n') m') = kv_then n' (no_pending m')"
  "no_pending (kv_bind kv_ram q) = no_pending (q None)"
  "no_pending (kv_then (kv_modify_ram (\<lambda>_. None)) m'') = no_pending m''"
  "no_pending (if b then m1 else m2) = (if b then no_pending m1 else no_pending m2)"
  by (rule ext; auto simp: no_pending_def on_dev_def kv_bind_def kv_then_def kv_ram_def kv_modify_ram_def
      split: prod.splits sum.splits)+

lemma kv_bind_assoc_return:
  "kv_bind (kv_then m (kv_return x)) f = kv_then m (f x)" "kv_bind (kv_return y) q = q y"
  by (rule ext; simp add: kv_bind_def kv_then_def split: prod.splits sum.splits)+

text \<open>\<open>set_bytes\<close> with the pending flip computed away: without one, a full half is flipped in line.\<close>

lemma set_bytes_alt:
  "set_bytes cap key v =
     (if key = 0 then kv_raise InvalidKey
      else if length v > MAX_VALUE then kv_raise ValueTooLarge
      else kv_bind (active cap) (\<lambda>a.
        kv_bind (case a of Some x \<Rightarrow> kv_return x | None \<Rightarrow> kv_then (kv_init cap) (kv_return (0, 1))) (\<lambda>(h, g).
        kv_bind (scan_half (half_base cap h) (half_len cap) key) (\<lambda>(free, _).
        if free + record_size (length v) \<le> half_len cap
        then append_end (half_base cap h) (half_len cap) free key v
        else kv_then (flip cap h g) (append_after_flip cap key v False)))))"
proof -
  have rest: "no_pending (case x of (h, g) \<Rightarrow>
        let half = half_len cap; needed = record_size (length v); base = half_base cap h in
        kv_bind (on_dev (scan_half base half key)) (\<lambda>(free, _).
        if free + needed \<le> half then on_dev (append_end base half free key v)
        else kv_bind kv_ram (\<lambda>pending. kv_then (kv_modify_ram (\<lambda>_. None))
          (kv_bind (case pending of
              Some st \<Rightarrow> if (fs_src_h st, fs_src_gen st) = (h, g)
                then kv_then (on_dev (flip_commit cap st)) (kv_return True)
                else kv_then (on_dev (flip cap h g)) (kv_return False)
            | None \<Rightarrow> kv_then (on_dev (flip cap h g)) (kv_return False)) (\<lambda>finished_pending.
          on_dev (append_after_flip cap key v finished_pending)))))) =
      (case x of (h, g) \<Rightarrow> kv_bind (scan_half (half_base cap h) (half_len cap) key) (\<lambda>(free, _).
        if free + record_size (length v) \<le> half_len cap
        then append_end (half_base cap h) (half_len cap) free key v
        else kv_then (flip cap h g) (append_after_flip cap key v False)))" for x
    by (cases x) (simp add: no_pending_simps kv_bind_assoc_return Let_def case_prod_unfold cong: if_cong)
  have opt: "no_pending (kv_bind (case a of Some x \<Rightarrow> kv_return x | None \<Rightarrow> kv_then (on_dev (kv_init cap)) (kv_return (0, 1))) f) =
      kv_bind (case a of Some x \<Rightarrow> kv_return x | None \<Rightarrow> kv_then (kv_init cap) (kv_return (0, 1))) (\<lambda>x. no_pending (f x))"
    for a :: "(nat \<times> u32) option" and f :: "nat \<times> u32 \<Rightarrow> (eeprom \<times> flip_state option, unit) kvm"
    by (cases a) (simp_all add: kv_bind_assoc_return no_pending_simps)
  show ?thesis
    unfolding set_bytes_def set_bytes_with_def by (simp only: no_pending_simps opt rest cong: if_cong)
qed

lemma crash_set_active:
  assumes wf: "kv_wf cap c0" and a: "active_of cap c0 = Some (h, g)" and k: "key \<noteq> 0" "length v \<le> MAX_VALUE"
  shows "crash_cells (\<lambda>c. c = c0) (kv_bind (scan_half (half_base cap h) (half_len cap) key) (\<lambda>(free, _).
        if free + record_size (length v) \<le> half_len cap
        then append_end (half_base cap h) (half_len cap) free key v
        else kv_then (flip cap h g) (append_after_flip cap key v False)))
     (\<lambda>_. put_post cap key v c0) (\<lambda>e c. e \<noteq> Stale \<and> kept_post cap c0 c)"
proof (rule crash_bind_const [where x = "(log_end (half_at cap h c0) 0, scan_found key None (log_of (half_at cap h c0) 0))"])
  note L = kv_wfD(1) [OF wf] and h = active_of_half [OF a]
  show "scan_half (half_base cap h) (half_len cap) key d =
      (Inr (log_end (half_at cap h c0) 0, scan_found key None (log_of (half_at cap h c0) 0)), d)" if "ee_buf d = c0" for d
    using scan_ok [of cap d h key] L h that by simp
  let ?f = "log_end (half_at cap h c0) 0"
  let ?C = "\<lambda>e c. e \<noteq> Stale \<and> kept_post cap c0 c" and ?Q = "\<lambda>_. put_post cap key v c0"
  have "crash_cells (\<lambda>c. c = c0) (kv_then (flip cap h g) (append_after_flip cap key v False)) ?Q ?C"
  proof (rule crash_then)
    show "crash_cells (\<lambda>c. c = c0) (flip cap h g) (\<lambda>_. flip_post cap c0 h g) ?C"
      by (rule crash_weaken [OF crash_flip [OF wf a]]) (auto dest: flip_kept)
    show "crash_cells (flip_post cap c0 h g) (append_after_flip cap key v False) ?Q ?C"
    proof (rule crash_cells_fix)
      fix c1 assume c1: "flip_post cap c0 h g c1"
      then have "kv_wf cap c1" "active_of cap c1 \<noteq> None" by (auto simp: flip_post_def)
      from crash_append_after_flip [OF this k] show "crash_cells (\<lambda>c. c = c1) (append_after_flip cap key v False) ?Q ?C"
        by (rule crash_weaken) (use flip_kept [OF c1] kept_trans put_kept in blast)+
    qed
  qed
  moreover have "crash_cells (\<lambda>c. c = c0) (append_end (half_base cap h) (half_len cap) ?f key v) ?Q ?C"
    if "?f + record_size (length v) \<le> half_len cap"
    by (rule crash_weaken [OF crash_append_active [OF wf a refl that k]]) auto
  ultimately show "crash_cells (\<lambda>c. c = c0)
     (case (?f, scan_found key None (log_of (half_at cap h c0) 0)) of (free, _) \<Rightarrow>
        if free + record_size (length v) \<le> half_len cap
        then append_end (half_base cap h) (half_len cap) free key v
        else kv_then (flip cap h g) (append_after_flip cap key v False)) ?Q ?C"
    by simp
qed

lemma crash_set_bytes:
  assumes wf: "kv_wf cap c0"
  shows "crash_cells (\<lambda>c. c = c0) (set_bytes cap key v)
     (\<lambda>_ c. key \<noteq> 0 \<and> length v \<le> MAX_VALUE \<and> put_post cap key v c0 c)
     (\<lambda>e c. e \<noteq> Stale \<and> kept_post cap c0 c)"
  unfolding set_bytes_alt
proof (rule crash_if)
  let ?C = "\<lambda>e c. e \<noteq> Stale \<and> kept_post cap c0 c" and ?Q = "\<lambda>_ c. key \<noteq> 0 \<and> length v \<le> MAX_VALUE \<and> put_post cap key v c0 c"
  have refl: "kept_post cap c0 c0" using wf by (simp add: kept_post_def)
  show "crash_cells (\<lambda>c. c = c0) (kv_raise InvalidKey) ?Q ?C" by (rule crash_raise) (use refl in auto)
  note L = kv_wfD(1) [OF wf]
  let ?rest = "\<lambda>(h, g). kv_bind (scan_half (half_base cap h) (half_len cap) key) (\<lambda>(free, _).
        if free + record_size (length v) \<le> half_len cap
        then append_end (half_base cap h) (half_len cap) free key v
        else kv_then (flip cap h g) (append_after_flip cap key v False))"
  assume k: "key \<noteq> 0"
  show "crash_cells (\<lambda>c. c = c0) (if MAX_VALUE < length v then kv_raise ValueTooLarge
      else kv_bind (active cap) (\<lambda>a. kv_bind (case a of Some x \<Rightarrow> kv_return x
        | None \<Rightarrow> kv_then (kv_init cap) (kv_return (0, 1))) ?rest)) ?Q ?C"
  proof (rule crash_if)
    show "crash_cells (\<lambda>c. c = c0) (kv_raise ValueTooLarge) ?Q ?C" by (rule crash_raise) (use refl in auto)
    assume "\<not> MAX_VALUE < length v"
    then have v: "length v \<le> MAX_VALUE" by simp
    define P where "P = (\<lambda>x c. kept_post cap c0 c \<and> active_of cap c = Some x)"
    have rest: "crash_cells (P x) (?rest x) ?Q ?C" for x
    proof (rule crash_cells_fix)
      fix c1 assume c1: "P x c1"
      obtain h g where x: "x = (h, g)" by fastforce
      have kp: "kept_post cap c0 c1" and wf1: "kv_wf cap c1" and a1: "active_of cap c1 = Some (h, g)"
        using c1 x by (auto simp: P_def kept_post_def)
      show "crash_cells (\<lambda>c. c = c1) (?rest x) ?Q ?C"
        unfolding x prod.case
        by (rule crash_weaken [OF crash_set_active [OF wf1 a1 k v]]) (use kept_trans [OF kp] put_kept [OF kp] k v in auto)
    qed
    have pre: "crash_cells (\<lambda>c. c = c0) (case active_of cap c0 of Some x \<Rightarrow> kv_return x
        | None \<Rightarrow> kv_then (kv_init cap) (kv_return (0, 1))) P ?C"
    proof (cases "active_of cap c0")
      case None
      have "crash_cells (\<lambda>c. c = c0) (kv_then (kv_init cap) (kv_return (0, 1))) P ?C"
        by (rule crash_then [OF crash_weaken [OF crash_init [OF wf]]
            crash_return [of "cells (\<lambda>c. kept_post cap c0 c \<and> active_of cap c = Some (0, 1))"]])
          (use None in \<open>auto simp: P_def\<close>)
      then show ?thesis using None by simp
    next
      case (Some x)
      then show ?thesis using refl by (auto simp: P_def intro!: crash_return)
    qed
    show "crash_cells (\<lambda>c. c = c0) (kv_bind (active cap) (\<lambda>a. kv_bind (case a of Some x \<Rightarrow> kv_return x
        | None \<Rightarrow> kv_then (kv_init cap) (kv_return (0, 1))) ?rest)) ?Q ?C"
      by (rule crash_bind_const [where x = "active_of cap c0"])
        (use active_ok L crash_bind [OF pre rest] in auto)
  qed
qed

section \<open>Reads\<close>

lemma latest_of_mem: "latest_of k log = Some (p, v) \<Longrightarrow> (p, k, v) \<in> set log"
  using latest_of_split by fastforce

lemma log_no_zero_tag: "latest_of 0 (log_of hb p) = None"
  using log_of_mem rec_at_SomeD(1) by (fastforce simp: latest_of_none)

lemma get_bytes_abs:
  assumes "kv_layout cap (ee_buf d)"
  shows "get_bytes cap key n d = (Inr (map_option (\<lambda>v. (length v, take n v)) (kv_abs cap (ee_buf d) key)), d)"
proof (cases "active_of cap (ee_buf d)")
  case None
  then show ?thesis using active_ok [OF assms] by (simp add: get_bytes_def kv_bind_def kv_abs_def)
next
  case (Some hg)
  obtain h g where hg: "hg = (h, g)" by fastforce
  with Some have a: "active_of cap (ee_buf d) = Some (h, g)" by simp
  have h: "h \<le> 1" using active_of_half [OF a] .
  let ?hb = "half_at cap h (ee_buf d)" and ?base = "half_base cap h"
  let ?log = "log_of ?hb 0"
  have abs: "kv_abs cap (ee_buf d) key = log_map ?log key" by (simp add: kv_abs_def a)
  show ?thesis
  proof (cases "latest_of key ?log")
    case None
    then show ?thesis
      using active_ok [OF assms] scan_ok [OF assms h] a abs
      by (simp add: get_bytes_def kv_bind_def Let_def scan_found_latest log_map_def)
  next
    case (Some pv)
    then obtain p v where L: "latest_of key ?log = Some (p, v)" by (cases pv) auto
    then have key: "key \<noteq> 0" using log_no_zero_tag [of ?hb 0] by auto
    have r: "rec_at ?hb p = Some (key, v)" using log_of_mem [OF latest_of_mem [OF L]] by simp
    note R = rec_at_SomeD [OF r]
    have B: "p + KV_HEADER + length v \<le> half_len cap"
      using R(3) record_size_bounds(1) [of "length v"] layout_half(4) [OF assms h] by simp
    have in1: "?base + p + KV_HEADER + min (length v) n \<le> length (ee_buf d)"
      using B layout_half(2) [OF assms h] by simp
    have "bslice (?base + p + KV_HEADER) (length v) (ee_buf d) = v"
      using R(7) B layout_half(2) [OF assms h] by (simp add: half_at_def bslice_bslice add.assoc)
    then have "take (min (length v) n) (bslice (?base + p + KV_HEADER) (length v) (ee_buf d)) = take n v"
      by (metis min.commute take_all_iff take_take linear)
    then have "bslice (?base + p + KV_HEADER) (min (length v) n) (ee_buf d) = take n v"
      by (simp add: bslice_def min.commute)
    then show ?thesis
      using active_ok [OF assms] scan_ok [OF assms h] a abs L key kv_read_ok [OF in1]
      by (simp add: get_bytes_def kv_bind_def Let_def scan_found_latest log_map_def)
  qed
qed

lemma generation_of: "kv_layout cap (ee_buf d) \<Longrightarrow>
    generation cap d = (Inr (case active_of cap (ee_buf d) of None \<Rightarrow> 0 | Some (_, g) \<Rightarrow> g), d)"
  by (simp add: generation_def kv_bind_def active_ok)

section \<open>Delete, compact, wipe\<close>

lemma kv_put_absent: "m k = None \<Longrightarrow> kv_put k [] m = m"
  by (auto simp: kv_put_def)

lemma kv_delete_alt:
  "kv_delete cap key =
     (if key = 0 then kv_raise InvalidKey
      else kv_bind (active cap) (\<lambda>a. case a of None \<Rightarrow> kv_return ()
      | Some (h, _) \<Rightarrow> kv_bind (scan_half (half_base cap h) (half_len cap) key) (\<lambda>s. case snd s of
            Some (_, len) \<Rightarrow> if 0 < len then set_bytes cap key [] else kv_return ()
          | None \<Rightarrow> kv_return ())))"
proof -
  have opt: "no_pending (case x of None \<Rightarrow> kv_return () | Some (q, len) \<Rightarrow> if 0 < len then set_bytes_with cap key [] else kv_return ())
      = (case x of None \<Rightarrow> kv_return () | Some (q, len) \<Rightarrow> if 0 < len then set_bytes cap key [] else kv_return ())" for x :: "(nat \<times> nat) option"
    by (cases x) (auto simp: no_pending_simps set_bytes_def)
  have opt2: "no_pending (case a of None \<Rightarrow> kv_return () | Some (h, g) \<Rightarrow> kv_bind (on_dev (m h)) f)
      = (case a of None \<Rightarrow> kv_return () | Some (h, g) \<Rightarrow> kv_bind (m h) (\<lambda>x. no_pending (f x)))"
    for a :: "(nat \<times> u32) option" and m :: "nat \<Rightarrow> (eeprom, nat \<times> (nat \<times> nat) option) kvm"
      and f :: "nat \<times> (nat \<times> nat) option \<Rightarrow> (eeprom \<times> flip_state option, unit) kvm"
    by (cases a) (auto simp: no_pending_simps)
  show ?thesis
    unfolding kv_delete_def delete_with_def by (simp only: no_pending_simps opt opt2 cong: if_cong)
qed

lemma crash_delete:
  assumes wf: "kv_wf cap c0"
  shows "crash_cells (\<lambda>c. c = c0) (kv_delete cap key) (\<lambda>_ c. key \<noteq> 0 \<and> put_post cap key [] c0 c)
     (\<lambda>e c. e \<noteq> Stale \<and> kept_post cap c0 c)"
proof (cases "key \<noteq> 0 \<and> kv_abs cap c0 key \<noteq> None")
  case True
  note L = kv_wfD(1) [OF wf]
  from True obtain h g where a: "active_of cap c0 = Some (h, g)" by (auto simp: kv_abs_def split: option.splits)
  with True obtain p v where lv: "latest_of key (log_of (half_at cap h c0) 0) = Some (p, v)" "v \<noteq> []"
    by (auto simp: kv_abs_def log_map_def split: option.splits if_splits)
  have "kv_delete cap key d = set_bytes cap key [] d" if "ee_buf d = c0" for d
    using True active_ok [of cap d] scan_ok [of cap d h] L that a active_of_half [OF a] lv
    by (simp add: kv_delete_alt kv_bind_def scan_found_latest)
  then show ?thesis using crash_set_bytes [OF wf, of key "[]"] unfolding crash_spec_def by fastforce
next
  case False
  note L = kv_wfD(1) [OF wf]
  have "kv_delete cap key d = (if key = 0 then (Inl InvalidKey, d) else (Inr (), d))" if d: "ee_buf d = c0" for d
  proof (cases "active_of cap c0")
    case None
    then show ?thesis using active_ok [of cap d] L d by (simp add: kv_delete_alt kv_bind_def)
  next
    case (Some hg)
    then obtain h g where a: "active_of cap c0 = Some (h, g)" by (cases hg) auto
    with False have "key \<noteq> 0 \<Longrightarrow> latest_of key (log_of (half_at cap h c0) 0) = None \<or>
        (\<exists>p. latest_of key (log_of (half_at cap h c0) 0) = Some (p, []))"
      by (auto simp: kv_abs_def log_map_def split: option.splits if_splits)
    then show ?thesis
      using active_ok [of cap d] scan_ok [of cap d h] L d a active_of_half [OF a]
      by (auto simp: kv_delete_alt kv_bind_def scan_found_latest)
  qed
  then show ?thesis using False wf
    by (auto simp: crash_spec_def crash_post_def the_dev_def put_post_def kept_post_def kv_put_absent)
qed

lemma crash_compact:
  assumes wf: "kv_wf cap c0"
  shows "crash_cells (\<lambda>c. c = c0) (compact cap) (\<lambda>_. kept_post cap c0)
     (\<lambda>e c. (e = Backend \<or> e = TooManyKeys) \<and> kept_post cap c0 c)"
  unfolding compact_def
proof (rule crash_bind_const [where x = "active_of cap c0"])
  note L = kv_wfD(1) [OF wf]
  show "active cap d = (Inr (active_of cap c0), d)" if "ee_buf d = c0" for d using active_ok [of cap d] L that by simp
  show "crash_cells (\<lambda>c. c = c0) (case active_of cap c0 of None \<Rightarrow> kv_return () | Some (h, g) \<Rightarrow> flip cap h g)
     (\<lambda>_. kept_post cap c0) (\<lambda>e c. (e = Backend \<or> e = TooManyKeys) \<and> kept_post cap c0 c)"
  proof (cases "active_of cap c0")
    case None
    then show ?thesis using wf by (auto simp: kept_post_def intro!: crash_return)
  next
    case (Some hg)
    then obtain h g where a: "active_of cap c0 = Some (h, g)" by (cases hg) auto
    have "crash_cells (\<lambda>c. c = c0) (flip cap h g) (\<lambda>_. kept_post cap c0)
       (\<lambda>e c. (e = Backend \<or> e = TooManyKeys) \<and> kept_post cap c0 c)"
      by (rule crash_weaken [OF crash_flip [OF wf a]]) (auto dest: flip_kept)
    with a show ?thesis by simp
  qed
qed

text \<open>A factory reset leaves the old store or an empty one, and an empty, scrubbed one when it
  reports success.\<close>

definition wiped :: "nat \<Rightarrow> bytes \<Rightarrow> bool" where
  "wiped cap c \<longleftrightarrow> kv_wf cap c \<and> kv_abs cap c = Map.empty"

definition scrubbed :: "nat \<Rightarrow> bytes \<Rightarrow> bool" where
  "scrubbed cap c \<longleftrightarrow> (\<forall>k \<le> 1. half_at cap k c = replicate (half_len cap) 0)"

lemma log_of_zeros: "log_of (replicate n 0) 0 = []"
  using rec_at_blank_tail [of 0 "replicate n 0"] by (simp add: log_stop)

lemma wipedI:
  assumes "kv_wf cap c" and "active_of cap c = Some (h, g)" and "half_at cap h c = replicate (half_len cap) 0"
  shows "wiped cap c"
  using assms by (auto simp: wiped_def kv_abs_def log_of_zeros log_map_def)

lemma half_zeroed:
  assumes "kv_layout cap c" and "h \<le> 1"
  shows "half_at cap h (zeroed (half_base cap h) (half_len cap) c) = replicate (half_len cap) 0"
  using bslice_zeroed [of "half_base cap h" "half_len cap" c] layout_half(2) [OF assms] by (simp add: half_at_def)

text \<open>The last step on an initialised region: scrubbing the half that is dead now.\<close>

lemma crash_scrub:
  assumes wf: "kv_wf cap c0" and a: "active_of cap c0 = Some (h, g)" and e: "half_at cap h c0 = replicate (half_len cap) 0"
  shows "crash_cells (\<lambda>c. c = c0) (blank (half_base cap (1 - h)) (half_len cap))
     (\<lambda>_ c. wiped cap c \<and> scrubbed cap c \<and> active_of cap c = Some (h, g) \<and>
        (\<forall>k \<le> 1. slot_at cap k c = slot_at cap k c0)) (\<lambda>e c. e = Backend \<and> wiped cap c)"
proof -
  note L = kv_wfD(1) [OF wf]
  have d: "1 - h \<le> 1" by simp
  have h: "h \<le> 1" using active_of_half [OF a] .
  note Hd = layout_half [OF L d]
  note F = dead_half_frame [OF wf a]
  let ?z = "zeroed (half_base cap (1 - h)) (half_len cap) c0"
  have out: "same_outside (half_base cap (1 - h)) (half_len cap) c0 ?z" using same_outside_zeroed [OF Hd(2)] .
  have w: "wiped cap c" if "same_outside (half_base cap (1 - h)) (half_len cap) c0 c" for c
    using wipedI F(1-3) [OF that] e by simp
  have "scrubbed cap ?z"
    unfolding scrubbed_def using half_zeroed [OF L d] F(3) [OF out] e h by (auto simp: le_Suc_eq)
  moreover have "\<forall>k \<le> 1. slot_at cap k ?z = slot_at cap k c0"
    using half_frame(1) [OF L d, of 0 "half_len cap" ?z] out by simp
  ultimately show ?thesis
    using crash_blank [OF Hd(3) layout_facts(6) [OF L] Hd(2) layout_facts(8) [OF L]] w [OF out] F(2) [OF out]
      w [OF blanked_part_same [OF _ Hd(2)]]
    by (intro crash_weaken [OF crash_blank [OF Hd(3) layout_facts(6) [OF L] Hd(2) layout_facts(8) [OF L]]]) auto
qed

lemma crash_wipe_active:
  assumes wf: "kv_wf cap c0" and a: "active_of cap c0 = Some (h, g)" and g: "g \<noteq> - 1"
  shows "crash_cells (\<lambda>c. c = c0)
     (kv_then (blank (half_base cap (1 - h)) (half_len cap))
       (kv_then (write_gen cap (1 - h) (g + 1)) (blank (half_base cap h) (half_len cap))))
     (\<lambda>_ c. wiped cap c \<and> scrubbed cap c) (\<lambda>e c. e = Backend \<and> (kept_post cap c0 c \<or> wiped cap c))"
proof (rule crash_then)
  note L = kv_wfD(1) [OF wf]
  have d: "1 - h \<le> 1" "1 - (1 - h) = h" using active_of_half [OF a] by auto
  note Hd = layout_half [OF L d(1)] and F = dead_half_frame [OF wf a]
  let ?z = "zeroed (half_base cap (1 - h)) (half_len cap) c0"
  let ?C = "\<lambda>e c. e = Backend \<and> (kept_post cap c0 c \<or> wiped cap c)"
  have kept: "kept_post cap c0 c" if "same_outside (half_base cap (1 - h)) (half_len cap) c0 c" for c
    using F(1,4) [OF that] by (simp add: kept_post_def)
  show "crash_cells (\<lambda>c. c = c0) (blank (half_base cap (1 - h)) (half_len cap)) (\<lambda>_ c. c = ?z) ?C"
    by (rule crash_weaken [OF crash_blank [OF Hd(3) layout_facts(6) [OF L] Hd(2) layout_facts(8) [OF L]]])
      (use kept [OF blanked_part_same [OF _ Hd(2)]] in auto)
  have out: "same_outside (half_base cap (1 - h)) (half_len cap) c0 ?z" using same_outside_zeroed [OF Hd(2)] .
  note Z = F(1,2) [OF out] and K = kept [OF out] and E = half_zeroed [OF L d(1)]
  let ?P = "\<lambda>c. kv_wf cap c \<and> active_of cap c = Some (1 - h, g + 1) \<and> half_at cap (1 - h) c = replicate (half_len cap) 0"
  have abs: "kept_post cap ?z c" if "kv_wf cap c" "active_of cap c = Some (h, g)" "same_halves cap ?z c" for c
    using that Z active_of_half [OF a] by (auto simp: kept_post_def kv_abs_def same_halves_def)
  show "crash_cells (\<lambda>c. c = ?z) (kv_then (write_gen cap (1 - h) (g + 1)) (blank (half_base cap h) (half_len cap)))
      (\<lambda>_ c. wiped cap c \<and> scrubbed cap c) ?C"
  proof (rule crash_then)
    show "crash_cells (\<lambda>c. c = ?z) (write_gen cap (1 - h) (g + 1)) (\<lambda>_. ?P) ?C"
    proof (rule crash_weaken [OF crash_commit [OF Z]])
      fix e d assume "e = Backend \<and> kv_wf cap (ee_buf d) \<and> (active_of cap (ee_buf d) = Some (h, g) \<or>
          active_of cap (ee_buf d) = Some (1 - h, g + 1)) \<and> same_halves cap ?z (ee_buf d)"
      then show "?C e (ee_buf d)"
        using kept_trans [OF K abs] wipedI [of cap "ee_buf d" "1 - h" "g + 1"] E by (auto simp: same_halves_def)
    qed (use g E d in \<open>auto simp: same_halves_def\<close>)
    show "crash_cells ?P (blank (half_base cap h) (half_len cap)) (\<lambda>_ c. wiped cap c \<and> scrubbed cap c) ?C"
    proof (rule crash_cells_fix)
      fix c1 assume "?P c1"
      then show "crash_cells (\<lambda>c. c = c1) (blank (half_base cap h) (half_len cap)) (\<lambda>_ c. wiped cap c \<and> scrubbed cap c) ?C"
        using crash_weaken [OF crash_scrub [of cap c1 "1 - h" "g + 1"]] d(2) by auto
    qed
  qed
qed

lemma stale_blanked:
  assumes "virgin b" and "length b = 12" and "m \<le> 12" and "m mod 4 = 0"
  shows "stale (zeroed 0 m b) 1"
proof -
  have nth: "zeroed 0 m b ! i = (if i < m then 0 else b ! i)" if "i < 12" for i
    using that assms(2,3) by (simp add: zeroed_def nth_bsplice)
  have "m = 0 \<or> m = 4 \<or> m = 8 \<or> m = 12" using assms(3,4) by presburger
  then consider "m \<le> 4" | "8 \<le> m" by fastforce
  then show ?thesis
  proof cases
    case 1
    then have "slot_gen (zeroed 0 m b) = slot_gen b" "slot_crc (zeroed 0 m b) = slot_crc b"
      by (simp_all add: slot_gen_def slot_crc_def nth)
    with assms(1) show ?thesis by (simp add: stale_def virgin_def seals_def)
  next
    case 2
    then have "slot_gen (zeroed 0 m b) = 0" by (simp add: slot_gen_def nth le_u32_def)
    then show ?thesis by (simp add: stale_def)
  qed
qed

lemma crash_clear_slot:
  assumes wf: "kv_wf cap c0" and a: "active_of cap c0 = Some (1, 1)" and v: "virgin (slot_at cap 0 c0)"
    and w: "wiped cap c0" "scrubbed cap c0"
  shows "crash_cells (\<lambda>c. c = c0) (blank (super_off cap 0) SUPER_LEN)
     (\<lambda>_ c. wiped cap c \<and> scrubbed cap c) (\<lambda>e c. e = Backend \<and> wiped cap c)"
proof -
  note L = kv_wfD(1) [OF wf]
  note S = layout_slot [OF L, of 0, simplified]
  have post: "wiped cap c \<and> scrubbed cap c" if "blanked_part (super_off cap 0) 12 c0 c" for c
  proof -
    from that obtain m where m: "m \<le> 12" "m mod 4 = 0" "c = zeroed (super_off cap 0) m c0" by (auto simp: blanked_part_def)
    have "same_outside (super_off cap 0) 12 c0 c" using blanked_part_same [OF that S(2)] .
    note F = slot_frame [OF L le0 this]
    have "slot_at cap 0 c = zeroed 0 m (slot_at cap 0 c0)"
      unfolding m(3) slot_at_def SUPER_LEN_def zeroed_def using m(1) S(2)
      by (intro nth_equalityI) (auto simp: nth_bslice nth_bsplice)
    then have st: "stale (slot_at cap 0 c) 1" using stale_blanked [OF v S(4) m(1,2)] by simp
    have p: "parse_super (slot_at cap 1 c) = Some 1" using active_of_slot [OF a] F(1) by simp
    have wf': "kv_wf cap c" "active_of cap c = Some (1, 1)" using kv_wf_activeI [OF F(3) _ p] st by auto
    have hv: "half_at cap k c = half_at cap k c0" if "k \<le> 1" for k using F(2) [OF that] .
    then have "scrubbed cap c" using w(2) by (simp add: scrubbed_def)
    moreover from this have "wiped cap c" using wipedI [OF wf'] by (simp add: scrubbed_def)
    ultimately show ?thesis by blast
  qed
  have b: "crash_cells (\<lambda>c. c = c0) (blank (super_off cap 0) SUPER_LEN) (\<lambda>_ c. c = zeroed (super_off cap 0) SUPER_LEN c0)
     (\<lambda>e c. e = Backend \<and> blanked_part (super_off cap 0) SUPER_LEN c0 c)"
    by (rule crash_blank) (use S in \<open>auto simp: SUPER_LEN_def U32_MAX_def\<close>)
  have "blanked_part (super_off cap 0) 12 c0 (zeroed (super_off cap 0) 12 c0)" by (rule blanked_partI) auto
  from post [OF this] show ?thesis
    by (intro crash_weaken [OF b]) (use post in \<open>auto simp: SUPER_LEN_def\<close>)
qed

lemma crash_wipe_virgin:
  assumes wf: "kv_wf cap c0" and a: "active_of cap c0 = None"
  shows "crash_cells (\<lambda>c. c = c0)
     (kv_then (blank (half_base cap 1) (half_len cap))
       (kv_then (write_gen cap 1 1)
       (kv_then (blank (half_base cap 0) (half_len cap)) (blank (super_off cap 0) SUPER_LEN))))
     (\<lambda>_ c. wiped cap c \<and> scrubbed cap c) (\<lambda>e c. e = Backend \<and> wiped cap c)"
proof (rule crash_then)
  note L = kv_wfD(1) [OF wf]
  note H = layout_half [OF L order_refl] and F = half0_frame [OF wf a _ order_refl]
  let ?z = "zeroed (half_base cap 1) (half_len cap) c0" and ?C = "\<lambda>e c. e = Backend \<and> wiped cap c"
  have emp: "wiped cap c" if "same_outside (half_base cap 1) (half_len cap) c0 c" for c
    using F(3,4) [OF that] a by (simp add: wiped_def kv_abs_def)
  show "crash_cells (\<lambda>c. c = c0) (blank (half_base cap 1) (half_len cap)) (\<lambda>_ c. c = ?z) ?C"
    by (rule crash_weaken [OF crash_blank]) (use H layout_facts(6,8) [OF L] emp [OF blanked_part_same] in auto)
  have out: "same_outside (half_base cap 1) (half_len cap) c0 ?z" using same_outside_zeroed [OF H(2)] .
  have zh: "half_at cap 1 ?z = replicate (half_len cap) 0" using half_zeroed [OF L] by simp
  let ?P = "\<lambda>c. kv_wf cap c \<and> active_of cap c = Some (1, 1) \<and> half_at cap 1 c = replicate (half_len cap) 0 \<and> virgin (slot_at cap 0 c)"
  have vz: "virgin (slot_at cap j ?z)" if "j \<le> 1" for j using F(2) [OF out that] .
  show "crash_cells (\<lambda>c. c = ?z) (kv_then (write_gen cap 1 1)
       (kv_then (blank (half_base cap 0) (half_len cap)) (blank (super_off cap 0) SUPER_LEN)))
     (\<lambda>_ c. wiped cap c \<and> scrubbed cap c) ?C"
  proof (rule crash_then)
    have e: "format_post cap 1 ?z c \<Longrightarrow> wiped cap c" for c
      using wipedI [of cap c 1 1] zh by (auto simp: format_post_def same_halves_def wiped_def kv_abs_def)
    have s: "format_post cap 1 ?z c \<and> active_of cap c = Some (1, 1) \<Longrightarrow> ?P c" for c
      using zh vz [of 0] by (auto simp: format_post_def same_halves_def)
    show "crash_cells (\<lambda>c. c = ?z) (write_gen cap 1 1) (\<lambda>_. ?P) ?C"
      by (rule crash_weaken [OF crash_format [OF F(1) [OF out] vz, of 1]]) (use e s in auto)
    show "crash_cells ?P (kv_then (blank (half_base cap 0) (half_len cap)) (blank (super_off cap 0) SUPER_LEN))
       (\<lambda>_ c. wiped cap c \<and> scrubbed cap c) ?C"
    proof (rule crash_cells_fix)
      fix c1 assume c1: "?P c1"
      show "crash_cells (\<lambda>c. c = c1) (kv_then (blank (half_base cap 0) (half_len cap)) (blank (super_off cap 0) SUPER_LEN))
         (\<lambda>_ c. wiped cap c \<and> scrubbed cap c) ?C"
      proof (rule crash_then)
        let ?R = "\<lambda>c. wiped cap c \<and> scrubbed cap c \<and> active_of cap c = Some (1, 1) \<and> virgin (slot_at cap 0 c)"
        show "crash_cells (\<lambda>c. c = c1) (blank (half_base cap 0) (half_len cap)) (\<lambda>_. ?R) ?C"
          using crash_weaken [OF crash_scrub [of cap c1 1 1]] c1 by auto
        show "crash_cells ?R (blank (super_off cap 0) SUPER_LEN) (\<lambda>_ c. wiped cap c \<and> scrubbed cap c) ?C"
          by (rule crash_cells_fix) (use crash_clear_slot in \<open>auto simp: wiped_def\<close>)
      qed
    qed
  qed
qed

lemma crash_wipe:
  assumes wf: "kv_wf cap c0" and g: "\<And>h. active_of cap c0 \<noteq> Some (h, - 1)"
  shows "crash_cells (\<lambda>c. c = c0) (wipe cap) (\<lambda>_ c. wiped cap c \<and> scrubbed cap c)
     (\<lambda>e c. e = Backend \<and> (kept_post cap c0 c \<or> wiped cap c))"
  unfolding wipe_def Let_def
proof (rule crash_bind_const [where x = "active_of cap c0"])
  note L = kv_wfD(1) [OF wf]
  show "active cap d = (Inr (active_of cap c0), d)" if "ee_buf d = c0" for d using active_ok [of cap d] L that by simp
  show "crash_cells (\<lambda>c. c = c0) (case active_of cap c0 of
        None \<Rightarrow> kv_then (blank (half_base cap 1) (half_len cap))
          (kv_then (write_gen cap 1 1)
          (kv_then (blank (half_base cap 0) (half_len cap)) (blank (super_off cap 0) SUPER_LEN)))
      | Some (h, g) \<Rightarrow> kv_then (blank (half_base cap (1 - h)) (half_len cap))
          (kv_then (write_gen cap (1 - h) (g + 1)) (blank (half_base cap h) (half_len cap))))
     (\<lambda>_ c. wiped cap c \<and> scrubbed cap c) (\<lambda>e c. e = Backend \<and> (kept_post cap c0 c \<or> wiped cap c))"
  proof (cases "active_of cap c0")
    case None
    then show ?thesis using crash_weaken [OF crash_wipe_virgin [OF wf None]] by auto
  next
    case (Some hg)
    then obtain h gg where a: "active_of cap c0 = Some (h, gg)" by (cases hg) auto
    with g have "gg \<noteq> - 1" by auto
    from crash_wipe_active [OF wf a this] a show ?thesis by simp
  qed
qed

end
