(* ===== verification/Kv_Props.thy ===== *)
theory Kv_Props
  imports Kv_Store
begin

text \<open>
  What the key-value store promises its callers, over whole operations on a device with a power
  cut armed anywhere: \<open>set_bytes\<close>, \<open>get_bytes\<close>, \<open>delete\<close>, \<open>compact\<close>, \<open>init\<close> and \<open>wipe\<close> against
  the abstract map, and that a write succeeds whenever the live set leaves room for it.
\<close>

section \<open>A blank part\<close>

lemma kv_layout_blank: "2 * SUPER_LEN \<le> region n \<Longrightarrow> n \<le> U32_MAX \<Longrightarrow> kv_layout n (replicate n 0)"
  by (simp add: kv_layout_def)

lemma virgin_zeros: "virgin (replicate 12 0)"
  using zero_not_sealed by (simp add: virgin_def seals_def slot_crc_def slot_gen_def le_u32_def)

lemma kv_wf_blank:
  assumes "2 * SUPER_LEN \<le> region n" and "n \<le> U32_MAX"
  shows "kv_wf n (replicate n 0)" and "active_of n (replicate n 0) = None"
proof -
  note L = kv_layout_blank [OF assms]
  have "slot_at n k (replicate n 0) = replicate 12 0" if "k \<le> 1" for k
    using layout_slot(2,4) [OF L that] by (auto simp: slot_at_def bslice_def SUPER_LEN_def)
  then have "virgin (slot_at n k (replicate n 0))" if "k \<le> 1" for k using that virgin_zeros by simp
  then show "kv_wf n (replicate n 0)" "active_of n (replicate n 0) = None" using kv_wf_noneI [OF L] by auto
qed

lemma ram_new_simps [simp]:
  "ee_buf (ram_new n) = replicate n 0" "clean (ram_new n)" "healthy (ram_new n)"
  "clean (ram_arm k Erased (ram_new n))" "ee_buf (ram_arm k t (ram_new n)) = replicate n 0"
  by (simp_all add: ram_new_def ram_arm_def clean_def healthy_def)

lemma region_128: "2 * SUPER_LEN \<le> region 128" "128 \<le> U32_MAX"
  by (simp_all add: SUPER_LEN_def region_def U32_MAX_def)

lemmas wf_128 = kv_wf_blank(1) [OF region_128]

section \<open>Writing and reading\<close>

text \<open>Reading off the crash specification of an operation that started in cells \<open>ee_buf d\<close>.\<close>

lemma crash_cellsD:
  assumes "crash_cells (\<lambda>c. c = ee_buf d) m Q C" and "clean d" and "m d = (r, d')"
  shows "clean d'" and "ee_unaligned d' = ee_unaligned d" and "healthy d \<Longrightarrow> healthy d' \<and> r \<noteq> Inl Backend"
    and "r = Inl Backend \<Longrightarrow> ee_dead d'"
    and "r = Inr x \<Longrightarrow> Q x (ee_buf d')" and "r = Inl e \<Longrightarrow> C e (ee_buf d')"
proof -
  have "crash_post the_dev (\<lambda>x. cells (Q x)) (\<lambda>e. cells (C e)) d (r, d')"
    using crash_specD [OF assms(1), of d] assms(2,3) by (simp add: the_dev_def)
  from crash_postD [OF this] show "clean d'" "ee_unaligned d' = ee_unaligned d"
    "healthy d \<Longrightarrow> healthy d' \<and> r \<noteq> Inl Backend" "r = Inl Backend \<Longrightarrow> ee_dead d'" "r = Inr x \<Longrightarrow> Q x (ee_buf d')" "r = Inl e \<Longrightarrow> C e (ee_buf d')"
    by (auto simp: the_dev_def)
qed

text \<open>C3. Storing a value is atomic under a clean power cut in any of its word programs, one that leaves the torn
  word as it was or erased (\<open>clean\<close>): the call that reports success has stored the value (an empty one removes the
  key), any other outcome leaves every key as it was; the cells stay well formed, and every program was a whole
  aligned word. The order of the writes carries this (dead word cleared, body before header, superblock last), not
  the CRC. A cut that garbles the torn word is excluded: after it the log and the superblock slots rest on
  their CRCs, which a garbled word can match by chance.\<close>

theorem set_bytes_crash_safe:
  assumes "kv_wf cap (ee_buf d)" and "clean d" and "set_bytes cap key v d = (r, d')"
  shows "kv_wf cap (ee_buf d') \<and> clean d' \<and> ee_unaligned d' = ee_unaligned d \<and>
     kv_abs cap (ee_buf d') =
       (case r of Inr _ \<Rightarrow> kv_put key v (kv_abs cap (ee_buf d)) | Inl _ \<Rightarrow> kv_abs cap (ee_buf d))"
  using crash_cellsD [OF crash_set_bytes [OF assms(1)] assms(2,3)]
  by (cases r) (auto simp: put_post_def kept_post_def)

theorem set_bytes_crash_safe_witness:
  "kv_wf 128 (ee_buf (snd (set_bytes 128 5 [1, 2, 3] (ram_arm 3 Erased (ram_new 128))))) \<and>
   kv_abs 128 (ee_buf (snd (set_bytes 128 5 [1, 2, 3] (ram_arm 3 Erased (ram_new 128))))) =
     (case fst (set_bytes 128 5 [1, 2, 3] (ram_arm 3 Erased (ram_new 128))) of
        Inr _ \<Rightarrow> kv_put 5 [1, 2, 3] (kv_abs 128 (replicate 128 0)) | Inl _ \<Rightarrow> kv_abs 128 (replicate 128 0))"
  using set_bytes_crash_safe [of 128 "ram_arm 3 Erased (ram_new 128)" 5 "[1, 2, 3]"
      "fst (set_bytes 128 5 [1, 2, 3] (ram_arm 3 Erased (ram_new 128)))"
      "snd (set_bytes 128 5 [1, 2, 3] (ram_arm 3 Erased (ram_new 128)))"] wf_128 by (simp cong: sum.case_cong)

text \<open>What the codec makes of a garbled header: flipping the low bit of every byte takes a length of at most 256 above
  256 unless it was 1 or 256, so such a header is refused by its length, before its CRC is looked at.\<close>

lemma garbled_lengths:
  "list_all (\<lambda>n. n = 1 \<or> n = 256 \<or> 256 < unat (le_u16 (ucast (of_nat n :: u16) XOR 1) (ucast (drop_bit 8 (of_nat n :: u16)) XOR 1))) [0..<257]"
  by code_simp

lemma garbled_header_refused:
  assumes "length v \<le> MAX_VALUE" and "length v \<noteq> 1" and "length v \<noteq> 256"
    and "bslice p 4 hb = torn_word Garbled p p (u16_le key @ u16_le (of_nat (length v))) old"
  shows "rec_at hb p = None"
proof (cases "length hb < p + KV_HEADER")
  case False
  let ?n = "of_nat (length v) :: u16"
  have "hdr_len (bslice p KV_HEADER hb) = unat (le_u16 (bslice p 4 hb ! 2) (bslice p 4 hb ! 3))"
    using False by (simp add: hdr_len_def nth_bslice KV_HEADER_def)
  also have "\<dots> = unat (le_u16 (ucast ?n XOR 1) (ucast (drop_bit 8 ?n) XOR 1))"
    using assms(4) by (simp add: torn_word_def u16_le_def bsplice_def)
  finally have "MAX_VALUE < hdr_len (bslice p KV_HEADER hb)"
    using garbled_lengths assms(1-3) by (auto simp: list_all_iff MAX_VALUE_def)
  then show ?thesis by (simp add: rec_at_def Let_def)
qed (simp add: rec_at_def)

text \<open>The packed size of the live set, and the number of distinct tags in the log.\<close>

definition live_size :: "nat \<Rightarrow> bytes \<Rightarrow> nat" where
  "live_size cap c =
     (case active_of cap c of None \<Rightarrow> 0
      | Some (h, _) \<Rightarrow> let log = log_of (half_at cap h c) 0 in
          sum_list (map (\<lambda>r. record_size (length (snd (snd r))))
            (filter (\<lambda>r. snd (snd r) \<noteq> [] \<and> (\<exists>v. latest_of (fst (snd r)) log = Some (fst r, v))) log)))"

definition log_tags :: "nat \<Rightarrow> bytes \<Rightarrow> u16 set" where
  "log_tags cap c =
     (case active_of cap c of None \<Rightarrow> {}
      | Some (h, _) \<Rightarrow> (fst \<circ> snd) ` set (log_of (half_at cap h c) 0))"

lemma log_end_sum: "log_end hb p = p + sum_list (map (\<lambda>r. record_size (length (snd (snd r)))) (log_of hb p))"
proof (induction p rule: log_induct [of hb])
  case (step p t v)
  then show ?case using log_step [OF step(1)] by simp
qed (simp add: log_stop)

lemma walk_log_total:
  "distinct (map fst l) \<Longrightarrow> card (fst ` set l \<union> (fst \<circ> snd) ` set log) \<le> MAX_KEYS \<Longrightarrow> \<exists>l'. walk_log log l = Some l'"
proof (induction log arbitrary: l)
  case (Cons r rs)
  show ?case
  proof (cases "latest_put (fst (snd r)) (fst r) l")
    case None
    then have new: "fst (snd r) \<notin> fst ` set l" by (simp add: latest_put_None)
    have fin: "finite (fst ` set l \<union> (fst \<circ> snd) ` set (r # rs))" by simp
    have "insert (fst (snd r)) (fst ` set l) \<subseteq> fst ` set l \<union> (fst \<circ> snd) ` set (r # rs)" by auto
    from card_mono [OF fin this] Cons.prems new have "Suc (card (fst ` set l)) \<le> MAX_KEYS" by simp
    moreover have "card (fst ` set l) = length l" using Cons.prems(1) by (metis distinct_card length_map set_map)
    ultimately have "\<not> MAX_KEYS \<le> length l" by simp
    moreover have "\<exists>l'. walk_log rs (l @ [(fst (snd r), fst r)]) = Some l'"
      using Cons.prems new by (intro Cons.IH) (auto simp: Un_commute insert_commute)
    ultimately show ?thesis using None by simp
  next
    case (Some l1)
    note P = latest_put_Some [OF Some Cons.prems(1)]
    have "fst (snd r) \<in> fst ` set l" using Some latest_put_None [of "fst (snd r)" "fst r" l] by auto
    moreover have "fst ` set l1 = fst ` set l" using P by (metis list.set_map)
    ultimately have "\<exists>l'. walk_log rs l1 = Some l'"
      using Cons.prems P by (intro Cons.IH) (auto simp: insert_absorb)
    then show ?thesis using Some by simp
  qed
qed simp

lemma packed_end:
  assumes "flip_packed cap c0 h c" and "active_of cap c0 = Some (h, g)"
  shows "log_end (half_at cap (1 - h) c) 0 = live_size cap c0"
proof -
  let ?log = "log_of (half_at cap h c0) 0" and ?sz = "\<lambda>r :: nat \<times> u16 \<times> bytes. record_size (length (snd (snd r)))"
  from assms(1) obtain latest where w: "walk_log ?log [] = Some latest"
    and m: "map snd (log_of (half_at cap (1 - h) c) 0) = map snd (filter (live latest) ?log)" by (auto simp: flip_packed_def)
  have "map ?sz (log_of (half_at cap (1 - h) c) 0) = map (\<lambda>tv. record_size (length (snd tv))) (map snd (filter (live latest) ?log))"
    unfolding m [symmetric] by simp
  moreover have "filter (live latest) ?log =
      filter (\<lambda>r. snd (snd r) \<noteq> [] \<and> (\<exists>v. latest_of (fst (snd r)) ?log = Some (fst r, v))) ?log"
    by (rule filter_cong [OF refl]) (use walk_log_live [OF w] in \<open>auto simp: live_def\<close>)
  ultimately show ?thesis by (simp add: log_end_sum live_size_def assms(2) Let_def comp_def)
qed

lemma crash_healthy:
  assumes "crash_cells (\<lambda>c. c = ee_buf d) m Q C" and "healthy d" and "\<And>e c. C e c \<Longrightarrow> e = Backend"
  shows "\<exists>x d'. m d = (Inr x, d') \<and> healthy d' \<and> Q x (ee_buf d')"
proof -
  obtain r d' where m: "m d = (r, d')" by fastforce
  have "clean d" using assms(2) by (simp add: healthy_def clean_def)
  note D = crash_cellsD [OF assms(1) this m]
  have "r \<noteq> Inl e" for e using D(3) D(6) [of e] assms(2,3) by blast
  then obtain x where "r = Inr x" by (cases r) auto
  with D m assms(2) show ?thesis by blast
qed

lemma set_bytes_room:
  assumes "kv_wf cap (ee_buf d)" and "healthy d" and "key \<noteq> 0" and "length v \<le> MAX_VALUE"
    and "active_of cap (ee_buf d) = Some (h, g)" and "g \<noteq> - 1" and "card (log_tags cap (ee_buf d)) \<le> MAX_KEYS"
    and "live_size cap (ee_buf d) + record_size (length v) \<le> half_len cap"
  shows "fst (set_bytes cap key v d) = Inr ()"
proof -
  let ?c = "ee_buf d" and ?f = "log_end (half_at cap h (ee_buf d)) 0" and ?n = "record_size (length v)"
  note L = kv_wfD(1) [OF assms(1)] and a = assms(5)
  have h: "h \<le> 1" using active_of_half [OF a] .
  have run: "set_bytes cap key v d = (if ?f + ?n \<le> half_len cap then append_end (half_base cap h) (half_len cap) ?f key v
      else kv_then (flip cap h g) (append_after_flip cap key v False)) d"
    using assms(3,4) active_ok [OF L] scan_ok [OF L h] a by (simp add: set_bytes_alt kv_bind_def)
  show ?thesis
  proof (cases "?f + ?n \<le> half_len cap")
    case True
    from crash_healthy [OF crash_append_active [OF assms(1) a refl True assms(3,4)] assms(2)]
    show ?thesis using run True by auto
  next
    case False
    let ?log = "log_of (half_at cap h ?c) 0"
    from assms(7) a obtain l where l: "walk_log ?log [] = Some l"
      using walk_log_total [of "[]" ?log] by (auto simp: log_tags_def)
    from crash_healthy [OF crash_flip [OF assms(1) a] assms(2)] l obtain d1 where
      d1: "flip cap h g d = (Inr (), d1)" "healthy d1" "flip_post cap ?c h g (ee_buf d1)"
        "active_of cap (ee_buf d1) = Some (1 - h, g + 1)" "flip_packed cap ?c h (ee_buf d1)"
      using assms(6) by auto
    have wf1: "kv_wf cap (ee_buf d1)" using d1(3) by (simp add: flip_post_def)
    note L1 = kv_wfD(1) [OF wf1]
    have h1: "1 - h \<le> 1" by simp
    let ?f1 = "log_end (half_at cap (1 - h) (ee_buf d1)) 0"
    have fit: "?f1 + ?n \<le> half_len cap" using packed_end [OF d1(5) a] assms(8) by simp
    from crash_healthy [OF crash_append_active [OF wf1 d1(4) refl fit assms(3,4)] d1(2)]
    obtain d2 where "append_end (half_base cap (1 - h)) (half_len cap) ?f1 key v d1 = (Inr (), d2)" by auto
    moreover have "append_after_flip cap key v False d1 = append_end (half_base cap (1 - h)) (half_len cap) ?f1 key v d1"
      using active_ok [OF L1] scan_ok [OF L1 h1] d1(4) fit
      by (simp add: append_after_flip_def Let_def kv_bind_def)
    ultimately show ?thesis using run False d1(1) by (simp add: kv_then_def kv_bind_def)
  qed
qed

text \<open>A freshly formatted part, for the concrete instances.\<close>

definition formatted :: "nat \<Rightarrow> eeprom" where
  "formatted n = (ram_new n)\<lparr>ee_buf := bsplice (super_off n 0) (super_bytes 1) (replicate n 0)\<rparr>"

lemma formatted_facts:
  assumes "2 * SUPER_LEN \<le> region n" and "n \<le> U32_MAX"
  shows "kv_wf n (ee_buf (formatted n))" and "active_of n (ee_buf (formatted n)) = Some (0, 1)"
    and "half_at n 0 (ee_buf (formatted n)) = replicate (half_len n) 0" and "healthy (formatted n)" and "clean (formatted n)"
proof -
  let ?c = "replicate n (0 :: u8)" and ?c' = "bsplice (super_off n 0) (super_bytes 1) (replicate n 0)"
  note L = kv_layout_blank [OF assms]
  note S = layout_slot [OF L, of 0, simplified]
  have in1: "super_off n 0 + length (super_bytes 1) \<le> length ?c" using S by simp
  have out: "same_outside (super_off n 0) 12 ?c ?c'" using same_outside_bsplice [OF in1] by simp
  note F = slot_frame [OF L le0 out]
  have "slot_at n 0 ?c' = super_bytes 1" using bslice_bsplice_same [OF in1] by (simp add: slot_at_def SUPER_LEN_def)
  then have p: "parse_super (slot_at n 0 ?c') = Some 1" using slot_super_bytes(3) by simp
  have "slot_at n 1 ?c = replicate 12 0"
    using layout_slot(2) [OF L order_refl] by (simp add: slot_at_def bslice_def SUPER_LEN_def)
  then have "stale (slot_at n (1 - 0) ?c') 1" using F(1) virgin_zeros by (simp add: stale_def virgin_def)
  from kv_wf_activeI [OF F(3) le0 p _ this]
  show "kv_wf n (ee_buf (formatted n))" "active_of n (ee_buf (formatted n)) = Some (0, 1)" by (simp_all add: formatted_def)
  have "half_at n 0 ?c = replicate (half_len n) 0"
    using layout_half(2) [OF L le0] by (simp add: half_at_def bslice_def)
  then show "half_at n 0 (ee_buf (formatted n)) = replicate (half_len n) 0" using F(2) [of 0] by (simp add: formatted_def)
  show "healthy (formatted n)" "clean (formatted n)" by (simp_all add: formatted_def ram_new_def healthy_def clean_def)
qed

lemmas formatted_128 = formatted_facts [OF region_128]

lemma formatted_sizes:
  "live_size 128 (ee_buf (formatted 128)) = 0" "log_tags 128 (ee_buf (formatted 128)) = {}" "half_len 128 = 52"
  using formatted_128(2,3)
  by (simp_all add: live_size_def log_tags_def log_of_zeros half_len_def region_def SUPER_LEN_def)

lemma store_128: "set_bytes 128 5 [1, 2, 3] (formatted 128) = (Inr (), snd (set_bytes 128 5 [1, 2, 3] (formatted 128)))"
proof -
  have "fst (set_bytes 128 5 [1, 2, 3] (formatted 128)) = Inr ()"
    by (rule set_bytes_room [OF formatted_128(1,4) _ _ formatted_128(2)])
      (simp_all add: formatted_sizes record_size_def KV_HEADER_def MAX_VALUE_def)
  then show ?thesis by (metis prod.collapse)
qed

text \<open>C12. Reading back: after a successful store the key reads its value (its true length and as
  many bytes as fit the buffer; an empty value reads as absent), and every other key reads what
  it read before.\<close>

theorem set_get:
  assumes "kv_wf cap (ee_buf d)" and "clean d" and "set_bytes cap key v d = (Inr (), d')"
  shows "get_bytes cap key n d' = (Inr (if v = [] then None else Some (length v, take n v)), d') \<and>
     (\<forall>k. k \<noteq> key \<longrightarrow> fst (get_bytes cap k n d') = fst (get_bytes cap k n d))"
proof -
  from crash_cellsD(5) [OF crash_set_bytes [OF assms(1)] assms(2,3)] have
    P: "put_post cap key v (ee_buf d) (ee_buf d')" by simp
  then have "kv_layout cap (ee_buf d')" by (auto simp: put_post_def dest: kv_wfD(1))
  with kv_wfD(1) [OF assms(1)] P show ?thesis by (simp add: get_bytes_abs put_post_def kv_put_def)
qed

theorem set_get_witness:
  "get_bytes 128 5 2 (snd (set_bytes 128 5 [1, 2, 3] (formatted 128))) =
     (Inr (Some (3, [1, 2])), snd (set_bytes 128 5 [1, 2, 3] (formatted 128)))"
  using set_get [OF formatted_128(1,5) store_128, of 2] by simp

text \<open>C13. A store never refuses a write it has room for: on a working device, a value whose record
  fits beside the packed live set is stored, compacting first when the log is full (at most
  \<open>MAX_KEYS\<close> distinct tags in the log, and a generation below the 32-bit ceiling).\<close>

theorem set_bytes_succeeds:
  assumes "kv_wf cap (ee_buf d)" and "healthy d" and "key \<noteq> 0" and "length v \<le> MAX_VALUE"
    and "active_of cap (ee_buf d) = Some (h, g)" and "g \<noteq> - 1" and "card (log_tags cap (ee_buf d)) \<le> MAX_KEYS"
    and "live_size cap (ee_buf d) + record_size (length v) \<le> half_len cap"
  shows "fst (set_bytes cap key v d) = Inr ()"
  using assms by (rule set_bytes_room)

theorem set_bytes_succeeds_witness: "fst (set_bytes 128 9 [4, 5] (formatted 128)) = Inr ()"
  by (rule set_bytes_succeeds [OF formatted_128(1,4) _ _ formatted_128(2)])
    (simp_all add: formatted_sizes record_size_def KV_HEADER_def MAX_VALUE_def)

end
