(* ===== verification/Kv_Flip.thy ===== *)
theory Kv_Flip
  imports Kv_Props
begin

text \<open>
  The incremental flip is correct: the invariant \<open>fs_ok\<close> of a pending \<open>FlipState\<close> against the
  cells (the plan describes a prefix of the source log, the destination holds the copied part of
  it), kept by every budgeted slice, and the commit, which carries the tail appended in the
  meantime over and keeps the map, a power cut in any word program included.
\<close>

section \<open>Paths along a log\<close>

inductive log_path :: "bytes \<Rightarrow> nat \<Rightarrow> nat \<Rightarrow> bool" for hb where
  start: "log_path hb p p"
| step: "log_path hb p q \<Longrightarrow> rec_at hb q = Some (t, v) \<Longrightarrow> log_path hb p (q + record_size (length v))"

lemma log_path_first:
  "log_path hb p q \<Longrightarrow> p = q \<or> (\<exists>t v. rec_at hb p = Some (t, v) \<and> log_path hb (p + record_size (length v)) q)"
proof (induction rule: log_path.induct)
  case (step p q t v)
  then show ?case by (auto intro: log_path.intros)
qed simp

lemma log_path_le: "log_path hb p q \<Longrightarrow> p \<le> q \<and> (p mod 4 = 0 \<longrightarrow> q mod 4 = 0)"
proof (induction rule: log_path.induct)
  case (step p q t v)
  then show ?case using record_size_bounds(2) [of "length v"] by (auto simp: mod_add_eq [symmetric, of q])
qed simp

lemma log_path_linear: "log_path hb p a \<Longrightarrow> log_path hb p b \<Longrightarrow> log_path hb a b \<or> log_path hb b a"
proof (induction rule: log_path.induct)
  case (step p q t v)
  then consider "log_path hb q b" | "log_path hb b q" by blast
  then show ?case
  proof cases
    case 1
    from log_path_first [OF 1] step(2) show ?thesis by (auto intro: log_path.intros)
  next
    case 2
    then show ?thesis using log_path.step [OF 2 step(2)] by blast
  qed
qed blast

lemma log_path_between:
  assumes "log_path hb p a" and "log_path hb p b" and "a \<le> b"
  shows "log_path hb a b"
proof (rule ccontr)
  assume "\<not> log_path hb a b"
  with log_path_linear [OF assms(1,2)] have "log_path hb b a" by blast
  with log_path_le assms(3) have "a = b" by fastforce
  with \<open>\<not> log_path hb a b\<close> show False by (simp add: log_path.start)
qed

lemma log_path_end: "log_path hb p (log_end hb p)"
proof (induction p rule: log_induct [of hb])
  case (stop p)
  then show ?case by (simp add: log_stop log_path.start)
next
  case (step p t v)
  have "log_path hb q r \<Longrightarrow> rec_at hb p = Some (t, v) \<Longrightarrow> q = p + record_size (length v) \<Longrightarrow> log_path hb p r" for q r
    by (induction rule: log_path.induct) (auto intro: log_path.intros)
  with step log_step [OF step(1)] show ?case by simp
qed

lemma log_path_split:
  "log_path hb p q \<Longrightarrow> \<exists>pre. log_of hb p = pre @ log_of hb q \<and> log_end hb p = log_end hb q \<and>
     (\<forall>r \<in> set pre. fst r < q)"
proof (induction rule: log_path.induct)
  case (step p q t v)
  then obtain pre where pre: "log_of hb p = pre @ log_of hb q" "log_end hb p = log_end hb q" "\<forall>r \<in> set pre. fst r < q" by blast
  with log_step [OF step(2)] record_size_pos [of "length v"] show ?case
    by (intro exI [of _ "pre @ [(q, t, v)]"]) auto
qed auto

text \<open>The records of the log that start before \<open>q\<close>.\<close>

definition log_upto :: "bytes \<Rightarrow> nat \<Rightarrow> (nat \<times> u16 \<times> bytes) list" where
  "log_upto hb q = filter (\<lambda>r. fst r < q) (log_of hb 0)"

lemma log_upto_split:
  assumes "log_path hb 0 q"
  shows "log_of hb 0 = log_upto hb q @ log_of hb q" and "log_end hb q = log_end hb 0"
proof -
  from log_path_split [OF assms] obtain pre where
    pre: "log_of hb 0 = pre @ log_of hb q" "log_end hb 0 = log_end hb q" "\<forall>r \<in> set pre. fst r < q" by blast
  have "filter (\<lambda>r. fst r < q) (log_of hb q) = []"
    using log_of_mem [of _ hb q] by (auto simp: filter_empty_conv not_less)
  with pre have "log_upto hb q = pre" by (simp add: log_upto_def filter_id_conv)
  with pre show "log_of hb 0 = log_upto hb q @ log_of hb q" "log_end hb q = log_end hb 0" by simp_all
qed

lemma log_upto_0 [simp]: "log_upto hb 0 = []"
  by (simp add: log_upto_def)

lemma log_upto_step:
  assumes "log_path hb 0 q" and "rec_at hb q = Some (t, v)"
  shows "log_upto hb (q + record_size (length v)) = log_upto hb q @ [(q, t, v)]"
proof -
  note A = log_upto_split(1) [OF assms(1)] and B = log_upto_split(1) [OF log_path.step [OF assms]]
  from A B log_step [OF assms(2)] show ?thesis by simp
qed

lemma log_path_next:
  assumes "log_path hb 0 q" and "log_path hb 0 e" and "q < e"
  shows "\<exists>t v. rec_at hb q = Some (t, v) \<and> q + record_size (length v) \<le> e \<and> log_path hb 0 (q + record_size (length v))"
proof -
  from log_path_between [OF assms(1,2)] assms(3) have "log_path hb q e" by simp
  from log_path_first [OF this] assms(3) obtain t v where
    "rec_at hb q = Some (t, v)" "log_path hb (q + record_size (length v)) e" by auto
  with log_path_le log_path.step [OF assms(1)] show ?thesis by blast
qed

text \<open>Paths and prefixes survive a change past their end.\<close>

lemma log_path_agree:
  assumes "log_path hb 0 q" and "length hb' = length hb" and "\<And>i. i < q \<Longrightarrow> hb' ! i = hb ! i"
  shows "log_path hb' 0 q \<and> log_upto hb' q = log_upto hb q"
  using assms(1,3)
proof (induction "0 :: nat" q rule: log_path.induct)
  case start
  then show ?case by (simp add: log_path.start)
next
  case (step q t v)
  let ?n = "record_size (length v)"
  have IH: "log_path hb' 0 q" "log_upto hb' q = log_upto hb q" using step(2) step.prems by auto
  have fit: "q + ?n \<le> length hb" using rec_at_SomeD(3) [OF step(3)] .
  have "bslice q ?n hb = bslice q ?n hb'"
    using fit assms(2) step.prems by (intro nth_equalityI) (auto simp: nth_bslice)
  from rec_at_local [OF step(3) refl this] fit assms(2) have r: "rec_at hb' q = Some (t, v)" by simp
  from log_path.step [OF IH(1) r] log_upto_step [OF IH(1) r] log_upto_step [OF step(1,3)] IH(2) show ?case by simp
qed

section \<open>The pending flip against the cells\<close>

text \<open>The destination half: the records \<open>tvs\<close> packed up to \<open>wo\<close>, then \<open>rc\<close> bytes of the record at
  \<open>ro\<close> of the source, then blank cells.\<close>

definition fs_dst :: "nat \<Rightarrow> nat \<Rightarrow> bytes \<Rightarrow> nat \<Rightarrow> nat \<Rightarrow> nat \<Rightarrow> (u16 \<times> bytes) list \<Rightarrow> bytes \<Rightarrow> bool" where
  "fs_dst dst half hb wo ro rc tvs c \<longleftrightarrow>
     wo + rc \<le> half \<and> rc mod 4 = 0 \<and>
     packed dst half (zeroed (dst + wo) rc c) wo tvs (zeroed (dst + wo) rc c) \<and>
     bslice (dst + wo) rc c = bslice ro rc hb"

lemma zeroed_bsplice_next:
  assumes "off + (m + length xs) \<le> length c" and "\<And>i. i < length xs \<Longrightarrow> c ! (off + m + i) = 0"
  shows "zeroed off (m + length xs) (bsplice (off + m) xs c) = zeroed off m c"
  using assms(1)
proof (intro nth_equalityI)
  fix i assume i: "i < length (zeroed off (m + length xs) (bsplice (off + m) xs c))"
  have "off + m \<le> i \<Longrightarrow> i < off + m + length xs \<Longrightarrow> c ! i = 0" using assms(2) [of "i - (off + m)"] by simp
  with i assms(1) show "zeroed off (m + length xs) (bsplice (off + m) xs c) ! i = zeroed off m c ! i"
    by (auto simp: zeroed_def nth_bsplice)
qed simp

lemma packed_tail_zero:
  "packed dst half c0 wr tvs c \<Longrightarrow> wr \<le> i \<Longrightarrow> i < half \<Longrightarrow> c ! (dst + i) = 0"
  by (simp add: packed_def)

text \<open>One more chunk of the record under way.\<close>

lemma fs_dst_chunk:
  assumes F: "fs_dst dst half hb wo ro rc tvs c" and k: "k mod 4 = 0" "wo + (rc + k) \<le> half"
    and len: "dst + half \<le> length c" and src: "ro + (rc + k) \<le> length hb"
  shows "fs_dst dst half hb wo ro (rc + k) tvs (bsplice (dst + wo + rc) (bslice (ro + rc) k hb) c)"
proof -
  let ?xs = "bslice (ro + rc) k hb" and ?z = "zeroed (dst + wo) rc c"
  let ?c' = "bsplice (dst + wo + rc) ?xs c"
  have xs: "length ?xs = k" using src by simp
  have P: "packed dst half ?z wo tvs ?z" and eq: "bslice (dst + wo) rc c = bslice ro rc hb" and rc: "rc mod 4 = 0"
    using F by (auto simp: fs_dst_def)
  have in1: "dst + wo + (rc + length ?xs) \<le> length c" using xs k(2) len by simp
  have z: "c ! (dst + wo + rc + i) = 0" if "i < length ?xs" for i
  proof -
    have "?z ! (dst + (wo + rc + i)) = 0" using packed_tail_zero [OF P, of "wo + rc + i"] that xs k(2) by simp
    moreover have "?z ! (dst + (wo + rc + i)) = c ! (dst + (wo + rc + i))"
      using that xs k(2) len by (simp add: zeroed_def nth_bsplice)
    ultimately show ?thesis by (simp add: add.assoc)
  qed
  have Z: "zeroed (dst + wo) (rc + k) ?c' = ?z" using zeroed_bsplice_next [OF in1 z] xs by simp
  have "bslice (dst + wo) (rc + k) ?c' = bslice (dst + wo) rc ?c' @ bslice (dst + wo + rc) k ?c'"
    using in1 xs by (intro bslice_split) simp
  also have "bslice (dst + wo) rc ?c' = bslice ro rc hb"
    using eq in1 xs bslice_bsplice_disjoint [of "dst + wo + rc" ?xs c "dst + wo" rc] by simp
  also have "bslice (dst + wo + rc) k ?c' = ?xs"
    using bslice_bsplice_same [of "dst + wo + rc" ?xs c] in1 xs by simp
  also have "bslice ro rc hb @ ?xs = bslice ro (rc + k) hb" using src by (simp add: bslice_split)
  finally have "bslice (dst + wo) (rc + k) ?c' = bslice ro (rc + k) hb" .
  moreover have "(rc + k) mod 4 = 0" using rc k(1) by presburger
  ultimately show ?thesis using Z P k(2) by (simp add: fs_dst_def)
qed

text \<open>The record complete.\<close>

lemma fs_dst_done:
  assumes F: "fs_dst dst half hb wo ro n tvs c" and r: "rec_at hb ro = Some (t, v)" "n = record_size (length v)"
    and len: "dst + half \<le> length c"
  shows "fs_dst dst half hb (wo + n) ro' 0 (tvs @ [(t, v)]) c"
proof -
  let ?z = "zeroed (dst + wo) n c" and ?dat = "bslice ro n hb"
  have P: "packed dst half ?z wo tvs ?z" and eq: "bslice (dst + wo) n c = ?dat" and fit: "wo + n \<le> half"
    using F by (auto simp: fs_dst_def)
  have lz: "dst + half \<le> length ?z" using fit len by simp
  have dat: "length ?dat = n" using rec_at_SomeD(3) [OF r(1)] r(2) by simp
  have "bsplice (dst + wo) ?dat ?z = c"
    unfolding eq [symmetric] using fit len
    by (intro nth_equalityI) (auto simp: nth_bsplice zeroed_def nth_bslice)
  with packed_next [OF P r(1), of ?dat] r(2) fit lz
  have "packed dst half ?z (wo + n) (tvs @ [(t, v)]) c" by simp
  then have "packed dst half c (wo + n) (tvs @ [(t, v)]) c" by (simp add: packed_def)
  then show ?thesis using fit by (simp add: fs_dst_def)
qed

definition fs_ok :: "nat \<Rightarrow> flip_state \<Rightarrow> bytes \<Rightarrow> bool" where
  "fs_ok cap st c \<longleftrightarrow>
     (let h = fs_src_h st; half = half_len cap; hb = half_at cap h c; dst = half_base cap (1 - h);
          ro = fs_read_off st; rc = fs_rec_copied st; wo = fs_write_off st in
      active_of cap c = Some (h, fs_src_gen st) \<and>
      log_path hb 0 (fs_src_end st) \<and> walk_log (log_upto hb (fs_src_end st)) [] = Some (fs_latest st) \<and>
      log_path hb 0 ro \<and> ro \<le> fs_src_end st \<and> wo \<le> ro \<and> wo mod 4 = 0 \<and>
      fs_blank_off st mod 4 = 0 \<and> fs_blank_off st \<le> half \<and>
      (fs_blank_off st < half \<longrightarrow> ro = 0 \<and> rc = 0 \<and> wo = 0 \<and> (\<forall>i < fs_blank_off st. c ! (dst + i) = 0)) \<and>
      (fs_blank_off st = half \<longrightarrow>
         fs_dst dst half hb wo ro rc (map snd (filter (live (fs_latest st)) (log_upto hb ro))) c) \<and>
      (0 < rc \<longrightarrow> ro < fs_src_end st \<and>
         (\<exists>t v. rec_at hb ro = Some (t, v) \<and> live (fs_latest st) (ro, t, v) \<and> rc \<le> record_size (length v))))"

section \<open>Copying one record\<close>

lemma chunk_words:
  assumes "(sz :: nat) mod 4 = 0" and "sz \<le> U32_MAX" and "rc mod 4 = 0" and "rc < sz"
  shows "min (sz - rc) (min (budget * 4) U32_MAX) mod 4 = 0"
proof -
  have "(sz - rc) mod 4 = 0" using assms by presburger
  with assms(2) show ?thesis by (auto simp: min_def)
qed

text \<open>The specification of the inner loop, in the source half \<open>hb\<close> of cells \<open>c0\<close>.\<close>

lemma fs_copy_rec_spec:
  assumes L: "dst + half \<le> length c0" "src + half \<le> length c0" and al: "dst mod 4 = 0"
    and disj: "src + half \<le> dst \<or> dst + half \<le> src" and hb: "hb = bslice src half c0"
    and r: "rec_at hb ro = Some (t, v)" "sz = record_size (length v)"
    and wo: "wo + sz \<le> half" "wo mod 4 = 0"
  shows "clean d \<Longrightarrow> same_outside dst half c0 (ee_buf d) \<Longrightarrow> fs_read_off st = ro \<Longrightarrow> fs_write_off st = wo \<Longrightarrow>
     fs_rec_copied st \<le> sz \<Longrightarrow> fs_dst dst half hb wo ro (fs_rec_copied st) tvs (ee_buf d) \<Longrightarrow>
     crash_post fst
       (\<lambda>b (d', st'). same_outside dst half c0 (ee_buf d') \<and>
          (\<exists>k. st' = st\<lparr>fs_rec_copied := k\<rparr> \<and> fs_dst dst half hb wo ro k tvs (ee_buf d') \<and>
            (case b of None \<Rightarrow> k \<le> sz | Some _ \<Rightarrow> k = sz)))
       (\<lambda>e (d', st'). e = Backend \<and> same_outside dst half c0 (ee_buf d'))
       (d, st) (fs_copy_rec src dst sz budget d st)"
proof (induction "sz - fs_rec_copied st" arbitrary: budget d st rule: less_induct)
  case less
  note prems = less.prems
  let ?rc = "fs_rec_copied st"
  let ?Q = "\<lambda>st b (d', st'). same_outside dst half c0 (ee_buf d') \<and>
          (\<exists>k. st' = st\<lparr>fs_rec_copied := k\<rparr> \<and> fs_dst dst half hb wo ro k tvs (ee_buf d') \<and>
            (case b of None \<Rightarrow> k \<le> sz | Some _ \<Rightarrow> k = sz))"
  let ?C = "\<lambda>e (d', st'). e = Backend \<and> same_outside dst half c0 (ee_buf d')"
  have lc: "length (ee_buf d) = length c0" using prems(2) by (rule same_outside_length)
  have stay: "st = st\<lparr>fs_rec_copied := ?rc\<rparr>" by simp
  consider (full) "sz \<le> ?rc" | (spent) "?rc < sz" "budget = 0" | (go) "?rc < sz" "0 < budget" by linarith
  then show ?case
  proof cases
    case full
    then have "?Q st (Some budget) (d, st)" using prems stay by auto
    with full prems(1) show ?thesis by (simp add: fs_copy_rec.simps [of src dst sz budget d st] crash_post_def)
  next
    case spent
    then have "?Q st None (d, st)" using prems stay by (auto intro!: exI [of _ ?rc])
    with spent prems(1) show ?thesis by (simp add: fs_copy_rec.simps [of src dst sz 0 d st] crash_post_def)
  next
    case go
    have sz4: "sz mod 4 = 0" "sz \<le> U32_MAX"
      using r(2) record_size_bounds(2) rec_at_SomeD(2) [OF r(1)] record_size_mono [of "length v" 256]
      by (auto simp: MAX_VALUE_def record_size_def [of 256] KV_HEADER_def U32_MAX_def)
    have rc4: "?rc mod 4 = 0" using prems(6) by (simp add: fs_dst_def)
    define n where "n = min (sz - fs_rec_copied st) (min (budget * 4) U32_MAX)"
    define dat where "dat = bslice (ro + ?rc) n hb"
    have ch: "0 < n" "?rc + n \<le> sz" using go by (auto simp: n_def U32_MAX_def)
    have ch4: "n mod 4 = 0" unfolding n_def by (rule chunk_words [OF sz4 rc4 go(1)])
    have lhb: "length hb = half" using L(2) hb by simp
    have fit: "ro + sz \<le> half" using rec_at_SomeD(3) [OF r(1)] r(2) lhb by simp
    have "bslice (src + ro + ?rc) n (ee_buf d) = bslice (src + ro + ?rc) n c0"
      by (rule same_outside_bslice [OF prems(2)]) (use disj fit ch(2) L(2) in linarith)+
    also have "\<dots> = dat"
      using fit ch(2) L(2) unfolding hb dat_def by (subst bslice_bslice) (auto simp: add.assoc)
    finally have rd: "kv_read (src + fs_read_off st + ?rc) n d = (Inr dat, d)"
      using kv_read_ok [of "src + ro + ?rc" n d] prems(3) fit ch(2) L(2) lc by simp
    have ld: "length dat = n" using fit ch(2) lhb by (simp add: dat_def)
    have in1: "dst + wo + ?rc + length dat \<le> length (ee_buf d)" using ld ch(2) wo(1) L(1) lc by linarith
    obtain w d2 where wr: "kv_write (dst + wo + ?rc) dat d = (w, d2)" by fastforce
    have "(dst + wo + ?rc) mod 4 = 0" using al wo(2) rc4 by presburger
    note W = kv_write_words [OF this ch4 [folded ld] in1 prems(1) wr]
    have sub: "same_outside (dst + wo + ?rc) n (ee_buf d) c \<Longrightarrow> same_outside dst half c0 c" for c
      using same_outside_trans [OF prems(2)] wo(1) ch(2) by simp
    have run: "fs_copy_rec src dst sz budget d st = (case w of Inl e \<Rightarrow> (Inl e, (d2, st))
        | Inr _ \<Rightarrow> fs_copy_rec src dst sz (budget - words n) d2 (st\<lparr>fs_rec_copied := ?rc + n\<rparr>))"
      using go rd wr prems(3,4)
      by (subst fs_copy_rec.simps) (simp add: Let_def n_def [symmetric] split: sum.splits)
    show ?thesis
    proof (cases w)
      case (Inl e)
      with W have E: "e = Backend" "clean d2" "ee_unaligned d2 = ee_unaligned d" "ee_dead d2"
        "torn (dst + wo + ?rc) dat (ee_buf d) (ee_buf d2)" "\<not> healthy d" by auto
      have "same_outside dst half c0 (ee_buf d2)" using same_outside_torn [OF E(5) in1] ld sub by simp
      with E(1-4,6) Inl run show ?thesis by (simp add: crash_post_def)
    next
      case (Inr u)
      with W have d2: "clean d2" "ee_unaligned d2 = ee_unaligned d" "healthy d \<longrightarrow> healthy d2"
        "ee_buf d2 = bsplice (dst + wo + ?rc) dat (ee_buf d)" by auto
      let ?st2 = "st\<lparr>fs_rec_copied := ?rc + n\<rparr>"
      have out: "same_outside dst half c0 (ee_buf d2)"
        using sub [of "ee_buf d2"] same_outside_bsplice [OF in1] ld d2(4) by simp
      have F2: "fs_dst dst half hb wo ro (?rc + n) tvs (ee_buf d2)"
        unfolding d2(4) dat_def by (rule fs_dst_chunk [OF prems(6) ch4]) (use wo(1) ch(2) L(1) lc fit lhb in auto)
      have IH: "crash_post fst (?Q ?st2) ?C (d2, ?st2) (fs_copy_rec src dst sz (budget - words n) d2 ?st2)"
        by (rule less.hyps) (use ch go(1) d2(1) out prems(3,4) F2 in auto)
      have "crash_post fst (?Q st) ?C (d2, ?st2) (fs_copy_rec src dst sz (budget - words n) d2 ?st2)"
        using IH by (auto simp: crash_post_def split: sum.splits)
      then have "crash_post fst (?Q st) ?C (d, st) (fs_copy_rec src dst sz (budget - words n) d2 ?st2)"
        using d2(1-3) unfolding crash_post_def by simp
      then show ?thesis using run Inr by simp
    qed
  qed
qed

section \<open>The copying pass\<close>

lemma fs_okD:
  assumes "fs_ok cap st c"
  defines "hb \<equiv> half_at cap (fs_src_h st) c" and "dst \<equiv> half_base cap (1 - fs_src_h st)"
  shows "active_of cap c = Some (fs_src_h st, fs_src_gen st)" and "log_path hb 0 (fs_src_end st)"
    and "walk_log (log_upto hb (fs_src_end st)) [] = Some (fs_latest st)" and "log_path hb 0 (fs_read_off st)"
    and "fs_read_off st \<le> fs_src_end st" and "fs_write_off st \<le> fs_read_off st" and "fs_write_off st mod 4 = 0"
    and "fs_blank_off st mod 4 = 0" and "fs_blank_off st \<le> half_len cap"
    and "fs_blank_off st < half_len cap \<Longrightarrow> fs_read_off st = 0 \<and> fs_rec_copied st = 0 \<and> fs_write_off st = 0 \<and>
      (\<forall>i < fs_blank_off st. c ! (dst + i) = 0)"
    and "fs_blank_off st = half_len cap \<Longrightarrow> fs_dst dst (half_len cap) hb (fs_write_off st) (fs_read_off st) (fs_rec_copied st)
      (map snd (filter (live (fs_latest st)) (log_upto hb (fs_read_off st)))) c"
    and "0 < fs_rec_copied st \<Longrightarrow> fs_read_off st < fs_src_end st \<and> (\<exists>t v. rec_at hb (fs_read_off st) = Some (t, v) \<and>
      live (fs_latest st) (fs_read_off st, t, v) \<and> fs_rec_copied st \<le> record_size (length v))"
  using assms(1) by (auto simp: fs_ok_def Let_def hb_def dst_def)

text \<open>The result of a turn as a result of the monad: \<open>Inl b\<close> leaves the loop, \<open>Inr n\<close> goes on.\<close>

definition turn_res :: "((kv_error + bool) + nat) \<times> 's \<Rightarrow> (kv_error + (bool + nat)) \<times> 's" where
  "turn_res x = (case x of (Inl (Inl e), s) \<Rightarrow> (Inl e, s) | (Inl (Inr b), s) \<Rightarrow> (Inr (Inl b), s) | (Inr n, s) \<Rightarrow> (Inr (Inr n), s))"

lemma turn_res_simps [simp]:
  "turn_res (Inl (Inl e), s) = (Inl e, s)" "turn_res (Inl (Inr b), s) = (Inr (Inl b), s)" "turn_res (Inr n, s) = (Inr (Inr n), s)"
  by (simp_all add: turn_res_def)

definition slice_ok :: "nat \<Rightarrow> bytes \<Rightarrow> nat \<Rightarrow> flip_state \<Rightarrow> bytes \<Rightarrow> bool" where
  "slice_ok cap c0 h st c \<longleftrightarrow> same_outside (half_base cap (1 - h)) (half_len cap) c0 c \<and> fs_ok cap st c \<and> fs_src_h st = h"

lemma fs_turn_spec:
  assumes wf: "kv_wf cap (ee_buf d)" and F: "fs_ok cap st (ee_buf d)" and b: "fs_blank_off st = half_len cap"
    and cl: "clean d"
  defines "h \<equiv> fs_src_h st"
  shows "crash_post fst
      (\<lambda>x (d', st'). slice_ok cap (ee_buf d) h st' (ee_buf d') \<and> fs_blank_off st' = half_len cap \<and>
         fs_src_end st' = fs_src_end st \<and> (x = Inl False \<longrightarrow> fs_read_off st' = fs_src_end st'))
      (\<lambda>e (d', st'). e = Backend \<and> same_outside (half_base cap (1 - h)) (half_len cap) (ee_buf d) (ee_buf d'))
      (d, st) (turn_res (fs_turn (half_base cap h) (half_base cap (1 - h)) (half_len cap) budget d st))"
proof (cases "fs_read_off st < fs_src_end st")
  case False
  then have "fs_read_off st = fs_src_end st" using fs_okD(5) [OF F] by simp
  with False F b cl show ?thesis by (simp add: fs_turn_def crash_post_def slice_ok_def h_def)
next
  case True
  let ?c = "ee_buf d" and ?half = "half_len cap" and ?src = "half_base cap h" and ?dst = "half_base cap (1 - h)"
  let ?hb = "half_at cap h ?c" and ?ro = "fs_read_off st" and ?wo = "fs_write_off st" and ?rc = "fs_rec_copied st"
  let ?tvs = "\<lambda>ro. map snd (filter (live (fs_latest st)) (log_upto ?hb ro))"
  note D = fs_okD [OF F, folded h_def]
  note L = kv_wfD(1) [OF wf] and h = active_of_half [OF D(1)]
  have h1: "1 - h \<le> 1" by simp
  note Hs = layout_half [OF L h] and Hd = layout_half [OF L h1] and disj = layout_disjoint(1) [OF L h]
  from log_path_next [OF D(4,2) True] obtain t v where r: "rec_at ?hb ?ro = Some (t, v)"
    and nx: "?ro + record_size (length v) \<le> fs_src_end st" "log_path ?hb 0 (?ro + record_size (length v))" by blast
  let ?sz = "record_size (length v)"
  note R = rec_at_SomeD [OF r]
  have rd: "kv_read (?src + ?ro) KV_HEADER d = (Inr (bslice ?ro KV_HEADER ?hb), d)"
    using kv_read_ok [of "?src + ?ro" KV_HEADER d] R(4) Hs by (simp add: half_at_def bslice_bslice)
  have lv: "(t, ?ro) \<notin> set (fs_latest st) \<or> length v = 0 \<longleftrightarrow> \<not> live (fs_latest st) (?ro, t, v)"
    by (auto simp: live_def)
  have up: "log_upto ?hb (?ro + ?sz) = log_upto ?hb ?ro @ [(?ro, t, v)]" by (rule log_upto_step [OF D(4) r])
  have wo: "?wo + ?sz \<le> ?half" using D(6) R(3) Hs(4) by simp
  have n4: "(?wo + ?sz) mod 4 = 0" using D(7) record_size_bounds(2) [of "length v"] by presburger
  show ?thesis
  proof (cases "live (fs_latest st) (?ro, t, v)")
    case False
    let ?st' = "st\<lparr>fs_read_off := ?ro + ?sz\<rparr>"
    have rc0: "?rc = 0" using D(12) False r by auto
    have "fs_dst ?dst ?half ?hb ?wo (?ro + ?sz) 0 (?tvs (?ro + ?sz)) ?c"
      using D(11) [OF b] False up rc0 by (simp add: fs_dst_def)
    then have "fs_ok cap ?st' ?c"
      using D nx b rc0 by (auto simp: fs_ok_def Let_def h_def [symmetric] trans_le_add1)
    moreover have "fs_turn ?src ?dst ?half budget d st = (Inr budget, (d, ?st'))"
      using True rd R(1,5,6) False lv by (simp add: fs_turn_def Let_def)
    ultimately show ?thesis using cl b by (simp add: crash_post_def slice_ok_def h_def)
  next
    case True': True
    let ?Q = "\<lambda>b (d', st'). same_outside ?dst ?half ?c (ee_buf d') \<and>
          (\<exists>k. st' = st\<lparr>fs_rec_copied := k\<rparr> \<and> fs_dst ?dst ?half ?hb ?wo ?ro k (?tvs ?ro) (ee_buf d') \<and>
            (case b of None \<Rightarrow> k \<le> ?sz | Some _ \<Rightarrow> k = ?sz))"
    have rcs: "?rc \<le> ?sz" using D(12) r by (cases "?rc = 0") auto
    have "crash_post fst ?Q (\<lambda>e (d', st'). e = Backend \<and> same_outside ?dst ?half ?c (ee_buf d')) (d, st)
        (fs_copy_rec ?src ?dst ?sz budget d st)"
      by (rule fs_copy_rec_spec [OF Hd(2) Hs(2) Hd(3) disj half_at_def r refl wo D(7) cl])
        (use rcs D(11) [OF b] in auto)
    moreover obtain x d2 st2 where run: "fs_copy_rec ?src ?dst ?sz budget d st = (x, (d2, st2))" by (metis prod.exhaust)
    ultimately have X: "crash_post fst ?Q (\<lambda>e (d', st'). e = Backend \<and> same_outside ?dst ?half ?c (ee_buf d')) (d, st) (x, (d2, st2))"
      by simp
    have turn: "fs_turn ?src ?dst ?half budget d st = (case x of Inl e \<Rightarrow> (Inl (Inl e), (d2, st2))
        | Inr None \<Rightarrow> (Inl (Inr True), (d2, st2))
        | Inr (Some b') \<Rightarrow> (Inr b', (d2, st2\<lparr>fs_rec_copied := 0, fs_read_off := fs_read_off st2 + ?sz,
              fs_write_off := fs_write_off st2 + ?sz\<rparr>)))"
      using True rd R(1,5,6) True' lv run wo by (simp add: fs_turn_def Let_def split: sum.splits option.splits)
    have same: "active_of cap (ee_buf d2) = active_of cap ?c \<and> half_at cap h (ee_buf d2) = ?hb"
      if "same_outside ?dst ?half ?c (ee_buf d2)"
      using dead_half_frame(2,3) [OF wf D(1) that] D(1) by simp
    have ld: "?dst + ?half \<le> length (ee_buf d2)" if "same_outside ?dst ?half ?c (ee_buf d2)"
      using same_outside_length [OF that] Hd(2) by simp
    show ?thesis
    proof (cases x)
      case (Inl e)
      with X turn show ?thesis by (auto simp: crash_post_def)
    next
      case (Inr ob)
      with X have out: "same_outside ?dst ?half ?c (ee_buf d2)" and st2: "\<exists>k. st2 = st\<lparr>fs_rec_copied := k\<rparr> \<and>
          fs_dst ?dst ?half ?hb ?wo ?ro k (?tvs ?ro) (ee_buf d2) \<and> (case ob of None \<Rightarrow> k \<le> ?sz | Some _ \<Rightarrow> k = ?sz)"
        by (auto simp: crash_post_def)
      from st2 obtain k where k: "st2 = st\<lparr>fs_rec_copied := k\<rparr>" "fs_dst ?dst ?half ?hb ?wo ?ro k (?tvs ?ro) (ee_buf d2)"
        "case ob of None \<Rightarrow> k \<le> ?sz | Some _ \<Rightarrow> k = ?sz" by blast
      note S = same [OF out]
      show ?thesis
      proof (cases ob)
        case None
        then have "fs_ok cap st2 (ee_buf d2)"
          using D k S b True True' r by (auto simp: fs_ok_def Let_def h_def [symmetric])
        then show ?thesis using X Inr None turn out k(1) b by (auto simp: crash_post_def slice_ok_def h_def)
      next
        case (Some b')
        let ?st' = "st2\<lparr>fs_rec_copied := 0, fs_read_off := fs_read_off st2 + ?sz, fs_write_off := fs_write_off st2 + ?sz\<rparr>"
        have "fs_dst ?dst ?half ?hb (?wo + ?sz) (?ro + ?sz) 0 (?tvs ?ro @ [(t, v)]) (ee_buf d2)"
          by (rule fs_dst_done [OF _ r refl ld [OF out]]) (use k Some in simp)
        then have "fs_ok cap ?st' (ee_buf d2)"
          using D k(1) S b nx up True' n4 by (auto simp: fs_ok_def Let_def h_def [symmetric])
        then show ?thesis using X Inr Some turn out k(1) b by (auto simp: crash_post_def slice_ok_def h_def)
      qed
    qed
  qed
qed

text \<open>The result of a slice: the destination half alone has changed, and the plan still describes it.\<close>

definition slice_post :: "nat \<Rightarrow> bytes \<Rightarrow> flip_state \<Rightarrow> bool \<Rightarrow> eeprom \<times> flip_state \<Rightarrow> bool" where
  "slice_post cap c0 st again s \<longleftrightarrow> slice_ok cap c0 (fs_src_h st) (snd s) (ee_buf (fst s)) \<and>
     (\<not> again \<longrightarrow> fs_blank_off (snd s) = half_len cap \<and> fs_read_off (snd s) = fs_src_end (snd s))"

definition slice_cut :: "nat \<Rightarrow> bytes \<Rightarrow> flip_state \<Rightarrow> kv_error \<Rightarrow> eeprom \<times> flip_state \<Rightarrow> bool" where
  "slice_cut cap c0 st e s \<longleftrightarrow>
     e = Backend \<and> same_outside (half_base cap (1 - fs_src_h st)) (half_len cap) c0 (ee_buf (fst s))"

lemma slice_okD:
  assumes "slice_ok cap c0 h st c"
  shows "same_outside (half_base cap (1 - h)) (half_len cap) c0 c" and "fs_ok cap st c" and "fs_src_h st = h"
  using assms by (simp_all add: slice_ok_def)

lemma slice_wf:
  assumes "kv_wf cap c0" and "active_of cap c0 = Some (h, g)" and "slice_ok cap c0 h st c"
  shows "kv_wf cap c" and "active_of cap c = Some (h, g)" and "fs_src_gen st = g"
  using dead_half_frame [OF assms(1,2) slice_okD(1) [OF assms(3)]] fs_okD(1) [OF slice_okD(2) [OF assms(3)]] slice_okD(3) [OF assms(3)]
  by auto

text \<open>Slices compose.\<close>

lemma slice_trans:
  assumes "slice_ok cap c0 (fs_src_h st) st1 c1" and "slice_post cap c1 st1 again s"
  shows "slice_post cap c0 st again s"
  using assms same_outside_trans by (fastforce simp: slice_post_def slice_ok_def)

lemma slice_cut_trans:
  assumes "slice_ok cap c0 (fs_src_h st) st1 c1" and "slice_cut cap c1 st1 e s"
  shows "slice_cut cap c0 st e s"
  using assms same_outside_trans by (fastforce simp: slice_cut_def slice_ok_def)

lemma crash_post_slices:
  assumes "crash_post fst (slice_post cap c1 st1) (slice_cut cap c1 st1) (d1, st1) rs"
    and "slice_ok cap c0 (fs_src_h st) st1 c1"
    and "ee_unaligned d1 = ee_unaligned d" and "healthy d \<longrightarrow> healthy d1"
  shows "crash_post fst (slice_post cap c0 st) (slice_cut cap c0 st) (d, st) rs"
  using assms slice_trans [OF assms(2)] slice_cut_trans [OF assms(2)]
  by (auto simp: crash_post_def split: sum.splits)

lemma fs_copy_spec:
  "kv_wf cap (ee_buf d) \<Longrightarrow> fs_ok cap st (ee_buf d) \<Longrightarrow> fs_blank_off st = half_len cap \<Longrightarrow> clean d \<Longrightarrow>
   crash_post fst (slice_post cap (ee_buf d) st) (slice_cut cap (ee_buf d) st) (d, st)
     (fs_copy (half_base cap (fs_src_h st)) (half_base cap (1 - fs_src_h st)) (half_len cap) budget d st)"
proof (induction "fs_src_end st - fs_read_off st" arbitrary: budget d st rule: less_induct)
  case less
  let ?src = "half_base cap (fs_src_h st)" and ?dst = "half_base cap (1 - fs_src_h st)" and ?half = "half_len cap"
  obtain t d1 st1 where turn: "fs_turn ?src ?dst ?half budget d st = (t, (d1, st1))" by (metis prod.exhaust)
  note T = fs_turn_spec [OF less.prems, of budget, unfolded turn]
  have run: "fs_copy ?src ?dst ?half budget d st = (case t of Inl r \<Rightarrow> (r, (d1, st1)) | Inr b \<Rightarrow> fs_copy ?src ?dst ?half b d1 st1)"
    using turn by (subst fs_copy.simps) (simp split: sum.splits)
  show ?case
  proof (cases t)
    case (Inl r)
    then show ?thesis using T run by (cases r) (auto simp: crash_post_def slice_post_def slice_cut_def)
  next
    case (Inr b)
    with T have S: "slice_ok cap (ee_buf d) (fs_src_h st) st1 (ee_buf d1)" and b1: "fs_blank_off st1 = ?half"
      and c1: "clean d1" "ee_unaligned d1 = ee_unaligned d" "healthy d \<longrightarrow> healthy d1"
      by (auto simp: crash_post_def)
    have lt: "fs_src_end st1 - fs_read_off st1 < fs_src_end st - fs_read_off st"
      using fs_turn_continue [of ?src ?dst ?half budget d st b d1 st1] turn Inr by simp
    have h1: "fs_src_h st1 = fs_src_h st" by (rule slice_okD(3) [OF S])
    note wf1 = slice_wf(1) [OF less.prems(1) fs_okD(1) [OF less.prems(2)] S]
    from less.hyps [OF lt wf1 slice_okD(2) [OF S] b1 c1(1), of b] show ?thesis
      unfolding run Inr h1 using crash_post_slices [OF _ S c1(2,3)] by simp
  qed
qed

section \<open>A slice\<close>

lemma blank_words_aligned:
  "blank_words at chunk w budget d = (Inr (Inl p), d') \<Longrightarrow> w mod 4 = 0 \<Longrightarrow> length chunk mod 4 = 0 \<Longrightarrow> p mod 4 = 0"
proof (induction at chunk w budget arbitrary: d rule: blank_words.induct)
  case (1 at chunk w budget)
  let ?dirty = "\<exists>b \<in> set (bslice w 4 chunk). b \<noteq> 0"
  have w: "w < length chunk" using "1.prems"(1) by (auto simp: blank_words.simps [of at chunk w budget] split: if_splits)
  have wn: "min (length chunk - w) 4 = 4" using w "1.prems"(2,3) by presburger
  have w4: "(w + 4) mod 4 = 0" using "1.prems"(2) by simp
  consider "?dirty" "budget = 0" | "?dirty" "0 < budget" | "\<not> ?dirty" by blast
  then show ?case
  proof cases
    case 1
    with "1.prems" w wn show ?thesis by (simp add: blank_words.simps [of at chunk w 0] Let_def)
  next
    case 2
    with "1.prems"(1) w wn obtain u d1 where "kv_write (at + w) (replicate 4 0) d = (Inr u, d1)"
      and n: "blank_words at chunk (w + 4) (budget - 1) d1 = (Inr (Inl p), d')"
      by (auto simp: blank_words.simps [of at chunk w budget] Let_def kv_then_Inr_iff)
    from "1.IH"(1) [OF w refl, unfolded wn, OF 2(1) _ n w4 "1.prems"(3)] 2(2) show ?thesis by simp
  next
    case 3
    with "1.prems"(1) w wn have n: "blank_words at chunk (w + 4) budget d = (Inr (Inl p), d')"
      by (simp add: blank_words.simps [of at chunk w budget] Let_def)
    from "1.IH"(2) [OF w refl, unfolded wn, OF 3 n w4 "1.prems"(3)] show ?thesis .
  qed
qed

lemma blank_loop_aligned:
  "blank_loop base len p budget d = (Inr (q, b), d') \<Longrightarrow> p mod 4 = 0 \<Longrightarrow> len mod 4 = 0 \<Longrightarrow> q mod 4 = 0"
proof (induction base len p budget arbitrary: d rule: blank_loop.induct)
  case (1 base len p budget)
  show ?case
  proof (cases "p < len")
    case False
    with "1.prems" show ?thesis by (simp add: blank_loop.simps [of base len p budget])
  next
    case True
    define n where "n = min (len - p) 64"
    have n4: "n mod 4 = 0" "(p + n) mod 4 = 0"
      using True "1.prems"(2,3) by (auto simp: n_def min_def)
    from True "1.prems"(1) obtain chunk r d1 d2 where rd: "kv_read (base + p) n d = (Inr chunk, d1)"
      and bw: "blank_words (base + p) chunk 0 budget d1 = (Inr r, d2)"
      and res: "(case r of Inl w \<Rightarrow> kv_return (p + w, 0) | Inr b \<Rightarrow> blank_loop base len (p + n) b) d2 = (Inr (q, b), d')"
      by (subst (asm) blank_loop.simps) (auto simp: Let_def kv_bind_Inr_iff n_def [symmetric])
    have len: "length chunk = n" using rd by (auto simp: kv_read_def ee_read_def split: if_splits)
    show ?thesis
    proof (cases r)
      case (Inl w)
      with blank_words_aligned [of "base + p" chunk 0 budget d1 w d2] bw n4 len have "w mod 4 = 0" by simp
      with Inl res "1.prems"(2) show ?thesis by (auto simp: mod_add_eq [symmetric, of p])
    next
      case (Inr b1)
      with res have "blank_loop base len (p + n) b1 d2 = (Inr (q, b), d')" by simp
      from "1.IH" [OF True n_def this n4(2) "1.prems"(3)] show ?thesis .
    qed
  qed
qed

lemma packed_blank:
  assumes "\<And>i. i < half \<Longrightarrow> c ! (dst + i) = 0" and "dst + half \<le> length c"
  shows "packed dst half c 0 [] c"
proof -
  have "bslice dst half c = replicate half 0" using assms by (intro nth_equalityI) (auto simp: nth_bslice)
  then have "zeroed dst half c = c" using assms(2) by (simp add: zeroed_blank)
  with packed_zeroed [OF assms(2)] show ?thesis by simp
qed

text \<open>The plan after its blanking moved on to \<open>p\<close>.\<close>

lemma fs_ok_blank:
  assumes wf: "kv_wf cap c0" and F: "fs_ok cap st c0" and lt: "fs_blank_off st < half_len cap"
    and p: "fs_blank_off st \<le> p" "p \<le> half_len cap" "p mod 4 = 0"
  defines "dst \<equiv> half_base cap (1 - fs_src_h st)"
  defines "c \<equiv> zeroed (dst + fs_blank_off st) (p - fs_blank_off st) c0"
  shows "slice_ok cap c0 (fs_src_h st) (st\<lparr>fs_blank_off := p\<rparr>) c"
proof -
  note D = fs_okD [OF F]
  note L = kv_wfD(1) [OF wf] and h = active_of_half [OF D(1)]
  have h1: "1 - fs_src_h st \<le> 1" by simp
  note Hd = layout_half [OF L h1]
  have in1: "dst + fs_blank_off st + (p - fs_blank_off st) \<le> length c0" using Hd(2) p by (simp add: dst_def)
  have out: "same_outside dst (half_len cap) c0 c"
    unfolding c_def by (rule same_outside_mono [OF same_outside_zeroed [OF in1]]) (use p in auto)
  note Fr = dead_half_frame [OF wf D(1) out [unfolded dst_def]]
  have z: "c ! (dst + i) = 0" if "i < p" for i
    using that D(10) [OF lt] in1 p(1) unfolding c_def zeroed_def dst_def by (auto simp: nth_bsplice)
  have lc: "dst + half_len cap \<le> length c" using same_outside_length [OF out] Hd(2) by (simp add: dst_def)
  have full: "fs_dst (half_base cap (1 - fs_src_h st)) (half_len cap) (half_at cap (fs_src_h st) c0) 0 0 0 [] c" if "p = half_len cap"
    using packed_blank [of "half_len cap" c dst] z that lc by (simp add: fs_dst_def bslice_def dst_def)
  have "fs_ok cap (st\<lparr>fs_blank_off := p\<rparr>) c"
    using D(1-9) D(10) [OF lt] Fr(2,3) p z full by (simp add: fs_ok_def Let_def dst_def)
  then show ?thesis using out by (simp add: slice_ok_def dst_def)
qed

lemma flip_step_spec:
  assumes wf: "kv_wf cap (ee_buf d)" and F: "fs_ok cap st (ee_buf d)" and cl: "clean d"
  shows "crash_post fst (slice_post cap (ee_buf d) st) (slice_cut cap (ee_buf d) st) (d, st) (flip_step cap budget (d, st))"
proof -
  note D = fs_okD [OF F]
  note L = kv_wfD(1) [OF wf] and h = active_of_half [OF D(1)]
  have h1: "1 - fs_src_h st \<le> 1" by simp
  note Hd = layout_half [OF L h1]
  let ?half = "half_len cap" and ?src = "half_base cap (fs_src_h st)" and ?dst = "half_base cap (1 - fs_src_h st)"
  have fresh: "flip_fresh cap st d = (Inr True, d)" using active_ok [OF L] D(1) by (simp add: flip_fresh_def kv_bind_def)
  show ?thesis
  proof (cases "fs_blank_off st < ?half")
    case False
    then have b: "fs_blank_off st = ?half" using D(9) by simp
    have "flip_step cap budget (d, st) = fs_copy ?src ?dst ?half budget d st"
      using fresh False by (simp add: flip_step_def kv_bind_def kv_ram_def on_dev_def Let_def)
    then show ?thesis using fs_copy_spec [OF wf F b cl] by simp
  next
    case True
    let ?off = "fs_blank_off st"
    obtain r d1 where bl: "blank_loop ?dst ?half ?off budget d = (r, d1)" by fastforce
    have "crash_post the_dev (\<lambda>x d. span_post ?dst ?half ?off budget (ee_buf d0) x (ee_buf d))
        (\<lambda>e d. e = Backend \<and> blanked_part (?dst + ?off) (?half - ?off) (ee_buf d0) (ee_buf d)) d (r, d1)" if "d0 = d" for d0
      using crash_specD [OF crash_blank_loop [OF Hd(3) layout_facts(6) [OF L] D(8,9) Hd(2)], of d budget] cl bl that
      by (simp add: the_dev_def)
    from this [OF refl] have B: "crash_post the_dev (\<lambda>x d'. span_post ?dst ?half ?off budget (ee_buf d) x (ee_buf d'))
        (\<lambda>e d'. e = Backend \<and> blanked_part (?dst + ?off) (?half - ?off) (ee_buf d) (ee_buf d')) d (r, d1)" .
    note B' = crash_postD [OF B, unfolded the_dev_def]
    show ?thesis
    proof (cases r)
      case (Inl e)
      have "same_outside ?dst ?half (ee_buf d) (ee_buf d1)"
        by (rule same_outside_mono [OF blanked_part_same [of "?dst + ?off" "?half - ?off"]]) (use B'(7) [OF Inl] Hd(2) D(9) in auto)
      moreover have "flip_step cap budget (d, st) = (Inl e, (d1, st))"
        using fresh True bl Inl by (simp add: flip_step_def kv_bind_def kv_ram_def on_dev_def Let_def blank_step_span_def)
      ultimately show ?thesis using B' Inl by (auto simp: crash_post_def slice_cut_def)
    next
      case (Inr pb)
      obtain p b where pb: "pb = (p, b)" by fastforce
      let ?st = "st\<lparr>fs_blank_off := p\<rparr>"
      have p: "?off \<le> p" "p \<le> ?half" and c1: "ee_buf d1 = zeroed (?dst + ?off) (p - ?off) (ee_buf d)"
        using B'(6) [OF Inr] pb by (auto simp: span_post_def)
      have p4: "p mod 4 = 0" using blank_loop_aligned [OF _ D(8) layout_facts(6) [OF L]] bl Inr pb by blast
      have S: "slice_ok cap (ee_buf d) (fs_src_h st) ?st (ee_buf d1)"
        unfolding c1 by (rule fs_ok_blank [OF wf F True p p4])
      have run: "flip_step cap budget (d, st) = (if p < ?half then (Inr True, (d1, ?st)) else fs_copy ?src ?dst ?half b d1 ?st)"
        using fresh True bl Inr pb
        by (simp add: flip_step_def kv_bind_def kv_then_def kv_ram_def kv_modify_ram_def on_dev_def Let_def blank_step_span_def)
      show ?thesis
      proof (cases "p < ?half")
        case True
        then show ?thesis using run S B' Inr by (simp add: crash_post_def slice_post_def)
      next
        case False
        then have "fs_blank_off ?st = ?half" using p(2) by simp
        from fs_copy_spec [OF slice_wf(1) [OF wf D(1) S] slice_okD(2) [OF S] this B'(1), of b]
        show ?thesis using crash_post_slices [OF _ S B'(2)] B'(3) run False by simp
      qed
    qed
  qed
qed

lemma flip_drive_spec:
  "kv_wf cap (ee_buf d) \<Longrightarrow> fs_ok cap st (ee_buf d) \<Longrightarrow> clean d \<Longrightarrow>
   crash_post fst (\<lambda>_. slice_post cap (ee_buf d) st False) (slice_cut cap (ee_buf d) st) (d, st) (flip_drive cap d st)"
proof (induction cap d st rule: flip_drive.induct)
  case (1 cap d st)
  obtain r d1 st1 where step: "flip_step cap U32_MAX (d, st) = (r, (d1, st1))" by (metis prod.exhaust)
  note S = flip_step_spec [OF "1.prems", of U32_MAX, unfolded step]
  note S' = crash_postD [OF S, unfolded fst_conv]
  show ?case
  proof (cases "r = Inr True")
    case False
    then show ?thesis using S step by (cases r) (auto simp: flip_drive.simps [of cap d st] crash_post_def)
  next
    case True
    have O: "slice_ok cap (ee_buf d) (fs_src_h st) st1 (ee_buf d1)" using S'(6) [OF True] by (simp add: slice_post_def)
    note wf1 = slice_wf(1) [OF "1.prems"(1) fs_okD(1) [OF "1.prems"(2)] O]
    from "1.IH" [OF step [symmetric] True refl _ wf1 slice_okD(2) [OF O] S'(1)]
    have "crash_post fst (\<lambda>_. slice_post cap (ee_buf d1) st1 False) (slice_cut cap (ee_buf d1) st1) (d1, st1) (flip_drive cap d1 st1)"
      by simp
    moreover have "flip_drive cap d st = flip_drive cap d1 st1" using step True by (simp add: flip_drive.simps [of cap d st])
    ultimately show ?thesis using S'(2,3) slice_trans [OF O] slice_cut_trans [OF O] by (auto simp: crash_post_def split: sum.splits)
  qed
qed

section \<open>The commit\<close>

lemma tail_turn:
  assumes rd: "\<And>q m. q + m \<le> half \<Longrightarrow> kv_read (src + q) m d = (Inr (bslice q m hb), d)" and lhb: "length hb = half"
  shows "tail_loop src dst half p wr d =
     (case rec_at hb p of None \<Rightarrow> (Inr (), d)
      | Some (t, v) \<Rightarrow> if wr + record_size (length v) > half then (Inl Full, d)
          else kv_then (kv_write (dst + wr) (bslice p (record_size (length v)) hb))
            (tail_loop src dst half (p + record_size (length v)) (wr + record_size (length v))) d)"
proof (cases "p + KV_HEADER > half")
  case True
  then show ?thesis using lhb by (simp add: tail_loop.simps [of src dst half p wr] rec_at_def)
next
  case False
  let ?hdr = "bslice p KV_HEADER hb"
  let ?len = "hdr_len ?hdr"
  let ?n = "record_size ?len"
  have r1: "kv_read (src + p) KV_HEADER d = (Inr ?hdr, d)" using rd [of p KV_HEADER] False by simp
  have start: "tail_loop src dst half p wr d =
    (if hdr_tag ?hdr = 0 \<or> ?len > MAX_VALUE \<or> p + ?n > half then (Inr (), d)
     else kv_bind (kv_read (src + p + KV_HEADER) (?n - KV_HEADER)) (\<lambda>body.
       if entry_crc (take 4 ?hdr) (take ?len body) \<noteq> hdr_crc ?hdr then kv_return ()
       else if wr + ?n > half then kv_raise Full
       else kv_then (kv_write (dst + wr) (?hdr @ body)) (tail_loop src dst half (p + ?n) (wr + ?n))) d)"
    using False r1 by (subst tail_loop.simps) (simp add: kv_bind_def [of "kv_read (src + p) KV_HEADER"] Let_def)
  show ?thesis
  proof (cases "hdr_tag ?hdr = 0 \<or> ?len > MAX_VALUE \<or> p + ?n > half")
    case True
    then have "rec_at hb p = None" using lhb by (auto simp: rec_at_def Let_def)
    with True start show ?thesis by simp
  next
    case F2: False
    have hn: "KV_HEADER + ?len \<le> ?n" by (rule record_size_bounds(1))
    let ?body = "bslice (p + KV_HEADER) (?n - KV_HEADER) hb"
    have r2: "kv_read (src + p + KV_HEADER) (?n - KV_HEADER) d = (Inr ?body, d)"
      using rd [of "p + KV_HEADER" "?n - KV_HEADER"] F2 hn by (simp add: add.assoc)
    have tk: "take ?len ?body = bslice (p + KV_HEADER) ?len hb" using hn by (simp add: bslice_def min_absorb1)
    have ap: "?hdr @ ?body = bslice p ?n hb" using bslice_split [of p KV_HEADER "?n - KV_HEADER" hb] hn F2 lhb by simp
    have lv: "length (bslice (p + KV_HEADER) ?len hb) = ?len" using hn F2 lhb by simp
    show ?thesis
      using start F2 r2 tk ap lv lhb False
      by (simp add: kv_bind_def [of "kv_read (src + p + KV_HEADER) (?n - KV_HEADER)"] rec_at_def Let_def)
  qed
qed

lemma packed_src_read:
  assumes "packed dst half c0 wr tvs (ee_buf d)" and "src + half \<le> dst \<or> dst + half \<le> src" and "src + half \<le> length c0"
    and "q + m \<le> half"
  shows "kv_read (src + q) m d = (Inr (bslice q m (bslice src half c0)), d)"
proof -
  have out: "same_outside dst half c0 (ee_buf d)" using assms(1) by (simp add: packed_def)
  have "bslice (src + q) m (ee_buf d) = bslice (src + q) m c0"
    by (rule same_outside_bslice [OF out]) (use assms(2-4) in linarith)+
  with kv_read_ok [of "src + q" m d] same_outside_length [OF out] assms(3,4) show ?thesis by (simp add: bslice_bslice)
qed

lemma crash_tail_loop:
  assumes disj: "src + half \<le> dst \<or> dst + half \<le> src"
    and len: "src + half \<le> length c0" "dst + half \<le> length c0" and al: "dst mod 4 = 0"
  defines "hb \<equiv> bslice src half c0"
  shows "wr mod 4 = 0 \<Longrightarrow> crash_cells (packed dst half c0 wr tvs) (tail_loop src dst half p wr)
     (\<lambda>_ c. \<exists>wr'. packed dst half c0 wr' (tvs @ map snd (log_of hb p)) c)
     (\<lambda>e c. (e = Backend \<or> e = Full) \<and> same_outside dst half c0 c)"
proof (induction p arbitrary: wr tvs rule: log_induct [of hb])
  case (stop p)
  have turn: "tail_loop src dst half p wr d = (Inr (), d)" if "packed dst half c0 wr tvs (ee_buf d)" for d
    using tail_turn [of half src d hb dst p wr] packed_src_read [OF that disj len(1)] stop(1) len(1) by (simp add: hb_def)
  show ?case
    by (rule crash_specI) (use turn stop(1) in \<open>auto simp: crash_post_def log_stop\<close>)
next
  case (step p t v)
  let ?n = "record_size (length v)" and ?P = "packed dst half c0"
  let ?Q = "\<lambda>_ c. \<exists>wr'. ?P wr' (tvs @ map snd (log_of hb p)) c"
  let ?C = "\<lambda>e c. (e = Backend \<or> e = Full) \<and> same_outside dst half c0 c"
  let ?wrt = "kv_write (dst + wr) (bslice p ?n hb)" and ?rest = "tail_loop src dst half (p + ?n) (wr + ?n)"
  note S = log_step [OF step(1)]
  have n4: "(wr + ?n) mod 4 = 0" using step.prems record_size_bounds(2) [of "length v"] by presburger
  have turn: "tail_loop src dst half p wr d = (if wr + ?n > half then (Inl Full, d) else kv_then ?wrt ?rest d)"
    if "?P wr tvs (ee_buf d)" for d
    using tail_turn [of half src d hb dst p wr] packed_src_read [OF that disj len(1)] step(1) len(1) by (simp add: hb_def)
  show ?case
  proof (cases "wr + ?n > half")
    case True
    then show ?thesis by (intro crash_specI) (use turn in \<open>auto simp: crash_post_def packed_def\<close>)
  next
    case False
    then have fit: "wr + ?n \<le> half" by simp
    have wr: "crash_cells (?P wr tvs) ?wrt (\<lambda>_. ?P (wr + ?n) (tvs @ [(t, v)])) ?C"
      by (rule crash_weaken [OF crash_packed_write [OF step(1) refl fit len(2) al step.prems]]) auto
    have go: "crash_cells (?P (wr + ?n) (tvs @ [(t, v)])) ?rest ?Q ?C"
      using step.IH [OF n4, of "tvs @ [(t, v)]"] S by simp
    have "crash_cells (?P wr tvs) (kv_then ?wrt ?rest) ?Q ?C" by (rule crash_then [OF wr go])
    with turn False show ?thesis by (simp add: crash_spec_def)
  qed
qed

text \<open>The live part of a prefix followed by the rest of the log means the same map.\<close>

lemma log_map_append: "log_map (a @ b) k = (case latest_of k b of Some _ \<Rightarrow> log_map b k | None \<Rightarrow> log_map a k)"
  by (simp add: log_map_def latest_of_append split: option.splits)

lemma log_map_live_prefix:
  assumes "distinct (map fst a)" and "walk_log a [] = Some latest"
  shows "log_map (filter (live latest) a @ b) = log_map (a @ b)"
  using log_map_live [OF assms(1) walk_log_live [OF assms(2)]] by (auto simp: log_map_append split: option.splits)

lemma packed_from:
  "packed dst half c wr tvs c \<Longrightarrow> same_outside dst half c0 c \<Longrightarrow> packed dst half c0 wr tvs c"
  by (simp add: packed_def)

lemma fs_ok_finished:
  assumes F: "fs_ok cap st c" and "fs_blank_off st = half_len cap" and e: "fs_read_off st = fs_src_end st"
  defines "hb \<equiv> half_at cap (fs_src_h st) c" and "dst \<equiv> half_base cap (1 - fs_src_h st)"
  shows "packed dst (half_len cap) c (fs_write_off st) (map snd (filter (live (fs_latest st)) (log_upto hb (fs_src_end st)))) c"
proof -
  have "fs_rec_copied st = 0" using fs_okD(12) [OF F] e by auto
  with fs_okD(11) [OF F assms(2)] e show ?thesis by (simp add: fs_dst_def hb_def dst_def)
qed

lemma crash_flip_commit_pending:
  assumes wf: "kv_wf cap c0" and F: "fs_ok cap st c0"
  defines "h \<equiv> fs_src_h st" and "g \<equiv> fs_src_gen st"
  shows "crash_cells (\<lambda>c. c = c0) (flip_commit cap st)
     (\<lambda>_ c. flip_post cap c0 h g c \<and> (g \<noteq> - 1 \<longrightarrow> active_of cap c = Some (1 - h, g + 1)))
     (\<lambda>e c. (e = Backend \<or> e = Full) \<and> flip_post cap c0 h g c)"
proof (rule crash_specI)
  fix d assume cl: "clean (the_dev d)" and d: "ee_buf d = c0"
  let ?Q = "\<lambda>_ c. flip_post cap c0 h g c \<and> (g \<noteq> - 1 \<longrightarrow> active_of cap c = Some (1 - h, g + 1))"
  let ?C = "\<lambda>e c. (e = Backend \<or> e = Full) \<and> flip_post cap c0 h g c"
  let ?half = "half_len cap" and ?src = "half_base cap h" and ?dst = "half_base cap (1 - h)" and ?hb = "half_at cap h c0"
  note D = fs_okD [OF F, folded h_def g_def]
  note L = kv_wfD(1) [OF wf] and h = active_of_half [OF D(1)]
  have h1: "1 - h \<le> 1" by simp
  note Hs = layout_half [OF L h] and Hd = layout_half [OF L h1]
  have dead: "same_outside ?dst ?half c0 c \<Longrightarrow> flip_post cap c0 h g c" for c
    unfolding flip_post_def using dead_half_frame [OF wf D(1)] by blast
  obtain r d1 st1 where dr: "flip_drive cap d st = (r, (d1, st1))" by (metis prod.exhaust)
  have "crash_post fst (\<lambda>_. slice_post cap (ee_buf d) st False) (slice_cut cap (ee_buf d) st) (d, st) (r, (d1, st1))"
    unfolding dr [symmetric] by (rule flip_drive_spec) (use wf F cl d in \<open>auto simp: the_dev_def\<close>)
  note X = crash_postD [OF this, unfolded fst_conv d]
  show "crash_post the_dev (\<lambda>x. cells (?Q x)) (\<lambda>e. cells (?C e)) d (flip_commit cap st d)"
  proof (cases r)
    case (Inl e)
    have "same_outside ?dst ?half c0 (ee_buf d1)" "e = Backend" using X(7) [OF Inl] by (auto simp: slice_cut_def h_def)
    with dead X Inl dr show ?thesis by (auto simp: flip_commit_def crash_post_def the_dev_def)
  next
    case (Inr u)
    then have S: "slice_ok cap c0 h st1 (ee_buf d1)" and fin: "fs_blank_off st1 = ?half" "fs_read_off st1 = fs_src_end st1"
      using X(6) by (auto simp: slice_post_def h_def)
    note F1 = slice_okD(2) [OF S] and h1' = slice_okD(3) [OF S]
    note D1 = fs_okD [OF F1, unfolded h1']
    have g1: "fs_src_gen st1 = g" by (rule slice_wf(3) [OF wf D(1) S])
    have hb1: "half_at cap h (ee_buf d1) = ?hb" by (rule dead_half_frame(3) [OF wf D(1) slice_okD(1) [OF S]])
    let ?e = "fs_src_end st1" and ?wo = "fs_write_off st1"
    let ?live = "filter (live (fs_latest st1)) (log_upto ?hb ?e)"
    let ?tvs = "map snd ?live @ map snd (log_of ?hb ?e)"
    have pk: "packed ?dst ?half c0 ?wo (map snd ?live) (ee_buf d1)"
      using packed_from [OF fs_ok_finished [OF F1 fin] slice_okD(1) [OF S, folded h1']] h1' hb1 by simp
    have split: "log_of ?hb 0 = log_upto ?hb ?e @ log_of ?hb ?e"
      using log_upto_split(1) D1(2) hb1 by simp
    have m: "log_map log = kv_abs cap c0" if "map snd log = ?tvs" for log
    proof -
      have "log_map log = log_map (?live @ log_of ?hb ?e)" using that by (intro log_map_cong) simp
      also have "\<dots> = log_map (log_of ?hb 0)"
        unfolding split using D1(3) hb1 by (intro log_map_live_prefix) (auto simp: log_upto_def log_of_distinct distinct_map_filter)
      finally show ?thesis by (simp add: kv_abs_def D(1))
    qed
    have tail: "crash_cells (packed ?dst ?half c0 ?wo (map snd ?live)) (tail_loop ?src ?dst ?half ?e ?wo)
        (\<lambda>_ c. \<exists>wr. packed ?dst ?half c0 wr ?tvs c) ?C"
      by (rule crash_weaken [OF crash_tail_loop [OF layout_disjoint(1) [OF L h] Hs(2) Hd(2,3) D1(7), folded half_at_def]])
        (use dead in auto)
    have commit: "crash_cells (\<lambda>c. \<exists>wr. packed ?dst ?half c0 wr ?tvs c) (write_gen cap (1 - h) (g + 1)) ?Q ?C"
      by (rule crash_weaken [OF crash_flip_commit [OF wf D(1) m]]) auto
    have "crash_post the_dev (\<lambda>x. cells (?Q x)) (\<lambda>e. cells (?C e)) d1
        (kv_then (tail_loop ?src ?dst ?half ?e ?wo) (write_gen cap (1 - h) (g + 1)) d1)"
      using crash_specD [OF crash_then [OF tail commit], of d1] pk X(1) by (simp add: the_dev_def)
    moreover have "flip_commit cap st d = kv_then (tail_loop ?src ?dst ?half ?e ?wo) (write_gen cap (1 - h) (g + 1)) d1"
      using dr Inr h1' g1 by (simp add: flip_commit_def)
    ultimately show ?thesis using X(2,3) by (simp add: crash_post_def the_dev_def)
  qed
qed

end
