(* ===== verification/Kv_Maintain.thy ===== *)
theory Kv_Maintain
  imports Kv_Flip
begin

text \<open>
  The writes that take a pending flip along (\<open>set_bytes_with\<close>, \<open>delete_with\<close>, \<open>compact_with\<close>) and the
  maintenance driver \<open>maintain\<close>: crash specifications on the store together with its RAM state,
  under the invariant that a pending flip describes the cells (\<open>pend_ok\<close>, \<open>maint_ok\<close>).
\<close>

section \<open>Writes with a flip pending\<close>

definition pend_ok :: "nat \<Rightarrow> flip_state option \<Rightarrow> bytes \<Rightarrow> bool" where
  "pend_ok cap p c \<longleftrightarrow> (case p of None \<Rightarrow> True | Some st \<Rightarrow> fs_ok cap st c)"

lemma pend_ok_simps [simp]: "pend_ok cap None c" "pend_ok cap (Some st) c = fs_ok cap st c"
  by (simp_all add: pend_ok_def)

lemma fs_dst_cong:
  assumes "fs_dst dst half hb wo ro rc tvs c" and "bslice dst half c' = bslice dst half c" and "length c' = length c"
    and "dst + half \<le> length c" and "bslice ro rc hb' = bslice ro rc hb"
  shows "fs_dst dst half hb' wo ro rc tvs c'"
proof -
  have F: "wo + rc \<le> half" using assms(1) by (simp add: fs_dst_def)
  have nth: "c' ! (dst + i) = c ! (dst + i)" if "i < half" for i
    using that assms(2-4) nth_bslice [of i half dst c] nth_bslice [of i half dst c'] by simp
  have z: "zeroed (dst + wo) rc c' ! (dst + i) = zeroed (dst + wo) rc c ! (dst + i)" if "i < half" for i
    using that nth [OF that] assms(3,4) F by (auto simp: zeroed_def nth_bsplice)
  have "bslice dst half (zeroed (dst + wo) rc c') = bslice dst half (zeroed (dst + wo) rc c)"
    using z assms(3,4) F by (intro nth_equalityI) (auto simp: nth_bslice)
  moreover have "bslice (dst + wo) rc c' = bslice (dst + wo) rc c"
    using nth assms(3,4) F by (intro nth_equalityI) (auto simp: nth_bslice add.assoc)
  ultimately show ?thesis using assms(1,5) z by (auto simp: fs_dst_def packed_def)
qed

text \<open>An append past the log end of the source keeps the plan.\<close>

lemma fs_ok_append:
  assumes wf: "kv_wf cap c0" and F: "fs_ok cap st c0"
  defines "h \<equiv> fs_src_h st"
  assumes f: "f = log_end (half_at cap h c0) 0" "f \<le> half_len cap"
    and out: "same_outside (half_base cap h + f) (half_len cap - f) c0 c"
  shows "fs_ok cap st c"
proof -
  note D = fs_okD [OF F, folded h_def]
  note L = kv_wfD(1) [OF wf] and h = active_of_half [OF D(1)]
  have h1: "1 - h \<le> 1" by simp
  note H = layout_half [OF L h] and Hd = layout_half [OF L h1]
  have fr: "f + (half_len cap - f) \<le> half_len cap" using f(2) by simp
  note Fr = half_frame [OF L h out fr]
  let ?hb = "half_at cap h c0" and ?hb' = "half_at cap h c"
  have a: "active_of cap c = Some (h, fs_src_gen st)" using Fr(1) D(1) by (simp add: active_of_def)
  have lc: "length c = length c0" by (rule same_outside_length [OF out])
  have same: "?hb' ! i = ?hb ! i" if "i < f" for i
    using half_nth_same [OF out H(2) f(2) that] by (simp add: half_at_def)
  have lhb: "length ?hb' = length ?hb" using layout_half(4) [OF Fr(3) h] H(4) by simp
  have "fs_src_end st \<le> f" using log_upto_split(2) [OF D(2)] log_end_ge [of "fs_src_end st" ?hb] f(1) by simp
  then have sm: "\<And>i. i < fs_src_end st \<Longrightarrow> ?hb' ! i = ?hb ! i" using same by simp
  note P = log_path_agree [OF D(2) lhb sm]
  have sm': "\<And>i. i < fs_read_off st \<Longrightarrow> ?hb' ! i = ?hb ! i" using sm D(5) by simp
  note P' = log_path_agree [OF D(4) lhb sm']
  have rec: "rec_at ?hb' (fs_read_off st) = Some (t, v) \<and> bslice (fs_read_off st) (fs_rec_copied st) ?hb' = bslice (fs_read_off st) (fs_rec_copied st) ?hb"
    if lt: "fs_read_off st < fs_src_end st" and r: "rec_at ?hb (fs_read_off st) = Some (t, v)" "fs_rec_copied st \<le> record_size (length v)" for t v
  proof -
    let ?n = "record_size (length v)" and ?ro = "fs_read_off st"
    from log_path_next [OF D(4,2) lt] r(1) have e: "?ro + ?n \<le> fs_src_end st" by auto
    have fit: "?ro + ?n \<le> length ?hb" by (rule rec_at_SomeD(3) [OF r(1)])
    have eq: "bslice ?ro m ?hb' = bslice ?ro m ?hb" if "m \<le> ?n" for m
      using that fit lhb e sm by (intro nth_equalityI) (auto simp: nth_bslice)
    from rec_at_local [OF r(1) refl, of ?ro ?hb'] eq [of ?n] fit lhb eq [OF r(2)] show ?thesis by simp
  qed
  have sl: "bslice (fs_read_off st) (fs_rec_copied st) ?hb' = bslice (fs_read_off st) (fs_rec_copied st) ?hb"
  proof (cases "fs_rec_copied st = 0")
    case True
    then show ?thesis by (simp add: bslice_def)
  next
    case False
    with D(12) rec show ?thesis by blast
  qed
  have dst: "bslice (half_base cap (1 - h)) (half_len cap) c = bslice (half_base cap (1 - h)) (half_len cap) c0"
    using Fr(2) by (simp add: half_at_def)
  have dn: "c ! (half_base cap (1 - h) + i) = c0 ! (half_base cap (1 - h) + i)" if "i < half_len cap" for i
    using that dst Hd(2) lc nth_bslice [of i "half_len cap" "half_base cap (1 - h)" c] nth_bslice [of i "half_len cap" "half_base cap (1 - h)" c0]
    by simp
  have "fs_dst (half_base cap (1 - h)) (half_len cap) ?hb' (fs_write_off st) (fs_read_off st) (fs_rec_copied st)
      (map snd (filter (live (fs_latest st)) (log_upto ?hb (fs_read_off st)))) c" if "fs_blank_off st = half_len cap"
    by (rule fs_dst_cong [OF D(11) [OF that] dst lc Hd(2) sl])
  moreover have "0 < fs_rec_copied st \<Longrightarrow> fs_read_off st < fs_src_end st \<and> (\<exists>t v. rec_at ?hb' (fs_read_off st) = Some (t, v) \<and>
      live (fs_latest st) (fs_read_off st, t, v) \<and> fs_rec_copied st \<le> record_size (length v))"
    using D(12) rec by blast
  ultimately show ?thesis
    using a P P' D(2-9) D(10) dn by (simp add: fs_ok_def Let_def h_def [symmetric])
qed

lemma crash_append_pending:
  assumes wf: "kv_wf cap c0" and F: "fs_ok cap st c0"
  defines "h \<equiv> fs_src_h st"
  assumes f: "f = log_end (half_at cap h c0) 0" "f + record_size (length v) \<le> half_len cap" and k: "key \<noteq> 0" "length v \<le> MAX_VALUE"
  shows "crash_cells (\<lambda>c. c = c0) (append_end (half_base cap h) (half_len cap) f key v)
     (\<lambda>_ c. put_post cap key v c0 c \<and> fs_ok cap st c) (\<lambda>e c. e = Backend \<and> kept_post cap c0 c)"
proof (rule crash_specI)
  fix d assume d: "clean (the_dev d)" "ee_buf d = c0"
  note L = kv_wfD(1) [OF wf] and a = fs_okD(1) [OF F, folded h_def]
  note H = layout_half [OF L active_of_half [OF a]]
  have fl: "f \<le> half_len cap" using f(2) by simp
  obtain r d' where run: "append_end (half_base cap h) (half_len cap) f key v d = (r, d')" by fastforce
  note X = crash_specD [OF crash_append_active [OF wf a f k], of d] and Y = crash_specD [OF crash_append_end [OF H(3,2) f(1) [unfolded half_at_def] f(2) k], of d]
  have "crash_post the_dev (\<lambda>_. cells (put_post cap key v c0)) (\<lambda>e. cells (\<lambda>c. e = Backend \<and> kept_post cap c0 c)) d (r, d')"
    using X d run by simp
  moreover have "r = Inr u \<Longrightarrow> same_outside (half_base cap h + f) (half_len cap - f) c0 (ee_buf d')" for u
    using Y d run by (auto simp: crash_post_def)
  ultimately show "crash_post the_dev (\<lambda>_. cells (\<lambda>c. put_post cap key v c0 c \<and> fs_ok cap st c))
      (\<lambda>e. cells (\<lambda>c. e = Backend \<and> kept_post cap c0 c)) d (append_end (half_base cap h) (half_len cap) f key v d)"
    unfolding run using fs_ok_append [OF wf F f(1) [unfolded h_def] fl, folded h_def] by (auto simp: crash_post_def split: sum.splits)
qed

text \<open>What \<open>set_bytes_with\<close> does when its pending flip is current, and when there is none.\<close>

lemma set_bytes_with_pending:
  assumes wf: "kv_wf cap (ee_buf d)" and F: "fs_ok cap st (ee_buf d)"
  defines "h \<equiv> fs_src_h st"
  defines "f \<equiv> log_end (half_at cap h (ee_buf d)) 0"
  shows "set_bytes_with cap key v (d, Some st) =
     (if key = 0 then (Inl InvalidKey, (d, Some st)) else if length v > MAX_VALUE then (Inl ValueTooLarge, (d, Some st))
      else if f + record_size (length v) \<le> half_len cap
        then (case append_end (half_base cap h) (half_len cap) f key v d of (r, d') \<Rightarrow> (r, (d', Some st)))
      else (case kv_then (flip_commit cap st) (append_after_flip cap key v True) d of (r, d') \<Rightarrow> (r, (d', None))))"
proof -
  note L = kv_wfD(1) [OF wf] and a = fs_okD(1) [OF F, folded h_def]
  show ?thesis
    using active_ok [OF L] scan_ok [OF L active_of_half [OF a]] a
    by (auto simp: set_bytes_with_def kv_bind_def kv_then_def on_dev_def kv_ram_def kv_modify_ram_def Let_def f_def h_def [symmetric]
        split: prod.splits sum.splits)
qed

lemma set_bytes_with_none:
  "set_bytes_with cap key v (d, None) = (case set_bytes cap key v d of (r, d') \<Rightarrow> (r, (d', None)))"
proof -
  have "snd (snd (set_bytes_with cap key v (d, None))) = None"
    by (auto simp: set_bytes_with_def kv_bind_def kv_then_def on_dev_def kv_ram_def kv_modify_ram_def Let_def
        split: prod.splits sum.splits option.splits)
  then show ?thesis by (auto simp: set_bytes_def no_pending_def split: prod.splits)
qed

text \<open>The outcome of a write: the map updated or kept, the pending flip sound unless power failed.\<close>

definition put_pend :: "nat \<Rightarrow> u16 \<Rightarrow> bytes \<Rightarrow> bytes \<Rightarrow> eeprom \<times> flip_state option \<Rightarrow> bool" where
  "put_pend cap key v c0 s \<longleftrightarrow> put_post cap key v c0 (ee_buf (fst s)) \<and> pend_ok cap (snd s) (ee_buf (fst s))"

definition kept_pend :: "nat \<Rightarrow> bytes \<Rightarrow> kv_error \<Rightarrow> eeprom \<times> flip_state option \<Rightarrow> bool" where
  "kept_pend cap c0 e s \<longleftrightarrow> e \<noteq> Stale \<and> kept_post cap c0 (ee_buf (fst s)) \<and> (e = Backend \<or> pend_ok cap (snd s) (ee_buf (fst s)))"

lemma crash_post_pend:
  assumes "crash_post the_dev (\<lambda>x d'. Q x (d', p')) (\<lambda>e d'. C e (d', p')) d rd"
  shows "crash_post fst Q C (d, p) (case rd of (r, d') \<Rightarrow> (r, (d', p')))"
  using assms by (cases rd) (auto simp: crash_post_def the_dev_def split: sum.splits)

lemma crash_post_mono:
  assumes "crash_post dev Q C s rs" and "\<And>x s'. Q x s' \<Longrightarrow> Q' x s'" and "\<And>e s'. C e s' \<Longrightarrow> C' e s'"
  shows "crash_post dev Q' C' s rs"
  using assms by (auto simp: crash_post_def split: sum.splits)

lemma flip_commit_append:
  assumes wf: "kv_wf cap c0" and F: "fs_ok cap st c0" and k: "key \<noteq> 0" "length v \<le> MAX_VALUE"
  shows "crash_cells (\<lambda>c. c = c0) (kv_then (flip_commit cap st) (append_after_flip cap key v True))
     (\<lambda>_. put_post cap key v c0) (\<lambda>e c. e \<noteq> Stale \<and> kept_post cap c0 c)"
proof (rule crash_then)
  let ?P = "flip_post cap c0 (fs_src_h st) (fs_src_gen st)"
  show "crash_cells (\<lambda>c. c = c0) (flip_commit cap st) (\<lambda>_. ?P) (\<lambda>e c. e \<noteq> Stale \<and> kept_post cap c0 c)"
    by (rule crash_weaken [OF crash_flip_commit_pending [OF wf F]]) (auto simp: flip_post_def kept_post_def)
  show "crash_cells ?P (append_after_flip cap key v True) (\<lambda>_. put_post cap key v c0) (\<lambda>e c. e \<noteq> Stale \<and> kept_post cap c0 c)"
  proof (rule crash_cells_fix)
    fix c1 assume "?P c1"
    then have c1: "kv_wf cap c1" "kv_abs cap c1 = kv_abs cap c0" "active_of cap c1 \<noteq> None" by (auto simp: flip_post_def)
    show "crash_cells (\<lambda>c. c = c1) (append_after_flip cap key v True) (\<lambda>_. put_post cap key v c0) (\<lambda>e c. e \<noteq> Stale \<and> kept_post cap c0 c)"
      by (rule crash_weaken [OF crash_append_after_flip [OF c1(1,3) k]]) (use c1(2) in \<open>auto simp: put_post_def kept_post_def\<close>)
  qed
qed

lemma set_bytes_with_spec:
  assumes wf: "kv_wf cap (ee_buf d)" and p: "pend_ok cap p (ee_buf d)" and cl: "clean d"
  shows "crash_post fst (\<lambda>_ s. key \<noteq> 0 \<and> length v \<le> MAX_VALUE \<and> put_pend cap key v (ee_buf d) s) (kept_pend cap (ee_buf d)) (d, p)
     (set_bytes_with cap key v (d, p))"
proof (cases p)
  case None
  have "crash_post the_dev (\<lambda>_ d'. key \<noteq> 0 \<and> length v \<le> MAX_VALUE \<and> put_post cap key v (ee_buf d) (ee_buf d'))
      (\<lambda>e d'. e \<noteq> Stale \<and> kept_post cap (ee_buf d) (ee_buf d')) d (set_bytes cap key v d)"
    using crash_specD [OF crash_set_bytes [OF wf, of key v], of d] cl by (simp add: the_dev_def)
  then show ?thesis unfolding None set_bytes_with_none
    by (intro crash_post_pend) (auto simp: put_pend_def kept_pend_def elim!: crash_post_mono)
next
  case (Some st)
  with p have F: "fs_ok cap st (ee_buf d)" by simp
  let ?h = "fs_src_h st" and ?f = "log_end (half_at cap (fs_src_h st) (ee_buf d)) 0"
  have keep: "kept_post cap (ee_buf d) (ee_buf d)" using wf by (simp add: kept_post_def)
  consider (bad) "key = 0 \<or> length v > MAX_VALUE" | (fits) "key \<noteq> 0" "length v \<le> MAX_VALUE" "?f + record_size (length v) \<le> half_len cap"
    | (full) "key \<noteq> 0" "length v \<le> MAX_VALUE" "\<not> ?f + record_size (length v) \<le> half_len cap" by linarith
  then show ?thesis
  proof cases
    case bad
    then show ?thesis unfolding Some set_bytes_with_pending [OF wf F]
      using F cl keep by (auto simp: crash_post_def kept_pend_def)
  next
    case fits
    have "crash_post the_dev (\<lambda>_ d'. put_post cap key v (ee_buf d) (ee_buf d') \<and> fs_ok cap st (ee_buf d'))
        (\<lambda>e d'. e = Backend \<and> kept_post cap (ee_buf d) (ee_buf d')) d (append_end (half_base cap ?h) (half_len cap) ?f key v d)"
      using crash_specD [OF crash_append_pending [OF wf F refl fits(3,1,2)], of d] cl by (simp add: the_dev_def)
    then have "crash_post fst (\<lambda>_ s. key \<noteq> 0 \<and> length v \<le> MAX_VALUE \<and> put_pend cap key v (ee_buf d) s) (kept_pend cap (ee_buf d)) (d, p)
        (case append_end (half_base cap ?h) (half_len cap) ?f key v d of (r, d') \<Rightarrow> (r, (d', Some st)))"
      by (intro crash_post_pend) (use fits in \<open>auto simp: put_pend_def kept_pend_def elim!: crash_post_mono\<close>)
    then show ?thesis using fits by (simp add: Some set_bytes_with_pending [OF wf F])
  next
    case full
    have "crash_post the_dev (\<lambda>_ d'. put_post cap key v (ee_buf d) (ee_buf d'))
        (\<lambda>e d'. e \<noteq> Stale \<and> kept_post cap (ee_buf d) (ee_buf d')) d (kv_then (flip_commit cap st) (append_after_flip cap key v True) d)"
      using crash_specD [OF flip_commit_append [OF wf F full(1,2)], of d] cl by (simp add: the_dev_def)
    then have "crash_post fst (\<lambda>_ s. key \<noteq> 0 \<and> length v \<le> MAX_VALUE \<and> put_pend cap key v (ee_buf d) s) (kept_pend cap (ee_buf d)) (d, p)
        (case kv_then (flip_commit cap st) (append_after_flip cap key v True) d of (r, d') \<Rightarrow> (r, (d', None)))"
      by (intro crash_post_pend) (use full in \<open>auto simp: put_pend_def kept_pend_def elim!: crash_post_mono\<close>)
    then show ?thesis using full by (simp add: Some set_bytes_with_pending [OF wf F])
  qed
qed

lemma delete_with_run:
  assumes wf: "kv_wf cap (ee_buf d)"
  shows "delete_with cap key (d, p) =
     (if key = 0 then (Inl InvalidKey, (d, p))
      else if kv_abs cap (ee_buf d) key = None then (Inr (), (d, p)) else set_bytes_with cap key [] (d, p))"
proof (cases "active_of cap (ee_buf d)")
  case None
  then show ?thesis using active_ok [OF kv_wfD(1) [OF wf]]
    by (simp add: delete_with_def kv_bind_def on_dev_def kv_abs_def)
next
  case (Some hg)
  then obtain h g where a: "active_of cap (ee_buf d) = Some (h, g)" by (cases hg) auto
  show ?thesis using active_ok [OF kv_wfD(1) [OF wf]] scan_ok [OF kv_wfD(1) [OF wf] active_of_half [OF a]] a
    by (auto simp: delete_with_def kv_bind_def on_dev_def kv_abs_def log_map_def scan_found_latest split: option.splits)
qed

lemma delete_with_spec:
  assumes wf: "kv_wf cap (ee_buf d)" and p: "pend_ok cap p (ee_buf d)" and cl: "clean d"
  shows "crash_post fst (\<lambda>_ s. key \<noteq> 0 \<and> put_pend cap key [] (ee_buf d) s) (kept_pend cap (ee_buf d)) (d, p) (delete_with cap key (d, p))"
proof (cases "key = 0 \<or> kv_abs cap (ee_buf d) key = None")
  case True
  then show ?thesis using assms
    by (auto simp: delete_with_run crash_post_def kept_pend_def put_pend_def kept_post_def put_post_def kv_put_absent)
next
  case False
  then have "delete_with cap key (d, p) = set_bytes_with cap key [] (d, p)" by (auto simp: delete_with_run [OF wf])
  then show ?thesis using crash_post_mono [OF set_bytes_with_spec [OF assms, of key "[]"]] by auto
qed

lemma compact_with_spec:
  assumes wf: "kv_wf cap (ee_buf d)" and p: "pend_ok cap p (ee_buf d)" and cl: "clean d"
  shows "crash_post fst (\<lambda>_ s. kept_post cap (ee_buf d) (ee_buf (fst s)) \<and> snd s = None)
     (\<lambda>e s. e \<noteq> Stale \<and> kept_post cap (ee_buf d) (ee_buf (fst s)) \<and> snd s = None) (d, p) (compact_with cap (d, p))"
proof (cases p)
  case None
  have "crash_post the_dev (\<lambda>_ d'. kept_post cap (ee_buf d) (ee_buf d'))
      (\<lambda>e d'. (e = Backend \<or> e = TooManyKeys) \<and> kept_post cap (ee_buf d) (ee_buf d')) d (compact cap d)"
    using crash_specD [OF crash_compact [OF wf], of d] cl by (simp add: the_dev_def)
  then have "crash_post fst (\<lambda>_ s. kept_post cap (ee_buf d) (ee_buf (fst s)) \<and> snd s = None)
     (\<lambda>e s. e \<noteq> Stale \<and> kept_post cap (ee_buf d) (ee_buf (fst s)) \<and> snd s = None) (d, p)
     (case compact cap d of (r, d') \<Rightarrow> (r, (d', None)))"
    by (intro crash_post_pend) (auto elim!: crash_post_mono)
  then show ?thesis by (simp add: None compact_with_def on_dev_def)
next
  case (Some st)
  with p have F: "fs_ok cap st (ee_buf d)" by simp
  obtain r d' where run: "flip_commit cap st d = (r, d')" by fastforce
  have X: "crash_post the_dev (\<lambda>_ d'. kept_post cap (ee_buf d) (ee_buf d'))
      (\<lambda>e d'. (e = Backend \<or> e = Full) \<and> kept_post cap (ee_buf d) (ee_buf d')) d (r, d')"
    unfolding run [symmetric]
    using crash_specD [OF crash_flip_commit_pending [OF wf F], of d] cl
    by (auto simp: the_dev_def flip_post_def kept_post_def elim!: crash_post_mono)
  then have "r \<noteq> Inl Stale" by (auto simp: crash_post_def)
  then have "compact_with cap (d, p) = (r, (d', None))"
    using run by (auto simp: Some compact_with_def split: sum.splits kv_error.splits)
  with X show ?thesis by (auto simp: crash_post_def the_dev_def split: sum.splits)
qed

section \<open>Maintenance\<close>

text \<open>A fresh plan is sound.\<close>

lemma flip_start_ok:
  assumes wf: "kv_wf cap (ee_buf d)" and a: "active_of cap (ee_buf d) = Some (h, g)"
  shows "case flip_start cap d of (Inr (Some st), d') \<Rightarrow> d' = d \<and> fs_ok cap st (ee_buf d) | (Inr None, d') \<Rightarrow> False | (Inl e, d') \<Rightarrow> d' = d \<and> e = TooManyKeys"
proof -
  note L = kv_wfD(1) [OF wf] and h = active_of_half [OF a]
  let ?hb = "half_at cap h (ee_buf d)"
  note Hs = layout_half [OF L h]
  have walk: "walk_latest (half_base cap h) (half_len cap) d = (case walk_log (log_of ?hb 0) [] of None \<Rightarrow> (Inl TooManyKeys, d)
      | Some latest \<Rightarrow> (Inr (log_end ?hb 0, latest), d))"
    using walk_latest_log [of "half_base cap h" "half_len cap" d] Hs(2) unfolding half_at_def by blast
  have dst: "half_base cap (1 - h) + half_len cap \<le> length (ee_buf d)" using layout_half(2) [OF L, of "1 - h"] by simp
  show ?thesis
  proof (cases "walk_log (log_of ?hb 0) []")
    case None
    then show ?thesis using walk active_ok [OF L] a by (simp add: flip_start_def kv_bind_def)
  next
    case (Some latest)
    have up: "log_upto ?hb (log_end ?hb 0) = log_of ?hb 0"
      using log_upto_split(1) [OF log_path_end [of ?hb 0]] log_end_stop [of ?hb 0] by (simp add: log_stop)
    let ?st = "\<lparr>fs_src_h = h, fs_src_gen = g, fs_src_end = log_end ?hb 0, fs_latest = latest,
             fs_blank_off = 0, fs_read_off = 0, fs_write_off = 0, fs_rec_copied = 0\<rparr>"
    have "packed (half_base cap (1 - h)) (half_len cap) (ee_buf d) 0 [] (ee_buf d)" if "half_len cap = 0"
      using packed_blank [of "half_len cap" "ee_buf d"] that dst by simp
    then have "fs_ok cap ?st (ee_buf d)"
      using Some a up log_path_end [of ?hb 0] by (auto simp: fs_ok_def Let_def log_path.start fs_dst_def bslice_def)
    then show ?thesis using Some walk active_ok [OF L] a by (simp add: flip_start_def kv_bind_def)
  qed
qed

lemma live_total_reads:
  assumes "\<And>t p. (t, p) \<in> set latest \<Longrightarrow> base + p + KV_HEADER \<le> length (ee_buf d)"
  shows "\<exists>x. live_total base latest acc d = (Inr x, d)"
  using assms
proof (induction latest arbitrary: acc)
  case (Cons e es)
  have "kv_read (base + snd e) KV_HEADER d = (Inr (bslice (base + snd e) KV_HEADER (ee_buf d)), d)"
    using Cons.prems [of "fst e" "snd e"] by (intro kv_read_ok) simp
  moreover have "\<exists>x. live_total base es a d = (Inr x, d)" for a by (rule Cons.IH) (use Cons.prems in auto)
  ultimately show ?case by (simp add: kv_bind_def Let_def)
qed simp

lemma live_bytes_reads:
  assumes wf: "kv_wf cap (ee_buf d)"
  shows "(\<exists>x. live_bytes cap d = (Inr x, d)) \<or> live_bytes cap d = (Inl TooManyKeys, d)"
proof (cases "active_of cap (ee_buf d)")
  case None
  then show ?thesis using active_ok [OF kv_wfD(1) [OF wf]] by (simp add: live_bytes_def kv_bind_def)
next
  case (Some hg)
  then obtain h g where a: "active_of cap (ee_buf d) = Some (h, g)" by (cases hg) auto
  note L = kv_wfD(1) [OF wf] and h = active_of_half [OF a]
  note Hs = layout_half [OF L h]
  let ?hb = "half_at cap h (ee_buf d)"
  have walk: "walk_latest (half_base cap h) (half_len cap) d = (case walk_log (log_of ?hb 0) [] of None \<Rightarrow> (Inl TooManyKeys, d)
      | Some latest \<Rightarrow> (Inr (log_end ?hb 0, latest), d))"
    using walk_latest_log [of "half_base cap h" "half_len cap" d] Hs(2) unfolding half_at_def by blast
  show ?thesis
  proof (cases "walk_log (log_of ?hb 0) []")
    case None
    then show ?thesis using walk active_ok [OF L] a by (simp add: live_bytes_def kv_bind_def Let_def)
  next
    case S: (Some latest)
    have "half_base cap h + p + KV_HEADER \<le> length (ee_buf d)" if tp: "(t, p) \<in> set latest" for t p
    proof -
      from walk_log_live [OF S] tp obtain v where "latest_of t (log_of ?hb 0) = Some (p, v)" by blast
      then have "(p, t, v) \<in> set (log_of ?hb 0)" by (rule latest_of_mem)
      then have "rec_at ?hb p = Some (t, v)" using log_of_mem by fastforce
      from rec_at_SomeD(4) [OF this] Hs(2,4) show ?thesis by simp
    qed
    from live_total_reads [of latest "half_base cap h" d 0] this
    show ?thesis using walk active_ok [OF L] a S by (auto simp: live_bytes_def kv_bind_def Let_def)
  qed
qed

definition maint_ok :: "nat \<Rightarrow> maint_state \<Rightarrow> bytes \<Rightarrow> bool" where
  "maint_ok cap m c \<longleftrightarrow> pend_ok cap (ms_flip m) c \<and> bc_off (ms_blank m) mod 4 = 0"

lemma maint_ok_new [simp]: "maint_ok cap maint_new c"
  by (simp add: maint_ok_def maint_new_def blank_cursor_new_def)

text \<open>A pre-blanking slice touches the dead half only.\<close>

lemma blank_dead_step_spec:
  assumes wf: "kv_wf cap (ee_buf d)" and cur: "bc_off cur mod 4 = 0" and cl: "clean d"
  shows "crash_post fst (\<lambda>_ s. kept_post cap (ee_buf d) (ee_buf (fst s)) \<and> bc_off (snd s) mod 4 = 0)
     (\<lambda>e s. e = Backend \<and> kept_post cap (ee_buf d) (ee_buf (fst s))) (d, cur) (blank_dead_step cap budget (d, cur))"
proof (cases "active_of cap (ee_buf d)")
  case None
  then show ?thesis using active_ok [OF kv_wfD(1) [OF wf]] cl wf cur
    by (simp add: blank_dead_step_def kv_bind_def on_dev_def crash_post_def kept_post_def)
next
  case (Some hg)
  then obtain h g where a: "active_of cap (ee_buf d) = Some (h, g)" by (cases hg) auto
  note L = kv_wfD(1) [OF wf] and h = active_of_half [OF a]
  have h1: "1 - h \<le> 1" by simp
  note Hd = layout_half [OF L h1]
  define cur' where "cur' = (if bc_generation cur \<noteq> g then \<lparr>bc_generation = g, bc_off = 0\<rparr> else cur)"
  have c4: "bc_off cur' mod 4 = 0" using cur by (simp add: cur'_def)
  let ?off = "bc_off cur'" and ?half = "half_len cap" and ?dst = "half_base cap (1 - h)"
  have keep: "same_outside ?dst ?half (ee_buf d) c \<Longrightarrow> kept_post cap (ee_buf d) c" for c
    unfolding kept_post_def using dead_half_frame(1,4) [OF wf a] by blast
  note defs = blank_dead_step_def kv_bind_def kv_then_def on_dev_def kv_ram_def kv_modify_ram_def Let_def cur'_def [symmetric] blank_step_span_def
  show ?thesis
  proof (cases "?half \<le> ?off")
    case True
    then have "blank_dead_step cap budget (d, cur) = (Inr False, (d, cur'))" using active_ok [OF L] a by (simp add: defs)
    then show ?thesis using cl c4 wf by (simp add: crash_post_def kept_post_def)
  next
    case False
    then have off: "?off \<le> ?half" by simp
    obtain r d1 where bl: "blank_loop ?dst ?half ?off budget d = (r, d1)" by fastforce
    have "crash_post the_dev (\<lambda>x d'. span_post ?dst ?half ?off budget (ee_buf d) x (ee_buf d'))
        (\<lambda>e d'. e = Backend \<and> blanked_part (?dst + ?off) (?half - ?off) (ee_buf d) (ee_buf d')) d (r, d1)"
      using crash_specD [OF crash_blank_loop [OF Hd(3) layout_facts(6) [OF L] c4 off Hd(2)], of d budget] cl bl
      by (simp add: the_dev_def)
    note B = crash_postD [OF this, unfolded the_dev_def]
    show ?thesis
    proof (cases r)
      case (Inl e)
      have "same_outside ?dst ?half (ee_buf d) (ee_buf d1)"
        by (rule same_outside_mono [OF blanked_part_same [of "?dst + ?off" "?half - ?off"]]) (use B(7) [OF Inl] Hd(2) off in auto)
      moreover have "blank_dead_step cap budget (d, cur) = (Inl e, (d1, cur'))" using active_ok [OF L] a False bl Inl by (simp add: defs)
      ultimately show ?thesis using Inl B keep by (auto simp: crash_post_def)
    next
      case (Inr pb)
      obtain p b where pb: "pb = (p, b)" by fastforce
      have p: "?off \<le> p" "p \<le> ?half" "ee_buf d1 = zeroed (?dst + ?off) (p - ?off) (ee_buf d)"
        using B(6) [OF Inr] pb by (auto simp: span_post_def)
      have p4: "p mod 4 = 0" using blank_loop_aligned [OF _ c4 layout_facts(6) [OF L]] bl Inr pb by blast
      have "same_outside ?dst ?half (ee_buf d) (ee_buf d1)"
        unfolding p(3) by (rule same_outside_mono [OF same_outside_zeroed]) (use p(1,2) Hd(2) in auto)
      moreover have "blank_dead_step cap budget (d, cur) = (Inr (p < ?half), (d1, cur'\<lparr>bc_off := p\<rparr>))"
        using active_ok [OF L] a False bl Inr pb by (simp add: defs)
      ultimately show ?thesis using p4 B keep by (auto simp: crash_post_def)
    qed
  qed
qed

text \<open>The two branches of \<open>maintain\<close>: a slice of the pending flip, or the watch on free space.\<close>

definition maint_flip :: "nat \<Rightarrow> nat \<Rightarrow> flip_state \<Rightarrow> (eeprom \<times> maint_state, bool) kvm" where
  "maint_flip cap budget st = (\<lambda>(d, m). case flip_step cap budget (d, st) of
       (Inl e, (d1, st1)) \<Rightarrow> (Inl e, (d1, m\<lparr>ms_flip := Some st1\<rparr>))
     | (Inr again, (d1, st1)) \<Rightarrow>
         if again then (Inr True, (d1, m\<lparr>ms_flip := Some st1\<rparr>))
         else kv_then (on_dev (flip_commit cap st1)) (kv_return True) (d1, m\<lparr>ms_flip := None\<rparr>))"

definition maint_idle :: "nat \<Rightarrow> nat \<Rightarrow> (eeprom \<times> maint_state, bool) kvm" where
  "maint_idle cap budget = (\<lambda>(d, m). case blank_dead_step cap budget (d, ms_blank m) of (r, (d', cur)) \<Rightarrow> (r, (d', m\<lparr>ms_blank := cur\<rparr>)))"

abbreviation maint_kept :: "nat \<Rightarrow> bytes \<Rightarrow> eeprom \<times> maint_state \<Rightarrow> bool" where
  "maint_kept cap c0 s \<equiv> kept_post cap c0 (ee_buf (fst s)) \<and> maint_ok cap (snd s) (ee_buf (fst s))"

abbreviation maint_err :: "nat \<Rightarrow> bytes \<Rightarrow> kv_error \<Rightarrow> eeprom \<times> maint_state \<Rightarrow> bool" where
  "maint_err cap c0 e s \<equiv> e \<noteq> Stale \<and> kept_post cap c0 (ee_buf (fst s)) \<and> (e = Backend \<or> maint_ok cap (snd s) (ee_buf (fst s)))"

lemma maint_flip_spec:
  assumes wf: "kv_wf cap (ee_buf d)" and F: "fs_ok cap st (ee_buf d)" and m: "maint_ok cap m (ee_buf d)" and cl: "clean d"
  shows "crash_post fst (\<lambda>_. maint_kept cap (ee_buf d)) (maint_err cap (ee_buf d)) (d, m) (maint_flip cap budget st (d, m))"
proof -
  obtain r d1 st1 where step: "flip_step cap budget (d, st) = (r, (d1, st1))" by (metis prod.exhaust)
  note S = crash_postD [OF flip_step_spec [OF wf F cl, of budget, unfolded step], unfolded fst_conv]
  have b4: "bc_off (ms_blank m) mod 4 = 0" using m by (simp add: maint_ok_def)
  have keep: "same_outside (half_base cap (1 - fs_src_h st)) (half_len cap) (ee_buf d) c \<Longrightarrow> kept_post cap (ee_buf d) c" for c
    unfolding kept_post_def using dead_half_frame(1,4) [OF wf fs_okD(1) [OF F]] by blast
  show ?thesis
  proof (cases r)
    case (Inl e)
    with S(7) have "e = Backend" "kept_post cap (ee_buf d) (ee_buf d1)" using keep by (auto simp: slice_cut_def)
    then show ?thesis using S(1-5) Inl step by (auto simp: maint_flip_def crash_post_def)
  next
    case (Inr again)
    then have O: "slice_ok cap (ee_buf d) (fs_src_h st) st1 (ee_buf d1)" using S(6) by (simp add: slice_post_def)
    note F1 = slice_okD(2) [OF O] and k1 = keep [OF slice_okD(1) [OF O]]
    note wf1 = slice_wf(1) [OF wf fs_okD(1) [OF F] O]
    show ?thesis
    proof (cases again)
      case True
      then show ?thesis using S(1-3) Inr step F1 k1 b4 by (simp add: maint_flip_def crash_post_def maint_ok_def)
    next
      case False
      obtain r2 d2 where fc: "flip_commit cap st1 d1 = (r2, d2)" by fastforce
      have "crash_post the_dev (\<lambda>_ d'. kept_post cap (ee_buf d) (ee_buf d'))
          (\<lambda>e d'. (e = Backend \<or> e = Full) \<and> kept_post cap (ee_buf d) (ee_buf d')) d1 (r2, d2)"
        unfolding fc [symmetric]
        using crash_specD [OF crash_flip_commit_pending [OF wf1 F1], of d1] S(1) k1
        by (auto simp: the_dev_def flip_post_def kept_post_def elim!: crash_post_mono)
      note X = crash_postD [OF this, unfolded the_dev_def]
      have "maint_flip cap budget st (d, m) = (case r2 of Inl e \<Rightarrow> Inl e | Inr _ \<Rightarrow> Inr True, (d2, m\<lparr>ms_flip := None\<rparr>))"
        using step Inr False fc by (simp add: maint_flip_def kv_then_def kv_bind_def on_dev_def split: sum.splits)
      then show ?thesis using X S(2,3) b4 by (cases r2) (auto simp: crash_post_def maint_ok_def)
    qed
  qed
qed

lemma maint_idle_spec:
  assumes wf: "kv_wf cap (ee_buf d)" and m: "maint_ok cap m (ee_buf d)" "ms_flip m = None" and cl: "clean d"
  shows "crash_post fst (\<lambda>_. maint_kept cap (ee_buf d)) (maint_err cap (ee_buf d)) (d, m) (maint_idle cap budget (d, m))"
proof -
  have b4: "bc_off (ms_blank m) mod 4 = 0" using m by (simp add: maint_ok_def)
  obtain r d1 cur where run: "blank_dead_step cap budget (d, ms_blank m) = (r, (d1, cur))" by (metis prod.exhaust)
  note X = crash_postD [OF blank_dead_step_spec [OF wf b4 cl, of budget, unfolded run], unfolded fst_conv snd_conv]
  have "maint_idle cap budget (d, m) = (r, (d1, m\<lparr>ms_blank := cur\<rparr>))" using run by (simp add: maint_idle_def)
  then show ?thesis using X m(2) by (cases r) (auto simp: crash_post_def maint_ok_def)
qed

lemma maintain_run:
  assumes wf: "kv_wf cap (ee_buf d)" and m: "maint_ok cap m (ee_buf d)"
  shows "maintain cap budget thr (d, m) = (Inr False, (d, m)) \<or>
     (\<exists>st. ms_flip m = Some st \<and> maintain cap budget thr (d, m) = maint_flip cap budget st (d, m)) \<or>
     ms_flip m = None \<and> (maintain cap budget thr (d, m) = maint_idle cap budget (d, m) \<or>
        maintain cap budget thr (d, m) = (Inl TooManyKeys, (d, m)) \<or>
        (\<exists>st. fs_ok cap st (ee_buf d) \<and> maintain cap budget thr (d, m) = (Inr True, (d, m\<lparr>ms_flip := Some st\<rparr>))))"
proof (cases "active_of cap (ee_buf d)")
  case None
  then show ?thesis using active_ok [OF kv_wfD(1) [OF wf]] by (simp add: maintain_def kv_bind_def on_dev_def)
next
  case (Some hg)
  then obtain h g where a: "active_of cap (ee_buf d) = Some (h, g)" by (cases hg) auto
  note L = kv_wfD(1) [OF wf] and h = active_of_half [OF a]
  note mdefs = maintain_def kv_bind_def kv_then_def on_dev_def kv_ram_def kv_modify_ram_def Let_def
  show ?thesis
  proof (cases "ms_flip m")
    case S: (Some st)
    then have F: "fs_ok cap st (ee_buf d)" using m by (simp add: maint_ok_def)
    then have "(fs_src_h st, fs_src_gen st) = (h, g)" using fs_okD(1) [OF F] a by simp
    then have "maintain cap budget thr (d, m) = maint_flip cap budget st (d, m)"
      using active_ok [OF L] a S by (simp add: mdefs maint_flip_def)
    with S show ?thesis by blast
  next
    case N: None
    let ?e = "log_end (half_at cap h (ee_buf d)) 0"
    note sc = scan_ok [OF L h, of 0]
    obtain r d' where lb: "live_bytes cap d = (r, d')" by fastforce
    obtain r2 d2 where fs: "flip_start cap d = (r2, d2)" by fastforce
    note lbr = live_bytes_reads [OF wf, unfolded lb] and fsr = flip_start_ok [OF wf a, unfolded fs]
    consider (roomy) "\<not> half_len cap - ?e < thr" | (many) "half_len cap - ?e < thr" "r = Inl TooManyKeys" "d' = d"
      | (live) x where "half_len cap - ?e < thr" "r = Inr x" "d' = d" using lbr by auto
    then show ?thesis
    proof cases
      case roomy
      then have "maintain cap budget thr (d, m) = maint_idle cap budget (d, m)"
        using active_ok [OF L] a N sc by (simp add: mdefs maint_idle_def)
      with N show ?thesis by blast
    next
      case many
      then have "maintain cap budget thr (d, m) = (Inl TooManyKeys, (d, m))"
        using active_ok [OF L] a N sc lb by (simp add: mdefs)
      with N show ?thesis by blast
    next
      case (live x)
      show ?thesis
      proof (cases "x + thr \<le> half_len cap")
        case False
        then have "maintain cap budget thr (d, m) = maint_idle cap budget (d, m)"
          using active_ok [OF L] a N sc lb live by (simp add: mdefs maint_idle_def)
        with N show ?thesis by blast
      next
        case True
        have run: "maintain cap budget thr (d, m) = (case r2 of Inl e \<Rightarrow> (Inl e, (d2, m)) | Inr f \<Rightarrow> (Inr True, (d2, m\<lparr>ms_flip := f\<rparr>)))"
          using active_ok [OF L] a N sc lb live True fs by (simp add: mdefs split: sum.splits)
        from fsr have "(r2 = Inl TooManyKeys \<and> d2 = d) \<or> (\<exists>st. r2 = Inr (Some st) \<and> d2 = d \<and> fs_ok cap st (ee_buf d))"
          by (auto split: sum.splits option.splits)
        with run N show ?thesis by auto
      qed
    qed
  qed
qed

lemma maintain_spec:
  assumes wf: "kv_wf cap (ee_buf d)" and m: "maint_ok cap m (ee_buf d)" and cl: "clean d"
  shows "crash_post fst (\<lambda>_. maint_kept cap (ee_buf d)) (maint_err cap (ee_buf d)) (d, m) (maintain cap budget thr (d, m))"
proof -
  have k: "kept_post cap (ee_buf d) (ee_buf d)" using wf by (simp add: kept_post_def)
  from maintain_run [OF wf m, of budget thr] show ?thesis
  proof (elim disjE exE conjE)
    assume "maintain cap budget thr (d, m) = (Inr False, (d, m))"
    then show ?thesis using k m cl by (simp add: crash_post_def)
  next
    fix st assume st: "ms_flip m = Some st" "maintain cap budget thr (d, m) = maint_flip cap budget st (d, m)"
    then have "fs_ok cap st (ee_buf d)" using m by (simp add: maint_ok_def)
    from maint_flip_spec [OF wf this m cl] st show ?thesis by simp
  next
    assume "ms_flip m = None" "maintain cap budget thr (d, m) = maint_idle cap budget (d, m)"
    with maint_idle_spec [OF wf m _ cl] show ?thesis by simp
  next
    assume "maintain cap budget thr (d, m) = (Inl TooManyKeys, (d, m))"
    then show ?thesis using k m cl by (simp add: crash_post_def)
  next
    fix st assume "fs_ok cap st (ee_buf d)" "maintain cap budget thr (d, m) = (Inr True, (d, m\<lparr>ms_flip := Some st\<rparr>))"
    then show ?thesis using k m cl by (simp add: crash_post_def maint_ok_def)
  qed
qed

end
