(* ===== verification/Fw_Storage.thy ===== *)
theory Fw_Storage
  imports Kv_Maintain
begin

text \<open>
  The shared store of the firmware (\<open>firmware/src/storage.rs\<close>): \<open>Kv\<close>, the codec over the EEPROM
  with its RAM maintenance state and the freeze after a wipe; \<open>Nv\<close>, the handle that wakes the
  maintenance task; \<open>Scoped\<close>, the namespaced view. The flash peripheral is the power-cut device
  of \<open>Kv_Device\<close>; the serde codec is a parameter. Then the events of a device's life (calls,
  maintenance slices, power cycles) as a run, and its refinement of a map: whatever happens,
  the store holds exactly the acknowledged writes.
\<close>

section \<open>The store\<close>

datatype fw_error = Flash | FValueTooLarge | FFull | FInvalidKey | FTooManyKeys | FStale | Frozen

fun fw_err :: "kv_error \<Rightarrow> fw_error" where
  "fw_err Backend = Flash"
| "fw_err ValueTooLarge = FValueTooLarge"
| "fw_err Full = FFull"
| "fw_err InvalidKey = FInvalidKey"
| "fw_err TooManyKeys = FTooManyKeys"
| "fw_err Stale = FStale"

record fw_kv =
  fk_storage :: eeprom
  fk_capacity :: nat
  fk_maint :: maint_state
  fk_frozen :: bool

text \<open>\<open>Kv::new\<close>: mount or format, best effort.\<close>

definition fw_new :: "nat \<Rightarrow> eeprom \<Rightarrow> fw_kv" where
  "fw_new capacity storage =
     \<lparr>fk_storage = snd (kv_init capacity storage), fk_capacity = capacity, fk_maint = maint_new, fk_frozen = False\<rparr>"

definition fw_writable :: "fw_kv \<Rightarrow> fw_error + unit" where
  "fw_writable k = (if fk_frozen k then Inl Frozen else Inr ())"

text \<open>\<open>map_err(Error::from)\<close>.\<close>

definition map_err :: "kv_error + 'a \<Rightarrow> fw_error + 'a" where
  "map_err r = (case r of Inl e \<Rightarrow> Inl (fw_err e) | Inr x \<Rightarrow> Inr x)"

text \<open>A write that takes the pending flip along (\<open>self.maint.pending()\<close>), behind the freeze.\<close>

definition fw_with_pending :: "(eeprom \<times> flip_state option, 'a) kvm \<Rightarrow> fw_kv \<Rightarrow> (fw_error + 'a) \<times> fw_kv" where
  "fw_with_pending m k =
     (case m (fk_storage k, ms_flip (fk_maint k)) of (r, (d, p)) \<Rightarrow>
        (map_err r, k\<lparr>fk_storage := d, fk_maint := (fk_maint k)\<lparr>ms_flip := p\<rparr>\<rparr>))"

definition fw_set_bytes :: "u16 \<Rightarrow> bytes \<Rightarrow> fw_kv \<Rightarrow> (fw_error + unit) \<times> fw_kv" where
  "fw_set_bytes key v k =
     (case fw_writable k of Inl e \<Rightarrow> (Inl e, k)
      | Inr _ \<Rightarrow> fw_with_pending (set_bytes_with (fk_capacity k) key v) k)"

definition fw_delete :: "u16 \<Rightarrow> fw_kv \<Rightarrow> (fw_error + unit) \<times> fw_kv" where
  "fw_delete key k =
     (case fw_writable k of Inl e \<Rightarrow> (Inl e, k)
      | Inr _ \<Rightarrow> fw_with_pending (delete_with (fk_capacity k) key) k)"

definition fw_compact :: "fw_kv \<Rightarrow> (fw_error + unit) \<times> fw_kv" where
  "fw_compact k =
     (case fw_writable k of Inl e \<Rightarrow> (Inl e, k)
      | Inr _ \<Rightarrow> fw_with_pending (compact_with (fk_capacity k)) k)"

text \<open>Reads take the storage by shared reference: the result only.\<close>

definition fw_get_bytes :: "u16 \<Rightarrow> nat \<Rightarrow> fw_kv \<Rightarrow> fw_error + (nat \<times> bytes) option" where
  "fw_get_bytes key n k = map_err (fst (get_bytes (fk_capacity k) key n (fk_storage k)))"

text \<open>\<open>set\<close> and \<open>get\<close> of a serde value: \<open>ser x n\<close> serialises into a buffer of \<open>n\<close> bytes, \<open>de\<close> reads one.\<close>

definition fw_set :: "('a \<Rightarrow> nat \<Rightarrow> bytes option) \<Rightarrow> u16 \<Rightarrow> 'a \<Rightarrow> fw_kv \<Rightarrow> (fw_error + unit) \<times> fw_kv" where
  "fw_set ser key x k =
     (case ser x MAX_VALUE of None \<Rightarrow> (Inl FValueTooLarge, k) | Some bs \<Rightarrow> fw_set_bytes key bs k)"

definition fw_get :: "(bytes \<Rightarrow> 'a option) \<Rightarrow> u16 \<Rightarrow> fw_kv \<Rightarrow> fw_error + 'a option" where
  "fw_get de key k =
     (case fw_get_bytes key MAX_VALUE k of
        Inl e \<Rightarrow> Inl e
      | Inr (Some (len, buf)) \<Rightarrow> Inr (if len \<le> MAX_VALUE then de (take len buf) else None)
      | Inr None \<Rightarrow> Inr None)"

definition fw_maintain :: "nat \<Rightarrow> fw_kv \<Rightarrow> (fw_error + bool) \<times> fw_kv" where
  "fw_maintain budget_words k =
     (if fk_frozen k then (Inr False, k)
      else (case maintain (fk_capacity k) budget_words FLIP_THRESHOLD (fk_storage k, fk_maint k) of
        (r, (d, m)) \<Rightarrow> (map_err r, k\<lparr>fk_storage := d, fk_maint := m\<rparr>)))"

definition factory_wipe :: "nat \<Rightarrow> eeprom \<Rightarrow> (fw_error + unit) \<times> eeprom" where
  "factory_wipe capacity storage = (case wipe capacity storage of (r, d) \<Rightarrow> (map_err r, d))"

definition fw_wipe :: "fw_kv \<Rightarrow> (fw_error + unit) \<times> fw_kv" where
  "fw_wipe k =
     (case factory_wipe (fk_capacity k) (fk_storage k) of (r, d) \<Rightarrow>
        (r, k\<lparr>fk_frozen := True, fk_maint := maint_new, fk_storage := d\<rparr>))"

definition unwrap_or :: "'a \<Rightarrow> kv_error + 'a \<Rightarrow> 'a" where
  "unwrap_or x r = (case r of Inl _ \<Rightarrow> x | Inr y \<Rightarrow> y)"

definition fw_flip_generation :: "fw_kv \<Rightarrow> u32" where
  "fw_flip_generation k = unwrap_or 0 (fst (generation (fk_capacity k) (fk_storage k)))"

definition fw_free_bytes :: "fw_kv \<Rightarrow> nat" where
  "fw_free_bytes k = unwrap_or 0 (fst (free_bytes (fk_capacity k) (fk_storage k)))"

definition fw_live_bytes :: "fw_kv \<Rightarrow> nat" where
  "fw_live_bytes k = unwrap_or 0 (fst (live_bytes (fk_capacity k) (fk_storage k)))"

definition fw_dead_half_blank :: "fw_kv \<Rightarrow> bool" where
  "fw_dead_half_blank k = unwrap_or False (fst (dead_half_blank (fk_capacity k) (fk_storage k)))"

section \<open>Namespaces\<close>

definition NS_SYS :: u8 where "NS_SYS = 0x53"
definition NS_NET :: u8 where "NS_NET = 0x52"
definition NS_SHELL :: u8 where "NS_SHELL = 0x55"
definition NS_APP :: u8 where "NS_APP = 0x60"

definition ns_key :: "u8 \<Rightarrow> u8 \<Rightarrow> u16" where
  "ns_key ns local = push_bit 8 (ucast ns) OR ucast local"

section \<open>The shared handle\<close>

text \<open>\<open>Nv\<close>: the one store behind its lock, and whether the maintenance task has been woken
  (\<open>MAINT_WAKE\<close>).\<close>

record nv =
  nv_kv :: fw_kv
  nv_wake :: bool

definition nv_set_bytes :: "u16 \<Rightarrow> bytes \<Rightarrow> nv \<Rightarrow> (fw_error + unit) \<times> nv" where
  "nv_set_bytes key v n = (case fw_set_bytes key v (nv_kv n) of (r, k) \<Rightarrow> (r, n\<lparr>nv_kv := k, nv_wake := True\<rparr>))"

definition nv_delete :: "u16 \<Rightarrow> nv \<Rightarrow> (fw_error + unit) \<times> nv" where
  "nv_delete key n = (case fw_delete key (nv_kv n) of (r, k) \<Rightarrow> (r, n\<lparr>nv_kv := k, nv_wake := True\<rparr>))"

definition nv_compact :: "nv \<Rightarrow> (fw_error + unit) \<times> nv" where
  "nv_compact n = (case fw_compact (nv_kv n) of (r, k) \<Rightarrow> (r, n\<lparr>nv_kv := k, nv_wake := True\<rparr>))"

definition nv_wipe :: "nv \<Rightarrow> (fw_error + unit) \<times> nv" where
  "nv_wipe n = (case fw_wipe (nv_kv n) of (r, k) \<Rightarrow> (r, n\<lparr>nv_kv := k\<rparr>))"

definition nv_maintain :: "nat \<Rightarrow> nv \<Rightarrow> bool \<times> nv" where
  "nv_maintain budget_words n =
     (case fw_maintain budget_words (nv_kv n) of (r, k) \<Rightarrow> (r = Inr True, n\<lparr>nv_kv := k\<rparr>))"

definition nv_get_bytes :: "u16 \<Rightarrow> nat \<Rightarrow> nv \<Rightarrow> fw_error + (nat \<times> bytes) option" where
  "nv_get_bytes key len n = fw_get_bytes key len (nv_kv n)"

definition MAINT_BUDGET_WORDS :: nat where "MAINT_BUDGET_WORDS = 4"

text \<open>\<open>Scoped\<close>: the namespace and a local key make the full key.\<close>

definition scoped_set_bytes :: "u8 \<Rightarrow> u8 \<Rightarrow> bytes \<Rightarrow> nv \<Rightarrow> (fw_error + unit) \<times> nv" where
  "scoped_set_bytes ns local v n = nv_set_bytes (ns_key ns local) v n"

definition scoped_get_bytes :: "u8 \<Rightarrow> u8 \<Rightarrow> nat \<Rightarrow> nv \<Rightarrow> fw_error + (nat \<times> bytes) option" where
  "scoped_get_bytes ns local len n = nv_get_bytes (ns_key ns local) len n"

definition scoped_delete :: "u8 \<Rightarrow> u8 \<Rightarrow> nv \<Rightarrow> (fw_error + unit) \<times> nv" where
  "scoped_delete ns local n = nv_delete (ns_key ns local) n"

section \<open>The invariant of the store\<close>

definition fw_abs :: "fw_kv \<Rightarrow> u16 \<Rightarrow> bytes option" where
  "fw_abs k = kv_abs (fk_capacity k) (ee_buf (fk_storage k))"

text \<open>Well-formed cells, and while the part is powered a maintenance state that describes them.\<close>

definition fw_inv :: "fw_kv \<Rightarrow> bool" where
  "fw_inv k \<longleftrightarrow> kv_wf (fk_capacity k) (ee_buf (fk_storage k)) \<and> clean (fk_storage k) \<and>
     (ee_dead (fk_storage k) \<or> maint_ok (fk_capacity k) (fk_maint k) (ee_buf (fk_storage k)))"

abbreviation fw_off :: "fw_kv \<Rightarrow> bool" where
  "fw_off k \<equiv> ee_dead (fk_storage k)"

lemma map_err_simps [simp]: "map_err (Inl e) = Inl (fw_err e)" "map_err (Inr x) = Inr x"
  by (simp_all add: map_err_def)

lemma fw_err_inj [simp]: "fw_err e = fw_err e' \<longleftrightarrow> e = e'"
  by (cases e; cases e') auto

lemma fw_with_pending_post:
  assumes inv: "fw_inv k" and on: "\<not> fw_off k"
    and spec: "\<And>d p. kv_wf (fk_capacity k) (ee_buf d) \<Longrightarrow> pend_ok (fk_capacity k) p (ee_buf d) \<Longrightarrow> clean d \<Longrightarrow>
      crash_post fst (\<lambda>_ s. kv_wf (fk_capacity k) (ee_buf (fst s)) \<and> kv_abs (fk_capacity k) (ee_buf (fst s)) = f (kv_abs (fk_capacity k) (ee_buf d)) \<and>
          pend_ok (fk_capacity k) (snd s) (ee_buf (fst s))) (kept_pend (fk_capacity k) (ee_buf d)) (d, p) (m (d, p))"
    and run: "fw_with_pending m k = (r, k')"
  shows "fw_inv k'" and "fk_capacity k' = fk_capacity k" and "fk_frozen k' = fk_frozen k"
    and "r = Inr x \<Longrightarrow> fw_abs k' = f (fw_abs k)" and "r = Inl e \<Longrightarrow> fw_abs k' = fw_abs k"
    and "r = Inl Flash \<Longrightarrow> fw_off k'"
proof -
  let ?cap = "fk_capacity k" and ?d = "fk_storage k" and ?p = "ms_flip (fk_maint k)"
  obtain r1 d1 p1 where m: "m (?d, ?p) = (r1, (d1, p1))" by (metis prod.exhaust)
  from inv on have wf: "kv_wf ?cap (ee_buf ?d)" and cl: "clean ?d" and mo: "maint_ok ?cap (fk_maint k) (ee_buf ?d)"
    by (auto simp: fw_inv_def)
  from mo have po: "pend_ok ?cap ?p (ee_buf ?d)" by (simp add: maint_ok_def)
  note S = crash_postD [OF spec [OF wf po cl, unfolded m], unfolded fst_conv snd_conv]
  from run m have k': "r = map_err r1" "k' = k\<lparr>fk_storage := d1, fk_maint := (fk_maint k)\<lparr>ms_flip := p1\<rparr>\<rparr>"
    by (auto simp: fw_with_pending_def)
  then show "fk_capacity k' = ?cap" "fk_frozen k' = fk_frozen k" by simp_all
  have b4: "bc_off (ms_blank (fk_maint k)) mod 4 = 0" using mo by (simp add: maint_ok_def)
  show "fw_inv k'"
  proof (cases r1)
    case (Inl e)
    with S(1,5,7) k' b4 show ?thesis by (auto simp: fw_inv_def kept_pend_def kept_post_def maint_ok_def)
  next
    case (Inr y)
    with S(1,6) k' b4 show ?thesis by (auto simp: fw_inv_def maint_ok_def)
  qed
  show "r = Inr x \<Longrightarrow> fw_abs k' = f (fw_abs k)" using S(6) k' by (cases r1) (auto simp: fw_abs_def)
  show "r = Inl e \<Longrightarrow> fw_abs k' = fw_abs k" using S(7) k' by (cases r1) (auto simp: fw_abs_def kept_pend_def kept_post_def)
  show "r = Inl Flash \<Longrightarrow> fw_off k'"
  proof -
    assume "r = Inl Flash"
    then have "r1 = Inl Backend" using k'(1) fw_err_inj [of _ Backend] by (cases r1) auto
    with S(5) k'(2) show "fw_off k'" by simp
  qed
qed

section \<open>What each call does\<close>

lemma set_pend_spec:
  assumes "kv_wf cap (ee_buf d)" and "pend_ok cap p (ee_buf d)" and "clean d"
  shows "crash_post fst (\<lambda>_ s. kv_wf cap (ee_buf (fst s)) \<and> kv_abs cap (ee_buf (fst s)) = kv_put key v (kv_abs cap (ee_buf d)) \<and>
      pend_ok cap (snd s) (ee_buf (fst s))) (kept_pend cap (ee_buf d)) (d, p) (set_bytes_with cap key v (d, p))"
  by (rule crash_post_mono [OF set_bytes_with_spec [OF assms]]) (auto simp: put_pend_def put_post_def kept_post_def kept_pend_def)

lemma delete_pend_spec:
  assumes "kv_wf cap (ee_buf d)" and "pend_ok cap p (ee_buf d)" and "clean d"
  shows "crash_post fst (\<lambda>_ s. kv_wf cap (ee_buf (fst s)) \<and> kv_abs cap (ee_buf (fst s)) = kv_put key [] (kv_abs cap (ee_buf d)) \<and>
      pend_ok cap (snd s) (ee_buf (fst s))) (kept_pend cap (ee_buf d)) (d, p) (delete_with cap key (d, p))"
  by (rule crash_post_mono [OF delete_with_spec [OF assms]]) (auto simp: put_pend_def put_post_def kept_post_def kept_pend_def)

lemma compact_pend_spec:
  assumes "kv_wf cap (ee_buf d)" and "pend_ok cap p (ee_buf d)" and "clean d"
  shows "crash_post fst (\<lambda>_ s. kv_wf cap (ee_buf (fst s)) \<and> kv_abs cap (ee_buf (fst s)) = id (kv_abs cap (ee_buf d)) \<and>
      pend_ok cap (snd s) (ee_buf (fst s))) (kept_pend cap (ee_buf d)) (d, p) (compact_with cap (d, p))"
  by (rule crash_post_mono [OF compact_with_spec [OF assms]]) (auto simp: put_pend_def put_post_def kept_post_def kept_pend_def)

text \<open>The abstract effect of a call.\<close>

datatype fw_op = OpSet u16 bytes | OpDelete u16 | OpCompact | OpMaintain nat

fun apply_op :: "fw_op \<Rightarrow> (u16 \<Rightarrow> bytes option) \<Rightarrow> u16 \<Rightarrow> bytes option" where
  "apply_op (OpSet key v) m = kv_put key v m"
| "apply_op (OpDelete key) m = kv_put key [] m"
| "apply_op OpCompact m = m"
| "apply_op (OpMaintain b) m = m"

text \<open>A call on the store: whether it reported success, and the store.\<close>

fun fw_call :: "fw_op \<Rightarrow> fw_kv \<Rightarrow> bool \<times> fw_kv" where
  "fw_call (OpSet key v) k = (case fw_set_bytes key v k of (r, k') \<Rightarrow> (r = Inr (), k'))"
| "fw_call (OpDelete key) k = (case fw_delete key k of (r, k') \<Rightarrow> (r = Inr (), k'))"
| "fw_call OpCompact k = (case fw_compact k of (r, k') \<Rightarrow> (r = Inr (), k'))"
| "fw_call (OpMaintain b) k = (case fw_maintain b k of (r, k') \<Rightarrow> (isl r = False, k'))"

lemma fw_maintain_post:
  assumes inv: "fw_inv k" and on: "\<not> fw_off k" and run: "fw_maintain b k = (r, k')"
  shows "fw_inv k' \<and> fk_capacity k' = fk_capacity k \<and> fk_frozen k' = fk_frozen k \<and> fw_abs k' = fw_abs k"
proof (cases "fk_frozen k")
  case True
  with run inv show ?thesis by (simp add: fw_maintain_def)
next
  case False
  let ?cap = "fk_capacity k" and ?d = "fk_storage k" and ?m = "fk_maint k"
  obtain r1 d1 m1 where m: "maintain ?cap b FLIP_THRESHOLD (?d, ?m) = (r1, (d1, m1))" by (metis prod.exhaust)
  from inv on have wf: "kv_wf ?cap (ee_buf ?d)" and cl: "clean ?d" and mo: "maint_ok ?cap ?m (ee_buf ?d)"
    by (auto simp: fw_inv_def)
  note S = crash_postD [OF maintain_spec [OF wf mo cl, of b FLIP_THRESHOLD, unfolded m], unfolded fst_conv snd_conv]
  from run m False have k': "k' = k\<lparr>fk_storage := d1, fk_maint := m1\<rparr>" by (auto simp: fw_maintain_def)
  show ?thesis
  proof (cases r1)
    case (Inl e)
    with S(1,5,7) k' show ?thesis by (auto simp: fw_inv_def fw_abs_def kept_post_def)
  next
    case (Inr y)
    with S(1,6) k' show ?thesis by (auto simp: fw_inv_def fw_abs_def kept_post_def)
  qed
qed

lemma fw_call_post:
  assumes inv: "fw_inv k" and on: "\<not> fw_off k" and run: "fw_call c k = (ok, k')"
  shows "fw_inv k' \<and> fk_capacity k' = fk_capacity k \<and> fk_frozen k' = fk_frozen k \<and>
     fw_abs k' = (if ok then apply_op c (fw_abs k) else fw_abs k)"
proof (cases c)
  case (OpMaintain b)
  then show ?thesis using run fw_maintain_post [OF inv on] by (auto split: prod.splits)
next
  case (OpSet key v)
  obtain r k1 where r: "fw_set_bytes key v k = (r, k1)" by fastforce
  show ?thesis
  proof (cases "fk_frozen k")
    case True
    then show ?thesis using run r OpSet inv by (auto simp: fw_set_bytes_def fw_writable_def)
  next
    case False
    then have "fw_with_pending (set_bytes_with (fk_capacity k) key v) k = (r, k1)" using r by (simp add: fw_set_bytes_def fw_writable_def)
    from fw_with_pending_post [OF inv on set_pend_spec this] run r OpSet show ?thesis by (cases r) auto
  qed
next
  case (OpDelete key)
  obtain r k1 where r: "fw_delete key k = (r, k1)" by fastforce
  show ?thesis
  proof (cases "fk_frozen k")
    case True
    then show ?thesis using run r OpDelete inv by (auto simp: fw_delete_def fw_writable_def)
  next
    case False
    then have "fw_with_pending (delete_with (fk_capacity k) key) k = (r, k1)" using r by (simp add: fw_delete_def fw_writable_def)
    from fw_with_pending_post [OF inv on delete_pend_spec this] run r OpDelete show ?thesis by (cases r) auto
  qed
next
  case OpCompact
  obtain r k1 where r: "fw_compact k = (r, k1)" by fastforce
  show ?thesis
  proof (cases "fk_frozen k")
    case True
    then show ?thesis using run r OpCompact inv by (auto simp: fw_compact_def fw_writable_def)
  next
    case False
    then have "fw_with_pending (compact_with (fk_capacity k)) k = (r, k1)" using r by (simp add: fw_compact_def fw_writable_def)
    from fw_with_pending_post [OF inv on compact_pend_spec this] run r OpCompact show ?thesis by (cases r) auto
  qed
qed

section \<open>The life of a store\<close>

text \<open>A power cycle: the part comes back, perhaps to lose power again after \<open>n\<close> word programs, and
  \<open>Kv::new\<close> mounts it.\<close>

definition fw_cycle :: "(nat \<times> tear) option \<Rightarrow> fw_kv \<Rightarrow> fw_kv" where
  "fw_cycle pc k = fw_new (fk_capacity k)
     (case pc of None \<Rightarrow> ram_revive (fk_storage k) | Some (n, t) \<Rightarrow> ram_arm n t (ram_revive (fk_storage k)))"

datatype fw_event = Call fw_op | PowerCycle "(nat \<times> tear) option"

text \<open>A power cycle whose cut is clean (\<open>clean\<close> of \<open>Kv_Device\<close>): the word it tears reads as before or erased. The
  statements about lives are about such cuts; a garbled word is excluded.\<close>

fun clean_event :: "fw_event \<Rightarrow> bool" where
  "clean_event (PowerCycle (Some (n, t))) = (t \<noteq> Garbled)"
| "clean_event e = True"

text \<open>A run: the calls that reported success, and the store at the end. A part without power
  executes nothing.\<close>

fun fw_life :: "fw_event list \<Rightarrow> fw_kv \<Rightarrow> fw_op list \<times> fw_kv" where
  "fw_life [] k = ([], k)"
| "fw_life (PowerCycle pc # es) k = fw_life es (fw_cycle pc k)"
| "fw_life (Call c # es) k =
     (if fw_off k then fw_life es k
      else case fw_call c k of (ok, k1) \<Rightarrow>
        (case fw_life es k1 of (acked, k2) \<Rightarrow> (if ok then c # acked else acked, k2)))"

lemma fw_new_post:
  assumes "kv_wf cap (ee_buf d)" and "clean d"
  shows "fw_inv (fw_new cap d)" and "fw_abs (fw_new cap d) = kv_abs cap (ee_buf d)" and "fk_capacity (fw_new cap d) = cap"
proof -
  obtain r d1 where m: "kv_init cap d = (r, d1)" by fastforce
  have "crash_post the_dev (\<lambda>_ d'. kept_post cap (ee_buf d) (ee_buf d')) (\<lambda>e d'. kept_post cap (ee_buf d) (ee_buf d')) d (r, d1)"
    unfolding m [symmetric] using crash_specD [OF crash_init [OF assms(1)], of d] assms(2)
    by (auto simp: the_dev_def elim!: crash_post_mono)
  note S = crash_postD [OF this, unfolded the_dev_def]
  from S(1,6,7) m show "fw_inv (fw_new cap d)" "fw_abs (fw_new cap d) = kv_abs cap (ee_buf d)" "fk_capacity (fw_new cap d) = cap"
    by (cases r; simp add: fw_inv_def fw_abs_def fw_new_def kept_post_def)+
qed

lemma fw_cycle_post:
  assumes "fw_inv k" and "clean_event (PowerCycle pc)"
  shows "fw_inv (fw_cycle pc k)" and "fw_abs (fw_cycle pc k) = fw_abs k" and "fk_capacity (fw_cycle pc k) = fk_capacity k"
proof -
  let ?d = "case pc of None \<Rightarrow> ram_revive (fk_storage k) | Some (n, t) \<Rightarrow> ram_arm n t (ram_revive (fk_storage k))"
  have d: "clean ?d" "ee_buf ?d = ee_buf (fk_storage k)"
    using assms(2) by (auto simp: clean_def ram_arm_def ram_revive_def split: option.splits)
  from assms(1) have wf: "kv_wf (fk_capacity k) (ee_buf ?d)" using d(2) by (simp add: fw_inv_def)
  from fw_new_post [OF wf d(1)] d(2) show "fw_inv (fw_cycle pc k)" "fw_abs (fw_cycle pc k) = fw_abs k"
    "fk_capacity (fw_cycle pc k) = fk_capacity k" by (simp_all add: fw_cycle_def fw_abs_def)
qed

lemma fw_life_post:
  "fw_inv k \<Longrightarrow> list_all clean_event es \<Longrightarrow> fw_life es k = (acked, k') \<Longrightarrow>
     fw_inv k' \<and> fw_abs k' = fold apply_op acked (fw_abs k)"
proof (induction es k arbitrary: acked k' rule: fw_life.induct)
  case (2 pc es k)
  then show ?case using fw_cycle_post [OF "2.prems"(1), of pc] by simp
next
  case (3 c es k)
  show ?case
  proof (cases "fw_off k")
    case True
    then show ?thesis using 3 by simp
  next
    case False
    obtain ok k1 where c: "fw_call c k = (ok, k1)" by fastforce
    obtain a k2 where l: "fw_life es k1 = (a, k2)" by fastforce
    note P = fw_call_post [OF "3.prems"(1) False c]
    from "3.IH"(2) [OF False c [symmetric] _ _ l] P "3.prems"(2)
    have "fw_inv k2 \<and> fw_abs k2 = fold apply_op a (fw_abs k1)" by simp
    moreover have "acked = (if ok then c # a else a)" "k' = k2" using "3.prems"(3) False c l by auto
    ultimately show ?thesis using P by simp
  qed
qed simp

lemma fw_get_bytes_abs:
  "fw_inv k \<Longrightarrow> fw_get_bytes key n k = Inr (map_option (\<lambda>v. (length v, take n v)) (fw_abs k key))"
  using get_bytes_abs [of "fk_capacity k" "fk_storage k" key n] kv_wfD(1)
  by (auto simp: fw_get_bytes_def fw_inv_def fw_abs_def)

text \<open>A concrete store for the instances: a freshly formatted part of 128 bytes, mounted.\<close>

definition demo_kv :: fw_kv where
  "demo_kv = \<lparr>fk_storage = formatted 128, fk_capacity = 128, fk_maint = maint_new, fk_frozen = False\<rparr>"

lemma demo_kv_inv: "fw_inv demo_kv" "\<not> fw_off demo_kv"
  using formatted_128 by (simp_all add: fw_inv_def demo_kv_def healthy_def)

lemma demo_kv_abs: "fw_abs demo_kv = Map.empty"
  using formatted_128(2,3) by (simp add: fw_abs_def demo_kv_def kv_abs_def log_of_zeros log_map_def fun_eq_iff)

text \<open>C2. The store is a durable map: over any sequence of writes, deletes, compactions, maintenance
  slices of any budget and power cycles with clean cuts (power lost inside any word program, of a flip under way
  or of the mount itself included, the torn word reading as before or erased), it holds exactly the acknowledged
  writes, in order, and every key reads back accordingly.\<close>

theorem store_refines_map:
  assumes "fw_inv k" and "list_all clean_event es" and "fw_life es k = (acked, k')"
  shows "fw_inv k' \<and> fw_abs k' = fold apply_op acked (fw_abs k) \<and>
     fw_get_bytes key n k' = Inr (map_option (\<lambda>v. (length v, take n v)) (fold apply_op acked (fw_abs k) key))"
  using fw_life_post [OF assms] fw_get_bytes_abs by simp

definition demo_events :: "fw_event list" where
  "demo_events = [Call (OpSet 5 [1, 2, 3]), Call (OpMaintain 4), PowerCycle (Some (2, Erased)), Call (OpSet 5 [9]), PowerCycle None]"

theorem store_refines_map_witness:
  "fw_get_bytes 5 8 (snd (fw_life demo_events demo_kv)) =
     Inr (map_option (\<lambda>v. (length v, take 8 v)) (fold apply_op (fst (fw_life demo_events demo_kv)) Map.empty 5))"
  using store_refines_map [OF demo_kv_inv(1), of demo_events "fst (fw_life demo_events demo_kv)" "snd (fw_life demo_events demo_kv)" 5 8]
  by (simp add: demo_events_def demo_kv_abs)

lemma ns_key_inject: "ns_key ns l = ns_key ns' l' \<longleftrightarrow> ns = ns' \<and> l = l'"
proof
  assume eq: "ns_key ns l = ns_key ns' l'"
  have low: "bit (ns_key a b) i = bit b i" if "i < 8" for a b i
    using that by (simp add: ns_key_def bit_simps)
  have high: "bit (ns_key a b) (i + 8) = bit a i" if "i < 8" for a b i
    using that by (auto simp: ns_key_def bit_simps dest: bit_imp_le_length)
  have "bit l i = bit l' i" if "i < 8" for i using low [OF that] eq by metis
  moreover have "bit ns i = bit ns' i" if "i < 8" for i using high [OF that] eq by metis
  ultimately show "ns = ns' \<and> l = l'" by (auto intro!: bit_word_eqI)
qed simp

lemma fw_set_bytes_post:
  assumes "fw_inv k" and "\<not> fw_off k" and "fw_set_bytes key v k = (r, k')"
  shows "fw_inv k' \<and> fk_capacity k' = fk_capacity k \<and> fw_abs k' = (if r = Inr () then kv_put key v (fw_abs k) else fw_abs k)"
  using fw_call_post [OF assms(1,2), of "OpSet key v" "r = Inr ()" k'] assms(3) by simp

text \<open>C22. Namespaces are separate by construction: a successful scoped write is what its own local
  reads next, and no other local of this namespace and no key of another namespace changes.\<close>

theorem scoped_isolated:
  assumes "fw_inv (nv_kv n)" and "\<not> fw_off (nv_kv n)" and "scoped_set_bytes ns l v n = (Inr (), n')"
  shows "nv_wake n' \<and> scoped_get_bytes ns l m n' = Inr (if v = [] then None else Some (length v, take m v)) \<and>
     (\<forall>ns' l'. (ns', l') \<noteq> (ns, l) \<longrightarrow> scoped_get_bytes ns' l' m n' = scoped_get_bytes ns' l' m n)"
proof -
  obtain r k' where r: "fw_set_bytes (ns_key ns l) v (nv_kv n) = (r, k')" by fastforce
  with assms(3) have n': "r = Inr ()" "nv_kv n' = k'" "nv_wake n'" by (auto simp: scoped_set_bytes_def nv_set_bytes_def)
  note P = fw_set_bytes_post [OF assms(1,2) r]
  show ?thesis
    using n' P fw_get_bytes_abs [OF assms(1)] fw_get_bytes_abs [of k']
    by (auto simp: scoped_get_bytes_def nv_get_bytes_def kv_put_def ns_key_inject)
qed

lemma demo_set_key:
  assumes "key \<noteq> 0" and "length v \<le> 24"
  shows "fw_set_bytes key v demo_kv = (Inr (), snd (fw_set_bytes key v demo_kv))"
proof -
  have "fst (set_bytes 128 key v (formatted 128)) = Inr ()"
    by (rule set_bytes_room [OF formatted_128(1,4) assms(1) _ formatted_128(2)])
      (use assms(2) in \<open>simp_all add: formatted_sizes record_size_def KV_HEADER_def MAX_VALUE_def\<close>)
  then have "fst (fw_set_bytes key v demo_kv) = Inr ()"
    by (auto simp: fw_set_bytes_def fw_writable_def fw_with_pending_def demo_kv_def maint_new_def set_bytes_with_none split: prod.splits)
  then show ?thesis by (metis prod.collapse)
qed

lemma demo_set:
  assumes "length v = 4"
  shows "fw_set_bytes (ns_key NS_NET 0) v demo_kv = (Inr (), snd (fw_set_bytes (ns_key NS_NET 0) v demo_kv))"
  using assms by (intro demo_set_key) (simp_all add: ns_key_def NS_NET_def)

theorem scoped_isolated_witness:
  "scoped_get_bytes NS_NET 0 4 (snd (scoped_set_bytes NS_NET 0 [1, 2, 3, 4] \<lparr>nv_kv = demo_kv, nv_wake = False\<rparr>)) = Inr (Some (4, [1, 2, 3, 4]))"
  using scoped_isolated [of "\<lparr>nv_kv = demo_kv, nv_wake = False\<rparr>" NS_NET 0 "[1, 2, 3, 4]"
      "snd (scoped_set_bytes NS_NET 0 [1, 2, 3, 4] \<lparr>nv_kv = demo_kv, nv_wake = False\<rparr>)" 4] demo_kv_inv demo_set [of "[1, 2, 3, 4]"]
  by (auto simp: scoped_set_bytes_def nv_set_bytes_def split: prod.splits)

text \<open>C21. A factory reset is atomic (under clean cuts) and final: it leaves the whole old store or an empty one, an
  empty one with both halves scrubbed when it reports success, and from then on every write is
  refused as \<open>Frozen\<close> without touching the part, until the power cycle (below the generation
  ceiling).\<close>

theorem wipe_freezes:
  assumes "fw_inv k" and "\<not> fw_off k" and "fw_flip_generation k \<noteq> - 1" and "fw_wipe k = (r, k')"
  shows "(fw_abs k' = fw_abs k \<or> fw_abs k' = Map.empty) \<and>
     (r = Inr () \<longrightarrow> fw_abs k' = Map.empty \<and> scrubbed (fk_capacity k') (ee_buf (fk_storage k'))) \<and>
     fw_set_bytes key v k' = (Inl Frozen, k') \<and> fw_delete key k' = (Inl Frozen, k') \<and> fw_compact k' = (Inl Frozen, k') \<and>
     fw_maintain b k' = (Inr False, k') \<and> fw_inv k'"
proof -
  let ?cap = "fk_capacity k" and ?d = "fk_storage k"
  from assms(1) have wf: "kv_wf ?cap (ee_buf ?d)" and cl: "clean ?d" by (auto simp: fw_inv_def)
  have g: "active_of ?cap (ee_buf ?d) \<noteq> Some (h, - 1)" for h
    using assms(3) generation_of [OF kv_wfD(1) [OF wf]] by (auto simp: fw_flip_generation_def unwrap_or_def)
  obtain r1 d1 where w: "wipe ?cap ?d = (r1, d1)" by fastforce
  note S = crash_postD [OF crash_specD [OF crash_wipe [OF wf g], of ?d, unfolded w], unfolded the_dev_def, OF cl refl]
  from assms(4) w have k': "r = map_err r1" "k' = k\<lparr>fk_frozen := True, fk_maint := maint_new, fk_storage := d1\<rparr>"
    by (auto simp: fw_wipe_def factory_wipe_def)
  have "kv_wf ?cap (ee_buf d1) \<and> (kv_abs ?cap (ee_buf d1) = kv_abs ?cap (ee_buf ?d) \<or> kv_abs ?cap (ee_buf d1) = Map.empty) \<and>
      (r1 = Inr () \<longrightarrow> kv_abs ?cap (ee_buf d1) = Map.empty \<and> scrubbed ?cap (ee_buf d1))"
    using S(6,7) by (cases r1) (auto simp: wiped_def kept_post_def)
  then show ?thesis
    using k' S(1) by (cases r1) (auto simp: fw_abs_def fw_inv_def fw_set_bytes_def fw_delete_def fw_compact_def fw_writable_def fw_maintain_def)
qed

theorem wipe_freezes_witness:
  "fw_abs (snd (fw_wipe demo_kv)) = Map.empty \<and> fw_set_bytes 5 [1] (snd (fw_wipe demo_kv)) = (Inl Frozen, snd (fw_wipe demo_kv))"
proof -
  have "fw_flip_generation demo_kv = 1"
    using generation_of [OF kv_wfD(1) [OF formatted_128(1)]] formatted_128(2)
    by (simp add: fw_flip_generation_def unwrap_or_def demo_kv_def)
  then have "fw_flip_generation demo_kv \<noteq> - 1" by simp
  from wipe_freezes [OF demo_kv_inv this, of "fst (fw_wipe demo_kv)" "snd (fw_wipe demo_kv)" 5 "[1]" 0] show ?thesis
    by (simp add: demo_kv_abs)
qed

end
