(* ===== verification/Net_TxCounter.thy ===== *)
theory Net_TxCounter
  imports Prelude
begin

text \<open>
  The TX-counter kernel of \<open>crates/net/src/txctr.rs\<close>: the reserve-ahead watermark and the
  fail-closed lock behind the CCM nonce counter. The record and one definition per method
  come first; then the invariant of an unlocked counter and what each method keeps of it; then
  the interface of the durable cell that holds the watermark (a locale) and, inside it, the
  device: boots, allocations, floor raises and power losses as a step relation whose ghost
  \<open>sent\<close> list records every counter ever handed out.
\<close>

section \<open>The kernel\<close>

definition RESERVE :: u32 where
  "RESERVE = 1024"

record tx_counter =
  txc_counter :: u32
  txc_reserve_limit :: u32
  txc_locked :: bool

text \<open>\<open>TxCounter::resume\<close>: the kernel plus the watermark to persist and verify now.\<close>

definition tx_resume :: "u32 option \<Rightarrow> bool \<Rightarrow> tx_counter \<times> u32 option" where
  "tx_resume stored_watermark prior_use =
     (let resume = max (case stored_watermark of None \<Rightarrow> 1 | Some w \<Rightarrow> w) 1;
          fail_closed = (stored_watermark = None \<and> prior_use) \<or> resume = - 1;
          reserve_limit = (if stored_watermark = None \<and> prior_use then - 1
                           else sat_add resume RESERVE)
      in (\<lparr>txc_counter = resume, txc_reserve_limit = reserve_limit, txc_locked = fail_closed\<rparr>,
          if fail_closed then None else Some reserve_limit))"

text \<open>\<open>TxCounter::floor\<close>.\<close>

definition tx_floor :: "tx_counter \<Rightarrow> u32" where
  "tx_floor t = max (txc_reserve_limit t) (txc_counter t)"

text \<open>\<open>TxCounter::raise_to\<close>; \<open>persist\<close> is the caller's closure (write and read back).\<close>

definition tx_raise_to :: "tx_counter \<Rightarrow> u32 \<Rightarrow> (u32 \<Rightarrow> bool) \<Rightarrow> bool \<times> tx_counter" where
  "tx_raise_to t floor persist =
     (if txc_locked t then (floor \<le> txc_reserve_limit t, t)
      else if floor \<le> txc_counter t then (True, t)
      else if floor < txc_reserve_limit t then (True, t\<lparr>txc_counter := floor\<rparr>)
      else let watermark = sat_add floor RESERVE in
        if \<not> persist watermark then (False, t\<lparr>txc_locked := True\<rparr>)
        else let t1 = t\<lparr>txc_reserve_limit := watermark, txc_counter := floor\<rparr> in
          (True, if floor = - 1 then t1\<lparr>txc_locked := True\<rparr> else t1))"

text \<open>\<open>TxCounter::advance\<close>.\<close>

definition tx_advance :: "tx_counter \<Rightarrow> u32 option \<times> tx_counter" where
  "tx_advance t =
     (let t1 = t\<lparr>txc_counter := sat_add (txc_counter t) 1\<rparr> in
      if txc_counter t1 = - 1 then (None, t1\<lparr>txc_locked := True\<rparr>)
      else if txc_counter t1 \<ge> txc_reserve_limit t1
        then (Some (sat_add (txc_reserve_limit t1) RESERVE), t1)
      else (None, t1))"

text \<open>\<open>TxCounter::alloc\<close>: the counter, already consumed, and a watermark to persist.\<close>

definition tx_alloc :: "tx_counter \<Rightarrow> (u32 \<times> u32 option) option \<times> tx_counter" where
  "tx_alloc t =
     (if txc_locked t then (None, t)
      else let (persist, t1) = tx_advance t in (Some (txc_counter t, persist), t1))"

definition tx_reserve_persisted :: "tx_counter \<Rightarrow> u32 \<Rightarrow> tx_counter" where
  "tx_reserve_persisted t watermark = t\<lparr>txc_reserve_limit := watermark\<rparr>"

definition tx_lock :: "tx_counter \<Rightarrow> tx_counter" where
  "tx_lock t = t\<lparr>txc_locked := True\<rparr>"

section \<open>The invariant of an unlocked counter\<close>

text \<open>
  The comment on the \<open>reserve_limit\<close> field: while unlocked the live counter is below the last
  durable watermark, and 0 (\<open>never sent\<close>) is never handed out.
\<close>

definition tx_inv :: "tx_counter \<Rightarrow> bool" where
  "tx_inv t \<longleftrightarrow> (\<not> txc_locked t \<longrightarrow> 1 \<le> txc_counter t \<and> txc_counter t < txc_reserve_limit t)"

lemma RESERVE_pos [simp]: "0 < RESERVE"
  by (simp add: RESERVE_def)

lemma tx_inv_locked [simp]: "txc_locked t \<Longrightarrow> tx_inv t"
  by (simp add: tx_inv_def)

lemma tx_lock_simps [simp]:
  "txc_locked (tx_lock t)" "txc_counter (tx_lock t) = txc_counter t"
  "txc_reserve_limit (tx_lock t) = txc_reserve_limit t"
  by (simp_all add: tx_lock_def)

lemma reserve_strict: "m \<noteq> - 1 \<Longrightarrow> m < sat_add m RESERVE"
  by (rule sat_add_strict) auto

lemma tx_resume_inv: "tx_inv (fst (tx_resume w p))"
  by (auto simp: tx_resume_def tx_inv_def Let_def reserve_strict simp del: max_less_iff_conj)

lemma tx_resume_Some:
  assumes "tx_resume w p = (t, Some wm)"
  shows "\<not> txc_locked t" and "txc_reserve_limit t = wm" and "txc_counter t < wm" and "1 \<le> txc_counter t"
    and "w = Some x \<Longrightarrow> x \<le> txc_counter t"
  using assms
  by (auto simp: tx_resume_def Let_def reserve_strict simp del: max_less_iff_conj split: if_splits)

lemma tx_resume_None: "tx_resume w p = (t, None) \<Longrightarrow> txc_locked t"
  by (auto simp: tx_resume_def Let_def split: if_splits)

lemma sat_add_one_cases:
  assumes "(c::u32) < l"
  shows "c < sat_add c 1" and "sat_add c 1 \<le> l"
proof -
  have c: "unat c < unat l" using assms by (simp add: word_less_nat_alt)
  have l: "unat l < 2 ^ LENGTH(32)" by (rule unat_less_size)
  have c': "unat (sat_add c 1) = Suc (unat c)"
    using c l by (simp add: unat_sat_add)
  show "c < sat_add c 1" by (simp add: word_less_nat_alt c')
  show "sat_add c 1 \<le> l" using c by (simp add: word_le_nat_alt c')
qed

text \<open>What one allocation does to an unlocked, well-formed counter.\<close>

lemma tx_alloc_cases:
  assumes "tx_inv t" and "tx_alloc t = (r, t')"
  obtains (Refused) "r = None" "txc_locked t" "t' = t"
    | (Ceiling) "r = Some (txc_counter t, None)" "\<not> txc_locked t" "txc_locked t'"
        "txc_reserve_limit t' = txc_reserve_limit t"
    | (Plain) "r = Some (txc_counter t, None)" "\<not> txc_locked t" "\<not> txc_locked t'"
        "txc_counter t < txc_counter t'" "txc_counter t' < txc_reserve_limit t"
        "txc_reserve_limit t' = txc_reserve_limit t"
    | (Extend) w where "r = Some (txc_counter t, Some w)" "\<not> txc_locked t" "\<not> txc_locked t'"
        "txc_counter t < txc_counter t'" "txc_counter t' = txc_reserve_limit t"
        "txc_reserve_limit t' = txc_reserve_limit t" "txc_reserve_limit t < w"
proof (cases "txc_locked t")
  case True
  with assms(2) have "r = None" "t' = t" by (auto simp: tx_alloc_def)
  with True show ?thesis by (intro Refused)
next
  case False
  let ?c = "sat_add (txc_counter t) 1"
  from False assms(1) have lt: "txc_counter t < txc_reserve_limit t" by (simp add: tx_inv_def)
  note step = sat_add_one_cases [OF lt]
  consider "?c = - 1" | "?c \<noteq> - 1" "?c < txc_reserve_limit t" | "?c \<noteq> - 1" "?c = txc_reserve_limit t"
    using step(2) unfolding order.order_iff_strict by blast
  then show ?thesis
  proof cases
    case 1
    with False assms(2) Ceiling show ?thesis
      by (auto simp: tx_alloc_def tx_advance_def Let_def)
  next
    case 2
    then have "\<not> txc_reserve_limit t \<le> ?c" by (simp add: not_le)
    with 2 False assms(2) have "r = Some (txc_counter t, None)" "t' = t\<lparr>txc_counter := ?c\<rparr>"
      by (auto simp: tx_alloc_def tx_advance_def Let_def)
    with 2 False step(1) show ?thesis by (intro Plain) auto
  next
    case 3
    then have "txc_reserve_limit t < sat_add (txc_reserve_limit t) RESERVE"
      by (intro reserve_strict) simp
    with 3 False assms(2) Extend show ?thesis
      by (auto simp: tx_alloc_def tx_advance_def Let_def step(1) lt)
  qed
qed

lemma tx_raise_to_inv: "tx_inv t \<Longrightarrow> tx_inv (snd (tx_raise_to t f p))"
proof -
  assume inv: "tx_inv t"
  have "txc_counter t < f \<Longrightarrow> \<not> txc_locked t \<Longrightarrow> 1 \<le> f"
    using inv by (meson less_imp_le order_trans tx_inv_def)
  with inv show ?thesis
    by (auto simp: tx_raise_to_def tx_inv_def Let_def not_le not_less reserve_strict)
qed

section \<open>The durable watermark and the device around it\<close>

text \<open>
  The kernel relies on a store for one cell, the watermark: \<open>load\<close> reads it, \<open>persists s w ok s'\<close>
  is one attempt to write \<open>w\<close> that reports \<open>ok\<close> (a failed attempt, power loss included, leaves
  the old or the new value, never a third one), \<open>reboots s s'\<close> is a power cycle and
  \<open>others s s'\<close> any other use of the store (it is shared).
\<close>

locale durable_cell =
  fixes inv :: "'s \<Rightarrow> bool"
    and load :: "'s \<Rightarrow> u32 option"
    and persists :: "'s \<Rightarrow> u32 \<Rightarrow> bool \<Rightarrow> 's \<Rightarrow> bool"
    and reboots :: "'s \<Rightarrow> 's \<Rightarrow> bool"
    and others :: "'s \<Rightarrow> 's \<Rightarrow> bool"
  assumes persists_ok: "inv s \<Longrightarrow> persists s w True s' \<Longrightarrow> load s' = Some w"
    and persists_fail: "inv s \<Longrightarrow> persists s w False s' \<Longrightarrow> load s' = load s \<or> load s' = Some w"
    and persists_inv: "inv s \<Longrightarrow> persists s w ok s' \<Longrightarrow> inv s'"
    and reboots_load: "inv s \<Longrightarrow> reboots s s' \<Longrightarrow> load s' = load s"
    and reboots_inv: "inv s \<Longrightarrow> reboots s s' \<Longrightarrow> inv s'"
    and others_load: "inv s \<Longrightarrow> others s s' \<Longrightarrow> load s' = load s"
    and others_inv: "inv s \<Longrightarrow> others s s' \<Longrightarrow> inv s'"

text \<open>
  The device: its store, the kernel while powered (\<open>None\<close> between a power loss and the next
  boot) and, as a ghost, every counter handed out so far, newest first. A step is the boot of
  \<open>Net::new\<close>, one \<open>Net::alloc_counter\<close>, one \<open>Net::raise_tx_floor\<close>, a power loss, or another use of the
  shared store. The store
  contract is a parameter, so the relation is about any store that satisfies it.
\<close>

record 's tx_device =
  dev_store :: 's
  dev_txc :: "tx_counter option"
  dev_sent :: "u32 list"

inductive tx_step ::
  "('s \<Rightarrow> u32 option) \<Rightarrow> ('s \<Rightarrow> u32 \<Rightarrow> bool \<Rightarrow> 's \<Rightarrow> bool) \<Rightarrow> ('s \<Rightarrow> 's \<Rightarrow> bool) \<Rightarrow> ('s \<Rightarrow> 's \<Rightarrow> bool) \<Rightarrow>
     's tx_device \<Rightarrow> 's tx_device \<Rightarrow> bool"
  for load persists reboots others
where
  boot_closed:
    "dev_txc d = None \<Longrightarrow> tx_resume (load (dev_store d)) prior_use = (t, None) \<Longrightarrow>
     tx_step load persists reboots others d (d\<lparr>dev_txc := Some t\<rparr>)"
| boot:
    "dev_txc d = None \<Longrightarrow> tx_resume (load (dev_store d)) prior_use = (t, Some w) \<Longrightarrow>
     persists (dev_store d) w ok s' \<Longrightarrow>
     tx_step load persists reboots others d
       (d\<lparr>dev_store := s', dev_txc := Some (if ok \<and> load s' = Some w then t else tx_lock t)\<rparr>)"
| alloc:
    "dev_txc d = Some t \<Longrightarrow> tx_alloc t = (Some (c, None), t') \<Longrightarrow>
     tx_step load persists reboots others d (d\<lparr>dev_txc := Some t', dev_sent := c # dev_sent d\<rparr>)"
| alloc_persist:
    "dev_txc d = Some t \<Longrightarrow> tx_alloc t = (Some (c, Some w), t') \<Longrightarrow>
     persists (dev_store d) w ok s' \<Longrightarrow>
     tx_step load persists reboots others d
       (d\<lparr>dev_store := s', dev_txc := Some (if ok then tx_reserve_persisted t' w else tx_lock t'),
          dev_sent := c # dev_sent d\<rparr>)"
| raise_covered:
    "dev_txc d = Some t \<Longrightarrow> txc_locked t \<or> floor \<le> txc_counter t \<or> floor < txc_reserve_limit t \<Longrightarrow>
     tx_raise_to t floor persist = (b, t') \<Longrightarrow>
     tx_step load persists reboots others d (d\<lparr>dev_txc := Some t'\<rparr>)"
| raise_persist:
    "dev_txc d = Some t \<Longrightarrow> \<not> txc_locked t \<Longrightarrow> txc_counter t < floor \<Longrightarrow> txc_reserve_limit t \<le> floor \<Longrightarrow>
     persists (dev_store d) (sat_add floor RESERVE) ok s' \<Longrightarrow>
     tx_raise_to t floor (\<lambda>w. ok \<and> load s' = Some w) = (b, t') \<Longrightarrow>
     tx_step load persists reboots others d (d\<lparr>dev_store := s', dev_txc := Some t'\<rparr>)"
| power_loss:
    "reboots (dev_store d) s' \<Longrightarrow>
     tx_step load persists reboots others d (d\<lparr>dev_store := s', dev_txc := None\<rparr>)"
| other_use:
    "others (dev_store d) s' \<Longrightarrow> tx_step load persists reboots others d (d\<lparr>dev_store := s'\<rparr>)"

inductive tx_reach ::
  "('s \<Rightarrow> u32 option) \<Rightarrow> ('s \<Rightarrow> u32 \<Rightarrow> bool \<Rightarrow> 's \<Rightarrow> bool) \<Rightarrow> ('s \<Rightarrow> 's \<Rightarrow> bool) \<Rightarrow> ('s \<Rightarrow> 's \<Rightarrow> bool) \<Rightarrow>
     's \<Rightarrow> 's tx_device \<Rightarrow> bool"
  for load persists reboots others s0
where
  start: "tx_reach load persists reboots others s0 \<lparr>dev_store = s0, dev_txc = None, dev_sent = []\<rparr>"
| step: "tx_reach load persists reboots others s0 d \<Longrightarrow> tx_step load persists reboots others d d' \<Longrightarrow>
     tx_reach load persists reboots others s0 d'"

text \<open>
  The device invariant: the sent counters are strictly descending (newest first) and below the
  durable watermark; a powered unlocked kernel is below its reserve limit, which is the durable
  watermark, and above everything sent.
\<close>

definition tx_dev_inv :: "('s \<Rightarrow> u32 option) \<Rightarrow> 's tx_device \<Rightarrow> bool" where
  "tx_dev_inv load d \<longleftrightarrow>
     sorted_wrt (>) (dev_sent d) \<and> 0 \<notin> set (dev_sent d) \<and>
     (\<forall>c \<in> set (dev_sent d). \<exists>w. load (dev_store d) = Some w \<and> c < w) \<and>
     (\<forall>t. dev_txc d = Some t \<longrightarrow> tx_inv t \<and>
        (\<not> txc_locked t \<longrightarrow> load (dev_store d) = Some (txc_reserve_limit t) \<and>
           (\<forall>c \<in> set (dev_sent d). c < txc_counter t)))"

lemma tx_dev_invD:
  assumes "tx_dev_inv load d"
  shows "sorted_wrt (>) (dev_sent d) \<and> 0 \<notin> set (dev_sent d)"
    and "c \<in> set (dev_sent d) \<Longrightarrow> \<exists>w. load (dev_store d) = Some w \<and> c < w"
    and "dev_txc d = Some t \<Longrightarrow> tx_inv t"
    and "dev_txc d = Some t \<Longrightarrow> \<not> txc_locked t \<Longrightarrow> load (dev_store d) = Some (txc_reserve_limit t)"
    and "dev_txc d = Some t \<Longrightarrow> \<not> txc_locked t \<Longrightarrow> c \<in> set (dev_sent d) \<Longrightarrow> c < txc_counter t"
  using assms by (auto simp: tx_dev_inv_def)

text \<open>Reading the watermark: it never moves down, and it is the written value after a
  successful write.\<close>

definition covers :: "u32 option \<Rightarrow> u32 \<Rightarrow> bool" where
  "covers w c \<longleftrightarrow> (case w of None \<Rightarrow> False | Some x \<Rightarrow> c < x)"

lemma covers_simps [simp]: "\<not> covers None c" "covers (Some x) c \<longleftrightarrow> c < x"
  by (simp_all add: covers_def)

lemma covers_ex: "covers w c \<longleftrightarrow> (\<exists>x. w = Some x \<and> c < x)"
  by (cases w) auto

lemma tx_raise_to_covered:
  assumes "txc_locked t \<or> f \<le> txc_counter t \<or> f < txc_reserve_limit t" and "tx_raise_to t f p = (b, t')"
  shows "txc_reserve_limit t' = txc_reserve_limit t" and "txc_locked t' = txc_locked t"
    and "txc_counter t \<le> txc_counter t'" and "b \<Longrightarrow> \<not> txc_locked t \<Longrightarrow> f \<le> txc_counter t'"
  using assms by (auto simp: tx_raise_to_def split: if_splits)

lemma tx_raise_to_persist:
  assumes "\<not> txc_locked t" and "txc_counter t < f" and "txc_reserve_limit t \<le> f"
    and "tx_raise_to t f p = (b, t')"
  shows "b = p (sat_add f RESERVE)" and "\<not> b \<Longrightarrow> txc_locked t'"
    and "b \<Longrightarrow> txc_counter t' = f \<and> txc_reserve_limit t' = sat_add f RESERVE"
  using assms by (auto simp: tx_raise_to_def Let_def not_le not_less split: if_splits)

lemma sorted_gt_distinct: "sorted_wrt (>) (xs :: 'a::linorder list) \<Longrightarrow> distinct xs"
  by (induction xs) auto

section \<open>Nonce safety, for every store that keeps its contract\<close>

context durable_cell
begin

abbreviation dev_step :: "'s tx_device \<Rightarrow> 's tx_device \<Rightarrow> bool" where
  "dev_step \<equiv> tx_step load persists reboots others"

abbreviation dev_ok :: "'s tx_device \<Rightarrow> bool" where
  "dev_ok d \<equiv> inv (dev_store d) \<and> tx_dev_inv load d"

lemma persists_covers:
  assumes "inv s" and "persists s w ok s'" and "covers (load s) c" and "c < w"
  shows "covers (load s') c"
proof (cases ok)
  case True
  with assms persists_ok show ?thesis by auto
next
  case False
  with assms persists_fail [of s w s'] show ?thesis by auto
qed

lemma step_store_inv: "dev_step d d' \<Longrightarrow> inv (dev_store d) \<Longrightarrow> inv (dev_store d')"
  by (induction rule: tx_step.induct) (auto intro: persists_inv reboots_inv others_inv)

lemma boot_keeps:
  assumes "dev_ok d" and "tx_resume (load (dev_store d)) p = (t, Some w)"
    and "persists (dev_store d) w ok s'"
  shows "tx_dev_inv load (d\<lparr>dev_store := s', dev_txc := Some (if ok \<and> load s' = Some w then t else tx_lock t)\<rparr>)"
proof -
  note r = tx_resume_Some [OF assms(2)]
  have below: "c < txc_counter t" if c: "c \<in> set (dev_sent d)" for c
  proof -
    from assms(1) c obtain x where "load (dev_store d) = Some x" "c < x"
      by (auto dest: tx_dev_invD(2))
    with r(5) show ?thesis by (meson order_less_le_trans)
  qed
  have cov: "covers (load s') c" if c: "c \<in> set (dev_sent d)" for c
    using persists_covers [OF _ assms(3), of c] assms(1) below [OF c] r(3) tx_dev_invD(2) c
    by (fastforce simp: covers_ex)
  have "tx_inv t" using r by (simp add: tx_inv_def)
  then show ?thesis
    using below cov r(1,2) tx_dev_invD(1) [OF assms(1) [THEN conjunct2]]
    by (simp add: tx_dev_inv_def covers_ex)
qed

lemma alloc_keeps:
  assumes "dev_ok d" and "dev_txc d = Some t" and "tx_alloc t = (Some (c, None), t')"
  shows "tx_dev_inv load (d\<lparr>dev_txc := Some t', dev_sent := c # dev_sent d\<rparr>)"
proof -
  note inv = assms(1) [THEN conjunct2] and D = tx_dev_invD
  from D(3) [OF inv assms(2)] have t: "tx_inv t" .
  have "\<not> txc_locked t \<and> c = txc_counter t \<and> (\<not> txc_locked t' \<longrightarrow> txc_counter t < txc_counter t' \<and>
      txc_counter t' < txc_reserve_limit t \<and> txc_reserve_limit t' = txc_reserve_limit t)"
    using t assms(3) by (rule tx_alloc_cases) auto
  note a = this
  from a t have c: "c \<noteq> 0" "c < txc_reserve_limit t" "1 \<le> txc_counter t" by (auto simp: tx_inv_def)
  have lt: "x < c" if "x \<in> set (dev_sent d)" for x using D(5) [OF inv assms(2) _ that] a by simp
  have below: "x < txc_counter t'" if "x \<in> set (c # dev_sent d)" "\<not> txc_locked t'" for x
    using that lt a by (auto intro: order_less_trans)
  have "tx_inv t'" using a c by (auto simp: tx_inv_def intro: order_trans)
  moreover have "load (dev_store d) = Some (txc_reserve_limit t)" using D(4) [OF inv assms(2)] a by simp
  ultimately show ?thesis
    using D(1) [OF inv] lt c(1,2) below a by (auto simp: tx_dev_inv_def intro: order_less_trans)
qed

lemma alloc_persist_keeps:
  assumes "dev_ok d" and "dev_txc d = Some t" and "tx_alloc t = (Some (c, Some w), t')"
    and "persists (dev_store d) w ok s'"
  shows "tx_dev_inv load (d\<lparr>dev_store := s',
     dev_txc := Some (if ok then tx_reserve_persisted t' w else tx_lock t'), dev_sent := c # dev_sent d\<rparr>)"
proof -
  note inv = assms(1) [THEN conjunct2] and D = tx_dev_invD
  from D(3) [OF inv assms(2)] have t: "tx_inv t" .
  have a: "\<not> txc_locked t" "\<not> txc_locked t'" "c = txc_counter t" "txc_counter t < txc_counter t'"
      "txc_counter t' = txc_reserve_limit t" "txc_reserve_limit t < w"
    using t assms(3) by (rule tx_alloc_cases; simp)+
  then have c: "1 \<le> c" "c < txc_reserve_limit t" using t by (auto simp: tx_inv_def)
  have cov: "covers (load s') x" if "x \<in> set (c # dev_sent d)" for x
  proof (rule persists_covers [OF assms(1) [THEN conjunct1] assms(4)])
    have "x < txc_reserve_limit t" using that D(5) [OF inv assms(2) a(1)] c a(3) by (auto intro: order_less_trans)
    then show "covers (load (dev_store d)) x" "x < w"
      using D(4) [OF inv assms(2) a(1)] a(6) by auto
  qed
  have ld: "load s' = Some w" if ok using persists_ok assms(1,4) that by auto
  have "1 \<le> txc_counter t'" using c(1) a(3,4) by (meson less_imp_le order_trans)
  then have "tx_inv (tx_reserve_persisted t' w)"
    using a by (simp add: tx_inv_def tx_reserve_persisted_def)
  moreover have lt: "x < c" if "x \<in> set (dev_sent d)" for x using D(5) [OF inv assms(2) a(1) that] a by simp
  moreover have "x < txc_counter t'" if "x \<in> set (c # dev_sent d)" for x
    using that lt a by (auto intro: order_less_trans)
  ultimately show ?thesis
    using cov ld D(1) [OF inv] c(1) by (auto simp: tx_dev_inv_def covers_ex tx_reserve_persisted_def)
qed

lemma raise_covered_keeps:
  assumes "dev_ok d" and "dev_txc d = Some t"
    and "txc_locked t \<or> f \<le> txc_counter t \<or> f < txc_reserve_limit t" and "tx_raise_to t f p = (b, t')"
  shows "tx_dev_inv load (d\<lparr>dev_txc := Some t'\<rparr>)"
proof -
  note inv = assms(1) [THEN conjunct2] and D = tx_dev_invD and R = tx_raise_to_covered [OF assms(3,4)]
  have "tx_inv t'" using tx_raise_to_inv [OF D(3) [OF inv assms(2)], of f p] assms(4) by simp
  moreover have "c < txc_counter t'" if "\<not> txc_locked t'" "c \<in> set (dev_sent d)" for c
    using D(5) [OF inv assms(2) _ that(2)] R(2,3) that(1) by (meson order_less_le_trans)
  ultimately show ?thesis
    using inv assms(2) R(1,2) by (auto simp: tx_dev_inv_def)
qed

lemma raise_persist_keeps:
  assumes "dev_ok d" and "dev_txc d = Some t" and "\<not> txc_locked t" and "txc_counter t < f"
    and "txc_reserve_limit t \<le> f" and "persists (dev_store d) (sat_add f RESERVE) ok s'"
    and "tx_raise_to t f (\<lambda>w. ok \<and> load s' = Some w) = (b, t')"
  shows "tx_dev_inv load (d\<lparr>dev_store := s', dev_txc := Some t'\<rparr>)"
proof -
  note inv = assms(1) [THEN conjunct2] and D = tx_dev_invD and R = tx_raise_to_persist [OF assms(3-5,7)]
  have t': "tx_inv t'" using tx_raise_to_inv [OF D(3) [OF inv assms(2)], of f] assms(7) by (metis snd_conv)
  have lt: "c < txc_counter t" if "c \<in> set (dev_sent d)" for c using D(5) [OF inv assms(2,3) that] .
  have cov: "covers (load s') c" if c: "c \<in> set (dev_sent d)" for c
  proof (rule persists_covers [OF assms(1) [THEN conjunct1] assms(6)])
    show "covers (load (dev_store d)) c" using D(2) [OF inv c] by (simp add: covers_ex)
    show "c < sat_add f RESERVE"
      using lt [OF c] assms(4) sat_add_ge [of f RESERVE] by (meson order_less_le_trans order_less_trans)
  qed
  show ?thesis
  proof (cases b)
    case True
    with R assms(6) have "txc_counter t' = f" "load s' = Some (txc_reserve_limit t')" by auto
    with t' cov lt assms(4) D(1) [OF inv] show ?thesis
      by (auto simp: tx_dev_inv_def covers_ex intro: order_less_trans)
  next
    case False
    with R cov D(1) [OF inv] show ?thesis by (auto simp: tx_dev_inv_def covers_ex)
  qed
qed

lemma step_keeps: "dev_step d d' \<Longrightarrow> dev_ok d \<Longrightarrow> dev_ok d'"
proof (intro conjI)
  assume "dev_step d d'" and ok: "dev_ok d"
  then show "inv (dev_store d')" using step_store_inv by blast
  from \<open>dev_step d d'\<close> ok show "tx_dev_inv load d'"
  proof (induction rule: tx_step.induct)
    case (boot_closed d p t)
    then have "txc_locked t" by (auto dest: tx_resume_None)
    with boot_closed show ?case by (auto simp: tx_dev_inv_def)
  next
    case (power_loss d s')
    then show ?case by (auto simp: tx_dev_inv_def reboots_load)
  next
    case (other_use d s')
    then show ?case by (auto simp: tx_dev_inv_def others_load)
  qed (blast intro: boot_keeps alloc_keeps alloc_persist_keeps raise_covered_keeps raise_persist_keeps)+
qed

lemma reach_ok: "tx_reach load persists reboots others s0 d \<Longrightarrow> inv s0 \<Longrightarrow> dev_ok d"
  by (induction rule: tx_reach.induct) (auto simp: tx_dev_inv_def dest: step_keeps)

lemma never_reused:
  assumes "tx_reach load persists reboots others s0 d" and "inv s0"
  shows "distinct (dev_sent d) \<and> 0 \<notin> set (dev_sent d)"
  using reach_ok [OF assms] tx_dev_invD(1) by (auto intro: sorted_gt_distinct)

text \<open>
  After a successful, unlocked raise to \<open>f\<close> (or a boot at or above \<open>f\<close>) the floor holds for good:
  the watermark covers it, and so does a powered unlocked kernel.
\<close>

abbreviation floor_ok :: "u32 \<Rightarrow> 's tx_device \<Rightarrow> bool" where
  "floor_ok f d \<equiv> dev_ok d \<and> (\<exists>w. load (dev_store d) = Some w \<and> f \<le> w) \<and>
     (\<forall>t. dev_txc d = Some t \<longrightarrow> \<not> txc_locked t \<longrightarrow> f \<le> txc_counter t)"

lemma persists_floor:
  assumes "inv s" and "persists s w ok s'" and "load s = Some v" and "f \<le> v" and "f \<le> w"
  shows "\<exists>x. load s' = Some x \<and> f \<le> x"
  using assms persists_ok [of s w s'] persists_fail [of s w s'] by (cases ok) auto

lemma floor_step:
  assumes "dev_step d d'" and "floor_ok f d"
  shows "floor_ok f d' \<and> (\<exists>cs. dev_sent d' = cs @ dev_sent d \<and> (\<forall>c \<in> set cs. f \<le> c))"
proof -
  have ok: "dev_ok d'" using step_keeps assms by blast
  from assms(2) obtain v where v: "inv (dev_store d)" "load (dev_store d) = Some v" "f \<le> v" by blast
  have D: "dev_txc d = Some t \<Longrightarrow> tx_inv t \<and> (\<not> txc_locked t \<longrightarrow> f \<le> txc_counter t \<and> v = txc_reserve_limit t)" for t
    using assms(2) v(2) by (auto simp: tx_dev_inv_def)
  note pf = persists_floor [OF v(1) _ v(2,3)]
  from assms(1) show ?thesis
  proof cases
    case (boot_closed p t)
    then show ?thesis using ok v tx_resume_None by auto
  next
    case (boot p t w ok s')
    with v(2) tx_resume_Some [of _ p t w] have "f \<le> txc_counter t" "f \<le> w"
      by (metis v(3) order_trans, metis v(3) order_trans less_imp_le)
    with boot ok pf show ?thesis by auto
  next
    case (alloc t c t')
    with D have "f \<le> c \<and> (\<not> txc_locked t' \<longrightarrow> f \<le> txc_counter t')"
      by - (rule tx_alloc_cases [of t "Some (c, None)" t'], auto)
    with alloc ok v show ?thesis by auto
  next
    case (alloc_persist t c w t' ok s')
    with D [of t] have "f \<le> c \<and> f \<le> txc_counter t' \<and> f \<le> w"
      by - (rule tx_alloc_cases [of t "Some (c, Some w)" t'], auto)
    with alloc_persist ok pf show ?thesis by (auto simp: tx_reserve_persisted_def)
  next
    case (raise_covered t fl p b t')
    with D [of t] tx_raise_to_covered [of t fl p b t'] have "\<not> txc_locked t' \<longrightarrow> f \<le> txc_counter t'"
      by (auto intro: order_trans)
    with raise_covered ok v show ?thesis by auto
  next
    case (raise_persist t fl ok s' b t')
    with D [of t] have f: "f \<le> fl" by auto
    have "\<not> txc_locked t' \<longrightarrow> f \<le> txc_counter t'"
      using tx_raise_to_persist(2,3) [OF raise_persist(3-5,7)] f by (cases b) auto
    moreover have "f \<le> sat_add fl RESERVE" using f sat_add_ge order_trans by blast
    ultimately show ?thesis using raise_persist ok pf by auto
  next
    case (power_loss s')
    then show ?thesis using ok v reboots_load by auto
  next
    case (other_use s')
    then show ?thesis using ok v others_load assms(2) by auto
  qed
qed

lemma floor_steps:
  assumes "dev_step\<^sup>*\<^sup>* d d'" and "floor_ok f d"
  shows "floor_ok f d' \<and> (\<exists>cs. dev_sent d' = cs @ dev_sent d \<and> (\<forall>c \<in> set cs. f \<le> c))"
  using assms
proof (induction rule: rtranclp_induct)
  case (step d1 d2)
  then obtain cs where cs: "floor_ok f d1" "dev_sent d1 = cs @ dev_sent d" "\<forall>c \<in> set cs. f \<le> c" by blast
  with floor_step [OF step(2)] obtain cs' where
    "floor_ok f d2" "dev_sent d2 = cs' @ dev_sent d1" "\<forall>c \<in> set cs'. f \<le> c" by blast
  with cs show ?case by (auto intro!: exI [of _ "cs' @ cs"])
qed auto

text \<open>A raise that reports success on an unlocked kernel establishes the floor.\<close>

lemma raise_floor_ok:
  assumes "dev_ok d" and "dev_txc d = Some t" and "\<not> txc_locked t"
    and "if f \<le> txc_counter t \<or> f < txc_reserve_limit t then s' = dev_store d
         else persists (dev_store d) (sat_add f RESERVE) ok s'"
    and "tx_raise_to t f (\<lambda>w. ok \<and> load s' = Some w) = (True, t')"
  shows "floor_ok f (d\<lparr>dev_store := s', dev_txc := Some t'\<rparr>)"
proof (cases "f \<le> txc_counter t \<or> f < txc_reserve_limit t")
  case True
  with assms have s': "s' = dev_store d" by simp
  have step: "dev_step d (d\<lparr>dev_txc := Some t'\<rparr>)"
    using tx_step.raise_covered [OF assms(2) _ assms(5)] True by blast
  have ld: "load (dev_store d) = Some (txc_reserve_limit t)" using assms(1-3) by (auto simp: tx_dev_inv_def)
  have "txc_counter t < txc_reserve_limit t" using assms(1-3) by (auto simp: tx_dev_inv_def tx_inv_def)
  with True have "f \<le> txc_reserve_limit t" by auto
  then show ?thesis
    using step_keeps [OF step assms(1)] s' ld tx_raise_to_covered [OF _ assms(5)] True assms(3) by auto
next
  case False
  then have f: "txc_counter t < f" "txc_reserve_limit t \<le> f" by auto
  have p: "persists (dev_store d) (sat_add f RESERVE) ok s'" using assms(4) False by simp
  have "dev_step d (d\<lparr>dev_store := s', dev_txc := Some t'\<rparr>)"
    using assms(2,3) f p assms(5) by (rule tx_step.raise_persist)
  from step_keeps [OF this assms(1)] show ?thesis
    using tx_raise_to_persist [OF assms(3) f assms(5)] sat_add_ge by auto
qed

end

end
