(* ===== verification/Net_Replay.thy ===== *)
theory Net_Replay
  imports Prelude
begin

text \<open>
  The replay kernel of \<open>crates/net/src/replay.rs\<close>: one lane per sender (last-seen counter, lazy
  persistence cadence, re-ACK allowance) and the binding of lanes to persisted records. The
  operations come first, then the receiver around a lane: the frames it delivers, the ACKs it
  sends and the value it persists, over any sequence of authenticated counters and any number of
  reboots.
\<close>

section \<open>The lane\<close>

definition REPLAY_P :: u8 where
  "REPLAY_P = 32"

definition MAX_REPS :: u8 where
  "MAX_REPS = 10"

definition MAX_REACKS :: u8 where
  "MAX_REACKS = MAX_REPS - 1"

text \<open>\<open>u8::next_power_of_two\<close>, for arguments up to 128.\<close>

definition next_power_of_two :: "u8 \<Rightarrow> u8" where
  "next_power_of_two n = hd (filter (\<lambda>p. n \<le> p) [1, 2, 4, 8, 16, 32, 64, 128])"

definition persist_period :: "u8 \<Rightarrow> u8" where
  "persist_period period = next_power_of_two (min (max period 1) REPLAY_P)"

datatype replay_verdict = Fresh | Retransmit | Replay

record replay_lane =
  rl_last_seen :: u32
  rl_accepts :: u8
  rl_reacks :: u8

definition lane_new :: "u32 \<Rightarrow> replay_lane" where
  "lane_new last_seen = \<lparr>rl_last_seen = last_seen, rl_accepts = 0, rl_reacks = 0\<rparr>"

definition classify :: "replay_lane \<Rightarrow> u32 \<Rightarrow> replay_verdict" where
  "classify l counter =
     (if counter = 0 then Replay
      else if rl_last_seen l < counter then Fresh
      else if counter = rl_last_seen l then Retransmit
      else Replay)"

definition accept_every :: "replay_lane \<Rightarrow> u32 \<Rightarrow> u8 \<Rightarrow> bool \<times> replay_lane" where
  "accept_every l counter period =
     (let l' = l\<lparr>rl_last_seen := counter, rl_reacks := 0, rl_accepts := rl_accepts l + 1\<rparr>
      in (rl_accepts l' mod persist_period period = 0, l'))"

definition accept :: "replay_lane \<Rightarrow> u32 \<Rightarrow> bool \<times> replay_lane" where
  "accept l counter = accept_every l counter REPLAY_P"

definition lane_raise :: "replay_lane \<Rightarrow> u32 \<Rightarrow> bool \<times> replay_lane" where
  "lane_raise l seen = (if seen \<le> rl_last_seen l then (False, l) else (True, lane_new seen))"

definition reack :: "replay_lane \<Rightarrow> bool \<times> replay_lane" where
  "reack l = (if MAX_REACKS \<le> rl_reacks l then (False, l) else (True, l\<lparr>rl_reacks := rl_reacks l + 1\<rparr>))"

section \<open>Binding lanes to persisted records\<close>

record lane_rec =
  lr_addr :: u32
  lr_seen :: u32
  lr_kcv :: u32

record lane_binding =
  lb_index :: nat
  lb_seen :: u32
  lb_fresh :: bool

definition lane_free :: "u32 \<Rightarrow> nat \<Rightarrow> bool" where
  "lane_free used l \<longleftrightarrow> used AND push_bit l 1 = 0"

definition fresh_binding :: "nat \<Rightarrow> lane_binding" where
  "fresh_binding index = \<lparr>lb_index = index, lb_seen = 0, lb_fresh = True\<rparr>"

text \<open>The loop over the records from local \<open>l\<close> on, with the best restorable binding and the
  first local of this address under another key.\<close>

primrec assign_scan ::
  "u32 \<Rightarrow> u32 \<Rightarrow> u32 \<Rightarrow> nat \<Rightarrow> lane_binding option \<Rightarrow> nat option \<Rightarrow> lane_rec option list \<Rightarrow>
     lane_binding option \<times> nat option"
where
  "assign_scan addr kcv used l restore stale_own [] = (restore, stale_own)"
| "assign_scan addr kcv used l restore stale_own (rec # recs) =
     (case rec of
        None \<Rightarrow> assign_scan addr kcv used (Suc l) restore stale_own recs
      | Some r \<Rightarrow>
          if lr_addr r \<noteq> addr \<or> \<not> lane_free used l
          then assign_scan addr kcv used (Suc l) restore stale_own recs
          else if lr_kcv r \<noteq> kcv
          then assign_scan addr kcv used (Suc l) restore
            (case stale_own of None \<Rightarrow> Some l | Some _ \<Rightarrow> stale_own) recs
          else if case restore of None \<Rightarrow> True | Some b \<Rightarrow> lb_seen b < lr_seen r
          then assign_scan addr kcv used (Suc l)
            (Some \<lparr>lb_index = l, lb_seen = lr_seen r, lb_fresh = False\<rparr>) stale_own recs
          else assign_scan addr kcv used (Suc l) restore stale_own recs)"

definition assign_lane :: "u32 \<Rightarrow> u32 \<Rightarrow> lane_rec option list \<Rightarrow> u32 \<Rightarrow> lane_binding option" where
  "assign_lane addr kcv records used =
     (let (restore, stale_own) = assign_scan addr kcv used 0 None None records in
      case restore of Some b \<Rightarrow> Some b
      | None \<Rightarrow> (case stale_own of Some l \<Rightarrow> Some (fresh_binding l)
        | None \<Rightarrow>
            (case find (\<lambda>l. lane_free used l \<and> records ! l = None) [0..<length records] of
               Some l \<Rightarrow> Some (fresh_binding l)
             | None \<Rightarrow> map_option fresh_binding (find (lane_free used) [0..<length records]))))"

section \<open>The verdict and the cadence\<close>

lemma classify_simps:
  "classify l c = Fresh \<longleftrightarrow> rl_last_seen l < c"
  "classify l c = Retransmit \<longleftrightarrow> c = rl_last_seen l \<and> c \<noteq> 0"
  "classify l c = Replay \<longleftrightarrow> c = 0 \<or> c < rl_last_seen l"
  by (auto simp: classify_def not_less order.strict_iff_order)

lemma persist_period_cases: "persist_period p \<in> {1, 2, 4, 8, 16, 32}"
proof -
  have le: "min (max p 1) REPLAY_P \<le> 32" by (simp add: REPLAY_P_def min.coboundedI2)
  have "next_power_of_two n \<in> {1, 2, 4, 8, 16, 32}" if "n \<le> 32" for n
    using that by (auto simp: next_power_of_two_def)
  with le show ?thesis by (simp add: persist_period_def)
qed

lemma persist_period_ge: "p \<le> REPLAY_P \<Longrightarrow> p \<le> persist_period p"
  by (auto simp: persist_period_def next_power_of_two_def REPLAY_P_def min_def max_def)

text \<open>The period divides 256, so the wrapping cadence counter stays exact.\<close>

lemma cadence_exact:
  assumes "unat (a :: u8) mod unat (persist_period p) = n mod unat (persist_period p)"
  shows "unat (a + 1) mod unat (persist_period p) = (n + 1) mod unat (persist_period p)"
proof -
  let ?q = "unat (persist_period p)"
  have d: "?q dvd 256" using persist_period_cases [of p] by auto
  have "unat (a + 1) = (unat a + 1) mod 256" by (simp add: unat_word_ariths)
  then have "unat (a + 1) mod ?q = (unat a + 1) mod ?q" using d by (simp add: mod_mod_cancel)
  also have "\<dots> = (n + 1) mod ?q" using assms by (metis mod_add_left_eq)
  finally show ?thesis .
qed

lemma persist_due: "(a mod persist_period p = 0) = (unat (a :: u8) mod unat (persist_period p) = 0)"
  by (simp add: word_unat_eq_iff unat_mod)

section \<open>A receiver on one lane\<close>

text \<open>
  The receiver's view of one sender (\<open>recv\<close>, \<open>lane_accept\<close>, \<open>lane_reack\<close> of the network layer):
  the lane, the last-seen value in the store, and as ghosts the counters delivered since the boot
  (newest first), the number of those not covered by the stored value, and the ACKs sent for the
  current last-seen. A frame carries its authenticated counter and whether it asks for an ACK;
  the persist may fail (\<open>ok\<close>).
\<close>

record lane_session =
  ls_lane :: replay_lane
  ls_stored :: u32
  ls_delivered :: "u32 list"
  ls_acks :: "u32 list"

definition lane_boot :: "u32 \<Rightarrow> lane_session" where
  "lane_boot stored = \<lparr>ls_lane = lane_new stored, ls_stored = stored, ls_delivered = [], ls_acks = []\<rparr>"

definition lane_rx :: "u8 \<Rightarrow> u32 \<times> bool \<times> bool \<Rightarrow> lane_session \<Rightarrow> lane_session" where
  "lane_rx period f s =
     (case f of (c, confirmed, ok) \<Rightarrow>
       (case classify (ls_lane s) c of
          Replay \<Rightarrow> s
        | Retransmit \<Rightarrow>
            if confirmed then
              (case reack (ls_lane s) of (may, l) \<Rightarrow>
                 s\<lparr>ls_lane := l, ls_acks := (if may then c # ls_acks s else ls_acks s)\<rparr>)
            else s
        | Fresh \<Rightarrow>
            (case accept_every (ls_lane s) c period of (due, l) \<Rightarrow>
               s\<lparr>ls_lane := l, ls_delivered := c # ls_delivered s,
                 ls_stored := (if due \<and> ok then c else ls_stored s),
                 ls_acks := (if confirmed then c # ls_acks s else ls_acks s)\<rparr>)))"

definition lane_run :: "u8 \<Rightarrow> (u32 \<times> bool \<times> bool) list \<Rightarrow> lane_session \<Rightarrow> lane_session" where
  "lane_run period fs s = fold (lane_rx period) fs s"

lemma lane_run_simps [simp]:
  "lane_run period [] s = s" "lane_run period (fs @ [f]) s = lane_rx period f (lane_run period fs s)"
  by (simp_all add: lane_run_def)

definition acks_of :: "u32 \<Rightarrow> lane_session \<Rightarrow> nat" where
  "acks_of c s = count_list (ls_acks s) c"

text \<open>What a session started at \<open>stored\<close> keeps.\<close>

definition lane_inv :: "u8 \<Rightarrow> u32 \<Rightarrow> lane_session \<Rightarrow> bool" where
  "lane_inv period w s \<longleftrightarrow>
     sorted_wrt (>) (ls_delivered s @ [w]) \<and>
     rl_last_seen (ls_lane s) = hd (ls_delivered s @ [w]) \<and>
     unat (rl_accepts (ls_lane s)) mod unat (persist_period period) =
       length (ls_delivered s) mod unat (persist_period period) \<and>
     (\<forall>c \<in> set (ls_acks s). c \<le> rl_last_seen (ls_lane s)) \<and>
     rl_reacks (ls_lane s) \<le> MAX_REACKS \<and>
     acks_of (rl_last_seen (ls_lane s)) s \<le> 1 + unat (rl_reacks (ls_lane s)) \<and>
     (\<forall>c. acks_of c s \<le> unat MAX_REPS)"


lemma lane_inv_boot: "lane_inv period w (lane_boot w)"
  by (simp add: lane_inv_def lane_boot_def lane_new_def acks_of_def)

lemma reack_cases:
  assumes "reack l = (may, l')"
  shows "rl_last_seen l' = rl_last_seen l" and "rl_accepts l' = rl_accepts l"
    and "may \<Longrightarrow> unat (rl_reacks l') = unat (rl_reacks l) + 1 \<and> rl_reacks l' \<le> MAX_REACKS"
    and "\<not> may \<Longrightarrow> l' = l"
proof -
  have "unat (rl_reacks l + 1) = unat (rl_reacks l) + 1 \<and> rl_reacks l + 1 \<le> MAX_REACKS"
    if "\<not> MAX_REACKS \<le> rl_reacks l"
  proof -
    have "unat (rl_reacks l) < 9" using that by (simp add: MAX_REACKS_def MAX_REPS_def word_le_nat_alt)
    then have "unat (rl_reacks l + 1) = unat (rl_reacks l) + 1" by (simp add: unat_word_ariths)
    with \<open>unat (rl_reacks l) < 9\<close> show ?thesis by (simp add: MAX_REACKS_def MAX_REPS_def word_le_nat_alt)
  qed
  then show "rl_last_seen l' = rl_last_seen l" "rl_accepts l' = rl_accepts l"
    "may \<Longrightarrow> unat (rl_reacks l') = unat (rl_reacks l) + 1 \<and> rl_reacks l' \<le> MAX_REACKS" "\<not> may \<Longrightarrow> l' = l"
    using assms by (auto simp: reack_def split: if_splits)
qed

lemma sorted_wrt_gt_hd: "sorted_wrt (>) xs \<Longrightarrow> xs \<noteq> [] \<Longrightarrow> hd xs < c \<Longrightarrow> sorted_wrt (>) (c # xs)"
  for xs :: "u32 list"
  by (cases xs) auto

lemma reacks_le_9: "unat r \<le> 9" if "r \<le> MAX_REACKS"
  using that by (simp add: MAX_REACKS_def MAX_REPS_def word_le_nat_alt)

lemma lane_inv_fresh:
  assumes "lane_inv period w s" and "rl_last_seen (ls_lane s) < c"
  shows "lane_inv period w (lane_rx period (c, conf, ok) s)"
proof -
  let ?l = "ls_lane s"
  have f: "classify ?l c = Fresh" using assms(2) by (simp add: classify_simps)
  have new: "acks_of c s = 0"
    using assms by (auto simp: acks_of_def lane_inv_def count_list_0_iff)
  have cad: "unat (rl_accepts ?l + 1) mod unat (persist_period period) =
      Suc (length (ls_delivered s)) mod unat (persist_period period)"
    using cadence_exact [of "rl_accepts ?l" period "length (ls_delivered s)"] assms(1) by (simp add: lane_inv_def)
  have srt: "sorted_wrt (>) (c # ls_delivered s @ [w])"
    using assms sorted_wrt_gt_hd [of "ls_delivered s @ [w]" c] by (auto simp: lane_inv_def)
  have old: "x \<in> set (ls_acks s) \<Longrightarrow> x \<le> c" for x using assms by (auto simp: lane_inv_def intro: order.trans less_imp_le)
  have reps: "1 \<le> unat MAX_REPS" "acks_of x s \<le> unat MAX_REPS" for x
    using assms(1) by (simp_all add: MAX_REPS_def lane_inv_def)
  show ?thesis using srt cad old reps new f
    by (auto simp: lane_inv_def lane_rx_def accept_every_def Let_def acks_of_def MAX_REPS_def split: if_splits)
qed

lemma lane_inv_retransmit:
  assumes "lane_inv period w s" and "c = rl_last_seen (ls_lane s)" and "c \<noteq> 0"
  shows "lane_inv period w (lane_rx period (c, conf, ok) s)"
proof -
  have f: "classify (ls_lane s) c = Retransmit" using assms(2,3) by (simp add: classify_simps)
  obtain may l where r: "reack (ls_lane s) = (may, l)" by fastforce
  note R = reack_cases [OF r]
  have "unat (rl_reacks l) \<le> 9" if may using R(3) [OF that] reacks_le_9 by blast
  then have "1 + unat (rl_reacks l) \<le> unat MAX_REPS" if may using that by (simp add: MAX_REPS_def)
  with assms f r R show ?thesis
    by (cases may; cases conf) (auto simp: lane_inv_def lane_rx_def acks_of_def)
qed

lemma lane_inv_rx: "lane_inv period w s \<Longrightarrow> lane_inv period w (lane_rx period f s)"
proof -
  assume inv: "lane_inv period w s"
  obtain c conf ok where f: "f = (c, conf, ok)" by (cases f) auto
  consider "rl_last_seen (ls_lane s) < c" | "c = rl_last_seen (ls_lane s)" "c \<noteq> 0" | "classify (ls_lane s) c = Replay"
    by (cases "classify (ls_lane s) c") (auto simp: classify_simps)
  then show ?thesis
  proof cases
    case 3
    then show ?thesis using inv f by (simp add: lane_rx_def)
  qed (use inv f lane_inv_fresh lane_inv_retransmit in \<open>auto\<close>)
qed

lemma lane_inv_run: "lane_inv period w (lane_run period fs (lane_boot w))"
  by (induction fs rule: rev_induct) (auto simp: lane_inv_boot lane_inv_rx)

lemma distinct_sorted_gt: "sorted_wrt (>) (xs :: u32 list) \<Longrightarrow> distinct xs"
  by (induction xs) auto

lemma ascending_rev: "sorted_wrt (>) (xs @ [w :: u32]) \<Longrightarrow> sorted_wrt (<) (w # rev xs)"
  by (simp add: sorted_wrt_append sorted_wrt_rev)

text \<open>With every due persist landing, the deliveries the store has not caught up with are the
  newest \<open>length mod period\<close> ones.\<close>

definition lane_lag :: "u8 \<Rightarrow> u32 \<Rightarrow> lane_session \<Rightarrow> bool" where
  "lane_lag period w s \<longleftrightarrow>
     ls_stored s = (drop (length (ls_delivered s) mod unat (persist_period period)) (ls_delivered s) @ [w]) ! 0"

lemma persist_period_pos: "0 < unat (persist_period p)"
  using persist_period_cases [of p] by auto

lemma lane_lag_rx:
  assumes "lane_inv period w s" and "lane_lag period w s" and "snd (snd f)"
  shows "lane_lag period w (lane_rx period f s)"
proof -
  obtain c conf where f: "f = (c, conf, True)" using assms(3) by (cases f) auto
  let ?q = "unat (persist_period period)" and ?n = "length (ls_delivered s)" and ?l = "ls_lane s"
  show ?thesis
  proof (cases "classify ?l c")
    case Fresh
    have cad: "unat (rl_accepts ?l + 1) mod ?q = Suc ?n mod ?q"
      using cadence_exact [of "rl_accepts ?l" period ?n] assms(1) by (simp add: lane_inv_def)
    have "Suc ?n mod ?q = (if Suc (?n mod ?q) = ?q then 0 else Suc (?n mod ?q))" by (simp add: mod_Suc)
    then show ?thesis using assms(2) cad Fresh f
      by (auto simp: lane_lag_def lane_rx_def accept_every_def Let_def persist_due)
  next
    case Retransmit
    then show ?thesis using assms(2) f by (auto simp: lane_lag_def lane_rx_def split: prod.splits)
  qed (use assms(2) f in \<open>simp add: lane_rx_def\<close>)
qed

lemma lane_lag_run: "\<forall>f \<in> set fs. snd (snd f) \<Longrightarrow> lane_lag period w (lane_run period fs (lane_boot w))"
proof (induction fs rule: rev_induct)
  case Nil
  then show ?case by (simp add: lane_lag_def lane_boot_def)
next
  case (snoc f fs)
  then show ?case using lane_lag_rx [OF lane_inv_run] by simp
qed

lemma lag_count:
  assumes "sorted_wrt (>) (xs @ [w :: u32])" and "v = (drop k xs @ [w]) ! 0"
  shows "{c \<in> set xs. v < c} \<subseteq> set (take k xs)"
proof
  fix c assume c: "c \<in> {c \<in> set xs. v < c}"
  have "c \<notin> set (drop k xs)"
  proof
    assume d: "c \<in> set (drop k xs)"
    have "sorted_wrt (>) (drop k (xs @ [w]))" using assms(1) by (rule sorted_wrt_drop)
    then have s: "sorted_wrt (>) (drop k xs @ drop (k - length xs) [w])" by simp
    from d obtain y ys where y: "drop k xs = y # ys" by (cases "drop k xs") auto
    then have "v = y" using assms(2) by simp
    moreover have "c \<le> y" using s d y by (auto intro: less_imp_le)
    ultimately show False using c by (auto dest: leD)
  qed
  then show "c \<in> set (take k xs)" using c by (metis (mono_tags, lifting) Un_iff append_take_drop_id mem_Collect_eq set_append)
qed

text \<open>C31. The replay window. Whatever counters arrive, the deliveries of one boot strictly ascend, all above the
  last-seen value the boot found in the store, so no counter is delivered twice in a boot. Across a reboot, provided
  every persist that fell due before it landed in the store, fewer than one persist period of the counters
  delivered before it are delivered again; with a period of one, none.\<close>

theorem replay_window:
  assumes "\<forall>f \<in> set fs. snd (snd f)"
  shows "let s1 = lane_run period fs (lane_boot w); s2 = lane_run period' gs (lane_boot (ls_stored s1)) in
     sorted_wrt (<) (w # rev (ls_delivered s1)) \<and> distinct (ls_delivered s1) \<and>
     sorted_wrt (<) (ls_stored s1 # rev (ls_delivered s2)) \<and> distinct (ls_delivered s2) \<and>
     card (set (ls_delivered s1) \<inter> set (ls_delivered s2)) < unat (persist_period period)"
proof -
  define s1 where "s1 = lane_run period fs (lane_boot w)"
  define s2 where "s2 = lane_run period' gs (lane_boot (ls_stored s1))"
  let ?d1 = "ls_delivered s1" and ?d2 = "ls_delivered s2" and ?k = "length (ls_delivered s1) mod unat (persist_period period)"
  have i1: "sorted_wrt (>) (?d1 @ [w])" and i2: "sorted_wrt (>) (?d2 @ [ls_stored s1])"
    using lane_inv_run [of period w fs] lane_inv_run [of period' "ls_stored s1" gs] by (auto simp: lane_inv_def s1_def s2_def)
  have lag: "ls_stored s1 = (drop ?k ?d1 @ [w]) ! 0"
    using lane_lag_run [OF assms, of period w] by (simp add: lane_lag_def s1_def)
  have "set ?d1 \<inter> set ?d2 \<subseteq> {c \<in> set ?d1. ls_stored s1 < c}" using i2 by (auto simp: sorted_wrt_append)
  also have "\<dots> \<subseteq> set (take ?k ?d1)" by (rule lag_count [OF i1 lag])
  finally have "card (set ?d1 \<inter> set ?d2) \<le> card (set (take ?k ?d1))" by (rule card_mono [rotated]) simp
  also have "\<dots> \<le> ?k" using card_length [of "take ?k ?d1"] by simp
  also have "?k < unat (persist_period period)" using persist_period_pos by simp
  finally have "card (set ?d1 \<inter> set ?d2) < unat (persist_period period)" .
  moreover have "distinct ?d1" "distinct ?d2"
    using i1 i2 by (auto simp: sorted_wrt_append intro: distinct_sorted_gt)
  ultimately show ?thesis using ascending_rev [OF i1] ascending_rev [OF i2] by (simp only: Let_def s1_def s2_def)
qed


theorem replay_window_witness:
  "let s1 = lane_run 1 [(1, True, True), (5, False, True), (5, True, True)] (lane_boot 0);
       s2 = lane_run 1 [(5, False, True), (6, True, True)] (lane_boot (ls_stored s1)) in
     sorted_wrt (<) (0 # rev (ls_delivered s1)) \<and> distinct (ls_delivered s1) \<and>
     sorted_wrt (<) (ls_stored s1 # rev (ls_delivered s2)) \<and> distinct (ls_delivered s2) \<and>
     card (set (ls_delivered s1) \<inter> set (ls_delivered s2)) < unat (persist_period 1)"
  by (rule replay_window) simp

text \<open>C32. A captured frame buys at most \<open>MAX_REPS\<close> ACKs: however often a receiver hears a counter,
  fresh, retransmitted or replayed, in any order with other frames, it acknowledges that counter
  at most ten times in a boot.\<close>

theorem acks_bounded: "acks_of c (lane_run period fs (lane_boot w)) \<le> unat MAX_REPS"
  using lane_inv_run [of period w fs] by (simp add: lane_inv_def)

section \<open>Lane binding\<close>

lemma lane_free_bit: "lane_free used l \<longleftrightarrow> \<not> bit used l"
  by (simp add: lane_free_def push_bit_eq_mult and_exp_eq_0_iff_not_bit)

text \<open>The own record at local \<open>l\<close>: this address, a free local; under this key or another.\<close>

definition own_rec :: "u32 \<Rightarrow> u32 \<Rightarrow> lane_rec option list \<Rightarrow> u32 \<Rightarrow> nat \<Rightarrow> lane_rec \<Rightarrow> bool" where
  "own_rec addr kcv records used l r \<longleftrightarrow>
     l < length records \<and> records ! l = Some r \<and> lr_addr r = addr \<and> lr_kcv r = kcv \<and> lane_free used l"

definition stale_rec :: "u32 \<Rightarrow> u32 \<Rightarrow> lane_rec option list \<Rightarrow> u32 \<Rightarrow> nat \<Rightarrow> bool" where
  "stale_rec addr kcv records used l \<longleftrightarrow>
     (\<exists>r. l < length records \<and> records ! l = Some r \<and> lr_addr r = addr \<and> lr_kcv r \<noteq> kcv \<and> lane_free used l)"

text \<open>The loop invariant after the first \<open>n\<close> locals.\<close>

definition scan_ok :: "u32 \<Rightarrow> u32 \<Rightarrow> lane_rec option list \<Rightarrow> u32 \<Rightarrow> nat \<Rightarrow> lane_binding option \<Rightarrow> nat option \<Rightarrow> bool" where
  "scan_ok addr kcv records used n restore stale_own \<longleftrightarrow>
     (case restore of
        None \<Rightarrow> \<forall>l r. l < n \<longrightarrow> \<not> own_rec addr kcv records used l r
      | Some b \<Rightarrow> \<not> lb_fresh b \<and> (\<exists>r. own_rec addr kcv records used (lb_index b) r \<and> lb_seen b = lr_seen r) \<and>
          (\<forall>l r. l < n \<longrightarrow> own_rec addr kcv records used l r \<longrightarrow> lr_seen r \<le> lb_seen b)) \<and>
     (case stale_own of
        None \<Rightarrow> \<forall>l. l < n \<longrightarrow> \<not> stale_rec addr kcv records used l
      | Some l \<Rightarrow> stale_rec addr kcv records used l)"

lemma scan_ok_run:
  "scan_ok addr kcv records used n restore stale_own \<Longrightarrow> n + length recs = length records \<Longrightarrow> drop n records = recs \<Longrightarrow>
   assign_scan addr kcv used n restore stale_own recs = (b, st) \<Longrightarrow> scan_ok addr kcv records used (length records) b st"
proof (induction recs arbitrary: n restore stale_own)
  case (Cons rc recs)
  have n: "n < length records" "records ! n = rc" "drop (Suc n) records = recs"
    using Cons.prems(2,3) by (auto dest: nth_via_drop) (metis drop_Suc list.sel(3) tl_drop)
  show ?case
  proof (cases rc)
    case None
    then have "scan_ok addr kcv records used (Suc n) restore stale_own"
      using Cons.prems(1) n by (auto simp: scan_ok_def own_rec_def stale_rec_def less_Suc_eq split: option.splits)
    then show ?thesis using Cons.IH [of "Suc n" restore stale_own] Cons.prems n None by simp
  next
    case (Some r)
    show ?thesis
    proof (cases "lr_addr r \<noteq> addr \<or> \<not> lane_free used n")
      case True
      then have "scan_ok addr kcv records used (Suc n) restore stale_own"
        using Cons.prems(1) n Some by (auto simp: scan_ok_def own_rec_def stale_rec_def less_Suc_eq split: option.splits)
      then show ?thesis using Cons.IH [of "Suc n" restore stale_own] Cons.prems n Some True by simp
    next
      case own: False
      show ?thesis
      proof (cases "lr_kcv r = kcv")
        case False
        let ?st = "case stale_own of None \<Rightarrow> Some n | Some _ \<Rightarrow> stale_own"
        have "scan_ok addr kcv records used (Suc n) restore ?st"
          using Cons.prems(1) n Some own False
          by (auto simp: scan_ok_def own_rec_def stale_rec_def less_Suc_eq split: option.splits)
        then show ?thesis using Cons.IH [of "Suc n" restore ?st] Cons.prems n Some own False by simp
      next
        case True
        let ?new = "case restore of None \<Rightarrow> True | Some b \<Rightarrow> lb_seen b < lr_seen r"
        let ?re = "if ?new then Some \<lparr>lb_index = n, lb_seen = lr_seen r, lb_fresh = False\<rparr> else restore"
        have me: "own_rec addr kcv records used n r" using n Some own True by (simp add: own_rec_def)
        have "scan_ok addr kcv records used (Suc n) ?re stale_own"
        proof (cases ?new)
          case True
          then show ?thesis using Cons.prems(1) me n Some \<open>lr_kcv r = kcv\<close>
            by (auto simp: scan_ok_def less_Suc_eq own_rec_def stale_rec_def split: option.splits
                intro: order.trans less_imp_le)
        next
          case False
          then show ?thesis using Cons.prems(1) me n Some \<open>lr_kcv r = kcv\<close>
            by (auto simp: scan_ok_def less_Suc_eq own_rec_def stale_rec_def split: option.splits)
        qed
        then show ?thesis using Cons.IH [of "Suc n" ?re stale_own] Cons.prems n Some own True
          by (simp split: if_splits)
      qed
    qed
  qed
qed simp


definition assign_post :: "u32 \<Rightarrow> u32 \<Rightarrow> lane_rec option list \<Rightarrow> u32 \<Rightarrow> lane_binding \<Rightarrow> bool" where
  "assign_post addr kcv records used b \<longleftrightarrow>
     lb_index b < length records \<and> lane_free used (lb_index b) \<and>
     (if \<exists>l r. own_rec addr kcv records used l r
      then \<not> lb_fresh b \<and> (\<exists>r. own_rec addr kcv records used (lb_index b) r \<and> lb_seen b = lr_seen r) \<and>
        (\<forall>l r. own_rec addr kcv records used l r \<longrightarrow> lr_seen r \<le> lb_seen b)
      else lb_fresh b \<and> lb_seen b = 0 \<and>
        (if \<exists>l. stale_rec addr kcv records used l then stale_rec addr kcv records used (lb_index b)
         else if \<exists>l < length records. lane_free used l \<and> records ! l = None then records ! lb_index b = None
         else \<forall>l < lb_index b. \<not> lane_free used l))"

lemma find_upt: "find P [0..<n] = Some l \<longleftrightarrow> l < n \<and> P l \<and> (\<forall>j < l. \<not> P j)"
  by (auto simp: find_Some_iff)

lemma find_upt_None: "find P [0..<n] = None \<longleftrightarrow> (\<forall>l < n. \<not> P l)"
  by (auto simp: find_None_iff)

lemma assign_lane_ok:
  "case assign_lane addr kcv records used of
     Some b \<Rightarrow> assign_post addr kcv records used b
   | None \<Rightarrow> \<forall>l < length records. \<not> lane_free used l"
proof -
  obtain re st where sc: "assign_scan addr kcv used 0 None None records = (re, st)" by fastforce
  have "scan_ok addr kcv records used 0 None None" by (simp add: scan_ok_def)
  from scan_ok_run [OF this _ _ sc] have ok: "scan_ok addr kcv records used (length records) re st" by simp
  have own_len: "own_rec addr kcv records used l r \<Longrightarrow> l < length records \<and> lane_free used l" for l r
    by (simp add: own_rec_def)
  have stale_len: "stale_rec addr kcv records used l \<Longrightarrow> l < length records \<and> lane_free used l" for l
    by (auto simp: stale_rec_def)
  show ?thesis
  proof (cases re)
    case (Some b)
    with ok own_len have "assign_post addr kcv records used b"
      unfolding assign_post_def scan_ok_def by auto
    then show ?thesis using sc Some by (simp add: assign_lane_def)
  next
    case None
    with ok own_len have no: "\<not> own_rec addr kcv records used l r" for l r by (auto simp: scan_ok_def)
    show ?thesis
    proof (cases st)
      case (Some l)
      with ok have "stale_rec addr kcv records used l" by (simp add: scan_ok_def)
      with no stale_len [OF this] have "assign_post addr kcv records used (fresh_binding l)"
        by (auto simp: assign_post_def fresh_binding_def)
      then show ?thesis using sc None Some by (simp add: assign_lane_def)
    next
      case none: None
      with ok stale_len have no': "\<not> stale_rec addr kcv records used l" for l by (auto simp: scan_ok_def)
      let ?f1 = "find (\<lambda>l. lane_free used l \<and> records ! l = None) [0..<length records]"
      let ?f2 = "find (lane_free used) [0..<length records]"
      have res: "assign_lane addr kcv records used =
          (case ?f1 of Some l \<Rightarrow> Some (fresh_binding l) | None \<Rightarrow> map_option fresh_binding ?f2)"
        using sc None none by (simp add: assign_lane_def)
      show ?thesis
      proof (cases ?f1)
        case (Some l)
        then have "l < length records \<and> lane_free used l \<and> records ! l = None" by (simp add: find_upt)
        with no no' have "assign_post addr kcv records used (fresh_binding l)"
          by (auto simp: assign_post_def fresh_binding_def)
        then show ?thesis using res Some by simp
      next
        case f1: None
        then have e: "\<not> (\<exists>l < length records. lane_free used l \<and> records ! l = None)" by (auto simp: find_upt_None)
        show ?thesis
        proof (cases ?f2)
          case (Some l)
          then have "l < length records \<and> lane_free used l \<and> (\<forall>j < l. \<not> lane_free used j)" by (simp add: find_upt)
          with no no' e have "assign_post addr kcv records used (fresh_binding l)"
            by (auto simp: assign_post_def fresh_binding_def)
          then show ?thesis using res f1 Some by simp
        next
          case f2: None
          then have "\<forall>l < length records. \<not> lane_free used l" by (simp add: find_upt_None)
          then show ?thesis using res f1 f2 by simp
        qed
      qed
    qed
  qed
qed

text \<open>C33. Lanes follow their peer: a peer registered under the key its record was tracked under
  resumes at the highest last-seen any of its free records holds; under a new key it reuses its
  own local, starting at zero; a removed peer's record is overwritten only when no never-written
  local is left; the local it gets is never one a live peer holds; and binding fails only when
  every local is held.\<close>

theorem assign_lane_correct:
  "(\<forall>b. assign_lane addr kcv records used = Some b \<longrightarrow> assign_post addr kcv records used b) \<and>
   (assign_lane addr kcv records used = None \<longleftrightarrow> (\<forall>l < length records. \<not> lane_free used l))"
proof (cases "assign_lane addr kcv records used")
  case None
  then show ?thesis using assign_lane_ok [where addr = addr and kcv = kcv and records = records and used = used] by simp
next
  case (Some b)
  then have post: "assign_post addr kcv records used b"
    using assign_lane_ok [where addr = addr and kcv = kcv and records = records and used = used] by simp
  then have "lb_index b < length records \<and> lane_free used (lb_index b)" unfolding assign_post_def by blast
  with Some post show ?thesis by auto
qed

theorem assign_lane_correct_witness:
  "assign_post 7 1 [None, Some \<lparr>lr_addr = 7, lr_seen = 40, lr_kcv = 1\<rparr>] 0 \<lparr>lb_index = 1, lb_seen = 40, lb_fresh = False\<rparr>"
proof -
  have "assign_lane 7 1 [None, Some \<lparr>lr_addr = 7, lr_seen = 40, lr_kcv = 1\<rparr>] 0 =
      Some \<lparr>lb_index = 1, lb_seen = 40, lb_fresh = False\<rparr>"
    by (simp add: assign_lane_def lane_free_def)
  then show ?thesis
    using assign_lane_correct [where addr = 7 and kcv = 1 and records = "[None, Some \<lparr>lr_addr = 7, lr_seen = 40, lr_kcv = 1\<rparr>]"
        and used = 0] by simp
qed

end
