(* ===== verification/Net_Link.thy ===== *)
theory Net_Link
  imports Prelude
begin

text \<open>
  The pure rules of one link, from \<open>crates/net/src\<close>: address validity (\<open>addr.rs\<close>), the CCM nonce
  (\<open>nonce.rs\<close>) and the sender's ACK window (\<open>ack.rs\<close>), with the ACK payload the receiver packs
  (\<open>send_ack\<close> of the firmware's network layer).
\<close>

section \<open>Addresses\<close>

definition ADDR_UNASSIGNED :: u32 where
  "ADDR_UNASSIGNED = 0"

definition ADDR_BROADCAST :: u32 where
  "ADDR_BROADCAST = 0xFFFFFFFF"

definition is_reserved_addr :: "u32 \<Rightarrow> bool" where
  "is_reserved_addr addr \<longleftrightarrow> addr = ADDR_UNASSIGNED \<or> addr = ADDR_BROADCAST"

definition peer_addr_valid :: "u32 \<Rightarrow> u32 \<Rightarrow> bool" where
  "peer_addr_valid peer own \<longleftrightarrow> \<not> is_reserved_addr peer \<and> peer \<noteq> own"

section \<open>The nonce\<close>

definition NONCE_LEN :: nat where
  "NONCE_LEN = 13"

definition nonce_for :: "u32 \<Rightarrow> u32 \<Rightarrow> u32 \<Rightarrow> bytes" where
  "nonce_for src counter bulk_index =
     u32_le src @ u32_le counter @ take 3 (u32_le bulk_index) @ [0, 0]"

text \<open>The decoder of the layout, the inverse on the 24 on-air bits of the bulk index.\<close>

definition nonce_decode :: "bytes \<Rightarrow> u32 \<times> u32 \<times> u32" where
  "nonce_decode n =
     (le_u32 (n ! 0) (n ! 1) (n ! 2) (n ! 3), le_u32 (n ! 4) (n ! 5) (n ! 6) (n ! 7),
      le_u32 (n ! 8) (n ! 9) (n ! 10) 0)"

lemma length_nonce_for: "length (nonce_for s c b) = NONCE_LEN"
  by (simp add: nonce_for_def NONCE_LEN_def)

lemma le_u32_low24: "le_u32 (ucast b) (ucast (drop_bit 8 b)) (ucast (drop_bit 16 b)) 0 = take_bit 24 (b :: u32)"
proof (rule bit_word_eqI)
  fix n assume "n < LENGTH(32)"
  then consider "n < 8" | "8 \<le> n" "n < 16" | "16 \<le> n" "n < 24" | "24 \<le> n" "n < 32" by fastforce
  then show "bit (le_u32 (ucast b) (ucast (drop_bit 8 b)) (ucast (drop_bit 16 b)) 0) n = bit (take_bit 24 b) n"
    by cases (auto simp: le_u32_def bit_simps)
qed

lemma nonce_decode_nonce: "nonce_decode (nonce_for s c b) = (s, c, take_bit 24 b)"
  by (simp add: nonce_decode_def nonce_for_def u32_le_def nth_append le_u32_low24)

lemma take_bit_small: "b < 0x1000000 \<Longrightarrow> take_bit 24 (b :: u32) = b"
  by (simp add: take_bit_eq_mod word_unat_eq_iff unat_mod word_less_nat_alt)

lemma nonce_inject:
  assumes "b < 0x1000000" and "b' < 0x1000000"
  shows "nonce_for s c b = nonce_for s' c' b' \<longleftrightarrow> s = s' \<and> c = c' \<and> b = b'"
proof
  assume "nonce_for s c b = nonce_for s' c' b'"
  then have "nonce_decode (nonce_for s c b) = nonce_decode (nonce_for s' c' b')" by simp
  then show "s = s' \<and> c = c' \<and> b = b'" using assms by (simp add: nonce_decode_nonce take_bit_small)
qed simp

text \<open>The nonce layout is injective: two frames share a CCM nonce only when they have the same
  sender, counter and bulk chunk (bulk indices below \<open>2^24\<close>, the range the bulk layer admits).\<close>

theorem nonce_unique:
  assumes "b < 0x1000000" and "b' < 0x1000000" and "nonce_for s c b = nonce_for s' c' b'"
  shows "s = s' \<and> c = c' \<and> b = b'"
  using nonce_inject [OF assms(1,2)] assms(3) by blast

theorem nonce_unique_witness: "(7 :: u32) = 7 \<and> (42 :: u32) = 42 \<and> (5 :: u32) = 5"
  by (rule nonce_unique) simp_all

section \<open>The ACK window\<close>

definition ACK_LEN :: nat where
  "ACK_LEN = 6"

definition PENDING :: u8 where
  "PENDING = 1"

record ack_meta_t =
  am_rssi :: int
  am_pending :: bool

definition ack_meta :: "bytes \<Rightarrow> ack_meta_t option" where
  "ack_meta payload =
     (case payload of
        [_, _, _, _, rssi, fl] \<Rightarrow> Some \<lparr>am_rssi = sint rssi, am_pending = (fl AND PENDING \<noteq> 0)\<rparr>
      | _ \<Rightarrow> None)"

datatype ack_verdict = Resolved | Ignore

record ack_wait =
  aw_me :: u32
  aw_peer :: u32
  aw_counter :: u32
  aw_resolved :: bool

definition ack_wait_new :: "u32 \<Rightarrow> u32 \<Rightarrow> u32 \<Rightarrow> ack_wait" where
  "ack_wait_new me peer counter = \<lparr>aw_me = me, aw_peer = peer, aw_counter = counter, aw_resolved = False\<rparr>"

definition ack_offer :: "ack_wait \<Rightarrow> bool \<Rightarrow> u32 \<Rightarrow> u32 \<Rightarrow> bytes \<Rightarrow> ack_verdict \<times> ack_wait" where
  "ack_offer w is_ack src dest payload =
     (if aw_resolved w then (Ignore, w)
      else if \<not> is_ack \<or> src \<noteq> aw_peer w \<or> dest \<noteq> aw_me w then (Ignore, w)
      else case payload of
        [a, b, c, d, _, _] \<Rightarrow>
          if le_u32 a b c d = aw_counter w then (Resolved, w\<lparr>aw_resolved := True\<rparr>) else (Ignore, w)
      | _ \<Rightarrow> (Ignore, w))"

text \<open>\<open>send_ack\<close>: the payload packed for an acknowledged counter; the RSSI is clamped to a signed
  byte.\<close>

definition clamp_i8 :: "int \<Rightarrow> u8" where
  "clamp_i8 rssi = word_of_int (min (max rssi (- 128)) 127)"

definition ack_payload :: "u32 \<Rightarrow> int \<Rightarrow> bool \<Rightarrow> bytes" where
  "ack_payload acked rssi pending = u32_le acked @ [clamp_i8 rssi, if pending then PENDING else 0]"

text \<open>The frames heard in one window, offered in order: the index of the one that resolved it.\<close>

primrec ack_window :: "ack_wait \<Rightarrow> nat \<Rightarrow> (bool \<times> u32 \<times> u32 \<times> bytes) list \<Rightarrow> nat list" where
  "ack_window w i [] = []"
| "ack_window w i (f # fs) =
     (case f of (is_ack, src, dest, payload) \<Rightarrow>
        (case ack_offer w is_ack src dest payload of
           (Resolved, w') \<Rightarrow> i # ack_window w' (Suc i) fs
         | (Ignore, w') \<Rightarrow> ack_window w' (Suc i) fs))"

definition our_ack :: "u32 \<Rightarrow> u32 \<Rightarrow> u32 \<Rightarrow> bool \<times> u32 \<times> u32 \<times> bytes \<Rightarrow> bool" where
  "our_ack me peer counter f =
     (case f of (is_ack, src, dest, payload) \<Rightarrow>
        is_ack \<and> src = peer \<and> dest = me \<and> length payload = ACK_LEN \<and> take 4 payload = u32_le counter)"

lemma six_bytes: "length p = 6 \<longleftrightarrow> (\<exists>a b c d e f. p = [a, b, c, d, e, f])"
  by (auto simp: eval_nat_numeral length_Suc_conv)

lemma u32_le_eq_iff: "[a, b, c, d] = u32_le w \<longleftrightarrow> le_u32 a b c d = w"
  by (metis u32_le_inject u32_le_le_u32)

lemma ack_offer_iff:
  assumes "\<not> aw_resolved w"
  shows "ack_offer w is_ack src dest payload =
    (if our_ack (aw_me w) (aw_peer w) (aw_counter w) (is_ack, src, dest, payload)
     then (Resolved, w\<lparr>aw_resolved := True\<rparr>) else (Ignore, w))"
proof (cases "length payload = 6")
  case True
  then obtain a b c d e f where "payload = [a, b, c, d, e, f]" by (auto simp: six_bytes)
  then show ?thesis using assms u32_le_eq_iff [of a b c d "aw_counter w"] by (simp add: ack_offer_def our_ack_def ACK_LEN_def)
next
  case False
  then have "ack_offer w is_ack src dest payload = (Ignore, w)"
    by (auto simp: ack_offer_def split: list.splits)
  with False show ?thesis by (simp add: our_ack_def ACK_LEN_def)
qed

lemma ack_window_done: "aw_resolved w \<Longrightarrow> ack_window w i fs = []"
  by (induction fs arbitrary: i) (auto simp: ack_offer_def)

lemma ack_window_run:
  "\<not> aw_resolved w \<Longrightarrow> ack_window w i fs =
     (case find (\<lambda>k. our_ack (aw_me w) (aw_peer w) (aw_counter w) (fs ! k)) [0..<length fs] of
        None \<Rightarrow> [] | Some k \<Rightarrow> [i + k])"
proof (induction fs arbitrary: i)
  case (Cons f fs)
  let ?P = "our_ack (aw_me w) (aw_peer w) (aw_counter w)"
  obtain a s d p where f: "f = (a, s, d, p)" by (cases f) auto
  have up: "[0..<Suc (length fs)] = 0 # map Suc [0..<length fs]" by (simp add: map_Suc_upt upt_conv_Cons del: upt_Suc)
  have shift: "find (\<lambda>k. ?P ((x # fs) ! k)) (map Suc ks) = map_option Suc (find (\<lambda>k. ?P (fs ! k)) ks)" for x ks
    by (induction ks) auto
  show ?case
  proof (cases "?P f")
    case True
    then show ?thesis using f Cons.prems by (simp add: ack_offer_iff ack_window_done up del: upt_Suc)
  next
    case False
    then show ?thesis using f Cons.prems Cons.IH [of "Suc i"]
      by (auto simp: ack_offer_iff up shift simp del: upt_Suc split: option.splits)
  qed
qed simp

text \<open>A delivery resolves exactly once, and only by our ACK: whatever frames a window hears, the
  first ACK from the peer, to us, six bytes long and for this counter resolves it, and nothing
  before or after does.\<close>

theorem ack_resolves_once:
  "ack_window (ack_wait_new me peer counter) 0 fs =
     (case find (\<lambda>k. our_ack me peer counter (fs ! k)) [0..<length fs] of None \<Rightarrow> [] | Some k \<Rightarrow> [k])"
  using ack_window_run [of "ack_wait_new me peer counter" 0 fs] by (simp add: ack_wait_new_def cong: option.case_cong)

lemma sint_clamp_i8: "sint (clamp_i8 r) = min (max r (- 128)) 127"
  unfolding clamp_i8_def by (simp add: int_word_sint)

text \<open>The ACK a receiver packs is the one the sender accepts: it resolves the window of its
  counter, and reads back as the RSSI clamped to a signed byte and the pending flag.\<close>

theorem ack_roundtrip:
  "fst (ack_offer (ack_wait_new me peer counter) True peer me (ack_payload counter rssi pending)) = Resolved \<and>
   ack_meta (ack_payload counter rssi pending) =
     Some \<lparr>am_rssi = min (max rssi (- 128)) 127, am_pending = pending\<rparr>"
proof -
  have "our_ack me peer counter (True, peer, me, ack_payload counter rssi pending)"
    by (simp add: our_ack_def ack_payload_def ACK_LEN_def u32_le_def)
  then show ?thesis
    by (simp add: ack_offer_iff ack_wait_new_def ack_meta_def ack_payload_def u32_le_def sint_clamp_i8 PENDING_def)
qed

end
