(* ===== verification/Net_Pairing.thy ===== *)
theory Net_Pairing
  imports Net_Replay Net_Link
begin

text \<open>
  The pairing kernel of \<open>crates/net/src/pairing.rs\<close>: which join requests and responses are
  admissible, the keyed-join predicates, whether a handshake fits the window, and the joiner's
  commit round, here also as the run the apps drive (settle, attempt, pause).
\<close>

definition handshake_fits :: "u64 \<Rightarrow> u64 \<Rightarrow> bool" where
  "handshake_fits remaining_ms handshake_ms \<longleftrightarrow> handshake_ms \<le> remaining_ms"

definition COMMIT_ATTEMPTS :: u8 where "COMMIT_ATTEMPTS = 6"
definition COMMIT_SETTLE_MS :: u32 where "COMMIT_SETTLE_MS = 500"
definition COMMIT_RETRY_MS :: u32 where "COMMIT_RETRY_MS = 2000"
definition GATEWAY_COMMIT_STALL_MS :: u32 where "GATEWAY_COMMIT_STALL_MS = 6000"

datatype commit_step_t = Commit | Retry u32 | Discard

definition commit_step :: "u8 \<Rightarrow> bool \<Rightarrow> commit_step_t" where
  "commit_step attempt delivered =
     (if delivered then Commit else if COMMIT_ATTEMPTS \<le> attempt then Discard else Retry COMMIT_RETRY_MS)"

definition join_request_admissible :: "u32 \<Rightarrow> u32 \<Rightarrow> bool \<Rightarrow> bool" where
  "join_request_admissible joiner own registered \<longleftrightarrow> peer_addr_valid joiner own \<and> \<not> registered"

definition join_response_for :: "u32 \<Rightarrow> u32 \<Rightarrow> u32 \<Rightarrow> bool" where
  "join_response_for dest src joiner \<longleftrightarrow> dest = joiner \<and> \<not> is_reserved_addr src \<and> src \<noteq> joiner"

definition keyed_req_valid :: "bytes \<Rightarrow> u32 \<Rightarrow> bool" where
  "keyed_req_valid payload src \<longleftrightarrow>
     4 \<le> length payload \<and> le_u32 (payload ! 0) (payload ! 1) (payload ! 2) (payload ! 3) = src"

definition keyed_req_admit :: "bool \<Rightarrow> replay_verdict \<Rightarrow> bool" where
  "keyed_req_admit registered verdict \<longleftrightarrow> registered \<and> verdict = Fresh"

definition keyed_resp_matches :: "bytes \<Rightarrow> u32 \<Rightarrow> bool" where
  "keyed_resp_matches payload req_counter \<longleftrightarrow>
     4 \<le> length payload \<and> le_u32 (payload ! 0) (payload ! 1) (payload ! 2) (payload ! 3) = req_counter"

section \<open>The commit round\<close>

text \<open>The round over the outcomes of its attempts (\<open>True\<close>: acknowledged), from attempt number
  \<open>attempt\<close> on, with the start times of the attempts made (ms after the JOIN_CONFIRM, counting the
  pauses only): whether the key is kept.\<close>

function commit_round :: "u8 \<Rightarrow> nat \<Rightarrow> (u8 \<Rightarrow> bool) \<Rightarrow> bool \<times> nat list" where
  "commit_round attempt t delivered =
     (case commit_step attempt (delivered attempt) of
        Commit \<Rightarrow> (True, [t])
      | Discard \<Rightarrow> (False, [t])
      | Retry after \<Rightarrow>
          if COMMIT_ATTEMPTS \<le> attempt then (False, [t])
          else (case commit_round (attempt + 1) (t + unat after) delivered of (r, ts) \<Rightarrow> (r, t # ts)))"
  by pat_completeness auto
termination
proof (relation "measure (\<lambda>(attempt, t, delivered). unat (COMMIT_ATTEMPTS - attempt))", simp)
  fix attempt :: u8 and t delivered x3
  assume "\<not> COMMIT_ATTEMPTS \<le> attempt"
  then have "attempt < 6" by (simp add: COMMIT_ATTEMPTS_def not_le)
  then have "unat attempt < 6" by (simp add: word_less_nat_alt)
  then have "unat (attempt + 1) = Suc (unat attempt)" by (simp add: unat_word_ariths)
  with \<open>attempt < 6\<close> \<open>unat attempt < 6\<close> show "((attempt + 1, t + unat x3, delivered), (attempt, t, delivered))
      \<in> measure (\<lambda>(attempt, t, delivered). unat (COMMIT_ATTEMPTS - attempt))"
    by (simp add: COMMIT_ATTEMPTS_def unat_sub word_le_nat_alt less_imp_le)
qed

declare commit_round.simps [simp del]

definition commit_rounds :: "(u8 \<Rightarrow> bool) \<Rightarrow> bool \<times> nat list" where
  "commit_rounds delivered = commit_round 1 (unat COMMIT_SETTLE_MS) delivered"

lemma commit_round_unfold:
  "commit_rounds f =
     (if f 1 then (True, [500]) else if f 2 then (True, [500, 2500]) else if f 3 then (True, [500, 2500, 4500])
      else if f 4 then (True, [500, 2500, 4500, 6500]) else if f 5 then (True, [500, 2500, 4500, 6500, 8500])
      else (f 6, [500, 2500, 4500, 6500, 8500, 10500]))"
  by (simp add: commit_rounds_def commit_round.simps [of 1] commit_round.simps [of 2] commit_round.simps [of 3]
      commit_round.simps [of 4] commit_round.simps [of 5] commit_round.simps [of 6] commit_step_def
      COMMIT_ATTEMPTS_def COMMIT_RETRY_MS_def COMMIT_SETTLE_MS_def word_le_nat_alt)

text \<open>The commit round decides by acknowledgement alone and waits long enough: the key is kept
  exactly when one of the six attempts is acknowledged; the round always ends; and a joiner whose
  attempts all fail has made at least two of them after the longest time a committing gateway can
  stay deaf.\<close>

theorem commit_round_correct:
  "fst (commit_rounds delivered) = (delivered 1 \<or> delivered 2 \<or> delivered 3 \<or> delivered 4 \<or> delivered 5 \<or> delivered 6) \<and>
   (fst (commit_rounds delivered) \<or> 2 \<le> length (filter (\<lambda>t. unat GATEWAY_COMMIT_STALL_MS < t) (snd (commit_rounds delivered))))"
  by (auto simp: commit_round_unfold GATEWAY_COMMIT_STALL_MS_def)

end
