(* ===== verification/Net_Epoch.thy ===== *)
theory Net_Epoch
  imports Prelude
begin

text \<open>
  The FHSS beacon-epoch gate of \<open>crates/net/src/epoch.rs\<close> and the scanning half of the firmware's
  node tick (\<open>fhss_node_tick\<close>), which keeps the arrival time of the held candidate beacon and
  measures the elapsed slots. The theorems are about any sequence of authenticated beacons, replayed
  or genuine, in any order: the epoch never goes back, an anchor is only committed to a beacon that
  advanced in step with real time, and replays cannot keep a node from locking.
\<close>

section \<open>The gate\<close>

definition ACQUIRE_SLOT_SLACK :: u32 where
  "ACQUIRE_SLOT_SLACK = 3"

definition FHSS_RESYNC_SLACK :: u32 where
  "FHSS_RESYNC_SLACK = 2"

definition REACQUIRE_LIMIT :: u32 where
  "REACQUIRE_LIMIT = 24"

definition DRIFT_PPM :: u64 where
  "DRIFT_PPM = 100"

definition reacquire_slack_ms :: "u64 \<Rightarrow> u64 \<Rightarrow> u64 option" where
  "reacquire_slack_ms since_beacon_ms max_ms =
     (let p = unat (sat_mul since_beacon_ms DRIFT_PPM);
          slack = of_nat ((p + 999999) div 1000000)
      in if slack \<le> max_ms then Some slack else None)"

definition next_master_epoch :: "u32 option \<Rightarrow> u32" where
  "next_master_epoch stored = sat_add (case stored of None \<Rightarrow> 0 | Some e \<Rightarrow> e) 1"

datatype track_verdict = ReAnchor | TvIgnore

datatype miss_verdict = KeepPredicting | Rescan

datatype scan_verdict = Reject | Hold bool | Lock

record epoch_gate =
  eg_epoch :: u32
  eg_miss :: u32
  eg_candidate :: "(u32 \<times> u32) option"

definition gate_new :: epoch_gate where
  "gate_new = \<lparr>eg_epoch = 0, eg_miss = 0, eg_candidate = None\<rparr>"

definition gate_reset :: "epoch_gate \<Rightarrow> u32 \<Rightarrow> epoch_gate" where
  "gate_reset g epoch = g\<lparr>eg_epoch := epoch, eg_miss := 0, eg_candidate := None\<rparr>"

definition offer_tracked :: "u32 \<Rightarrow> u32 \<Rightarrow> u32 \<Rightarrow> epoch_gate \<Rightarrow> track_verdict \<times> epoch_gate" where
  "offer_tracked epoch slot_abs predicted_slot g =
     (if eg_epoch g \<le> epoch \<and> abs_diff slot_abs predicted_slot \<le> FHSS_RESYNC_SLACK
      then (ReAnchor, g\<lparr>eg_epoch := epoch, eg_miss := 0\<rparr>) else (TvIgnore, g))"

definition beacon_missed :: "epoch_gate \<Rightarrow> miss_verdict \<times> epoch_gate" where
  "beacon_missed g =
     (let g' = g\<lparr>eg_miss := eg_miss g + 1\<rparr> in (if REACQUIRE_LIMIT \<le> eg_miss g' then Rescan else KeepPredicting, g'))"

definition consistent :: "(u32 \<times> u32) option \<Rightarrow> u32 option \<Rightarrow> u32 \<Rightarrow> u32 \<Rightarrow> bool" where
  "consistent candidate elapsed_slots epoch slot_abs =
     (case (candidate, elapsed_slots) of
        (Some (e0, s0), Some time_adv) \<Rightarrow>
          e0 = epoch \<and> s0 < slot_abs \<and> abs_diff (slot_abs - s0) time_adv \<le> ACQUIRE_SLOT_SLACK
      | _ \<Rightarrow> False)"

definition offer_scanning :: "u32 \<Rightarrow> u32 \<Rightarrow> u32 option \<Rightarrow> epoch_gate \<Rightarrow> scan_verdict \<times> epoch_gate" where
  "offer_scanning epoch slot_abs elapsed_slots g =
     (if epoch < eg_epoch g then (Reject, g)
      else if consistent (eg_candidate g) elapsed_slots epoch slot_abs
      then (Lock, g\<lparr>eg_candidate := None, eg_epoch := epoch, eg_miss := 0\<rparr>)
      else let replaced = (case eg_candidate g of None \<Rightarrow> True | Some (e0, s0) \<Rightarrow> e0 < epoch \<or> epoch = e0 \<and> s0 < slot_abs)
        in (Hold replaced, if replaced then g\<lparr>eg_candidate := Some (epoch, slot_abs)\<rparr> else g))"

section \<open>The scanning node\<close>

text \<open>The node's scan state: the gate and \<open>acquire_t0\<close>, the arrival time (ms) of the held candidate. A
  beacon is its epoch, slot and arrival time. The clock anchor committed on a lock is the result.\<close>

record scan_state =
  ss_gate :: epoch_gate
  ss_t0 :: "u64 option"

definition SLOT_MS :: u64 where
  "SLOT_MS = 300"

definition scan_rx :: "u32 \<times> u32 \<times> u64 \<Rightarrow> scan_state \<Rightarrow> (u32 \<times> u64) option \<times> scan_state" where
  "scan_rx b s =
     (case b of (epoch, slot_abs, t_rx) \<Rightarrow>
        let elapsed_slots = map_option (\<lambda>t0. ucast (sat_sub t_rx t0 div SLOT_MS)) (ss_t0 s) in
        (case offer_scanning epoch slot_abs elapsed_slots (ss_gate s) of
           (Reject, g) \<Rightarrow> (None, s\<lparr>ss_gate := g\<rparr>)
         | (Lock, g) \<Rightarrow> (Some (slot_abs, t_rx), \<lparr>ss_gate = g, ss_t0 = None\<rparr>)
         | (Hold replaced, g) \<Rightarrow> (None, \<lparr>ss_gate = g, ss_t0 = (if replaced then Some t_rx else ss_t0 s)\<rparr>)))"

text \<open>Scanning until the first lock.\<close>

primrec scan_run :: "(u32 \<times> u32 \<times> u64) list \<Rightarrow> scan_state \<Rightarrow> (u32 \<times> u64) option \<times> scan_state" where
  "scan_run [] s = (None, s)"
| "scan_run (b # bs) s =
     (case scan_rx b s of (None, s') \<Rightarrow> scan_run bs s' | (Some a, s') \<Rightarrow> (Some a, s'))"

section \<open>What the gate keeps\<close>

lemma offer_scanning_epoch:
  "offer_scanning e s el g = (v, g') \<Longrightarrow> eg_epoch g \<le> eg_epoch g' \<and> (v = Lock \<longrightarrow> eg_epoch g' = e)"
  by (auto simp: offer_scanning_def Let_def split: if_splits)

lemma offer_tracked_epoch:
  "offer_tracked e s p g = (v, g') \<Longrightarrow> eg_epoch g \<le> eg_epoch g' \<and> (v = ReAnchor \<longrightarrow> eg_epoch g' = e)"
  by (auto simp: offer_tracked_def split: if_splits)

text \<open>The candidate held is a beacon heard, with its arrival time.\<close>

definition scan_inv :: "(u32 \<times> u32 \<times> u64) set \<Rightarrow> scan_state \<Rightarrow> bool" where
  "scan_inv heard s \<longleftrightarrow>
     (case eg_candidate (ss_gate s) of None \<Rightarrow> True
      | Some (e0, s0) \<Rightarrow> \<exists>t0. ss_t0 s = Some t0 \<and> (e0, s0, t0) \<in> heard)"

definition in_step :: "u32 \<Rightarrow> u64 \<Rightarrow> u32 \<Rightarrow> u64 \<Rightarrow> bool" where
  "in_step s0 t0 s t \<longleftrightarrow> s0 < s \<and> abs_diff (s - s0) (ucast (sat_sub t t0 div SLOT_MS)) \<le> ACQUIRE_SLOT_SLACK"

lemma scan_rx_inv:
  assumes "scan_inv heard st" and "scan_rx (e, s, t) st = (r, st')"
  shows "scan_inv (insert (e, s, t) heard) st'" and "eg_epoch (ss_gate st) \<le> eg_epoch (ss_gate st')"
    and "r = Some a \<Longrightarrow> a = (s, t) \<and> eg_epoch (ss_gate st) \<le> e \<and> (\<exists>s0 t0. (e, s0, t0) \<in> heard \<and> in_step s0 t0 s t)"
proof -
  obtain v g where o: "offer_scanning e s (map_option (\<lambda>t0. ucast (sat_sub t t0 div SLOT_MS)) (ss_t0 st)) (ss_gate st) = (v, g)"
    by fastforce
  have st': "r = (if v = Lock then Some (s, t) else None)"
    "st' = (case v of Reject \<Rightarrow> st\<lparr>ss_gate := g\<rparr> | Lock \<Rightarrow> \<lparr>ss_gate = g, ss_t0 = None\<rparr>
       | Hold replaced \<Rightarrow> \<lparr>ss_gate = g, ss_t0 = (if replaced then Some t else ss_t0 st)\<rparr>)"
    using assms(2) o by (auto simp: scan_rx_def Let_def split: scan_verdict.splits)
  show "eg_epoch (ss_gate st) \<le> eg_epoch (ss_gate st')"
    using offer_scanning_epoch [OF o] st' by (cases v) auto
  show "scan_inv (insert (e, s, t) heard) st'"
    using assms(1) o st' by (cases v) (auto simp: scan_inv_def offer_scanning_def Let_def split: if_splits option.splits)
  show "a = (s, t) \<and> eg_epoch (ss_gate st) \<le> e \<and> (\<exists>s0 t0. (e, s0, t0) \<in> heard \<and> in_step s0 t0 s t)" if "r = Some a"
  proof -
    have v: "v = Lock" "a = (s, t)" using that st'(1) by (auto split: if_splits)
    with o have e: "eg_epoch (ss_gate st) \<le> e"
      and c: "consistent (eg_candidate (ss_gate st)) (map_option (\<lambda>t0. ucast (sat_sub t t0 div SLOT_MS)) (ss_t0 st)) e s"
      by (auto simp: offer_scanning_def Let_def split: if_splits)
    then show ?thesis using v(2) assms(1) by (auto simp: consistent_def scan_inv_def in_step_def split: option.splits)
  qed
qed

lemma scan_run_sound:
  "scan_inv heard st \<Longrightarrow> scan_run bs st = (Some (s, t), st') \<Longrightarrow>
   \<exists>e s0 t0. (e, s, t) \<in> set bs \<and> (e, s0, t0) \<in> heard \<union> set bs \<and> eg_epoch (ss_gate st) \<le> e \<and> in_step s0 t0 s t"
proof (induction bs arbitrary: st heard)
  case (Cons b bs)
  obtain e1 s1 t1 where b: "b = (e1, s1, t1)" by (cases b) auto
  obtain r st1 where r: "scan_rx b st = (r, st1)" by fastforce
  note I = scan_rx_inv [OF Cons.prems(1) r [unfolded b]]
  show ?case
  proof (cases r)
    case None
    then have "scan_run bs st1 = (Some (s, t), st')" using Cons.prems(2) r by simp
    from Cons.IH [OF I(1) this] I(2) b show ?thesis by (auto intro: order.trans)
  next
    case (Some a)
    then have "a = (s, t)" using Cons.prems(2) r by simp
    with I(3) [OF Some] b show ?thesis by auto
  qed
qed simp

text \<open>C40. An anchor is only committed to time: scanning from an empty state, whatever beacons are heard
  (captures replayed at will included), a lock happens only on a beacon for which an earlier
  beacon of the same epoch was heard whose slot is behind it by as many slots as really passed, give
  or take three, and never on an epoch below the highest locked to. So copies of one capture
  never lock.\<close>

theorem lock_needs_consistency:
  assumes "eg_candidate (ss_gate st) = None" and "scan_run bs st = (Some (s, t), st')"
  shows "\<exists>e s0 t0. (e, s, t) \<in> set bs \<and> (e, s0, t0) \<in> set bs \<and> eg_epoch (ss_gate st) \<le> e \<and> in_step s0 t0 s t"
  using scan_run_sound [of "{}" st bs s t st'] assms by (simp add: scan_inv_def)

theorem lock_needs_consistency_witness:
  "\<exists>e s0 t0. (e :: u32, 180 :: u32, 25000 :: u64) \<in> set [(1, 100, 1000), (1, 180, 25000)] \<and> (e, s0, t0) \<in> set [(1, 100, 1000), (1, 180, 25000)] \<and>
     eg_epoch gate_new \<le> e \<and> in_step s0 t0 180 25000"
  using lock_needs_consistency [of "\<lparr>ss_gate = gate_new, ss_t0 = None\<rparr>" "[(1, 100, 1000), (1, 180, 25000)]" 180 25000]
  by (simp add: scan_rx_def offer_scanning_def consistent_def gate_new_def Let_def sat_sub_def SLOT_MS_def abs_diff_def
      ACQUIRE_SLOT_SLACK_def)

text \<open>A beacon behind the held candidate changes nothing.\<close>

definition behind :: "u32 \<Rightarrow> u32 \<Rightarrow> u32 \<times> u32 \<times> u64 \<Rightarrow> bool" where
  "behind e s b \<longleftrightarrow> (case b of (e', s', _) \<Rightarrow> e' < e \<or> e' = e \<and> s' \<le> s)"

lemma scan_rx_behind:
  assumes "eg_candidate (ss_gate st) = Some (e, s)" and "behind e s b"
  shows "scan_rx b st = (None, st)"
proof -
  obtain e' s' t where b: "b = (e', s', t)" by (cases b) auto
  have "\<not> consistent (Some (e, s)) el e' s'" for el using assms(2) b by (auto simp: consistent_def behind_def split: option.splits)
  moreover have "(e < e' \<or> e' = e \<and> s < s') = False" using assms(2) b by (auto simp: behind_def)
  ultimately show ?thesis using assms(1) b unfolding scan_rx_def offer_scanning_def Let_def by (simp only: b prod.case option.case if_False) auto
qed

text \<open>Replays cannot deny acquisition: with a genuine candidate held, any number of replayed
  beacons that do not run ahead of it, at any times, leave the scan as it is, and the gateway's
  next beacon, as many slots later as time has passed (within the slack), locks.\<close>

theorem replays_cannot_deny_lock:
  assumes "eg_candidate (ss_gate st) = Some (e, s0)" and "ss_t0 st = Some t0" and "eg_epoch (ss_gate st) \<le> e"
    and "\<forall>b \<in> set replays. behind e s0 b" and "in_step s0 t0 s t"
  shows "fst (scan_run (replays @ [(e, s, t)]) st) = Some (s, t)"
  using assms(4)
proof (induction replays)
  case Nil
  have "consistent (Some (e, s0)) (Some (ucast (sat_sub t t0 div SLOT_MS))) e s" using assms(5) by (simp add: consistent_def in_step_def)
  moreover have "\<not> e < eg_epoch (ss_gate st)" using assms(3) by (simp add: not_less)
  ultimately show ?case using assms(1,2) by (simp add: scan_rx_def offer_scanning_def Let_def)
next
  case (Cons b bs)
  then show ?case using scan_rx_behind [OF assms(1)] by simp
qed

theorem replays_cannot_deny_lock_witness:
  "fst (scan_run ([(1, 90, 2000), (1, 100, 9000)] @ [(1, 180, 25000)])
     \<lparr>ss_gate = gate_new\<lparr>eg_candidate := Some (1, 100)\<rparr>, ss_t0 = Some 1000\<rparr>) = Some (180, 25000)"
  by (rule replays_cannot_deny_lock [where ?s0.0 = 100 and ?t0.0 = 1000])
    (simp_all add: gate_new_def behind_def in_step_def sat_sub_def SLOT_MS_def abs_diff_def ACQUIRE_SLOT_SLACK_def)

end
