(* ===== verification/Radio_Air.thy ===== *)
theory Radio_Air
  imports Prelude "HOL-Library.Multiset"
begin

text \<open>
  Airtime and spectrum access, from \<open>crates/radio/src/lib.rs\<close>: the time-on-air of a frame, the
  duty-cycle token bucket, the FHSS hop permutation and the uplink backoff, with the slot clock of
  the firmware's FHSS layer (\<open>fhss_channel_for\<close>). The theorems bound what a transmitter may
  spend in a window, show that the residue carry makes refilling independent of how the time is
  cut, and that one hop cycle visits every channel once and never returns to one early.
\<close>

section \<open>Time on air\<close>

definition BITRATE :: u64 where
  "BITRATE = 19200"

definition frame_toa_ms :: "u64 \<Rightarrow> u32" where
  "frame_toa_ms frame_len =
     (let bytes = sat_add frame_len (4 + 4 + 1 + 2);
          prod = sat_mul bytes (8 * 1000);
          ms = (unat prod + unat BITRATE - 1) div unat BITRATE
      in if ms > 4294967295 then 0xFFFFFFFF else of_nat ms)"

section \<open>The duty governor\<close>

definition EU_CAP_MS :: u32 where
  "EU_CAP_MS = 36000"

definition EU_PERMIL :: u32 where
  "EU_PERMIL = 10"

definition FHSS_WINDOW_MS :: u32 where
  "FHSS_WINDOW_MS = 20000"

definition FHSS_DWELL_BURST_MS :: u32 where
  "FHSS_DWELL_BURST_MS = 100"

definition FHSS_PERMIL :: u32 where
  "FHSS_PERMIL = 10"

record duty_governor =
  dg_budget_ms :: u32
  dg_cap_ms :: u32
  dg_permil :: u32
  dg_residue :: u32

definition duty_new :: "u32 \<Rightarrow> u32 \<Rightarrow> duty_governor" where
  "duty_new cap_ms permil =
     \<lparr>dg_budget_ms = cap_ms, dg_cap_ms = cap_ms, dg_permil = permil, dg_residue = 0\<rparr>"

definition duty_eu :: duty_governor where
  "duty_eu = duty_new EU_CAP_MS EU_PERMIL"

definition duty_us915 :: duty_governor where
  "duty_us915 = duty_new EU_CAP_MS 1000"

definition duty_fhss_channel :: duty_governor where
  "duty_fhss_channel = duty_new FHSS_DWELL_BURST_MS FHSS_PERMIL"

definition refill_ms :: "duty_governor \<Rightarrow> u32 \<Rightarrow> duty_governor" where
  "refill_ms g elapsed_ms =
     (let t = sat_add (sat_mul elapsed_ms (dg_permil g)) (dg_residue g);
          refill = t div 1000
      in g\<lparr>dg_residue := t mod 1000, dg_budget_ms := min (sat_add (dg_budget_ms g) refill) (dg_cap_ms g)\<rparr>)"

definition try_consume :: "duty_governor \<Rightarrow> u32 \<Rightarrow> bool \<times> duty_governor" where
  "try_consume g toa_ms =
     (if toa_ms \<le> dg_budget_ms g then (True, g\<lparr>dg_budget_ms := dg_budget_ms g - toa_ms\<rparr>) else (False, g))"

text \<open>\<open>DutyGovernor::try_tx\<close> of the firmware, with the elapsed wall-clock it measures.\<close>

definition try_tx :: "duty_governor \<Rightarrow> u32 \<Rightarrow> u32 \<Rightarrow> bool \<times> duty_governor" where
  "try_tx g elapsed_ms toa_ms = try_consume (refill_ms g elapsed_ms) toa_ms"

text \<open>A run of transmission attempts, each after some elapsed time: the airtime granted in all.\<close>

primrec duty_spent :: "duty_governor \<Rightarrow> (u32 \<times> u32) list \<Rightarrow> nat" where
  "duty_spent g [] = 0"
| "duty_spent g (r # rs) =
     (case try_tx g (fst r) (snd r) of (granted, g') \<Rightarrow> (if granted then unat (snd r) else 0) + duty_spent g' rs)"

section \<open>The hop schedule\<close>

definition xorshift32 :: "u32 \<Rightarrow> u32" where
  "xorshift32 x0 =
     (let x1 = x0 XOR push_bit 13 x0; x2 = x1 XOR drop_bit 17 x1 in x2 XOR push_bit 5 x2)"

definition swap_at :: "'a list \<Rightarrow> nat \<Rightarrow> nat \<Rightarrow> 'a list" where
  "swap_at xs i j = xs[i := xs ! j, j := xs ! i]"

text \<open>The loop \<open>while j >= 1\<close>, entered with index \<open>j\<close> and generator state \<open>x\<close>.\<close>

primrec hop_shuffle :: "nat \<Rightarrow> u32 \<Rightarrow> u8 list \<Rightarrow> u8 list" where
  "hop_shuffle 0 x perm = perm"
| "hop_shuffle (Suc j) x perm =
     (let x' = xorshift32 x in hop_shuffle j x' (swap_at perm (Suc j) (unat x' mod (Suc j + 1))))"

definition hop_perm :: "nat \<Rightarrow> u32 \<Rightarrow> u8 list" where
  "hop_perm N seed = hop_shuffle (N - 1) (if seed = 0 then 0xA5A5A5A5 else seed) (map of_nat [0..<N])"

definition hop_channel :: "nat \<Rightarrow> u32 \<Rightarrow> u32 \<Rightarrow> u8 \<Rightarrow> u8" where
  "hop_channel N seed cycle i = hop_perm N seed ! unat i"

definition FHSS_N :: nat where
  "FHSS_N = 80"

definition FHSS_SLOT_MS :: nat where
  "FHSS_SLOT_MS = 300"

definition fhss_channel_for :: "u32 \<Rightarrow> u32 \<Rightarrow> u8" where
  "fhss_channel_for seed slot_abs =
     hop_channel FHSS_N seed (slot_abs div of_nat FHSS_N) (ucast (slot_abs mod of_nat FHSS_N))"

section \<open>Uplink backoff\<close>

definition uplink_backoff_s :: "u64 \<Rightarrow> u64 \<Rightarrow> u8 \<Rightarrow> u64" where
  "uplink_backoff_s period_s cap_s misses =
     (let period = max period_s 1; backed_off = sat_mul period (push_bit (unat (min misses 32)) 1)
      in min backed_off (max cap_s period))"


section \<open>Time on air never under-counts\<close>

lemma toa_alt:
  "frame_toa_ms n =
     (if (unat (sat_mul (sat_add n 11) 8000 :: u64) + 19199) div 19200 > 4294967295 then 0xFFFFFFFF
      else of_nat ((unat (sat_mul (sat_add n 11) 8000 :: u64) + 19199) div 19200))"
proof -
  have "unat (19200 :: u64) = 19200" "m + 19200 - 1 = m + 19199" "(4 + 4 + 1 + 2 :: u64) = 11" "(8 * 1000 :: u64) = 8000" for m :: nat
    by simp_all
  then show ?thesis unfolding frame_toa_ms_def Let_def BITRATE_def by (simp only:)
qed

lemma unat_frame_toa:
  "unat (frame_toa_ms n) = min ((min (min (unat n + 11) (2 ^ 64 - 1) * 8000) (2 ^ 64 - 1) + 19199) div 19200) 4294967295"
proof -
  let ?p = "min (min (unat n + 11) (2 ^ 64 - 1) * 8000) (2 ^ 64 - 1)"
  have p: "unat (sat_mul (sat_add n 11) 8000 :: u64) = ?p" by (simp add: unat_sat_mul unat_sat_add)
  have e: "frame_toa_ms n = (if (?p + 19199) div 19200 > 4294967295 then 0xFFFFFFFF else of_nat ((?p + 19199) div 19200))"
    using toa_alt [of n] unfolding p .
  show ?thesis
  proof (cases "(?p + 19199) div 19200 > 4294967295")
    case True
    then show ?thesis by (simp add: e)
  next
    case False
    moreover have "unat (of_nat m :: u32) = m" if "\<not> 4294967295 < m" for m using that by (simp add: unat_of_nat)
    ultimately have "unat (of_nat ((?p + 19199) div 19200) :: u32) = (?p + 19199) div 19200" by blast
    with False show ?thesis by (simp add: e min_def)
  qed
qed

text \<open>The regulatory budget is never under-counted: for every frame length the airtime charged is
  the exact on-air time of preamble, sync, length, payload and CRC rounded up to a millisecond,
  and a length past the representable range charges the maximum instead of wrapping.\<close>

theorem frame_toa_exact:
  "unat (frame_toa_ms n) =
     (if 8000 * (unat n + 11) \<le> 19200 * 4294967295 then (8000 * (unat n + 11) + 19199) div 19200 else 4294967295)"
proof (cases "8000 * (unat n + 11) \<le> 19200 * 4294967295")
  case True
  let ?m = "8000 * (unat n + 11)"
  have "?m \<le> 2 ^ 64 - 1" "unat n + 11 \<le> 2 ^ 64 - 1" using True by simp_all
  then have "min (min (unat n + 11) (2 ^ 64 - 1) * 8000) (2 ^ 64 - 1) = ?m" by (simp add: min_def)
  moreover have "m \<le> 19200 * 4294967295 \<Longrightarrow> (m + 19199) div 19200 \<le> 4294967295" for m :: nat
    using div_le_mono [of "m + 19199" "19200 * 4294967295 + 19199" 19200] by simp
  then have "(?m + 19199) div 19200 \<le> 4294967295" using True by blast
  ultimately show ?thesis using True by (simp add: unat_frame_toa)
next
  case False
  let ?p = "min (min (unat n + 11) (2 ^ 64 - 1) * 8000) (2 ^ 64 - 1)"
  have "19200 * 4294967295 < ?p" using False by (simp add: nat_mult_min_left min_less_iff_conj)
  moreover have "19200 * 4294967295 < m \<Longrightarrow> 4294967295 \<le> (m + 19199) div 19200" for m :: nat
    using div_le_mono [of "19200 * 4294967295 + 19199" "m + 19199" 19200] by simp
  ultimately have "4294967295 \<le> (?p + 19199) div 19200" by blast
  then show ?thesis using False by (simp add: unat_frame_toa)
qed

section \<open>The token bucket\<close>

text \<open>Budget and residue as one number of thousandths.\<close>

definition duty_level :: "duty_governor \<Rightarrow> nat" where
  "duty_level g = 1000 * unat (dg_budget_ms g) + unat (dg_residue g)"

definition duty_inv :: "duty_governor \<Rightarrow> bool" where
  "duty_inv g \<longleftrightarrow> dg_budget_ms g \<le> dg_cap_ms g \<and> dg_residue g < 1000"

lemma duty_inv_new: "duty_inv (duty_new cap permil)"
  by (simp add: duty_inv_def duty_new_def)

lemma refill_fields [simp]:
  "dg_cap_ms (refill_ms g e) = dg_cap_ms g" "dg_permil (refill_ms g e) = dg_permil g"
  by (simp_all add: refill_ms_def Let_def)

lemma refill_keeps: "duty_inv (refill_ms g e)"
  by (simp add: duty_inv_def refill_ms_def Let_def word_less_nat_alt unat_mod)

lemma refill_level: "duty_level (refill_ms g e) \<le> duty_level g + unat e * unat (dg_permil g)"
proof -
  let ?t = "sat_add (sat_mul e (dg_permil g)) (dg_residue g)"
  have t: "unat ?t \<le> unat e * unat (dg_permil g) + unat (dg_residue g)" by (simp add: sat_simps)
  have b: "unat (min (sat_add (dg_budget_ms g) (?t div 1000)) (dg_cap_ms g)) \<le> unat (dg_budget_ms g) + unat ?t div 1000"
  proof -
    have "min (sat_add (dg_budget_ms g) (?t div 1000)) (dg_cap_ms g) \<le> sat_add (dg_budget_ms g) (?t div 1000)" by simp
    then have "unat (min (sat_add (dg_budget_ms g) (?t div 1000)) (dg_cap_ms g)) \<le> unat (sat_add (dg_budget_ms g) (?t div 1000))"
      by (simp only: word_le_nat_alt)
    then show ?thesis by (simp add: unat_sat_add unat_div)
  qed
  have m: "1000 * (unat ?t div 1000) + unat ?t mod 1000 = unat ?t" by simp
  have "duty_level (refill_ms g e) =
      1000 * unat (min (sat_add (dg_budget_ms g) (?t div 1000)) (dg_cap_ms g)) + unat ?t mod 1000"
    by (simp add: duty_level_def refill_ms_def Let_def unat_mod)
  also have "\<dots> \<le> 1000 * (unat (dg_budget_ms g) + unat ?t div 1000) + unat ?t mod 1000"
    using b by (intro add_right_mono mult_le_mono2)
  also have "\<dots> = 1000 * unat (dg_budget_ms g) + unat ?t" using m by (simp add: algebra_simps)
  finally show ?thesis using t by (simp add: duty_level_def)
qed

lemma try_tx_step:
  assumes "duty_inv g" and "try_tx g e toa = (ok, g')"
  shows "duty_inv g'" and "dg_permil g' = dg_permil g" and "dg_cap_ms g' = dg_cap_ms g"
    and "(if ok then 1000 * unat toa else 0) + duty_level g' \<le> duty_level g + unat e * unat (dg_permil g)"
proof -
  let ?r = "refill_ms g e"
  note r = refill_keeps [of g e] refill_level [of g e]
  have "unat (dg_budget_ms ?r - toa) = unat (dg_budget_ms ?r) - unat toa" if "toa \<le> dg_budget_ms ?r"
    using that by (simp add: unat_sub)
  moreover have "dg_budget_ms ?r - toa \<le> dg_cap_ms g" if "toa \<le> dg_budget_ms ?r"
  proof -
    have "unat (dg_budget_ms ?r - toa) \<le> unat (dg_budget_ms ?r)" using that by (simp add: unat_sub)
    then have "dg_budget_ms ?r - toa \<le> dg_budget_ms ?r" by (simp only: word_le_nat_alt)
    also have "\<dots> \<le> dg_cap_ms g" using r(1) by (simp add: duty_inv_def)
    finally show ?thesis .
  qed
  ultimately show "duty_inv g'" "dg_permil g' = dg_permil g" "dg_cap_ms g' = dg_cap_ms g"
    "(if ok then 1000 * unat toa else 0) + duty_level g' \<le> duty_level g + unat e * unat (dg_permil g)"
    using assms(2) r by (auto simp: try_tx_def try_consume_def duty_inv_def duty_level_def word_le_nat_alt split: if_splits)
qed

lemma duty_spent_level:
  "duty_inv g \<Longrightarrow> 1000 * duty_spent g rs \<le> duty_level g + sum_list (map (\<lambda>r. unat (fst r)) rs) * unat (dg_permil g)"
proof (induction rs arbitrary: g)
  case (Cons r rs)
  obtain ok g' where t: "try_tx g (fst r) (snd r) = (ok, g')" by fastforce
  note T = try_tx_step [OF Cons.prems t]
  have "1000 * duty_spent g' rs \<le> duty_level g' + sum_list (map (\<lambda>r. unat (fst r)) rs) * unat (dg_permil g)"
    using Cons.IH [OF T(1)] T(2) by simp
  then show ?case using T(4) t by (auto simp: algebra_simps split: if_splits)
qed simp

text \<open>C34. The airtime bound: over any run of attempts, starting from any state the governor can be
  in, the airtime granted is at most the cap plus the duty share of the time that passed (rounded
  up by the sub-millisecond carry). For the FHSS per-channel governor that is 300 ms in any 20 s.\<close>

theorem duty_bound:
  assumes "duty_inv g"
  shows "1000 * duty_spent g rs \<le> 1000 * unat (dg_cap_ms g) + 999 + sum_list (map (\<lambda>r. unat (fst r)) rs) * unat (dg_permil g)"
proof -
  have "unat (dg_budget_ms g) \<le> unat (dg_cap_ms g)" "unat (dg_residue g) \<le> 999"
    using assms by (simp_all add: duty_inv_def word_le_nat_alt word_less_nat_alt)
  then have "duty_level g \<le> 1000 * unat (dg_cap_ms g) + 999" by (simp add: duty_level_def)
  then show ?thesis using duty_spent_level [OF assms, of rs] by linarith
qed

theorem duty_bound_witness:
  "1000 * duty_spent duty_fhss_channel [(12000, 60), (8000, 90)] \<le> 300999"
  using duty_bound [OF duty_inv_new, of FHSS_DWELL_BURST_MS FHSS_PERMIL "[(12000, 60), (8000, 90)]"]
  by (simp add: duty_fhss_channel_def duty_new_def FHSS_DWELL_BURST_MS_def FHSS_PERMIL_def)


lemma unat_min: "unat (min a b :: 'a::len word) = min (unat a) (unat b)"
  by (simp add: min_def word_le_nat_alt)

lemma refill_exact:
  assumes "unat e * unat (dg_permil g) + unat (dg_residue g) < 2 ^ 32"
  shows "unat (dg_budget_ms (refill_ms g e)) =
      min (unat (dg_budget_ms g) + (unat e * unat (dg_permil g) + unat (dg_residue g)) div 1000) (unat (dg_cap_ms g))"
    and "unat (dg_residue (refill_ms g e)) = (unat e * unat (dg_permil g) + unat (dg_residue g)) mod 1000"
proof -
  let ?t = "sat_add (sat_mul e (dg_permil g)) (dg_residue g)"
  have t: "unat ?t = unat e * unat (dg_permil g) + unat (dg_residue g)"
    using assms by (simp add: sat_simps)
  have c: "unat (dg_cap_ms g) \<le> 2 ^ 32 - 1" using unat_less_size [of "dg_cap_ms g"] by simp
  show "unat (dg_residue (refill_ms g e)) = (unat e * unat (dg_permil g) + unat (dg_residue g)) mod 1000"
    using t by (simp add: refill_ms_def Let_def unat_mod)
  have "unat (dg_budget_ms (refill_ms g e)) =
      min (min (unat (dg_budget_ms g) + unat ?t div 1000) (2 ^ 32 - 1)) (unat (dg_cap_ms g))"
    by (simp add: refill_ms_def Let_def unat_min unat_sat_add unat_div)
  then show "unat (dg_budget_ms (refill_ms g e)) =
      min (unat (dg_budget_ms g) + (unat e * unat (dg_permil g) + unat (dg_residue g)) div 1000) (unat (dg_cap_ms g))"
    using t c by (simp add: min.absorb2 min.assoc)
qed

lemma duty_eqI:
  "unat (dg_budget_ms g) = unat (dg_budget_ms h) \<Longrightarrow> unat (dg_residue g) = unat (dg_residue h) \<Longrightarrow>
   dg_cap_ms g = dg_cap_ms h \<Longrightarrow> dg_permil g = dg_permil h \<Longrightarrow> g = (h :: duty_governor)"
  by (cases g; cases h) (simp add: word_unat_eq_iff)

lemma split_carry:
  "(a + r :: nat) div 1000 + (b + (a + r) mod 1000) div 1000 = (a + b + r) div 1000"
  "(b + (a + r) mod 1000) mod 1000 = (a + b + r) mod 1000"
proof -
  have e: "a + b + r = (b + (a + r) mod 1000) + 1000 * ((a + r) div 1000)"
    using mult_div_mod_eq [of 1000 "a + r"] by linarith
  have aux: "(m + 1000 * q) div 1000 = q + m div 1000" "(m + 1000 * q) mod 1000 = m mod 1000" for m q :: nat by simp_all
  show "(a + r) div 1000 + (b + (a + r) mod 1000) div 1000 = (a + b + r) div 1000" by (simp only: e aux)
  show "(b + (a + r) mod 1000) mod 1000 = (a + b + r) mod 1000" by (simp only: e aux)
qed

text \<open>C35. No starvation by rounding: refilling in two short intervals leaves the bucket exactly as
  refilling once over both, so back-to-back calls lose no airtime (times below the 32-bit
  saturation point).\<close>

theorem refill_additive:
  assumes "unat a + unat b < 2 ^ 32" and "(unat a + unat b) * unat (dg_permil g) + 999 < 2 ^ 32" and "duty_inv g"
  shows "refill_ms (refill_ms g a) b = refill_ms g (a + b)"
proof -
  let ?p = "unat (dg_permil g)" and ?r = "unat (dg_residue g)" and ?g = "refill_ms g a"
  have ab: "unat (a + b) = unat a + unat b" using assms(1) by (simp add: unat_word_ariths)
  have r: "?r \<le> 999" using assms(3) by (simp add: duty_inv_def word_less_nat_alt)
  have r': "unat (dg_residue ?g) \<le> 999" using refill_keeps [of g a] by (simp add: duty_inv_def word_less_nat_alt)
  have m: "unat a * ?p \<le> (unat a + unat b) * ?p" "unat b * ?p \<le> (unat a + unat b) * ?p" by simp_all
  have la: "unat a * ?p + ?r < 2 ^ 32" and lb: "unat b * unat (dg_permil ?g) + unat (dg_residue ?g) < 2 ^ 32"
    and lab: "unat (a + b) * ?p + ?r < 2 ^ 32"
    using assms(2) m r r' by (simp_all only: ab refill_fields)
  note A = refill_exact [OF la] and B = refill_exact [OF lb] and AB = refill_exact [OF lab]
  have min_carry: "min (min u c + y) c = min (u + y) c" for u c y :: nat by (simp add: min_def)
  have carry: "u + (unat a * ?p + ?r) div 1000 + (unat b * ?p + (unat a * ?p + ?r) mod 1000) div 1000 =
      u + (unat a * ?p + unat b * ?p + ?r) div 1000" for u
    using split_carry(1) [of "unat a * ?p" ?r "unat b * ?p"] by simp
  show ?thesis
  proof (rule duty_eqI)
    show "unat (dg_residue (refill_ms ?g b)) = unat (dg_residue (refill_ms g (a + b)))"
      using A(2) B(2) AB(2) ab split_carry(2) [of "unat b * ?p" "unat a * ?p" ?r] by (simp add: distrib_right)
    show "unat (dg_budget_ms (refill_ms ?g b)) = unat (dg_budget_ms (refill_ms g (a + b)))"
      using min_carry by (simp only: A B(1) AB(1) ab refill_fields distrib_right add.assoc [symmetric] carry)
  qed simp_all
qed

theorem refill_additive_witness: "refill_ms (refill_ms duty_eu 40) 60 = refill_ms duty_eu (40 + 60)"
  by (rule refill_additive) (simp_all add: duty_eu_def duty_inv_new, simp_all add: duty_new_def EU_PERMIL_def)

section \<open>The hop permutation\<close>

lemma mset_swap_at: "i < length xs \<Longrightarrow> j < length xs \<Longrightarrow> mset (swap_at xs i j) = mset xs"
  by (simp add: swap_at_def mset_swap)

lemma hop_shuffle_mset: "j < length perm \<Longrightarrow> mset (hop_shuffle j x perm) = mset perm \<and> length (hop_shuffle j x perm) = length perm"
proof (induction j arbitrary: x perm)
  case (Suc j)
  let ?x = "xorshift32 x"
  let ?r = "unat ?x mod (Suc j + 1)"
  have r: "?r < length perm" using Suc.prems mod_less_divisor [of "Suc j + 1" "unat ?x"] by linarith
  have "length (swap_at perm (Suc j) ?r) = length perm" by (simp add: swap_at_def)
  then show ?case using Suc.IH [of "swap_at perm (Suc j) ?r" ?x] Suc.prems mset_swap_at [OF Suc.prems r] by (simp add: Let_def)
qed simp

lemma hop_perm_mset: "0 < N \<Longrightarrow> mset (hop_perm N seed) = mset (map of_nat [0..<N]) \<and> length (hop_perm N seed) = N"
  using hop_shuffle_mset [of "N - 1" "map of_nat [0..<N]"] by (simp add: hop_perm_def)

lemma hop_perm_distinct:
  assumes "0 < N" and "N \<le> 256"
  shows "distinct (hop_perm N seed)"
proof -
  have "inj_on (of_nat :: nat \<Rightarrow> u8) {0..<N}"
  proof (rule inj_onI)
    fix i j assume "i \<in> {0..<N}" "j \<in> {0..<N}" "(of_nat i :: u8) = of_nat j"
    then have "unat (of_nat i :: u8) = unat (of_nat j :: u8)" "i < 256" "j < 256" using assms(2) by auto
    then show "i = j" by (simp add: unat_of_nat)
  qed
  then have "distinct (map of_nat [0..<N] :: u8 list)" by (simp add: distinct_map)
  then show ?thesis using hop_perm_mset [OF assms(1), of seed] by (metis mset_eq_imp_distinct_iff)
qed

lemma unat_mod_80: "unat (ucast (s mod 80 :: u32) :: u8) = unat s mod 80"
proof -
  have "unat s mod 80 < 256" using mod_less_divisor [of 80 "unat s"] by linarith
  then show ?thesis by (simp add: unsigned_ucast_eq unsigned_take_bit_eq take_bit_eq_mod unat_mod)
qed

lemma fhss_channel_eq: "fhss_channel_for seed s = fhss_channel_for seed t \<longleftrightarrow> unat s mod 80 = unat t mod 80"
proof -
  have p: "distinct (hop_perm 80 seed)" "length (hop_perm 80 seed) = 80"
    using hop_perm_distinct [of 80 seed] hop_perm_mset [of 80 seed] by simp_all
  then show ?thesis
    using nth_eq_iff_index_eq [OF p(1), of "unat s mod 80" "unat t mod 80"]
    by (simp add: fhss_channel_for_def hop_channel_def FHSS_N_def unat_mod_80)
qed

text \<open>C36. The hop schedule is compliant: one cycle visits each of the 80 channels exactly once, and
  two slots on one channel are at least 80 slots apart, which is longer than the 20 s averaging
  window, whatever the seed.\<close>

theorem hop_schedule_compliant:
  "mset (map (\<lambda>i. hop_channel FHSS_N seed cycle (of_nat i)) [0..<FHSS_N]) = mset (map of_nat [0..<FHSS_N]) \<and>
   (\<forall>s t. s < t \<longrightarrow> fhss_channel_for seed s = fhss_channel_for seed t \<longrightarrow>
      FHSS_N \<le> unat t - unat s \<and> unat FHSS_WINDOW_MS < (unat t - unat s) * FHSS_SLOT_MS)"
proof
  have len: "length (hop_perm 80 seed) = 80" and ms: "mset (hop_perm 80 seed) = mset (map of_nat [0..<80])"
    using hop_perm_mset [of 80 seed] by simp_all
  have "map (\<lambda>i. hop_channel 80 seed cycle (of_nat i)) [0..<80] = map (\<lambda>i. hop_perm 80 seed ! i) [0..<80]"
    by (rule map_cong [OF refl]) (simp add: hop_channel_def unat_of_nat)
  also have "\<dots> = hop_perm 80 seed" using len by (metis map_nth)
  finally show "mset (map (\<lambda>i. hop_channel FHSS_N seed cycle (of_nat i)) [0..<FHSS_N]) = mset (map of_nat [0..<FHSS_N])"
    using ms by (simp only: FHSS_N_def)
  have "80 \<le> unat t - unat s" if "s < t" "fhss_channel_for seed s = fhss_channel_for seed t" for s t
  proof -
    have "unat s mod 80 = unat t mod 80" "unat s < unat t"
      using that by (simp_all add: fhss_channel_eq word_less_nat_alt)
    then have "80 dvd unat t - unat s" "0 < unat t - unat s" using mod_eq_dvd_iff_nat [of "unat s" "unat t" 80] by simp_all
    then show ?thesis by (rule dvd_imp_le)
  qed
  then show "\<forall>s t. s < t \<longrightarrow> fhss_channel_for seed s = fhss_channel_for seed t \<longrightarrow>
      FHSS_N \<le> unat t - unat s \<and> unat FHSS_WINDOW_MS < (unat t - unat s) * FHSS_SLOT_MS"
    by (fastforce simp: FHSS_N_def FHSS_SLOT_MS_def FHSS_WINDOW_MS_def)
qed

theorem hop_schedule_compliant_witness:
  "fhss_channel_for 7 3 = fhss_channel_for 7 83 \<and> FHSS_N \<le> unat (83 :: u32) - unat (3 :: u32)"
proof -
  have e: "fhss_channel_for 7 3 = fhss_channel_for 7 83" by (simp add: fhss_channel_eq)
  then show ?thesis using hop_schedule_compliant [of 7 0, THEN conjunct2, rule_format, of 3 83] by simp
qed

section \<open>Backoff\<close>

lemma unat_backoff:
  "unat (uplink_backoff_s p c m) =
     min (min (max (unat p) 1 * 2 ^ min (unat m) 32) (2 ^ 64 - 1)) (max (unat c) (max (unat p) 1))"
proof -
  have mx: "unat (max a b) = max (unat a) (unat b)" for a b :: u64 by (simp add: max_def word_le_nat_alt)
  have k: "unat (min m 32) = min (unat m) 32" by (simp add: unat_min)
  have "unat (push_bit n 1 :: u64) = 2 ^ n" if "n \<le> 32" for n
  proof -
    have "(2 :: nat) ^ n \<le> 2 ^ 32" using that by (rule power_increasing) simp
    then have "(2 :: nat) ^ n < 2 ^ 64" by simp
    then have "unat (of_nat (2 ^ n) :: u64) = 2 ^ n" by (simp only: unat_of_nat) simp
    then show ?thesis by (simp add: push_bit_eq_mult)
  qed
  then show ?thesis by (simp add: uplink_backoff_s_def Let_def unat_min unat_sat_mul mx k)
qed

text \<open>Backing off: the pause grows with the misses, never falls below the period (or a second)
  and never exceeds the cap unless the period itself does.\<close>

theorem uplink_backoff_bounds:
  assumes "m \<le> m'"
  shows "max p 1 \<le> uplink_backoff_s p c m \<and> uplink_backoff_s p c m \<le> uplink_backoff_s p c m' \<and>
     uplink_backoff_s p c m' \<le> max c (max p 1)"
proof -
  let ?p = "max (unat p) 1"
  have mx: "unat (max a b) = max (unat a) (unat b)" for a b :: u64 by (simp add: max_def word_le_nat_alt)
  have mm: "min (unat m) 32 \<le> min (unat m') 32" using assms by (simp add: word_le_nat_alt)
  have pow: "?p * 2 ^ min (unat m) 32 \<le> ?p * 2 ^ min (unat m') 32" using power_increasing [OF mm, of "2 :: nat"] by (intro mult_le_mono2) simp
  have one: "?p \<le> ?p * 2 ^ min (unat m) 32" using mult_le_mono2 [of 1 "2 ^ min (unat m) 32" ?p] by simp
  have top: "?p \<le> 2 ^ 64 - 1" using unat_less_size [of p] by simp
  note defs = word_le_nat_alt unat_backoff mx unat_1
  have "max p 1 \<le> uplink_backoff_s p c m" unfolding defs using one top by (intro min.boundedI) simp_all
  moreover have "uplink_backoff_s p c m \<le> uplink_backoff_s p c m'"
    unfolding defs by (intro min.mono pow order_refl)
  moreover have "uplink_backoff_s p c m' \<le> max c (max p 1)" unfolding defs by (rule min.cobounded2)
  ultimately show ?thesis by blast
qed

theorem uplink_backoff_bounds_witness:
  "max 60 1 \<le> uplink_backoff_s 60 3600 2 \<and> uplink_backoff_s 60 3600 2 \<le> uplink_backoff_s 60 3600 9 \<and>
     uplink_backoff_s 60 3600 9 \<le> max 3600 (max 60 1)"
  by (rule uplink_backoff_bounds) simp

end
