(* ===== verification/Radio_Frame.thy ===== *)
theory Radio_Frame
  imports Net_Link
begin

text \<open>
  The on-air frame: AES-128-CCM of \<open>crates/radio/src/ccm.rs\<close> and the frame codec of
  \<open>firmware/src/radio/frame.rs\<close>. The single-block cipher is the trait \<open>AesBlock\<close>, whose
  implementations (a hardware engine on the target) are outside the repository: it is the argument
  \<open>enc\<close> of the definitions, and \<open>aes_block enc\<close> states the one fact the code needs of it, that a
  sixteen-byte block is encrypted to sixteen bytes. The theorems: opening a frame gives back what
  was sealed, and opening accepts nothing but what sealing produces.
\<close>

section \<open>CCM\<close>

definition TAG_LEN :: nat where
  "TAG_LEN = 8"

definition aes_block :: "(bytes \<Rightarrow> bytes \<Rightarrow> bytes) \<Rightarrow> bool" where
  "aes_block enc \<longleftrightarrow> (\<forall>key b. length b = 16 \<longrightarrow> length (enc key b) = 16)"

definition u16_be :: "u16 \<Rightarrow> bytes" where
  "u16_be w = [ucast (drop_bit 8 w), ucast w]"

definition block_xor :: "bytes \<Rightarrow> bytes \<Rightarrow> bytes" where
  "block_xor dst src = map2 (XOR) dst src"

text \<open>XOR of a chunk into the front of the running MAC block.\<close>

definition xor_into :: "bytes \<Rightarrow> bytes \<Rightarrow> bytes" where
  "xor_into x chunk = map2 (XOR) x chunk @ drop (length chunk) x"

function mac_stream :: "(bytes \<Rightarrow> bytes \<Rightarrow> bytes) \<Rightarrow> bytes \<Rightarrow> bytes \<Rightarrow> bytes \<Rightarrow> bytes" where
  "mac_stream enc key x stream =
     (if stream = [] then x
      else mac_stream enc key (enc key (xor_into x (take 16 stream))) (drop 16 stream))"
  by pat_completeness auto
termination by (relation "measure (\<lambda>(enc, key, x, stream). length stream)") auto

definition ctr_keystream :: "(bytes \<Rightarrow> bytes \<Rightarrow> bytes) \<Rightarrow> bytes \<Rightarrow> bytes \<Rightarrow> u16 \<Rightarrow> bytes" where
  "ctr_keystream enc key nonce counter = enc key ([1] @ nonce @ u16_be counter)"

function ctr_chunks :: "(bytes \<Rightarrow> bytes \<Rightarrow> bytes) \<Rightarrow> bytes \<Rightarrow> bytes \<Rightarrow> nat \<Rightarrow> bytes \<Rightarrow> bytes" where
  "ctr_chunks enc key nonce i data =
     (if data = [] then []
      else map2 (XOR) (take 16 data) (ctr_keystream enc key nonce (of_nat (i + 1))) @
        ctr_chunks enc key nonce (Suc i) (drop 16 data))"
  by pat_completeness auto
termination by (relation "measure (\<lambda>(enc, key, nonce, i, data). length data)") auto

definition ctr_apply :: "(bytes \<Rightarrow> bytes \<Rightarrow> bytes) \<Rightarrow> bytes \<Rightarrow> bytes \<Rightarrow> bytes \<Rightarrow> bytes" where
  "ctr_apply enc key nonce data = ctr_chunks enc key nonce 0 data"

definition cbc_mac :: "(bytes \<Rightarrow> bytes \<Rightarrow> bytes) \<Rightarrow> bytes \<Rightarrow> bytes \<Rightarrow> bytes \<Rightarrow> bytes \<Rightarrow> bytes" where
  "cbc_mac enc key nonce aad data =
     (let b0 = [(if aad \<noteq> [] then 0x40 else 0) OR push_bit 3 3 OR 1] @ nonce @ u16_be (of_nat (length data));
          x0 = enc key (block_xor (replicate 16 0) b0);
          x1 = (if aad \<noteq> [] then mac_stream enc key x0 (u16_be (of_nat (length aad)) @ aad) else x0)
      in mac_stream enc key x1 data)"

definition ccm_tag :: "(bytes \<Rightarrow> bytes \<Rightarrow> bytes) \<Rightarrow> bytes \<Rightarrow> bytes \<Rightarrow> bytes \<Rightarrow> bytes \<Rightarrow> bytes" where
  "ccm_tag enc key nonce aad data =
     map2 (XOR) (take TAG_LEN (cbc_mac enc key nonce aad data)) (take TAG_LEN (ctr_keystream enc key nonce 0))"

definition ct_eq :: "bytes \<Rightarrow> bytes \<Rightarrow> bool" where
  "ct_eq a b = (if length a \<noteq> length b then False else foldl (OR) 0 (map2 (XOR) a b) = 0)"

definition ccm_seal :: "(bytes \<Rightarrow> bytes \<Rightarrow> bytes) \<Rightarrow> bytes \<Rightarrow> bytes \<Rightarrow> bytes \<Rightarrow> bytes \<Rightarrow> bytes \<times> bytes" where
  "ccm_seal enc key nonce aad data =
     (ctr_apply enc key nonce data, ccm_tag enc key nonce aad data)"

definition ccm_open ::
  "(bytes \<Rightarrow> bytes \<Rightarrow> bytes) \<Rightarrow> bytes \<Rightarrow> bytes \<Rightarrow> bytes \<Rightarrow> bytes \<Rightarrow> bytes \<Rightarrow> bool \<times> bytes"
where
  "ccm_open enc key nonce aad data tag =
     (let plain = ctr_apply enc key nonce data in (ct_eq (ccm_tag enc key nonce aad plain) tag, plain))"

definition key_check :: "(bytes \<Rightarrow> bytes \<Rightarrow> bytes) \<Rightarrow> bytes \<Rightarrow> u32" where
  "key_check enc key = (let b = enc key (replicate 16 0) in le_u32 (b ! 0) (b ! 1) (b ! 2) (b ! 3))"

declare mac_stream.simps [simp del] ctr_chunks.simps [simp del]

subsection \<open>CTR is an involution, the tag comparison is equality\<close>

lemma length_ctr_keystream: "aes_block enc \<Longrightarrow> length nonce = NONCE_LEN \<Longrightarrow> length (ctr_keystream enc key nonce c) = 16"
  by (simp add: ctr_keystream_def aes_block_def NONCE_LEN_def u16_be_def)

lemma map2_xor_twice: "length a \<le> length k \<Longrightarrow> map2 (XOR) (map2 (XOR) a k) k = (a :: bytes)"
  by (rule nth_equalityI) (auto simp: xor.assoc)

lemma ctr_chunks_involution:
  assumes "aes_block enc" and "length nonce = NONCE_LEN"
  shows "length (ctr_chunks enc key nonce i data) = length data \<and>
    ctr_chunks enc key nonce i (ctr_chunks enc key nonce i data) = data"
  using assms
proof (induction enc key nonce i data rule: ctr_chunks.induct)
  case (1 enc key nonce i data)
  let ?k = "ctr_keystream enc key nonce (of_nat (i + 1))"
  have k: "length ?k = 16" using 1(2,3) by (rule length_ctr_keystream)
  show ?case
  proof (cases "data = []")
    case False
    let ?h = "map2 (XOR) (take 16 data) ?k" and ?t = "ctr_chunks enc key nonce (Suc i) (drop 16 data)"
    have IH: "length ?t = length data - 16" "ctr_chunks enc key nonce (Suc i) ?t = drop 16 data"
      using 1(1) [OF False 1(2,3)] by simp_all
    have c: "ctr_chunks enc key nonce i data = ?h @ ?t" using False by (simp add: ctr_chunks.simps)
    have lh: "length ?h = min 16 (length data)" using k by simp
    have th: "take 16 (?h @ ?t) = ?h" "drop 16 (?h @ ?t) = ?t"
    proof -
      have "?t = [] \<or> length ?h = 16" using lh IH(1) by (cases "16 \<le> length data") auto
      moreover have "length ?h \<le> 16" using lh by simp
      ultimately show "take 16 (?h @ ?t) = ?h" "drop 16 (?h @ ?t) = ?t" by fastforce+
    qed
    have "length ?h \<noteq> 0" unfolding lh using False by simp
    then have ne: "?h @ ?t \<noteq> []" by (metis append_is_Nil_conv list.size(3))
    have "ctr_chunks enc key nonce i (?h @ ?t) = map2 (XOR) ?h ?k @ ctr_chunks enc key nonce (Suc i) ?t"
      using ne th by (subst ctr_chunks.simps) (simp only: if_False)
    also have "map2 (XOR) ?h ?k = take 16 data" using k by (intro map2_xor_twice) simp
    finally show ?thesis using c lh IH by simp
  qed (simp add: ctr_chunks.simps)
qed

lemmas ctr_length = ctr_chunks_involution [THEN conjunct1]
lemmas ctr_twice = ctr_chunks_involution [THEN conjunct2]

lemma ctr_apply_length: "aes_block enc \<Longrightarrow> length nonce = NONCE_LEN \<Longrightarrow> length (ctr_apply enc key nonce d) = length d"
  by (simp add: ctr_apply_def ctr_length)

lemma ctr_apply_twice: "aes_block enc \<Longrightarrow> length nonce = NONCE_LEN \<Longrightarrow> ctr_apply enc key nonce (ctr_apply enc key nonce d) = d"
  by (simp add: ctr_apply_def ctr_twice)

lemma ct_eq_iff: "ct_eq a b \<longleftrightarrow> a = b"
  using map2_xor_zero [of a b] by (auto simp: ct_eq_def foldl_or_zero)

lemma ccm_open_iff:
  assumes "aes_block enc" and "length nonce = NONCE_LEN"
  shows "ccm_open enc key nonce aad ct tag = (True, pt) \<longleftrightarrow> ccm_seal enc key nonce aad pt = (ct, tag)"
  using ctr_apply_twice [OF assms] by (auto simp: ccm_open_def ccm_seal_def Let_def ct_eq_iff)

section \<open>The frame header\<close>

definition FORMAT :: u8 where
  "FORMAT = 1"

definition HDR_LEN :: nat where
  "HDR_LEN = 14"

definition HDR_LEN_BULK :: nat where
  "HDR_LEN_BULK = 17"

definition MAX_PAYLOAD :: nat where
  "MAX_PAYLOAD = 74"

definition MAX_BULK_PAYLOAD :: nat where
  "MAX_BULK_PAYLOAD = 64"

definition MAX_FRAME :: nat where
  "MAX_FRAME = 96"

datatype frame_type =
  FtData | FtAck | FtBulkReq | FtBulkData | FtJoinReq | FtJoinResp | FtJoinConfirm | FtBeacon | FtJoinNonce | FtJoinReveal

definition frame_types :: "frame_type list" where
  "frame_types = [FtData, FtAck, FtBulkReq, FtBulkData, FtJoinReq, FtJoinResp, FtJoinConfirm, FtBeacon, FtJoinNonce, FtJoinReveal]"

fun frame_type_u8 :: "frame_type \<Rightarrow> u8" where
  "frame_type_u8 FtData = 0"
| "frame_type_u8 FtAck = 1"
| "frame_type_u8 FtBulkReq = 2"
| "frame_type_u8 FtBulkData = 3"
| "frame_type_u8 FtJoinReq = 4"
| "frame_type_u8 FtJoinResp = 5"
| "frame_type_u8 FtJoinConfirm = 6"
| "frame_type_u8 FtBeacon = 7"
| "frame_type_u8 FtJoinNonce = 8"
| "frame_type_u8 FtJoinReveal = 9"

definition frame_type_from_u8 :: "u8 \<Rightarrow> frame_type option" where
  "frame_type_from_u8 v = (if unat v < 10 then Some (frame_types ! unat v) else None)"

definition has_bulk_index :: "frame_type \<Rightarrow> bool" where
  "has_bulk_index t \<longleftrightarrow> t = FtBulkReq \<or> t = FtBulkData"

definition CONFIRMED :: u8 where
  "CONFIRMED = 1"

definition KEYED :: u8 where
  "KEYED = 2"

record header =
  h_type :: frame_type
  h_flags :: u8
  h_src :: u32
  h_dest :: u32
  h_counter :: u32
  h_bulk :: "u32 option"

datatype frame_error = TooShort | BadFormat | BadType | PayloadTooLong | AuthFail

definition wire_len :: "header \<Rightarrow> nat" where
  "wire_len h = (if h_bulk h \<noteq> None then HDR_LEN_BULK else HDR_LEN)"

definition max_payload :: "header \<Rightarrow> nat" where
  "max_payload h = (if h_bulk h \<noteq> None then MAX_BULK_PAYLOAD else MAX_PAYLOAD)"

definition header_encode :: "header \<Rightarrow> bytes" where
  "header_encode h =
     [push_bit 5 FORMAT OR (frame_type_u8 (h_type h) AND 0x1F), h_flags h] @
     u32_le (h_src h) @ u32_le (h_dest h) @ u32_le (h_counter h) @
     (case h_bulk h of None \<Rightarrow> [] | Some idx \<Rightarrow> take 3 (u32_le idx))"

definition header_parse :: "bytes \<Rightarrow> frame_error + header \<times> nat" where
  "header_parse buf =
     (if length buf < HDR_LEN then Inl TooShort
      else if drop_bit 5 (buf ! 0) \<noteq> FORMAT then Inl BadFormat
      else case frame_type_from_u8 (buf ! 0 AND 0x1F) of
        None \<Rightarrow> Inl BadType
      | Some ft \<Rightarrow>
          let h = \<lparr>h_type = ft, h_flags = buf ! 1,
                   h_src = le_u32 (buf ! 2) (buf ! 3) (buf ! 4) (buf ! 5),
                   h_dest = le_u32 (buf ! 6) (buf ! 7) (buf ! 8) (buf ! 9),
                   h_counter = le_u32 (buf ! 10) (buf ! 11) (buf ! 12) (buf ! 13), h_bulk = None\<rparr>
          in if has_bulk_index ft then
               if length buf < HDR_LEN_BULK then Inl TooShort
               else Inr (h\<lparr>h_bulk := Some (le_u32 (buf ! 14) (buf ! 15) (buf ! 16) 0)\<rparr>, HDR_LEN_BULK)
             else Inr (h, HDR_LEN))"

section \<open>Sealing and opening a frame\<close>

text \<open>\<open>seal_frame\<close> into an \<open>out\<close> buffer of length \<open>n\<close>: the frame's bytes.\<close>

definition header_nonce :: "header \<Rightarrow> bytes" where
  "header_nonce h = nonce_for (h_src h) (h_counter h) (case h_bulk h of None \<Rightarrow> 0 | Some i \<Rightarrow> i)"

definition seal_frame ::
  "(bytes \<Rightarrow> bytes \<Rightarrow> bytes) \<Rightarrow> bytes \<Rightarrow> header \<Rightarrow> bytes \<Rightarrow> nat \<Rightarrow> frame_error + bytes"
where
  "seal_frame enc key h payload n =
     (if length payload > max_payload h then Inl PayloadTooLong
      else if n < wire_len h + length payload + TAG_LEN then Inl TooShort
      else case ccm_seal enc key (header_nonce h) (header_encode h) payload of
        (ct, tag) \<Rightarrow> Inr (header_encode h @ ct @ tag))"

definition open_frame ::
  "(bytes \<Rightarrow> bytes \<Rightarrow> bytes) \<Rightarrow> bytes \<Rightarrow> bytes \<Rightarrow> frame_error + header \<times> bytes"
where
  "open_frame enc key buf =
     (case header_parse buf of Inl e \<Rightarrow> Inl e
      | Inr (h, hlen) \<Rightarrow>
          if length buf < hlen + TAG_LEN then Inl TooShort
          else let plen = length buf - hlen - TAG_LEN;
                   tag = bslice (hlen + plen) TAG_LEN buf
            in case ccm_open enc key (header_nonce h) (take hlen buf) (bslice hlen plen buf) tag of
                 (ok, pt) \<Rightarrow> if ok then Inr (h, pt) else Inl AuthFail)"


lemma frame_type_roundtrip [simp]: "frame_type_from_u8 (frame_type_u8 t) = Some t"
  by (cases t) (simp_all add: frame_type_from_u8_def frame_types_def)

lemma first_byte:
  "drop_bit 5 (push_bit 5 FORMAT OR (frame_type_u8 t AND 0x1F)) = FORMAT"
  "(push_bit 5 FORMAT OR (frame_type_u8 t AND 0x1F)) AND 0x1F = frame_type_u8 t"
  "drop_bit 5 (push_bit 5 FORMAT) = FORMAT"
  by (cases t; simp add: FORMAT_def)+

lemma length_header_encode: "length (header_encode h) = wire_len h"
  by (simp add: header_encode_def wire_len_def HDR_LEN_def HDR_LEN_BULK_def split: option.splits)

lemma wire_len_cases: "wire_len h = 14 \<or> wire_len h = 17"
  by (simp add: wire_len_def HDR_LEN_def HDR_LEN_BULK_def)

text \<open>A header as the code builds them: a 24-bit bulk index exactly on the bulk frame types.\<close>

definition header_wf :: "header \<Rightarrow> bool" where
  "header_wf h \<longleftrightarrow> (case h_bulk h of None \<Rightarrow> \<not> has_bulk_index (h_type h)
      | Some i \<Rightarrow> has_bulk_index (h_type h) \<and> i < 0x1000000)"

lemma header_parse_encode:
  assumes "header_wf h"
  shows "header_parse (header_encode h @ rest) = Inr (h, wire_len h)"
proof (cases "h_bulk h")
  case None
  then have "\<not> has_bulk_index (h_type h)" using assms by (simp add: header_wf_def)
  then show ?thesis using None
    by (cases h) (simp add: header_parse_def header_encode_def u32_le_def first_byte HDR_LEN_def wire_len_def Let_def)
next
  case (Some i)
  then have "has_bulk_index (h_type h)" "i < 0x1000000" using assms by (simp_all add: header_wf_def)
  then show ?thesis using Some
    by (cases h) (simp add: header_parse_def header_encode_def u32_le_def first_byte HDR_LEN_def HDR_LEN_BULK_def
        wire_len_def Let_def le_u32_low24 take_bit_small)
qed

lemma take_bit_24_less: "take_bit 24 (w :: u32) < 0x1000000"
  by (simp add: take_bit_eq_mod word_less_nat_alt unat_mod)

lemma byte_split: "drop_bit 5 (b :: u8) = FORMAT \<Longrightarrow> push_bit 5 FORMAT OR (b AND 0x1F) = b"
proof -
  assume a: "drop_bit 5 b = FORMAT"
  have "push_bit 5 (drop_bit 5 b) OR (b AND mask 5) = b"
    by (rule bit_word_eqI) (auto simp: bit_simps)
  with a show ?thesis by (simp add: mask_eq_exp_minus_1)
qed

lemma frame_type_from_u8_Some: "frame_type_from_u8 v = Some t \<Longrightarrow> frame_type_u8 t = v"
proof -
  assume a: "frame_type_from_u8 v = Some t"
  then have "unat v < 10" by (simp add: frame_type_from_u8_def split: if_splits)
  then have "unat v \<in> {0, 1, 2, 3, 4, 5, 6, 7, 8, 9}" by auto
  then have "v \<in> {0, 1, 2, 3, 4, 5, 6, 7, 8, 9}" by (auto simp: word_unat_eq_iff)
  with a show ?thesis by (auto simp: frame_type_from_u8_def frame_types_def)
qed

lemma le_u32_24: "le_u32 a b c 0 < 0x1000000"
proof -
  have "le_u32 a b c 0 = take_bit 24 (le_u32 a b c 0)"
    by (rule bit_word_eqI) (auto simp: le_u32_def bit_simps)
  then show ?thesis by (metis take_bit_24_less)
qed

lemma header_parse_inv:
  assumes "header_parse buf = Inr (h, n)"
  shows "header_wf h" and "n = wire_len h" and "take n buf = header_encode h" and "wire_len h \<le> length buf"
proof -
  from assms have len: "14 \<le> length buf" and fmt: "drop_bit 5 (buf ! 0) = FORMAT"
    by (auto simp: header_parse_def HDR_LEN_def split: if_splits)
  from assms obtain t where t: "frame_type_from_u8 (buf ! 0 AND 0x1F) = Some t"
    by (auto simp: header_parse_def split: if_splits option.splits)
  have b0: "buf ! 0 = push_bit 5 FORMAT OR (frame_type_u8 t AND 0x1F)"
    using byte_split [OF fmt] frame_type_from_u8_Some [OF t] by simp
  have t14: "take 14 buf = [buf ! 0, buf ! 1, buf ! 2, buf ! 3, buf ! 4, buf ! 5, buf ! 6, buf ! 7, buf ! 8, buf ! 9,
      buf ! 10, buf ! 11, buf ! 12, buf ! 13]"
    using len by (intro nth_equalityI) (auto simp: nth_Cons' less_Suc_eq numeral_eq_Suc)
  have "header_wf h \<and> n = wire_len h \<and> take n buf = header_encode h \<and> wire_len h \<le> length buf"
  proof (cases "has_bulk_index t")
    case False
    with assms t len fmt have h: "n = 14" "h = \<lparr>h_type = t, h_flags = buf ! 1,
        h_src = le_u32 (buf ! 2) (buf ! 3) (buf ! 4) (buf ! 5), h_dest = le_u32 (buf ! 6) (buf ! 7) (buf ! 8) (buf ! 9),
        h_counter = le_u32 (buf ! 10) (buf ! 11) (buf ! 12) (buf ! 13), h_bulk = None\<rparr>"
      by (auto simp: header_parse_def HDR_LEN_def Let_def)
    with False len b0 t14 show ?thesis
      by (simp add: header_wf_def wire_len_def HDR_LEN_def header_encode_def)
  next
    case True
    with assms t len fmt have l17: "17 \<le> length buf" and h: "n = 17" "h = \<lparr>h_type = t, h_flags = buf ! 1,
        h_src = le_u32 (buf ! 2) (buf ! 3) (buf ! 4) (buf ! 5), h_dest = le_u32 (buf ! 6) (buf ! 7) (buf ! 8) (buf ! 9),
        h_counter = le_u32 (buf ! 10) (buf ! 11) (buf ! 12) (buf ! 13),
        h_bulk = Some (le_u32 (buf ! 14) (buf ! 15) (buf ! 16) 0)\<rparr>"
      by (auto simp: header_parse_def HDR_LEN_def HDR_LEN_BULK_def Let_def split: if_splits)
    have "take 17 buf = take 14 buf @ [buf ! 14, buf ! 15, buf ! 16]"
      using l17 by (simp add: take_Suc_conv_app_nth numeral_eq_Suc)
    with True l17 h b0 t14 le_u32_24 show ?thesis
      by (simp add: header_wf_def wire_len_def HDR_LEN_BULK_def header_encode_def)
  qed
  then show "header_wf h" "n = wire_len h" "take n buf = header_encode h" "wire_len h \<le> length buf" by blast+
qed


section \<open>Frames round-trip and nothing else is accepted\<close>

lemma length_header_nonce: "length (header_nonce h) = NONCE_LEN"
  by (simp add: header_nonce_def length_nonce_for)

lemma length_mac_stream: "aes_block enc \<Longrightarrow> length x = 16 \<Longrightarrow> length (mac_stream enc key x d) = 16"
proof (induction enc key x d rule: mac_stream.induct)
  case (1 enc key x d)
  have "length (xor_into x (take 16 d)) = 16" using 1(3) by (simp add: xor_into_def)
  then have "length (enc key (xor_into x (take 16 d))) = 16" using 1(2) by (simp add: aes_block_def)
  with 1 show ?case by (cases "d = []") (simp_all add: mac_stream.simps [of enc key x])
qed

lemma length_ccm_tag:
  assumes "aes_block enc" and "length nonce = NONCE_LEN"
  shows "length (ccm_tag enc key nonce aad d) = TAG_LEN"
proof -
  let ?b = "\<lambda>f. block_xor (replicate 16 0) ([f] @ nonce @ u16_be (of_nat (length d)))"
  have "length (?b f) = 16" for f using assms(2) by (simp add: block_xor_def u16_be_def NONCE_LEN_def)
  then have "length (enc key (?b f)) = 16" for f using assms(1) by (simp add: aes_block_def)
  then have "length (cbc_mac enc key nonce aad d) = 16"
    using assms(1) by (simp add: cbc_mac_def Let_def length_mac_stream)
  then show ?thesis using length_ctr_keystream [OF assms] by (simp add: ccm_tag_def TAG_LEN_def)
qed

lemma open_frame_layout:
  assumes "header_wf h" and "length tag = TAG_LEN"
  shows "open_frame enc key (header_encode h @ ct @ tag) =
    (case ccm_open enc key (header_nonce h) (header_encode h) ct tag of
       (ok, pt) \<Rightarrow> if ok then Inr (h, pt) else Inl AuthFail)"
  using assms header_parse_encode [OF assms(1), of "ct @ tag"] length_header_encode [of h]
  by (simp add: open_frame_def bslice_def Let_def)

lemma open_frame_inv:
  assumes "open_frame enc key buf = Inr (h, pt)"
  obtains ct tag where "buf = header_encode h @ ct @ tag" and "length tag = TAG_LEN" and "header_wf h"
    and "ccm_open enc key (header_nonce h) (header_encode h) ct tag = (True, pt)"
proof -
  from assms obtain n where p: "header_parse buf = Inr (h, n)"
    by (auto simp: open_frame_def Let_def split: sum.splits prod.splits if_splits)
  note P = header_parse_inv [OF p]
  let ?pl = "length buf - n - TAG_LEN"
  from assms p have len: "n + TAG_LEN \<le> length buf"
    and o: "ccm_open enc key (header_nonce h) (take n buf) (bslice n ?pl buf) (bslice (n + ?pl) TAG_LEN buf) = (True, pt)"
    by (auto simp: open_frame_def Let_def split: prod.splits if_splits)
  have "buf = take n buf @ drop n buf" by simp
  also have "drop n buf = bslice n ?pl buf @ bslice (n + ?pl) TAG_LEN buf"
    using len bslice_split [of n ?pl TAG_LEN buf] by (simp add: bslice_def)
  finally have "buf = header_encode h @ bslice n ?pl buf @ bslice (n + ?pl) TAG_LEN buf" using P(3) by simp
  moreover have "length (bslice (n + ?pl) TAG_LEN buf) = TAG_LEN" using len by simp
  ultimately show ?thesis using that P(1,3) o by simp
qed

lemma sealed_opens:
  assumes "aes_block enc" and "header_wf h" and "length payload \<le> max_payload h"
  shows "\<exists>frame. seal_frame enc key h payload MAX_FRAME = Inr frame \<and>
     length frame = wire_len h + length payload + TAG_LEN \<and> length frame \<le> MAX_FRAME \<and>
     open_frame enc key frame = Inr (h, payload)"
proof -
  let ?n = "header_nonce h" and ?a = "header_encode h"
  obtain ct tag where s: "ccm_seal enc key ?n ?a payload = (ct, tag)" by fastforce
  have o: "ccm_open enc key ?n ?a ct tag = (True, payload)"
    using s ccm_open_iff [OF assms(1) length_header_nonce] by simp
  have l: "length ct = length payload" "length tag = TAG_LEN"
    using s ctr_apply_length [OF assms(1) length_header_nonce, of key h payload] length_ccm_tag [OF assms(1) length_header_nonce]
    by (auto simp: ccm_seal_def)
  have fit: "wire_len h + length payload + TAG_LEN \<le> MAX_FRAME"
    using assms(3) by (simp add: wire_len_def max_payload_def HDR_LEN_def HDR_LEN_BULK_def MAX_PAYLOAD_def
        MAX_BULK_PAYLOAD_def TAG_LEN_def MAX_FRAME_def split: if_splits)
  have "seal_frame enc key h payload MAX_FRAME = Inr (?a @ ct @ tag)"
    using assms(3) fit s by (simp add: seal_frame_def)
  moreover have "open_frame enc key (?a @ ct @ tag) = Inr (h, payload)"
    using open_frame_layout [OF assms(2) l(2)] o by simp
  ultimately show ?thesis using l fit by (simp add: length_header_encode)
qed

text \<open>C29. What is sealed opens: a frame built for a well-formed header and a payload within the limit
  fits the 96-byte FIFO and, opened under the same key, gives back that header and payload.\<close>

theorem seal_open_frame:
  assumes "aes_block enc" and "header_wf h" and "length payload \<le> max_payload h"
  shows "\<exists>frame. seal_frame enc key h payload MAX_FRAME = Inr frame \<and>
     length frame = wire_len h + length payload + TAG_LEN \<and> length frame \<le> MAX_FRAME \<and>
     open_frame enc key frame = Inr (h, payload)"
  using sealed_opens [OF assms] .

text \<open>A concrete stand-in for the engine, for the instances below.\<close>

definition enc_demo :: "bytes \<Rightarrow> bytes \<Rightarrow> bytes" where
  "enc_demo key b = map (\<lambda>x. x XOR 0x5A) b"

lemma aes_block_demo: "aes_block enc_demo"
  by (simp add: aes_block_def enc_demo_def)

definition hdr_demo :: header where
  "hdr_demo = \<lparr>h_type = FtData, h_flags = CONFIRMED, h_src = 0x11, h_dest = 0x22, h_counter = 7, h_bulk = None\<rparr>"

theorem seal_open_frame_witness:
  "\<exists>frame. seal_frame enc_demo (replicate 16 1) hdr_demo [1, 2, 3] MAX_FRAME = Inr frame \<and>
     length frame = wire_len hdr_demo + length [1, 2, 3 :: u8] + TAG_LEN \<and> length frame \<le> MAX_FRAME \<and>
     open_frame enc_demo (replicate 16 1) frame = Inr (hdr_demo, [1, 2, 3])"
  by (rule seal_open_frame [OF aes_block_demo])
    (simp_all add: hdr_demo_def header_wf_def has_bulk_index_def max_payload_def MAX_PAYLOAD_def)

text \<open>C30. Only sealed frames are accepted: whatever bytes arrive, if opening them under a key reports a
  header and a payload, then the header is well formed and the bytes are its encoding followed by the ciphertext and
  tag that CCM sealing of that payload gives under that key, the header's nonce and the header as associated data;
  any other header, ciphertext or tag bits are refused. Opening does not itself hold the payload to
  the sender's limit (a bulk frame of 65 to 71 bytes opens, which no sender builds); where the payload is within
  it, the bytes are what \<open>seal_frame\<close> returns.\<close>

theorem open_frame_authentic:
  assumes "aes_block enc" and "open_frame enc key buf = Inr (h, payload)"
  shows "header_wf h \<and>
     buf = header_encode h @ (case ccm_seal enc key (header_nonce h) (header_encode h) payload of (ct, tag) \<Rightarrow> ct @ tag) \<and>
     (length payload \<le> max_payload h \<longrightarrow> seal_frame enc key h payload MAX_FRAME = Inr buf)"
proof -
  from assms(2) obtain ct tag where b: "buf = header_encode h @ ct @ tag" "length tag = TAG_LEN" "header_wf h"
    and o: "ccm_open enc key (header_nonce h) (header_encode h) ct tag = (True, payload)" by (rule open_frame_inv)
  have s: "ccm_seal enc key (header_nonce h) (header_encode h) payload = (ct, tag)"
    using o ccm_open_iff [OF assms(1) length_header_nonce] by simp
  have "wire_len h + length payload + TAG_LEN \<le> MAX_FRAME" if "length payload \<le> max_payload h"
    using that by (simp add: wire_len_def max_payload_def HDR_LEN_def HDR_LEN_BULK_def MAX_PAYLOAD_def
        MAX_BULK_PAYLOAD_def TAG_LEN_def MAX_FRAME_def split: if_splits)
  with b s show ?thesis by (auto simp: seal_frame_def)
qed

theorem open_frame_authentic_witness:
  "\<exists>buf. open_frame enc_demo (replicate 16 1) buf = Inr (hdr_demo, [1, 2, 3]) \<and>
     seal_frame enc_demo (replicate 16 1) hdr_demo [1, 2, 3] MAX_FRAME = Inr buf"
proof -
  have w: "header_wf hdr_demo" "length [1, 2, 3 :: u8] \<le> max_payload hdr_demo"
    by (simp_all add: hdr_demo_def header_wf_def has_bulk_index_def max_payload_def MAX_PAYLOAD_def)
  obtain ct tag where s: "ccm_seal enc_demo (replicate 16 1) (header_nonce hdr_demo) (header_encode hdr_demo) [1, 2, 3] = (ct, tag)"
    by fastforce
  have l: "length tag = TAG_LEN" using s length_ccm_tag [OF aes_block_demo length_header_nonce] by (auto simp: ccm_seal_def)
  have "ccm_open enc_demo (replicate 16 1) (header_nonce hdr_demo) (header_encode hdr_demo) ct tag = (True, [1, 2, 3])"
    using s ccm_open_iff [OF aes_block_demo length_header_nonce] by blast
  then have "open_frame enc_demo (replicate 16 1) (header_encode hdr_demo @ ct @ tag) = Inr (hdr_demo, [1, 2, 3])"
    using open_frame_layout [OF w(1) l] by simp
  then show ?thesis using open_frame_authentic [OF aes_block_demo] w(2) by blast
qed

end
