(* ===== verification/Fw_Net.thy ===== *)
theory Fw_Net
  imports Fw_Storage Net_TxCounter Net_Pairing Net_Epoch Radio_Air Radio_Frame
begin

text \<open>
  The network layer of the firmware (\<open>firmware/src/radio/net/mod.rs\<close>, and the keyed-join responder
  of \<open>net/pairing.rs\<close>): \<open>Net\<close> with its peer table, replay lanes, TX counter and duty budget over the
  shared store. One definition per method. What the radio does is an input: the bytes it receives,
  the outcome of a transmission, the frames heard in an ACK window, and the milliseconds between
  duty-governor calls; the frames handed to the radio's \<open>tx\<close> are an output, whatever its outcome. The AES block function is a parameter
  (\<open>enc\<close>), as in \<open>Radio_Frame\<close>.
\<close>

section \<open>State\<close>

definition NET_LOG_INTERVAL_S :: u32 where "NET_LOG_INTERVAL_S = 10"

record log_limit =
  ll_last_s :: u32
  ll_count :: u16

definition log_limit_new :: log_limit where
  "log_limit_new = \<lparr>ll_last_s = - 1, ll_count = 0\<rparr>"

text \<open>\<open>LogLimit::hit\<close> at uptime \<open>now\<close> (s).\<close>

definition log_hit :: "u32 \<Rightarrow> log_limit \<Rightarrow> u16 option \<times> log_limit" where
  "log_hit now l =
     (let count = sat_add (ll_count l) 1 in
      if ll_last_s l \<noteq> - 1 \<and> now - ll_last_s l < NET_LOG_INTERVAL_S then (None, l\<lparr>ll_count := count\<rparr>)
      else (Some count, l\<lparr>ll_last_s := now, ll_count := 0\<rparr>))"

definition KEY_WATERMARK :: u8 where "KEY_WATERMARK = 0x00"
definition KEY_LASTSEEN :: u8 where "KEY_LASTSEEN = 0x01"
definition KEY_FHSS_EPOCH :: u8 where "KEY_FHSS_EPOCH = 0x02"
definition MAX_PEERS :: nat where "MAX_PEERS = 16"
definition KEY_LASTSEEN_BASE :: u8 where "KEY_LASTSEEN_BASE = 0x10"
definition MAX_BACKOFF_MS :: u32 where "MAX_BACKOFF_MS = 100"

record peer =
  pe_addr :: u32
  pe_key :: bytes
  pe_lane :: replay_lane
  pe_lane_local :: u8
  pe_pending :: bool

datatype radio_error = RBusy | RTooLong | RNonceLocked | RNotRegistered | ROther nat

datatype send_result = Delivered | NotDelivered | SBusy | DutyLimited | WrongMode | NotSynced | SError radio_error

datatype access = Duty | Afa | Fhss

datatype band = Eu868 | Us915

record received =
  rx_src :: u32
  rx_counter :: u32
  rx_rssi :: int
  rx_lqi :: u8
  rx_confirmed :: bool
  rx_data :: bytes

record net_config =
  nc_addr :: u32
  nc_key :: bytes
  nc_band :: band
  nc_keys_stored :: bool

text \<open>The state of the two other access modes (\<open>net/afa.rs\<close>, \<open>net/fhss.rs\<close>). Instants
  and crystal times (\<open>Lse\<close>) are in milliseconds.\<close>

definition AFA_N :: nat where "AFA_N = 8"

datatype afa_role = AfaNode | AfaGateway

record afa =
  af_role :: afa_role
  af_primary :: nat
  af_cur :: nat
  af_last_tx :: "nat option list"

definition afa_disabled :: afa where
  "afa_disabled = \<lparr>af_role = AfaNode, af_primary = 0, af_cur = 0, af_last_tx = replicate AFA_N None\<rparr>"

definition FHSS_RENDEZVOUS_CH :: u8 where "FHSS_RENDEZVOUS_CH = 40"

datatype fhss_role = FhssMaster | FhssNode

datatype fhss_state = Scanning | Synced

record fhss =
  fh_role :: fhss_role
  fh_enabled :: bool
  fh_seed :: u32
  fh_key :: bytes
  fh_state :: fhss_state
  fh_anchor :: "(u32 \<times> u64) option"
  fh_last_beacon :: u64
  fh_cur_channel :: u8
  fh_gate :: epoch_gate
  fh_acquire_t0 :: "u64 option"
  fh_airtime_ms :: "u16 list"

definition fhss_disabled :: fhss where
  "fhss_disabled = \<lparr>fh_role = FhssNode, fh_enabled = False, fh_seed = 0, fh_key = replicate 16 0, fh_state = Scanning,
     fh_anchor = None, fh_last_beacon = 0, fh_cur_channel = FHSS_RENDEZVOUS_CH, fh_gate = gate_new,
     fh_acquire_t0 = None, fh_airtime_ms = replicate FHSS_N 0\<rparr>"

record net =
  nt_addr :: u32
  nt_default_key :: bytes
  nt_default_lane_enabled :: bool
  nt_peers :: "peer option list"
  nt_default_lane :: replay_lane
  nt_lane_persist :: u8
  nt_txc :: tx_counter
  nt_kv :: nv
  nt_duty :: duty_governor
  nt_rng :: u32
  nt_access :: access
  nt_afa :: afa
  nt_fhss :: fhss
  nt_last_ack :: "ack_meta_t option"
  nt_replay_log :: log_limit
  nt_keyed_join :: "u32 option"
  nt_keyed_responder :: bool
  nt_keyed_join_enabled :: bool
  nt_keyed_log :: log_limit
  nt_pair_log :: log_limit

section \<open>Records in the store\<close>

definition net_get :: "u8 \<Rightarrow> nat \<Rightarrow> nv \<Rightarrow> fw_error + (nat \<times> bytes) option" where
  "net_get local len kv = scoped_get_bytes NS_NET local len kv"

definition net_set :: "u8 \<Rightarrow> bytes \<Rightarrow> nv \<Rightarrow> bool \<times> nv" where
  "net_set local v kv = (case scoped_set_bytes NS_NET local v kv of (r, kv') \<Rightarrow> (r = Inr (), kv'))"

definition read_u32 :: "u8 \<Rightarrow> nv \<Rightarrow> u32 option" where
  "read_u32 local kv =
     (case net_get local 4 kv of
        Inr (Some (len, b)) \<Rightarrow> if len = 4 then Some (le_u32 (b ! 0) (b ! 1) (b ! 2) (b ! 3)) else None
      | _ \<Rightarrow> None)"

definition has_record :: "u8 \<Rightarrow> nv \<Rightarrow> bool" where
  "has_record local kv = (case net_get local 1 kv of Inr (Some _) \<Rightarrow> True | _ \<Rightarrow> False)"

definition lane_record :: "u32 \<Rightarrow> u32 \<Rightarrow> u32 \<Rightarrow> bytes" where
  "lane_record addr last_seen kcv = u32_le addr @ u32_le last_seen @ u32_le kcv"

definition read_lane_record :: "u8 \<Rightarrow> nv \<Rightarrow> lane_rec option" where
  "read_lane_record local kv =
     (case net_get local 12 kv of
        Inr (Some (len, b)) \<Rightarrow>
          if len \<noteq> 12 then None
          else let word = (\<lambda>i. le_u32 (b ! i) (b ! (i + 1)) (b ! (i + 2)) (b ! (i + 3))) in
            Some \<lparr>lr_addr = word 0, lr_seen = word 4, lr_kcv = word 8\<rparr>
      | _ \<Rightarrow> None)"

section \<open>Boot\<close>

text \<open>Write the watermark and read it back.\<close>

definition persist_watermark :: "u32 \<Rightarrow> nv \<Rightarrow> bool \<times> nv" where
  "persist_watermark w kv =
     (case net_set KEY_WATERMARK (u32_le w) kv of (ok, kv') \<Rightarrow> (ok \<and> read_u32 KEY_WATERMARK kv' = Some w, kv'))"

definition net_prior_use :: "net_config \<Rightarrow> nv \<Rightarrow> bool" where
  "net_prior_use cfg kv \<longleftrightarrow>
     nc_keys_stored cfg \<or> has_record KEY_LASTSEEN kv \<or> has_record KEY_FHSS_EPOCH kv \<or>
     list_ex (\<lambda>l. has_record (KEY_LASTSEEN_BASE + of_nat l) kv) [0..<MAX_PEERS]"

definition band_duty :: "band \<Rightarrow> duty_governor" where
  "band_duty b = (case b of Eu868 \<Rightarrow> duty_eu | Us915 \<Rightarrow> duty_us915)"

text \<open>The TX counter at boot, and the store with its next watermark.\<close>

definition boot_counter :: "bool \<Rightarrow> nv \<Rightarrow> tx_counter \<times> nv" where
  "boot_counter prior_use kv =
     (case tx_resume (read_u32 KEY_WATERMARK kv) prior_use of
        (txc, None) \<Rightarrow> (txc, kv)
      | (txc, Some w) \<Rightarrow>
          (case persist_watermark w kv of (ok, kv') \<Rightarrow> (if ok then txc else tx_lock txc, kv')))"

definition net_new :: "net_config \<Rightarrow> nv \<Rightarrow> net" where
  "net_new cfg kv =
     (let last_seen = (case read_u32 KEY_LASTSEEN kv of None \<Rightarrow> 0 | Some s \<Rightarrow> s);
          (txc, kv') = boot_counter (net_prior_use cfg kv) kv in
      \<lparr>nt_addr = nc_addr cfg, nt_default_key = nc_key cfg, nt_default_lane_enabled = True,
       nt_peers = replicate MAX_PEERS None, nt_default_lane = lane_new last_seen,
       nt_lane_persist = REPLAY_P, nt_txc = txc, nt_kv = kv', nt_duty = band_duty (nc_band cfg),
       nt_rng = nc_addr cfg OR 1, nt_access = Duty, nt_afa = afa_disabled, nt_fhss = fhss_disabled, nt_last_ack = None, nt_replay_log = log_limit_new,
       nt_keyed_join = None, nt_keyed_responder = False, nt_keyed_join_enabled = False,
       nt_keyed_log = log_limit_new, nt_pair_log = log_limit_new\<rparr>)"

text \<open>\<open>set_band\<close>, once the radio is retuned (\<open>tuned\<close>: it reported no error).\<close>

definition set_band :: "bool \<Rightarrow> band \<Rightarrow> net \<Rightarrow> net" where
  "set_band tuned b n = (if tuned then n\<lparr>nt_duty := band_duty b\<rparr> else n)"

definition set_default_lane :: "bool \<Rightarrow> net \<Rightarrow> net" where
  "set_default_lane enabled n = n\<lparr>nt_default_lane_enabled := enabled\<rparr>"

definition set_lane_persist_period :: "u8 \<Rightarrow> net \<Rightarrow> net" where
  "set_lane_persist_period period n = n\<lparr>nt_lane_persist := persist_period period\<rparr>"

definition set_keyed_join :: "bool \<Rightarrow> net \<Rightarrow> net" where
  "set_keyed_join enabled n = n\<lparr>nt_keyed_responder := True, nt_keyed_join_enabled := enabled\<rparr>"

definition take_keyed_join :: "net \<Rightarrow> u32 option \<times> net" where
  "take_keyed_join n = (nt_keyed_join n, n\<lparr>nt_keyed_join := None\<rparr>)"

section \<open>The TX counter\<close>

definition raise_tx_floor :: "u32 \<Rightarrow> net \<Rightarrow> bool \<times> net" where
  "raise_tx_floor floor n =
     (let t = nt_txc n;
          writes = (\<not> txc_locked t \<and> \<not> floor \<le> txc_counter t \<and> \<not> floor < txc_reserve_limit t);
          (ok, kv') = (if writes then persist_watermark (sat_add floor RESERVE) (nt_kv n) else (False, nt_kv n));
          (r, t') = tx_raise_to t floor (\<lambda>_. ok)
      in (r, n\<lparr>nt_txc := t', nt_kv := kv'\<rparr>))"

definition alloc_counter :: "net \<Rightarrow> u32 option \<times> net" where
  "alloc_counter n =
     (case tx_alloc (nt_txc n) of
        (None, t) \<Rightarrow> (None, n\<lparr>nt_txc := t\<rparr>)
      | (Some (c, None), t) \<Rightarrow> (Some c, n\<lparr>nt_txc := t\<rparr>)
      | (Some (c, Some w), t) \<Rightarrow>
          (case net_set KEY_WATERMARK (u32_le w) (nt_kv n) of (ok, kv') \<Rightarrow>
             (Some c, n\<lparr>nt_txc := (if ok then tx_reserve_persisted t w else tx_lock t), nt_kv := kv'\<rparr>)))"

section \<open>Peers\<close>

primrec slot_of :: "u32 \<Rightarrow> peer option list \<Rightarrow> nat option" where
  "slot_of a [] = None"
| "slot_of a (p # ps) =
     (if (case p of Some pe \<Rightarrow> pe_addr pe = a | None \<Rightarrow> False) then Some 0 else map_option Suc (slot_of a ps))"

definition peer_slot :: "u32 \<Rightarrow> net \<Rightarrow> nat option" where
  "peer_slot a n = slot_of a (nt_peers n)"

text \<open>The peer registered at an address (\<open>self.peers[i].as_ref().unwrap()\<close>).\<close>

definition peer_at :: "u32 \<Rightarrow> net \<Rightarrow> peer option" where
  "peer_at a n = (case peer_slot a n of None \<Rightarrow> None | Some i \<Rightarrow> nt_peers n ! i)"

definition set_peer :: "nat \<Rightarrow> peer option \<Rightarrow> net \<Rightarrow> net" where
  "set_peer i p n = n\<lparr>nt_peers := (nt_peers n)[i := p]\<rparr>"

definition may_send_to :: "u32 \<Rightarrow> net \<Rightarrow> bool" where
  "may_send_to dest n \<longleftrightarrow> nt_default_lane_enabled n \<or> peer_slot dest n \<noteq> None"

definition key_for :: "u32 \<Rightarrow> net \<Rightarrow> bytes" where
  "key_for a n = (case peer_at a n of Some p \<Rightarrow> pe_key p | None \<Rightarrow> nt_default_key n)"

definition net_lane :: "u32 \<Rightarrow> net \<Rightarrow> replay_lane" where
  "net_lane src n = (case peer_at src n of Some p \<Rightarrow> pe_lane p | None \<Rightarrow> nt_default_lane n)"

definition net_records :: "nv \<Rightarrow> lane_rec option list" where
  "net_records kv = map (\<lambda>l. read_lane_record (KEY_LASTSEEN_BASE + of_nat l) kv) [0..<MAX_PEERS]"

definition used_locals :: "net \<Rightarrow> u32" where
  "used_locals n = foldl (\<lambda>m p. m OR push_bit (unat (pe_lane_local p - KEY_LASTSEEN_BASE)) 1) 0
     (List.map_filter id (nt_peers n))"

primrec first_none :: "'a option list \<Rightarrow> nat option" where
  "first_none [] = None"
| "first_none (p # ps) = (if p = None then Some 0 else map_option Suc (first_none ps))"

definition add_peer :: "(bytes \<Rightarrow> bytes \<Rightarrow> bytes) \<Rightarrow> u32 \<Rightarrow> bytes \<Rightarrow> net \<Rightarrow> bool \<times> net" where
  "add_peer enc a key n =
     (if \<not> peer_addr_valid a (nt_addr n) then (False, n)
      else let kcv = key_check enc key in
        case peer_slot a n of
          Some i \<Rightarrow>
            (case nt_peers n ! i of None \<Rightarrow> (True, n)
             | Some p \<Rightarrow>
                 if pe_key p \<noteq> key then
                   let n1 = set_peer i (Some (p\<lparr>pe_key := key, pe_lane := lane_new 0\<rparr>)) n;
                       (ok, kv') = net_set (pe_lane_local p) (lane_record a 0 kcv) (nt_kv n1)
                   in (True, n1\<lparr>nt_kv := kv'\<rparr>)
                 else (True, n))
        | None \<Rightarrow>
            (case first_none (nt_peers n) of
               None \<Rightarrow> (False, n)
             | Some slot \<Rightarrow>
                 (case assign_lane a kcv (net_records (nt_kv n)) (used_locals n) of
                    None \<Rightarrow> (False, n)
                  | Some b \<Rightarrow>
                      let l = KEY_LASTSEEN_BASE + of_nat (lb_index b);
                          (ok, kv') = (if lb_fresh b then net_set l (lane_record a (lb_seen b) kcv) (nt_kv n)
                                       else (True, nt_kv n));
                          p = \<lparr>pe_addr = a, pe_key = key, pe_lane = lane_new (lb_seen b),
                               pe_lane_local = l, pe_pending = False\<rparr>
                      in (True, set_peer slot (Some p) (n\<lparr>nt_kv := kv'\<rparr>)))))"

definition remove_peer :: "u32 \<Rightarrow> net \<Rightarrow> bool \<times> net" where
  "remove_peer a n = (case peer_slot a n of None \<Rightarrow> (False, n) | Some i \<Rightarrow> (True, set_peer i None n))"

definition set_pending :: "u32 \<Rightarrow> bool \<Rightarrow> net \<Rightarrow> bool \<times> net" where
  "set_pending a pending n =
     (case peer_slot a n of None \<Rightarrow> (False, n)
      | Some i \<Rightarrow> (True, set_peer i (map_option (\<lambda>p. p\<lparr>pe_pending := pending\<rparr>) (nt_peers n ! i)) n))"

definition peer_last_seen :: "u32 \<Rightarrow> net \<Rightarrow> u32 option" where
  "peer_last_seen a n = map_option (\<lambda>p. rl_last_seen (pe_lane p)) (peer_at a n)"

definition raise_peer_floor :: "(bytes \<Rightarrow> bytes \<Rightarrow> bytes) \<Rightarrow> u32 \<Rightarrow> u32 \<Rightarrow> net \<Rightarrow> bool \<times> net" where
  "raise_peer_floor enc a seen n =
     (case peer_slot a n of None \<Rightarrow> (False, n)
      | Some i \<Rightarrow>
          (case nt_peers n ! i of None \<Rightarrow> (True, n)
           | Some p \<Rightarrow>
               (case lane_raise (pe_lane p) seen of (moved, lane) \<Rightarrow>
                  let n1 = set_peer i (Some (p\<lparr>pe_lane := lane\<rparr>)) n in
                  if moved then
                    (True, n1\<lparr>nt_kv := snd (net_set (pe_lane_local p) (lane_record a seen (key_check enc (pe_key p))) (nt_kv n1))\<rparr>)
                  else (True, n1))))"

text \<open>\<open>lane_accept\<close> and \<open>lane_reack\<close>.\<close>

definition lane_accept :: "(bytes \<Rightarrow> bytes \<Rightarrow> bytes) \<Rightarrow> u32 \<Rightarrow> u32 \<Rightarrow> net \<Rightarrow> net" where
  "lane_accept enc src counter n =
     (case peer_slot src n of
        Some i \<Rightarrow>
          (case nt_peers n ! i of None \<Rightarrow> n
           | Some p \<Rightarrow>
               (case accept_every (pe_lane p) counter (nt_lane_persist n) of (due, lane) \<Rightarrow>
                  let n1 = set_peer i (Some (p\<lparr>pe_lane := lane\<rparr>)) n in
                  if due then
                    n1\<lparr>nt_kv := snd (net_set (pe_lane_local p) (lane_record (pe_addr p) counter (key_check enc (pe_key p))) (nt_kv n1))\<rparr>
                  else n1))
      | None \<Rightarrow>
          (case accept_every (nt_default_lane n) counter (nt_lane_persist n) of (due, lane) \<Rightarrow>
             let n1 = n\<lparr>nt_default_lane := lane\<rparr> in
             if due then n1\<lparr>nt_kv := snd (net_set KEY_LASTSEEN (u32_le counter) (nt_kv n1))\<rparr> else n1))"

definition lane_reack :: "u32 \<Rightarrow> net \<Rightarrow> bool \<times> net" where
  "lane_reack src n =
     (case peer_slot src n of
        Some i \<Rightarrow>
          (case nt_peers n ! i of None \<Rightarrow> (False, n)
           | Some p \<Rightarrow> (case reack (pe_lane p) of (ok, lane) \<Rightarrow> (ok, set_peer i (Some (p\<lparr>pe_lane := lane\<rparr>)) n)))
      | None \<Rightarrow> (case reack (nt_default_lane n) of (ok, lane) \<Rightarrow> (ok, n\<lparr>nt_default_lane := lane\<rparr>)))"

section \<open>Random backoff\<close>

definition rand_u32 :: "net \<Rightarrow> u32 \<times> net" where
  "rand_u32 n =
     (let x = nt_rng n; x = x XOR push_bit 13 x; x = x XOR drop_bit 17 x; x = x XOR push_bit 5 x
      in (x, n\<lparr>nt_rng := x\<rparr>))"

definition backoff_ms :: "net \<Rightarrow> u32 \<times> net" where
  "backoff_ms n = (case rand_u32 n of (x, n') \<Rightarrow> (x mod MAX_BACKOFF_MS, n'))"

section \<open>Sending\<close>

text \<open>The ACK window: the frames heard before it closes, offered in order.\<close>

primrec await_ack_loop :: "(bytes \<Rightarrow> bytes \<Rightarrow> bytes) \<Rightarrow> bytes \<Rightarrow> ack_wait \<Rightarrow> bytes list \<Rightarrow> ack_meta_t option option" where
  "await_ack_loop enc key wait [] = None"
| "await_ack_loop enc key wait (buf # heard) =
     (case open_frame enc key buf of
        Inl _ \<Rightarrow> await_ack_loop enc key wait heard
      | Inr (hdr, payload) \<Rightarrow>
          (case ack_offer wait (h_type hdr = FtAck) (h_src hdr) (h_dest hdr) payload of
             (Resolved, _) \<Rightarrow> Some (ack_meta payload)
           | (Ignore, wait') \<Rightarrow> await_ack_loop enc key wait' heard))"

definition await_ack :: "(bytes \<Rightarrow> bytes \<Rightarrow> bytes) \<Rightarrow> u32 \<Rightarrow> u32 \<Rightarrow> bytes list \<Rightarrow> net \<Rightarrow> bool \<times> net" where
  "await_ack enc dest counter heard n =
     (case await_ack_loop enc (key_for dest n) (ack_wait_new (nt_addr n) dest counter) heard of
        None \<Rightarrow> (False, n)
      | Some meta \<Rightarrow> (True, n\<lparr>nt_last_ack := meta\<rparr>))"

text \<open>One attempt's surroundings: the milliseconds since the governor was asked last, the outcome of
  the transmission (\<open>None\<close>: sent), the frames heard in its ACK window.\<close>

record attempt =
  at_elapsed :: u32
  at_tx :: "radio_error option"
  at_heard :: "bytes list"

text \<open>The attempts from number \<open>i\<close> on: the result, the frames handed to the radio, the state.\<close>

primrec send_attempts ::
  "(bytes \<Rightarrow> bytes \<Rightarrow> bytes) \<Rightarrow> u32 \<Rightarrow> u32 \<Rightarrow> bool \<Rightarrow> bytes \<Rightarrow> nat \<Rightarrow> attempt list \<Rightarrow> send_result \<Rightarrow> net \<Rightarrow>
     send_result \<times> bytes list \<times> net"
where
  "send_attempts enc dest counter confirmed frame i [] result n = (result, [], n)"
| "send_attempts enc dest counter confirmed frame i (a # as) result n =
     (let n0 = (if 0 < i then snd (backoff_ms n) else n);
          (granted, g) = try_tx (nt_duty n0) (at_elapsed a) (frame_toa_ms (of_nat (length frame)));
          n1 = n0\<lparr>nt_duty := g\<rparr>
      in if \<not> granted then (DutyLimited, [], n1)
         else case at_tx a of
           Some RBusy \<Rightarrow>
             (case send_attempts enc dest counter confirmed frame (Suc i) as SBusy n1 of (r, air, n3) \<Rightarrow> (r, frame # air, n3))
         | Some e \<Rightarrow> (SError e, [frame], n1)
         | None \<Rightarrow>
             if \<not> confirmed then (Delivered, [frame], n1)
             else (case await_ack enc dest counter (at_heard a) n1 of
                 (True, n2) \<Rightarrow> (Delivered, [frame], n2)
               | (False, n2) \<Rightarrow>
                   (case send_attempts enc dest counter confirmed frame (Suc i) as result n2 of
                      (r, air, n3) \<Rightarrow> (r, frame # air, n3))))"

text \<open>\<open>reps.clamp(1, MAX_REPS)\<close> attempts; \<open>env\<close> gives the surroundings of each.\<close>

definition attempts_of :: "bool \<Rightarrow> u8 \<Rightarrow> (nat \<Rightarrow> attempt) \<Rightarrow> attempt list" where
  "attempts_of confirmed reps env =
     map env [0..<(if confirmed then unat (min (max reps 1) MAX_REPS) else 1)]"

definition data_header :: "u32 \<Rightarrow> u32 \<Rightarrow> u32 \<Rightarrow> bool \<Rightarrow> header" where
  "data_header src dest counter confirmed =
     \<lparr>h_type = FtData, h_flags = (if confirmed then CONFIRMED else 0), h_src = src, h_dest = dest,
      h_counter = counter, h_bulk = None\<rparr>"

definition net_send ::
  "(bytes \<Rightarrow> bytes \<Rightarrow> bytes) \<Rightarrow> u32 \<Rightarrow> bytes \<Rightarrow> bool \<Rightarrow> u8 \<Rightarrow> (nat \<Rightarrow> attempt) \<Rightarrow> net \<Rightarrow>
     send_result \<times> bytes list \<times> net"
where
  "net_send enc dest data confirmed reps env n0 =
     (let n = n0\<lparr>nt_last_ack := None\<rparr> in
      if txc_locked (nt_txc n) then (SError RNonceLocked, [], n)
      else if nt_access n = Fhss then (WrongMode, [], n)
      else if length data > MAX_PAYLOAD then (SError RTooLong, [], n)
      else if \<not> may_send_to dest n then (SError RNotRegistered, [], n)
      else case alloc_counter n of
        (None, n1) \<Rightarrow> (SError RNonceLocked, [], n1)
      | (Some counter, n1) \<Rightarrow>
          (case seal_frame enc (key_for dest n1) (data_header (nt_addr n1) dest counter confirmed) data MAX_FRAME of
             Inl _ \<Rightarrow> (SError RTooLong, [], n1)
           | Inr frame \<Rightarrow>
               send_attempts enc dest counter confirmed frame 0 (attempts_of confirmed reps env) NotDelivered n1))"

section \<open>Receiving\<close>

definition ack_header :: "u32 \<Rightarrow> u32 \<Rightarrow> u32 \<Rightarrow> header" where
  "ack_header src dest counter =
     \<lparr>h_type = FtAck, h_flags = 0, h_src = src, h_dest = dest, h_counter = counter, h_bulk = None\<rparr>"

text \<open>\<open>send_ack\<close>: the frame it hands to the radio (the outcome of the transmission is ignored).\<close>

definition send_ack :: "(bytes \<Rightarrow> bytes \<Rightarrow> bytes) \<Rightarrow> u32 \<Rightarrow> u32 \<Rightarrow> u32 \<Rightarrow> int \<Rightarrow> net \<Rightarrow> bytes list \<times> net" where
  "send_ack enc elapsed dest acked rssi n =
     (if txc_locked (nt_txc n) then ([], n)
      else let payload = ack_payload acked rssi (case peer_at dest n of Some p \<Rightarrow> pe_pending p | None \<Rightarrow> False);
               (may_tx, g) = (case nt_access n of
                   Duty \<Rightarrow> try_tx (nt_duty n) elapsed (frame_toa_ms (of_nat (HDR_LEN + length payload + TAG_LEN)))
                 | _ \<Rightarrow> (True, nt_duty n));
               n1 = n\<lparr>nt_duty := g\<rparr>
        in if \<not> may_tx then ([], n1)
           else case alloc_counter n1 of
             (None, n2) \<Rightarrow> ([], n2)
           | (Some c, n2) \<Rightarrow>
               (case seal_frame enc (key_for dest n2) (ack_header (nt_addr n2) dest c) payload MAX_FRAME of
                  Inl _ \<Rightarrow> ([], n2) | Inr frame \<Rightarrow> ([frame], n2)))"

datatype keyed_refusal = KOff | KWrongMode | KUnregistered | KAuthFail | KMalformed | KStale u32 u32 | KNonceLocked | KDutyLimited

definition KEYED_FRAME_LEN :: nat where
  "KEYED_FRAME_LEN = HDR_LEN + 4 + TAG_LEN"

definition keyed_header :: "u32 \<Rightarrow> u32 \<Rightarrow> u32 \<Rightarrow> header" where
  "keyed_header src dest counter =
     \<lparr>h_type = FtJoinResp, h_flags = KEYED, h_src = src, h_dest = dest, h_counter = counter, h_bulk = None\<rparr>"

text \<open>\<open>keyed_answer\<close>: the joiner answered and the sealed JOIN_RESP.\<close>

definition keyed_answer ::
  "(bytes \<Rightarrow> bytes \<Rightarrow> bytes) \<Rightarrow> u32 \<Rightarrow> bytes \<Rightarrow> net \<Rightarrow> (keyed_refusal + u32 \<times> bytes) \<times> net"
where
  "keyed_answer enc elapsed rx n =
     (if \<not> nt_keyed_join_enabled n then (Inl KOff, n)
      else if nt_access n \<noteq> Duty then (Inl KWrongMode, n)
      else if txc_locked (nt_txc n) then (Inl KNonceLocked, n)
      else case header_parse rx of Inl _ \<Rightarrow> (Inl KMalformed, n)
      | Inr (peek, _) \<Rightarrow>
          if peer_slot (h_src peek) n = None then (Inl KUnregistered, n)
          else let key = key_for (h_src peek) n in
            case open_frame enc key rx of Inl _ \<Rightarrow> (Inl KAuthFail, n)
            | Inr (hdr, payload) \<Rightarrow>
                if \<not> keyed_req_valid payload (h_src hdr) then (Inl KMalformed, n)
                else if \<not> keyed_req_admit True (classify (net_lane (h_src hdr) n) (h_counter hdr))
                then (Inl (KStale (h_counter hdr) (rl_last_seen (net_lane (h_src hdr) n))), n)
                else let n1 = lane_accept enc (h_src hdr) (h_counter hdr) n;
                         (granted, g) = try_tx (nt_duty n1) elapsed (frame_toa_ms (of_nat KEYED_FRAME_LEN));
                         n2 = n1\<lparr>nt_duty := g\<rparr>
                  in if \<not> granted then (Inl KDutyLimited, n2)
                     else case alloc_counter n2 of
                       (None, n3) \<Rightarrow> (Inl KNonceLocked, n3)
                     | (Some c, n3) \<Rightarrow>
                         (case seal_frame enc key (keyed_header (nt_addr n3) (h_src hdr) c) (u32_le (h_counter hdr)) KEYED_FRAME_LEN of
                            Inl _ \<Rightarrow> (Inl KMalformed, n3)
                          | Inr frame \<Rightarrow> (Inr (h_src hdr, frame), n3)))"

definition prepare_keyed_answer ::
  "(bytes \<Rightarrow> bytes \<Rightarrow> bytes) \<Rightarrow> u32 \<Rightarrow> u32 \<Rightarrow> bytes \<Rightarrow> net \<Rightarrow> (u32 \<times> bytes) option \<times> net"
where
  "prepare_keyed_answer enc now elapsed rx n =
     (case keyed_answer enc elapsed rx n of
        (Inr a, n1) \<Rightarrow> (Some a, n1)
      | (Inl _, n1) \<Rightarrow> (None, n1\<lparr>nt_keyed_log := snd (log_hit now (nt_keyed_log n1))\<rparr>))"

text \<open>One reception: the bytes with their RSSI and link quality, the milliseconds since the governor
  was asked last, the uptime (s), and whether a keyed answer goes out.\<close>

record reception =
  rc_buf :: bytes
  rc_rssi :: int
  rc_lqi :: u8
  rc_elapsed :: u32
  rc_now :: u32
  rc_tx_ok :: bool

text \<open>\<open>recv\<close> after the radio delivered a frame: the message, the frames handed to the radio, the state.\<close>

definition net_recv ::
  "(bytes \<Rightarrow> bytes \<Rightarrow> bytes) \<Rightarrow> reception \<Rightarrow> net \<Rightarrow> received option \<times> bytes list \<times> net"
where
  "net_recv enc r n =
     (case header_parse (rc_buf r) of Inl _ \<Rightarrow> (None, [], n)
      | Inr (peek, _) \<Rightarrow>
          if h_type peek = FtJoinReq \<and> h_flags peek AND KEYED \<noteq> 0 \<and> h_dest peek = 0 then
            if nt_keyed_responder n then
              (case prepare_keyed_answer enc (rc_now r) (rc_elapsed r) (rc_buf r) n of
                 (None, n1) \<Rightarrow> (None, [], n1)
               | (Some (joiner, frame), n1) \<Rightarrow>
                   if rc_tx_ok r then (None, [frame], n1\<lparr>nt_keyed_join := Some joiner\<rparr>)
                   else (None, [frame], n1\<lparr>nt_keyed_log := snd (log_hit (rc_now r) (nt_keyed_log n1))\<rparr>))
            else (None, [], n)
          else if h_dest peek \<noteq> nt_addr n then (None, [], n)
          else if h_type peek \<noteq> FtData then (None, [], n)
          else if peer_slot (h_src peek) n = None \<and> \<not> nt_default_lane_enabled n then (None, [], n)
          else case open_frame enc (key_for (h_src peek) n) (rc_buf r) of Inl _ \<Rightarrow> (None, [], n)
          | Inr (hdr, payload) \<Rightarrow>
              if h_type hdr \<noteq> FtData then (None, [], n)
              else case classify (net_lane (h_src hdr) n) (h_counter hdr) of
                Fresh \<Rightarrow>
                  let n1 = lane_accept enc (h_src hdr) (h_counter hdr) n;
                      confirmed = (h_flags hdr AND CONFIRMED \<noteq> 0);
                      (air, n2) = (if confirmed then send_ack enc (rc_elapsed r) (h_src hdr) (h_counter hdr) (rc_rssi r) n1
                                   else ([], n1))
                  in (Some \<lparr>rx_src = h_src hdr, rx_counter = h_counter hdr, rx_rssi = rc_rssi r, rx_lqi = rc_lqi r,
                            rx_confirmed = confirmed, rx_data = payload\<rparr>, air, n2)
              | Retransmit \<Rightarrow>
                  if h_flags hdr AND CONFIRMED \<noteq> 0 then
                    (case lane_reack (h_src hdr) n of
                       (True, n1) \<Rightarrow> (case send_ack enc (rc_elapsed r) (h_src hdr) (h_counter hdr) (rc_rssi r) n1 of
                           (air, n2) \<Rightarrow> (None, air, n2))
                     | (False, n1) \<Rightarrow> (None, [], n1))
                  else (None, [], n)
              | Replay \<Rightarrow>
                  if peer_slot (h_src peek) n \<noteq> None
                  then (None, [], n\<lparr>nt_replay_log := snd (log_hit (rc_now r) (nt_replay_log n))\<rparr>)
                  else (None, [], n))"

end
