(* ===== verification/Fw_Access.thy ===== *)
theory Fw_Access
  imports Fw_Net
begin

text \<open>
  The other ways a frame leaves the firmware's network layer: EU LBT+AFA
  (\<open>firmware/src/radio/net/afa.rs\<close>), bulk transfers (\<open>net/bulk.rs\<close>) and US FHSS (\<open>net/fhss.rs\<close>).
  As in \<open>Fw_Net\<close>, what the radio and the clocks do is an input, per step; times are in
  milliseconds.
\<close>

section \<open>LBT + AFA\<close>

definition AFA_OFFTIME :: nat where "AFA_OFFTIME = 100"

definition enable_afa :: "afa_role \<Rightarrow> nat \<Rightarrow> net \<Rightarrow> net" where
  "enable_afa role cfg_primary n =
     (let primary = cfg_primary mod AFA_N in
      n\<lparr>nt_afa := \<lparr>af_role = role, af_primary = primary, af_cur = primary, af_last_tx = replicate AFA_N None\<rparr>,
        nt_access := Afa\<rparr>)"

definition disable_afa :: "net \<Rightarrow> net" where
  "disable_afa n = n\<lparr>nt_access := Duty\<rparr>"

definition afa_channel_ready :: "nat \<Rightarrow> nat \<Rightarrow> net \<Rightarrow> bool" where
  "afa_channel_ready ch now n =
     (case af_last_tx (nt_afa n) ! ch of Some t \<Rightarrow> AFA_OFFTIME \<le> now - t | None \<Rightarrow> True)"

text \<open>One channel of the agility scan: the time it is looked at, whether the retune worked, the
  outcome of the transmission (\<open>None\<close>: sent), the time after it.\<close>

record afa_try =
  ay_now :: nat
  ay_tuned :: bool
  ay_tx :: "radio_error option"
  ay_done :: nat

datatype hop_result = HopSent | HopNone | HopError radio_error

text \<open>The channel loop of one attempt: its result, the frames handed to the radio, the state.\<close>

primrec afa_hop :: "(nat \<Rightarrow> afa_try) \<Rightarrow> bytes \<Rightarrow> nat list \<Rightarrow> net \<Rightarrow> hop_result \<times> bytes list \<times> net" where
  "afa_hop env frame [] n = (HopNone, [], n)"
| "afa_hop env frame (step # steps) n =
     (let ch = (af_cur (nt_afa n) + step) mod AFA_N; e = env step in
      if \<not> afa_channel_ready ch (ay_now e) n then afa_hop env frame steps n
      else if \<not> ay_tuned e then afa_hop env frame steps n
      else (case ay_tx e of
          None \<Rightarrow> (HopSent, [frame],
            n\<lparr>nt_afa := (nt_afa n)\<lparr>af_cur := ch, af_last_tx := (af_last_tx (nt_afa n))[ch := Some (ay_done e)]\<rparr>\<rparr>)
        | Some RBusy \<Rightarrow> (case afa_hop env frame steps n of (r, air, n1) \<Rightarrow> (r, frame # air, n1))
        | Some er \<Rightarrow> (HopError er, [frame], n)))"

record afa_attempt =
  aa_try :: "nat \<Rightarrow> afa_try"
  aa_heard :: "bytes list"

primrec afa_attempts ::
  "(bytes \<Rightarrow> bytes \<Rightarrow> bytes) \<Rightarrow> u32 \<Rightarrow> u32 \<Rightarrow> bool \<Rightarrow> bytes \<Rightarrow> nat \<Rightarrow> afa_attempt list \<Rightarrow> send_result \<Rightarrow> net \<Rightarrow>
     send_result \<times> bytes list \<times> net"
where
  "afa_attempts enc dest counter confirmed frame i [] result n = (result, [], n)"
| "afa_attempts enc dest counter confirmed frame i (a # as) result n =
     (let n0 = (if 0 < i then snd (backoff_ms n) else n) in
      case afa_hop (aa_try a) frame [0..<AFA_N] n0 of
        (HopError e, air, n1) \<Rightarrow> (SError e, air, n1)
      | (HopNone, air, n1) \<Rightarrow>
          (case afa_attempts enc dest counter confirmed frame (Suc i) as DutyLimited n1 of (r, air', n3) \<Rightarrow> (r, air @ air', n3))
      | (HopSent, air, n1) \<Rightarrow>
          if \<not> confirmed then (Delivered, air, n1)
          else (case await_ack enc dest counter (aa_heard a) n1 of
              (True, n2) \<Rightarrow> (Delivered, air, n2)
            | (False, n2) \<Rightarrow>
                (case afa_attempts enc dest counter confirmed frame (Suc i) as result n2 of (r, air', n3) \<Rightarrow> (r, air @ air', n3))))"

definition afa_send ::
  "(bytes \<Rightarrow> bytes \<Rightarrow> bytes) \<Rightarrow> u32 \<Rightarrow> bytes \<Rightarrow> bool \<Rightarrow> u8 \<Rightarrow> (nat \<Rightarrow> afa_attempt) \<Rightarrow> net \<Rightarrow>
     send_result \<times> bytes list \<times> net"
where
  "afa_send enc dest data confirmed reps env n =
     (if txc_locked (nt_txc n) then (SError RNonceLocked, [], n)
      else if nt_access n \<noteq> Afa then (WrongMode, [], n)
      else if length data > MAX_PAYLOAD then (SError RTooLong, [], n)
      else if \<not> may_send_to dest n then (SError RNotRegistered, [], n)
      else case alloc_counter n of
        (None, n1) \<Rightarrow> (SError RNonceLocked, [], n1)
      | (Some counter, n1) \<Rightarrow>
          (case seal_frame enc (key_for dest n1) (data_header (nt_addr n1) dest counter confirmed) data MAX_FRAME of
             Inl _ \<Rightarrow> (SError RTooLong, [], n1)
           | Inr frame \<Rightarrow>
               afa_attempts enc dest counter confirmed frame 0
                 (map env [0..<(if confirmed then unat (min (max reps 1) MAX_REPS) else 1)]) NotDelivered n1))"

text \<open>\<open>afa_serve\<close>: the scan steps that fit before the deadline, each with whether the retune worked and
  what was heard on the channel.\<close>

primrec afa_scan ::
  "(bytes \<Rightarrow> bytes \<Rightarrow> bytes) \<Rightarrow> nat \<Rightarrow> (bool \<times> reception option) list \<Rightarrow> net \<Rightarrow> received option \<times> bytes list \<times> net"
where
  "afa_scan enc k [] n = (None, [], n)"
| "afa_scan enc k (s # ss) n =
     (let ch = (af_primary (nt_afa n) + k mod AFA_N) mod AFA_N in
      case (if fst s then snd s else None) of
        None \<Rightarrow> afa_scan enc (Suc k) ss n
      | Some r \<Rightarrow>
          (case net_recv enc r n of
             (Some m, air, n1) \<Rightarrow> (Some m, air, n1\<lparr>nt_afa := (nt_afa n1)\<lparr>af_cur := ch\<rparr>\<rparr>)
           | (None, air, n1) \<Rightarrow> (case afa_scan enc (Suc k) ss n1 of (m, air', n2) \<Rightarrow> (m, air @ air', n2))))"

definition afa_serve ::
  "(bytes \<Rightarrow> bytes \<Rightarrow> bytes) \<Rightarrow> (bool \<times> reception option) list \<Rightarrow> net \<Rightarrow> received option \<times> bytes list \<times> net"
where
  "afa_serve enc scans n = afa_scan enc 0 scans n"

section \<open>Bulk transfer\<close>

definition BULK_CHUNK :: nat where "BULK_CHUNK = 64"
definition MAX_BULK_LEN :: nat where "MAX_BULK_LEN = 2 ^ 24 * BULK_CHUNK"
definition BULK_IDLE :: nat where "BULK_IDLE = 30000"
definition BULK_REQ_REPS :: nat where "BULK_REQ_REPS = 6"
definition BULK_ANNOUNCE :: u8 where "BULK_ANNOUNCE = 8"
definition LAST_CHUNK :: u8 where "LAST_CHUNK = 4"

text \<open>A source: its length, and what the \<open>i\<close>-th read of the transfer gives for an offset and a wanted
  length.\<close>

record bulk_source =
  bs_total_len :: nat
  bs_read :: "nat \<Rightarrow> nat \<Rightarrow> nat \<Rightarrow> bytes"

text \<open>A sink over a state.\<close>

record 's bulk_sink =
  bk_begin :: "'s \<Rightarrow> nat \<Rightarrow> bool \<times> 's"
  bk_consume :: "'s \<Rightarrow> nat \<Rightarrow> bytes \<Rightarrow> bool \<times> 's"

definition tx_frame ::
  "(bytes \<Rightarrow> bytes \<Rightarrow> bytes) \<Rightarrow> u32 \<Rightarrow> bool \<Rightarrow> bytes \<Rightarrow> header \<Rightarrow> bytes \<Rightarrow> net \<Rightarrow> bool \<times> bytes list \<times> net"
where
  "tx_frame enc elapsed tx_ok key hdr payload n =
     (case seal_frame enc key hdr payload MAX_FRAME of
        Inl _ \<Rightarrow> (False, [], n)
      | Inr frame \<Rightarrow>
          (case try_tx (nt_duty n) elapsed (frame_toa_ms (of_nat (length frame))) of (granted, g) \<Rightarrow>
             if granted then (tx_ok, [frame], n\<lparr>nt_duty := g\<rparr>) else (False, [], n\<lparr>nt_duty := g\<rparr>)))"

definition rx_frame :: "(bytes \<Rightarrow> bytes \<Rightarrow> bytes) \<Rightarrow> bytes \<Rightarrow> nat \<Rightarrow> bytes option \<Rightarrow> (header \<times> bytes) option" where
  "rx_frame enc key out_len heard =
     (case heard of None \<Rightarrow> None
      | Some buf \<Rightarrow>
          (case open_frame enc key buf of
             Inl _ \<Rightarrow> None
           | Inr (hdr, payload) \<Rightarrow> if length payload > out_len then None else Some (hdr, payload)))"

definition n_chunks_of :: "nat \<Rightarrow> nat" where
  "n_chunks_of total_len = max ((total_len + BULK_CHUNK - 1) div BULK_CHUNK) 1"

text \<open>\<open>u32::from_le_bytes\<close> of the four bytes at \<open>i\<close>.\<close>

definition le_at :: "bytes \<Rightarrow> nat \<Rightarrow> u32" where
  "le_at b i = le_u32 (b ! i) (b ! (i + 1)) (b ! (i + 2)) (b ! (i + 3))"

text \<open>One turn of the serve loop: the time, the two governor intervals and transmission outcomes, what
  was heard in the slice.\<close>

record bulk_turn =
  bt_now :: nat
  bt_ann_elapsed :: u32
  bt_ann_ok :: bool
  bt_heard :: "bytes option"
  bt_progress :: nat
  bt_elapsed :: u32
  bt_ok :: bool

record bulk_session =
  bz_dest :: u32
  bz_key :: bytes
  bz_session :: u32
  bz_ann_hdr :: header
  bz_ann :: bytes

definition chunk_header :: "u32 \<Rightarrow> u32 \<Rightarrow> u32 \<Rightarrow> nat \<Rightarrow> bool \<Rightarrow> header" where
  "chunk_header src dest session k is_last =
     \<lparr>h_type = FtBulkData, h_flags = (if is_last then LAST_CHUNK else 0), h_src = src, h_dest = dest,
      h_counter = session, h_bulk = Some (of_nat k)\<rparr>"

text \<open>The chunk a request asks for, if it is one of this session.\<close>

definition bulk_request :: "(bytes \<Rightarrow> bytes \<Rightarrow> bytes) \<Rightarrow> bulk_session \<Rightarrow> nat \<Rightarrow> bytes option \<Rightarrow> net \<Rightarrow> nat option" where
  "bulk_request enc z n_chunks heard n =
     (case rx_frame enc (bz_key z) BULK_CHUNK heard of
        None \<Rightarrow> None
      | Some (hdr, p) \<Rightarrow>
          if h_type hdr \<noteq> FtBulkReq \<or> h_src hdr \<noteq> bz_dest z \<or> h_dest hdr \<noteq> nt_addr n then None
          else if length p < 4 \<or> le_at p 0 \<noteq> bz_session z then None
          else let k = unat (case h_bulk hdr of None \<Rightarrow> 0 | Some i \<Rightarrow> i) in
            if n_chunks \<le> k then None else Some k)"

text \<open>The serve loop over the turns before it idles out; \<open>i\<close> counts the reads of the source.\<close>

primrec bulk_serve_loop ::
  "(bytes \<Rightarrow> bytes \<Rightarrow> bytes) \<Rightarrow> bulk_source \<Rightarrow> bulk_session \<Rightarrow> bulk_turn list \<Rightarrow> nat \<Rightarrow> bool \<Rightarrow> bool \<Rightarrow> nat \<Rightarrow> net \<Rightarrow>
     bool \<times> bytes list \<times> net"
where
  "bulk_serve_loop enc src z [] i got_req served_last last_progress n = (served_last, [], n)"
| "bulk_serve_loop enc src z (t # ts) i got_req served_last last_progress n =
     (if (if served_last then 2000 else BULK_IDLE) \<le> bt_now t - last_progress then (served_last, [], n)
      else
        let (_, air0, n0) = (if got_req then (True, [], n)
              else tx_frame enc (bt_ann_elapsed t) (bt_ann_ok t) (bz_key z) (bz_ann_hdr z) (bz_ann z) n);
            total_len = bs_total_len src; n_chunks = n_chunks_of total_len
        in case bulk_request enc z n_chunks (bt_heard t) n0 of
            None \<Rightarrow>
              (case bulk_serve_loop enc src z ts i got_req served_last last_progress n0 of (r, air, n2) \<Rightarrow> (r, air0 @ air, n2))
          | Some k \<Rightarrow>
              let start = k * BULK_CHUNK; want = min (total_len - start) BULK_CHUNK;
                  chunk = bs_read src i start want; is_last = (k = n_chunks - 1);
                  (_, air1, n1) = tx_frame enc (bt_elapsed t) (bt_ok t) (bz_key z)
                    (chunk_header (nt_addr n0) (bz_dest z) (bz_session z) k is_last) chunk n0
              in (case bulk_serve_loop enc src z ts (Suc i) True (served_last \<or> is_last) (bt_progress t) n1 of
                    (r, air, n2) \<Rightarrow> (r, air0 @ air1 @ air, n2)))"

definition announce_header :: "u32 \<Rightarrow> u32 \<Rightarrow> u32 \<Rightarrow> header" where
  "announce_header src dest counter =
     \<lparr>h_type = FtData, h_flags = BULK_ANNOUNCE, h_src = src, h_dest = dest, h_counter = counter, h_bulk = None\<rparr>"

definition bulk_serve_from ::
  "(bytes \<Rightarrow> bytes \<Rightarrow> bytes) \<Rightarrow> u32 \<Rightarrow> bulk_source \<Rightarrow> nat \<Rightarrow> bulk_turn list \<Rightarrow> net \<Rightarrow> bool \<times> bytes list \<times> net"
where
  "bulk_serve_from enc dest src now turns n =
     (if txc_locked (nt_txc n) then (False, [], n)
      else if \<not> may_send_to dest n then (False, [], n)
      else let key = key_for dest n; total_len = bs_total_len src in
        if MAX_BULK_LEN < total_len then (False, [], n)
        else case alloc_counter n of
          (None, n1) \<Rightarrow> (False, [], n1)
        | (Some announce_counter, n1) \<Rightarrow>
            (case alloc_counter n1 of
               (None, n2) \<Rightarrow> (False, [], n2)
             | (Some session, n2) \<Rightarrow>
                 bulk_serve_loop enc src
                   \<lparr>bz_dest = dest, bz_key = key, bz_session = session,
                    bz_ann_hdr = announce_header (nt_addr n2) dest announce_counter,
                    bz_ann = u32_le (of_nat total_len) @ u32_le session\<rparr>
                   turns 0 False False now n2))"

text \<open>The slice source of \<open>bulk_serve\<close>.\<close>

definition slice_source :: "bytes \<Rightarrow> bulk_source" where
  "slice_source data = \<lparr>bs_total_len = length data, bs_read = (\<lambda>i off len. bslice off len data)\<rparr>"

definition bulk_serve where
  "bulk_serve enc dest data now turns n = bulk_serve_from enc dest (slice_source data) now turns n"

text \<open>The wait for the announce: a frame that does not open ends it, as a timeout does.\<close>

primrec await_announce ::
  "(bytes \<Rightarrow> bytes \<Rightarrow> bytes) \<Rightarrow> bytes \<Rightarrow> u32 \<Rightarrow> u32 \<Rightarrow> bytes list \<Rightarrow> (nat \<times> u32) option"
where
  "await_announce enc key src addr [] = None"
| "await_announce enc key src addr (b # bs) =
     (case rx_frame enc key 8 (Some b) of
        None \<Rightarrow> None
      | Some (hdr, p) \<Rightarrow>
          if h_type hdr = FtData \<and> h_flags hdr AND BULK_ANNOUNCE \<noteq> 0 \<and> h_src hdr = src \<and> h_dest hdr = addr \<and> 8 \<le> length p
          then Some (unat (le_at p 0), le_at p 4)
          else await_announce enc key src addr bs)"

record bulk_try =
  by_elapsed :: u32
  by_ok :: bool
  by_heard :: "bytes option"

definition chunk_matches :: "header \<Rightarrow> u32 \<Rightarrow> u32 \<Rightarrow> u32 \<Rightarrow> nat \<Rightarrow> bool" where
  "chunk_matches dhdr src addr session k \<longleftrightarrow>
     h_type dhdr = FtBulkData \<and> h_src dhdr = src \<and> h_dest dhdr = addr \<and> h_counter dhdr = session \<and>
     h_bulk dhdr = Some (of_nat k)"

datatype chunk_result = Got nat | Missed | Aborted

text \<open>The repetitions of one request: the outcome, the frames handed to the radio, sink and state.\<close>

primrec fetch_chunk ::
  "(bytes \<Rightarrow> bytes \<Rightarrow> bytes) \<Rightarrow> 's bulk_sink \<Rightarrow> bytes \<Rightarrow> u32 \<Rightarrow> u32 \<Rightarrow> nat \<Rightarrow> nat \<Rightarrow> header \<Rightarrow> bulk_try list \<Rightarrow> 's \<Rightarrow> net \<Rightarrow>
     chunk_result \<times> bytes list \<times> 's \<times> net"
where
  "fetch_chunk enc sink key src session total_len k req_hdr [] s n = (Missed, [], s, n)"
| "fetch_chunk enc sink key src session total_len k req_hdr (t # ts) s n =
     (case tx_frame enc (by_elapsed t) (by_ok t) key req_hdr (u32_le session) n of (sent, air, n1) \<Rightarrow>
        let retry = (\<lambda>s n1. case fetch_chunk enc sink key src session total_len k req_hdr ts s n1 of
              (r, air', s', n2) \<Rightarrow> (r, air @ air', s', n2)) in
        if \<not> sent then retry s n1
        else case rx_frame enc key BULK_CHUNK (by_heard t) of
            None \<Rightarrow> retry s n1
          | Some (dhdr, d) \<Rightarrow>
              if \<not> chunk_matches dhdr src (nt_addr n1) session k then retry s n1
              else let off = k * BULK_CHUNK in
                if length d \<noteq> min (total_len - off) BULK_CHUNK then retry s n1
                else (case bk_consume sink s off d of
                    (False, s') \<Rightarrow> (Aborted, air, s', n1)
                  | (True, s') \<Rightarrow> (Got (length d), air, s', n1)))"

definition request_header :: "u32 \<Rightarrow> u32 \<Rightarrow> u32 \<Rightarrow> nat \<Rightarrow> header" where
  "request_header src dest counter k =
     \<lparr>h_type = FtBulkReq, h_flags = 0, h_src = src, h_dest = dest, h_counter = counter, h_bulk = Some (of_nat k)\<rparr>"

primrec fetch_chunks ::
  "(bytes \<Rightarrow> bytes \<Rightarrow> bytes) \<Rightarrow> 's bulk_sink \<Rightarrow> bytes \<Rightarrow> u32 \<Rightarrow> u32 \<Rightarrow> nat \<Rightarrow> (nat \<Rightarrow> nat \<Rightarrow> bulk_try) \<Rightarrow> nat list \<Rightarrow> nat \<Rightarrow>
     's \<Rightarrow> net \<Rightarrow> nat option \<times> bytes list \<times> 's \<times> net"
where
  "fetch_chunks enc sink key src session total_len env [] received s n = (Some received, [], s, n)"
| "fetch_chunks enc sink key src session total_len env (k # ks) received s n =
     (case alloc_counter n of
        (None, n1) \<Rightarrow> (None, [], s, n1)
      | (Some c, n1) \<Rightarrow>
          (case fetch_chunk enc sink key src session total_len k (request_header (nt_addr n1) src c k)
                  (map (env k) [0..<BULK_REQ_REPS]) s n1 of
             (Got m, air, s', n2) \<Rightarrow>
               (case fetch_chunks enc sink key src session total_len env ks (received + m) s' n2 of
                  (r, air', s'', n3) \<Rightarrow> (r, air @ air', s'', n3))
           | (_, air, s', n2) \<Rightarrow> (None, air, s', n2)))"

definition bulk_fetch_into ::
  "(bytes \<Rightarrow> bytes \<Rightarrow> bytes) \<Rightarrow> u32 \<Rightarrow> 's bulk_sink \<Rightarrow> bytes list \<Rightarrow> (nat \<Rightarrow> nat \<Rightarrow> bulk_try) \<Rightarrow> 's \<Rightarrow> net \<Rightarrow>
     nat option \<times> bytes list \<times> 's \<times> net"
where
  "bulk_fetch_into enc src sink heard env s n =
     (if txc_locked (nt_txc n) then (None, [], s, n)
      else if \<not> may_send_to src n then (None, [], s, n)
      else let key = key_for src n in
        case await_announce enc key src (nt_addr n) heard of
          None \<Rightarrow> (None, [], s, n)
        | Some (total_len, session) \<Rightarrow>
            if MAX_BULK_LEN < total_len then (None, [], s, n)
            else (case bk_begin sink s total_len of
                (False, s') \<Rightarrow> (None, [], s', n)
              | (True, s') \<Rightarrow> fetch_chunks enc sink key src session total_len env [0..<n_chunks_of total_len] 0 s' n))"

text \<open>The slice sink of \<open>bulk_fetch\<close>: its state is the \<open>out\<close> slice.\<close>

definition slice_sink :: "bytes bulk_sink" where
  "slice_sink =
     \<lparr>bk_begin = (\<lambda>out total_len. (total_len \<le> length out, out)),
      bk_consume = (\<lambda>out off chunk.
        if length out < off + length chunk then (False, out) else (True, bsplice off chunk out))\<rparr>"

definition bulk_fetch where
  "bulk_fetch enc src heard env out n = bulk_fetch_into enc src slice_sink heard env out n"

end
