(* ===== verification/Fw_Fhss.thy ===== *)
theory Fw_Fhss
  imports Fw_Access
begin

text \<open>
  US 915 frequency hopping of the firmware (\<open>firmware/src/radio/net/fhss.rs\<close>): the slot clock, the
  master's beacon and slot, the node's tick, the slotted send. Crystal times are 64-bit
  milliseconds; each reading of the clock and each frame heard is an input.
\<close>

section \<open>Constants and the slot clock\<close>

definition GUARD :: u64 where "GUARD = 10"
definition MASTER_LOOP_BUDGET :: u64 where "MASTER_LOOP_BUDGET = 40"
definition BEACON_PL_LEN :: nat where "BEACON_PL_LEN = 9"
definition FHSS_BROADCAST :: u32 where "FHSS_BROADCAST = 0xFFFFFFFF"

record fhss_config =
  fc_seed :: u32
  fc_network_key :: "bytes option"

definition beacon_toa_ms :: u64 where
  "beacon_toa_ms = ucast (frame_toa_ms (of_nat (HDR_LEN + BEACON_PL_LEN + TAG_LEN)))"

text \<open>\<open>Lse::checked_sub\<close>.\<close>

definition lse_checked_sub :: "u64 \<Rightarrow> u64 \<Rightarrow> u64 option" where
  "lse_checked_sub t d = (if d \<le> t then Some (t - d) else None)"

definition fhss_cur_slot :: "u32 \<times> u64 \<Rightarrow> u64 \<Rightarrow> u32" where
  "fhss_cur_slot anchor now = fst anchor + ucast (sat_sub now (snd anchor) div SLOT_MS)"

definition fhss_slot_start :: "u32 \<times> u64 \<Rightarrow> u32 \<Rightarrow> u64" where
  "fhss_slot_start anchor slot_abs = snd anchor + ucast (slot_abs - fst anchor) * SLOT_MS"

section \<open>Enabling and leaving\<close>

definition enable_fhss :: "fhss_role \<Rightarrow> fhss_config \<Rightarrow> u64 \<Rightarrow> net \<Rightarrow> net" where
  "enable_fhss role cfg now n =
     (let key = (case fc_network_key cfg of None \<Rightarrow> nt_default_key n | Some k \<Rightarrow> k);
          seed = (if fc_seed cfg \<noteq> 0 then fc_seed cfg else le_u32 (key ! 0) (key ! 1) (key ! 2) (key ! 3) OR 1);
          f = (nt_fhss n)\<lparr>fh_role := role, fh_enabled := True, fh_seed := seed, fh_key := key,
                fh_acquire_t0 := None, fh_airtime_ms := replicate FHSS_N 0\<rparr>
      in case role of
           FhssMaster \<Rightarrow>
             let epoch = next_master_epoch (read_u32 KEY_FHSS_EPOCH (nt_kv n)) in
             n\<lparr>nt_access := Fhss, nt_kv := snd (net_set KEY_FHSS_EPOCH (u32_le epoch) (nt_kv n)),
               nt_fhss := f\<lparr>fh_gate := gate_reset (fh_gate f) epoch, fh_state := Synced, fh_anchor := Some (0, now)\<rparr>\<rparr>
         | FhssNode \<Rightarrow>
             n\<lparr>nt_access := Fhss,
               nt_fhss := f\<lparr>fh_gate := gate_reset (fh_gate f) 0, fh_state := Scanning, fh_anchor := None,
                 fh_cur_channel := FHSS_RENDEZVOUS_CH\<rparr>\<rparr>)"

definition disable_fhss :: "net \<Rightarrow> net" where
  "disable_fhss n = n\<lparr>nt_access := Duty, nt_fhss := (nt_fhss n)\<lparr>fh_enabled := False\<rparr>\<rparr>"

definition fhss_suspend :: "bool \<Rightarrow> band \<Rightarrow> net \<Rightarrow> net" where
  "fhss_suspend tuned b n =
     (if \<not> fh_enabled (nt_fhss n) \<or> nt_access n \<noteq> Fhss then n else set_band tuned b (n\<lparr>nt_access := Duty\<rparr>))"

definition fhss_resume :: "net \<Rightarrow> net" where
  "fhss_resume n = (if fh_enabled (nt_fhss n) then n\<lparr>nt_access := Fhss\<rparr> else n)"

definition fhss_slot_left :: "u64 \<Rightarrow> net \<Rightarrow> u64" where
  "fhss_slot_left now n =
     (case fh_anchor (nt_fhss n) of None \<Rightarrow> 0
      | Some anchor \<Rightarrow>
          (case lse_checked_sub (fhss_slot_start anchor (fhss_cur_slot anchor now + 1)) GUARD of
             None \<Rightarrow> 0 | Some e \<Rightarrow> sat_sub e now))"

definition fhss_since_beacon :: "u64 \<Rightarrow> net \<Rightarrow> u64 option" where
  "fhss_since_beacon now n =
     (if fh_role (nt_fhss n) = FhssNode \<and> fh_anchor (nt_fhss n) \<noteq> None
      then Some (sat_sub now (fh_last_beacon (nt_fhss n))) else None)"

definition fhss_channel_airtime_ms :: "u8 \<Rightarrow> net \<Rightarrow> u32" where
  "fhss_channel_airtime_ms ch n =
     (let a = fh_airtime_ms (nt_fhss n) in if unat ch < length a then ucast (a ! unat ch) else 0)"

section \<open>Beacons\<close>

definition set_fhss :: "fhss \<Rightarrow> net \<Rightarrow> net" where
  "set_fhss f n = n\<lparr>nt_fhss := f\<rparr>"

text \<open>\<open>airtime_ms[ch].saturating_add(frame_toa_ms(n) as u16)\<close>.\<close>

definition add_airtime :: "u8 \<Rightarrow> nat \<Rightarrow> fhss \<Rightarrow> fhss" where
  "add_airtime ch len f =
     f\<lparr>fh_airtime_ms := (fh_airtime_ms f)[unat ch := sat_add (fh_airtime_ms f ! unat ch) (ucast (frame_toa_ms (of_nat len)))]\<rparr>"

definition beacon_header :: "u32 \<Rightarrow> u32 \<Rightarrow> header" where
  "beacon_header src counter =
     \<lparr>h_type = FtBeacon, h_flags = 0, h_src = src, h_dest = FHSS_BROADCAST, h_counter = counter, h_bulk = None\<rparr>"

definition beacon_payload :: "u32 \<Rightarrow> u32 \<Rightarrow> bytes" where
  "beacon_payload epoch slot_abs =
     u32_le epoch @ u32_le (slot_abs div of_nat FHSS_N) @ [ucast (slot_abs mod of_nat FHSS_N)]"

definition fhss_tx_beacon :: "(bytes \<Rightarrow> bytes \<Rightarrow> bytes) \<Rightarrow> u32 \<Rightarrow> u8 \<Rightarrow> net \<Rightarrow> bytes list \<times> net" where
  "fhss_tx_beacon enc slot_abs ch n =
     (if txc_locked (nt_txc n) then ([], n)
      else let pl = beacon_payload (eg_epoch (fh_gate (nt_fhss n))) slot_abs in
        case alloc_counter n of
          (None, n1) \<Rightarrow> ([], n1)
        | (Some counter, n1) \<Rightarrow>
            (case seal_frame enc (fh_key (nt_fhss n1)) (beacon_header (nt_addr n1) counter) pl MAX_FRAME of
               Inl _ \<Rightarrow> ([], n1)
             | Inr frame \<Rightarrow> ([frame], set_fhss (add_airtime ch (length frame) (nt_fhss n1)) n1)))"

text \<open>What a heard frame says if it is an authentic beacon: epoch and absolute slot.\<close>

definition beacon_of :: "(bytes \<Rightarrow> bytes \<Rightarrow> bytes) \<Rightarrow> bytes \<Rightarrow> bytes \<Rightarrow> (u32 \<times> u32) option" where
  "beacon_of enc key buf =
     (case header_parse buf of Inl _ \<Rightarrow> None
      | Inr (peek, _) \<Rightarrow>
          if h_type peek \<noteq> FtBeacon then None
          else (case open_frame enc key buf of Inl _ \<Rightarrow> None
            | Inr (_, pl) \<Rightarrow>
                if length pl < BEACON_PL_LEN then None
                else Some (le_at pl 0, le_at pl 4 * of_nat FHSS_N + ucast (pl ! 8))))"

text \<open>\<open>fhss_rx_beacon\<close> over the frames heard in the window, with their arrival times.\<close>

primrec fhss_rx_beacon :: "(bytes \<Rightarrow> bytes \<Rightarrow> bytes) \<Rightarrow> bytes \<Rightarrow> (bytes \<times> u64) list \<Rightarrow> (u32 \<times> u32 \<times> u64) option" where
  "fhss_rx_beacon enc key [] = None"
| "fhss_rx_beacon enc key (h # hs) =
     (case beacon_of enc key (fst h) of
        None \<Rightarrow> fhss_rx_beacon enc key hs
      | Some (epoch, slot_abs) \<Rightarrow> Some (epoch, slot_abs, snd h))"

definition fhss_lock :: "u32 \<Rightarrow> u64 \<Rightarrow> fhss \<Rightarrow> fhss" where
  "fhss_lock slot_abs t_rx f =
     (let boundary = (case lse_checked_sub t_rx beacon_toa_ms of None \<Rightarrow> t_rx | Some t \<Rightarrow> t) in
      f\<lparr>fh_anchor := Some (slot_abs, boundary), fh_state := Synced, fh_last_beacon := t_rx\<rparr>)"

section \<open>Slots\<close>

record master_slot =
  mz_channel :: u8
  mz_slot :: u32
  mz_received :: "received option"

text \<open>One master slot: the clock at its start and after the beacon, and what is heard then.\<close>

definition fhss_master_tick ::
  "(bytes \<Rightarrow> bytes \<Rightarrow> bytes) \<Rightarrow> u64 \<Rightarrow> u64 \<Rightarrow> reception option \<Rightarrow> net \<Rightarrow> master_slot option \<times> bytes list \<times> net"
where
  "fhss_master_tick enc now now' heard n =
     (if fh_role (nt_fhss n) \<noteq> FhssMaster then (None, [], n)
      else case fh_anchor (nt_fhss n) of
        None \<Rightarrow> (None, [], n)
      | Some anchor \<Rightarrow>
          let slot = fhss_cur_slot anchor now + 1;
              ch = fhss_channel_for (fh_seed (nt_fhss n)) slot;
              t_start = fhss_slot_start anchor slot;
              n0 = set_fhss ((nt_fhss n)\<lparr>fh_cur_channel := ch\<rparr>) n;
              (air, n1) = fhss_tx_beacon enc slot ch n0;
              listen_until = sat_sub (sat_sub (t_start + SLOT_MS) GUARD) MASTER_LOOP_BUDGET;
              (received, air', n2) =
                (case (if now' < listen_until then heard else None) of
                   None \<Rightarrow> (None, [], n1) | Some r \<Rightarrow> net_recv enc r n1)
          in (Some \<lparr>mz_channel = ch, mz_slot = slot, mz_received = received\<rparr>, air @ air', n2))"

record node_slot =
  nz_state :: fhss_state
  nz_channel :: u8
  nz_slot :: u32
  nz_got_beacon :: bool

text \<open>The node's tick: the clock at its start and at the prediction, and the frames heard.\<close>

record node_env =
  ne_start :: u64
  ne_now :: u64
  ne_heard :: "(bytes \<times> u64) list"

definition node_slack :: "u64 \<Rightarrow> fhss \<Rightarrow> u64 option" where
  "node_slack start f =
     (case fh_anchor f of None \<Rightarrow> None
      | Some _ \<Rightarrow> reacquire_slack_ms (sat_sub start (fh_last_beacon f)) (sat_sub (SLOT_MS div 2) (GUARD + beacon_toa_ms)))"

text \<open>Tracking by prediction.\<close>

definition node_track :: "(bytes \<Rightarrow> bytes \<Rightarrow> bytes) \<Rightarrow> node_env \<Rightarrow> u32 \<times> u64 \<Rightarrow> fhss \<Rightarrow> node_slot \<times> fhss" where
  "node_track enc e anchor f =
     (let slot = fhss_cur_slot anchor (ne_now e) + 1; ch = fhss_channel_for (fh_seed f) slot;
          f0 = f\<lparr>fh_cur_channel := ch\<rparr>;
          missed = (\<lambda>g. case beacon_missed g of
              (Rescan, g') \<Rightarrow>
                (\<lparr>nz_state = Scanning, nz_channel = ch, nz_slot = slot, nz_got_beacon = False\<rparr>,
                 f0\<lparr>fh_gate := g', fh_anchor := None, fh_state := Scanning\<rparr>)
            | (KeepPredicting, g') \<Rightarrow>
                (\<lparr>nz_state = Synced, nz_channel = ch, nz_slot = slot, nz_got_beacon = False\<rparr>, f0\<lparr>fh_gate := g'\<rparr>))
      in case fhss_rx_beacon enc (fh_key f) (ne_heard e) of
           None \<Rightarrow> missed (fh_gate f)
         | Some (epoch, slot_abs, t_rx) \<Rightarrow>
             (case offer_tracked epoch slot_abs slot (fh_gate f) of
                (ReAnchor, g) \<Rightarrow>
                  (\<lparr>nz_state = Synced, nz_channel = ch, nz_slot = slot, nz_got_beacon = True\<rparr>,
                   fhss_lock slot_abs t_rx (f0\<lparr>fh_gate := g\<rparr>))
              | (TvIgnore, g) \<Rightarrow> missed g))"

text \<open>Scanning on the rendezvous channel.\<close>

definition node_scan :: "(bytes \<Rightarrow> bytes \<Rightarrow> bytes) \<Rightarrow> node_env \<Rightarrow> fhss \<Rightarrow> node_slot \<times> fhss" where
  "node_scan enc e f =
     (let f0 = f\<lparr>fh_cur_channel := FHSS_RENDEZVOUS_CH\<rparr>;
          at = (\<lambda>st slot got. \<lparr>nz_state = st, nz_channel = FHSS_RENDEZVOUS_CH, nz_slot = slot, nz_got_beacon = got\<rparr>)
      in case fhss_rx_beacon enc (fh_key f) (ne_heard e) of
           None \<Rightarrow> (at Scanning 0 False, f0)
         | Some (epoch, slot_abs, t_rx) \<Rightarrow>
             let elapsed_slots = map_option (\<lambda>t0. ucast (sat_sub t_rx t0 div SLOT_MS)) (fh_acquire_t0 f) in
             (case offer_scanning epoch slot_abs elapsed_slots (fh_gate f) of
                (Reject, g) \<Rightarrow> (at Scanning 0 False, f0\<lparr>fh_gate := g\<rparr>)
              | (Lock, g) \<Rightarrow>
                  (at Synced slot_abs True, fhss_lock slot_abs t_rx (f0\<lparr>fh_gate := g, fh_acquire_t0 := None\<rparr>))
              | (Hold replaced, g) \<Rightarrow>
                  (at Scanning slot_abs False,
                   f0\<lparr>fh_gate := g, fh_acquire_t0 := (if replaced then Some t_rx else fh_acquire_t0 f)\<rparr>)))"

definition node_tick :: "(bytes \<Rightarrow> bytes \<Rightarrow> bytes) \<Rightarrow> node_env \<Rightarrow> fhss \<Rightarrow> node_slot \<times> fhss" where
  "node_tick enc e f =
     (let slack = node_slack (ne_start e) f;
          f1 = (if slack = None \<and> fh_anchor f \<noteq> None then f\<lparr>fh_anchor := None, fh_state := Scanning\<rparr> else f)
      in case (fh_anchor f1, slack) of
           (Some anchor, Some _) \<Rightarrow> node_track enc e anchor f1
         | _ \<Rightarrow> node_scan enc e f1)"

definition fhss_node_tick :: "(bytes \<Rightarrow> bytes \<Rightarrow> bytes) \<Rightarrow> node_env \<Rightarrow> net \<Rightarrow> node_slot \<times> net" where
  "fhss_node_tick enc e n = (case node_tick enc e (nt_fhss n) of (z, f) \<Rightarrow> (z, set_fhss f n))"

text \<open>A send in the current slot: the clock, the outcome of the transmission, the frames heard in the
  ACK window.\<close>

definition fhss_send ::
  "(bytes \<Rightarrow> bytes \<Rightarrow> bytes) \<Rightarrow> u32 \<Rightarrow> bytes \<Rightarrow> bool \<Rightarrow> u64 \<Rightarrow> radio_error option \<Rightarrow> bytes list \<Rightarrow> net \<Rightarrow>
     send_result \<times> bytes list \<times> net"
where
  "fhss_send enc dest data confirmed now tx heard n =
     (if txc_locked (nt_txc n) then (SError RNonceLocked, [], n)
      else if nt_access n \<noteq> Fhss then (WrongMode, [], n)
      else if fh_state (nt_fhss n) \<noteq> Synced then (NotSynced, [], n)
      else if length data > MAX_PAYLOAD then (SError RTooLong, [], n)
      else if \<not> may_send_to dest n then (SError RNotRegistered, [], n)
      else case fh_anchor (nt_fhss n) of None \<Rightarrow> (NotSynced, [], n)
      | Some anchor \<Rightarrow>
          let len = HDR_LEN + length data + TAG_LEN;
              cur = fhss_cur_slot anchor now;
              ch = fhss_channel_for (fh_seed (nt_fhss n)) cur;
              room = sat_sub (fhss_slot_start anchor (cur + 1)) now;
              data_toa = ucast (frame_toa_ms (of_nat len)) :: u64;
              need = (if confirmed then data_toa + 20 + beacon_toa_ms else data_toa) + GUARD + MASTER_LOOP_BUDGET
          in if room < need then (DutyLimited, [], n)
             else case alloc_counter n of
               (None, n1) \<Rightarrow> (SError RNonceLocked, [], n1)
             | (Some counter, n1) \<Rightarrow>
                 (case seal_frame enc (key_for dest n1) (data_header (nt_addr n1) dest counter confirmed) data MAX_FRAME of
                    Inl _ \<Rightarrow> (SError RTooLong, [], n1)
                  | Inr frame \<Rightarrow>
                      let n2 = set_fhss (add_airtime ch (length frame) ((nt_fhss n1)\<lparr>fh_cur_channel := ch\<rparr>)) n1 in
                      (case tx of
                         Some er \<Rightarrow> (SError er, [frame], n2)
                       | None \<Rightarrow>
                           if \<not> confirmed then (Delivered, [frame], n2)
                           else (case await_ack enc dest counter heard n2 of
                               (True, n3) \<Rightarrow> (Delivered, [frame], n3)
                             | (False, n3) \<Rightarrow> (NotDelivered, [frame], n3)))))"

text \<open>The random backoff: \<open>rand_u32() % 4\<close> ticks.\<close>

primrec node_ticks :: "(bytes \<Rightarrow> bytes \<Rightarrow> bytes) \<Rightarrow> node_env list \<Rightarrow> net \<Rightarrow> net" where
  "node_ticks enc [] n = n"
| "node_ticks enc (e # es) n = node_ticks enc es (snd (fhss_node_tick enc e n))"

definition fhss_retry_backoff :: "(bytes \<Rightarrow> bytes \<Rightarrow> bytes) \<Rightarrow> (nat \<Rightarrow> node_env) \<Rightarrow> net \<Rightarrow> net" where
  "fhss_retry_backoff enc env n =
     (case rand_u32 n of (x, n1) \<Rightarrow> node_ticks enc (map env [0..<unat (x mod 4)]) n1)"

end
