(* ===== verification/Kv_Dead.thy ===== *)
theory Kv_Dead
  imports Kv_Incremental
begin

text \<open>
  A part without power: whatever the codec does with it, its cells stay as they are, and an
  operation that has to program a word reports an error. The logic has one triple, \<open>dead_run\<close>,
  whose rules are the collection \<open>dead_rules\<close>; the last lemma is about the public write.
\<close>

section \<open>The logic\<close>

text \<open>\<open>dead_run dev ok m\<close>: on a dead part \<open>m\<close> leaves the part as it is, and returns without error only
  if \<open>ok\<close>.\<close>

definition dead_run :: "('s \<Rightarrow> eeprom) \<Rightarrow> bool \<Rightarrow> ('s, 'a) kvm \<Rightarrow> bool" where
  "dead_run dev ok m \<longleftrightarrow> (\<forall>s r s'. m s = (r, s') \<longrightarrow> ee_dead (dev s) \<longrightarrow>
     ee_dead (dev s') \<and> ee_buf (dev s') = ee_buf (dev s) \<and> ee_cut (dev s') = ee_cut (dev s) \<and> (isl r \<or> ok))"

abbreviation dead_dev :: "bool \<Rightarrow> (eeprom, 'a) kvm \<Rightarrow> bool" where
  "dead_dev \<equiv> dead_run (\<lambda>d. d)"

named_theorems dead_rules "rules of the logic of dead parts"

lemma dead_runD:
  assumes "dead_run dev ok m" and "m s = (r, s')" and "ee_dead (dev s)"
  shows "ee_dead (dev s')" and "ee_buf (dev s') = ee_buf (dev s)" and "ee_cut (dev s') = ee_cut (dev s)" and "isl r \<or> ok"
  using assms by (auto simp: dead_run_def)

lemma dead_weaken: "dead_run dev False m \<Longrightarrow> dead_run dev ok m"
  by (auto simp: dead_run_def)

lemma dead_return [dead_rules]: "dead_run dev True (kv_return x)"
  by (simp add: dead_run_def)

lemma dead_raise [dead_rules]: "dead_run dev ok (kv_raise e)"
  by (simp add: dead_run_def)

lemma dead_bind [dead_rules]:
  assumes "dead_run dev True m" and "\<And>x. dead_run dev ok (f x)"
  shows "dead_run dev ok (kv_bind m f)"
  unfolding dead_run_def
proof (intro allI impI)
  fix s r s' assume run: "kv_bind m f s = (r, s')" and d: "ee_dead (dev s)"
  obtain q s1 where m: "m s = (q, s1)" by fastforce
  note D = dead_runD [OF assms(1) m d]
  show "ee_dead (dev s') \<and> ee_buf (dev s') = ee_buf (dev s) \<and> ee_cut (dev s') = ee_cut (dev s) \<and> (isl r \<or> ok)"
  proof (cases q)
    case (Inl e)
    with run m D show ?thesis by (auto simp: kv_bind_def)
  next
    case (Inr x)
    with run m have "f x s1 = (r, s')" by (simp add: kv_bind_def)
    from dead_runD [OF assms(2) this D(1)] D show ?thesis by auto
  qed
qed

lemma dead_then [dead_rules]:
  "dead_run dev True m \<Longrightarrow> dead_run dev ok m' \<Longrightarrow> dead_run dev ok (kv_then m m')"
  unfolding kv_then_def by (rule dead_bind)

lemma dead_read [dead_rules]: "dead_dev True (kv_read off n)"
  by (auto simp: dead_run_def kv_read_def split: sum.splits)

lemma dead_ee_run: "ee_dead d \<Longrightarrow> ee_run ps d = ((if ps = [] then Inr () else Inl ()), d)"
  by (cases ps) (simp_all add: ee_program_def)

lemma dead_write: "dead_dev (dat = []) (kv_write off dat)"
  unfolding dead_run_def
proof (intro allI impI)
  fix s :: eeprom and r s' assume run: "kv_write off dat s = (r, s')" and d: "ee_dead s"
  define head where "head = (if off mod 4 = 0 then 0 else min (4 - off mod 4) (length dat))"
  define n where "n = (length dat - head) div 4"
  define ps where "ps = byte_programs off dat 0 head @ word_programs off dat head n @ byte_programs off dat (head + n * 4) (length dat)"
  have ne: "ps \<noteq> []" if "dat \<noteq> []"
    using that by (auto simp: ps_def n_def byte_programs_def word_programs_def)
  have "ee_write off dat s = (if length (ee_buf s) < off + length dat then (Inl (), s)
      else ee_run ps (if off mod 4 \<noteq> 0 \<or> length dat mod 4 \<noteq> 0 then s\<lparr>ee_unaligned := ee_unaligned s + 1\<rparr> else s))"
    by (simp add: ee_write_def ps_def n_def head_def Let_def)
  then show "ee_dead s' \<and> ee_buf s' = ee_buf s \<and> ee_cut s' = ee_cut s \<and> (isl r \<or> dat = [])"
    using run d ne by (auto simp: kv_write_def dead_ee_run split: if_splits sum.splits prod.splits)
qed

lemma dead_write_any [dead_rules]: "dead_dev True (kv_write off dat)"
  using dead_write [of dat off] by (auto simp: dead_run_def)

lemma dead_on_dev [dead_rules]: "dead_dev ok m \<Longrightarrow> dead_run fst ok (on_dev m)"
  by (auto simp: dead_run_def on_dev_def split: prod.splits)

lemma dead_ram [dead_rules]: "dead_run fst True kv_ram" "dead_run fst True (kv_modify_ram f)"
  by (auto simp: dead_run_def kv_ram_def kv_modify_ram_def)

lemma dead_if [dead_rules]:
  "(b \<Longrightarrow> dead_run dev ok m) \<Longrightarrow> (\<not> b \<Longrightarrow> dead_run dev ok m') \<Longrightarrow> dead_run dev ok (if b then m else m')"
  by simp

lemma dead_option [dead_rules]:
  "(v = None \<Longrightarrow> dead_run dev ok m) \<Longrightarrow> (\<And>x. v = Some x \<Longrightarrow> dead_run dev ok (f x)) \<Longrightarrow> dead_run dev ok (case v of None \<Rightarrow> m | Some x \<Rightarrow> f x)"
  by (cases v) simp_all

lemma dead_pair [dead_rules]:
  "(\<And>x y. dead_run dev ok (f x y)) \<Longrightarrow> dead_run dev ok (case p of (x, y) \<Rightarrow> f x y)"
  by (cases p) simp

lemma dead_sum [dead_rules]:
  "(\<And>x. v = Inl x \<Longrightarrow> dead_run dev ok (f x)) \<Longrightarrow> (\<And>x. v = Inr x \<Longrightarrow> dead_run dev ok (g x)) \<Longrightarrow> dead_run dev ok (case v of Inl x \<Rightarrow> f x | Inr x \<Rightarrow> g x)"
  by (cases v) simp_all

lemma dead_let [dead_rules]: "dead_run dev ok (f x) \<Longrightarrow> dead_run dev ok (let y = x in f y)"
  by simp

section \<open>The codec on a dead part\<close>

lemma dead_active [dead_rules]: "dead_dev True (active cap)"
  unfolding active_def read_gen_def by (intro dead_rules)

lemma dead_scan_loop: "dead_dev True (scan_loop base area target o' found)"
proof (induction base area target o' found rule: scan_loop.induct)
  case (1 base area target o' found)
  then show ?case by (subst scan_loop.simps) (intro dead_rules; simp)
qed

lemma dead_scan [dead_rules]: "dead_dev True (scan_half base area target)"
  unfolding scan_half_def by (rule dead_scan_loop)

lemma dead_walk_loop: "dead_dev True (walk_loop base area o' latest)"
proof (induction base area o' latest rule: walk_loop.induct)
  case (1 base area o' latest)
  then show ?case by (subst walk_loop.simps) (intro dead_rules; simp)
qed

lemma dead_walk [dead_rules]: "dead_dev True (walk_latest base area)"
  unfolding walk_latest_def by (rule dead_walk_loop)

lemma dead_small [dead_rules]:
  "dead_dev True (clear_word at)" "dead_dev True (write_gen cap h g)" "dead_dev True (kv_init cap)"
  unfolding clear_word_def write_gen_def kv_init_def Let_def by (intro dead_rules)+

text \<open>An append programs at least the second word of the header: it cannot succeed.\<close>

lemma dead_append [dead_rules]: "dead_dev False (append_end base area free key v)"
proof -
  have ne: "take 4 (record_bytes key v) \<noteq> []"
    by (simp add: record_bytes_def Let_def u16_le_def)
  have "dead_dev False (kv_write off (take 4 (record_bytes key v)))" for off
    using dead_write [of "take 4 (record_bytes key v)" off] ne by simp
  then show ?thesis
    unfolding append_end_def clear_word_def kv_append_def Let_def by (intro dead_rules)
qed

lemma dead_blank_words: "dead_dev True (blank_words at chunk w budget)"
proof (induction at chunk w budget rule: blank_words.induct)
  case (1 at chunk w budget)
  then show ?case by (subst blank_words.simps) (intro dead_rules; simp)
qed

lemma dead_blank_loop: "dead_dev True (blank_loop base len o' budget)"
proof (induction base len o' budget rule: blank_loop.induct)
  case (1 base len o' budget)
  then show ?case by (subst blank_loop.simps) (intro dead_rules dead_blank_words; simp)
qed

lemma dead_blank [dead_rules]:
  "dead_dev True (blank_step_span base len from budget)" "dead_dev True (blank at len)"
  unfolding blank_def blank_step_span_def by (intro dead_rules dead_blank_loop)+

lemma dead_copy_loop [dead_rules]: "dead_dev True (copy_loop src dst half src_free latest o' wr)"
proof (induction src dst half src_free latest o' wr rule: copy_loop.induct)
  case (1 src dst half src_free latest o' wr)
  then show ?case by (subst copy_loop.simps) (intro dead_rules; simp)
qed

lemma dead_flip [dead_rules]: "dead_dev True (flip cap h g)"
  unfolding flip_def Let_def by (intro dead_rules)

section \<open>The incremental flip on a dead part\<close>

abbreviation still :: "eeprom \<Rightarrow> eeprom \<Rightarrow> bool" where
  "still d d' \<equiv> ee_dead d' \<and> ee_buf d' = ee_buf d \<and> ee_cut d' = ee_cut d"

lemma dead_fs_copy_rec:
  "fs_copy_rec src dst sz budget d st = (r, (d', st')) \<Longrightarrow> ee_dead d \<Longrightarrow> still d d'"
proof (induction src dst sz budget d st rule: fs_copy_rec.induct)
  case (1 src dst sz budget d st)
  show ?case
  proof (cases "fs_rec_copied st < sz \<and> budget \<noteq> 0")
    case False
    with "1.prems" show ?thesis by (auto simp: fs_copy_rec.simps [of src dst sz budget] split: if_splits)
  next
    case True
    define chunk where "chunk = min (sz - fs_rec_copied st) (min (budget * 4) U32_MAX)"
    obtain r1 d1 where rd: "kv_read (src + fs_read_off st + fs_rec_copied st) chunk d = (r1, d1)" by fastforce
    note D1 = dead_runD [OF dead_read rd "1.prems"(2)]
    show ?thesis
    proof (cases r1)
      case (Inl e)
      with True rd "1.prems" D1 show ?thesis by (auto simp: Let_def fs_copy_rec.simps [of src dst sz budget] chunk_def)
    next
      case (Inr tmp)
      obtain r2 d2 where wr: "kv_write (dst + fs_write_off st + fs_rec_copied st) tmp d1 = (r2, d2)" by fastforce
      note D2 = dead_runD [OF dead_write_any wr D1(1)]
      show ?thesis
      proof (cases r2)
        case (Inl e)
        with True rd Inr wr "1.prems" D1 D2 show ?thesis
          by (auto simp: Let_def fs_copy_rec.simps [of src dst sz budget] chunk_def)
      next
        case R2: (Inr u)
        have "fs_copy_rec src dst sz (budget - words chunk) d2 (st\<lparr>fs_rec_copied := fs_rec_copied st + chunk\<rparr>) = (r, (d', st'))"
          using True rd Inr wr R2 "1.prems" by (simp add: Let_def fs_copy_rec.simps [of src dst sz budget] chunk_def)
        then have "still d2 d'"
          using "1.IH" [OF _ _ chunk_def rd [symmetric] Inr wr [symmetric] R2] True D2(1) by blast
        with D1 D2 show ?thesis by simp
      qed
    qed
  qed
qed

lemma dead_fs_turn:
  assumes "fs_turn src dst half budget d st = (r, (d', st'))" and "ee_dead d"
  shows "still d d'"
proof -
  obtain r1 d1 where rd: "kv_read (src + fs_read_off st) KV_HEADER d = (r1, d1)" by fastforce
  note D1 = dead_runD [OF dead_read rd assms(2)]
  show ?thesis
    using assms D1 rd
    by (auto simp: fs_turn_def Let_def split: if_splits sum.splits prod.splits option.splits dest!: dead_fs_copy_rec)
qed

lemma dead_fs_copy: "fs_copy src dst half budget d st = (r, (d', st')) \<Longrightarrow> ee_dead d \<Longrightarrow> still d d'"
proof (induction src dst half budget d st rule: fs_copy.induct)
  case (1 src dst half budget d st)
  obtain t d1 st1 where turn: "fs_turn src dst half budget d st = (t, (d1, st1))" by (metis prod.exhaust)
  note F = dead_fs_turn [OF turn "1.prems"(2)]
  show ?case
  proof (cases t)
    case (Inl r1)
    with "1.prems" turn F show ?thesis by (auto simp: fs_copy.simps [of src])
  next
    case (Inr b)
    with "1.prems" turn have "fs_copy src dst half b d1 st1 = (r, (d', st'))" by (simp add: fs_copy.simps [of src])
    with "1.IH" [OF turn [symmetric] Inr refl] F show ?thesis by simp
  qed
qed

lemma dead_lam: "(\<And>d st r s'. f d st = (r, s') \<Longrightarrow> ee_dead d \<Longrightarrow> still d (fst s')) \<Longrightarrow> dead_run fst True (\<lambda>(d, st). f d st)"
  by (auto simp: dead_run_def)

lemma dead_flip_step: "dead_run fst True (flip_step cap budget)"
proof -
  have c: "dead_run fst True (\<lambda>(d, st). if fs_blank_off st < half then (Inr True, (d, st)) else fs_copy src dst half b d st)"
    for src dst half b
    by (rule dead_lam) (auto split: if_splits dest: dead_fs_copy)
  show ?thesis
    unfolding flip_step_def flip_fresh_def Let_def by (intro dead_rules c)
qed

lemma dead_flip_drive: "flip_drive cap d st = (r, (d', st')) \<Longrightarrow> ee_dead d \<Longrightarrow> still d d'"
proof (induction cap d st rule: flip_drive.induct)
  case (1 cap d st)
  obtain r1 d1 st1 where s: "flip_step cap U32_MAX (d, st) = (r1, (d1, st1))" by (metis prod.exhaust)
  note D = dead_runD [OF dead_flip_step s, unfolded fst_conv, OF "1.prems"(2)]
  show ?case
  proof (cases "r1 = Inr True")
    case True
    with "1.prems" s have "flip_drive cap d1 st1 = (r, (d', st'))" by (simp add: flip_drive.simps [of cap])
    with "1.IH" [OF s [symmetric] True refl] D show ?thesis by simp
  next
    case False
    with "1.prems" s D show ?thesis by (auto simp: flip_drive.simps [of cap] split: sum.splits if_splits)
  qed
qed

lemma dead_tail_loop: "dead_dev True (tail_loop src dst half o' wr)"
proof (induction src dst half o' wr rule: tail_loop.induct)
  case (1 src dst half o' wr)
  then show ?case by (subst tail_loop.simps) (intro dead_rules; simp)
qed

lemma dead_flip_commit [dead_rules]: "dead_dev True (flip_commit cap st)"
  unfolding dead_run_def
proof (intro allI impI)
  fix d :: eeprom and r d' assume run: "flip_commit cap st d = (r, d')" and dead: "ee_dead d"
  obtain r1 d1 st1 where dr: "flip_drive cap d st = (r1, (d1, st1))" by (metis prod.exhaust)
  note D = dead_flip_drive [OF dr dead]
  have T: "dead_dev True (kv_then (tail_loop src dst half o' wr) (write_gen cap h g))" for src dst half o' wr h g
    by (intro dead_rules dead_tail_loop)
  show "ee_dead d' \<and> ee_buf d' = ee_buf d \<and> ee_cut d' = ee_cut d \<and> (isl r \<or> True)"
  proof (cases r1)
    case (Inl e)
    with run dr D show ?thesis by (auto simp: flip_commit_def)
  next
    case (Inr u)
    with run dr dead_runD [OF T _ D [THEN conjunct1]] D show ?thesis by (auto simp: flip_commit_def)
  qed
qed

lemma dead_append_after_flip [dead_rules]: "dead_dev False (append_after_flip cap key v fin)"
  unfolding append_after_flip_def Let_def by (intro dead_rules)

text \<open>A write on a dead part fails and changes no cell.\<close>

lemma dead_set_bytes_with: "dead_run fst False (set_bytes_with cap key v)"
  unfolding set_bytes_with_def Let_def by (intro dead_rules)

end
