(* ===== verification/Fw_Watermark.thy ===== *)
theory Fw_Watermark
  imports Fw_Fhss Kv_Dead
begin

text \<open>
  The durable watermark of the TX counter: the store of \<open>Fw_Storage\<close>, shared with every other user
  and cut by power losses, is a durable cell in the sense of \<open>Net_TxCounter\<close>. The interpretation
  discharges that contract on the store's own definitions; each method of \<open>Net\<close> that touches the
  counter is then a step of the device of \<open>Net_TxCounter\<close>.
\<close>

section \<open>Writes and reads of the network records\<close>

text \<open>A write, whether the part still has power or not.\<close>

lemma fw_set_bytes_any:
  assumes inv: "fw_inv k" and run: "fw_set_bytes key v k = (r, k')"
  shows "fw_inv k' \<and> fk_capacity k' = fk_capacity k \<and> fw_abs k' = (if r = Inr () then kv_put key v (fw_abs k) else fw_abs k)"
proof (cases "fw_off k \<and> \<not> fk_frozen k")
  case True
  obtain q d p where m: "set_bytes_with (fk_capacity k) key v (fk_storage k, ms_flip (fk_maint k)) = (q, (d, p))" by (metis prod.exhaust)
  from dead_runD [OF dead_set_bytes_with m] True
  have D: "ee_dead d" "ee_buf d = ee_buf (fk_storage k)" "ee_cut d = ee_cut (fk_storage k)" "isl q" by simp_all
  from run True m have k': "r = map_err q" "k' = k\<lparr>fk_storage := d, fk_maint := (fk_maint k)\<lparr>ms_flip := p\<rparr>\<rparr>"
    by (auto simp: fw_set_bytes_def fw_writable_def fw_with_pending_def)
  from D(4) k'(1) have "r \<noteq> Inr ()" by (cases q) auto
  with inv D k' show ?thesis by (simp add: fw_inv_def fw_abs_def clean_def)
next
  case False
  show ?thesis
  proof (cases "fk_frozen k")
    case True
    with run inv show ?thesis by (auto simp: fw_set_bytes_def fw_writable_def)
  next
    case F: False
    with False have "\<not> fw_off k" by blast
    from fw_set_bytes_post [OF inv this run] show ?thesis .
  qed
qed

abbreviation nv_ok :: "nv \<Rightarrow> bool" where
  "nv_ok s \<equiv> fw_inv (nv_kv s)"

abbreviation net_abs :: "nv \<Rightarrow> u8 \<Rightarrow> bytes option" where
  "net_abs s l \<equiv> fw_abs (nv_kv s) (ns_key NS_NET l)"

lemma net_set_post:
  assumes "nv_ok s" and "net_set l v s = (ok, s')"
  shows "nv_ok s'" and "net_abs s' l' = (if ok \<and> l' = l then (if v = [] then None else Some v) else net_abs s l')"
proof -
  obtain r k' where r: "fw_set_bytes (ns_key NS_NET l) v (nv_kv s) = (r, k')" by fastforce
  with assms(2) have s': "nv_kv s' = k'" "ok = (r = Inr ())"
    by (auto simp: net_set_def scoped_set_bytes_def nv_set_bytes_def)
  from fw_set_bytes_any [OF assms(1) r] s'
  show "nv_ok s'" "net_abs s' l' = (if ok \<and> l' = l then (if v = [] then None else Some v) else net_abs s l')"
    by (auto simp: kv_put_def ns_key_inject)
qed

lemma net_get_abs: "nv_ok s \<Longrightarrow> net_get l n s = Inr (map_option (\<lambda>v. (length v, take n v)) (net_abs s l))"
  by (simp add: net_get_def scoped_get_bytes_def nv_get_bytes_def fw_get_bytes_abs)

text \<open>The 32-bit value of a record of exactly four bytes.\<close>

definition rec_u32 :: "bytes option \<Rightarrow> u32 option" where
  "rec_u32 r = (case r of None \<Rightarrow> None
      | Some v \<Rightarrow> if length v = 4 then Some (le_u32 (v ! 0) (v ! 1) (v ! 2) (v ! 3)) else None)"

lemma read_u32_abs: "nv_ok s \<Longrightarrow> read_u32 l s = rec_u32 (net_abs s l)"
  by (simp add: read_u32_def net_get_abs rec_u32_def split: option.splits)

lemma rec_u32_le [simp]: "rec_u32 (Some (u32_le w)) = Some w" "rec_u32 None = None"
  by (simp_all add: rec_u32_def) (simp add: u32_le_def)

lemma u32_le_ne [simp]: "u32_le w \<noteq> []"
  by (simp add: u32_le_def)

lemma read_lane_record_abs:
  "nv_ok s \<Longrightarrow> net_abs s l = Some (lane_record a seen kcv) \<Longrightarrow>
     read_lane_record l s = Some \<lparr>lr_addr = a, lr_seen = seen, lr_kcv = kcv\<rparr>"
  by (simp add: read_lane_record_def net_get_abs lane_record_def Let_def u32_le_def)

section \<open>The watermark as a durable cell\<close>

definition wm_load :: "nv \<Rightarrow> u32 option" where
  "wm_load s = read_u32 KEY_WATERMARK s"

definition wm_persists :: "nv \<Rightarrow> u32 \<Rightarrow> bool \<Rightarrow> nv \<Rightarrow> bool" where
  "wm_persists s w ok s' \<longleftrightarrow> net_set KEY_WATERMARK (u32_le w) s = (ok, s')"

definition wm_reboots :: "nv \<Rightarrow> nv \<Rightarrow> bool" where
  "wm_reboots s s' \<longleftrightarrow> (\<exists>pc. clean_event (PowerCycle pc) \<and> nv_kv s' = fw_cycle pc (nv_kv s))"

text \<open>Any other use of the store: it keeps the store's invariant and the watermark's record.\<close>

definition wm_others :: "nv \<Rightarrow> nv \<Rightarrow> bool" where
  "wm_others s s' \<longleftrightarrow> nv_ok s' \<and> net_abs s' KEY_WATERMARK = net_abs s KEY_WATERMARK"

lemma wm_load_abs: "nv_ok s \<Longrightarrow> wm_load s = rec_u32 (net_abs s KEY_WATERMARK)"
  by (simp add: wm_load_def read_u32_abs)

lemma wm_persists_post:
  assumes "nv_ok s" and "wm_persists s w ok s'"
  shows "nv_ok s'" and "wm_load s' = (if ok then Some w else wm_load s)"
proof -
  from assms(2) have "net_set KEY_WATERMARK (u32_le w) s = (ok, s')" by (simp add: wm_persists_def)
  note P = net_set_post [OF assms(1) this]
  show "nv_ok s'" by (rule P(1))
  show "wm_load s' = (if ok then Some w else wm_load s)"
    using P(1) P(2) [of KEY_WATERMARK] assms(1) by (simp add: wm_load_abs)
qed

lemma wm_reboots_post:
  assumes "nv_ok s" and "wm_reboots s s'"
  shows "nv_ok s'" and "wm_load s' = wm_load s"
proof -
  from assms(2) obtain pc where c: "clean_event (PowerCycle pc)" and s': "nv_kv s' = fw_cycle pc (nv_kv s)"
    by (auto simp: wm_reboots_def)
  note C = fw_cycle_post [OF assms(1) c]
  show "nv_ok s'" using C s' by simp
  then show "wm_load s' = wm_load s" using C s' assms(1) by (simp add: wm_load_abs)
qed

lemma wm_others_post:
  assumes "nv_ok s" and "wm_others s s'"
  shows "nv_ok s'" and "wm_load s' = wm_load s"
  using assms by (simp_all add: wm_others_def wm_load_abs)

interpretation wm: durable_cell "\<lambda>s. nv_ok s" wm_load wm_persists wm_reboots wm_others
proof
  show "wm_load s' = Some w" if "nv_ok s" "wm_persists s w True s'" for s w s' using wm_persists_post(2) [OF that] by simp
  show "wm_load s' = wm_load s \<or> wm_load s' = Some w" if "nv_ok s" "wm_persists s w False s'" for s w s'
    using wm_persists_post(2) [OF that] by simp
qed (fact wm_persists_post(1) wm_reboots_post(2) wm_reboots_post(1) wm_others_post(2) wm_others_post(1))+

abbreviation wm_step :: "nv tx_device \<Rightarrow> nv tx_device \<Rightarrow> bool" where
  "wm_step \<equiv> tx_step wm_load wm_persists wm_reboots wm_others"

lemma net_set_others: "nv_ok s \<Longrightarrow> l \<noteq> KEY_WATERMARK \<Longrightarrow> net_set l v s = (ok, s') \<Longrightarrow> wm_others s s'"
  using net_set_post [of s l v ok s'] by (auto simp: wm_others_def)

section \<open>The methods of the network layer as steps\<close>

text \<open>The device of \<open>Net_TxCounter\<close> inside a running \<open>Net\<close>, with the counters handed out so far.\<close>

definition node_dev :: "net \<Rightarrow> u32 list \<Rightarrow> nv tx_device" where
  "node_dev n sent = \<lparr>dev_store = nt_kv n, dev_txc = Some (nt_txc n), dev_sent = sent\<rparr>"

lemma node_dev_simps [simp]:
  "dev_store (node_dev n sent) = nt_kv n" "dev_txc (node_dev n sent) = Some (nt_txc n)" "dev_sent (node_dev n sent) = sent"
  by (simp_all add: node_dev_def)

lemma alloc_counter_step:
  assumes "alloc_counter n = (r, n')"
  shows "r = None \<Longrightarrow> n' = n" and "r = Some c \<Longrightarrow> wm_step (node_dev n sent) (node_dev n' (c # sent))"
    and "n' = n\<lparr>nt_txc := nt_txc n', nt_kv := nt_kv n'\<rparr>"
proof -
  obtain q t where a: "tx_alloc (nt_txc n) = (q, t)" by fastforce
  show "r = None \<Longrightarrow> n' = n"
    using assms a by (auto simp: alloc_counter_def tx_alloc_def Let_def split: option.splits prod.splits if_splits)
  show "n' = n\<lparr>nt_txc := nt_txc n', nt_kv := nt_kv n'\<rparr>"
    using assms a by (auto simp: alloc_counter_def split: option.splits prod.splits)
  assume r: "r = Some c"
  with assms a obtain pw where q: "q = Some (c, pw)" by (auto simp: alloc_counter_def split: option.splits prod.splits)
  show "wm_step (node_dev n sent) (node_dev n' (c # sent))"
  proof (cases pw)
    case None
    with q a assms r have "n' = n\<lparr>nt_txc := t\<rparr>" by (simp add: alloc_counter_def)
    with tx_step.alloc [of "node_dev n sent" "nt_txc n" c t] a q None show ?thesis by (simp add: node_dev_def)
  next
    case (Some w)
    obtain ok kv' where p: "net_set KEY_WATERMARK (u32_le w) (nt_kv n) = (ok, kv')" by fastforce
    with Some q a assms r have "n' = n\<lparr>nt_txc := (if ok then tx_reserve_persisted t w else tx_lock t), nt_kv := kv'\<rparr>"
      by (simp add: alloc_counter_def)
    with tx_step.alloc_persist [of "node_dev n sent" "nt_txc n" c w t wm_persists ok kv'] a q Some p show ?thesis
      by (simp add: node_dev_def wm_persists_def)
  qed
qed

lemma raise_tx_floor_step:
  assumes "raise_tx_floor floor n = (r, n')"
  shows "wm_step (node_dev n sent) (node_dev n' sent)" and "n' = n\<lparr>nt_txc := nt_txc n', nt_kv := nt_kv n'\<rparr>"
proof -
  let ?t = "nt_txc n"
  show "n' = n\<lparr>nt_txc := nt_txc n', nt_kv := nt_kv n'\<rparr>"
    using assms by (auto simp: raise_tx_floor_def Let_def split: prod.splits)
  show "wm_step (node_dev n sent) (node_dev n' sent)"
  proof (cases "txc_locked ?t \<or> floor \<le> txc_counter ?t \<or> floor < txc_reserve_limit ?t")
    case True
    obtain b t' where t': "tx_raise_to ?t floor (\<lambda>_. False) = (b, t')" by fastforce
    from True t' assms have "n' = n\<lparr>nt_txc := t'\<rparr>" by (auto simp: raise_tx_floor_def Let_def)
    with tx_step.raise_covered [of "node_dev n sent" ?t floor "\<lambda>_. False" b t'] True t' show ?thesis by (simp add: node_dev_def)
  next
    case False
    let ?w = "sat_add floor RESERVE"
    obtain ok kv' where p: "net_set KEY_WATERMARK (u32_le ?w) (nt_kv n) = (ok, kv')" by fastforce
    let ?ok = "ok \<and> wm_load kv' = Some ?w"
    obtain b t' where t': "tx_raise_to ?t floor (\<lambda>_. ?ok) = (b, t')" by fastforce
    have eq: "tx_raise_to ?t floor (\<lambda>w. ok \<and> wm_load kv' = Some w) = (b, t')"
      using t' by (simp add: tx_raise_to_def Let_def cong: if_cong)
    from False t' assms p have "n' = n\<lparr>nt_txc := t', nt_kv := kv'\<rparr>"
      by (auto simp: raise_tx_floor_def Let_def persist_watermark_def wm_load_def)
    with tx_step.raise_persist [of "node_dev n sent" ?t floor wm_persists ok kv' wm_load b t'] False p eq show ?thesis
      by (simp add: node_dev_def wm_persists_def not_le not_less)
  qed
qed

text \<open>The boot of \<open>Net::new\<close>.\<close>

lemma net_new_step:
  "wm_step \<lparr>dev_store = kv, dev_txc = None, dev_sent = sent\<rparr> (node_dev (net_new cfg kv) sent)"
proof -
  let ?d = "\<lparr>dev_store = kv, dev_txc = None, dev_sent = sent\<rparr>" and ?p = "net_prior_use cfg kv"
  obtain t pw where r: "tx_resume (wm_load kv) ?p = (t, pw)" by fastforce
  show ?thesis
  proof (cases pw)
    case None
    with r have "node_dev (net_new cfg kv) sent = ?d\<lparr>dev_txc := Some t\<rparr>"
      by (simp add: node_dev_def net_new_def boot_counter_def wm_load_def Let_def)
    with tx_step.boot_closed [of ?d wm_load ?p t] r None show ?thesis by simp
  next
    case (Some w)
    obtain ok kv' where p: "net_set KEY_WATERMARK (u32_le w) kv = (ok, kv')" by fastforce
    with r Some have "node_dev (net_new cfg kv) sent =
        ?d\<lparr>dev_store := kv', dev_txc := Some (if ok \<and> wm_load kv' = Some w then t else tx_lock t)\<rparr>"
      by (simp add: node_dev_def net_new_def boot_counter_def wm_load_def Let_def persist_watermark_def)
    with tx_step.boot [of ?d wm_load ?p t w wm_persists ok kv'] r Some p show ?thesis by (simp add: wm_persists_def)
  qed
qed

section \<open>A concrete device\<close>

definition demo_nv :: nv where
  "demo_nv = \<lparr>nv_kv = demo_kv, nv_wake = False\<rparr>"

lemma demo_nv_ok: "nv_ok demo_nv"
  using demo_kv_inv by (simp add: demo_nv_def)

definition demo_cfg :: net_config where
  "demo_cfg = \<lparr>nc_addr = 0x11, nc_key = replicate 16 1, nc_band = Eu868, nc_keys_stored = False\<rparr>"

text \<open>The first boot of the concrete device.\<close>

lemma demo_boot:
  "\<not> txc_locked (nt_txc (net_new demo_cfg demo_nv))" "txc_counter (nt_txc (net_new demo_cfg demo_nv)) = 1"
  "txc_reserve_limit (nt_txc (net_new demo_cfg demo_nv)) = 1025"
proof -
  have abs: "net_abs demo_nv l = None" for l by (simp add: demo_nv_def demo_kv_abs)
  have r: "read_u32 l demo_nv = None" for l using read_u32_abs [OF demo_nv_ok] abs by simp
  have p: "\<not> net_prior_use demo_cfg demo_nv"
    by (simp add: net_prior_use_def demo_cfg_def has_record_def net_get_abs [OF demo_nv_ok] abs list_ex_iff)
  have t: "tx_resume None False = (\<lparr>txc_counter = 1, txc_reserve_limit = 1025, txc_locked = False\<rparr>, Some 1025)"
    by (simp add: tx_resume_def sat_add_def RESERVE_def)
  obtain ok kv' where s: "net_set KEY_WATERMARK (u32_le 1025) demo_nv = (ok, kv')" by fastforce
  have ok using s demo_set [of "u32_le 1025"]
    by (auto simp: net_set_def scoped_set_bytes_def nv_set_bytes_def demo_nv_def KEY_WATERMARK_def split: prod.splits)
  with net_set_post [OF demo_nv_ok s] have "read_u32 KEY_WATERMARK kv' = Some 1025" by (simp add: read_u32_abs)
  with \<open>ok\<close> s r p t show "\<not> txc_locked (nt_txc (net_new demo_cfg demo_nv))" "txc_counter (nt_txc (net_new demo_cfg demo_nv)) = 1"
    "txc_reserve_limit (nt_txc (net_new demo_cfg demo_nv)) = 1025"
    by (simp_all add: net_new_def boot_counter_def persist_watermark_def Let_def)
qed

end
