(* ===== verification/Fw_Peers.thy ===== *)
theory Fw_Peers
  imports Fw_Watermark
begin

text \<open>
  The peer table of \<open>Net\<close>: its invariant (every peer at a valid address, no address and no lane
  record shared by two peers), kept by every method, and the methods that leave the TX counter and
  its watermark alone (\<open>quiet\<close>).
\<close>

section \<open>Looking up slots\<close>

lemma slot_of_Some: "slot_of a ps = Some i \<Longrightarrow> i < length ps \<and> (\<exists>p. ps ! i = Some p \<and> pe_addr p = a)"
  by (induction ps arbitrary: i) (auto split: if_splits option.splits)

lemma slot_of_None: "slot_of a ps = None \<Longrightarrow> i < length ps \<Longrightarrow> ps ! i = Some p \<Longrightarrow> pe_addr p \<noteq> a"
proof (induction ps arbitrary: i)
  case (Cons x xs)
  then show ?case by (cases i) (auto split: if_splits option.splits)
qed simp

lemma first_none_Some: "first_none ps = Some i \<Longrightarrow> i < length ps \<and> ps ! i = None"
  by (induction ps arbitrary: i) (auto split: if_splits)

section \<open>The invariant\<close>

text \<open>The lane record of a peer, as an index from \<open>KEY_LASTSEEN_BASE\<close>.\<close>

definition lane_ix :: "peer \<Rightarrow> nat" where
  "lane_ix p = unat (pe_lane_local p - KEY_LASTSEEN_BASE)"

definition peers_ok :: "u32 \<Rightarrow> peer option list \<Rightarrow> bool" where
  "peers_ok addr ps \<longleftrightarrow> length ps = MAX_PEERS \<and>
     (\<forall>i < length ps. \<forall>p. ps ! i = Some p \<longrightarrow> peer_addr_valid (pe_addr p) addr \<and> lane_ix p < MAX_PEERS) \<and>
     (\<forall>i < length ps. \<forall>j < length ps. \<forall>p q. ps ! i = Some p \<longrightarrow> ps ! j = Some q \<longrightarrow> i \<noteq> j \<longrightarrow>
        pe_addr p \<noteq> pe_addr q \<and> lane_ix p \<noteq> lane_ix q)"

lemma peers_okD:
  assumes "peers_ok addr ps"
  shows "length ps = MAX_PEERS"
    and "i < length ps \<Longrightarrow> ps ! i = Some p \<Longrightarrow> peer_addr_valid (pe_addr p) addr \<and> lane_ix p < MAX_PEERS"
    and "i < length ps \<Longrightarrow> j < length ps \<Longrightarrow> ps ! i = Some p \<Longrightarrow> ps ! j = Some q \<Longrightarrow> i \<noteq> j \<Longrightarrow>
      pe_addr p \<noteq> pe_addr q \<and> lane_ix p \<noteq> lane_ix q"
  using assms by (auto simp: peers_ok_def)

lemma peers_ok_empty: "peers_ok addr (replicate MAX_PEERS None)"
  by (simp add: peers_ok_def)

lemma peers_okI:
  assumes "length ps = MAX_PEERS"
    and "\<And>i p. i < length ps \<Longrightarrow> ps ! i = Some p \<Longrightarrow> peer_addr_valid (pe_addr p) addr \<and> lane_ix p < MAX_PEERS"
    and "\<And>i j p q. i < length ps \<Longrightarrow> j < length ps \<Longrightarrow> ps ! i = Some p \<Longrightarrow> ps ! j = Some q \<Longrightarrow> i < j \<Longrightarrow>
      pe_addr p \<noteq> pe_addr q \<and> lane_ix p \<noteq> lane_ix q"
  shows "peers_ok addr ps"
  unfolding peers_ok_def
proof (intro conjI allI impI)
  fix i j p q assume a: "i < length ps" "j < length ps" "ps ! i = Some p" "ps ! j = Some q" "i \<noteq> j"
  then consider "i < j" | "j < i" by linarith
  then have "pe_addr p \<noteq> pe_addr q \<and> lane_ix p \<noteq> lane_ix q"
  proof cases
    case 1
    with assms(3) [OF a(1-4)] show ?thesis by simp
  next
    case 2
    with assms(3) [OF a(2,1,4,3)] show ?thesis by metis
  qed
  then show "pe_addr p \<noteq> pe_addr q" "lane_ix p \<noteq> lane_ix q" by simp_all
qed (use assms in auto)

lemma peers_ok_put:
  assumes "peers_ok addr ps" and "i < length ps" and "peer_addr_valid (pe_addr p) addr" and "lane_ix p < MAX_PEERS"
    and other: "\<And>j q. j < length ps \<Longrightarrow> j \<noteq> i \<Longrightarrow> ps ! j = Some q \<Longrightarrow> pe_addr q \<noteq> pe_addr p \<and> lane_ix q \<noteq> lane_ix p"
  shows "peers_ok addr (ps[i := Some p])"
proof (rule peers_okI)
  note D = peers_okD [OF assms(1)]
  show "length (ps[i := Some p]) = MAX_PEERS" using D(1) by simp
  show "peer_addr_valid (pe_addr q) addr \<and> lane_ix q < MAX_PEERS" if "j < length (ps[i := Some p])" "ps[i := Some p] ! j = Some q" for j q
    using that D(2) assms(3,4) by (cases "j = i") auto
  show "pe_addr x \<noteq> pe_addr y \<and> lane_ix x \<noteq> lane_ix y"
    if "j < length (ps[i := Some p])" "k < length (ps[i := Some p])" "ps[i := Some p] ! j = Some x" "ps[i := Some p] ! k = Some y" "j < k"
    for j k x y
  proof (cases "j = i")
    case True
    with that other [of k y] show ?thesis using assms(2) by auto
  next
    case J: False
    show ?thesis
    proof (cases "k = i")
      case True
      with that J other [of j x] show ?thesis using assms(2) by auto
    next
      case False
      with that J D(3) [of j k x y] show ?thesis by simp
    qed
  qed
qed

lemma peers_ok_same:
  assumes "peers_ok addr ps" and "i < length ps" and "ps ! i = Some p" and "pe_addr p' = pe_addr p" and "pe_lane_local p' = pe_lane_local p"
  shows "peers_ok addr (ps[i := Some p'])"
proof (rule peers_ok_put [OF assms(1,2)])
  have l: "lane_ix p' = lane_ix p" using assms(5) by (simp add: lane_ix_def)
  from peers_okD(2) [OF assms(1-3)] show "peer_addr_valid (pe_addr p') addr" "lane_ix p' < MAX_PEERS"
    using assms(4) l by simp_all
  fix j q assume "j < length ps" "j \<noteq> i" "ps ! j = Some q"
  from peers_okD(3) [OF assms(1) this(1) assms(2) this(3) assms(3) this(2)] show "pe_addr q \<noteq> pe_addr p' \<and> lane_ix q \<noteq> lane_ix p'"
    using assms(4) l by simp
qed

lemma peers_ok_remove:
  assumes "peers_ok addr ps"
  shows "peers_ok addr (ps[i := None])"
proof (rule peers_okI)
  note D = peers_okD [OF assms]
  have old: "ps[i := None] ! j = Some q \<Longrightarrow> j < length ps \<Longrightarrow> ps ! j = Some q" for j q
    by (cases "j = i") auto
  show "length (ps[i := None]) = MAX_PEERS" using D(1) by simp
  show "peer_addr_valid (pe_addr q) addr \<and> lane_ix q < MAX_PEERS" if "j < length (ps[i := None])" "ps[i := None] ! j = Some q" for j q
    using that D(2) old by simp
  show "pe_addr x \<noteq> pe_addr y \<and> lane_ix x \<noteq> lane_ix y"
    if "j < length (ps[i := None])" "k < length (ps[i := None])" "ps[i := None] ! j = Some x" "ps[i := None] ! k = Some y" "j < k"
    for j k x y
    using that D(3) [of j k x y] old by simp
qed

text \<open>A lane record is never the watermark's.\<close>

lemma lane_local_ne: "lane_ix p < MAX_PEERS \<Longrightarrow> pe_lane_local p \<noteq> KEY_WATERMARK"
  by (auto simp: lane_ix_def MAX_PEERS_def KEY_LASTSEEN_BASE_def KEY_WATERMARK_def)

lemma lane_ix_of: "l < MAX_PEERS \<Longrightarrow> pe_lane_local p = KEY_LASTSEEN_BASE + of_nat l \<Longrightarrow> lane_ix p = l"
  by (simp add: lane_ix_def MAX_PEERS_def unat_of_nat)

text \<open>The mask of the locals in use has exactly the bits of the registered peers.\<close>

lemma used_foldl_bit:
  "bit (foldl (\<lambda>m p. m OR push_bit (unat (pe_lane_local p - KEY_LASTSEEN_BASE)) 1) m0 ps) (l :: nat) \<longleftrightarrow>
     bit (m0 :: u32) l \<or> l < 32 \<and> (\<exists>p \<in> set ps. lane_ix p = l)"
  by (induction ps arbitrary: m0) (auto simp: bit_simps lane_ix_def)

lemma used_locals_bit:
  assumes "l < 32"
  shows "bit (used_locals n) l \<longleftrightarrow> (\<exists>i < length (nt_peers n). \<exists>p. nt_peers n ! i = Some p \<and> lane_ix p = l)"
  using assms unfolding used_locals_def used_foldl_bit
  by (auto simp: map_filter_def in_set_conv_nth; metis option.sel option.discI)

section \<open>Methods that leave the counter alone\<close>

text \<open>\<open>quiet n n'\<close>: the counter kernel and the own address are untouched, and the invariants of the
  table and the store and the watermark's record are kept.\<close>

definition node_ok :: "net \<Rightarrow> bool" where
  "node_ok n \<longleftrightarrow> peers_ok (nt_addr n) (nt_peers n) \<and> nv_ok (nt_kv n)"

definition quiet :: "net \<Rightarrow> net \<Rightarrow> bool" where
  "quiet n n' \<longleftrightarrow> nt_txc n' = nt_txc n \<and> nt_addr n' = nt_addr n \<and>
     (node_ok n \<longrightarrow> node_ok n' \<and> net_abs (nt_kv n') KEY_WATERMARK = net_abs (nt_kv n) KEY_WATERMARK)"

named_theorems quiet_rules "methods that leave the TX counter alone"

lemma quiet_refl [quiet_rules, simp]: "quiet n n"
  by (simp add: quiet_def)

lemma quiet_trans: "quiet n n1 \<Longrightarrow> quiet n1 n2 \<Longrightarrow> quiet n n2"
  by (auto simp: quiet_def)

text \<open>Updates of the other fields.\<close>

lemma quiet_fields:
  "nt_txc n' = nt_txc n \<Longrightarrow> nt_addr n' = nt_addr n \<Longrightarrow> nt_peers n' = nt_peers n \<Longrightarrow> nt_kv n' = nt_kv n \<Longrightarrow> quiet n n'"
  by (simp add: quiet_def node_ok_def)

text \<open>A peer rewritten in place, with the record at its own local written when \<open>due\<close>.\<close>

lemma quiet_peer:
  assumes "peer_slot a n = Some i" and "nt_peers n ! i = Some p" and "pe_addr p' = pe_addr p" and "pe_lane_local p' = pe_lane_local p"
    and "nt_peers n' = (nt_peers n)[i := Some p']" and "nt_txc n' = nt_txc n" and "nt_addr n' = nt_addr n"
    and "nt_kv n' = nt_kv n \<or> (\<exists>v. nt_kv n' = snd (net_set (pe_lane_local p) v (nt_kv n)))"
  shows "quiet n n'"
proof -
  have i: "i < length (nt_peers n)" using slot_of_Some assms(1) by (auto simp: peer_slot_def)
  have "node_ok n' \<and> net_abs (nt_kv n') KEY_WATERMARK = net_abs (nt_kv n) KEY_WATERMARK" if ok: "node_ok n"
  proof -
    have po: "peers_ok (nt_addr n) (nt_peers n)" and kv: "nv_ok (nt_kv n)" using ok by (auto simp: node_ok_def)
    have "lane_ix p < MAX_PEERS" using peers_okD(2) [OF po i assms(2)] by simp
    then have ne: "pe_lane_local p \<noteq> KEY_WATERMARK" by (rule lane_local_ne)
    have "peers_ok (nt_addr n') (nt_peers n')" using peers_ok_same [OF po i assms(2-4)] assms(5,7) by simp
    moreover have "wm_others (nt_kv n) (nt_kv n')"
      using assms(8)
    proof (elim disjE exE)
      fix v assume "nt_kv n' = snd (net_set (pe_lane_local p) v (nt_kv n))"
      then show ?thesis using net_set_others [OF kv ne] by (metis prod.collapse)
    qed (simp add: wm_others_def kv)
    ultimately show ?thesis by (simp add: node_ok_def wm_others_def)
  qed
  with assms(6,7) show ?thesis by (simp add: quiet_def)
qed

lemma quiet_remove [quiet_rules]: "quiet n (snd (remove_peer a n))"
  by (auto simp: remove_peer_def set_peer_def quiet_def node_ok_def peers_ok_remove split: option.splits)

lemma quiet_set_pending [quiet_rules]: "quiet n (snd (set_pending a b n))"
proof (cases "peer_slot a n")
  case (Some i)
  then obtain p where p: "nt_peers n ! i = Some p" using slot_of_Some by (fastforce simp: peer_slot_def)
  show ?thesis
    by (rule quiet_peer [OF Some p, of "p\<lparr>pe_pending := b\<rparr>"]) (simp_all add: set_pending_def Some p set_peer_def)
qed (simp add: set_pending_def)

lemma quiet_raise_peer_floor [quiet_rules]: "quiet n (snd (raise_peer_floor enc a seen n))"
proof (cases "peer_slot a n")
  case (Some i)
  then obtain p where p: "nt_peers n ! i = Some p" using slot_of_Some by (fastforce simp: peer_slot_def)
  obtain moved l where l: "lane_raise (pe_lane p) seen = (moved, l)" by fastforce
  show ?thesis
    by (rule quiet_peer [OF Some p, of "p\<lparr>pe_lane := l\<rparr>"])
      (auto simp: raise_peer_floor_def Some p set_peer_def l Let_def)
qed (simp add: raise_peer_floor_def)

lemma quiet_reack [quiet_rules]: "quiet n (snd (lane_reack src n))"
proof (cases "peer_slot src n")
  case (Some i)
  then obtain p where p: "nt_peers n ! i = Some p" using slot_of_Some by (fastforce simp: peer_slot_def)
  obtain b l where l: "reack (pe_lane p) = (b, l)" by fastforce
  show ?thesis
    by (rule quiet_peer [OF Some p, of "p\<lparr>pe_lane := l\<rparr>"]) (simp_all add: lane_reack_def Some p set_peer_def l)
next
  case None
  then show ?thesis by (auto simp: lane_reack_def intro!: quiet_fields split: prod.splits)
qed

text \<open>A write of another record of the network layer.\<close>

lemma quiet_net_set:
  assumes "l \<noteq> KEY_WATERMARK" and "nt_txc n' = nt_txc n" and "nt_addr n' = nt_addr n" and "nt_peers n' = nt_peers n"
    and "nt_kv n' = snd (net_set l v (nt_kv n))"
  shows "quiet n n'"
proof -
  have "wm_others (nt_kv n) (nt_kv n')" if "node_ok n"
    using net_set_others [OF _ assms(1)] that assms(5) by (metis node_ok_def prod.collapse)
  with assms show ?thesis by (simp add: quiet_def node_ok_def wm_others_def)
qed

lemma quiet_accept [quiet_rules]: "quiet n (lane_accept enc src c n)"
proof (cases "peer_slot src n")
  case (Some i)
  then obtain p where p: "nt_peers n ! i = Some p" using slot_of_Some by (fastforce simp: peer_slot_def)
  obtain due l where l: "accept_every (pe_lane p) c (nt_lane_persist n) = (due, l)" by fastforce
  show ?thesis
    by (rule quiet_peer [OF Some p, of "p\<lparr>pe_lane := l\<rparr>"])
      (auto simp: lane_accept_def Some p set_peer_def l Let_def)
next
  case None
  obtain due l where l: "accept_every (nt_default_lane n) c (nt_lane_persist n) = (due, l)" by fastforce
  have "KEY_LASTSEEN \<noteq> KEY_WATERMARK" by (simp add: KEY_LASTSEEN_def KEY_WATERMARK_def)
  then show ?thesis
    using None l by (cases due; simp add: lane_accept_def Let_def) (auto intro: quiet_fields quiet_net_set)
qed

section \<open>Registering a peer\<close>

lemma add_peer_new:
  assumes ok: "node_ok n" and valid: "peer_addr_valid a (nt_addr n)" and new: "peer_slot a n = None"
    and slot: "first_none (nt_peers n) = Some i"
    and b: "assign_lane a kcv (net_records (nt_kv n)) (used_locals n) = Some b"
    and p: "pe_addr p = a" "pe_lane_local p = KEY_LASTSEEN_BASE + of_nat (lb_index b)"
  shows "peers_ok (nt_addr n) ((nt_peers n)[i := Some p])" and "pe_lane_local p \<noteq> KEY_WATERMARK"
proof -
  have po: "peers_ok (nt_addr n) (nt_peers n)" using ok by (simp add: node_ok_def)
  have "assign_post a kcv (net_records (nt_kv n)) (used_locals n) b"
    using assign_lane_ok [where addr = a and kcv = kcv and records = "net_records (nt_kv n)" and used = "used_locals n"] b by simp
  then have l: "lb_index b < MAX_PEERS" "\<not> bit (used_locals n) (lb_index b)"
    by (auto simp: assign_post_def net_records_def lane_free_bit)
  have ix: "lane_ix p = lb_index b" using lane_ix_of [OF l(1) p(2)] .
  have "lb_index b < 32" using l(1) by (simp add: MAX_PEERS_def)
  then have free: "lane_ix q \<noteq> lane_ix p" if "j < length (nt_peers n)" "nt_peers n ! j = Some q" for j q
    using l(2) used_locals_bit [of "lb_index b" n] that ix by auto
  have "pe_addr q \<noteq> a" if "j < length (nt_peers n)" "nt_peers n ! j = Some q" for j q
    using slot_of_None [OF new [unfolded peer_slot_def] that] .
  then show "peers_ok (nt_addr n) ((nt_peers n)[i := Some p])"
    using po first_none_Some [OF slot] valid p(1) ix l(1) free by (intro peers_ok_put) auto
  show "pe_lane_local p \<noteq> KEY_WATERMARK" using lane_local_ne [of p] ix l(1) by simp
qed

lemma quiet_add_peer [quiet_rules]: "quiet n (snd (add_peer enc a key n))"
proof (cases "peer_addr_valid a (nt_addr n)")
  case False
  then show ?thesis by (simp add: add_peer_def)
next
  case valid: True
  show ?thesis
  proof (cases "peer_slot a n")
    case (Some i)
    then obtain p where p: "nt_peers n ! i = Some p" "pe_addr p = a" using slot_of_Some by (fastforce simp: peer_slot_def)
    show ?thesis
    proof (cases "pe_key p = key")
      case True
      then show ?thesis using valid Some p by (simp add: add_peer_def Let_def)
    next
      case False
      let ?p = "p\<lparr>pe_key := key, pe_lane := lane_new 0\<rparr>" and ?v = "lane_record a 0 (key_check enc key)"
      have n': "snd (add_peer enc a key n) =
          n\<lparr>nt_peers := (nt_peers n)[i := Some ?p], nt_kv := snd (net_set (pe_lane_local p) ?v (nt_kv n))\<rparr>"
        using valid Some p False by (simp add: add_peer_def Let_def set_peer_def split: prod.splits)
      show ?thesis unfolding n' by (rule quiet_peer [OF Some p(1), of ?p]) auto
    qed
  next
    case new: None
    show ?thesis
    proof (cases "first_none (nt_peers n)")
      case None
      then show ?thesis using valid new by (simp add: add_peer_def Let_def)
    next
      case (Some i)
      show ?thesis
      proof (cases "assign_lane a (key_check enc key) (net_records (nt_kv n)) (used_locals n)")
        case None
        then show ?thesis using valid new Some by (simp add: add_peer_def Let_def)
      next
        case b: (Some b)
        define l where "l = KEY_LASTSEEN_BASE + of_nat (lb_index b)"
        define p where "p = \<lparr>pe_addr = a, pe_key = key, pe_lane = lane_new (lb_seen b), pe_lane_local = l, pe_pending = False\<rparr>"
        obtain ok kv' where kv': "(if lb_fresh b then net_set l (lane_record a (lb_seen b) (key_check enc key)) (nt_kv n)
            else (True, nt_kv n)) = (ok, kv')" by fastforce
        have n': "snd (add_peer enc a key n) = set_peer i (Some p) (n\<lparr>nt_kv := kv'\<rparr>)"
          using valid new Some b kv' by (simp add: add_peer_def Let_def l_def [symmetric] p_def)
        have "node_ok (set_peer i (Some p) (n\<lparr>nt_kv := kv'\<rparr>)) \<and> net_abs kv' KEY_WATERMARK = net_abs (nt_kv n) KEY_WATERMARK"
          if ok: "node_ok n"
        proof -
          note A = add_peer_new [OF ok valid new Some b, of p]
          have "wm_others (nt_kv n) kv'"
            using A(2) kv' ok net_set_others [of "nt_kv n" l] by (auto simp: p_def l_def wm_others_def node_ok_def split: if_splits)
          with A(1) show ?thesis by (simp add: node_ok_def set_peer_def wm_others_def p_def l_def)
        qed
        then show ?thesis unfolding n' by (simp add: quiet_def set_peer_def)
      qed
    qed
  qed
qed

section \<open>The keyed answer\<close>

text \<open>The responder either refuses before it changes anything, or it has an authentic, fresh request
  from a registered peer, advances that peer's lane, and then spends airtime and a counter.\<close>

lemma keyed_answer_cases:
  assumes run: "keyed_answer enc elapsed rx n = (r, n')"
  obtains (refused) e where "r = Inl e" and "n' = n"
    | (admitted) peek l hdr payload granted g ac n3 where "header_parse rx = Inr (peek, l)"
        and "open_frame enc (key_for (h_src peek) n) rx = Inr (hdr, payload)"
        and "classify (net_lane (h_src hdr) n) (h_counter hdr) = Fresh" and "peer_slot (h_src peek) n \<noteq> None"
        and "alloc_counter ((lane_accept enc (h_src hdr) (h_counter hdr) n)\<lparr>nt_duty := g\<rparr>) = (ac, n3)"
        and "(r, n') = (if \<not> granted then (Inl KDutyLimited, (lane_accept enc (h_src hdr) (h_counter hdr) n)\<lparr>nt_duty := g\<rparr>)
          else case ac of None \<Rightarrow> (Inl KNonceLocked, n3)
          | Some c \<Rightarrow> (case seal_frame enc (key_for (h_src peek) n) (keyed_header (nt_addr n3) (h_src hdr) c)
                (u32_le (h_counter hdr)) KEYED_FRAME_LEN of
              Inl _ \<Rightarrow> (Inl KMalformed, n3) | Inr frame \<Rightarrow> (Inr (h_src hdr, frame), n3)))"
proof (cases "\<not> nt_keyed_join_enabled n \<or> nt_access n \<noteq> Duty \<or> txc_locked (nt_txc n) \<or> (\<exists>e. header_parse rx = Inl e)")
  case True
  with run have "\<exists>e. r = Inl e \<and> n' = n" by (auto simp: keyed_answer_def split: if_splits)
  then show thesis using refused by blast
next
  case False
  then obtain peek l where peek: "header_parse rx = Inr (peek, l)" by (cases "header_parse rx") auto
  let ?key = "key_for (h_src peek) n"
  show thesis
  proof (cases "peer_slot (h_src peek) n = None \<or> (\<exists>e. open_frame enc ?key rx = Inl e)")
    case True
    with False run peek have "\<exists>e. r = Inl e \<and> n' = n" by (auto simp: keyed_answer_def Let_def split: if_splits)
    then show thesis using refused by blast
  next
    case reg: False
    then obtain hdr payload y where o: "open_frame enc ?key rx = Inr (hdr, payload)" and y: "peer_slot (h_src peek) n = Some y"
      by (cases "open_frame enc ?key rx") auto
    show thesis
    proof (cases "keyed_req_valid payload (h_src hdr) \<and> keyed_req_admit True (classify (net_lane (h_src hdr) n) (h_counter hdr))")
      case bad: False
      from False bad reg run peek o have "\<exists>e. r = Inl e \<and> n' = n"
        by (auto simp: keyed_answer_def Let_def split: if_splits)
      then show thesis using refused by blast
    next
      case valid: True
      define n1 where "n1 = lane_accept enc (h_src hdr) (h_counter hdr) n"
      obtain granted g where t: "try_tx (nt_duty n1) elapsed (frame_toa_ms (of_nat KEYED_FRAME_LEN)) = (granted, g)" by fastforce
      obtain ac n3 where a: "alloc_counter (n1\<lparr>nt_duty := g\<rparr>) = (ac, n3)" by fastforce
      have "(r, n') = (if \<not> granted then (Inl KDutyLimited, n1\<lparr>nt_duty := g\<rparr>)
          else case ac of None \<Rightarrow> (Inl KNonceLocked, n3)
          | Some c \<Rightarrow> (case seal_frame enc ?key (keyed_header (nt_addr n3) (h_src hdr) c) (u32_le (h_counter hdr)) KEYED_FRAME_LEN of
              Inl _ \<Rightarrow> (Inl KMalformed, n3) | Inr frame \<Rightarrow> (Inr (h_src hdr, frame), n3)))"
        using run False valid peek o y t a by (auto simp: keyed_answer_def Let_def n1_def split: option.splits)
      from admitted [OF peek o _ _ a [unfolded n1_def] this [unfolded n1_def]] valid y show thesis
        by (simp add: keyed_req_admit_def)
    qed
  qed
qed

end
