(* ===== verification/Fw_Nonce.thy ===== *)
theory Fw_Nonce
  imports Fw_Peers
begin

text \<open>
  Nonce safety of the whole network layer. \<open>emits fl n air n'\<close> says of a run from \<open>n\<close> to \<open>n'\<close> that hands
  the frames \<open>air\<close> to the radio: each frame carries a counter allocated during the run, not below the floor
  \<open>fl\<close> once that floor is durable, frames with one nonce are one frame, and the invariants are kept. It composes, and every method of \<open>Net\<close>
  satisfies it; so does a whole life of the device, power cycles included.
\<close>

section \<open>The nonce of a frame\<close>

definition frame_hdr :: "bytes \<Rightarrow> header option" where
  "frame_hdr f = (case header_parse f of Inl _ \<Rightarrow> None | Inr (h, _) \<Rightarrow> Some h)"

definition frame_nonce :: "bytes \<Rightarrow> bytes option" where
  "frame_nonce f = map_option header_nonce (frame_hdr f)"

lemma sealed_hdr:
  assumes "seal_frame enc key h p m = Inr f" and "header_wf h"
  shows "frame_hdr f = Some h"
proof -
  from assms(1) obtain rest where "f = header_encode h @ rest"
    by (auto simp: seal_frame_def split: if_splits prod.splits)
  then show ?thesis using header_parse_encode [OF assms(2)] by (simp add: frame_hdr_def)
qed

lemma header_nonce_counter:
  assumes "header_wf h" and "header_wf h'" and "header_nonce h = header_nonce h'"
  shows "h_counter h = h_counter h'" and "h_bulk h = Some i \<Longrightarrow> h_bulk h' = Some j \<Longrightarrow> i = j"
proof -
  have low: "(case h_bulk x of None \<Rightarrow> 0 | Some i \<Rightarrow> i) < 0x1000000" if "header_wf x" for x
    using that by (auto simp: header_wf_def split: option.splits)
  from assms(3) have "nonce_decode (header_nonce h) = nonce_decode (header_nonce h')" by simp
  then show "h_counter h = h_counter h'" "h_bulk h = Some i \<Longrightarrow> h_bulk h' = Some j \<Longrightarrow> i = j"
    using low [OF assms(1)] low [OF assms(2)]
    by (auto simp: header_nonce_def nonce_decode_nonce take_bit_small)
qed

section \<open>Emission\<close>

text \<open>A durable floor: the watermark covers it, and so does the counter while the kernel is unlocked. The
  floor 0 demands nothing.\<close>

definition floor_holds :: "u32 \<Rightarrow> nv tx_device \<Rightarrow> bool" where
  "floor_holds fl d \<longleftrightarrow> fl = 0 \<or> (\<exists>w. wm_load (dev_store d) = Some w \<and> fl \<le> w) \<and>
     (\<forall>t. dev_txc d = Some t \<longrightarrow> \<not> txc_locked t \<longrightarrow> fl \<le> txc_counter t)"

definition node_inv :: "u32 \<Rightarrow> net \<Rightarrow> u32 list \<Rightarrow> bool" where
  "node_inv fl n sent \<longleftrightarrow> node_ok n \<and> tx_dev_inv wm_load (node_dev n sent) \<and> floor_holds fl (node_dev n sent)"

lemma node_floor_step:
  assumes "nv_ok (dev_store d)" and "tx_dev_inv wm_load d" and "floor_holds fl d" and "wm_step d d'"
  shows "floor_holds fl d'" and "dev_sent d' = cs @ dev_sent d \<Longrightarrow> \<forall>c \<in> set cs. fl \<le> c"
proof -
  have F: "floor_holds fl d' \<and> (\<exists>cs. dev_sent d' = cs @ dev_sent d \<and> (\<forall>c \<in> set cs. fl \<le> c))" if "fl \<noteq> 0"
    using wm.floor_step [OF assms(4), of fl] assms(1-3) that unfolding floor_holds_def by blast
  show "floor_holds fl d'" using F by (cases "fl = 0") (simp add: floor_holds_def, blast)
  show "\<forall>c \<in> set cs. fl \<le> c" if "dev_sent d' = cs @ dev_sent d"
    using F that by (cases "fl = 0") auto
qed

definition coherent :: "bytes list \<Rightarrow> bool" where
  "coherent air \<longleftrightarrow> (\<forall>f \<in> set air. \<forall>g \<in> set air. frame_nonce f = frame_nonce g \<longrightarrow> f = g)"

definition carries :: "u32 list \<Rightarrow> bytes list \<Rightarrow> bool" where
  "carries cs air \<longleftrightarrow> (\<forall>f \<in> set air. \<exists>h. frame_hdr f = Some h \<and> header_wf h \<and> h_counter h \<in> set cs)"

definition emits :: "u32 \<Rightarrow> net \<Rightarrow> bytes list \<Rightarrow> net \<Rightarrow> bool" where
  "emits fl n air n' \<longleftrightarrow>
     (\<forall>sent. node_inv fl n sent \<longrightarrow> (\<exists>cs. node_inv fl n' (cs @ sent) \<and> carries cs air \<and> coherent air \<and> (\<forall>c \<in> set cs. fl \<le> c)))"

lemma coherent_one: "set air \<subseteq> {f} \<Longrightarrow> coherent air"
  by (auto simp: coherent_def)

lemma carries_nil [simp]: "carries cs []" "coherent []"
  by (simp_all add: carries_def coherent_def)

lemma quiet_inv:
  assumes "quiet n n'" and "node_inv fl n sent"
  shows "node_inv fl n' sent"
proof -
  from assms have ok: "node_ok n" "node_ok n'" and t: "nt_txc n' = nt_txc n"
    and a: "net_abs (nt_kv n') KEY_WATERMARK = net_abs (nt_kv n) KEY_WATERMARK" by (auto simp: quiet_def node_inv_def)
  then have "wm_load (nt_kv n') = wm_load (nt_kv n)" by (simp add: wm_load_abs node_ok_def)
  with assms(2) ok t show ?thesis by (simp add: node_inv_def tx_dev_inv_def floor_holds_def)
qed

lemma step_inv:
  assumes i: "node_inv fl n sent" and st: "wm_step (node_dev n sent) (node_dev n' (cs @ sent))"
    and n': "n' = n\<lparr>nt_txc := nt_txc n', nt_kv := nt_kv n'\<rparr>"
  shows "node_inv fl n' (cs @ sent)" and "\<forall>c \<in> set cs. fl \<le> c"
proof -
  have ok: "nv_ok (nt_kv n)" "tx_dev_inv wm_load (node_dev n sent)" "floor_holds fl (node_dev n sent)"
    using i by (auto simp: node_inv_def node_ok_def)
  with wm.step_keeps [OF st] have "nv_ok (nt_kv n')" "tx_dev_inv wm_load (node_dev n' (cs @ sent))" by simp_all
  moreover have "nt_peers n' = nt_peers n" "nt_addr n' = nt_addr n" by (subst n'; simp)+
  moreover have "floor_holds fl (node_dev n' (cs @ sent))" using node_floor_step(1) [OF _ ok(2,3) st] ok(1) by simp
  ultimately show "node_inv fl n' (cs @ sent)" using i by (simp add: node_inv_def node_ok_def)
  show "\<forall>c \<in> set cs. fl \<le> c" using node_floor_step(2) [OF _ ok(2,3) st] ok(1) by simp
qed

lemma alloc_inv:
  assumes "alloc_counter n = (Some c, n')" and "node_inv fl n sent"
  shows "node_inv fl n' (c # sent)" and "fl \<le> c"
  using step_inv [of fl n sent n' "[c]"] alloc_counter_step(2,3) [OF assms(1)] assms(2) by auto

lemma emits_stay: "(\<And>sent. node_inv fl n sent \<Longrightarrow> node_inv fl n' sent) \<Longrightarrow> emits fl n [] n'"
  unfolding emits_def by (metis append_Nil carries_nil empty_iff empty_set)

lemma emits_quiet: "quiet n n' \<Longrightarrow> emits fl n [] n'"
  using quiet_inv by (intro emits_stay) blast

lemma emits_refl [simp]: "emits fl n [] n"
  by (rule emits_quiet) simp

lemma inv_distinct: "node_inv fl n sent \<Longrightarrow> distinct sent"
  using tx_dev_invD(1) [of wm_load "node_dev n sent"] by (auto simp: node_inv_def intro: sorted_gt_distinct)

lemma emits_trans:
  assumes "emits fl n a n1" and "emits fl n1 b n2"
  shows "emits fl n (a @ b) n2"
  unfolding emits_def
proof (intro allI impI)
  fix sent assume "node_inv fl n sent"
  with assms(1) obtain cs where c: "node_inv fl n1 (cs @ sent)" "carries cs a" "coherent a" "\<forall>c \<in> set cs. fl \<le> c" by (auto simp: emits_def)
  with assms(2) obtain ds where d: "node_inv fl n2 (ds @ cs @ sent)" "carries ds b" "coherent b" "\<forall>c \<in> set ds. fl \<le> c" by (auto simp: emits_def)
  have dis: "set ds \<inter> set cs = {}" using inv_distinct [OF d(1)] by auto
  have apart: "frame_nonce f \<noteq> frame_nonce g" if f: "f \<in> set a" and g: "g \<in> set b" for f g
  proof -
    from c(2) f obtain h where h: "frame_hdr f = Some h" "header_wf h" "h_counter h \<in> set cs" by (auto simp: carries_def)
    from d(2) g obtain h' where h': "frame_hdr g = Some h'" "header_wf h'" "h_counter h' \<in> set ds" by (auto simp: carries_def)
    have "h_counter h \<noteq> h_counter h'" using h(3) h'(3) dis by auto
    with header_nonce_counter(1) [OF h(2) h'(2)] h(1) h'(1) show ?thesis by (auto simp: frame_nonce_def)
  qed
  have "coherent (a @ b)"
    unfolding coherent_def
  proof (intro ballI impI)
    fix f g assume "f \<in> set (a @ b)" "g \<in> set (a @ b)" "frame_nonce f = frame_nonce g"
    with apart c(3) d(3) show "f = g" by (fastforce simp: coherent_def)
  qed
  moreover have "carries (ds @ cs) (a @ b)" using c(2) d(2) by (auto simp: carries_def)
  moreover have "\<forall>c \<in> set (ds @ cs). fl \<le> c" using c(4) d(4) by auto
  ultimately show "\<exists>cs. node_inv fl n2 (cs @ sent) \<and> carries cs (a @ b) \<and> coherent (a @ b) \<and> (\<forall>c \<in> set cs. fl \<le> c)"
    using d(1) by (metis append_assoc)
qed

lemma emits_before: "quiet n n0 \<Longrightarrow> emits fl n0 air n' \<Longrightarrow> emits fl n air n'"
  using emits_trans [OF emits_quiet] by fastforce

lemma emits_after: "emits fl n air n1 \<Longrightarrow> quiet n1 n' \<Longrightarrow> emits fl n air n'"
  using emits_trans [OF _ emits_quiet] by fastforce

text \<open>One allocation, then only frames under that counter that are all the same bytes.\<close>

lemma emits_alloc:
  assumes "alloc_counter n = (Some c, n1)" and "quiet n1 n2" and "set air \<subseteq> {frame}"
    and "seal_frame enc key h p m = Inr frame" and "header_wf h" and "h_counter h = c"
  shows "emits fl n air n2"
  unfolding emits_def
proof (intro allI impI)
  fix sent assume i: "node_inv fl n sent"
  have "node_inv fl n2 ([c] @ sent)" using quiet_inv [OF assms(2)] alloc_inv(1) [OF assms(1) i] by simp
  moreover have "carries [c] air" using assms(3,5,6) sealed_hdr [OF assms(4,5)] by (auto simp: carries_def)
  moreover have "\<forall>x \<in> set [c]. fl \<le> x" using alloc_inv(2) [OF assms(1) i] by simp
  ultimately show "\<exists>cs. node_inv fl n2 (cs @ sent) \<and> carries cs air \<and> coherent air \<and> (\<forall>c \<in> set cs. fl \<le> c)"
    using coherent_one [OF assms(3)] by blast
qed

lemma emits_alloc_only:
  assumes "alloc_counter n = (r, n1)"
  shows "emits fl n [] n1"
proof (cases r)
  case None
  then show ?thesis using alloc_counter_step(1) [OF assms] by simp
next
  case (Some c)
  have "\<exists>cs. node_inv fl n1 (cs @ sent) \<and> (\<forall>c \<in> set cs. fl \<le> c)" if "node_inv fl n sent" for sent
    using alloc_inv [OF assms [unfolded Some] that] by (intro exI [of _ "[c]"]) simp
  then show ?thesis by (simp add: emits_def)
qed

lemma header_wf_plain [simp]:
  "header_wf (data_header s d c b)" "header_wf (ack_header s d c)" "header_wf (keyed_header s d c)"
  "header_wf (announce_header s d c)" "header_wf (beacon_header s c)"
  "k < 2 ^ 24 \<Longrightarrow> header_wf (chunk_header s d c k b)" "k < 2 ^ 24 \<Longrightarrow> header_wf (request_header s d c k)"
  by (simp_all add: header_wf_def data_header_def ack_header_def keyed_header_def announce_header_def beacon_header_def
      chunk_header_def request_header_def has_bulk_index_def word_less_nat_alt unat_of_nat)

lemma header_counter_plain [simp]:
  "h_counter (data_header s d c b) = c" "h_counter (ack_header s d c) = c" "h_counter (keyed_header s d c) = c"
  "h_counter (announce_header s d c) = c" "h_counter (beacon_header s c) = c" "h_counter (chunk_header s d c k b) = c"
  "h_counter (request_header s d c k) = c"
  by (simp_all add: data_header_def ack_header_def keyed_header_def announce_header_def beacon_header_def
      chunk_header_def request_header_def)

section \<open>Sending\<close>

lemma quiet_small [quiet_rules]:
  "quiet n (snd (backoff_ms n))" "quiet n (snd (rand_u32 n))" "quiet n (snd (await_ack enc dest c heard n))"
  by (auto simp: backoff_ms_def rand_u32_def await_ack_def Let_def intro!: quiet_fields split: option.splits)

lemma quiet_duty [quiet_rules]: "quiet n (n\<lparr>nt_duty := g\<rparr>)" "quiet n (n\<lparr>nt_last_ack := m\<rparr>)" "quiet n (n\<lparr>nt_afa := f\<rparr>)"
  "quiet n (set_fhss x n)" "quiet n (n\<lparr>nt_keyed_log := l\<rparr>)" "quiet n (n\<lparr>nt_replay_log := l\<rparr>)" "quiet n (n\<lparr>nt_keyed_join := j\<rparr>)"
  by (auto simp: set_fhss_def intro!: quiet_fields)

lemma send_attempts_quiet:
  "send_attempts enc dest c confirmed frame i as result n = (r, air, n') \<Longrightarrow> set air \<subseteq> {frame} \<and> quiet n n'"
proof (induction as arbitrary: i result n r air n')
  case (Cons a as)
  define n0 where "n0 = (if 0 < i then snd (backoff_ms n) else n)"
  obtain granted g where t: "try_tx (nt_duty n0) (at_elapsed a) (frame_toa_ms (of_nat (length frame))) = (granted, g)" by fastforce
  define n1 where "n1 = n0\<lparr>nt_duty := g\<rparr>"
  have "quiet n n0" by (simp add: n0_def quiet_rules)
  then have q1: "quiet n n1" unfolding n1_def using quiet_trans quiet_duty(1) by blast
  have rec: "set air' \<subseteq> {frame} \<and> quiet n n2"
    if "send_attempts enc dest c confirmed frame (Suc i) as res m = (r', air', n2)" "quiet n m" for res m r' air' n2
    using Cons.IH [OF that(1)] quiet_trans [OF that(2)] by blast
  obtain b n2 where w: "await_ack enc dest c (at_heard a) n1 = (b, n2)" by fastforce
  have q2: "quiet n n2" using quiet_trans [OF q1] quiet_small(3) [of n1 enc dest c "at_heard a"] w by simp
  obtain r3 air3 n3 where s3: "send_attempts enc dest c confirmed frame (Suc i) as result n2 = (r3, air3, n3)" by (metis prod.exhaust)
  obtain r4 air4 n4 where s4: "send_attempts enc dest c confirmed frame (Suc i) as SBusy n1 = (r4, air4, n4)" by (metis prod.exhaust)
  have "send_attempts enc dest c confirmed frame i (a # as) result n =
      (if \<not> granted then (DutyLimited, [], n1)
       else case at_tx a of Some RBusy \<Rightarrow> (r4, frame # air4, n4) | Some e \<Rightarrow> (SError e, [frame], n1)
         | None \<Rightarrow> if \<not> confirmed then (Delivered, [frame], n1) else if b then (Delivered, [frame], n2) else (r3, frame # air3, n3))"
    by (simp only: send_attempts.simps Let_def n0_def [symmetric] t prod.case n1_def [symmetric] w s3 s4)
      (simp split: option.splits radio_error.splits bool.splits)
  then show ?case
    using Cons.prems q1 q2 rec [OF s3 q2] rec [OF s4 q1] by (auto split: if_splits option.splits radio_error.splits)
qed simp

lemma emits_net_send: "net_send enc dest data confirmed reps env n = (r, air, n') \<Longrightarrow> emits fl n air n'"
proof -
  assume run: "net_send enc dest data confirmed reps env n = (r, air, n')"
  let ?n = "n\<lparr>nt_last_ack := None\<rparr>"
  have q: "quiet n ?n" by (rule quiet_rules)
  obtain ac n1 where a: "alloc_counter ?n = (ac, n1)" by fastforce
  show ?thesis
  proof (cases ac)
    case None
    with run a q emits_before [OF q emits_alloc_only [OF a]] show ?thesis
      by (auto simp: net_send_def Let_def intro: emits_quiet split: if_splits)
  next
    case (Some c)
    let ?h = "data_header (nt_addr n1) dest c confirmed"
    show ?thesis
    proof (cases "seal_frame enc (key_for dest n1) ?h data MAX_FRAME")
      case (Inl e)
      with run a Some q emits_before [OF q emits_alloc_only [OF a]] show ?thesis
        by (auto simp: net_send_def Let_def intro: emits_quiet split: if_splits)
    next
      case (Inr frame)
      obtain r' air' n2 where s: "send_attempts enc dest c confirmed frame 0 (attempts_of confirmed reps env) NotDelivered n1 = (r', air', n2)"
        by (metis prod.exhaust)
      note S = send_attempts_quiet [OF s]
      have "emits fl ?n air' n2" by (rule emits_alloc [OF a [unfolded Some] _ _ Inr]) (use S in simp_all)
      with run a Some Inr s q show ?thesis
        by (auto simp: net_send_def Let_def intro: emits_quiet emits_before split: if_splits)
    qed
  qed
qed

section \<open>Receiving\<close>

lemma emits_send_ack: "send_ack enc elapsed dest acked rssi n = (air, n') \<Longrightarrow> emits fl n air n'"
proof -
  assume run: "send_ack enc elapsed dest acked rssi n = (air, n')"
  define p where "p = ack_payload acked rssi (case peer_at dest n of Some p \<Rightarrow> pe_pending p | None \<Rightarrow> False)"
  obtain may g where m: "(case nt_access n of Duty \<Rightarrow> try_tx (nt_duty n) elapsed (frame_toa_ms (of_nat (HDR_LEN + length p + TAG_LEN)))
      | _ \<Rightarrow> (True, nt_duty n)) = (may, g)" by fastforce
  let ?n = "n\<lparr>nt_duty := g\<rparr>"
  have q: "quiet n ?n" by (rule quiet_rules)
  obtain ac n1 where a: "alloc_counter ?n = (ac, n1)" by fastforce
  note none = emits_before [OF q emits_alloc_only [OF a]]
  show ?thesis
  proof (cases "txc_locked (nt_txc n) \<or> \<not> may \<or> ac = None")
    case True
    with run m a q none show ?thesis
      by (auto simp: send_ack_def Let_def p_def [symmetric] intro: emits_quiet split: if_splits)
  next
    case False
    then obtain c where ac: "ac = Some c" by auto
    show ?thesis
    proof (cases "seal_frame enc (key_for dest n1) (ack_header (nt_addr n1) dest c) p MAX_FRAME")
      case (Inl e)
      with False run m a ac none show ?thesis by (auto simp: send_ack_def Let_def p_def [symmetric])
    next
      case (Inr frame)
      have "emits fl ?n [frame] n1" by (rule emits_alloc [OF a [unfolded ac] _ _ Inr]) simp_all
      with False run m a ac Inr q show ?thesis by (auto simp: send_ack_def Let_def p_def [symmetric] intro: emits_before)
    qed
  qed
qed

lemma emits_keyed_answer:
  assumes run: "keyed_answer enc elapsed rx n = (r, n')"
  shows "emits fl n (case r of Inl _ \<Rightarrow> [] | Inr (_, frame) \<Rightarrow> [frame]) n'"
  using run
proof (cases rule: keyed_answer_cases)
  case (refused e)
  then show ?thesis by simp
next
  case (admitted peek l hdr payload granted g ac n3)
  let ?n2 = "(lane_accept enc (h_src hdr) (h_counter hdr) n)\<lparr>nt_duty := g\<rparr>" and ?key = "key_for (h_src peek) n"
  have q: "quiet n ?n2" using quiet_trans [OF quiet_accept quiet_duty(1)] by blast
  note a = admitted(5) and step = admitted(6)
  note none = emits_before [OF q emits_alloc_only [OF a]]
  show ?thesis
  proof (cases "granted \<and> ac \<noteq> None")
    case False
    with step q none show ?thesis by (auto intro: emits_quiet split: if_splits)
  next
    case True
    then obtain c where ac: "ac = Some c" by auto
    show ?thesis
    proof (cases "seal_frame enc ?key (keyed_header (nt_addr n3) (h_src hdr) c) (u32_le (h_counter hdr)) KEYED_FRAME_LEN")
      case (Inl e)
      with True ac step none show ?thesis by simp
    next
      case (Inr frame)
      have "emits fl ?n2 [frame] n3" by (rule emits_alloc [OF a [unfolded ac] _ _ Inr]) simp_all
      from emits_before [OF q this] True ac Inr step show ?thesis by simp
    qed
  qed
qed

lemma emits_recv: "net_recv enc r n = (m, air, n') \<Longrightarrow> emits fl n air n'"
proof -
  assume run: "net_recv enc r n = (m, air, n')"
  obtain k n1 where k: "keyed_answer enc (rc_elapsed r) (rc_buf r) n = (k, n1)" by fastforce
  note K = emits_keyed_answer [OF k]
  have keyed: "emits fl n air' n''"
    if "(case prepare_keyed_answer enc (rc_now r) (rc_elapsed r) (rc_buf r) n of
         (None, n1) \<Rightarrow> (None, [], n1)
       | (Some (joiner, frame), n1) \<Rightarrow>
           if rc_tx_ok r then (None, [frame], n1\<lparr>nt_keyed_join := Some joiner\<rparr>)
           else (None :: received option, [frame], n1\<lparr>nt_keyed_log := snd (log_hit (rc_now r) (nt_keyed_log n1))\<rparr>)) = (m', air', n'')"
    for m' air' n''
    using that k K emits_after [OF K] quiet_duty(5,7)
    by (cases k) (auto simp: prepare_keyed_answer_def split: if_splits)
  have ack: "emits fl n air' n2"
    if "send_ack enc e d c rs n0 = (air', n2)" "quiet n n0" for e d c rs n0 air' n2
    using emits_before [OF that(2) emits_send_ack [OF that(1)]] .
  have reack: "quiet n n0" if "lane_reack src n = (b, n0)" for src b n0
    using quiet_reack [of n src] that by simp
  show ?thesis
  proof (cases "\<exists>peek l. header_parse (rc_buf r) = Inr (peek, l)")
    case False
    then obtain e where "header_parse (rc_buf r) = Inl e" by (cases "header_parse (rc_buf r)") auto
    with run show ?thesis by (simp add: net_recv_def)
  next
    case True
    then obtain peek l where peek: "header_parse (rc_buf r) = Inr (peek, l)" by blast
    show ?thesis
    proof (cases "h_type peek = FtJoinReq \<and> h_flags peek AND KEYED \<noteq> 0 \<and> h_dest peek = 0")
      case True
      with run peek keyed show ?thesis by (auto simp: net_recv_def split: if_splits)
    next
      case plain: False
      show ?thesis
      proof (cases "open_frame enc (key_for (h_src peek) n) (rc_buf r)")
        case (Inl e)
        with run peek plain show ?thesis by (auto simp: net_recv_def split: if_splits)
      next
        case (Inr hp)
        obtain hdr payload where hp: "hp = (hdr, payload)" by fastforce
        have q: "quiet n (lane_accept enc (h_src hdr) (h_counter hdr) n)" by (rule quiet_accept)
        show ?thesis
          using run peek plain Inr hp q emits_quiet [OF q] ack reack quiet_duty(6)
          by (auto simp: net_recv_def Let_def split: if_splits replay_verdict.splits prod.splits bool.splits
              intro: emits_quiet)
      qed
    qed
  qed
qed

section \<open>LBT + AFA\<close>

lemma afa_hop_quiet: "afa_hop env frame steps n = (r, air, n') \<Longrightarrow> set air \<subseteq> {frame} \<and> quiet n n'"
proof (induction steps arbitrary: n r air n')
  case (Cons s ss)
  obtain r1 air1 n1 where rec: "afa_hop env frame ss n = (r1, air1, n1)" by (metis prod.exhaust)
  from Cons.prems Cons.IH [OF rec] rec show ?case
    by (auto simp: Let_def quiet_duty split: if_splits option.splits radio_error.splits)
qed simp

lemma afa_attempts_quiet:
  "afa_attempts enc dest c confirmed frame i as result n = (r, air, n') \<Longrightarrow> set air \<subseteq> {frame} \<and> quiet n n'"
proof (induction as arbitrary: i result n r air n')
  case (Cons a as)
  define n0 where "n0 = (if 0 < i then snd (backoff_ms n) else n)"
  have q0: "quiet n n0" by (simp add: n0_def quiet_rules)
  obtain h air1 n1 where h: "afa_hop (aa_try a) frame [0..<AFA_N] n0 = (h, air1, n1)" by (metis prod.exhaust)
  note H = afa_hop_quiet [OF h]
  have q1: "quiet n n1" using quiet_trans [OF q0] H by blast
  have rec: "set air' \<subseteq> {frame} \<and> quiet n n2"
    if "afa_attempts enc dest c confirmed frame (Suc i) as res m = (r', air', n2)" "quiet n m" for res m r' air' n2
    using Cons.IH [OF that(1)] quiet_trans [OF that(2)] by blast
  obtain b n2 where w: "await_ack enc dest c (aa_heard a) n1 = (b, n2)" by fastforce
  have q2: "quiet n n2" using quiet_trans [OF q1] quiet_small(3) [of n1 enc dest c "aa_heard a"] w by simp
  obtain r3 air3 n3 where s3: "afa_attempts enc dest c confirmed frame (Suc i) as result n2 = (r3, air3, n3)" by (metis prod.exhaust)
  obtain r4 air4 n4 where s4: "afa_attempts enc dest c confirmed frame (Suc i) as DutyLimited n1 = (r4, air4, n4)" by (metis prod.exhaust)
  have "afa_attempts enc dest c confirmed frame i (a # as) result n =
      (case h of HopError e \<Rightarrow> (SError e, air1, n1) | HopNone \<Rightarrow> (r4, air1 @ air4, n4)
       | HopSent \<Rightarrow> if \<not> confirmed then (Delivered, air1, n1) else if b then (Delivered, air1, n2) else (r3, air1 @ air3, n3))"
    by (simp only: afa_attempts.simps Let_def n0_def [symmetric] h prod.case w s3 s4)
      (simp split: hop_result.splits bool.splits)
  then show ?case
    using Cons.prems q1 q2 H rec [OF s3 q2] rec [OF s4 q1] by (auto split: if_splits hop_result.splits)
qed simp

lemma emits_afa_send: "afa_send enc dest data confirmed reps env n = (r, air, n') \<Longrightarrow> emits fl n air n'"
proof -
  assume run: "afa_send enc dest data confirmed reps env n = (r, air, n')"
  obtain ac n1 where a: "alloc_counter n = (ac, n1)" by fastforce
  note none = emits_alloc_only [OF a]
  show ?thesis
  proof (cases "\<exists>c frame. ac = Some c \<and> seal_frame enc (key_for dest n1) (data_header (nt_addr n1) dest c confirmed) data MAX_FRAME = Inr frame")
    case False
    with run a none show ?thesis
      by (auto simp: afa_send_def split: if_splits option.splits sum.splits)
  next
    case True
    then obtain c frame where ac: "ac = Some c"
      and f: "seal_frame enc (key_for dest n1) (data_header (nt_addr n1) dest c confirmed) data MAX_FRAME = Inr frame" by blast
    obtain r' air' n2 where s: "afa_attempts enc dest c confirmed frame 0
        (map env [0..<(if confirmed then unat (min (max reps 1) MAX_REPS) else 1)]) NotDelivered n1 = (r', air', n2)"
      by (metis prod.exhaust)
    note S = afa_attempts_quiet [OF s]
    have "emits fl n air' n2" by (rule emits_alloc [OF a [unfolded ac] _ _ f]) (use S in simp_all)
    with run a ac f s show ?thesis by (auto simp: afa_send_def split: if_splits)
  qed
qed

lemma emits_afa_scan: "afa_scan enc k ss n = (m, air, n') \<Longrightarrow> emits fl n air n'"
proof (induction ss arbitrary: k n m air n')
  case (Cons s ss)
  show ?case
  proof (cases "if fst s then snd s else None")
    case None
    with Cons show ?thesis by (auto simp: Let_def)
  next
    case (Some r)
    obtain m1 air1 n1 where r: "net_recv enc r n = (m1, air1, n1)" by (metis prod.exhaust)
    note E = emits_recv [OF r]
    obtain m2 air2 n2 where s: "afa_scan enc (Suc k) ss n1 = (m2, air2, n2)" by (metis prod.exhaust)
    show ?thesis
      using Cons.prems Some r s emits_trans [OF E Cons.IH [OF s]] emits_after [OF E quiet_duty(3)]
      by (cases m1) (auto simp: Let_def)
  qed
qed simp

end
