(* ===== verification/Net_Handshake.thy ===== *)
theory Net_Handshake
  imports Prelude
begin

text \<open>
  The pairing handshake kernel of \<open>crates/net/src/handshake.rs\<close>: the commitment, the transcript hash,
  the key schedule, the confirmation tags and the short authentication string. SHA-256, HMAC-SHA256,
  HKDF-SHA256 and X25519 are third-party crates: they are the fields of a \<open>crypto\<close> argument, and
  \<open>crypto_ok\<close> names what the code relies on (their output lengths, RFC 6234 / 2104 / 5869 / 7748, and
  that X25519 commutes on the base point, RFC 7748 section 6.1). Zeroizing is not modelled: it changes
  no result.
\<close>

record crypto =
  cr_sha256 :: "bytes \<Rightarrow> bytes"
  cr_hmac :: "bytes \<Rightarrow> bytes \<Rightarrow> bytes"
  cr_hkdf :: "bytes \<Rightarrow> bytes \<Rightarrow> bytes \<Rightarrow> nat \<Rightarrow> bytes"
  cr_x25519 :: "bytes \<Rightarrow> bytes \<Rightarrow> bytes"
  cr_basepoint :: bytes

definition crypto_ok :: "crypto \<Rightarrow> bool" where
  "crypto_ok C \<longleftrightarrow>
     (\<forall>m. length (cr_sha256 C m) = 32) \<and> (\<forall>k m. length (cr_hmac C k m) = 32) \<and>
     (\<forall>salt ikm info n. n \<le> 8160 \<longrightarrow> length (cr_hkdf C salt ikm info n) = n) \<and>
     (\<forall>s p. length (cr_x25519 C s p) = 32) \<and>
     (\<forall>a b. length a = 32 \<longrightarrow> length b = 32 \<longrightarrow>
        cr_x25519 C a (cr_x25519 C b (cr_basepoint C)) = cr_x25519 C b (cr_x25519 C a (cr_basepoint C)))"

text \<open>A byte-string literal.\<close>

definition ascii :: "string \<Rightarrow> bytes" where
  "ascii s = map of_char s"

definition HS_VERSION :: u8 where "HS_VERSION = 3"
definition PUBLIC_LEN :: nat where "PUBLIC_LEN = 32"
definition HS_NONCE_LEN :: nat where "HS_NONCE_LEN = 16"
definition COMMIT_LEN :: nat where "COMMIT_LEN = 16"
definition HS_TAG_LEN :: nat where "HS_TAG_LEN = 8"
definition LINK_KEY_LEN :: nat where "LINK_KEY_LEN = 16"
definition REQ_LEN :: nat where "REQ_LEN = 1 + PUBLIC_LEN"
definition RESP_LEN :: nat where "RESP_LEN = 1 + PUBLIC_LEN + COMMIT_LEN"
definition NONCE_MSG_LEN :: nat where "NONCE_MSG_LEN = 1 + HS_NONCE_LEN"
definition REVEAL_LEN :: nat where "REVEAL_LEN = 1 + HS_NONCE_LEN + HS_TAG_LEN"
definition CONFIRM_LEN :: nat where "CONFIRM_LEN = 1 + HS_TAG_LEN"
definition HS_LABEL :: bytes where "HS_LABEL = ascii ''tower pairing v3''"
definition SECRET_ENTROPY_LEN :: nat where "SECRET_ENTROPY_LEN = 64"
definition NONCE_ENTROPY_LEN :: nat where "NONCE_ENTROPY_LEN = 32"
definition ENTROPY_LEN :: nat where "ENTROPY_LEN = SECRET_ENTROPY_LEN + NONCE_ENTROPY_LEN"
definition SAS_MODULUS :: u32 where "SAS_MODULUS = 1000000"
definition EPHEMERAL_LABEL :: bytes where "EPHEMERAL_LABEL = ascii ''tower pairing v3 ephemeral''"
definition NONCE_LABEL :: bytes where "NONCE_LABEL = ascii ''tower pairing v3 nonce''"
definition COMMIT_LABEL :: bytes where "COMMIT_LABEL = ascii ''tower pairing v3 commit''"
definition SAS_LABEL :: bytes where "SAS_LABEL = ascii ''tower pairing v3 sas''"

lemmas hs_lens = HS_VERSION_def PUBLIC_LEN_def HS_NONCE_LEN_def COMMIT_LEN_def HS_TAG_LEN_def LINK_KEY_LEN_def REQ_LEN_def RESP_LEN_def
  NONCE_MSG_LEN_def REVEAL_LEN_def CONFIRM_LEN_def SECRET_ENTROPY_LEN_def NONCE_ENTROPY_LEN_def ENTROPY_LEN_def

datatype role = RoleGateway | RoleNode

fun role_label :: "role \<Rightarrow> bytes" where
  "role_label RoleGateway = ascii ''gw''"
| "role_label RoleNode = ascii ''node''"

definition hs_ct_eq :: "bytes \<Rightarrow> bytes \<Rightarrow> bool" where
  "hs_ct_eq a b = (if length a \<noteq> length b then False else foldl (\<lambda>acc (x, y). acc OR (x XOR y)) 0 (zip a b) = 0)"

section \<open>The commitment\<close>

definition commit_message :: "bytes \<Rightarrow> bytes \<Rightarrow> u32 \<Rightarrow> u32 \<Rightarrow> bytes" where
  "commit_message e_node e_gw node_addr gw_addr = COMMIT_LABEL @ u32_le node_addr @ u32_le gw_addr @ e_node @ e_gw"

definition commitment :: "crypto \<Rightarrow> bytes \<Rightarrow> bytes \<Rightarrow> bytes \<Rightarrow> u32 \<Rightarrow> u32 \<Rightarrow> bytes" where
  "commitment C n_gw e_node e_gw node_addr gw_addr =
     take COMMIT_LEN (cr_hmac C n_gw (commit_message e_node e_gw node_addr gw_addr))"

definition commitment_matches :: "crypto \<Rightarrow> bytes \<Rightarrow> bytes \<Rightarrow> bytes \<Rightarrow> bytes \<Rightarrow> u32 \<Rightarrow> u32 \<Rightarrow> bool" where
  "commitment_matches C commit n_gw e_node e_gw node_addr gw_addr \<longleftrightarrow>
     length commit = COMMIT_LEN \<and> hs_ct_eq (commitment C n_gw e_node e_gw node_addr gw_addr) commit"

section \<open>The transcript\<close>

record transcript =
  tr_node_addr :: u32
  tr_gw_addr :: u32
  tr_e_node :: bytes
  tr_e_gw :: bytes
  tr_n_node :: bytes
  tr_n_gw :: bytes

text \<open>What \<open>Transcript::hash\<close> feeds to the hash.\<close>

definition transcript_bytes :: "transcript \<Rightarrow> bytes" where
  "transcript_bytes t =
     HS_LABEL @ u32_le (tr_node_addr t) @ u32_le (tr_gw_addr t) @ tr_e_node t @ tr_e_gw t @ tr_n_node t @ tr_n_gw t"

definition transcript_hash :: "crypto \<Rightarrow> transcript \<Rightarrow> bytes" where
  "transcript_hash C t = cr_sha256 C (transcript_bytes t)"

text \<open>\<open>u64::from_le_bytes\<close>.\<close>

definition le_u64 :: "bytes \<Rightarrow> u64" where
  "le_u64 bs = foldr (\<lambda>b acc. push_bit 8 acc OR ucast b) bs 0"

definition sas_from_hash :: "crypto \<Rightarrow> bytes \<Rightarrow> u32" where
  "sas_from_hash C th = (let d = cr_sha256 C (SAS_LABEL @ th) in ucast (le_u64 (take 8 d) mod ucast SAS_MODULUS))"

definition transcript_sas :: "crypto \<Rightarrow> transcript \<Rightarrow> u32" where
  "transcript_sas C t = sas_from_hash C (transcript_hash C t)"

section \<open>The session\<close>

record session =
  se_link_key :: bytes
  se_sas :: u32
  se_tag_gw :: bytes
  se_tag_node :: bytes

fun session_tag :: "role \<Rightarrow> session \<Rightarrow> bytes" where
  "session_tag RoleGateway s = se_tag_gw s"
| "session_tag RoleNode s = se_tag_node s"

definition session_verify :: "role \<Rightarrow> bytes \<Rightarrow> session \<Rightarrow> bool" where
  "session_verify r received s \<longleftrightarrow> length received = HS_TAG_LEN \<and> hs_ct_eq (session_tag r s) received"

definition shared_secret :: "crypto \<Rightarrow> bytes \<Rightarrow> bytes \<Rightarrow> bytes option" where
  "shared_secret C secret peer =
     (let k = cr_x25519 C secret peer in if foldl (OR) 0 k = 0 then None else Some k)"

definition key_schedule :: "crypto \<Rightarrow> bytes \<Rightarrow> transcript \<Rightarrow> session" where
  "key_schedule C shared t =
     (let th = transcript_hash C t;
          okm = cr_hkdf C th shared HS_LABEL (2 * LINK_KEY_LEN);
          confirm_key = drop LINK_KEY_LEN okm;
          tag = (\<lambda>r. take HS_TAG_LEN (cr_hmac C confirm_key (role_label r @ th)))
      in \<lparr>se_link_key = take LINK_KEY_LEN okm, se_sas = sas_from_hash C th, se_tag_gw = tag RoleGateway, se_tag_node = tag RoleNode\<rparr>)"

record ephemeral =
  ep_secret :: bytes
  ep_public :: bytes
  ep_nonce :: bytes

definition ephemeral_from_parts :: "crypto \<Rightarrow> bytes \<Rightarrow> bytes \<Rightarrow> ephemeral" where
  "ephemeral_from_parts C secret nonce =
     \<lparr>ep_secret = secret, ep_public = cr_x25519 C secret (cr_basepoint C), ep_nonce = nonce\<rparr>"

definition ephemeral_from_entropy :: "crypto \<Rightarrow> bytes \<Rightarrow> ephemeral" where
  "ephemeral_from_entropy C entropy =
     ephemeral_from_parts C (cr_sha256 C (EPHEMERAL_LABEL @ take SECRET_ENTROPY_LEN entropy))
       (take HS_NONCE_LEN (cr_sha256 C (NONCE_LABEL @ drop SECRET_ENTROPY_LEN entropy)))"

definition ephemeral_commitment :: "crypto \<Rightarrow> bytes \<Rightarrow> u32 \<Rightarrow> u32 \<Rightarrow> ephemeral \<Rightarrow> bytes" where
  "ephemeral_commitment C e_node node_addr gw_addr e = commitment C (ep_nonce e) e_node (ep_public e) node_addr gw_addr"

definition ephemeral_session ::
  "crypto \<Rightarrow> bytes \<Rightarrow> bytes \<Rightarrow> role \<Rightarrow> u32 \<Rightarrow> u32 \<Rightarrow> ephemeral \<Rightarrow> session option"
where
  "ephemeral_session C peer peer_nonce own_role node_addr gw_addr e =
     (case shared_secret C (ep_secret e) peer of
        None \<Rightarrow> None
      | Some shared \<Rightarrow>
          Some (key_schedule C shared
            (case own_role of
               RoleNode \<Rightarrow> \<lparr>tr_node_addr = node_addr, tr_gw_addr = gw_addr, tr_e_node = ep_public e, tr_e_gw = peer,
                           tr_n_node = ep_nonce e, tr_n_gw = peer_nonce\<rparr>
             | RoleGateway \<Rightarrow> \<lparr>tr_node_addr = node_addr, tr_gw_addr = gw_addr, tr_e_node = peer, tr_e_gw = ep_public e,
                              tr_n_node = peer_nonce, tr_n_gw = ep_nonce e\<rparr>)))"

section \<open>Both ends compute the same session\<close>

lemma hs_ct_eq_iff: "hs_ct_eq a b \<longleftrightarrow> a = b"
proof -
  have "foldl (\<lambda>acc (x, y). acc OR (x XOR y)) z (zip a b) = foldl (OR) z (map2 (XOR) a b)" for z :: u8
    by (induction a b arbitrary: z rule: list_induct2') auto
  then show ?thesis using map2_xor_zero [of a b] by (auto simp: hs_ct_eq_def foldl_or_zero)
qed

lemma length_ascii [simp]: "length (ascii s) = length s"
  by (simp add: ascii_def)

lemma crypto_okD:
  assumes "crypto_ok C"
  shows "length (cr_sha256 C m) = 32" and "length (cr_hmac C k m) = 32"
    and "n \<le> 8160 \<Longrightarrow> length (cr_hkdf C salt ikm info n) = n" and "length (cr_x25519 C s p) = 32"
    and "length a = 32 \<Longrightarrow> length b = 32 \<Longrightarrow>
      cr_x25519 C a (cr_x25519 C b (cr_basepoint C)) = cr_x25519 C b (cr_x25519 C a (cr_basepoint C))"
  using assms by (simp_all add: crypto_ok_def)

lemma commitment_matches_iff:
  assumes "crypto_ok C"
  shows "commitment_matches C commit n_gw e_node e_gw a g \<longleftrightarrow> commit = commitment C n_gw e_node e_gw a g"
  using crypto_okD(2) [OF assms] by (auto simp: commitment_matches_def hs_ct_eq_iff commitment_def COMMIT_LEN_def)

lemma session_verify_iff: "session_verify r received s \<longleftrightarrow> length received = HS_TAG_LEN \<and> received = session_tag r s"
  by (auto simp: session_verify_def hs_ct_eq_iff)

lemma sas_bound: "sas_from_hash C th < SAS_MODULUS"
proof -
  let ?x = "le_u64 (take 8 (cr_sha256 C (SAS_LABEL @ th))) mod 1000000"
  have "unat ?x < 1000000" by (simp add: unat_mod)
  moreover from this have "unat (ucast ?x :: u32) = unat ?x" by (simp add: unsigned_ucast_eq take_bit_nat_eq_self_iff)
  ultimately show ?thesis by (simp add: sas_from_hash_def Let_def SAS_MODULUS_def word_less_nat_alt)
qed

lemma ephemeral_session_facts:
  assumes "crypto_ok C" and "ephemeral_session C p pn r na ga e = Some s"
  shows "length (se_link_key s) = LINK_KEY_LEN" and "length (session_tag q s) = HS_TAG_LEN" and "se_sas s < SAS_MODULUS"
    and "session_verify q (session_tag q s) s"
proof -
  from assms(2) obtain k t where s: "s = key_schedule C k t"
    by (auto simp: ephemeral_session_def split: option.splits)
  show "length (se_link_key s) = LINK_KEY_LEN" "se_sas s < SAS_MODULUS" and l: "length (session_tag q s) = HS_TAG_LEN"
    unfolding s using crypto_okD(2,3) [OF assms(1)] sas_bound
    by (cases q; simp add: key_schedule_def Let_def LINK_KEY_LEN_def HS_TAG_LEN_def)+
  then show "session_verify q (session_tag q s) s" by (simp add: session_verify_iff)
qed

lemma ephemeral_lengths:
  assumes "crypto_ok C"
  shows "length (ep_secret (ephemeral_from_entropy C x)) = 32" "length (ep_public (ephemeral_from_entropy C x)) = PUBLIC_LEN"
    "length (ep_nonce (ephemeral_from_entropy C x)) = HS_NONCE_LEN"
  using crypto_okD(1,4) [OF assms]
  by (simp_all add: ephemeral_from_entropy_def ephemeral_from_parts_def PUBLIC_LEN_def HS_NONCE_LEN_def)

lemma sessions_agree:
  assumes C: "crypto_ok C" and e: "e = ephemeral_from_entropy C x" and g: "g = ephemeral_from_entropy C y"
  shows "ephemeral_session C (ep_public g) (ep_nonce g) RoleNode na ga e =
     ephemeral_session C (ep_public e) (ep_nonce e) RoleGateway na ga g"
proof -
  have pub: "ep_public (ephemeral_from_entropy C z) = cr_x25519 C (ep_secret (ephemeral_from_entropy C z)) (cr_basepoint C)" for z
    by (simp add: ephemeral_from_entropy_def ephemeral_from_parts_def)
  have "cr_x25519 C (ep_secret e) (ep_public g) = cr_x25519 C (ep_secret g) (ep_public e)"
    unfolding e g pub by (rule crypto_okD(5) [OF C ephemeral_lengths(1) [OF C] ephemeral_lengths(1) [OF C]])
  then show ?thesis by (simp add: ephemeral_session_def shared_secret_def Let_def)
qed

text \<open>C26. Both ends of a handshake agree: from ephemerals drawn from any entropy, each end computing
  from its own secret and the other's public values, they both refuse or derive one session - the
  same link key (16 bytes), the same six-digit code below a million, and tags that each end accepts
  from the other - and the nonce the gateway reveals opens the commitment it sent. They refuse only
  an all-zero shared secret.\<close>

theorem handshake_agreement:
  assumes "crypto_ok C" and "e = ephemeral_from_entropy C x" and "g = ephemeral_from_entropy C y"
  shows "ephemeral_session C (ep_public g) (ep_nonce g) RoleNode na ga e =
       ephemeral_session C (ep_public e) (ep_nonce e) RoleGateway na ga g \<and>
     commitment_matches C (ephemeral_commitment C (ep_public e) na ga g) (ep_nonce g) (ep_public e) (ep_public g) na ga \<and>
     (case ephemeral_session C (ep_public g) (ep_nonce g) RoleNode na ga e of
        None \<Rightarrow> cr_x25519 C (ep_secret e) (ep_public g) = replicate 32 0
      | Some s \<Rightarrow> length (se_link_key s) = LINK_KEY_LEN \<and> se_sas s < SAS_MODULUS \<and>
          session_verify RoleGateway (session_tag RoleGateway s) s \<and> session_verify RoleNode (session_tag RoleNode s) s)"
proof -
  have z: "k = replicate 32 0" if "length k = 32" "foldl (OR) 0 k = (0 :: u8)" for k
    using that by (intro replicate_eqI) (auto simp: foldl_or_zero)
  have none: "cr_x25519 C (ep_secret e) p = replicate 32 0" if "ephemeral_session C p pn r na ga e = None" for p pn r
    using that z crypto_okD(4) [OF assms(1)] by (auto simp: ephemeral_session_def shared_secret_def Let_def split: if_splits)
  show ?thesis
    using sessions_agree [OF assms, of na ga] ephemeral_session_facts [OF assms(1)] none
    by (auto simp: commitment_matches_iff [OF assms(1)] ephemeral_commitment_def simp del: session_tag.simps split: option.split)
qed

section \<open>What is hashed is unambiguous\<close>

definition transcript_wf :: "transcript \<Rightarrow> bool" where
  "transcript_wf t \<longleftrightarrow> length (tr_e_node t) = PUBLIC_LEN \<and> length (tr_e_gw t) = PUBLIC_LEN \<and>
     length (tr_n_node t) = HS_NONCE_LEN \<and> length (tr_n_gw t) = HS_NONCE_LEN"

lemma transcript_bytes_inject:
  assumes "transcript_wf t" and "transcript_wf t'" and "transcript_bytes t = transcript_bytes t'"
  shows "t = t'"
  using assms by (auto simp: transcript_bytes_def transcript_wf_def u32_le_inject intro!: transcript.equality)

text \<open>C28. Every public value is bound, unambiguously: two transcripts hashed to one input are the same
  transcript - both addresses, both public keys, both nonces; the same holds for what a commitment
  authenticates; and no input of one use (secret, nonce, transcript, code; either role's tag) is ever
  an input of another.\<close>

theorem transcript_binding:
  assumes "transcript_wf t" and "transcript_wf t'"
    and "length sec = SECRET_ENTROPY_LEN" and "length non = NONCE_ENTROPY_LEN" and "length th = 32" and "length th' = 32"
  shows "(transcript_bytes t = transcript_bytes t') = (t = t') \<and>
     (commit_message (tr_e_node t) (tr_e_gw t) (tr_node_addr t) (tr_gw_addr t) =
        commit_message (tr_e_node t') (tr_e_gw t') (tr_node_addr t') (tr_gw_addr t')) =
      ((tr_e_node t, tr_e_gw t, tr_node_addr t, tr_gw_addr t) = (tr_e_node t', tr_e_gw t', tr_node_addr t', tr_gw_addr t')) \<and>
     distinct [EPHEMERAL_LABEL @ sec, NONCE_LABEL @ non, transcript_bytes t, SAS_LABEL @ th] \<and>
     role_label RoleGateway @ th \<noteq> role_label RoleNode @ th'"
proof -
  have len: "distinct (map length [EPHEMERAL_LABEL @ sec, NONCE_LABEL @ non, transcript_bytes t, SAS_LABEL @ th])"
    using assms by (simp add: transcript_bytes_def transcript_wf_def hs_lens EPHEMERAL_LABEL_def NONCE_LABEL_def SAS_LABEL_def HS_LABEL_def length_u32_le)
  have "length (role_label RoleGateway @ th) \<noteq> length (role_label RoleNode @ th')" using assms(5,6) by simp
  then have "role_label RoleGateway @ th \<noteq> role_label RoleNode @ th'" by metis
  moreover have "distinct [EPHEMERAL_LABEL @ sec, NONCE_LABEL @ non, transcript_bytes t, SAS_LABEL @ th]"
    using len unfolding distinct_map by simp
  moreover have "(transcript_bytes t = transcript_bytes t') = (t = t')" using transcript_bytes_inject [OF assms(1,2)] by auto
  ultimately show ?thesis
    using assms(1,2) by (auto simp: commit_message_def transcript_wf_def u32_le_inject)
qed

section \<open>A concrete instance\<close>

text \<open>Stand-ins with the stated lengths and laws; the scalar multiplication is exclusive or.\<close>

definition pad32 :: "bytes \<Rightarrow> bytes" where
  "pad32 b = take 32 (b @ replicate 32 0)"

definition crypto_demo :: crypto where
  "crypto_demo = \<lparr>cr_sha256 = (\<lambda>m. pad32 (rev m)), cr_hmac = (\<lambda>k m. pad32 (k @ m)),
     cr_hkdf = (\<lambda>salt ikm info n. take n (ikm @ salt @ replicate n 1)), cr_x25519 = (\<lambda>s p. map2 (XOR) (pad32 s) (pad32 p)),
     cr_basepoint = 9 # replicate 31 0\<rparr>"

lemma length_pad32 [simp]: "length (pad32 b) = 32"
  by (simp add: pad32_def)

lemma pad32_id: "length b = 32 \<Longrightarrow> pad32 b = b"
  by (simp add: pad32_def)

lemma map2_xor_swap:
  "map2 (XOR) a (map2 (XOR) b c) = map2 (XOR) b (map2 (XOR) a (c :: bytes))" if "length a = length b" "length b = length c"
  using that by (auto simp: list_eq_iff_nth_eq xor.left_commute)

lemma crypto_demo_ok: "crypto_ok crypto_demo"
  by (auto simp: crypto_ok_def crypto_demo_def pad32_id map2_xor_swap)

theorem handshake_agreement_witness:
  "ephemeral_session crypto_demo (ep_public (ephemeral_from_entropy crypto_demo [1])) (ep_nonce (ephemeral_from_entropy crypto_demo [1]))
      RoleNode 0x22 0x11 (ephemeral_from_entropy crypto_demo [2]) =
   ephemeral_session crypto_demo (ep_public (ephemeral_from_entropy crypto_demo [2])) (ep_nonce (ephemeral_from_entropy crypto_demo [2]))
      RoleGateway 0x22 0x11 (ephemeral_from_entropy crypto_demo [1])"
  using handshake_agreement [OF crypto_demo_ok refl refl] by blast

definition transcript_demo :: transcript where
  "transcript_demo = \<lparr>tr_node_addr = 1, tr_gw_addr = 2, tr_e_node = replicate 32 3, tr_e_gw = replicate 32 4,
     tr_n_node = replicate 16 5, tr_n_gw = replicate 16 6\<rparr>"

theorem transcript_binding_witness:
  "transcript_bytes transcript_demo \<noteq> transcript_bytes (transcript_demo\<lparr>tr_n_gw := replicate 16 7\<rparr>)"
proof -
  have "transcript_wf transcript_demo" "transcript_wf (transcript_demo\<lparr>tr_n_gw := replicate 16 7\<rparr>)"
    by (simp_all add: transcript_wf_def transcript_demo_def hs_lens)
  from transcript_binding [OF this, of "replicate 64 0" "replicate 32 0" "replicate 32 0" "replicate 32 0"]
  have "(transcript_bytes transcript_demo = transcript_bytes (transcript_demo\<lparr>tr_n_gw := replicate 16 7\<rparr>)) =
      (transcript_demo = transcript_demo\<lparr>tr_n_gw := replicate 16 7\<rparr>)"
    by (simp add: SECRET_ENTROPY_LEN_def NONCE_ENTROPY_LEN_def)
  moreover have "transcript_demo \<noteq> transcript_demo\<lparr>tr_n_gw := replicate 16 7\<rparr>"
    by (simp add: transcript_demo_def)
  ultimately show ?thesis by simp
qed

end
