(* ===== verification/Fw_Pairing.thy ===== *)
theory Fw_Pairing
  imports Fw_Nonce Net_Handshake
begin

text \<open>
  The OTA pairing exchange and the keyed join of \<open>firmware/src/radio/net/pairing.rs\<close>: the host's
  \<open>PairingHost\<close> and \<open>open_pairing\<close>, the joiner's \<open>join\<close> and \<open>join_keyed\<close>. As in \<open>Fw_Net\<close> the surroundings
  are inputs: per turn of a loop the times read (ms), the TRNG output when one is drawn (\<open>None\<close>: it
  failed), the frames heard in each wait, the milliseconds between duty-governor calls and the outcome of
  each transmission. A run ends when the code returns or when the turns do (a dropped future).
\<close>

definition JOIN_FRAME_KEY :: bytes where "JOIN_FRAME_KEY = ascii ''TOWER-JOIN-v2'' @ [0, 0, 0]"
definition JOIN_STEP_WINDOW :: u64 where "JOIN_STEP_WINDOW = 300"
definition PEER_KEX_TIME :: u64 where "PEER_KEX_TIME = 1500"
definition PAIR_RX_SLICE :: u64 where "PAIR_RX_SLICE = 500"
definition ACK_TURNAROUND :: u64 where "ACK_TURNAROUND = 20"
definition TX_TIMEOUT :: u64 where "TX_TIMEOUT = 120"
definition HOST_HANDSHAKE_TIME :: u64 where
  "HOST_HANDSHAKE_TIME = 2 * (ACK_TURNAROUND + TX_TIMEOUT) + 2 * (JOIN_STEP_WINDOW + PEER_KEX_TIME)"

record paired_peer =
  pp_addr :: u32
  pp_key :: bytes
  pp_sas :: u32

section \<open>Frames of the exchange\<close>

definition tx_pair ::
  "(bytes \<Rightarrow> bytes \<Rightarrow> bytes) \<Rightarrow> u32 \<Rightarrow> bool \<Rightarrow> bytes \<Rightarrow> header \<Rightarrow> bytes \<Rightarrow> net \<Rightarrow> bool \<times> bytes list \<times> net"
where
  "tx_pair enc elapsed tx_ok key hdr payload n =
     (case seal_frame enc key hdr payload MAX_FRAME of
        Inl _ \<Rightarrow> (False, [], n)
      | Inr frame \<Rightarrow>
          (case try_tx (nt_duty n) elapsed (frame_toa_ms (of_nat (length frame))) of (granted, g) \<Rightarrow>
             if granted then (tx_ok, [frame], n\<lparr>nt_duty := g\<rparr>) else (False, [], n\<lparr>nt_duty := g\<rparr>)))"

definition rx_pair :: "(bytes \<Rightarrow> bytes \<Rightarrow> bytes) \<Rightarrow> bytes \<Rightarrow> nat \<Rightarrow> bytes \<Rightarrow> (header \<times> bytes) option" where
  "rx_pair enc key out_len buf =
     (case open_frame enc key buf of
        Inl _ \<Rightarrow> None
      | Inr (hdr, payload) \<Rightarrow> if length payload > out_len then None else Some (hdr, payload))"

definition pair_header :: "frame_type \<Rightarrow> u32 \<Rightarrow> u32 \<Rightarrow> u32 \<Rightarrow> header" where
  "pair_header t src dest counter =
     \<lparr>h_type = t, h_flags = 0, h_src = src, h_dest = dest, h_counter = counter, h_bulk = None\<rparr>"

text \<open>\<open>trng_ephemeral\<close>, \<open>handshake\<close>, \<open>join_resp\<close>, \<open>reveal_opens\<close>.\<close>

definition trng_ephemeral :: "crypto \<Rightarrow> bytes option \<Rightarrow> ephemeral option" where
  "trng_ephemeral C trng = map_option (ephemeral_from_entropy C) trng"

definition handshake :: "crypto \<Rightarrow> ephemeral \<Rightarrow> bytes \<Rightarrow> bytes \<Rightarrow> role \<Rightarrow> u32 \<Rightarrow> u32 \<Rightarrow> session option" where
  "handshake C own peer peer_nonce r node_addr gw_addr = ephemeral_session C peer peer_nonce r node_addr gw_addr own"

definition join_resp :: "crypto \<Rightarrow> ephemeral \<Rightarrow> bytes \<Rightarrow> u32 \<Rightarrow> u32 \<Rightarrow> bytes" where
  "join_resp C eph e_node node_addr gw_addr =
     [HS_VERSION] @ ep_public eph @ ephemeral_commitment C e_node node_addr gw_addr eph"

definition reveal_opens :: "crypto \<Rightarrow> bytes \<Rightarrow> bytes \<Rightarrow> bytes \<Rightarrow> bytes \<Rightarrow> u32 \<Rightarrow> u32 \<Rightarrow> bool" where
  "reveal_opens C commit n_gw e_node e_gw node_addr gw_addr = commitment_matches C commit n_gw e_node e_gw node_addr gw_addr"

section \<open>The host\<close>

record pairing_host =
  ph_eph :: "ephemeral option"
  ph_trng_failed :: bool
  ph_window_end :: u64

definition host_prepare :: "crypto \<Rightarrow> u64 \<Rightarrow> u64 \<Rightarrow> bytes option \<Rightarrow> pairing_host option" where
  "host_prepare C now window trng =
     (case checked_add now window of
        None \<Rightarrow> None
      | Some window_end \<Rightarrow>
          (case trng_ephemeral C trng of
             None \<Rightarrow> None
           | Some e \<Rightarrow> Some \<lparr>ph_eph = Some e, ph_trng_failed = False, ph_window_end = window_end\<rparr>))"

definition host_ready :: "crypto \<Rightarrow> bytes option \<Rightarrow> pairing_host \<Rightarrow> bool \<times> pairing_host" where
  "host_ready C trng h =
     (let h1 = (if ph_eph h = None then
           let e = trng_ephemeral C trng in h\<lparr>ph_eph := e, ph_trng_failed := ph_trng_failed h \<or> e = None\<rparr>
         else h)
      in (ph_eph h1 \<noteq> None, h1))"

text \<open>One turn of the host's loop.\<close>

record host_turn =
  ht_now :: u64
  ht_trng :: "bytes option"
  ht_listen :: u64
  ht_heard :: "bytes option"
  ht_at :: u64
  ht_uptime :: u32
  ht_resp_elapsed :: u32
  ht_resp_ok :: bool
  ht_nonce_heard :: "bytes list"
  ht_reveal_elapsed :: u32
  ht_reveal_ok :: bool
  ht_confirm_heard :: "bytes list"

datatype pair_step = PairNext | PairDone paired_peer | PairStop

text \<open>The waits: the first frame heard that is the one waited for.\<close>

primrec await_nonce :: "(bytes \<Rightarrow> bytes \<Rightarrow> bytes) \<Rightarrow> u32 \<Rightarrow> u32 \<Rightarrow> bytes list \<Rightarrow> bytes option" where
  "await_nonce enc peer own [] = None"
| "await_nonce enc peer own (b # bs) =
     (case rx_pair enc JOIN_FRAME_KEY NONCE_MSG_LEN b of
        None \<Rightarrow> await_nonce enc peer own bs
      | Some (hdr, p) \<Rightarrow>
          if h_type hdr = FtJoinNonce \<and> h_src hdr = peer \<and> h_dest hdr = own \<and> length p = NONCE_MSG_LEN \<and> p ! 0 = HS_VERSION
          then Some p else await_nonce enc peer own bs)"

primrec await_confirm :: "(bytes \<Rightarrow> bytes \<Rightarrow> bytes) \<Rightarrow> session \<Rightarrow> u32 \<Rightarrow> u32 \<Rightarrow> bytes list \<Rightarrow> bool" where
  "await_confirm enc s peer own [] = False"
| "await_confirm enc s peer own (b # bs) =
     (case rx_pair enc (se_link_key s) CONFIRM_LEN b of
        None \<Rightarrow> await_confirm enc s peer own bs
      | Some (hdr, p) \<Rightarrow>
          if h_type hdr = FtJoinConfirm \<and> h_src hdr = peer \<and> h_dest hdr = own \<and> length p = CONFIRM_LEN \<and> p ! 0 = HS_VERSION \<and>
             session_verify RoleNode (drop 1 p) s
          then True else await_confirm enc s peer own bs)"

text \<open>The host's half after the joiner's nonce: the reveal and the wait for the confirm.\<close>

definition host_reveal ::
  "crypto \<Rightarrow> (bytes \<Rightarrow> bytes \<Rightarrow> bytes) \<Rightarrow> host_turn \<Rightarrow> ephemeral \<Rightarrow> bytes \<Rightarrow> bytes \<Rightarrow> u32 \<Rightarrow> net \<Rightarrow> pair_step \<times> bytes list \<times> net"
where
  "host_reveal C enc t eph e_node n_node peer n =
     (case handshake C eph e_node (drop 1 n_node) RoleGateway peer (nt_addr n) of
        None \<Rightarrow> (PairNext, [], n)
      | Some s \<Rightarrow>
          (case alloc_counter n of
             (None, n1) \<Rightarrow> (PairStop, [], n1)
           | (Some c, n1) \<Rightarrow>
               (case tx_pair enc (ht_reveal_elapsed t) (ht_reveal_ok t) JOIN_FRAME_KEY (pair_header FtJoinReveal (nt_addr n1) peer c)
                       ([HS_VERSION] @ ep_nonce eph @ session_tag RoleGateway s) n1 of
                  (False, air, n2) \<Rightarrow> (PairNext, air, n2)
                | (True, air, n2) \<Rightarrow>
                    if await_confirm enc s peer (nt_addr n2) (ht_confirm_heard t)
                    then (PairDone \<lparr>pp_addr = peer, pp_key = se_link_key s, pp_sas = se_sas s\<rparr>, air, n2)
                    else (PairNext, air, n2))))"

text \<open>One answered JOIN_REQ.\<close>

definition host_answer ::
  "crypto \<Rightarrow> (bytes \<Rightarrow> bytes \<Rightarrow> bytes) \<Rightarrow> host_turn \<Rightarrow> ephemeral \<Rightarrow> bytes \<Rightarrow> u32 \<Rightarrow> net \<Rightarrow> pair_step \<times> bytes list \<times> net"
where
  "host_answer C enc t eph e_node peer n =
     (case alloc_counter n of
        (None, n1) \<Rightarrow> (PairStop, [], n1)
      | (Some c, n1) \<Rightarrow>
          (case tx_pair enc (ht_resp_elapsed t) (ht_resp_ok t) JOIN_FRAME_KEY (pair_header FtJoinResp (nt_addr n1) peer c)
                  (join_resp C eph e_node peer (nt_addr n1)) n1 of
             (False, air, n2) \<Rightarrow> (PairNext, air, n2)
           | (True, air, n2) \<Rightarrow>
               (case await_nonce enc peer (nt_addr n2) (ht_nonce_heard t) of
                  None \<Rightarrow> (PairNext, air, n2)
                | Some n_node \<Rightarrow>
                    (case host_reveal C enc t eph e_node n_node peer n2 of (r, air', n3) \<Rightarrow> (r, air @ air', n3)))))"

text \<open>Whether a JOIN_REQ is answered at all.\<close>

definition host_admits :: "u64 \<Rightarrow> pairing_host \<Rightarrow> header \<Rightarrow> bytes \<Rightarrow> net \<Rightarrow> bool" where
  "host_admits now h hdr p n \<longleftrightarrow>
     length p = REQ_LEN \<and> p ! 0 = HS_VERSION \<and>
     join_request_admissible (h_src hdr) (nt_addr n) (peer_slot (h_src hdr) n \<noteq> None) \<and>
     handshake_fits (sat_sub (ph_window_end h) now) HOST_HANDSHAKE_TIME"

primrec open_pairing_loop ::
  "crypto \<Rightarrow> (bytes \<Rightarrow> bytes \<Rightarrow> bytes) \<Rightarrow> u64 \<Rightarrow> host_turn list \<Rightarrow> pairing_host \<Rightarrow> net \<Rightarrow>
     paired_peer option \<times> bytes list \<times> pairing_host \<times> net"
where
  "open_pairing_loop C enc deadline [] h n = (None, [], h, n)"
| "open_pairing_loop C enc deadline (t # ts) h n =
     (if \<not> ht_now t < deadline then (None, [], h, n)
      else case host_ready C (ht_trng t) h of
        (False, h1) \<Rightarrow> (None, [], h1, n)
      | (True, h1) \<Rightarrow>
          if min PAIR_RX_SLICE (sat_sub deadline (ht_listen t)) = 0 then (None, [], h1, n)
          else case Option.bind (ht_heard t) (rx_pair enc JOIN_FRAME_KEY REQ_LEN) of
            None \<Rightarrow> open_pairing_loop C enc deadline ts h1 n
          | Some (hdr, p) \<Rightarrow>
              if h_type hdr \<noteq> FtJoinReq then open_pairing_loop C enc deadline ts h1 n
              else if \<not> host_admits (ht_at t) h1 hdr p n
              then open_pairing_loop C enc deadline ts h1 (n\<lparr>nt_pair_log := snd (log_hit (ht_uptime t) (nt_pair_log n))\<rparr>)
              else case ph_eph h1 of
                None \<Rightarrow> open_pairing_loop C enc deadline ts h1 n
              | Some eph \<Rightarrow>
                  (case host_answer C enc t eph (drop 1 p) (h_src hdr) n of
                     (PairStop, air, n1) \<Rightarrow> (None, air, h1\<lparr>ph_eph := None\<rparr>, n1)
                   | (PairDone pp, air, n1) \<Rightarrow> (Some pp, air, h1\<lparr>ph_eph := None\<rparr>, n1)
                   | (PairNext, air, n1) \<Rightarrow>
                       (case open_pairing_loop C enc deadline ts (h1\<lparr>ph_eph := None\<rparr>) n1 of
                          (r, air', h2, n2) \<Rightarrow> (r, air @ air', h2, n2))))"

definition open_pairing ::
  "crypto \<Rightarrow> (bytes \<Rightarrow> bytes \<Rightarrow> bytes) \<Rightarrow> u64 \<Rightarrow> u64 \<Rightarrow> host_turn list \<Rightarrow> pairing_host \<Rightarrow> net \<Rightarrow>
     paired_peer option \<times> bytes list \<times> pairing_host \<times> net"
where
  "open_pairing C enc now span turns h n =
     (case checked_add now span of
        None \<Rightarrow> (None, [], h, n)
      | Some stop \<Rightarrow>
          if txc_locked (nt_txc n) then (None, [], h, n)
          else if nt_access n \<noteq> Duty then (None, [], h, n)
          else open_pairing_loop C enc (min stop (ph_window_end h)) turns h n)"

section \<open>The joiner\<close>

record join_turn =
  jt_now :: u64
  jt_trng :: "bytes option"
  jt_req_elapsed :: u32
  jt_req_ok :: bool
  jt_resp_heard :: "bytes list"
  jt_nonce_elapsed :: u32
  jt_nonce_ok :: bool
  jt_reveal_heard :: "bytes list"
  jt_conf_elapsed :: u32
  jt_conf_ok :: bool

primrec await_resp :: "(bytes \<Rightarrow> bytes \<Rightarrow> bytes) \<Rightarrow> u32 \<Rightarrow> bytes list \<Rightarrow> (u32 \<times> bytes) option" where
  "await_resp enc addr [] = None"
| "await_resp enc addr (b # bs) =
     (case rx_pair enc JOIN_FRAME_KEY RESP_LEN b of
        None \<Rightarrow> await_resp enc addr bs
      | Some (hdr, p) \<Rightarrow>
          if h_type hdr = FtJoinResp \<and> length p = RESP_LEN \<and> p ! 0 = HS_VERSION \<and> join_response_for (h_dest hdr) (h_src hdr) addr
          then Some (h_src hdr, p) else await_resp enc addr bs)"

text \<open>The wait for the reveal: the session of the first one that opens the commitment and whose tag
  checks out; anything else is ignored.\<close>

primrec await_reveal ::
  "crypto \<Rightarrow> (bytes \<Rightarrow> bytes \<Rightarrow> bytes) \<Rightarrow> ephemeral \<Rightarrow> bytes \<Rightarrow> bytes \<Rightarrow> u32 \<Rightarrow> u32 \<Rightarrow> bytes list \<Rightarrow> session option"
where
  "await_reveal C enc eph e_gw commit addr gw [] = None"
| "await_reveal C enc eph e_gw commit addr gw (b # bs) =
     (case rx_pair enc JOIN_FRAME_KEY REVEAL_LEN b of
        None \<Rightarrow> await_reveal C enc eph e_gw commit addr gw bs
      | Some (hdr, p) \<Rightarrow>
          if h_type hdr \<noteq> FtJoinReveal \<or> h_src hdr \<noteq> gw \<or> h_dest hdr \<noteq> addr \<or> length p \<noteq> REVEAL_LEN \<or> p ! 0 \<noteq> HS_VERSION
          then await_reveal C enc eph e_gw commit addr gw bs
          else let n_gw = bslice 1 HS_NONCE_LEN p in
            if \<not> reveal_opens C commit n_gw (ep_public eph) e_gw addr gw then await_reveal C enc eph e_gw commit addr gw bs
            else case handshake C eph e_gw n_gw RoleNode addr gw of
                None \<Rightarrow> await_reveal C enc eph e_gw commit addr gw bs
              | Some s \<Rightarrow>
                  if \<not> session_verify RoleGateway (drop (1 + HS_NONCE_LEN) p) s then await_reveal C enc eph e_gw commit addr gw bs
                  else Some s)"

text \<open>The joiner's half after the host's response: its nonce, the reveal, the confirm.\<close>

definition join_answered ::
  "crypto \<Rightarrow> (bytes \<Rightarrow> bytes \<Rightarrow> bytes) \<Rightarrow> join_turn \<Rightarrow> ephemeral \<Rightarrow> u32 \<Rightarrow> u32 \<Rightarrow> bytes \<Rightarrow> net \<Rightarrow> pair_step \<times> bytes list \<times> net"
where
  "join_answered C enc t eph addr gw resp n =
     (let e_gw = bslice 1 PUBLIC_LEN resp; commit = drop (1 + PUBLIC_LEN) resp in
      case alloc_counter n of
        (None, n1) \<Rightarrow> (PairStop, [], n1)
      | (Some c, n1) \<Rightarrow>
          (case tx_pair enc (jt_nonce_elapsed t) (jt_nonce_ok t) JOIN_FRAME_KEY (pair_header FtJoinNonce addr gw c)
                  ([HS_VERSION] @ ep_nonce eph) n1 of
             (False, air, n2) \<Rightarrow> (PairNext, air, n2)
           | (True, air, n2) \<Rightarrow>
               (case await_reveal C enc eph e_gw commit addr gw (jt_reveal_heard t) of
                  None \<Rightarrow> (PairNext, air, n2)
                | Some s \<Rightarrow>
                    (case alloc_counter n2 of
                       (None, n3) \<Rightarrow> (PairStop, air, n3)
                     | (Some c', n3) \<Rightarrow>
                         (case tx_pair enc (jt_conf_elapsed t) (jt_conf_ok t) (se_link_key s) (pair_header FtJoinConfirm addr gw c')
                                 ([HS_VERSION] @ session_tag RoleNode s) n3 of
                            (False, air', n4) \<Rightarrow> (PairNext, air @ air', n4)
                          | (True, air', n4) \<Rightarrow>
                              (PairDone \<lparr>pp_addr = gw, pp_key = se_link_key s, pp_sas = se_sas s\<rparr>, air @ air', n4))))))"

text \<open>The attempts; \<open>unanswered\<close> is the ephemeral of the requests no host answered yet.\<close>

primrec join_loop ::
  "crypto \<Rightarrow> (bytes \<Rightarrow> bytes \<Rightarrow> bytes) \<Rightarrow> u32 \<Rightarrow> u64 \<Rightarrow> join_turn list \<Rightarrow> ephemeral option \<Rightarrow> net \<Rightarrow> paired_peer option \<times> bytes list \<times> net"
where
  "join_loop C enc addr deadline [] unanswered n = (None, [], n)"
| "join_loop C enc addr deadline (t # ts) unanswered n =
     (if \<not> jt_now t < deadline then (None, [], n)
      else case (case unanswered of Some e \<Rightarrow> Some e | None \<Rightarrow> trng_ephemeral C (jt_trng t)) of
        None \<Rightarrow> (None, [], n)
      | Some eph \<Rightarrow>
          (case alloc_counter n of
             (None, n1) \<Rightarrow> (None, [], n1)
           | (Some c, n1) \<Rightarrow>
               (case tx_pair enc (jt_req_elapsed t) (jt_req_ok t) JOIN_FRAME_KEY (pair_header FtJoinReq addr 0 c)
                       ([HS_VERSION] @ ep_public eph) n1 of
                  (False, air, n2) \<Rightarrow>
                    (case join_loop C enc addr deadline ts (Some eph) n2 of (r, air', n3) \<Rightarrow> (r, air @ air', n3))
                | (True, air, n2) \<Rightarrow>
                    (case await_resp enc addr (jt_resp_heard t) of
                       None \<Rightarrow> (case join_loop C enc addr deadline ts (Some eph) n2 of (r, air', n3) \<Rightarrow> (r, air @ air', n3))
                     | Some (gw, resp) \<Rightarrow>
                         (case join_answered C enc t eph addr gw resp n2 of
                            (PairStop, air1, n3) \<Rightarrow> (None, air @ air1, n3)
                          | (PairDone pp, air1, n3) \<Rightarrow> (Some pp, air @ air1, n3)
                          | (PairNext, air1, n3) \<Rightarrow>
                              (case join_loop C enc addr deadline ts None n3 of (r, air', n4) \<Rightarrow> (r, air @ air1 @ air', n4)))))))"

definition net_join ::
  "crypto \<Rightarrow> (bytes \<Rightarrow> bytes \<Rightarrow> bytes) \<Rightarrow> u32 \<Rightarrow> u64 \<Rightarrow> u64 \<Rightarrow> join_turn list \<Rightarrow> net \<Rightarrow> paired_peer option \<times> bytes list \<times> net"
where
  "net_join C enc addr now timeout turns n =
     (if txc_locked (nt_txc n) then (None, [], n)
      else if is_reserved_addr addr then (None, [], n)
      else if nt_access n \<noteq> Duty then (None, [], n)
      else case checked_add now timeout of
        None \<Rightarrow> (None, [], n)
      | Some deadline \<Rightarrow> join_loop C enc addr deadline turns None n)"

section \<open>The keyed join\<close>

datatype join_error = JTimeout | JWrongMode | JNonceLocked | JBadAddr

record keyed_turn =
  kt_now :: u64
  kt_elapsed :: u32
  kt_ok :: bool
  kt_heard :: "bytes list"

primrec await_keyed_resp :: "(bytes \<Rightarrow> bytes \<Rightarrow> bytes) \<Rightarrow> bytes \<Rightarrow> u32 \<Rightarrow> u32 \<Rightarrow> bytes list \<Rightarrow> u32 option" where
  "await_keyed_resp enc key addr req_counter [] = None"
| "await_keyed_resp enc key addr req_counter (b # bs) =
     (case rx_pair enc key 8 b of
        None \<Rightarrow> await_keyed_resp enc key addr req_counter bs
      | Some (hdr, p) \<Rightarrow>
          if h_type hdr = FtJoinResp \<and> h_flags hdr AND KEYED \<noteq> 0 \<and> join_response_for (h_dest hdr) (h_src hdr) addr \<and>
             keyed_resp_matches p req_counter
          then Some (h_src hdr) else await_keyed_resp enc key addr req_counter bs)"

definition keyed_req_header :: "u32 \<Rightarrow> u32 \<Rightarrow> header" where
  "keyed_req_header addr counter =
     \<lparr>h_type = FtJoinReq, h_flags = KEYED, h_src = addr, h_dest = 0, h_counter = counter, h_bulk = None\<rparr>"

primrec join_keyed_loop ::
  "(bytes \<Rightarrow> bytes \<Rightarrow> bytes) \<Rightarrow> u32 \<Rightarrow> bytes \<Rightarrow> u64 \<Rightarrow> keyed_turn list \<Rightarrow> net \<Rightarrow> (join_error + u32) \<times> bytes list \<times> net"
where
  "join_keyed_loop enc addr key deadline [] n = (Inl JTimeout, [], n)"
| "join_keyed_loop enc addr key deadline (t # ts) n =
     (if \<not> kt_now t < deadline then (Inl JTimeout, [], n)
      else case try_tx (nt_duty n) (kt_elapsed t) (frame_toa_ms (of_nat KEYED_FRAME_LEN)) of
        (False, g) \<Rightarrow> join_keyed_loop enc addr key deadline ts (n\<lparr>nt_duty := g\<rparr>)
      | (True, g) \<Rightarrow>
          (case alloc_counter (n\<lparr>nt_duty := g\<rparr>) of
             (None, n1) \<Rightarrow> (Inl JNonceLocked, [], n1)
           | (Some c, n1) \<Rightarrow>
               (case seal_frame enc key (keyed_req_header addr c) (u32_le addr) MAX_FRAME of
                  Inl _ \<Rightarrow> (Inl JTimeout, [], n1)
                | Inr frame \<Rightarrow>
                    (case (if kt_ok t then await_keyed_resp enc key addr c (kt_heard t) else None) of
                       Some host \<Rightarrow> (Inr host, [frame], n1)
                     | None \<Rightarrow> (case join_keyed_loop enc addr key deadline ts n1 of (r, air, n2) \<Rightarrow> (r, frame # air, n2))))))"

definition join_keyed ::
  "(bytes \<Rightarrow> bytes \<Rightarrow> bytes) \<Rightarrow> u32 \<Rightarrow> bytes \<Rightarrow> u64 \<Rightarrow> u64 \<Rightarrow> keyed_turn list \<Rightarrow> net \<Rightarrow> (join_error + u32) \<times> bytes list \<times> net"
where
  "join_keyed enc addr key now timeout turns n =
     (if nt_access n \<noteq> Duty then (Inl JWrongMode, [], n)
      else if is_reserved_addr addr then (Inl JBadAddr, [], n)
      else if txc_locked (nt_txc n) then (Inl JNonceLocked, [], n)
      else case checked_add now timeout of
        None \<Rightarrow> (Inl JTimeout, [], n)
      | Some deadline \<Rightarrow> join_keyed_loop enc addr key deadline turns n)"

section \<open>Nonces\<close>

lemma pair_header_simps [simp]:
  "h_counter (pair_header t s d c) = c" "h_counter (keyed_req_header a c) = c" "header_wf (keyed_req_header a c)"
  "\<not> has_bulk_index t \<Longrightarrow> header_wf (pair_header t s d c)"
  by (simp_all add: pair_header_def keyed_req_header_def header_wf_def has_bulk_index_def)

lemma not_bulk [simp]:
  "\<not> has_bulk_index FtJoinReq" "\<not> has_bulk_index FtJoinResp" "\<not> has_bulk_index FtJoinNonce" "\<not> has_bulk_index FtJoinReveal"
  "\<not> has_bulk_index FtJoinConfirm"
  by (simp_all add: has_bulk_index_def)

lemma tx_pair_quiet:
  "tx_pair enc e ok key h p n = (b, air, n') \<Longrightarrow>
     quiet n n' \<and> (air = [] \<or> (\<exists>f. air = [f] \<and> seal_frame enc key h p MAX_FRAME = Inr f))"
  by (auto simp: tx_pair_def quiet_duty split: sum.splits prod.splits if_splits)

lemma emits_tx_pair:
  assumes a: "alloc_counter n = (Some c, n1)" and t: "tx_pair enc e ok key h p n1 = (b, air, n2)"
    and h: "header_wf h" "h_counter h = c"
  shows "emits fl n air n2"
proof -
  note T = tx_pair_quiet [OF t]
  show ?thesis
  proof (cases "air = []")
    case True
    with emits_after [OF emits_alloc_only [OF a]] T show ?thesis by simp
  next
    case False
    with T obtain f where f: "air = [f]" "seal_frame enc key h p MAX_FRAME = Inr f" by blast
    show ?thesis by (rule emits_alloc [OF a _ _ f(2) h]) (use T f(1) in simp_all)
  qed
qed

lemma emits_host_reveal:
  assumes run: "host_reveal C enc t eph e_node n_node peer n = (r, air, n')"
  shows "emits fl n air n'"
proof -
  obtain ac n1 where a: "alloc_counter n = (ac, n1)" by fastforce
  show ?thesis
    using run a emits_alloc_only [OF a] emits_tx_pair [OF a [THEN trans]]
    by (auto simp: host_reveal_def split: option.splits prod.splits bool.splits if_splits)
qed

lemma emits_host_answer:
  assumes run: "host_answer C enc t eph e_node peer n = (r, air, n')"
  shows "emits fl n air n'"
proof -
  obtain ac n1 where a: "alloc_counter n = (ac, n1)" by fastforce
  show ?thesis
  proof (cases ac)
    case None
    with run a emits_alloc_only [OF a] show ?thesis by (simp add: host_answer_def)
  next
    case (Some c)
    obtain b air1 n2 where x: "tx_pair enc (ht_resp_elapsed t) (ht_resp_ok t) JOIN_FRAME_KEY (pair_header FtJoinResp (nt_addr n1) peer c)
        (join_resp C eph e_node peer (nt_addr n1)) n1 = (b, air1, n2)" by (metis prod.exhaust)
    have E: "emits fl n air1 n2" using emits_tx_pair [OF a [unfolded Some] x] by simp
    show ?thesis
      using run a Some x E emits_trans [OF E emits_host_reveal]
      by (auto simp: host_answer_def split: option.splits prod.splits bool.splits if_splits)
  qed
qed

lemma quiet_pair_log [quiet_rules]: "quiet n (n\<lparr>nt_pair_log := l\<rparr>)"
  by (rule quiet_fields) auto

lemma emits_open_pairing_loop:
  "open_pairing_loop C enc deadline ts h n = (r, air, h', n') \<Longrightarrow> emits fl n air n'"
proof (induction ts arbitrary: h n r air h' n')
  case (Cons t ts)
  obtain ok h1 where h1: "host_ready C (ht_trng t) h = (ok, h1)" by fastforce
  have log: "emits fl n a n2" if "open_pairing_loop C enc deadline ts h1 (n\<lparr>nt_pair_log := l\<rparr>) = (q, a, h2, n2)" for q a h2 n2 l
    using emits_before [OF quiet_pair_log Cons.IH [OF that]] .
  have ans: "emits fl n (a @ b) n3"
    if "host_answer C enc t eph x y n = (s, a, n2)" "open_pairing_loop C enc deadline ts hh n2 = (q, b, h2, n3)" for eph x y s a n2 hh q b h2 n3
    using emits_trans [OF emits_host_answer [OF that(1)] Cons.IH [OF that(2)]] .
  show ?case
    using Cons.prems h1 Cons.IH log ans emits_host_answer
    by (auto split: if_splits option.splits prod.splits bool.splits pair_step.splits)
qed simp

lemma emits_open_pairing: "open_pairing C enc now span ts h n = (r, air, h', n') \<Longrightarrow> emits fl n air n'"
  by (auto simp: open_pairing_def intro: emits_open_pairing_loop split: option.splits if_splits)

lemma emits_join_answered:
  assumes run: "join_answered C enc t eph addr gw resp n = (r, air, n')"
  shows "emits fl n air n'"
proof -
  obtain ac n1 where a: "alloc_counter n = (ac, n1)" by fastforce
  show ?thesis
  proof (cases ac)
    case None
    with run a emits_alloc_only [OF a] show ?thesis by (simp add: join_answered_def Let_def)
  next
    case (Some c)
    obtain b air1 n2 where x: "tx_pair enc (jt_nonce_elapsed t) (jt_nonce_ok t) JOIN_FRAME_KEY (pair_header FtJoinNonce addr gw c)
        ([HS_VERSION] @ ep_nonce eph) n1 = (b, air1, n2)" by (metis prod.exhaust)
    have E: "emits fl n air1 n2" using emits_tx_pair [OF a [unfolded Some] x] by simp
    obtain ac' n3 where a': "alloc_counter n2 = (ac', n3)" by fastforce
    have stop: "emits fl n air1 n3" using emits_trans [OF E emits_alloc_only [OF a']] by simp
    have conf: "emits fl n (air1 @ air2) n4"
      if "ac' = Some c'" "tx_pair enc (jt_conf_elapsed t) (jt_conf_ok t) (se_link_key s) (pair_header FtJoinConfirm addr gw c')
          ([HS_VERSION] @ session_tag RoleNode s) n3 = (b', air2, n4)" for c' s b' air2 n4
      using emits_trans [OF E emits_tx_pair [OF a' [unfolded that(1)] that(2)]] by simp
    show ?thesis
      using run a Some x E a' stop conf
      by (auto simp: join_answered_def Let_def split: option.splits prod.splits bool.splits)
  qed
qed

lemma emits_join_loop: "join_loop C enc addr deadline ts u n = (r, air, n') \<Longrightarrow> emits fl n air n'"
proof (induction ts arbitrary: u n r air n')
  case (Cons t ts)
  obtain ac n1 where a: "alloc_counter n = (ac, n1)" by fastforce
  show ?case
  proof (cases "\<exists>c eph. ac = Some c \<and> (case u of Some e \<Rightarrow> Some e | None \<Rightarrow> trng_ephemeral C (jt_trng t)) = Some eph")
    case False
    with Cons.prems a emits_alloc_only [OF a] show ?thesis by (auto split: if_splits option.splits)
  next
    case True
    then obtain c eph where ac: "ac = Some c" and e: "(case u of Some e \<Rightarrow> Some e | None \<Rightarrow> trng_ephemeral C (jt_trng t)) = Some eph" by blast
    obtain b air1 n2 where x: "tx_pair enc (jt_req_elapsed t) (jt_req_ok t) JOIN_FRAME_KEY (pair_header FtJoinReq addr 0 c)
        ([HS_VERSION] @ ep_public eph) n1 = (b, air1, n2)" by (metis prod.exhaust)
    have E: "emits fl n air1 n2" using emits_tx_pair [OF a [unfolded ac] x] by simp
    have rec: "emits fl n (air1 @ b) m" if "join_loop C enc addr deadline ts v n2 = (q, b, m)" for v q b m
      using emits_trans [OF E Cons.IH [OF that]] .
    have ans: "emits fl n (air1 @ b) m" if "join_answered C enc t eph addr gw resp n2 = (q, b, m)" for gw resp q b m
      using emits_trans [OF E emits_join_answered [OF that]] .
    have both: "emits fl n (air1 @ b @ d) m'"
      if "join_answered C enc t eph addr gw resp n2 = (q, b, m)" "join_loop C enc addr deadline ts v m = (q', d, m')" for gw resp q b m v q' d m'
      using emits_trans [OF ans [OF that(1)] Cons.IH [OF that(2)]] by simp
    show ?thesis
      using Cons.prems a ac e x rec ans both
      by (auto split: if_splits option.splits prod.splits bool.splits pair_step.splits)
  qed
qed simp

lemma emits_join: "net_join C enc addr now timeout ts n = (r, air, n') \<Longrightarrow> emits fl n air n'"
  by (auto simp: net_join_def intro: emits_join_loop split: option.splits if_splits)

lemma emits_join_keyed_loop: "join_keyed_loop enc addr key deadline ts n = (r, air, n') \<Longrightarrow> emits fl n air n'"
proof (induction ts arbitrary: n r air n')
  case (Cons t ts)
  obtain granted g where d: "try_tx (nt_duty n) (kt_elapsed t) (frame_toa_ms (of_nat KEYED_FRAME_LEN)) = (granted, g)" by fastforce
  let ?n = "n\<lparr>nt_duty := g\<rparr>"
  have q: "quiet n ?n" by (rule quiet_rules)
  have skip: "emits fl n a m" if "join_keyed_loop enc addr key deadline ts ?n = (s, a, m)" for s a m
    using emits_before [OF q Cons.IH [OF that]] .
  obtain ac n1 where a: "alloc_counter ?n = (ac, n1)" by fastforce
  have stop: "emits fl n [] n1" using emits_before [OF q emits_alloc_only [OF a]] .
  have one: "emits fl n [f] n1" if "ac = Some c" "seal_frame enc key (keyed_req_header addr c) (u32_le addr) MAX_FRAME = Inr f" for c f
    using emits_before [OF q emits_alloc [OF a [unfolded that(1)] _ _ that(2), of n1 "[f]"]] by simp
  have more: "emits fl n (f # b) m"
    if "ac = Some c" "seal_frame enc key (keyed_req_header addr c) (u32_le addr) MAX_FRAME = Inr f"
      "join_keyed_loop enc addr key deadline ts n1 = (s, b, m)" for c f s b m
    using emits_trans [OF one [OF that(1,2)] Cons.IH [OF that(3)]] by simp
  show ?case
    using Cons.prems d a skip stop one more by (auto split: if_splits option.splits prod.splits bool.splits sum.splits)
qed simp

lemma emits_join_keyed: "join_keyed enc addr key now timeout ts n = (r, air, n') \<Longrightarrow> emits fl n air n'"
  by (auto simp: join_keyed_def intro: emits_join_keyed_loop split: option.splits if_splits)

end
