(* ===== verification/Fw_Life.thy ===== *)
theory Fw_Life
  imports Fw_Pairing
begin

text \<open>
  The life of a device: bulk transfers and frequency hopping as emissions, then every method of
  \<open>Net\<close>, other users of the shared store and power cycles as the events of a run. Over any run no
  two different frames share a nonce.
\<close>

section \<open>Bulk transfers\<close>

text \<open>The documented contract of a source: one offset reads the same all through a transfer.\<close>

definition deterministic :: "bulk_source \<Rightarrow> bool" where
  "deterministic src \<longleftrightarrow> (\<forall>i j off len. bs_read src i off len = bs_read src j off len)"

lemma tx_frame_quiet:
  "tx_frame enc e ok key h p n = (b, air, n') \<Longrightarrow>
     quiet n n' \<and> (air = [] \<or> (\<exists>f. air = [f] \<and> seal_frame enc key h p MAX_FRAME = Inr f))"
  by (auto simp: tx_frame_def quiet_duty split: sum.splits prod.splits if_splits)

lemma n_chunks_bound: "total_len \<le> MAX_BULK_LEN \<Longrightarrow> n_chunks_of total_len \<le> 2 ^ 24"
  by (auto simp: n_chunks_of_def MAX_BULK_LEN_def BULK_CHUNK_def)

text \<open>The frames a serving session may send.\<close>

definition session_frame :: "(bytes \<Rightarrow> bytes \<Rightarrow> bytes) \<Rightarrow> bulk_source \<Rightarrow> bulk_session \<Rightarrow> u32 \<Rightarrow> bytes \<Rightarrow> bool" where
  "session_frame enc src z addr f \<longleftrightarrow>
     seal_frame enc (bz_key z) (bz_ann_hdr z) (bz_ann z) MAX_FRAME = Inr f \<or>
     (\<exists>k < n_chunks_of (bs_total_len src).
        seal_frame enc (bz_key z) (chunk_header addr (bz_dest z) (bz_session z) k (k = n_chunks_of (bs_total_len src) - 1))
          (bs_read src 0 (k * BULK_CHUNK) (min (bs_total_len src - k * BULK_CHUNK) BULK_CHUNK)) MAX_FRAME = Inr f)"

lemma bulk_serve_loop_quiet:
  assumes "deterministic src"
  shows "bulk_serve_loop enc src z ts i got served prog n = (r, air, n') \<Longrightarrow>
     quiet n n' \<and> (\<forall>f \<in> set air. session_frame enc src z (nt_addr n) f)"
proof (induction ts arbitrary: i got served prog n r air n')
  case (Cons t ts)
  let ?nch = "n_chunks_of (bs_total_len src)"
  show ?case
  proof (cases "(if served then 2000 else BULK_IDLE) \<le> bt_now t - prog")
    case True
    with Cons.prems show ?thesis by simp
  next
    case busy: False
    obtain x air0 n0 where a0: "(if got then (True, [], n)
        else tx_frame enc (bt_ann_elapsed t) (bt_ann_ok t) (bz_key z) (bz_ann_hdr z) (bz_ann z) n) = (x, air0, n0)"
      by (metis prod.exhaust)
    have A: "quiet n n0" "\<forall>f \<in> set air0. session_frame enc src z (nt_addr n) f"
      using a0 tx_frame_quiet by (fastforce simp: session_frame_def split: if_splits)+
    have addr: "nt_addr n0 = nt_addr n" using A(1) by (simp add: quiet_def)
    show ?thesis
    proof (cases "bulk_request enc z ?nch (bt_heard t) n0")
      case None
      obtain r1 air1 n1 where s: "bulk_serve_loop enc src z ts i got served prog n0 = (r1, air1, n1)" by (metis prod.exhaust)
      have "air = air0 @ air1" "n' = n1" using Cons.prems busy a0 None s by (auto simp: Let_def split: prod.splits)
      with Cons.IH [OF s] A addr quiet_trans show ?thesis by auto
    next
      case (Some k)
      then have k: "k < ?nch" by (auto simp: bulk_request_def Let_def split: option.splits if_splits)
      let ?h = "chunk_header (nt_addr n0) (bz_dest z) (bz_session z) k (k = ?nch - 1)"
      let ?rd = "\<lambda>i. bs_read src i (k * BULK_CHUNK) (min (bs_total_len src - k * BULK_CHUNK) BULK_CHUNK)"
      obtain y air1 n1 where a1: "tx_frame enc (bt_elapsed t) (bt_ok t) (bz_key z) ?h (?rd i) n0 = (y, air1, n1)" by (metis prod.exhaust)
      have rd: "?rd i = ?rd 0" using assms unfolding deterministic_def by blast
      have B: "quiet n0 n1" "\<forall>f \<in> set air1. session_frame enc src z (nt_addr n) f"
        using tx_frame_quiet [OF a1] k addr rd by (auto simp: session_frame_def)
      obtain r2 air2 n2 where s: "bulk_serve_loop enc src z ts (Suc i) True (served \<or> k = ?nch - 1) (bt_progress t) n1 = (r2, air2, n2)"
        by (metis prod.exhaust)
      have e: "air = air0 @ air1 @ air2" "n' = n2" using Cons.prems busy a0 Some a1 s by (auto simp: Let_def split: prod.splits)
      have q: "quiet n n2" using Cons.IH [OF s] B(1) A(1) quiet_trans by blast
      have "nt_addr n1 = nt_addr n" using B(1) addr by (simp add: quiet_def)
      with Cons.IH [OF s] have "\<forall>f \<in> set air2. session_frame enc src z (nt_addr n) f" by simp
      with A(2) B(2) q show ?thesis unfolding e by auto
    qed
  qed
qed simp

lemma session_coherent:
  assumes z: "bz_ann_hdr z = announce_header addr (bz_dest z) a" "a \<noteq> bz_session z"
    and tot: "bs_total_len src \<le> MAX_BULK_LEN" and fr: "\<forall>f \<in> set air. session_frame enc src z addr f"
  shows "carries [bz_session z, a] air \<and> coherent air"
proof -
  let ?nch = "n_chunks_of (bs_total_len src)"
  let ?ch = "\<lambda>k. chunk_header addr (bz_dest z) (bz_session z) k (k = ?nch - 1)"
  note nb = n_chunks_bound [OF tot]
  have cases: "frame_hdr f = Some (bz_ann_hdr z) \<and> seal_frame enc (bz_key z) (bz_ann_hdr z) (bz_ann z) MAX_FRAME = Inr f \<or>
      (\<exists>k < ?nch. frame_hdr f = Some (?ch k) \<and> header_wf (?ch k) \<and>
        seal_frame enc (bz_key z) (?ch k) (bs_read src 0 (k * BULK_CHUNK) (min (bs_total_len src - k * BULK_CHUNK) BULK_CHUNK)) MAX_FRAME = Inr f)"
    if "f \<in> set air" for f
  proof -
    have wf: "header_wf (bz_ann_hdr z)" using z by simp
    have wk: "header_wf (?ch k)" if "k < ?nch" for k using that nb by simp
    from fr \<open>f \<in> set air\<close> have "session_frame enc src z addr f" by blast
    then show ?thesis unfolding session_frame_def using sealed_hdr [OF _ wf] sealed_hdr [OF _ wk] wk by blast
  qed
  have "carries [bz_session z, a] air" using cases z by (fastforce simp: carries_def)
  moreover have "coherent air"
    unfolding coherent_def
  proof (intro ballI impI)
    fix f g assume f: "f \<in> set air" and g: "g \<in> set air" and n: "frame_nonce f = frame_nonce g"
    have wf: "header_wf (bz_ann_hdr z)" and ca: "h_counter (bz_ann_hdr z) = a" using z by simp_all
    have same: "k = k'" if "k < ?nch" "k' < ?nch" "header_wf (?ch k)" "header_wf (?ch k')" "header_nonce (?ch k) = header_nonce (?ch k')" for k k'
    proof -
      have "(of_nat k :: u32) = of_nat k'" using header_nonce_counter(2) [OF that(3-5)] by (simp add: chunk_header_def)
      then have "unat (of_nat k :: u32) = unat (of_nat k' :: u32)" by simp
      moreover have "k < 2 ^ 32" "k' < 2 ^ 32" using that(1,2) nb by simp_all
      ultimately show ?thesis by (simp add: unat_of_nat)
    qed
    have apart: "header_nonce (?ch k) \<noteq> header_nonce (bz_ann_hdr z)" if "header_wf (?ch k)" for k
      using header_nonce_counter(1) [OF that wf] ca z(2) by auto
    define ch where "ch k = ?ch k" for k
    note [simp del] = One_nat_def
    from cases [OF f] cases [OF g] show "f = g"
      unfolding ch_def [symmetric]
    proof (elim disjE exE conjE)
      fix k k' assume k: "k < ?nch" "k' < ?nch" "header_wf (ch k)" "header_wf (ch k')"
        and h: "frame_hdr f = Some (ch k)" "frame_hdr g = Some (ch k')"
        and sf: "seal_frame enc (bz_key z) (ch k) (bs_read src 0 (k * BULK_CHUNK) (min (bs_total_len src - k * BULK_CHUNK) BULK_CHUNK)) MAX_FRAME = Inr f"
          "seal_frame enc (bz_key z) (ch k') (bs_read src 0 (k' * BULK_CHUNK) (min (bs_total_len src - k' * BULK_CHUNK) BULK_CHUNK)) MAX_FRAME = Inr g"
      have "header_nonce (ch k) = header_nonce (ch k')" using n h by (simp add: frame_nonce_def)
      then have "k = k'" using same k unfolding ch_def [symmetric] by blast
      with sf show ?thesis by simp
    qed (use n apart in \<open>auto simp: frame_nonce_def ch_def\<close>)
  qed
  ultimately show ?thesis ..
qed

lemma emits_bulk_serve:
  assumes det: "deterministic src" and run: "bulk_serve_from enc dest src now turns n = (r, air, n')"
  shows "emits fl n air n'"
proof -
  obtain ac n1 where a: "alloc_counter n = (ac, n1)" by fastforce
  obtain bc n2 where b: "alloc_counter n1 = (bc, n2)" by fastforce
  note one = emits_alloc_only [OF a] and two = emits_trans [OF emits_alloc_only [OF a] emits_alloc_only [OF b], simplified]
  show ?thesis
  proof (cases "\<exists>c s. ac = Some c \<and> bc = Some s \<and> bs_total_len src \<le> MAX_BULK_LEN")
    case False
    with run a b one two show ?thesis by (auto simp: bulk_serve_from_def Let_def not_le split: if_splits option.splits)
  next
    case True
    then obtain c s where c: "ac = Some c" and s: "bc = Some s" and tot: "bs_total_len src \<le> MAX_BULK_LEN" by blast
    define z where "z = \<lparr>bz_dest = dest, bz_key = key_for dest n, bz_session = s,
        bz_ann_hdr = announce_header (nt_addr n2) dest c, bz_ann = u32_le (of_nat (bs_total_len src)) @ u32_le s\<rparr>"
    obtain r' air' n3 where l: "bulk_serve_loop enc src z turns 0 False False now n2 = (r', air', n3)" by (metis prod.exhaust)
    note L = bulk_serve_loop_quiet [OF det l]
    have "emits fl n air' n3"
      unfolding emits_def
    proof (intro allI impI)
      fix sent assume i: "node_inv fl n sent"
      note i1 = alloc_inv [OF a [unfolded c] i]
      note i2 = alloc_inv [OF b [unfolded s] i1(1)]
      have "c \<noteq> s" using inv_distinct [OF i2(1)] by auto
      then have "carries [s, c] air' \<and> coherent air'"
        using session_coherent [of z "nt_addr n2" c src air' enc] L tot by (simp add: z_def)
      moreover have "node_inv fl n3 ([s, c] @ sent)" using quiet_inv [OF L [THEN conjunct1] i2(1)] by simp
      moreover have "\<forall>x \<in> set [s, c]. fl \<le> x" using i1(2) i2(2) by simp
      ultimately show "\<exists>cs. node_inv fl n3 (cs @ sent) \<and> carries cs air' \<and> coherent air' \<and> (\<forall>c \<in> set cs. fl \<le> c)" by blast
    qed
    with run a b c s tot l show ?thesis by (auto simp: bulk_serve_from_def Let_def z_def split: if_splits)
  qed
qed

lemma fetch_chunk_quiet:
  "fetch_chunk enc sink key src session tot k h ts s n = (r, air, s', n') \<Longrightarrow>
     quiet n n' \<and> (\<forall>f \<in> set air. seal_frame enc key h (u32_le session) MAX_FRAME = Inr f)"
proof (induction ts arbitrary: s n r air s' n')
  case (Cons t ts)
  obtain sent air1 n1 where t: "tx_frame enc (by_elapsed t) (by_ok t) key h (u32_le session) n = (sent, air1, n1)" by (metis prod.exhaust)
  note T = tx_frame_quiet [OF t]
  obtain r2 air2 s2 n2 where f: "fetch_chunk enc sink key src session tot k h ts s n1 = (r2, air2, s2, n2)" by (metis prod.exhaust)
  have q: "quiet n n2" using Cons.IH [OF f] T quiet_trans by blast
  have "(r, air, s', n') = (r2, air1 @ air2, s2, n2) \<or> (air = air1 \<and> n' = n1)"
    using Cons.prems t f by (auto simp: Let_def split: if_splits option.splits prod.splits bool.splits)
  with q T Cons.IH [OF f] show ?case by auto
qed simp

lemma emits_fetch_chunks:
  "\<forall>k \<in> set ks. k < 2 ^ 24 \<Longrightarrow> fetch_chunks enc sink key src session tot env ks rcv s n = (r, air, s', n') \<Longrightarrow> emits fl n air n'"
proof (induction ks arbitrary: rcv s n r air s' n')
  case (Cons k ks)
  obtain ac n1 where a: "alloc_counter n = (ac, n1)" by fastforce
  show ?case
  proof (cases ac)
    case None
    with Cons.prems a emits_alloc_only [OF a] show ?thesis by auto
  next
    case (Some c)
    let ?h = "request_header (nt_addr n1) src c k"
    obtain r1 air1 s1 n2 where f: "fetch_chunk enc sink key src session tot k ?h (map (env k) [0..<BULK_REQ_REPS]) s n1 = (r1, air1, s1, n2)"
      by (metis prod.exhaust)
    note F = fetch_chunk_quiet [OF f]
    have E: "emits fl n air1 n2"
    proof (cases air1)
      case Nil
      then show ?thesis using emits_after [OF emits_alloc_only [OF a]] F by simp
    next
      case (Cons frame rest)
      then have sf: "seal_frame enc key ?h (u32_le session) MAX_FRAME = Inr frame" using F by simp
      show ?thesis by (rule emits_alloc [OF a [unfolded Some] _ _ sf]) (use F sf \<open>\<forall>k \<in> set (k # ks). _\<close> in auto)
    qed
    show ?thesis
    proof (cases r1)
      case (Got m)
      obtain r2 air2 s2 n3 where g: "fetch_chunks enc sink key src session tot env ks (rcv + m) s1 n2 = (r2, air2, s2, n3)"
        by (metis prod.exhaust)
      have "emits fl n2 air2 n3" using Cons.IH [OF _ g] Cons.prems(1) by simp
      from emits_trans [OF E this] Cons.prems(2) a Some f Got g show ?thesis by auto
    qed (use Cons.prems(2) a Some f E in auto)
  qed
qed simp

lemma emits_bulk_fetch: "bulk_fetch_into enc src sink heard env s n = (r, air, s', n') \<Longrightarrow> emits fl n air n'"
proof -
  assume run: "bulk_fetch_into enc src sink heard env s n = (r, air, s', n')"
  have E: "emits fl n air'' n''" if "tot \<le> MAX_BULK_LEN"
      "fetch_chunks enc sink key src session tot env [0..<n_chunks_of tot] 0 s0 n = (r'', air'', s'', n'')"
    for tot key session s0 r'' air'' s'' n''
    using emits_fetch_chunks [OF _ that(2)] n_chunks_bound [OF that(1)] by simp
  show ?thesis
    using run E by (auto simp: bulk_fetch_into_def Let_def not_less split: if_splits option.splits prod.splits bool.splits)
qed

section \<open>Frequency hopping\<close>

lemma emits_tx_beacon: "fhss_tx_beacon enc slot ch n = (air, n') \<Longrightarrow> emits fl n air n'"
proof -
  assume run: "fhss_tx_beacon enc slot ch n = (air, n')"
  obtain ac n1 where a: "alloc_counter n = (ac, n1)" by fastforce
  note none = emits_alloc_only [OF a]
  define pl where "pl = beacon_payload (eg_epoch (fh_gate (nt_fhss n))) slot"
  show ?thesis
  proof (cases "\<exists>c frame. ac = Some c \<and> seal_frame enc (fh_key (nt_fhss n1)) (beacon_header (nt_addr n1) c) pl MAX_FRAME = Inr frame")
    case False
    with run a none show ?thesis
      by (auto simp: fhss_tx_beacon_def Let_def pl_def split: if_splits option.splits sum.splits)
  next
    case True
    then obtain c frame where ac: "ac = Some c"
      and f: "seal_frame enc (fh_key (nt_fhss n1)) (beacon_header (nt_addr n1) c) pl MAX_FRAME = Inr frame" by blast
    have "emits fl n [frame] (set_fhss x n1)" for x
      by (rule emits_alloc [OF a [unfolded ac] quiet_duty(4) _ f]) simp_all
    with run a ac f show ?thesis by (auto simp: fhss_tx_beacon_def Let_def pl_def split: if_splits)
  qed
qed

lemma emits_master_tick: "fhss_master_tick enc now now' heard n = (m, air, n') \<Longrightarrow> emits fl n air n'"
proof -
  assume run: "fhss_master_tick enc now now' heard n = (m, air, n')"
  show ?thesis
  proof (cases "fh_role (nt_fhss n) \<noteq> FhssMaster \<or> fh_anchor (nt_fhss n) = None")
    case True
    with run show ?thesis by (auto simp: fhss_master_tick_def split: if_splits)
  next
    case False
    then obtain anchor where an: "fh_anchor (nt_fhss n) = Some anchor" by auto
    define slot ch where "slot = fhss_cur_slot anchor now + 1" and "ch = fhss_channel_for (fh_seed (nt_fhss n)) slot"
    define n0 where "n0 = set_fhss ((nt_fhss n)\<lparr>fh_cur_channel := ch\<rparr>) n"
    obtain air1 n1 where b: "fhss_tx_beacon enc slot ch n0 = (air1, n1)" by fastforce
    have E: "emits fl n air1 n1" using emits_before [OF _ emits_tx_beacon [OF b]] quiet_duty(4) by (simp add: n0_def)
    have R: "emits fl n (air1 @ air2) n2" if "net_recv enc r n1 = (x, air2, n2)" for r x air2 n2
      using emits_trans [OF E emits_recv [OF that]] .
    show ?thesis
      using run False an b E R
      by (auto simp: fhss_master_tick_def Let_def slot_def [symmetric] ch_def [symmetric] n0_def [symmetric]
          split: if_splits option.splits prod.splits)
  qed
qed

lemma emits_fhss_send: "fhss_send enc dest data confirmed now tx heard n = (r, air, n') \<Longrightarrow> emits fl n air n'"
proof -
  assume run: "fhss_send enc dest data confirmed now tx heard n = (r, air, n')"
  obtain ac n1 where a: "alloc_counter n = (ac, n1)" by fastforce
  note none = emits_alloc_only [OF a]
  show ?thesis
  proof (cases "\<exists>c frame. ac = Some c \<and> seal_frame enc (key_for dest n1) (data_header (nt_addr n1) dest c confirmed) data MAX_FRAME = Inr frame")
    case False
    with run a none show ?thesis
      by (auto simp: fhss_send_def Let_def split: if_splits option.splits sum.splits)
  next
    case True
    then obtain c frame where ac: "ac = Some c"
      and f: "seal_frame enc (key_for dest n1) (data_header (nt_addr n1) dest c confirmed) data MAX_FRAME = Inr frame" by blast
    have Q: "emits fl n [frame] m" if "quiet n1 m" for m
      by (rule emits_alloc [OF a [unfolded ac] that _ f]) simp_all
    have W: "emits fl n [frame] m" if "await_ack enc dest c heard (set_fhss x n1) = (b, m)" for x b m
      using Q [OF quiet_trans [OF quiet_duty(4) quiet_small(3)]] that by (metis snd_conv)
    show ?thesis
      using run a ac f Q [OF quiet_duty(4)] W
      by (auto simp: fhss_send_def Let_def split: if_splits option.splits prod.splits bool.splits)
  qed
qed

lemma quiet_node_tick [quiet_rules]: "quiet n (snd (fhss_node_tick enc e n))"
  by (simp add: fhss_node_tick_def quiet_duty split: prod.splits)

lemma quiet_node_ticks: "quiet n (node_ticks enc es n)"
  by (induction es arbitrary: n) (auto intro: quiet_trans [OF quiet_node_tick])

lemma quiet_retry_backoff [quiet_rules]: "quiet n (fhss_retry_backoff enc env n)"
  using quiet_trans [OF quiet_small(2) quiet_node_ticks] by (auto simp: fhss_retry_backoff_def split: prod.splits) (metis snd_conv)

lemma quiet_enable_fhss [quiet_rules]: "quiet n (enable_fhss role cfg now n)"
proof (cases role)
  case FhssMaster
  have "KEY_FHSS_EPOCH \<noteq> KEY_WATERMARK" by (simp add: KEY_FHSS_EPOCH_def KEY_WATERMARK_def)
  then show ?thesis using FhssMaster
    by (auto simp: enable_fhss_def Let_def intro: quiet_net_set)
qed (simp add: enable_fhss_def Let_def quiet_fields)

lemma quiet_modes [quiet_rules]:
  "quiet n (disable_fhss n)" "quiet n (fhss_suspend tuned b n)" "quiet n (fhss_resume n)" "quiet n (enable_afa ar p n)"
  "quiet n (disable_afa n)" "quiet n (set_band tuned b n)" "quiet n (set_default_lane on n)" "quiet n (set_lane_persist_period per n)"
  "quiet n (set_keyed_join on n)" "quiet n (snd (take_keyed_join n))"
  by (auto simp: disable_fhss_def fhss_suspend_def fhss_resume_def enable_afa_def disable_afa_def set_band_def Let_def
      set_default_lane_def set_lane_persist_period_def set_keyed_join_def take_keyed_join_def intro!: quiet_fields)

section \<open>Events\<close>

text \<open>The methods of \<open>Net\<close>, and a call another user makes on the shared store.\<close>

datatype 's net_act =
    Send u32 bytes bool u8 "nat \<Rightarrow> attempt"
  | Recv reception
  | AfaSend u32 bytes bool u8 "nat \<Rightarrow> afa_attempt"
  | AfaServe "(bool \<times> reception option) list"
  | BulkServe u32 bulk_source nat "bulk_turn list"
  | BulkFetch u32 "'s bulk_sink" "bytes list" "nat \<Rightarrow> nat \<Rightarrow> bulk_try" 's
  | FhssSend u32 bytes bool u64 "radio_error option" "bytes list"
  | MasterTick u64 u64 "reception option"
  | NodeTick node_env
  | RetryBackoff "nat \<Rightarrow> node_env"
  | EnableFhss fhss_role fhss_config u64
  | DisableFhss
  | FhssSuspend bool band
  | FhssResume
  | EnableAfa afa_role nat
  | DisableAfa
  | SetBand bool band
  | RaiseFloor u32
  | AddPeer u32 bytes
  | RemovePeer u32
  | SetPending u32 bool
  | RaisePeerFloor u32 u32
  | SetDefaultLane bool
  | SetLanePersist u8
  | SetKeyedJoin bool
  | TakeKeyedJoin
  | OpenPairing crypto u64 u64 "host_turn list" pairing_host
  | Join crypto u32 u64 u64 "join_turn list"
  | JoinKeyed u32 bytes u64 u64 "keyed_turn list"
  | StoreCall fw_op

definition store_call :: "fw_op \<Rightarrow> net \<Rightarrow> net" where
  "store_call c n = n\<lparr>nt_kv := (nt_kv n)\<lparr>nv_kv := snd (fw_call c (nv_kv (nt_kv n)))\<rparr>\<rparr>"

text \<open>An action: the frames it hands to the radio and the state after it.\<close>

fun net_do :: "(bytes \<Rightarrow> bytes \<Rightarrow> bytes) \<Rightarrow> 's net_act \<Rightarrow> net \<Rightarrow> bytes list \<times> net" where
  "net_do enc (Send dest data confirmed reps env) n = snd (net_send enc dest data confirmed reps env n)"
| "net_do enc (Recv r) n = snd (net_recv enc r n)"
| "net_do enc (AfaSend dest data confirmed reps env) n = snd (afa_send enc dest data confirmed reps env n)"
| "net_do enc (AfaServe ss) n = snd (afa_serve enc ss n)"
| "net_do enc (BulkServe dest src now turns) n = snd (bulk_serve_from enc dest src now turns n)"
| "net_do enc (BulkFetch src sink heard env s) n = (case bulk_fetch_into enc src sink heard env s n of (_, air, _, n') \<Rightarrow> (air, n'))"
| "net_do enc (FhssSend dest data confirmed now tx heard) n = snd (fhss_send enc dest data confirmed now tx heard n)"
| "net_do enc (MasterTick now now' heard) n = snd (fhss_master_tick enc now now' heard n)"
| "net_do enc (NodeTick e) n = ([], snd (fhss_node_tick enc e n))"
| "net_do enc (RetryBackoff env) n = ([], fhss_retry_backoff enc env n)"
| "net_do enc (EnableFhss role cfg now) n = ([], enable_fhss role cfg now n)"
| "net_do enc DisableFhss n = ([], disable_fhss n)"
| "net_do enc (FhssSuspend tuned b) n = ([], fhss_suspend tuned b n)"
| "net_do enc FhssResume n = ([], fhss_resume n)"
| "net_do enc (EnableAfa role primary) n = ([], enable_afa role primary n)"
| "net_do enc DisableAfa n = ([], disable_afa n)"
| "net_do enc (SetBand tuned b) n = ([], set_band tuned b n)"
| "net_do enc (RaiseFloor f) n = ([], snd (raise_tx_floor f n))"
| "net_do enc (AddPeer a key) n = ([], snd (add_peer enc a key n))"
| "net_do enc (RemovePeer a) n = ([], snd (remove_peer a n))"
| "net_do enc (SetPending a p) n = ([], snd (set_pending a p n))"
| "net_do enc (RaisePeerFloor a seen) n = ([], snd (raise_peer_floor enc a seen n))"
| "net_do enc (SetDefaultLane on) n = ([], set_default_lane on n)"
| "net_do enc (SetLanePersist p) n = ([], set_lane_persist_period p n)"
| "net_do enc (SetKeyedJoin on) n = ([], set_keyed_join on n)"
| "net_do enc TakeKeyedJoin n = ([], snd (take_keyed_join n))"
| "net_do enc (OpenPairing C now span ts h) n = (case open_pairing C enc now span ts h n of (_, air, _, n') \<Rightarrow> (air, n'))"
| "net_do enc (Join C a now timeout ts) n = snd (net_join C enc a now timeout ts n)"
| "net_do enc (JoinKeyed a key now timeout ts) n = snd (join_keyed enc a key now timeout ts n)"
| "net_do enc (StoreCall c) n = ([], store_call c n)"

text \<open>Other users write under their own keys; a source keeps its contract.\<close>

definition WM_KEY :: u16 where
  "WM_KEY = ns_key NS_NET KEY_WATERMARK"

fun act_ok :: "'s net_act \<Rightarrow> bool" where
  "act_ok (BulkServe dest src now turns) = deterministic src"
| "act_ok (StoreCall (OpSet key v)) = (key \<noteq> WM_KEY)"
| "act_ok (StoreCall (OpDelete key)) = (key \<noteq> WM_KEY)"
| "act_ok a = True"

datatype 's node_event = Act "'s net_act" | Cycle "(nat \<times> tear) option" net_config

fun event_ok :: "'s node_event \<Rightarrow> bool" where
  "event_ok (Act a) = act_ok a"
| "event_ok (Cycle pc cfg) = clean_event (PowerCycle pc)"

text \<open>A power cycle: the store is mounted again and \<open>Net::new\<close> runs, perhaps with another
  configuration.\<close>

definition net_cycle :: "(nat \<times> tear) option \<Rightarrow> net_config \<Rightarrow> net \<Rightarrow> net" where
  "net_cycle pc cfg n = net_new cfg \<lparr>nv_kv = fw_cycle pc (nv_kv (nt_kv n)), nv_wake = False\<rparr>"

text \<open>A run: the frames handed to the radio and the device at the end. Without power nothing runs.\<close>

fun node_life :: "(bytes \<Rightarrow> bytes \<Rightarrow> bytes) \<Rightarrow> 's node_event list \<Rightarrow> net \<Rightarrow> bytes list \<times> net" where
  "node_life enc [] n = ([], n)"
| "node_life enc (Cycle pc cfg # es) n = node_life enc es (net_cycle pc cfg n)"
| "node_life enc (Act a # es) n =
     (if fw_off (nv_kv (nt_kv n)) then node_life enc es n
      else case net_do enc a n of (air, n1) \<Rightarrow> (case node_life enc es n1 of (air', n2) \<Rightarrow> (air @ air', n2)))"

section \<open>Nonce safety over a life\<close>

lemma quiet_store_call:
  assumes "act_ok (StoreCall c)" and "\<not> fw_off (nv_kv (nt_kv n))"
  shows "quiet n (store_call c n)"
proof -
  obtain ok k where c: "fw_call c (nv_kv (nt_kv n)) = (ok, k)" by fastforce
  have keep: "apply_op c m WM_KEY = m WM_KEY" for m
    using assms(1) by (cases c) (auto simp: kv_put_def)
  have "fw_inv k \<and> fw_abs k WM_KEY = fw_abs (nv_kv (nt_kv n)) WM_KEY" if "node_ok n"
    using fw_call_post [OF _ assms(2) c] that keep by (auto simp: node_ok_def)
  with c show ?thesis by (simp add: quiet_def store_call_def node_ok_def WM_KEY_def)
qed

lemma emits_raise: "emits fl n [] (snd (raise_tx_floor f n))"
proof -
  obtain b n' where r: "raise_tx_floor f n = (b, n')" by fastforce
  have "node_inv fl n' sent" if "node_inv fl n sent" for sent
    using step_inv(1) [of fl n sent n' "[]"] raise_tx_floor_step [OF r] that by simp
  then show ?thesis unfolding r by (intro emits_stay) simp
qed

lemma snd_eqD: "snd p = (x, y) \<Longrightarrow> p = (fst p, x, y)"
  by (cases p) simp

lemmas emits_methods = emits_join emits_join_keyed emits_net_send emits_recv emits_afa_send emits_afa_scan emits_fhss_send emits_master_tick

lemma emits_do:
  assumes "act_ok a" and "\<not> fw_off (nv_kv (nt_kv n))" and "net_do enc a n = (air, n')"
  shows "emits fl n air n'"
proof (cases a)
  case (BulkServe dest src now turns)
  then show ?thesis using assms emits_bulk_serve by (cases "bulk_serve_from enc dest src now turns n") auto
next
  case (StoreCall c)
  then show ?thesis using assms by (auto intro!: emits_quiet quiet_store_call)
next
  case (BulkFetch src sink heard env s)
  then show ?thesis using assms(3) emits_bulk_fetch by (auto split: prod.splits)
next
  case (RaiseFloor f)
  then show ?thesis using assms(3) emits_raise by auto
next
  case (OpenPairing C now span ts h)
  then show ?thesis using assms(3) emits_open_pairing by (auto split: prod.splits)
qed (use assms(3) in \<open>auto simp: afa_serve_def emits_quiet quiet_rules dest!: snd_eqD intro: emits_methods\<close>)

lemma boot_inv:
  assumes "nv_ok kv" and "tx_dev_inv wm_load \<lparr>dev_store = kv, dev_txc = None, dev_sent = sent\<rparr>"
    and "floor_holds fl \<lparr>dev_store = kv, dev_txc = None, dev_sent = sent\<rparr>"
  shows "node_inv fl (net_new cfg kv) sent"
proof -
  have "nv_ok (nt_kv (net_new cfg kv)) \<and> tx_dev_inv wm_load (node_dev (net_new cfg kv) sent)"
    using wm.step_keeps [OF net_new_step] assms by simp
  moreover have "floor_holds fl (node_dev (net_new cfg kv) sent)" using node_floor_step(1) [OF _ assms(2,3) net_new_step] assms(1) by simp
  moreover have "nt_peers (net_new cfg kv) = replicate MAX_PEERS None" by (simp add: net_new_def Let_def split: prod.splits)
  ultimately show ?thesis by (simp add: node_inv_def node_ok_def peers_ok_empty)
qed

lemma emits_cycle:
  assumes "clean_event (PowerCycle pc)"
  shows "emits fl n [] (net_cycle pc cfg n)"
proof (rule emits_stay)
  let ?kv = "\<lparr>nv_kv = fw_cycle pc (nv_kv (nt_kv n)), nv_wake = False\<rparr>"
  fix sent assume i: "node_inv fl n sent"
  then have ok: "nv_ok (dev_store (node_dev n sent))" "tx_dev_inv wm_load (node_dev n sent)" "floor_holds fl (node_dev n sent)"
    by (simp_all add: node_inv_def node_ok_def)
  have rb: "wm_reboots (nt_kv n) ?kv" using assms by (auto simp: wm_reboots_def)
  have st: "wm_step (node_dev n sent) \<lparr>dev_store = ?kv, dev_txc = None, dev_sent = sent\<rparr>"
    using tx_step.power_loss [of wm_reboots "node_dev n sent" ?kv] rb by (simp add: node_dev_def)
  show "node_inv fl (net_cycle pc cfg n) sent"
    unfolding net_cycle_def using wm.step_keeps [OF st] ok node_floor_step(1) [OF ok st] by (intro boot_inv) simp_all
qed

lemma emits_life: "list_all event_ok es \<Longrightarrow> node_life enc es n = (air, n') \<Longrightarrow> emits fl n air n'"
proof (induction enc es n arbitrary: air n' rule: node_life.induct)
  case (2 enc pc cfg es n)
  then show ?case using emits_trans [OF emits_cycle] by fastforce
next
  case (3 enc a es n)
  show ?case
  proof (cases "fw_off (nv_kv (nt_kv n))")
    case True
    with 3 show ?thesis by simp
  next
    case False
    obtain air1 n1 where d: "net_do enc a n = (air1, n1)" by fastforce
    obtain air2 n2 where l: "node_life enc es n1 = (air2, n2)" by fastforce
    have "emits fl n air1 n1" using emits_do [OF _ False d] "3.prems"(1) by simp
    moreover have "emits fl n1 air2 n2" using "3.IH"(2) [OF False d [symmetric] _ l] "3.prems"(1) by simp
    ultimately show ?thesis using emits_trans "3.prems"(2) False d l by fastforce
  qed
qed simp

lemma first_boot: "nv_ok kv \<Longrightarrow> node_inv 0 (net_new cfg kv) []"
  by (rule boot_inv) (simp_all add: tx_dev_inv_def floor_holds_def)

text \<open>A run with two sends, the second after power was lost inside a word program.\<close>

definition demo_life :: "bytes node_event list" where
  "demo_life = [Act (Send 0x22 [1, 2] False 1 (\<lambda>i. \<lparr>at_elapsed = 0, at_tx = None, at_heard = []\<rparr>)),
     Cycle (Some (2, Erased)) demo_cfg, Act (AddPeer 0x22 (replicate 16 7)), Cycle None demo_cfg,
     Act (Send 0x22 [3] True 5 (\<lambda>i. \<lparr>at_elapsed = 0, at_tx = None, at_heard = []\<rparr>))]"

text \<open>C1. The nonce is never reused: over the whole life of a device - sends, retransmissions, ACKs,
  AFA and hopped sends, beacons, pairing and keyed-join frames, bulk chunks and requests, in any order, with
  other users of the shared store, maintenance and clean power cuts inside any word program in between,
  across any number of boots - two frames handed to the radio under the same CCM nonce are the same
  bytes.\<close>

theorem nonce_never_reused:
  fixes es :: "'s node_event list"
  assumes "nv_ok kv" and "list_all event_ok es" and "node_life enc es (net_new cfg kv) = (air, n)"
    and "f \<in> set air" and "g \<in> set air" and "frame_nonce f = frame_nonce g"
  shows "f = g"
proof -
  from emits_life [OF assms(2,3), of 0] first_boot [OF assms(1), of cfg] obtain cs where "coherent air"
    by (auto simp: emits_def)
  with assms(4-6) show ?thesis by (auto simp: coherent_def)
qed

theorem nonce_never_reused_witness:
  "inj_on frame_nonce (set (fst (node_life enc_demo demo_life (net_new demo_cfg demo_nv))))"
proof (rule inj_onI)
  have "list_all event_ok demo_life" by (simp add: demo_life_def)
  from nonce_never_reused [OF demo_nv_ok this prod.collapse [symmetric]]
  show "f = g" if "f \<in> set (fst (node_life enc_demo demo_life (net_new demo_cfg demo_nv)))"
      "g \<in> set (fst (node_life enc_demo demo_life (net_new demo_cfg demo_nv)))" "frame_nonce f = frame_nonce g" for f g
    using that by blast
qed

text \<open>C20. The peer table stays consistent: whatever the device does over its life, clean power cuts included, every registered peer
  has a valid address (not reserved, not the device's own), no two slots hold one address, and no two
  peers persist their replay state in one record.\<close>

theorem peer_table_invariant:
  fixes es :: "'s node_event list"
  assumes "nv_ok kv" and "list_all event_ok es" and "node_life enc es (net_new cfg kv) = (air, n)"
  shows "peers_ok (nt_addr n) (nt_peers n)"
  using emits_life [OF assms(2,3), of 0] first_boot [OF assms(1), of cfg] by (auto simp: emits_def node_inv_def node_ok_def)

theorem peer_table_invariant_witness:
  "peers_ok (nt_addr (snd (node_life enc_demo demo_life (net_new demo_cfg demo_nv))))
     (nt_peers (snd (node_life enc_demo demo_life (net_new demo_cfg demo_nv))))"
proof -
  have "list_all event_ok demo_life" by (simp add: demo_life_def)
  then show ?thesis using peer_table_invariant [OF demo_nv_ok _ prod.collapse [symmetric]] by blast
qed

text \<open>A floor raised on an unlocked counter.\<close>

lemma raise_sets_floor:
  assumes i: "node_inv 0 n sent" and un: "\<not> txc_locked (nt_txc n)" and run: "raise_tx_floor fl n = (True, n')"
  shows "node_inv fl n' sent"
proof -
  let ?t = "nt_txc n" and ?w = "sat_add fl RESERVE"
  have ok: "nv_ok (dev_store (node_dev n sent)) \<and> tx_dev_inv wm_load (node_dev n sent)" using i by (simp add: node_inv_def node_ok_def)
  define writes where "writes = (\<not> fl \<le> txc_counter ?t \<and> \<not> fl < txc_reserve_limit ?t)"
  obtain b kv' where kv': "(if writes then net_set KEY_WATERMARK (u32_le ?w) (nt_kv n) else (False, nt_kv n)) = (b, kv')" by fastforce
  let ?ok = "b \<and> wm_load kv' = Some ?w"
  obtain r t' where t': "tx_raise_to ?t fl (\<lambda>_. ?ok) = (r, t')" by fastforce
  have rn: "r = True" "n' = n\<lparr>nt_txc := t', nt_kv := kv'\<rparr>"
    using run un kv' t' by (auto simp: raise_tx_floor_def Let_def persist_watermark_def wm_load_def writes_def [symmetric] split: if_splits prod.splits)
  have eq: "tx_raise_to ?t fl (\<lambda>w. b \<and> wm_load kv' = Some w) = (True, t')"
    using t' rn(1) by (simp add: tx_raise_to_def Let_def cong: if_cong)
  have st: "if fl \<le> txc_counter ?t \<or> fl < txc_reserve_limit ?t then kv' = dev_store (node_dev n sent)
      else wm_persists (dev_store (node_dev n sent)) ?w b kv'"
    using kv' by (auto simp: writes_def wm_persists_def split: if_splits)
  from wm.raise_floor_ok [OF ok _ un st eq] have
    "nv_ok kv'" "tx_dev_inv wm_load (node_dev n' sent)" "floor_holds fl (node_dev n' sent)"
    using rn(2) by (auto simp: node_dev_def floor_holds_def)
  then show ?thesis using i rn(2) by (simp add: node_inv_def node_ok_def)
qed

text \<open>C19. A raised floor is final: once \<open>raise_tx_floor\<close> reported success on an unlocked device (the
  condition for installing a key another device used), every frame it ever hands to the radio from
  then on, across clean power cuts and boots, carries a counter at or above the floor.\<close>

theorem tx_floor_final:
  fixes es es' :: "'s node_event list"
  assumes "nv_ok kv" and "list_all event_ok es" and "node_life enc es (net_new cfg kv) = (air, n)"
    and "\<not> txc_locked (nt_txc n)" and "raise_tx_floor floor n = (True, n')"
    and "list_all event_ok es'" and "node_life enc es' n' = (air', n'')" and "f \<in> set air'"
  shows "\<exists>h. frame_hdr f = Some h \<and> floor \<le> h_counter h"
proof -
  from emits_life [OF assms(2,3), of 0] first_boot [OF assms(1), of cfg] obtain sent where "node_inv 0 n sent"
    by (auto simp: emits_def)
  from raise_sets_floor [OF this assms(4,5)] emits_life [OF assms(6,7), of floor]
  obtain cs where "carries cs air'" "\<forall>c \<in> set cs. floor \<le> c" by (auto simp: emits_def)
  with assms(8) show ?thesis by (fastforce simp: carries_def)
qed

theorem tx_floor_final_witness:
  "list_all (\<lambda>f. \<exists>h. frame_hdr f = Some h \<and> 500 \<le> h_counter h)
     (fst (node_life enc_demo demo_life (snd (raise_tx_floor 500 (net_new demo_cfg demo_nv)))))"
proof (unfold list_all_iff, rule ballI)
  have ev: "list_all event_ok demo_life" "list_all event_ok ([] :: bytes node_event list)" by (simp_all add: demo_life_def)
  have raise: "raise_tx_floor 500 (net_new demo_cfg demo_nv) = (True, snd (raise_tx_floor 500 (net_new demo_cfg demo_nv)))"
    using demo_boot by (simp add: raise_tx_floor_def tx_raise_to_def Let_def)
  fix f assume "f \<in> set (fst (node_life enc_demo demo_life (snd (raise_tx_floor 500 (net_new demo_cfg demo_nv)))))"
  from tx_floor_final [OF demo_nv_ok ev(2) _ demo_boot(1) raise ev(1) prod.collapse [symmetric] this, where air = "[]"]
  show "\<exists>h. frame_hdr f = Some h \<and> 500 \<le> h_counter h" by simp
qed

end
