(* ===== verification/Fw_Recv.thy ===== *)
theory Fw_Recv
  imports Fw_Peers
begin

text \<open>
  What \<open>recv\<close> delivers: authentic application data from an admitted sender, addressed to this device,
  and each counter of a sender at most once and in order, over any sequence of receptions.
\<close>

section \<open>Lanes by sender\<close>

lemma slot_of_update:
  "i < length ps \<Longrightarrow> ps ! i = Some p \<Longrightarrow> pe_addr p' = pe_addr p \<Longrightarrow> slot_of a (ps[i := Some p']) = slot_of a ps"
proof (induction ps arbitrary: i)
  case (Cons x xs)
  then show ?case by (cases i) auto
qed simp

text \<open>The lane \<open>recv\<close> looks at for a sender, after the slot of a registered one was rewritten.\<close>

lemma net_lane_set_peer:
  assumes "peer_slot a n = Some i" and "nt_peers n ! i = Some p" and "pe_addr p' = pe_addr p"
    and "nt_peers n' = (nt_peers n)[i := Some p']" and "nt_default_lane n' = nt_default_lane n"
  shows "net_lane s n' = (if s = a then pe_lane p' else net_lane s n)" and "peer_slot s n' = peer_slot s n"
proof -
  have i: "i < length (nt_peers n)" "pe_addr p = a" using slot_of_Some [of a "nt_peers n" i] assms(1,2) by (auto simp: peer_slot_def)
  have sl: "peer_slot x n' = peer_slot x n" for x
    using slot_of_update [OF i(1) assms(2,3)] assms(4) by (simp add: peer_slot_def)
  then show "peer_slot s n' = peer_slot s n" .
  have "j \<noteq> i" if "peer_slot s n = Some j" "s \<noteq> a" for j
    using that slot_of_Some [of s "nt_peers n" j] assms(2) i by (auto simp: peer_slot_def)
  then show "net_lane s n' = (if s = a then pe_lane p' else net_lane s n)"
    using sl assms(1,4,5) i(1) by (auto simp: net_lane_def peer_at_def split: option.splits)
qed

lemma accept_seen: "accept_every l c p = (due, l') \<Longrightarrow> rl_last_seen l' = c"
  by (auto simp: accept_every_def Let_def)

text \<open>Two senders that share a lane: unregistered ones, on the default lane.\<close>

definition same_lane :: "u32 \<Rightarrow> u32 \<Rightarrow> net \<Rightarrow> bool" where
  "same_lane s a n \<longleftrightarrow> s = a \<or> peer_slot s n = None \<and> peer_slot a n = None"

lemma lane_accept_lane:
  "rl_last_seen (net_lane s (lane_accept enc a c n)) = (if same_lane s a n then c else rl_last_seen (net_lane s n))"
  "peer_slot s (lane_accept enc a c n) = peer_slot s n"
proof -
  have "rl_last_seen (net_lane s (lane_accept enc a c n)) = (if same_lane s a n then c else rl_last_seen (net_lane s n)) \<and>
      peer_slot s (lane_accept enc a c n) = peer_slot s n"
  proof (cases "peer_slot a n")
    case (Some i)
    then obtain p where p: "nt_peers n ! i = Some p" using slot_of_Some by (fastforce simp: peer_slot_def)
    obtain due l where l: "accept_every (pe_lane p) c (nt_lane_persist n) = (due, l)" by fastforce
    have "nt_peers (lane_accept enc a c n) = (nt_peers n)[i := Some (p\<lparr>pe_lane := l\<rparr>)]"
      "nt_default_lane (lane_accept enc a c n) = nt_default_lane n"
      by (simp_all add: lane_accept_def Some p l set_peer_def Let_def)
    from net_lane_set_peer [OF Some p _ this] show ?thesis using accept_seen [OF l] Some by (auto simp: same_lane_def)
  next
    case None
    obtain due l where l: "accept_every (nt_default_lane n) c (nt_lane_persist n) = (due, l)" by fastforce
    have "nt_peers (lane_accept enc a c n) = nt_peers n" "nt_default_lane (lane_accept enc a c n) = l"
      by (simp_all add: lane_accept_def None l Let_def)
    then show ?thesis using accept_seen [OF l] None
      by (auto simp: same_lane_def net_lane_def peer_at_def peer_slot_def split: option.splits dest: slot_of_Some)
  qed
  then show "rl_last_seen (net_lane s (lane_accept enc a c n)) = (if same_lane s a n then c else rl_last_seen (net_lane s n))"
    "peer_slot s (lane_accept enc a c n) = peer_slot s n" by simp_all
qed

lemma reack_lane:
  "lane_reack a n = (b, n') \<Longrightarrow> rl_last_seen (net_lane s n') = rl_last_seen (net_lane s n)"
  "lane_reack a n = (b, n') \<Longrightarrow> peer_slot s n' = peer_slot s n"
proof -
  assume run: "lane_reack a n = (b, n')"
  have keep: "rl_last_seen (snd (reack l)) = rl_last_seen l" for l by (simp add: reack_def)
  have "rl_last_seen (net_lane s n') = rl_last_seen (net_lane s n) \<and> peer_slot s n' = peer_slot s n"
  proof (cases "peer_slot a n")
    case (Some i)
    then obtain p where p: "nt_peers n ! i = Some p" "pe_addr p = a" using slot_of_Some by (fastforce simp: peer_slot_def)
    obtain b' l where l: "reack (pe_lane p) = (b', l)" by fastforce
    have n': "nt_peers n' = (nt_peers n)[i := Some (p\<lparr>pe_lane := l\<rparr>)]" "nt_default_lane n' = nt_default_lane n"
      using run by (auto simp: lane_reack_def Some p l set_peer_def)
    have "net_lane a n = pe_lane p" by (simp add: net_lane_def peer_at_def Some p)
    with net_lane_set_peer [OF Some p(1) _ n'] keep [of "pe_lane p"] l show ?thesis by auto
  next
    case None
    then have "nt_peers n' = nt_peers n" "rl_last_seen (nt_default_lane n') = rl_last_seen (nt_default_lane n)"
      using run keep [of "nt_default_lane n"] by (auto simp: lane_reack_def split: prod.splits)
    then show ?thesis by (simp add: net_lane_def peer_at_def peer_slot_def split: option.splits)
  qed
  then show "rl_last_seen (net_lane s n') = rl_last_seen (net_lane s n)" "peer_slot s n' = peer_slot s n" by simp_all
qed

text \<open>The rest of a reception leaves the lanes alone.\<close>

lemma alloc_lanes:
  assumes "alloc_counter n = (r, n')"
  shows "nt_peers n' = nt_peers n \<and> nt_default_lane n' = nt_default_lane n \<and> nt_addr n' = nt_addr n"
  by (subst (1 2 3) alloc_counter_step(3) [OF assms]) simp

lemma send_ack_lanes: "send_ack enc e d c rs n = (air, n') \<Longrightarrow> nt_peers n' = nt_peers n \<and> nt_default_lane n' = nt_default_lane n"
  by (auto simp: send_ack_def Let_def split: if_splits option.splits prod.splits sum.splits access.splits dest!: alloc_lanes)

lemma same_lanes:
  "nt_peers n' = nt_peers n \<Longrightarrow> nt_default_lane n' = nt_default_lane n \<Longrightarrow> net_lane s n' = net_lane s n \<and> peer_slot s n' = peer_slot s n"
  by (simp add: net_lane_def peer_at_def peer_slot_def split: option.splits)

section \<open>One reception\<close>

lemma open_frame_header: "open_frame enc key buf = Inr (h, p) \<Longrightarrow> header_parse buf = Inr (h, wire_len h)"
  by (auto simp: open_frame_def Let_def split: sum.splits prod.splits if_splits dest: header_parse_inv(2))

text \<open>What a delivered message is, of the bytes on air and the state before.\<close>

definition delivers :: "(bytes \<Rightarrow> bytes \<Rightarrow> bytes) \<Rightarrow> bytes \<Rightarrow> net \<Rightarrow> received \<Rightarrow> bool" where
  "delivers enc buf n m \<longleftrightarrow>
     (\<exists>h. open_frame enc (key_for (rx_src m) n) buf = Inr (h, rx_data m) \<and> h_type h = FtData \<and>
        h_src h = rx_src m \<and> h_dest h = nt_addr n \<and> h_counter h = rx_counter m) \<and>
     (peer_slot (rx_src m) n \<noteq> None \<or> nt_default_lane_enabled n) \<and>
     rl_last_seen (net_lane (rx_src m) n) < rx_counter m"

lemma recv_message:
  assumes run: "net_recv enc r n = (Some m, air, n')"
  shows "delivers enc (rc_buf r) n m"
    and "rl_last_seen (net_lane s n') = (if same_lane s (rx_src m) n then rx_counter m else rl_last_seen (net_lane s n))"
    and "peer_slot s n' = peer_slot s n"
proof -
  from run obtain peek l where peek: "header_parse (rc_buf r) = Inr (peek, l)"
    by (auto simp: net_recv_def split: sum.splits)
  have plain: "\<not> (h_type peek = FtJoinReq \<and> h_flags peek AND KEYED \<noteq> 0 \<and> h_dest peek = 0)"
  proof
    assume "h_type peek = FtJoinReq \<and> h_flags peek AND KEYED \<noteq> 0 \<and> h_dest peek = 0"
    with run peek show False by (auto simp: net_recv_def split: if_splits option.splits prod.splits)
  qed
  from run peek plain obtain hdr p where o: "open_frame enc (key_for (h_src peek) n) (rc_buf r) = Inr (hdr, p)"
    by (auto simp: net_recv_def split: if_splits sum.splits)
  then have hp: "hdr = peek" using open_frame_header peek by fastforce
  define n1 where "n1 = lane_accept enc (h_src peek) (h_counter peek) n"
  obtain air2 n2 where a: "(if h_flags peek AND CONFIRMED \<noteq> 0
      then send_ack enc (rc_elapsed r) (h_src peek) (h_counter peek) (rc_rssi r) n1 else ([], n1)) = (air2, n2)" by fastforce
  have fr: "classify (net_lane (h_src peek) n) (h_counter peek) = Fresh" and
    g: "h_dest peek = nt_addr n" "h_type peek = FtData" "peer_slot (h_src peek) n \<noteq> None \<or> nt_default_lane_enabled n" and
    m: "rx_src m = h_src peek" "rx_counter m = h_counter peek" "rx_data m = p" and n2: "n' = n2"
    using run peek plain o hp a
    by (auto simp: net_recv_def Let_def n1_def split: if_splits replay_verdict.splits prod.splits bool.splits)
  show "delivers enc (rc_buf r) n m" using o hp g m fr by (auto simp: delivers_def classify_simps)
  have "nt_peers n2 = nt_peers n1 \<and> nt_default_lane n2 = nt_default_lane n1"
    using a send_ack_lanes by (auto split: if_splits)
  with same_lanes have "net_lane s n2 = net_lane s n1" "peer_slot s n2 = peer_slot s n1" by blast+
  then show "rl_last_seen (net_lane s n') = (if same_lane s (rx_src m) n then rx_counter m else rl_last_seen (net_lane s n))"
    "peer_slot s n' = peer_slot s n"
    unfolding n2 n1_def m by (simp_all add: lane_accept_lane)
qed

text \<open>A reception that delivers nothing lowers no lane.\<close>

lemma keyed_lanes:
  "keyed_answer enc e rx n = (k, n') \<Longrightarrow> rl_last_seen (net_lane s n) \<le> rl_last_seen (net_lane s n') \<and> peer_slot s n' = peer_slot s n"
proof -
  assume run: "keyed_answer enc e rx n = (k, n')"
  then show ?thesis
  proof (cases rule: keyed_answer_cases)
    case (admitted peek l hdr payload granted g ac n3)
    let ?n1 = "lane_accept enc (h_src hdr) (h_counter hdr) n"
    have "nt_peers n3 = nt_peers ?n1 \<and> nt_default_lane n3 = nt_default_lane ?n1" using alloc_lanes [OF admitted(5)] by simp
    then have l: "nt_peers n' = nt_peers ?n1" "nt_default_lane n' = nt_default_lane ?n1"
      using admitted(6) by (auto split: if_splits option.splits sum.splits)
    have "rl_last_seen (net_lane s n) < h_counter hdr" if "same_lane s (h_src hdr) n"
    proof -
      have "net_lane s n = net_lane (h_src hdr) n" using that by (auto simp: same_lane_def net_lane_def peer_at_def)
      then show ?thesis using admitted(3) by (simp add: classify_simps)
    qed
    with same_lanes [OF l, of s] show ?thesis by (auto simp: lane_accept_lane intro: less_imp_le)
  qed simp
qed

lemma recv_none_cases:
  assumes "net_recv enc r n = (None, air, n')"
    and "\<not> (\<exists>peek l. header_parse (rc_buf r) = Inr (peek, l) \<and> h_type peek = FtJoinReq \<and> h_flags peek AND KEYED \<noteq> 0 \<and> h_dest peek = 0)"
  obtains "n' = n" | l where "n' = n\<lparr>nt_replay_log := l\<rparr>" | a where "lane_reack a n = (False, n')"
    | a n1 e d c rs where "lane_reack a n = (True, n1)" "send_ack enc e d c rs n1 = (air, n')"
proof (cases "n' = n")
  case False
  obtain peek l where peek: "header_parse (rc_buf r) = Inr (peek, l)" using assms(1) False by (auto simp: net_recv_def split: sum.splits)
  have nk: "\<not> (h_type peek = FtJoinReq \<and> h_flags peek AND KEYED \<noteq> 0 \<and> h_dest peek = 0)" using assms(2) peek by blast
  note R = assms(1) [unfolded net_recv_def peek, simplified nk if_False sum.case prod.case]
  obtain hdr payload where o: "open_frame enc (key_for (h_src peek) n) (rc_buf r) = Inr (hdr, payload)"
    using R False by (auto split: if_splits sum.splits)
  show thesis
  proof (cases "classify (net_lane (h_src hdr) n) (h_counter hdr)")
    case Fresh
    then show thesis using R o False by (auto simp: Let_def split: if_splits prod.splits)
  next
    case Retransmit
    then show thesis using R o False that(3,4) by (auto split: if_splits prod.splits bool.splits)
  next
    case Replay
    then show thesis using R o False that(2) by (auto split: if_splits)
  qed
qed (rule that(1))

lemma recv_no_message:
  assumes run: "net_recv enc r n = (None, air, n')"
  shows "rl_last_seen (net_lane s n) \<le> rl_last_seen (net_lane s n')" and "peer_slot s n' = peer_slot s n"
proof -
  have upd: "net_lane s (x\<lparr>nt_keyed_log := l\<rparr>) = net_lane s x" "net_lane s (x\<lparr>nt_keyed_join := j\<rparr>) = net_lane s x"
    "net_lane s (x\<lparr>nt_replay_log := l\<rparr>) = net_lane s x" "peer_slot s (x\<lparr>nt_keyed_log := l\<rparr>) = peer_slot s x"
    "peer_slot s (x\<lparr>nt_keyed_join := j\<rparr>) = peer_slot s x" "peer_slot s (x\<lparr>nt_replay_log := l\<rparr>) = peer_slot s x" for x l j
    by (rule same_lanes [THEN conjunct1] same_lanes [THEN conjunct2]; simp)+
  obtain k n1 where k: "keyed_answer enc (rc_elapsed r) (rc_buf r) n = (k, n1)" by fastforce
  note K = keyed_lanes [OF k, of s]
  have ack: "rl_last_seen (net_lane s n2) = rl_last_seen (net_lane s n) \<and> peer_slot s n2 = peer_slot s n"
    if "lane_reack a n = (True, n1)" "send_ack enc e d c rs n1 = (air', n2)" for a e d c rs n1 n2 air'
    using same_lanes [of n2 n1 s] send_ack_lanes [OF that(2)] reack_lane [OF that(1), of s] by simp
  have "rl_last_seen (net_lane s n) \<le> rl_last_seen (net_lane s n') \<and> peer_slot s n' = peer_slot s n"
  proof (cases "\<exists>peek l. header_parse (rc_buf r) = Inr (peek, l) \<and> h_type peek = FtJoinReq \<and> h_flags peek AND KEYED \<noteq> 0 \<and> h_dest peek = 0")
    case True
    with run k K upd show ?thesis
      by (cases k) (auto simp: net_recv_def prepare_keyed_answer_def split: if_splits)
  next
    case False
    with run consider "n' = n" | l where "n' = n\<lparr>nt_replay_log := l\<rparr>" | a where "lane_reack a n = (False, n')"
      | a n1 e d c rs where "lane_reack a n = (True, n1)" "send_ack enc e d c rs n1 = (air, n')"
      by (cases rule: recv_none_cases)
    then show ?thesis using ack reack_lane upd by cases auto
  qed
  then show "rl_last_seen (net_lane s n) \<le> rl_last_seen (net_lane s n')" "peer_slot s n' = peer_slot s n" by simp_all
qed

section \<open>A sequence of receptions\<close>

primrec recv_all :: "(bytes \<Rightarrow> bytes \<Rightarrow> bytes) \<Rightarrow> reception list \<Rightarrow> net \<Rightarrow> received list \<times> net" where
  "recv_all enc [] n = ([], n)"
| "recv_all enc (r # rs) n =
     (case net_recv enc r n of (m, air, n1) \<Rightarrow>
        (case recv_all enc rs n1 of (ms, n2) \<Rightarrow> (case m of None \<Rightarrow> ms | Some x \<Rightarrow> x # ms, n2)))"

lemma recv_all_fresh:
  "recv_all enc rs n = (ms, n') \<Longrightarrow>
     sorted_wrt (<) (map rx_counter (filter (\<lambda>m. rx_src m = s) ms)) \<and>
     (\<forall>m \<in> set ms. rl_last_seen (net_lane (rx_src m) n) < rx_counter m)"
proof (induction rs arbitrary: n ms n')
  case (Cons r rs)
  obtain m air n1 where r: "net_recv enc r n = (m, air, n1)" by (metis prod.exhaust)
  obtain ms2 n2 where a: "recv_all enc rs n1 = (ms2, n2)" by fastforce
  note IH = Cons.IH [OF a]
  show ?case
  proof (cases m)
    case None
    with Cons.prems r a have "ms = ms2" by simp
    with IH recv_no_message(1) [of enc r n air n1] r None show ?thesis by (metis order_le_less_trans)
  next
    case (Some x)
    with Cons.prems r a have ms: "ms = x # ms2" by simp
    note R = recv_message [OF r [unfolded Some]]
    have fresh: "rl_last_seen (net_lane (rx_src x) n) < rx_counter x" using R(1) by (simp add: delivers_def)
    have up: "rl_last_seen (net_lane t n) \<le> rl_last_seen (net_lane t n1)" for t
    proof (cases "same_lane t (rx_src x) n")
      case True
      then have "net_lane t n = net_lane (rx_src x) n" by (auto simp: same_lane_def net_lane_def peer_at_def)
      with True fresh R(2) [of t] show ?thesis by simp
    qed (simp add: R(2))
    have "rx_counter x < rx_counter y" if "y \<in> set ms2" "rx_src y = rx_src x" for y
    proof -
      have "rl_last_seen (net_lane (rx_src x) n1) = rx_counter x" using R(2) [of "rx_src x"] by (simp add: same_lane_def)
      with IH that show ?thesis by metis
    qed
    then have "sorted_wrt (<) (map rx_counter (filter (\<lambda>m. rx_src m = s) ms))" using IH ms by auto
    moreover have "\<forall>y \<in> set ms. rl_last_seen (net_lane (rx_src y) n) < rx_counter y"
      using IH ms fresh up by (auto intro: order_le_less_trans)
    ultimately show ?thesis ..
  qed
qed simp

text \<open>C14. Only authentic, admitted, fresh data is delivered: a message \<open>recv\<close> returns is the payload of a
  DATA frame addressed to this device that opens under the sender's own key (the default key only
  while the default lane is enabled), with a counter above everything accepted from that sender; it
  becomes that sender's last-seen; and the payload fits the receive buffer.\<close>

theorem recv_delivers:
  assumes "aes_block enc" and "length (rc_buf r) \<le> MAX_FRAME" and "net_recv enc r n = (Some m, air, n')"
  shows "delivers enc (rc_buf r) n m \<and> rl_last_seen (net_lane (rx_src m) n') = rx_counter m \<and> length (rx_data m) \<le> MAX_PAYLOAD"
proof -
  note R = recv_message [OF assms(3)]
  from R(1) obtain h where o: "open_frame enc (key_for (rx_src m) n) (rc_buf r) = Inr (h, rx_data m)" and t: "h_type h = FtData"
    by (auto simp: delivers_def)
  from o obtain ct tag where b: "rc_buf r = header_encode h @ ct @ tag" "length tag = TAG_LEN" "header_wf h"
    and c: "ccm_open enc (key_for (rx_src m) n) (header_nonce h) (header_encode h) ct tag = (True, rx_data m)" by (rule open_frame_inv)
  from c have "ccm_seal enc (key_for (rx_src m) n) (header_nonce h) (header_encode h) (rx_data m) = (ct, tag)"
    using ccm_open_iff [OF assms(1) length_header_nonce] by simp
  then have "length ct = length (rx_data m)"
    using ctr_apply_length [OF assms(1) length_header_nonce] by (auto simp: ccm_seal_def)
  moreover have "wire_len h = HDR_LEN" using b(3) t by (auto simp: header_wf_def wire_len_def has_bulk_index_def split: option.splits)
  ultimately have "length (rx_data m) \<le> MAX_PAYLOAD"
    using assms(2) b(1,2) by (simp add: length_header_encode MAX_FRAME_def HDR_LEN_def TAG_LEN_def MAX_PAYLOAD_def)
  with R(1) R(2) [of "rx_src m"] show ?thesis by (simp add: same_lane_def)
qed

lemma slot_of_empty: "slot_of a (replicate k None) = None"
  by (induction k) auto

lemma demo_receives:
  "\<exists>buf m n'. length buf \<le> MAX_FRAME \<and>
     net_recv enc_demo \<lparr>rc_buf = buf, rc_rssi = - 60, rc_lqi = 9, rc_elapsed = 0, rc_now = 0, rc_tx_ok = True\<rparr> (net_new demo_cfg demo_nv) =
       (Some m, [], n') \<and> rx_counter m = 7 \<and> rx_data m = [1, 2, 3]"
proof -
  let ?h = "data_header 0x22 0x11 7 False" and ?n = "net_new demo_cfg demo_nv"
  have wf: "header_wf ?h" "length [1, 2, 3 :: u8] \<le> max_payload ?h"
    by (simp_all add: data_header_def header_wf_def has_bulk_index_def max_payload_def MAX_PAYLOAD_def)
  from sealed_opens [OF aes_block_demo wf, of "replicate 16 1"] obtain f where
    f: "length f \<le> MAX_FRAME" "open_frame enc_demo (replicate 16 1) f = Inr (?h, [1, 2, 3])" by blast
  have p: "header_parse f = Inr (?h, wire_len ?h)" using open_frame_header [OF f(2)] .
  have abs: "net_abs demo_nv l = None" for l by (simp add: demo_nv_def demo_kv_abs)
  have n: "nt_peers ?n = replicate MAX_PEERS None" "nt_default_key ?n = replicate 16 1" "nt_addr ?n = 0x11"
    "nt_default_lane_enabled ?n" "nt_default_lane ?n = lane_new 0"
    using read_u32_abs [OF demo_nv_ok] abs by (simp_all add: net_new_def Let_def demo_cfg_def split: prod.splits)
  then have ps: "peer_slot 0x22 ?n = None" by (simp add: peer_slot_def slot_of_empty)
  then have k: "key_for 0x22 ?n = replicate 16 1" "net_lane 0x22 ?n = lane_new 0"
    using n by (simp_all add: key_for_def net_lane_def peer_at_def)
  have "classify (lane_new 0) 7 = Fresh" by (simp add: classify_def lane_new_def)
  then show ?thesis using f p n(3,4) ps k
    by (intro exI [of _ f]) (simp add: net_recv_def data_header_def KEYED_def Let_def)
qed

theorem recv_delivers_witness:
  "\<exists>buf m n'. delivers enc_demo buf (net_new demo_cfg demo_nv) m \<and> rl_last_seen (net_lane (rx_src m) n') = 7 \<and>
     length (rx_data m) \<le> MAX_PAYLOAD"
proof -
  from demo_receives obtain buf m n' where "length buf \<le> MAX_FRAME" and
    r: "net_recv enc_demo \<lparr>rc_buf = buf, rc_rssi = - 60, rc_lqi = 9, rc_elapsed = 0, rc_now = 0, rc_tx_ok = True\<rparr> (net_new demo_cfg demo_nv) =
       (Some m, [], n')" and c: "rx_counter m = 7" by blast
  from recv_delivers [OF aes_block_demo _ r] this show ?thesis by auto
qed

text \<open>C15. No replay is delivered: over any sequence of receptions, whatever arrives and in whatever order,
  the counters delivered from one sender strictly increase, starting above the last-seen its lane
  held before; no frame is delivered twice.\<close>

theorem recv_no_replay:
  "sorted_wrt (<) (map rx_counter (filter (\<lambda>m. rx_src m = s) (fst (recv_all enc rs n)))) \<and>
   list_all (\<lambda>m. rl_last_seen (net_lane s n) < rx_counter m) (filter (\<lambda>m. rx_src m = s) (fst (recv_all enc rs n)))"
  using recv_all_fresh [of enc rs n "fst (recv_all enc rs n)" "snd (recv_all enc rs n)" s] by (auto simp: list_all_iff)

end
