(* ===== verification/Fw_Pairing_Props.thy ===== *)
theory Fw_Pairing_Props
  imports Fw_Pairing
begin

text \<open>
  What the pairing exchange of \<open>Fw_Pairing\<close> guarantees: a completed pairing on the host and on the
  joiner, whatever else is on the air, and that an undisturbed exchange completes with one key at both
  ends.
\<close>

section \<open>What a completed pairing means\<close>

lemma rx_pair_iff: "rx_pair enc key m b = Some (h, p) \<longleftrightarrow> open_frame enc key b = Inr (h, p) \<and> length p \<le> m"
  by (auto simp: rx_pair_def split: sum.splits)

lemma await_confirm_heard:
  assumes "await_confirm enc s peer own bs"
  shows "\<exists>b \<in> set bs. \<exists>h. open_frame enc (se_link_key s) b = Inr (h, [HS_VERSION] @ session_tag RoleNode s) \<and>
     h_type h = FtJoinConfirm \<and> h_src h = peer \<and> h_dest h = own"
  using assms
proof (induction bs)
  case (Cons b bs)
  have "p = [HS_VERSION] @ session_tag RoleNode s" if "length p = CONFIRM_LEN" "p ! 0 = HS_VERSION" "session_verify RoleNode (drop 1 p) s" for p
    using that by (cases p) (auto simp: session_verify_iff CONFIRM_LEN_def)
  then show ?case using Cons by (auto simp: rx_pair_iff split: option.splits if_splits)
qed simp

lemma await_reveal_heard:
  assumes "await_reveal C enc eph e_gw commit addr gw bs = Some s"
  shows "\<exists>b \<in> set bs. \<exists>h n_gw. open_frame enc JOIN_FRAME_KEY b = Inr (h, [HS_VERSION] @ n_gw @ session_tag RoleGateway s) \<and>
     h_type h = FtJoinReveal \<and> h_src h = gw \<and> h_dest h = addr \<and> length n_gw = HS_NONCE_LEN \<and>
     reveal_opens C commit n_gw (ep_public eph) e_gw addr gw \<and> handshake C eph e_gw n_gw RoleNode addr gw = Some s"
  using assms
proof (induction bs)
  case (Cons b bs)
  have pay: "p = [HS_VERSION] @ bslice 1 HS_NONCE_LEN p @ session_tag RoleGateway s"
    if "length p = REVEAL_LEN" "p ! 0 = HS_VERSION" "session_verify RoleGateway (drop (1 + HS_NONCE_LEN) p) s" for p
  proof -
    have "p = take 1 p @ bslice 1 HS_NONCE_LEN p @ drop (1 + HS_NONCE_LEN) p"
      using append_take_drop_id [of HS_NONCE_LEN "drop 1 p"] append_take_drop_id [of 1 p]
      by (simp only: bslice_def drop_drop add.commute)
    moreover have "take 1 p = [HS_VERSION]" using that(1,2) by (cases p) (auto simp: REVEAL_LEN_def)
    ultimately show ?thesis using that(3) by (simp add: session_verify_iff)
  qed
  have len: "length (bslice 1 HS_NONCE_LEN p) = HS_NONCE_LEN" if "length p = REVEAL_LEN" for p
    using that by (simp add: length_bslice REVEAL_LEN_def)
  show ?case
  proof (cases "\<exists>h p. rx_pair enc JOIN_FRAME_KEY REVEAL_LEN b = Some (h, p) \<and> h_type h = FtJoinReveal \<and> h_src h = gw \<and> h_dest h = addr \<and>
      length p = REVEAL_LEN \<and> p ! 0 = HS_VERSION \<and> reveal_opens C commit (bslice 1 HS_NONCE_LEN p) (ep_public eph) e_gw addr gw \<and>
      handshake C eph e_gw (bslice 1 HS_NONCE_LEN p) RoleNode addr gw = Some s \<and> session_verify RoleGateway (drop (1 + HS_NONCE_LEN) p) s")
    case True
    then show ?thesis using pay len unfolding rx_pair_iff by (metis list.set_intros(1))
  next
    case False
    then have "await_reveal C enc eph e_gw commit addr gw bs = Some s"
      using Cons.prems by (auto simp: Let_def split: option.splits if_splits)
    with Cons.IH show ?thesis by (meson list.set_intros(2))
  qed
qed simp

lemma await_resp_heard:
  assumes "await_resp enc addr bs = Some (gw, p)"
  shows "length p = RESP_LEN \<and> \<not> is_reserved_addr gw \<and> gw \<noteq> addr \<and>
     (\<exists>b \<in> set bs. \<exists>h. open_frame enc JOIN_FRAME_KEY b = Inr (h, p) \<and> h_type h = FtJoinResp \<and> h_src h = gw \<and> h_dest h = addr)"
  using assms by (induction bs) (fastforce simp: rx_pair_iff join_response_for_def split: option.splits if_splits)+

text \<open>Pairing leaves the peer table, the address and the access mode alone.\<close>

definition same_table :: "net \<Rightarrow> net \<Rightarrow> bool" where
  "same_table n n' \<longleftrightarrow> nt_peers n' = nt_peers n \<and> nt_addr n' = nt_addr n \<and> nt_access n' = nt_access n"

lemma same_table_refl [simp]: "same_table n n" "same_table n (n\<lparr>nt_pair_log := l\<rparr>)"
  by (simp_all add: same_table_def)

lemma same_table_trans: "same_table n n1 \<Longrightarrow> same_table n1 n2 \<Longrightarrow> same_table n n2"
  by (simp add: same_table_def)

lemma same_table_alloc: "alloc_counter n = (r, n') \<Longrightarrow> same_table n n'"
  by (auto simp: alloc_counter_def same_table_def split: prod.splits option.splits)

lemma same_table_tx: "tx_pair enc e ok key h p n = (b, air, n') \<Longrightarrow> same_table n n'"
  by (auto simp: tx_pair_def same_table_def split: sum.splits prod.splits if_splits)

lemma same_table_slot: "same_table n n' \<Longrightarrow> peer_slot a n' = peer_slot a n"
  by (simp add: same_table_def peer_slot_def)

lemma host_reveal_done:
  assumes "host_reveal C enc t eph e_node n_node peer n = (r, air, n')"
  shows "same_table n n' \<and> (r = PairDone pp \<longrightarrow> (\<exists>s. handshake C eph e_node (drop 1 n_node) RoleGateway peer (nt_addr n) = Some s \<and>
     pp = \<lparr>pp_addr = peer, pp_key = se_link_key s, pp_sas = se_sas s\<rparr> \<and> await_confirm enc s peer (nt_addr n) (ht_confirm_heard t)))"
proof -
  obtain ac n1 where a: "alloc_counter n = (ac, n1)" by fastforce
  show ?thesis
    using assms a same_table_alloc [OF a]
    by (auto simp: host_reveal_def split: option.splits prod.splits bool.splits if_splits dest!: same_table_tx dest: same_table_trans)
      (auto simp: same_table_def)
qed

lemma host_answer_done:
  assumes "host_answer C enc t eph e_node peer n = (r, air, n')"
  shows "same_table n n' \<and> (r = PairDone pp \<longrightarrow> (\<exists>n_node s. await_nonce enc peer (nt_addr n) (ht_nonce_heard t) = Some n_node \<and>
     handshake C eph e_node (drop 1 n_node) RoleGateway peer (nt_addr n) = Some s \<and>
     pp = \<lparr>pp_addr = peer, pp_key = se_link_key s, pp_sas = se_sas s\<rparr> \<and> await_confirm enc s peer (nt_addr n) (ht_confirm_heard t)))"
proof -
  obtain ac n1 where a: "alloc_counter n = (ac, n1)" by fastforce
  have s1: "same_table n n1" using same_table_alloc [OF a] .
  show ?thesis
  proof (cases ac)
    case None
    with assms a s1 show ?thesis by (simp add: host_answer_def)
  next
    case (Some c)
    obtain b air1 n2 where x: "tx_pair enc (ht_resp_elapsed t) (ht_resp_ok t) JOIN_FRAME_KEY (pair_header FtJoinResp (nt_addr n1) peer c)
        (join_resp C eph e_node peer (nt_addr n1)) n1 = (b, air1, n2)" by (metis prod.exhaust)
    have s2: "same_table n n2" using same_table_trans [OF s1 same_table_tx [OF x]] .
    then have addr: "nt_addr n2 = nt_addr n" by (simp add: same_table_def)
    show ?thesis
    proof (cases "b \<and> (\<exists>w. await_nonce enc peer (nt_addr n) (ht_nonce_heard t) = Some w)")
      case False
      with assms a Some x s2 addr show ?thesis by (auto simp: host_answer_def split: bool.splits option.splits)
    next
      case True
      then obtain w where w: "b" "await_nonce enc peer (nt_addr n) (ht_nonce_heard t) = Some w" by blast
      obtain q air2 n3 where h: "host_reveal C enc t eph e_node w peer n2 = (q, air2, n3)" by (metis prod.exhaust)
      have "r = q" "n' = n3" using assms a Some x w h addr by (simp_all add: host_answer_def)
      with host_reveal_done [OF h, of pp] same_table_trans [OF s2, of n3] w(2) show ?thesis unfolding addr by blast
    qed
  qed
qed

text \<open>A completed pairing on the host: the joiner asked for it, may be answered, had a whole handshake of
  the window left, and proved the session key; the ephemeral is the one the host held or one the TRNG
  gave it during the run.\<close>

definition host_turn_paired ::
  "crypto \<Rightarrow> (bytes \<Rightarrow> bytes \<Rightarrow> bytes) \<Rightarrow> u64 \<Rightarrow> u32 \<Rightarrow> paired_peer \<Rightarrow> host_turn \<Rightarrow> ephemeral \<Rightarrow> bool"
where
  "host_turn_paired C enc window_end own pp t eph \<longleftrightarrow>
     (\<exists>b hdr e_node n_node s c ch.
        ht_heard t = Some b \<and> open_frame enc JOIN_FRAME_KEY b = Inr (hdr, [HS_VERSION] @ e_node) \<and>
        h_type hdr = FtJoinReq \<and> h_src hdr = pp_addr pp \<and> length e_node = PUBLIC_LEN \<and>
        HOST_HANDSHAKE_TIME \<le> sat_sub window_end (ht_at t) \<and>
        ephemeral_session C e_node n_node RoleGateway (pp_addr pp) own eph = Some s \<and>
        pp_key pp = se_link_key s \<and> pp_sas pp = se_sas s \<and>
        c \<in> set (ht_confirm_heard t) \<and> open_frame enc (pp_key pp) c = Inr (ch, [HS_VERSION] @ session_tag RoleNode s) \<and>
        h_type ch = FtJoinConfirm \<and> h_src ch = pp_addr pp \<and> h_dest ch = own)"

definition host_paired ::
  "crypto \<Rightarrow> (bytes \<Rightarrow> bytes \<Rightarrow> bytes) \<Rightarrow> pairing_host \<Rightarrow> host_turn list \<Rightarrow> net \<Rightarrow> paired_peer \<Rightarrow> bool"
where
  "host_paired C enc h ts n pp \<longleftrightarrow>
     peer_addr_valid (pp_addr pp) (nt_addr n) \<and> peer_slot (pp_addr pp) n = None \<and>
     (\<exists>eph. (\<exists>t \<in> set ts. host_turn_paired C enc (ph_window_end h) (nt_addr n) pp t eph) \<and>
        (ph_eph h = Some eph \<or> (\<exists>t \<in> set ts. trng_ephemeral C (ht_trng t) = Some eph)))"

lemma host_ready_cases:
  assumes "host_ready C x h = (ok, h1)"
  shows "ph_window_end h1 = ph_window_end h" and "ph_eph h1 = Some e \<Longrightarrow> ph_eph h = Some e \<or> trng_ephemeral C x = Some e"
  using assms by (auto simp: host_ready_def Let_def split: if_splits)

lemma host_paired_later:
  assumes "host_paired C enc h' ts n' pp" and "same_table n n'" and "ph_window_end h' = ph_window_end h"
    and "\<And>e. ph_eph h' = Some e \<Longrightarrow> ph_eph h = Some e \<or> trng_ephemeral C (ht_trng t) = Some e"
  shows "host_paired C enc h (t # ts) n pp"
proof -
  have tab: "nt_addr n' = nt_addr n" "peer_slot (pp_addr pp) n' = peer_slot (pp_addr pp) n"
    using assms(2) by (simp_all add: same_table_def peer_slot_def)
  from assms(1) obtain eph u where u: "peer_addr_valid (pp_addr pp) (nt_addr n)" "peer_slot (pp_addr pp) n = None"
    "u \<in> set ts" "host_turn_paired C enc (ph_window_end h) (nt_addr n) pp u eph"
    "ph_eph h' = Some eph \<or> (\<exists>t \<in> set ts. trng_ephemeral C (ht_trng t) = Some eph)"
    unfolding host_paired_def tab assms(3) by blast
  from u(5) assms(4) [of eph] have "ph_eph h = Some eph \<or> (\<exists>x \<in> set (t # ts). trng_ephemeral C (ht_trng x) = Some eph)" by auto
  with u show ?thesis unfolding host_paired_def by auto
qed

lemma request_bytes: "length p = REQ_LEN \<Longrightarrow> p ! 0 = HS_VERSION \<Longrightarrow> p = [HS_VERSION] @ drop 1 p \<and> length (drop 1 p) = PUBLIC_LEN"
  by (cases p) (auto simp: REQ_LEN_def)

lemma open_pairing_loop_done:
  "open_pairing_loop C enc deadline ts h n = (r, air, h', n') \<Longrightarrow>
     same_table n n' \<and> (r = Some pp \<longrightarrow> host_paired C enc h ts n pp)"
proof (induction ts arbitrary: h n r air h' n')
  case (Cons t ts)
  obtain ok h1 where h1: "host_ready C (ht_trng t) h = (ok, h1)" by fastforce
  note R = host_ready_cases [OF h1]
  have skip: ?case if "open_pairing_loop C enc deadline ts h1 m = (r, air, h', n')" "same_table n m" for m
    using Cons.IH [OF that(1)] host_paired_later [OF _ that(2) R(1) R(2)] same_table_trans [OF that(2)] by auto
  show ?case
  proof (cases "\<exists>b hdr p eph. ht_now t < deadline \<and> ok \<and> min PAIR_RX_SLICE (sat_sub deadline (ht_listen t)) \<noteq> 0 \<and> ht_heard t = Some b \<and>
      rx_pair enc JOIN_FRAME_KEY REQ_LEN b = Some (hdr, p) \<and> h_type hdr = FtJoinReq \<and> host_admits (ht_at t) h1 hdr p n \<and> ph_eph h1 = Some eph")
    case False
    then have "r = None \<and> same_table n n' \<or> open_pairing_loop C enc deadline ts h1 n = (r, air, h', n') \<or>
        open_pairing_loop C enc deadline ts h1 (n\<lparr>nt_pair_log := snd (log_hit (ht_uptime t) (nt_pair_log n))\<rparr>) = (r, air, h', n')"
      using Cons.prems h1 by (auto split: if_splits option.splits bool.splits bind_splits)
    then show ?thesis using skip by auto
  next
    case True
    then obtain b hdr p eph where go: "ht_now t < deadline" "ok" "min PAIR_RX_SLICE (sat_sub deadline (ht_listen t)) \<noteq> 0"
      and b: "ht_heard t = Some b" "rx_pair enc JOIN_FRAME_KEY REQ_LEN b = Some (hdr, p)" "h_type hdr = FtJoinReq"
      and ad: "host_admits (ht_at t) h1 hdr p n" and eph: "ph_eph h1 = Some eph" by blast
    obtain q air1 n1 where a: "host_answer C enc t eph (drop 1 p) (h_src hdr) n = (q, air1, n1)" by (metis prod.exhaust)
    note A = host_answer_done [OF a]
    obtain r2 air2 h2 n2 where l: "open_pairing_loop C enc deadline ts (h1\<lparr>ph_eph := None\<rparr>) n1 = (r2, air2, h2, n2)" by (metis prod.exhaust)
    have res: "(r, air, h', n') = (case q of PairStop \<Rightarrow> (None, air1, h1\<lparr>ph_eph := None\<rparr>, n1) | PairDone pp \<Rightarrow> (Some pp, air1, h1\<lparr>ph_eph := None\<rparr>, n1)
        | PairNext \<Rightarrow> (r2, air1 @ air2, h2, n2))"
      using Cons.prems h1 go b ad eph a l by (simp split: pair_step.splits)
    show ?thesis
    proof (cases q)
      case PairNext
      have "same_table n n1" using A by blast
      then show ?thesis using PairNext res Cons.IH [OF l] host_paired_later [of C enc "h1\<lparr>ph_eph := None\<rparr>" ts n1 pp n h t] R(1)
          same_table_trans [of n n1 n2] by auto
    next
      case (PairDone pp')
      note D = host_answer_done [OF a, of pp', unfolded PairDone]
      from D obtain w s where w: "handshake C eph (drop 1 p) (drop 1 w) RoleGateway (h_src hdr) (nt_addr n) = Some s"
        "pp' = \<lparr>pp_addr = h_src hdr, pp_key = se_link_key s, pp_sas = se_sas s\<rparr>"
        "await_confirm enc s (h_src hdr) (nt_addr n) (ht_confirm_heard t)" by blast
      from await_confirm_heard [OF w(3)] obtain c ch where c: "c \<in> set (ht_confirm_heard t)"
        "open_frame enc (se_link_key s) c = Inr (ch, [HS_VERSION] @ session_tag RoleNode s)" "h_type ch = FtJoinConfirm" "h_src ch = h_src hdr" "h_dest ch = nt_addr n"
        by blast
      have p: "p = [HS_VERSION] @ drop 1 p \<and> length (drop 1 p) = PUBLIC_LEN" by (rule request_bytes) (use ad in \<open>simp_all add: host_admits_def\<close>)
      have "host_turn_paired C enc (ph_window_end h) (nt_addr n) pp' t eph"
        unfolding host_turn_paired_def
      proof (intro conjI exI)
        show "open_frame enc JOIN_FRAME_KEY b = Inr (hdr, [HS_VERSION] @ drop 1 p)" using b(2) p by (simp add: rx_pair_iff)
        show "HOST_HANDSHAKE_TIME \<le> sat_sub (ph_window_end h) (ht_at t)" using ad R(1) by (simp add: host_admits_def handshake_fits_def)
      qed (use b c w p in \<open>simp_all add: handshake_def\<close>)
      then have "host_paired C enc h (t # ts) n pp'"
        using ad w(2) R(2) [OF eph] by (auto simp: host_paired_def host_admits_def join_request_admissible_def)
      with res PairDone D show ?thesis by auto
    next
      case PairStop
      with res A show ?thesis by simp
    qed
  qed
qed simp

text \<open>C17. Over-the-air pairing only ever adds a new node that proved the key: when \<open>open_pairing\<close> returns
  a peer, it had asked to join from an address that is valid, not the host's own and not registered,
  while a whole handshake still fitted the window; the key and the six digits are those of the session
  with its public key, under an ephemeral from the TRNG, and a confirm with the joiner's tag arrived
  sealed under that very key. Whatever it returns, the peer table is untouched.\<close>

theorem open_pairing_only_new:
  assumes "open_pairing C enc now span ts h n = (Some pp, air, h', n')"
  shows "host_paired C enc h ts n pp \<and> same_table n n' \<and> nt_access n = Duty \<and> \<not> txc_locked (nt_txc n)"
  using assms by (auto simp: open_pairing_def dest!: open_pairing_loop_done [where pp = pp] split: option.splits if_splits)

section \<open>The joiner\<close>

text \<open>A completed pairing on the joiner: a host answered with a commitment, then revealed a nonce that
  opens it with a tag that proves the session; the confirm went out last.\<close>

definition join_turn_paired ::
  "crypto \<Rightarrow> (bytes \<Rightarrow> bytes \<Rightarrow> bytes) \<Rightarrow> u32 \<Rightarrow> paired_peer \<Rightarrow> bytes \<Rightarrow> join_turn \<Rightarrow> ephemeral \<Rightarrow> bool"
where
  "join_turn_paired C enc addr pp confirm t eph \<longleftrightarrow>
     (\<exists>b hb resp r hr n_gw s c.
        b \<in> set (jt_resp_heard t) \<and> open_frame enc JOIN_FRAME_KEY b = Inr (hb, resp) \<and> h_type hb = FtJoinResp \<and>
        h_src hb = pp_addr pp \<and> h_dest hb = addr \<and> length resp = RESP_LEN \<and>
        r \<in> set (jt_reveal_heard t) \<and> open_frame enc JOIN_FRAME_KEY r = Inr (hr, [HS_VERSION] @ n_gw @ session_tag RoleGateway s) \<and>
        h_type hr = FtJoinReveal \<and> h_src hr = pp_addr pp \<and> h_dest hr = addr \<and>
        commitment_matches C (drop (1 + PUBLIC_LEN) resp) n_gw (ep_public eph) (bslice 1 PUBLIC_LEN resp) addr (pp_addr pp) \<and>
        ephemeral_session C (bslice 1 PUBLIC_LEN resp) n_gw RoleNode addr (pp_addr pp) eph = Some s \<and>
        pp_key pp = se_link_key s \<and> pp_sas pp = se_sas s \<and>
        seal_frame enc (pp_key pp) (pair_header FtJoinConfirm addr (pp_addr pp) c) ([HS_VERSION] @ session_tag RoleNode s) MAX_FRAME = Inr confirm)"

definition joiner_paired ::
  "crypto \<Rightarrow> (bytes \<Rightarrow> bytes \<Rightarrow> bytes) \<Rightarrow> u32 \<Rightarrow> ephemeral option \<Rightarrow> join_turn list \<Rightarrow> bytes list \<Rightarrow> paired_peer \<Rightarrow> bool"
where
  "joiner_paired C enc addr held ts air pp \<longleftrightarrow>
     \<not> is_reserved_addr (pp_addr pp) \<and> pp_addr pp \<noteq> addr \<and>
     (\<exists>before confirm eph. air = before @ [confirm] \<and> (\<exists>t \<in> set ts. join_turn_paired C enc addr pp confirm t eph) \<and>
        (held = Some eph \<or> (\<exists>t \<in> set ts. trng_ephemeral C (jt_trng t) = Some eph)))"

lemma join_answered_done:
  assumes run: "join_answered C enc t eph addr gw resp n = (PairDone pp, air, n')"
    and resp: "await_resp enc addr (jt_resp_heard t) = Some (gw, resp)"
  shows "pp_addr pp = gw \<and> (\<exists>before confirm. air = before @ [confirm] \<and> join_turn_paired C enc addr pp confirm t eph)"
proof -
  from run obtain c n1 air1 n2 s c' n3 air2 where
    s: "await_reveal C enc eph (bslice 1 PUBLIC_LEN resp) (drop (1 + PUBLIC_LEN) resp) addr gw (jt_reveal_heard t) = Some s"
    and x: "tx_pair enc (jt_conf_elapsed t) (jt_conf_ok t) (se_link_key s) (pair_header FtJoinConfirm addr gw c')
        ([HS_VERSION] @ session_tag RoleNode s) n3 = (True, air2, n')"
    and r: "pp = \<lparr>pp_addr = gw, pp_key = se_link_key s, pp_sas = se_sas s\<rparr>" "air = air1 @ air2"
    unfolding join_answered_def Let_def by (auto split: option.splits prod.splits bool.splits)
  from x obtain f where f: "air2 = [f]" "seal_frame enc (se_link_key s) (pair_header FtJoinConfirm addr gw c')
      ([HS_VERSION] @ session_tag RoleNode s) MAX_FRAME = Inr f"
    by (auto simp: tx_pair_def split: sum.splits prod.splits if_splits)
  from await_reveal_heard [OF s] await_resp_heard [OF resp] f(2)
  have "join_turn_paired C enc addr pp f t eph"
    unfolding join_turn_paired_def r(1) reveal_opens_def handshake_def by simp blast
  with r f(1) show ?thesis by auto
qed

lemma joiner_paired_later:
  assumes "joiner_paired C enc addr u ts air pp" and "\<And>e. u = Some e \<Longrightarrow> held = Some e \<or> trng_ephemeral C (jt_trng t) = Some e"
  shows "joiner_paired C enc addr held (t # ts) (pre @ air) pp"
proof -
  from assms(1) obtain before confirm eph where
    *: "\<not> is_reserved_addr (pp_addr pp)" "pp_addr pp \<noteq> addr" "air = before @ [confirm]"
      "\<exists>t \<in> set ts. join_turn_paired C enc addr pp confirm t eph" "u = Some eph \<or> (\<exists>t \<in> set ts. trng_ephemeral C (jt_trng t) = Some eph)"
    by (auto simp: joiner_paired_def)
  from *(5) assms(2) [of eph] have "held = Some eph \<or> (\<exists>x \<in> set (t # ts). trng_ephemeral C (jt_trng x) = Some eph)" by auto
  with * show ?thesis unfolding joiner_paired_def
    by (intro conjI exI [of _ "pre @ before"] exI [of _ confirm] exI [of _ eph]) auto
qed

lemma join_loop_done:
  "join_loop C enc addr deadline ts u n = (Some pp, air, n') \<Longrightarrow> joiner_paired C enc addr u ts air pp"
proof (induction ts arbitrary: u n air n')
  case (Cons t ts)
  obtain ac n1 where a: "alloc_counter n = (ac, n1)" by fastforce
  from Cons.prems a obtain c eph where ac: "ac = Some c"
    and e: "(case u of Some e \<Rightarrow> Some e | None \<Rightarrow> trng_ephemeral C (jt_trng t)) = Some eph" and now: "jt_now t < deadline"
    by (auto split: if_splits option.splits)
  have src: "u = Some eph \<or> trng_ephemeral C (jt_trng t) = Some eph" using e by (auto split: option.splits)
  obtain b air1 n2 where x: "tx_pair enc (jt_req_elapsed t) (jt_req_ok t) JOIN_FRAME_KEY (pair_header FtJoinReq addr 0 c)
      ([HS_VERSION] @ ep_public eph) n1 = (b, air1, n2)" by (metis prod.exhaust)
  obtain r1 airk nk where l: "join_loop C enc addr deadline ts (Some eph) n2 = (r1, airk, nk)" by (metis prod.exhaust)
  show ?case
  proof (cases "\<exists>gw resp. b \<and> await_resp enc addr (jt_resp_heard t) = Some (gw, resp)")
    case False
    then have "r1 = Some pp" "air = air1 @ airk"
      using Cons.prems now e a ac x l by (auto split: bool.splits option.splits)
    with joiner_paired_later [OF Cons.IH [of "Some eph" n2 airk nk]] l src show ?thesis by auto
  next
    case True
    then obtain gw resp where g: b "await_resp enc addr (jt_resp_heard t) = Some (gw, resp)" by blast
    obtain q air2 n3 where j: "join_answered C enc t eph addr gw resp n2 = (q, air2, n3)" by (metis prod.exhaust)
    obtain r4 air4 n4 where l: "join_loop C enc addr deadline ts None n3 = (r4, air4, n4)" by (metis prod.exhaust)
    have res: "(Some pp, air, n') = (case q of PairStop \<Rightarrow> (None, air1 @ air2, n3) | PairDone pq \<Rightarrow> (Some pq, air1 @ air2, n3)
        | PairNext \<Rightarrow> (r4, air1 @ air2 @ air4, n4))"
      using Cons.prems now e a ac x g j l by (simp split: pair_step.splits)
    show ?thesis
    proof (cases q)
      case PairNext
      with res l have "joiner_paired C enc addr None ts air4 pp" by (intro Cons.IH [of None n3 air4 n4]) simp
      from joiner_paired_later [OF this, of u t "air1 @ air2"] PairNext res show ?thesis by simp
    next
      case (PairDone pq)
      with res have q: "pq = pp" "air = air1 @ air2" by simp_all
      from join_answered_done [OF j [unfolded PairDone q(1)] g(2)] obtain before confirm where
        d: "pp_addr pp = gw" "air2 = before @ [confirm]" "join_turn_paired C enc addr pp confirm t eph" by blast
      show ?thesis unfolding joiner_paired_def
        using d q(2) await_resp_heard [OF g(2)] src
        by (intro conjI exI [of _ "air1 @ before"] exI [of _ confirm] exI [of _ eph]) auto
    qed (use res in simp)
  qed
qed simp

text \<open>C18. A joiner keeps only a key its host committed to and proved: when \<open>join\<close> returns a peer, a host
  at a proper address other than the joiner's had answered with its public key and a commitment, the
  nonce it then revealed opens that commitment for exactly these keys and addresses, the key and the six
  digits are those of the session over them with the joiner's own ephemeral from the TRNG, the host's tag
  proved that session, and the joiner's own confirm under that key is the last thing it sent.\<close>

theorem join_needs_commitment:
  assumes "net_join C enc addr now timeout ts n = (Some pp, air, n')"
  shows "joiner_paired C enc addr None ts air pp \<and> \<not> is_reserved_addr addr \<and> nt_access n = Duty \<and> \<not> txc_locked (nt_txc n)"
  using assms by (auto simp: net_join_def dest!: join_loop_done split: option.splits if_splits)

section \<open>A pairing completes\<close>

text \<open>A device that can send \<open>k\<close> more frames: unlocked, that many counters reserved, the airtime of that
  many of the longest frames (45 ms) in the duty budget.\<close>

definition can_send :: "nat \<Rightarrow> net \<Rightarrow> bool" where
  "can_send k n \<longleftrightarrow> \<not> txc_locked (nt_txc n) \<and> unat (txc_counter (nt_txc n)) + k < unat (txc_reserve_limit (nt_txc n)) \<and>
     45 * k \<le> unat (dg_budget_ms (nt_duty n)) \<and> dg_budget_ms (nt_duty n) \<le> dg_cap_ms (nt_duty n)"

lemma frame_toa_45: "n \<le> MAX_FRAME \<Longrightarrow> unat (frame_toa_ms (of_nat n)) \<le> 45"
proof -
  assume n: "n \<le> MAX_FRAME"
  then have "unat (of_nat n :: u64) = n" by (simp add: unat_of_nat MAX_FRAME_def)
  then have "((n + 11) * 8000 + 19200 - 1) div 19200 \<le> 45" "unat (frame_toa_ms (of_nat n)) = ((n + 11) * 8000 + 19200 - 1) div 19200"
    using n by (simp_all add: frame_toa_ms_def Let_def unat_sat_mul unat_sat_add BITRATE_def MAX_FRAME_def unat_of_nat)
  then show ?thesis by simp
qed

lemma try_tx_budget:
  assumes "45 * Suc k \<le> unat (dg_budget_ms g)" and "dg_budget_ms g \<le> dg_cap_ms g" and "unat toa \<le> 45"
  shows "\<exists>g'. try_tx g e toa = (True, g') \<and> 45 * k \<le> unat (dg_budget_ms g') \<and> dg_budget_ms g' \<le> dg_cap_ms g'"
proof -
  let ?g = "refill_ms g e"
  have up: "unat (dg_budget_ms g) \<le> unat (dg_budget_ms ?g)" "dg_budget_ms ?g \<le> dg_cap_ms ?g"
    using assms(2) sat_add_ge [of "dg_budget_ms g"] by (auto simp: refill_ms_def Let_def word_le_nat_alt unat_min)
  then have le: "toa \<le> dg_budget_ms ?g" using assms(1,3) by (simp add: word_le_nat_alt)
  let ?g' = "?g\<lparr>dg_budget_ms := dg_budget_ms ?g - toa\<rparr>"
  have "try_tx g e toa = (True, ?g')" using le by (simp add: try_tx_def try_consume_def)
  moreover have "unat (dg_budget_ms ?g - toa) = unat (dg_budget_ms ?g) - unat toa" using le by (simp add: unat_sub)
  ultimately show ?thesis using up assms(1,3) by (auto simp: word_le_nat_alt intro!: exI [of _ ?g'])
qed

text \<open>One frame of the exchange goes out and can be opened.\<close>

definition goes_out ::
  "(bytes \<Rightarrow> bytes \<Rightarrow> bytes) \<Rightarrow> bytes \<Rightarrow> frame_type \<Rightarrow> u32 \<Rightarrow> u32 \<Rightarrow> bytes \<Rightarrow> net \<Rightarrow> bytes \<Rightarrow> net \<Rightarrow> bool"
where
  "goes_out enc key t src dest p n f n' \<longleftrightarrow>
     (\<exists>c n1. alloc_counter n = (Some c, n1) \<and> same_table n n1 \<and> tx_pair enc 0 True key (pair_header t src dest c) p n1 = (True, [f], n') \<and>
        open_frame enc key f = Inr (pair_header t src dest c, p))"

lemma can_send_step:
  assumes "can_send (Suc k) n" and "aes_block enc" and "\<not> has_bulk_index t" and "length p \<le> 74"
  shows "\<exists>f n2. goes_out enc key t src dest p n f n2 \<and> can_send k n2 \<and> same_table n n2"
proof -
  let ?t = "nt_txc n" and ?h = "\<lambda>c. pair_header t src dest c"
  have C: "\<not> txc_locked ?t" "unat (txc_counter ?t) + Suc k < unat (txc_reserve_limit ?t)" "45 * Suc k \<le> unat (dg_budget_ms (nt_duty n))"
    "dg_budget_ms (nt_duty n) \<le> dg_cap_ms (nt_duty n)" using assms(1) by (auto simp: can_send_def)
  have lim: "unat (txc_reserve_limit ?t) < 2 ^ 32" using unat_less_size [of "txc_reserve_limit ?t"] by simp
  let ?c = "txc_counter ?t" and ?t1 = "?t\<lparr>txc_counter := txc_counter ?t + 1\<rparr>"
  have suc: "unat (?c + 1) = Suc (unat ?c)" using C(2) lim by (simp add: unat_word_ariths)
  then have s: "sat_add ?c 1 = ?c + 1" using C(2) lim by (simp add: sat_add_def)
  have lt: "?c + 1 < txc_reserve_limit ?t" using C(2) suc by (simp add: word_less_nat_alt)
  moreover from this have "?c + 1 \<noteq> - 1" by (metis leD word_le_max)
  ultimately have "tx_alloc ?t = (Some (?c, None), ?t1)"
    using C(1) s by (auto simp: tx_alloc_def tx_advance_def Let_def not_le)
  then have a: "alloc_counter n = (Some ?c, n\<lparr>nt_txc := ?t1\<rparr>)" by (simp add: alloc_counter_def)
  have wf: "header_wf (?h ?c)" "length p \<le> max_payload (?h ?c)"
    using assms(3,4) by (simp_all add: max_payload_def pair_header_def MAX_PAYLOAD_def)
      (simp add: header_wf_def has_bulk_index_def)
  from sealed_opens [OF assms(2) wf, of key] obtain f where
    f: "seal_frame enc key (?h ?c) p MAX_FRAME = Inr f" "length f \<le> MAX_FRAME" "open_frame enc key f = Inr (?h ?c, p)" by blast
  from try_tx_budget [OF C(3,4) frame_toa_45 [OF f(2)], of 0] obtain g where
    g: "try_tx (nt_duty n) 0 (frame_toa_ms (of_nat (length f))) = (True, g)" "45 * k \<le> unat (dg_budget_ms g)" "dg_budget_ms g \<le> dg_cap_ms g" by blast
  let ?n2 = "n\<lparr>nt_txc := ?t1, nt_duty := g\<rparr>"
  have "tx_pair enc 0 True key (?h ?c) p (n\<lparr>nt_txc := ?t1\<rparr>) = (True, [f], ?n2)" using f(1) g(1) by (simp add: tx_pair_def)
  then have "goes_out enc key t src dest p n f ?n2" using a f(3) by (auto simp: goes_out_def same_table_def)
  moreover have "can_send k ?n2" using C g suc by (simp add: can_send_def)
  moreover have "same_table n ?n2" by (simp add: same_table_def)
  ultimately show ?thesis by blast
qed

text \<open>A turn in which every transmission goes out and exactly the other end's frames are heard.\<close>

definition clear_join_turn :: "u64 \<Rightarrow> bytes option \<Rightarrow> bytes \<Rightarrow> bytes \<Rightarrow> join_turn" where
  "clear_join_turn now trng resp reveal =
     \<lparr>jt_now = now, jt_trng = trng, jt_req_elapsed = 0, jt_req_ok = True, jt_resp_heard = [resp], jt_nonce_elapsed = 0,
      jt_nonce_ok = True, jt_reveal_heard = [reveal], jt_conf_elapsed = 0, jt_conf_ok = True\<rparr>"

definition clear_host_turn :: "u64 \<Rightarrow> bytes \<Rightarrow> bytes \<Rightarrow> bytes \<Rightarrow> host_turn" where
  "clear_host_turn now req nonce confirm =
     \<lparr>ht_now = now, ht_trng = None, ht_listen = now, ht_heard = Some req, ht_at = now, ht_uptime = 0, ht_resp_elapsed = 0,
      ht_resp_ok = True, ht_nonce_heard = [nonce], ht_reveal_elapsed = 0, ht_reveal_ok = True, ht_confirm_heard = [confirm]\<rparr>"

lemma rx_pairI: "open_frame enc key f = Inr (h, p) \<Longrightarrow> length p \<le> m \<Longrightarrow> rx_pair enc key m f = Some (h, p)"
  by (simp add: rx_pair_iff)

lemma length_commitment: "crypto_ok C \<Longrightarrow> length (commitment C k e_node e_gw a g) = COMMIT_LEN"
  using crypto_okD(2) by (simp add: commitment_def COMMIT_LEN_def)

lemma join_resp_parts:
  assumes "crypto_ok C" and "length (ep_public g) = PUBLIC_LEN"
  shows "length (join_resp C g e a w) = RESP_LEN" "join_resp C g e a w ! 0 = HS_VERSION"
    "bslice 1 PUBLIC_LEN (join_resp C g e a w) = ep_public g"
    "drop (1 + PUBLIC_LEN) (join_resp C g e a w) = ephemeral_commitment C e a w g"
  using assms by (simp_all add: join_resp_def ephemeral_commitment_def length_commitment RESP_LEN_def bslice_def)

lemma reveal_parts:
  assumes "length k = HS_NONCE_LEN" and "length t = HS_TAG_LEN"
  shows "length ([HS_VERSION] @ k @ t) = REVEAL_LEN" "([HS_VERSION] @ k @ t) ! 0 = HS_VERSION"
    "bslice 1 HS_NONCE_LEN ([HS_VERSION] @ k @ t) = k" "drop (1 + HS_NONCE_LEN) ([HS_VERSION] @ k @ t) = t"
  using assms by (simp_all add: REVEAL_LEN_def bslice_def)

text \<open>The joiner's half, then the host's, given that their frames go out.\<close>

lemma joiner_half:
  assumes C: "crypto_ok C" and e: "e = ephemeral_from_entropy C x" and g: "g = ephemeral_from_entropy C y"
    and s: "ephemeral_session C (ep_public e) (ep_nonce e) RoleGateway addr gw g = Some s"
    and n: "\<not> txc_locked (nt_txc n)" "nt_access n = Duty" "checked_add now timeout = Some d" "now < d"
    and ok: "\<not> is_reserved_addr addr" "\<not> is_reserved_addr gw" "gw \<noteq> addr"
    and f1: "goes_out enc JOIN_FRAME_KEY FtJoinReq addr 0 ([HS_VERSION] @ ep_public e) n f1 n1"
    and f3: "goes_out enc JOIN_FRAME_KEY FtJoinNonce addr gw ([HS_VERSION] @ ep_nonce e) n1 f3 n2"
    and f5: "goes_out enc (se_link_key s) FtJoinConfirm addr gw ([HS_VERSION] @ session_tag RoleNode s) n2 f5 n3"
    and f2: "open_frame enc JOIN_FRAME_KEY f2 = Inr (pair_header FtJoinResp gw addr c2, join_resp C g (ep_public e) addr gw)"
    and f4: "open_frame enc JOIN_FRAME_KEY f4 = Inr (pair_header FtJoinReveal gw addr c4, [HS_VERSION] @ ep_nonce g @ session_tag RoleGateway s)"
  shows "net_join C enc addr now timeout [clear_join_turn now (Some x) f2 f4] n =
     (Some \<lparr>pp_addr = gw, pp_key = se_link_key s, pp_sas = se_sas s\<rparr>, [f1, f3, f5], n3)"
proof -
  note tag = ephemeral_session_facts(2) [OF C s] and non = ephemeral_lengths(3) [OF C]
  have pub: "length (ep_public g) = PUBLIC_LEN" using ephemeral_lengths(2) [OF C] g by simp
  have sn: "handshake C e (ep_public g) (ep_nonce g) RoleNode addr gw = Some s"
    using sessions_agree [OF C e g] s by (simp add: handshake_def)
  have resp: "await_resp enc addr [f2] = Some (gw, join_resp C g (ep_public e) addr gw)"
    using rx_pairI [OF f2] join_resp_parts [OF C pub] ok by (simp add: pair_header_def join_response_for_def)
  have reveal: "await_reveal C enc e (ep_public g) (ephemeral_commitment C (ep_public e) addr gw g) addr gw [f4] = Some s"
    using rx_pairI [OF f4, of REVEAL_LEN] reveal_parts [OF non tag, of y RoleGateway] g sn tag
    by (simp add: pair_header_def Let_def reveal_opens_def commitment_matches_iff [OF C] ephemeral_commitment_def session_verify_iff
        del: session_tag.simps append_Cons append_Nil)
  from f1 f3 f5 obtain c1 m1 c3 m3 c5 m5 where
    "alloc_counter n = (Some c1, m1)" "tx_pair enc 0 True JOIN_FRAME_KEY (pair_header FtJoinReq addr 0 c1) ([HS_VERSION] @ ep_public e) m1 = (True, [f1], n1)"
    "alloc_counter n1 = (Some c3, m3)" "tx_pair enc 0 True JOIN_FRAME_KEY (pair_header FtJoinNonce addr gw c3) ([HS_VERSION] @ ep_nonce e) m3 = (True, [f3], n2)"
    "alloc_counter n2 = (Some c5, m5)" "tx_pair enc 0 True (se_link_key s) (pair_header FtJoinConfirm addr gw c5) ([HS_VERSION] @ session_tag RoleNode s) m5 = (True, [f5], n3)"
    unfolding goes_out_def by blast
  then show ?thesis
    using n ok resp reveal join_resp_parts(3,4) [OF C pub] e
    by (simp add: net_join_def clear_join_turn_def trng_ephemeral_def join_answered_def Let_def del: session_tag.simps await_resp.simps await_reveal.simps)
qed

lemma host_half:
  assumes C: "crypto_ok C" and e: "e = ephemeral_from_entropy C x"
    and s: "ephemeral_session C (ep_public e) (ep_nonce e) RoleGateway addr (nt_addr m) g = Some s"
    and m: "\<not> txc_locked (nt_txc m)" "nt_access m = Duty" "checked_add hnow span = Some stop" "hnow < min stop (ph_window_end h)" "ph_eph h = Some g"
    and adm: "peer_addr_valid addr (nt_addr m)" "peer_slot addr m = None" "HOST_HANDSHAKE_TIME \<le> sat_sub (ph_window_end h) hnow"
    and f2: "goes_out enc JOIN_FRAME_KEY FtJoinResp (nt_addr m) addr (join_resp C g (ep_public e) addr (nt_addr m)) m f2 m1"
    and f4: "goes_out enc JOIN_FRAME_KEY FtJoinReveal (nt_addr m) addr ([HS_VERSION] @ ep_nonce g @ session_tag RoleGateway s) m1 f4 m2"
    and f1: "open_frame enc JOIN_FRAME_KEY f1 = Inr (pair_header FtJoinReq addr 0 c1, [HS_VERSION] @ ep_public e)"
    and f3: "open_frame enc JOIN_FRAME_KEY f3 = Inr (pair_header FtJoinNonce addr (nt_addr m) c3, [HS_VERSION] @ ep_nonce e)"
    and f5: "open_frame enc (se_link_key s) f5 = Inr (pair_header FtJoinConfirm addr (nt_addr m) c5, [HS_VERSION] @ session_tag RoleNode s)"
  shows "open_pairing C enc hnow span [clear_host_turn hnow f1 f3 f5] h m =
     (Some \<lparr>pp_addr = addr, pp_key = se_link_key s, pp_sas = se_sas s\<rparr>, [f2, f4], h\<lparr>ph_eph := None\<rparr>, m2)"
proof -
  let ?gw = "nt_addr m" and ?t = "clear_host_turn hnow f1 f3 f5" and ?h = "pair_header FtJoinReq addr 0 c1"
  note tag = ephemeral_session_facts(2) [OF C s] and pub = ephemeral_lengths(2) [OF C] and non = ephemeral_lengths(3) [OF C]
  have nonce: "await_nonce enc addr ?gw [f3] = Some ([HS_VERSION] @ ep_nonce e)"
    using rx_pairI [OF f3, of NONCE_MSG_LEN] non e by (simp add: pair_header_def NONCE_MSG_LEN_def)
  have confirm: "await_confirm enc s addr ?gw [f5]"
    using rx_pairI [OF f5, of CONFIRM_LEN] tag
    by (simp add: pair_header_def CONFIRM_LEN_def session_verify_iff del: session_tag.simps)
  have req: "rx_pair enc JOIN_FRAME_KEY REQ_LEN f1 = Some (?h, [HS_VERSION] @ ep_public e)"
    using rx_pairI [OF f1, of REQ_LEN] pub e by (simp add: REQ_LEN_def)
  from f2 f4 obtain c2 k1 c4 k2 where k: "alloc_counter m = (Some c2, k1)" "same_table m k1" "alloc_counter m1 = (Some c4, k2)" "same_table m1 k2"
    "tx_pair enc 0 True JOIN_FRAME_KEY (pair_header FtJoinResp ?gw addr c2) (join_resp C g (ep_public e) addr ?gw) k1 = (True, [f2], m1)"
    "tx_pair enc 0 True JOIN_FRAME_KEY (pair_header FtJoinReveal ?gw addr c4) ([HS_VERSION] @ ep_nonce g @ session_tag RoleGateway s) k2 = (True, [f4], m2)"
    unfolding goes_out_def by blast
  have addr: "nt_addr k1 = ?gw" "nt_addr m1 = ?gw" "nt_addr k2 = ?gw" "nt_addr m2 = ?gw"
    using k(2,4) same_table_tx [OF k(5)] same_table_tx [OF k(6)] by (simp_all add: same_table_def)
  have ans: "host_answer C enc ?t g (ep_public e) addr m =
      (PairDone \<lparr>pp_addr = addr, pp_key = se_link_key s, pp_sas = se_sas s\<rparr>, [f2, f4], m2)"
    using k nonce confirm s addr
    by (simp add: host_answer_def host_reveal_def clear_host_turn_def handshake_def del: session_tag.simps await_nonce.simps await_confirm.simps)
  have listen: "min PAIR_RX_SLICE (sat_sub (min stop (ph_window_end h)) hnow) \<noteq> 0"
    using m(4) by (auto simp: sat_sub_def PAIR_RX_SLICE_def min_def)
  have admits: "host_admits hnow h ?h ([HS_VERSION] @ ep_public e) m"
    using adm pub e by (simp add: host_admits_def pair_header_def REQ_LEN_def join_request_admissible_def handshake_fits_def)
  have t: "ht_now ?t = hnow" "ht_listen ?t = hnow" "ht_heard ?t = Some f1" "ht_at ?t = hnow" "h_src ?h = addr" "h_type ?h = FtJoinReq"
    by (simp_all add: clear_host_turn_def pair_header_def)
  have rdy: "host_ready C (ht_trng ?t) h = (True, h)" using m(5) by (simp add: host_ready_def)
  show ?thesis using m listen admits ans t rdy req by (simp add: open_pairing_def)
qed

lemma pairing_run:
  assumes C: "crypto_ok C" and enc: "aes_block enc"
    and e: "e = ephemeral_from_entropy C x" and g: "g = ephemeral_from_entropy C y"
    and s: "ephemeral_session C (ep_public e) (ep_nonce e) RoleGateway addr (nt_addr m) g = Some s"
    and n: "can_send 3 n" "nt_access n = Duty" "checked_add now timeout = Some d" "now < d"
    and m: "can_send 2 m" "nt_access m = Duty" "checked_add hnow span = Some stop" "hnow < min stop (ph_window_end h)" "ph_eph h = Some g"
    and adm: "peer_addr_valid addr (nt_addr m)" "peer_slot addr m = None" "\<not> is_reserved_addr (nt_addr m)"
    and fits: "HOST_HANDSHAKE_TIME \<le> sat_sub (ph_window_end h) hnow"
  shows "\<exists>f1 f2 f3 f4 f5 n' h' m'.
     net_join C enc addr now timeout [clear_join_turn now (Some x) f2 f4] n =
       (Some \<lparr>pp_addr = nt_addr m, pp_key = se_link_key s, pp_sas = se_sas s\<rparr>, [f1, f3, f5], n') \<and>
     open_pairing C enc hnow span [clear_host_turn hnow f1 f3 f5] h m =
       (Some \<lparr>pp_addr = addr, pp_key = se_link_key s, pp_sas = se_sas s\<rparr>, [f2, f4], h', m')"
proof -
  let ?gw = "nt_addr m"
  have lens: "length (ep_public e) = 32" "length (ep_nonce e) = 16" "length (ep_public g) = 32" "length (ep_nonce g) = 16"
    "length (session_tag r s) = 8" for r
    using ephemeral_lengths [OF C] ephemeral_session_facts(2) [OF C s] e g by (simp_all add: hs_lens)
  then have resp: "length (join_resp C g (ep_public e) addr ?gw) = 49" using join_resp_parts(1) [OF C, of g] by (simp add: hs_lens)
  have val: "\<not> is_reserved_addr addr" "?gw \<noteq> addr" using adm(1) by (auto simp: peer_addr_valid_def)
  have start: "can_send (Suc (Suc (Suc 0))) n" "can_send (Suc (Suc 0)) m" using n(1) m(1) by (simp_all add: numeral_eq_Suc)
  have un: "\<not> txc_locked (nt_txc n)" "\<not> txc_locked (nt_txc m)" using n(1) m(1) by (simp_all add: can_send_def)
  from can_send_step [OF start(1) enc not_bulk(1), of "[HS_VERSION] @ ep_public e" JOIN_FRAME_KEY addr 0] lens obtain f1 n1 where
    f1: "goes_out enc JOIN_FRAME_KEY FtJoinReq addr 0 ([HS_VERSION] @ ep_public e) n f1 n1" "can_send (Suc (Suc 0)) n1" by auto
  from can_send_step [OF start(2) enc not_bulk(2), of "join_resp C g (ep_public e) addr ?gw" JOIN_FRAME_KEY ?gw addr] resp obtain f2 m1 where
    f2: "goes_out enc JOIN_FRAME_KEY FtJoinResp ?gw addr (join_resp C g (ep_public e) addr ?gw) m f2 m1" "can_send (Suc 0) m1" by auto
  from can_send_step [OF f1(2) enc not_bulk(3), of "[HS_VERSION] @ ep_nonce e" JOIN_FRAME_KEY addr ?gw] lens obtain f3 n2 where
    f3: "goes_out enc JOIN_FRAME_KEY FtJoinNonce addr ?gw ([HS_VERSION] @ ep_nonce e) n1 f3 n2" "can_send (Suc 0) n2" by auto
  from can_send_step [OF f2(2) enc not_bulk(4), of "[HS_VERSION] @ ep_nonce g @ session_tag RoleGateway s" JOIN_FRAME_KEY ?gw addr] lens obtain f4 m2 where
    f4: "goes_out enc JOIN_FRAME_KEY FtJoinReveal ?gw addr ([HS_VERSION] @ ep_nonce g @ session_tag RoleGateway s) m1 f4 m2" by (auto simp del: session_tag.simps)
  from can_send_step [OF f3(2) enc not_bulk(5), of "[HS_VERSION] @ session_tag RoleNode s" "se_link_key s" addr ?gw] lens obtain f5 n3 where
    f5: "goes_out enc (se_link_key s) FtJoinConfirm addr ?gw ([HS_VERSION] @ session_tag RoleNode s) n2 f5 n3" by (auto simp del: session_tag.simps)
  have o: "\<exists>c. open_frame enc key f = Inr (pair_header t src dest c, p)" if "goes_out enc key t src dest p k f k'" for key t src dest p k f k'
    using that by (auto simp: goes_out_def)
  from o [OF f1(1)] o [OF f2(1)] o [OF f3(1)] o [OF f4] o [OF f5] show ?thesis
    using joiner_half [OF C e g s un(1) n(2-4) val(1) adm(3) val(2) f1(1) f3(1) f5]
      host_half [OF C e s un(2) m(2-5) adm(1,2) fits f2(1) f4] by blast
qed

text \<open>C16. Pairing works: a joiner and a host in duty mode, with counters and airtime for their frames, an
  open window with a handshake's time left and an address the host may admit, complete the exchange in
  one attempt when the frames get through, for every entropy whose shared secret is not all zero: each
  returns the other's address, and both the same key and the same six digits. The frames heard are the
  ones the other end sent.\<close>

theorem pairing_completes:
  assumes C: "crypto_ok C" and enc: "aes_block enc"
    and e: "e = ephemeral_from_entropy C x" and g: "g = ephemeral_from_entropy C y"
    and s: "ephemeral_session C (ep_public e) (ep_nonce e) RoleGateway addr (nt_addr m) g = Some s"
    and n: "can_send 3 n" "nt_access n = Duty" "checked_add now timeout = Some d" "now < d"
    and m: "can_send 2 m" "nt_access m = Duty" "checked_add hnow span = Some stop" "hnow < min stop (ph_window_end h)" "ph_eph h = Some g"
    and adm: "peer_addr_valid addr (nt_addr m)" "peer_slot addr m = None" "\<not> is_reserved_addr (nt_addr m)"
    and fits: "HOST_HANDSHAKE_TIME \<le> sat_sub (ph_window_end h) hnow"
  shows "\<exists>f1 f2 f3 f4 f5 n' h' m'.
     net_join C enc addr now timeout [clear_join_turn now (Some x) f2 f4] n =
       (Some \<lparr>pp_addr = nt_addr m, pp_key = se_link_key s, pp_sas = se_sas s\<rparr>, [f1, f3, f5], n') \<and>
     open_pairing C enc hnow span [clear_host_turn hnow f1 f3 f5] h m =
       (Some \<lparr>pp_addr = addr, pp_key = se_link_key s, pp_sas = se_sas s\<rparr>, [f2, f4], h', m')"
  using pairing_run [OF assms] .

section \<open>A concrete pairing\<close>

definition demo_host :: pairing_host where
  "demo_host = \<lparr>ph_eph = Some (ephemeral_from_entropy crypto_demo [2]), ph_trng_failed = False, ph_window_end = 60000\<rparr>"

lemma demo_session:
  obtains s where "ephemeral_session crypto_demo (ep_public (ephemeral_from_entropy crypto_demo [1])) (ep_nonce (ephemeral_from_entropy crypto_demo [1]))
     RoleGateway 0x22 0x11 (ephemeral_from_entropy crypto_demo [2]) = Some s"
proof -
  have "shared_secret crypto_demo (ep_secret (ephemeral_from_entropy crypto_demo [2])) (ep_public (ephemeral_from_entropy crypto_demo [1])) \<noteq> None"
    by code_simp
  then show ?thesis using that by (auto simp: ephemeral_session_def)
qed

lemma demo_can_send: "can_send 3 (net_new demo_cfg demo_nv)" "can_send 2 (net_new demo_cfg demo_nv)"
  "nt_access (net_new demo_cfg demo_nv) = Duty" "nt_addr (net_new demo_cfg demo_nv) = 0x11" "peer_slot a (net_new demo_cfg demo_nv) = None"
proof -
  have d: "nt_duty (net_new demo_cfg demo_nv) = duty_eu" "nt_peers (net_new demo_cfg demo_nv) = replicate MAX_PEERS None"
    by (simp_all add: net_new_def Let_def demo_cfg_def band_duty_def split: prod.splits)
  then show "can_send 3 (net_new demo_cfg demo_nv)" "can_send 2 (net_new demo_cfg demo_nv)"
    using demo_boot by (simp_all add: can_send_def duty_eu_def duty_new_def EU_CAP_MS_def)
  show "nt_access (net_new demo_cfg demo_nv) = Duty" "nt_addr (net_new demo_cfg demo_nv) = 0x11"
    by (simp_all add: net_new_def Let_def demo_cfg_def split: prod.splits)
  have "slot_of a (replicate k None) = None" for k by (induction k) auto
  then show "peer_slot a (net_new demo_cfg demo_nv) = None" using d by (simp add: peer_slot_def)
qed

lemmas demo_pairing_facts = crypto_demo_ok aes_block_demo refl refl

lemma demo_pairing_side:
  "checked_add 0 (60000 :: u64) = Some 60000" "(0 :: u64) < 60000" "0 < min 60000 (ph_window_end demo_host)"
  "ph_eph demo_host = Some (ephemeral_from_entropy crypto_demo [2])" "peer_addr_valid 0x22 (nt_addr (net_new demo_cfg demo_nv))"
  "\<not> is_reserved_addr (nt_addr (net_new demo_cfg demo_nv))" "HOST_HANDSHAKE_TIME \<le> sat_sub (ph_window_end demo_host) 0"
  by (simp_all add: checked_add_def demo_host_def demo_can_send peer_addr_valid_def is_reserved_addr_def ADDR_UNASSIGNED_def ADDR_BROADCAST_def HOST_HANDSHAKE_TIME_def
      ACK_TURNAROUND_def TX_TIMEOUT_def JOIN_STEP_WINDOW_def PEER_KEX_TIME_def sat_sub_def)

lemma demo_pairing:
  "\<exists>pp pq f1 f2 f3 f4 f5 n' h' m'.
     net_join crypto_demo enc_demo 0x22 0 60000 [clear_join_turn 0 (Some [1]) f2 f4] (net_new demo_cfg demo_nv) = (Some pp, [f1, f3, f5], n') \<and>
     open_pairing crypto_demo enc_demo 0 60000 [clear_host_turn 0 f1 f3 f5] demo_host (net_new demo_cfg demo_nv) = (Some pq, [f2, f4], h', m')"
proof -
  obtain s where s: "ephemeral_session crypto_demo (ep_public (ephemeral_from_entropy crypto_demo [1])) (ep_nonce (ephemeral_from_entropy crypto_demo [1]))
     RoleGateway 0x22 0x11 (ephemeral_from_entropy crypto_demo [2]) = Some s" by (rule demo_session)
  from pairing_run [OF demo_pairing_facts, of "[1]" "0x22" "net_new demo_cfg demo_nv" "[2]" s "net_new demo_cfg demo_nv" 0 60000 60000 0 60000 60000 demo_host]
  show ?thesis using s demo_can_send demo_pairing_side by (simp add: min_def) blast
qed

theorem open_pairing_only_new_witness:
  "\<exists>ts pp. host_paired crypto_demo enc_demo demo_host ts (net_new demo_cfg demo_nv) pp"
  using demo_pairing open_pairing_only_new by blast

theorem join_needs_commitment_witness:
  "\<exists>ts air pp. joiner_paired crypto_demo enc_demo 0x22 None ts air pp"
  using demo_pairing join_needs_commitment by blast

theorem pairing_completes_witness:
  "\<exists>key sas f1 f2 f3 f4 f5 n' h' m'.
     net_join crypto_demo enc_demo 0x22 0 60000 [clear_join_turn 0 (Some [1]) f2 f4] (net_new demo_cfg demo_nv) =
       (Some \<lparr>pp_addr = 0x11, pp_key = key, pp_sas = sas\<rparr>, [f1, f3, f5], n') \<and>
     open_pairing crypto_demo enc_demo 0 60000 [clear_host_turn 0 f1 f3 f5] demo_host (net_new demo_cfg demo_nv) =
       (Some \<lparr>pp_addr = 0x22, pp_key = key, pp_sas = sas\<rparr>, [f2, f4], h', m')"
proof -
  obtain s where s: "ephemeral_session crypto_demo (ep_public (ephemeral_from_entropy crypto_demo [1])) (ep_nonce (ephemeral_from_entropy crypto_demo [1]))
     RoleGateway 0x22 0x11 (ephemeral_from_entropy crypto_demo [2]) = Some s" by (rule demo_session)
  from pairing_completes [OF demo_pairing_facts, of "[1]" "0x22" "net_new demo_cfg demo_nv" "[2]" s "net_new demo_cfg demo_nv" 0 60000 60000 0 60000 60000 demo_host]
  show ?thesis using s demo_can_send demo_pairing_side by (simp add: min_def) blast
qed

end
