(* ===== verification/Gw_Queue.thy ===== *)
theory Gw_Queue
  imports Prelude "HOL-Library.Multiset"
begin

text \<open>
  The gateway's downlink queue of \<open>crates/gateway/src/queue.rs\<close>: a pool of four slots shared by all
  nodes, two items per node at most, with expiry and stable ids. After the operations comes the
  contract the gateway application relies on, an ordered list of pending downlinks, as a locale; the
  slot pool is an interpretation of it.
\<close>

section \<open>Items and the pool\<close>

definition QUEUE_CAP :: nat where
  "QUEUE_CAP = 4"

definition PER_NODE_CAP :: nat where
  "PER_NODE_CAP = 2"

definition MAX_ITEM :: nat where
  "MAX_ITEM = 74"

datatype push_error = QFull | PerNodeFull | BadPayload

record item =
  it_id :: u16
  it_node :: u32
  it_at :: u64
  it_ttl :: u16
  it_order :: u32
  it_len :: u8
  it_buf :: bytes

definition it_data :: "item \<Rightarrow> bytes" where
  "it_data it = take (unat (it_len it)) (it_buf it)"

definition it_age :: "item \<Rightarrow> u64 \<Rightarrow> u16" where
  "it_age it now_ms = ucast (min (sat_sub now_ms (it_at it) div 1000) 0xFFFF)"

definition it_expired :: "item \<Rightarrow> u64 \<Rightarrow> bool" where
  "it_expired it now_ms \<longleftrightarrow> ucast (it_ttl it) * 1000 \<le> sat_sub now_ms (it_at it)"

record queue =
  q_slots :: "item option list"
  q_next_id :: u16
  q_next_order :: u32

definition queue_new :: queue where
  "queue_new = \<lparr>q_slots = replicate QUEUE_CAP None, q_next_id = 1, q_next_order = 0\<rparr>"

definition q_items :: "queue \<Rightarrow> item list" where
  "q_items q = map the (filter (\<lambda>s. s \<noteq> None) (q_slots q))"

definition q_count_for :: "queue \<Rightarrow> u32 \<Rightarrow> nat" where
  "q_count_for q node = length (filter (\<lambda>it. it_node it = node) (q_items q))"

definition q_len :: "queue \<Rightarrow> nat" where
  "q_len q = length (q_items q)"

section \<open>Operations\<close>

text \<open>\<open>id.checked_add(1).filter(|&v| v != 0).unwrap_or(1)\<close>, and the loop that skips the ids in
  use; the loop is given one turn more than there are slots.\<close>

definition id_succ :: "u16 \<Rightarrow> u16" where
  "id_succ i = (case checked_add i 1 of None \<Rightarrow> 1 | Some v \<Rightarrow> if v \<noteq> 0 then v else 1)"

primrec q_fresh_id :: "nat \<Rightarrow> u16 list \<Rightarrow> u16 \<Rightarrow> u16 option" where
  "q_fresh_id 0 used i = None"
| "q_fresh_id (Suc n) used i = (if i \<in> set used then q_fresh_id n used (id_succ i) else Some i)"

definition first_free :: "queue \<Rightarrow> nat option" where
  "first_free q = find (\<lambda>k. q_slots q ! k = None) [0..<length (q_slots q)]"

definition q_push :: "u32 \<Rightarrow> u16 \<Rightarrow> bytes \<Rightarrow> u64 \<Rightarrow> queue \<Rightarrow> (push_error + u16) \<times> queue" where
  "q_push node ttl data now_ms q =
     (if data = [] \<or> length data > MAX_ITEM then (Inl BadPayload, q)
      else if PER_NODE_CAP \<le> q_count_for q node then (Inl PerNodeFull, q)
      else case first_free q of None \<Rightarrow> (Inl QFull, q)
      | Some slot \<Rightarrow>
          let i = the (q_fresh_id (QUEUE_CAP + 1) (map it_id (q_items q)) (q_next_id q));
              it = \<lparr>it_id = i, it_node = node, it_at = now_ms, it_ttl = ttl, it_order = q_next_order q,
                    it_len = of_nat (length data), it_buf = bsplice 0 data (replicate MAX_ITEM 0)\<rparr>
          in (Inr i, \<lparr>q_slots = (q_slots q)[slot := Some it], q_next_id = id_succ i, q_next_order = q_next_order q + 1\<rparr>))"

text \<open>\<open>min_by_key\<close> over the order stamps: the first of the minimal ones.\<close>

definition min_order :: "item list \<Rightarrow> item option" where
  "min_order its = foldl (\<lambda>b it. case b of None \<Rightarrow> Some it | Some c \<Rightarrow> if it_order it < it_order c then Some it else b) None its"

definition q_peek_for :: "u32 \<Rightarrow> u64 \<Rightarrow> queue \<Rightarrow> item option" where
  "q_peek_for node now_ms q = min_order (filter (\<lambda>it. it_node it = node \<and> \<not> it_expired it now_ms) (q_items q))"

primrec pop_slots :: "u16 \<Rightarrow> item option list \<Rightarrow> item option \<times> item option list" where
  "pop_slots i [] = (None, [])"
| "pop_slots i (s # ss) =
     (if (case s of Some it \<Rightarrow> it_id it = i | None \<Rightarrow> False) then (s, None # ss)
      else (case pop_slots i ss of (r, ss') \<Rightarrow> (r, s # ss')))"

definition q_pop :: "u16 \<Rightarrow> queue \<Rightarrow> item option \<times> queue" where
  "q_pop i q = (case pop_slots i (q_slots q) of (r, ss) \<Rightarrow> (r, q\<lparr>q_slots := ss\<rparr>))"

definition clear_where :: "(item \<Rightarrow> bool) \<Rightarrow> item option list \<Rightarrow> item option list" where
  "clear_where P ss = map (\<lambda>s. case s of Some it \<Rightarrow> if P it then None else s | None \<Rightarrow> None) ss"

definition q_drop_node :: "u32 \<Rightarrow> queue \<Rightarrow> nat \<times> queue" where
  "q_drop_node node q =
     (length (filter (\<lambda>it. it_node it = node) (q_items q)),
      q\<lparr>q_slots := clear_where (\<lambda>it. it_node it = node) (q_slots q)\<rparr>)"

definition q_expire :: "u64 \<Rightarrow> queue \<Rightarrow> (u16 \<times> u32) list \<times> queue" where
  "q_expire now_ms q =
     (map (\<lambda>it. (it_id it, it_node it)) (filter (\<lambda>it. it_expired it now_ms) (q_items q)),
      q\<lparr>q_slots := clear_where (\<lambda>it. it_expired it now_ms) (q_slots q)\<rparr>)"

section \<open>The contract\<close>

text \<open>
  What a client sees: the pending items in the order they were queued (\<open>pending s\<close>). A push puts
  its item at the back under an id nothing pending holds; the item for a node is the first of its
  unexpired ones; a pop takes exactly the item with that id; dropping and expiring filter.
  A push keeps the contract while order stamps are left (\<open>stamps\<close>): the 32-bit stamp that keeps
  the order wraps after \<open>2^32\<close> pushes in one boot.
\<close>

locale downlink_queue =
  fixes inv :: "'s \<Rightarrow> bool"
    and stamps :: "'s \<Rightarrow> bool"
    and pending :: "'s \<Rightarrow> item list"
    and push :: "u32 \<Rightarrow> u16 \<Rightarrow> bytes \<Rightarrow> u64 \<Rightarrow> 's \<Rightarrow> (push_error + u16) \<times> 's"
    and peek :: "u32 \<Rightarrow> u64 \<Rightarrow> 's \<Rightarrow> item option"
    and pop :: "u16 \<Rightarrow> 's \<Rightarrow> item option \<times> 's"
    and expire :: "u64 \<Rightarrow> 's \<Rightarrow> (u16 \<times> u32) list \<times> 's"
  assumes inv_ids: "inv s \<Longrightarrow> distinct (map it_id (pending s))"
    and push_ok: "inv s \<Longrightarrow> push node ttl data t s = (Inr i, s') \<Longrightarrow>
      \<exists>it. pending s' = pending s @ [it] \<and> it_id it = i \<and> it_node it = node \<and> it_data it = data \<and> it_ttl it = ttl \<and> it_at it = t"
    and push_err: "inv s \<Longrightarrow> push node ttl data t s = (Inl e, s') \<Longrightarrow> s' = s"
    and push_inv: "inv s \<Longrightarrow> push node ttl data t s = (Inr i, s') \<Longrightarrow> stamps s' \<Longrightarrow> inv s'"
    and peek_first: "inv s \<Longrightarrow> peek node t s = find (\<lambda>it. it_node it = node \<and> \<not> it_expired it t) (pending s)"
    and pop_one: "inv s \<Longrightarrow> pop i s = (r, s') \<Longrightarrow>
      r = find (\<lambda>it. it_id it = i) (pending s) \<and> pending s' = filter (\<lambda>it. it_id it \<noteq> i) (pending s) \<and> inv s'"
    and expire_all: "inv s \<Longrightarrow> expire t s = (gone, s') \<Longrightarrow>
      pending s' = filter (\<lambda>it. \<not> it_expired it t) (pending s) \<and>
      mset gone = mset (map (\<lambda>it. (it_id it, it_node it)) (filter (\<lambda>it. it_expired it t) (pending s))) \<and> inv s'"
begin

text \<open>One uplink of a node serves its oldest live downlink: what is transmitted is popped, and the
  rest of that node's downlinks keep their order.\<close>

lemma serve_one:
  assumes "inv s" and "peek node t s = Some it" and "pop (it_id it) s = (r, s')"
  shows "r = Some it" and "filter (\<lambda>x. it_node x = node \<and> \<not> it_expired x t) (pending s) =
      it # filter (\<lambda>x. it_node x = node \<and> \<not> it_expired x t) (pending s')"
proof -
  let ?P = "\<lambda>x. it_node x = node \<and> \<not> it_expired x t"
  note d = inv_ids [OF assms(1)]
  have f: "find ?P (pending s) = Some it" using peek_first [OF assms(1)] assms(2) by simp
  from find_split [OF this] obtain xs ys where s: "pending s = xs @ it # ys" and no: "\<forall>x \<in> set xs. \<not> ?P x" and p: "?P it"
    by blast
  have uniq: "\<forall>x \<in> set xs. it_id x \<noteq> it_id it" "\<forall>x \<in> set ys. it_id x \<noteq> it_id it" using d s by (auto simp: image_iff)
  have "find (\<lambda>x. it_id x = it_id it) (pending s) = Some it" using s uniq(1) find_append_first [of "\<lambda>x. it_id x = it_id it" it xs ys] by simp
  with pop_one [OF assms(1,3)] show "r = Some it" by simp
  have "pending s' = xs @ ys" using pop_one [OF assms(1,3)] s uniq by simp
  then show "filter ?P (pending s) = it # filter ?P (pending s')" using s no p by simp
qed

end


section \<open>The slot pool keeps the contract\<close>

text \<open>The pool's invariant: four slots, distinct ids, order stamps distinct and below the next one,
  at most two items per node, payloads that fit. The pending list is the pool sorted by stamp.\<close>

definition q_pending :: "queue \<Rightarrow> item list" where
  "q_pending q = sort_key it_order (q_items q)"

definition item_ok :: "item \<Rightarrow> bool" where
  "item_ok it \<longleftrightarrow> length (it_buf it) = MAX_ITEM \<and> 0 < unat (it_len it) \<and> unat (it_len it) \<le> MAX_ITEM \<and> it_id it \<noteq> 0"

definition pool_ok :: "queue \<Rightarrow> bool" where
  "pool_ok q \<longleftrightarrow> length (q_slots q) = QUEUE_CAP \<and> q_next_id q \<noteq> 0 \<and> distinct (map it_id (q_items q)) \<and>
     distinct (map it_order (q_items q)) \<and> (\<forall>it \<in> set (q_items q). it_order it < q_next_order q \<and> item_ok it) \<and>
     (\<forall>node. q_count_for q node \<le> PER_NODE_CAP)"

definition q_stamps :: "queue \<Rightarrow> bool" where
  "q_stamps q \<longleftrightarrow> q_next_order q \<noteq> - 1"

definition q_inv :: "queue \<Rightarrow> bool" where
  "q_inv q \<longleftrightarrow> pool_ok q \<and> q_stamps q"

lemma q_items_append: "q_items (q\<lparr>q_slots := a @ b\<rparr>) = q_items (q\<lparr>q_slots := a\<rparr>) @ q_items (q\<lparr>q_slots := b\<rparr>)"
  by (simp add: q_items_def)

lemma items_update:
  assumes "k < length ss" and "ss ! k = None"
  shows "mset (map the (filter (\<lambda>s. s \<noteq> None) (ss[k := Some it]))) = add_mset it (mset (map the (filter (\<lambda>s. s \<noteq> None) ss)))"
proof -
  have split: "ss = take k ss @ None # drop (Suc k) ss" using assms by (metis id_take_nth_drop)
  have "ss[k := Some it] = take k ss @ Some it # drop (Suc k) ss" using assms(1) by (simp add: upd_conv_take_nth_drop)
  then show ?thesis by (subst (2) split) simp
qed

lemma items_clear: "map the (filter (\<lambda>s. s \<noteq> None) (clear_where P ss)) = filter (\<lambda>it. \<not> P it) (map the (filter (\<lambda>s. s \<noteq> None) ss))"
  by (induction ss) (auto simp: clear_where_def split: option.splits)

lemma pop_slots_items:
  "pop_slots i ss = (r, ss') \<Longrightarrow> distinct (map it_id (map the (filter (\<lambda>s. s \<noteq> None) ss))) \<Longrightarrow>
   r = find (\<lambda>it. it_id it = i) (map the (filter (\<lambda>s. s \<noteq> None) ss)) \<and>
   map the (filter (\<lambda>s. s \<noteq> None) ss') = filter (\<lambda>it. it_id it \<noteq> i) (map the (filter (\<lambda>s. s \<noteq> None) ss)) \<and> length ss' = length ss"
proof (induction ss arbitrary: r ss')
  case (Cons s ss)
  show ?case
  proof (cases s)
    case None
    then show ?thesis using Cons by (auto split: prod.splits)
  next
    case (Some it)
    show ?thesis
    proof (cases "it_id it = i")
      case True
      have "filter (\<lambda>x. it_id x \<noteq> i) (map the (filter (\<lambda>s. s \<noteq> None) ss)) = map the (filter (\<lambda>s. s \<noteq> None) ss)"
        using Cons.prems(2) Some True by (intro filter_True) (auto simp: image_iff)
      then show ?thesis using Cons.prems Some True by auto
    next
      case False
      then show ?thesis using Cons Some by (auto split: prod.splits)
    qed
  qed
qed simp

lemma sort_key_pending_filter: "sort_key it_order (filter P its) = filter P (sort_key it_order its)"
  by (rule filter_sort [symmetric])

lemma mset_pending: "mset (q_pending q) = mset (q_items q)"
  by (simp add: q_pending_def)

lemma set_pending [simp]: "set (q_pending q) = set (q_items q)"
  by (simp add: q_pending_def)

lemma find_unique_mset:
  assumes "mset xs = mset ys" and "distinct (map it_id xs)"
  shows "find (\<lambda>it. it_id it = i) xs = find (\<lambda>it. it_id it = i) ys"
proof -
  have d: "distinct (map it_id ys)" using assms by (metis mset_eq_imp_distinct_iff mset_map)
  have e: "set xs = set ys" using assms(1) by (metis set_mset_mset)
  have "find (\<lambda>it. it_id it = i) zs = Some it \<longleftrightarrow> it \<in> set zs \<and> it_id it = i" if "distinct (map it_id zs)" for zs it
    using that by (induction zs) (auto simp: image_iff)
  with assms(2) d e show ?thesis by (metis not_None_eq)
qed

lemma distinct_order_sorted:
  "distinct (map it_order xs) \<Longrightarrow> mset xs = mset ys \<Longrightarrow> sorted (map it_order ys) \<Longrightarrow> sort_key it_order xs = ys"
  by (metis distinct_map mset_eq_imp_distinct_iff mset_map properties_for_sort_key sort_key_inj_key_eq)


lemma q_invD:
  assumes "q_inv q"
  shows "length (q_slots q) = QUEUE_CAP" and "q_next_id q \<noteq> 0" and "distinct (map it_id (q_items q))"
    and "distinct (map it_order (q_items q))" and "it \<in> set (q_items q) \<Longrightarrow> it_order it < q_next_order q"
    and "it \<in> set (q_items q) \<Longrightarrow> item_ok it" and "q_count_for q node \<le> PER_NODE_CAP" and "q_next_order q \<noteq> - 1"
  using assms by (auto simp: q_inv_def pool_ok_def q_stamps_def)

lemma pending_distinct: "q_inv q \<Longrightarrow> distinct (map it_id (q_pending q))"
  using q_invD(3) [of q] mset_pending [of q] by (metis mset_eq_imp_distinct_iff mset_map)

lemma id_succ_nonzero: "id_succ i \<noteq> 0"
  by (simp add: id_succ_def split: option.splits)

text \<open>Skipping the ids in use walks distinct ids, so five turns find a free one among at most four
  used.\<close>

lemma id_succ_index: "i \<noteq> 0 \<Longrightarrow> unat (id_succ i) - 1 = (unat i - 1 + 1) mod 65535"
proof -
  assume nz: "i \<noteq> 0"
  have lt: "unat i < 65536" using unat_less_size [of i] by simp
  have pos: "0 < unat i" using nz by (simp add: unat_gt_0)
  show ?thesis
  proof (cases "unat i + 1 < 65536")
    case True
    then have u: "unat (i + 1) = unat i + 1" by (simp add: unat_word_ariths)
    then have "i + 1 \<noteq> 0" by auto
    then have "id_succ i = i + 1" using True by (simp add: id_succ_def checked_add_def)
    then show ?thesis using True pos u by simp
  next
    case False
    then have "id_succ i = 1" by (simp add: id_succ_def checked_add_def)
    moreover have "unat i = 65535" using False lt by simp
    ultimately show ?thesis by simp
  qed
qed

lemma id_iter_index: "i \<noteq> 0 \<Longrightarrow> unat ((id_succ ^^ k) i) - 1 = (unat i - 1 + k) mod 65535 \<and> (id_succ ^^ k) i \<noteq> 0"
proof (induction k)
  case 0
  then show ?case using unat_less_size [of i] by (simp add: unat_gt_0)
next
  case (Suc k)
  then show ?case using id_succ_index [of "(id_succ ^^ k) i"] id_succ_nonzero by (simp add: mod_simps)
qed

lemma id_iter_inj: "i \<noteq> 0 \<Longrightarrow> n \<le> 65535 \<Longrightarrow> inj_on (\<lambda>k. (id_succ ^^ k) i) {..<n}"
proof (rule inj_onI)
  fix j k assume i: "i \<noteq> 0" and n: "n \<le> 65535" and jk: "j \<in> {..<n}" "k \<in> {..<n}" "(id_succ ^^ j) i = (id_succ ^^ k) i"
  then have m: "(unat i - 1 + j) mod 65535 = (unat i - 1 + k) mod 65535" using id_iter_index [OF i] by metis
  have *: "b = 0" if "(a + b) mod 65535 = a mod 65535" "b < 65535" for a b :: nat
  proof -
    have "65535 dvd b" using that(1) mod_eq_dvd_iff_nat [of a "a + b" 65535] by simp
    with that(2) show ?thesis by (auto dest: dvd_imp_le)
  qed
  show "j = k"
  proof (cases "j \<le> k")
    case True
    have "k - j < 65535" using jk n by auto
    then have "k - j = 0" using * [of "unat i - 1 + j" "k - j"] m True by simp
    with True show ?thesis by simp
  next
    case False
    have "j - k < 65535" using jk n by auto
    then have "j - k = 0" using * [of "unat i - 1 + k" "j - k"] m False by simp
    with False show ?thesis by simp
  qed
qed

lemma q_fresh_id_iter:
  "q_fresh_id n used i = None \<Longrightarrow> \<forall>k < n. (id_succ ^^ k) i \<in> set used"
  "q_fresh_id n used i = Some j \<Longrightarrow> j \<notin> set used \<and> (\<exists>k. j = (id_succ ^^ k) i)"
proof (induction n arbitrary: i)
  case (Suc n)
  {
    case 1
    then have u: "i \<in> set used" "q_fresh_id n used (id_succ i) = None" by (auto split: if_splits)
    show ?case
    proof (intro allI impI)
      fix k assume "k < Suc n"
      with u Suc.IH(1) [OF u(2)] show "(id_succ ^^ k) i \<in> set used"
        by (cases k) (auto simp: funpow_Suc_right simp del: funpow.simps(2))
    qed
  next
    case 2
    show ?case
    proof (cases "i \<in> set used")
      case True
      then have "q_fresh_id n used (id_succ i) = Some j" using 2 by simp
      then obtain k where "j \<notin> set used" "j = (id_succ ^^ k) (id_succ i)" using Suc.IH(2) by blast
      then show ?thesis by (metis comp_apply funpow_Suc_right)
    next
      case False
      with 2 show ?thesis by (auto intro: exI [of _ 0])
    qed
  }
qed simp_all

lemma q_fresh_id_total:
  assumes "i \<noteq> 0" and "length used < n" and "n \<le> 65535"
  shows "\<exists>j. q_fresh_id n used i = Some j \<and> j \<notin> set used \<and> j \<noteq> 0"
proof (cases "q_fresh_id n used i")
  case None
  have "card ((\<lambda>k. (id_succ ^^ k) i) ` {..<n}) = n" using id_iter_inj [OF assms(1,3)] by (simp add: card_image)
  moreover have "(\<lambda>k. (id_succ ^^ k) i) ` {..<n} \<subseteq> set used" using q_fresh_id_iter(1) [OF None] by auto
  ultimately have "n \<le> card (set used)" by (metis List.finite_set card_mono)
  with card_length [of used] assms(2) show ?thesis by linarith
next
  case (Some j)
  then show ?thesis using q_fresh_id_iter(2) [OF Some] id_iter_index [OF assms(1)] by blast
qed

lemma items_bound: "length (q_items q) \<le> length (q_slots q)"
  by (simp add: q_items_def)

lemma first_free_iff: "first_free q = None \<longleftrightarrow> length (q_items q) = length (q_slots q)"
proof -
  have "first_free q = None \<longleftrightarrow> (\<forall>s \<in> set (q_slots q). s \<noteq> None)"
    by (auto simp: first_free_def find_None_iff in_set_conv_nth)
  also have "\<dots> \<longleftrightarrow> length (filter (\<lambda>s. s \<noteq> None) (q_slots q)) = length (q_slots q)"
    by (simp add: length_filter_all)
  finally show ?thesis by (simp add: q_items_def)
qed

text \<open>What a successful push did.\<close>

lemma q_push_step:
  assumes I: "length (q_slots q) = QUEUE_CAP" "q_next_id q \<noteq> 0" and push: "q_push node ttl data t q = (Inr i, q')"
  obtains it where "mset (q_items q') = add_mset it (mset (q_items q))" and "it_id it = i" and "i \<noteq> 0"
    and "i \<notin> it_id ` set (q_items q)" and "it_node it = node" and "it_data it = data" and "it_ttl it = ttl" and "it_at it = t"
    and "it_order it = q_next_order q" and "item_ok it" and "q_next_order q' = q_next_order q + 1"
    and "length (q_slots q') = QUEUE_CAP" and "q_next_id q' \<noteq> 0" and "q_count_for q node < PER_NODE_CAP"
proof -
  from push have d: "data \<noteq> []" "length data \<le> MAX_ITEM" and n: "q_count_for q node < PER_NODE_CAP"
    by (auto simp: q_push_def split: if_splits)
  from push d n obtain slot where slot: "first_free q = Some slot" by (auto simp: q_push_def split: option.splits)
  then have s: "slot < length (q_slots q)" "q_slots q ! slot = None" by (auto simp: first_free_def find_Some_iff)
  have "length (q_items q) \<noteq> length (q_slots q)" using slot first_free_iff [of q] by auto
  then have "length (map it_id (q_items q)) < QUEUE_CAP + 1" using items_bound [of q] I(1) by simp
  from q_fresh_id_total [OF I(2) this] obtain j where
    j: "q_fresh_id (QUEUE_CAP + 1) (map it_id (q_items q)) (q_next_id q) = Some j" "j \<notin> it_id ` set (q_items q)" "j \<noteq> 0"
    by (auto simp: QUEUE_CAP_def)
  let ?it = "\<lparr>it_id = j, it_node = node, it_at = t, it_ttl = ttl, it_order = q_next_order q,
      it_len = of_nat (length data), it_buf = bsplice 0 data (replicate MAX_ITEM 0)\<rparr>"
  have q': "i = j" "q' = \<lparr>q_slots = (q_slots q)[slot := Some ?it], q_next_id = id_succ j, q_next_order = q_next_order q + 1\<rparr>"
    using push d n slot j(1) by (auto simp: q_push_def Let_def)
  have l: "unat (of_nat (length data) :: u8) = length data" using d(2) by (simp add: unat_of_nat MAX_ITEM_def)
  have "mset (q_items q') = add_mset ?it (mset (q_items q))"
    using items_update [OF s, of ?it] q' by (simp add: q_items_def)
  moreover have "it_data ?it = data" using l d(2) by (simp add: it_data_def bsplice_def)
  moreover have "item_ok ?it" using d j(3) l by (auto simp: item_ok_def bsplice_def)
  ultimately show ?thesis using that [of ?it] q' j n I(1) id_succ_nonzero by simp
qed


lemma sorted_pending: "sorted (map it_order (q_pending q))"
  by (simp add: q_pending_def)

lemma q_push_pending:
  assumes "q_inv q" and "mset (q_items q') = add_mset it (mset (q_items q))" and "it_order it = q_next_order q"
  shows "q_pending q' = q_pending q @ [it]"
proof -
  have below: "\<forall>x \<in> set (q_items q). it_order x < it_order it" using q_invD(5) [OF assms(1)] assms(3) by simp
  have m: "mset (q_items q') = mset (q_pending q @ [it])" using assms(2) by (simp add: mset_pending)
  have "distinct (map it_order (q_items q @ [it]))" using q_invD(4) [OF assms(1)] below by (auto simp: image_iff)
  moreover have "mset (q_items q') = mset (q_items q @ [it])" using assms(2) by simp
  ultimately have "distinct (map it_order (q_items q'))" by (metis mset_eq_imp_distinct_iff mset_map)
  moreover have "sorted (map it_order (q_pending q @ [it]))"
    using sorted_pending [of q] below by (auto simp: sorted_append intro: less_imp_le)
  ultimately show ?thesis using distinct_order_sorted [OF _ m] by (simp add: q_pending_def)
qed

lemma q_push_inv:
  assumes "q_inv q" and "q_push node ttl data t q = (Inr i, q')" and "q_stamps q'"
  shows "q_inv q'"
proof -
  note I = q_invD [OF assms(1)]
  from q_push_step [OF q_invD(1,2) [OF assms(1)] assms(2)] obtain it where P: "mset (q_items q') = add_mset it (mset (q_items q))" "it_id it = i"
    "i \<notin> it_id ` set (q_items q)" "it_node it = node" "it_order it = q_next_order q" "item_ok it"
    "q_next_order q' = q_next_order q + 1" "length (q_slots q') = QUEUE_CAP" "q_next_id q' \<noteq> 0" "q_count_for q node < PER_NODE_CAP" by metis
  have m: "mset (q_items q') = mset (it # q_items q)" using P(1) by simp
  have set': "set (q_items q') = insert it (set (q_items q))" using m by (metis list.simps(15) set_mset_mset)
  have "it_order it \<notin> it_order ` set (q_items q)" using I(5) P(5) by force
  then have "distinct (map it_id (it # q_items q))" "distinct (map it_order (it # q_items q))" using I(3,4) P(2,3) by simp_all
  then have d: "distinct (map it_id (q_items q'))" "distinct (map it_order (q_items q'))"
    using m by (metis mset_eq_imp_distinct_iff mset_map)+
  have nx: "q_next_order q < q_next_order q'" using word_succ_cases [of "q_next_order q"] I(8) P(7) by auto
  have "it_order x < q_next_order q' \<and> item_ok x" if "x \<in> set (q_items q')" for x
    using that set' I(5,6) P(5,6) nx by (auto intro: less_trans)
  moreover have "q_count_for q' n \<le> PER_NODE_CAP" for n
  proof -
    have "size (filter_mset (\<lambda>x. it_node x = n) (mset (q_items q'))) = length (filter (\<lambda>x. it_node x = n) (it # q_items q))"
      unfolding m by (metis mset_filter size_mset)
    then have "q_count_for q' n = length (filter (\<lambda>x. it_node x = n) (it # q_items q))"
      by (metis mset_filter q_count_for_def size_mset)
    then show ?thesis using I(7) [of n] P(4,10) by (auto simp: q_count_for_def)
  qed
  ultimately show ?thesis using assms(3) d P(8,9) by (simp add: q_inv_def pool_ok_def)
qed

lemma q_filter_inv:
  assumes "q_inv q" and "q_items q' = filter P (q_items q)" and "length (q_slots q') = length (q_slots q)"
    and "q_next_id q' = q_next_id q" and "q_next_order q' = q_next_order q"
  shows "q_inv q'" and "q_pending q' = filter P (q_pending q)"
proof -
  note I = q_invD [OF assms(1)]
  have "q_count_for q' n \<le> PER_NODE_CAP" for n
  proof -
    have "filter (\<lambda>x. it_node x = n) (filter P (q_items q)) = filter P (filter (\<lambda>x. it_node x = n) (q_items q))"
      by (simp add: conj_commute)
    then have "q_count_for q' n \<le> q_count_for q n"
      using length_filter_le [of P "filter (\<lambda>x. it_node x = n) (q_items q)"] by (simp only: q_count_for_def assms(2))
    then show ?thesis using I(7) [of n] by linarith
  qed
  moreover have "distinct (map it_id (q_items q'))" "distinct (map it_order (q_items q'))"
    using I(3,4) assms(2) by (simp_all add: distinct_map_filter)
  moreover have "\<forall>it \<in> set (q_items q'). it_order it < q_next_order q \<and> item_ok it" using I(5,6) assms(2) by auto
  ultimately show "q_inv q'" using I(1,2,8) assms(3-5) by (simp add: q_inv_def pool_ok_def q_stamps_def)
  show "q_pending q' = filter P (q_pending q)" by (simp add: q_pending_def assms(2) sort_key_pending_filter)
qed

lemma min_order_acc:
  "foldl (\<lambda>b it. case b of None \<Rightarrow> Some it | Some c \<Rightarrow> if it_order it < it_order c then Some it else b) (Some c) its = Some m \<Longrightarrow>
   m \<in> insert c (set its) \<and> (\<forall>x \<in> insert c (set its). it_order m \<le> it_order x)"
proof (induction its arbitrary: c)
  case (Cons it its)
  let ?c = "if it_order it < it_order c then it else c"
  have "m \<in> insert ?c (set its) \<and> (\<forall>x \<in> insert ?c (set its). it_order m \<le> it_order x)"
    using Cons.IH [of ?c] Cons.prems by (simp split: if_splits)
  then show ?case by (auto split: if_splits intro: order.trans less_imp_le simp: not_less)
qed simp

lemma min_order_total:
  "\<exists>m. foldl (\<lambda>b it. case b of None \<Rightarrow> Some it | Some c \<Rightarrow> if it_order it < it_order c then Some it else b) (Some c) its = Some m"
  by (induction its arbitrary: c) auto

lemma min_order_hd:
  assumes "distinct (map it_order its)"
  shows "min_order its = (case sort_key it_order its of [] \<Rightarrow> None | x # _ \<Rightarrow> Some x)"
proof (cases its)
  case Nil
  then show ?thesis by (simp add: min_order_def)
next
  case (Cons y ys)
  then obtain m where m: "min_order its = Some m" using min_order_total [of y ys] by (auto simp: min_order_def)
  then have M: "m \<in> set its" "\<forall>x \<in> set its. it_order m \<le> it_order x"
    using min_order_acc [of y ys m] Cons by (auto simp: min_order_def)
  obtain x xs where x: "sort_key it_order its = x # xs" using Cons by (cases "sort_key it_order its") (auto dest: arg_cong [of _ _ mset])
  have "set (x # xs) = set its" using x by (metis set_sort)
  then have "m \<in> set (x # xs)" "x \<in> set its" using M(1) by auto
  moreover have "sorted (map it_order (x # xs))" using x sorted_sort_key [of it_order its] by simp
  ultimately have "x \<in> set its" "it_order x \<le> it_order m" by auto
  then have "it_order x = it_order m" using M(2) by (simp add: order_antisym)
  then have "x = m" using assms M(1) \<open>x \<in> set its\<close> by (auto simp: distinct_map dest: inj_onD)
  with m x show ?thesis by simp
qed


lemma peek_is_find:
  assumes "q_inv q"
  shows "q_peek_for node t q = find (\<lambda>it. it_node it = node \<and> \<not> it_expired it t) (q_pending q)"
proof -
  let ?P = "\<lambda>it. it_node it = node \<and> \<not> it_expired it t"
  have "distinct (map it_order (filter ?P (q_items q)))" using q_invD(4) [OF assms] by (simp add: distinct_map_filter)
  then have "q_peek_for node t q = (case filter ?P (q_pending q) of [] \<Rightarrow> None | x # _ \<Rightarrow> Some x)"
    by (simp add: q_peek_for_def min_order_hd sort_key_pending_filter q_pending_def)
  also have "\<dots> = find ?P (q_pending q)" by (rule find_filter_hd)
  finally show ?thesis .
qed

lemma q_pop_step:
  assumes "q_inv q" and "q_pop i q = (r, q')"
  shows "r = find (\<lambda>it. it_id it = i) (q_pending q)" and "q_pending q' = filter (\<lambda>it. it_id it \<noteq> i) (q_pending q)" and "q_inv q'"
proof -
  obtain ss where ss: "pop_slots i (q_slots q) = (r, ss)" and q': "q' = q\<lparr>q_slots := ss\<rparr>"
    using assms(2) by (auto simp: q_pop_def split: prod.splits)
  note D = q_invD(3) [OF assms(1)]
  from pop_slots_items [OF ss] D have P: "r = find (\<lambda>it. it_id it = i) (q_items q)"
    "q_items q' = filter (\<lambda>it. it_id it \<noteq> i) (q_items q)" "length (q_slots q') = length (q_slots q)"
    using q' by (auto simp: q_items_def)
  show "r = find (\<lambda>it. it_id it = i) (q_pending q)"
    using P(1) find_unique_mset [OF mset_pending [symmetric] D] by simp
  show "q_pending q' = filter (\<lambda>it. it_id it \<noteq> i) (q_pending q)" "q_inv q'"
    using q_filter_inv [OF assms(1) P(2,3)] q' by simp_all
qed

lemma q_clear_step:
  assumes "q_inv q" and "q' = q\<lparr>q_slots := clear_where P (q_slots q)\<rparr>"
  shows "q_pending q' = filter (\<lambda>it. \<not> P it) (q_pending q)" and "q_inv q'"
  using q_filter_inv [OF assms(1), of q' "\<lambda>it. \<not> P it"] assms(2) items_clear [of P "q_slots q"]
  by (simp_all add: q_items_def clear_where_def)

interpretation dlq: downlink_queue q_inv q_stamps q_pending q_push q_peek_for q_pop q_expire
proof
  fix q node ttl data t i q' e r gone
  assume inv: "q_inv q"
  show "distinct (map it_id (q_pending q))" by (rule pending_distinct [OF inv])
  show "\<exists>it. q_pending q' = q_pending q @ [it] \<and> it_id it = i \<and> it_node it = node \<and> it_data it = data \<and> it_ttl it = ttl \<and> it_at it = t"
    if "q_push node ttl data t q = (Inr i, q')" using q_push_step [OF q_invD(1,2) [OF inv] that] q_push_pending [OF inv] by metis
  show "q' = q" if "q_push node ttl data t q = (Inl e, q')" using that by (auto simp: q_push_def Let_def split: if_splits option.splits)
  show "q_inv q'" if "q_push node ttl data t q = (Inr i, q')" "q_stamps q'" using q_push_inv [OF inv that] .
  show "q_peek_for node t q = find (\<lambda>it. it_node it = node \<and> \<not> it_expired it t) (q_pending q)" by (rule peek_is_find [OF inv])
  show "r = find (\<lambda>it. it_id it = i) (q_pending q) \<and> q_pending q' = filter (\<lambda>it. it_id it \<noteq> i) (q_pending q) \<and> q_inv q'"
    if "q_pop i q = (r, q')" using q_pop_step [OF inv that] by blast
  show "q_pending q' = filter (\<lambda>it. \<not> it_expired it t) (q_pending q) \<and>
      mset gone = mset (map (\<lambda>it. (it_id it, it_node it)) (filter (\<lambda>it. it_expired it t) (q_pending q))) \<and> q_inv q'"
    if "q_expire t q = (gone, q')"
    using that q_clear_step [OF inv, of q' "\<lambda>it. it_expired it t"] mset_pending [of q]
    by (auto simp: q_expire_def)
qed


lemma q_inv_new: "q_inv queue_new"
  by (simp add: q_inv_def pool_ok_def q_stamps_def queue_new_def q_items_def q_count_for_def)

lemma pending_count: "length (filter P (q_pending q)) = length (filter P (q_items q))"
  by (metis mset_filter mset_pending size_mset)

text \<open>A downlink is accepted exactly when it may be: a non-empty payload of at most 74 bytes, fewer
  than two pending for its node and fewer than four in all; it then joins the back of the pending
  list under an id that is not zero and that no pending item holds, even after the 16-bit id
  counter has wrapped. A refused push changes nothing.\<close>

theorem push_accepts:
  assumes "q_inv q"
  shows "(case q_push node ttl data t q of
       (Inr i, q') \<Rightarrow> data \<noteq> [] \<and> length data \<le> MAX_ITEM \<and>
         length (filter (\<lambda>it. it_node it = node) (q_pending q)) < PER_NODE_CAP \<and> length (q_pending q) < QUEUE_CAP \<and>
         i \<noteq> 0 \<and> i \<notin> it_id ` set (q_pending q) \<and>
         (\<exists>it. q_pending q' = q_pending q @ [it] \<and> it_id it = i \<and> it_node it = node \<and> it_data it = data \<and> it_ttl it = ttl \<and> it_at it = t)
     | (Inl e, q') \<Rightarrow> q' = q \<and>
         (case e of BadPayload \<Rightarrow> data = [] \<or> MAX_ITEM < length data
          | PerNodeFull \<Rightarrow> PER_NODE_CAP \<le> length (filter (\<lambda>it. it_node it = node) (q_pending q))
          | QFull \<Rightarrow> length (q_pending q) = QUEUE_CAP))"
proof -
  obtain r q' where r: "q_push node ttl data t q = (r, q')" by fastforce
  have cnt: "q_count_for q node = length (filter (\<lambda>it. it_node it = node) (q_pending q))"
    by (simp add: q_count_for_def pending_count)
  have len: "length (q_pending q) = length (q_items q)" by (metis mset_pending size_mset)
  show ?thesis
  proof (cases r)
    case (Inl e)
    have "q' = q" using dlq.push_err [OF assms] r Inl by blast
    moreover have "length (q_items q) = QUEUE_CAP" if "first_free q = None"
      using that first_free_iff [of q] q_invD(1) [OF assms] by simp
    ultimately show ?thesis using r Inl cnt len by (auto simp: q_push_def Let_def split: if_splits option.splits)
  next
    case (Inr i)
    from q_push_step [OF q_invD(1,2) [OF assms] r [unfolded Inr]] have i: "i \<noteq> 0" "i \<notin> it_id ` set (q_items q)" by metis+
    from r Inr have d: "data \<noteq> []" "length data \<le> MAX_ITEM" "q_count_for q node < PER_NODE_CAP" "first_free q \<noteq> None"
      by (auto simp: q_push_def Let_def split: if_splits option.splits)
    have "length (q_items q) < QUEUE_CAP"
      using d(4) first_free_iff [of q] items_bound [of q] q_invD(1) [OF assms] by simp
    then show ?thesis using r Inr d i cnt len dlq.push_ok [OF assms r [unfolded Inr]] by auto
  qed
qed

theorem push_accepts_witness:
  "case q_push 9 60 [1, 2] 0 queue_new of
     (Inr i, q') \<Rightarrow> i \<noteq> 0 \<and> (\<exists>it. q_pending q' = q_pending queue_new @ [it] \<and> it_id it = i \<and> it_data it = [1, 2])
   | (Inl e, q') \<Rightarrow> q' = queue_new"
  using push_accepts [OF q_inv_new, where node = 9 and ttl = 60 and data = "[1, 2]" and t = 0] by (auto split: prod.splits sum.splits)

text \<open>C37. Serving an uplink delivers in order, once: the item transmitted to a node is its oldest
  unexpired downlink, popping it by id returns that very item, and the node's other live downlinks
  follow in the order they were queued.\<close>

theorem serve_in_order:
  assumes "q_inv q" and "q_peek_for node t q = Some it" and "q_pop (it_id it) q = (r, q')"
  shows "r = Some it \<and> filter (\<lambda>x. it_node x = node \<and> \<not> it_expired x t) (q_pending q) =
      it # filter (\<lambda>x. it_node x = node \<and> \<not> it_expired x t) (q_pending q') \<and> q_inv q'"
  using dlq.serve_one [OF assms] dlq.pop_one [OF assms(1,3)] by blast

definition item_demo :: item where
  "item_demo = \<lparr>it_id = 1, it_node = 9, it_at = 0, it_ttl = 60, it_order = 0, it_len = 2, it_buf = bsplice 0 [1, 2] (replicate MAX_ITEM 0)\<rparr>"

lemma demo_queue:
  "q_push 9 60 [1, 2] 0 queue_new =
     (Inr 1, \<lparr>q_slots = [Some item_demo, None, None, None], q_next_id = id_succ 1, q_next_order = 1\<rparr>)"
proof -
  have slots: "q_slots queue_new = [None, None, None, None]" by (simp add: queue_new_def QUEUE_CAP_def eval_nat_numeral)
  then have "first_free queue_new = Some 0" "q_items queue_new = []"
    by (simp_all add: first_free_def q_items_def upt_conv_Cons)
  moreover have "q_fresh_id (QUEUE_CAP + 1) [] 1 = Some 1" by (simp only: add_Suc_right Nat.add_0_right One_nat_def q_fresh_id.simps list.set) simp
  ultimately show ?thesis using slots
    by (simp add: q_push_def q_count_for_def PER_NODE_CAP_def Let_def item_demo_def)
      (simp add: queue_new_def MAX_ITEM_def)
qed

lemma demo_queue_facts:
  "q_inv \<lparr>q_slots = [Some item_demo, None, None, None], q_next_id = id_succ 1, q_next_order = 1\<rparr>"
  "q_peek_for 9 5 \<lparr>q_slots = [Some item_demo, None, None, None], q_next_id = id_succ 1, q_next_order = 1\<rparr> = Some item_demo"
  "it_id item_demo = 1"
  by (rule q_push_inv [OF q_inv_new demo_queue])
    (simp_all add: q_stamps_def q_peek_for_def q_items_def min_order_def it_expired_def sat_sub_def item_demo_def)

theorem serve_in_order_witness:
  "fst (q_pop 1 \<lparr>q_slots = [Some item_demo, None, None, None], q_next_id = id_succ 1, q_next_order = 1\<rparr>) = Some item_demo"
  using serve_in_order [OF demo_queue_facts(1,2), of "fst (q_pop 1 \<lparr>q_slots = [Some item_demo, None, None, None], q_next_id = id_succ 1, q_next_order = 1\<rparr>)"
      "snd (q_pop 1 \<lparr>q_slots = [Some item_demo, None, None, None], q_next_id = id_succ 1, q_next_order = 1\<rparr>)"] demo_queue_facts(3) by simp

end
