(* ===== verification/Gw_Registry.thy ===== *)
theory Gw_Registry
  imports Prelude
begin

text \<open>
  The gateway's persistent node registry of \<open>crates/gateway/src/registry.rs\<close>: node records packed into
  three buckets, read and written one bucket at a time through the \<open>BucketIo\<close> trait (a record of two
  functions here). The bucket codec is postcard, a third-party crate: a parameter with the round trip
  and the size the code's own tests pin (\<open>postcard_ok\<close>). The trait's contract is a locale; inside it
  the registry is shown to be a finite map from addresses to records.
\<close>

section \<open>Records and errors\<close>

definition PER_BUCKET :: nat where "PER_BUCKET = 6"
definition BUCKETS :: nat where "BUCKETS = 3"
definition REG_CAPACITY :: nat where "REG_CAPACITY = 16"
definition MAX_NAME :: nat where "MAX_NAME = 16"
definition MAX_BUCKET_BYTES :: nat where "MAX_BUCKET_BYTES = 256"

record node_record =
  nr_addr :: u32
  nr_key :: bytes
  nr_flags :: u8
  nr_name :: bytes

type_synonym bucket = "node_record list"

datatype reg_error = RegFull | RegNotFound | RegBadName | RegExists | RegStorage

text \<open>\<open>BucketIo\<close>: a load gives the stored length and the bytes that fit the caller's buffer, an I/O
  error is \<open>Inl ()\<close>; a store reports whether the bucket was persisted.\<close>

record 's bucket_io =
  bio_load :: "nat \<Rightarrow> nat \<Rightarrow> 's \<Rightarrow> unit + (nat \<times> bytes) option"
  bio_store :: "nat \<Rightarrow> bytes \<Rightarrow> 's \<Rightarrow> bool \<times> 's"

record postcard =
  pc_to_slice :: "bucket \<Rightarrow> bytes"
  pc_from_bytes :: "bytes \<Rightarrow> bucket option"

section \<open>Operations\<close>

definition reg_load_checked :: "postcard \<Rightarrow> 's bucket_io \<Rightarrow> nat \<Rightarrow> 's \<Rightarrow> bucket option" where
  "reg_load_checked pc io i s =
     (case bio_load io i MAX_BUCKET_BYTES s of
        Inr None \<Rightarrow> Some []
      | Inr (Some (n, buf)) \<Rightarrow> if n \<le> MAX_BUCKET_BYTES then pc_from_bytes pc (take n buf) else None
      | Inl _ \<Rightarrow> None)"

definition reg_load :: "postcard \<Rightarrow> 's bucket_io \<Rightarrow> nat \<Rightarrow> 's \<Rightarrow> bucket" where
  "reg_load pc io i s = (case reg_load_checked pc io i s of None \<Rightarrow> [] | Some b \<Rightarrow> b)"

definition reg_store :: "postcard \<Rightarrow> 's bucket_io \<Rightarrow> nat \<Rightarrow> bucket \<Rightarrow> 's \<Rightarrow> (reg_error + unit) \<times> 's" where
  "reg_store pc io i b s =
     (let bytes = pc_to_slice pc b in
      if MAX_BUCKET_BYTES < length bytes then (Inl RegStorage, s)
      else case bio_store io i bytes s of (ok, s') \<Rightarrow> (if ok then Inr () else Inl RegStorage, s'))"

definition reg_count :: "postcard \<Rightarrow> 's bucket_io \<Rightarrow> 's \<Rightarrow> nat" where
  "reg_count pc io s = sum_list (map (\<lambda>i. length (reg_load pc io i s)) [0..<BUCKETS])"

primrec reg_find_in :: "postcard \<Rightarrow> 's bucket_io \<Rightarrow> u32 \<Rightarrow> nat list \<Rightarrow> 's \<Rightarrow> node_record option" where
  "reg_find_in pc io a [] s = None"
| "reg_find_in pc io a (i # is) s =
     (case find (\<lambda>r. nr_addr r = a) (reg_load pc io i s) of
        Some r \<Rightarrow> Some r
      | None \<Rightarrow> reg_find_in pc io a is s)"

definition reg_find :: "postcard \<Rightarrow> 's bucket_io \<Rightarrow> u32 \<Rightarrow> 's \<Rightarrow> node_record option" where
  "reg_find pc io a s = reg_find_in pc io a [0..<BUCKETS] s"

text \<open>\<open>iter().position(|r| r.addr == addr)\<close>.\<close>

primrec addr_position :: "u32 \<Rightarrow> bucket \<Rightarrow> nat option" where
  "addr_position a [] = None"
| "addr_position a (r # rs) = (if nr_addr r = a then Some 0 else map_option Suc (addr_position a rs))"

text \<open>The loop \<open>add\<close>, \<open>remove\<close> and \<open>update\<close> share: the first bucket that holds the address is changed
  by \<open>f\<close> (which may refuse) and stored; \<open>None\<close> when no bucket holds it.\<close>

primrec reg_change ::
  "postcard \<Rightarrow> 's bucket_io \<Rightarrow> u32 \<Rightarrow> (bucket \<Rightarrow> nat \<Rightarrow> reg_error + bucket) \<Rightarrow> nat list \<Rightarrow> 's \<Rightarrow> ((reg_error + unit) \<times> 's) option"
where
  "reg_change pc io a f [] s = None"
| "reg_change pc io a f (i # is) s =
     (let b = reg_load pc io i s in
      case addr_position a b of
        None \<Rightarrow> reg_change pc io a f is s
      | Some slot \<Rightarrow> (case f b slot of Inl e \<Rightarrow> Some (Inl e, s) | Inr b' \<Rightarrow> Some (reg_store pc io i b' s)))"

primrec reg_insert :: "postcard \<Rightarrow> 's bucket_io \<Rightarrow> node_record \<Rightarrow> nat list \<Rightarrow> bool \<Rightarrow> 's \<Rightarrow> (reg_error + unit) \<times> 's" where
  "reg_insert pc io r [] unreadable s = (Inl (if unreadable then RegStorage else RegFull), s)"
| "reg_insert pc io r (i # is) unreadable s =
     (case reg_load_checked pc io i s of
        None \<Rightarrow> reg_insert pc io r is True s
      | Some b \<Rightarrow> if length b < PER_BUCKET then reg_store pc io i (b @ [r]) s else reg_insert pc io r is unreadable s)"

definition reg_add :: "postcard \<Rightarrow> 's bucket_io \<Rightarrow> node_record \<Rightarrow> 's \<Rightarrow> (reg_error + unit) \<times> 's" where
  "reg_add pc io r s =
     (case reg_change pc io (nr_addr r) (\<lambda>b slot. Inr (b[slot := r])) [0..<BUCKETS] s of
        Some res \<Rightarrow> res
      | None \<Rightarrow> if REG_CAPACITY \<le> reg_count pc io s then (Inl RegFull, s) else reg_insert pc io r [0..<BUCKETS] False s)"

definition reg_add_new :: "postcard \<Rightarrow> 's bucket_io \<Rightarrow> node_record \<Rightarrow> 's \<Rightarrow> (reg_error + unit) \<times> 's" where
  "reg_add_new pc io r s = (if reg_find pc io (nr_addr r) s \<noteq> None then (Inl RegExists, s) else reg_add pc io r s)"

definition reg_remove :: "postcard \<Rightarrow> 's bucket_io \<Rightarrow> u32 \<Rightarrow> 's \<Rightarrow> (reg_error + unit) \<times> 's" where
  "reg_remove pc io a s =
     (case reg_change pc io a (\<lambda>b slot. Inr (take slot b @ drop (Suc slot) b)) [0..<BUCKETS] s of
        Some res \<Rightarrow> res | None \<Rightarrow> (Inl RegNotFound, s))"

definition set_meta :: "bytes option \<Rightarrow> u8 option \<Rightarrow> node_record \<Rightarrow> node_record" where
  "set_meta name flags r =
     r\<lparr>nr_name := (case name of None \<Rightarrow> nr_name r | Some n \<Rightarrow> n), nr_flags := (case flags of None \<Rightarrow> nr_flags r | Some f \<Rightarrow> f)\<rparr>"

definition reg_update :: "postcard \<Rightarrow> 's bucket_io \<Rightarrow> u32 \<Rightarrow> bytes option \<Rightarrow> u8 option \<Rightarrow> 's \<Rightarrow> (reg_error + unit) \<times> 's" where
  "reg_update pc io a name flags s =
     (case reg_change pc io a (\<lambda>b slot.
          if (case name of Some n \<Rightarrow> MAX_NAME < length n | None \<Rightarrow> False) then Inl RegBadName
          else Inr (b[slot := set_meta name flags (b ! slot)])) [0..<BUCKETS] s of
        Some res \<Rightarrow> res | None \<Rightarrow> (Inl RegNotFound, s))"

section \<open>Buckets as one list\<close>

definition record_wf :: "node_record \<Rightarrow> bool" where
  "record_wf r \<longleftrightarrow> length (nr_key r) = 16 \<and> length (nr_name r) \<le> MAX_NAME"

definition bucket_wf :: "bucket \<Rightarrow> bool" where
  "bucket_wf b \<longleftrightarrow> length b \<le> PER_BUCKET \<and> list_all record_wf b"

definition postcard_ok :: "postcard \<Rightarrow> bool" where
  "postcard_ok pc \<longleftrightarrow>
     (\<forall>b. bucket_wf b \<longrightarrow> pc_from_bytes pc (pc_to_slice pc b) = Some b \<and> pc_to_slice pc b \<noteq> [] \<and>
        length (pc_to_slice pc b) \<le> MAX_BUCKET_BYTES) \<and>
     (\<forall>x b. pc_from_bytes pc x = Some b \<longrightarrow> bucket_wf b)"

definition reg_buckets :: "postcard \<Rightarrow> 's bucket_io \<Rightarrow> 's \<Rightarrow> bucket list" where
  "reg_buckets pc io s = map (\<lambda>i. reg_load pc io i s) [0..<BUCKETS]"

definition reg_nodes :: "postcard \<Rightarrow> 's bucket_io \<Rightarrow> 's \<Rightarrow> node_record list" where
  "reg_nodes pc io s = concat (reg_buckets pc io s)"

text \<open>The registry as a map.\<close>

definition reg_abs :: "postcard \<Rightarrow> 's bucket_io \<Rightarrow> 's \<Rightarrow> u32 \<Rightarrow> node_record option" where
  "reg_abs pc io s a = find (\<lambda>r. nr_addr r = a) (reg_nodes pc io s)"

definition reg_inv :: "postcard \<Rightarrow> 's bucket_io \<Rightarrow> 's \<Rightarrow> bool" where
  "reg_inv pc io s \<longleftrightarrow>
     (\<forall>i < BUCKETS. reg_load_checked pc io i s \<noteq> None) \<and> list_all bucket_wf (reg_buckets pc io s) \<and>
     distinct (map nr_addr (reg_nodes pc io s)) \<and> length (reg_nodes pc io s) \<le> REG_CAPACITY"

lemma find_append: "find P (xs @ ys) = (case find P xs of None \<Rightarrow> find P ys | Some x \<Rightarrow> Some x)"
  by (induction xs) auto

lemma reg_abs_fun: "reg_abs pc io s = (\<lambda>a. find (\<lambda>r. nr_addr r = a) (reg_nodes pc io s))"
  by (rule ext) (simp add: reg_abs_def)

lemma reg_find_in_concat: "reg_find_in pc io a is s = find (\<lambda>r. nr_addr r = a) (concat (map (\<lambda>i. reg_load pc io i s) is))"
  by (induction "is") (auto simp: find_append split: option.splits)

lemma reg_find_abs: "reg_find pc io a s = reg_abs pc io s a"
  by (simp add: reg_find_def reg_find_in_concat reg_abs_def reg_nodes_def reg_buckets_def)

lemma reg_count_nodes: "reg_count pc io s = length (reg_nodes pc io s)"
  by (simp add: reg_count_def reg_nodes_def reg_buckets_def length_concat comp_def)

lemma addr_position_None: "addr_position a b = None \<longleftrightarrow> a \<notin> nr_addr ` set b"
  by (induction b) auto

lemma addr_position_Some:
  "addr_position a b = Some k \<Longrightarrow> k < length b \<and> nr_addr (b ! k) = a"
  by (induction b arbitrary: k) (auto split: if_splits)

lemma find_addr_None: "find (\<lambda>r. nr_addr r = a) rs = None \<longleftrightarrow> a \<notin> nr_addr ` set rs"
  by (auto simp: find_None_iff)

text \<open>What the shared loop does: it stops at the bucket that holds the address.\<close>

lemma reg_change_cases:
  assumes "reg_change pc io a f is s = res"
  shows "(res = None \<and> (\<forall>i \<in> set is. a \<notin> nr_addr ` set (reg_load pc io i s))) \<or>
     (\<exists>i \<in> set is. \<exists>k. addr_position a (reg_load pc io i s) = Some k \<and>
        res = Some (case f (reg_load pc io i s) k of Inl e \<Rightarrow> (Inl e, s) | Inr b \<Rightarrow> reg_store pc io i b s))"
  using assms
proof (induction "is")
  case (Cons i "is")
  show ?case
  proof (cases "addr_position a (reg_load pc io i s)")
    case None
    with Cons show ?thesis by (auto simp: Let_def addr_position_None)
  next
    case (Some k)
    with Cons.prems show ?thesis
      by (intro disjI2 bexI [of _ i] exI [of _ k]) (auto simp: Let_def split: sum.splits)
  qed
qed simp

lemma reg_insert_cases:
  assumes "\<forall>i \<in> set is. reg_load_checked pc io i s \<noteq> None" and "reg_insert pc io r is False s = res"
  shows "(res = (Inl RegFull, s) \<and> (\<forall>i \<in> set is. PER_BUCKET \<le> length (reg_load pc io i s))) \<or>
     (\<exists>i \<in> set is. length (reg_load pc io i s) < PER_BUCKET \<and> res = reg_store pc io i (reg_load pc io i s @ [r]) s)"
  using assms
proof (induction "is")
  case (Cons i "is")
  then obtain b where b: "reg_load_checked pc io i s = Some b" by auto
  then have "reg_load pc io i s = b" by (simp add: reg_load_def)
  with Cons b show ?case by (auto split: if_splits)
qed simp

section \<open>The specification\<close>

datatype reg_op = RegAdd node_record | RegAddNew node_record | RegRemove u32 | RegUpdate u32 "bytes option" "u8 option"

fun reg_call :: "postcard \<Rightarrow> 's bucket_io \<Rightarrow> reg_op \<Rightarrow> 's \<Rightarrow> (reg_error + unit) \<times> 's" where
  "reg_call pc io (RegAdd r) s = reg_add pc io r s"
| "reg_call pc io (RegAddNew r) s = reg_add_new pc io r s"
| "reg_call pc io (RegRemove a) s = reg_remove pc io a s"
| "reg_call pc io (RegUpdate a name flags) s = reg_update pc io a name flags s"

text \<open>A finite map of at most \<open>REG_CAPACITY\<close> nodes.\<close>

fun reg_spec :: "reg_op \<Rightarrow> (u32 \<rightharpoonup> node_record) \<Rightarrow> reg_error + (u32 \<rightharpoonup> node_record)" where
  "reg_spec (RegAdd r) m =
     (if m (nr_addr r) = None \<and> REG_CAPACITY \<le> card (dom m) then Inl RegFull else Inr (m(nr_addr r \<mapsto> r)))"
| "reg_spec (RegAddNew r) m =
     (if m (nr_addr r) \<noteq> None then Inl RegExists
      else if REG_CAPACITY \<le> card (dom m) then Inl RegFull else Inr (m(nr_addr r \<mapsto> r)))"
| "reg_spec (RegRemove a) m = (if m a = None then Inl RegNotFound else Inr (m(a := None)))"
| "reg_spec (RegUpdate a name flags) m =
     (case m a of None \<Rightarrow> Inl RegNotFound
      | Some r \<Rightarrow> if (case name of Some n \<Rightarrow> MAX_NAME < length n | None \<Rightarrow> False) then Inl RegBadName
                  else Inr (m(a \<mapsto> set_meta name flags r)))"

fun reg_op_wf :: "reg_op \<Rightarrow> bool" where
  "reg_op_wf (RegAdd r) = record_wf r"
| "reg_op_wf (RegAddNew r) = record_wf r"
| "reg_op_wf _ = True"

text \<open>A call writes one bucket at most.\<close>

lemma reg_store_writes: "reg_store pc io i b s = (r, s') \<Longrightarrow> s' = s \<or> (\<exists>x. s' = snd (bio_store io i x s))"
  by (auto simp: reg_store_def Let_def split: if_splits prod.splits) (metis snd_conv)+

lemma reg_change_writes:
  "reg_change pc io a f is s = Some (r, s') \<Longrightarrow> s' = s \<or> (\<exists>i \<in> set is. \<exists>x. s' = snd (bio_store io i x s))"
proof (induction "is")
  case (Cons i "is")
  then show ?case using reg_store_writes [of pc io i _ s r s']
    by (auto simp: Let_def split: option.splits sum.splits)
qed simp

lemma reg_insert_writes:
  "reg_insert pc io q is u s = (r, s') \<Longrightarrow> s' = s \<or> (\<exists>i \<in> set is. \<exists>x. s' = snd (bio_store io i x s))"
proof (induction "is" arbitrary: u)
  case (Cons i "is")
  show ?case
  proof (cases "\<exists>b. reg_load_checked pc io i s = Some b \<and> length b < PER_BUCKET")
    case True
    then show ?thesis using Cons.prems reg_store_writes [of pc io i _ s r s'] by auto
  next
    case False
    then obtain v where "reg_insert pc io q is v s = (r, s')" using Cons.prems by (auto split: option.splits)
    from Cons.IH [OF this] show ?thesis by auto
  qed
qed simp

lemma reg_call_writes:
  assumes "reg_call pc io op s = (r, s')"
  shows "s' = s \<or> (\<exists>i < BUCKETS. \<exists>x. s' = snd (bio_store io i x s))"
proof -
  note C = reg_change_writes [of pc io _ _ "[0..<BUCKETS]" s r s'] and I = reg_insert_writes [of pc io _ "[0..<BUCKETS]" False s r s']
  have add: "s' = s \<or> (\<exists>i < BUCKETS. \<exists>x. s' = snd (bio_store io i x s))" if "reg_add pc io q s = (r, s')" for q
    using that C I by (fastforce simp: reg_add_def split: option.splits if_splits)
  show ?thesis
    using assms C add by (cases op) (fastforce simp: reg_add_new_def reg_remove_def reg_update_def split: option.splits if_splits)+
qed

section \<open>Lists of records\<close>

lemma bucket_wf_without: "bucket_wf b \<Longrightarrow> bucket_wf (take k b @ drop (Suc k) b)"
  by (auto simp: bucket_wf_def list_all_iff dest: in_set_takeD in_set_dropD)

lemma bucket_wf_with: "bucket_wf b \<Longrightarrow> k < length b \<Longrightarrow> record_wf r \<Longrightarrow> bucket_wf (b[k := r])"
  by (auto simp: bucket_wf_def list_all_iff dest!: set_update_subset_insert [THEN subsetD])

lemma find_replaced:
  assumes "distinct (map nr_addr (xs @ r # ys))" and "nr_addr r' = nr_addr r"
  shows "(\<lambda>a. find (\<lambda>r. nr_addr r = a) (xs @ r' # ys)) = (\<lambda>a. find (\<lambda>r. nr_addr r = a) (xs @ r # ys))(nr_addr r \<mapsto> r')"
proof
  fix a
  have "find (\<lambda>r. nr_addr r = nr_addr r') xs = None" using assms by (auto simp: find_addr_None)
  then show "find (\<lambda>r. nr_addr r = a) (xs @ r' # ys) = ((\<lambda>a. find (\<lambda>r. nr_addr r = a) (xs @ r # ys))(nr_addr r \<mapsto> r')) a"
    using assms(2) by (auto simp: find_append split: option.splits)
qed

lemma find_removed:
  assumes "distinct (map nr_addr (xs @ r # ys))"
  shows "(\<lambda>a. find (\<lambda>r. nr_addr r = a) (xs @ ys)) = (\<lambda>a. find (\<lambda>r. nr_addr r = a) (xs @ r # ys))(nr_addr r := None)"
proof
  fix a
  have "find (\<lambda>q. nr_addr q = nr_addr r) xs = None" "find (\<lambda>q. nr_addr q = nr_addr r) ys = None" using assms by (auto simp: find_addr_None)
  then show "find (\<lambda>r. nr_addr r = a) (xs @ ys) = ((\<lambda>a. find (\<lambda>r. nr_addr r = a) (xs @ r # ys))(nr_addr r := None)) a"
    by (auto simp: find_append split: option.splits)
qed

lemma find_inserted:
  assumes "nr_addr r \<notin> nr_addr ` set (xs @ ys)"
  shows "(\<lambda>a. find (\<lambda>r. nr_addr r = a) (xs @ r # ys)) = (\<lambda>a. find (\<lambda>r. nr_addr r = a) (xs @ ys))(nr_addr r \<mapsto> r)"
proof
  fix a
  have "find (\<lambda>q. nr_addr q = nr_addr r) xs = None" using assms by (auto simp: find_addr_None)
  then show "find (\<lambda>r. nr_addr r = a) (xs @ r # ys) = ((\<lambda>a. find (\<lambda>r. nr_addr r = a) (xs @ ys))(nr_addr r \<mapsto> r)) a"
    by (auto simp: find_append split: option.splits)
qed

lemma dom_find_addr: "dom (\<lambda>a. find (\<lambda>r. nr_addr r = a) rs) = nr_addr ` set rs"
proof -
  have "find (\<lambda>r. nr_addr r = a) rs \<noteq> None \<longleftrightarrow> a \<in> nr_addr ` set rs" for a by (simp only: find_addr_None not_not)
  then show ?thesis unfolding dom_def by blast
qed

lemma find_addr_nth:
  assumes "distinct (map nr_addr (xs @ r # ys))"
  shows "find (\<lambda>q. nr_addr q = nr_addr r) (xs @ r # ys) = Some r"
proof -
  have "find (\<lambda>q. nr_addr q = nr_addr r) xs = None" using assms by (auto simp: find_addr_None)
  then show ?thesis by (simp add: find_append)
qed

text \<open>The list of nodes around one bucket.\<close>

lemma reg_nodes_split:
  assumes "i < BUCKETS"
  obtains us vs where "reg_nodes pc io s = us @ reg_load pc io i s @ vs" and "\<And>b. concat ((reg_buckets pc io s)[i := b]) = us @ b @ vs"
proof -
  let ?bs = "reg_buckets pc io s"
  have i: "i < length ?bs" "?bs ! i = reg_load pc io i s" using assms by (simp_all add: reg_buckets_def)
  show ?thesis
  proof (rule that)
    show "reg_nodes pc io s = concat (take i ?bs) @ reg_load pc io i s @ concat (drop (Suc i) ?bs)"
      using id_take_nth_drop [OF i(1)] i(2) unfolding reg_nodes_def by (metis concat.simps(2) concat_append)
    show "concat (?bs[i := b]) = concat (take i ?bs) @ b @ concat (drop (Suc i) ?bs)" for b
      using i(1) by (simp add: upd_conv_take_nth_drop)
  qed
qed

text \<open>A change of one slot: the record there is replaced by one with the address, or removed.\<close>

definition changes_one :: "u32 \<Rightarrow> (bucket \<Rightarrow> nat \<Rightarrow> reg_error + bucket) \<Rightarrow> bool" where
  "changes_one a f \<longleftrightarrow>
     (\<forall>b k b'. f b k = Inr b' \<longrightarrow> k < length b \<longrightarrow> nr_addr (b ! k) = a \<longrightarrow> bucket_wf b \<longrightarrow>
        bucket_wf b' \<and> (\<exists>mid. b' = take k b @ mid @ drop (Suc k) b \<and> (mid = [] \<or> (\<exists>q. mid = [q] \<and> nr_addr q = a))))"

lemma distinct_mid:
  assumes "distinct (map g (l @ x # r))" and "mid = [] \<or> (\<exists>q. mid = [q] \<and> g q = g x)"
  shows "distinct (map g (l @ mid @ r))" and "length (l @ mid @ r) \<le> length (l @ x # r)"
proof -
  from assms(2) have "map g mid = [] \<or> map g mid = [g x]" by auto
  with assms(1) show "distinct (map g (l @ mid @ r))" by (elim disjE) (simp_all only: map_append list.map, auto)
  from assms(2) show "length (l @ mid @ r) \<le> length (l @ x # r)" by auto
qed

lemma upd_not_without: "k < length b \<Longrightarrow> b[k := x] \<noteq> take k b @ drop (Suc k) b"
  by (auto dest: arg_cong [where f = length])

lemma changes_replace: "record_wf r \<Longrightarrow> changes_one (nr_addr r) (\<lambda>b k. Inr (b[k := r]))"
  using bucket_wf_with by (auto simp: changes_one_def upd_conv_take_nth_drop)

lemma changes_remove: "changes_one a (\<lambda>b k. Inr (take k b @ drop (Suc k) b))"
  using bucket_wf_without by (auto simp: changes_one_def)

lemma changes_meta:
  "changes_one a (\<lambda>b k. if (case name of Some n \<Rightarrow> MAX_NAME < length n | None \<Rightarrow> False) then Inl RegBadName
     else Inr (b[k := set_meta name flags (b ! k)]))"
  unfolding changes_one_def
proof (intro allI impI)
  let ?bad = "case name of Some n \<Rightarrow> MAX_NAME < length n | None \<Rightarrow> False"
  fix b k b' assume run: "(if ?bad then Inl RegBadName else Inr (b[k := set_meta name flags (b ! k)])) = Inr b'"
    and k: "k < length b" "nr_addr (b ! k) = a" and wf: "bucket_wf b"
  then have b': "b' = b[k := set_meta name flags (b ! k)]" "\<not> ?bad" by (auto split: if_splits)
  have "record_wf (b ! k)" using k wf by (simp add: bucket_wf_def list_all_length)
  then have "record_wf (set_meta name flags (b ! k))" using b'(2) by (auto simp: record_wf_def set_meta_def split: option.splits)
  then show "bucket_wf b' \<and> (\<exists>mid. b' = take k b @ mid @ drop (Suc k) b \<and> (mid = [] \<or> (\<exists>q. mid = [q] \<and> nr_addr q = a)))"
    using bucket_wf_with [OF wf k(1)] b' k by (auto simp: upd_conv_take_nth_drop set_meta_def)
qed

section \<open>The contract of \<open>BucketIo\<close>\<close>

text \<open>A store that reports success is what the next load of that bucket reads; one that fails changed
  no bucket; a store leaves the other buckets alone.\<close>

locale bucket_store =
  fixes io :: "'s bucket_io" and good :: "'s \<Rightarrow> bool"
  assumes stored: "good s \<Longrightarrow> i < BUCKETS \<Longrightarrow> x \<noteq> [] \<Longrightarrow> length x \<le> MAX_BUCKET_BYTES \<Longrightarrow> bio_store io i x s = (True, s') \<Longrightarrow>
      bio_load io i MAX_BUCKET_BYTES s' = Inr (Some (length x, x))"
    and untouched: "good s \<Longrightarrow> i < BUCKETS \<Longrightarrow> bio_store io i x s = (ok, s') \<Longrightarrow> j < BUCKETS \<Longrightarrow> j \<noteq> i \<or> \<not> ok \<Longrightarrow>
      bio_load io j MAX_BUCKET_BYTES s' = bio_load io j MAX_BUCKET_BYTES s"
    and good_kept: "good s \<Longrightarrow> bio_store io i x s = (ok, s') \<Longrightarrow> good s'"
begin

lemma store_step:
  assumes pc: "postcard_ok pc" and g: "good s" and i: "i < BUCKETS" and b: "bucket_wf b" and run: "reg_store pc io i b s = (r, s')"
  shows "good s'" and "r = Inr () \<or> r = Inl RegStorage"
    and "reg_buckets pc io s' = (if r = Inr () then (reg_buckets pc io s)[i := b] else reg_buckets pc io s)"
    and "\<forall>j < BUCKETS. reg_load_checked pc io j s \<noteq> None \<Longrightarrow> \<forall>j < BUCKETS. reg_load_checked pc io j s' \<noteq> None"
proof -
  from pc b have x: "pc_from_bytes pc (pc_to_slice pc b) = Some b" "pc_to_slice pc b \<noteq> []" "length (pc_to_slice pc b) \<le> MAX_BUCKET_BYTES"
    by (auto simp: postcard_ok_def)
  obtain ok where st: "bio_store io i (pc_to_slice pc b) s = (ok, s')" and r: "r = (if ok then Inr () else Inl RegStorage)"
    using run x(3) by (auto simp: reg_store_def Let_def split: prod.splits if_splits)
  show "good s'" by (rule good_kept [OF g st])
  show "r = Inr () \<or> r = Inl RegStorage" using r by simp
  have same: "reg_load_checked pc io j s' = reg_load_checked pc io j s" if "j < BUCKETS" "j \<noteq> i \<or> \<not> ok" for j
    using untouched [OF g i st that] by (simp add: reg_load_checked_def)
  have here: "reg_load_checked pc io i s' = Some b" if ok
    using stored [OF g i x(2,3), of s'] st that x by (simp add: reg_load_checked_def)
  show "reg_buckets pc io s' = (if r = Inr () then (reg_buckets pc io s)[i := b] else reg_buckets pc io s)"
    using same here r i by (auto simp: reg_buckets_def reg_load_def list_eq_iff_nth_eq nth_list_update)
  show "\<forall>j < BUCKETS. reg_load_checked pc io j s \<noteq> None \<Longrightarrow> \<forall>j < BUCKETS. reg_load_checked pc io j s' \<noteq> None"
    using same here by (metis option.distinct(1))
qed

lemma store_inv:
  assumes pc: "postcard_ok pc" and g: "good s" and inv: "reg_inv pc io s" and i: "i < BUCKETS" and b: "bucket_wf b"
    and nodes: "concat ((reg_buckets pc io s)[i := b]) = rs" "distinct (map nr_addr rs)" "length rs \<le> REG_CAPACITY"
    and run: "reg_store pc io i b s = (r, s')"
  shows "good s' \<and> reg_inv pc io s' \<and>
     (r = Inr () \<and> reg_abs pc io s' = (\<lambda>a. find (\<lambda>r. nr_addr r = a) rs) \<or> r = Inl RegStorage \<and> reg_abs pc io s' = reg_abs pc io s)"
proof -
  note S = store_step [OF pc g i b run]
  have rd: "\<forall>j < BUCKETS. reg_load_checked pc io j s' \<noteq> None" using S(4) inv by (auto simp: reg_inv_def)
  have wf: "list_all bucket_wf ((reg_buckets pc io s)[i := b])"
    using inv b by (auto simp: reg_inv_def list_all_iff dest!: set_update_subset_insert [THEN subsetD])
  show ?thesis
  proof (cases "r = Inr ()")
    case True
    then show ?thesis using S(1,3) rd wf nodes by (auto simp: reg_inv_def reg_nodes_def reg_abs_def)
  next
    case False
    then show ?thesis using S(1-3) rd inv by (auto simp: reg_inv_def reg_nodes_def reg_abs_def)
  qed
qed

text \<open>A change of the record of a registered address keeps what stands before and after it; \<open>changed\<close>
  is what the shared loop then achieves.\<close>

definition changed :: "postcard \<Rightarrow> 's \<Rightarrow> u32 \<Rightarrow> (bucket \<Rightarrow> nat \<Rightarrow> reg_error + bucket) \<Rightarrow> ((reg_error + unit) \<times> 's) option \<Rightarrow> bucket \<Rightarrow> nat \<Rightarrow> bool" where
  "changed pc s a f res b k \<longleftrightarrow> k < length b \<and> reg_abs pc io s a = Some (b ! k) \<and>
     (case f b k of
        Inl e \<Rightarrow> res = Some (Inl e, s)
      | Inr b' \<Rightarrow> (\<exists>r s'. res = Some (r, s') \<and> good s' \<and> reg_inv pc io s' \<and>
          (r = Inr () \<and> reg_abs pc io s' = (if b' = take k b @ drop (Suc k) b then (reg_abs pc io s)(a := None) else (reg_abs pc io s)(a \<mapsto> b' ! k)) \<or>
           r = Inl RegStorage \<and> reg_abs pc io s' = reg_abs pc io s)))"

lemma change_step:
  assumes pc: "postcard_ok pc" and g: "good s" and inv: "reg_inv pc io s" and run: "reg_change pc io a f [0..<BUCKETS] s = res"
    and f: "changes_one a f"
  shows "(reg_abs pc io s a = None \<and> res = None) \<or> (\<exists>b k. changed pc s a f res b k)"
  using reg_change_cases [OF run]
proof (elim disjE conjE bexE exE)
  assume "res = None" and "\<forall>i \<in> set [0..<BUCKETS]. a \<notin> nr_addr ` set (reg_load pc io i s)"
  then have "a \<notin> nr_addr ` set (reg_nodes pc io s)" by (auto simp: reg_nodes_def reg_buckets_def)
  with \<open>res = None\<close> show ?thesis by (simp add: reg_abs_def find_addr_None)
next
  fix i k assume i: "i \<in> set [0..<BUCKETS]" and pos: "addr_position a (reg_load pc io i s) = Some k"
    and res: "res = Some (case f (reg_load pc io i s) k of Inl e \<Rightarrow> (Inl e, s) | Inr b \<Rightarrow> reg_store pc io i b s)"
  let ?b = "reg_load pc io i s"
  have k: "k < length ?b" "nr_addr (?b ! k) = a" using addr_position_Some [OF pos] by simp_all
  from i have i': "i < BUCKETS" by simp
  obtain us vs where n: "reg_nodes pc io s = us @ ?b @ vs" "\<And>b. concat ((reg_buckets pc io s)[i := b]) = us @ b @ vs"
    by (rule reg_nodes_split [OF i', of pc io s]) blast
  let ?l = "us @ take k ?b" and ?r = "drop (Suc k) ?b @ vs"
  have n': "reg_nodes pc io s = ?l @ ?b ! k # ?r" using n(1) id_take_nth_drop [OF k(1)] by (metis append_Cons append_assoc)
  have D: "distinct (map nr_addr (?l @ ?b ! k # ?r))" "length (?l @ ?b ! k # ?r) \<le> REG_CAPACITY"
    using inv n' by (simp_all add: reg_inv_def)
  have bw: "bucket_wf ?b" using inv i' by (auto simp: reg_inv_def reg_buckets_def list_all_iff)
  have here: "reg_abs pc io s a = Some (?b ! k)" using find_addr_nth [OF D(1)] n' k(2) by (simp add: reg_abs_def)
  have abs: "reg_abs pc io s = (\<lambda>a. find (\<lambda>r. nr_addr r = a) (?l @ ?b ! k # ?r))" unfolding reg_abs_fun n' ..
  show ?thesis
  proof (cases "f ?b k")
    case (Inl e)
    with res k here show ?thesis by (intro disjI2 exI [of _ ?b] exI [of _ k]) (simp add: changed_def)
  next
    case (Inr b')
    from f Inr k bw obtain mid where b': "bucket_wf b'" "b' = take k ?b @ mid @ drop (Suc k) ?b"
      and mid: "mid = [] \<or> (\<exists>q. mid = [q] \<and> nr_addr q = a)" unfolding changes_one_def by blast
    obtain r s' where st: "reg_store pc io i b' s = (r, s')" by fastforce
    have c: "concat ((reg_buckets pc io s)[i := b']) = ?l @ mid @ ?r" using n(2) b'(2) by simp
    have "distinct (map nr_addr (?l @ mid @ ?r))" "length (?l @ mid @ ?r) \<le> REG_CAPACITY"
      using distinct_mid [OF D(1), of mid] D(2) mid k(2) by simp_all
    note S = store_inv [OF pc g inv i' b'(1) c this st]
    have "(\<lambda>a. find (\<lambda>r. nr_addr r = a) (?l @ mid @ ?r)) =
        (if b' = take k ?b @ drop (Suc k) ?b then (reg_abs pc io s)(a := None) else (reg_abs pc io s)(a \<mapsto> b' ! k))"
      using mid
    proof
      assume "mid = []"
      then show ?thesis using find_removed [OF D(1)] k(2) b'(2) abs by simp
    next
      assume "\<exists>q. mid = [q] \<and> nr_addr q = a"
      then obtain q where q: "mid = [q]" "nr_addr q = a" by blast
      have "b' \<noteq> take k ?b @ drop (Suc k) ?b" "b' ! k = q"
        using b'(2) q(1) k(1) by (auto simp: nth_append dest: arg_cong [where f = length])
      then show ?thesis using find_replaced [OF D(1), of q] k(2) q abs by simp
    qed
    with S res Inr st k here show ?thesis by (intro disjI2 exI [of _ ?b] exI [of _ k]) (auto simp: changed_def)
  qed
qed

lemma card_dom: "reg_inv pc io s \<Longrightarrow> card (dom (reg_abs pc io s)) = reg_count pc io s"
proof -
  assume "reg_inv pc io s"
  then have d: "distinct (map nr_addr (reg_nodes pc io s))" by (simp add: reg_inv_def)
  have "dom (reg_abs pc io s) = set (map nr_addr (reg_nodes pc io s))"
    using dom_find_addr [of "reg_nodes pc io s"] unfolding reg_abs_def by simp
  then show ?thesis using distinct_card [OF d] by (simp add: reg_count_nodes)
qed

text \<open>What one call owes its specification.\<close>

definition meets :: "postcard \<Rightarrow> 's \<Rightarrow> reg_error + (u32 \<rightharpoonup> node_record) \<Rightarrow> reg_error + unit \<Rightarrow> 's \<Rightarrow> bool" where
  "meets pc s spec res s' \<longleftrightarrow> good s' \<and> reg_inv pc io s' \<and>
     (case spec of
        Inl e \<Rightarrow> res = Inl e \<and> s' = s
      | Inr m \<Rightarrow> res = Inr () \<and> reg_abs pc io s' = m \<or> res = Inl RegStorage \<and> reg_abs pc io s' = reg_abs pc io s)"

lemma insert_step:
  assumes pc: "postcard_ok pc" and g: "good s" and inv: "reg_inv pc io s" and r: "record_wf r"
    and new: "reg_abs pc io s (nr_addr r) = None" and room: "reg_count pc io s < REG_CAPACITY"
    and run: "reg_insert pc io r [0..<BUCKETS] False s = (res, s')"
  shows "meets pc s (Inr ((reg_abs pc io s)(nr_addr r \<mapsto> r))) res s'"
proof -
  have rd: "\<forall>i \<in> set [0..<BUCKETS]. reg_load_checked pc io i s \<noteq> None" using inv by (simp add: reg_inv_def)
  from reg_insert_cases [OF rd run] show ?thesis
  proof (elim disjE conjE bexE)
    assume full: "\<forall>i \<in> set [0..<BUCKETS]. PER_BUCKET \<le> length (reg_load pc io i s)"
    have "reg_count pc io s = length (reg_load pc io 0 s) + length (reg_load pc io 1 s) + length (reg_load pc io 2 s)"
      by (simp add: reg_count_def BUCKETS_def upt_rec numeral_2_eq_2)
    moreover have "PER_BUCKET \<le> length (reg_load pc io 0 s)" "PER_BUCKET \<le> length (reg_load pc io 1 s)" "PER_BUCKET \<le> length (reg_load pc io 2 s)"
      using full by (simp_all add: BUCKETS_def)
    ultimately show ?thesis using room by (simp add: PER_BUCKET_def REG_CAPACITY_def)
  next
    fix i assume i: "i \<in> set [0..<BUCKETS]" and len: "length (reg_load pc io i s) < PER_BUCKET"
      and st: "(res, s') = reg_store pc io i (reg_load pc io i s @ [r]) s"
    let ?b = "reg_load pc io i s"
    from i have i': "i < BUCKETS" by simp
    obtain us vs where n: "reg_nodes pc io s = us @ ?b @ vs" "\<And>b. concat ((reg_buckets pc io s)[i := b]) = us @ b @ vs"
      by (rule reg_nodes_split [OF i', of pc io s]) blast
    have a: "nr_addr r \<notin> nr_addr ` set ((us @ ?b) @ vs)" using new n(1) by (simp add: reg_abs_def find_addr_None)
    have "bucket_wf ?b" using inv i' by (auto simp: reg_inv_def reg_buckets_def list_all_iff)
    then have "bucket_wf (?b @ [r])" using len r by (simp add: bucket_wf_def)
    moreover have "concat ((reg_buckets pc io s)[i := ?b @ [r]]) = (us @ ?b) @ r # vs" using n(2) by simp
    moreover have "distinct (map nr_addr ((us @ ?b) @ r # vs))" using inv n(1) a by (auto simp: reg_inv_def)
    moreover have "length ((us @ ?b) @ r # vs) \<le> REG_CAPACITY" using room n(1) by (simp add: reg_count_nodes)
    ultimately show ?thesis
      using store_inv [OF pc g inv i' _ _ _ _ st [symmetric]] find_inserted [OF a] n(1) by (simp add: meets_def reg_abs_fun)
  qed
qed

lemma add_meets:
  assumes "postcard_ok pc" and "good s" and "reg_inv pc io s" and "record_wf r" and "reg_add pc io r s = (res, s')"
  shows "meets pc s (reg_spec (RegAdd r) (reg_abs pc io s)) res s'"
proof -
  obtain ch where ch: "reg_change pc io (nr_addr r) (\<lambda>b slot. Inr (b[slot := r])) [0..<BUCKETS] s = ch" by simp
  from change_step [OF assms(1-3) ch changes_replace [OF assms(4)]] show ?thesis
  proof (elim disjE conjE exE)
    assume none: "reg_abs pc io s (nr_addr r) = None" "ch = None"
    then show ?thesis
      using assms ch card_dom [OF assms(3)] insert_step [OF assms(1-4) none(1)]
      by (cases "REG_CAPACITY \<le> reg_count pc io s") (simp_all add: reg_add_def meets_def)
  next
    fix b k assume "changed pc s (nr_addr r) (\<lambda>b slot. Inr (b[slot := r])) ch b k"
    then show ?thesis using assms(5) ch upd_not_without [of k b r] by (auto simp: changed_def reg_add_def meets_def)
  qed
qed

lemma remove_meets:
  assumes "postcard_ok pc" and "good s" and "reg_inv pc io s" and "reg_remove pc io a s = (res, s')"
  shows "meets pc s (reg_spec (RegRemove a) (reg_abs pc io s)) res s'"
proof -
  obtain ch where ch: "reg_change pc io a (\<lambda>b slot. Inr (take slot b @ drop (Suc slot) b)) [0..<BUCKETS] s = ch" by simp
  from change_step [OF assms(1-3) ch changes_remove] show ?thesis
    using assms(2-4) ch by (auto simp: changed_def reg_remove_def meets_def)
qed

lemma update_meets:
  assumes "postcard_ok pc" and "good s" and "reg_inv pc io s" and "reg_update pc io a name flags s = (res, s')"
  shows "meets pc s (reg_spec (RegUpdate a name flags) (reg_abs pc io s)) res s'"
proof -
  obtain ch where ch: "reg_change pc io a (\<lambda>b slot. if (case name of Some n \<Rightarrow> MAX_NAME < length n | None \<Rightarrow> False) then Inl RegBadName
     else Inr (b[slot := set_meta name flags (b ! slot)])) [0..<BUCKETS] s = ch" by simp
  from change_step [OF assms(1-3) ch changes_meta] show ?thesis
  proof (elim disjE conjE exE)
    fix b k assume "changed pc s a (\<lambda>b slot. if (case name of Some n \<Rightarrow> MAX_NAME < length n | None \<Rightarrow> False) then Inl RegBadName
     else Inr (b[slot := set_meta name flags (b ! slot)])) ch b k"
    then show ?thesis using assms(2-4) ch upd_not_without [of k b "set_meta name flags (b ! k)"]
      by (auto simp: changed_def reg_update_def meets_def split: if_splits)
  qed (use assms(2-4) ch in \<open>auto simp: reg_update_def meets_def\<close>)
qed

lemma call_meets:
  assumes "postcard_ok pc" and "good s" and "reg_inv pc io s" and "reg_op_wf op" and "reg_call pc io op s = (res, s')"
  shows "meets pc s (reg_spec op (reg_abs pc io s)) res s'"
proof (cases op)
  case (RegAdd r)
  then show ?thesis using add_meets [OF assms(1-3)] assms(4,5) by simp
next
  case (RegAddNew r)
  show ?thesis
  proof (cases "reg_abs pc io s (nr_addr r)")
    case None
    then show ?thesis using RegAddNew add_meets [OF assms(1-3), of r] assms(4,5) by (simp add: reg_add_new_def reg_find_abs)
  next
    case (Some x)
    then show ?thesis using RegAddNew assms by (simp add: reg_add_new_def reg_find_abs meets_def)
  qed
next
  case (RegRemove a)
  then show ?thesis using remove_meets [OF assms(1-3)] assms(5) by simp
next
  case (RegUpdate a name flags)
  then show ?thesis using update_meets [OF assms(1-3)] assms(5) by simp
qed

end

end
