(* ===== verification/Proto_Frame.thy ===== *)
theory Proto_Frame
  imports Crc
begin

text \<open>
  The console wire protocol of \<open>crates/protocol/src/lib.rs\<close>: message types, the framed message
  (type, schema tag, sequence number, payload, CRC), its decoder and the byte-fed deframer. COBS
  and postcard are third-party crates: the COBS encoder, decoder and size bound are the argument
  \<open>c\<close> (a record of three functions) and \<open>cobs_ok c\<close> states what the crate documents; the postcard
  serializer and deserializer are arguments of the two functions that call them. The theorems: a
  frame survives the wire whatever preceded it, damage to up to four consecutive bytes is always
  reported as damage, and a foreign schema is reported only for an undamaged frame.
\<close>

section \<open>Message types and errors\<close>

definition P_MAX_FRAME :: nat where
  "P_MAX_FRAME = 256"

definition MAX_WIRE :: nat where
  "MAX_WIRE = 272"

definition P_HDR :: nat where
  "P_HDR = 5"

definition CRC_LEN :: nat where
  "CRC_LEN = 4"

definition P_MAX_PAYLOAD :: nat where
  "P_MAX_PAYLOAD = P_MAX_FRAME - P_HDR - CRC_LEN"

datatype msg_type =
  MtHello | MtLog | MtPrint | MtEvent | MtShellResponse | MtShellCompletions | MtDropped | MtMgmtResponse | MtUplink |
  MtRadioStat | MtShellCommand | MtShellComplete | MtMgmtRequest

fun msg_type_u8 :: "msg_type \<Rightarrow> u8" where
  "msg_type_u8 MtHello = 0"
| "msg_type_u8 MtLog = 1"
| "msg_type_u8 MtPrint = 2"
| "msg_type_u8 MtEvent = 3"
| "msg_type_u8 MtShellResponse = 4"
| "msg_type_u8 MtShellCompletions = 5"
| "msg_type_u8 MtDropped = 6"
| "msg_type_u8 MtMgmtResponse = 7"
| "msg_type_u8 MtUplink = 8"
| "msg_type_u8 MtRadioStat = 9"
| "msg_type_u8 MtShellCommand = 16"
| "msg_type_u8 MtShellComplete = 17"
| "msg_type_u8 MtMgmtRequest = 18"

definition msg_types :: "msg_type list" where
  "msg_types = [MtHello, MtLog, MtPrint, MtEvent, MtShellResponse, MtShellCompletions, MtDropped, MtMgmtResponse, MtUplink,
     MtRadioStat, MtShellCommand, MtShellComplete, MtMgmtRequest]"

definition msg_type_from_u8 :: "u8 \<Rightarrow> msg_type option" where
  "msg_type_from_u8 v = find (\<lambda>t. msg_type_u8 t = v) msg_types"

datatype proto_error = PEncode | POverflow | PTooShort | PTooLong | PSchemaMismatch u16 | PBadType | PBadCrc | PMalformed

section \<open>Framing\<close>

record cobs =
  cobs_max :: "nat \<Rightarrow> nat"
  cobs_enc :: "bytes \<Rightarrow> bytes"
  cobs_dec :: "bytes \<Rightarrow> bytes option"

definition cobs_ok :: "cobs \<Rightarrow> bool" where
  "cobs_ok c \<longleftrightarrow> (\<forall>x. length (cobs_enc c x) \<le> cobs_max c (length x)) \<and> (\<forall>x. 0 \<notin> set (cobs_enc c x)) \<and>
     (\<forall>x. cobs_enc c x \<noteq> []) \<and> (\<forall>x. cobs_dec c (cobs_enc c x) = Some x)"

definition p_header :: "u16 \<Rightarrow> msg_type \<Rightarrow> u16 \<Rightarrow> bytes" where
  "p_header tag mt seq = [msg_type_u8 mt] @ u16_le tag @ u16_le seq"

text \<open>\<open>seal\<close> of the header and payload bytes \<open>body\<close> into an \<open>out\<close> buffer of \<open>n\<close> bytes.\<close>

definition p_seal :: "cobs \<Rightarrow> bytes \<Rightarrow> nat \<Rightarrow> proto_error + bytes" where
  "p_seal c body n =
     (let inner = body @ u32_le (crc32_ieee body) in
      if n < cobs_max c (length inner) + 1 then Inl POverflow else Inr (cobs_enc c inner @ [0]))"

definition encode_frame_bytes :: "cobs \<Rightarrow> u16 \<Rightarrow> msg_type \<Rightarrow> u16 \<Rightarrow> bytes \<Rightarrow> nat \<Rightarrow> proto_error + bytes" where
  "encode_frame_bytes c tag mt seq payload n =
     (if length payload > P_MAX_PAYLOAD then Inl PEncode else p_seal c (p_header tag mt seq @ payload) n)"

text \<open>\<open>postcard::to_slice\<close> is the argument \<open>ser\<close>: the value, the room, the bytes if they fit.\<close>

definition encode_payload :: "('a \<Rightarrow> nat \<Rightarrow> bytes option) \<Rightarrow> 'a \<Rightarrow> nat \<Rightarrow> proto_error + bytes" where
  "encode_payload ser v n =
     (case ser v (min n P_MAX_PAYLOAD) of None \<Rightarrow> Inl PEncode | Some b \<Rightarrow> Inr b)"

definition encode_frame_with_tag ::
  "cobs \<Rightarrow> ('a \<Rightarrow> nat \<Rightarrow> bytes option) \<Rightarrow> u16 \<Rightarrow> msg_type \<Rightarrow> u16 \<Rightarrow> 'a \<Rightarrow> nat \<Rightarrow> proto_error + bytes"
where
  "encode_frame_with_tag c ser tag mt seq v n =
     (case ser v (P_MAX_FRAME - P_HDR) of None \<Rightarrow> Inl PEncode
      | Some b \<Rightarrow> if P_HDR + length b + CRC_LEN > P_MAX_FRAME then Inl PEncode
          else p_seal c (p_header tag mt seq @ b) n)"

definition decode_frame_with_tag :: "u16 \<Rightarrow> bytes \<Rightarrow> proto_error + msg_type \<times> u16 \<times> bytes" where
  "decode_frame_with_tag tag inner =
     (if length inner < P_HDR + CRC_LEN then Inl PTooShort
      else if length inner > P_MAX_FRAME then Inl PTooLong
      else let body = length inner - CRC_LEN;
               stored = le_u32 (inner ! body) (inner ! (body + 1)) (inner ! (body + 2)) (inner ! (body + 3))
        in if crc32_ieee (take body inner) \<noteq> stored then Inl PBadCrc
           else let got = le_u16 (inner ! 1) (inner ! 2) in
             if got \<noteq> tag then Inl (PSchemaMismatch got)
             else case msg_type_from_u8 (inner ! 0) of None \<Rightarrow> Inl PBadType
               | Some mt \<Rightarrow> Inr (mt, le_u16 (inner ! 3) (inner ! 4), bslice P_HDR (body - P_HDR) inner))"

text \<open>\<open>from_bytes_exact\<close> over \<open>postcard::take_from_bytes\<close> (the argument \<open>tk\<close>: the value and what is
  left), and the foreign \<open>Hello\<close> of a mismatch message.\<close>

definition from_bytes_exact :: "(bytes \<Rightarrow> ('a \<times> bytes) option) \<Rightarrow> bytes \<Rightarrow> proto_error + 'a" where
  "from_bytes_exact tk b = (case tk b of Some (v, []) \<Rightarrow> Inr v | _ \<Rightarrow> Inl PMalformed)"

definition decode_foreign_hello :: "(bytes \<Rightarrow> ('a \<times> bytes) option) \<Rightarrow> u16 \<Rightarrow> bytes \<Rightarrow> 'a option" where
  "decode_foreign_hello tk tag inner =
     (case decode_frame_with_tag tag inner of
        Inl (PSchemaMismatch got) \<Rightarrow>
          (case decode_frame_with_tag got inner of Inl _ \<Rightarrow> None
           | Inr (mt, _, payload) \<Rightarrow>
               if mt \<noteq> MtHello then None
               else (case from_bytes_exact tk payload of Inl _ \<Rightarrow> None | Inr h \<Rightarrow> Some h))
      | _ \<Rightarrow> None)"

section \<open>The deframer\<close>

record frame_decoder =
  fd_data :: bytes
  fd_overflow :: bool

definition fd_new :: frame_decoder where
  "fd_new = \<lparr>fd_data = [], fd_overflow = False\<rparr>"

definition fd_push :: "cobs \<Rightarrow> u8 \<Rightarrow> frame_decoder \<Rightarrow> bytes option \<times> frame_decoder" where
  "fd_push c b d =
     (if b \<noteq> 0 then
        (None, if length (fd_data d) < MAX_WIRE then d\<lparr>fd_data := fd_data d @ [b]\<rparr> else d\<lparr>fd_overflow := True\<rparr>)
      else (if fd_data d = [] \<or> fd_overflow d then None else cobs_dec c (fd_data d), fd_new))"

text \<open>A stream of bytes through the deframer: the frames it yields.\<close>

primrec fd_run :: "cobs \<Rightarrow> bytes \<Rightarrow> frame_decoder \<Rightarrow> bytes list \<times> frame_decoder" where
  "fd_run c [] d = ([], d)"
| "fd_run c (b # bs) d =
     (case fd_push c b d of (r, d') \<Rightarrow> (case fd_run c bs d' of (rs, d'') \<Rightarrow>
        ((case r of None \<Rightarrow> rs | Some x \<Rightarrow> x # rs), d'')))"

section \<open>Round trip\<close>

lemma msg_type_roundtrip [simp]: "msg_type_from_u8 (msg_type_u8 t) = Some t"
  by (cases t) (simp_all add: msg_type_from_u8_def msg_types_def)

lemma length_p_header: "length (p_header tag mt seq) = 5"
  by (simp add: p_header_def)

lemma decode_inner:
  assumes "length payload \<le> P_MAX_PAYLOAD"
  shows "decode_frame_with_tag tag ((p_header tag mt seq @ payload) @ u32_le (crc32_ieee (p_header tag mt seq @ payload))) =
    Inr (mt, seq, payload)"
proof -
  let ?b = "p_header tag mt seq @ payload" and ?crc = "crc32_ieee (p_header tag mt seq @ payload)"
  have h: "p_header tag mt seq = [msg_type_u8 mt, ucast tag, ucast (drop_bit 8 tag), ucast seq, ucast (drop_bit 8 seq)]"
    by (simp add: p_header_def u16_le_def)
  have l: "length (?b @ u32_le ?crc) = 9 + length payload" by (simp add: h)
  have n: "(?b @ u32_le ?crc) ! (length (?b @ u32_le ?crc) - 4 + i) = u32_le ?crc ! i" if "i < 4" for i
    using that by (simp add: nth_append h)
  have s: "le_u32 (u32_le ?crc ! 0) (u32_le ?crc ! 1) (u32_le ?crc ! 2) (u32_le ?crc ! 3) = ?crc" by (simp add: u32_le_def)
  have "crc32_ieee (take (length (?b @ u32_le ?crc) - 4) (?b @ u32_le ?crc)) = ?crc" by simp
  then show ?thesis
    using assms n [of 0] n [of 1] n [of 2] n [of 3] s l
    by (simp add: decode_frame_with_tag_def Let_def P_HDR_def CRC_LEN_def P_MAX_FRAME_def P_MAX_PAYLOAD_def h bslice_def)
qed


lemma fd_run_append:
  "fd_run c (xs @ ys) d = (case fd_run c xs d of (rs, d') \<Rightarrow> case fd_run c ys d' of (ss, d'') \<Rightarrow> (rs @ ss, d''))"
  by (induction xs arbitrary: d) (auto split: prod.splits option.splits)

lemma fd_run_data:
  "0 \<notin> set bs \<Longrightarrow> length (fd_data d) + length bs \<le> MAX_WIRE \<Longrightarrow> fd_run c bs d = ([], d\<lparr>fd_data := fd_data d @ bs\<rparr>)"
proof (induction bs arbitrary: d)
  case (Cons b bs)
  then have "fd_push c b d = (None, d\<lparr>fd_data := fd_data d @ [b]\<rparr>)" by (auto simp: fd_push_def)
  then show ?case using Cons by simp
qed simp

lemma fd_run_delim: "snd (fd_run c (xs @ [0]) d) = fd_new"
  by (simp add: fd_run_append fd_push_def split: prod.splits)

lemma fd_run_wire:
  assumes "cobs_ok c" and "length (cobs_enc c inner) \<le> MAX_WIRE"
  shows "fd_run c (cobs_enc c inner @ [0]) fd_new = ([inner], fd_new)"
proof -
  have z: "0 \<notin> set (cobs_enc c inner)" "cobs_enc c inner \<noteq> []" "cobs_dec c (cobs_enc c inner) = Some inner"
    using assms(1) by (simp_all add: cobs_ok_def)
  have "fd_run c (cobs_enc c inner) fd_new = ([], fd_new\<lparr>fd_data := cobs_enc c inner\<rparr>)"
    using fd_run_data [OF z(1), of fd_new c] assms(2) by (simp add: fd_new_def)
  then show ?thesis using z by (simp add: fd_run_append fd_push_def fd_new_def)
qed

lemma encode_wire:
  assumes "cobs_ok c" and "encode_frame_bytes c tag mt seq payload n = Inr wire" and "n \<le> MAX_WIRE"
  obtains inner where "wire = cobs_enc c inner @ [0]" and "length (cobs_enc c inner) \<le> MAX_WIRE" and "length wire \<le> n"
    and "decode_frame_with_tag tag inner = Inr (mt, seq, payload)"
proof -
  let ?b = "p_header tag mt seq @ payload"
  let ?in = "?b @ u32_le (crc32_ieee ?b)"
  from assms(2) have p: "length payload \<le> P_MAX_PAYLOAD" and w: "wire = cobs_enc c ?in @ [0]"
    and n: "cobs_max c (length ?in) + 1 \<le> n"
    by (auto simp: encode_frame_bytes_def p_seal_def Let_def split: if_splits)
  have "length (cobs_enc c ?in) \<le> cobs_max c (length ?in)" using assms(1) unfolding cobs_ok_def by blast
  then show ?thesis using that [of ?in] w n assms(3) decode_inner [OF p, of tag mt seq] by simp
qed

text \<open>C38. Frames survive the wire: whatever bytes reached the deframer before, once a delimiter has
  passed, every encoded frame of the stream that follows comes out, in order and nothing else, and
  decodes to the type, sequence number and payload that were sent.\<close>

theorem frames_survive_wire:
  assumes "cobs_ok c" and "n \<le> MAX_WIRE"
    and "list_all2 (\<lambda>(mt, seq, payload) wire. encode_frame_bytes c tag mt seq payload n = Inr wire) msgs wires"
  shows "\<exists>junk inners. fst (fd_run c (noise @ [0] @ concat wires) d) = junk @ inners \<and>
     map (decode_frame_with_tag tag) inners = map Inr msgs"
proof -
  have "\<exists>inners. fd_run c (concat wires) fd_new = (inners, fd_new) \<and> map (decode_frame_with_tag tag) inners = map Inr msgs"
    using assms(3)
  proof (induction msgs wires rule: list_all2_induct)
    case (Cons m ms wire wires)
    obtain mt sq p where m: "m = (mt, sq, p)" by (cases m) auto
    with Cons.hyps(1) have "encode_frame_bytes c tag mt sq p n = Inr wire" by simp
    from encode_wire [OF assms(1) this assms(2)] obtain inner where
      w: "wire = cobs_enc c inner @ [0]" "length (cobs_enc c inner) \<le> MAX_WIRE" "decode_frame_with_tag tag inner = Inr m"
      using m by metis
    from Cons.IH obtain iss where "fd_run c (concat wires) fd_new = (iss, fd_new)" "map (decode_frame_with_tag tag) iss = map Inr ms" by blast
    then show ?case using fd_run_wire [OF assms(1) w(2)] w by (intro exI [of _ "inner # iss"]) (simp add: fd_run_append del: append_assoc)
  qed simp
  then obtain inners where r: "fd_run c (concat wires) fd_new = (inners, fd_new)" "map (decode_frame_with_tag tag) inners = map Inr msgs" by blast
  obtain junk where "fd_run c (noise @ [0]) d = (junk, fd_new)" using fd_run_delim [of c noise d] by (metis prod.collapse)
  then have "fst (fd_run c ((noise @ [0]) @ concat wires) d) = junk @ inners" using r by (simp only: fd_run_append) simp
  then show ?thesis using r(2) by (intro exI [of _ junk] exI [of _ inners]) simp
qed


text \<open>A concrete zero-free code with those three functions, for the instances: a marker, then two
  non-zero half bytes per byte.\<close>

definition half_bytes :: "u8 \<Rightarrow> bytes" where
  "half_bytes b = [drop_bit 4 b + 1, (b AND 15) + 1]"

fun unhalf :: "bytes \<Rightarrow> bytes option" where
  "unhalf [] = Some []"
| "unhalf [h] = None"
| "unhalf (h # l # bs) = map_option ((#) (push_bit 4 (h - 1) OR (l - 1))) (unhalf bs)"

definition cobs_demo :: cobs where
  "cobs_demo = \<lparr>cobs_max = (\<lambda>n. 2 * n + 1), cobs_enc = (\<lambda>x. 1 # concat (map half_bytes x)),
     cobs_dec = (\<lambda>y. case y of [] \<Rightarrow> None | _ # b \<Rightarrow> unhalf b)\<rparr>"

lemma half_bytes_facts: "0 \<notin> set (half_bytes b)" "push_bit 4 (drop_bit 4 b) OR (b AND 15) = (b :: u8)"
proof -
  have m: "b AND 15 = take_bit 4 b" by (simp add: take_bit_eq_mask mask_eq_exp_minus_1)
  show "push_bit 4 (drop_bit 4 b) OR (b AND 15) = b" unfolding m by (rule bit_word_eqI) (auto simp: bit_simps)
  have "unat (drop_bit 4 b) < 16" using unat_less_size [of b] by (simp add: drop_bit_eq_div unat_div)
  then have "unat (drop_bit 4 b + 1) = unat (drop_bit 4 b) + 1" by (simp add: unat_word_ariths)
  moreover have "unat (b AND 15) < 16" unfolding m by (simp add: take_bit_eq_mod unat_mod)
  then have "unat ((b AND 15) + 1) = unat (b AND 15) + 1" by (simp add: unat_word_ariths)
  ultimately show "0 \<notin> set (half_bytes b)" by (auto simp: half_bytes_def word_unat_eq_iff)
qed

lemma cobs_ok_demo: "cobs_ok cobs_demo"
proof -
  have "unhalf (concat (map half_bytes x)) = Some x" for x
    by (induction x) (simp_all add: half_bytes_def half_bytes_facts(2))
  moreover have "length (concat (map half_bytes x)) = 2 * length x" for x by (induction x) (simp_all add: half_bytes_def)
  ultimately show ?thesis using half_bytes_facts(1) by (auto simp: cobs_ok_def cobs_demo_def)
qed

theorem frames_survive_wire_witness:
  "\<exists>junk inners. fst (fd_run cobs_demo ([7, 0, 9] @ [0] @ concat [1 # concat (map half_bytes
       ((p_header 5 MtLog 3 @ [1, 2]) @ u32_le (crc32_ieee (p_header 5 MtLog 3 @ [1, 2])))) @ [0]]) fd_new) = junk @ inners \<and>
     map (decode_frame_with_tag 5) inners = map Inr [(MtLog, 3, [1, 2])]"
  by (rule frames_survive_wire [OF cobs_ok_demo order_refl])
    (simp add: encode_frame_bytes_def p_seal_def Let_def cobs_demo_def P_MAX_PAYLOAD_def P_MAX_FRAME_def P_HDR_def CRC_LEN_def
      length_p_header MAX_WIRE_def)

section \<open>Damage and foreign schemas\<close>

lemma decode_split:
  assumes "length trl = 4" and "5 \<le> length body" and "length body \<le> 252"
  shows "decode_frame_with_tag tag (body @ trl) =
    (if trl \<noteq> u32_le (crc32_ieee body) then Inl PBadCrc
     else if le_u16 (body ! 1) (body ! 2) \<noteq> tag then Inl (PSchemaMismatch (le_u16 (body ! 1) (body ! 2)))
     else case msg_type_from_u8 (body ! 0) of None \<Rightarrow> Inl PBadType
       | Some mt \<Rightarrow> Inr (mt, le_u16 (body ! 3) (body ! 4), drop 5 body))"
proof -
  from list_of_length_4 [OF assms(1)] obtain w x y z where t: "trl = [w, x, y, z]" by blast
  have n: "(body @ trl) ! length body = w" "(body @ trl) ! (length body + 1) = x" "(body @ trl) ! (length body + 2) = y"
    "(body @ trl) ! (length body + 3) = z" by (simp_all add: t nth_append)
  have b: "(body @ trl) ! i = body ! i" if "i < 5" for i using that assms(2) by (simp add: nth_append)
  have crc: "crc32_ieee body = le_u32 w x y z \<longleftrightarrow> trl = u32_le (crc32_ieee body)"
    unfolding t by (metis u32_le_inject u32_le_le_u32)
  have len: "length (body @ trl) - 4 = length body" using assms(1) by simp
  have sl: "bslice 5 (length body - 5) (body @ trl) = drop 5 body" using assms(2) by (simp add: bslice_def)
  have "decode_frame_with_tag tag (body @ trl) =
    (if crc32_ieee body \<noteq> le_u32 w x y z then Inl PBadCrc
     else if le_u16 (body ! 1) (body ! 2) \<noteq> tag then Inl (PSchemaMismatch (le_u16 (body ! 1) (body ! 2)))
     else case msg_type_from_u8 (body ! 0) of None \<Rightarrow> Inl PBadType
       | Some mt \<Rightarrow> Inr (mt, le_u16 (body ! 3) (body ! 4), drop 5 body))"
    unfolding decode_frame_with_tag_def Let_def P_HDR_def CRC_LEN_def P_MAX_FRAME_def
    using assms len n b [of 0] b [of 1] b [of 2] b [of 3] b [of 4] sl by (simp split: option.splits)
  then show ?thesis by (simp only: crc)
qed

lemma crc32_ieee_burst:
  "length xs = length ys \<Longrightarrow> length xs \<le> 4 \<Longrightarrow> xs \<noteq> ys \<Longrightarrow> crc32_ieee (pre @ xs @ post) \<noteq> crc32_ieee (pre @ ys @ post)"
  using crc32_update_burst [of xs ys "0xFFFFFFFF" pre post] by (auto simp: crc32_ieee_def)

text \<open>Damage is always reported as damage: take any frame the decoder accepts (for whatever schema
  tag) and change up to four consecutive bytes inside its body, or any bytes of its CRC trailer:
  decoding reports a CRC error, whatever tag the receiver expects, never a message and never a
  foreign schema.\<close>

theorem damage_detected:
  assumes "decode_frame_with_tag tag (pre @ xs @ post @ crc) = Inr m" and "length crc = 4"
    and "length xs = length ys" and "length xs \<le> 4" and "length crc' = 4" and "xs \<noteq> ys \<and> crc' = crc \<or> xs = ys \<and> crc' \<noteq> crc"
  shows "decode_frame_with_tag tag' (pre @ ys @ post @ crc') = Inl PBadCrc"
proof -
  let ?b = "pre @ xs @ post" and ?b' = "pre @ ys @ post"
  have len: "5 \<le> length ?b" "length ?b \<le> 252"
    using assms(1,2) by (auto simp: decode_frame_with_tag_def P_HDR_def CRC_LEN_def P_MAX_FRAME_def split: if_splits)
  have len': "length ?b' = length ?b" using assms(3) by simp
  have ok: "crc = u32_le (crc32_ieee ?b)"
    using assms(1) decode_split [OF assms(2) len, of tag] by (simp split: if_splits)
  have "crc' \<noteq> u32_le (crc32_ieee ?b')"
    using assms(6) ok crc32_ieee_burst [OF assms(3,4), of pre post] by auto
  then show ?thesis using decode_split [OF assms(5), of ?b' tag'] len len' by simp
qed

theorem damage_detected_witness:
  "decode_frame_with_tag 6 ((p_header 5 MtLog 3 @ [1]) @ [9, 9] @ [4] @ u32_le (crc32_ieee (p_header 5 MtLog 3 @ [1, 2, 3, 4]))) = Inl PBadCrc"
proof -
  have "decode_frame_with_tag 5 ((p_header 5 MtLog 3 @ [1, 2, 3, 4]) @ u32_le (crc32_ieee (p_header 5 MtLog 3 @ [1, 2, 3, 4]))) =
      Inr (MtLog, 3, [1, 2, 3, 4])"
    by (rule decode_inner) (simp add: P_MAX_PAYLOAD_def P_MAX_FRAME_def P_HDR_def CRC_LEN_def)
  then have "decode_frame_with_tag 5 ((p_header 5 MtLog 3 @ [1]) @ [2, 3] @ [4] @ u32_le (crc32_ieee (p_header 5 MtLog 3 @ [1, 2, 3, 4]))) =
      Inr (MtLog, 3, [1, 2, 3, 4])" by simp
  then show ?thesis by (rule damage_detected) simp_all
qed

end
