(* ===== verification/Gw_App.thy ===== *)
theory Gw_App
  imports Fw_Pairing Gw_Queue Gw_Registry Proto_Frame
begin

text \<open>
  The gateway application of \<open>firmware/apps/radio_dongle_gateway.rs\<close>: one loop that owns the network
  layer, the registry, the downlink queue and the pairing window, and serves the host. What the radio,
  the clock and the console deliver in one turn is an input; what the turn hands to the console and to the
  radio is its output. The libraries the firmware links (AES, the curve and hashes, postcard) are a
  parameter. LEDs, log lines and the watchdog are left out.
\<close>

section \<open>Management protocol\<close>

definition MGMT_OK :: u8 where "MGMT_OK = 0"
definition MGMT_UNSUPPORTED :: u8 where "MGMT_UNSUPPORTED = 1"
definition MGMT_BAD_ARG :: u8 where "MGMT_BAD_ARG = 2"
definition MGMT_NOT_FOUND :: u8 where "MGMT_NOT_FOUND = 3"
definition MGMT_FULL :: u8 where "MGMT_FULL = 4"
definition MGMT_BUSY :: u8 where "MGMT_BUSY = 5"
definition MGMT_STORAGE :: u8 where "MGMT_STORAGE = 6"
definition MGMT_TIMEOUT :: u8 where "MGMT_TIMEOUT = 7"
definition TX_DELIVERED :: u8 where "TX_DELIVERED = 0"
definition TX_NOT_DELIVERED :: u8 where "TX_NOT_DELIVERED = 1"
definition TX_BUSY :: u8 where "TX_BUSY = 2"
definition TX_DUTY_LIMITED :: u8 where "TX_DUTY_LIMITED = 3"
definition TX_ERROR :: u8 where "TX_ERROR = 4"
definition TX_EXPIRED :: u8 where "TX_EXPIRED = 5"
definition NODE_FLAG_UNNAMED :: u8 where "NODE_FLAG_UNNAMED = 2"
definition LAST_SEEN_NEVER :: u32 where "LAST_SEEN_NEVER = 0xFFFFFFFF"
definition RSSI_NONE :: int where "RSSI_NONE = 127"
definition MAX_CHANNEL :: u8 where "MAX_CHANNEL = 2"
definition MAX_NODE_NAME :: nat where "MAX_NODE_NAME = 16"

record provision =
  pv_addr :: "u32 option"
  pv_gw_addr :: u32
  pv_key :: bytes
  pv_band :: u8
  pv_channel :: u8

datatype mgmt_op =
    Describe
  | NodeList
  | NodeAdd u32 bytes bytes u8 u32 u32
  | NodeRemove u32
  | NodeUpdate u32 "bytes option" "u8 option"
  | NodeRevealKey u32
  | PairingOpen u16
  | PairingCancel
  | QueuePush u32 u16 bytes
  | QueueList u32
  | QueueDrop u32 "u16 option"
  | StatsConfig u32
  | Provision provision
  | JoinOpen u16

datatype device_role = RoleIsGateway | RoleIsNode | RoleIsOther

record device_info =
  di_role :: device_role
  di_addr :: u32
  di_band :: u8
  di_channel :: u8
  di_node_capacity :: u8
  di_node_count :: u8
  di_provisioned :: bool
  di_gw_addr :: u32
  di_firmware_name :: bytes
  di_firmware_version :: bytes

record node_entry =
  ne_addr :: u32
  ne_name :: bytes
  ne_flags :: u8
  ne_last_seen :: u32
  ne_rssi :: int
  ne_uplinks :: u32
  ne_queued :: u8

record node_key =
  nk_addr :: u32
  nk_key :: bytes
  nk_tx_floor :: u32
  nk_rx_floor :: u32

record queue_entry =
  qe_node :: u32
  qe_item :: u16
  qe_age :: u16
  qe_ttl :: u16
  qe_data :: bytes

text \<open>The reply records.\<close>

datatype mgmt_record =
    RecInfo device_info
  | RecNode node_entry
  | RecKey node_key
  | RecPaired u32 u32
  | RecQueueId u16
  | RecQueue queue_entry

text \<open>What the application hands to the console (\<open>MgmtResponse\<close>, \<open>Uplink\<close>, \<open>RadioStat\<close>).\<close>

datatype host_msg =
    MgmtResponse u16 u8 u16 bool bytes
  | Uplink u32 u32 int u8 bytes
  | StatChannel u8 int
  | StatTx u32 u16 u8 "int option"

text \<open>The libraries and build constants: the AES block function, the handshake's primitives, the
  postcard codecs of the registry buckets, of the reply records and of a request, the console schema tag, the
  firmware's name and version, the chip's own id.\<close>

record gw_lib =
  gl_enc :: "bytes \<Rightarrow> bytes \<Rightarrow> bytes"
  gl_crypto :: crypto
  gl_pc :: postcard
  gl_ser :: "mgmt_record \<Rightarrow> bytes"
  gl_req :: "bytes \<Rightarrow> (u16 \<times> mgmt_op) option"
  gl_tag :: u16
  gl_name :: bytes
  gl_version :: bytes
  gl_uid :: u32

section \<open>Replies\<close>

definition MGMT_CHUNK :: nat where "MGMT_CHUNK = 192"
definition UPLINK_MAX :: nat where "UPLINK_MAX = 74"
definition STREAM_BUF :: nat where "STREAM_BUF = 128"

definition mgmt_chunk :: "u16 \<Rightarrow> u8 \<Rightarrow> u16 \<Rightarrow> bool \<Rightarrow> bytes \<Rightarrow> host_msg" where
  "mgmt_chunk req_id result chunk is_last data = MgmtResponse req_id result chunk is_last (take MGMT_CHUNK data)"

definition host_uplink :: "received \<Rightarrow> host_msg" where
  "host_uplink rx = Uplink (rx_src rx) (rx_counter rx) (rx_rssi rx) (rx_lqi rx) (take UPLINK_MAX (rx_data rx))"

text \<open>\<open>postcard::to_slice\<close> into a buffer of \<open>cap\<close> bytes.\<close>

definition to_slice :: "gw_lib \<Rightarrow> mgmt_record \<Rightarrow> nat \<Rightarrow> bytes option" where
  "to_slice lib r cap = (if length (gl_ser lib r) \<le> cap then Some (gl_ser lib r) else None)"

definition respond_empty :: "u16 \<Rightarrow> u8 \<Rightarrow> host_msg list" where
  "respond_empty req_id result = [mgmt_chunk req_id result 0 True []]"

definition respond_record :: "gw_lib \<Rightarrow> u16 \<Rightarrow> mgmt_record \<Rightarrow> host_msg list" where
  "respond_record lib req_id r =
     (case to_slice lib r 96 of
        Some b \<Rightarrow> [mgmt_chunk req_id MGMT_OK 0 True b]
      | None \<Rightarrow> respond_empty req_id MGMT_STORAGE)"

record chunk_stream =
  cs_req :: u16
  cs_chunk :: u16
  cs_buf :: bytes

definition cs_new :: "u16 \<Rightarrow> chunk_stream" where
  "cs_new req_id = \<lparr>cs_req = req_id, cs_chunk = 0, cs_buf = []\<rparr>"

text \<open>The flush of a full buffer.\<close>

definition cs_flush :: "chunk_stream \<Rightarrow> host_msg list \<times> chunk_stream" where
  "cs_flush s =
     (if length (cs_buf s) = STREAM_BUF
      then ([mgmt_chunk (cs_req s) MGMT_OK (cs_chunk s) False (cs_buf s)], s\<lparr>cs_chunk := cs_chunk s + 1, cs_buf := []\<rparr>)
      else ([], s))"

text \<open>\<open>ChunkStream::push\<close>. The buffer never holds more than its size; beyond it the room left would
  underflow, and the loop is cut there.\<close>

function cs_push :: "bytes \<Rightarrow> chunk_stream \<Rightarrow> host_msg list \<times> chunk_stream" where
  "cs_push data s =
     (if data = [] \<or> STREAM_BUF < length (cs_buf s) then ([], s)
      else case cs_flush s of (out, s1) \<Rightarrow>
        let k = min (length data) (STREAM_BUF - length (cs_buf s1)) in
        case cs_push (drop k data) (s1\<lparr>cs_buf := cs_buf s1 @ take k data\<rparr>) of (out', s2) \<Rightarrow> (out @ out', s2))"
  by pat_completeness auto
termination
proof (relation "measure (\<lambda>(data, s). length data)", goal_cases)
  case (2 data s out s1)
  then have "length (cs_buf s1) < STREAM_BUF" by (auto simp: cs_flush_def STREAM_BUF_def split: if_splits)
  with 2 show ?case by auto
qed simp

declare cs_push.simps [simp del]

definition cs_finish :: "chunk_stream \<Rightarrow> host_msg list" where
  "cs_finish s = [mgmt_chunk (cs_req s) MGMT_OK (cs_chunk s) True (cs_buf s)]"

primrec cs_push_all :: "bytes list \<Rightarrow> chunk_stream \<Rightarrow> host_msg list \<times> chunk_stream" where
  "cs_push_all [] s = ([], s)"
| "cs_push_all (b # bs) s =
     (case cs_push b s of (out, s1) \<Rightarrow> (case cs_push_all bs s1 of (out', s2) \<Rightarrow> (out @ out', s2)))"

text \<open>A whole reply stream: every piece pushed, then finished.\<close>

definition cs_reply :: "u16 \<Rightarrow> bytes list \<Rightarrow> host_msg list" where
  "cs_reply req_id pieces = (case cs_push_all pieces (cs_new req_id) of (out, s) \<Rightarrow> out @ cs_finish s)"

section \<open>Link statistics\<close>

record link_stat =
  ls_addr :: u32
  ls_seen :: u32
  ls_rssi :: int
  ls_uplinks :: u16

type_synonym stats = "link_stat option list"

definition stats_new :: stats where
  "stats_new = replicate REG_CAPACITY None"

primrec stat_slot :: "u32 \<Rightarrow> stats \<Rightarrow> nat option" where
  "stat_slot a [] = None"
| "stat_slot a (s # ss) =
     (if (case s of Some x \<Rightarrow> ls_addr x = a | None \<Rightarrow> False) then Some 0 else map_option Suc (stat_slot a ss))"

definition stats_on_uplink :: "u32 \<Rightarrow> u32 \<Rightarrow> int \<Rightarrow> stats \<Rightarrow> stats" where
  "stats_on_uplink now a rssi st =
     (let rs = min (max rssi (- 128)) 127 in
      case stat_slot a st of
        Some i \<Rightarrow> st[i := map_option (\<lambda>x. x\<lparr>ls_seen := now, ls_rssi := rs, ls_uplinks := sat_add (ls_uplinks x) 1\<rparr>) (st ! i)]
      | None \<Rightarrow>
          (case first_none st of
             None \<Rightarrow> st
           | Some i \<Rightarrow> st[i := Some \<lparr>ls_addr = a, ls_seen = now, ls_rssi = rs, ls_uplinks = 1\<rparr>]))"

definition stats_get :: "u32 \<Rightarrow> stats \<Rightarrow> link_stat option" where
  "stats_get a st = (case stat_slot a st of None \<Rightarrow> None | Some i \<Rightarrow> st ! i)"

definition stats_remove :: "u32 \<Rightarrow> stats \<Rightarrow> stats" where
  "stats_remove a st = map (\<lambda>s. case s of Some x \<Rightarrow> if ls_addr x = a then None else s | None \<Rightarrow> None) st"

section \<open>The application's state\<close>

definition KEY_FORMAT :: u8 where "KEY_FORMAT = 0"
definition KEY_BUCKET_BASE :: u8 where "KEY_BUCKET_BASE = 0x10"
definition REG_FORMAT :: u8 where "REG_FORMAT = 1"
definition SET_STATS_PERIOD :: u8 where "SET_STATS_PERIOD = 0x10"
definition SET_BAND :: u8 where "SET_BAND = 0x11"
definition SET_CHANNEL :: u8 where "SET_CHANNEL = 0x12"
definition SET_KEYED_JOIN :: u8 where "SET_KEYED_JOIN = 0x13"
definition ADDR_KEY :: u8 where "ADDR_KEY = 0x01"

text \<open>\<open>EepromBuckets\<close>: the registry's buckets in the application's namespace of the shared store; not
  interpreted and not written while they are of another format.\<close>

definition eeprom_io :: "bool \<Rightarrow> nv bucket_io" where
  "eeprom_io writable =
     \<lparr>bio_load = (\<lambda>i len kv. if \<not> writable then Inr None
        else case scoped_get_bytes NS_APP (KEY_BUCKET_BASE + of_nat i) len kv of Inl _ \<Rightarrow> Inl () | Inr r \<Rightarrow> Inr r),
      bio_store = (\<lambda>i b kv. if \<not> writable then (False, kv)
        else case scoped_set_bytes NS_APP (KEY_BUCKET_BASE + of_nat i) b kv of (r, kv') \<Rightarrow> (r = Inr (), kv'))\<rparr>"

record pairing_session =
  pz_req :: u16
  pz_host :: pairing_host

text \<open>The counters \<open>gateway status\<close> shows.\<close>

record gw_counters =
  sc_id :: u32
  sc_nodes :: u32
  sc_uplinks :: u32
  sc_queued :: u32
  sc_hop_used :: u32
  sc_hop_max :: u32
  sc_hop_mean :: u32

record gateway =
  gw_net :: net
  gw_writable :: bool
  gw_queue :: queue
  gw_stats :: stats
  gw_pairing :: "pairing_session option"
  gw_period :: u32
  gw_addr :: u32
  gw_band :: band
  gw_channel :: u8
  gw_parked :: bool
  gw_park_until :: "u64 option"
  gw_last_policy :: u64
  gw_last_hop_stat :: u64
  gw_last_stat :: u64
  gw_counters :: gw_counters

abbreviation gw_kv :: "gateway \<Rightarrow> nv" where
  "gw_kv g \<equiv> nt_kv (gw_net g)"

definition gw_count :: "gw_lib \<Rightarrow> gateway \<Rightarrow> nat" where
  "gw_count lib g = reg_count (gl_pc lib) (eeprom_io (gw_writable g)) (gw_kv g)"

definition gw_find :: "gw_lib \<Rightarrow> u32 \<Rightarrow> gateway \<Rightarrow> node_record option" where
  "gw_find lib a g = reg_find (gl_pc lib) (eeprom_io (gw_writable g)) a (gw_kv g)"

text \<open>A registry call on the shared store.\<close>

definition gw_reg :: "gw_lib \<Rightarrow> reg_op \<Rightarrow> gateway \<Rightarrow> (reg_error + unit) \<times> gateway" where
  "gw_reg lib op g =
     (case reg_call (gl_pc lib) (eeprom_io (gw_writable g)) op (gw_kv g) of
        (r, kv) \<Rightarrow> (r, g\<lparr>gw_net := (gw_net g)\<lparr>nt_kv := kv\<rparr>\<rparr>))"

text \<open>A method of the network layer.\<close>

definition gw_do :: "(net \<Rightarrow> 'r \<times> net) \<Rightarrow> gateway \<Rightarrow> 'r \<times> gateway" where
  "gw_do f g = (case f (gw_net g) of (r, n) \<Rightarrow> (r, g\<lparr>gw_net := n\<rparr>))"

definition note_nodes :: "gw_lib \<Rightarrow> gateway \<Rightarrow> gateway" where
  "note_nodes lib g = g\<lparr>gw_counters := (gw_counters g)\<lparr>sc_nodes := of_nat (gw_count lib g)\<rparr>\<rparr>"

definition note_queued :: "gateway \<Rightarrow> gateway" where
  "note_queued g = g\<lparr>gw_counters := (gw_counters g)\<lparr>sc_queued := of_nat (q_len (gw_queue g))\<rparr>\<rparr>"

definition note_pending :: "u32 \<Rightarrow> gateway \<Rightarrow> gateway" where
  "note_pending a g = snd (gw_do (set_pending a (0 < q_count_for (gw_queue g) a)) g)"

section \<open>Uplinks and pairing\<close>

definition DOWNLINK_REPS :: u8 where "DOWNLINK_REPS = 2"
definition DEFAULT_TTL_S :: u16 where "DEFAULT_TTL_S = 3600"
definition PAIR_SLICE :: u64 where "PAIR_SLICE = 2000"
definition COMMIT_GRACE :: u64 where "COMMIT_GRACE = 15000"
definition POLICY_REFRESH :: u64 where "POLICY_REFRESH = 2000"
definition HOP_STAT_EVERY :: u64 where "HOP_STAT_EVERY = 10000"

text \<open>The surroundings of one uplink: the uptime in seconds, and what the radio does with a downlink
  in each access mode.\<close>

record uplink_env =
  ue_now_s :: u32
  ue_attempts :: "nat \<Rightarrow> attempt"
  ue_hop_now :: u64
  ue_hop_tx :: "radio_error option"
  ue_hop_heard :: "bytes list"

fun tx_outcome :: "send_result \<Rightarrow> u8" where
  "tx_outcome Delivered = TX_DELIVERED"
| "tx_outcome NotDelivered = TX_NOT_DELIVERED"
| "tx_outcome SBusy = TX_BUSY"
| "tx_outcome DutyLimited = TX_DUTY_LIMITED"
| "tx_outcome _ = TX_ERROR"

definition send_downlink :: "gw_lib \<Rightarrow> uplink_env \<Rightarrow> u32 \<Rightarrow> bytes \<Rightarrow> net \<Rightarrow> send_result \<times> bytes list \<times> net" where
  "send_downlink lib e dest data n =
     (if nt_access n = Fhss then fhss_send (gl_enc lib) dest data True (ue_hop_now e) (ue_hop_tx e) (ue_hop_heard e) n
      else net_send (gl_enc lib) dest data True DOWNLINK_REPS (ue_attempts e) n)"

definition on_uplink :: "gw_lib \<Rightarrow> uplink_env \<Rightarrow> u64 \<Rightarrow> received \<Rightarrow> gateway \<Rightarrow> host_msg list \<times> bytes list \<times> gateway" where
  "on_uplink lib e now_ms rx g =
     (let g1 = g\<lparr>gw_stats := stats_on_uplink (ue_now_s e) (rx_src rx) (rx_rssi rx) (gw_stats g),
                gw_counters := (gw_counters g)\<lparr>sc_uplinks := sc_uplinks (gw_counters g) + 1\<rparr>\<rparr>;
          (out, air, g2) =
            (case q_peek_for (rx_src rx) now_ms (gw_queue g1) of
               None \<Rightarrow> ([], [], g1)
             | Some it \<Rightarrow>
                 (case send_downlink lib e (rx_src rx) (it_data it) (gw_net g1) of (r, air, n) \<Rightarrow>
                    ([StatTx (rx_src rx) (it_id it) (tx_outcome r) (map_option am_rssi (nt_last_ack n))], air,
                     g1\<lparr>gw_net := n, gw_queue := (if r = Delivered then snd (q_pop (it_id it) (gw_queue g1)) else gw_queue g1)\<rparr>)))
      in (host_uplink rx # out, air, note_queued (note_pending (rx_src rx) g2)))"

definition commit_pairing :: "gw_lib \<Rightarrow> paired_peer \<Rightarrow> u16 \<Rightarrow> gateway \<Rightarrow> host_msg list \<times> gateway" where
  "commit_pairing lib peer req_id g =
     (case gw_reg lib (RegAddNew \<lparr>nr_addr = pp_addr peer, nr_key = pp_key peer, nr_flags = NODE_FLAG_UNNAMED, nr_name = []\<rparr>) g of
        (Inr _, g1) \<Rightarrow>
          (respond_record lib req_id (RecPaired (pp_addr peer) (pp_sas peer)),
           note_nodes lib (snd (gw_do (add_peer (gl_enc lib) (pp_addr peer) (pp_key peer)) g1)))
      | (Inl RegExists, g1) \<Rightarrow> (respond_empty req_id MGMT_BAD_ARG, g1)
      | (Inl RegFull, g1) \<Rightarrow> (respond_empty req_id MGMT_FULL, g1)
      | (Inl _, g1) \<Rightarrow> (respond_empty req_id MGMT_STORAGE, g1))"

section \<open>Management requests\<close>

text \<open>The surroundings of one request: the uptime in milliseconds and seconds, and the TRNG.\<close>

record mgmt_env =
  me_now_ms :: u64
  me_now_s :: u32
  me_trng :: "bytes option"

definition node_entry_of :: "mgmt_env \<Rightarrow> gateway \<Rightarrow> node_record \<Rightarrow> node_entry" where
  "node_entry_of e g r =
     (let st = stats_get (nr_addr r) (gw_stats g) in
      \<lparr>ne_addr = nr_addr r, ne_name = nr_name r, ne_flags = nr_flags r,
       ne_last_seen = (case st of None \<Rightarrow> LAST_SEEN_NEVER | Some x \<Rightarrow> sat_sub (me_now_s e) (ls_seen x)),
       ne_rssi = (case st of None \<Rightarrow> RSSI_NONE | Some x \<Rightarrow> ls_rssi x),
       ne_uplinks = (case st of None \<Rightarrow> 0 | Some x \<Rightarrow> ucast (ls_uplinks x)),
       ne_queued = of_nat (q_count_for (gw_queue g) (nr_addr r))\<rparr>)"

text \<open>One bucket's entries in the 256-byte staging buffer; an entry that does not fit is left out.\<close>

definition stage_bucket :: "gw_lib \<Rightarrow> mgmt_env \<Rightarrow> gateway \<Rightarrow> bucket \<Rightarrow> bytes" where
  "stage_bucket lib e g b =
     foldl (\<lambda>staged r. case to_slice lib (RecNode (node_entry_of e g r)) 64 of
         Some x \<Rightarrow> if length staged + length x \<le> 256 then staged @ x else staged
       | None \<Rightarrow> staged) [] b"

definition mgmt_describe :: "gw_lib \<Rightarrow> u16 \<Rightarrow> gateway \<Rightarrow> host_msg list" where
  "mgmt_describe lib req_id g =
     respond_record lib req_id (RecInfo
       \<lparr>di_role = RoleIsGateway, di_addr = gw_addr g, di_band = (case gw_band g of Eu868 \<Rightarrow> 0 | Us915 \<Rightarrow> 1),
        di_channel = gw_channel g, di_node_capacity = of_nat REG_CAPACITY, di_node_count = of_nat (gw_count lib g),
        di_provisioned = True, di_gw_addr = gw_addr g, di_firmware_name = gl_name lib, di_firmware_version = gl_version lib\<rparr>)"

definition mgmt_node_list :: "gw_lib \<Rightarrow> mgmt_env \<Rightarrow> u16 \<Rightarrow> gateway \<Rightarrow> host_msg list" where
  "mgmt_node_list lib e req_id g =
     cs_reply req_id (map (\<lambda>i. stage_bucket lib e g (reg_load (gl_pc lib) (eeprom_io (gw_writable g)) i (gw_kv g))) [0..<BUCKETS])"

definition mgmt_node_add ::
  "gw_lib \<Rightarrow> u16 \<Rightarrow> u32 \<Rightarrow> bytes \<Rightarrow> bytes \<Rightarrow> u8 \<Rightarrow> u32 \<Rightarrow> u32 \<Rightarrow> gateway \<Rightarrow> host_msg list \<times> gateway"
where
  "mgmt_node_add lib req_id a key name flags txf rxf g =
     (if \<not> peer_addr_valid a (gw_addr g) \<or> MAX_NODE_NAME < length name \<or> txf = - 1
      then (respond_empty req_id MGMT_BAD_ARG, g)
      else case gw_do (raise_tx_floor txf) g of
        (False, g1) \<Rightarrow> (respond_empty req_id MGMT_STORAGE, g1)
      | (True, g1) \<Rightarrow>
          (case gw_reg lib (RegAdd \<lparr>nr_addr = a, nr_key = key, nr_flags = flags, nr_name = name\<rparr>) g1 of
             (Inr _, g2) \<Rightarrow>
               let g3 = snd (gw_do (add_peer (gl_enc lib) a key) g2);
                   g4 = snd (gw_do (raise_peer_floor (gl_enc lib) a rxf) g3)
               in (respond_empty req_id MGMT_OK, note_nodes lib g4)
           | (Inl RegFull, g2) \<Rightarrow> (respond_empty req_id MGMT_FULL, g2)
           | (Inl _, g2) \<Rightarrow> (respond_empty req_id MGMT_STORAGE, g2)))"

definition mgmt_node_remove :: "gw_lib \<Rightarrow> u16 \<Rightarrow> u32 \<Rightarrow> gateway \<Rightarrow> host_msg list \<times> gateway" where
  "mgmt_node_remove lib req_id a g =
     (case gw_reg lib (RegRemove a) g of
        (Inr _, g1) \<Rightarrow>
          let g2 = snd (gw_do (remove_peer a) g1);
              g3 = g2\<lparr>gw_queue := snd (q_drop_node a (gw_queue g2)), gw_stats := stats_remove a (gw_stats g2)\<rparr>
          in (respond_empty req_id MGMT_OK, note_queued (note_nodes lib g3))
      | (Inl RegNotFound, g1) \<Rightarrow> (respond_empty req_id MGMT_NOT_FOUND, g1)
      | (Inl _, g1) \<Rightarrow> (respond_empty req_id MGMT_STORAGE, g1))"

definition mgmt_node_update :: "gw_lib \<Rightarrow> u16 \<Rightarrow> u32 \<Rightarrow> bytes option \<Rightarrow> u8 option \<Rightarrow> gateway \<Rightarrow> host_msg list \<times> gateway" where
  "mgmt_node_update lib req_id a name flags g =
     (if (case name of Some n \<Rightarrow> MAX_NODE_NAME < length n | None \<Rightarrow> False) then (respond_empty req_id MGMT_BAD_ARG, g)
      else case gw_reg lib (RegUpdate a name flags) g of
        (Inr _, g1) \<Rightarrow> (respond_empty req_id MGMT_OK, g1)
      | (Inl RegNotFound, g1) \<Rightarrow> (respond_empty req_id MGMT_NOT_FOUND, g1)
      | (Inl RegBadName, g1) \<Rightarrow> (respond_empty req_id MGMT_BAD_ARG, g1)
      | (Inl _, g1) \<Rightarrow> (respond_empty req_id MGMT_STORAGE, g1))"

definition mgmt_reveal_key :: "gw_lib \<Rightarrow> u16 \<Rightarrow> u32 \<Rightarrow> gateway \<Rightarrow> host_msg list" where
  "mgmt_reveal_key lib req_id a g =
     (case gw_find lib a g of
        Some r \<Rightarrow> respond_record lib req_id (RecKey \<lparr>nk_addr = a, nk_key = nr_key r, nk_tx_floor = tx_floor (nt_txc (gw_net g)),
            nk_rx_floor = (case peer_last_seen a (gw_net g) of None \<Rightarrow> 0 | Some x \<Rightarrow> x)\<rparr>)
      | None \<Rightarrow> respond_empty req_id MGMT_NOT_FOUND)"

definition mgmt_pairing_open :: "gw_lib \<Rightarrow> mgmt_env \<Rightarrow> u16 \<Rightarrow> u16 \<Rightarrow> gateway \<Rightarrow> host_msg list \<times> gateway" where
  "mgmt_pairing_open lib e req_id window g =
     (if gw_pairing g \<noteq> None then (respond_empty req_id MGMT_BUSY, g)
      else if window = 0 then (respond_empty req_id MGMT_BAD_ARG, g)
      else if REG_CAPACITY \<le> gw_count lib g then (respond_empty req_id MGMT_FULL, g)
      else case host_prepare (gl_crypto lib) (me_now_ms e) (ucast window * 1000) (me_trng e) of
        None \<Rightarrow> (respond_empty req_id MGMT_UNSUPPORTED, g)
      | Some h \<Rightarrow> ([], g\<lparr>gw_pairing := Some \<lparr>pz_req = req_id, pz_host = h\<rparr>\<rparr>))"

definition mgmt_pairing_cancel :: "u16 \<Rightarrow> gateway \<Rightarrow> host_msg list \<times> gateway" where
  "mgmt_pairing_cancel req_id g =
     ((case gw_pairing g of Some z \<Rightarrow> respond_empty (pz_req z) MGMT_TIMEOUT | None \<Rightarrow> []) @ respond_empty req_id MGMT_OK,
      g\<lparr>gw_pairing := None\<rparr>)"

definition mgmt_queue_push :: "gw_lib \<Rightarrow> mgmt_env \<Rightarrow> u16 \<Rightarrow> u32 \<Rightarrow> u16 \<Rightarrow> bytes \<Rightarrow> gateway \<Rightarrow> host_msg list \<times> gateway" where
  "mgmt_queue_push lib e req_id a ttl data g =
     (if gw_find lib a g = None then (respond_empty req_id MGMT_NOT_FOUND, g)
      else case q_push a (if ttl = 0 then DEFAULT_TTL_S else ttl) data (me_now_ms e) (gw_queue g) of
        (Inr i, q) \<Rightarrow> (respond_record lib req_id (RecQueueId i), note_queued (snd (gw_do (set_pending a True) (g\<lparr>gw_queue := q\<rparr>))))
      | (Inl BadPayload, q) \<Rightarrow> (respond_empty req_id MGMT_BAD_ARG, g\<lparr>gw_queue := q\<rparr>)
      | (Inl _, q) \<Rightarrow> (respond_empty req_id MGMT_FULL, g\<lparr>gw_queue := q\<rparr>))"

definition mgmt_queue_list :: "gw_lib \<Rightarrow> mgmt_env \<Rightarrow> u16 \<Rightarrow> u32 \<Rightarrow> gateway \<Rightarrow> host_msg list" where
  "mgmt_queue_list lib e req_id a g =
     cs_reply req_id (List.map_filter
       (\<lambda>it. if a \<noteq> 0 \<and> it_node it \<noteq> a then None
             else to_slice lib (RecQueue \<lparr>qe_node = it_node it, qe_item = it_id it, qe_age = it_age it (me_now_ms e),
                    qe_ttl = it_ttl it, qe_data = it_data it\<rparr>) 128) (q_items (gw_queue g)))"

definition mgmt_queue_drop :: "u16 \<Rightarrow> u32 \<Rightarrow> u16 option \<Rightarrow> gateway \<Rightarrow> host_msg list \<times> gateway" where
  "mgmt_queue_drop req_id a item g =
     (let (dropped, q) =
        (case item of
           Some i \<Rightarrow> if map_option it_node (find (\<lambda>it. it_id it = i) (q_items (gw_queue g))) = Some a
                     then (1, snd (q_pop i (gw_queue g))) else (0, gw_queue g)
         | None \<Rightarrow> q_drop_node a (gw_queue g));
          g1 = note_queued (note_pending a (g\<lparr>gw_queue := q\<rparr>))
      in (respond_empty req_id (if 0 < dropped then MGMT_OK else MGMT_NOT_FOUND), g1))"

fun is_join_op :: "mgmt_op \<Rightarrow> bool" where
  "is_join_op (NodeAdd _ _ _ _ _ _) = True"
| "is_join_op (PairingOpen _) = True"
| "is_join_op _ = False"

fun mgmt_serve :: "gw_lib \<Rightarrow> mgmt_env \<Rightarrow> u16 \<Rightarrow> mgmt_op \<Rightarrow> gateway \<Rightarrow> host_msg list \<times> gateway" where
  "mgmt_serve lib e req_id Describe g = (mgmt_describe lib req_id g, g)"
| "mgmt_serve lib e req_id NodeList g = (mgmt_node_list lib e req_id g, g)"
| "mgmt_serve lib e req_id (NodeAdd a key name flags txf rxf) g = mgmt_node_add lib req_id a key name flags txf rxf g"
| "mgmt_serve lib e req_id (NodeRemove a) g = mgmt_node_remove lib req_id a g"
| "mgmt_serve lib e req_id (NodeUpdate a name flags) g = mgmt_node_update lib req_id a name flags g"
| "mgmt_serve lib e req_id (NodeRevealKey a) g = (mgmt_reveal_key lib req_id a g, g)"
| "mgmt_serve lib e req_id (PairingOpen window) g = mgmt_pairing_open lib e req_id window g"
| "mgmt_serve lib e req_id PairingCancel g = mgmt_pairing_cancel req_id g"
| "mgmt_serve lib e req_id (QueuePush a ttl data) g = mgmt_queue_push lib e req_id a ttl data g"
| "mgmt_serve lib e req_id (QueueList a) g = (mgmt_queue_list lib e req_id a g, g)"
| "mgmt_serve lib e req_id (QueueDrop a item) g = mgmt_queue_drop req_id a item g"
| "mgmt_serve lib e req_id (StatsConfig ms) g = (respond_empty req_id MGMT_OK, g\<lparr>gw_period := ms\<rparr>)"
| "mgmt_serve lib e req_id (Provision p) g = (respond_empty req_id MGMT_UNSUPPORTED, g)"
| "mgmt_serve lib e req_id (JoinOpen window) g = (respond_empty req_id MGMT_UNSUPPORTED, g)"

definition handle_mgmt :: "gw_lib \<Rightarrow> mgmt_env \<Rightarrow> u16 \<Rightarrow> mgmt_op \<Rightarrow> gateway \<Rightarrow> host_msg list \<times> gateway" where
  "handle_mgmt lib e req_id op g =
     (if \<not> gw_writable g \<and> is_join_op op then (respond_empty req_id MGMT_STORAGE, g)
      else mgmt_serve lib e req_id op g)"

section \<open>Boot\<close>

definition read_u32_setting :: "u8 \<Rightarrow> u32 \<Rightarrow> nv \<Rightarrow> u32" where
  "read_u32_setting local dflt kv =
     (case scoped_get_bytes NS_SHELL local 4 kv of
        Inr (Some (len, b)) \<Rightarrow> if len = 4 then le_u32 (b ! 0) (b ! 1) (b ! 2) (b ! 3) else dflt
      | _ \<Rightarrow> dflt)"

definition read_bool_setting :: "u8 \<Rightarrow> bool \<Rightarrow> nv \<Rightarrow> bool" where
  "read_bool_setting local dflt kv =
     (case scoped_get_bytes NS_SHELL local 1 kv of
        Inr (Some (len, b)) \<Rightarrow> if len = 1 then b ! 0 \<noteq> 0 else dflt
      | _ \<Rightarrow> dflt)"

text \<open>The band setting, read into 8 bytes. The slice \<open>b[..n]\<close> up to the length of the stored value panics
  when that length is above 8: \<open>None\<close>.\<close>

definition read_band_setting :: "nv \<Rightarrow> band option" where
  "read_band_setting kv =
     (case scoped_get_bytes NS_SHELL SET_BAND 8 kv of
        Inr (Some (len, b)) \<Rightarrow>
          if 8 < len then None else if take len b = ascii ''us915'' then Some Us915 else Some Eu868
      | _ \<Rightarrow> Some Eu868)"

definition radio_addr :: "gw_lib \<Rightarrow> nv \<Rightarrow> u32" where
  "radio_addr lib kv =
     (case scoped_get_bytes NS_SHELL ADDR_KEY 4 kv of
        Inr (Some (len, b)) \<Rightarrow>
          let a = le_u32 (b ! 0) (b ! 1) (b ! 2) (b ! 3) in if len = 4 \<and> a \<noteq> 0 then a else gl_uid lib
      | _ \<Rightarrow> gl_uid lib)"

text \<open>The registry format guard: whether the buckets are another firmware's, and the store with the
  marker stamped.\<close>

definition format_guard :: "nv \<Rightarrow> bool \<times> nv" where
  "format_guard kv =
     (case scoped_get_bytes NS_APP KEY_FORMAT 1 kv of
        Inl _ \<Rightarrow> (False, kv)
      | Inr r \<Rightarrow>
          if map_option fst r = Some 1 then (snd (the r) ! 0 \<noteq> REG_FORMAT, kv)
          else (False, snd (scoped_set_bytes NS_APP KEY_FORMAT [REG_FORMAT] kv)))"

definition gateway_network_key :: "u32 \<Rightarrow> bytes" where
  "gateway_network_key addr = concat (map (\<lambda>i. u32_le (addr XOR word_rotl (i * 8) 0x9E3779B9)) [0..<4])"

definition boot_channel :: "nv \<Rightarrow> u8" where
  "boot_channel kv = (let c = read_u32_setting SET_CHANNEL 0 kv in if c \<le> ucast MAX_CHANNEL then ucast c else 0)"

text \<open>Every registered node into the peer table, a bucket at a time, with the count of records read.\<close>

definition install_nodes :: "gw_lib \<Rightarrow> node_record list \<Rightarrow> net \<Rightarrow> net" where
  "install_nodes lib rs n = foldl (\<lambda>n r. snd (add_peer (gl_enc lib) (nr_addr r) (nr_key r) n)) n rs"

primrec install_buckets :: "gw_lib \<Rightarrow> nat list \<Rightarrow> net \<Rightarrow> nat \<times> net" where
  "install_buckets lib [] n = (0, n)"
| "install_buckets lib (i # is) n =
     (let b = reg_load (gl_pc lib) (eeprom_io True) i (nt_kv n);
          (c, n') = install_buckets lib is (install_nodes lib b n)
      in (length b + c, n'))"

text \<open>The network layer as boot leaves it, and the number of registered nodes.\<close>

definition boot_net :: "gw_lib \<Rightarrow> bool \<Rightarrow> u32 \<Rightarrow> band \<Rightarrow> nv \<Rightarrow> nat \<times> net" where
  "boot_net lib foreign addr band kv =
     (let n = net_new \<lparr>nc_addr = addr, nc_key = gateway_network_key addr, nc_band = band,
                nc_keys_stored = (foreign \<or> 0 < reg_count (gl_pc lib) (eeprom_io (\<not> foreign)) kv)\<rparr> kv;
          n1 = set_default_lane False n;
          n2 = set_keyed_join (read_bool_setting SET_KEYED_JOIN True (nt_kv n1)) n1
      in if foreign then (0, n2) else install_buckets lib [0..<BUCKETS] n2)"

text \<open>The surroundings of a boot: whether the radio came up, the crystal's time when hopping starts (which
  never fails), and the uptime at the start of the loop.\<close>

record boot_env =
  be_radio_ok :: bool
  be_lse :: u64
  be_now :: u64

text \<open>A boot that fails leaves the store behind: the panic resets the device, a dead radio parks it.\<close>

datatype boot_failure = BootPanic | BootRadio

definition gw_boot :: "gw_lib \<Rightarrow> boot_env \<Rightarrow> nv \<Rightarrow> boot_failure \<times> nv + gateway" where
  "gw_boot lib e kv0 =
     (let addr = radio_addr lib kv0; (foreign, kv) = format_guard kv0 in
      case read_band_setting kv of
        None \<Rightarrow> Inl (BootPanic, kv)
      | Some band \<Rightarrow>
          if \<not> be_radio_ok e then Inl (BootRadio, kv)
          else let (nodes, n) = boot_net lib foreign addr band kv in
            Inr \<lparr>gw_net = (if band = Us915 then enable_fhss FhssMaster \<lparr>fc_seed = 0, fc_network_key = None\<rparr> (be_lse e) n else n),
                 gw_writable = (\<not> foreign), gw_queue = queue_new, gw_stats = stats_new, gw_pairing = None,
                 gw_period = read_u32_setting SET_STATS_PERIOD 500 kv, gw_addr = addr, gw_band = band, gw_channel = boot_channel kv,
                 gw_parked = False, gw_park_until = None,
                 gw_last_policy = be_now e, gw_last_hop_stat = be_now e, gw_last_stat = be_now e,
                 gw_counters = \<lparr>sc_id = addr, sc_nodes = of_nat nodes, sc_uplinks = 0, sc_queued = 0,
                   sc_hop_used = - 1, sc_hop_max = 0, sc_hop_mean = 0\<rparr>\<rparr>)"

section \<open>The loop\<close>

text \<open>What one turn of the loop sees: each reading of the clock, the requests waiting on the console with
  their surroundings, what the radio delivers, the idle RSSI latched.\<close>

record turn_env =
  te_policy :: u64
  te_frames :: "(bytes \<times> mgmt_env) list"
  te_now_ms :: u64
  te_tuned :: bool
  te_window_now :: u64
  te_slice_now :: u64
  te_turns :: "host_turn list"
  te_commit_now :: u64
  te_grace_now :: u64
  te_recv :: "reception option"
  te_tick :: "u64 \<times> u64"
  te_uplink :: uplink_env
  te_hop_now :: u64
  te_stat_now :: u64
  te_idle :: "int option"

definition turn_policy :: "turn_env \<Rightarrow> gateway \<Rightarrow> gateway" where
  "turn_policy e g =
     (if POLICY_REFRESH \<le> sat_sub (te_policy e) (gw_last_policy g)
      then g\<lparr>gw_last_policy := te_policy e, gw_net := set_keyed_join (read_bool_setting SET_KEYED_JOIN True (gw_kv g)) (gw_net g)\<rparr>
      else g)"

text \<open>At most two requests a turn; a frame that does not decode is skipped.\<close>

definition request_of :: "gw_lib \<Rightarrow> bytes \<Rightarrow> (u16 \<times> mgmt_op) option" where
  "request_of lib frame =
     (case decode_frame_with_tag (gl_tag lib) frame of
        Inr (MtMgmtRequest, _, payload) \<Rightarrow> gl_req lib payload
      | _ \<Rightarrow> None)"

primrec turn_requests :: "gw_lib \<Rightarrow> (bytes \<times> mgmt_env) list \<Rightarrow> gateway \<Rightarrow> host_msg list \<times> gateway" where
  "turn_requests lib [] g = ([], g)"
| "turn_requests lib (f # fs) g =
     (case request_of lib (fst f) of
        None \<Rightarrow> turn_requests lib fs g
      | Some (req_id, op) \<Rightarrow>
          (case handle_mgmt lib (snd f) req_id op g of (out, g1) \<Rightarrow>
             (case turn_requests lib fs g1 of (out', g2) \<Rightarrow> (out @ out', g2))))"

definition hopping :: "gateway \<Rightarrow> bool" where
  "hopping g \<longleftrightarrow> gw_band g = Us915"

text \<open>The pairing branch: a slice of the window, its early end, or its expiry.\<close>

definition turn_park :: "turn_env \<Rightarrow> gateway \<Rightarrow> gateway" where
  "turn_park e g =
     (if hopping g \<and> \<not> gw_parked g
      then g\<lparr>gw_net := fhss_suspend (te_tuned e) Us915 (gw_net g), gw_parked := True, gw_park_until := None\<rparr> else g)"

definition turn_pairing :: "gw_lib \<Rightarrow> turn_env \<Rightarrow> pairing_session \<Rightarrow> gateway \<Rightarrow> host_msg list \<times> bytes list \<times> gateway" where
  "turn_pairing lib e z g0 =
     (let g = turn_park e g0 in
      if REG_CAPACITY \<le> gw_count lib g then (respond_empty (pz_req z) MGMT_FULL, [], g\<lparr>gw_pairing := None\<rparr>)
      else if ph_window_end (pz_host z) \<le> te_window_now e
      then (respond_empty (pz_req z) MGMT_TIMEOUT, [], g\<lparr>gw_pairing := None\<rparr>)
      else case open_pairing (gl_crypto lib) (gl_enc lib) (te_slice_now e) PAIR_SLICE (te_turns e) (pz_host z) (gw_net g) of
        (joined, air, h, n) \<Rightarrow>
          let g1 = g\<lparr>gw_net := n, gw_pairing := Some (z\<lparr>pz_host := h\<rparr>)\<rparr> in
          (case joined of
             None \<Rightarrow> ([], air, g1)
           | Some peer \<Rightarrow>
               (case commit_pairing lib peer (pz_req z) (g1\<lparr>gw_pairing := None\<rparr>) of (out, g2) \<Rightarrow>
                  (out, air, if hopping g2 then g2\<lparr>gw_park_until := Some (te_commit_now e + COMMIT_GRACE)\<rparr> else g2))))"

text \<open>A receive slice and a hop slot: an uplink, if there is one, is served.\<close>

definition serve_uplink ::
  "gw_lib \<Rightarrow> turn_env \<Rightarrow> received option \<times> bytes list \<times> net \<Rightarrow> gateway \<Rightarrow> host_msg list \<times> bytes list \<times> gateway"
where
  "serve_uplink lib e heard g =
     (case heard of (m, air, n) \<Rightarrow>
        (case m of
           None \<Rightarrow> ([], air, g\<lparr>gw_net := n\<rparr>)
         | Some rx \<Rightarrow> (case on_uplink lib (te_uplink e) (te_now_ms e) rx (g\<lparr>gw_net := n\<rparr>) of (out, air', g1) \<Rightarrow> (out, air @ air', g1))))"

definition recv_slice :: "gw_lib \<Rightarrow> turn_env \<Rightarrow> gateway \<Rightarrow> received option \<times> bytes list \<times> net" where
  "recv_slice lib e g = (case te_recv e of None \<Rightarrow> (None, [], gw_net g) | Some r \<Rightarrow> net_recv (gl_enc lib) r (gw_net g))"

definition hop_slot :: "gw_lib \<Rightarrow> turn_env \<Rightarrow> gateway \<Rightarrow> received option \<times> bytes list \<times> net" where
  "hop_slot lib e g =
     (case fhss_master_tick (gl_enc lib) (fst (te_tick e)) (snd (te_tick e)) (te_recv e) (gw_net g) of
        (slot, air, n) \<Rightarrow> (Option.bind slot mz_received, air, n))"

definition turn_unpark :: "gateway \<Rightarrow> gateway" where
  "turn_unpark g =
     (if gw_parked g then g\<lparr>gw_net := fhss_resume (gw_net g), gw_parked := False, gw_park_until := None\<rparr> else g)"

definition turn_radio :: "gw_lib \<Rightarrow> turn_env \<Rightarrow> gateway \<Rightarrow> host_msg list \<times> bytes list \<times> gateway" where
  "turn_radio lib e g =
     (case gw_pairing g of
        Some z \<Rightarrow> turn_pairing lib e z g
      | None \<Rightarrow>
          if hopping g \<and> gw_parked g \<and> (case gw_park_until g of Some t \<Rightarrow> te_grace_now e < t | None \<Rightarrow> False)
          then serve_uplink lib e (recv_slice lib e g) g
          else if hopping g then (let g1 = turn_unpark g in serve_uplink lib e (hop_slot lib e g1) g1)
          else serve_uplink lib e (recv_slice lib e g) g)"

text \<open>The hopping evidence of \<open>gateway status\<close>: channels used, largest and mean airtime.\<close>

definition turn_hop_stat :: "turn_env \<Rightarrow> gateway \<Rightarrow> gateway" where
  "turn_hop_stat e g =
     (if hopping g \<and> HOP_STAT_EVERY \<le> sat_sub (te_hop_now e) (gw_last_hop_stat g)
      then let ms = map (\<lambda>ch. fhss_channel_airtime_ms (of_nat ch) (gw_net g)) [0..<FHSS_N] in
        g\<lparr>gw_last_hop_stat := te_hop_now e,
          gw_counters := (gw_counters g)\<lparr>sc_hop_used := of_nat (length (filter (\<lambda>m. 0 < m) ms)),
            sc_hop_max := foldl max 0 ms, sc_hop_mean := sum_list ms div of_nat FHSS_N\<rparr>\<rparr>
      else g)"

text \<open>Expired downlinks are reported and the pending flags follow.\<close>

definition turn_expire :: "turn_env \<Rightarrow> gateway \<Rightarrow> host_msg list \<times> gateway" where
  "turn_expire e g =
     (case q_expire (te_now_ms e) (gw_queue g) of (expired, q) \<Rightarrow>
        let g1 = foldl (\<lambda>g x. note_pending (snd x) g) (g\<lparr>gw_queue := q\<rparr>) expired in
        (map (\<lambda>x. StatTx (snd x) (fst x) TX_EXPIRED None) expired, if expired = [] then g1 else note_queued g1))"

definition turn_stat :: "turn_env \<Rightarrow> gateway \<Rightarrow> host_msg list \<times> gateway" where
  "turn_stat e g =
     (if 0 < gw_period g \<and> ucast (gw_period g) \<le> sat_sub (te_stat_now e) (gw_last_stat g)
      then (case te_idle e of
          None \<Rightarrow> ([], g)
        | Some rssi \<Rightarrow>
            ([StatChannel (if hopping g then fh_cur_channel (nt_fhss (gw_net g)) else gw_channel g) rssi],
             g\<lparr>gw_last_stat := te_stat_now e\<rparr>))
      else ([], g))"

definition gw_turn :: "gw_lib \<Rightarrow> turn_env \<Rightarrow> gateway \<Rightarrow> host_msg list \<times> bytes list \<times> gateway" where
  "gw_turn lib e g0 =
     (let g = turn_policy e g0;
          (out1, g1) = turn_requests lib (take 2 (te_frames e)) g;
          (out2, air, g2) = turn_radio lib e g1;
          g3 = snd (gw_do take_keyed_join g2);
          g4 = turn_hop_stat e g3;
          (out3, g5) = turn_expire e g4;
          (out4, g6) = turn_stat e g5
      in (out1 @ out2 @ out3 @ out4, air, g6))"

end
