(* ===== verification/Gw_Mirror.thy ===== *)
theory Gw_Mirror
  imports Gw_App Fw_Life
begin

text \<open>
  The gateway's registry on the shared store: the application's namespace is a bucket store in the sense of
  \<open>Gw_Registry\<close>, and the network layer's methods, which write the same store under their own namespace,
  leave it alone. \<open>aside n n'\<close> collects what every such method keeps.
\<close>

section \<open>The application's namespace\<close>

lemma scoped_set_post:
  assumes "nv_ok s" and "scoped_set_bytes ns l v s = (r, s')"
  shows "nv_ok s'" and "fw_abs (nv_kv s') (ns_key ns' l') =
     (if r = Inr () \<and> ns' = ns \<and> l' = l then (if v = [] then None else Some v) else fw_abs (nv_kv s) (ns_key ns' l'))"
proof -
  obtain k' where k': "fw_set_bytes (ns_key ns l) v (nv_kv s) = (r, k')" "nv_kv s' = k'"
    using assms(2) by (auto simp: scoped_set_bytes_def nv_set_bytes_def split: prod.splits)
  from fw_set_bytes_any [OF assms(1) k'(1)] k'(2)
  show "nv_ok s'" "fw_abs (nv_kv s') (ns_key ns' l') =
     (if r = Inr () \<and> ns' = ns \<and> l' = l then (if v = [] then None else Some v) else fw_abs (nv_kv s) (ns_key ns' l'))"
    by (auto simp: kv_put_def ns_key_inject)
qed

lemma scoped_get_abs:
  "nv_ok s \<Longrightarrow> scoped_get_bytes ns l n s = Inr (map_option (\<lambda>v. (length v, take n v)) (fw_abs (nv_kv s) (ns_key ns l)))"
  by (simp add: scoped_get_bytes_def nv_get_bytes_def fw_get_bytes_abs)

abbreviation app_abs :: "nv \<Rightarrow> u8 \<Rightarrow> bytes option" where
  "app_abs s l \<equiv> fw_abs (nv_kv s) (ns_key NS_APP l)"

lemma eeprom_load:
  "nv_ok s \<Longrightarrow> bio_load (eeprom_io w) i m s =
     Inr (if w then map_option (\<lambda>v. (length v, take m v)) (app_abs s (KEY_BUCKET_BASE + of_nat i)) else None)"
  by (simp add: eeprom_io_def scoped_get_abs)

lemma bucket_key_inject: "i < BUCKETS \<Longrightarrow> j < BUCKETS \<Longrightarrow> (of_nat i :: u8) = of_nat j \<longleftrightarrow> i = j"
  by (auto simp: BUCKETS_def numeral_3_eq_3 less_Suc_eq)

lemma bucket_key_format: "i < BUCKETS \<Longrightarrow> KEY_BUCKET_BASE + of_nat i \<noteq> KEY_FORMAT"
  by (auto simp: BUCKETS_def numeral_3_eq_3 less_Suc_eq KEY_BUCKET_BASE_def KEY_FORMAT_def)

lemma eeprom_store:
  assumes "nv_ok s" and "bio_store (eeprom_io w) i x s = (ok, s')"
  shows "nv_ok s'"
    and "fw_abs (nv_kv s') (ns_key ns l) =
      (if ok \<and> ns = NS_APP \<and> l = KEY_BUCKET_BASE + of_nat i then (if x = [] then None else Some x) else fw_abs (nv_kv s) (ns_key ns l))"
    and "ok \<Longrightarrow> w"
proof -
  consider (off) "\<not> w" "s' = s" "\<not> ok"
    | (on) r where w "scoped_set_bytes NS_APP (KEY_BUCKET_BASE + of_nat i) x s = (r, s')" "ok = (r = Inr ())"
    using assms(2) by (auto simp: eeprom_io_def split: if_splits prod.splits)
  then have "nv_ok s' \<and> fw_abs (nv_kv s') (ns_key ns l) =
      (if ok \<and> ns = NS_APP \<and> l = KEY_BUCKET_BASE + of_nat i then (if x = [] then None else Some x) else fw_abs (nv_kv s) (ns_key ns l)) \<and>
      (ok \<longrightarrow> w)"
  proof cases
    case off
    then show ?thesis using assms(1) by simp
  next
    case on
    from scoped_set_post [OF assms(1) on(2)] on(1,3) show ?thesis by auto
  qed
  then show "nv_ok s'" "ok \<Longrightarrow> w"
    "fw_abs (nv_kv s') (ns_key ns l) =
      (if ok \<and> ns = NS_APP \<and> l = KEY_BUCKET_BASE + of_nat i then (if x = [] then None else Some x) else fw_abs (nv_kv s) (ns_key ns l))"
    by blast+
qed

interpretation eb: bucket_store "eeprom_io w" "\<lambda>s. nv_ok s" for w
proof
  show "bio_load (eeprom_io w) i MAX_BUCKET_BYTES s' = Inr (Some (length x, x))"
    if "nv_ok s" "i < BUCKETS" "x \<noteq> []" "length x \<le> MAX_BUCKET_BYTES" "bio_store (eeprom_io w) i x s = (True, s')" for s i x s'
    using eeprom_store [OF that(1,5)] that(3,4) by (simp add: eeprom_load)
  show "bio_load (eeprom_io w) j MAX_BUCKET_BYTES s' = bio_load (eeprom_io w) j MAX_BUCKET_BYTES s"
    if "nv_ok s" "i < BUCKETS" "bio_store (eeprom_io w) i x s = (ok, s')" "j < BUCKETS" "j \<noteq> i \<or> \<not> ok" for s i x ok s' j
    using eeprom_store(1,2) [OF that(1,3)] that by (auto simp: eeprom_load bucket_key_inject)
qed (fact eeprom_store(1))

text \<open>The registry depends on the namespace's records only.\<close>

definition same_in :: "u8 set \<Rightarrow> nv \<Rightarrow> nv \<Rightarrow> bool" where
  "same_in S s s' \<longleftrightarrow> nv_ok s' \<and> (\<forall>ns l. ns \<in> S \<longrightarrow> ns \<noteq> NS_NET \<longrightarrow> fw_abs (nv_kv s') (ns_key ns l) = fw_abs (nv_kv s) (ns_key ns l))"

abbreviation same_app :: "nv \<Rightarrow> nv \<Rightarrow> bool" where
  "same_app \<equiv> same_in {NS_APP}"

lemma same_app_def: "same_app s s' \<longleftrightarrow> nv_ok s' \<and> (\<forall>l. app_abs s' l = app_abs s l)"
  by (simp add: same_in_def NS_APP_def NS_NET_def)

lemma same_app_refl [simp]: "nv_ok s \<Longrightarrow> same_in S s s"
  by (simp add: same_in_def)

lemma same_app_trans: "same_in S s s1 \<Longrightarrow> same_in S s1 s2 \<Longrightarrow> same_in S s s2"
  by (simp add: same_in_def)

lemma same_app_reg:
  assumes "nv_ok s" and "same_app s s'"
  shows "reg_load pc (eeprom_io w) i s' = reg_load pc (eeprom_io w) i s" and "reg_abs pc (eeprom_io w) s' = reg_abs pc (eeprom_io w) s"
    and "reg_inv pc (eeprom_io w) s' = reg_inv pc (eeprom_io w) s" and "reg_count pc (eeprom_io w) s' = reg_count pc (eeprom_io w) s"
proof -
  have c: "reg_load_checked pc (eeprom_io w) i s' = reg_load_checked pc (eeprom_io w) i s" for i
    using assms by (simp add: reg_load_checked_def eeprom_load same_app_def)
  then have l: "reg_load pc (eeprom_io w) i s' = reg_load pc (eeprom_io w) i s" for i by (simp add: reg_load_def)
  then show "reg_load pc (eeprom_io w) i s' = reg_load pc (eeprom_io w) i s" .
  from l have b: "reg_buckets pc (eeprom_io w) s' = reg_buckets pc (eeprom_io w) s" by (simp add: reg_buckets_def)
  show "reg_abs pc (eeprom_io w) s' = reg_abs pc (eeprom_io w) s" "reg_count pc (eeprom_io w) s' = reg_count pc (eeprom_io w) s"
    "reg_inv pc (eeprom_io w) s' = reg_inv pc (eeprom_io w) s"
    using b c by (simp_all add: reg_abs_fun reg_nodes_def reg_count_nodes reg_inv_def)
qed

lemma net_set_same_app: "nv_ok s \<Longrightarrow> same_in S s (snd (net_set l v s))"
proof -
  assume ok: "nv_ok s"
  obtain r s' where s: "scoped_set_bytes NS_NET l v s = (r, s')" by fastforce
  with scoped_set_post [OF ok s] show ?thesis by (simp add: net_set_def same_in_def)
qed

text \<open>A registry call is another user of the store to the network layer, and never touches the format
  marker.\<close>

lemma reg_call_store:
  assumes "nv_ok s" and "reg_call pc (eeprom_io w) op s = (r, s')"
  shows "wm_others s s'" and "app_abs s' KEY_FORMAT = app_abs s KEY_FORMAT"
proof -
  have ns: "NS_NET \<noteq> NS_APP" by (simp add: NS_APP_def NS_NET_def)
  from reg_call_writes [OF assms(2)] have "wm_others s s' \<and> app_abs s' KEY_FORMAT = app_abs s KEY_FORMAT"
  proof (elim disjE exE conjE)
    fix i x assume i: "i < BUCKETS" and s': "s' = snd (bio_store (eeprom_io w) i x s)"
    then obtain ok where "bio_store (eeprom_io w) i x s = (ok, s')" by (metis prod.collapse)
    from eeprom_store [OF assms(1) this] ns bucket_key_format [OF i] show ?thesis by (auto simp: wm_others_def)
  qed (use assms(1) in \<open>simp add: wm_others_def\<close>)
  then show "wm_others s s'" "app_abs s' KEY_FORMAT = app_abs s KEY_FORMAT" by simp_all
qed

section \<open>What the network layer keeps\<close>

text \<open>The addresses, keys and pending flags of the peer table, slot by slot.\<close>

definition peer_ids :: "net \<Rightarrow> (u32 \<times> bytes \<times> bool) option list" where
  "peer_ids n = map (map_option (\<lambda>p. (pe_addr p, pe_key p, pe_pending p))) (nt_peers n)"

definition aside_in :: "u8 set \<Rightarrow> net \<Rightarrow> net \<Rightarrow> bool" where
  "aside_in S n n' \<longleftrightarrow> nt_addr n' = nt_addr n \<and> nt_default_lane_enabled n' = nt_default_lane_enabled n \<and> peer_ids n' = peer_ids n \<and>
     (nv_ok (nt_kv n) \<longrightarrow> same_in S (nt_kv n) (nt_kv n'))"

abbreviation aside :: "net \<Rightarrow> net \<Rightarrow> bool" where
  "aside \<equiv> aside_in {NS_APP}"

lemmas aside_def = aside_in_def [of "{NS_APP}"]

named_theorems aside_rules "methods that leave the registry and the peer identities alone"

lemma aside_refl [simp, aside_rules]: "aside_in S n n"
  by (simp add: aside_in_def)

lemma aside_trans: "aside_in S n n1 \<Longrightarrow> aside_in S n1 n2 \<Longrightarrow> aside_in S n n2"
  by (auto simp: aside_in_def same_in_def)

lemma aside_fields:
  "nt_addr n' = nt_addr n \<Longrightarrow> nt_default_lane_enabled n' = nt_default_lane_enabled n \<Longrightarrow> nt_peers n' = nt_peers n \<Longrightarrow>
     nt_kv n' = nt_kv n \<or> (\<exists>l v. nt_kv n' = snd (net_set l v (nt_kv n))) \<Longrightarrow> aside_in S n n'"
  using net_set_same_app by (auto simp: aside_in_def peer_ids_def)

lemma aside_peer:
  assumes "nt_peers n ! i = Some p" and "pe_addr p' = pe_addr p" and "pe_key p' = pe_key p" and "pe_pending p' = pe_pending p"
    and "nt_peers n' = (nt_peers n)[i := Some p']" and "nt_addr n' = nt_addr n" and "nt_default_lane_enabled n' = nt_default_lane_enabled n"
    and "nt_kv n' = nt_kv n \<or> (\<exists>l v. nt_kv n' = snd (net_set l v (nt_kv n)))"
  shows "aside_in S n n'"
proof -
  have "peer_ids n' = peer_ids n"
    using assms(1-5) by (cases "i < length (nt_peers n)") (simp_all add: peer_ids_def map_update list_update_same_conv list_update_beyond)
  with assms(6-8) net_set_same_app show ?thesis by (auto simp: aside_in_def)
qed

lemma aside_small [aside_rules]:
  "aside_in S n (n\<lparr>nt_duty := g\<rparr>)" "aside_in S n (n\<lparr>nt_last_ack := m\<rparr>)" "aside_in S n (n\<lparr>nt_txc := t\<rparr>)" "aside_in S n (n\<lparr>nt_rng := x\<rparr>)"
  "aside_in S n (n\<lparr>nt_keyed_log := lg\<rparr>)" "aside_in S n (n\<lparr>nt_replay_log := lg\<rparr>)" "aside_in S n (n\<lparr>nt_pair_log := lg\<rparr>)"
  "aside_in S n (n\<lparr>nt_keyed_join := j\<rparr>)" "aside_in S n (n\<lparr>nt_access := ac\<rparr>)" "aside_in S n (set_fhss f n)" "aside_in S n (set_keyed_join b n)"
  "aside_in S n (fhss_suspend tuned bnd n)" "aside_in S n (fhss_resume n)" "aside_in S n (snd (take_keyed_join n))"
  by (auto simp: set_fhss_def set_keyed_join_def fhss_suspend_def fhss_resume_def set_band_def take_keyed_join_def intro!: aside_fields)

lemma aside_alloc: "alloc_counter n = (r, n') \<Longrightarrow> aside_in S n n'"
  by (auto simp: alloc_counter_def split: prod.splits option.splits intro!: aside_fields) (metis snd_conv)+

lemma aside_raise: "aside_in S n (snd (raise_tx_floor f n))"
  by (auto simp: raise_tx_floor_def Let_def persist_watermark_def split: prod.splits intro!: aside_fields) (metis snd_conv)+

lemma slot_peer: "peer_slot a n = Some i \<Longrightarrow> \<exists>p. nt_peers n ! i = Some p"
  using slot_of_Some by (fastforce simp: peer_slot_def)

lemma aside_peer_floor [aside_rules]: "aside_in S n (snd (raise_peer_floor enc a seen n))"
proof (cases "peer_slot a n")
  case (Some i)
  then obtain p where p: "nt_peers n ! i = Some p" using slot_peer by blast
  obtain moved l where l: "lane_raise (pe_lane p) seen = (moved, l)" by fastforce
  show ?thesis by (rule aside_peer [OF p, of "p\<lparr>pe_lane := l\<rparr>"]) (auto simp: raise_peer_floor_def Some p set_peer_def l Let_def)
qed (simp add: raise_peer_floor_def)

lemma aside_accept [aside_rules]: "aside_in S n (lane_accept enc src c n)"
proof (cases "peer_slot src n")
  case (Some i)
  then obtain p where p: "nt_peers n ! i = Some p" using slot_peer by blast
  obtain due l where l: "accept_every (pe_lane p) c (nt_lane_persist n) = (due, l)" by fastforce
  show ?thesis by (rule aside_peer [OF p, of "p\<lparr>pe_lane := l\<rparr>"]) (auto simp: lane_accept_def Some p set_peer_def l Let_def)
next
  case None
  then show ?thesis by (auto simp: lane_accept_def Let_def split: prod.splits intro!: aside_fields) blast
qed

lemma aside_reack: "lane_reack src n = (b, n') \<Longrightarrow> aside_in S n n'"
proof -
  assume run: "lane_reack src n = (b, n')"
  show ?thesis
  proof (cases "peer_slot src n")
    case (Some i)
    then obtain p where p: "nt_peers n ! i = Some p" using slot_peer by blast
    obtain b' l where l: "reack (pe_lane p) = (b', l)" by fastforce
    show ?thesis using run by (intro aside_peer [OF p, of "p\<lparr>pe_lane := l\<rparr>"]) (auto simp: lane_reack_def Some p set_peer_def l)
  next
    case None
    then show ?thesis using run by (auto simp: lane_reack_def split: prod.splits intro!: aside_fields)
  qed
qed

lemma aside_await_ack: "await_ack enc dest c heard n = (b, n') \<Longrightarrow> aside_in S n n'"
  by (auto simp: await_ack_def aside_rules split: option.splits)

lemma aside_attempts:
  "send_attempts enc dest c conf frame i as res n = (r, air, n') \<Longrightarrow> aside_in S n n'"
proof (induction as arbitrary: i res n r air n')
  case (Cons a as)
  define n0 where "n0 = (if 0 < i then snd (backoff_ms n) else n)"
  have a0: "aside_in S n n0" by (auto simp: n0_def backoff_ms_def rand_u32_def Let_def aside_rules)
  obtain granted g where t: "try_tx (nt_duty n0) (at_elapsed a) (frame_toa_ms (of_nat (length frame))) = (granted, g)" by fastforce
  have a1: "aside_in S n (n0\<lparr>nt_duty := g\<rparr>)" using aside_trans [OF a0 aside_small(1)] .
  have step: "aside_in S n n3" if "send_attempts enc dest c conf frame (Suc i) as q n2 = (r', air', n3)" "aside_in S n n2" for q n2 r' air' n3
    using aside_trans [OF that(2) Cons.IH [OF that(1)]] .
  have ack: "aside_in S n n2" if "await_ack enc dest c h (n0\<lparr>nt_duty := g\<rparr>) = (b, n2)" for h b n2
    using aside_trans [OF a1 aside_await_ack [OF that]] .
  show ?case
    using Cons.prems a1 step ack unfolding send_attempts.simps Let_def n0_def [symmetric] t
    by (auto split: if_splits option.splits radio_error.splits prod.splits bool.splits)
qed simp

lemma aside_send: "net_send enc dest data conf reps env n = (r, air, n') \<Longrightarrow> aside_in S n n'"
proof -
  assume run: "net_send enc dest data conf reps env n = (r, air, n')"
  let ?n = "n\<lparr>nt_last_ack := None\<rparr>"
  have "aside_in S ?n n'"
    using run by (auto simp: net_send_def Let_def split: if_splits prod.splits option.splits sum.splits dest!: aside_alloc aside_attempts intro: aside_trans)
  then show ?thesis using aside_trans [OF aside_small(2)] by blast
qed

lemma aside_fhss_send: "fhss_send enc dest data conf now tx heard n = (r, air, n') \<Longrightarrow> aside_in S n n'"
proof -
  assume run: "fhss_send enc dest data conf now tx heard n = (r, air, n')"
  obtain ac n1 where a: "alloc_counter n = (ac, n1)" by fastforce
  have a1: "aside_in S n n1" using aside_alloc [OF a] .
  have a2: "aside_in S n (set_fhss f n1)" for f using aside_trans [OF a1 aside_small(10)] .
  have a3: "aside_in S n n3" if "await_ack enc dest c heard (set_fhss f n1) = (b, n3)" for f b n3 c
    using aside_trans [OF a2 aside_await_ack [OF that]] .
  show ?thesis
    using run a a1 a2 a3 by (auto simp: fhss_send_def Let_def split: if_splits prod.splits option.splits sum.splits bool.splits)
qed

lemma aside_send_ack: "send_ack enc e d c rs n = (air, n') \<Longrightarrow> aside_in S n n'"
proof -
  assume run: "send_ack enc e d c rs n = (air, n')"
  have step: "aside_in S n n2" if "alloc_counter (n\<lparr>nt_duty := g\<rparr>) = (ac, n2)" for g ac n2
    using aside_trans [OF aside_small(1) aside_alloc [OF that]] .
  show ?thesis
    using run by (auto simp: send_ack_def Let_def aside_rules split: if_splits option.splits prod.splits sum.splits access.splits dest!: step)
qed

lemma aside_keyed: "keyed_answer enc e rx n = (k, n') \<Longrightarrow> aside_in S n n'"
proof -
  assume run: "keyed_answer enc e rx n = (k, n')"
  then show ?thesis
  proof (cases rule: keyed_answer_cases)
    case (admitted peek l hdr payload granted g ac n3)
    have a1: "aside_in S n ((lane_accept enc (h_src hdr) (h_counter hdr) n)\<lparr>nt_duty := g\<rparr>)"
      using aside_trans [OF aside_accept aside_small(1)] .
    have a2: "aside_in S n n3" using aside_trans [OF a1 aside_alloc [OF admitted(5)]] .
    show ?thesis using admitted(6) a1 a2 by (auto split: if_splits option.splits sum.splits)
  qed simp
qed

lemma aside_recv: "net_recv enc r n = (m, air, n') \<Longrightarrow> aside_in S n n'"
proof -
  assume run: "net_recv enc r n = (m, air, n')"
  obtain k n1 where k: "keyed_answer enc (rc_elapsed r) (rc_buf r) n = (k, n1)" by fastforce
  note K = aside_keyed [OF k]
  have upd: "aside_in S n (n1\<lparr>nt_keyed_log := lg\<rparr>)" "aside_in S n (n1\<lparr>nt_keyed_join := j\<rparr>)" for lg j
    by (rule aside_trans [OF K aside_small(5)], rule aside_trans [OF K aside_small(8)])
  have acc: "aside_in S n n2" if "send_ack enc e d c rs (lane_accept enc s x n) = (a, n2)" for e d c rs s x a n2
    using aside_trans [OF aside_accept aside_send_ack [OF that]] .
  have rea: "aside_in S n n2" if "lane_reack s n = (b, n1')" "send_ack enc e d c rs n1' = (a, n2)" for s b n1' e d c rs a n2
    using aside_trans [OF aside_reack [OF that(1)] aside_send_ack [OF that(2)]] .
  show ?thesis
  proof (cases "\<exists>peek l. header_parse (rc_buf r) = Inr (peek, l) \<and> h_type peek = FtJoinReq \<and> h_flags peek AND KEYED \<noteq> 0 \<and> h_dest peek = 0")
    case True
    then show ?thesis using run k upd
      by (cases k) (auto simp: net_recv_def prepare_keyed_answer_def split: if_splits)
  next
    case False
    then show ?thesis using run acc rea
      by (auto simp: net_recv_def Let_def aside_rules split: sum.splits if_splits replay_verdict.splits prod.splits bool.splits intro: aside_reack)
  qed
qed

lemma aside_tick: "fhss_master_tick enc now now' heard n = (m, air, n') \<Longrightarrow> aside_in S n n'"
proof -
  assume run: "fhss_master_tick enc now now' heard n = (m, air, n')"
  have beacon: "aside_in S x x'" if "fhss_tx_beacon enc slot ch x = (a, x')" for slot ch x a x'
    using that by (auto simp: fhss_tx_beacon_def Let_def split: if_splits option.splits sum.splits prod.splits
        dest!: aside_alloc intro: aside_trans aside_small)
  have b1: "aside_in S n x'" if "fhss_tx_beacon enc slot ch (set_fhss f n) = (a, x')" for slot ch f a x'
    using aside_trans [OF aside_small(10) beacon [OF that]] .
  have b2: "aside_in S n x2" if "fhss_tx_beacon enc slot ch (set_fhss f n) = (a, x')" "net_recv enc rr x' = (m', a', x2)" for slot ch f a x' rr m' a' x2
    using aside_trans [OF b1 [OF that(1)] aside_recv [OF that(2)]] .
  show ?thesis
    using run b1 b2 by (auto simp: fhss_master_tick_def Let_def split: if_splits option.splits prod.splits)
qed

lemma aside_tx_pair: "tx_pair enc e ok key h p n = (b, air, n') \<Longrightarrow> aside_in S n n'"
  by (auto simp: tx_pair_def aside_rules split: sum.splits prod.splits if_splits)

lemma aside_host_reveal: "host_reveal C enc t eph e_node n_node peer n = (r, air, n') \<Longrightarrow> aside_in S n n'"
  by (auto simp: host_reveal_def split: option.splits prod.splits bool.splits if_splits dest!: aside_alloc aside_tx_pair intro: aside_trans)

lemma aside_host_answer: "host_answer C enc t eph e_node peer n = (r, air, n') \<Longrightarrow> aside_in S n n'"
  by (auto simp: host_answer_def split: option.splits prod.splits bool.splits dest!: aside_alloc aside_tx_pair aside_host_reveal intro: aside_trans)

lemma aside_open_loop: "open_pairing_loop C enc deadline ts h n = (r, air, h', n') \<Longrightarrow> aside_in S n n'"
proof (induction ts arbitrary: h n r air h' n')
  case (Cons t ts)
  have skip: "aside_in S n n2" if "open_pairing_loop C enc deadline ts h1 (n\<lparr>nt_pair_log := lg\<rparr>) = (r1, a1, h2, n2)" for h1 lg r1 a1 h2 n2
    using aside_trans [OF aside_small(7) Cons.IH [OF that]] .
  have next_turn: "aside_in S n n2" if "host_answer C enc t eph e p n = (q, a, n1)" "open_pairing_loop C enc deadline ts h1 n1 = (r1, a1, h2, n2)"
    for eph e p q a n1 h1 r1 a1 h2 n2
    using aside_trans [OF aside_host_answer [OF that(1)] Cons.IH [OF that(2)]] .
  show ?case
    using Cons.prems Cons.IH skip next_turn
    by (auto split: if_splits option.splits prod.splits bool.splits pair_step.splits dest: aside_host_answer)
qed simp

lemma aside_open_pairing: "open_pairing C enc now span ts h n = (r, air, h', n') \<Longrightarrow> aside_in S n n'"
  by (auto simp: open_pairing_def aside_open_loop split: option.splits if_splits)

lemma aside_enable: "aside_in S n (enable_fhss role cfg now n)"
  by (auto simp: enable_fhss_def Let_def split: fhss_role.splits intro!: aside_fields) blast+

section \<open>The peer table as a map\<close>

definition table :: "net \<Rightarrow> u32 \<Rightarrow> (bytes \<times> bool) option" where
  "table n a = map_option (\<lambda>p. (pe_key p, pe_pending p)) (peer_at a n)"

lemma table_ids: "table n a = map_of (List.map_filter id (peer_ids n)) a"
proof -
  have "(case slot_of a ps of None \<Rightarrow> None | Some i \<Rightarrow> map_option (\<lambda>p. (pe_key p, pe_pending p)) (ps ! i)) =
      map_of (List.map_filter id (map (map_option (\<lambda>p. (pe_addr p, pe_key p, pe_pending p))) ps)) a" for ps
    by (induction ps) (auto simp: List.map_filter_def split: option.splits)
  then show ?thesis by (simp add: table_def peer_at_def peer_slot_def peer_ids_def option.case_distrib [of "map_option _"] cong: option.case_cong)
qed

lemma table_aside: "aside_in S n n' \<Longrightarrow> table n' = table n"
  by (auto simp: table_ids aside_in_def)

lemma table_dom: "a \<in> dom (table n) \<longleftrightarrow> peer_slot a n \<noteq> None"
  using slot_peer [of a n] by (auto simp: table_def peer_at_def split: option.splits)

lemma table_finite: "finite (dom (table n))"
proof -
  have "table n = map_of (List.map_filter id (peer_ids n))" by (rule ext) (rule table_ids)
  then show ?thesis by (simp add: finite_dom_map_of)
qed

text \<open>A slot rewritten: the peer there is new, or the one with the address.\<close>

lemma slot_of_put:
  assumes "i < length ps" and "(slot_of (pe_addr p) ps = None \<and> ps ! i = None) \<or> slot_of (pe_addr p) ps = Some i"
  shows "slot_of a (ps[i := Some p]) = (if a = pe_addr p then Some i else slot_of a ps)"
  using assms
proof (induction ps arbitrary: i)
  case (Cons x xs)
  then show ?case by (cases i) (auto split: option.splits if_splits)
qed simp

lemma table_put:
  assumes "i < length (nt_peers n)"
    and "(peer_slot (pe_addr p) n = None \<and> nt_peers n ! i = None) \<or> peer_slot (pe_addr p) n = Some i"
    and "nt_peers n' = (nt_peers n)[i := Some p]"
  shows "table n' = (table n)(pe_addr p \<mapsto> (pe_key p, pe_pending p))"
proof
  fix a
  have sl: "peer_slot a n' = (if a = pe_addr p then Some i else peer_slot a n)"
    using slot_of_put [OF assms(1)] assms(2,3) by (simp add: peer_slot_def)
  have "j \<noteq> i" if "peer_slot a n = Some j" "a \<noteq> pe_addr p" for j
    using that assms(2) slot_of_Some [of a "nt_peers n" j] slot_of_Some [of "pe_addr p" "nt_peers n" i] by (auto simp: peer_slot_def)
  then show "table n' a = ((table n)(pe_addr p \<mapsto> (pe_key p, pe_pending p))) a"
    using sl assms(1,3) by (auto simp: table_def peer_at_def split: option.splits)
qed

lemma slot_of_clear:
  assumes "peers_ok addr ps" and "slot_of b ps = Some i"
  shows "slot_of a (ps[i := None]) = (if a = b then None else slot_of a ps)"
proof -
  note D = peers_okD [OF assms(1)]
  from slot_of_Some [OF assms(2)] obtain p where i: "i < length ps" "ps ! i = Some p" "pe_addr p = b" by blast
  show ?thesis
  proof (cases "a = b")
    case True
    have "slot_of b (ps[i := None]) = None"
    proof (rule ccontr)
      assume "slot_of b (ps[i := None]) \<noteq> None"
      then obtain j where "slot_of b (ps[i := None]) = Some j" by blast
      from slot_of_Some [OF this] obtain q where "j < length ps" "ps[i := None] ! j = Some q" "pe_addr q = b" by auto
      then show False using D(3) [of j i q p] i by (cases "j = i") auto
    qed
    with True show ?thesis by simp
  next
    case False
    have "slot_of a (xs[i := None]) = slot_of a xs" if "i < length xs" "xs ! i = Some p" for xs i
      using that i(3) False by (induction xs arbitrary: i) (auto split: nat.splits simp: nth_Cons')
    with i False show ?thesis by simp
  qed
qed

lemma table_remove:
  assumes "node_ok n"
  shows "table (snd (remove_peer b n)) = (table n)(b := None)"
proof (cases "peer_slot b n")
  case None
  then have "table n b = None" by (simp add: table_def peer_at_def)
  with None show ?thesis by (auto simp: remove_peer_def)
next
  case (Some i)
  let ?n = "snd (remove_peer b n)"
  have n': "nt_peers ?n = (nt_peers n)[i := None]" using Some by (simp add: remove_peer_def set_peer_def)
  have sl: "peer_slot a ?n = (if a = b then None else peer_slot a n)" for a
    using slot_of_clear [of "nt_addr n" "nt_peers n" b i a] Some assms n' by (simp add: node_ok_def peer_slot_def)
  show ?thesis
  proof
    fix a
    have "j \<noteq> i" if "peer_slot a n = Some j" "a \<noteq> b" for j
      using that Some slot_of_Some [of a "nt_peers n" j] slot_of_Some [of b "nt_peers n" i] by (auto simp: peer_slot_def)
    then show "table ?n a = ((table n)(b := None)) a" using sl [of a] n' by (auto simp: table_def peer_at_def split: option.splits)
  qed
qed

lemma table_pending: "table (snd (set_pending a b n)) = (\<lambda>x. if x = a then map_option (\<lambda>k. (fst k, b)) (table n a) else table n x)"
proof (cases "peer_slot a n")
  case None
  then have "table n a = None" by (simp add: table_def peer_at_def)
  with None show ?thesis by (auto simp: set_pending_def)
next
  case (Some i)
  then obtain p where p: "i < length (nt_peers n)" "nt_peers n ! i = Some p" "pe_addr p = a"
    using slot_of_Some by (fastforce simp: peer_slot_def)
  have "table (snd (set_pending a b n)) = (table n)(a \<mapsto> (pe_key p, b))"
    using table_put [of i n "p\<lparr>pe_pending := b\<rparr>"] Some p by (simp add: set_pending_def set_peer_def)
  with Some p show ?thesis by (auto simp: table_def peer_at_def)
qed

section \<open>Installing a peer\<close>

text \<open>A table with a free slot has a free lane record.\<close>

lemma free_lane:
  assumes "node_ok n" and "first_none (nt_peers n) = Some i"
  shows "assign_lane a kcv (net_records (nt_kv n)) (used_locals n) \<noteq> None"
proof
  assume none: "assign_lane a kcv (net_records (nt_kv n)) (used_locals n) = None"
  let ?ps = "nt_peers n" and ?S = "{j. j < MAX_PEERS \<and> j \<noteq> i}"
  have len: "length ?ps = MAX_PEERS" using assms(1) peers_okD(1) by (auto simp: node_ok_def)
  have i: "i < MAX_PEERS" "?ps ! i = None" using first_none_Some [OF assms(2)] len by simp_all
  have "\<forall>l < MAX_PEERS. \<not> lane_free (used_locals n) l"
    using assign_lane_ok [where addr = a and kcv = kcv and records = "net_records (nt_kv n)" and used = "used_locals n"] none
    by (simp add: net_records_def)
  then have used: "bit (used_locals n) l" if "l < MAX_PEERS" for l using that by (simp add: lane_free_bit)
  have "{..<MAX_PEERS} \<subseteq> (\<lambda>j. lane_ix (the (?ps ! j))) ` ?S"
  proof
    fix l assume "l \<in> {..<MAX_PEERS}"
    then have "l < MAX_PEERS" "l < 32" by (simp_all add: MAX_PEERS_def)
    with used used_locals_bit [of l n] obtain j p where "j < length ?ps" "?ps ! j = Some p" "lane_ix p = l" by blast
    with i(2) len show "l \<in> (\<lambda>j. lane_ix (the (?ps ! j))) ` ?S" by force
  qed
  from card_mono [OF _ this] card_image_le [of ?S "\<lambda>j. lane_ix (the (?ps ! j))"] have "MAX_PEERS \<le> card ?S" by simp
  moreover have "?S = {..<MAX_PEERS} - {i}" by auto
  ultimately show False using i(1) by simp
qed

lemma full_table:
  assumes "node_ok n" and "first_none (nt_peers n) = None"
  shows "MAX_PEERS \<le> card (dom (table n))"
proof -
  let ?ps = "nt_peers n" and ?f = "\<lambda>j. pe_addr (the (nt_peers n ! j))"
  have po: "peers_ok (nt_addr n) ?ps" using assms(1) by (simp add: node_ok_def)
  note D = peers_okD [OF po]
  have "None \<notin> set ps" if "first_none ps = None" for ps :: "peer option list"
    using that by (induction ps) (auto split: if_splits)
  then have some: "\<exists>p. ?ps ! j = Some p" if "j < MAX_PEERS" for j
    using assms(2) that D(1) by (metis not_None_eq nth_mem)
  have "inj_on ?f {..<MAX_PEERS}"
  proof (rule inj_onI)
    fix j k assume jk: "j \<in> {..<MAX_PEERS}" "k \<in> {..<MAX_PEERS}" "?f j = ?f k"
    then obtain p q where "?ps ! j = Some p" "?ps ! k = Some q" using some by blast
    with D(1) D(3) [of j k p q] jk show "j = k" by auto
  qed
  moreover have "?f ` {..<MAX_PEERS} \<subseteq> dom (table n)"
  proof
    fix a assume "a \<in> ?f ` {..<MAX_PEERS}"
    then obtain j where j: "j < MAX_PEERS" "a = ?f j" by auto
    with some obtain p where "?ps ! j = Some p" by blast
    with j slot_of_None [of a ?ps j p] D(1) show "a \<in> dom (table n)" by (auto simp: table_dom peer_slot_def)
  qed
  ultimately show ?thesis using card_mono [OF table_finite, of "?f ` {..<MAX_PEERS}" n] by (simp add: card_image)
qed

lemma aside_put:
  assumes "nt_addr n' = nt_addr n" and "nt_default_lane_enabled n' = nt_default_lane_enabled n" and "nv_ok (nt_kv n)"
    and "nt_kv n' = nt_kv n \<or> (\<exists>l v. nt_kv n' = snd (net_set l v (nt_kv n)))"
  shows "nt_addr n' = nt_addr n \<and> nt_default_lane_enabled n' = nt_default_lane_enabled n \<and> same_in S (nt_kv n) (nt_kv n')"
  using assms net_set_same_app by auto

lemma add_peer_table:
  assumes ok: "node_ok n" and valid: "peer_addr_valid a (nt_addr n)" and D: "insert a (dom (table n)) \<subseteq> D" "finite D" "card D \<le> MAX_PEERS"
  shows "fst (add_peer enc a key n)"
    and "table (snd (add_peer enc a key n)) = (table n)(a \<mapsto> (key, case table n a of None \<Rightarrow> False | Some k \<Rightarrow> snd k))"
    and "nt_addr (snd (add_peer enc a key n)) = nt_addr n \<and>
      nt_default_lane_enabled (snd (add_peer enc a key n)) = nt_default_lane_enabled n \<and>
      same_in S (nt_kv n) (nt_kv (snd (add_peer enc a key n)))"
proof -
  have nv: "nv_ok (nt_kv n)" using ok by (simp add: node_ok_def)
  obtain b n' where run: "add_peer enc a key n = (b, n')" by fastforce
  have "b \<and> table n' = (table n)(a \<mapsto> (key, case table n a of None \<Rightarrow> False | Some k \<Rightarrow> snd k)) \<and>
      nt_addr n' = nt_addr n \<and> nt_default_lane_enabled n' = nt_default_lane_enabled n \<and> same_in S (nt_kv n) (nt_kv n')"
  proof (cases "peer_slot a n")
    case (Some i)
    then obtain p where p: "i < length (nt_peers n)" "nt_peers n ! i = Some p" "pe_addr p = a"
      using slot_of_Some by (fastforce simp: peer_slot_def)
    have t: "table n a = Some (pe_key p, pe_pending p)" using Some p by (simp add: table_def peer_at_def)
    show ?thesis
    proof (cases "pe_key p = key")
      case True
      then have "n' = n" b using run valid Some p by (simp_all add: add_peer_def Let_def)
      with t True nv show ?thesis by auto
    next
      case False
      let ?p = "p\<lparr>pe_key := key, pe_lane := lane_new 0\<rparr>"
      have n': "n' = n\<lparr>nt_peers := (nt_peers n)[i := Some ?p], nt_kv := snd (net_set (pe_lane_local p) (lane_record a 0 (key_check enc key)) (nt_kv n))\<rparr>" b
        using run valid Some p False by (auto simp: add_peer_def Let_def set_peer_def split: prod.splits)
      have "table n' = (table n)(a \<mapsto> (key, pe_pending p))" using table_put [of i n ?p n'] Some p n'(1) by simp
      with aside_put [of n' n] n' nv t show ?thesis by auto
    qed
  next
    case new: None
    then have t: "table n a = None" by (simp add: table_def peer_at_def)
    have "first_none (nt_peers n) \<noteq> None"
    proof
      assume "first_none (nt_peers n) = None"
      with full_table [OF ok] have "MAX_PEERS \<le> card (dom (table n))" by simp
      moreover have "card (insert a (dom (table n))) \<le> card D" using D card_mono by blast
      moreover have "a \<notin> dom (table n)" using t by auto
      ultimately show False using D(3) table_finite [of n] by simp
    qed
    then obtain i where i: "first_none (nt_peers n) = Some i" by blast
    from free_lane [OF ok i] obtain bd where bd: "assign_lane a (key_check enc key) (net_records (nt_kv n)) (used_locals n) = Some bd" by blast
    define l where "l = KEY_LASTSEEN_BASE + of_nat (lb_index bd)"
    define p where "p = \<lparr>pe_addr = a, pe_key = key, pe_lane = lane_new (lb_seen bd), pe_lane_local = l, pe_pending = False\<rparr>"
    obtain okw kv' where kv': "(if lb_fresh bd then net_set l (lane_record a (lb_seen bd) (key_check enc key)) (nt_kv n) else (True, nt_kv n)) = (okw, kv')"
      by fastforce
    have n': "n' = n\<lparr>nt_kv := kv', nt_peers := (nt_peers n)[i := Some p]\<rparr>" b
      using run valid new i bd kv' by (simp_all add: add_peer_def Let_def l_def [symmetric] p_def set_peer_def)
    have "table n' = (table n)(a \<mapsto> (key, False))"
      using table_put [of i n p n'] first_none_Some [OF i] new n'(1) by (simp add: p_def)
    moreover have "kv' = nt_kv n \<or> (\<exists>l v. kv' = snd (net_set l v (nt_kv n)))" using kv' by (auto split: if_splits) (metis snd_conv)
    ultimately show ?thesis using aside_put [of n' n] n' nv t by auto
  qed
  then show "fst (add_peer enc a key n)"
    "table (snd (add_peer enc a key n)) = (table n)(a \<mapsto> (key, case table n a of None \<Rightarrow> False | Some k \<Rightarrow> snd k))"
    "nt_addr (snd (add_peer enc a key n)) = nt_addr n \<and> nt_default_lane_enabled (snd (add_peer enc a key n)) = nt_default_lane_enabled n \<and>
      same_in S (nt_kv n) (nt_kv (snd (add_peer enc a key n)))"
    using run by simp_all
qed

end
