(* ===== verification/Gw_Life.thy ===== *)
theory Gw_Life
  imports Gw_Mirror Fw_Pairing_Props
begin

text \<open>
  The gateway over its life. The peer table of the network layer mirrors the registry in the store: a node
  is served exactly while it is registered, under its registered key, and its pending flag tells whether
  downlinks are queued for it. Every handler keeps that, power losses and boots included.
\<close>

section \<open>The queue's counts\<close>

definition ids_ok :: "queue \<Rightarrow> bool" where
  "ids_ok q \<longleftrightarrow> length (q_slots q) = QUEUE_CAP \<and> q_next_id q \<noteq> 0 \<and> distinct (map it_id (q_items q))"

lemma ids_ok_new: "ids_ok queue_new" "q_items queue_new = []"
  by (simp_all add: ids_ok_def queue_new_def q_items_def)

lemma count_pos: "0 < q_count_for q a \<longleftrightarrow> a \<in> it_node ` set (q_items q)"
  by (auto simp: q_count_for_def filter_empty_conv)

lemma ids_ok_filter:
  assumes "ids_ok q" and "q_items q' = filter P (q_items q)" and "length (q_slots q') = length (q_slots q)" and "q_next_id q' = q_next_id q"
  shows "ids_ok q'"
  using assms distinct_map_filter [of it_id "q_items q" P] by (simp add: ids_ok_def)

lemma pop_items:
  assumes "ids_ok q"
  shows "q_items (snd (q_pop i q)) = filter (\<lambda>it. it_id it \<noteq> i) (q_items q)" and "ids_ok (snd (q_pop i q))"
proof -
  obtain r ss where ss: "pop_slots i (q_slots q) = (r, ss)" by fastforce
  from pop_slots_items [OF ss] assms have P: "q_items (snd (q_pop i q)) = filter (\<lambda>it. it_id it \<noteq> i) (q_items q)" "length ss = length (q_slots q)"
    by (simp_all add: ids_ok_def q_items_def q_pop_def ss)
  then show "q_items (snd (q_pop i q)) = filter (\<lambda>it. it_id it \<noteq> i) (q_items q)" "ids_ok (snd (q_pop i q))"
    using ids_ok_filter [OF assms P(1)] by (simp_all add: q_pop_def ss)
qed

lemma clear_items:
  assumes "ids_ok q" and "q' = q\<lparr>q_slots := clear_where P (q_slots q)\<rparr>"
  shows "q_items q' = filter (\<lambda>it. \<not> P it) (q_items q)" and "ids_ok q'"
proof -
  show i: "q_items q' = filter (\<lambda>it. \<not> P it) (q_items q)" using items_clear [of P "q_slots q"] assms(2) by (simp add: q_items_def)
  show "ids_ok q'" using ids_ok_filter [OF assms(1) i] assms(2) by (simp add: clear_where_def)
qed

lemma push_items:
  assumes "ids_ok q" and "q_push node ttl data t q = (Inr i, q')"
  shows "ids_ok q'" and "a \<in> it_node ` set (q_items q') \<longleftrightarrow> a = node \<or> a \<in> it_node ` set (q_items q)"
proof -
  from q_push_step [OF _ _ assms(2)] assms(1) obtain it where P: "mset (q_items q') = add_mset it (mset (q_items q))" "it_id it = i"
    "i \<notin> it_id ` set (q_items q)" "it_node it = node" "length (q_slots q') = QUEUE_CAP" "q_next_id q' \<noteq> 0"
    unfolding ids_ok_def by metis
  have m: "mset (q_items q') = mset (it # q_items q)" using P(1) by simp
  then have "set (q_items q') = insert it (set (q_items q))" by (metis list.simps(15) set_mset_mset)
  then show "a \<in> it_node ` set (q_items q') \<longleftrightarrow> a = node \<or> a \<in> it_node ` set (q_items q)" using P(4) by auto
  have "distinct (map it_id (it # q_items q))" using assms(1) P(2,3) by (simp add: ids_ok_def)
  then have "distinct (map it_id (q_items q'))" using m by (metis mset_eq_imp_distinct_iff mset_map)
  with P(5,6) show "ids_ok q'" by (simp add: ids_ok_def)
qed

lemma push_refused: "q_push node ttl data t q = (Inl e, q') \<Longrightarrow> q' = q"
  by (auto simp: q_push_def Let_def split: if_splits option.splits)

text \<open>Taking the item with an id leaves the other nodes' items.\<close>

lemma pop_others:
  assumes "ids_ok q" and "it \<in> set (q_items q)" and "a \<noteq> it_node it"
  shows "a \<in> it_node ` set (q_items (snd (q_pop (it_id it) q))) \<longleftrightarrow> a \<in> it_node ` set (q_items q)"
proof -
  have "x = it" if "x \<in> set (q_items q)" "it_id x = it_id it" for x
    using that assms(1,2) by (auto simp: ids_ok_def distinct_map inj_on_def)
  then show ?thesis using assms(3) by (auto simp: pop_items(1) [OF assms(1)])
qed

lemma peek_item: "q_peek_for a t q = Some it \<Longrightarrow> it \<in> set (q_items q) \<and> it_node it = a"
proof -
  assume p: "q_peek_for a t q = Some it"
  let ?f = "\<lambda>b it. case b of None \<Rightarrow> Some it | Some c \<Rightarrow> if it_order it < it_order c then Some it else b"
  have "foldl ?f b its = Some it \<Longrightarrow> b = Some it \<or> it \<in> set its" for b its
  proof (induction its arbitrary: b)
    case (Cons x xs)
    have "?f b x = b \<or> ?f b x = Some x" by (auto split: option.splits)
    with Cons.IH [of "?f b x"] Cons.prems show ?case by auto
  qed simp
  from this [of None "filter (\<lambda>it. it_node it = a \<and> \<not> it_expired it t) (q_items q)"] p
  show ?thesis by (auto simp: q_peek_for_def min_order_def)
qed

section \<open>The invariant\<close>

definition alive :: "net \<Rightarrow> bool" where
  "alive n \<longleftrightarrow> (\<exists>sent. node_inv 0 n sent)"

lemma alive_ok: "alive n \<Longrightarrow> node_ok n" "alive n \<Longrightarrow> nv_ok (nt_kv n)"
  by (auto simp: alive_def node_inv_def node_ok_def)

lemma emits_alive: "emits 0 n air n' \<Longrightarrow> alive n \<Longrightarrow> alive n'"
  by (auto simp: emits_def alive_def)

lemma quiet_alive: "quiet n n' \<Longrightarrow> alive n \<Longrightarrow> alive n'"
  using emits_alive [OF emits_quiet] by blast

definition format_foreign :: "nv \<Rightarrow> bool" where
  "format_foreign kv = fst (format_guard kv)"

text \<open>The peer at an address is the registered node with its key; its pending flag tells whether items are
  queued for it; a node with queued items is registered.\<close>

definition mirrored :: "gw_lib \<Rightarrow> gateway \<Rightarrow> u32 \<Rightarrow> bool" where
  "mirrored lib g a \<longleftrightarrow> map_option fst (table (gw_net g) a) =
     (if peer_addr_valid a (gw_addr g) then map_option nr_key (gw_find lib a g) else None)"

definition flagged :: "gateway \<Rightarrow> u32 \<Rightarrow> bool" where
  "flagged g a \<longleftrightarrow> (\<forall>k f. table (gw_net g) a = Some (k, f) \<longrightarrow> f = (a \<in> it_node ` set (q_items (gw_queue g))))"

definition expected :: "gw_lib \<Rightarrow> gateway \<Rightarrow> u32 \<Rightarrow> bool" where
  "expected lib g a \<longleftrightarrow> (a \<in> it_node ` set (q_items (gw_queue g)) \<longrightarrow> gw_find lib a g \<noteq> None)"

text \<open>The invariant inside a handler: the flags of \<open>X\<close> and the rest of \<open>Y\<close> may be out of date.\<close>

definition gw_core :: "gw_lib \<Rightarrow> u32 set \<Rightarrow> u32 set \<Rightarrow> gateway \<Rightarrow> bool" where
  "gw_core lib X Y g \<longleftrightarrow>
     alive (gw_net g) \<and> nt_addr (gw_net g) = gw_addr g \<and> \<not> nt_default_lane_enabled (gw_net g) \<and>
     reg_inv (gl_pc lib) (eeprom_io (gw_writable g)) (gw_kv g) \<and> format_foreign (gw_kv g) = (\<not> gw_writable g) \<and>
     ids_ok (gw_queue g) \<and> (\<forall>a. a \<notin> X \<longrightarrow> flagged g a) \<and> (\<forall>a. a \<notin> Y \<longrightarrow> mirrored lib g a \<and> expected lib g a)"

text \<open>The counters \<open>gateway status\<close> shows are the registry's and the queue's.\<close>

definition counted :: "gw_lib \<Rightarrow> gateway \<Rightarrow> bool" where
  "counted lib g \<longleftrightarrow> sc_nodes (gw_counters g) = of_nat (gw_count lib g) \<and> sc_queued (gw_counters g) = of_nat (q_len (gw_queue g))"

definition gw_inv :: "gw_lib \<Rightarrow> gateway \<Rightarrow> bool" where
  "gw_inv lib g \<longleftrightarrow> gw_core lib {} {} g \<and> counted lib g"

lemma gw_coreD:
  assumes "gw_core lib X Y g"
  shows "alive (gw_net g)" and "node_ok (gw_net g)" and "nv_ok (gw_kv g)" and "nt_addr (gw_net g) = gw_addr g"
    and "\<not> nt_default_lane_enabled (gw_net g)" and "reg_inv (gl_pc lib) (eeprom_io (gw_writable g)) (gw_kv g)"
    and "format_foreign (gw_kv g) = (\<not> gw_writable g)" and "ids_ok (gw_queue g)"
    and "a \<notin> X \<Longrightarrow> flagged g a" and "a \<notin> Y \<Longrightarrow> mirrored lib g a" and "a \<notin> Y \<Longrightarrow> expected lib g a"
  using assms alive_ok by (auto simp: gw_core_def)

lemma gw_find_abs: "gw_find lib a g = reg_abs (gl_pc lib) (eeprom_io (gw_writable g)) (gw_kv g) a"
  by (simp add: gw_find_def reg_find_abs)

text \<open>Fields the invariant does not look at.\<close>

lemma gw_core_fields [simp]:
  "gw_core lib X Y (g\<lparr>gw_stats := st\<rparr>) = gw_core lib X Y g" "gw_core lib X Y (g\<lparr>gw_pairing := z\<rparr>) = gw_core lib X Y g"
  "gw_core lib X Y (g\<lparr>gw_period := p\<rparr>) = gw_core lib X Y g" "gw_core lib X Y (g\<lparr>gw_parked := b\<rparr>) = gw_core lib X Y g"
  "gw_core lib X Y (g\<lparr>gw_park_until := t\<rparr>) = gw_core lib X Y g" "gw_core lib X Y (g\<lparr>gw_last_policy := u\<rparr>) = gw_core lib X Y g"
  "gw_core lib X Y (g\<lparr>gw_last_hop_stat := u\<rparr>) = gw_core lib X Y g" "gw_core lib X Y (g\<lparr>gw_last_stat := u\<rparr>) = gw_core lib X Y g"
  "gw_core lib X Y (g\<lparr>gw_counters := c\<rparr>) = gw_core lib X Y g"
  by (simp_all add: gw_core_def mirrored_def flagged_def expected_def gw_find_def)

lemma counted_fields [simp]:
  "counted lib (g\<lparr>gw_stats := st\<rparr>) = counted lib g" "counted lib (g\<lparr>gw_pairing := z\<rparr>) = counted lib g"
  "counted lib (g\<lparr>gw_period := p\<rparr>) = counted lib g" "counted lib (g\<lparr>gw_parked := b\<rparr>) = counted lib g"
  "counted lib (g\<lparr>gw_park_until := t\<rparr>) = counted lib g" "counted lib (g\<lparr>gw_last_policy := u\<rparr>) = counted lib g"
  "counted lib (g\<lparr>gw_last_hop_stat := u\<rparr>) = counted lib g" "counted lib (g\<lparr>gw_last_stat := u\<rparr>) = counted lib g"
  by (simp_all add: counted_def gw_count_def)

lemma core_fill:
  assumes "gw_core lib X Y g" and "\<And>a. a \<in> Y \<Longrightarrow> mirrored lib g a \<and> expected lib g a"
  shows "gw_core lib X {} g"
  using assms unfolding gw_core_def by blast

section \<open>Steps\<close>

text \<open>A method of the network layer that leaves the registry and the table alone.\<close>

lemma format_foreign_abs:
  "nv_ok kv \<Longrightarrow> format_foreign kv = (case app_abs kv KEY_FORMAT of Some v \<Rightarrow> length v = 1 \<and> v ! 0 \<noteq> REG_FORMAT | None \<Rightarrow> False)"
  by (auto simp: format_foreign_def format_guard_def scoped_get_abs split: option.splits)

lemma core_kv:
  assumes "gw_core lib X Y g" and "same_app (gw_kv g) (nt_kv n)"
  shows "reg_inv (gl_pc lib) (eeprom_io w) (nt_kv n) = reg_inv (gl_pc lib) (eeprom_io w) (gw_kv g)"
    and "gw_find lib a (g\<lparr>gw_net := n\<rparr>) = gw_find lib a g" and "gw_count lib (g\<lparr>gw_net := n\<rparr>) = gw_count lib g"
    and "format_foreign (nt_kv n) = format_foreign (gw_kv g)"
  using same_app_reg [OF gw_coreD(3) [OF assms(1)] assms(2)] format_foreign_abs gw_coreD(3) [OF assms(1)] assms(2)
  by (simp_all add: gw_find_abs gw_count_def same_app_def)

lemma core_aside:
  assumes core: "gw_core lib X Y g" and a: "aside (gw_net g) n" and e: "emits 0 (gw_net g) air n"
  shows "gw_core lib X Y (g\<lparr>gw_net := n\<rparr>)" and "counted lib (g\<lparr>gw_net := n\<rparr>) = counted lib g"
    and "gw_find lib x (g\<lparr>gw_net := n\<rparr>) = gw_find lib x g"
proof -
  note D = gw_coreD [OF core]
  have sa: "same_app (gw_kv g) (nt_kv n)" using a D(3) by (simp add: aside_def)
  note K = core_kv [OF core sa]
  show "gw_core lib X Y (g\<lparr>gw_net := n\<rparr>)"
    using emits_alive [OF e D(1)] a D K table_aside [OF a] by (simp add: gw_core_def aside_def mirrored_def flagged_def expected_def)
  show "counted lib (g\<lparr>gw_net := n\<rparr>) = counted lib g" using K by (simp add: counted_def)
  show "gw_find lib x (g\<lparr>gw_net := n\<rparr>) = gw_find lib x g" by (rule K(2))
qed

text \<open>A change of the queue: the flags of the nodes it concerns are stale.\<close>

lemma core_queue:
  assumes core: "gw_core lib X Y g" and q: "ids_ok q"
    and c: "\<And>a. a \<notin> Z \<Longrightarrow> a \<in> it_node ` set (q_items q) \<longleftrightarrow> a \<in> it_node ` set (q_items (gw_queue g))"
    and r: "\<And>a. a \<notin> Y \<Longrightarrow> a \<in> it_node ` set (q_items q) \<Longrightarrow> gw_find lib a g \<noteq> None"
  shows "gw_core lib (X \<union> Z) Y (g\<lparr>gw_queue := q\<rparr>)"
proof -
  note D = gw_coreD [OF core]
  have f: "gw_find lib a (g\<lparr>gw_queue := q\<rparr>) = gw_find lib a g" for a by (simp add: gw_find_def)
  have "flagged (g\<lparr>gw_queue := q\<rparr>) a" if "a \<notin> X \<union> Z" for a using that D(9) [of a] c [of a] by (simp add: flagged_def)
  moreover have "mirrored lib (g\<lparr>gw_queue := q\<rparr>) a \<and> expected lib (g\<lparr>gw_queue := q\<rparr>) a" if "a \<notin> Y" for a
    using that D(10) r f by (simp add: mirrored_def expected_def)
  ultimately show ?thesis using D(1,4,5,6,7) q by (simp add: gw_core_def)
qed

lemma gw_do_net: "gw_do f g = (fst (f (gw_net g)), g\<lparr>gw_net := snd (f (gw_net g))\<rparr>)"
  by (simp add: gw_do_def split: prod.splits)

lemma core_pending_to:
  assumes core: "gw_core lib X Y g" and b: "b = (a \<in> it_node ` set (q_items (gw_queue g)))"
  shows "gw_core lib (X - {a}) Y (snd (gw_do (set_pending a b) g))"
proof -
  let ?n = "snd (set_pending a b (gw_net g))"
  note D = gw_coreD [OF core]
  have keep: "nt_addr ?n = nt_addr (gw_net g)" "nt_default_lane_enabled ?n = nt_default_lane_enabled (gw_net g)" "nt_kv ?n = gw_kv g"
    by (simp_all add: set_pending_def set_peer_def split: option.splits)
  have "alive ?n" using quiet_alive [OF quiet_set_pending D(1)] .
  moreover have f: "gw_find lib x (g\<lparr>gw_net := ?n\<rparr>) = gw_find lib x g" for x using keep by (simp add: gw_find_def)
  moreover have "mirrored lib (g\<lparr>gw_net := ?n\<rparr>) x \<and> expected lib (g\<lparr>gw_net := ?n\<rparr>) x" if "x \<notin> Y" for x
    using D(10,11) [OF that] by (auto simp: mirrored_def expected_def f table_pending option.map_comp comp_def split: if_splits)
  moreover have "flagged (g\<lparr>gw_net := ?n\<rparr>) x" if "x \<notin> X - {a}" for x
    using D(9) [of x] that b by (auto simp: flagged_def table_pending)
  ultimately show ?thesis using D(4-8) keep by (simp add: gw_do_net gw_core_def)
qed

lemma core_pending: "gw_core lib X Y g \<Longrightarrow> gw_core lib (X - {a}) Y (note_pending a g)"
  unfolding note_pending_def by (rule core_pending_to) (simp_all add: count_pos)

lemma pending_keeps [simp]:
  "gw_queue (note_pending a g) = gw_queue g" "gw_counters (note_pending a g) = gw_counters g" "gw_find lib x (note_pending a g) = gw_find lib x g"
  "gw_count lib (note_pending a g) = gw_count lib g" "gw_addr (note_pending a g) = gw_addr g"
  by (simp_all add: note_pending_def gw_do_net gw_find_def gw_count_def set_pending_def set_peer_def split: option.splits)

lemma core_note [simp]: "gw_core lib X Y (note_queued g) = gw_core lib X Y g" "gw_core lib X Y (note_nodes lib g) = gw_core lib X Y g"
  by (simp_all add: note_queued_def note_nodes_def)

lemma note_keeps [simp]:
  "gw_queue (note_queued g) = gw_queue g" "gw_queue (note_nodes lib g) = gw_queue g"
  "gw_count lib (note_queued g) = gw_count lib g" "gw_count lib (note_nodes lib g) = gw_count lib g"
  by (simp_all add: note_queued_def note_nodes_def gw_count_def)

lemma counted_note:
  "counted lib (note_queued (note_nodes lib g))"
  "sc_nodes (gw_counters g) = of_nat (gw_count lib g) \<Longrightarrow> counted lib (note_queued g)"
  "sc_queued (gw_counters g) = of_nat (q_len (gw_queue g)) \<Longrightarrow> counted lib (note_nodes lib g)"
  by (simp_all add: counted_def note_queued_def note_nodes_def gw_count_def)

text \<open>A registry call: it fails and nothing is different, or the registry is what the specification says and
  only the node the call names is out of step.\<close>

fun reg_target :: "reg_op \<Rightarrow> u32" where
  "reg_target (RegAdd r) = nr_addr r"
| "reg_target (RegAddNew r) = nr_addr r"
| "reg_target (RegRemove a) = a"
| "reg_target (RegUpdate a name flags) = a"

lemma reg_spec_others: "reg_spec op m = Inr m' \<Longrightarrow> a \<noteq> reg_target op \<Longrightarrow> m' a = m a"
  by (cases op) (auto split: if_splits option.splits)

lemma gw_reg_step:
  assumes core: "gw_core lib X {} g" and pc: "postcard_ok (gl_pc lib)" and wf: "reg_op_wf op" and run: "gw_reg lib op g = (r, g')"
  obtains kv where "g' = g\<lparr>gw_net := (gw_net g)\<lparr>nt_kv := kv\<rparr>\<rparr>" and "gw_core lib X (if r = Inr () then {reg_target op} else {}) g'"
    and "r = Inr () \<Longrightarrow> reg_spec op (\<lambda>a. gw_find lib a g) = Inr (\<lambda>a. gw_find lib a g')"
    and "r \<noteq> Inr () \<Longrightarrow> (\<lambda>a. gw_find lib a g') = (\<lambda>a. gw_find lib a g)" and "r \<noteq> Inr () \<Longrightarrow> gw_count lib g' = gw_count lib g"
    and "r = Inl e \<Longrightarrow> e \<noteq> RegStorage \<Longrightarrow> reg_spec op (\<lambda>a. gw_find lib a g) = Inl e"
proof -
  let ?io = "eeprom_io (gw_writable g)"
  note D = gw_coreD [OF core]
  obtain kv where call: "reg_call (gl_pc lib) ?io op (gw_kv g) = (r, kv)" and g': "g' = g\<lparr>gw_net := (gw_net g)\<lparr>nt_kv := kv\<rparr>\<rparr>"
    using run by (auto simp: gw_reg_def split: prod.splits)
  from eb.call_meets [OF pc D(3) D(6) wf call] have M: "nv_ok kv" "reg_inv (gl_pc lib) ?io kv"
    "case reg_spec op (reg_abs (gl_pc lib) ?io (gw_kv g)) of Inl e \<Rightarrow> r = Inl e \<and> kv = gw_kv g
      | Inr m \<Rightarrow> r = Inr () \<and> reg_abs (gl_pc lib) ?io kv = m \<or> r = Inl RegStorage \<and> reg_abs (gl_pc lib) ?io kv = reg_abs (gl_pc lib) ?io (gw_kv g)"
    by (simp_all add: eb.meets_def)
  have find: "(\<lambda>a. gw_find lib a g) = reg_abs (gl_pc lib) ?io (gw_kv g)" "(\<lambda>a. gw_find lib a g') = reg_abs (gl_pc lib) ?io kv"
    using g' by (simp_all add: fun_eq_iff gw_find_abs)
  have done_: "reg_spec op (\<lambda>a. gw_find lib a g) = Inr (\<lambda>a. gw_find lib a g')" if "r = Inr ()"
    using M(3) that unfolding find by (cases "reg_spec op (reg_abs (gl_pc lib) ?io (gw_kv g))") auto
  have failed: "(\<lambda>a. gw_find lib a g') = (\<lambda>a. gw_find lib a g)" if "r \<noteq> Inr ()"
    using M(3) that unfolding find by (cases "reg_spec op (reg_abs (gl_pc lib) ?io (gw_kv g))") auto
  have err: "reg_spec op (\<lambda>a. gw_find lib a g) = Inl e" if "r = Inl e" "e \<noteq> RegStorage"
    using M(3) that unfolding find by (cases "reg_spec op (reg_abs (gl_pc lib) ?io (gw_kv g))") auto
  have cnt: "gw_count lib g' = gw_count lib g" if "r \<noteq> Inr ()"
    using failed [OF that] eb.card_dom [OF M(2)] eb.card_dom [OF D(6)] g' unfolding find by (simp add: gw_count_def)
  note W = reg_call_store [OF D(3) call]
  have "quiet (gw_net g) ((gw_net g)\<lparr>nt_kv := kv\<rparr>)" using W(1) by (simp add: quiet_def node_ok_def wm_others_def)
  then have al: "alive (gw_net g')" using quiet_alive D(1) g' by simp
  have tb: "table (gw_net g') = table (gw_net g)" using g' by (simp add: fun_eq_iff table_ids peer_ids_def)
  have ff: "format_foreign kv = format_foreign (gw_kv g)" using format_foreign_abs M(1) D(3) W(2) by simp
  have same: "gw_find lib a g' = gw_find lib a g" if "r = Inr () \<Longrightarrow> a \<noteq> reg_target op" for a
    using reg_spec_others [OF done_] failed that by (metis (no_types))
  have "mirrored lib g' a \<and> expected lib g' a" if "a \<notin> (if r = Inr () then {reg_target op} else {})" for a
  proof -
    have "gw_find lib a g' = gw_find lib a g" using same that by (auto split: if_splits)
    then show ?thesis using D(10,11) [of a] tb g' by (simp add: mirrored_def expected_def)
  qed
  moreover have "flagged g' a" if "a \<notin> X" for a using D(9) [OF that] tb g' by (simp add: flagged_def)
  ultimately have "gw_core lib X (if r = Inr () then {reg_target op} else {}) g'"
    using al D(4,5,7,8) M(2) ff g' by (auto simp: gw_core_def)
  from that [OF g' this done_ failed cnt err] show thesis .
qed

text \<open>The nodes the registry can hold.\<close>

lemma registry_size:
  assumes "gw_core lib X Y g"
  shows "finite (dom (\<lambda>a. gw_find lib a g))" and "card (dom (\<lambda>a. gw_find lib a g)) \<le> MAX_PEERS"
proof -
  let ?io = "eeprom_io (gw_writable g)"
  note R = gw_coreD(6) [OF assms]
  have f: "(\<lambda>a. gw_find lib a g) = reg_abs (gl_pc lib) ?io (gw_kv g)" by (simp add: fun_eq_iff gw_find_abs)
  show "finite (dom (\<lambda>a. gw_find lib a g))"
    unfolding f using dom_find_addr [of "reg_nodes (gl_pc lib) ?io (gw_kv g)"] by (simp add: reg_abs_fun)
  show "card (dom (\<lambda>a. gw_find lib a g)) \<le> MAX_PEERS"
    unfolding f using eb.card_dom [OF R] R by (simp add: reg_count_nodes reg_inv_def REG_CAPACITY_def MAX_PEERS_def)
qed

text \<open>Installing a registered node brings the table in step.\<close>

lemma core_install:
  assumes core: "gw_core lib X {a} g" and valid: "peer_addr_valid a (gw_addr g)" and r: "gw_find lib a g = Some r" "nr_key r = key"
    and fl: "a \<notin> X" and new: "table (gw_net g) a = None \<Longrightarrow> a \<notin> it_node ` set (q_items (gw_queue g))"
    and g': "g' = snd (gw_do (add_peer (gl_enc lib) a key) g)"
  shows "gw_core lib X {} g'" and "gw_find lib x g' = gw_find lib x g" and "gw_count lib g' = gw_count lib g"
proof -
  let ?n = "snd (add_peer (gl_enc lib) a key (gw_net g))"
  note D = gw_coreD [OF core]
  have "insert a (dom (table (gw_net g))) \<subseteq> dom (\<lambda>a. gw_find lib a g)"
  proof
    fix x assume x: "x \<in> insert a (dom (table (gw_net g)))"
    show "x \<in> dom (\<lambda>a. gw_find lib a g)"
      using x D(10) [of x] r(1) by (cases "x = a"; cases "gw_find lib x g") (auto simp: mirrored_def split: if_splits)
  qed
  note A = add_peer_table [OF D(2) _ this registry_size [OF core], of "gl_enc lib" key]
  have v: "peer_addr_valid a (nt_addr (gw_net g))" using valid D(4) by simp
  note A = A [OF v]
  have e: "gw_net g' = ?n" "gw_addr g' = gw_addr g" "gw_queue g' = gw_queue g" "gw_writable g' = gw_writable g" "g' = g\<lparr>gw_net := ?n\<rparr>"
    using g' by (simp_all add: gw_do_net)
  note K = core_kv [OF core A(3) [THEN conjunct2, THEN conjunct2]]
  show f: "gw_find lib x g' = gw_find lib x g" for x using K(2) e(5) by simp
  show "gw_count lib g' = gw_count lib g" using K(3) e(5) by simp
  have "mirrored lib g' x \<and> expected lib g' x" for x
    using D(10,11) [of x] A(2) valid r by (cases "x = a") (simp_all add: mirrored_def expected_def e(1-4) f)
  moreover have "flagged g' x" if "x \<notin> X" for x
    using D(9) [OF that] D(9) [OF fl] A(2) new by (cases "x = a") (auto simp: flagged_def e(1-4) split: option.splits)
  moreover have "alive ?n" using quiet_alive [OF quiet_add_peer D(1)] .
  ultimately show "gw_core lib X {} g'" using A(3) D(4-8) K(1,4) by (simp add: gw_core_def e(1-4))
qed

text \<open>A change that keeps the address and the key of a node keeps the mirror.\<close>

lemma core_rekey:
  assumes "gw_core lib X {a} g'" and "mirrored lib g a" and "table (gw_net g') = table (gw_net g)" and "gw_addr g' = gw_addr g"
    and "map_option nr_key (gw_find lib a g') = map_option nr_key (gw_find lib a g)" and "gw_find lib a g' \<noteq> None"
  shows "gw_core lib X {} g'"
  using assms(2-6) by (intro core_fill [OF assms(1)]) (simp add: mirrored_def expected_def)

section \<open>Uplinks\<close>

lemma core_emit:
  assumes "gw_core lib X Y g" and "aside (gw_net g) n" and "\<And>fl. emits fl (gw_net g) air n"
  shows "gw_core lib X Y (g\<lparr>gw_net := n\<rparr>)" and "counted lib (g\<lparr>gw_net := n\<rparr>) = counted lib g"
    and "gw_find lib x (g\<lparr>gw_net := n\<rparr>) = gw_find lib x g" and "gw_count lib (g\<lparr>gw_net := n\<rparr>) = gw_count lib g"
  using core_aside [OF assms(1,2) assms(3)] core_kv(3) [OF assms(1)] assms(2) gw_coreD(3) [OF assms(1)] by (simp_all add: aside_def)

lemma send_downlink_step:
  assumes "send_downlink lib e dest data n = (r, air, n')"
  shows "aside n n'" and "emits fl n air n'"
  using assms aside_send aside_fhss_send emits_net_send emits_fhss_send by (auto simp: send_downlink_def split: if_splits)

lemma on_uplink_core:
  assumes core: "gw_core lib {} {} g" and cnt: "sc_nodes (gw_counters g) = of_nat (gw_count lib g)"
    and run: "on_uplink lib e now rx g = (out, air, g')"
  shows "gw_inv lib g'" and "gw_find lib x g' = gw_find lib x g"
proof -
  define g1 where "g1 = g\<lparr>gw_stats := stats_on_uplink (ue_now_s e) (rx_src rx) (rx_rssi rx) (gw_stats g),
      gw_counters := (gw_counters g)\<lparr>sc_uplinks := sc_uplinks (gw_counters g) + 1\<rparr>\<rparr>"
  have c1: "gw_core lib {} {} g1" "gw_queue g1 = gw_queue g" "gw_find lib y g1 = gw_find lib y g"
    "sc_nodes (gw_counters g1) = of_nat (gw_count lib g1)" for y
    using core cnt by (simp_all add: g1_def gw_find_def gw_count_def)
  have "\<exists>g2. g' = note_queued (note_pending (rx_src rx) g2) \<and> gw_core lib {rx_src rx} {} g2 \<and>
      (\<forall>y. gw_find lib y g2 = gw_find lib y g) \<and> sc_nodes (gw_counters g2) = of_nat (gw_count lib g2)"
  proof (cases "q_peek_for (rx_src rx) now (gw_queue g1)")
    case None
    then have "g' = note_queued (note_pending (rx_src rx) g1)" using run by (simp add: on_uplink_def Let_def g1_def)
    moreover have "gw_core lib {rx_src rx} {} g1" using c1(1) by (auto simp: gw_core_def)
    ultimately show ?thesis using c1 by blast
  next
    case (Some it)
    obtain r air2 n where s: "send_downlink lib e (rx_src rx) (it_data it) (gw_net g1) = (r, air2, n)" by (metis prod.exhaust)
    define q where "q = (if r = Delivered then snd (q_pop (it_id it) (gw_queue g1)) else gw_queue g1)"
    define h where "h = g1\<lparr>gw_net := n\<rparr>"
    have g': "g' = note_queued (note_pending (rx_src rx) (h\<lparr>gw_queue := q\<rparr>))"
      using run Some s unfolding q_def h_def on_uplink_def Let_def g1_def [symmetric] by auto
    note S = core_emit [OF c1(1) send_downlink_step(1) [OF s] send_downlink_step(2) [OF s]]
    have ids: "ids_ok (gw_queue g1)" using gw_coreD(8) [OF c1(1)] .
    note it = peek_item [OF Some]
    have sub: "set (q_items q) \<subseteq> set (q_items (gw_queue g1))" using pop_items(1) [OF ids] by (auto simp: q_def)
    have "gw_core lib ({} \<union> {rx_src rx}) {} (h\<lparr>gw_queue := q\<rparr>)"
    proof (rule core_queue)
      show "gw_core lib {} {} h" unfolding h_def by (rule S(1))
      show "ids_ok q" using ids pop_items(2) by (simp add: q_def)
      show "a \<in> it_node ` set (q_items q) \<longleftrightarrow> a \<in> it_node ` set (q_items (gw_queue h))" if "a \<notin> {rx_src rx}" for a
        using pop_others [OF ids, of it a] it that by (simp add: q_def h_def)
      show "gw_find lib a h \<noteq> None" if "a \<in> it_node ` set (q_items q)" for a
        using that sub gw_coreD(11) [OF c1(1), of a] S(3) by (auto simp: expected_def h_def)
    qed
    moreover have "gw_find lib y (h\<lparr>gw_queue := q\<rparr>) = gw_find lib y g" for y using S(3) c1(3) by (simp add: h_def gw_find_def)
    moreover have "sc_nodes (gw_counters (h\<lparr>gw_queue := q\<rparr>)) = of_nat (gw_count lib (h\<lparr>gw_queue := q\<rparr>))"
      using S(4) c1(4) by (simp add: h_def gw_count_def)
    ultimately show ?thesis using g' by auto
  qed
  then obtain g2 where g2: "g' = note_queued (note_pending (rx_src rx) g2)" "gw_core lib {rx_src rx} {} g2"
    "\<forall>y. gw_find lib y g2 = gw_find lib y g" "sc_nodes (gw_counters g2) = of_nat (gw_count lib g2)" by blast
  show "gw_inv lib g'" using core_pending [OF g2(2), of "rx_src rx"] counted_note(2) [of "note_pending (rx_src rx) g2" lib] g2(1,4)
    by (simp add: gw_inv_def)
  show "gw_find lib x g' = gw_find lib x g" using g2(1,3) pending_keeps(3) [of lib x "rx_src rx" g2] by (simp add: note_queued_def gw_find_def)
qed

section \<open>Pairing and management\<close>

fun mgmt_op_wf :: "mgmt_op \<Rightarrow> bool" where
  "mgmt_op_wf (NodeAdd a key name flags txf rxf) = (length key = 16)"
| "mgmt_op_wf _ = True"

text \<open>What is asked of the libraries: the codec and the primitives keep their documented contracts, and a
  decoded request carries a 16-byte key.\<close>

definition lib_ok :: "gw_lib \<Rightarrow> bool" where
  "lib_ok lib \<longleftrightarrow> postcard_ok (gl_pc lib) \<and> crypto_ok (gl_crypto lib) \<and>
     (\<forall>p req_id op. gl_req lib p = Some (req_id, op) \<longrightarrow> mgmt_op_wf op)"

lemma gw_invD: "gw_inv lib g \<Longrightarrow> gw_core lib {} {} g" "gw_inv lib g \<Longrightarrow> counted lib g"
  by (simp_all add: gw_inv_def)

lemma inv_emit:
  assumes "gw_inv lib g" and "aside (gw_net g) n" and "\<And>fl. emits fl (gw_net g) air n"
  shows "gw_inv lib (g\<lparr>gw_net := n\<rparr>)" and "gw_find lib x (g\<lparr>gw_net := n\<rparr>) = gw_find lib x g"
  using core_emit [OF gw_invD(1) [OF assms(1)] assms(2,3)] gw_invD(2) [OF assms(1)] by (simp_all add: gw_inv_def)

text \<open>A call that failed.\<close>

lemma reg_failed:
  assumes inv: "gw_inv lib g" and pc: "postcard_ok (gl_pc lib)" and wf: "reg_op_wf op" and run: "gw_reg lib op g = (Inl e, g')"
  shows "gw_inv lib g'" and "gw_find lib x g' = gw_find lib x g"
proof -
  from gw_reg_step [OF gw_invD(1) [OF inv] pc wf run] obtain kv where "g' = g\<lparr>gw_net := (gw_net g)\<lparr>nt_kv := kv\<rparr>\<rparr>" "gw_core lib {} {} g'"
    and f: "(\<lambda>a. gw_find lib a g') = (\<lambda>a. gw_find lib a g)" "gw_count lib g' = gw_count lib g" by auto
  with gw_invD(2) [OF inv] show "gw_inv lib g'" by (simp add: gw_inv_def counted_def)
  show "gw_find lib x g' = gw_find lib x g" using f(1) by (simp add: fun_eq_iff)
qed

text \<open>A node stored and installed.\<close>

lemma node_installed:
  assumes inv: "gw_inv lib g" and pc: "postcard_ok (gl_pc lib)" and wf: "record_wf q" and valid: "peer_addr_valid (nr_addr q) (gw_addr g)"
    and op: "op = RegAdd q \<or> op = RegAddNew q" and run: "gw_reg lib op g = (Inr (), g1)"
    and g2: "g2 = snd (gw_do (add_peer (gl_enc lib) (nr_addr q) (nr_key q)) g1)"
  shows "gw_core lib {} {} g2" and "(\<lambda>a. gw_find lib a g2) = (\<lambda>a. gw_find lib a g)(nr_addr q \<mapsto> q)"
    and "gw_counters g2 = gw_counters g" and "gw_queue g2 = gw_queue g" and "op = RegAddNew q \<Longrightarrow> gw_find lib (nr_addr q) g = None"
proof -
  let ?a = "nr_addr q"
  note D = gw_coreD [OF gw_invD(1) [OF inv]]
  have ow: "reg_op_wf op" "reg_target op = ?a" using op wf by auto
  from gw_reg_step [OF gw_invD(1) [OF inv] pc ow(1) run] obtain kv where
    g1: "g1 = g\<lparr>gw_net := (gw_net g)\<lparr>nt_kv := kv\<rparr>\<rparr>" and core: "gw_core lib {} {?a} g1"
    and sp: "reg_spec op (\<lambda>a. gw_find lib a g) = Inr (\<lambda>a. gw_find lib a g1)" unfolding ow(2) if_P [OF refl] by metis
  have f1: "(\<lambda>a. gw_find lib a g1) = (\<lambda>a. gw_find lib a g)(?a \<mapsto> q)" using sp op by (auto split: if_splits)
  show "gw_find lib ?a g = None" if "op = RegAddNew q" using sp that by (auto split: if_splits)
  have tb: "table (gw_net g1) = table (gw_net g)" using g1 by (simp add: fun_eq_iff table_ids peer_ids_def)
  have v: "peer_addr_valid ?a (gw_addr g1)" using valid g1 by simp
  have r: "gw_find lib ?a g1 = Some q" using fun_cong [OF f1, of ?a] by simp
  have new: "?a \<notin> it_node ` set (q_items (gw_queue g1))" if "table (gw_net g1) ?a = None"
    using that tb D(10,11) [of ?a] valid g1 by (auto simp: mirrored_def expected_def)
  note I = core_install [OF core v r refl _ new g2, simplified]
  show "gw_core lib {} {} g2" by (rule I(1))
  show "(\<lambda>a. gw_find lib a g2) = (\<lambda>a. gw_find lib a g)(?a \<mapsto> q)" using I(2) f1 by simp
  show "gw_counters g2 = gw_counters g" "gw_queue g2 = gw_queue g" using g1 g2 by (simp_all add: gw_do_net)
qed

lemma counted_after:
  assumes "counted lib g" and "gw_counters g' = gw_counters g" and "gw_queue g' = gw_queue g"
  shows "counted lib (note_nodes lib g')"
  using assms by (intro counted_note(3)) (simp add: counted_def)

lemma commit_pairing_step:
  assumes inv: "gw_inv lib g" and pc: "postcard_ok (gl_pc lib)" and valid: "peer_addr_valid (pp_addr peer) (gw_addr g)"
    and key: "length (pp_key peer) = 16" and run: "commit_pairing lib peer req_id g = (out, g')"
  shows "gw_inv lib g'" and "gw_find lib x g = Some r \<Longrightarrow> gw_find lib x g' = Some r"
proof -
  let ?q = "\<lparr>nr_addr = pp_addr peer, nr_key = pp_key peer, nr_flags = NODE_FLAG_UNNAMED, nr_name = []\<rparr>"
  have wf: "record_wf ?q" using key by (simp add: record_wf_def)
  obtain res g1 where rg: "gw_reg lib (RegAddNew ?q) g = (res, g1)" by fastforce
  have "gw_inv lib g' \<and> (gw_find lib x g = Some r \<longrightarrow> gw_find lib x g' = Some r)"
  proof (cases res)
    case (Inl e)
    then have "g' = g1" using run rg by (auto simp: commit_pairing_def split: reg_error.splits)
    with reg_failed [OF inv pc _ rg [unfolded Inl]] wf show ?thesis by simp
  next
    case (Inr u)
    define g2 where "g2 = snd (gw_do (add_peer (gl_enc lib) (pp_addr peer) (pp_key peer)) g1)"
    have "peer_addr_valid (nr_addr ?q) (gw_addr g)" "gw_reg lib (RegAddNew ?q) g = (Inr (), g1)"
      "g2 = snd (gw_do (add_peer (gl_enc lib) (nr_addr ?q) (nr_key ?q)) g1)" using rg Inr valid by (simp_all add: g2_def)
    note N = node_installed [OF inv pc wf this(1) disjI2 [OF refl] this(2,3)]
    have g': "g' = note_nodes lib g2" using run rg Inr by (simp add: commit_pairing_def g2_def)
    have "gw_find lib x g' = gw_find lib x g2" by (simp add: g' note_nodes_def gw_find_def)
    with N(1,5) fun_cong [OF N(2), of x] counted_after [OF gw_invD(2) [OF inv] N(3,4)] show ?thesis
      unfolding g' by (auto simp: gw_inv_def)
  qed
  then show "gw_inv lib g'" "gw_find lib x g = Some r \<Longrightarrow> gw_find lib x g' = Some r" by blast+
qed

lemma node_add_inv:
  assumes inv: "gw_inv lib g" and pc: "postcard_ok (gl_pc lib)" and key: "length key = 16"
    and run: "mgmt_node_add lib req_id a key name flags txf rxf g = (out, g')"
  shows "gw_inv lib g'"
proof (cases "\<not> peer_addr_valid a (gw_addr g) \<or> MAX_NODE_NAME < length name \<or> txf = - 1")
  case True
  with run inv show ?thesis by (simp add: mgmt_node_add_def)
next
  case False
  let ?q = "\<lparr>nr_addr = a, nr_key = key, nr_flags = flags, nr_name = name\<rparr>"
  have wf: "record_wf ?q" using key False by (simp add: record_wf_def MAX_NODE_NAME_def MAX_NAME_def)
  obtain ok n where rz: "raise_tx_floor txf (gw_net g) = (ok, n)" by fastforce
  define g1 where "g1 = g\<lparr>gw_net := n\<rparr>"
  have r1: "gw_do (raise_tx_floor txf) g = (ok, g1)" using rz by (simp add: gw_do_net g1_def)
  have a1: "aside (gw_net g) n" using aside_raise [of _ "gw_net g" txf] rz by simp
  have e1: "emits fl (gw_net g) [] n" for fl using emits_raise [of fl "gw_net g" txf] rz by simp
  have i1: "gw_inv lib g1" unfolding g1_def by (rule inv_emit(1) [OF inv a1 e1])
  obtain res g2 where rg: "gw_reg lib (RegAdd ?q) g1 = (res, g2)" by fastforce
  show ?thesis
  proof (cases "ok \<and> res = Inr ()")
    case True
    define g3 where "g3 = snd (gw_do (add_peer (gl_enc lib) a key) g2)"
    have "peer_addr_valid (nr_addr ?q) (gw_addr g1)" "gw_reg lib (RegAdd ?q) g1 = (Inr (), g2)"
      "g3 = snd (gw_do (add_peer (gl_enc lib) (nr_addr ?q) (nr_key ?q)) g2)" using rg True False by (simp_all add: g3_def g1_def)
    note N = node_installed [OF i1 pc wf this(1) disjI1 [OF refl] this(2,3)]
    define g4 where "g4 = snd (gw_do (raise_peer_floor (gl_enc lib) a rxf) g3)"
    have c4: "gw_core lib {} {} g4"
      using core_emit(1) [OF N(1) aside_peer_floor emits_quiet [OF quiet_raise_peer_floor]] by (simp add: g4_def gw_do_net)
    have "gw_counters g4 = gw_counters g1" "gw_queue g4 = gw_queue g1" using N(3,4) by (simp_all add: g4_def gw_do_net)
    from counted_after [OF gw_invD(2) [OF i1] this] c4 have "gw_inv lib (note_nodes lib g4)" by (simp add: gw_inv_def)
    then show ?thesis using run False r1 rg True by (auto simp: mgmt_node_add_def Let_def g3_def g4_def)
  next
    case f: False
    show ?thesis
    proof (cases ok)
      case True
      with f obtain e where e: "res = Inl e" by (cases res) auto
      have "g' = g2" using run False r1 rg True e by (auto simp: mgmt_node_add_def split: reg_error.splits)
      with reg_failed(1) [OF i1 pc _ rg [unfolded e]] wf show ?thesis by simp
    next
      case False
      then have "g' = g1" using run \<open>\<not> (_ \<or> _ \<or> _)\<close> r1 by (simp add: mgmt_node_add_def)
      with i1 show ?thesis by simp
    qed
  qed
qed

lemma node_remove_inv:
  assumes inv: "gw_inv lib g" and pc: "postcard_ok (gl_pc lib)" and run: "mgmt_node_remove lib req_id a g = (out, g')"
  shows "gw_inv lib g'"
proof -
  obtain res g1 where rg: "gw_reg lib (RegRemove a) g = (res, g1)" by fastforce
  show ?thesis
  proof (cases res)
    case (Inl e)
    then have "g' = g1" using run rg by (auto simp: mgmt_node_remove_def split: reg_error.splits)
    with reg_failed(1) [OF inv pc _ rg [unfolded Inl]] show ?thesis by simp
  next
    case (Inr u)
    have rr: "gw_reg lib (RegRemove a) g = (Inr (), g1)" using rg Inr by simp
    have ow: "reg_op_wf (RegRemove a)" "reg_target (RegRemove a) = a" by simp_all
    from gw_reg_step [OF gw_invD(1) [OF inv] pc ow(1) rr] obtain kv where core: "gw_core lib {} {a} g1"
      and sp: "reg_spec (RegRemove a) (\<lambda>a. gw_find lib a g) = Inr (\<lambda>a. gw_find lib a g1)" unfolding ow(2) if_P [OF refl] by metis
    have gone: "gw_find lib a g1 = None" using sp by (auto split: if_splits dest: fun_cong [where x = a])
    note D = gw_coreD [OF core]
    let ?n = "snd (remove_peer a (gw_net g1))"
    define g3 where "g3 = (snd (gw_do (remove_peer a) g1))\<lparr>gw_queue := snd (q_drop_node a (gw_queue g1)), gw_stats := stats_remove a (gw_stats g1)\<rparr>"
    have e: "gw_net g3 = ?n" "gw_addr g3 = gw_addr g1" "gw_writable g3 = gw_writable g1" "gw_queue g3 = snd (q_drop_node a (gw_queue g1))"
      by (simp_all add: g3_def gw_do_net)
    have keep: "nt_addr ?n = nt_addr (gw_net g1)" "nt_default_lane_enabled ?n = nt_default_lane_enabled (gw_net g1)" "nt_kv ?n = gw_kv g1"
      by (simp_all add: remove_peer_def set_peer_def split: option.splits)
    have f: "gw_find lib x g3 = gw_find lib x g1" for x by (simp add: gw_find_def e keep)
    have "gw_queue g3 = (gw_queue g1)\<lparr>q_slots := clear_where (\<lambda>it. it_node it = a) (q_slots (gw_queue g1))\<rparr>" by (simp add: e q_drop_node_def)
    note Q = clear_items [OF D(8) this]
    have i: "x \<in> it_node ` set (q_items (gw_queue g3)) \<longleftrightarrow> x \<noteq> a \<and> x \<in> it_node ` set (q_items (gw_queue g1))" for x
      by (auto simp: Q(1))
    have t: "table ?n = (table (gw_net g1))(a := None)" using table_remove [OF D(2)] .
    have "mirrored lib g3 x \<and> expected lib g3 x" for x
      using D(10,11) [of x] gone by (cases "x = a") (simp_all add: mirrored_def expected_def e(1-3) f i t)
    moreover have "flagged g3 x" for x using D(9) [of x] by (cases "x = a") (simp_all add: flagged_def e(1-3) i t)
    moreover have "alive ?n" using quiet_alive [OF quiet_remove D(1)] .
    ultimately have "gw_core lib {} {} g3" using D(4-7) Q(2) keep by (simp add: gw_core_def e(1-3))
    moreover have "g' = note_queued (note_nodes lib g3)" using run rr by (simp add: mgmt_node_remove_def Let_def g3_def gw_do_net)
    ultimately show ?thesis using counted_note(1) by (simp add: gw_inv_def)
  qed
qed

lemma node_update_inv:
  assumes inv: "gw_inv lib g" and pc: "postcard_ok (gl_pc lib)" and run: "mgmt_node_update lib req_id a name flags g = (out, g')"
  shows "gw_inv lib g'"
proof (cases "case name of Some n \<Rightarrow> MAX_NODE_NAME < length n | None \<Rightarrow> False")
  case True
  with run inv show ?thesis by (simp add: mgmt_node_update_def)
next
  case False
  let ?op = "RegUpdate a name flags"
  obtain res g1 where rg: "gw_reg lib ?op g = (res, g1)" by fastforce
  have g': "g' = g1" using run rg False by (auto simp: mgmt_node_update_def split: reg_error.splits sum.splits)
  show ?thesis
  proof (cases res)
    case (Inl e)
    with reg_failed(1) [OF inv pc _ rg [unfolded Inl]] g' show ?thesis by simp
  next
    case (Inr u)
    have rr: "gw_reg lib ?op g = (Inr (), g1)" using rg Inr by simp
    have ow: "reg_op_wf ?op" "reg_target ?op = a" by simp_all
    from gw_reg_step [OF gw_invD(1) [OF inv] pc ow(1) rr] obtain kv where g1: "g1 = g\<lparr>gw_net := (gw_net g)\<lparr>nt_kv := kv\<rparr>\<rparr>"
      and core: "gw_core lib {} {a} g1"
      and sp: "reg_spec ?op (\<lambda>a. gw_find lib a g) = Inr (\<lambda>a. gw_find lib a g1)" unfolding ow(2) if_P [OF refl] by metis
    from sp obtain r where r: "gw_find lib a g = Some r" and m: "(\<lambda>a. gw_find lib a g1) = (\<lambda>a. gw_find lib a g)(a \<mapsto> set_meta name flags r)"
      by (auto split: option.splits if_splits)
    have f: "gw_find lib a g1 = Some (set_meta name flags r)" using fun_cong [OF m, of a] by simp
    have tb: "table (gw_net g1) = table (gw_net g)" using g1 by (simp add: fun_eq_iff table_ids peer_ids_def)
    have c: "gw_core lib {} {} g1"
      by (rule core_rekey [OF core gw_coreD(10) [OF gw_invD(1) [OF inv]] tb]) (use f r g1 in \<open>simp_all add: set_meta_def\<close>)
    have "dom (\<lambda>a. gw_find lib a g1) = dom (\<lambda>a. gw_find lib a g)" unfolding m using r by auto
    then have "gw_count lib g1 = gw_count lib g"
      using eb.card_dom [OF gw_coreD(6) [OF c]] eb.card_dom [OF gw_coreD(6) [OF gw_invD(1) [OF inv]]] by (simp add: gw_count_def gw_find_abs)
    with c g1 g' gw_invD(2) [OF inv] show ?thesis by (simp add: gw_inv_def counted_def)
  qed
qed

lemma queue_push_inv:
  assumes inv: "gw_inv lib g" and run: "mgmt_queue_push lib e req_id a ttl data g = (out, g')"
  shows "gw_inv lib g'"
proof (cases "gw_find lib a g")
  case None
  with run inv show ?thesis by (simp add: mgmt_queue_push_def)
next
  case (Some r)
  let ?ttl = "if ttl = 0 then DEFAULT_TTL_S else ttl"
  obtain res q where p: "q_push a ?ttl data (me_now_ms e) (gw_queue g) = (res, q)" by fastforce
  note C = gw_invD(1) [OF inv] and D = gw_coreD [OF gw_invD(1) [OF inv]]
  show ?thesis
  proof (cases res)
    case (Inl er)
    then have "q = gw_queue g" using p push_refused by blast
    then have "g\<lparr>gw_queue := q\<rparr> = g" by simp
    with run Some p Inl inv show ?thesis by (auto simp: mgmt_queue_push_def split: push_error.splits)
  next
    case (Inr i)
    note P = push_items [OF D(8) p [unfolded Inr]]
    have "gw_core lib ({} \<union> {a}) {} (g\<lparr>gw_queue := q\<rparr>)"
      using P Some D(11) by (intro core_queue [OF C]) (auto simp: expected_def)
    from core_pending_to [OF this, of True a] P(2) [of a]
    have "gw_core lib {} {} (snd (gw_do (set_pending a True) (g\<lparr>gw_queue := q\<rparr>)))" by simp
    moreover have "gw_count lib (snd (gw_do (set_pending a True) (g\<lparr>gw_queue := q\<rparr>))) = gw_count lib g"
      by (simp add: gw_do_net gw_count_def set_pending_def set_peer_def split: option.splits)
    ultimately show ?thesis
      using run Some p Inr gw_invD(2) [OF inv] counted_note(2) [of "snd (gw_do (set_pending a True) (g\<lparr>gw_queue := q\<rparr>))" lib]
      by (auto simp: mgmt_queue_push_def gw_inv_def counted_def gw_do_net)
  qed
qed

lemma queue_drop_inv:
  assumes inv: "gw_inv lib g" and run: "mgmt_queue_drop req_id a item g = (out, g')"
  shows "gw_inv lib g'"
proof -
  note C = gw_invD(1) [OF inv] and D = gw_coreD [OF gw_invD(1) [OF inv]]
  let ?q = "gw_queue g"
  obtain dropped q where dq: "(case item of
       Some i \<Rightarrow> if map_option it_node (find (\<lambda>it. it_id it = i) (q_items ?q)) = Some a then (1, snd (q_pop i ?q)) else (0, ?q)
     | None \<Rightarrow> q_drop_node a ?q) = (dropped, q)" by fastforce
  have "ids_ok q \<and> set (q_items q) \<subseteq> set (q_items ?q) \<and>
      (\<forall>x. x \<noteq> a \<longrightarrow> (x \<in> it_node ` set (q_items q) \<longleftrightarrow> x \<in> it_node ` set (q_items ?q)))"
  proof (cases item)
    case None
    then have "q = ?q\<lparr>q_slots := clear_where (\<lambda>it. it_node it = a) (q_slots ?q)\<rparr>" using dq by (auto simp: q_drop_node_def)
    from clear_items [OF D(8) this] show ?thesis by auto
  next
    case (Some i)
    show ?thesis
    proof (cases "map_option it_node (find (\<lambda>it. it_id it = i) (q_items ?q)) = Some a")
      case True
      then obtain it where f: "find (\<lambda>it. it_id it = i) (q_items ?q) = Some it" "it_node it = a" by auto
      then have it: "it \<in> set (q_items ?q)" "it_id it = i" by (auto simp: find_Some_iff)
      have "q = snd (q_pop i ?q)" using dq Some True by simp
      with pop_others [OF D(8) it(1)] pop_items [OF D(8), of i] it(2) f(2) show ?thesis by auto
    next
      case False
      then have "q = ?q" using dq Some by (auto split: if_splits)
      with D(8) show ?thesis by simp
    qed
  qed
  then have "gw_core lib ({} \<union> {a}) {} (g\<lparr>gw_queue := q\<rparr>)"
    using D(11) by (intro core_queue [OF C]) (auto simp: expected_def)
  from core_pending [OF this, of a] have "gw_core lib {} {} (note_pending a (g\<lparr>gw_queue := q\<rparr>))" by simp
  moreover have "g' = note_queued (note_pending a (g\<lparr>gw_queue := q\<rparr>))" using run dq by (auto simp: mgmt_queue_drop_def Let_def split: prod.splits)
  moreover have "gw_count lib (g\<lparr>gw_queue := q\<rparr>) = gw_count lib g" by (simp add: gw_count_def)
  ultimately show ?thesis
    using gw_invD(2) [OF inv] counted_note(2) [of "note_pending a (g\<lparr>gw_queue := q\<rparr>)" lib] by (simp add: gw_inv_def counted_def)
qed

lemma gw_inv_fields [simp]:
  "gw_inv lib (g\<lparr>gw_pairing := z\<rparr>) = gw_inv lib g" "gw_inv lib (g\<lparr>gw_period := p\<rparr>) = gw_inv lib g"
  "gw_inv lib (g\<lparr>gw_parked := b\<rparr>) = gw_inv lib g" "gw_inv lib (g\<lparr>gw_park_until := t\<rparr>) = gw_inv lib g"
  "gw_inv lib (g\<lparr>gw_last_policy := u\<rparr>) = gw_inv lib g" "gw_inv lib (g\<lparr>gw_last_hop_stat := u\<rparr>) = gw_inv lib g"
  "gw_inv lib (g\<lparr>gw_last_stat := u\<rparr>) = gw_inv lib g"
  by (simp_all add: gw_inv_def)

lemma handle_mgmt_inv:
  assumes "gw_inv lib g" and "lib_ok lib" and "mgmt_op_wf op" and "handle_mgmt lib e req_id op g = (out, g')"
  shows "gw_inv lib g'"
proof (cases "\<not> gw_writable g \<and> is_join_op op")
  case True
  with assms show ?thesis by (simp add: handle_mgmt_def)
next
  case False
  then have run: "mgmt_serve lib e req_id op g = (out, g')" using assms(4) by (auto simp: handle_mgmt_def split: if_splits)
  have pc: "postcard_ok (gl_pc lib)" using assms(2) by (simp add: lib_ok_def)
  note inv = assms(1)
  show ?thesis
  proof (cases op)
    case (NodeAdd a key name flags txf rxf)
    then show ?thesis using node_add_inv [OF inv pc] assms(3) run by simp
  next
    case (NodeRemove a)
    then show ?thesis using node_remove_inv [OF inv pc] run by simp
  next
    case (NodeUpdate a name flags)
    then show ?thesis using node_update_inv [OF inv pc] run by simp
  next
    case (QueuePush a ttl data)
    then show ?thesis using queue_push_inv [OF inv] run by simp
  next
    case (QueueDrop a item)
    then show ?thesis using queue_drop_inv [OF inv] run by simp
  next
    case (PairingOpen window)
    then show ?thesis using inv run by (auto simp: mgmt_pairing_open_def split: if_splits option.splits)
  qed (use inv run in \<open>auto simp: mgmt_pairing_cancel_def\<close>)
qed

section \<open>A turn of the loop\<close>

lemma inv_quiet:
  assumes "gw_inv lib g" and "aside (gw_net g) n" and "quiet (gw_net g) n"
  shows "gw_inv lib (g\<lparr>gw_net := n\<rparr>)" and "gw_find lib x (g\<lparr>gw_net := n\<rparr>) = gw_find lib x g"
  using inv_emit [OF assms(1,2) emits_quiet [OF assms(3)]] by simp_all

lemma turn_policy_inv: "gw_inv lib g \<Longrightarrow> gw_inv lib (turn_policy e g)"
  using inv_quiet(1) [of lib "g\<lparr>gw_last_policy := te_policy e\<rparr>" "set_keyed_join (read_bool_setting SET_KEYED_JOIN True (gw_kv g)) (gw_net g)"]
  by (auto simp: turn_policy_def aside_rules quiet_rules)

lemma turn_requests_inv:
  "gw_inv lib g \<Longrightarrow> lib_ok lib \<Longrightarrow> turn_requests lib fs g = (out, g') \<Longrightarrow> gw_inv lib g'"
proof (induction fs arbitrary: g out)
  case (Cons f fs)
  show ?case
  proof (cases "request_of lib (fst f)")
    case None
    with Cons show ?thesis by simp
  next
    case (Some x)
    obtain req_id op where x: "x = (req_id, op)" by fastforce
    obtain out1 g1 where h: "handle_mgmt lib (snd f) req_id op g = (out1, g1)" by fastforce
    have "mgmt_op_wf op" using Some x Cons.prems(2) by (auto simp: request_of_def lib_ok_def split: sum.splits prod.splits msg_type.splits)
    from handle_mgmt_inv [OF Cons.prems(1,2) this h] Cons.IH [of g1] Cons.prems(2,3) Some x h show ?thesis
      by (auto split: prod.splits)
  qed
qed simp

lemma turn_park_inv:
  assumes "gw_inv lib g"
  shows "gw_inv lib (turn_park e g)" and "gw_find lib x (turn_park e g) = gw_find lib x g" and "gw_addr (turn_park e g) = gw_addr g"
  using assms inv_quiet [OF assms, of "fhss_suspend (te_tuned e) Us915 (gw_net g)"]
  by (auto simp: turn_park_def aside_rules quiet_rules gw_find_def)

lemma joined_peer:
  assumes "open_pairing C enc now span ts h n = (Some pp, air, h', n')" and "crypto_ok C"
  shows "peer_addr_valid (pp_addr pp) (nt_addr n)" and "length (pp_key pp) = 16"
proof -
  from assms(1) have "host_paired C enc h ts n pp"
    by (auto simp: open_pairing_def dest!: open_pairing_loop_done [where pp = pp] split: option.splits if_splits)
  then obtain e_node n_node own eph s where "peer_addr_valid (pp_addr pp) (nt_addr n)" and
    s: "ephemeral_session C e_node n_node RoleGateway (pp_addr pp) own eph = Some s" "pp_key pp = se_link_key s"
    by (auto simp: host_paired_def host_turn_paired_def)
  then show "peer_addr_valid (pp_addr pp) (nt_addr n)" "length (pp_key pp) = 16"
    using ephemeral_session_facts(1) [OF assms(2) s(1)] by (simp_all add: LINK_KEY_LEN_def)
qed

text \<open>Over-the-air pairing only adds: a registered node keeps its record, its key above all.\<close>

lemma turn_pairing_step:
  assumes inv: "gw_inv lib g" and lib: "lib_ok lib" and run: "turn_pairing lib e z g = (out, air, g')"
  shows "gw_inv lib g'" and "gw_find lib x g = Some r \<Longrightarrow> gw_find lib x g' = Some r"
proof -
  let ?g = "turn_park e g"
  note P = turn_park_inv [OF inv, where e = e]
  have "gw_inv lib g' \<and> (gw_find lib x g = Some r \<longrightarrow> gw_find lib x g' = Some r)"
  proof (cases "REG_CAPACITY \<le> gw_count lib ?g \<or> ph_window_end (pz_host z) \<le> te_window_now e")
    case True
    then have "g' = ?g\<lparr>gw_pairing := None\<rparr>" using run by (auto simp: turn_pairing_def Let_def split: if_splits)
    with P(1) P(2) [of x] show ?thesis by (simp add: gw_find_def)
  next
    case False
    obtain joined air1 h n where o: "open_pairing (gl_crypto lib) (gl_enc lib) (te_slice_now e) PAIR_SLICE (te_turns e) (pz_host z) (gw_net ?g) = (joined, air1, h, n)"
      by (metis prod.exhaust)
    have i1: "gw_inv lib (?g\<lparr>gw_net := n\<rparr>)" "gw_find lib y (?g\<lparr>gw_net := n\<rparr>) = gw_find lib y g" for y
      using inv_emit [OF P(1) aside_open_pairing [OF o] emits_open_pairing [OF o]] P(2) by simp_all
    show ?thesis
    proof (cases joined)
      case None
      then have "g' = ?g\<lparr>gw_net := n, gw_pairing := Some (z\<lparr>pz_host := h\<rparr>)\<rparr>" using run False o by (auto simp: turn_pairing_def Let_def)
      with i1 show ?thesis by (simp add: gw_find_def)
    next
      case (Some peer)
      let ?g1 = "?g\<lparr>gw_net := n, gw_pairing := None\<rparr>"
      obtain out2 g2 where c: "commit_pairing lib peer (pz_req z) ?g1 = (out2, g2)" by fastforce
      have g': "g' = g2 \<or> g' = g2\<lparr>gw_park_until := Some (te_commit_now e + COMMIT_GRACE)\<rparr>"
        using run False o Some c by (auto simp: turn_pairing_def Let_def split: if_splits)
      have lo: "postcard_ok (gl_pc lib)" "crypto_ok (gl_crypto lib)" using lib by (simp_all add: lib_ok_def)
      note J = joined_peer [OF o [unfolded Some] lo(2)]
      have "nt_addr (gw_net ?g) = gw_addr ?g" using gw_coreD(4) [OF gw_invD(1) [OF P(1)]] .
      with J have J': "peer_addr_valid (pp_addr peer) (gw_addr ?g1)" "length (pp_key peer) = 16" by simp_all
      have ig: "gw_inv lib ?g1" using i1(1) by simp
      note S = commit_pairing_step [OF ig lo(1) J' c]
      have "gw_find lib x ?g1 = gw_find lib x g" using i1(2) [of x] by (simp add: gw_find_def)
      with S(1) S(2) [of x r] g' show ?thesis by (auto simp: gw_find_def)
    qed
  qed
  then show "gw_inv lib g'" "gw_find lib x g = Some r \<Longrightarrow> gw_find lib x g' = Some r" by blast+
qed

lemma serve_uplink_inv:
  assumes inv: "gw_inv lib g" and h: "heard = (m, air0, n)" "aside (gw_net g) n" "\<And>fl. emits fl (gw_net g) air0 n"
    and run: "serve_uplink lib e heard g = (out, air, g')"
  shows "gw_inv lib g'" and "gw_find lib x g' = gw_find lib x g"
proof -
  note I = inv_emit [OF inv h(2,3)]
  have "gw_inv lib g' \<and> gw_find lib x g' = gw_find lib x g"
  proof (cases m)
    case None
    with run h(1) I show ?thesis by (auto simp: serve_uplink_def)
  next
    case (Some rx)
    obtain out1 air1 g1 where u: "on_uplink lib (te_uplink e) (te_now_ms e) rx (g\<lparr>gw_net := n\<rparr>) = (out1, air1, g1)" by (metis prod.exhaust)
    have "sc_nodes (gw_counters (g\<lparr>gw_net := n\<rparr>)) = of_nat (gw_count lib (g\<lparr>gw_net := n\<rparr>))" using gw_invD(2) [OF I(1)] by (simp add: counted_def)
    note U = on_uplink_core [OF gw_invD(1) [OF I(1)] this u]
    have "g' = g1" using run h(1) Some u by (simp add: serve_uplink_def)
    with U I(2) show ?thesis by simp
  qed
  then show "gw_inv lib g'" "gw_find lib x g' = gw_find lib x g" by blast+
qed

lemma recv_slice_step:
  assumes "recv_slice lib e g = (m, air, n)"
  shows "aside (gw_net g) n" and "emits fl (gw_net g) air n"
  using assms aside_recv emits_recv by (auto simp: recv_slice_def split: option.splits)

lemma hop_slot_step:
  assumes "hop_slot lib e g = (m, air, n)"
  shows "aside (gw_net g) n" and "emits fl (gw_net g) air n"
  using assms aside_tick emits_master_tick by (auto simp: hop_slot_def split: prod.splits)

lemma turn_unpark_inv:
  assumes "gw_inv lib g"
  shows "gw_inv lib (turn_unpark g)" and "gw_find lib x (turn_unpark g) = gw_find lib x g"
  using assms inv_quiet [OF assms, of "fhss_resume (gw_net g)"] by (auto simp: turn_unpark_def aside_rules quiet_rules gw_find_def)

lemma turn_radio_inv:
  assumes inv: "gw_inv lib g" and lib: "lib_ok lib" and run: "turn_radio lib e g = (out, air, g')"
  shows "gw_inv lib g'"
proof (cases "gw_pairing g")
  case (Some z)
  with run turn_pairing_step(1) [OF inv lib] show ?thesis by (simp add: turn_radio_def)
next
  case None
  obtain m a n where r: "recv_slice lib e g = (m, a, n)" by (metis prod.exhaust)
  obtain m' a' n' where h: "hop_slot lib e (turn_unpark g) = (m', a', n')" by (metis prod.exhaust)
  note R = serve_uplink_inv(1) [OF inv refl recv_slice_step [OF r]]
    and H = serve_uplink_inv(1) [OF turn_unpark_inv(1) [OF inv] refl hop_slot_step [OF h]]
  show ?thesis using run None R H r h by (auto simp: turn_radio_def Let_def split: if_splits)
qed

definition note_all :: "(u16 \<times> u32) list \<Rightarrow> gateway \<Rightarrow> gateway" where
  "note_all xs g = foldl (\<lambda>g x. note_pending (snd x) g) g xs"

lemma note_all_simps [simp]: "note_all [] g = g" "note_all (x # xs) g = note_all xs (note_pending (snd x) g)"
  by (simp_all add: note_all_def)

lemma core_note_all: "gw_core lib X Y g \<Longrightarrow> gw_core lib (X - set (map snd xs)) Y (note_all xs g)"
proof (induction xs arbitrary: g X)
  case (Cons x xs)
  have "X - {snd x} - set (map snd xs) = X - set (map snd (x # xs))" by auto
  with Cons.IH [OF core_pending [OF Cons.prems, of "snd x"]] show ?case by (simp only: note_all_simps)
qed simp

lemma note_all_keeps [simp]:
  "gw_queue (note_all xs g) = gw_queue g" "gw_counters (note_all xs g) = gw_counters g" "gw_count lib (note_all xs g) = gw_count lib g"
  by (induction xs arbitrary: g) simp_all

lemma turn_expire_inv:
  assumes inv: "gw_inv lib g" and run: "turn_expire e g = (out, g')"
  shows "gw_inv lib g'"
proof -
  note C = gw_invD(1) [OF inv] and D = gw_coreD [OF gw_invD(1) [OF inv]]
  let ?P = "\<lambda>it. it_expired it (te_now_ms e)"
  define q where "q = (gw_queue g)\<lparr>q_slots := clear_where ?P (q_slots (gw_queue g))\<rparr>"
  define xs where "xs = map (\<lambda>it. (it_id it, it_node it)) (filter ?P (q_items (gw_queue g)))"
  define g1 where "g1 = note_all xs (g\<lparr>gw_queue := q\<rparr>)"
  have g': "g' = (if xs = [] then g1 else note_queued g1)" using run by (auto simp: turn_expire_def q_expire_def Let_def g1_def xs_def q_def note_all_def)
  note Q = clear_items [OF D(8) q_def]
  have sub: "a \<in> it_node ` set (q_items q) \<Longrightarrow> a \<in> it_node ` set (q_items (gw_queue g))" for a using Q(1) by auto
  have out: "a \<in> it_node ` set (q_items q) \<longleftrightarrow> a \<in> it_node ` set (q_items (gw_queue g))" if "a \<notin> set (map snd xs)" for a
    using that Q(1) by (auto simp: xs_def image_iff)
  have "gw_core lib ({} \<union> set (map snd xs)) {} (g\<lparr>gw_queue := q\<rparr>)"
    using core_queue [OF C Q(2) out, of "set (map snd xs)"] D(11) sub by (simp add: expected_def)
  from core_note_all [OF this, of xs] have c1: "gw_core lib {} {} g1" by (simp add: g1_def)
  have cnt: "gw_count lib g1 = gw_count lib g" "gw_queue g1 = q" "gw_counters g1 = gw_counters g"
    by (simp_all add: g1_def) (simp add: gw_count_def)
  have same: "q_len q = q_len (gw_queue g)" if "xs = []"
  proof -
    have "filter (\<lambda>it. \<not> ?P it) (q_items (gw_queue g)) = q_items (gw_queue g)" using that by (auto simp: xs_def filter_empty_conv intro: filter_True)
    then show ?thesis using Q(1) by (simp add: q_len_def)
  qed
  show ?thesis
  proof (cases "xs = []")
    case True
    then show ?thesis using g' c1 cnt same gw_invD(2) [OF inv] by (simp add: gw_inv_def counted_def)
  next
    case False
    then show ?thesis using g' c1 cnt gw_invD(2) [OF inv] counted_note(2) [of g1 lib] by (simp add: gw_inv_def counted_def)
  qed
qed

lemma turn_stat_inv: "gw_inv lib g \<Longrightarrow> turn_stat e g = (out, g') \<Longrightarrow> gw_inv lib g'"
  by (auto simp: turn_stat_def split: if_splits option.splits)

lemma turn_hop_stat_inv: "gw_inv lib g \<Longrightarrow> gw_inv lib (turn_hop_stat e g)"
  by (simp add: turn_hop_stat_def Let_def gw_inv_def counted_def gw_count_def)

lemma gw_turn_inv:
  assumes inv: "gw_inv lib g" and lib: "lib_ok lib" and run: "gw_turn lib e g = (out, air, g')"
  shows "gw_inv lib g'"
proof -
  obtain out1 g1 where r1: "turn_requests lib (take 2 (te_frames e)) (turn_policy e g) = (out1, g1)" by fastforce
  obtain out2 air2 g2 where r2: "turn_radio lib e g1 = (out2, air2, g2)" by (metis prod.exhaust)
  define g3 where "g3 = turn_hop_stat e (snd (gw_do take_keyed_join g2))"
  obtain out3 g4 where r3: "turn_expire e g3 = (out3, g4)" by fastforce
  obtain out4 g5 where r4: "turn_stat e g4 = (out4, g5)" by fastforce
  have "gw_inv lib g2" using turn_radio_inv [OF turn_requests_inv [OF turn_policy_inv [OF inv] lib r1] lib r2] .
  then have "gw_inv lib (snd (gw_do take_keyed_join g2))"
    using inv_quiet(1) [of lib g2 "snd (take_keyed_join (gw_net g2))"] by (simp add: gw_do_net aside_rules quiet_rules)
  then have "gw_inv lib g5" using turn_stat_inv [OF turn_expire_inv [OF turn_hop_stat_inv r3 [unfolded g3_def]] r4] by blast
  then show ?thesis using run r1 r2 r3 r4 by (simp add: gw_turn_def Let_def g3_def)
qed

end
