(* ===== verification/Gw_Boot.thy ===== *)
theory Gw_Boot
  imports Gw_Life
begin

text \<open>
  The gateway's boot: the format guard leaves the buckets as they are, and the loop that installs every
  registered node brings the peer table in step with the registry. Boots, turns of the loop and other users
  of the store are then the steps of a gateway over its life.
\<close>

section \<open>Installing the registry\<close>

lemma add_peer_app:
  assumes "nv_ok (nt_kv n)"
  shows "same_app (nt_kv n) (nt_kv (snd (add_peer enc a key n)))"
proof -
  have "nt_kv (snd (add_peer enc a key n)) = nt_kv n \<or> (\<exists>l v. nt_kv (snd (add_peer enc a key n)) = snd (net_set l v (nt_kv n)))"
    by (auto simp: add_peer_def Let_def set_peer_def split: option.splits prod.splits if_splits) (metis snd_conv)+
  with assms net_set_same_app show ?thesis by auto
qed

lemma install_nodes_simps [simp]:
  "install_nodes lib [] n = n" "install_nodes lib (r # rs) n = install_nodes lib rs (snd (add_peer (gl_enc lib) (nr_addr r) (nr_key r) n))"
  "install_nodes lib (xs @ ys) n = install_nodes lib ys (install_nodes lib xs n)"
  by (simp_all add: install_nodes_def)

lemma install_nodes_app: "nv_ok (nt_kv n) \<Longrightarrow> same_app (nt_kv n) (nt_kv (install_nodes lib rs n))"
proof (induction rs arbitrary: n)
  case (Cons r rs)
  note A = add_peer_app [OF Cons.prems, of "gl_enc lib" "nr_addr r" "nr_key r"]
  then have "nv_ok (nt_kv (snd (add_peer (gl_enc lib) (nr_addr r) (nr_key r) n)))" by (simp add: same_app_def)
  from same_app_trans [OF A Cons.IH [OF this]] show ?case by simp
qed simp

lemma install_buckets_nodes:
  assumes "nv_ok (nt_kv n)"
  shows "install_buckets lib is n =
     (length (concat (map (\<lambda>i. reg_load (gl_pc lib) (eeprom_io True) i (nt_kv n)) is)),
      install_nodes lib (concat (map (\<lambda>i. reg_load (gl_pc lib) (eeprom_io True) i (nt_kv n)) is)) n)"
  using assms
proof (induction "is" arbitrary: n)
  case (Cons i "is")
  let ?b = "reg_load (gl_pc lib) (eeprom_io True) i (nt_kv n)"
  note A = install_nodes_app [OF Cons.prems, of lib ?b]
  have ok: "nv_ok (nt_kv (install_nodes lib ?b n))" using A by (simp add: same_app_def)
  have "reg_load (gl_pc lib) (eeprom_io True) j (nt_kv (install_nodes lib ?b n)) = reg_load (gl_pc lib) (eeprom_io True) j (nt_kv n)" for j
    by (rule same_app_reg(1) [OF Cons.prems A])
  then show ?case using Cons.IH [OF ok] by (simp add: Let_def)
qed simp

lemma install_nodes_table:
  assumes "alive n" and "dom (table n) \<union> nr_addr ` set rs \<subseteq> D" and "finite D" and "card D \<le> MAX_PEERS" and "distinct (map nr_addr rs)"
    and "\<And>a k f. table n a = Some (k, f) \<Longrightarrow> \<not> f"
  shows "alive (install_nodes lib rs n) \<and> nt_addr (install_nodes lib rs n) = nt_addr n \<and>
     nt_default_lane_enabled (install_nodes lib rs n) = nt_default_lane_enabled n \<and>
     table (install_nodes lib rs n) =
       (\<lambda>a. case find (\<lambda>r. nr_addr r = a) rs of
          Some r \<Rightarrow> if peer_addr_valid a (nt_addr n) then Some (nr_key r, False) else table n a | None \<Rightarrow> table n a)"
  using assms
proof (induction rs arbitrary: n)
  case (Cons r rs)
  let ?a = "nr_addr r" and ?n = "snd (add_peer (gl_enc lib) (nr_addr r) (nr_key r) n)"
  have out: "find (\<lambda>q. nr_addr q = ?a) rs = None" using Cons.prems(5) by (auto simp: find_addr_None)
  show ?case
  proof (cases "peer_addr_valid ?a (nt_addr n)")
    case False
    then have n': "?n = n" by (simp add: add_peer_def)
    have "dom (table n) \<union> nr_addr ` set rs \<subseteq> D" using Cons.prems(2) by auto
    from Cons.IH [OF Cons.prems(1) this Cons.prems(3,4) _ Cons.prems(6)] Cons.prems(5) n' False out show ?thesis
      by (auto simp: fun_eq_iff split: option.splits)
  next
    case True
    have "insert ?a (dom (table n)) \<subseteq> D" using Cons.prems(2) by auto
    note A = add_peer_table [OF alive_ok(1) [OF Cons.prems(1)] True this Cons.prems(3,4), of "gl_enc lib" "nr_key r"]
    have "(case table n ?a of None \<Rightarrow> False | Some k \<Rightarrow> snd k) = False" using Cons.prems(6) [of ?a] by (auto split: option.splits)
    with A(2) have t: "table ?n = (table n)(?a \<mapsto> (nr_key r, False))" by simp
    have al: "alive ?n" using quiet_alive [OF quiet_add_peer Cons.prems(1)] .
    have d: "dom (table ?n) \<union> nr_addr ` set rs \<subseteq> D" using Cons.prems(2) t by auto
    have "\<not> f" if "table ?n a = Some (k, f)" for a k f using that t Cons.prems(6) [of a k f] by (auto split: if_splits)
    from Cons.IH [OF al d Cons.prems(3,4) _ this] Cons.prems(5) A(3) t True out show ?thesis
      by (auto simp: fun_eq_iff split: option.splits)
  qed
qed simp

section \<open>Boot\<close>

text \<open>A store the gateway can start from: the registry in it, if it is this format's, reads well.\<close>

definition store_ok :: "gw_lib \<Rightarrow> nv \<Rightarrow> bool" where
  "store_ok lib kv \<longleftrightarrow> nv_ok kv \<and> reg_inv (gl_pc lib) (eeprom_io (\<not> format_foreign kv)) kv"

lemma reg_inv_buckets:
  assumes "nv_ok s" and "nv_ok s'" and "\<And>i. i < BUCKETS \<Longrightarrow> app_abs s' (KEY_BUCKET_BASE + of_nat i) = app_abs s (KEY_BUCKET_BASE + of_nat i)"
  shows "reg_inv pc (eeprom_io w) s' = reg_inv pc (eeprom_io w) s"
proof -
  have c: "reg_load_checked pc (eeprom_io w) i s' = reg_load_checked pc (eeprom_io w) i s" if "i < BUCKETS" for i
    using assms that by (simp add: reg_load_checked_def eeprom_load)
  then have "reg_buckets pc (eeprom_io w) s' = reg_buckets pc (eeprom_io w) s" by (simp add: reg_buckets_def reg_load_def)
  with c show ?thesis by (simp add: reg_inv_def reg_nodes_def)
qed

lemma format_guard_step:
  assumes ok: "store_ok lib kv0" and run: "format_guard kv0 = (foreign, kv)"
  shows "nv_ok kv" and "format_foreign kv = foreign" and "reg_inv (gl_pc lib) (eeprom_io (\<not> foreign)) kv"
proof -
  have nv: "nv_ok kv0" and inv: "reg_inv (gl_pc lib) (eeprom_io (\<not> format_foreign kv0)) kv0" using ok by (simp_all add: store_ok_def)
  have f0: "format_foreign kv0 = foreign" using run by (simp add: format_foreign_def)
  consider "kv = kv0" | "\<not> foreign" "kv = snd (scoped_set_bytes NS_APP KEY_FORMAT [REG_FORMAT] kv0)"
    using run by (auto simp: format_guard_def split: sum.splits if_splits)
  then have "nv_ok kv \<and> format_foreign kv = foreign \<and> reg_inv (gl_pc lib) (eeprom_io (\<not> foreign)) kv"
  proof cases
    case 1
    with nv inv f0 show ?thesis by simp
  next
    case 2
    obtain r where "scoped_set_bytes NS_APP KEY_FORMAT [REG_FORMAT] kv0 = (r, kv)" using 2(2) by (metis prod.collapse)
    note S = scoped_set_post [OF nv this]
    have "app_abs kv (KEY_BUCKET_BASE + of_nat i) = app_abs kv0 (KEY_BUCKET_BASE + of_nat i)" if "i < BUCKETS" for i
      using S(2) [of NS_APP "KEY_BUCKET_BASE + of_nat i"] bucket_key_format [OF that] by auto
    from reg_inv_buckets [OF nv S(1) this] inv f0 have "reg_inv (gl_pc lib) (eeprom_io (\<not> foreign)) kv" by simp
    moreover have "app_abs kv KEY_FORMAT = Some [REG_FORMAT] \<or> app_abs kv KEY_FORMAT = app_abs kv0 KEY_FORMAT"
      using S(2) [of NS_APP KEY_FORMAT] by auto
    then have "format_foreign kv = foreign" using format_foreign_abs [OF S(1)] format_foreign_abs [OF nv] f0 2(1) by auto
    ultimately show ?thesis using S(1) by simp
  qed
  then show "nv_ok kv" "format_foreign kv = foreign" "reg_inv (gl_pc lib) (eeprom_io (\<not> foreign)) kv" by simp_all
qed

lemma net_new_same: "nv_ok kv \<Longrightarrow> same_in S kv (nt_kv (net_new cfg kv))"
proof -
  assume "nv_ok kv"
  moreover have "nt_kv (net_new cfg kv) = kv \<or> (\<exists>l v. nt_kv (net_new cfg kv) = snd (net_set l v kv))"
    by (auto simp: net_new_def Let_def boot_counter_def persist_watermark_def split: prod.splits option.splits) (metis snd_conv)+
  ultimately show ?thesis using net_set_same_app by auto
qed

lemma net_new_boot:
  assumes "nv_ok kv"
  shows "alive (net_new cfg kv)" and "table (net_new cfg kv) = Map.empty" and "nt_addr (net_new cfg kv) = nc_addr cfg"
    and "same_app kv (nt_kv (net_new cfg kv))"
proof -
  show "alive (net_new cfg kv)" using first_boot [OF assms] by (auto simp: alive_def)
  show "table (net_new cfg kv) = Map.empty"
    by (rule ext) (simp add: table_ids peer_ids_def net_new_def Let_def List.map_filter_def split: prod.splits)
  show "nt_addr (net_new cfg kv) = nc_addr cfg" by (simp add: net_new_def Let_def split: prod.splits)
  show "same_app kv (nt_kv (net_new cfg kv))" using net_new_same [OF assms] .
qed

lemma boot_net_step:
  assumes nv: "nv_ok kv" and inv: "reg_inv (gl_pc lib) (eeprom_io (\<not> foreign)) kv" and run: "boot_net lib foreign addr band kv = (nodes, n)"
  shows "alive n" and "nt_addr n = addr" and "\<not> nt_default_lane_enabled n" and "same_app kv (nt_kv n)"
    and "nodes = reg_count (gl_pc lib) (eeprom_io (\<not> foreign)) kv"
    and "table n = (\<lambda>a. if peer_addr_valid a addr then map_option (\<lambda>r. (nr_key r, False)) (reg_abs (gl_pc lib) (eeprom_io (\<not> foreign)) kv a) else None)"
proof -
  define cfg where "cfg = \<lparr>nc_addr = addr, nc_key = gateway_network_key addr, nc_band = band,
      nc_keys_stored = (foreign \<or> 0 < reg_count (gl_pc lib) (eeprom_io (\<not> foreign)) kv)\<rparr>"
  note N = net_new_boot [OF nv, of cfg]
  define n1 where "n1 = set_default_lane False (net_new cfg kv)"
  define n2 where "n2 = set_keyed_join (read_bool_setting SET_KEYED_JOIN True (nt_kv n1)) n1"
  have k: "nt_kv n2 = nt_kv (net_new cfg kv)" "nt_addr n2 = addr" "\<not> nt_default_lane_enabled n2" "table n2 = Map.empty"
    using N(2,3) by (simp_all add: n1_def n2_def set_default_lane_def set_keyed_join_def cfg_def table_ids peer_ids_def fun_eq_iff)
  have q: "quiet (net_new cfg kv) n2" by (rule quiet_fields) (simp_all add: n1_def n2_def set_default_lane_def set_keyed_join_def)
  have a2: "alive n2" using quiet_alive [OF q N(1)] .
  have sa: "same_app kv (nt_kv n2)" using N(4) k(1) by simp
  have nv2: "nv_ok (nt_kv n2)" using sa by (simp add: same_app_def)
  have run': "(if foreign then (0, n2) else install_buckets lib [0..<BUCKETS] n2) = (nodes, n)"
    using run unfolding boot_net_def Let_def n2_def n1_def cfg_def .
  have "alive n \<and> nt_addr n = addr \<and> \<not> nt_default_lane_enabled n \<and> same_app kv (nt_kv n) \<and>
     nodes = reg_count (gl_pc lib) (eeprom_io (\<not> foreign)) kv \<and>
     table n = (\<lambda>a. if peer_addr_valid a addr then map_option (\<lambda>r. (nr_key r, False)) (reg_abs (gl_pc lib) (eeprom_io (\<not> foreign)) kv a) else None)"
  proof (cases foreign)
    case True
    have "reg_load (gl_pc lib) (eeprom_io False) i kv = []" for i by (simp add: reg_load_def reg_load_checked_def eeprom_io_def)
    then have "reg_nodes (gl_pc lib) (eeprom_io False) kv = []" by (simp add: reg_nodes_def reg_buckets_def)
    with True run' a2 k sa show ?thesis by (auto simp: reg_count_nodes reg_abs_fun fun_eq_iff)
  next
    case False
    let ?rs = "reg_nodes (gl_pc lib) (eeprom_io True) kv"
    have "reg_load (gl_pc lib) (eeprom_io True) i (nt_kv n2) = reg_load (gl_pc lib) (eeprom_io True) i kv" for i by (rule same_app_reg(1) [OF nv sa])
    then have "install_buckets lib [0..<BUCKETS] n2 = (length ?rs, install_nodes lib ?rs n2)"
      using install_buckets_nodes [OF nv2, of lib "[0..<BUCKETS]"] by (simp add: reg_nodes_def reg_buckets_def)
    then have n: "nodes = length ?rs" "n = install_nodes lib ?rs n2" using run' False by simp_all
    have inv': "distinct (map nr_addr ?rs)" "length ?rs \<le> REG_CAPACITY" using inv False by (simp_all add: reg_inv_def)
    have D: "dom (table n2) \<union> nr_addr ` set ?rs \<subseteq> nr_addr ` set ?rs" using k(4) by simp
    have c: "card (nr_addr ` set ?rs) \<le> MAX_PEERS"
      using inv' distinct_card [OF inv'(1)] by (simp add: REG_CAPACITY_def MAX_PEERS_def)
    from install_nodes_table [OF a2 D _ c inv'(1), of lib] k sa n same_app_trans [OF sa install_nodes_app [OF nv2, of lib ?rs]] False show ?thesis
      by (auto simp: reg_count_nodes reg_abs_fun fun_eq_iff split: option.splits)
  qed
  then show "alive n" "nt_addr n = addr" "\<not> nt_default_lane_enabled n" "same_app kv (nt_kv n)"
    "nodes = reg_count (gl_pc lib) (eeprom_io (\<not> foreign)) kv"
    "table n = (\<lambda>a. if peer_addr_valid a addr then map_option (\<lambda>r. (nr_key r, False)) (reg_abs (gl_pc lib) (eeprom_io (\<not> foreign)) kv a) else None)"
    by blast+
qed

lemma gw_boot_inv:
  assumes ok: "store_ok lib kv0" and run: "gw_boot lib e kv0 = Inr g"
  shows "gw_inv lib g"
proof -
  obtain foreign kv where fg: "format_guard kv0 = (foreign, kv)" by fastforce
  note F = format_guard_step [OF ok fg]
  from run fg obtain band where band: "read_band_setting kv = Some band" by (auto simp: gw_boot_def Let_def split: option.splits)
  obtain nodes n where bn: "boot_net lib foreign (radio_addr lib kv0) band kv = (nodes, n)" by fastforce
  note B = boot_net_step [OF F(1,3) bn]
  let ?n = "if band = Us915 then enable_fhss FhssMaster \<lparr>fc_seed = 0, fc_network_key = None\<rparr> (be_lse e) n else n"
  have g: "gw_net g = ?n" "gw_addr g = radio_addr lib kv0" "gw_writable g = (\<not> foreign)" "gw_queue g = queue_new"
    "sc_nodes (gw_counters g) = of_nat nodes" "sc_queued (gw_counters g) = 0"
    using run fg band bn by (auto simp: gw_boot_def Let_def split: if_splits)
  have a: "aside n ?n" using aside_enable by simp
  have al: "alive ?n" using B(1) quiet_alive [OF quiet_enable_fhss B(1)] by simp
  have sa: "same_app kv (nt_kv ?n)" using a B(4) by (auto simp: aside_def same_app_def)
  note R = same_app_reg [OF F(1) sa, of "gl_pc lib" "\<not> foreign"]
  have nv: "nv_ok (nt_kv ?n)" using sa by (simp add: same_app_def)
  have find: "gw_find lib x g = reg_abs (gl_pc lib) (eeprom_io (\<not> foreign)) kv x" for x using R(2) g by (simp add: gw_find_abs)
  have t: "table (gw_net g) = table n" using table_aside [OF a] g(1) by simp
  have "mirrored lib g x \<and> expected lib g x \<and> flagged g x" for x
    using ids_ok_new(2) by (auto simp: mirrored_def expected_def flagged_def t B(6) find g(2-6) option.map_comp comp_def)
  moreover have "format_foreign (nt_kv ?n) = foreign"
    using F(2) format_foreign_abs [OF nv] format_foreign_abs [OF F(1)] sa by (simp add: same_app_def)
  moreover have "nt_addr ?n = radio_addr lib kv0 \<and> \<not> nt_default_lane_enabled ?n" using a B(2,3) by (auto simp: aside_def)
  ultimately have "gw_core lib {} {} g" using al R(3) F(3) ids_ok_new(1) by (simp add: gw_core_def g)
  moreover have "counted lib g" using R(4) B(5) ids_ok_new(2) by (simp add: counted_def gw_count_def g q_len_def)
  ultimately show ?thesis by (simp add: gw_inv_def)
qed

section \<open>A life\<close>

text \<open>Other users of the store (settings, crash records, maintenance) write under their own keys.\<close>

fun other_user :: "fw_op \<Rightarrow> bool" where
  "other_user (OpSet key v) = (key \<noteq> WM_KEY \<and> (\<forall>l. key \<noteq> ns_key NS_APP l))"
| "other_user (OpDelete key) = (key \<noteq> WM_KEY \<and> (\<forall>l. key \<noteq> ns_key NS_APP l))"
| "other_user _ = True"

text \<open>A device is down (its store is all there is) or up. A turn of the loop, a call of another user, and a
  reset: power is lost, perhaps inside a word program, the store is mounted again and the application boots.\<close>

fun store_of :: "nv + gateway \<Rightarrow> nv" where
  "store_of (Inl kv) = kv"
| "store_of (Inr g) = gw_kv g"

inductive gw_step :: "gw_lib \<Rightarrow> nv + gateway \<Rightarrow> host_msg list \<Rightarrow> nv + gateway \<Rightarrow> bool" for lib where
  turn: "\<not> fw_off (nv_kv (gw_kv g)) \<Longrightarrow> gw_turn lib e g = (out, air, g') \<Longrightarrow> gw_step lib (Inr g) out (Inr g')"
| other: "\<not> fw_off (nv_kv (gw_kv g)) \<Longrightarrow> other_user c \<Longrightarrow>
    gw_step lib (Inr g) [] (Inr (g\<lparr>gw_net := store_call c (gw_net g)\<rparr>))"
| reset: "clean_event (PowerCycle pc) \<Longrightarrow> kv = \<lparr>nv_kv = fw_cycle pc (nv_kv (store_of st)), nv_wake = False\<rparr> \<Longrightarrow>
    gw_boot lib e kv = Inr g \<Longrightarrow> gw_step lib st [] (Inr g)"
| failed: "clean_event (PowerCycle pc) \<Longrightarrow> kv = \<lparr>nv_kv = fw_cycle pc (nv_kv (store_of st)), nv_wake = False\<rparr> \<Longrightarrow>
    gw_boot lib e kv = Inl (f, kv') \<Longrightarrow> gw_step lib st [] (Inl kv')"

inductive gw_life :: "gw_lib \<Rightarrow> nv + gateway \<Rightarrow> host_msg list \<Rightarrow> nv + gateway \<Rightarrow> bool" for lib where
  start: "gw_life lib st [] st"
| step: "gw_life lib st out st1 \<Longrightarrow> gw_step lib st1 out' st2 \<Longrightarrow> gw_life lib st (out @ out') st2"

inductive_cases gw_step_up: "gw_step lib (Inr g) out (Inr g')"

definition state_ok :: "gw_lib \<Rightarrow> nv + gateway \<Rightarrow> bool" where
  "state_ok lib st = (case st of Inl kv \<Rightarrow> store_ok lib kv | Inr g \<Rightarrow> gw_inv lib g)"

lemma state_store: "state_ok lib st \<Longrightarrow> store_ok lib (store_of st)"
proof (cases st)
  case (Inr g)
  assume "state_ok lib st"
  with Inr have "gw_inv lib g" by (simp add: state_ok_def)
  with gw_coreD [OF gw_invD(1) [OF this]] Inr show ?thesis by (simp add: store_ok_def)
qed (simp add: state_ok_def)

lemma store_call_aside:
  assumes "other_user c" and "\<not> fw_off (nv_kv (nt_kv n))"
  shows "aside n (store_call c n)" and "quiet n (store_call c n)"
proof -
  obtain ok k where c: "fw_call c (nv_kv (nt_kv n)) = (ok, k)" by fastforce
  have keep: "apply_op c m (ns_key NS_APP l) = m (ns_key NS_APP l)" for m l
    using assms(1) by (cases c) (auto simp: kv_put_def)
  have "same_app (nt_kv n) (nt_kv (store_call c n))" if "nv_ok (nt_kv n)"
    using fw_call_post [OF that assms(2) c] keep c by (auto simp: same_app_def store_call_def)
  then show "aside n (store_call c n)" by (simp add: aside_def store_call_def peer_ids_def)
  have "act_ok (StoreCall c :: unit net_act)" using assms(1) by (cases c) auto
  then show "quiet n (store_call c n)" using quiet_store_call assms(2) by blast
qed

lemma reset_store:
  assumes "store_ok lib kv" and "clean_event (PowerCycle pc)"
  shows "store_ok lib \<lparr>nv_kv = fw_cycle pc (nv_kv kv), nv_wake = False\<rparr>"
proof -
  let ?kv = "\<lparr>nv_kv = fw_cycle pc (nv_kv kv), nv_wake = False\<rparr>"
  have nv: "nv_ok kv" using assms(1) by (simp add: store_ok_def)
  note C = fw_cycle_post [OF nv assms(2)]
  then have sa: "same_app kv ?kv" by (simp add: same_app_def)
  from same_app_reg(3) [OF nv sa] format_foreign_abs [of kv] format_foreign_abs [of ?kv] assms(1) sa show ?thesis
    by (simp add: store_ok_def same_app_def)
qed

lemma failed_boot_store: "store_ok lib kv \<Longrightarrow> gw_boot lib e kv = Inl (f, kv') \<Longrightarrow> store_ok lib kv'"
proof -
  assume ok: "store_ok lib kv" and run: "gw_boot lib e kv = Inl (f, kv')"
  obtain foreign kv1 where fg: "format_guard kv = (foreign, kv1)" by fastforce
  have "kv' = kv1" using run fg by (auto simp: gw_boot_def Let_def split: option.splits if_splits prod.splits)
  with format_guard_step [OF ok fg] show ?thesis by (simp add: store_ok_def)
qed

lemma gw_step_ok:
  assumes "lib_ok lib" and "gw_step lib st out st'" and "state_ok lib st"
  shows "state_ok lib st'"
  using assms(2,3)
proof (cases rule: gw_step.cases)
  case (turn g e air g')
  then show ?thesis using assms(1,3) gw_turn_inv by (auto simp: state_ok_def)
next
  case (other g c)
  then show ?thesis using assms(3) inv_quiet(1) [OF _ store_call_aside] by (auto simp: state_ok_def)
next
  case (reset pc kv e g)
  then show ?thesis using gw_boot_inv [OF reset_store [OF state_store [OF assms(3)]]] by (auto simp: state_ok_def)
next
  case (failed pc kv e f kv')
  then show ?thesis using failed_boot_store [OF reset_store [OF state_store [OF assms(3)]]] by (auto simp: state_ok_def)
qed

lemma gw_life_ok:
  assumes "gw_life lib st out st'" and "lib_ok lib" and "state_ok lib st"
  shows "state_ok lib st'"
  using assms by (induction) (auto intro: gw_step_ok)

lemma gw_life_inv: "gw_life lib (Inl kv) out (Inr g) \<Longrightarrow> lib_ok lib \<Longrightarrow> store_ok lib kv \<Longrightarrow> gw_inv lib g"
  using gw_life_ok [of lib "Inl kv" out "Inr g"] by (simp add: state_ok_def)

end
