(* ===== verification/Gw_Props.thy ===== *)
theory Gw_Props
  imports Gw_Boot Fw_Recv
begin

text \<open>
  What the gateway guarantees its host and its nodes: the registry is a map, the peer table is the registry, an
  uplink comes from a registered node, the radio never changes a registered node, and a chunked reply is the
  record stream it carries.
\<close>

section \<open>A codec to witness with\<close>

text \<open>Records with a fixed part of 22 bytes and the name.\<close>

definition rec_bytes :: "node_record \<Rightarrow> bytes" where
  "rec_bytes r = u32_le (nr_addr r) @ nr_key r @ [nr_flags r, of_nat (length (nr_name r))] @ nr_name r"

primrec bytes_recs :: "nat \<Rightarrow> bytes \<Rightarrow> bucket option" where
  "bytes_recs 0 x = (if x = [] then Some [] else None)"
| "bytes_recs (Suc k) x =
     (let l = unat (x ! 21) in
      if length x < 22 \<or> length x < 22 + l then None
      else map_option ((#) \<lparr>nr_addr = le_u32 (x ! 0) (x ! 1) (x ! 2) (x ! 3), nr_key = take 16 (drop 4 x), nr_flags = x ! 20,
             nr_name = take l (drop 22 x)\<rparr>) (bytes_recs k (drop (22 + l) x)))"

definition demo_pc :: postcard where
  "demo_pc = \<lparr>pc_to_slice = (\<lambda>b. of_nat (length b) # concat (map rec_bytes b)),
     pc_from_bytes = (\<lambda>x. case x of [] \<Rightarrow> None
       | c # y \<Rightarrow> (case bytes_recs (unat c) y of Some b \<Rightarrow> if bucket_wf b then Some b else None | None \<Rightarrow> None))\<rparr>"

lemma rec_bytes_parts:
  assumes "record_wf r"
  shows "length (rec_bytes r) = 22 + length (nr_name r)" and "unat ((rec_bytes r @ y) ! 21) = length (nr_name r)"
    and "bytes_recs (Suc k) (rec_bytes r @ y) = map_option ((#) r) (bytes_recs k y)"
proof -
  have k: "length (nr_key r) = 16" and n: "length (nr_name r) \<le> 16" using assms by (simp_all add: record_wf_def MAX_NAME_def)
  have u: "length (u32_le a) = 4" for a by (simp add: u32_le_def)
  show len: "length (rec_bytes r) = 22 + length (nr_name r)" using k by (simp add: rec_bytes_def u)
  have at: "(rec_bytes r @ y) ! 21 = of_nat (length (nr_name r))" "(rec_bytes r @ y) ! 20 = nr_flags r"
    using k by (simp_all add: rec_bytes_def nth_append u)
  then show l: "unat ((rec_bytes r @ y) ! 21) = length (nr_name r)" using n by (simp add: unat_of_nat)
  have a: "le_u32 ((rec_bytes r @ y) ! 0) ((rec_bytes r @ y) ! 1) ((rec_bytes r @ y) ! 2) ((rec_bytes r @ y) ! 3) = nr_addr r"
    by (simp add: rec_bytes_def u32_le_def)
  have parts: "take 16 (drop 4 (rec_bytes r @ y)) = nr_key r" "take (length (nr_name r)) (drop 22 (rec_bytes r @ y)) = nr_name r"
    "drop (22 + length (nr_name r)) (rec_bytes r @ y) = y"
    using k len by (simp_all add: rec_bytes_def u)
  show "bytes_recs (Suc k) (rec_bytes r @ y) = map_option ((#) r) (bytes_recs k y)"
    using len a parts at(2) by (simp add: Let_def l del: drop_append take_append) (cases r, simp)
qed

lemma bytes_recs_roundtrip: "list_all record_wf b \<Longrightarrow> bytes_recs (length b) (concat (map rec_bytes b)) = Some b"
proof (induction b)
  case (Cons r b)
  then show ?case using rec_bytes_parts(3) [of r "length b" "concat (map rec_bytes b)"] by simp
qed simp

lemma demo_pc_ok: "postcard_ok demo_pc"
  unfolding postcard_ok_def
proof (intro conjI allI impI)
  fix b assume b: "bucket_wf b"
  then have wf: "list_all record_wf b" "length b \<le> 6" by (simp_all add: bucket_wf_def PER_BUCKET_def)
  then show "pc_from_bytes demo_pc (pc_to_slice demo_pc b) = Some b" using b bytes_recs_roundtrip by (simp add: demo_pc_def unat_of_nat)
  show "pc_to_slice demo_pc b \<noteq> []" by (simp add: demo_pc_def)
  have "length (rec_bytes r) \<le> 38" if "r \<in> set b" for r
    using that wf(1) rec_bytes_parts(1) [of r] by (auto simp: list_all_iff record_wf_def MAX_NAME_def)
  then have "length (concat (map rec_bytes b)) \<le> length b * 38"
    by (induction b) (auto simp: add_mono)
  then show "length (pc_to_slice demo_pc b) \<le> MAX_BUCKET_BYTES" using wf(2) by (simp add: demo_pc_def MAX_BUCKET_BYTES_def)
next
  fix x b assume "pc_from_bytes demo_pc x = Some b"
  then show "bucket_wf b" by (auto simp: demo_pc_def split: list.splits option.splits if_splits)
qed

definition demo_node :: node_record where
  "demo_node = \<lparr>nr_addr = 0x22, nr_key = replicate 16 7, nr_flags = 0, nr_name = []\<rparr>"

text \<open>A store with one registered node.\<close>

definition demo_store :: nv where
  "demo_store = snd (scoped_set_bytes NS_APP KEY_BUCKET_BASE (pc_to_slice demo_pc [demo_node]) demo_nv)"

definition demo_lib :: gw_lib where
  "demo_lib = \<lparr>gl_enc = enc_demo, gl_crypto = crypto_demo, gl_pc = demo_pc, gl_ser = (\<lambda>r. []), gl_req = (\<lambda>p. None), gl_tag = 0,
     gl_name = [], gl_version = [], gl_uid = 0x11\<rparr>"

lemma demo_lib_ok: "lib_ok demo_lib"
  by (simp add: lib_ok_def demo_lib_def demo_pc_ok crypto_demo_ok)

section \<open>The registry\<close>

lemma demo_store_facts:
  "nv_ok demo_store" "fw_abs (nv_kv demo_store) (ns_key ns l) = (if ns = NS_APP \<and> l = KEY_BUCKET_BASE then Some (pc_to_slice demo_pc [demo_node]) else None)"
proof -
  let ?v = "pc_to_slice demo_pc [demo_node]"
  have len: "length ?v = 23" by (simp add: demo_pc_def rec_bytes_def demo_node_def u32_le_def)
  have key: "ns_key NS_APP KEY_BUCKET_BASE = 0x6010" by (simp add: ns_key_def NS_APP_def KEY_BUCKET_BASE_def)
  have "fst (fw_set_bytes (ns_key NS_APP KEY_BUCKET_BASE) ?v demo_kv) = Inr ()"
    using arg_cong [OF demo_set_key [of "ns_key NS_APP KEY_BUCKET_BASE" ?v], of fst] key len by simp
  then have s: "scoped_set_bytes NS_APP KEY_BUCKET_BASE ?v demo_nv = (Inr (), demo_store)"
    by (auto simp: demo_store_def scoped_set_bytes_def nv_set_bytes_def demo_nv_def split: prod.splits)
  note P = scoped_set_post [OF demo_nv_ok s]
  show "nv_ok demo_store" by (rule P(1))
  have "?v \<noteq> []" using len by auto
  then show "fw_abs (nv_kv demo_store) (ns_key ns l) = (if ns = NS_APP \<and> l = KEY_BUCKET_BASE then Some ?v else None)"
    using P(2) [of ns l] by (simp add: demo_nv_def demo_kv_abs)
qed

lemma demo_registry:
  "reg_load_checked demo_pc (eeprom_io True) i demo_store = (if (of_nat i :: u8) = 0 then Some [demo_node] else Some [])"
  "reg_nodes demo_pc (eeprom_io True) demo_store = [demo_node]" "reg_inv demo_pc (eeprom_io True) demo_store" "store_ok demo_lib demo_store"
proof -
  let ?v = "pc_to_slice demo_pc [demo_node]"
  have wf: "bucket_wf [demo_node]" by (simp add: bucket_wf_def PER_BUCKET_def record_wf_def demo_node_def MAX_NAME_def)
  then have rt: "pc_from_bytes demo_pc ?v = Some [demo_node]" and len: "length ?v \<le> MAX_BUCKET_BYTES" using demo_pc_ok by (simp_all add: postcard_ok_def)
  show lc: "reg_load_checked demo_pc (eeprom_io True) i demo_store = (if (of_nat i :: u8) = 0 then Some [demo_node] else Some [])" for i
    using rt len by (simp add: reg_load_checked_def eeprom_load [OF demo_store_facts(1)] demo_store_facts(2))
  then have b: "reg_buckets demo_pc (eeprom_io True) demo_store = [[demo_node], [], []]"
    by (simp add: reg_buckets_def reg_load_def BUCKETS_def upt_rec numeral_2_eq_2 numeral_3_eq_3)
  then show n: "reg_nodes demo_pc (eeprom_io True) demo_store = [demo_node]" by (simp add: reg_nodes_def)
  show inv: "reg_inv demo_pc (eeprom_io True) demo_store"
    using wf lc b n by (simp add: reg_inv_def bucket_wf_def REG_CAPACITY_def)
  have "KEY_FORMAT \<noteq> KEY_BUCKET_BASE" by (simp add: KEY_FORMAT_def KEY_BUCKET_BASE_def)
  then have "\<not> format_foreign demo_store" using format_foreign_abs [OF demo_store_facts(1)] by (simp add: demo_store_facts(2))
  with inv demo_store_facts(1) show "store_ok demo_lib demo_store" by (simp add: store_ok_def demo_lib_def)
qed

text \<open>C11. The registry in the store is a map from addresses to node records of at most 16 nodes: each
  call of \<open>add\<close>, \<open>add_new\<close>, \<open>remove\<close> and \<open>update\<close> either fails for the reason the map gives, and changes
  nothing, or has exactly the map's effect, or reports a storage error with the registry unchanged; the
  stored buckets stay readable, and \<open>find\<close> and \<open>count\<close> read the map.\<close>

theorem registry_refines_map:
  assumes "postcard_ok pc" and "nv_ok kv" and "reg_inv pc (eeprom_io w) kv" and "reg_op_wf op" and "reg_call pc (eeprom_io w) op kv = (res, kv')"
  shows "nv_ok kv' \<and> reg_inv pc (eeprom_io w) kv' \<and>
     (case reg_spec op (reg_abs pc (eeprom_io w) kv) of
        Inl e \<Rightarrow> res = Inl e \<and> kv' = kv
      | Inr m \<Rightarrow> res = Inr () \<and> reg_abs pc (eeprom_io w) kv' = m \<or> res = Inl RegStorage \<and> reg_abs pc (eeprom_io w) kv' = reg_abs pc (eeprom_io w) kv) \<and>
     reg_find pc (eeprom_io w) a kv' = reg_abs pc (eeprom_io w) kv' a \<and>
     reg_count pc (eeprom_io w) kv' = card (dom (reg_abs pc (eeprom_io w) kv'))"
  using eb.call_meets [OF assms] eb.card_dom [of pc w kv'] by (simp add: eb.meets_def reg_find_abs)

theorem registry_refines_map_witness:
  "reg_find demo_pc (eeprom_io True) 0x22 (snd (reg_call demo_pc (eeprom_io True) (RegAddNew demo_node) demo_store)) = Some demo_node"
proof -
  have wf: "reg_op_wf (RegAddNew demo_node)" by (simp add: record_wf_def demo_node_def MAX_NAME_def)
  have f: "reg_abs demo_pc (eeprom_io True) demo_store 0x22 = Some demo_node" using demo_registry(2) by (simp add: reg_abs_def demo_node_def)
  have "nr_addr demo_node = 0x22" by (simp add: demo_node_def)
  with registry_refines_map [OF demo_pc_ok demo_store_facts(1) demo_registry(3) wf prod.collapse [symmetric], of "0x22"] f show ?thesis
    by (simp add: reg_find_abs)
qed

section \<open>The mirror\<close>

lemma pair_option_eq:
  assumes "map_option fst t = (if c then map_option f r else None)" and "map_option snd t = map_option (\<lambda>_. b) t"
  shows "t = (if c then map_option (\<lambda>r. (f r, b)) r else None)"
  using assms by (cases t; cases r) (auto split: if_splits)

lemma fresh_lane:
  assumes "alive n" and "peer_addr_valid a (nt_addr n)" and "nt_peers n = replicate MAX_PEERS None" and "\<And>l. l < MAX_PEERS \<Longrightarrow> net_abs (nt_kv n) (KEY_LASTSEEN_BASE + of_nat l) = None"
  shows "rl_last_seen (net_lane a (snd (add_peer enc a key n))) = 0"
proof -
  have nv: "nv_ok (nt_kv n)" and ok: "node_ok n" using alive_ok [OF assms(1)] by blast+
  have free: "slot_of a (nt_peers n) = None" "first_none (nt_peers n) = Some 0" using assms(3) by (simp_all add: slot_of_empty MAX_PEERS_def numeral_eq_Suc)
  have rec: "net_records (nt_kv n) = replicate MAX_PEERS None"
    unfolding net_records_def by (rule nth_equalityI) (simp_all add: read_lane_record_def net_get_abs [OF nv] assms(4))
  have "assign_scan a k u l None None (replicate m None) = (None, None)" for k u l m by (induction m arbitrary: l) simp_all
  then have seen: "lb_seen b = 0" if "assign_lane a k (net_records (nt_kv n)) u = Some b" for k u b
    using that by (auto simp: assign_lane_def rec fresh_binding_def split: option.splits)
  obtain b where b: "assign_lane a (key_check enc key) (net_records (nt_kv n)) (used_locals n) = Some b"
    using free_lane [OF ok free(2)] by blast
  have "slot_of a ((nt_peers n)[0 := Some p]) = Some 0" if "pe_addr p = a" for p using that assms(3) by (simp add: MAX_PEERS_def numeral_eq_Suc)
  with b seen [OF b] free assms(2,3) show ?thesis
    by (auto simp: add_peer_def peer_slot_def Let_def set_peer_def net_lane_def peer_at_def lane_new_def MAX_PEERS_def split: prod.splits)
qed

lemma net_new_fresh:
  assumes "nv_ok kv" and "\<And>l. net_abs kv l = None"
  shows "l \<noteq> KEY_WATERMARK \<Longrightarrow> net_abs (nt_kv (net_new cfg kv)) l = None"
proof -
  have "nt_kv (net_new cfg kv) = kv \<or> (\<exists>w. nt_kv (net_new cfg kv) = snd (net_set KEY_WATERMARK w kv))"
    by (auto simp: net_new_def Let_def boot_counter_def persist_watermark_def split: prod.splits option.splits) (metis snd_conv)+
  then show "l \<noteq> KEY_WATERMARK \<Longrightarrow> net_abs (nt_kv (net_new cfg kv)) l = None"
    using net_set_post(2) [OF assms(1)] assms(2) by (metis prod.collapse)
qed

lemma boot_lane:
  assumes nv: "nv_ok kv" and net: "\<And>l. net_abs kv l = None" and nodes: "reg_nodes (gl_pc lib) (eeprom_io True) kv = [r]"
    and valid: "peer_addr_valid (nr_addr r) addr"
  shows "rl_last_seen (net_lane (nr_addr r) (snd (boot_net lib False addr band kv))) = 0"
proof -
  define cfg where "cfg = \<lparr>nc_addr = addr, nc_key = gateway_network_key addr, nc_band = band,
      nc_keys_stored = (False \<or> 0 < reg_count (gl_pc lib) (eeprom_io (\<not> False)) kv)\<rparr>"
  define n1 where "n1 = set_default_lane False (net_new cfg kv)"
  define n2 where "n2 = set_keyed_join (read_bool_setting SET_KEYED_JOIN True (nt_kv n1)) n1"
  note N = net_new_boot [OF nv, of cfg]
  have q: "quiet (net_new cfg kv) n2" by (rule quiet_fields) (simp_all add: n1_def n2_def set_default_lane_def set_keyed_join_def)
  have f: "nt_kv n2 = nt_kv (net_new cfg kv)" "nt_addr n2 = addr" "nt_peers n2 = replicate MAX_PEERS None"
    by (simp_all add: n2_def n1_def set_default_lane_def set_keyed_join_def net_new_def cfg_def Let_def split: prod.splits)
  have "reg_load (gl_pc lib) (eeprom_io True) i (nt_kv n2) = reg_load (gl_pc lib) (eeprom_io True) i kv" for i
    using same_app_reg(1) [OF nv N(4)] f(1) by simp
  moreover have "nv_ok (nt_kv n2)" using N(4) f(1) by (simp add: same_app_def)
  ultimately have "snd (install_buckets lib [0..<BUCKETS] n2) = install_nodes lib [r] n2"
    using install_buckets_nodes [of n2 lib "[0..<BUCKETS]"] nodes by (simp add: reg_nodes_def reg_buckets_def)
  moreover have "rl_last_seen (net_lane (nr_addr r) (install_nodes lib [r] n2)) = 0"
  proof -
    have "KEY_LASTSEEN_BASE + of_nat l \<noteq> KEY_WATERMARK" if "l < MAX_PEERS" for l
      using that by (simp add: KEY_LASTSEEN_BASE_def KEY_WATERMARK_def MAX_PEERS_def word_unat_eq_iff unat_word_ariths unat_of_nat)
    then show ?thesis using fresh_lane [OF quiet_alive [OF q N(1)], of "nr_addr r"] valid f net_new_fresh [OF nv net] by simp
  qed
  ultimately show ?thesis unfolding boot_net_def Let_def n2_def n1_def cfg_def by simp
qed

lemma demo_boots:
  "\<exists>g. gw_life demo_lib (Inl demo_store) [] (Inr g) \<and> gw_find demo_lib 0x22 g = Some demo_node \<and> gw_addr g = 0x11 \<and> gw_band g = Eu868 \<and>
     gw_pairing g = None \<and> q_items (gw_queue g) = [] \<and> gw_writable g \<and> rl_last_seen (net_lane 0x22 (gw_net g)) = 0"
proof -
  let ?kv = "\<lparr>nv_kv = fw_cycle None (nv_kv demo_store), nv_wake = False\<rparr>" and ?e = "\<lparr>be_radio_ok = True, be_lse = 0, be_now = 0\<rparr>"
  have c: "clean_event (PowerCycle None)" by simp
  note C = fw_cycle_post [OF demo_store_facts(1) c]
  have sa: "same_app demo_store ?kv" and nv: "nv_ok ?kv" using C by (simp_all add: same_app_def)
  have ok: "store_ok demo_lib ?kv" using reset_store [OF demo_registry(4) c] .
  have ns: "NS_SHELL \<noteq> NS_APP" by (simp add: NS_SHELL_def NS_APP_def)
  have shell: "fw_abs (nv_kv ?kv) (ns_key NS_SHELL l) = None" for l using C demo_store_facts(2) [of NS_SHELL l] ns by simp
  obtain foreign kv1 where fg: "format_guard ?kv = (foreign, kv1)" by fastforce
  note F = format_guard_step [OF ok fg]
  have "KEY_FORMAT \<noteq> KEY_BUCKET_BASE" by (simp add: KEY_FORMAT_def KEY_BUCKET_BASE_def)
  then have "\<not> format_foreign ?kv" using format_foreign_abs [OF nv] C by (simp add: demo_store_facts(2))
  then have nf: "\<not> foreign" using fg by (simp add: format_foreign_def)
  have kv1: "kv1 = snd (scoped_set_bytes NS_APP KEY_FORMAT [REG_FORMAT] ?kv)"
    using fg C \<open>KEY_FORMAT \<noteq> KEY_BUCKET_BASE\<close> by (auto simp: format_guard_def scoped_get_abs [OF nv] demo_store_facts(2))
  obtain rr where "scoped_set_bytes NS_APP KEY_FORMAT [REG_FORMAT] ?kv = (rr, kv1)" using kv1 by (metis prod.collapse)
  note S = scoped_set_post [OF nv this]
  have "fw_abs (nv_kv kv1) (ns_key NS_SHELL l) = None" for l using S(2) [of NS_SHELL l] shell ns by simp
  then have band: "read_band_setting kv1 = Some Eu868" by (simp add: read_band_setting_def scoped_get_abs [OF S(1)])
  have addr: "radio_addr demo_lib ?kv = 0x11" using shell by (simp add: radio_addr_def scoped_get_abs [OF nv] demo_lib_def)
  obtain nodes n where bn: "boot_net demo_lib foreign 0x11 Eu868 kv1 = (nodes, n)" by fastforce
  note B = boot_net_step [OF F(1,3) bn]
  obtain g where g: "gw_boot demo_lib ?e ?kv = Inr g" "gw_addr g = 0x11" "gw_band g = Eu868" "gw_pairing g = None" "gw_queue g = queue_new"
    "gw_writable g" "gw_net g = n"
    using fg band addr bn nf by (simp add: gw_boot_def Let_def)
  have "gw_step demo_lib (Inl demo_store) [] (Inr g)" by (rule gw_step.reset [OF c _ g(1)]) simp
  from gw_life.step [OF gw_life.start this] have life: "gw_life demo_lib (Inl demo_store) [] (Inr g)" by simp
  have "app_abs kv1 (KEY_BUCKET_BASE + of_nat i) = app_abs ?kv (KEY_BUCKET_BASE + of_nat i)" if "i < BUCKETS" for i
    using S(2) [of NS_APP "KEY_BUCKET_BASE + of_nat i"] bucket_key_format [OF that] by auto
  then have ld: "reg_load demo_pc (eeprom_io True) i kv1 = reg_load demo_pc (eeprom_io True) i ?kv" if "i < BUCKETS" for i
    using that by (simp add: reg_load_def reg_load_checked_def eeprom_load [OF nv] eeprom_load [OF S(1)])
  have "reg_buckets demo_pc (eeprom_io True) kv1 = reg_buckets demo_pc (eeprom_io True) ?kv"
    unfolding reg_buckets_def by (rule map_cong) (simp_all add: ld)
  then have "reg_nodes demo_pc (eeprom_io True) kv1 = reg_nodes demo_pc (eeprom_io True) ?kv" by (simp add: reg_nodes_def)
  moreover have "reg_load demo_pc (eeprom_io True) i ?kv = reg_load demo_pc (eeprom_io True) i demo_store" for i
    by (rule same_app_reg(1) [OF demo_store_facts(1) sa])
  then have "reg_nodes demo_pc (eeprom_io True) ?kv = [demo_node]" using demo_registry(2) by (simp add: reg_nodes_def reg_buckets_def)
  ultimately have nodes: "reg_nodes demo_pc (eeprom_io True) kv1 = [demo_node]" by simp
  have "net_abs kv1 l = None" for l using S(2) [of NS_NET l] C demo_store_facts(2) [of NS_NET l] by (simp add: NS_NET_def NS_APP_def)
  from boot_lane [OF S(1) this, of demo_lib demo_node "0x11" Eu868] nodes bn nf have lane: "rl_last_seen (net_lane 0x22 n) = 0"
    by (simp add: demo_lib_def demo_node_def peer_addr_valid_def is_reserved_addr_def ADDR_UNASSIGNED_def ADDR_BROADCAST_def)
  from nodes have "reg_abs demo_pc (eeprom_io True) kv1 0x22 = Some demo_node" by (simp add: reg_abs_def demo_node_def)
  then have "gw_find demo_lib 0x22 g = Some demo_node"
    using same_app_reg(2) [OF F(1) B(4), of demo_pc True] g(6,7) by (simp add: gw_find_abs demo_lib_def)
  with life g lane ids_ok_new(2) show ?thesis by auto
qed

text \<open>C4. The gateway serves exactly the registered nodes: over its whole life - management requests,
  pairings, uplinks, other users of the store, clean power cuts inside any word program, boots - the peer table
  of the network layer is the registry in the store: a valid address has a peer exactly while a node is
  registered there, under the registered key, and the peer's pending flag tells whether downlinks are
  queued for it; unregistered senders are never served (the default lane stays off); and the node and queue
  counts of \<open>gateway status\<close> are the registry's and the queue's.\<close>

theorem gateway_mirrors_registry:
  assumes "lib_ok lib" and "store_ok lib kv" and "gw_life lib (Inl kv) out (Inr g)"
  shows "table (gw_net g) a =
      (if peer_addr_valid a (gw_addr g) then map_option (\<lambda>r. (nr_key r, 0 < q_count_for (gw_queue g) a)) (gw_find lib a g) else None) \<and>
    (0 < q_count_for (gw_queue g) a \<longrightarrow> gw_find lib a g \<noteq> None) \<and>
    nt_addr (gw_net g) = gw_addr g \<and> \<not> nt_default_lane_enabled (gw_net g) \<and>
    gw_count lib g \<le> MAX_PEERS \<and> sc_nodes (gw_counters g) = of_nat (gw_count lib g) \<and> sc_queued (gw_counters g) = of_nat (q_len (gw_queue g))"
proof -
  note I = gw_life_inv [OF assms(3,1,2)]
  note C = gw_invD(1) [OF I] and D = gw_coreD [OF gw_invD(1) [OF I]]
  have m: "mirrored lib g a" "flagged g a" "expected lib g a" using D(9-11) by simp_all
  have "map_option fst (table (gw_net g) a) = (if peer_addr_valid a (gw_addr g) then map_option nr_key (gw_find lib a g) else None)"
    using m(1) unfolding mirrored_def .
  moreover have "map_option snd (table (gw_net g) a) = map_option (\<lambda>_. 0 < q_count_for (gw_queue g) a) (table (gw_net g) a)"
    using m(2) unfolding flagged_def count_pos by (intro map_option_cong) (metis prod.collapse)+
  ultimately have tb: "table (gw_net g) a =
      (if peer_addr_valid a (gw_addr g) then map_option (\<lambda>r. (nr_key r, 0 < q_count_for (gw_queue g) a)) (gw_find lib a g) else None)"
    by (rule pair_option_eq)
  have "gw_count lib g \<le> MAX_PEERS" using D(6) by (simp add: gw_count_def reg_count_nodes reg_inv_def REG_CAPACITY_def MAX_PEERS_def)
  then show ?thesis using tb m(3) D(4,5) gw_invD(2) [OF I] unfolding expected_def count_pos counted_def by blast
qed

theorem gateway_mirrors_registry_witness:
  "\<exists>g. gw_life demo_lib (Inl demo_store) [] (Inr g) \<and> table (gw_net g) 0x22 = Some (replicate 16 7, False)"
proof -
  from demo_boots obtain g where g: "gw_life demo_lib (Inl demo_store) [] (Inr g)" "gw_find demo_lib 0x22 g = Some demo_node" "gw_addr g = 0x11"
    "q_items (gw_queue g) = []" by blast
  from gateway_mirrors_registry [OF demo_lib_ok demo_registry(4) g(1), of "0x22"] g show ?thesis
    by (auto simp: demo_node_def peer_addr_valid_def is_reserved_addr_def q_count_for_def ADDR_UNASSIGNED_def ADDR_BROADCAST_def)
qed

section \<open>What the radio can do\<close>

lemma turn_find:
  "gw_find lib x (turn_hop_stat e g) = gw_find lib x g" "turn_stat e g = (out, g') \<Longrightarrow> gw_find lib x g' = gw_find lib x g"
  "turn_expire e g = (out, g') \<Longrightarrow> gw_find lib x g' = gw_find lib x g" "gw_find lib x (snd (gw_do take_keyed_join g)) = gw_find lib x g"
proof -
  have "gw_find lib x (note_all xs h) = gw_find lib x h" for xs h by (induction xs arbitrary: h) simp_all
  then show "turn_expire e g = (out, g') \<Longrightarrow> gw_find lib x g' = gw_find lib x g"
    by (auto simp: turn_expire_def q_expire_def Let_def note_all_def [symmetric] gw_find_def note_queued_def split: if_splits)
qed (auto simp: turn_hop_stat_def turn_stat_def gw_find_def gw_do_net take_keyed_join_def Let_def split: if_splits option.splits)

lemma turn_radio_find:
  assumes inv: "gw_inv lib g" and lib: "lib_ok lib" and run: "turn_radio lib e g = (out, air, g')" and r: "gw_find lib x g = Some r"
  shows "gw_find lib x g' = Some r"
proof (cases "gw_pairing g")
  case (Some z)
  with run turn_pairing_step(2) [OF inv lib _ r] show ?thesis by (simp add: turn_radio_def)
next
  case None
  obtain m a n where rs: "recv_slice lib e g = (m, a, n)" by (metis prod.exhaust)
  obtain m' a' n' where h: "hop_slot lib e (turn_unpark g) = (m', a', n')" by (metis prod.exhaust)
  note R = serve_uplink_inv(2) [OF inv refl recv_slice_step [OF rs]]
    and H = serve_uplink_inv(2) [OF turn_unpark_inv(1) [OF inv] refl hop_slot_step [OF h]]
  show ?thesis using run None R H rs h r turn_unpark_inv(2) [OF inv] by (auto simp: turn_radio_def Let_def split: if_splits)
qed

text \<open>C6. The radio never changes a registered node: after the host's requests of a turn are served, nothing
  that arrives over the air - uplinks, join requests, a completed pairing, whatever an attacker sends - alters
  or removes a registered node's record, its key above all; over-the-air pairing only adds new nodes.\<close>

theorem radio_never_rekeys:
  assumes "lib_ok lib" and "store_ok lib kv" and "gw_life lib (Inl kv) out0 (Inr g)" and "gw_turn lib e g = (out, air, g')"
    and "gw_find lib x (snd (turn_requests lib (take 2 (te_frames e)) (turn_policy e g))) = Some r"
  shows "gw_find lib x g' = Some r"
proof -
  note I = gw_life_inv [OF assms(3,1,2)]
  obtain out1 g1 where r1: "turn_requests lib (take 2 (te_frames e)) (turn_policy e g) = (out1, g1)" by fastforce
  obtain out2 air2 g2 where r2: "turn_radio lib e g1 = (out2, air2, g2)" by (metis prod.exhaust)
  obtain out3 g4 where r3: "turn_expire e (turn_hop_stat e (snd (gw_do take_keyed_join g2))) = (out3, g4)" by fastforce
  obtain out4 g5 where r4: "turn_stat e g4 = (out4, g5)" by fastforce
  have I1: "gw_inv lib g1" using turn_requests_inv [OF turn_policy_inv [OF I] assms(1) r1] .
  have "gw_find lib x g2 = Some r" using turn_radio_find [OF I1 assms(1) r2] assms(5) r1 by simp
  then have "gw_find lib x g5 = Some r" using turn_find(2) [OF r4] turn_find(3) [OF r3] turn_find(1,4) by simp
  then show ?thesis using assms(4) r1 r2 r3 r4 by (simp add: gw_turn_def Let_def)
qed

definition demo_turn :: "reception option \<Rightarrow> turn_env" where
  "demo_turn r = \<lparr>te_policy = 0, te_frames = [], te_now_ms = 0, te_tuned = True, te_window_now = 0, te_slice_now = 0, te_turns = [],
     te_commit_now = 0, te_grace_now = 0, te_recv = r, te_tick = (0, 0),
     te_uplink = \<lparr>ue_now_s = 0, ue_attempts = (\<lambda>i. \<lparr>at_elapsed = 0, at_tx = None, at_heard = []\<rparr>), ue_hop_now = 0, ue_hop_tx = None, ue_hop_heard = []\<rparr>,
     te_hop_now = 0, te_stat_now = 0, te_idle = None\<rparr>"

theorem radio_never_rekeys_witness:
  "\<exists>g. gw_life demo_lib (Inl demo_store) [] (Inr g) \<and> gw_find demo_lib 0x22 (snd (snd (gw_turn demo_lib (demo_turn None) g))) = Some demo_node"
proof -
  from demo_boots obtain g where g: "gw_life demo_lib (Inl demo_store) [] (Inr g)" "gw_find demo_lib 0x22 g = Some demo_node" by blast
  have "gw_find demo_lib 0x22 (snd (turn_requests demo_lib (take 2 (te_frames (demo_turn None))) (turn_policy (demo_turn None) g))) = Some demo_node"
    using g(2) by (simp add: demo_turn_def turn_policy_def gw_find_def set_keyed_join_def)
  from radio_never_rekeys [OF demo_lib_ok demo_registry(4) g(1) _ this] g(1) show ?thesis by (metis prod.collapse)
qed

section \<open>What the host is told\<close>

primrec is_uplink :: "host_msg \<Rightarrow> bool" where
  "is_uplink (Uplink src ctr rssi lqi data) = True"
| "is_uplink (MgmtResponse r x c l d) = False"
| "is_uplink (StatChannel c r) = False"
| "is_uplink (StatTx a i u r) = False"

abbreviation no_uplink :: "host_msg list \<Rightarrow> bool" where
  "no_uplink \<equiv> list_all (\<lambda>m. \<not> is_uplink m)"

text \<open>An uplink in the host's hands: a DATA frame the radio delivered, addressed to this gateway, that opens
  under the key registered for its source, with a counter above the last-seen that the sender's lane holds in RAM.\<close>

fun authentic_uplink :: "gw_lib \<Rightarrow> turn_env \<Rightarrow> gateway \<Rightarrow> host_msg \<Rightarrow> bool" where
  "authentic_uplink lib e g (Uplink src ctr rssi lqi data) \<longleftrightarrow>
     (\<exists>r nd h p. te_recv e = Some r \<and> gw_find lib src g = Some nd \<and> open_frame (gl_enc lib) (nr_key nd) (rc_buf r) = Inr (h, p) \<and>
        h_type h = FtData \<and> h_src h = src \<and> h_dest h = gw_addr g \<and> h_counter h = ctr \<and> rl_last_seen (net_lane src (gw_net g)) < ctr \<and>
        data = take UPLINK_MAX p)"
| "authentic_uplink lib e g m \<longleftrightarrow> True"

lemma no_uplink_authentic: "no_uplink ms \<Longrightarrow> list_all (authentic_uplink lib e g) ms"
proof (induction ms)
  case (Cons m ms)
  then show ?case by (cases m) simp_all
qed simp

lemma no_uplink_replies [simp]:
  "no_uplink (respond_empty i x)" "no_uplink (respond_record lib i r)" "no_uplink (fst (cs_flush s))" "no_uplink (cs_finish s)"
  by (simp_all add: respond_empty_def respond_record_def mgmt_chunk_def cs_flush_def cs_finish_def split: option.splits)

lemma no_uplink_push: "no_uplink (fst (cs_push data s))"
proof (induction data s rule: cs_push.induct)
  case (1 data s)
  show ?case
  proof (cases "data = [] \<or> STREAM_BUF < length (cs_buf s)")
    case False
    obtain out s1 where f: "cs_flush s = (out, s1)" by fastforce
    with no_uplink_replies(3) [of s] have "no_uplink out" by simp
    with 1 f False show ?thesis by (subst cs_push.simps) (auto simp: Let_def split: prod.splits)
  qed (auto simp: cs_push.simps)
qed

lemma no_uplink_stream [simp]: "no_uplink (cs_reply i ps)"
proof -
  have "no_uplink (fst (cs_push_all ps s))" for s
  proof (induction ps arbitrary: s)
    case (Cons b bs)
    then show ?case using no_uplink_push [of b s] by (auto split: prod.splits) (metis fst_conv)
  qed simp
  then have "no_uplink (fst (cs_push_all ps (cs_new i)))" .
  then show ?thesis by (auto simp: cs_reply_def split: prod.splits)
qed

lemma no_uplink_mgmt: "no_uplink (fst (handle_mgmt lib e i op g))"
proof -
  have "no_uplink (fst (mgmt_serve lib e i op g))"
    by (cases op) (auto simp: mgmt_describe_def mgmt_node_list_def mgmt_node_add_def mgmt_node_remove_def mgmt_node_update_def
        mgmt_reveal_key_def mgmt_pairing_open_def mgmt_pairing_cancel_def mgmt_queue_push_def mgmt_queue_list_def mgmt_queue_drop_def Let_def
        split: prod.splits option.splits sum.splits reg_error.splits push_error.splits bool.splits)
  then show ?thesis by (auto simp: handle_mgmt_def)
qed

lemma no_uplink_requests: "no_uplink (fst (turn_requests lib fs g))"
proof (induction fs arbitrary: g)
  case (Cons f fs)
  then show ?case using no_uplink_mgmt [of lib "snd f"] by (auto split: prod.splits option.splits) (metis fst_conv)+
qed simp

lemma no_uplink_pairing: "no_uplink (fst (turn_pairing lib e z g))"
  by (auto simp: turn_pairing_def commit_pairing_def Let_def split: prod.splits option.splits sum.splits reg_error.splits)

lemma on_uplink_out:
  assumes "on_uplink lib ue now rx g = (out, air, g')"
  shows "\<exists>ms. out = host_uplink rx # ms \<and> no_uplink ms"
  using assms by (auto simp: on_uplink_def Let_def split: prod.splits option.splits)


lemma delivers_fields:
  assumes "nt_peers n' = nt_peers n" and "nt_default_lane n' = nt_default_lane n" and "nt_addr n' = nt_addr n" and
    "nt_default_key n' = nt_default_key n" and "nt_default_lane_enabled n' = nt_default_lane_enabled n"
  shows "delivers enc buf n' m = delivers enc buf n m" and "net_lane s n' = net_lane s n"
proof -
  have at: "peer_slot a n' = peer_slot a n" "peer_at a n' = peer_at a n" for a unfolding peer_at_def peer_slot_def assms(1) by (rule refl)+
  show lane: "net_lane a n' = net_lane a n" for a unfolding net_lane_def at assms(2) by (rule refl)
  show "delivers enc buf n' m = delivers enc buf n m" unfolding delivers_def key_for_def at lane assms(3-5) by (rule refl)
qed

lemma hop_slot_delivers:
  assumes "hop_slot lib e g = (Some rx, air, n)"
  shows "\<exists>r. te_recv e = Some r \<and> delivers (gl_enc lib) (rc_buf r) (gw_net g) rx"
proof -
  let ?n = "gw_net g"
  from assms obtain anchor where a: "fh_role (nt_fhss ?n) = FhssMaster" "fh_anchor (nt_fhss ?n) = Some anchor"
    by (auto simp: hop_slot_def fhss_master_tick_def split: if_splits option.splits)
  define slot where "slot = fhss_cur_slot anchor (fst (te_tick e)) + 1"
  define ch where "ch = fhss_channel_for (fh_seed (nt_fhss ?n)) slot"
  define n0 where "n0 = set_fhss ((nt_fhss ?n)\<lparr>fh_cur_channel := ch\<rparr>) ?n"
  obtain air1 n1 where b: "fhss_tx_beacon (gl_enc lib) slot ch n0 = (air1, n1)" by fastforce
  from assms a b obtain r air2 where r: "te_recv e = Some r" "net_recv (gl_enc lib) r n1 = (Some rx, air2, n)"
    by (auto simp: hop_slot_def fhss_master_tick_def Let_def slot_def [symmetric] ch_def [symmetric] n0_def [symmetric]
        split: prod.splits option.splits if_splits)
  have "delivers (gl_enc lib) (rc_buf r) n1 rx = delivers (gl_enc lib) (rc_buf r) n0 rx"
    using b by (intro delivers_fields)
      (auto simp: fhss_tx_beacon_def alloc_counter_def set_fhss_def Let_def split: if_splits prod.splits option.splits sum.splits)
  also have "\<dots> = delivers (gl_enc lib) (rc_buf r) ?n rx" by (intro delivers_fields) (simp_all add: n0_def set_fhss_def)
  finally have "delivers (gl_enc lib) (rc_buf r) ?n rx" using recv_message(1) [OF r(2)] by simp
  with r(1) show ?thesis by blast
qed

text \<open>With the default lane off, what \<open>recv\<close> delivers comes from a peer, and the peers are the registry.\<close>

lemma delivered_authentic:
  assumes inv: "gw_inv lib g" and r: "te_recv e = Some r" and d: "delivers (gl_enc lib) (rc_buf r) (gw_net g) rx"
  shows "authentic_uplink lib e g (host_uplink rx)"
proof -
  note D = gw_coreD [OF gw_invD(1) [OF inv]]
  from d D(4,5) have slot: "peer_slot (rx_src rx) (gw_net g) \<noteq> None" by (simp add: delivers_def)
  then obtain p where p: "peer_at (rx_src rx) (gw_net g) = Some p" using slot_of_Some by (fastforce simp: peer_at_def peer_slot_def)
  then have "map_option fst (table (gw_net g) (rx_src rx)) = Some (pe_key p)" by (simp add: table_def)
  with D(10) [of "rx_src rx"] obtain nd where nd: "gw_find lib (rx_src rx) g = Some nd" "nr_key nd = pe_key p"
    unfolding mirrored_def by (cases "gw_find lib (rx_src rx) g") (auto split: if_splits)
  then have "key_for (rx_src rx) (gw_net g) = nr_key nd" using p by (simp add: key_for_def)
  with d r nd D(4) show ?thesis by (auto simp: host_uplink_def delivers_def)
qed

lemma serve_uplink_authentic:
  assumes "gw_inv lib g" and "heard = (m, air0, n)"
    and "\<And>rx. m = Some rx \<Longrightarrow> \<exists>r. te_recv e = Some r \<and> delivers (gl_enc lib) (rc_buf r) (gw_net g) rx"
  shows "list_all (authentic_uplink lib e g) (fst (serve_uplink lib e heard g))"
proof (cases m)
  case (Some rx)
  obtain out air g1 where u: "on_uplink lib (te_uplink e) (te_now_ms e) rx (g\<lparr>gw_net := n\<rparr>) = (out, air, g1)" by (metis prod.exhaust)
  from on_uplink_out [OF u] no_uplink_authentic assms(3) [OF Some] delivered_authentic [OF assms(1)] show ?thesis
    using assms(2) u Some by (auto simp: serve_uplink_def)
qed (simp add: serve_uplink_def assms(2))


lemma turn_radio_authentic:
  assumes inv: "gw_inv lib g"
  shows "list_all (authentic_uplink lib e g) (fst (turn_radio lib e g))"
proof (cases "gw_pairing g")
  case (Some z)
  then show ?thesis using no_uplink_authentic [OF no_uplink_pairing] by (simp add: turn_radio_def)
next
  case None
  obtain m a n where rs: "recv_slice lib e g = (m, a, n)" by (metis prod.exhaust)
  have "\<exists>r. te_recv e = Some r \<and> delivers (gl_enc lib) (rc_buf r) (gw_net g) rx" if "m = Some rx" for rx
    using rs that recv_message(1) [of "gl_enc lib" _ "gw_net g" rx a n] by (auto simp: recv_slice_def split: option.splits)
  note R = serve_uplink_authentic [OF inv rs this]
  obtain m' a' n' where h: "hop_slot lib e (turn_unpark g) = (m', a', n')" by (metis prod.exhaust)
  have "\<exists>r. te_recv e = Some r \<and> delivers (gl_enc lib) (rc_buf r) (gw_net (turn_unpark g)) rx" if "m' = Some rx" for rx
    using hop_slot_delivers h that by simp
  note H = serve_uplink_authentic [OF turn_unpark_inv(1) [OF inv] h this]
  have same: "gw_addr (turn_unpark g) = gw_addr g" "net_lane s (gw_net (turn_unpark g)) = net_lane s (gw_net g)" for s
    using delivers_fields(2) [of "fhss_resume (gw_net g)" "gw_net g" s] by (simp_all add: turn_unpark_def fhss_resume_def)
  have "authentic_uplink lib e (turn_unpark g) x = authentic_uplink lib e g x" for x
    by (cases x) (simp_all add: same turn_unpark_inv(2) [OF inv])
  then have "list_all (authentic_uplink lib e g) (fst (serve_uplink lib e (hop_slot lib e (turn_unpark g)) (turn_unpark g)))"
    using H by presburger
  with R None show ?thesis by (simp add: turn_radio_def Let_def)
qed

text \<open>C5. What reaches the host as an uplink is authentic: in every turn of a gateway's life, each
  \<open>Uplink\<close> among the messages to the host carries the first 74 bytes of the payload of the DATA frame the
  radio delivered in that turn, addressed to this gateway, which opens under the key registered for its source
  with a counter above the last-seen that the source's replay lane holds in RAM at that point of the turn. A boot
  restores the lane from a stored record that the gateway writes only every 32 accepted uplinks, so this does not
  exclude a frame accepted before the boot: up to 31 counters of a node can come up again (\<open>docs/gateway.md\<close>;
  \<open>Net_Replay\<close> has the bound), which the host drops by their counters.\<close>

theorem uplinks_authentic:
  assumes "lib_ok lib" and "store_ok lib kv" and "gw_life lib (Inl kv) out0 (Inr g)" and "gw_turn lib e g = (out, air, g')"
  shows "list_all (authentic_uplink lib e (snd (turn_requests lib (take 2 (te_frames e)) (turn_policy e g)))) out"
proof -
  note I = gw_life_inv [OF assms(3,1,2)]
  obtain out1 g1 where r1: "turn_requests lib (take 2 (te_frames e)) (turn_policy e g) = (out1, g1)" by fastforce
  obtain out2 air2 g2 where r2: "turn_radio lib e g1 = (out2, air2, g2)" by (metis prod.exhaust)
  obtain out3 g4 where r3: "turn_expire e (turn_hop_stat e (snd (gw_do take_keyed_join g2))) = (out3, g4)" by fastforce
  obtain out4 g5 where r4: "turn_stat e g4 = (out4, g5)" by fastforce
  have "gw_inv lib g1" using turn_requests_inv [OF turn_policy_inv [OF I] assms(1) r1] .
  then have "list_all (authentic_uplink lib e g1) out2" using turn_radio_authentic [of lib g1 e] r2 by simp
  moreover have "no_uplink out1" using no_uplink_requests [of lib "take 2 (te_frames e)" "turn_policy e g"] r1 by simp
  moreover have "no_uplink out3" using r3 by (auto simp: turn_expire_def Let_def list_all_iff split: prod.splits)
  moreover have "no_uplink out4" using r4 by (auto simp: turn_stat_def split: if_splits option.splits)
  ultimately show ?thesis using assms(4) r1 r2 r3 r4 by (auto simp: gw_turn_def Let_def no_uplink_authentic)
qed

lemma demo_uplink:
  assumes g: "gw_find demo_lib 0x22 g = Some demo_node" "gw_addr g = 0x11" "gw_band g = Eu868" "gw_pairing g = None"
      "q_items (gw_queue g) = []" "rl_last_seen (net_lane 0x22 (gw_net g)) = 0" and inv: "gw_inv demo_lib g"
  shows "\<exists>r. Uplink 0x22 7 (- 60) 9 [1, 2, 3] \<in> set (fst (gw_turn demo_lib (demo_turn (Some r)) g))"
proof -
  let ?h = "data_header 0x22 0x11 7 False"
  have wf: "header_wf ?h" "length [1, 2, 3 :: u8] \<le> max_payload ?h"
    by (simp_all add: data_header_def header_wf_def has_bulk_index_def max_payload_def MAX_PAYLOAD_def)
  from sealed_opens [OF aes_block_demo wf, of "replicate 16 7"] obtain f where
    f: "length f \<le> MAX_FRAME" "open_frame enc_demo (replicate 16 7) f = Inr (?h, [1, 2, 3])" by blast
  have p: "header_parse f = Inr (?h, wire_len ?h)" using open_frame_header [OF f(2)] .
  note D = gw_coreD [OF gw_invD(1) [OF inv]]
  from D(10) [of "0x22"] g have "map_option fst (table (gw_net g) 0x22) = Some (replicate 16 7)"
    by (simp add: mirrored_def demo_node_def peer_addr_valid_def is_reserved_addr_def ADDR_UNASSIGNED_def ADDR_BROADCAST_def)
  then obtain pe where pe: "peer_at 0x22 (gw_net g) = Some pe" "pe_key pe = replicate 16 7" by (auto simp: table_def)
  let ?r = "\<lparr>rc_buf = f, rc_rssi = - 60, rc_lqi = 9, rc_elapsed = 0, rc_now = 0, rc_tx_ok = True\<rparr>"
  define n where "n = gw_net g"
  have same: "peer_at 0x22 n = Some pe" "peer_slot 0x22 n \<noteq> None" "nt_addr n = 0x11" "rl_last_seen (net_lane 0x22 n) = 0"
    using pe(1) D(4) g(2,6) by (auto simp: n_def peer_at_def split: option.splits)
  have "classify (net_lane 0x22 n) 7 = Fresh" using same(4) by (simp add: classify_def)
  then obtain n' where r: "net_recv enc_demo ?r n = (Some \<lparr>rx_src = 0x22, rx_counter = 7, rx_rssi = - 60, rx_lqi = 9, rx_confirmed = False, rx_data = [1, 2, 3]\<rparr>, [], n')"
    using f(2) p same pe(2) by (auto simp: net_recv_def data_header_def KEYED_def Let_def key_for_def)
  let ?e = "demo_turn (Some ?r)"
  let ?rx = "\<lparr>rx_src = 0x22, rx_counter = 7, rx_rssi = - 60, rx_lqi = 9, rx_confirmed = False, rx_data = [1, 2, 3]\<rparr>"
  obtain out air g2 where o: "on_uplink demo_lib (te_uplink ?e) (te_now_ms ?e) ?rx (g\<lparr>gw_net := n'\<rparr>) = (out, air, g2)" by (metis prod.exhaust)
  then have u: "turn_radio demo_lib ?e g = (out, air, g2)"
    using g(3,4) r by (simp add: turn_radio_def hopping_def recv_slice_def n_def [symmetric] serve_uplink_def demo_turn_def demo_lib_def)
  have "Uplink 0x22 7 (- 60) 9 [1, 2, 3] \<in> set out" using on_uplink_out [OF o] by (auto simp: host_uplink_def UPLINK_MAX_def)
  moreover have "turn_policy ?e g = g" by (simp add: turn_policy_def demo_turn_def sat_sub_def POLICY_REFRESH_def)
  ultimately show ?thesis using u by (intro exI [of _ ?r]) (auto simp: gw_turn_def Let_def demo_turn_def split: prod.splits)
qed

theorem uplinks_authentic_witness:
  "\<exists>g e. gw_life demo_lib (Inl demo_store) [] (Inr g) \<and> Uplink 0x22 7 (- 60) 9 [1, 2, 3] \<in> set (fst (gw_turn demo_lib e g)) \<and>
     list_all (authentic_uplink demo_lib e (snd (turn_requests demo_lib (take 2 (te_frames e)) (turn_policy e g)))) (fst (gw_turn demo_lib e g))"
proof -
  from demo_boots obtain g where g: "gw_life demo_lib (Inl demo_store) [] (Inr g)" "gw_find demo_lib 0x22 g = Some demo_node" "gw_addr g = 0x11"
    "gw_band g = Eu868" "gw_pairing g = None" "q_items (gw_queue g) = []" "rl_last_seen (net_lane 0x22 (gw_net g)) = 0" by blast
  from demo_uplink [OF g(2-7) gw_life_inv [OF g(1) demo_lib_ok demo_registry(4)]] obtain r where
    r: "Uplink 0x22 7 (- 60) 9 [1, 2, 3] \<in> set (fst (gw_turn demo_lib (demo_turn (Some r)) g))" ..
  from uplinks_authentic [OF demo_lib_ok demo_registry(4) g(1), of "demo_turn (Some r)"] r g(1) show ?thesis by (metis prod.collapse)
qed

section \<open>Chunked replies\<close>

text \<open>A well-formed reply stream from chunk \<open>c\<close> on: numbered upwards, only the last chunk flagged, no chunk longer than
  the buffer.\<close>

primrec reply_from :: "u16 \<Rightarrow> u16 \<Rightarrow> host_msg list \<Rightarrow> bytes option" where
  "reply_from req c [] = None"
| "reply_from req c (m # ms) =
     (case m of
        MgmtResponse r x k l d \<Rightarrow>
          if r \<noteq> req \<or> x \<noteq> MGMT_OK \<or> k \<noteq> c \<or> STREAM_BUF < length d then None
          else if l then (if ms = [] then Some d else None)
          else map_option ((@) d) (reply_from req (c + 1) ms)
      | _ \<Rightarrow> None)"

definition cs_ok :: "chunk_stream \<Rightarrow> bool" where
  "cs_ok s \<longleftrightarrow> length (cs_buf s) \<le> STREAM_BUF"

lemma map_option_append [simp]: "map_option ((@) []) x = x" "map_option ((@) h) (map_option ((@) t) x) = map_option ((@) (h @ t)) x"
  by (cases x; simp)+

lemma cs_flush_ok:
  assumes "cs_ok s" and "cs_flush s = (out, s1)"
  shows "length (cs_buf s1) < STREAM_BUF" and "cs_req s1 = cs_req s"
    and "reply_from (cs_req s) (cs_chunk s) (out @ ms) = map_option ((@) (if out = [] then [] else cs_buf s)) (reply_from (cs_req s) (cs_chunk s1) ms)"
    and "(if out = [] then [] else cs_buf s) @ cs_buf s1 = cs_buf s"
  using assms by (auto simp: cs_ok_def cs_flush_def mgmt_chunk_def STREAM_BUF_def MGMT_CHUNK_def split: if_splits)

text \<open>What \<open>push\<close> sends and keeps is what it was given.\<close>

lemma cs_push_ok:
  assumes "cs_ok s" and "cs_push data s = (out, s')"
  shows "cs_ok s' \<and> cs_req s' = cs_req s \<and>
    (\<exists>sent. sent @ cs_buf s' = cs_buf s @ data \<and>
       (\<forall>ms. reply_from (cs_req s) (cs_chunk s) (out @ ms) = map_option ((@) sent) (reply_from (cs_req s) (cs_chunk s') ms)))"
  using assms
proof (induction data s arbitrary: out s' rule: cs_push.induct)
  case (1 data s)
  show ?case
  proof (cases "data = []")
    case True
    with 1 show ?thesis by (auto simp: cs_push.simps intro!: exI [of _ "[]"])
  next
    case False
    obtain o1 s1 where f: "cs_flush s = (o1, s1)" by fastforce
    note F = cs_flush_ok [OF "1.prems"(1) f]
    define k where "k = min (length data) (STREAM_BUF - length (cs_buf s1))"
    let ?s2 = "s1\<lparr>cs_buf := cs_buf s1 @ take k data\<rparr>"
    have ok2: "cs_ok ?s2" using F(1) by (simp add: cs_ok_def k_def)
    have guard: "\<not> (data = [] \<or> STREAM_BUF < length (cs_buf s))" using False "1.prems"(1) by (simp add: cs_ok_def)
    obtain o2 where p: "cs_push (drop k data) ?s2 = (o2, s')" and out: "out = o1 @ o2"
      using "1.prems"(2) guard f by (subst (asm) cs_push.simps) (auto simp: Let_def k_def split: prod.splits)
    from "1.IH" [OF guard f [symmetric] k_def ok2 p] obtain sent where
      I: "cs_ok s'" "cs_req s' = cs_req s1" "sent @ cs_buf s' = cs_buf s1 @ take k data @ drop k data"
        "\<And>ms. reply_from (cs_req s1) (cs_chunk s1) (o2 @ ms) = map_option ((@) sent) (reply_from (cs_req s1) (cs_chunk s') ms)" by auto
    define h where "h = (if o1 = [] then [] else cs_buf s)"
    have "(h @ sent) @ cs_buf s' = cs_buf s @ data" using I(3) F(4) by (simp add: h_def)
    moreover have "reply_from (cs_req s) (cs_chunk s) (out @ ms) = map_option ((@) (h @ sent)) (reply_from (cs_req s) (cs_chunk s') ms)" for ms
      using F(3) [of "o2 @ ms"] I(4) F(2) out by (simp add: h_def [symmetric])
    ultimately show ?thesis using I(1,2) F(2) by metis
  qed
qed

lemma cs_push_all_ok:
  "cs_ok s \<Longrightarrow> cs_push_all ps s = (out, s') \<Longrightarrow> cs_ok s' \<and> cs_req s' = cs_req s \<and>
    (\<exists>sent. sent @ cs_buf s' = cs_buf s @ concat ps \<and>
       (\<forall>ms. reply_from (cs_req s) (cs_chunk s) (out @ ms) = map_option ((@) sent) (reply_from (cs_req s) (cs_chunk s') ms)))"
proof (induction ps arbitrary: s out)
  case Nil
  then show ?case by (auto simp: intro!: exI [of _ "[]"])
next
  case (Cons b ps)
  obtain o1 s1 where p: "cs_push b s = (o1, s1)" by fastforce
  obtain o2 where q: "cs_push_all ps s1 = (o2, s')" "out = o1 @ o2" using Cons.prems(2) p by (auto split: prod.splits)
  from cs_push_ok [OF Cons.prems(1) p] obtain h where H: "cs_ok s1" "cs_req s1 = cs_req s" "h @ cs_buf s1 = cs_buf s @ b"
    "\<And>ms. reply_from (cs_req s) (cs_chunk s) (o1 @ ms) = map_option ((@) h) (reply_from (cs_req s) (cs_chunk s1) ms)" by blast
  from Cons.IH [OF H(1) q(1)] H(2) obtain t where T: "cs_ok s'" "cs_req s' = cs_req s" "t @ cs_buf s' = cs_buf s1 @ concat ps"
    "\<And>ms. reply_from (cs_req s) (cs_chunk s1) (o2 @ ms) = map_option ((@) t) (reply_from (cs_req s) (cs_chunk s') ms)" by auto
  have "(h @ t) @ cs_buf s' = cs_buf s @ concat (b # ps)" using H(3) T(3) by (metis append.assoc concat.simps(2))
  moreover have "reply_from (cs_req s) (cs_chunk s) (out @ ms) = map_option ((@) (h @ t)) (reply_from (cs_req s) (cs_chunk s') ms)" for ms
    using H(4) [of "o2 @ ms"] T(4) q(2) by simp
  ultimately show ?case using T(1,2) by blast
qed

text \<open>C27. A chunked reply carries its records whole: whatever pieces a handler pushes, of whatever sizes, the
  replies of \<open>node list\<close> and \<open>queue list\<close> are chunks of the request, all successful, numbered from 0, none longer than the
  128-byte buffer, exactly the last one flagged, and their data joined are the pieces joined; pushing ends on every input.\<close>

theorem chunk_stream_reassembles: "reply_from req 0 (cs_reply req pieces) = Some (concat pieces)"
proof -
  obtain out s where p: "cs_push_all pieces (cs_new req) = (out, s)" by fastforce
  have "cs_ok (cs_new req)" by (simp add: cs_ok_def cs_new_def)
  from cs_push_all_ok [OF this p] obtain sent where s: "cs_ok s" "cs_req s = req" "sent @ cs_buf s = concat pieces"
    "\<And>ms. reply_from req 0 (out @ ms) = map_option ((@) sent) (reply_from req (cs_chunk s) ms)" by (auto simp: cs_new_def)
  then show ?thesis using p by (simp add: cs_reply_def cs_finish_def mgmt_chunk_def cs_ok_def STREAM_BUF_def MGMT_CHUNK_def)
qed

end
