(* ===== verification/Proto_Ring.thy ===== *)
theory Proto_Ring
  imports Proto_Frame
begin

text \<open>
  The console TX queue of \<open>crates/protocol/src/ring.rs\<close>: records of type, length and payload in a
  byte buffer that wraps around. The operations are as the code has them, on the buffer, the head
  index and the number of bytes in use. The contract of a bounded FIFO is a locale with the client
  fact the console writer relies on (what was accepted comes out, in order, nothing lost and
  nothing twice), and the ring is an interpretation of it.
\<close>

section \<open>The ring\<close>

definition RECORD_OVERHEAD :: nat where
  "RECORD_OVERHEAD = 2"

record ring =
  rg_buf :: bytes
  rg_head :: nat
  rg_len :: nat

definition ring_new :: "nat \<Rightarrow> ring" where
  "ring_new n = \<lparr>rg_buf = replicate n 0, rg_head = 0, rg_len = 0\<rparr>"

definition ring_cap :: "ring \<Rightarrow> nat" where
  "ring_cap r = length (rg_buf r)"

definition ring_room :: "ring \<Rightarrow> nat" where
  "ring_room r = ring_cap r - rg_len r"

definition ring_fits :: "nat \<Rightarrow> ring \<Rightarrow> bool" where
  "ring_fits n r \<longleftrightarrow> n \<le> P_MAX_PAYLOAD \<and> RECORD_OVERHEAD + n \<le> ring_cap r - rg_len r"

definition write_at :: "nat \<Rightarrow> bytes \<Rightarrow> bytes \<Rightarrow> bytes" where
  "write_at at bs buf =
     (let first = min (length bs) (length buf - at)
      in bsplice 0 (drop first bs) (bsplice at (take first bs) buf))"

definition read_at :: "nat \<Rightarrow> nat \<Rightarrow> bytes \<Rightarrow> bytes" where
  "read_at at n buf =
     (let first = min n (length buf - at) in bslice at first buf @ take (n - first) buf)"

definition ring_push :: "msg_type \<Rightarrow> bytes \<Rightarrow> ring \<Rightarrow> bool \<times> ring" where
  "ring_push mt payload r =
     (if \<not> ring_fits (length payload) r then (False, r)
      else let at = (rg_head r + rg_len r) mod ring_cap r;
               b1 = write_at at [msg_type_u8 mt, of_nat (length payload)] (rg_buf r);
               b2 = write_at ((at + RECORD_OVERHEAD) mod ring_cap r) payload b1
        in (True, r\<lparr>rg_buf := b2, rg_len := rg_len r + RECORD_OVERHEAD + length payload\<rparr>))"

definition ring_header :: "ring \<Rightarrow> (msg_type \<times> nat) option \<times> ring" where
  "ring_header r =
     (if rg_len r = 0 then (None, r)
      else let hdr = read_at (rg_head r) RECORD_OVERHEAD (rg_buf r) in
        case msg_type_from_u8 (hdr ! 0) of
          None \<Rightarrow> (None, r\<lparr>rg_head := 0, rg_len := 0\<rparr>)
        | Some mt \<Rightarrow> (Some (mt, unat (hdr ! 1)), r))"

definition ring_skip :: "nat \<Rightarrow> ring \<Rightarrow> ring" where
  "ring_skip n r =
     (let used = min (RECORD_OVERHEAD + n) (rg_len r);
          l = rg_len r - used
      in r\<lparr>rg_head := (if l = 0 then 0 else (rg_head r + used) mod ring_cap r), rg_len := l\<rparr>)"

text \<open>\<open>pop\<close> into an \<open>out\<close> of \<open>n\<close> bytes: the type and the bytes copied.\<close>

definition ring_pop :: "nat \<Rightarrow> ring \<Rightarrow> (msg_type \<times> bytes) option \<times> ring" where
  "ring_pop n r =
     (case ring_header r of (None, r') \<Rightarrow> (None, r')
      | (Some (mt, k), r') \<Rightarrow>
          (Some (mt, read_at ((rg_head r' + RECORD_OVERHEAD) mod ring_cap r') (min k n) (rg_buf r')), ring_skip k r'))"

lemma ring_header_shrinks:
  "ring_header r = (Some (mt, k), r') \<Longrightarrow> r' = r \<and> 0 < rg_len r"
  by (auto simp: ring_header_def Let_def split: if_splits option.splits)

function ring_clear :: "ring \<Rightarrow> nat \<times> ring" where
  "ring_clear r =
     (case ring_header r of (None, r') \<Rightarrow> (0, r')
      | (Some (mt, k), r') \<Rightarrow> (case ring_clear (ring_skip k r') of (n, r'') \<Rightarrow> (Suc n, r'')))"
  by pat_completeness auto
termination
  by (relation "measure rg_len") (auto dest!: ring_header_shrinks [OF sym] simp: ring_skip_def Let_def RECORD_OVERHEAD_def)

declare ring_clear.simps [simp del]

section \<open>The buffer as a wrapped sequence\<close>

text \<open>The \<open>n\<close> bytes from \<open>at\<close> on, wrapping.\<close>

definition wrapped :: "nat \<Rightarrow> nat \<Rightarrow> bytes \<Rightarrow> bytes" where
  "wrapped at n buf = map (\<lambda>i. buf ! ((at + i) mod length buf)) [0..<n]"

lemma length_wrapped [simp]: "length (wrapped at n buf) = n"
  by (simp add: wrapped_def)

lemma wrap_index: "at < N \<Longrightarrow> i < N \<Longrightarrow> (at + i) mod N = (if at + i < N then at + i else at + i - N)"
  for N :: nat
  by (simp add: mod_if)

lemma read_at_wrapped: "at < length buf \<Longrightarrow> n \<le> length buf \<Longrightarrow> read_at at n buf = wrapped at n buf"
  by (rule nth_equalityI) (auto simp: read_at_def Let_def wrapped_def nth_append nth_bslice mod_if add.commute)

lemma length_write_at: "at < length buf \<Longrightarrow> length bs \<le> length buf \<Longrightarrow> length (write_at at bs buf) = length buf"
  by (simp add: write_at_def Let_def)

lemma nth_write_at:
  assumes "at < length buf" and "length bs \<le> length buf" and "i < length buf"
  shows "write_at at bs buf ! i =
    (let k = (if at \<le> i then i - at else i + length buf - at) in if k < length bs then bs ! k else buf ! i)"
  using assms by (auto simp: write_at_def Let_def nth_bsplice min_def add.commute split: if_splits)

lemma ring_dist:
  fixes N :: nat
  assumes "h < N" and "j < N" and "l < N"
  shows "(if (h + l) mod N \<le> (h + j) mod N then (h + j) mod N - (h + l) mod N else (h + j) mod N + N - (h + l) mod N) =
    (if l \<le> j then j - l else j + N - l)"
  using assms by (auto simp: wrap_index)

text \<open>Writing right behind the bytes in use extends the sequence and leaves the rest of it.\<close>

lemma wrapped_write:
  assumes "h < length buf" and "l + length bs \<le> length buf" and "bs \<noteq> []"
  shows "wrapped h (l + length bs) (write_at ((h + l) mod length buf) bs buf) = wrapped h l buf @ bs"
proof (rule nth_equalityI)
  let ?N = "length buf" and ?at = "(h + l) mod length buf"
  have l: "l < ?N" using assms(2,3) by (cases bs) auto
  have at: "?at < ?N" using assms(1) by (intro mod_less_divisor) linarith
  have lb: "length bs \<le> ?N" using assms(2) by simp
  fix j assume "j < length (wrapped h (l + length bs) (write_at ?at bs buf))"
  then have j: "j < l + length bs" by simp
  then have jN: "j < ?N" using assms(2) by simp
  have jm: "(h + j) mod ?N < ?N" using assms(1) by (intro mod_less_divisor) linarith
  have "wrapped h (l + length bs) (write_at ?at bs buf) ! j = write_at ?at bs buf ! ((h + j) mod ?N)"
    using j by (simp add: wrapped_def length_write_at [OF at lb])
  also have "\<dots> = (let k = (if l \<le> j then j - l else j + ?N - l) in if k < length bs then bs ! k else buf ! ((h + j) mod ?N))"
    using nth_write_at [OF at lb jm] by (simp only: ring_dist [OF assms(1) jN l])
  also have "\<dots> = (wrapped h l buf @ bs) ! j"
    using j assms(2) by (auto simp: nth_append wrapped_def Let_def)
  finally show "wrapped h (l + length bs) (write_at ?at bs buf) ! j = (wrapped h l buf @ bs) ! j" .
qed simp

lemma wrapped_split: "wrapped h (a + b) buf = wrapped h a buf @ wrapped (h + a) b buf"
  by (rule nth_equalityI) (auto simp: wrapped_def nth_append add.assoc)

lemma wrapped_mod [simp]: "wrapped (h mod length buf) n buf = wrapped h n buf"
  by (simp add: wrapped_def mod_add_left_eq)

lemma wrapped_take: "k \<le> n \<Longrightarrow> take k (wrapped h n buf) = wrapped h k buf"
  using wrapped_split [of h k "n - k" buf] by simp

lemma wrapped_drop: "k \<le> n \<Longrightarrow> drop k (wrapped h n buf) = wrapped (h + k) (n - k) buf"
  using wrapped_split [of h k "n - k" buf] by simp

section \<open>The records in the ring\<close>

definition rec_bytes :: "msg_type \<times> bytes \<Rightarrow> bytes" where
  "rec_bytes m = [msg_type_u8 (fst m), of_nat (length (snd m))] @ snd m"

definition ring_holds :: "ring \<Rightarrow> (msg_type \<times> bytes) list \<Rightarrow> bool" where
  "ring_holds r ms \<longleftrightarrow> rg_head r < ring_cap r \<and> rg_len r \<le> ring_cap r \<and> (\<forall>m \<in> set ms. length (snd m) \<le> P_MAX_PAYLOAD) \<and>
     wrapped (rg_head r) (rg_len r) (rg_buf r) = concat (map rec_bytes ms)"

lemma payload_255: "P_MAX_PAYLOAD = 247"
  by (simp add: P_MAX_PAYLOAD_def P_MAX_FRAME_def P_HDR_def CRC_LEN_def)

lemma ring_push_holds:
  assumes "ring_holds r ms" and "ring_fits (length p) r"
  shows "ring_holds (snd (ring_push mt p r)) (ms @ [(mt, p)])" and "fst (ring_push mt p r)"
proof -
  let ?N = "ring_cap r" and ?h = "rg_head r" and ?l = "rg_len r" and ?hd = "[msg_type_u8 mt, of_nat (length p)] :: bytes"
  let ?at = "(?h + ?l) mod ?N"
  let ?b1 = "write_at ?at ?hd (rg_buf r)"
  let ?b2 = "write_at ((?at + 2) mod ?N) p ?b1"
  from assms have h: "?h < ?N" and fit: "2 + length p + ?l \<le> ?N" "length p \<le> 247"
    by (auto simp: ring_holds_def ring_fits_def RECORD_OVERHEAD_def payload_255)
  have at: "?at < ?N" using h by (intro mod_less_divisor) linarith
  have n1: "length ?b1 = ?N" using at fit by (simp add: length_write_at ring_cap_def)
  have w1: "wrapped ?h (?l + 2) ?b1 = wrapped ?h ?l (rg_buf r) @ ?hd"
    using wrapped_write [of ?h "rg_buf r" ?l ?hd] h fit by (simp add: ring_cap_def)
  have at2: "(?at + 2) mod ?N = (?h + (?l + 2)) mod length ?b1" using n1 by (simp add: mod_simps add.assoc)
  have w2: "wrapped ?h (?l + 2 + length p) ?b2 = wrapped ?h (?l + 2) ?b1 @ p" and n2: "length ?b2 = ?N"
  proof -
    show "wrapped ?h (?l + 2 + length p) ?b2 = wrapped ?h (?l + 2) ?b1 @ p"
    proof (cases "p = []")
      case True
      then have "?b2 = ?b1" by (simp add: write_at_def bsplice_def)
      then show ?thesis using True by simp
    next
      case False
      then show ?thesis unfolding at2 using wrapped_write [of ?h ?b1 "?l + 2" p] h fit n1 by simp
    qed
    show "length ?b2 = ?N" using n1 h fit length_write_at [of "(?at + 2) mod ?N" ?b1 p] by simp
  qed
  show "fst (ring_push mt p r)" using assms(2) by (simp add: ring_push_def Let_def)
  show "ring_holds (snd (ring_push mt p r)) (ms @ [(mt, p)])"
    using assms w1 w2 n2 h fit
    by (auto simp: ring_push_def Let_def ring_holds_def RECORD_OVERHEAD_def rec_bytes_def payload_255 ring_cap_def add.assoc)
qed


lemma ring_holds_Nil: "ring_holds r ms \<Longrightarrow> rg_len r = 0 \<longleftrightarrow> ms = []"
proof -
  assume "ring_holds r ms"
  then have "rg_len r = length (concat (map rec_bytes ms))" by (metis length_wrapped ring_holds_def)
  then show ?thesis by (cases ms) (simp_all add: rec_bytes_def)
qed

lemma ring_header_holds:
  assumes "ring_holds r (m # ms)"
  shows "ring_header r = (Some (fst m, length (snd m)), r)"
proof -
  let ?w = "wrapped (rg_head r) (rg_len r) (rg_buf r)"
  have w: "?w = rec_bytes m @ concat (map rec_bytes ms)" and h: "rg_head r < ring_cap r" "rg_len r \<le> ring_cap r"
    and p: "length (snd m) \<le> 247" using assms by (auto simp: ring_holds_def payload_255)
  have "2 + length (snd m) \<le> length ?w" unfolding w by (simp add: rec_bytes_def)
  then have len: "2 \<le> rg_len r" by simp
  have "read_at (rg_head r) 2 (rg_buf r) = take 2 ?w"
    using h len by (simp add: read_at_wrapped ring_cap_def wrapped_take)
  also have "\<dots> = [msg_type_u8 (fst m), of_nat (length (snd m))]" unfolding w by (simp add: rec_bytes_def)
  finally have "read_at (rg_head r) RECORD_OVERHEAD (rg_buf r) = [msg_type_u8 (fst m), of_nat (length (snd m))]"
    by (simp add: RECORD_OVERHEAD_def)
  moreover have "unat (of_nat (length (snd m)) :: u8) = length (snd m)" using p by (simp add: unat_of_nat)
  ultimately show ?thesis using len by (simp add: ring_header_def Let_def)
qed

lemma ring_skip_holds:
  assumes "ring_holds r (m # ms)"
  shows "ring_holds (ring_skip (length (snd m)) r) ms"
proof -
  let ?w = "wrapped (rg_head r) (rg_len r) (rg_buf r)" and ?k = "2 + length (snd m)"
  have w: "?w = rec_bytes m @ concat (map rec_bytes ms)" and h: "rg_head r < ring_cap r" "rg_len r \<le> ring_cap r"
    and p: "\<forall>x \<in> set ms. length (snd x) \<le> P_MAX_PAYLOAD" using assms by (auto simp: ring_holds_def)
  have rk: "length (rec_bytes m) = ?k" by (simp add: rec_bytes_def)
  have "?k \<le> length ?w" unfolding w using rk by simp
  then have len: "?k \<le> rg_len r" by simp
  have d: "wrapped (rg_head r + ?k) (rg_len r - ?k) (rg_buf r) = concat (map rec_bytes ms)"
    using wrapped_drop [OF len, of "rg_head r" "rg_buf r"] w rk by simp
  have s: "ring_skip (length (snd m)) r = r\<lparr>rg_head := (if rg_len r - ?k = 0 then 0 else (rg_head r + ?k) mod ring_cap r), rg_len := rg_len r - ?k\<rparr>"
    using len by (simp add: ring_skip_def Let_def RECORD_OVERHEAD_def min_def)
  have cap: "0 < ring_cap r" using h(1) by linarith
  show ?thesis
  proof (cases "rg_len r - ?k = 0")
    case True
    then have "concat (map rec_bytes ms) = []" using d by (metis length_0_conv length_wrapped)
    then show ?thesis using True s p cap by (simp add: ring_holds_def ring_cap_def wrapped_def)
  next
    case False
    then show ?thesis using s p cap d h by (simp add: ring_holds_def ring_cap_def)
  qed
qed

lemma ring_pop_holds:
  assumes "ring_holds r (m # ms)"
  shows "fst (ring_pop n r) = Some (fst m, take n (snd m))" and "ring_holds (snd (ring_pop n r)) ms"
proof -
  let ?w = "wrapped (rg_head r) (rg_len r) (rg_buf r)" and ?k = "length (snd m)"
  have w: "?w = rec_bytes m @ concat (map rec_bytes ms)" and h: "rg_head r < ring_cap r" "rg_len r \<le> ring_cap r"
    using assms by (auto simp: ring_holds_def)
  have rk: "length (rec_bytes m) = 2 + ?k" by (simp add: rec_bytes_def)
  have "2 + ?k \<le> length ?w" unfolding w using rk by simp
  then have len: "2 + ?k \<le> rg_len r" by simp
  have cap: "0 < ring_cap r" using h(1) by linarith
  have "read_at ((rg_head r + 2) mod ring_cap r) (min ?k n) (rg_buf r) = wrapped (rg_head r + 2) (min ?k n) (rg_buf r)"
    using cap len h(2) by (simp add: read_at_wrapped ring_cap_def)
  also have "\<dots> = take (min ?k n) (drop 2 ?w)" using len by (simp add: wrapped_drop wrapped_take)
  also have "\<dots> = take n (snd m)" unfolding w by (simp add: rec_bytes_def min_def)
  finally show "fst (ring_pop n r) = Some (fst m, take n (snd m))"
    by (simp add: ring_pop_def ring_header_holds [OF assms] RECORD_OVERHEAD_def)
  show "ring_holds (snd (ring_pop n r)) ms" by (simp add: ring_pop_def ring_header_holds [OF assms] ring_skip_holds [OF assms])
qed

lemma ring_pop_empty: "ring_holds r [] \<Longrightarrow> ring_pop n r = (None, r)"
  using ring_holds_Nil [of r "[]"] by (simp add: ring_pop_def ring_header_def)

lemma ring_clear_holds: "ring_holds r ms \<Longrightarrow> fst (ring_clear r) = length ms \<and> ring_holds (snd (ring_clear r)) []"
proof (induction ms arbitrary: r)
  case Nil
  then show ?case using ring_holds_Nil [OF Nil] by (simp add: ring_clear.simps [of r] ring_header_def)
next
  case (Cons m ms)
  obtain n r' where c: "ring_clear (ring_skip (length (snd m)) r) = (n, r')" by fastforce
  have "ring_clear r = (Suc n, r')" by (subst ring_clear.simps) (simp add: ring_header_holds [OF Cons.prems] c)
  then show ?case using Cons.IH [OF ring_skip_holds [OF Cons.prems]] c by simp
qed

text \<open>A record sequence is determined by its bytes, so a ring holds one list of records.\<close>

lemma unat_of_nat_247: "k \<le> 247 \<Longrightarrow> unat (of_nat k :: u8) = k"
  by (simp add: unat_of_nat)

lemma rec_bytes_inject:
  assumes "concat (map rec_bytes ms) = concat (map rec_bytes ns)"
    and "\<forall>m \<in> set ms. length (snd m) \<le> 247" and "\<forall>m \<in> set ns. length (snd m) \<le> 247"
  shows "ms = ns"
  using assms
proof (induction ms arbitrary: ns)
  case Nil
  then show ?case by (cases ns) (simp_all add: rec_bytes_def)
next
  case (Cons m ms)
  then obtain n ns' where ns: "ns = n # ns'" by (cases ns) (simp_all add: rec_bytes_def)
  have e: "rec_bytes m @ concat (map rec_bytes ms) = rec_bytes n @ concat (map rec_bytes ns')" using Cons.prems(1) ns by simp
  then have t: "msg_type_u8 (fst m) = msg_type_u8 (fst n)" "(of_nat (length (snd m)) :: u8) = of_nat (length (snd n))"
    by (simp_all add: rec_bytes_def)
  have "length (snd m) = length (snd n)"
    using t(2) Cons.prems(2,3) ns by (metis list.set_intros(1) unat_of_nat_247)
  moreover have "fst m = fst n" using t(1) msg_type_roundtrip by (metis option.inject)
  ultimately have "m = n" "concat (map rec_bytes ms) = concat (map rec_bytes ns')" using e by (auto simp: rec_bytes_def prod_eq_iff)
  then show ?case using Cons.IH [of ns'] Cons.prems ns by simp
qed


section \<open>The bounded FIFO\<close>

datatype 'a fifo_op = Put 'a | Get

text \<open>Any interleaving of producers and the consumer: the accepted items and the delivered ones.\<close>

primrec fifo_serve :: "('a \<Rightarrow> 's \<Rightarrow> bool \<times> 's) \<Rightarrow> ('s \<Rightarrow> 'a option \<times> 's) \<Rightarrow> 'a fifo_op list \<Rightarrow> 's \<Rightarrow> 'a list \<times> 'a list \<times> 's" where
  "fifo_serve enq deq [] s = ([], [], s)"
| "fifo_serve enq deq (p # ps) s =
     (case p of
        Put x \<Rightarrow> (case enq x s of (ok, s') \<Rightarrow> case fifo_serve enq deq ps s' of (acc, out, t) \<Rightarrow> ((if ok then x # acc else acc), out, t))
      | Get \<Rightarrow> (case deq s of (r, s') \<Rightarrow> case fifo_serve enq deq ps s' of (acc, out, t) \<Rightarrow> (acc, (case r of None \<Rightarrow> out | Some x \<Rightarrow> x # out), t)))"

locale bounded_fifo =
  fixes holds :: "'s \<Rightarrow> 'a list \<Rightarrow> bool"
    and enq :: "'a \<Rightarrow> 's \<Rightarrow> bool \<times> 's"
    and deq :: "'s \<Rightarrow> 'a option \<times> 's"
  assumes enq_ok: "holds s xs \<Longrightarrow> enq x s = (True, s') \<Longrightarrow> holds s' (xs @ [x])"
    and enq_full: "holds s xs \<Longrightarrow> enq x s = (False, s') \<Longrightarrow> holds s' xs"
    and deq_one: "holds s (x # xs) \<Longrightarrow> deq s = (r, s') \<Longrightarrow> r = Some x \<and> holds s' xs"
    and deq_none: "holds s [] \<Longrightarrow> deq s = (r, s') \<Longrightarrow> r = None \<and> holds s' []"
begin

lemma serve_fifo:
  "holds s xs \<Longrightarrow> fifo_serve enq deq ps s = (acc, out, t) \<Longrightarrow> \<exists>rest. holds t rest \<and> xs @ acc = out @ rest"
proof (induction ps arbitrary: s xs acc out t)
  case (Cons p ps)
  show ?case
  proof (cases p)
    case (Put x)
    obtain ok s' where e: "enq x s = (ok, s')" by fastforce
    obtain acc' out' t' where r: "fifo_serve enq deq ps s' = (acc', out', t')" by (cases "fifo_serve enq deq ps s'") auto
    have "holds s' (if ok then xs @ [x] else xs)" using enq_ok enq_full Cons.prems(1) e by (cases ok) auto
    from Cons.IH [OF this r] Cons.prems(2) Put e r show ?thesis by (cases ok) auto
  next
    case Get
    obtain v s' where e: "deq s = (v, s')" by fastforce
    obtain acc' out' t' where r: "fifo_serve enq deq ps s' = (acc', out', t')" by (cases "fifo_serve enq deq ps s'") auto
    show ?thesis
    proof (cases xs)
      case Nil
      then have "v = None" "holds s' []" using deq_none Cons.prems(1) e by auto
      from Cons.IH [OF this(2) r] this(1) Cons.prems(2) Get e r Nil show ?thesis by auto
    next
      case (Cons y ys)
      then have "v = Some y" "holds s' ys" using deq_one Cons.prems(1) e by auto
      from Cons.IH [OF this(2) r] this(1) Cons.prems(2) Get e r Cons show ?thesis by auto
    qed
  qed
qed auto

end

text \<open>The ring with a pop buffer that holds any payload.\<close>

definition ring_put :: "msg_type \<times> bytes \<Rightarrow> ring \<Rightarrow> bool \<times> ring" where
  "ring_put m r = ring_push (fst m) (snd m) r"

interpretation ring_fifo: bounded_fifo ring_holds ring_put "ring_pop P_MAX_PAYLOAD"
proof
  fix r r' :: ring and ms and m :: "msg_type \<times> bytes" and v
  show "ring_holds r' (ms @ [m])" if "ring_holds r ms" "ring_put m r = (True, r')"
  proof -
    have "ring_fits (length (snd m)) r" using that(2) by (auto simp: ring_put_def ring_push_def split: if_splits)
    from ring_push_holds(1) [OF that(1) this, of "fst m"] that(2) show ?thesis by (simp add: ring_put_def)
  qed
  show "ring_holds r' ms" if "ring_holds r ms" "ring_put m r = (False, r')"
    using that by (auto simp: ring_put_def ring_push_def Let_def split: if_splits)
  show "v = Some m \<and> ring_holds r' ms" if "ring_holds r (m # ms)" "ring_pop P_MAX_PAYLOAD r = (v, r')"
  proof -
    have "length (snd m) \<le> P_MAX_PAYLOAD" using that(1) by (simp add: ring_holds_def)
    then show ?thesis using ring_pop_holds [OF that(1), of P_MAX_PAYLOAD] that(2) by simp
  qed
  show "v = None \<and> ring_holds r' []" if "ring_holds r []" "ring_pop P_MAX_PAYLOAD r = (v, r')"
    using ring_pop_empty [OF that(1)] that by simp
qed

lemma ring_new_holds: "0 < n \<Longrightarrow> ring_holds (ring_new n) []"
  by (simp add: ring_holds_def ring_new_def ring_cap_def wrapped_def)

text \<open>C39. The console queue loses and reorders nothing: over any interleaving of pushes and pops on a
  ring of any size, with records that straddle the end of the buffer, the payloads popped are a
  prefix of the payloads accepted, in order, with their types and bytes, and exactly the rest is
  still in the ring. (That a push is refused only for lack of room is the lemma after this one.)\<close>

theorem ring_is_fifo:
  assumes "0 < n" and "fifo_serve ring_put (ring_pop P_MAX_PAYLOAD) ps (ring_new n) = (acc, out, r)"
  shows "\<exists>rest. ring_holds r rest \<and> acc = out @ rest"
  using ring_fifo.serve_fifo [OF ring_new_holds [OF assms(1)] assms(2)] by simp

theorem ring_is_fifo_witness:
  "\<exists>rest. ring_holds (snd (snd (fifo_serve ring_put (ring_pop P_MAX_PAYLOAD) [Put (MtLog, [1, 2]), Get] (ring_new 300)))) rest \<and>
     fst (fifo_serve ring_put (ring_pop P_MAX_PAYLOAD) [Put (MtLog, [1, 2]), Get] (ring_new 300)) =
       fst (snd (fifo_serve ring_put (ring_pop P_MAX_PAYLOAD) [Put (MtLog, [1, 2]), Get] (ring_new 300))) @ rest"
  by (rule ring_is_fifo [of 300 "[Put (MtLog, [1, 2]), Get]"]) simp_all

text \<open>A push is refused only for lack of room: it succeeds exactly when the payload is at most
  \<open>MAX_PAYLOAD\<close> bytes and its record fits the free bytes, and discarding the queue reports exactly
  the number of records that were waiting.\<close>

theorem ring_push_iff_fits:
  assumes "ring_holds r ms"
  shows "(fst (ring_push mt p r) \<longleftrightarrow> length p \<le> P_MAX_PAYLOAD \<and> RECORD_OVERHEAD + length p \<le> ring_room r) \<and>
     fst (ring_clear r) = length ms \<and> ring_holds (snd (ring_clear r)) []"
  using ring_clear_holds [OF assms] by (auto simp: ring_push_def ring_fits_def ring_room_def Let_def)

theorem ring_push_iff_fits_witness:
  "(fst (ring_push MtLog [1] (ring_new 300)) \<longleftrightarrow> length [1 :: u8] \<le> P_MAX_PAYLOAD \<and> RECORD_OVERHEAD + length [1 :: u8] \<le> ring_room (ring_new 300)) \<and>
     fst (ring_clear (ring_new 300)) = length ([] :: (msg_type \<times> bytes) list) \<and> ring_holds (snd (ring_clear (ring_new 300))) []"
  by (rule ring_push_iff_fits) (simp add: ring_new_holds)

end
