(* ===== verification/Shell_Kernel.thy ===== *)
theory Shell_Kernel
  imports Net_Handshake
begin

text \<open>
  The kernels behind the device shell, of crates/shell/src/lib.rs: the parser of an address setting, the
  fallback generator of a random address, the window that pages a response out by re-running its command, and
  the helpers of completion. A \<open>&str\<close> is its list of UTF-8 bytes; \<open>text_ok\<close> says what slicing relies
  on of a string: every character is a lead byte and at most three continuation bytes.
\<close>

section \<open>Text\<close>

text \<open>\<open>is_char_boundary\<close>.\<close>

definition is_cont :: "u8 \<Rightarrow> bool" where
  "is_cont b \<longleftrightarrow> b AND 0xC0 = 0x80"

definition is_char_boundary :: "bytes \<Rightarrow> nat \<Rightarrow> bool" where
  "is_char_boundary s i \<longleftrightarrow> i = 0 \<or> i = length s \<or> i < length s \<and> \<not> is_cont (s ! i)"

definition char_len :: "u8 \<Rightarrow> nat" where
  "char_len b = (if b < 0x80 then 1 else if b < 0xE0 then 2 else if b < 0xF0 then 3 else 4)"

function text_ok :: "bytes \<Rightarrow> bool" where
  "text_ok [] \<longleftrightarrow> True"
| "text_ok (b # s) \<longleftrightarrow>
     \<not> is_cont b \<and> char_len b - 1 \<le> length s \<and> list_all is_cont (take (char_len b - 1) s) \<and> text_ok (drop (char_len b - 1) s)"
  by pat_completeness auto
termination by (relation "measure length") auto

text \<open>The loops that move an index to a boundary, upwards and downwards.\<close>

function next_boundary :: "bytes \<Rightarrow> nat \<Rightarrow> nat" where
  "next_boundary s i = (if is_char_boundary s i \<or> length s \<le> i then i else next_boundary s (i + 1))"
  by pat_completeness auto
termination by (relation "measure (\<lambda>(s, i). length s - i)") auto

primrec prev_boundary :: "bytes \<Rightarrow> nat \<Rightarrow> nat \<Rightarrow> nat" where
  "prev_boundary s lo 0 = 0"
| "prev_boundary s lo (Suc hi) = (if lo < Suc hi \<and> \<not> is_char_boundary s (Suc hi) then prev_boundary s lo hi else Suc hi)"

declare next_boundary.simps [simp del]

section \<open>Addresses\<close>

definition to_ascii_lowercase :: "u8 \<Rightarrow> u8" where
  "to_ascii_lowercase b = (if 0x41 \<le> b \<and> b \<le> 0x5A then b + 0x20 else b)"

definition eq_ignore_ascii_case :: "bytes \<Rightarrow> bytes \<Rightarrow> bool" where
  "eq_ignore_ascii_case a b \<longleftrightarrow> map to_ascii_lowercase a = map to_ascii_lowercase b"

definition hex_digit :: "u8 \<Rightarrow> u32 option" where
  "hex_digit b =
     (if 0x30 \<le> b \<and> b \<le> 0x39 then Some (ucast (b - 0x30))
      else if 0x61 \<le> b \<and> b \<le> 0x66 then Some (ucast (b - 0x57))
      else if 0x41 \<le> b \<and> b \<le> 0x46 then Some (ucast (b - 0x37)) else None)"

text \<open>\<open>from_str_radix(_, 16)\<close> on at most eight digits, which cannot overflow.\<close>

definition hex_value :: "bytes \<Rightarrow> u32" where
  "hex_value s = foldl (\<lambda>a b. a * 16 + (case hex_digit b of Some d \<Rightarrow> d | None \<Rightarrow> 0)) 0 s"

definition strip_0x :: "bytes \<Rightarrow> bytes" where
  "strip_0x v = (if take 2 v = ascii ''0x'' \<or> take 2 v = ascii ''0X'' then drop 2 v else v)"

definition parse_addr :: "bytes \<Rightarrow> u32 option" where
  "parse_addr v =
     (if eq_ignore_ascii_case v (ascii ''auto'') then Some 0
      else let hex = strip_0x v in
        if hex = [] \<or> 8 < length hex \<or> \<not> list_all (\<lambda>b. hex_digit b \<noteq> None) hex then None else Some (hex_value hex))"

definition xorshift32_nonzero :: "u32 \<Rightarrow> u32" where
  "xorshift32_nonzero seed =
     (let x = seed OR 1; x = x XOR push_bit 13 x; x = x XOR drop_bit 17 x in x XOR push_bit 5 x)"

section \<open>The paging window\<close>

record window =
  w_skip :: nat
  w_cap :: nat
  w_total :: nat
  w_captured :: nat
  w_skipped :: nat

definition window_new :: "nat \<Rightarrow> nat \<Rightarrow> window" where
  "window_new skip cap = \<lparr>w_skip = skip, w_cap = cap, w_total = 0, w_captured = 0, w_skipped = 0\<rparr>"

definition window_feed :: "bytes \<Rightarrow> window \<Rightarrow> bytes \<times> window" where
  "window_feed s w =
     (let start = w_total w; w1 = w\<lparr>w_total := w_total w + length s\<rparr>; room = w_cap w - w_captured w in
      if room = 0 then ([], w1)
      else let lo0 = min (w_skip w - start) (length s);
               lo = next_boundary s lo0;
               w2 = w1\<lparr>w_skipped := w_skipped w1 + (lo - lo0)\<rparr>;
               hi_win = min (w_skip w + w_cap w - start) (length s);
               hi = prev_boundary s lo (min hi_win (lo + room))
           in if hi \<le> lo then ([], w2)
              else (take (hi - lo) (drop lo s), w2\<lparr>w_captured := w_captured w2 + (hi - lo)\<rparr>))"

definition w_consumed :: "window \<Rightarrow> nat" where
  "w_consumed w = w_captured w + w_skipped w"

definition w_more :: "window \<Rightarrow> bool" where
  "w_more w \<longleftrightarrow> w_skip w + w_consumed w < w_total w"

text \<open>One pass: a command writes its whole response in pieces, the window keeps its slice.\<close>

primrec window_pass :: "bytes list \<Rightarrow> window \<Rightarrow> bytes \<times> window" where
  "window_pass [] w = ([], w)"
| "window_pass (s # ps) w =
     (case window_feed s w of (seg, w1) \<Rightarrow> (case window_pass ps w1 of (out, w2) \<Rightarrow> (seg @ out, w2)))"

section \<open>Completion\<close>

primrec zip_common :: "bytes \<Rightarrow> bytes \<Rightarrow> nat" where
  "zip_common [] t = 0"
| "zip_common (a # s) t = (case t of [] \<Rightarrow> 0 | b # t' \<Rightarrow> if a = b then Suc (zip_common s t') else 0)"

definition common_prefix :: "bytes list \<Rightarrow> bytes" where
  "common_prefix texts =
     (case texts of [] \<Rightarrow> []
      | first # ts \<Rightarrow> take (prev_boundary first 0 (foldl (\<lambda>l t. min l (zip_common first t)) (length first) ts)) first)"

function varint_len :: "nat \<Rightarrow> nat" where
  "varint_len n = (if n < 0x80 then 1 else Suc (varint_len (n div 128)))"
  by pat_completeness auto
termination by (relation "measure id") auto

declare varint_len.simps [simp del]

record completion_budget =
  cb_used :: nat
  cb_cap :: nat
  cb_any :: bool

definition budget_new :: "nat \<Rightarrow> completion_budget" where
  "budget_new cap = \<lparr>cb_used = 3 + 3 + 1 + 1 + 1, cb_cap = cap, cb_any = False\<rparr>"

definition budget_try_add :: "nat \<Rightarrow> completion_budget \<Rightarrow> bool \<times> completion_budget" where
  "budget_try_add len b =
     (let cost = varint_len len + len + 1 + (if cb_any b then 0 else varint_len len - 1 + len) in
      if cb_cap b < cb_used b + cost then (False, b) else (True, b\<lparr>cb_used := cb_used b + cost, cb_any := True\<rparr>))"

section \<open>The fallback generator\<close>

lemma push_bit_fixed:
  fixes x :: "'a::len word"
  assumes "push_bit n x = x" and "0 < n"
  shows "x = 0"
proof (rule bit_word_eqI)
  fix i assume "i < LENGTH('a)"
  show "bit x i \<longleftrightarrow> bit (0 :: 'a word) i"
  proof (induction i rule: less_induct)
    case (less i)
    have "bit x i \<longleftrightarrow> bit (push_bit n x) i" by (simp add: assms(1))
    with less.IH [of "i - n"] assms(2) show ?case by (auto simp: bit_simps)
  qed
qed

lemma drop_bit_fixed:
  fixes x :: "'a::len word"
  assumes "drop_bit n x = x" and "0 < n"
  shows "x = 0"
proof (rule bit_word_eqI)
  fix i assume "i < LENGTH('a)"
  have shift: "bit x i \<longleftrightarrow> bit x (i + k * n)" for k i
  proof (induction k)
    case (Suc k)
    have "bit x (i + k * n) \<longleftrightarrow> bit (drop_bit n x) (i + k * n)" by (simp add: assms(1))
    with Suc show ?case by (simp add: bit_simps ac_simps)
  qed simp
  have "LENGTH('a) \<le> i + LENGTH('a) * n" using assms(2) by (simp add: trans_le_add2)
  then have "\<not> bit x (i + LENGTH('a) * n)" by (auto dest: bit_imp_le_length)
  with shift [of i "LENGTH('a)"] show "bit x i \<longleftrightarrow> bit (0 :: 'a word) i" by simp
qed

lemma xorshift_not_zero: "xorshift32_nonzero seed \<noteq> 0"
proof -
  have odd: "seed OR 1 \<noteq> 0"
  proof
    assume "seed OR 1 = 0"
    then have "\<not> bit (seed OR 1) 0" by simp
    then show False by (simp add: bit_simps)
  qed
  have eq: "a XOR b = 0 \<longleftrightarrow> a = b" for a b :: u32
    by (auto simp: bit_eq_iff bit_simps)
  have l: "x XOR push_bit n x \<noteq> 0" if "x \<noteq> 0" "0 < n" for x :: u32 and n
    using push_bit_fixed [of n x] that unfolding eq by metis
  have r: "x XOR drop_bit n x \<noteq> 0" if "x \<noteq> 0" "0 < n" for x :: u32 and n
    using drop_bit_fixed [of n x] that unfolding eq by metis
  show ?thesis unfolding xorshift32_nonzero_def Let_def by (intro l r odd) simp_all
qed

section \<open>Boundaries\<close>

lemma boundary_ends [simp]: "is_char_boundary s 0" "is_char_boundary s (length s)"
  by (simp_all add: is_char_boundary_def)

lemma next_boundary_props:
  assumes "i \<le> length s"
  shows "i \<le> next_boundary s i \<and> next_boundary s i \<le> length s \<and> is_char_boundary s (next_boundary s i) \<and>
     (\<forall>j. i \<le> j \<longrightarrow> j < next_boundary s i \<longrightarrow> \<not> is_char_boundary s j)"
  using assms
proof (induction s i rule: next_boundary.induct)
  case (1 s i)
  show ?case
  proof (cases "is_char_boundary s i \<or> length s \<le> i")
    case True
    with 1 have "is_char_boundary s i" by auto
    with 1 show ?thesis by (simp add: next_boundary.simps)
  next
    case False
    with 1 have "i + 1 \<le> length s" by simp
    note IH = "1.IH" [OF False this]
    from False have "next_boundary s i = next_boundary s (i + 1)" by (simp add: next_boundary.simps [of s i])
    with IH False show ?thesis by (metis Suc_eq_plus1 Suc_leD Suc_leI le_neq_implies_less)
  qed
qed

lemma prev_boundary_props:
  assumes "lo \<le> hi" and "is_char_boundary s lo"
  shows "lo \<le> prev_boundary s lo hi \<and> prev_boundary s lo hi \<le> hi \<and> is_char_boundary s (prev_boundary s lo hi) \<and>
     (\<forall>j. prev_boundary s lo hi < j \<longrightarrow> j \<le> hi \<longrightarrow> \<not> is_char_boundary s j)"
  using assms
proof (induction hi)
  case (Suc hi)
  then show ?case by (cases "lo = Suc hi") (auto simp: le_Suc_eq)
qed simp

text \<open>Between two characters of a text there are at most three continuation bytes.\<close>

lemma char_len_bounds: "1 \<le> char_len b" "char_len b \<le> 4"
  by (simp_all add: char_len_def)

lemma cons_boundary:
  assumes "\<not> is_cont b" and "i \<noteq> 0"
  shows "is_char_boundary (b # s) i \<longleftrightarrow> (i = Suc (length s) \<or> i < Suc (length s) \<and> \<not> is_cont (s ! (i - 1)))"
  using assms by (cases i) (auto simp: is_char_boundary_def)

lemma next_boundary_close: "text_ok s \<Longrightarrow> i \<le> length s \<Longrightarrow> \<exists>j. i \<le> j \<and> j \<le> i + 3 \<and> j \<le> length s \<and> is_char_boundary s j"
proof (induction s arbitrary: i rule: text_ok.induct)
  case (2 b s)
  let ?k = "char_len b - 1"
  have k: "?k \<le> 3" "?k \<le> length s" "text_ok (drop ?k s)" using 2 char_len_bounds [of b] by auto
  show ?case
  proof (cases "i \<le> Suc ?k")
    case True
    show ?thesis
    proof (cases "i = 0")
      case False
      have "is_char_boundary (b # s) (Suc ?k)"
      proof (cases "drop ?k s")
        case Nil
        with k(2) have "Suc ?k = length (b # s)" by simp
        then show ?thesis by (metis boundary_ends(2))
      next
        case (Cons c t)
        with k(3) have "\<not> is_cont c" by (metis text_ok.simps(2))
        moreover have "(b # s) ! Suc ?k = c" using Cons by (metis nth_Cons_Suc nth_via_drop)
        moreover have "Suc ?k < length (b # s)" using Cons k(2) by (metis drop_eq_Nil2 leI length_Cons list.distinct(1) not_less_eq)
        ultimately show ?thesis by (simp add: is_char_boundary_def)
      qed
      with False True k show ?thesis by (intro exI [of _ "Suc ?k"]) auto
    qed (auto intro!: exI [of _ 0])
  next
    case False
    define m where "m = i - Suc ?k"
    have m: "i = m + Suc ?k" "m \<le> length (drop ?k s)" using False 2 k(2) by (auto simp: m_def)
    from "2.IH" [OF k(3) m(2)] obtain j where j: "m \<le> j" "j \<le> m + 3" "j \<le> length (drop ?k s)" "is_char_boundary (drop ?k s) j" by blast
    have "j \<noteq> 0" using j(1) False m_def by simp
    then have "is_char_boundary (b # s) (j + Suc ?k)" using j(3,4) k(2) by (auto simp: is_char_boundary_def add.commute)
    with j m k(2) show ?thesis by (intro exI [of _ "j + Suc ?k"]) auto
  qed
qed (simp add: is_char_boundary_def)

lemma next_boundary_ge: "i \<le> length s \<Longrightarrow> i \<le> next_boundary s i"
  and next_boundary_le: "i \<le> length s \<Longrightarrow> next_boundary s i \<le> length s"
  and next_boundary_is: "i \<le> length s \<Longrightarrow> is_char_boundary s (next_boundary s i)"
  and next_boundary_gap: "i \<le> length s \<Longrightarrow> i \<le> k \<Longrightarrow> k < next_boundary s i \<Longrightarrow> \<not> is_char_boundary s k"
  using next_boundary_props by blast+

lemma prev_boundary_le: "prev_boundary s 0 hi \<le> hi"
  and prev_boundary_is: "is_char_boundary s (prev_boundary s 0 hi)"
  and prev_boundary_gap: "prev_boundary s 0 hi < k \<Longrightarrow> k \<le> hi \<Longrightarrow> \<not> is_char_boundary s k"
  using prev_boundary_props [of 0] boundary_ends(1) zero_le by blast+

lemma next_boundary_eq:
  assumes "i \<le> j" and "j \<le> length s" and "is_char_boundary s j" and "\<And>k. i \<le> k \<Longrightarrow> k < j \<Longrightarrow> \<not> is_char_boundary s k"
  shows "next_boundary s i = j"
  using next_boundary_props [of i s] assms by (metis le_trans linorder_neqE_nat)

lemma prev_boundary_eq:
  assumes "lo \<le> j" and "j \<le> hi" and "is_char_boundary s lo" and "is_char_boundary s j" and "\<And>k. j < k \<Longrightarrow> k \<le> hi \<Longrightarrow> \<not> is_char_boundary s k"
  shows "prev_boundary s lo hi = j"
  using prev_boundary_props [of lo hi s] assms by (metis le_trans linorder_neqE_nat)

lemma text_ok_append: "text_ok a \<Longrightarrow> text_ok b \<Longrightarrow> text_ok (a @ b)"
  by (induction a rule: text_ok.induct) auto

lemma text_ok_concat: "list_all text_ok ps \<Longrightarrow> text_ok (concat ps)"
  by (induction ps) (auto intro: text_ok_append)

lemma boundary_append:
  assumes "text_ok b"
  shows "is_char_boundary (a @ b) i \<longleftrightarrow> (if i < length a then is_char_boundary a i else is_char_boundary b (i - length a))"
proof (cases "i = length a")
  case True
  then show ?thesis using assms by (cases b) (auto simp: is_char_boundary_def)
qed (auto simp: is_char_boundary_def nth_append)

lemma next_boundary_within: "text_ok s \<Longrightarrow> i \<le> length s \<Longrightarrow> next_boundary s i \<le> i + 3"
  using next_boundary_close [of s i] next_boundary_props [of i s] by (meson le_trans not_less)

lemma next_boundary_at [simp]: "is_char_boundary s i \<Longrightarrow> next_boundary s i = i"
  by (simp add: next_boundary.simps)

lemma prev_boundary_at [simp]: "is_char_boundary s i \<Longrightarrow> prev_boundary s lo i = i"
  by (cases i) auto

section \<open>One pass captures one slice\<close>

text \<open>The slice of a text a window keeps: from the first boundary at or after \<open>skip\<close> to the last one within the
  capacity.\<close>

definition slice_lo :: "bytes \<Rightarrow> nat \<Rightarrow> nat" where
  "slice_lo t skip = next_boundary t (min skip (length t))"

definition slice_hi :: "bytes \<Rightarrow> nat \<Rightarrow> nat \<Rightarrow> nat" where
  "slice_hi t skip cap = prev_boundary t 0 (min (length t) (skip + cap))"

definition slice :: "bytes \<Rightarrow> nat \<Rightarrow> nat \<Rightarrow> bytes" where
  "slice t skip cap = take (slice_hi t skip cap - slice_lo t skip) (drop (slice_lo t skip) t)"

lemma slice_bounds:
  assumes "text_ok t" and "4 \<le> cap"
  shows "min skip (length t) \<le> slice_lo t skip" and "slice_lo t skip \<le> slice_hi t skip cap" and "slice_hi t skip cap \<le> length t"
    and "slice_hi t skip cap \<le> skip + cap" and "is_char_boundary t (slice_lo t skip)" and "is_char_boundary t (slice_hi t skip cap)"
    and "skip < length t \<Longrightarrow> skip < slice_hi t skip cap"
proof -
  let ?m = "min skip (length t)" and ?h = "min (length t) (skip + cap)"
  have N: "?m \<le> slice_lo t skip" "slice_lo t skip \<le> length t" "is_char_boundary t (slice_lo t skip)"
    using next_boundary_props [of ?m t] unfolding slice_lo_def by auto
  note B = prev_boundary_props [of 0 ?h t, OF zero_le boundary_ends(1), folded slice_hi_def]
  have P: "slice_hi t skip cap \<le> ?h" "is_char_boundary t (slice_hi t skip cap)" using B by blast+
  have max: "j \<le> slice_hi t skip cap" if "is_char_boundary t j" "j \<le> ?h" for j using B that not_less by blast
  show "?m \<le> slice_lo t skip" "is_char_boundary t (slice_lo t skip)" "is_char_boundary t (slice_hi t skip cap)" by (fact N(1) N(3) P(2))+
  show "slice_hi t skip cap \<le> length t" "slice_hi t skip cap \<le> skip + cap" using P(1) by linarith+
  have "slice_lo t skip \<le> ?m + 3" using next_boundary_within [OF assms(1), of ?m] unfolding slice_lo_def by simp
  then have "slice_lo t skip \<le> ?h" using N(2) assms(2) by linarith
  with N(3) show "slice_lo t skip \<le> slice_hi t skip cap" by (rule max)
  assume "skip < length t"
  then obtain j where j: "skip + 1 \<le> j" "j \<le> skip + 1 + 3" "j \<le> length t" "is_char_boundary t j"
    using next_boundary_close [OF assms(1), of "skip + 1"] by auto
  then have "j \<le> ?h" using assms(2) by linarith
  with max [OF j(4)] j(1) show "skip < slice_hi t skip cap" by linarith
qed

definition paged :: "bytes \<Rightarrow> nat \<Rightarrow> nat \<Rightarrow> bytes \<Rightarrow> window \<Rightarrow> bool" where
  "paged t skip cap out w \<longleftrightarrow>
     w_skip w = skip \<and> w_cap w = cap \<and> w_total w = length t \<and> out = slice t skip cap \<and>
     w_captured w = slice_hi t skip cap - slice_lo t skip \<and> w_skipped w = slice_lo t skip - min skip (length t)"

lemma slice_lo_append:
  assumes "text_ok t" and "text_ok q" and "skip \<le> length t"
  shows "slice_lo (t @ q) skip = slice_lo t skip"
proof -
  note le = next_boundary_le [OF assms(3)]
  have "next_boundary (t @ q) skip = next_boundary t skip"
  proof (rule next_boundary_eq)
    show "is_char_boundary (t @ q) (next_boundary t skip)"
      using le next_boundary_is [OF assms(3)] by (simp add: boundary_append [OF assms(2)])
    show "\<not> is_char_boundary (t @ q) k" if "skip \<le> k" "k < next_boundary t skip" for k
      using next_boundary_gap [OF assms(3) that] le that by (simp add: boundary_append [OF assms(2)])
    show "skip \<le> next_boundary t skip" using next_boundary_ge [OF assms(3)] .
    show "next_boundary t skip \<le> length (t @ q)" using le by simp
  qed
  then show ?thesis using assms(3) by (simp add: slice_lo_def min_absorb1)
qed

lemma slice_lo_later:
  assumes "text_ok q" and "length t \<le> skip"
  shows "slice_lo (t @ q) skip = length t + next_boundary q (min (skip - length t) (length q))"
proof -
  define i where "i = min (skip - length t) (length q)"
  have i: "i \<le> length q" by (simp add: i_def)
  have "next_boundary (t @ q) (length t + i) = length t + next_boundary q i"
  proof (rule next_boundary_eq)
    show "length t + i \<le> length t + next_boundary q i" using next_boundary_ge [OF i] by simp
    show "length t + next_boundary q i \<le> length (t @ q)" using next_boundary_le [OF i] by simp
    show "is_char_boundary (t @ q) (length t + next_boundary q i)" using next_boundary_is [OF i] by (simp add: boundary_append [OF assms(1)])
    show "\<not> is_char_boundary (t @ q) k" if "length t + i \<le> k" "k < length t + next_boundary q i" for k
    proof -
      have "i \<le> k - length t" "k - length t < next_boundary q i" "\<not> k < length t" using that by linarith+
      with next_boundary_gap [OF i] show ?thesis by (simp add: boundary_append [OF assms(1)])
    qed
  qed
  moreover have "min skip (length (t @ q)) = length t + i" using assms(2) unfolding i_def length_append by arith
  ultimately show ?thesis by (simp add: slice_lo_def i_def)
qed

lemma slice_hi_append:
  assumes "text_ok q"
  shows "slice_hi (t @ q) skip cap =
     (if skip + cap < length t then slice_hi t skip cap else length t + prev_boundary q 0 (min (skip + cap - length t) (length q)))"
proof (cases "skip + cap < length t")
  case True
  have le: "prev_boundary t 0 (skip + cap) < length t" using prev_boundary_le [of t "skip + cap"] True by linarith
  have "prev_boundary (t @ q) 0 (skip + cap) = prev_boundary t 0 (skip + cap)"
  proof (rule prev_boundary_eq)
    show "is_char_boundary (t @ q) (prev_boundary t 0 (skip + cap))" using le prev_boundary_is by (simp add: boundary_append [OF assms])
    show "\<not> is_char_boundary (t @ q) k" if "prev_boundary t 0 (skip + cap) < k" "k \<le> skip + cap" for k
      using prev_boundary_gap [OF that] that True by (simp add: boundary_append [OF assms])
  qed (simp_all add: prev_boundary_le)
  with True show ?thesis by (simp add: slice_hi_def)
next
  case False
  define h where "h = min (skip + cap - length t) (length q)"
  have "prev_boundary (t @ q) 0 (length t + h) = length t + prev_boundary q 0 h"
  proof (rule prev_boundary_eq)
    show "is_char_boundary (t @ q) (length t + prev_boundary q 0 h)" using prev_boundary_is by (simp add: boundary_append [OF assms])
    show "\<not> is_char_boundary (t @ q) k" if "length t + prev_boundary q 0 h < k" "k \<le> length t + h" for k
    proof -
      have "prev_boundary q 0 h < k - length t" "k - length t \<le> h" "\<not> k < length t" using that by linarith+
      with prev_boundary_gap show ?thesis by (simp add: boundary_append [OF assms])
    qed
  qed (simp_all add: prev_boundary_le)
  moreover have "min (length (t @ q)) (skip + cap) = length t + h" using False unfolding h_def length_append by arith
  ultimately show ?thesis using False by (simp add: slice_hi_def h_def)
qed

text \<open>What a window keeps of a piece that ends at or before its start, and of a later one.\<close>

lemma feed_start:
  assumes q: "text_ok q" and cap: "4 \<le> cap" and w: "w_skip w = skip" "w_cap w = cap" "w_captured w = 0" "w_total w \<le> skip"
    and run: "window_feed q w = (seg, w')"
  defines "lo0 \<equiv> min (skip - w_total w) (length q)" and "hw \<equiv> min (skip + cap - w_total w) (length q)"
  shows "seg = take (prev_boundary q 0 hw - next_boundary q lo0) (drop (next_boundary q lo0) q)"
    and "w' = w\<lparr>w_total := w_total w + length q, w_captured := prev_boundary q 0 hw - next_boundary q lo0,
      w_skipped := w_skipped w + (next_boundary q lo0 - lo0)\<rparr>"
proof -
  have lo0: "lo0 \<le> length q" by (simp add: lo0_def)
  define lo where "lo = next_boundary q lo0"
  have lo: "lo0 \<le> lo" "lo \<le> length q" "is_char_boundary q lo" "lo \<le> lo0 + 3"
    using next_boundary_ge [OF lo0] next_boundary_le [OF lo0] next_boundary_is [OF lo0] next_boundary_within [OF q lo0] by (simp_all add: lo_def)
  have le: "lo \<le> hw" using lo(2,4) cap w(4) unfolding hw_def lo0_def by arith
  have hw: "min hw (lo + cap) = hw" using lo(1) w(4) unfolding hw_def lo0_def by arith
  have pb: "prev_boundary q lo hw = prev_boundary q 0 hw"
  proof (rule prev_boundary_eq [OF _ prev_boundary_le lo(3) prev_boundary_is])
    show "lo \<le> prev_boundary q 0 hw" using prev_boundary_gap [of q hw lo] le lo(3) by (meson not_less)
  qed (rule prev_boundary_gap)
  have c: "cap \<noteq> 0" using cap by simp
  show "seg = take (prev_boundary q 0 hw - next_boundary q lo0) (drop (next_boundary q lo0) q)"
    "w' = w\<lparr>w_total := w_total w + length q, w_captured := prev_boundary q 0 hw - next_boundary q lo0,
      w_skipped := w_skipped w + (next_boundary q lo0 - lo0)\<rparr>"
    using run c by (auto simp: window_feed_def Let_def w(1-3) lo0_def [symmetric] lo_def [symmetric] hw_def [symmetric] hw pb split: if_splits)
qed

lemma feed_more:
  assumes w: "w_skip w = skip" "w_cap w = cap" "skip \<le> w_total w" "w_captured w + skip \<le> w_total w" and run: "window_feed q w = (seg, w')"
  defines "hw \<equiv> min (skip + cap - w_total w) (length q)"
  shows "seg = take (prev_boundary q 0 hw) q" and "w' = w\<lparr>w_total := w_total w + length q, w_captured := w_captured w + length seg\<rparr>"
proof -
  have lo: "min (skip - w_total w) (length q) = 0" using w(3) by simp
  have le: "prev_boundary q 0 hw \<le> length q" using prev_boundary_le [of q hw] by (simp add: hw_def)
  show "seg = take (prev_boundary q 0 hw) q" "w' = w\<lparr>w_total := w_total w + length q, w_captured := w_captured w + length seg\<rparr>"
  proof -
    have "seg = take (prev_boundary q 0 hw) q \<and> w' = w\<lparr>w_total := w_total w + length q, w_captured := w_captured w + length seg\<rparr>"
    proof (cases "cap \<le> w_captured w")
      case True
      then have "hw = 0" using w(4) unfolding hw_def by arith
      with True run show ?thesis by (auto simp: window_feed_def Let_def w(1,2))
    next
      case False
      have room: "min hw (cap - w_captured w) = hw" using w(4) unfolding hw_def by arith
      show ?thesis using False run le
        by (auto simp: window_feed_def Let_def w(1,2) lo hw_def [symmetric] room split: if_splits)
    qed
    then show "seg = take (prev_boundary q 0 hw) q" "w' = w\<lparr>w_total := w_total w + length q, w_captured := w_captured w + length seg\<rparr>" by blast+
  qed
qed

lemma feed_paged:
  assumes t: "text_ok t" and q: "text_ok q" and cap: "4 \<le> cap" and w: "paged t skip cap out w" and run: "window_feed q w = (seg, w')"
  shows "paged (t @ q) skip cap (out @ seg) w'"
proof -
  have W: "w_skip w = skip" "w_cap w = cap" "w_total w = length t" "out = slice t skip cap"
      "w_captured w = slice_hi t skip cap - slice_lo t skip" "w_skipped w = slice_lo t skip - min skip (length t)"
    using w by (simp_all add: paged_def)
  note B = slice_bounds [OF t cap, of skip]
  show ?thesis
  proof (cases "length t \<le> skip")
    case True
    then have st: "slice_lo t skip = length t" "slice_hi t skip cap = length t" by (simp_all add: slice_lo_def slice_hi_def min_absorb1 min_absorb2)
    have c: "w_captured w = 0" "w_skipped w = 0" "out = []" "w_total w \<le> skip" using W st True by (simp_all add: slice_def)
    note F = feed_start [OF q cap W(1,2) c(1,4) run]
    have S: "slice_lo (t @ q) skip = length t + next_boundary q (min (skip - length t) (length q))"
      "slice_hi (t @ q) skip cap = length t + prev_boundary q 0 (min (skip + cap - length t) (length q))"
      using slice_lo_later [OF q True] slice_hi_append [OF q, of t skip cap] True by simp_all
    have m: "min skip (length (t @ q)) = length t + min (skip - length t) (length q)" using True unfolding length_append by arith
    show ?thesis using F S W(1-3) c unfolding paged_def m by (simp add: slice_def)
  next
    case False
    have le: "skip \<le> w_total w" "w_captured w + skip \<le> w_total w" using W B(1-3) False by simp_all
    define hw where "hw = min (skip + cap - length t) (length q)"
    have F: "seg = take (prev_boundary q 0 hw) q" "w' = w\<lparr>w_total := length t + length q, w_captured := w_captured w + length seg\<rparr>"
      using feed_more [OF W(1,2) le run] W(3) by (simp_all add: hw_def)
    have lo: "slice_lo (t @ q) skip = slice_lo t skip" using slice_lo_append [OF t q] False by simp
    have hi: "slice_hi (t @ q) skip cap = slice_hi t skip cap + length seg \<and> (seg = [] \<or> slice_hi t skip cap = length t)"
    proof (cases "skip + cap < length t")
      case True
      then show ?thesis using F(1) slice_hi_append [OF q, of t skip cap] by (simp add: hw_def)
    next
      case in_: False
      then have "slice_hi t skip cap = length t" by (simp add: slice_hi_def)
      moreover have "length seg = prev_boundary q 0 hw" using F(1) prev_boundary_le [of q hw] by (simp add: hw_def)
      ultimately show ?thesis using in_ slice_hi_append [OF q, of t skip cap] by (simp add: hw_def)
    qed
    then have "slice (t @ q) skip cap = slice t skip cap @ seg"
    proof (cases "seg = []")
      case True
      with hi B(2,3) show ?thesis by (simp add: slice_def lo)
    next
      case ne: False
      with hi have "slice_hi t skip cap = length t" by blast
      moreover have "take (length seg) q = seg" using F(1) by (simp add: min_def)
      ultimately show ?thesis using hi B(2) by (simp add: slice_def lo)
    qed
    then show ?thesis using F(2) W hi lo B(2) False by (simp add: paged_def)
  qed
qed

lemma pass_paged:
  "list_all text_ok ps \<Longrightarrow> text_ok t \<Longrightarrow> 4 \<le> cap \<Longrightarrow> paged t skip cap out w \<Longrightarrow> window_pass ps w = (out', w') \<Longrightarrow>
     paged (t @ concat ps) skip cap (out @ out') w'"
proof (induction ps arbitrary: t out w out')
  case (Cons q ps)
  obtain seg w1 where f: "window_feed q w = (seg, w1)" by fastforce
  obtain o2 where p: "window_pass ps w1 = (o2, w')" "out' = seg @ o2" using Cons.prems(5) f by (auto split: prod.splits)
  have q: "text_ok q" "list_all text_ok ps" using Cons.prems(1) by simp_all
  from Cons.IH [OF q(2) text_ok_append [OF Cons.prems(2) q(1)] Cons.prems(3) feed_paged [OF Cons.prems(2) q(1) Cons.prems(3,4) f] p(1)] p(2)
  show ?case by simp
qed simp

text \<open>One pass over a response: what it captured, how far it got, and whether more is left.\<close>

lemma pass_slice:
  assumes "list_all text_ok ps" and "4 \<le> cap" and "window_pass ps (window_new skip cap) = (out, w)"
  shows "out = slice (concat ps) skip cap" and "w_consumed w = slice_hi (concat ps) skip cap - min skip (length (concat ps))"
    and "w_more w \<longleftrightarrow> skip < length (concat ps) \<and> slice_hi (concat ps) skip cap < length (concat ps)"
proof -
  have "paged [] skip cap [] (window_new skip cap)"
    by (simp add: paged_def window_new_def slice_def slice_lo_def slice_hi_def)
  from pass_paged [OF assms(1) _ assms(2) this assms(3)] have P: "paged (concat ps) skip cap out w" by simp
  note B = slice_bounds [OF text_ok_concat [OF assms(1)] assms(2), of skip]
  show "out = slice (concat ps) skip cap" using P by (simp add: paged_def)
  show c: "w_consumed w = slice_hi (concat ps) skip cap - min skip (length (concat ps))"
    using P B(1,2) by (simp add: paged_def w_consumed_def)
  have w: "w_skip w = skip" "w_total w = length (concat ps)" using P by (simp_all add: paged_def)
  have "min skip (length (concat ps)) \<le> slice_hi (concat ps) skip cap" using B(1,2) by linarith
  then show "w_more w \<longleftrightarrow> skip < length (concat ps) \<and> slice_hi (concat ps) skip cap < length (concat ps)"
    unfolding w_more_def w c using B(3) by arith
qed

end
