(* ===== verification/Shell.thy ===== *)
theory Shell
  imports Shell_Kernel Fw_Storage
begin

text \<open>
  The device shell of firmware/src/shell.rs: the settings table with its validation, encoding and printing, the
  command tree and its walk, the handlers that touch the store, the dispatch of a line with paged responses, and
  completion. The console frames and the radio (whose sink is in the push-button application) are behind
  \<open>ShellSink\<close>. What the informational commands print of the hardware, the random number and the
  chip's id are inputs. The application's tree and settings are parameters, as in the code.
\<close>

section \<open>Settings\<close>

definition MAX_LINE :: nat where "MAX_LINE = 96"
definition MAX_TOKENS :: nat where "MAX_TOKENS = 8"
definition RESP_CAP :: nat where "RESP_CAP = 256"
definition MAX_SETTING :: nat where "MAX_SETTING = 64"
definition R_OK :: u8 where "R_OK = 0"
definition R_NOT_FOUND :: u8 where "R_NOT_FOUND = 1"
definition R_BAD_ARG :: u8 where "R_BAD_ARG = 2"
definition R_STORAGE :: u8 where "R_STORAGE = 3"
definition R_DENIED :: u8 where "R_DENIED = 5"

datatype kind = KStr u16 | KUint u32 u32 | KInt int int | KBool | KEnum "bytes list" | KAddr

record setting =
  st_key :: u8
  st_name :: bytes
  st_kind :: kind
  st_default :: bytes

definition ADDR_LOCAL :: u8 where "ADDR_LOCAL = 0x01"

definition BASE_SETTINGS :: "setting list" where
  "BASE_SETTINGS =
     [\<lparr>st_key = 0x00, st_name = ascii ''identity'', st_kind = KStr 32, st_default = ascii ''tower''\<rparr>,
      \<lparr>st_key = ADDR_LOCAL, st_name = ascii ''addr'', st_kind = KAddr, st_default = ascii ''auto''\<rparr>]"

text \<open>\<open>SettingsTable\<close>: the base settings, then the application's.\<close>

definition settings_iter :: "setting list \<Rightarrow> setting list" where
  "settings_iter app = BASE_SETTINGS @ app"

definition settings_find :: "setting list \<Rightarrow> bytes \<Rightarrow> setting option" where
  "settings_find app name = find (\<lambda>s. st_name s = name) (settings_iter app)"

subsection \<open>Numbers as text\<close>

definition is_digit :: "u8 \<Rightarrow> bool" where
  "is_digit b \<longleftrightarrow> 0x30 \<le> b \<and> b \<le> 0x39"

definition dec_value :: "bytes \<Rightarrow> nat" where
  "dec_value s = foldl (\<lambda>a b. a * 10 + unat (b - 0x30)) 0 s"

text \<open>\<open>u32::from_str\<close> and \<open>i32::from_str\<close>: an optional sign, at least one digit, in range.\<close>

definition parse_u32 :: "bytes \<Rightarrow> u32 option" where
  "parse_u32 s =
     (let d = (case s of [] \<Rightarrow> [] | b # r \<Rightarrow> if b = 0x2B then r else s) in
      if d = [] \<or> \<not> list_all is_digit d \<or> 2 ^ 32 \<le> dec_value d then None else Some (of_nat (dec_value d)))"

definition parse_i32 :: "bytes \<Rightarrow> int option" where
  "parse_i32 s =
     (let neg = (case s of [] \<Rightarrow> False | b # r \<Rightarrow> b = 0x2D);
          d = (case s of [] \<Rightarrow> [] | b # r \<Rightarrow> if b = 0x2B \<or> b = 0x2D then r else s);
          v = (if neg then - int (dec_value d) else int (dec_value d))
      in if d = [] \<or> \<not> list_all is_digit d \<or> v < - (2 ^ 31) \<or> 2 ^ 31 \<le> v then None else Some v)"

function dec_digits :: "nat \<Rightarrow> bytes" where
  "dec_digits n = (if n < 10 then [0x30 + of_nat n] else dec_digits (n div 10) @ [0x30 + of_nat (n mod 10)])"
  by pat_completeness auto
termination by (relation "measure id") auto

declare dec_digits.simps [simp del]

definition dec_int :: "int \<Rightarrow> bytes" where
  "dec_int v = (if v < 0 then 0x2D # dec_digits (nat (- v)) else dec_digits (nat v))"

definition hex_char :: "u32 \<Rightarrow> u8" where
  "hex_char d = (if d < 10 then 0x30 + ucast d else 0x57 + ucast d)"

text \<open>\<open>0x{:08x}\<close>.\<close>

definition hex_text :: "u32 \<Rightarrow> bytes" where
  "hex_text w = ascii ''0x'' @ map (\<lambda>i. hex_char (drop_bit (4 * i) w AND 0xF)) [7, 6, 5, 4, 3, 2, 1, 0]"

subsection \<open>Values\<close>

definition parse_bool :: "bytes \<Rightarrow> bool option" where
  "parse_bool s =
     (if s \<in> {ascii ''true'', ascii ''on'', ascii ''1''} then Some True
      else if s \<in> {ascii ''false'', ascii ''off'', ascii ''0''} then Some False else None)"

text \<open>The stored bytes of a value, or \<open>None\<close> when it is malformed or out of range.\<close>

fun encode_value :: "kind \<Rightarrow> bytes \<Rightarrow> bytes option" where
  "encode_value (KStr m) v = (if v = [] \<or> min (unat m) MAX_SETTING < length v then None else Some v)"
| "encode_value (KUint lo hi) v = (case parse_u32 v of None \<Rightarrow> None | Some w \<Rightarrow> if w < lo \<or> hi < w then None else Some (u32_le w))"
| "encode_value (KInt lo hi) v = (case parse_i32 v of None \<Rightarrow> None | Some i \<Rightarrow> if i < lo \<or> hi < i then None else Some (u32_le (word_of_int i)))"
| "encode_value KBool v = map_option (\<lambda>b. [if b then 1 else 0]) (parse_bool v)"
| "encode_value (KEnum cs) v = (if v \<notin> set cs \<or> MAX_SETTING < length v then None else Some v)"
| "encode_value KAddr v = map_option u32_le (parse_addr v)"

text \<open>\<open>core::str::from_utf8\<close>.\<close>

function from_utf8_ok :: "bytes \<Rightarrow> bool" where
  "from_utf8_ok [] \<longleftrightarrow> True"
| "from_utf8_ok (b # s) \<longleftrightarrow>
     (if b < 0x80 then from_utf8_ok s
      else if 0xC2 \<le> b \<and> b \<le> 0xDF then 1 \<le> length s \<and> is_cont (s ! 0) \<and> from_utf8_ok (drop 1 s)
      else if 0xE0 \<le> b \<and> b \<le> 0xEF then
        2 \<le> length s \<and> is_cont (s ! 0) \<and> is_cont (s ! 1) \<and> (b = 0xE0 \<longrightarrow> 0xA0 \<le> s ! 0) \<and> (b = 0xED \<longrightarrow> s ! 0 \<le> 0x9F) \<and>
        from_utf8_ok (drop 2 s)
      else if 0xF0 \<le> b \<and> b \<le> 0xF4 then
        3 \<le> length s \<and> is_cont (s ! 0) \<and> is_cont (s ! 1) \<and> is_cont (s ! 2) \<and> (b = 0xF0 \<longrightarrow> 0x90 \<le> s ! 0) \<and> (b = 0xF4 \<longrightarrow> s ! 0 \<le> 0x8F) \<and>
        from_utf8_ok (drop 3 s)
      else False)"
  by pat_completeness auto
termination by (relation "measure length") auto

text \<open>\<open>push_str\<close> on the empty \<open>String<MAX_SETTING>\<close>.\<close>

definition push_fits :: "bytes \<Rightarrow> bytes" where
  "push_fits t = (if length t \<le> MAX_SETTING then t else [])"

fun value_text :: "u32 \<Rightarrow> kind \<Rightarrow> bytes \<Rightarrow> bytes option" where
  "value_text uid (KStr m) b = (if from_utf8_ok b then Some b else None)"
| "value_text uid (KEnum cs) b = (if from_utf8_ok b then Some b else None)"
| "value_text uid (KUint lo hi) b = (if 4 \<le> length b then Some (dec_digits (unat (le_u32 (b ! 0) (b ! 1) (b ! 2) (b ! 3)))) else None)"
| "value_text uid (KInt lo hi) b = (if 4 \<le> length b then Some (dec_int (sint (le_u32 (b ! 0) (b ! 1) (b ! 2) (b ! 3)))) else None)"
| "value_text uid KBool b = (if 1 \<le> length b then Some (if b ! 0 \<noteq> 0 then ascii ''true'' else ascii ''false'') else None)"
| "value_text uid KAddr b =
     (if 4 \<le> length b then let a = le_u32 (b ! 0) (b ! 1) (b ! 2) (b ! 3) in Some (hex_text (if a \<noteq> 0 then a else uid)) else None)"

definition unset_text :: "u32 \<Rightarrow> setting \<Rightarrow> bytes" where
  "unset_text uid s = (if st_kind s = KAddr then hex_text uid else push_fits (st_default s))"

definition read_value :: "u32 \<Rightarrow> setting \<Rightarrow> nv \<Rightarrow> bytes" where
  "read_value uid s kv =
     (case scoped_get_bytes NS_SHELL (st_key s) MAX_SETTING kv of
        Inr (Some (n, b)) \<Rightarrow> (case value_text uid (st_kind s) (take (min n MAX_SETTING) b) of Some t \<Rightarrow> t | None \<Rightarrow> unset_text uid s)
      | _ \<Rightarrow> unset_text uid s)"

definition stored_addr :: "u8 \<Rightarrow> nv \<Rightarrow> u32 option" where
  "stored_addr key kv =
     (case scoped_get_bytes NS_SHELL key 4 kv of
        Inr (Some (n, b)) \<Rightarrow> if n = 4 then Some (le_u32 (b ! 0) (b ! 1) (b ! 2) (b ! 3)) else None
      | _ \<Rightarrow> None)"

fun write_constraint :: "kind \<Rightarrow> bytes list" where
  "write_constraint (KStr m) = [ascii ''str 1..='', dec_digits (unat m)]"
| "write_constraint (KUint lo hi) = [ascii ''uint '', dec_digits (unat lo), ascii ''..='', dec_digits (unat hi)]"
| "write_constraint (KInt lo hi) = [ascii ''int '', dec_int lo, ascii ''..='', dec_int hi]"
| "write_constraint KBool = [ascii ''bool'']"
| "write_constraint (KEnum cs) = ascii ''enum '' # concat (map (\<lambda>(i, c). [if i = 0 then [] else ascii ''|'', c]) (enumerate 0 cs))"
| "write_constraint KAddr = [ascii ''hex 32-bit | auto | random'']"

definition CRLF :: bytes where "CRLF = [0x0D, 0x0A]"

definition write_setting :: "u32 \<Rightarrow> bool \<Rightarrow> setting \<Rightarrow> nv \<Rightarrow> bytes list" where
  "write_setting uid export s kv =
     (let val = (if export \<and> st_kind s = KAddr \<and> (case stored_addr (st_key s) kv of None \<Rightarrow> 0 | Some a \<Rightarrow> a) = 0
                 then ascii ''auto'' else read_value uid s kv)
      in if export then [ascii ''system settings set '', st_name s, ascii ''='', val, CRLF]
         else [st_name s, ascii '' = '', val, CRLF])"

section \<open>Handlers\<close>

record outcome =
  oc_result :: u8
  oc_reboot :: bool

definition oc_code :: "u8 \<Rightarrow> outcome" where
  "oc_code r = \<lparr>oc_result = r, oc_reboot = False\<rparr>"

datatype info = InfoResource | InfoStack | InfoEeprom | InfoCrash

text \<open>What a handler sees: the transport, the application's settings, the chip's id, a random word with the
  name of its source, the text of the informational commands and of a store error.\<close>

record ctx =
  cx_remote :: bool
  cx_settings :: "setting list"
  cx_uid :: u32
  cx_rand :: u32
  cx_source :: bytes
  cx_info :: "info \<Rightarrow> bytes list"
  cx_err :: "fw_error \<Rightarrow> bytes"

type_synonym handler = "ctx \<Rightarrow> bytes list \<Rightarrow> nv \<Rightarrow> bytes list \<times> outcome \<times> nv"

definition cmd_reboot :: handler where
  "cmd_reboot cx args kv = ([ascii ''rebooting''], \<lparr>oc_result = R_OK, oc_reboot = True\<rparr>, kv)"

definition cmd_info :: "info \<Rightarrow> handler" where
  "cmd_info i cx args kv = (cx_info cx i, oc_code R_OK, kv)"

definition cmd_eeprom_wipe :: handler where
  "cmd_eeprom_wipe cx args kv =
     (if args \<noteq> [ascii ''confirm'']
      then ([ascii ''usage: system eeprom wipe confirm'' @ [0x0A] @ ascii ''erases the WHOLE store (keys, peers, settings) and reboots''],
            oc_code R_BAD_ARG, kv)
      else case nv_wipe kv of
        (Inr _, kv1) \<Rightarrow> ([ascii ''eeprom wiped - rebooting''], \<lparr>oc_result = R_OK, oc_reboot = True\<rparr>, kv1)
      | (Inl e, kv1) \<Rightarrow>
          ([ascii ''wipe failed ('', cx_err cx e, ascii ''); store left whole or empty - rebooting''],
           \<lparr>oc_result = R_STORAGE, oc_reboot = True\<rparr>, kv1))"

definition cmd_export :: handler where
  "cmd_export cx args kv =
     (concat (map (\<lambda>s. write_setting (cx_uid cx) True s kv) (settings_iter (cx_settings cx))), oc_code R_OK, kv)"

definition settings_print :: handler where
  "settings_print cx args kv =
     (concat (map (\<lambda>s. write_setting (cx_uid cx) False s kv) (settings_iter (cx_settings cx))), oc_code R_OK, kv)"

definition settings_get :: handler where
  "settings_get cx args kv =
     (case args of [] \<Rightarrow> ([ascii ''usage: get <name>''], oc_code R_BAD_ARG, kv)
      | name # _ \<Rightarrow>
          (case settings_find (cx_settings cx) name of
             None \<Rightarrow> ([ascii ''no such setting: '', name], oc_code R_NOT_FOUND, kv)
           | Some s \<Rightarrow>
               ([st_name s, ascii '' = '', read_value (cx_uid cx) s kv, ascii '' [''] @ write_constraint (st_kind s) @
                [ascii '', default '', st_default s, ascii '']''], oc_code R_OK, kv)))"

text \<open>\<open>name=value\<close> in one token, or \<open>name value\<close> in two.\<close>

definition parse_assign :: "bytes list \<Rightarrow> (bytes \<times> bytes) option" where
  "parse_assign args =
     (case args of [] \<Rightarrow> None
      | first # rest \<Rightarrow>
          if 0x3D \<in> set first then Some (takeWhile (\<lambda>b. b \<noteq> 0x3D) first, tl (dropWhile (\<lambda>b. b \<noteq> 0x3D) first))
          else (case rest of [] \<Rightarrow> None | v # _ \<Rightarrow> Some (first, v)))"

definition settings_set :: handler where
  "settings_set cx args kv =
     (case parse_assign args of None \<Rightarrow> ([ascii ''usage: set <name>=<value>''], oc_code R_BAD_ARG, kv)
      | Some (name, v) \<Rightarrow>
          if (if 0x3D \<in> set (hd args) then 1 else 2) < length args
          then ([ascii ''value must not contain a space or tab''], oc_code R_BAD_ARG, kv)
          else case settings_find (cx_settings cx) name of
            None \<Rightarrow> ([ascii ''no such setting: '', name], oc_code R_NOT_FOUND, kv)
          | Some s \<Rightarrow>
              if cx_remote cx \<and> st_kind s = KAddr
              then ([name, ascii '' is console-only: refused over the radio (use the USB console)''], oc_code R_DENIED, kv)
              else let random = (st_kind s = KAddr \<and> eq_ignore_ascii_case v (ascii ''random''));
                       a = (if cx_rand cx = 0 then 1 else cx_rand cx) in
                case (if random then Some (u32_le a) else encode_value (st_kind s) v) of
                  None \<Rightarrow> ([ascii ''invalid value for '', name, ascii '' (''] @ write_constraint (st_kind s) @ [ascii '')''], oc_code R_BAD_ARG, kv)
                | Some b \<Rightarrow>
                    (case scoped_set_bytes NS_SHELL (st_key s) b kv of
                       (Inr _, kv1) \<Rightarrow>
                         (if random then [ascii ''ok ('', hex_text a, ascii '', '', cx_source cx, ascii '')''] else [ascii ''ok''], oc_code R_OK, kv1)
                     | (Inl _, kv1) \<Rightarrow> ([ascii ''storage error''], oc_code R_STORAGE, kv1)))"

section \<open>The command tree\<close>

datatype args = ArgsNone | ArgsNames "bytes list" | ArgsSettings bool

record command =
  cm_name :: bytes
  cm_args :: args
  cm_run :: handler
  cm_console_only :: bool

datatype entry = EMenu bytes "entry list" | ECmd command

primrec entry_name :: "entry \<Rightarrow> bytes" where
  "entry_name (EMenu n ch) = n"
| "entry_name (ECmd c) = cm_name c"

definition entry_cmd :: "string \<Rightarrow> args \<Rightarrow> handler \<Rightarrow> entry" where
  "entry_cmd name a h = ECmd \<lparr>cm_name = ascii name, cm_args = a, cm_run = h, cm_console_only = False\<rparr>"

definition entry_cmd_console_only :: "string \<Rightarrow> args \<Rightarrow> handler \<Rightarrow> entry" where
  "entry_cmd_console_only name a h = ECmd \<lparr>cm_name = ascii name, cm_args = a, cm_run = h, cm_console_only = True\<rparr>"

definition BASE_ROOT :: "entry list" where
  "BASE_ROOT =
     [EMenu (ascii ''system'')
        [entry_cmd ''reboot'' ArgsNone cmd_reboot,
         EMenu (ascii ''resource'') [entry_cmd ''print'' ArgsNone (cmd_info InfoResource)],
         EMenu (ascii ''stack'') [entry_cmd ''print'' ArgsNone (cmd_info InfoStack)],
         EMenu (ascii ''eeprom'')
           [entry_cmd ''print'' ArgsNone (cmd_info InfoEeprom),
            entry_cmd_console_only ''wipe'' ArgsNone cmd_eeprom_wipe],
         EMenu (ascii ''crash'') [entry_cmd ''print'' ArgsNone (cmd_info InfoCrash)],
         EMenu (ascii ''settings'')
           [entry_cmd ''print'' ArgsNone settings_print,
            entry_cmd ''set'' (ArgsSettings True) settings_set,
            entry_cmd ''get'' (ArgsSettings False) settings_get]],
      entry_cmd ''export'' ArgsNone cmd_export]"

text \<open>The bytes of the whitespace character at the head of a text, 0 when there is none.\<close>

definition ws_len :: "bytes \<Rightarrow> nat" where
  "ws_len s =
     (if s \<noteq> [] \<and> (hd s = 0x20 \<or> 0x09 \<le> hd s \<and> hd s \<le> 0x0D) then 1
      else if take 2 s \<in> {[0xC2, 0x85], [0xC2, 0xA0]} then 2
      else if take 3 s \<in> {[0xE1, 0x9A, 0x80], [0xE2, 0x80, 0xA8], [0xE2, 0x80, 0xA9], [0xE2, 0x80, 0xAF], [0xE2, 0x81, 0x9F], [0xE3, 0x80, 0x80]} \<or>
        take 2 s = [0xE2, 0x80] \<and> 3 \<le> length s \<and> 0x80 \<le> s ! 2 \<and> s ! 2 \<le> 0x8A then 3
      else 0)"

function split_ws :: "bytes \<Rightarrow> bytes \<Rightarrow> bytes list" where
  "split_ws cur [] = (if cur = [] then [] else [cur])"
| "split_ws cur (b # s) =
     (if ws_len (b # s) = 0 then split_ws (cur @ [b]) s
      else (if cur = [] then [] else [cur]) @ split_ws [] (drop (ws_len (b # s)) (b # s)))"
  by pat_completeness auto
termination by (relation "measure (\<lambda>(cur, s). length s)") auto

definition split_whitespace :: "bytes \<Rightarrow> bytes list" where
  "split_whitespace line = split_ws [] line"

definition tokenize :: "bytes \<Rightarrow> bytes list" where
  "tokenize line = take MAX_TOKENS (split_whitespace line)"

datatype resolved = RMenu "entry list" "entry list" | RCmd command nat | RNoMatch

primrec menu_children :: "entry list \<Rightarrow> bytes \<Rightarrow> entry list option" where
  "menu_children [] name = None"
| "menu_children (e # es) name =
     (case e of EMenu n ch \<Rightarrow> if n = name then Some ch else menu_children es name | ECmd c \<Rightarrow> menu_children es name)"

primrec find_cmd_in :: "entry list \<Rightarrow> bytes \<Rightarrow> command option" where
  "find_cmd_in [] name = None"
| "find_cmd_in (e # es) name =
     (case e of EMenu n ch \<Rightarrow> find_cmd_in es name | ECmd c \<Rightarrow> if cm_name c = name then Some c else find_cmd_in es name)"

definition find_cmd :: "entry list \<Rightarrow> entry list \<Rightarrow> bytes \<Rightarrow> command option" where
  "find_cmd primary secondary name = find_cmd_in (primary @ secondary) name"

primrec resolve_from :: "bytes list \<Rightarrow> entry list \<Rightarrow> entry list \<Rightarrow> nat \<Rightarrow> resolved" where
  "resolve_from [] primary secondary i = RMenu primary secondary"
| "resolve_from (t # ts) primary secondary i =
     (let pc = menu_children primary t; sc = menu_children secondary t in
      if pc \<noteq> None \<or> sc \<noteq> None
      then resolve_from ts (case pc of Some ch \<Rightarrow> ch | None \<Rightarrow> []) (case sc of Some ch \<Rightarrow> ch | None \<Rightarrow> []) (i + 1)
      else case find_cmd primary secondary t of Some c \<Rightarrow> RCmd c (i + 1) | None \<Rightarrow> RNoMatch)"

definition resolve :: "bytes list \<Rightarrow> entry list \<Rightarrow> resolved" where
  "resolve toks app = resolve_from toks BASE_ROOT app 0"

section \<open>Dispatch\<close>

text \<open>\<open>ShellSink\<close>: pushing text and finishing, each telling whether the transport still works; \<open>None\<close> when
  the call does not return. The store is shared, so a transport that uses it holds it in its state.\<close>

record 's sink =
  sk_push :: "bytes \<Rightarrow> 's \<Rightarrow> (bool \<times> 's) option"
  sk_done :: "u8 \<Rightarrow> 's \<Rightarrow> (bool \<times> 's) option"
  sk_kv :: "'s \<Rightarrow> nv"
  sk_put :: "nv \<Rightarrow> 's \<Rightarrow> 's"

text \<open>A pass of the paging loop: what the handler sees, and what other tasks did to the store before it. The list
  covers the passes the loop makes; \<open>None\<close> while it is still paging.\<close>

type_synonym shell_pass = "ctx \<times> (nv \<Rightarrow> nv)"

primrec stream_pages ::
  "'s sink \<Rightarrow> handler \<Rightarrow> bytes list \<Rightarrow> shell_pass list \<Rightarrow> nat \<Rightarrow> 's \<Rightarrow> ((u8 \<times> bool) \<times> 's) option"
where
  "stream_pages sk h args [] skip s = None"
| "stream_pages sk h args (p # ps) skip s =
     (let (pieces, oc, kv1) = h (fst p) args (snd p (sk_kv sk s));
          (out, w) = window_pass pieces (window_new skip RESP_CAP)
      in case sk_push sk out (sk_put sk kv1 s) of
           None \<Rightarrow> None
         | Some (ok, s1) \<Rightarrow>
             if \<not> ok then Some ((oc_result oc, oc_reboot oc), s1)
             else if \<not> w_more w then map_option (\<lambda>(_, s2). ((oc_result oc, oc_reboot oc), s2)) (sk_done sk (oc_result oc) s1)
             else stream_pages sk h args ps (skip + w_consumed w) s1)"

definition DENIED_MSG :: bytes where
  "DENIED_MSG = ascii ''console-only command: refused over the radio (use the USB console)''"

definition refuse :: "'s sink \<Rightarrow> bytes \<Rightarrow> u8 \<Rightarrow> 's \<Rightarrow> ((u8 \<times> bool) \<times> 's) option" where
  "refuse sk msg r s =
     (case sk_push sk msg s of None \<Rightarrow> None | Some (_, s1) \<Rightarrow> map_option (\<lambda>(_, s2). ((r, False), s2)) (sk_done sk r s1))"

definition stream_with ::
  "'s sink \<Rightarrow> entry list \<Rightarrow> setting list \<Rightarrow> bool \<Rightarrow> bytes \<Rightarrow> shell_pass list \<Rightarrow> 's \<Rightarrow> ((u8 \<times> bool) \<times> 's) option"
where
  "stream_with sk app settings remote line ps s =
     (if MAX_LINE < length line then refuse sk (ascii ''line too long'') R_BAD_ARG s
      else if MAX_TOKENS < length (split_whitespace line) then refuse sk (ascii ''too many arguments'') R_BAD_ARG s
      else let toks = tokenize line in
        case resolve toks app of
          RCmd c arg_start \<Rightarrow>
            if cm_console_only c \<and> remote then refuse sk DENIED_MSG R_DENIED s
            else stream_pages sk (cm_run c) (drop arg_start toks)
              (map (\<lambda>(cx, others). (cx\<lparr>cx_remote := remote, cx_settings := settings\<rparr>, others)) ps) 0 s
        | _ \<Rightarrow> refuse sk (ascii ''no such command'') R_NOT_FOUND s)"

text \<open>A line from the radio, when a shell is served.\<close>

definition stream_line ::
  "'s sink \<Rightarrow> (entry list \<times> setting list) option \<Rightarrow> bytes \<Rightarrow> shell_pass list \<Rightarrow> 's \<Rightarrow> ((u8 \<times> bool) \<times> 's) option"
where
  "stream_line sk params line ps s =
     (case params of None \<Rightarrow> refuse sk (ascii ''no shell served'') R_NOT_FOUND s
      | Some (app, settings) \<Rightarrow> stream_with sk app settings True line ps s)"

subsection \<open>The console transport\<close>

definition SHELL_CHUNK :: nat where "SHELL_CHUNK = 192"

record shell_response =
  sr_cmd :: u16
  sr_result :: u8
  sr_chunk :: u16
  sr_last :: bool
  sr_text :: bytes

definition clip_idx :: "bytes \<Rightarrow> nat \<Rightarrow> nat" where
  "clip_idx s m = prev_boundary s 0 (min (length s) m)"

record console_sink =
  kn_cmd :: u16
  kn_chunk :: u16
  kn_sent :: "shell_response list"
  kn_kv :: nv

definition console_frame :: "u8 \<Rightarrow> bool \<Rightarrow> bytes \<Rightarrow> console_sink \<Rightarrow> console_sink" where
  "console_frame r is_last t s =
     s\<lparr>kn_sent := kn_sent s @ [\<lparr>sr_cmd = kn_cmd s, sr_result = r, sr_chunk = kn_chunk s, sr_last = is_last, sr_text = t\<rparr>]\<rparr>"

text \<open>A text whose first 192 bytes hold no boundary (no UTF-8 text) would keep the loop where it is; it is cut
  there.\<close>

function console_push :: "bytes \<Rightarrow> console_sink \<Rightarrow> console_sink" where
  "console_push rest s =
     (let take_n = prev_boundary rest 0 (min (length rest) SHELL_CHUNK) in
      if rest = [] \<or> take_n = 0 then s
      else let s1 = console_frame R_OK False (take take_n rest) s in console_push (drop take_n rest) (s1\<lparr>kn_chunk := kn_chunk s1 + 1\<rparr>))"
  by pat_completeness auto
termination by (relation "measure (\<lambda>(rest, s). length rest)") auto

declare console_push.simps [simp del]

definition console_sink_ops :: "console_sink sink" where
  "console_sink_ops =
     \<lparr>sk_push = (\<lambda>t s. Some (True, console_push t s)), sk_done = (\<lambda>r s. Some (True, console_frame r True [] s)),
      sk_kv = kn_kv, sk_put = (\<lambda>kv s. s\<lparr>kn_kv := kv\<rparr>)\<rparr>"

text \<open>A console line: the frames sent, whether the device reboots, and the store.\<close>

definition dispatch :: "entry list \<Rightarrow> setting list \<Rightarrow> u16 \<Rightarrow> bytes \<Rightarrow> shell_pass list \<Rightarrow> nv \<Rightarrow> (bool \<times> shell_response list \<times> nv) option" where
  "dispatch app settings cmd_id line ps kv =
     map_option (\<lambda>(oc, s). (snd oc, kn_sent s, kn_kv s))
       (stream_with console_sink_ops app settings False line ps \<lparr>kn_cmd = cmd_id, kn_chunk = 0, kn_sent = [], kn_kv = kv\<rparr>)"

section \<open>Completion\<close>

datatype candidate_kind = CkMenu | CkCommand | CkArg | CkValue

record completions =
  cp_req :: u16
  cp_token_start :: u16
  cp_common_prefix :: bytes
  cp_candidates :: "(bytes \<times> candidate_kind) list"
  cp_more :: bool

definition MAX_CANDIDATES :: nat where "MAX_CANDIDATES = 16"
definition CONSOLE_MAX_PAYLOAD :: nat where "CONSOLE_MAX_PAYLOAD = 247"

text \<open>The candidates admitted while they fit, in order; and whether one did not.\<close>

primrec admit :: "(bytes \<times> candidate_kind) list \<Rightarrow> completion_budget \<Rightarrow> nat \<Rightarrow> (bytes \<times> candidate_kind) list \<times> bool" where
  "admit [] b n = ([], False)"
| "admit (c # cs) b n =
     (if MAX_CANDIDATES \<le> n then ([], True)
      else case budget_try_add (length (fst c)) b of
        (True, b1) \<Rightarrow> (case admit cs b1 (Suc n) of (r, clipped) \<Rightarrow> (c # r, clipped))
      | (False, b1) \<Rightarrow> ([], True))"

text \<open>\<open>starts_with\<close>.\<close>

definition starts_with :: "bytes \<Rightarrow> bytes \<Rightarrow> bool" where
  "starts_with t p \<longleftrightarrow> take (length p) t = p"

text \<open>The children of a menu level that match, the first of each name.\<close>

primrec menu_candidates :: "bytes \<Rightarrow> bytes list \<Rightarrow> entry list \<Rightarrow> (bytes \<times> candidate_kind) list" where
  "menu_candidates partial seen [] = []"
| "menu_candidates partial seen (e # es) =
     (if starts_with (entry_name e) partial \<and> entry_name e \<notin> set seen
      then (entry_name e, case e of EMenu n ch \<Rightarrow> CkMenu | ECmd c \<Rightarrow> CkCommand) # menu_candidates partial (entry_name e # seen) es
      else menu_candidates partial seen es)"

definition value_choices :: "kind \<Rightarrow> bytes list" where
  "value_choices k =
     (case k of KEnum cs \<Rightarrow> cs | KBool \<Rightarrow> [ascii ''true'', ascii ''false''] | KAddr \<Rightarrow> [ascii ''auto'', ascii ''random''] | _ \<Rightarrow> [])"

text \<open>The start of the token under the cursor: after the last space or tab.\<close>

definition partial_start :: "bytes \<Rightarrow> nat" where
  "partial_start before = length (dropWhile (\<lambda>b. b \<noteq> 0x20 \<and> b \<noteq> 0x09) (rev before))"

definition complete :: "entry list \<Rightarrow> setting list \<Rightarrow> u16 \<Rightarrow> bytes \<Rightarrow> u16 \<Rightarrow> completions" where
  "complete app settings req_id line cursor =
     (let before = take (clip_idx line (unat cursor)) line;
          start = partial_start before;
          part = drop start before;
          eq = length (takeWhile (\<lambda>b. b \<noteq> 0x3D) part);
          (token_start, offered) =
            (case resolve (tokenize (take start before)) app of
               RMenu a b \<Rightarrow> (start, menu_candidates part [] (a @ b))
             | RCmd c _ \<Rightarrow>
                 (case cm_args c of
                    ArgsNone \<Rightarrow> (start, [])
                  | ArgsNames names \<Rightarrow> (start, map (\<lambda>a. (a, CkArg)) (filter (\<lambda>a. starts_with a part) names))
                  | ArgsSettings assign \<Rightarrow>
                      if assign \<and> 0x3D \<in> set part
                      then (start + eq + 1,
                            case settings_find settings (take eq part) of None \<Rightarrow> []
                            | Some s \<Rightarrow> map (\<lambda>v. (v, CkValue)) (filter (\<lambda>v. starts_with v (drop (eq + 1) part)) (value_choices (st_kind s))))
                      else (start, map (\<lambda>s. (st_name s, if assign then CkArg else CkValue))
                              (filter (\<lambda>s. starts_with (st_name s) part) (settings_iter settings))))
             | RNoMatch \<Rightarrow> (start, []));
          (cands, clipped) = admit offered (budget_new CONSOLE_MAX_PAYLOAD) 0
      in \<lparr>cp_req = req_id, cp_token_start = of_nat token_start, cp_common_prefix = common_prefix (map fst cands),
          cp_candidates = cands, cp_more = clipped\<rparr>)"

end
