(* ===== verification/Node_App.thy ===== *)
theory Node_App
  imports Shell Gw_App
begin

text \<open>
  The push-button node of \<open>firmware/apps/radio_push_button.rs\<close>: boot, the event loop (button, timers,
  accelerometer, cable management), uplinks with their downlink windows, the remote shell over the radio with its
  duplicate filter, OTA pairing with the commit round, and provisioning over the cable. What the radio, the clocks,
  the sensors and the button deliver is an input; \<open>None\<close> is a call that has not returned within the input given.
  LED patterns, log lines and the watchdog are left out.
\<close>

section \<open>Messages\<close>

definition MAX_RADIO_PAYLOAD :: nat where "MAX_RADIO_PAYLOAD = 74"
definition RADIO_SHELL_CHUNK :: nat where "RADIO_SHELL_CHUNK = 56"
definition ENVELOPE_HDR :: nat where "ENVELOPE_HDR = 2"

datatype button_kind = BkPress | BkRelease | BkClick | BkHold

datatype accel_kind = AkMotion | AkOrientation

datatype node_msg =
    NmInfo bytes bytes u32 bool
  | NmButton button_kind u32
  | NmTemperature int
  | NmAccel accel_kind u8
  | NmShell u16 u8 u16 bool bytes

record provisioned =
  pn_gw_addr :: u32
  pn_key :: bytes
  pn_band :: u8
  pn_channel :: u8

datatype node_reply = NrInfo device_info | NrJoined u32 u32 | NrProvisioned u32

text \<open>The libraries and build constants: AES, the handshake's primitives, postcard for the provisioning record,
  the uplinks, the commands and the replies, the schema tags, the firmware's name and version, the chip's id.\<close>

record node_lib =
  nl_enc :: "bytes \<Rightarrow> bytes \<Rightarrow> bytes"
  nl_crypto :: crypto
  nl_prov_ser :: "provisioned \<Rightarrow> bytes"
  nl_prov_de :: "bytes \<Rightarrow> provisioned option"
  nl_msg :: "node_msg \<Rightarrow> bytes"
  nl_cmd :: "bytes \<Rightarrow> (u32 \<times> u16 \<times> bytes) option"
  nl_reply :: "node_reply \<Rightarrow> bytes"
  nl_req :: "bytes \<Rightarrow> (u16 \<times> mgmt_op) option"
  nl_tag :: u16
  nl_console_tag :: u16
  nl_name :: bytes
  nl_version :: bytes
  nl_uid :: u32

definition encode_node_msg :: "node_lib \<Rightarrow> node_msg \<Rightarrow> bytes option" where
  "encode_node_msg lib m =
     (let b = u16_le (nl_tag lib) @ nl_msg lib m in if length b \<le> MAX_RADIO_PAYLOAD then Some b else None)"

datatype envelope_error = EnvTooShort | EnvSchema u16 | EnvDecode

definition split_envelope :: "node_lib \<Rightarrow> bytes \<Rightarrow> envelope_error + bytes" where
  "split_envelope lib data =
     (if length data < ENVELOPE_HDR then Inl EnvTooShort
      else let got = le_u16 (data ! 0) (data ! 1) in
        if got \<noteq> nl_tag lib then Inl (EnvSchema got) else Inr (drop ENVELOPE_HDR data))"

definition decode_node_cmd :: "node_lib \<Rightarrow> bytes \<Rightarrow> envelope_error + u32 \<times> u16 \<times> bytes" where
  "decode_node_cmd lib data =
     (case split_envelope lib data of Inl e \<Rightarrow> Inl e
      | Inr body \<Rightarrow> (case nl_cmd lib body of None \<Rightarrow> Inl EnvDecode | Some c \<Rightarrow> Inr c))"

section \<open>Settings and commands\<close>

definition KEY_PROVISION :: u8 where "KEY_PROVISION = 0x00"
definition SET_THERM_PERIOD :: u8 where "SET_THERM_PERIOD = 0x10"
definition SET_THERM_DELTA :: u8 where "SET_THERM_DELTA = 0x11"
definition SET_ACCEL :: u8 where "SET_ACCEL = 0x12"
definition SET_HEARTBEAT :: u8 where "SET_HEARTBEAT = 0x13"
definition SET_NODE_BAND :: u8 where "SET_NODE_BAND = 0x14"
definition SET_PRESS :: u8 where "SET_PRESS = 0x20"
definition SET_RELEASE :: u8 where "SET_RELEASE = 0x22"
definition SET_CLICK :: u8 where "SET_CLICK = 0x24"
definition SET_HOLD :: u8 where "SET_HOLD = 0x26"
definition SET_DEBOUNCE_PRESS :: u8 where "SET_DEBOUNCE_PRESS = 0x30"
definition SET_DEBOUNCE_RELEASE :: u8 where "SET_DEBOUNCE_RELEASE = 0x31"
definition SET_CLICK_TIMEOUT :: u8 where "SET_CLICK_TIMEOUT = 0x32"
definition SET_HOLD_TIME :: u8 where "SET_HOLD_TIME = 0x33"

definition btn_setting :: "u8 \<Rightarrow> string \<Rightarrow> kind \<Rightarrow> string \<Rightarrow> setting" where
  "btn_setting key name k dflt = \<lparr>st_key = key, st_name = ascii name, st_kind = k, st_default = ascii dflt\<rparr>"

definition BTN_SETTINGS :: "setting list" where
  "BTN_SETTINGS =
     [btn_setting SET_THERM_PERIOD ''therm-period'' (KUint 5 86400) ''60'',
      btn_setting SET_THERM_DELTA ''therm-delta'' (KUint 0 10000) ''50'',
      btn_setting SET_ACCEL ''accel'' (KEnum (map ascii [''off'', ''low'', ''medium'', ''high''])) ''medium'',
      btn_setting SET_HEARTBEAT ''heartbeat'' (KUint 60 86400) ''900'',
      btn_setting SET_PRESS ''press'' KBool ''off'',
      btn_setting SET_RELEASE ''release'' KBool ''off'',
      btn_setting SET_CLICK ''click'' KBool ''on'',
      btn_setting SET_HOLD ''hold'' KBool ''on'',
      btn_setting SET_DEBOUNCE_PRESS ''debounce-press'' (KUint 1 1000) ''30'',
      btn_setting SET_DEBOUNCE_RELEASE ''debounce-release'' (KUint 1 1000) ''30'',
      btn_setting SET_CLICK_TIMEOUT ''click-timeout'' (KUint 50 5000) ''500'',
      btn_setting SET_HOLD_TIME ''hold-time'' (KUint 100 10000) ''1000'',
      btn_setting SET_NODE_BAND ''band'' (KEnum (map ascii [''eu868'', ''us915''])) ''eu868'']"

definition SIM_MAX_MS :: u32 where "SIM_MAX_MS = 15000"

text \<open>\<open>button simulate\<close>; the press it injects goes to the button driver.\<close>

definition cmd_simulate :: handler where
  "cmd_simulate cx args kv =
     (case (case args of [] \<Rightarrow> None | a # _ \<Rightarrow> parse_u32 a) of
        Some ms \<Rightarrow>
          if 1 \<le> ms \<and> ms \<le> SIM_MAX_MS then ([ascii ''simulating a '', dec_digits (unat ms), ascii '' ms press''], oc_code R_OK, kv)
          else ([ascii ''usage: button simulate <ms> (1..='', dec_digits (unat SIM_MAX_MS), ascii '')''], oc_code R_BAD_ARG, kv)
      | None \<Rightarrow> ([ascii ''usage: button simulate <ms> (1..='', dec_digits (unat SIM_MAX_MS), ascii '')''], oc_code R_BAD_ARG, kv))"

definition BTN_COMMANDS :: "entry list" where
  "BTN_COMMANDS = [EMenu (ascii ''button'') [entry_cmd_console_only ''simulate'' ArgsNone cmd_simulate]]"

text \<open>The two settings read through \<open>&b[..n]\<close> panic when the stored value is longer than the buffer: \<open>None\<close>.\<close>

definition node_band_setting :: "nv \<Rightarrow> band option" where
  "node_band_setting kv =
     (case scoped_get_bytes NS_SHELL SET_NODE_BAND 8 kv of
        Inr (Some (len, b)) \<Rightarrow> if 8 < len then None else if take len b = ascii ''us915'' then Some Us915 else Some Eu868
      | _ \<Rightarrow> Some Eu868)"

datatype sensitivity = SensLow | SensMedium | SensHigh

definition read_accel_setting :: "nv \<Rightarrow> sensitivity option option" where
  "read_accel_setting kv =
     (case scoped_get_bytes NS_SHELL SET_ACCEL 8 kv of
        Inr (Some (len, b)) \<Rightarrow>
          if 8 < len then None
          else if take len b = ascii ''off'' then Some None
          else if take len b = ascii ''low'' then Some (Some SensLow)
          else if take len b = ascii ''high'' then Some (Some SensHigh)
          else Some (Some SensMedium)
      | _ \<Rightarrow> Some (Some SensMedium))"

fun event_enabled :: "nv \<Rightarrow> button_kind \<Rightarrow> bool" where
  "event_enabled kv BkPress = read_bool_setting SET_PRESS False kv"
| "event_enabled kv BkRelease = read_bool_setting SET_RELEASE False kv"
| "event_enabled kv BkClick = read_bool_setting SET_CLICK True kv"
| "event_enabled kv BkHold = read_bool_setting SET_HOLD True kv"

definition node_radio_addr :: "node_lib \<Rightarrow> nv \<Rightarrow> u32" where
  "node_radio_addr lib kv =
     (case scoped_get_bytes NS_SHELL ADDR_KEY 4 kv of
        Inr (Some (len, b)) \<Rightarrow>
          let a = le_u32 (b ! 0) (b ! 1) (b ! 2) (b ! 3) in if len = 4 \<and> a \<noteq> 0 then a else nl_uid lib
      | _ \<Rightarrow> nl_uid lib)"

section \<open>State\<close>

text \<open>The last remote command: its word (bit 24 valid, bits 23 to 16 the result, the low half its id), its
  epoch, and its first lost chunk plus one. \<open>nd_ran\<close> is a history: the epochs and ids of the commands run since
  the boot, one for each log line \<open>remote shell: ...\<close> that the device prints when it runs one. No operation reads it.\<close>

record node =
  nd_net :: net
  nd_provision :: "provisioned option"
  nd_addr :: u32
  nd_band :: band
  nd_channel :: u8
  nd_session :: u32
  nd_unacked :: u8
  nd_last_cmd :: u32
  nd_last_epoch :: u32
  nd_last_lost :: u32
  nd_ran :: "(u32 \<times> u16) list"
  nd_counts :: "u32 list"
  nd_misses :: u8
  nd_pressed_at :: "u64 option"
  nd_cue_until :: "u64 option"
  nd_last_temp_sent :: "int option"
  nd_last_temp_tx :: u64
  nd_next_temp :: u64
  nd_next_heartbeat :: u64
  nd_accel_quiet :: "u64 option"
  nd_accel_backoff :: u64
  nd_accel_empty_highs :: u8
  nd_accel_hold :: "u64 option"
  nd_accel_pending :: "u8 option"
  nd_resync_after :: u64

abbreviation nd_kv :: "node \<Rightarrow> nv" where
  "nd_kv d \<equiv> nt_kv (nd_net d)"

section \<open>Sending\<close>

definition FHSS_SCAN_TICKS :: u16 where "FHSS_SCAN_TICKS = 80"
definition FHSS_MISSED_BEACONS :: u8 where "FHSS_MISSED_BEACONS = 8"
definition FHSS_RESYNC :: u64 where "FHSS_RESYNC = 900000"
definition CHUNK_REPS :: u8 where "CHUNK_REPS = 5"

text \<open>One turn of the hopping send: the tick, whether the cable host waits, the clock and the radio at the
  send, the ticks of the backoff.\<close>

record hop_env =
  he_tick :: node_env
  he_mgmt :: bool
  he_now :: u64
  he_tx :: "radio_error option"
  he_heard :: "bytes list"
  he_backoff :: "nat \<Rightarrow> node_env"

record send_env =
  se_attempts :: "nat \<Rightarrow> attempt"
  se_hops :: "hop_env list"

type_synonym sent = "send_result \<times> bytes list \<times> net"

definition sent_before :: "bytes list \<Rightarrow> sent option \<Rightarrow> sent option" where
  "sent_before air r = map_option (\<lambda>(res, air', n). (res, air @ air', n)) r"

primrec hop_send ::
  "(bytes \<Rightarrow> bytes \<Rightarrow> bytes) \<Rightarrow> u32 \<Rightarrow> bytes \<Rightarrow> u8 \<Rightarrow> hop_env list \<Rightarrow> u8 \<Rightarrow> u16 \<Rightarrow> u8 \<Rightarrow> net \<Rightarrow> sent option"
where
  "hop_send enc dest data reps [] tries scans missed n = None"
| "hop_send enc dest data reps (h # hs) tries scans missed n =
     (case fhss_node_tick enc (he_tick h) n of (z, n1) \<Rightarrow>
        if nz_state z = Scanning then
          (if FHSS_SCAN_TICKS \<le> scans + 1 \<or> he_mgmt h then Some (NotSynced, [], n1)
           else hop_send enc dest data reps hs tries (scans + 1) missed n1)
        else if \<not> nz_got_beacon z then
          (if FHSS_MISSED_BEACONS \<le> missed + 1 then Some (NotDelivered, [], n1)
           else hop_send enc dest data reps hs tries scans (missed + 1) n1)
        else (case fhss_send enc dest data True (he_now h) (he_tx h) (he_heard h) n1 of (r, air, n2) \<Rightarrow>
          if r = DutyLimited then sent_before air (hop_send enc dest data reps hs tries scans missed n2)
          else if r = NotDelivered then
            (if max reps 1 \<le> tries + 1 then Some (NotDelivered, air, n2)
             else sent_before air (hop_send enc dest data reps hs (tries + 1) scans missed (fhss_retry_backoff enc (he_backoff h) n2)))
          else Some (r, air, n2)))"

definition radio_send :: "node_lib \<Rightarrow> u32 \<Rightarrow> bytes \<Rightarrow> u8 \<Rightarrow> send_env \<Rightarrow> net \<Rightarrow> sent option" where
  "radio_send lib dest data reps e n =
     (if nt_access n \<noteq> Fhss then Some (net_send (nl_enc lib) dest data True reps (se_attempts e) n)
      else hop_send (nl_enc lib) dest data reps (se_hops e) 0 0 0 n)"

text \<open>Re-anchoring with nothing to send: at most four ticks.\<close>

primrec resync_ticks :: "(bytes \<Rightarrow> bytes \<Rightarrow> bytes) \<Rightarrow> node_env list \<Rightarrow> net \<Rightarrow> bool \<times> net" where
  "resync_ticks enc [] n = (False, n)"
| "resync_ticks enc (e # es) n =
     (case fhss_node_tick enc e n of (z, n1) \<Rightarrow>
        if nz_state z = Synced \<and> nz_got_beacon z then (True, n1)
        else if nz_state z = Scanning then (False, n1)
        else resync_ticks enc es n1)"

definition fhss_resync :: "node_lib \<Rightarrow> (nat \<Rightarrow> node_env) \<Rightarrow> net \<Rightarrow> bool \<times> net" where
  "fhss_resync lib env n = resync_ticks (nl_enc lib) (map env [0..<4]) n"

definition start_hopping :: "u32 \<Rightarrow> u64 \<Rightarrow> net \<Rightarrow> net" where
  "start_hopping gw lse n = enable_fhss FhssNode \<lparr>fc_seed = 0, fc_network_key = Some (gateway_network_key gw)\<rparr> lse n"

section \<open>The remote shell over the radio\<close>

text \<open>\<open>RadioSink\<close>, with what the radio does for each chunk sent and the frames handed to it.\<close>

record radio_sink =
  rs_net :: net
  rs_gw :: u32
  rs_cmd :: u16
  rs_chunk :: u16
  rs_buf :: bytes
  rs_ok :: bool
  rs_lost :: "u16 option"
  rs_env :: "send_env list"
  rs_air :: "bytes list"

definition sink_new :: "net \<Rightarrow> u32 \<Rightarrow> u16 \<Rightarrow> send_env list \<Rightarrow> radio_sink" where
  "sink_new n gw cmd es =
     \<lparr>rs_net = n, rs_gw = gw, rs_cmd = cmd, rs_chunk = 0, rs_buf = [], rs_ok = True, rs_lost = None, rs_env = es, rs_air = []\<rparr>"

definition lose_chunk :: "u16 \<Rightarrow> radio_sink \<Rightarrow> radio_sink" where
  "lose_chunk c s = s\<lparr>rs_ok := False, rs_lost := (case rs_lost s of None \<Rightarrow> Some c | Some l \<Rightarrow> Some l)\<rparr>"

definition sink_flush :: "node_lib \<Rightarrow> bool \<Rightarrow> u8 \<Rightarrow> radio_sink \<Rightarrow> (bool \<times> radio_sink) option" where
  "sink_flush lib is_last result s =
     (case encode_node_msg lib (NmShell (rs_cmd s) result (rs_chunk s) is_last (rs_buf s)) of
        None \<Rightarrow> Some (False, lose_chunk (rs_chunk s) s)
      | Some wire \<Rightarrow>
          (case rs_env s of [] \<Rightarrow> None
           | e # es \<Rightarrow>
               (case radio_send lib (rs_gw s) wire CHUNK_REPS e (rs_net s) of None \<Rightarrow> None
                | Some (r, air, n) \<Rightarrow>
                    let s1 = s\<lparr>rs_net := n, rs_env := es, rs_air := rs_air s @ air, rs_buf := [], rs_chunk := rs_chunk s + 1\<rparr> in
                    Some (r = Delivered, if r = Delivered then s1 else lose_chunk (rs_chunk s) s1))))"

lemma sink_flush_env: "sink_flush lib l r s = Some (True, s') \<Longrightarrow> length (rs_env s') < length (rs_env s)"
  by (auto simp: sink_flush_def Let_def split: option.splits list.splits prod.splits if_splits)

text \<open>\<open>push\<close>: every turn takes text into the buffer or sends a chunk.\<close>

function sink_push_loop :: "node_lib \<Rightarrow> bytes \<Rightarrow> radio_sink \<Rightarrow> (bool \<times> radio_sink) option" where
  "sink_push_loop lib rest s =
     (if rest = [] then Some (True, s)
      else let take_n = prev_boundary rest 0 (min (length rest) (RADIO_SHELL_CHUNK - length (rs_buf s))) in
        if take_n = 0 then
          (case sink_flush lib False 0 s of
             None \<Rightarrow> None
           | Some (ok, s1) \<Rightarrow> if ok then sink_push_loop lib rest s1 else Some (False, s1))
        else let s1 = s\<lparr>rs_buf := rs_buf s @ take take_n rest\<rparr> in
          if length (rs_buf s1) = RADIO_SHELL_CHUNK then
            (case sink_flush lib False 0 s1 of
               None \<Rightarrow> None
             | Some (ok, s2) \<Rightarrow> if ok then sink_push_loop lib (drop take_n rest) s2 else Some (False, s2))
          else sink_push_loop lib (drop take_n rest) s1)"
  by pat_completeness auto
termination
  by (relation "measure (\<lambda>(lib, rest, s). length rest + length (rs_env s))") (auto dest!: sink_flush_env simp: add_less_le_mono)

declare sink_push_loop.simps [simp del]

definition radio_sink_ops :: "node_lib \<Rightarrow> radio_sink sink" where
  "radio_sink_ops lib =
     \<lparr>sk_push = (\<lambda>t s. if \<not> rs_ok s then Some (False, s) else sink_push_loop lib t s),
      sk_done = (\<lambda>r s. if \<not> rs_ok s then Some (False, s) else sink_flush lib True r s),
      sk_kv = (\<lambda>s. nt_kv (rs_net s)), sk_put = (\<lambda>kv s. s\<lparr>rs_net := (rs_net s)\<lparr>nt_kv := kv\<rparr>\<rparr>)\<rparr>"

section \<open>Downlinks\<close>

definition DOWNLINK_WINDOW :: u64 where "DOWNLINK_WINDOW = 1000"

text \<open>One window: the clock and the crystal at its start, the clock and what is received in each turn, the
  shell's passes and the radio for each chunk of the reply.\<close>

record window_env =
  we_start :: u64
  we_lse :: u64
  we_turns :: "(u64 \<times> reception option) list"
  we_shell :: "shell_pass list"
  we_sends :: "send_env list"

datatype window_end = WMissed | WServed | WReset

definition seen_before :: "u32 \<Rightarrow> u16 \<Rightarrow> node \<Rightarrow> bool" where
  "seen_before epoch cmd d \<longleftrightarrow> bit (nd_last_cmd d) 24 \<and> ucast (nd_last_cmd d AND 0xFFFF) = cmd \<and> nd_last_epoch d = epoch"

definition LOST_TEXT :: bytes where
  "LOST_TEXT = ascii ''(reply lost on the air: ran once, not run again)'' @ CRLF"

text \<open>A repeated command is answered from the cache.\<close>

definition answer_again :: "node_lib \<Rightarrow> radio_sink \<Rightarrow> node \<Rightarrow> radio_sink option" where
  "answer_again lib s d =
     (let result = ucast (drop_bit 16 (nd_last_cmd d) AND 0xFF) in
      if nd_last_lost d = 0 then map_option snd (sk_done (radio_sink_ops lib) result s)
      else case sk_push (radio_sink_ops lib) LOST_TEXT (s\<lparr>rs_chunk := ucast (nd_last_lost d) + 1\<rparr>) of
        None \<Rightarrow> None | Some (_, s1) \<Rightarrow> map_option snd (sk_done (radio_sink_ops lib) result s1))"

text \<open>A remote command: answered from the cache when it is a repeat, run otherwise. \<open>WReset\<close> is a command that asks
  for a reboot; the state that comes with it is the one at the reset. The device resets there at once (\<open>sys_reset\<close>): the
  uplink, the turn and all RAM end with it, and of that state only the store goes on, through a boot.\<close>

definition run_cmd :: "node_lib \<Rightarrow> window_env \<Rightarrow> u32 \<Rightarrow> u32 \<Rightarrow> u16 \<Rightarrow> bytes \<Rightarrow> node \<Rightarrow> (window_end \<times> bytes list \<times> node) option" where
  "run_cmd lib e gw epoch cmd line d =
     (let s = sink_new (nd_net d) gw cmd (we_sends e) in
      if seen_before epoch cmd d then map_option (\<lambda>s1. (WServed, rs_air s1, d\<lparr>nd_net := rs_net s1\<rparr>)) (answer_again lib s d)
      else map_option (\<lambda>((result, reboot), s1).
          (if reboot then WReset else WServed, rs_air s1,
           d\<lparr>nd_net := rs_net s1, nd_last_epoch := epoch,
             nd_last_lost := (case rs_lost s1 of None \<Rightarrow> 0 | Some c \<Rightarrow> ucast c + 1), nd_ran := nd_ran d @ [(epoch, cmd)],
             nd_last_cmd := push_bit 24 1 OR push_bit 16 (ucast result) OR ucast cmd\<rparr>))
        (stream_line (radio_sink_ops lib) (Some (BTN_COMMANDS, BTN_SETTINGS)) line (we_shell e) s))"

primrec window_loop ::
  "node_lib \<Rightarrow> window_env \<Rightarrow> u32 \<Rightarrow> u64 \<Rightarrow> (u64 \<times> reception option) list \<Rightarrow> node \<Rightarrow> (window_end \<times> bytes list \<times> node) option"
where
  "window_loop lib e gw deadline [] d = None"
| "window_loop lib e gw deadline (t # ts) d =
     (if deadline \<le> fst t then Some (WMissed, [], d)
      else case snd t of
        None \<Rightarrow> window_loop lib e gw deadline ts d
      | Some r \<Rightarrow>
          (case net_recv (nl_enc lib) r (nd_net d) of (m, air, n) \<Rightarrow>
             let d1 = d\<lparr>nd_net := n\<rparr> in
             map_option (\<lambda>(w, air', d2). (w, air @ air', d2))
               (case m of
                  None \<Rightarrow> window_loop lib e gw deadline ts d1
                | Some rx \<Rightarrow>
                    if rx_src rx \<noteq> gw then window_loop lib e gw deadline ts d1
                    else (case decode_node_cmd lib (rx_data rx) of
                        Inl _ \<Rightarrow> Some (WMissed, [], d1)
                      | Inr (epoch, cmd, line) \<Rightarrow> run_cmd lib e gw epoch cmd line d1))))"

definition downlink_window :: "node_lib \<Rightarrow> window_env \<Rightarrow> u32 \<Rightarrow> node \<Rightarrow> (window_end \<times> bytes list \<times> node) option" where
  "downlink_window lib e gw d =
     window_loop lib e gw
       (we_start e + (if nt_access (nd_net d) = Fhss then fhss_slot_left (we_lse e) (nd_net d) else DOWNLINK_WINDOW)) (we_turns e) d"

section \<open>Uplinks\<close>

definition ack_pending :: "node \<Rightarrow> bool" where
  "ack_pending d = (case nt_last_ack (nd_net d) of None \<Rightarrow> False | Some m \<Rightarrow> am_pending m)"

text \<open>The windows after an uplink, while an ACK announces more; whether the device resets.\<close>

primrec serve_pending :: "node_lib \<Rightarrow> u32 \<Rightarrow> window_env list \<Rightarrow> node \<Rightarrow> (bool \<times> bytes list \<times> node) option" where
  "serve_pending lib gw [] d = (if ack_pending d then None else Some (False, [], d))"
| "serve_pending lib gw (e # es) d =
     (if \<not> ack_pending d then Some (False, [], d)
      else case downlink_window lib e gw d of
        None \<Rightarrow> None
      | Some (w, air, d1) \<Rightarrow>
          (case w of
             WMissed \<Rightarrow> Some (False, air, d1)
           | WReset \<Rightarrow> Some (True, air, d1)
           | WServed \<Rightarrow> map_option (\<lambda>(reset, air', d2). (reset, air @ air', d2)) (serve_pending lib gw es d1)))"

text \<open>The streak of unacknowledged uplinks; a refusal by the duty budget does not count.\<close>

definition note_sent :: "send_result \<Rightarrow> node \<Rightarrow> node" where
  "note_sent r d = d\<lparr>nd_unacked := (if r = Delivered then 0 else if r = DutyLimited then nd_unacked d else sat_add (nd_unacked d) 1)\<rparr>"

record up_env =
  ue_send :: send_env
  ue_windows :: "window_env list"

text \<open>Delivered, reset, the frames sent, the state.\<close>

definition node_uplink :: "node_lib \<Rightarrow> node_msg \<Rightarrow> u8 \<Rightarrow> up_env \<Rightarrow> node \<Rightarrow> (bool \<times> bool \<times> bytes list \<times> node) option" where
  "node_uplink lib m reps e d =
     (case nd_provision d of None \<Rightarrow> Some (False, False, [], d)
      | Some p \<Rightarrow>
          (case encode_node_msg lib m of None \<Rightarrow> Some (False, False, [], d)
           | Some data \<Rightarrow>
               (case radio_send lib (pn_gw_addr p) data reps (ue_send e) (nd_net d) of None \<Rightarrow> None
                | Some (r, air, n) \<Rightarrow>
                    map_option (\<lambda>(reset, air', d2). (r = Delivered, reset, air @ air', d2))
                      (serve_pending lib (pn_gw_addr p) (ue_windows e) (note_sent r (d\<lparr>nd_net := n\<rparr>))))))"

definition node_info :: "node_lib \<Rightarrow> node \<Rightarrow> node_msg" where
  "node_info lib d = NmInfo (nl_name lib) (nl_version lib) (nd_session d) True"

definition note_misses :: "bool \<Rightarrow> node \<Rightarrow> node" where
  "note_misses delivered d = d\<lparr>nd_misses := (if delivered then 0 else sat_add (nd_misses d) 1)\<rparr>"

section \<open>Pairing\<close>

datatype pair_outcome = Paired provisioned u32 bool | NoWindow | Unconfirmed | Refused

text \<open>One attempt: the clock and the turns of the join, the radio for each commit uplink, retuning, the crystal.\<close>

record pair_env =
  pe_now :: u64
  pe_joins :: "join_turn list"
  pe_commits :: "u8 \<Rightarrow> nat \<Rightarrow> attempt"
  pe_tuned :: bool
  pe_band_tuned :: bool
  pe_lse :: u64

definition commit_uplink :: "node_lib \<Rightarrow> (nat \<Rightarrow> attempt) \<Rightarrow> u32 \<Rightarrow> node \<Rightarrow> bool \<times> bytes list \<times> node" where
  "commit_uplink lib env gw d =
     (case encode_node_msg lib (node_info lib d) of None \<Rightarrow> (False, [], d)
      | Some data \<Rightarrow>
          (case net_send (nl_enc lib) gw data True 3 env (nd_net d) of (r, air, n) \<Rightarrow> (r = Delivered, air, d\<lparr>nd_net := n\<rparr>)))"

text \<open>The commit round from an attempt on, at most six.\<close>

primrec commit_loop :: "node_lib \<Rightarrow> (u8 \<Rightarrow> nat \<Rightarrow> attempt) \<Rightarrow> u32 \<Rightarrow> nat \<Rightarrow> u8 \<Rightarrow> node \<Rightarrow> bool \<times> bytes list \<times> node" where
  "commit_loop lib env gw 0 attempt d = (False, [], d)"
| "commit_loop lib env gw (Suc k) attempt d =
     (case commit_uplink lib (env attempt) gw d of (acked, air, d1) \<Rightarrow>
        (case commit_step attempt acked of
           Commit \<Rightarrow> (True, air, d1)
         | Discard \<Rightarrow> (False, air, d1)
         | Retry _ \<Rightarrow> (case commit_loop lib env gw k (attempt + 1) d1 of (r, air', d2) \<Rightarrow> (r, air @ air', d2))))"

text \<open>\<open>Scoped::set\<close> of the record.\<close>

definition store_provision :: "node_lib \<Rightarrow> provisioned \<Rightarrow> node \<Rightarrow> bool \<times> node" where
  "store_provision lib rec d =
     (let b = nl_prov_ser lib rec in
      if MAX_VALUE < length b then (False, d)
      else case scoped_set_bytes NS_APP KEY_PROVISION b (nd_kv d) of (r, kv) \<Rightarrow> (r = Inr (), d\<lparr>nd_net := (nd_net d)\<lparr>nt_kv := kv\<rparr>\<rparr>))"

definition pair_on_air :: "node_lib \<Rightarrow> pair_env \<Rightarrow> u64 \<Rightarrow> node \<Rightarrow> pair_outcome \<times> bytes list \<times> node" where
  "pair_on_air lib e window d =
     (case net_join (nl_crypto lib) (nl_enc lib) (nd_addr d) (pe_now e) window (pe_joins e) (nd_net d) of
        (None, air, n) \<Rightarrow> (NoWindow, air, d\<lparr>nd_net := n\<rparr>)
      | (Some peer, air, n) \<Rightarrow>
          let rec = \<lparr>pn_gw_addr = pp_addr peer, pn_key = pp_key peer, pn_band = (if nd_band d = Us915 then 1 else 0), pn_channel = nd_channel d\<rparr> in
          (case add_peer (nl_enc lib) (pn_gw_addr rec) (pn_key rec) n of
             (False, n1) \<Rightarrow> (Refused, air, d\<lparr>nd_net := n1\<rparr>)
           | (True, n1) \<Rightarrow>
               (case commit_loop lib (pe_commits e) (pn_gw_addr rec) (unat COMMIT_ATTEMPTS) 1 (d\<lparr>nd_net := n1\<rparr>) of
                  (False, air', d1) \<Rightarrow>
                    (Unconfirmed, air @ air',
                     d1\<lparr>nd_net := snd (case nd_provision d of
                         Some c \<Rightarrow> if pn_gw_addr c = pn_gw_addr rec then add_peer (nl_enc lib) (pn_gw_addr c) (pn_key c) (nd_net d1)
                                   else remove_peer (pn_gw_addr rec) (nd_net d1)
                       | None \<Rightarrow> remove_peer (pn_gw_addr rec) (nd_net d1))\<rparr>)
                | (True, air', d1) \<Rightarrow>
                    let d2 = d1\<lparr>nd_net := (case nd_provision d of
                         Some c \<Rightarrow> if pn_gw_addr c \<noteq> pn_gw_addr rec then snd (remove_peer (pn_gw_addr c) (nd_net d1)) else nd_net d1
                       | None \<Rightarrow> nd_net d1), nd_unacked := 0\<rparr>;
                        (persisted, d3) = store_provision lib rec d2
                    in (Paired rec (pp_sas peer) persisted, air @ air', d3))))"

definition node_pair :: "node_lib \<Rightarrow> pair_env \<Rightarrow> u64 \<Rightarrow> node \<Rightarrow> pair_outcome \<times> bytes list \<times> node" where
  "node_pair lib e window d =
     (let us915 = (nd_band d = Us915);
          d0 = (if us915 then d\<lparr>nd_net := set_band (pe_band_tuned e) Us915 (fhss_suspend (pe_tuned e) Us915 (nd_net d))\<rparr> else d);
          (outcome, air, d1) = pair_on_air lib e window d0
      in (outcome, air,
          if us915 then d1\<lparr>nd_net := (case outcome of
              Paired rec _ _ \<Rightarrow> start_hopping (pn_gw_addr rec) (pe_lse e) (nd_net d1)
            | _ \<Rightarrow> if nd_provision d \<noteq> None then fhss_resume (nd_net d1) else nd_net d1)\<rparr>
          else d1))"

text \<open>The pairing in force after an attempt.\<close>

definition take_outcome :: "pair_outcome \<Rightarrow> node \<Rightarrow> node" where
  "take_outcome out d = (case out of Paired rec _ _ \<Rightarrow> d\<lparr>nd_provision := Some rec\<rparr> | _ \<Rightarrow> d)"

section \<open>Cable management\<close>

definition node_respond :: "node_lib \<Rightarrow> u16 \<Rightarrow> node_reply \<Rightarrow> host_msg list" where
  "node_respond lib req_id r =
     (if length (nl_reply lib r) \<le> 192 then [mgmt_chunk req_id MGMT_OK 0 True (nl_reply lib r)] else respond_empty req_id MGMT_STORAGE)"

definition node_describe :: "node_lib \<Rightarrow> u16 \<Rightarrow> node \<Rightarrow> host_msg list" where
  "node_describe lib req_id d =
     node_respond lib req_id (NrInfo
       \<lparr>di_role = RoleIsNode, di_addr = nd_addr d, di_band = (case nd_band d of Eu868 \<Rightarrow> 0 | Us915 \<Rightarrow> 1), di_channel = nd_channel d,
        di_node_capacity = 0, di_node_count = 0, di_provisioned = (nd_provision d \<noteq> None),
        di_gw_addr = (case nd_provision d of None \<Rightarrow> 0 | Some p \<Rightarrow> pn_gw_addr p),
        di_firmware_name = nl_name lib, di_firmware_version = nl_version lib\<rparr>)"

text \<open>\<open>Provision\<close>: the reply, whether the device resets, the state.\<close>

definition node_provision_op :: "node_lib \<Rightarrow> u16 \<Rightarrow> provision \<Rightarrow> node \<Rightarrow> host_msg list \<times> bool \<times> node" where
  "node_provision_op lib req_id p d =
     (let over = (case pv_addr p of Some a \<Rightarrow> if a \<noteq> 0 then Some a else None | None \<Rightarrow> None);
          eff = (case over of Some a \<Rightarrow> a | None \<Rightarrow> nd_addr d) in
      if 1 < pv_band p \<or> MAX_CHANNEL < pv_channel p \<or> is_reserved_addr eff \<or> \<not> peer_addr_valid (pv_gw_addr p) eff
      then (respond_empty req_id MGMT_BAD_ARG, False, d)
      else let rec = \<lparr>pn_gw_addr = pv_gw_addr p, pn_key = pv_key p, pn_band = pv_band p, pn_channel = pv_channel p\<rparr>;
               (pinned, kv) = (case over of None \<Rightarrow> (True, nd_kv d)
                  | Some a \<Rightarrow> (case scoped_set_bytes NS_SHELL ADDR_KEY (u32_le a) (nd_kv d) of (r, kv) \<Rightarrow> (r = Inr (), kv)));
               d1 = d\<lparr>nd_net := (nd_net d)\<lparr>nt_kv := kv\<rparr>\<rparr>
           in if \<not> pinned then (respond_empty req_id MGMT_STORAGE, False, d1)
              else case store_provision lib rec d1 of
                (False, d2) \<Rightarrow> (respond_empty req_id MGMT_STORAGE, False, d2)
              | (True, d2) \<Rightarrow> (node_respond lib req_id (NrProvisioned eff), True, d2))"

definition node_join_op :: "node_lib \<Rightarrow> pair_env \<Rightarrow> u16 \<Rightarrow> u16 \<Rightarrow> node \<Rightarrow> host_msg list \<times> bytes list \<times> node" where
  "node_join_op lib e req_id window d =
     (if window = 0 then (respond_empty req_id MGMT_BAD_ARG, [], d)
      else case node_pair lib e (ucast window * 1000) d of (outcome, air, d1) \<Rightarrow>
        ((case outcome of
            Paired rec sas persisted \<Rightarrow>
              if persisted then node_respond lib req_id (NrJoined (pn_gw_addr rec) sas) else respond_empty req_id MGMT_STORAGE
          | NoWindow \<Rightarrow> respond_empty req_id MGMT_TIMEOUT
          | Unconfirmed \<Rightarrow> respond_empty req_id MGMT_TIMEOUT
          | Refused \<Rightarrow> respond_empty req_id MGMT_BAD_ARG), air, take_outcome outcome d1))"

definition node_handle_mgmt :: "node_lib \<Rightarrow> pair_env \<Rightarrow> u16 \<Rightarrow> mgmt_op \<Rightarrow> node \<Rightarrow> host_msg list \<times> bool \<times> bytes list \<times> node" where
  "node_handle_mgmt lib e req_id op d =
     (case op of
        Describe \<Rightarrow> (node_describe lib req_id d, False, [], d)
      | Provision p \<Rightarrow> (case node_provision_op lib req_id p d of (out, reset, d1) \<Rightarrow> (out, reset, [], d1))
      | JoinOpen window \<Rightarrow> (case node_join_op lib e req_id window d of (out, air, d1) \<Rightarrow> (out, False, air, d1))
      | _ \<Rightarrow> (respond_empty req_id MGMT_UNSUPPORTED, False, [], d))"

section \<open>Boot\<close>

definition read_provision :: "node_lib \<Rightarrow> nv \<Rightarrow> provisioned option" where
  "read_provision lib kv =
     (case scoped_get_bytes NS_APP KEY_PROVISION MAX_VALUE kv of
        Inr (Some (len, b)) \<Rightarrow> if len \<le> MAX_VALUE then nl_prov_de lib (take len b) else None
      | _ \<Rightarrow> None)"

text \<open>The surroundings of a boot: whether the radio came up, the crystal, the uptime, the session number.\<close>

record node_boot_env =
  nb_radio_ok :: bool
  nb_lse :: u64
  nb_now :: u64
  nb_session :: u32

definition UNPAIRED_CUE :: u64 where "UNPAIRED_CUE = 180000"
definition ACCEL_BACKOFF_MIN :: u64 where "ACCEL_BACKOFF_MIN = 1000"
definition ACCEL_BACKOFF_MAX :: u64 where "ACCEL_BACKOFF_MAX = 300000"
definition ACCEL_REARM :: u64 where "ACCEL_REARM = 100"
definition ACCEL_STUCK_READS :: u8 where "ACCEL_STUCK_READS = 10"
definition ACCEL_UPLINK_MIN :: u64 where "ACCEL_UPLINK_MIN = 10000"
definition REPAIR_HOLD :: u64 where "REPAIR_HOLD = 12000"
definition NODE_PAIRING_WINDOW :: u64 where "NODE_PAIRING_WINDOW = 60000"

text \<open>The band and channel the node runs on: its gateway's, or the setting.\<close>

definition boot_band :: "provisioned option \<Rightarrow> nv \<Rightarrow> (band \<times> u8) option" where
  "boot_band prov kv =
     (case prov of Some p \<Rightarrow> Some (if pn_band p = 1 then Us915 else Eu868, pn_channel p)
      | None \<Rightarrow> map_option (\<lambda>b. (b, 0)) (node_band_setting kv))"

text \<open>The network layer as boot leaves it, and the pairing in force: none when its gateway is no valid peer.\<close>

definition node_boot_net :: "node_lib \<Rightarrow> u64 \<Rightarrow> u32 \<Rightarrow> band \<Rightarrow> provisioned option \<Rightarrow> nv \<Rightarrow> provisioned option \<times> net" where
  "node_boot_net lib lse addr b prov kv =
     (let n = net_new \<lparr>nc_addr = addr, nc_key = replicate 16 0, nc_band = b, nc_keys_stored = (prov \<noteq> None)\<rparr> kv;
          n1 = set_lane_persist_period 1 (set_default_lane False n);
          (prov1, n2) = (case prov of None \<Rightarrow> (None, n1)
             | Some p \<Rightarrow> (case add_peer (nl_enc lib) (pn_gw_addr p) (pn_key p) n1 of (ok, n2) \<Rightarrow> (if ok then Some p else None, n2)))
      in (prov1, case prov1 of Some p \<Rightarrow> if b = Us915 then start_hopping (pn_gw_addr p) lse n2 else n2 | None \<Rightarrow> n2))"

definition node_boot :: "node_lib \<Rightarrow> node_boot_env \<Rightarrow> nv \<Rightarrow> boot_failure + node" where
  "node_boot lib e kv =
     (let addr = node_radio_addr lib kv; prov = read_provision lib kv in
      case (read_accel_setting kv, boot_band prov kv) of
        (Some _, Some (b, channel)) \<Rightarrow>
          if \<not> nb_radio_ok e then Inl BootRadio
          else let (prov1, n) = node_boot_net lib (nb_lse e) addr b prov kv in
            Inr \<lparr>nd_net = n, nd_provision = prov1, nd_addr = addr, nd_band = b, nd_channel = channel, nd_session = nb_session e,
                 nd_unacked = 0, nd_last_cmd = 0, nd_last_epoch = 0, nd_last_lost = 0, nd_ran = [], nd_counts = [0, 0, 0, 0], nd_misses = 0,
                 nd_pressed_at = None, nd_cue_until = (if prov1 = None then Some (nb_now e + UNPAIRED_CUE) else None),
                 nd_last_temp_sent = None, nd_last_temp_tx = nb_now e, nd_next_temp = nb_now e, nd_next_heartbeat = nb_now e,
                 nd_accel_quiet = None, nd_accel_backoff = ACCEL_BACKOFF_MIN, nd_accel_empty_highs = 0,
                 nd_accel_hold = None, nd_accel_pending = None, nd_resync_after = 0\<rparr>
      | _ \<Rightarrow> Inl BootPanic)"

section \<open>The event loop\<close>

text \<open>A part of a turn: whether the device resets, the frames sent, the state; a reset ends the turn.\<close>

type_synonym ran = "(bool \<times> bytes list \<times> node) option"

definition and_then :: "ran \<Rightarrow> (node \<Rightarrow> ran) \<Rightarrow> ran" where
  "and_then m f =
     (case m of None \<Rightarrow> None
      | Some (reset, air, d) \<Rightarrow>
          if reset then Some (True, air, d) else map_option (\<lambda>(reset', air', d'). (reset', air @ air', d')) (f d))"

definition send_noted :: "node_lib \<Rightarrow> node_msg \<Rightarrow> u8 \<Rightarrow> up_env \<Rightarrow> node \<Rightarrow> ran" where
  "send_noted lib m reps e d =
     map_option (\<lambda>(delivered, reset, air, d1). (reset, air, note_misses delivered d1)) (node_uplink lib m reps e d)"

fun kind_index :: "button_kind \<Rightarrow> nat" where
  "kind_index BkPress = 0"
| "kind_index BkRelease = 1"
| "kind_index BkClick = 2"
| "kind_index BkHold = 3"

definition count_event :: "button_kind \<Rightarrow> node \<Rightarrow> node" where
  "count_event k d = d\<lparr>nd_counts := (nd_counts d)[kind_index k := nd_counts d ! kind_index k + 1]\<rparr>"

text \<open>A pairing attempt, with the button events shown and counted meanwhile.\<close>

definition pair_attempt :: "node_lib \<Rightarrow> pair_env \<Rightarrow> button_kind list \<Rightarrow> node \<Rightarrow> pair_outcome \<times> bytes list \<times> node" where
  "pair_attempt lib e evs d =
     (case node_pair lib e NODE_PAIRING_WINDOW d of (out, air, d1) \<Rightarrow> (out, air, take_outcome out (foldl (\<lambda>d k. count_event k d) d1 evs)))"

subsection \<open>The button\<close>

record button_env =
  bt_now :: u64
  bt_pair :: pair_env
  bt_events :: "button_kind list"
  bt_after :: u64
  bt_up :: up_env

definition therm_period :: "nv \<Rightarrow> u64" where
  "therm_period kv = max (ucast (read_u32_setting SET_THERM_PERIOD 60 kv)) 5"

definition heartbeat_s :: "nv \<Rightarrow> u64" where
  "heartbeat_s kv = max (ucast (read_u32_setting SET_HEARTBEAT 900 kv)) 60"

definition is_paired :: "pair_outcome \<Rightarrow> bool" where
  "is_paired out = (case out of Paired _ _ _ \<Rightarrow> True | _ \<Rightarrow> False)"

definition press_clock :: "button_kind \<Rightarrow> u64 \<Rightarrow> node \<Rightarrow> node" where
  "press_clock k now d =
     (case k of BkPress \<Rightarrow> d\<lparr>nd_pressed_at := Some now\<rparr> | BkRelease \<Rightarrow> d\<lparr>nd_pressed_at := None\<rparr> | _ \<Rightarrow> d)"

text \<open>A press on an unpaired node: a hold starts the pairing, every press shows the cue again.\<close>

definition unpaired_press :: "node_lib \<Rightarrow> button_kind \<Rightarrow> button_env \<Rightarrow> node \<Rightarrow> ran" where
  "unpaired_press lib k e d0 =
     (let d = d0\<lparr>nd_cue_until := Some (bt_now e + UNPAIRED_CUE)\<rparr> in
      if k \<noteq> BkHold then Some (False, [], d)
      else case pair_attempt lib (bt_pair e) (bt_events e) (d\<lparr>nd_pressed_at := None\<rparr>) of (out, air, d1) \<Rightarrow>
        Some (False, air,
          if is_paired out then d1\<lparr>nd_cue_until := None, nd_misses := 0\<rparr> else d1\<lparr>nd_cue_until := Some (bt_after e + UNPAIRED_CUE)\<rparr>))"

text \<open>Someone is at the node: the backoff ends.\<close>

definition end_backoff :: "u64 \<Rightarrow> node \<Rightarrow> node" where
  "end_backoff now d =
     (if 0 < nd_misses d
      then d\<lparr>nd_misses := 0, nd_next_temp := min (nd_next_temp d) (now + therm_period (nd_kv d) * 1000)\<rparr> else d)"

definition on_button :: "node_lib \<Rightarrow> button_kind \<Rightarrow> button_env \<Rightarrow> node \<Rightarrow> ran" where
  "on_button lib k e d0 =
     (let d = press_clock k (bt_now e) (count_event k d0); enabled = event_enabled (nd_kv d) k in
      if nd_provision d = None then unpaired_press lib k e d
      else let d1 = end_backoff (bt_now e) d in
        if \<not> enabled then Some (False, [], d1)
        else send_noted lib (NmButton k (nd_counts d1 ! kind_index k)) (if k = BkClick \<or> k = BkHold then 5 else 3) (bt_up e) d1)"

subsection \<open>Timers\<close>

record tick_env =
  tk_top :: u64
  tk_lse :: u64
  tk_resync_now :: u64
  tk_resync :: "nat \<Rightarrow> node_env"
  tk_resync_end :: u64
  tk_pressed :: bool
  tk_repair_now :: u64
  tk_pair :: pair_env
  tk_events :: "button_kind list"
  tk_now :: u64
  tk_temp :: "int option"
  tk_temp_now :: u64
  tk_temp_up :: up_env
  tk_temp_sent :: u64
  tk_temp_next :: u64
  tk_info_up :: up_env
  tk_accel_now :: u64
  tk_accel_up :: up_env
  tk_accel_sent :: u64

definition resync_due :: "tick_env \<Rightarrow> node \<Rightarrow> u64 option" where
  "resync_due e d =
     (if nt_access (nd_net d) = Fhss
      then map_option (\<lambda>since. max (tk_top e + sat_sub FHSS_RESYNC since) (nd_resync_after d)) (fhss_since_beacon (tk_lse e) (nd_net d))
      else None)"

definition tick_resync :: "node_lib \<Rightarrow> tick_env \<Rightarrow> node \<Rightarrow> node" where
  "tick_resync lib e d =
     (case resync_due e d of None \<Rightarrow> d
      | Some t \<Rightarrow>
          if tk_resync_now e < t then d
          else (case fhss_resync lib (tk_resync e) (nd_net d) of (heard, n) \<Rightarrow>
            if heard then d\<lparr>nd_net := n\<rparr> else d\<lparr>nd_net := n, nd_resync_after := tk_resync_end e + 60000\<rparr>))"

definition repair_due :: "node \<Rightarrow> u64 option" where
  "repair_due d = (if nd_provision d = None then None else map_option (\<lambda>t. t + REPAIR_HOLD) (nd_pressed_at d))"

definition tick_repair :: "node_lib \<Rightarrow> tick_env \<Rightarrow> node \<Rightarrow> ran" where
  "tick_repair lib e d =
     (case repair_due d of None \<Rightarrow> Some (False, [], d)
      | Some due \<Rightarrow>
          if \<not> tk_pressed e then Some (False, [], d\<lparr>nd_pressed_at := None\<rparr>)
          else if tk_repair_now e < due then Some (False, [], d)
          else (case pair_attempt lib (tk_pair e) (tk_events e) (d\<lparr>nd_pressed_at := None\<rparr>) of (out, air, d1) \<Rightarrow>
            Some (False, air, if is_paired out then d1\<lparr>nd_misses := 0\<rparr> else d1)))"

definition tick_cue :: "tick_env \<Rightarrow> node \<Rightarrow> node" where
  "tick_cue e d = (case nd_cue_until d of Some t \<Rightarrow> if t \<le> tk_now e then d\<lparr>nd_cue_until := None\<rparr> else d | None \<Rightarrow> d)"

text \<open>Whether the measured temperature is worth an uplink.\<close>

definition temp_due :: "tick_env \<Rightarrow> int \<Rightarrow> node \<Rightarrow> bool" where
  "temp_due e millic d \<longleftrightarrow>
     nd_provision d \<noteq> None \<and>
     ((case nd_last_temp_sent d of None \<Rightarrow> True
       | Some l \<Rightarrow> sint (read_u32_setting SET_THERM_DELTA 50 (nd_kv d) * 10) \<le> \<bar>millic - l\<bar>) \<or>
      heartbeat_s (nd_kv d) * 1000 \<le> sat_sub (tk_temp_now e) (nd_last_temp_tx d))"

definition send_temp :: "node_lib \<Rightarrow> tick_env \<Rightarrow> int \<Rightarrow> node \<Rightarrow> ran" where
  "send_temp lib e millic d =
     map_option (\<lambda>(delivered, reset, air, d1).
         (reset, air, note_misses delivered
            (if delivered then d1\<lparr>nd_last_temp_sent := Some millic, nd_last_temp_tx := tk_temp_sent e\<rparr> else d1)))
       (node_uplink lib (NmTemperature millic) 3 (tk_temp_up e) d)"

definition tick_temp :: "node_lib \<Rightarrow> tick_env \<Rightarrow> node \<Rightarrow> ran" where
  "tick_temp lib e d =
     (if tk_now e < nd_next_temp d then Some (False, [], d)
      else let period = therm_period (nd_kv d); heartbeat = heartbeat_s (nd_kv d) in
        and_then (case tk_temp e of Some millic \<Rightarrow> if temp_due e millic d then send_temp lib e millic d else Some (False, [], d)
                  | None \<Rightarrow> Some (False, [], d))
          (\<lambda>d1. Some (False, [], d1\<lparr>nd_next_temp := tk_temp_next e + uplink_backoff_s period heartbeat (nd_misses d1) * 1000\<rparr>)))"

definition tick_heartbeat :: "node_lib \<Rightarrow> tick_env \<Rightarrow> node \<Rightarrow> ran" where
  "tick_heartbeat lib e d =
     (if tk_now e < nd_next_heartbeat d then Some (False, [], d)
      else let d1 = d\<lparr>nd_next_heartbeat := tk_now e + heartbeat_s (nd_kv d) * 1000\<rparr> in
        if nd_provision d1 = None then Some (False, [], d1) else send_noted lib (node_info lib d1) 3 (tk_info_up e) d1)"

definition tick_accel :: "node_lib \<Rightarrow> tick_env \<Rightarrow> node \<Rightarrow> ran" where
  "tick_accel lib e d =
     (case (nd_accel_hold d, nd_accel_pending d) of
        (hold, Some face) \<Rightarrow>
          if (case hold of Some t \<Rightarrow> tk_accel_now e < t | None \<Rightarrow> False) then Some (False, [], d)
          else and_then (send_noted lib (NmAccel AkMotion face) 3 (tk_accel_up e) (d\<lparr>nd_accel_pending := None\<rparr>))
            (\<lambda>d1. Some (False, [], d1\<lparr>nd_accel_hold := Some (tk_accel_sent e + ACCEL_UPLINK_MIN)\<rparr>))
      | _ \<Rightarrow> Some (False, [], d))"

definition on_timer :: "node_lib \<Rightarrow> tick_env \<Rightarrow> node \<Rightarrow> ran" where
  "on_timer lib e d =
     and_then (tick_repair lib e (tick_resync lib e d)) (\<lambda>d1.
       and_then (tick_temp lib e (tick_cue e d1)) (\<lambda>d2.
         and_then (tick_heartbeat lib e d2) (tick_accel lib e)))"

subsection \<open>The accelerometer\<close>

datatype tilt = TiltEvent u8 | TiltNothing | TiltReadFailed

record tilt_env =
  tl_tilt :: tilt
  tl_now :: u64
  tl_up :: up_env
  tl_sent :: u64
  tl_high :: bool
  tl_end :: u64

text \<open>Motion goes up at most once per interval; the latest face inside it waits.\<close>

definition report_tilt :: "node_lib \<Rightarrow> tilt_env \<Rightarrow> node \<Rightarrow> ran" where
  "report_tilt lib e d =
     (case tl_tilt e of
        TiltEvent face \<Rightarrow>
          if nd_provision d = None then Some (False, [], d)
          else if (case nd_accel_hold d of Some t \<Rightarrow> tl_now e < t | None \<Rightarrow> False) then Some (False, [], d\<lparr>nd_accel_pending := Some face\<rparr>)
          else and_then (send_noted lib (NmAccel AkMotion face) 3 (tl_up e) d)
            (\<lambda>d1. Some (False, [], d1\<lparr>nd_accel_hold := Some (tl_sent e + ACCEL_UPLINK_MIN)\<rparr>))
      | _ \<Rightarrow> Some (False, [], d))"

definition pace_tilt :: "tilt_env \<Rightarrow> node \<Rightarrow> node" where
  "pace_tilt e d =
     (let highs = (if tl_tilt e = TiltNothing \<and> tl_high e then sat_add (nd_accel_empty_highs d) 1 else 0);
          d1 = d\<lparr>nd_accel_empty_highs := highs\<rparr> in
      if tl_tilt e = TiltReadFailed \<or> ACCEL_STUCK_READS \<le> highs
      then d1\<lparr>nd_accel_quiet := Some (tl_end e + nd_accel_backoff d), nd_accel_backoff := min (nd_accel_backoff d * 2) ACCEL_BACKOFF_MAX\<rparr>
      else d1\<lparr>nd_accel_backoff := ACCEL_BACKOFF_MIN,
              nd_accel_quiet := (if tl_high e then Some (tl_end e + ACCEL_REARM) else nd_accel_quiet d)\<rparr>)"

definition on_tilt :: "node_lib \<Rightarrow> tilt_env \<Rightarrow> node \<Rightarrow> ran" where
  "on_tilt lib e d = and_then (report_tilt lib e (d\<lparr>nd_accel_quiet := None\<rparr>)) (\<lambda>d1. Some (False, [], pace_tilt e d1))"

subsection \<open>A turn\<close>

datatype app_event = EvButton button_kind button_env | EvTimer tick_env | EvTilt tilt_env | EvMgmt bytes pair_env u64

definition node_request :: "node_lib \<Rightarrow> bytes \<Rightarrow> (u16 \<times> mgmt_op) option" where
  "node_request lib frame =
     (case decode_frame_with_tag (nl_console_tag lib) frame of
        Inr (MtMgmtRequest, _, payload) \<Rightarrow> nl_req lib payload
      | _ \<Rightarrow> None)"

definition on_mgmt :: "node_lib \<Rightarrow> bytes \<Rightarrow> pair_env \<Rightarrow> u64 \<Rightarrow> node \<Rightarrow> host_msg list \<times> bool \<times> bytes list \<times> node" where
  "on_mgmt lib frame e now d =
     (case node_request lib frame of None \<Rightarrow> ([], False, [], d)
      | Some (req_id, op) \<Rightarrow>
          (case node_handle_mgmt lib e req_id op d of (out, reset, air, d1) \<Rightarrow>
             (out, reset, air,
              d1\<lparr>nd_misses := 0, nd_cue_until := (if nd_provision d1 = None then Some (now + UNPAIRED_CUE) else None)\<rparr>)))"

fun node_turn :: "node_lib \<Rightarrow> app_event \<Rightarrow> node \<Rightarrow> (host_msg list \<times> bool \<times> bytes list \<times> node) option" where
  "node_turn lib (EvButton k e) d = map_option (Pair []) (on_button lib k e d)"
| "node_turn lib (EvTimer e) d = map_option (Pair []) (on_timer lib e d)"
| "node_turn lib (EvTilt e) d = map_option (Pair []) (on_tilt lib e d)"
| "node_turn lib (EvMgmt frame e now) d = Some (on_mgmt lib frame e now d)"

end
