(* ===== verification/Shell_Props.thy ===== *)
theory Shell_Props
  imports Shell Gw_Mirror
begin

text \<open>
  What the shell promises: a response of any length reaches the host whole, in numbered frames; a setting that was
  accepted reads back as text that stands for the same value, so that an export replays; over any transport, a line that
  came over the radio neither wipes the store nor changes the device's address (\<open>store_sink\<close>); a completion reply fits one frame.
\<close>

section \<open>Cutting a text\<close>

lemma text_ok_cut: "text_ok t \<Longrightarrow> is_char_boundary t i \<Longrightarrow> text_ok (take i t) \<and> text_ok (drop i t)"
proof (induction t arbitrary: i rule: text_ok.induct)
  case (2 b s)
  define k where "k = char_len b - 1"
  have b: "\<not> is_cont b" "k \<le> length s" "list_all is_cont (take k s)" "text_ok (drop k s)" using "2.prems"(1) by (simp_all add: k_def)
  consider "i = 0" | "0 < i" "i \<le> k" | "k < i" by linarith
  then show ?case
  proof cases
    case 2
    then have "i - 1 < length (take k s)" and i: "i < length (b # s)" using b(2) by auto
    with b(3) have "is_cont (take k s ! (i - 1))" by (simp add: list_all_length)
    then have "is_cont ((b # s) ! i)" using 2 by (simp add: nth_Cons')
    with i "2.prems"(2) 2 show ?thesis by (auto simp: is_char_boundary_def)
  next
    case 3
    define j where "j = i - 1 - k"
    have kS: "char_len b - Suc 0 = k" by (simp add: k_def)
    have ij: "i = Suc (k + j)" using 3 by (simp add: j_def)
    have "is_char_boundary (drop k s) j" using "2.prems"(2) b(2) unfolding ij is_char_boundary_def by auto
    from "2.IH" [folded k_def, OF b(4) this] show ?thesis
      using b kS by (simp add: ij take_drop add.commute min_absorb1)
  qed (use "2.prems" in simp)
qed simp

lemma boundary_shift: "is_char_boundary t i \<Longrightarrow> is_char_boundary t j \<Longrightarrow> i \<le> j \<Longrightarrow> j \<le> length t \<Longrightarrow> is_char_boundary (drop i t) (j - i)"
  by (auto simp: is_char_boundary_def)

lemma text_ok_slice:
  assumes "text_ok t" and "is_char_boundary t i" and "is_char_boundary t j" and "i \<le> j" and "j \<le> length t"
  shows "text_ok (take (j - i) (drop i t))"
  using text_ok_cut [OF _ boundary_shift [OF assms(2-5)]] text_ok_cut [OF assms(1,2)] by blast

text \<open>Within any four consecutive positions of a text there is a boundary, so a cut at most \<open>m\<close> keeps
  more than \<open>m - 4\<close> bytes.\<close>

lemma cut_progress:
  assumes "text_ok t" and "3 \<le> m"
  shows "min (length t) (m - 3) \<le> prev_boundary t 0 (min (length t) m)"
proof -
  obtain j where j: "min (length t) (m - 3) \<le> j" "j \<le> min (length t) (m - 3) + 3" "j \<le> length t" "is_char_boundary t j"
    using next_boundary_close [OF assms(1), of "min (length t) (m - 3)"] by auto
  have "j \<le> min (length t) m" using j(2,3) assms(2) by linarith
  then have "\<not> prev_boundary t 0 (min (length t) m) < j" using prev_boundary_gap [of t "min (length t) m" j] j(4) by blast
  with j(1) show ?thesis by linarith
qed

section \<open>The console frames of a text\<close>

definition numbered :: "u16 \<Rightarrow> shell_response list \<Rightarrow> bool" where
  "numbered n fs \<longleftrightarrow> map sr_chunk fs = map (\<lambda>i. n + of_nat i) [0..<length fs]"

definition body_frame :: "u16 \<Rightarrow> shell_response \<Rightarrow> bool" where
  "body_frame cmd f \<longleftrightarrow> sr_cmd f = cmd \<and> sr_result f = R_OK \<and> \<not> sr_last f \<and> sr_text f \<noteq> [] \<and> length (sr_text f) \<le> SHELL_CHUNK"

definition pushed :: "bytes \<Rightarrow> console_sink \<Rightarrow> console_sink \<Rightarrow> bool" where
  "pushed t s s' \<longleftrightarrow> (\<exists>fs. kn_sent s' = kn_sent s @ fs \<and> concat (map sr_text fs) = t \<and> kn_cmd s' = kn_cmd s \<and>
     kn_chunk s' = kn_chunk s + of_nat (length fs) \<and> numbered (kn_chunk s) fs \<and> (\<forall>f\<in>set fs. body_frame (kn_cmd s) f)) \<and> kn_kv s' = kn_kv s"

lemma pushed_refl: "pushed [] s s"
  by (auto simp: pushed_def numbered_def intro: exI [of _ "[]"])

lemma numbered_append: "numbered n (fs @ gs) \<longleftrightarrow> numbered n fs \<and> numbered (n + of_nat (length fs)) gs"
proof -
  have "map (\<lambda>i. n + of_nat i) [0..<length (fs @ gs)] =
      map (\<lambda>i. n + of_nat i) [0..<length fs] @ map (\<lambda>i. n + of_nat (length fs) + of_nat i) [0..<length gs]"
    by (rule nth_equalityI) (auto simp: nth_append)
  then show ?thesis by (simp add: numbered_def)
qed

lemma pushed_trans:
  assumes "pushed t s s1" and "pushed u s1 s2"
  shows "pushed (t @ u) s s2"
proof -
  obtain fs where f: "kn_sent s1 = kn_sent s @ fs" "concat (map sr_text fs) = t" "kn_cmd s1 = kn_cmd s"
    "kn_chunk s1 = kn_chunk s + of_nat (length fs)" "numbered (kn_chunk s) fs" "\<forall>f\<in>set fs. body_frame (kn_cmd s) f"
    using assms(1) by (auto simp: pushed_def)
  obtain gs where g: "kn_sent s2 = kn_sent s1 @ gs" "concat (map sr_text gs) = u" "kn_cmd s2 = kn_cmd s1"
    "kn_chunk s2 = kn_chunk s1 + of_nat (length gs)" "numbered (kn_chunk s1) gs" "\<forall>f\<in>set gs. body_frame (kn_cmd s1) f"
    using assms(2) by (auto simp: pushed_def)
  have "kn_kv s2 = kn_kv s" using assms by (simp add: pushed_def)
  then show ?thesis unfolding pushed_def
    by (intro conjI exI [of _ "fs @ gs"]) (use f g in \<open>auto simp: numbered_append\<close>)
qed

lemma console_push_pushed: "text_ok t \<Longrightarrow> pushed t s (console_push t s)"
proof (induction t s rule: console_push.induct)
  case (1 rest s)
  define n where "n = prev_boundary rest 0 (min (length rest) SHELL_CHUNK)"
  show ?case
  proof (cases "rest = []")
    case True
    then show ?thesis using pushed_refl by (simp add: console_push.simps)
  next
    case False
    have "min (length rest) (SHELL_CHUNK - 3) \<le> n" using cut_progress [OF "1.prems", of SHELL_CHUNK] by (simp add: n_def SHELL_CHUNK_def)
    moreover have "0 < length rest" using False by simp
    ultimately have n: "n \<noteq> 0" unfolding SHELL_CHUNK_def by linarith
    have le: "n \<le> min (length rest) SHELL_CHUNK" "is_char_boundary rest n" unfolding n_def by (fact prev_boundary_le prev_boundary_is)+
    define s1 where "s1 = console_frame R_OK False (take n rest) s"
    have "pushed (take n rest) s (s1\<lparr>kn_chunk := kn_chunk s1 + 1\<rparr>)"
      unfolding pushed_def s1_def using le(1) n False
      by (auto simp: console_frame_def numbered_def body_frame_def SHELL_CHUNK_def)
    moreover have "pushed (drop n rest) (s1\<lparr>kn_chunk := kn_chunk s1 + 1\<rparr>) (console_push (drop n rest) (s1\<lparr>kn_chunk := kn_chunk s1 + 1\<rparr>))"
      using "1.IH" [OF n_def _ s1_def] False n text_ok_cut [OF "1.prems" le(2)] by simp
    moreover have "console_push rest s = console_push (drop n rest) (s1\<lparr>kn_chunk := kn_chunk s1 + 1\<rparr>)"
      using False n by (simp add: console_push.simps [of rest s] n_def [symmetric] s1_def Let_def)
    ultimately show ?thesis using pushed_trans by fastforce
  qed
qed

section \<open>Paging\<close>

text \<open>A command that reproduces its response on every pass: nobody else changes the store meanwhile.\<close>

definition reproduces :: "handler \<Rightarrow> bytes list \<Rightarrow> nv \<Rightarrow> bytes list \<Rightarrow> outcome \<Rightarrow> shell_pass list \<Rightarrow> bool" where
  "reproduces h args kv pieces oc ps \<longleftrightarrow> (\<forall>p\<in>set ps. h (fst p) args (snd p kv) = (pieces, oc, kv))"

lemma stream_pages_whole:
  assumes "list_all text_ok pieces"
  defines "t \<equiv> concat pieces"
  shows "reproduces h args kv pieces oc ps \<Longrightarrow> is_char_boundary t skip \<Longrightarrow> skip \<le> length t \<Longrightarrow> (length t - skip) div 253 < length ps \<Longrightarrow> kn_kv s = kv \<Longrightarrow>
    \<exists>s'. stream_pages console_sink_ops h args ps skip s =
        Some ((oc_result oc, oc_reboot oc), console_frame (oc_result oc) True [] s') \<and> pushed (drop skip t) s s'"
proof (induction ps arbitrary: skip s)
  case (Cons p ps)
  have t: "text_ok t" using text_ok_concat [OF assms(1)] by (simp add: t_def)
  obtain out w where w: "window_pass pieces (window_new skip RESP_CAP) = (out, w)" by fastforce
  have cap: "4 \<le> RESP_CAP" by (simp add: RESP_CAP_def)
  define hi where "hi = slice_hi t skip RESP_CAP"
  note P = pass_slice [OF assms(1) cap w, folded t_def, folded hi_def]
  note B = slice_bounds [OF t cap, of skip, folded hi_def]
  have lo: "slice_lo t skip = skip" using Cons.prems(2,3) by (simp add: slice_lo_def min_absorb1)
  have B': "skip \<le> hi" "hi \<le> length t" "is_char_boundary t hi" using B lo by simp_all
  have out: "out = take (hi - skip) (drop skip t)" using P(1) by (simp add: slice_def lo hi_def)
  have cons: "skip + w_consumed w = hi" using P(2) Cons.prems(3) B'(1) by (simp add: min_absorb1)
  have ok: "text_ok out" unfolding out using text_ok_slice [OF t Cons.prems(2) B'(3,1,2)] .
  define s1 where "s1 = console_push out s"
  have push: "pushed out s s1" unfolding s1_def by (rule console_push_pushed [OF ok])
  have h: "h (fst p) args (snd p kv) = (pieces, oc, kv)" "reproduces h args kv pieces oc ps" using Cons.prems(1) by (simp_all add: reproduces_def)
  have kv1: "kn_kv s1 = kv" using push Cons.prems(5) by (simp add: pushed_def)
  have put: "s\<lparr>kn_kv := kv\<rparr> = s" using Cons.prems(5) by simp
  have step: "stream_pages console_sink_ops h args (p # ps) skip s =
      (if \<not> w_more w then Some ((oc_result oc, oc_reboot oc), console_frame (oc_result oc) True [] s1)
       else stream_pages console_sink_ops h args ps hi s1)"
    by (simp add: h(1) w console_sink_ops_def s1_def cons Cons.prems(5) put)
  show ?case
  proof (cases "hi < length t")
    case True
    have "min (length t) (skip + 253) \<le> hi" using cut_progress [OF t, of "skip + RESP_CAP"] by (simp add: hi_def slice_hi_def RESP_CAP_def)
    then have adv: "skip + 253 \<le> hi" using True by linarith
    have len: "(length t - hi) div 253 < length ps" using Cons.prems(4) adv True by auto
    have "w_more w" using P(3) True B'(1) by linarith
    moreover obtain s' where "stream_pages console_sink_ops h args ps hi s1 =
        Some ((oc_result oc, oc_reboot oc), console_frame (oc_result oc) True [] s')" "pushed (drop hi t) s1 s'"
      using Cons.IH [OF h(2) B'(3,2) len kv1] by blast
    moreover have "drop skip t = out @ drop hi t" using out B'(1) by (metis append_take_drop_id drop_drop le_add_diff_inverse2)
    ultimately show ?thesis using step pushed_trans [OF push] by auto
  next
    case False
    then have "out = drop skip t" using out B' by simp
    moreover have "\<not> w_more w" using P(3) False by simp
    ultimately show ?thesis using step push by auto
  qed
qed simp

section \<open>Numbers as text\<close>

lemma dec_digit: "n < 10 \<Longrightarrow> is_digit (0x30 + of_nat n) \<and> unat ((0x30 + of_nat n :: u8) - 0x30) = n"
  by (auto simp: is_digit_def word_le_nat_alt unat_word_ariths unat_of_nat)

lemma dec_value_snoc: "dec_value (s @ [b]) = dec_value s * 10 + unat (b - 0x30)"
  by (simp add: dec_value_def)

lemma dec_digits_props: "dec_digits n \<noteq> [] \<and> list_all is_digit (dec_digits n) \<and> dec_value (dec_digits n) = n"
proof (induction n rule: dec_digits.induct)
  case (1 n)
  show ?case
  proof (cases "n < 10")
    case True
    then show ?thesis using dec_digit [of n] by (simp add: dec_digits.simps [of n] dec_value_def)
  next
    case False
    have "n mod 10 < 10" by simp
    from dec_digit [OF this] 1 False show ?thesis by (simp add: dec_digits.simps [of n] dec_value_snoc)
  qed
qed

lemma digit_not_sign: "is_digit b \<Longrightarrow> b \<noteq> 0x2B \<and> b \<noteq> 0x2D"
  by (auto simp: is_digit_def)

lemma dec_digits_head: "\<exists>b r. dec_digits n = b # r \<and> b \<noteq> 0x2B \<and> b \<noteq> 0x2D"
  using dec_digits_props [of n] digit_not_sign by (cases "dec_digits n") auto

lemma parse_u32_digits: "parse_u32 (dec_digits (unat w)) = Some w"
proof -
  have "unat w < 2 ^ 32" using unsigned_less [of w] by simp
  then show ?thesis using dec_digits_props [of "unat w"] dec_digits_head [of "unat w"] by (auto simp: parse_u32_def Let_def)
qed

lemma parse_i32_digits: "- (2 ^ 31) \<le> v \<Longrightarrow> v < 2 ^ 31 \<Longrightarrow> parse_i32 (dec_int v) = Some v"
  using dec_digits_props [of "nat v"] dec_digits_head [of "nat v"] dec_digits_props [of "nat (- v)"]
  by (auto simp: parse_i32_def dec_int_def Let_def)

lemma dec_digits_len: "n < 10 ^ m \<Longrightarrow> 0 < m \<Longrightarrow> length (dec_digits n) \<le> m"
proof (induction m arbitrary: n)
  case (Suc m)
  show ?case
  proof (cases "n < 10")
    case False
    then have "m \<noteq> 0" "n div 10 < 10 ^ m" using Suc.prems(1) by (auto intro: ccontr) 
    with Suc.IH [of "n div 10"] False show ?thesis by (simp add: dec_digits.simps [of n])
  qed (simp add: dec_digits.simps [of n])
qed simp

subsection \<open>Addresses\<close>

lemma hex_digit_char: "d < 16 \<Longrightarrow> hex_digit (hex_char d) = Some d"
proof -
  assume "d < 16"
  then have "unat d \<in> set [0..<16]" by (simp add: word_less_nat_alt)
  moreover have "list_all (\<lambda>n. hex_digit (hex_char (of_nat n)) = Some (of_nat n)) [0..<16]" by code_simp
  moreover have "of_nat (unat d) = d" by simp
  ultimately show ?thesis unfolding list_all_iff by metis
qed

lemma nibble_less: "w AND 0xF < (16 :: u32)"
  using word_and_le1 [of w "0xF"] by (simp add: order_le_less_trans)

lemma nibble_step: "drop_bit (n + 4) w * 16 + (drop_bit n w AND 0xF) = drop_bit n (w :: u32)"
  using bits_ident [of 4 "drop_bit n w"] by (simp add: push_bit_eq_mult take_bit_eq_mask mask_numeral add.commute)

lemma nibbles_join:
  fixes w :: u32
  shows "foldl (\<lambda>a i. a * 16 + (drop_bit (4 * i) w AND 0xF)) 0 [7, 6, 5, 4, 3, 2, 1, 0] = w"
proof -
  have "drop_bit 32 w = 0" by (rule bit_word_eqI) (simp add: bit_simps)
  then show ?thesis
    using nibble_step [of 28 w] nibble_step [of 24 w] nibble_step [of 20 w] nibble_step [of 16 w]
      nibble_step [of 12 w] nibble_step [of 8 w] nibble_step [of 4 w] nibble_step [of 0 w] by simp
qed

lemma hex_value_text: "hex_value (map (\<lambda>i. hex_char (drop_bit (4 * i) w AND 0xF)) is) = foldl (\<lambda>a i. a * 16 + (drop_bit (4 * i) w AND 0xF)) 0 is"
  by (simp add: hex_value_def foldl_map hex_digit_char [OF nibble_less])

lemma parse_addr_text: "parse_addr (hex_text a) = Some a"
proof -
  let ?ds = "map (\<lambda>i. hex_char (drop_bit (4 * i) a AND 0xF)) [7, 6, 5, 4, 3, 2, 1, 0]"
  have "\<not> eq_ignore_ascii_case (hex_text a) (ascii ''auto'')" by (auto simp: eq_ignore_ascii_case_def hex_text_def ascii_def dest: map_eq_imp_length_eq)
  moreover have "strip_0x (hex_text a) = ?ds" by (simp add: strip_0x_def hex_text_def ascii_def)
  moreover have "hex_value ?ds = a" unfolding hex_value_text by (rule nibbles_join)
  ultimately show ?thesis by (simp add: parse_addr_def Let_def hex_digit_char [OF nibble_less])
qed

section \<open>Settings read back\<close>

lemma u32_le_nth [simp]: "le_u32 (u32_le w ! 0) (u32_le w ! Suc 0) (u32_le w ! 2) (u32_le w ! 3) = w"
  by (simp add: u32_le_def)

lemma u32_le_list [simp]: "[u32_le w ! 0, u32_le w ! Suc 0, u32_le w ! 2, u32_le w ! 3] = u32_le w"
  by (simp add: u32_le_def)

lemma parse_i32_range: "parse_i32 v = Some i \<Longrightarrow> - (2 ^ 31) \<le> i \<and> i < 2 ^ 31"
  by (auto simp: parse_i32_def Let_def split: if_splits)

lemma sint_of_i32: "- (2 ^ 31) \<le> i \<Longrightarrow> i < 2 ^ 31 \<Longrightarrow> sint (word_of_int i :: u32) = i"
  by (simp add: signed_take_bit_int_eq_self sint_sbintrunc')

text \<open>The text a stored value reads as, and that entering it again stores the same bytes.\<close>

lemma value_text_encodes:
  assumes "encode_value k v = Some b" and "k = KAddr \<or> from_utf8_ok v"
  shows "\<exists>t. value_text uid k b = Some t \<and> (k = KAddr \<and> b = u32_le 0 \<and> t = hex_text uid \<or> encode_value k t = Some b)"
proof (cases k)
  case (KStr m)
  then show ?thesis using assms by (auto split: if_splits)
next
  case (KEnum cs)
  then show ?thesis using assms by (auto split: if_splits)
next
  case (KUint lo hi)
  then show ?thesis using assms by (auto simp: u32_le_nth parse_u32_digits split: option.splits if_splits)
next
  case (KInt lo hi)
  with assms obtain i where i: "parse_i32 v = Some i" "\<not> (i < lo \<or> hi < i)" "b = u32_le (word_of_int i)"
    by (auto split: option.splits if_splits)
  then show ?thesis using KInt parse_i32_range [OF i(1)] by (auto simp: u32_le_nth sint_of_i32 parse_i32_digits)
next
  case KBool
  then obtain x where "b = [if x then 1 else 0]" using assms(1) by auto
  then show ?thesis using KBool by (auto simp: parse_bool_def ascii_def)
next
  case KAddr
  then show ?thesis using assms(1) by (auto simp: u32_le_nth parse_addr_text Let_def)
qed

lemma encode_value_len: "encode_value k v = Some b \<Longrightarrow> length b \<le> MAX_SETTING"
  by (cases k) (auto simp: MAX_SETTING_def split: option.splits if_splits)

lemma encode_value_nonempty: "encode_value k v = Some b \<Longrightarrow> v \<noteq> [] \<Longrightarrow> b \<noteq> []"
  by (cases k) (auto simp: u32_le_def split: option.splits if_splits)

abbreviation set_text :: bytes where
  "set_text \<equiv> ascii ''system settings set ''"

text \<open>The exported text of a stored value: entering it again gives the same bytes, and it is never taken for the
  request of a random address.\<close>

lemma export_text:
  assumes kv: "nv_ok kv" and stored: "fw_abs (nv_kv kv) (ns_key NS_SHELL (st_key s)) = Some b"
    and enc: "encode_value (st_kind s) v = Some b" "st_kind s = KAddr \<or> from_utf8_ok v"
  shows "\<exists>t. write_setting uid True s kv = [set_text, st_name s, ascii ''='', t, CRLF] \<and> encode_value (st_kind s) t = Some b \<and>
     \<not> (st_kind s = KAddr \<and> eq_ignore_ascii_case t (ascii ''random''))"
proof -
  have get: "scoped_get_bytes NS_SHELL (st_key s) n kv = Inr (Some (length b, take n b))" for n
    using stored by (simp add: scoped_get_abs [OF kv])
  obtain t where t: "value_text uid (st_kind s) b = Some t"
      "st_kind s = KAddr \<and> b = u32_le 0 \<and> t = hex_text uid \<or> encode_value (st_kind s) t = Some b"
    using value_text_encodes [OF enc] by blast
  have rd: "read_value uid s kv = t" using get encode_value_len [OF enc(1)] t(1) by (simp add: read_value_def)
  show ?thesis
  proof (cases "st_kind s = KAddr")
    case False
    then show ?thesis using t(2) rd by (simp add: write_setting_def Let_def)
  next
    case True
    then obtain a where a: "b = u32_le a" using enc(1) by auto
    have st: "stored_addr (st_key s) kv = Some a" by (simp add: stored_addr_def get a)
    have t': "t = hex_text (if a \<noteq> 0 then a else uid)" using t(1) True by (simp add: a Let_def)
    have ne: "\<not> eq_ignore_ascii_case (hex_text x) (ascii ''random'')" for x
      by (auto simp: eq_ignore_ascii_case_def hex_text_def ascii_def dest: map_eq_imp_length_eq)
    show ?thesis
    proof (cases "a = 0")
      case z: True
      then show ?thesis using True st by (auto simp: write_setting_def a parse_addr_def eq_ignore_ascii_case_def ascii_def to_ascii_lowercase_def)
    next
      case False
      then show ?thesis using True st rd t' ne by (auto simp: write_setting_def a parse_addr_text)
    qed
  qed
qed

text \<open>What \<open>settings set\<close> does with an accepted value.\<close>

definition assign_arg :: "bytes \<Rightarrow> bytes \<Rightarrow> bytes" where
  "assign_arg name v = name @ [0x3D] @ v"

lemma parse_assign_arg: "0x3D \<notin> set name \<Longrightarrow> parse_assign [assign_arg name v] = Some (name, v)"
proof -
  assume "0x3D \<notin> set name"
  then have "takeWhile (\<lambda>b. b \<noteq> 0x3D) (name @ 0x3D # v) = name" "dropWhile (\<lambda>b. b \<noteq> 0x3D) (name @ 0x3D # v) = 0x3D # v"
    by (induction name) auto
  then show ?thesis by (simp add: parse_assign_def assign_arg_def)
qed

lemma settings_set_run:
  assumes "0x3D \<notin> set name" and "settings_find (cx_settings cx) name = Some s" and "\<not> (cx_remote cx \<and> st_kind s = KAddr)"
  shows "settings_set cx [assign_arg name v] kv =
     (let random = (st_kind s = KAddr \<and> eq_ignore_ascii_case v (ascii ''random''));
          a = (if cx_rand cx = 0 then 1 else cx_rand cx) in
      case (if random then Some (u32_le a) else encode_value (st_kind s) v) of
        None \<Rightarrow> ([ascii ''invalid value for '', name, ascii '' (''] @ write_constraint (st_kind s) @ [ascii '')''], oc_code R_BAD_ARG, kv)
      | Some b \<Rightarrow>
          (case scoped_set_bytes NS_SHELL (st_key s) b kv of
             (Inr _, kv1) \<Rightarrow>
               (if random then [ascii ''ok ('', hex_text a, ascii '', '', cx_source cx, ascii '')''] else [ascii ''ok''], oc_code R_OK, kv1)
           | (Inl _, kv1) \<Rightarrow> ([ascii ''storage error''], oc_code R_STORAGE, kv1)))"
  using assms by (auto simp: settings_set_def parse_assign_arg)

lemma settings_set_stored:
  assumes "0x3D \<notin> set name" and "settings_find (cx_settings cx) name = Some s" and "\<not> cx_remote cx"
    and run: "settings_set cx [assign_arg name v] kv = (out, oc, kv1)" and ok: "oc_result oc = R_OK" and kv: "nv_ok kv" and v: "v \<noteq> []" "from_utf8_ok v"
  shows "nv_ok kv1 \<and> (\<exists>b v'. fw_abs (nv_kv kv1) (ns_key NS_SHELL (st_key s)) = Some b \<and> encode_value (st_kind s) v' = Some b \<and>
     (st_kind s = KAddr \<or> from_utf8_ok v') \<and> b \<noteq> [])"
proof -
  let ?r = "st_kind s = KAddr \<and> eq_ignore_ascii_case v (ascii ''random'')" and ?a = "if cx_rand cx = 0 then 1 else cx_rand cx"
  have local_line: "\<not> (cx_remote cx \<and> st_kind s = KAddr)" using assms(3) by simp
  have codes: "R_BAD_ARG \<noteq> R_OK" "R_STORAGE \<noteq> R_OK" by (simp_all add: R_BAD_ARG_def R_STORAGE_def R_OK_def)
  obtain b where b: "(if ?r then Some (u32_le ?a) else encode_value (st_kind s) v) = Some b" "scoped_set_bytes NS_SHELL (st_key s) b kv = (Inr (), kv1)"
    using run ok codes unfolding settings_set_run [OF assms(1,2) local_line] Let_def
    by (auto simp: oc_code_def split: option.splits prod.splits sum.splits if_splits)
  have "\<exists>v'. encode_value (st_kind s) v' = Some b \<and> (st_kind s = KAddr \<or> from_utf8_ok v') \<and> v' \<noteq> []"
  proof (cases ?r)
    case True
    with b(1) have "encode_value (st_kind s) (hex_text ?a) = Some b" by (simp add: parse_addr_text split: if_splits)
    moreover have "hex_text ?a \<noteq> []" by (simp add: hex_text_def ascii_def)
    ultimately show ?thesis using True by blast
  qed (use b(1) v in \<open>auto split: if_splits\<close>)
  then show ?thesis using scoped_set_post(1) [OF kv b(2)] scoped_set_post(2) [OF kv b(2), of NS_SHELL "st_key s"] encode_value_nonempty by auto
qed

section \<open>Remote lines\<close>

text \<open>The records a line from the radio may change: those of the settings that are no address.\<close>

definition settable :: "setting list \<Rightarrow> u16 \<Rightarrow> bool" where
  "settable settings key \<longleftrightarrow> (\<exists>s\<in>set (settings_iter settings). st_kind s \<noteq> KAddr \<and> key = ns_key NS_SHELL (st_key s))"

definition kept :: "(u16 \<Rightarrow> bool) \<Rightarrow> nv \<Rightarrow> nv \<Rightarrow> bool" where
  "kept K kv kv' \<longleftrightarrow> nv_ok kv' \<and> (\<forall>ns l. \<not> K (ns_key ns l) \<longrightarrow> fw_abs (nv_kv kv') (ns_key ns l) = fw_abs (nv_kv kv) (ns_key ns l))"

lemma kept_refl: "nv_ok kv \<Longrightarrow> kept K kv kv"
  by (simp add: kept_def)

lemma store_kept_trans: "kept K kv kv1 \<Longrightarrow> kept K kv1 kv2 \<Longrightarrow> kept K kv kv2"
  by (simp add: kept_def)

lemma kept_mono: "kept K kv kv' \<Longrightarrow> (\<And>k. K k \<Longrightarrow> L k) \<Longrightarrow> kept L kv kv'"
  by (auto simp: kept_def)

text \<open>A command that a remote line may run keeps to some records; the application's commands are bound by it.\<close>

definition remote_safe :: "(u16 \<Rightarrow> bool) \<Rightarrow> setting list \<Rightarrow> command \<Rightarrow> bool" where
  "remote_safe K settings c \<longleftrightarrow> cm_console_only c \<or>
     (\<forall>cx args kv. cx_remote cx \<longrightarrow> cx_settings cx = settings \<longrightarrow> nv_ok kv \<longrightarrow> kept K kv (snd (snd (cm_run c cx args kv))))"

primrec entry_all :: "(command \<Rightarrow> bool) \<Rightarrow> entry \<Rightarrow> bool" where
  "entry_all P (EMenu n ch) = list_all id (map (entry_all P) ch)"
| "entry_all P (ECmd c) = P c"

abbreviation tree_all :: "(command \<Rightarrow> bool) \<Rightarrow> entry list \<Rightarrow> bool" where
  "tree_all P es \<equiv> list_all (entry_all P) es"

lemma entry_all_menu [simp]: "entry_all P (EMenu n ch) = tree_all P ch"
  by (simp add: list.pred_map comp_def)

declare entry_all.simps(1) [simp del]

lemma menu_children_all: "tree_all P es \<Longrightarrow> menu_children es name = Some ch \<Longrightarrow> tree_all P ch"
  by (induction es) (auto split: entry.splits if_splits)

lemma find_cmd_all: "tree_all P es \<Longrightarrow> find_cmd_in es name = Some c \<Longrightarrow> P c"
  by (induction es) (auto split: entry.splits if_splits)

lemma resolve_from_all:
  "tree_all P primary \<Longrightarrow> tree_all P secondary \<Longrightarrow> resolve_from ts primary secondary i = RCmd c n \<Longrightarrow> P c"
proof (induction ts arbitrary: primary secondary i)
  case (Cons t ts)
  show ?case
  proof (cases "menu_children primary t \<noteq> None \<or> menu_children secondary t \<noteq> None")
    case True
    have "tree_all P (case menu_children primary t of Some ch \<Rightarrow> ch | None \<Rightarrow> [])"
      "tree_all P (case menu_children secondary t of Some ch \<Rightarrow> ch | None \<Rightarrow> [])"
      using menu_children_all Cons.prems(1,2) by (auto split: option.splits)
    from Cons.IH [OF this] Cons.prems(3) True show ?thesis by (simp add: Let_def)
  next
    case False
    then show ?thesis using Cons.prems find_cmd_all [of P "primary @ secondary" t] by (auto simp: Let_def find_cmd_def split: option.splits)
  qed
qed simp

lemma settings_find_in: "settings_find settings name = Some s \<Longrightarrow> s \<in> set (settings_iter settings)"
  by (auto simp: settings_find_def find_Some_iff)

lemma settings_set_kept:
  assumes "nv_ok kv" and "cx_remote cx"
  shows "kept (settable (cx_settings cx)) kv (snd (snd (settings_set cx args kv)))"
proof -
  have wr: "kept (settable (cx_settings cx)) kv kv1"
    if "settings_find (cx_settings cx) name = Some s" "st_kind s \<noteq> KAddr" "scoped_set_bytes NS_SHELL (st_key s) b kv = (r, kv1)" for name s b r kv1
  proof -
    have "settable (cx_settings cx) (ns_key NS_SHELL (st_key s))" using that(2) settings_find_in [OF that(1)] by (auto simp: settable_def)
    then show ?thesis using scoped_set_post [OF assms(1) that(3)] by (auto simp: kept_def)
  qed
  show ?thesis
  proof (cases "\<exists>name v s. parse_assign args = Some (name, v) \<and> settings_find (cx_settings cx) name = Some s \<and> st_kind s \<noteq> KAddr")
    case True
    then obtain name v s where s: "parse_assign args = Some (name, v)" "settings_find (cx_settings cx) name = Some s" "st_kind s \<noteq> KAddr" by blast
    show ?thesis
    proof (cases "encode_value (st_kind s) v")
      case None
      then have "snd (snd (settings_set cx args kv)) = kv" using s by (simp add: settings_set_def Let_def)
      then show ?thesis using kept_refl [OF assms(1)] by simp
    next
      case (Some b)
      obtain r kv1 where w: "scoped_set_bytes NS_SHELL (st_key s) b kv = (r, kv1)" by fastforce
      have "snd (snd (settings_set cx args kv)) \<in> {kv, kv1}" using s Some w by (cases r) (simp_all add: settings_set_def Let_def)
      then show ?thesis using kept_refl [OF assms(1)] wr [OF s(2,3) w] by auto
    qed
  next
    case False
    then consider "parse_assign args = None" | name v where "parse_assign args = Some (name, v)" "settings_find (cx_settings cx) name = None"
      | name v s where "parse_assign args = Some (name, v)" "settings_find (cx_settings cx) name = Some s" "st_kind s = KAddr"
      by (metis not_None_eq surj_pair)
    then have "snd (snd (settings_set cx args kv)) = kv" using assms(2) by cases (simp_all add: settings_set_def)
    then show ?thesis using kept_refl [OF assms(1)] by simp
  qed
qed

lemma base_root_safe:
  assumes "\<And>k. settable settings k \<Longrightarrow> K k"
  shows "tree_all (remote_safe K settings) BASE_ROOT"
proof -
  have kv: "remote_safe K settings \<lparr>cm_name = n, cm_args = a, cm_run = h, cm_console_only = False\<rparr>"
    if "\<And>cx args kv. snd (snd (h cx args kv)) = kv" for n a h
    using that kept_refl by (simp add: remote_safe_def)
  have "remote_safe K settings \<lparr>cm_name = n, cm_args = a, cm_run = settings_set, cm_console_only = False\<rparr>" for n a
    using kept_mono [OF settings_set_kept] assms by (auto simp: remote_safe_def)
  moreover have "remote_safe K settings \<lparr>cm_name = n, cm_args = a, cm_run = h, cm_console_only = True\<rparr>" for n a h by (simp add: remote_safe_def)
  ultimately show ?thesis
    by (auto simp: BASE_ROOT_def entry_cmd_def entry_cmd_console_only_def cmd_reboot_def cmd_info_def cmd_export_def settings_print_def
        settings_get_def split: list.splits option.splits intro!: kv)
qed

text \<open>A transport and what it may do to its state while it carries a line: \<open>R\<close> holds of every piece of text, of every
  end, and of every change to the records of \<open>K\<close>. Then it holds of every remote line.\<close>

definition passes_keep :: "(u16 \<Rightarrow> bool) \<Rightarrow> shell_pass list \<Rightarrow> bool" where
  "passes_keep K ps \<longleftrightarrow> (\<forall>p\<in>set ps. \<forall>kv. nv_ok kv \<longrightarrow> kept K kv (snd p kv))"

lemma passes_keep_id: "list_all (\<lambda>p. snd p = id) ps \<Longrightarrow> passes_keep K ps"
  by (auto simp: passes_keep_def list_all_iff intro: kept_refl)

locale store_sink =
  fixes sk :: "'s sink" and K :: "u16 \<Rightarrow> bool" and R :: "'s \<Rightarrow> 's \<Rightarrow> bool"
  assumes put_kv: "sk_kv sk (sk_put sk kv s) = kv"
    and R_trans: "R s s1 \<Longrightarrow> R s1 s2 \<Longrightarrow> R s s2"
    and R_ok: "R s s' \<Longrightarrow> nv_ok (sk_kv sk s) \<Longrightarrow> nv_ok (sk_kv sk s')"
    and put_R: "nv_ok (sk_kv sk s) \<Longrightarrow> kept K (sk_kv sk s) kv \<Longrightarrow> R s (sk_put sk kv s)"
    and push_R: "sk_push sk t s = Some (ok, s') \<Longrightarrow> R s s'"
    and done_R: "sk_done sk r s = Some (ok, s') \<Longrightarrow> R s s'"
begin

lemma refuse_R: "refuse sk msg r s = Some (oc, s') \<Longrightarrow> R s s'"
  using R_trans [OF push_R done_R] by (auto simp: refuse_def split: option.splits)

lemma pages_R:
  assumes safe: "\<And>cx args kv. cx_remote cx \<Longrightarrow> cx_settings cx = settings \<Longrightarrow> nv_ok kv \<Longrightarrow> kept K kv (snd (snd (h cx args kv)))"
  shows "\<forall>p\<in>set ps. cx_remote (fst p) \<and> cx_settings (fst p) = settings \<Longrightarrow> passes_keep K ps \<Longrightarrow> nv_ok (sk_kv sk s) \<Longrightarrow>
    stream_pages sk h args ps skip s = Some (oc, s') \<Longrightarrow> R s s'"
proof (induction ps arbitrary: skip s)
  case (Cons p ps)
  let ?kv = "snd p (sk_kv sk s)"
  have o: "kept K (sk_kv sk s) ?kv" using Cons.prems(2,3) by (simp add: passes_keep_def)
  obtain pieces oc1 kv1 where h: "h (fst p) args ?kv = (pieces, oc1, kv1)" by (metis prod_cases3)
  have c: "kept K (sk_kv sk s) kv1" using store_kept_trans [OF o] safe [of "fst p" ?kv args] Cons.prems(1) o h by (simp add: kept_def)
  obtain out w where w: "window_pass pieces (window_new skip RESP_CAP) = (out, w)" by fastforce
  obtain ok s1 where p: "sk_push sk out (sk_put sk kv1 s) = Some (ok, s1)"
    using Cons.prems(4) h w by (auto simp: Let_def split: option.splits)
  have R1: "R s s1" using R_trans [OF put_R [OF Cons.prems(3) c] push_R [OF p]] .
  have IH: "R s s'" if "stream_pages sk h args ps k s1 = Some (oc, s')" for k
    using R_trans [OF R1 Cons.IH [OF _ _ R_ok [OF R1 Cons.prems(3)] that]] Cons.prems(1,2) by (simp add: passes_keep_def)
  have "R s s''" if "sk_done sk r s1 = Some (x, s'')" for r x s'' using R_trans [OF R1 done_R [OF that]] .
  then show ?case using Cons.prems(4) h w p R1 IH by (auto simp: Let_def split: if_splits option.splits)
qed simp

lemma remote_line:
  assumes "nv_ok (sk_kv sk s)" and "tree_all (remote_safe K settings) app" and "\<And>k. settable settings k \<Longrightarrow> K k"
    and "passes_keep K ps" and "stream_line sk (Some (app, settings)) line ps s = Some (oc, s')"
  shows "R s s'"
proof -
  let ?ps = "map (\<lambda>(cx, others). (cx\<lparr>cx_remote := True, cx_settings := settings\<rparr>, others)) ps"
  have ps: "\<forall>p\<in>set ?ps. cx_remote (fst p) \<and> cx_settings (fst p) = settings" "passes_keep K ?ps" using assms(4) by (auto simp: passes_keep_def)
  show ?thesis
  proof (cases "\<exists>c i. resolve (tokenize line) app = RCmd c i \<and> \<not> cm_console_only c \<and> length line \<le> MAX_LINE \<and> length (split_whitespace line) \<le> MAX_TOKENS")
    case True
    then obtain c i where c: "resolve (tokenize line) app = RCmd c i" "\<not> cm_console_only c" "length line \<le> MAX_LINE"
      "length (split_whitespace line) \<le> MAX_TOKENS" by blast
    have "remote_safe K settings c" using resolve_from_all [OF base_root_safe [OF assms(3)] assms(2)] c(1) by (simp add: resolve_def)
    with c(2) have "kept K kv0 (snd (snd (cm_run c cx args kv0)))" if "cx_remote cx" "cx_settings cx = settings" "nv_ok kv0" for cx args kv0
      using that by (simp add: remote_safe_def)
    from pages_R [where h = "cm_run c", OF this ps assms(1)] assms(5) c show ?thesis by (cases oc) (auto simp: stream_line_def stream_with_def Let_def)
  next
    case False
    then obtain msg r where "refuse sk msg r s = Some (oc, s')"
      using assms(5) by (auto simp: stream_line_def stream_with_def Let_def split: if_splits resolved.splits)
    then show ?thesis using refuse_R by blast
  qed
qed

end

text \<open>The device's address is no record a remote line may set, with the application's settings in their key range.\<close>

lemma addr_not_settable: "list_all (\<lambda>x. 0x10 \<le> st_key x) settings \<Longrightarrow> \<not> settable settings (ns_key NS_SHELL ADDR_LOCAL)"
  by (auto simp: settable_def settings_iter_def BASE_SETTINGS_def ns_key_inject ADDR_LOCAL_def list_all_iff word_le_nat_alt dest!: bspec)

lemma kept_stored_addr: "nv_ok kv \<Longrightarrow> kept K kv kv' \<Longrightarrow> \<not> K (ns_key NS_SHELL ADDR_LOCAL) \<Longrightarrow> stored_addr ADDR_LOCAL kv' = stored_addr ADDR_LOCAL kv"
  by (simp add: stored_addr_def scoped_get_abs kept_def)

lemma console_push_kv: "kn_kv (console_push t s) = kn_kv s"
proof (induction t s rule: console_push.induct)
  case (1 rest s)
  then show ?case by (subst console_push.simps) (auto simp: Let_def console_frame_def)
qed

interpretation console: store_sink console_sink_ops K "\<lambda>s s'. nv_ok (kn_kv s) \<longrightarrow> kept K (kn_kv s) (kn_kv s')"
  by unfold_locales (auto simp: console_sink_ops_def console_push_kv console_frame_def kept_def)

section \<open>Completion fits a frame\<close>

text \<open>The bytes postcard needs for a completion reply: varints for the numbers and lengths, a byte for a flag or a kind.\<close>

definition completions_len :: "completions \<Rightarrow> nat" where
  "completions_len c =
     varint_len (unat (cp_req c)) + varint_len (unat (cp_token_start c)) +
     (varint_len (length (cp_common_prefix c)) + length (cp_common_prefix c)) +
     (varint_len (length (cp_candidates c)) + sum_list (map (\<lambda>x. varint_len (length (fst x)) + length (fst x) + 1) (cp_candidates c))) + 1"

lemma varint_u16: "n < 2 ^ 16 \<Longrightarrow> varint_len n \<le> 3"
  by (subst varint_len.simps, clarsimp, subst varint_len.simps, clarsimp, subst varint_len.simps, clarsimp)

lemma varint_mono: "m \<le> n \<Longrightarrow> varint_len m \<le> varint_len n"
proof (induction n arbitrary: m rule: varint_len.induct)
  case (1 n)
  then show ?case
  proof (cases "n < 0x80")
    case False
    then show ?thesis using "1.IH" [OF False, of "m div 128"] "1.prems" by (simp add: varint_len.simps [of m] varint_len.simps [of n] div_le_mono)
  qed (simp add: varint_len.simps [of m] varint_len.simps [of n])
qed

lemma varint_pos: "1 \<le> varint_len n"
  by (subst varint_len.simps) simp

abbreviation cand_len :: "bytes \<times> candidate_kind \<Rightarrow> nat" where
  "cand_len x \<equiv> varint_len (length (fst x)) + length (fst x) + 1"

lemma admit_fits:
  "admit cs b n = (r, clipped) \<Longrightarrow> cb_used b \<le> cb_cap b \<Longrightarrow>
     cb_used b + sum_list (map cand_len r) +
       (if cb_any b then 0 else (case r of [] \<Rightarrow> 0 | c # _ \<Rightarrow> varint_len (length (fst c)) - 1 + length (fst c))) \<le> cb_cap b \<and>
     (n \<le> MAX_CANDIDATES \<longrightarrow> n + length r \<le> MAX_CANDIDATES)"
proof (induction cs arbitrary: b n r)
  case (Cons c cs)
  show ?case
  proof (cases "MAX_CANDIDATES \<le> n \<or> \<not> fst (budget_try_add (length (fst c)) b)")
    case True
    then have "r = []" using Cons.prems(1) by (auto split: if_splits prod.splits bool.splits)
    then show ?thesis using Cons.prems(2) by simp
  next
    case False
    define b1 where "b1 = snd (budget_try_add (length (fst c)) b)"
    obtain r1 where r: "admit cs b1 (Suc n) = (r1, clipped)" "r = c # r1"
      using Cons.prems(1) False by (auto simp: b1_def split: if_splits prod.splits bool.splits)
    have b1: "b1 = b\<lparr>cb_used := cb_used b + cand_len c + (if cb_any b then 0 else varint_len (length (fst c)) - 1 + length (fst c)), cb_any := True\<rparr>"
      "cb_used b1 \<le> cb_cap b1"
      using False by (auto simp: b1_def budget_try_add_def Let_def split: if_splits)
    from Cons.IH [OF r(1) b1(2)] show ?thesis using r(2) b1(1) False by auto
  qed
qed simp

lemma common_prefix_len: "length (common_prefix (map fst cs)) \<le> (case cs of [] \<Rightarrow> 0 | c # _ \<Rightarrow> length (fst c))"
  by (cases cs) (simp_all add: common_prefix_def)

section \<open>The shell's properties\<close>

text \<open>C23. A response of any length reaches the host whole: when the command reproduces its output on
  every pass (the purity contract of \<open>stream_line\<close>), the line is answered after at most one pass per 253 bytes, by
  frames of at most 192 bytes numbered from 0 whose texts make up exactly what the command wrote, and a last
  empty frame that alone carries the result and the end flag.\<close>

theorem console_response_whole:
  assumes "length line \<le> MAX_LINE" and "length (split_whitespace line) \<le> MAX_TOKENS" and "resolve (tokenize line) app = RCmd c i"
    and "reproduces (cm_run c) (drop i (tokenize line)) kv pieces oc
      (map (\<lambda>(cx, others). (cx\<lparr>cx_remote := False, cx_settings := settings\<rparr>, others)) ps)"
    and "list_all text_ok pieces" and "length (concat pieces) div 253 < length ps"
  shows "\<exists>fs. dispatch app settings cmd line ps kv =
      Some (oc_reboot oc, fs @ [\<lparr>sr_cmd = cmd, sr_result = oc_result oc, sr_chunk = of_nat (length fs), sr_last = True, sr_text = []\<rparr>], kv) \<and>
     concat (map sr_text fs) = concat pieces \<and> numbered 0 fs \<and> list_all (body_frame cmd) fs"
proof -
  let ?s = "\<lparr>kn_cmd = cmd, kn_chunk = 0, kn_sent = [], kn_kv = kv\<rparr>"
  let ?ps = "map (\<lambda>(cx, others). (cx\<lparr>cx_remote := False, cx_settings := settings\<rparr>, others)) ps"
  obtain s' where s': "stream_pages console_sink_ops (cm_run c) (drop i (tokenize line)) ?ps 0 ?s =
        Some ((oc_result oc, oc_reboot oc), console_frame (oc_result oc) True [] s')" "pushed (concat pieces) ?s s'"
    using stream_pages_whole [OF assms(5,4), of 0 ?s] assms(6) by auto
  then have run: "dispatch app settings cmd line ps kv = Some (oc_reboot oc, kn_sent (console_frame (oc_result oc) True [] s'), kn_kv s')"
    using assms(1-3) by (simp add: dispatch_def stream_with_def Let_def console_frame_def)
  have "kn_kv s' = kv" using s'(2) by (simp add: pushed_def)
  moreover obtain fs where "kn_sent s' = fs" "concat (map sr_text fs) = concat pieces" "kn_cmd s' = cmd" "kn_chunk s' = of_nat (length fs)" "numbered 0 fs"
    "list_all (body_frame cmd) fs"
    using s'(2) by (auto simp: pushed_def list_all_iff)
  ultimately show ?thesis using run by (auto simp: console_frame_def)
qed

subsection \<open>A concrete shell\<close>

definition demo_settings :: "setting list" where
  "demo_settings = map (\<lambda>i. \<lparr>st_key = 0x10 + of_nat i, st_name = ascii ''channel-'' @ dec_digits i, st_kind = KUint 0 100, st_default = ascii ''50''\<rparr>) [0..<8]"

definition demo_ctx :: ctx where
  "demo_ctx = \<lparr>cx_remote = False, cx_settings = demo_settings, cx_uid = 0x11223344, cx_rand = 7, cx_source = ascii ''trng'',
     cx_info = (\<lambda>_. []), cx_err = (\<lambda>_. [])\<rparr>"

lemma demo_read: "read_value uid s demo_nv = unset_text uid s"
  using scoped_get_abs [OF demo_nv_ok] by (simp add: read_value_def demo_nv_def demo_kv_abs)

definition demo_export :: "bytes list" where
  "demo_export = concat (map (\<lambda>s. [set_text, st_name s, ascii ''='', if st_kind s = KAddr then ascii ''auto'' else st_default s, CRLF]) (settings_iter demo_settings))"

lemma demo_stored_addr: "stored_addr k demo_nv = None"
  using scoped_get_abs [OF demo_nv_ok] by (simp add: stored_addr_def demo_nv_def demo_kv_abs)

lemma demo_export_run: "cx_settings cx = demo_settings \<Longrightarrow> cmd_export cx args demo_nv = (demo_export, oc_code R_OK, demo_nv)"
  unfolding cmd_export_def demo_export_def prod.inject
proof (intro conjI refl arg_cong [where f = concat] map_cong)
  fix s assume a: "cx_settings cx = demo_settings" and s: "s \<in> set (settings_iter demo_settings)"
  have "length (st_default s) \<le> MAX_SETTING"
    using s by (auto simp: settings_iter_def demo_settings_def BASE_SETTINGS_def MAX_SETTING_def ascii_def)
  then show "write_setting (cx_uid cx) True s demo_nv =
      [set_text, st_name s, ascii ''='', if st_kind s = KAddr then ascii ''auto'' else st_default s, CRLF]"
    by (simp add: write_setting_def demo_stored_addr demo_read unset_text_def push_fits_def)
qed simp

lemma demo_export_text: "list_all text_ok demo_export" and demo_export_len: "length (concat demo_export) = 339"
  by code_simp+

lemma demo_line: "split_whitespace (ascii ''export'') = [ascii ''export'']" "length (ascii ''export'') = 6"
  by code_simp+

lemma demo_resolve: "resolve [ascii ''export''] [] = RCmd \<lparr>cm_name = ascii ''export'', cm_args = ArgsNone, cm_run = cmd_export, cm_console_only = False\<rparr> 1"
  by (simp add: resolve_def BASE_ROOT_def entry_cmd_def entry_cmd_console_only_def find_cmd_def ascii_def)

theorem console_response_whole_witness:
  "\<exists>fs. dispatch [] demo_settings 9 (ascii ''export'') [(demo_ctx, id), (demo_ctx, id)] demo_nv =
      Some (False, fs @ [\<lparr>sr_cmd = 9, sr_result = R_OK, sr_chunk = of_nat (length fs), sr_last = True, sr_text = []\<rparr>], demo_nv) \<and>
     concat (map sr_text fs) = concat demo_export \<and> numbered 0 fs \<and> list_all (body_frame 9) fs"
  using console_response_whole [of "ascii ''export''" "[]" _ 1 demo_nv demo_export "oc_code R_OK" demo_settings "[(demo_ctx, id), (demo_ctx, id)]" 9]
    demo_export_run demo_export_text demo_export_len demo_line demo_resolve
  by (simp add: tokenize_def reproduces_def oc_code_def MAX_LINE_def MAX_TOKENS_def)

text \<open>C24. An export replays: after \<open>settings set\<close> accepted a value, \<open>export\<close> prints a line for it whose
  argument another device with the same settings accepts, storing the same bytes and nothing else (or reporting
  that its store failed). An unset or automatic address is exported as \<open>auto\<close>, never as this device's own.\<close>

theorem export_replays:
  assumes "nv_ok kv" and "nv_ok kvB" and "0x3D \<notin> set name" and "settings_find settings name = Some s"
    and "cx_settings cx = settings" and "\<not> cx_remote cx" and "cx_settings cxB = settings" and "\<not> cx_remote cxB"
    and "v \<noteq> []" and "from_utf8_ok v" and "settings_set cx [assign_arg name v] kv = (out, oc, kv1)" and "oc_result oc = R_OK"
  shows "\<exists>t b. write_setting uid True s kv1 = [set_text, name, ascii ''='', t, CRLF] \<and>
     fw_abs (nv_kv kv1) (ns_key NS_SHELL (st_key s)) = Some b \<and>
     (case settings_set cxB [assign_arg name t] kvB of (outB, ocB, kvB1) \<Rightarrow>
        oc_result ocB = R_OK \<and> fw_abs (nv_kv kvB1) (ns_key NS_SHELL (st_key s)) = Some b \<or>
        oc_result ocB = R_STORAGE \<and> fw_abs (nv_kv kvB1) (ns_key NS_SHELL (st_key s)) = fw_abs (nv_kv kvB) (ns_key NS_SHELL (st_key s)))"
proof -
  obtain b v' where b: "nv_ok kv1" "fw_abs (nv_kv kv1) (ns_key NS_SHELL (st_key s)) = Some b" "encode_value (st_kind s) v' = Some b"
      "st_kind s = KAddr \<or> from_utf8_ok v'" and ne: "b \<noteq> []"
    using settings_set_stored [OF assms(3) assms(4) [folded assms(5)] assms(6,11,12,1,9,10)] by blast
  have name: "st_name s = name" using assms(4) by (auto simp: settings_find_def find_Some_iff)
  obtain t where t: "write_setting uid True s kv1 = [set_text, st_name s, ascii ''='', t, CRLF]" "encode_value (st_kind s) t = Some b"
      "\<not> (st_kind s = KAddr \<and> eq_ignore_ascii_case t (ascii ''random''))"
    using export_text [OF b] by blast
  obtain r kvB1 where r: "scoped_set_bytes NS_SHELL (st_key s) b kvB = (r, kvB1)" by fastforce
  have "settings_set cxB [assign_arg name t] kvB =
      (case r of Inr _ \<Rightarrow> ([ascii ''ok''], oc_code R_OK, kvB1) | Inl _ \<Rightarrow> ([ascii ''storage error''], oc_code R_STORAGE, kvB1))"
    using settings_set_run [OF assms(3) assms(4) [folded assms(7)], of t kvB] assms(8) t(2,3) r by (auto simp: Let_def split: sum.splits)
  then show ?thesis
    using t(1) name b(2) ne scoped_set_post(2) [OF assms(2) r, of NS_SHELL "st_key s"] by (auto simp: oc_code_def split: sum.splits)
qed

lemma demo_set_addr: "settings_set demo_ctx [assign_arg (ascii ''addr'') (ascii ''1a2b'')] demo_nv =
   ([ascii ''ok''], oc_code R_OK, snd (scoped_set_bytes NS_SHELL ADDR_LOCAL (u32_le 0x1a2b) demo_nv))"
proof -
  have f: "settings_find (cx_settings demo_ctx) (ascii ''addr'') =
      Some \<lparr>st_key = ADDR_LOCAL, st_name = ascii ''addr'', st_kind = KAddr, st_default = ascii ''auto''\<rparr>"
    by (simp add: settings_find_def settings_iter_def BASE_SETTINGS_def ascii_def)
  have "parse_addr (ascii ''1a2b'') = Some 0x1a2b" "\<not> eq_ignore_ascii_case (ascii ''1a2b'') (ascii ''random'')" "0x3D \<notin> set (ascii ''addr'')" by code_simp+
  moreover have "ns_key NS_SHELL ADDR_LOCAL \<noteq> 0" by (simp add: ns_key_def NS_SHELL_def ADDR_LOCAL_def)
  from demo_set_key [OF this, of "u32_le 0x1a2b"]
  have "scoped_set_bytes NS_SHELL ADDR_LOCAL (u32_le 0x1a2b) demo_nv = (Inr (), snd (scoped_set_bytes NS_SHELL ADDR_LOCAL (u32_le 0x1a2b) demo_nv))"
    by (auto simp: scoped_set_bytes_def nv_set_bytes_def demo_nv_def split: prod.splits)
  ultimately show ?thesis using settings_set_run [OF _ f, of "ascii ''1a2b''" demo_nv] by (auto simp: demo_ctx_def Let_def split: prod.splits)
qed

theorem export_replays_witness:
  "\<exists>t b. write_setting 0x55 True (BASE_SETTINGS ! 1) (snd (scoped_set_bytes NS_SHELL ADDR_LOCAL (u32_le 0x1a2b) demo_nv)) =
       [set_text, ascii ''addr'', ascii ''='', t, CRLF] \<and>
     fw_abs (nv_kv (snd (scoped_set_bytes NS_SHELL ADDR_LOCAL (u32_le 0x1a2b) demo_nv))) (ns_key NS_SHELL ADDR_LOCAL) = Some b \<and>
     (case settings_set demo_ctx [assign_arg (ascii ''addr'') t] demo_nv of (outB, ocB, kvB1) \<Rightarrow>
        oc_result ocB = R_OK \<and> fw_abs (nv_kv kvB1) (ns_key NS_SHELL ADDR_LOCAL) = Some b \<or>
        oc_result ocB = R_STORAGE \<and> fw_abs (nv_kv kvB1) (ns_key NS_SHELL ADDR_LOCAL) = fw_abs (nv_kv demo_nv) (ns_key NS_SHELL ADDR_LOCAL))"
proof -
  have f: "settings_find demo_settings (ascii ''addr'') = Some (BASE_SETTINGS ! 1)" "st_key (BASE_SETTINGS ! 1) = ADDR_LOCAL"
    by (simp_all add: settings_find_def settings_iter_def BASE_SETTINGS_def ascii_def)
  have c: "0x3D \<notin> set (ascii ''addr'')" "ascii ''1a2b'' \<noteq> []" "from_utf8_ok (ascii ''1a2b'')" by code_simp+
  have x: "cx_settings demo_ctx = demo_settings" "\<not> cx_remote demo_ctx" "oc_result (oc_code R_OK) = R_OK" by (simp_all add: demo_ctx_def oc_code_def)
  show ?thesis
    using export_replays [OF demo_nv_ok demo_nv_ok c(1) f(1) x(1,2) x(1,2) c(2,3) demo_set_addr x(3)] unfolding f(2) .
qed


lemma complete_admits:
  "\<exists>offered clipped. admit offered (budget_new CONSOLE_MAX_PAYLOAD) 0 = (cp_candidates (complete app settings req line cursor), clipped) \<and>
     cp_common_prefix (complete app settings req line cursor) = common_prefix (map fst (cp_candidates (complete app settings req line cursor)))"
proof -
  let ?c = "complete app settings req line cursor"
  have "\<exists>offered. cp_candidates ?c = fst (admit offered (budget_new CONSOLE_MAX_PAYLOAD) 0)"
    unfolding complete_def Let_def case_prod_beta by (intro exI) simp
  moreover have "cp_common_prefix ?c = common_prefix (map fst (cp_candidates ?c))" unfolding complete_def Let_def case_prod_beta by simp
  ultimately show ?thesis by (metis prod.collapse)
qed

text \<open>C25. A completion reply fits one console frame, whatever the application's names: at most 16
  candidates are offered, and the encoded reply with its common prefix is at most 247 bytes.\<close>

theorem completion_fits: "completions_len (complete app settings req line cursor) \<le> CONSOLE_MAX_PAYLOAD \<and>
   length (cp_candidates (complete app settings req line cursor)) \<le> MAX_CANDIDATES"
proof -
  obtain offered r clipped where a: "admit offered (budget_new CONSOLE_MAX_PAYLOAD) 0 = (r, clipped)"
    and c: "cp_candidates (complete app settings req line cursor) = r" "cp_common_prefix (complete app settings req line cursor) = common_prefix (map fst r)"
    using complete_admits [of app settings req line cursor] by blast
  define p where "p = (case r of [] \<Rightarrow> 0 | c # _ \<Rightarrow> length (fst c))"
  have fit: "9 + sum_list (map cand_len r) + (varint_len p - 1 + p) \<le> CONSOLE_MAX_PAYLOAD" "length r \<le> MAX_CANDIDATES"
    using admit_fits [OF a] by (auto simp: budget_new_def CONSOLE_MAX_PAYLOAD_def p_def varint_len.simps [of 0] split: list.splits)
  have pre: "length (common_prefix (map fst r)) \<le> p" using common_prefix_len by (simp add: p_def)
  have "varint_len (unat w) \<le> 3" for w :: u16 using varint_u16 [of "unat w"] unsigned_less [of w] by simp
  moreover have "varint_len (length r) = 1" using fit(2) by (simp add: varint_len.simps MAX_CANDIDATES_def)
  moreover have "varint_len (length (common_prefix (map fst r))) \<le> varint_len p" "1 \<le> varint_len p" using varint_mono [OF pre] varint_pos by blast+
  ultimately have "completions_len (complete app settings req line cursor) \<le> 3 + 3 + (varint_len p + p) + (1 + sum_list (map cand_len r)) + 1"
    unfolding completions_len_def c by (intro add_mono) (use pre in simp_all)
  with fit \<open>1 \<le> varint_len p\<close> c(1) show ?thesis by simp
qed

end
