(* ===== verification/Node_Props.thy ===== *)
theory Node_Props
  imports Node_App Shell_Props Gw_Props
begin

text \<open>
  What the push-button node promises: nothing that arrives over the radio changes more of its store than the network
  layer's own records and the settings that are no address; a repeated command is not run again; its peer
  table holds its one gateway under the paired key, through every turn and reset; an attempt to pair that fails
  leaves the pairing as it was.
\<close>

section \<open>What the network layer and the shell keep\<close>

definition net_key :: "u16 \<Rightarrow> bool" where
  "net_key k \<longleftrightarrow> (\<exists>l. k = ns_key NS_NET l)"

text \<open>A step of the network layer that leaves its peers alone and changes of the store its own records and
  those of \<open>K\<close>.\<close>

definition held :: "(u16 \<Rightarrow> bool) \<Rightarrow> net \<Rightarrow> net \<Rightarrow> bool" where
  "held K n n' \<longleftrightarrow> nt_addr n' = nt_addr n \<and> nt_default_lane_enabled n' = nt_default_lane_enabled n \<and> peer_ids n' = peer_ids n \<and>
     (nv_ok (nt_kv n) \<longrightarrow> kept (\<lambda>k. K k \<or> net_key k) (nt_kv n) (nt_kv n')) \<and> (alive n \<longrightarrow> alive n')"

lemma held_refl [simp]: "held K n n"
  by (auto simp: held_def intro: kept_refl)

lemma held_trans: "held K n n1 \<Longrightarrow> held K n1 n2 \<Longrightarrow> held K n n2"
  by (auto simp: held_def kept_def)

lemma held_ok: "held K n n' \<Longrightarrow> nv_ok (nt_kv n) \<Longrightarrow> nv_ok (nt_kv n')"
  by (simp add: held_def kept_def)

lemma held_table: "held K n n' \<Longrightarrow> table n' = table n"
  by (auto simp: held_def table_ids)

lemma held_mono: "held K n n' \<Longrightarrow> (\<And>k. K k \<Longrightarrow> L k) \<Longrightarrow> held L n n'"
  by (auto simp: held_def kept_def)

lemma same_kept: "same_in UNIV s s' \<Longrightarrow> kept (\<lambda>k. K k \<or> net_key k) s s'"
  by (auto simp: same_in_def kept_def net_key_def ns_key_inject)

lemma held_emits: "aside_in UNIV n n' \<Longrightarrow> emits 0 n air n' \<Longrightarrow> held K n n'"
  using emits_alive by (auto simp: held_def aside_in_def same_kept)

lemma held_quiet: "aside_in UNIV n n' \<Longrightarrow> quiet n n' \<Longrightarrow> held K n n'"
  using held_emits [OF _ emits_quiet] .

lemma held_put:
  assumes "nv_ok (nt_kv n)" and "kept (\<lambda>k. L k \<and> \<not> net_key k) (nt_kv n) kv"
  shows "held L n (n\<lparr>nt_kv := kv\<rparr>)"
proof -
  have "wm_others (nt_kv n) kv" using assms(2) by (auto simp: wm_others_def kept_def net_key_def)
  then have "quiet n (n\<lparr>nt_kv := kv\<rparr>)" by (simp add: quiet_def node_ok_def wm_others_def)
  then show ?thesis using quiet_alive assms(2) by (auto simp: held_def kept_def peer_ids_def)
qed

subsection \<open>The network layer's methods\<close>

lemma held_send: "net_send enc dest data conf reps env n = (r, air, n') \<Longrightarrow> held K n n'"
  by (metis held_emits aside_send emits_net_send)

lemma held_recv: "net_recv enc r n = (m, air, n') \<Longrightarrow> held K n n'"
  by (metis held_emits aside_recv emits_recv)

lemma held_fhss_send: "fhss_send enc dest data conf now tx heard n = (r, air, n') \<Longrightarrow> held K n n'"
  by (metis held_emits aside_fhss_send emits_fhss_send)

lemma held_tick: "fhss_node_tick enc e n = (z, n') \<Longrightarrow> held K n n'"
proof -
  assume run: "fhss_node_tick enc e n = (z, n')"
  then have "aside_in UNIV n n'" by (auto simp: fhss_node_tick_def aside_rules split: prod.splits)
  moreover have "quiet n n'" using quiet_node_tick [of n enc e] run by simp
  ultimately show ?thesis by (rule held_quiet)
qed

lemma held_ticks: "held K n (node_ticks enc es n)"
proof (induction es arbitrary: n)
  case (Cons e es)
  then show ?case using held_trans [OF held_tick [of enc e n]] by (metis node_ticks.simps(2) prod.collapse)
qed simp

lemma held_backoff: "held K n (fhss_retry_backoff enc env n)"
proof -
  have "held K n (n\<lparr>nt_rng := x\<rparr>)" for x by (rule held_quiet) (auto intro: aside_small quiet_fields)
  then show ?thesis by (auto simp: fhss_retry_backoff_def rand_u32_def Let_def intro: held_trans [OF _ held_ticks])
qed

lemma held_modes: "held K n (fhss_suspend tuned b n)" "held K n (fhss_resume n)" "held K n (set_band tuned b n)" "held K n (enable_fhss role cfg now n)"
  by (rule held_quiet; auto simp: set_band_def intro: aside_small aside_enable quiet_rules aside_fields)+

lemma aside_join_answered: "join_answered C enc t eph addr gw resp n = (r, air, n') \<Longrightarrow> aside_in S n n'"
  by (auto simp: join_answered_def Let_def split: option.splits prod.splits bool.splits dest!: aside_alloc aside_tx_pair intro: aside_trans)

lemma aside_join_loop: "join_loop C enc addr deadline ts u n = (r, air, n') \<Longrightarrow> aside_in S n n'"
proof (induction ts arbitrary: u n r air n')
  case (Cons t ts)
  have tx: "aside_in S n n2" if "alloc_counter n = (c, n1)" "tx_pair enc e ok key h p n1 = (b, a, n2)" for c n1 e ok key h p b a n2
    using aside_trans [OF aside_alloc [OF that(1)] aside_tx_pair [OF that(2)]] .
  show ?case
    using Cons.prems
    by (auto split: if_splits option.splits prod.splits bool.splits pair_step.splits
        dest: aside_alloc dest!: Cons.IH aside_join_answered intro: aside_trans dest: tx)
qed simp

lemma held_join: "net_join C enc addr now timeout ts n = (r, air, n') \<Longrightarrow> held K n n'"
proof -
  assume run: "net_join C enc addr now timeout ts n = (r, air, n')"
  then have "aside_in UNIV n n'" by (auto simp: net_join_def aside_rules intro: aside_join_loop split: if_splits option.splits)
  then show ?thesis by (rule held_emits [OF _ emits_join [OF run]])
qed

subsection \<open>Sending\<close>

lemma held_hop: "hop_send enc dest data reps hs tries scans missed n = Some (r, air, n') \<Longrightarrow> held K n n'"
proof (induction hs arbitrary: tries scans missed n r air n')
  case (Cons h hs)
  obtain z n1 where t: "fhss_node_tick enc (he_tick h) n = (z, n1)" by fastforce
  obtain q a n2 where s: "fhss_send enc dest data True (he_now h) (he_tx h) (he_heard h) n1 = (q, a, n2)" by (metis prod_cases3)
  have h1: "held K n n1" using held_tick [OF t] .
  have h2: "held K n n2" using held_trans [OF h1 held_fhss_send [OF s]] .
  have h3: "held K n (fhss_retry_backoff enc (he_backoff h) n2)" using held_trans [OF h2 held_backoff] .
  have IH: "held K n m" if "hop_send enc dest data reps hs x y w n0 = Some (r', a', m)" "held K n n0" for x y w n0 r' a' m
    using held_trans [OF that(2) Cons.IH [OF that(1)]] .
  show ?case
    using Cons.prems t s h1 h2 IH [OF _ h1] IH [OF _ h2] IH [OF _ h3]
    by (auto simp: sent_before_def split: if_splits)
qed simp

lemma held_radio_send: "radio_send lib dest data reps e n = Some (r, air, n') \<Longrightarrow> held K n n'"
  by (auto simp: radio_send_def split: if_splits intro: held_send held_hop)

lemma held_resync: "resync_ticks enc es n = (b, n') \<Longrightarrow> held K n n'"
proof (induction es arbitrary: n)
  case (Cons e es)
  obtain z n1 where t: "fhss_node_tick enc e n = (z, n1)" by fastforce
  have h1: "held K n n1" using held_tick [OF t] .
  then show ?case using Cons.prems Cons.IH [of n1] t held_trans by (auto split: if_splits)
qed simp

subsection \<open>The radio as a transport of the shell\<close>

lemma held_flush: "sink_flush lib l r s = Some (ok, s') \<Longrightarrow> held K (rs_net s) (rs_net s')"
  by (auto simp: sink_flush_def lose_chunk_def Let_def split: option.splits list.splits prod.splits if_splits dest: held_radio_send)

lemma held_push: "sink_push_loop lib t s = Some (ok, s') \<Longrightarrow> held K (rs_net s) (rs_net s')"
proof (induction t s rule: sink_push_loop.induct)
  case (1 lib rest s)
  define k where "k = prev_boundary rest 0 (min (length rest) (RADIO_SHELL_CHUNK - length (rs_buf s)))"
  define s1 where "s1 = s\<lparr>rs_buf := rs_buf s @ take k rest\<rparr>"
  have net: "rs_net s1 = rs_net s" by (simp add: s1_def)
  note run = "1.prems" [unfolded sink_push_loop.simps [of lib rest s], folded k_def, unfolded Let_def, folded s1_def]
  consider "rest = []" | "rest \<noteq> []" "k = 0" | "rest \<noteq> []" "k \<noteq> 0" "length (rs_buf s1) = RADIO_SHELL_CHUNK"
    | "rest \<noteq> []" "k \<noteq> 0" "length (rs_buf s1) \<noteq> RADIO_SHELL_CHUNK" by blast
  then show ?case
  proof cases
    case 2
    then show ?thesis using run "1.IH"(1) [OF _ k_def] held_flush [of lib False 0 s] held_trans
      by (fastforce split: option.splits if_splits)
  next
    case 3
    then show ?thesis using run "1.IH"(2) [OF _ k_def _ s1_def] held_flush [of lib False 0 s1] held_trans net
      by (fastforce split: option.splits if_splits)
  next
    case 4
    then show ?thesis using run "1.IH"(3) [OF _ k_def _ s1_def] net by simp
  qed (use run in simp)
qed

interpretation radio: store_sink "radio_sink_ops lib" "\<lambda>k. L k \<and> \<not> net_key k" "\<lambda>s s'. held L (rs_net s) (rs_net s')" for lib L
  by unfold_locales
    (auto simp: radio_sink_ops_def split: if_splits intro: held_trans held_ok held_put held_push held_flush)

section \<open>Downlinks and uplinks\<close>

definition same_role :: "node \<Rightarrow> node \<Rightarrow> bool" where
  "same_role d d' \<longleftrightarrow> nd_provision d' = nd_provision d \<and> nd_addr d' = nd_addr d \<and> nd_band d' = nd_band d \<and> nd_counts d' = nd_counts d"

text \<open>The history of the commands run since the boot: no command follows itself, and the duplicate filter holds the last one.\<close>

definition ran_ok :: "node \<Rightarrow> bool" where
  "ran_ok d \<longleftrightarrow> distinct_adj (nd_ran d) \<and> bit (nd_last_cmd d) 24 = (nd_ran d \<noteq> []) \<and>
     (nd_ran d \<noteq> [] \<longrightarrow> (nd_last_epoch d, ucast (nd_last_cmd d AND 0xFFFF)) = last (nd_ran d))"

lemma ran_ok_fields [simp]:
  "ran_ok (d\<lparr>nd_net := n\<rparr>) = ran_ok d" "ran_ok (d\<lparr>nd_unacked := u\<rparr>) = ran_ok d" "ran_ok (d\<lparr>nd_provision := p\<rparr>) = ran_ok d"
  "ran_ok (d\<lparr>nd_counts := cs\<rparr>) = ran_ok d"
  by (simp_all add: ran_ok_def)

lemma ran_ok_seen: "ran_ok d \<Longrightarrow> seen_before epoch cmd d \<longleftrightarrow> nd_ran d \<noteq> [] \<and> last (nd_ran d) = (epoch, cmd)"
  by (auto simp: ran_ok_def seen_before_def)

definition stays :: "node \<Rightarrow> node \<Rightarrow> bool" where
  "stays d d' \<longleftrightarrow> same_role d d' \<and> (ran_ok d \<longrightarrow> ran_ok d')"

definition served :: "(u16 \<Rightarrow> bool) \<Rightarrow> node \<Rightarrow> node \<Rightarrow> bool" where
  "served L d d' \<longleftrightarrow> held L (nd_net d) (nd_net d') \<and> stays d d'"

text \<open>The other users of the store meanwhile keep to \<open>L\<close>, which has the settings that are no address.\<close>

definition windows_keep :: "(u16 \<Rightarrow> bool) \<Rightarrow> window_env list \<Rightarrow> bool" where
  "windows_keep L ws \<longleftrightarrow> (\<forall>k. settable BTN_SETTINGS k \<longrightarrow> L k) \<and> (\<forall>w\<in>set ws. passes_keep (\<lambda>k. L k \<and> \<not> net_key k) (we_shell w))"

lemma served_refl [simp]: "served L d d"
  by (simp add: served_def stays_def same_role_def)

lemma served_trans: "served L d d1 \<Longrightarrow> served L d1 d2 \<Longrightarrow> served L d d2"
  using held_trans by (auto simp: served_def stays_def same_role_def)

lemma served_ok: "served L d d' \<Longrightarrow> nv_ok (nd_kv d) \<Longrightarrow> nv_ok (nd_kv d')"
  using held_ok by (auto simp: served_def stays_def same_role_def)

lemma settable_shell: "settable settings k \<Longrightarrow> \<not> net_key k"
  by (auto simp: settable_def net_key_def ns_key_inject NS_SHELL_def NS_NET_def)

lemma btn_commands_safe: "tree_all (remote_safe K settings) BTN_COMMANDS"
  by (simp add: BTN_COMMANDS_def entry_cmd_console_only_def remote_safe_def)

lemma held_again: "answer_again lib s d = Some s' \<Longrightarrow> held K (rs_net s) (rs_net s')"
  using held_trans [OF radio.push_R radio.done_R] radio.done_R
  by (fastforce simp: answer_again_def Let_def split: if_splits option.splits)

text \<open>The duplicate filter's word.\<close>

lemma seen_after:
  fixes r :: u8 and c :: u16
  defines "w \<equiv> push_bit 24 1 OR push_bit 16 (ucast r) OR (ucast c :: u32)"
  shows "bit w 24" and "ucast (w AND 0xFFFF) = c"
proof -
  show "bit w 24" by (simp add: w_def bit_simps)
  have "w AND 0xFFFF = take_bit 16 w" by (simp add: take_bit_eq_mask mask_numeral)
  moreover have "bit (take_bit 16 w) n \<longleftrightarrow> bit c n" if "n < 16" for n
    using that unfolding w_def by (simp only: bit_take_bit_iff bit_or_iff bit_push_bit_iff bit_unsigned_iff) auto
  ultimately show "ucast (w AND 0xFFFF) = c" by (intro bit_word_eqI) (simp add: bit_unsigned_iff)
qed

lemma run_cmd_new:
  assumes "run_cmd lib e gw epoch cmd line d = Some (w, air, d')" and "\<not> seen_before epoch cmd d"
  shows "nd_ran d' = nd_ran d @ [(epoch, cmd)]" and "bit (nd_last_cmd d') 24" and "ucast (nd_last_cmd d' AND 0xFFFF) = cmd"
    and "nd_last_epoch d' = epoch"
  using assms seen_after [of _ cmd] by (auto simp: run_cmd_def Let_def)

lemma run_cmd_ran:
  assumes "run_cmd lib e gw epoch cmd line d = Some (w, air, d')" and "ran_ok d"
  shows "ran_ok d'"
proof (cases "seen_before epoch cmd d")
  case True
  then show ?thesis using assms by (auto simp: run_cmd_def Let_def)
next
  case False
  note R = run_cmd_new [OF assms(1) False]
  have "distinct_adj (nd_ran d @ [(epoch, cmd)])"
    using assms(2) False ran_ok_seen [OF assms(2), of epoch cmd] by (auto simp: distinct_adj_append_iff ran_ok_def)
  then show ?thesis using R by (simp add: ran_ok_def)
qed

lemma served_run:
  assumes "windows_keep L [e]" and "nv_ok (nd_kv d)" and "run_cmd lib e gw epoch cmd line d = Some (w, air, d')"
  shows "served L d d'"
proof (cases "seen_before epoch cmd d")
  case True
  then obtain s where "answer_again lib (sink_new (nd_net d) gw cmd (we_sends e)) d = Some s" "d' = d\<lparr>nd_net := rs_net s\<rparr>"
    using assms(3) by (auto simp: run_cmd_def Let_def)
  with held_again [of lib _ d s L] show ?thesis by (fastforce simp: served_def stays_def same_role_def sink_new_def)
next
  case False
  let ?s = "sink_new (nd_net d) gw cmd (we_sends e)"
  obtain oc s where s: "stream_line (radio_sink_ops lib) (Some (BTN_COMMANDS, BTN_SETTINGS)) line (we_shell e) ?s = Some (oc, s)"
      and d': "nd_net d' = rs_net s" "nd_provision d' = nd_provision d" "nd_addr d' = nd_addr d" "nd_band d' = nd_band d" "nd_counts d' = nd_counts d"
    using assms(3) False by (fastforce simp: run_cmd_def Let_def split: prod.splits)
  have kv: "nv_ok (sk_kv (radio_sink_ops lib) ?s)" using assms(2) by (simp add: radio_sink_ops_def sink_new_def)
  have "L k \<and> \<not> net_key k" if "settable BTN_SETTINGS k" for k using that assms(1) settable_shell by (simp add: windows_keep_def)
  from radio.remote_line [OF kv btn_commands_safe this _ s] assms(1) d' run_cmd_ran [OF assms(3)] show ?thesis by (simp add: windows_keep_def served_def stays_def same_role_def sink_new_def)
qed

lemma served_loop:
  "window_loop lib e gw deadline ts d = Some (w, air, d') \<Longrightarrow> windows_keep L [e] \<Longrightarrow> nv_ok (nd_kv d) \<Longrightarrow> served L d d'"
proof (induction ts arbitrary: d w air d')
  case (Cons t ts)
  show ?case
  proof (cases "deadline \<le> fst t \<or> snd t = None")
    case True
    then show ?thesis using Cons.prems Cons.IH by (auto split: if_splits)
  next
    case False
    then obtain r where r: "snd t = Some r" by auto
    obtain m a n where x: "net_recv (nl_enc lib) r (nd_net d) = (m, a, n)" by (metis prod_cases3)
    have s1: "served L d (d\<lparr>nd_net := n\<rparr>)" using held_recv [OF x] by (simp add: served_def stays_def same_role_def)
    have ok1: "nv_ok (nd_kv (d\<lparr>nd_net := n\<rparr>))" using served_ok [OF s1 Cons.prems(3)] .
    have IH: "served L d d2" if "window_loop lib e gw deadline ts (d\<lparr>nd_net := n\<rparr>) = Some (w', a', d2)" for w' a' d2
      using served_trans [OF s1 Cons.IH [OF that Cons.prems(2) ok1]] .
    have R: "served L d d2" if "run_cmd lib e gw ep c l (d\<lparr>nd_net := n\<rparr>) = Some (w', a', d2)" for ep c l w' a' d2
      using served_trans [OF s1 served_run [OF Cons.prems(2) ok1 that]] .
    show ?thesis using Cons.prems(1) False r x s1 IH R
      by (auto simp: Let_def split: option.splits if_splits sum.splits)
  qed
qed simp

lemma served_pending:
  "serve_pending lib gw ws d = Some (reset, air, d') \<Longrightarrow> windows_keep L ws \<Longrightarrow> nv_ok (nd_kv d) \<Longrightarrow> served L d d'"
proof (induction ws arbitrary: d reset air d')
  case (Cons e ws)
  have keep: "windows_keep L [e]" "windows_keep L ws" using Cons.prems(2) by (simp_all add: windows_keep_def)
  have S: "served L d d1" if "downlink_window lib e gw d = Some (w, a, d1)" for w a d1
    using served_loop [OF _ keep(1) Cons.prems(3)] that by (simp add: downlink_window_def)
  have "served L d d2" if "downlink_window lib e gw d = Some (w, a, d1)" "serve_pending lib gw ws d1 = Some (r, a', d2)" for w a d1 r a' d2
    using served_trans [OF S [OF that(1)] Cons.IH [OF that(2) keep(2) served_ok [OF S [OF that(1)] Cons.prems(3)]]] .
  with S Cons.prems(1) show ?case by (auto split: if_splits option.splits window_end.splits)
qed (auto split: if_splits)

lemma served_uplink:
  assumes "node_uplink lib m reps e d = Some (delivered, reset, air, d')" and "windows_keep L (ue_windows e)" and "nv_ok (nd_kv d)"
  shows "served L d d'"
proof -
  have "served L d d2" if "radio_send lib gw data reps (ue_send e) (nd_net d) = Some (r, a, n)"
    "serve_pending lib gw (ue_windows e) (note_sent r (d\<lparr>nd_net := n\<rparr>)) = Some (q, a', d2)" for gw data r a n q a' d2
  proof -
    have s1: "served L d (note_sent r (d\<lparr>nd_net := n\<rparr>))" using held_radio_send [OF that(1)] by (simp add: served_def stays_def same_role_def note_sent_def)
    show ?thesis using served_trans [OF s1 served_pending [OF that(2) assms(2) served_ok [OF s1 assms(3)]]] .
  qed
  then show ?thesis using assms(1) by (auto simp: node_uplink_def split: option.splits)
qed

section \<open>Pairing\<close>

text \<open>A step of the network layer that may change its peers, and of the store its own records and those of \<open>K\<close>.\<close>

definition moved :: "(u16 \<Rightarrow> bool) \<Rightarrow> net \<Rightarrow> net \<Rightarrow> bool" where
  "moved K n n' \<longleftrightarrow> nt_addr n' = nt_addr n \<and> nt_default_lane_enabled n' = nt_default_lane_enabled n \<and>
     (nv_ok (nt_kv n) \<longrightarrow> kept (\<lambda>k. K k \<or> net_key k) (nt_kv n) (nt_kv n')) \<and> (alive n \<longrightarrow> alive n')"

lemma held_moved: "held K n n' \<Longrightarrow> moved K n n'"
  by (simp add: held_def moved_def)

lemma moved_trans: "moved K n n1 \<Longrightarrow> moved K n1 n2 \<Longrightarrow> moved K n n2"
  by (auto simp: moved_def kept_def)

lemma moved_ok: "moved K n n' \<Longrightarrow> alive n \<Longrightarrow> alive n'"
  by (simp add: moved_def)

lemma moved_remove: "moved K n (snd (remove_peer a n))"
  using quiet_alive [OF quiet_remove [of n a]]
  by (auto simp: moved_def remove_peer_def set_peer_def intro: kept_refl split: option.splits)

definition paired_table :: "provisioned option \<Rightarrow> u32 \<Rightarrow> (bytes \<times> bool) option" where
  "paired_table prov = (case prov of None \<Rightarrow> Map.empty | Some p \<Rightarrow> [pn_gw_addr p \<mapsto> (pn_key p, False)])"

text \<open>Room for one more beside one peer at most.\<close>

lemma add_gateway:
  assumes "alive n" and "dom (table n) \<subseteq> {b}"
  shows "\<not> peer_addr_valid a (nt_addr n) \<Longrightarrow> add_peer enc a key n = (False, n)"
    and "peer_addr_valid a (nt_addr n) \<Longrightarrow> add_peer enc a key n = (True, snd (add_peer enc a key n))"
    and "peer_addr_valid a (nt_addr n) \<Longrightarrow>
      table (snd (add_peer enc a key n)) = (table n)(a \<mapsto> (key, case table n a of None \<Rightarrow> False | Some k \<Rightarrow> snd k))"
    and "moved K n (snd (add_peer enc a key n))"
proof -
  have D: "insert a (dom (table n)) \<subseteq> {a, b}" "finite {a, b}" "card {a, b} \<le> MAX_PEERS"
    using assms(2) by (auto simp: MAX_PEERS_def card_insert_if)
  show bad: "add_peer enc a key n = (False, n)" if "\<not> peer_addr_valid a (nt_addr n)" for enc key using that by (simp add: add_peer_def)
  note A = add_peer_table [OF alive_ok(1) [OF assms(1)] _ D]
  show "add_peer enc a key n = (True, snd (add_peer enc a key n))" if "peer_addr_valid a (nt_addr n)" using A(1) [OF that] by (metis prod.collapse)
  show "table (snd (add_peer enc a key n)) = (table n)(a \<mapsto> (key, case table n a of None \<Rightarrow> False | Some k \<Rightarrow> snd k))"
    if "peer_addr_valid a (nt_addr n)" using A(2) [OF that] .
  show "moved K n (snd (add_peer enc a key n))"
  proof (cases "peer_addr_valid a (nt_addr n)")
    case True
    from A(3) [OF True, of enc key UNIV] same_kept quiet_alive [OF quiet_add_peer] show ?thesis by (auto simp: moved_def)
  next
    case False
    then show ?thesis using bad by (auto simp: moved_def intro: kept_refl)
  qed
qed

definition provision_key :: "u16 \<Rightarrow> bool" where
  "provision_key k \<longleftrightarrow> k = ns_key NS_APP KEY_PROVISION"

lemma provision_not_net: "provision_key k \<Longrightarrow> \<not> net_key k"
  by (auto simp: provision_key_def net_key_def ns_key_inject NS_APP_def NS_NET_def)

lemma commit_loop_served: "commit_loop lib env gw k a d = (r, air, d') \<Longrightarrow> served L d d'"
proof (induction k arbitrary: a d r air d')
  case (Suc k)
  obtain acked air1 d1 where u: "commit_uplink lib (env a) gw d = (acked, air1, d1)" by (metis prod_cases3)
  have s1: "served L d d1" using u held_send
    by (fastforce simp: commit_uplink_def served_def stays_def same_role_def split: option.splits prod.splits)
  have "served L d d2" if "commit_loop lib env gw k (a + 1) d1 = (r', a', d2)" for r' a' d2
    using served_trans [OF s1 Suc.IH [OF that]] .
  with s1 Suc.prems u show ?case by (auto split: commit_step_t.splits prod.splits)
qed simp

definition stored_as :: "bytes \<Rightarrow> bytes option" where
  "stored_as b = (if b = [] then None else Some b)"

lemma store_provision_step:
  assumes "alive (nd_net d)" and "store_provision lib rec d = (ok, d')"
  shows "held provision_key (nd_net d) (nd_net d')" and "stays d d'"
    and "app_abs (nd_kv d') KEY_PROVISION = (if ok then stored_as (nl_prov_ser lib rec) else app_abs (nd_kv d) KEY_PROVISION)"
    and "ok \<longrightarrow> length (nl_prov_ser lib rec) \<le> MAX_VALUE"
proof -
  show "ok \<longrightarrow> length (nl_prov_ser lib rec) \<le> MAX_VALUE" using assms(2) by (auto simp: store_provision_def Let_def split: if_splits)
  have nv: "nv_ok (nd_kv d)" using alive_ok(2) [OF assms(1)] .
  have "held provision_key (nd_net d) (nd_net d') \<and> stays d d' \<and>
      app_abs (nd_kv d') KEY_PROVISION = (if ok then stored_as (nl_prov_ser lib rec) else app_abs (nd_kv d) KEY_PROVISION)"
  proof (cases "MAX_VALUE < length (nl_prov_ser lib rec)")
    case True
    then show ?thesis using assms(2) by (simp add: store_provision_def stays_def same_role_def)
  next
    case False
    obtain r kv where w: "scoped_set_bytes NS_APP KEY_PROVISION (nl_prov_ser lib rec) (nd_kv d) = (r, kv)" by fastforce
    have d': "ok = (r = Inr ())" "d' = d\<lparr>nd_net := (nd_net d)\<lparr>nt_kv := kv\<rparr>\<rparr>"
      using assms(2) False w by (simp_all add: store_provision_def)
    note W = scoped_set_post [OF nv w]
    have "kept (\<lambda>k. provision_key k \<and> \<not> net_key k) (nd_kv d) kv"
      using W provision_not_net by (auto simp: kept_def provision_key_def ns_key_inject)
    from held_put [OF nv this] d' W(2) [of NS_APP KEY_PROVISION] show ?thesis by (simp add: stored_as_def stays_def same_role_def)
  qed
  then show "held provision_key (nd_net d) (nd_net d')" "stays d d'"
    "app_abs (nd_kv d') KEY_PROVISION = (if ok then stored_as (nl_prov_ser lib rec) else app_abs (nd_kv d) KEY_PROVISION)" by blast+
qed

text \<open>What an attempt to pair leaves: the pairing that it made, or the one there was.\<close>

definition pair_left :: "node_lib \<Rightarrow> pair_outcome \<Rightarrow> node \<Rightarrow> node \<Rightarrow> bool" where
  "pair_left lib out d d' \<longleftrightarrow>
     moved (\<lambda>k. is_paired out \<and> provision_key k) (nd_net d) (nd_net d') \<and>
     stays d d' \<and> table (nd_net d') = (case out of Paired rec _ _ \<Rightarrow> paired_table (Some rec) | _ \<Rightarrow> table (nd_net d)) \<and>
     (case out of Paired rec _ persisted \<Rightarrow>
        app_abs (nd_kv d') KEY_PROVISION = (if persisted then stored_as (nl_prov_ser lib rec) else app_abs (nd_kv d) KEY_PROVISION) \<and>
        (persisted \<longrightarrow> length (nl_prov_ser lib rec) \<le> MAX_VALUE)
      | _ \<Rightarrow> True)"

definition nd_inv :: "node \<Rightarrow> bool" where
  "nd_inv d \<longleftrightarrow> alive (nd_net d) \<and> nt_addr (nd_net d) = nd_addr d \<and> \<not> nt_default_lane_enabled (nd_net d) \<and>
     table (nd_net d) = paired_table (nd_provision d) \<and> length (nd_counts d) = 4 \<and> ran_ok d"

lemma paired_dom: "dom (paired_table prov) \<subseteq> {case prov of Some p \<Rightarrow> pn_gw_addr p | None \<Rightarrow> x}"
  by (auto simp: paired_table_def split: option.splits if_splits)

text \<open>The gateway's key in the table beside the old pairing, and the table with either taken out again.\<close>

lemma paired_add: "(paired_table prov)(a \<mapsto> (key, case paired_table prov a of None \<Rightarrow> False | Some k \<Rightarrow> snd k)) = (paired_table prov)(a \<mapsto> (key, False))"
  by (auto simp: paired_table_def fun_eq_iff split: option.splits)

lemma pair_rollback:
  fixes enc
  assumes "alive n" and "table n = (paired_table prov)(gw \<mapsto> (key, False))" and "peer_addr_valid gw (nt_addr n)"
  defines "n' \<equiv> snd (case prov of
      Some c \<Rightarrow> if pn_gw_addr c = gw then add_peer enc (pn_gw_addr c) (pn_key c) n else remove_peer gw n | None \<Rightarrow> remove_peer gw n)"
  shows "table n' = paired_table prov" and "moved K n n'"
proof -
  have rm: "table (snd (remove_peer gw n)) = (paired_table prov)(gw := None)" using table_remove [OF alive_ok(1) [OF assms(1)]] assms(2) by simp
  have dom: "dom (table n) \<subseteq> {gw}" if "prov = Some c" "pn_gw_addr c = gw" for c using that assms(2) by (auto simp: paired_table_def)
  have "table n' = paired_table prov \<and> moved K n n'"
  proof (cases "\<exists>c. prov = Some c \<and> pn_gw_addr c = gw")
    case True
    then obtain c where c: "prov = Some c" "pn_gw_addr c = gw" by blast
    note A = add_gateway [OF assms(1) dom [OF c], where a = gw and enc = enc and key = "pn_key c"]
    from A(3) [OF assms(3)] A(4) c assms(2) show ?thesis by (simp add: n'_def paired_table_def)
  next
    case False
    then have "n' = snd (remove_peer gw n)" by (auto simp: n'_def split: option.splits)
    moreover have "(paired_table prov)(gw := None) = paired_table prov" using False by (auto simp: paired_table_def fun_eq_iff split: option.splits)
    ultimately show ?thesis using rm moved_remove by simp
  qed
  then show "table n' = paired_table prov" "moved K n n'" by blast+
qed

lemma pair_commit:
  assumes "alive n" and "table n = (paired_table prov)(gw \<mapsto> (key, False))"
  defines "n' \<equiv> (case prov of Some c \<Rightarrow> if pn_gw_addr c \<noteq> gw then snd (remove_peer (pn_gw_addr c) n) else n | None \<Rightarrow> n)"
  shows "table n' = [gw \<mapsto> (key, False)]" and "moved K n n'"
  using table_remove [OF alive_ok(1) [OF assms(1)]] assms(2) moved_remove held_moved [OF held_refl]
  by (auto simp: n'_def paired_table_def fun_eq_iff split: option.splits)

definition joined_record :: "node \<Rightarrow> paired_peer \<Rightarrow> provisioned" where
  "joined_record d peer = \<lparr>pn_gw_addr = pp_addr peer, pn_key = pp_key peer, pn_band = (if nd_band d = Us915 then 1 else 0), pn_channel = nd_channel d\<rparr>"

text \<open>The attempt after the join, by how the commit round ended.\<close>

lemma pair_on_air_run:
  assumes "net_join (nl_crypto lib) (nl_enc lib) (nd_addr d) (pe_now e) window (pe_joins e) (nd_net d) = (Some peer, air1, n)"
    and "joined_record d peer = rec" and "add_peer (nl_enc lib) (pn_gw_addr rec) (pn_key rec) n = (True, n1)"
    and "commit_loop lib (pe_commits e) (pn_gw_addr rec) (unat COMMIT_ATTEMPTS) 1 (d\<lparr>nd_net := n1\<rparr>) = (r, air2, d1)"
  shows "\<not> r \<Longrightarrow> pair_on_air lib e window d = (Unconfirmed, air1 @ air2, d1\<lparr>nd_net := snd (case nd_provision d of
      Some c \<Rightarrow> if pn_gw_addr c = pn_gw_addr rec then add_peer (nl_enc lib) (pn_gw_addr c) (pn_key c) (nd_net d1) else remove_peer (pn_gw_addr rec) (nd_net d1)
    | None \<Rightarrow> remove_peer (pn_gw_addr rec) (nd_net d1))\<rparr>)"
    and "r \<Longrightarrow> store_provision lib rec (d1\<lparr>nd_net := (case nd_provision d of
      Some c \<Rightarrow> if pn_gw_addr c \<noteq> pn_gw_addr rec then snd (remove_peer (pn_gw_addr c) (nd_net d1)) else nd_net d1 | None \<Rightarrow> nd_net d1), nd_unacked := 0\<rparr>) = (ok, d3) \<Longrightarrow>
      pair_on_air lib e window d = (Paired rec (pp_sas peer) ok, air1 @ air2, d3)"
  using assms(2-4) by (simp_all add: pair_on_air_def assms(1) Let_def joined_record_def [symmetric])

lemma pair_on_air_left:
  assumes inv: "nd_inv d" and run: "pair_on_air lib e window d = (out, air, d')"
  shows "pair_left lib out d d'"
proof -
  have al: "alive (nd_net d)" and tb: "table (nd_net d) = paired_table (nd_provision d)" using inv by (simp_all add: nd_inv_def)
  obtain j air1 n where j: "net_join (nl_crypto lib) (nl_enc lib) (nd_addr d) (pe_now e) window (pe_joins e) (nd_net d) = (j, air1, n)"
    by (metis prod_cases3)
  have h: "held K (nd_net d) n" for K using held_join [OF j] .
  have aln: "alive n" and tn: "table n = paired_table (nd_provision d)" using moved_ok [OF held_moved [OF h] al] held_table [OF h] tb by simp_all
  show ?thesis
  proof (cases j)
    case None
    then show ?thesis using run j held_moved [OF h] held_table [OF h] by (auto simp: pair_on_air_def pair_left_def stays_def same_role_def)
  next
    case (Some peer)
    define rec where "rec = joined_record d peer"
    define gw key where "gw = pn_gw_addr rec" and "key = pn_key rec"
    obtain b where dom: "dom (table n) \<subseteq> {b}" using paired_dom tn by metis
    note A = add_gateway [OF aln dom, where a = gw and enc = "nl_enc lib" and key = key]
    show ?thesis
    proof (cases "peer_addr_valid gw (nt_addr n)")
      case False
      then show ?thesis using run j Some A(1) held_moved [OF h] held_table [OF h]
        by (auto simp: pair_on_air_def pair_left_def stays_def same_role_def Let_def rec_def gw_def key_def joined_record_def)
    next
      case valid: True
      define n1 where "n1 = snd (add_peer (nl_enc lib) gw key n)"
      have m1: "moved K (nd_net d) n1" for K using moved_trans [OF held_moved [OF h] A(4)] by (simp add: n1_def)
      have t1: "table n1 = (paired_table (nd_provision d))(gw \<mapsto> (key, False))" using A(3) [OF valid] paired_add tn by (simp add: n1_def)
      obtain r air2 d1 where c: "commit_loop lib (pe_commits e) gw (unat COMMIT_ATTEMPTS) 1 (d\<lparr>nd_net := n1\<rparr>) = (r, air2, d1)" by (metis prod_cases3)
      have c1: "held K n1 (nd_net d1)" "nd_provision d1 = nd_provision d" "nd_addr d1 = nd_addr d" "nd_band d1 = nd_band d" "nd_counts d1 = nd_counts d" "ran_ok d \<longrightarrow> ran_ok d1" for K
        using commit_loop_served [OF c] by (simp_all add: served_def stays_def same_role_def)
      have m2: "moved K (nd_net d) (nd_net d1)" for K using moved_trans [OF m1 held_moved [OF c1(1)]] .
      have al1: "alive (nd_net d1)" using moved_ok [OF m2 al] .
      have t2: "table (nd_net d1) = (paired_table (nd_provision d))(gw \<mapsto> (key, False))" using held_table [OF c1(1)] t1 by simp
      have v1: "peer_addr_valid gw (nt_addr (nd_net d1))" using valid m2 [of "\<lambda>_. False"] h [of "\<lambda>_. False"] by (simp add: moved_def held_def)
      have start: "add_peer (nl_enc lib) (pn_gw_addr rec) (pn_key rec) n = (True, n1)" using A(2) [OF valid] by (simp add: n1_def gw_def key_def)
      note P = pair_on_air_run [OF j [unfolded Some] rec_def [symmetric] start c [unfolded gw_def]]
      show ?thesis
      proof (cases r)
        case False
        note B = pair_rollback [OF al1 t2 v1, where enc = "nl_enc lib"]
        show ?thesis using P(1) [OF False, folded gw_def] run B(1) moved_trans [OF m2 B(2)] c1 tb by (auto simp: pair_left_def stays_def same_role_def is_paired_def)
      next
        case True
        define d2 where "d2 = d1\<lparr>nd_net := (case nd_provision d of
            Some c \<Rightarrow> if pn_gw_addr c \<noteq> gw then snd (remove_peer (pn_gw_addr c) (nd_net d1)) else nd_net d1 | None \<Rightarrow> nd_net d1), nd_unacked := 0\<rparr>"
        note B = pair_commit [OF al1 t2]
        have m3: "moved K (nd_net d) (nd_net d2)" for K using moved_trans [OF m2 B(2)] by (simp add: d2_def)
        obtain ok d3 where st: "store_provision lib rec d2 = (ok, d3)" by fastforce
        note S = store_provision_step [OF moved_ok [OF m3 al] st]
        have m4: "moved provision_key (nd_net d) (nd_net d3)" using moved_trans [OF m3 held_moved [OF S(1)]] .
        have "app_abs (nd_kv d2) KEY_PROVISION = app_abs (nd_kv d) KEY_PROVISION"
          using m3 [of "\<lambda>_. False"] alive_ok(2) [OF al] provision_not_net by (auto simp: moved_def kept_def provision_key_def)
        then show ?thesis
          using P(2) [OF True st [unfolded d2_def gw_def]] run S(2-4) m4 B(1) held_table [OF S(1)] c1 by (auto simp: pair_left_def stays_def same_role_def is_paired_def d2_def gw_def key_def paired_table_def)
      qed
    qed
  qed
qed

lemma held_app: "held (\<lambda>_. False) n n' \<Longrightarrow> nv_ok (nt_kv n) \<Longrightarrow> app_abs (nt_kv n') l = app_abs (nt_kv n) l"
  by (auto simp: held_def kept_def net_key_def ns_key_inject NS_APP_def NS_NET_def)

lemma pair_left_around:
  assumes "\<And>K. held K (nd_net d) (nd_net d0)" and "stays d d0" and "pair_left lib out d0 d1"
    and "\<And>K. held K (nd_net d1) (nd_net d2)" and "stays d1 d2" and "alive (nd_net d)"
  shows "pair_left lib out d d2"
proof -
  let ?K = "\<lambda>k. is_paired out \<and> provision_key k"
  have m: "moved ?K (nd_net d) (nd_net d1)" using moved_trans [OF held_moved [OF assms(1)]] assms(3) by (simp add: pair_left_def)
  have a1: "nv_ok (nd_kv d1)" "nv_ok (nd_kv d)" using alive_ok(2) moved_ok [OF m] assms(6) by blast+
  show ?thesis
    using moved_trans [OF m held_moved [OF assms(4)]] assms(2,3,5) held_table [OF assms(1)] held_table [OF assms(4)]
      held_app [OF assms(1) a1(2)] held_app [OF assms(4) a1(1)]
    by (auto simp: pair_left_def stays_def same_role_def split: pair_outcome.splits)
qed

lemma node_pair_left:
  assumes "nd_inv d" and "node_pair lib e window d = (out, air, d')"
  shows "pair_left lib out d d'"
proof -
  have al: "alive (nd_net d)" using assms(1) by (simp add: nd_inv_def)
  define d0 where "d0 = (if nd_band d = Us915 then d\<lparr>nd_net := set_band (pe_band_tuned e) Us915 (fhss_suspend (pe_tuned e) Us915 (nd_net d))\<rparr> else d)"
  obtain o' a' d1 where p: "pair_on_air lib e window d0 = (o', a', d1)" by (metis prod_cases3)
  have h: "held K (nd_net d) (nd_net d0)" for K using held_trans [OF held_modes(1) held_modes(3)] by (simp add: d0_def)
  have r: "stays d d0" by (simp add: d0_def stays_def same_role_def)
  have "nd_inv d0" using assms(1) h [of "\<lambda>_. False"] held_table [OF h] r by (simp add: nd_inv_def held_def stays_def same_role_def)
  note L = pair_left_around [OF h r pair_on_air_left [OF this p] _ _ al]
  have D: "out = o'" "nd_net d' = nd_net d1 \<or> nd_net d' = fhss_resume (nd_net d1) \<or> nd_net d' \<in> (\<lambda>gw. start_hopping gw (pe_lse e) (nd_net d1)) ` UNIV"
    "stays d1 d'"
    using assms(2) p by (auto simp: node_pair_def Let_def d0_def [symmetric] stays_def same_role_def split: pair_outcome.splits)
  have "held K (nd_net d1) (nd_net d')" for K using D(2) held_modes(2,4) by (auto simp: start_hopping_def)
  from L [OF this D(3)] D(1) show ?thesis by simp
qed

section \<open>The invariant\<close>

lemma inv_held: "nd_inv d \<Longrightarrow> held K (nd_net d) (nd_net d') \<Longrightarrow> stays d d' \<Longrightarrow> nd_inv d'"
  using held_table [of K "nd_net d" "nd_net d'"] by (simp add: nd_inv_def held_def stays_def same_role_def)

lemma inv_served: "nd_inv d \<Longrightarrow> served K d d' \<Longrightarrow> nd_inv d'"
  using inv_held by (auto simp: served_def)

lemma inv_pair: "nd_inv d \<Longrightarrow> pair_left lib out d d' \<Longrightarrow> nd_inv (take_outcome out d')"
  by (auto simp: nd_inv_def pair_left_def take_outcome_def moved_def stays_def same_role_def split: pair_outcome.splits)

lemma inv_fields [simp]:
  "nd_inv (d\<lparr>nd_misses := m\<rparr>) = nd_inv d" "nd_inv (d\<lparr>nd_pressed_at := t\<rparr>) = nd_inv d" "nd_inv (d\<lparr>nd_cue_until := t\<rparr>) = nd_inv d"
  "nd_inv (d\<lparr>nd_last_temp_sent := x\<rparr>) = nd_inv d" "nd_inv (d\<lparr>nd_last_temp_tx := u\<rparr>) = nd_inv d" "nd_inv (d\<lparr>nd_next_temp := u\<rparr>) = nd_inv d"
  "nd_inv (d\<lparr>nd_next_heartbeat := u\<rparr>) = nd_inv d" "nd_inv (d\<lparr>nd_accel_quiet := t\<rparr>) = nd_inv d" "nd_inv (d\<lparr>nd_accel_backoff := u\<rparr>) = nd_inv d"
  "nd_inv (d\<lparr>nd_accel_empty_highs := m\<rparr>) = nd_inv d" "nd_inv (d\<lparr>nd_accel_hold := t\<rparr>) = nd_inv d" "nd_inv (d\<lparr>nd_accel_pending := f\<rparr>) = nd_inv d"
  "nd_inv (d\<lparr>nd_resync_after := u\<rparr>) = nd_inv d" "nd_inv (count_event k d) = nd_inv d" "nd_inv (press_clock k now d) = nd_inv d"
  "nd_inv (end_backoff now d) = nd_inv d" "nd_inv (note_misses b d) = nd_inv d" "nd_inv (tick_cue te d) = nd_inv d" "nd_inv (pace_tilt ti d) = nd_inv d"
  by (auto simp: nd_inv_def ran_ok_def count_event_def press_clock_def end_backoff_def note_misses_def tick_cue_def pace_tilt_def Let_def
      split: button_kind.splits option.splits)

text \<open>The parts of a turn, one after another until one resets the device.\<close>

definition left :: "(node \<Rightarrow> bool) \<Rightarrow> ran \<Rightarrow> bool" where
  "left P m \<longleftrightarrow> (case m of None \<Rightarrow> True | Some (reset, air, d) \<Rightarrow> P d)"

lemma left_simps [simp]: "left P (Some (reset, air, d)) = P d" "left P None"
  by (simp_all add: left_def)

lemma left_and_then: "left P m \<Longrightarrow> (\<And>d. P d \<Longrightarrow> left P (f d)) \<Longrightarrow> left P (and_then m f)"
  by (fastforce simp: left_def and_then_def split: option.splits prod.splits)

abbreviation up_keeps :: "up_env \<Rightarrow> bool" where
  "up_keeps e \<equiv> windows_keep (\<lambda>_. True) (ue_windows e)"

lemma uplink_inv: "nd_inv d \<Longrightarrow> up_keeps e \<Longrightarrow> node_uplink lib m reps e d = Some (delivered, reset, air, d') \<Longrightarrow> nd_inv d'"
  by (rule inv_served [OF _ served_uplink]) (auto simp: nd_inv_def alive_ok(2))

lemma send_noted_inv: "nd_inv d \<Longrightarrow> up_keeps e \<Longrightarrow> left nd_inv (send_noted lib m reps e d)"
  using uplink_inv [of d e lib m reps] by (cases "node_uplink lib m reps e d") (auto simp: send_noted_def left_def)

lemma send_temp_inv: "nd_inv d \<Longrightarrow> up_keeps (tk_temp_up e) \<Longrightarrow> left nd_inv (send_temp lib e t d)"
  using uplink_inv [of d "tk_temp_up e" lib "NmTemperature t" 3]
  by (cases "node_uplink lib (NmTemperature t) 3 (tk_temp_up e) d") (auto simp: send_temp_def left_def)

lemma pair_attempt_inv: "nd_inv d \<Longrightarrow> pair_attempt lib e evs d = (out, air, d') \<Longrightarrow> nd_inv d'"
proof -
  assume inv: "nd_inv d" and run: "pair_attempt lib e evs d = (out, air, d')"
  obtain d1 where p: "node_pair lib e NODE_PAIRING_WINDOW d = (out, air, d1)" and d': "d' = take_outcome out (foldl (\<lambda>d k. count_event k d) d1 evs)"
    using run by (auto simp: pair_attempt_def split: prod.splits)
  have "nd_inv (take_outcome out d1)" using inv_pair [OF inv node_pair_left [OF inv p]] .
  moreover have "nd_inv (take_outcome out (foldl (\<lambda>d k. count_event k d) d0 evs)) = nd_inv (take_outcome out d0)" for d0
  proof (induction evs arbitrary: d0)
    case (Cons k evs)
    have "nd_inv (take_outcome out (count_event k d0)) = nd_inv (count_event k (take_outcome out d0))"
      by (simp add: take_outcome_def count_event_def nd_inv_def split: pair_outcome.splits)
    with Cons show ?case by simp
  qed simp
  ultimately show ?thesis using d' by simp
qed

lemma unpaired_press_inv: "nd_inv d \<Longrightarrow> left nd_inv (unpaired_press lib k e d)"
  using pair_attempt_inv [of "d\<lparr>nd_cue_until := Some (bt_now e + UNPAIRED_CUE), nd_pressed_at := None\<rparr>" lib "bt_pair e" "bt_events e"]
  by (cases "pair_attempt lib (bt_pair e) (bt_events e) (d\<lparr>nd_cue_until := Some (bt_now e + UNPAIRED_CUE), nd_pressed_at := None\<rparr>)")
    (simp add: unpaired_press_def Let_def)

lemma on_button_inv: "nd_inv d \<Longrightarrow> up_keeps (bt_up e) \<Longrightarrow> left nd_inv (on_button lib k e d)"
  by (auto simp: on_button_def Let_def intro!: unpaired_press_inv send_noted_inv)

lemma tick_resync_inv: "nd_inv d \<Longrightarrow> nd_inv (tick_resync lib e d)"
proof -
  assume inv: "nd_inv d"
  have "nd_inv (d\<lparr>nd_net := n\<rparr>)" if "resync_ticks enc es (nd_net d) = (b, n)" for enc es b n
    using inv_held [OF inv held_resync] that by (simp add: stays_def same_role_def)
  with inv show ?thesis by (auto simp: tick_resync_def fhss_resync_def split: option.splits prod.splits)
qed

lemma tick_repair_inv: "nd_inv d \<Longrightarrow> left nd_inv (tick_repair lib e d)"
  using pair_attempt_inv [of "d\<lparr>nd_pressed_at := None\<rparr>" lib "tk_pair e" "tk_events e"]
  by (cases "pair_attempt lib (tk_pair e) (tk_events e) (d\<lparr>nd_pressed_at := None\<rparr>)") (simp add: tick_repair_def split: option.split)

lemma tick_temp_inv: "nd_inv d \<Longrightarrow> up_keeps (tk_temp_up e) \<Longrightarrow> left nd_inv (tick_temp lib e d)"
  by (auto simp: tick_temp_def Let_def intro!: left_and_then send_temp_inv split: option.splits)

lemma tick_heartbeat_inv: "nd_inv d \<Longrightarrow> up_keeps (tk_info_up e) \<Longrightarrow> left nd_inv (tick_heartbeat lib e d)"
  by (auto simp: tick_heartbeat_def Let_def intro!: send_noted_inv)

lemma tick_accel_inv: "nd_inv d \<Longrightarrow> up_keeps (tk_accel_up e) \<Longrightarrow> left nd_inv (tick_accel lib e d)"
  by (auto simp: tick_accel_def intro!: left_and_then send_noted_inv split: option.splits)

lemma on_timer_inv:
  assumes "nd_inv d" and "up_keeps (tk_temp_up e)" and "up_keeps (tk_info_up e)" and "up_keeps (tk_accel_up e)"
  shows "left nd_inv (on_timer lib e d)"
  unfolding on_timer_def using assms
  by (intro left_and_then tick_repair_inv tick_resync_inv tick_temp_inv tick_heartbeat_inv tick_accel_inv) simp_all

lemma on_tilt_inv: "nd_inv d \<Longrightarrow> up_keeps (tl_up e) \<Longrightarrow> left nd_inv (on_tilt lib e d)"
  by (auto simp: on_tilt_def report_tilt_def intro!: left_and_then send_noted_inv split: tilt.splits option.splits)

lemma provision_inv:
  assumes "nd_inv d" and "node_provision_op lib req p d = (out, reset, d')"
  shows "nd_inv d'"
proof -
  have nv: "nv_ok (nd_kv d)" and al: "alive (nd_net d)" using assms(1) alive_ok(2) by (auto simp: nd_inv_def)
  have put: "nd_inv (d\<lparr>nd_net := (nd_net d)\<lparr>nt_kv := kv\<rparr>\<rparr>)" if "scoped_set_bytes NS_SHELL ADDR_KEY b (nd_kv d) = (r, kv)" for b r kv
  proof -
    have "kept (\<lambda>k. True \<and> \<not> net_key k) (nd_kv d) kv"
      using scoped_set_post [OF nv that] by (auto simp: kept_def net_key_def ns_key_inject NS_SHELL_def NS_NET_def)
    from inv_held [OF assms(1), of _ "d\<lparr>nd_net := (nd_net d)\<lparr>nt_kv := kv\<rparr>\<rparr>"] held_put [OF nv this] show ?thesis by (simp add: stays_def same_role_def)
  qed
  have st: "nd_inv d2" if "nd_inv d1" "store_provision lib rec d1 = (ok, d2)" for rec d1 ok d2
    using inv_held [OF that(1) store_provision_step(1,2) [OF _ that(2)]] that(1) by (simp add: nd_inv_def)
  show ?thesis
    using assms(2) put st [OF put] st [of d] assms(1)
    by (auto simp: node_provision_op_def Let_def split: if_splits option.splits prod.splits bool.splits)
qed

lemma on_mgmt_inv: "nd_inv d \<Longrightarrow> on_mgmt lib frame e now d = (out, reset, air, d') \<Longrightarrow> nd_inv d'"
proof -
  assume inv: "nd_inv d" and run: "on_mgmt lib frame e now d = (out, reset, air, d')"
  have join: "nd_inv d1" if "node_join_op lib e req w d = (o1, a1, d1)" for req w o1 a1 d1
    using that inv inv_pair [OF inv node_pair_left [OF inv]] by (auto simp: node_join_op_def split: if_splits prod.splits)
  have "nd_inv d1" if "node_handle_mgmt lib e req op d = (o1, r1, a1, d1)" for req op o1 r1 a1 d1
    using that inv join provision_inv [OF inv] by (auto simp: node_handle_mgmt_def split: mgmt_op.splits prod.splits)
  with run inv show ?thesis by (auto simp: on_mgmt_def split: option.splits prod.splits)
qed

text \<open>The other users of the store during a turn keep to their own records.\<close>

fun event_keeps :: "app_event \<Rightarrow> bool" where
  "event_keeps (EvButton k e) = up_keeps (bt_up e)"
| "event_keeps (EvTimer e) = (up_keeps (tk_temp_up e) \<and> up_keeps (tk_info_up e) \<and> up_keeps (tk_accel_up e))"
| "event_keeps (EvTilt e) = up_keeps (tl_up e)"
| "event_keeps (EvMgmt frame e now) = True"

lemma node_turn_inv:
  assumes "nd_inv d" and "event_keeps ev" and "node_turn lib ev d = Some (out, reset, air, d')"
  shows "nd_inv d'"
proof -
  have of_ran: "nd_inv d'" if "left nd_inv m" "map_option (Pair []) m = Some (out, reset, air, d')" for m
    using that by (auto simp: left_def)
  show ?thesis
  proof (cases ev)
    case (EvButton k e)
    then show ?thesis using assms of_ran [OF on_button_inv [OF assms(1)]] by auto
  next
    case (EvTimer e)
    then show ?thesis using assms of_ran [OF on_timer_inv [OF assms(1)]] by auto
  next
    case (EvTilt e)
    then show ?thesis using assms of_ran [OF on_tilt_inv [OF assms(1)]] by auto
  next
    case (EvMgmt frame e now)
    then show ?thesis using assms on_mgmt_inv by simp
  qed
qed

section \<open>The node's life\<close>

lemma read_provision_abs:
  "nv_ok kv \<Longrightarrow> read_provision lib kv =
     (case app_abs kv KEY_PROVISION of None \<Rightarrow> None | Some b \<Rightarrow> if length b \<le> MAX_VALUE then nl_prov_de lib b else None)"
  by (simp add: read_provision_def scoped_get_abs split: option.splits)

lemma node_boot_net_inv:
  assumes nv: "nv_ok kv" and run: "node_boot_net lib lse addr b prov kv = (prov1, n)"
  shows "alive n" and "nt_addr n = addr" and "\<not> nt_default_lane_enabled n" and "table n = paired_table prov1"
    and "prov1 = (case prov of Some p \<Rightarrow> if peer_addr_valid (pn_gw_addr p) addr then Some p else None | None \<Rightarrow> None)"
proof -
  define n0 where "n0 = net_new \<lparr>nc_addr = addr, nc_key = replicate 16 0, nc_band = b, nc_keys_stored = (prov \<noteq> None)\<rparr> kv"
  define n1 where "n1 = set_lane_persist_period 1 (set_default_lane False n0)"
  note B = net_new_boot [OF nv, of "\<lparr>nc_addr = addr, nc_key = replicate 16 0, nc_band = b, nc_keys_stored = (prov \<noteq> None)\<rparr>", folded n0_def]
  have a1: "alive n1" using quiet_alive [OF quiet_trans [OF quiet_modes(7) quiet_modes(8)] B(1)] by (simp add: n1_def)
  have t1: "table n1 = Map.empty" "nt_addr n1 = addr" "\<not> nt_default_lane_enabled n1"
    using B(2,3) by (simp_all add: n1_def set_lane_persist_period_def set_default_lane_def table_ids peer_ids_def fun_eq_iff)
  have d1: "dom (table n1) \<subseteq> {x}" for x using t1(1) by simp
  have run': "node_boot_net lib lse addr b prov kv =
      (let (prov1, n2) = (case prov of None \<Rightarrow> (None, n1)
         | Some p \<Rightarrow> (case add_peer (nl_enc lib) (pn_gw_addr p) (pn_key p) n1 of (ok, n2) \<Rightarrow> (if ok then Some p else None, n2)))
       in (prov1, case prov1 of Some p \<Rightarrow> if b = Us915 then start_hopping (pn_gw_addr p) lse n2 else n2 | None \<Rightarrow> n2))"
    by (simp only: node_boot_net_def n0_def n1_def Let_def)
  have hop: "held (\<lambda>_. False) n2 (start_hopping gw lse n2)" for gw n2 using held_modes(4) by (simp add: start_hopping_def)
  have "alive n \<and> nt_addr n = addr \<and> \<not> nt_default_lane_enabled n \<and> table n = paired_table prov1 \<and>
      prov1 = (case prov of Some p \<Rightarrow> if peer_addr_valid (pn_gw_addr p) addr then Some p else None | None \<Rightarrow> None)"
  proof (cases "\<exists>p. prov = Some p \<and> peer_addr_valid (pn_gw_addr p) addr")
    case True
    then obtain p where p: "prov = Some p" "peer_addr_valid (pn_gw_addr p) addr" by blast
    note A = add_gateway [OF a1 d1, where a = "pn_gw_addr p" and enc = "nl_enc lib" and key = "pn_key p", unfolded t1(2)]
    define n2 where "n2 = snd (add_peer (nl_enc lib) (pn_gw_addr p) (pn_key p) n1)"
    have n: "prov1 = Some p" "n = (if b = Us915 then start_hopping (pn_gw_addr p) lse n2 else n2)"
      using run run' p A(2) [OF p(2)] by (auto simp: n2_def Let_def split: prod.splits)
    have h: "held (\<lambda>_. False) n2 n" using n(2) hop by simp
    have m: "moved (\<lambda>_. False) n1 n" using moved_trans [OF A(4) held_moved [OF h [unfolded n2_def]]] .
    show ?thesis using m t1 a1 A(3) [OF p(2)] held_table [OF h] n(1) p by (simp add: moved_def n2_def paired_table_def)
  next
    case False
    then have "prov1 = None" "n = n1" using run run' t1(2) by (auto simp: add_peer_def Let_def split: option.splits prod.splits)
    with False t1 a1 show ?thesis by (auto simp: paired_table_def split: option.splits)
  qed
  then show "alive n" "nt_addr n = addr" "\<not> nt_default_lane_enabled n" "table n = paired_table prov1"
    "prov1 = (case prov of Some p \<Rightarrow> if peer_addr_valid (pn_gw_addr p) addr then Some p else None | None \<Rightarrow> None)" by blast+
qed

lemma node_boot_inv:
  assumes "nv_ok kv" and "node_boot lib e kv = Inr d"
  shows "nd_inv d" and "nd_addr d = node_radio_addr lib kv"
    and "nd_provision d = (case read_provision lib kv of
        Some p \<Rightarrow> if peer_addr_valid (pn_gw_addr p) (node_radio_addr lib kv) then Some p else None | None \<Rightarrow> None)"
proof -
  obtain b ch prov1 n where n: "node_boot_net lib (nb_lse e) (node_radio_addr lib kv) b (read_provision lib kv) kv = (prov1, n)"
    and d: "nd_net d = n" "nd_provision d = prov1" "nd_addr d = node_radio_addr lib kv" "nd_counts d = [0, 0, 0, 0]" "ran_ok d"
    using assms(2) by (auto simp: node_boot_def ran_ok_def Let_def split: option.splits prod.splits if_splits)
  note N = node_boot_net_inv [OF assms(1) n]
  show "nd_inv d" "nd_addr d = node_radio_addr lib kv" using N d by (simp_all add: nd_inv_def)
  show "nd_provision d = (case read_provision lib kv of
      Some p \<Rightarrow> if peer_addr_valid (pn_gw_addr p) (node_radio_addr lib kv) then Some p else None | None \<Rightarrow> None)" using N(5) d by simp
qed

text \<open>A node is down (its store is all there is) or up. A turn that ends in a reset, and a loss of power, leave the
  store; it is mounted again and the application boots, or fails to.\<close>

fun node_store :: "nv + node \<Rightarrow> nv" where
  "node_store (Inl kv) = kv"
| "node_store (Inr d) = nd_kv d"

inductive app_step :: "node_lib \<Rightarrow> nv + node \<Rightarrow> bytes list \<Rightarrow> nv + node \<Rightarrow> bool" for lib where
  turn: "\<not> fw_off (nv_kv (nd_kv d)) \<Longrightarrow> event_keeps ev \<Longrightarrow> node_turn lib ev d = Some (out, reset, air, d') \<Longrightarrow>
    app_step lib (Inr d) air (if reset then Inl (nd_kv d') else Inr d')"
| other: "\<not> fw_off (nv_kv (nd_kv d)) \<Longrightarrow> other_user c \<Longrightarrow> app_step lib (Inr d) [] (Inr (d\<lparr>nd_net := store_call c (nd_net d)\<rparr>))"
| boot: "clean_event (PowerCycle pc) \<Longrightarrow> kv = \<lparr>nv_kv = fw_cycle pc (nv_kv (node_store st)), nv_wake = False\<rparr> \<Longrightarrow>
    app_step lib st [] (case node_boot lib e kv of Inr d \<Rightarrow> Inr d | Inl f \<Rightarrow> Inl kv)"

inductive app_life :: "node_lib \<Rightarrow> nv + node \<Rightarrow> bytes list \<Rightarrow> nv + node \<Rightarrow> bool" for lib where
  start: "app_life lib st [] st"
| step: "app_life lib st air st1 \<Longrightarrow> app_step lib st1 air' st2 \<Longrightarrow> app_life lib st (air @ air') st2"

definition app_ok :: "nv + node \<Rightarrow> bool" where
  "app_ok st = (case st of Inl kv \<Rightarrow> nv_ok kv | Inr d \<Rightarrow> nd_inv d)"

lemma app_ok_store: "app_ok st \<Longrightarrow> nv_ok (node_store st)"
  by (cases st) (auto simp: app_ok_def nd_inv_def alive_ok(2))

lemma app_step_ok:
  assumes "app_step lib st air st'" and "app_ok st"
  shows "app_ok st'"
  using assms
proof (cases rule: app_step.cases)
  case (turn d ev out reset d')
  then have "nd_inv d'" using node_turn_inv assms(2) by (simp add: app_ok_def)
  with turn show ?thesis by (auto simp: app_ok_def nd_inv_def alive_ok(2))
next
  case (other d c)
  let ?d = "d\<lparr>nd_net := store_call c (nd_net d)\<rparr>"
  have "nd_inv d" using other assms(2) by (simp add: app_ok_def)
  moreover have "table (nd_net ?d) = table (nd_net d)" using table_aside [OF store_call_aside(1) [OF other(5,4)]] by simp
  moreover have "alive (nd_net d) \<Longrightarrow> alive (nd_net ?d)" using quiet_alive [OF store_call_aside(2) [OF other(5,4)]] by simp
  ultimately have "nd_inv ?d" by (simp add: nd_inv_def store_call_def)
  with other show ?thesis by (simp add: app_ok_def)
next
  case (boot pc kv e)
  have "nv_ok kv" using fw_cycle_post(1) [OF app_ok_store [OF assms(2)] boot(3)] boot(4) by simp
  with boot node_boot_inv(1) [of kv lib e] show ?thesis by (auto simp: app_ok_def split: sum.splits)
qed

lemma app_life_ok: "app_life lib st air st' \<Longrightarrow> app_ok st \<Longrightarrow> app_ok st'"
  by (induction rule: app_life.induct) (auto intro: app_step_ok)

lemma app_life_inv: "nv_ok kv \<Longrightarrow> app_life lib (Inl kv) air (Inr d) \<Longrightarrow> nd_inv d"
  using app_life_ok [of lib "Inl kv" air "Inr d"] by (simp add: app_ok_def)

section \<open>The node's properties\<close>

lemma addr_key_not_settable: "\<not> settable BTN_SETTINGS (ns_key NS_SHELL ADDR_KEY)"
  using addr_not_settable [of BTN_SETTINGS]
  by (simp add: BTN_SETTINGS_def btn_setting_def SET_THERM_PERIOD_def SET_THERM_DELTA_def SET_ACCEL_def SET_HEARTBEAT_def SET_NODE_BAND_def
      SET_PRESS_def SET_RELEASE_def SET_CLICK_def SET_HOLD_def SET_DEBOUNCE_PRESS_def SET_DEBOUNCE_RELEASE_def SET_CLICK_TIMEOUT_def
      SET_HOLD_TIME_def ADDR_LOCAL_def ADDR_KEY_def)

lemma provision_not_settable: "\<not> settable settings (ns_key NS_APP l)"
  by (auto simp: settable_def ns_key_inject NS_APP_def NS_SHELL_def)

lemma not_net: "ns \<noteq> NS_NET \<Longrightarrow> \<not> net_key (ns_key ns l)"
  by (auto simp: net_key_def ns_key_inject)

lemma apart: "NS_APP \<noteq> NS_NET" "NS_SHELL \<noteq> NS_NET"
  by (simp_all add: NS_APP_def NS_SHELL_def NS_NET_def)

text \<open>C8. Whatever the gateway's ACKs and downlinks bring during an uplink, remote shell lines included, changes
  of the node's store only the network layer's own records and the settings that are no address: the
  stored pairing, the stored address and every other record stay, as do the pairing in force and the
  peer table. The other users of the store during the windows are held to the same settings.\<close>

theorem remote_confined:
  assumes "nv_ok (nd_kv d)" and "windows_keep (settable BTN_SETTINGS) (ue_windows e)"
    and "node_uplink lib m reps e d = Some (delivered, reset, air, d')"
  shows "(\<forall>ns l. ns \<noteq> NS_NET \<longrightarrow> \<not> settable BTN_SETTINGS (ns_key ns l) \<longrightarrow>
       fw_abs (nv_kv (nd_kv d')) (ns_key ns l) = fw_abs (nv_kv (nd_kv d)) (ns_key ns l)) \<and>
     read_provision lib (nd_kv d') = read_provision lib (nd_kv d) \<and> node_radio_addr lib (nd_kv d') = node_radio_addr lib (nd_kv d) \<and>
     same_role d d' \<and> table (nd_net d') = table (nd_net d)"
proof -
  have s: "served (settable BTN_SETTINGS) d d'" using served_uplink [OF assms(3,2,1)] .
  then have k: "kept (\<lambda>k. settable BTN_SETTINGS k \<or> net_key k) (nd_kv d) (nd_kv d')" using assms(1) by (simp add: served_def held_def)
  then have nv: "nv_ok (nd_kv d')" and same: "ns \<noteq> NS_NET \<Longrightarrow> \<not> settable BTN_SETTINGS (ns_key ns l) \<Longrightarrow>
      fw_abs (nv_kv (nd_kv d')) (ns_key ns l) = fw_abs (nv_kv (nd_kv d)) (ns_key ns l)" for ns l
    using not_net by (auto simp: kept_def)
  have "app_abs (nd_kv d') KEY_PROVISION = app_abs (nd_kv d) KEY_PROVISION" using same [OF apart(1) provision_not_settable] .
  then have "read_provision lib (nd_kv d') = read_provision lib (nd_kv d)" by (simp add: read_provision_abs [OF nv] read_provision_abs [OF assms(1)])
  moreover have "node_radio_addr lib (nd_kv d') = node_radio_addr lib (nd_kv d)"
    using same [OF apart(2) addr_key_not_settable] by (simp add: node_radio_addr_def scoped_get_abs [OF nv] scoped_get_abs [OF assms(1)])
  ultimately show ?thesis using same s held_table by (auto simp: served_def stays_def)
qed

text \<open>The states a turn passes through between its commands, from \<open>d\<close> on: whatever the radio, the sensors and the store did
  meanwhile, only a command changes the duplicate filter. A command that resets the device ends the turn, so it
  has no successor here.\<close>

definition same_cmds :: "node \<Rightarrow> node \<Rightarrow> bool" where
  "same_cmds d d' \<longleftrightarrow> nd_ran d' = nd_ran d \<and> nd_last_cmd d' = nd_last_cmd d \<and> nd_last_epoch d' = nd_last_epoch d \<and> nd_last_lost d' = nd_last_lost d"

inductive mid_turn :: "node_lib \<Rightarrow> node \<Rightarrow> node \<Rightarrow> bool" for lib d where
  rest: "same_cmds d d' \<Longrightarrow> mid_turn lib d d'"
| ran: "mid_turn lib d d1 \<Longrightarrow> run_cmd lib e gw epoch cmd line d1 = Some (WServed, air, d2) \<Longrightarrow> same_cmds d2 d' \<Longrightarrow> mid_turn lib d d'"

lemma ran_ok_same: "same_cmds d d' \<Longrightarrow> ran_ok d \<Longrightarrow> ran_ok d'"
  by (simp add: same_cmds_def ran_ok_def)

lemma mid_turn_ran: "mid_turn lib d d' \<Longrightarrow> ran_ok d \<Longrightarrow> ran_ok d'"
  by (induction rule: mid_turn.induct) (blast intro: ran_ok_same run_cmd_ran)+

text \<open>C10. Within one boot a remote command runs once: through any turns, uplinks and other commands, the history of the
  commands run has no command twice in a row. When the gateway delivers the last command again under the same host
  epoch and id, its ACK having been lost, at whatever state the node then is in and with whatever line, the node
  answers from its cache: it does not reset, changes of its store nothing but the network layer's own records,
  keeps its peer table and every other part of its state, and the history stays. Any other command is run and added
  to the history. The filter holds one command and lives in RAM: a command delivered again after another ran, or
  after a reset, its own included, runs again.\<close>

theorem command_runs_once:
  assumes "nv_ok kv" and "app_life lib (Inl kv) air (Inr d)" and "mid_turn lib d d0" and "nv_ok (nd_kv d0)"
    and "run_cmd lib e gw epoch cmd line d0 = Some (w, air', d')"
  shows "distinct_adj (nd_ran d') \<and>
     (if nd_ran d0 \<noteq> [] \<and> last (nd_ran d0) = (epoch, cmd)
      then w = WServed \<and> kept net_key (nd_kv d0) (nd_kv d') \<and> table (nd_net d') = table (nd_net d0) \<and> d' = d0\<lparr>nd_net := nd_net d'\<rparr>
      else nd_ran d' = nd_ran d0 @ [(epoch, cmd)])"
proof -
  have "ran_ok d" using app_life_inv [OF assms(1,2)] by (simp add: nd_inv_def)
  then have ok: "ran_ok d0" using mid_turn_ran [OF assms(3)] by blast
  have adj: "distinct_adj (nd_ran d')" using run_cmd_ran [OF assms(5) ok] by (simp add: ran_ok_def)
  show ?thesis
  proof (cases "nd_ran d0 \<noteq> [] \<and> last (nd_ran d0) = (epoch, cmd)")
    case True
    then obtain s where s: "answer_again lib (sink_new (nd_net d0) gw cmd (we_sends e)) d0 = Some s"
        and d': "w = WServed" "d' = d0\<lparr>nd_net := rs_net s\<rparr>"
      using assms(5) ran_ok_seen [OF ok] by (auto simp: run_cmd_def Let_def)
    have h: "held (\<lambda>_. False) (nd_net d0) (nd_net d')" using held_again [OF s, of "\<lambda>_. False"] d' by (simp add: sink_new_def)
    then have "kept net_key (nd_kv d0) (nd_kv d')" using assms(4) by (simp add: held_def)
    then show ?thesis using True adj d' held_table [OF h] by simp
  next
    case False
    then show ?thesis using adj run_cmd_new(1) [OF assms(5)] ran_ok_seen [OF ok] by auto
  qed
qed

text \<open>C7. Through any turns, cable requests, pairings, resets and clean power cuts, a running node has exactly one
  registered peer, the gateway it is paired with, under the key of that pairing, and none when it is not paired;
  unregistered senders are never served under the all-zero default key.\<close>

theorem node_serves_its_gateway:
  assumes "nv_ok kv" and "app_life lib (Inl kv) air (Inr d)"
  shows "table (nd_net d) = paired_table (nd_provision d) \<and> nt_addr (nd_net d) = nd_addr d \<and> \<not> nt_default_lane_enabled (nd_net d)"
  using app_life_inv [OF assms] by (simp add: nd_inv_def)

definition prov_codec :: "node_lib \<Rightarrow> bool" where
  "prov_codec lib \<longleftrightarrow> (\<forall>p. nl_prov_de lib (nl_prov_ser lib p) = Some p \<and> nl_prov_ser lib p \<noteq> [])"

text \<open>C9. Pairing over the air is all or nothing: an attempt that does not commit (no window, an invalid
  gateway, no acknowledgement under the new key) leaves the stored pairing and the peer table as they
  were; one that commits leaves the new gateway as the only peer, and the stored pairing is the new one
  exactly when the outcome says it was persisted.\<close>

theorem pairing_all_or_nothing:
  assumes "nv_ok kv" and "app_life lib (Inl kv) air (Inr d)" and "prov_codec lib" and "node_pair lib e window d = (out, air', d')"
  shows "case out of
      Paired rec sas persisted \<Rightarrow>
        table (nd_net d') = [pn_gw_addr rec \<mapsto> (pn_key rec, False)] \<and>
        read_provision lib (nd_kv d') = (if persisted then Some rec else read_provision lib (nd_kv d))
    | _ \<Rightarrow> table (nd_net d') = table (nd_net d) \<and> read_provision lib (nd_kv d') = read_provision lib (nd_kv d)"
proof -
  have inv: "nd_inv d" using app_life_inv [OF assms(1,2)] .
  have left: "pair_left lib out d d'" using node_pair_left [OF inv assms(4)] .
  have nv: "nv_ok (nd_kv d)" "nv_ok (nd_kv d')" using left inv alive_ok(2) by (auto simp: pair_left_def nd_inv_def moved_def)
  note R = read_provision_abs [OF nv(1)] read_provision_abs [OF nv(2)]
  show ?thesis
  proof (cases out)
    case (Paired rec sas persisted)
    then show ?thesis using left assms(3) unfolding R
      by (auto simp: pair_left_def paired_table_def stored_as_def prov_codec_def)
  next
    case NoWindow
    then show ?thesis using left nv(1) R not_net [OF apart(1)] by (auto simp: pair_left_def is_paired_def moved_def kept_def)
  next
    case Unconfirmed
    then show ?thesis using left nv(1) R not_net [OF apart(1)] by (auto simp: pair_left_def is_paired_def moved_def kept_def)
  next
    case Refused
    then show ?thesis using left nv(1) R not_net [OF apart(1)] by (auto simp: pair_left_def is_paired_def moved_def kept_def)
  qed
qed

section \<open>A concrete node\<close>

definition demo_prov :: provisioned where
  "demo_prov = \<lparr>pn_gw_addr = 0x22, pn_key = replicate 16 7, pn_band = 0, pn_channel = 0\<rparr>"

definition demo_node_lib :: node_lib where
  "demo_node_lib = \<lparr>nl_enc = enc_demo, nl_crypto = crypto_demo,
     nl_prov_ser = (\<lambda>p. u32_le (pn_gw_addr p) @ [pn_band p, pn_channel p] @ pn_key p),
     nl_prov_de = (\<lambda>b. Some \<lparr>pn_gw_addr = le_u32 (b ! 0) (b ! 1) (b ! 2) (b ! 3), pn_key = drop 6 b, pn_band = b ! 4, pn_channel = b ! 5\<rparr>),
     nl_msg = (\<lambda>m. []), nl_cmd = (\<lambda>b. None), nl_reply = (\<lambda>r. []), nl_req = (\<lambda>b. None), nl_tag = 0, nl_console_tag = 0,
     nl_name = [], nl_version = [], nl_uid = 0x11\<rparr>"

lemma demo_codec: "prov_codec demo_node_lib"
  by (simp add: prov_codec_def demo_node_lib_def u32_le_def)

lemma demo_prov_len: "length (nl_prov_ser demo_node_lib demo_prov) \<le> MAX_VALUE"
  by (simp add: demo_node_lib_def demo_prov_def u32_le_def MAX_VALUE_def)

definition demo_paired :: nv where
  "demo_paired = snd (scoped_set_bytes NS_APP KEY_PROVISION (nl_prov_ser demo_node_lib demo_prov) demo_nv)"

lemma demo_paired_facts:
  "nv_ok demo_paired" "fw_abs (nv_kv demo_paired) (ns_key ns l) =
     (if ns = NS_APP \<and> l = KEY_PROVISION then Some (nl_prov_ser demo_node_lib demo_prov) else None)"
proof -
  let ?v = "nl_prov_ser demo_node_lib demo_prov"
  have len: "length ?v = 22" by (simp add: demo_node_lib_def demo_prov_def u32_le_def)
  have "ns_key NS_APP KEY_PROVISION \<noteq> 0" by (simp add: ns_key_def NS_APP_def KEY_PROVISION_def)
  with len have "fst (fw_set_bytes (ns_key NS_APP KEY_PROVISION) ?v demo_kv) = Inr ()"
    using arg_cong [OF demo_set_key [of "ns_key NS_APP KEY_PROVISION" ?v], of fst] by simp
  then have s: "scoped_set_bytes NS_APP KEY_PROVISION ?v demo_nv = (Inr (), demo_paired)"
    by (auto simp: demo_paired_def scoped_set_bytes_def nv_set_bytes_def demo_nv_def split: prod.splits)
  note P = scoped_set_post [OF demo_nv_ok s]
  show "nv_ok demo_paired" by (rule P(1))
  have "?v \<noteq> []" using len by auto
  then show "fw_abs (nv_kv demo_paired) (ns_key ns l) = (if ns = NS_APP \<and> l = KEY_PROVISION then Some ?v else None)"
    using P(2) [of ns l] by (simp add: demo_nv_def demo_kv_abs)
qed

lemma add_peer_access: "nt_access (snd (add_peer enc a key n)) = nt_access n"
  by (auto simp: add_peer_def Let_def set_peer_def split: option.splits prod.splits)

lemma demo_access: "nt_access (snd (node_boot_net lib lse a Eu868 (Some p) kv)) = Duty"
proof -
  have "nt_access (net_new cfg kv) = Duty" for cfg by (simp add: net_new_def Let_def split: prod.splits)
  moreover have "nt_access (set_lane_persist_period k (set_default_lane b n)) = nt_access n" for k b n
    by (simp add: set_lane_persist_period_def set_default_lane_def)
  ultimately have "nt_access (snd (add_peer (nl_enc lib) (pn_gw_addr p) (pn_key p) (set_lane_persist_period 1 (set_default_lane False (net_new cfg kv))))) = Duty"
    for cfg by (simp add: add_peer_access)
  then show ?thesis by (simp add: node_boot_net_def Let_def case_prod_beta split: option.splits)
qed

lemma demo_node_boots:
  "\<exists>d. app_life demo_node_lib (Inl demo_paired) [] (Inr d) \<and> nd_provision d = Some demo_prov \<and> nd_band d = Eu868 \<and>
     nt_access (nd_net d) = Duty \<and> nd_ran d = []"
proof -
  let ?kv = "\<lparr>nv_kv = fw_cycle None (nv_kv demo_paired), nv_wake = False\<rparr>"
    and ?e = "\<lparr>nb_radio_ok = True, nb_lse = 0, nb_now = 0, nb_session = 1\<rparr>"
  have c: "clean_event (PowerCycle None)" by simp
  note C = fw_cycle_post [OF demo_paired_facts(1) c]
  have nv: "nv_ok ?kv" using C by simp
  have abs: "fw_abs (fw_cycle None (nv_kv demo_paired)) (ns_key ns l) = (if ns = NS_APP \<and> l = KEY_PROVISION then Some (nl_prov_ser demo_node_lib demo_prov) else None)" for ns l
    using C(2) demo_paired_facts(2) by simp
  have ns: "NS_SHELL \<noteq> NS_APP" by (simp add: NS_SHELL_def NS_APP_def)
  have prov: "read_provision demo_node_lib ?kv = Some demo_prov"
    using demo_codec demo_prov_len by (simp add: read_provision_abs [OF nv] abs prov_codec_def)
  have addr: "node_radio_addr demo_node_lib ?kv = 0x11" using ns by (simp add: node_radio_addr_def scoped_get_abs [OF nv] abs demo_node_lib_def)
  have acc: "read_accel_setting ?kv = Some (Some SensMedium)" using ns by (simp add: read_accel_setting_def scoped_get_abs [OF nv] abs)
  have band: "boot_band (Some demo_prov) ?kv = Some (Eu868, 0)" by (simp add: boot_band_def demo_prov_def)
  obtain p1 n where bn: "node_boot_net demo_node_lib 0 0x11 Eu868 (Some demo_prov) ?kv = (p1, n)" by fastforce
  obtain d where d: "node_boot demo_node_lib ?e ?kv = Inr d" "nd_band d = Eu868" "nd_ran d = []"
      "nt_access (nd_net d) = nt_access (snd (node_boot_net demo_node_lib 0 0x11 Eu868 (Some demo_prov) ?kv))"
    using prov addr acc band bn by (simp add: node_boot_def Let_def)
  have "app_step demo_node_lib (Inl demo_paired) [] (case node_boot demo_node_lib ?e ?kv of Inr d \<Rightarrow> Inr d | Inl f \<Rightarrow> Inl ?kv)"
    by (rule app_step.boot [OF c]) simp
  then have "app_life demo_node_lib (Inl demo_paired) [] (Inr d)" using app_life.step [OF app_life.start] d by fastforce
  moreover have "nd_provision d = Some demo_prov"
    using node_boot_inv(3) [OF nv d(1)] prov addr
    by (simp add: demo_prov_def peer_addr_valid_def is_reserved_addr_def ADDR_UNASSIGNED_def ADDR_BROADCAST_def)
  moreover have "nt_access (nd_net d) = Duty" using d(4) demo_access by simp
  ultimately show ?thesis using d(2,3) by blast
qed

theorem node_serves_its_gateway_witness:
  "\<exists>d. app_life demo_node_lib (Inl demo_paired) [] (Inr d) \<and> table (nd_net d) = [0x22 \<mapsto> (replicate 16 7, False)]"
proof -
  from demo_node_boots obtain d where d: "app_life demo_node_lib (Inl demo_paired) [] (Inr d)" "nd_provision d = Some demo_prov" by blast
  from node_serves_its_gateway [OF demo_paired_facts(1) d(1)] d show ?thesis by (auto simp: paired_table_def demo_prov_def)
qed

definition demo_pair_env :: pair_env where
  "demo_pair_env = \<lparr>pe_now = 0, pe_joins = [], pe_commits = (\<lambda>a i. \<lparr>at_elapsed = 0, at_tx = None, at_heard = []\<rparr>),
     pe_tuned = True, pe_band_tuned = True, pe_lse = 0\<rparr>"

theorem pairing_all_or_nothing_witness:
  "\<exists>d d'. app_life demo_node_lib (Inl demo_paired) [] (Inr d) \<and> node_pair demo_node_lib demo_pair_env 60000 d = (NoWindow, [], d') \<and>
     table (nd_net d') = table (nd_net d) \<and> read_provision demo_node_lib (nd_kv d') = read_provision demo_node_lib (nd_kv d)"
proof -
  from demo_node_boots obtain d where d: "app_life demo_node_lib (Inl demo_paired) [] (Inr d)" "nd_band d = Eu868" by blast
  have "net_join C enc a now w [] n = (None, [], n)" for C enc a now w n by (simp add: net_join_def split: option.splits)
  then have p: "node_pair demo_node_lib demo_pair_env 60000 d = (NoWindow, [], d)"
    using d(2) by (simp add: node_pair_def pair_on_air_def demo_pair_env_def Let_def)
  from pairing_all_or_nothing [OF demo_paired_facts(1) d(1) demo_codec p] d(1) p show ?thesis by auto
qed

definition demo_send_env :: send_env where
  "demo_send_env = \<lparr>se_attempts = (\<lambda>i. \<lparr>at_elapsed = 0, at_tx = None, at_heard = []\<rparr>), se_hops = []\<rparr>"

definition demo_window :: window_env where
  "demo_window = \<lparr>we_start = 0, we_lse = 0, we_turns = [(- 1, None)], we_shell = [(demo_ctx, id)], we_sends = [demo_send_env]\<rparr>"

lemma demo_window_keeps: "(\<And>k. settable BTN_SETTINGS k \<Longrightarrow> L k) \<Longrightarrow> windows_keep L [demo_window]"
  by (simp add: windows_keep_def demo_window_def passes_keep_id)

lemma demo_encode: "encode_node_msg demo_node_lib m = Some [0, 0]"
  by (simp add: encode_node_msg_def demo_node_lib_def u16_le_def MAX_RADIO_PAYLOAD_def)

lemma demo_pending: "\<exists>reset air d'. serve_pending lib gw [demo_window] d = Some (reset, air, d')"
  by (auto simp: downlink_window_def demo_window_def)

theorem remote_confined_witness:
  "\<exists>d delivered reset air d'. nd_provision d = Some demo_prov \<and>
     node_uplink demo_node_lib (NmTemperature 21500) 3 \<lparr>ue_send = demo_send_env, ue_windows = [demo_window]\<rparr> d = Some (delivered, reset, air, d') \<and>
     node_radio_addr demo_node_lib (nd_kv d') = node_radio_addr demo_node_lib (nd_kv d) \<and> table (nd_net d') = table (nd_net d)"
proof -
  let ?e = "\<lparr>ue_send = demo_send_env, ue_windows = [demo_window]\<rparr>"
  from demo_node_boots obtain d where d: "app_life demo_node_lib (Inl demo_paired) [] (Inr d)" "nd_provision d = Some demo_prov" "nt_access (nd_net d) = Duty"
    by blast
  have nv: "nv_ok (nd_kv d)" using app_life_inv [OF demo_paired_facts(1) d(1)] alive_ok(2) by (simp add: nd_inv_def)
  obtain r a n where s: "radio_send demo_node_lib (pn_gw_addr demo_prov) [0, 0] 3 demo_send_env (nd_net d) = Some (r, a, n)"
    using d(3) by (metis radio_send_def access.distinct(1,3) prod_cases3)
  obtain reset a' d' where "serve_pending demo_node_lib (pn_gw_addr demo_prov) [demo_window] (note_sent r (d\<lparr>nd_net := n\<rparr>)) = Some (reset, a', d')"
    using demo_pending by blast
  then have u: "node_uplink demo_node_lib (NmTemperature 21500) 3 ?e d = Some (r = Delivered, reset, a @ a', d')"
    using d(2) s by (simp add: node_uplink_def demo_encode)
  have "windows_keep (settable BTN_SETTINGS) (ue_windows ?e)" using demo_window_keeps [of "settable BTN_SETTINGS"] by simp
  from remote_confined [OF nv this u] d(2) u show ?thesis by blast
qed

lemma attempts_access: "send_attempts enc dest c conf frame i as res n = (r, air, n') \<Longrightarrow> nt_access n' = nt_access n"
proof (induction as arbitrary: i res n r air n')
  case (Cons a as)
  define n0 where "n0 = (if 0 < i then snd (backoff_ms n) else n)"
  obtain granted g where t: "try_tx (nt_duty n0) (at_elapsed a) (frame_toa_ms (of_nat (length frame))) = (granted, g)" by fastforce
  have n0: "nt_access (n0\<lparr>nt_duty := g\<rparr>) = nt_access n" by (simp add: n0_def backoff_ms_def rand_u32_def Let_def)
  have ack: "nt_access n2 = nt_access n" if "await_ack enc dest c h (n0\<lparr>nt_duty := g\<rparr>) = (b, n2)" for h b n2
    using that n0 by (auto simp: await_ack_def split: option.splits)
  have step: "nt_access n3 = nt_access n" if "send_attempts enc dest c conf frame (Suc i) as q n2 = (r', air', n3)" "nt_access n2 = nt_access n" for q n2 r' air' n3
    using Cons.IH [OF that(1)] that(2) by simp
  show ?case
    using Cons.prems n0 step ack unfolding send_attempts.simps Let_def n0_def [symmetric] t
    by (auto split: if_splits option.splits radio_error.splits prod.splits bool.splits)
qed simp

lemma send_access: "net_send enc dest data conf reps env n = (r, air, n') \<Longrightarrow> nt_access n' = nt_access n"
proof -
  have "nt_access n2 = nt_access n1" if "alloc_counter n1 = (c, n2)" for n1 c n2
    using that by (auto simp: alloc_counter_def split: prod.splits option.splits)
  then show "net_send enc dest data conf reps env n = (r, air, n') \<Longrightarrow> nt_access n' = nt_access n"
    by (fastforce simp: net_send_def Let_def split: if_splits prod.splits option.splits sum.splits dest: attempts_access)
qed

text \<open>With the radio off the hop schedule and one send to come, a short text goes out as the last chunk.\<close>

lemma demo_flush:
  assumes "nt_access (rs_net s) = Duty" and "rs_env s = [demo_send_env]"
  obtains ok s' where "sink_flush demo_node_lib l r s = Some (ok, s')" and "nt_access (rs_net s') = Duty"
proof -
  obtain q a n where q: "net_send (nl_enc demo_node_lib) (rs_gw s) [0, 0] True CHUNK_REPS (se_attempts demo_send_env) (rs_net s) = (q, a, n)"
    by (metis prod_cases3)
  then have "radio_send demo_node_lib (rs_gw s) [0, 0] CHUNK_REPS demo_send_env (rs_net s) = Some (q, a, n)" using assms(1) by (simp add: radio_send_def)
  with assms(2) send_access [OF q] assms(1) that show thesis by (simp add: sink_flush_def demo_encode Let_def lose_chunk_def)
qed

lemma demo_push:
  assumes "rs_buf s = []" and "t \<noteq> []" and "length t < RADIO_SHELL_CHUNK" and "prev_boundary t 0 (length t) = length t"
  shows "sink_push_loop lib t s = Some (True, s\<lparr>rs_buf := t\<rparr>)"
  using assms by (subst sink_push_loop.simps) (simp add: Let_def min_absorb1 sink_push_loop.simps)

lemma demo_texts:
  "ascii ''no such command'' \<noteq> []" "length (ascii ''no such command'') < RADIO_SHELL_CHUNK"
  "prev_boundary (ascii ''no such command'') 0 (length (ascii ''no such command'')) = length (ascii ''no such command'')"
  "LOST_TEXT \<noteq> []" "length LOST_TEXT < RADIO_SHELL_CHUNK" "prev_boundary LOST_TEXT 0 (length LOST_TEXT) = length LOST_TEXT"
  by code_simp+

lemma demo_empty_line: "length (split_whitespace []) = 0" "tokenize [] = []"
  by code_simp+

lemma demo_run:
  assumes "nt_access (nd_net d) = Duty"
  obtains air d' where "run_cmd demo_node_lib demo_window 0x22 1 7 [] d = Some (WServed, air, d')" and "nt_access (nd_net d') = Duty"
proof (cases "seen_before 1 7 d")
  case False
  let ?s = "sink_new (nd_net d) 0x22 7 [demo_send_env]"
  let ?s1 = "?s\<lparr>rs_buf := ascii ''no such command''\<rparr>"
  obtain ok s' where f: "sink_flush demo_node_lib True R_NOT_FOUND ?s1 = Some (ok, s')" "nt_access (rs_net s') = Duty"
    using demo_flush [of ?s1 True R_NOT_FOUND] assms by (auto simp: sink_new_def)
  have p: "sink_push_loop demo_node_lib (ascii ''no such command'') ?s = Some (True, ?s1)" using demo_push [OF _ demo_texts(1-3), of ?s] by (simp add: sink_new_def)
  have ok: "rs_ok ?s" "rs_ok ?s1" by (simp_all add: sink_new_def)
  have "stream_line (radio_sink_ops demo_node_lib) (Some (BTN_COMMANDS, BTN_SETTINGS)) [] (we_shell demo_window) ?s = Some ((R_NOT_FOUND, False), s')"
    using p f(1) ok demo_empty_line by (simp add: stream_line_def stream_with_def refuse_def resolve_def radio_sink_ops_def MAX_LINE_def MAX_TOKENS_def Let_def)
  then have "\<exists>air d'. run_cmd demo_node_lib demo_window 0x22 1 7 [] d = Some (WServed, air, d') \<and> nt_access (nd_net d') = Duty"
    using False f(2) by (auto simp: run_cmd_def Let_def demo_window_def)
  with that show thesis by blast
next
  case True
  let ?s = "sink_new (nd_net d) 0x22 7 [demo_send_env]" and ?r = "ucast (drop_bit 16 (nd_last_cmd d) AND 0xFF)"
  let ?t = "?s\<lparr>rs_chunk := ucast (nd_last_lost d) + 1\<rparr>"
  let ?s1 = "?t\<lparr>rs_buf := LOST_TEXT\<rparr>"
  have p: "sink_push_loop demo_node_lib LOST_TEXT ?t = Some (True, ?s1)" using demo_push [OF _ demo_texts(4-6), of ?t] by (simp add: sink_new_def)
  have ok: "rs_ok ?s" "rs_ok ?t" "rs_ok ?s1" by (simp_all add: sink_new_def)
  obtain b s' where f: "sink_flush demo_node_lib True ?r ?s = Some (b, s')" "nt_access (rs_net s') = Duty"
    using demo_flush [of ?s True ?r] assms by (auto simp: sink_new_def)
  obtain b1 s1 where f1: "sink_flush demo_node_lib True ?r ?s1 = Some (b1, s1)" "nt_access (rs_net s1) = Duty"
    using demo_flush [of ?s1 True ?r] assms by (auto simp: sink_new_def)
  have "answer_again demo_node_lib ?s d = Some (if nd_last_lost d = 0 then s' else s1)"
    using p ok f(1) f1(1) by (simp add: answer_again_def radio_sink_ops_def Let_def)
  with True f(2) f1(2) that show thesis by (simp add: run_cmd_def Let_def demo_window_def)
qed

theorem command_runs_once_witness:
  "\<exists>d air d1 w air' d'. app_life demo_node_lib (Inl demo_paired) [] (Inr d) \<and>
     run_cmd demo_node_lib demo_window 0x22 1 7 [] d = Some (WServed, air, d1) \<and> nd_ran d1 = [(1, 7)] \<and>
     run_cmd demo_node_lib demo_window 0x22 1 7 [] d1 = Some (w, air', d') \<and> nd_ran d' = [(1, 7)] \<and> w = WServed \<and> kept net_key (nd_kv d1) (nd_kv d')"
proof -
  from demo_node_boots obtain d where d: "app_life demo_node_lib (Inl demo_paired) [] (Inr d)" "nt_access (nd_net d) = Duty" "nd_ran d = []" by blast
  have inv: "nd_inv d" using app_life_inv [OF demo_paired_facts(1) d(1)] .
  then have nv: "nv_ok (nd_kv d)" and new: "\<not> seen_before 1 7 d" using alive_ok(2) ran_ok_seen [of d] d(3) by (auto simp: nd_inv_def)
  obtain air d1 where r1: "run_cmd demo_node_lib demo_window 0x22 1 7 [] d = Some (WServed, air, d1)" "nt_access (nd_net d1) = Duty" using demo_run [OF d(2)] .
  have h1: "nd_ran d1 = [(1, 7)]" using run_cmd_new(1) [OF r1(1) new] d(3) by simp
  obtain air' d' where r2: "run_cmd demo_node_lib demo_window 0x22 1 7 [] d1 = Some (WServed, air', d')" using demo_run [OF r1(2)] by blast
  have "nv_ok (nd_kv d1)" using served_ok [OF served_run [OF demo_window_keeps [of "\<lambda>_. True"] nv r1(1)] nv] by simp
  moreover have "mid_turn demo_node_lib d d1" using mid_turn.ran [OF mid_turn.rest r1(1)] by (simp add: same_cmds_def)
  ultimately have "kept net_key (nd_kv d1) (nd_kv d') \<and> d' = d1\<lparr>nd_net := nd_net d'\<rparr>"
    using command_runs_once [OF demo_paired_facts(1) d(1) _ _ r2] h1 by auto
  then have k: "kept net_key (nd_kv d1) (nd_kv d')" and e: "d' = d1\<lparr>nd_net := nd_net d'\<rparr>" by blast+
  have "nd_ran d' = [(1, 7)]" using h1 by (subst e) simp
  with d(1) r1(1) h1 r2 k show ?thesis by blast
qed

end
