(* ===== verification/Spec2Isabelle.thy ===== *)
theory Spec2Isabelle
  imports Fw_Life Fw_Recv Fw_Pairing_Props Gw_Props Proto_Ring Node_Props
begin

text \<open>
  Verification of the HARDWARIO TOWER SDK: the store, the radio network layer, the console, the shell and the two
  applications that make a star network, a gateway on a USB dongle and a battery node with a push button.

  \<^bold>\<open>The program.\<close> A device keeps its state in a log-structured key-value store on EEPROM (\<open>crates/kv\<close>), shared by
  namespace (\<open>firmware/src/storage.rs\<close>). The network layer (\<open>firmware/src/radio/net\<close>) seals frames with AES-CCM
  (\<open>crates/radio\<close>) under per-peer keys and a counter whose watermark it stores, filters replays with a lane per peer whose
  records it stores, keeps to a duty cycle, listens before talking or hops, and pairs devices by a handshake
  (\<open>crates/net\<close> holds its pure kernels). The gateway (\<open>firmware/apps/radio_dongle_gateway.rs\<close>, \<open>crates/gateway\<close>) mirrors a
  stored registry of nodes into its peer table, queues downlinks and serves a host over the console link
  (\<open>crates/protocol\<close>). The node (\<open>firmware/apps/radio_push_button.rs\<close>) reports events, opens a window for downlinks when an
  ACK announces one, runs remote shell lines (\<open>crates/shell\<close>, \<open>firmware/src/shell.rs\<close>) and pairs over the air or by cable.

  \<^bold>\<open>Theories.\<close>
  \<^item> \<open>Prelude\<close>: machine integers, saturating and checked arithmetic, byte encodings, results, shared list lemmas.
  \<^item> \<open>Crc\<close>: \<open>crates/protocol/src/crc.rs\<close>.
  \<^item> \<open>Kv_Device\<close>, \<open>Kv\<close>, \<open>Kv_Incremental\<close>, \<open>Kv_Maintain\<close>: the EEPROM with power cuts and tears, and every function of
    \<open>crates/kv/src/lib.rs\<close>; \<open>Kv_Log\<close>, \<open>Kv_Crash\<close>, \<open>Kv_Store\<close>, \<open>Kv_Flip\<close>, \<open>Kv_Dead\<close>, \<open>Kv_Props\<close>: the map the cells mean
    (\<open>kv_abs\<close>), a crash logic for the operations, and that each is atomic under a cut inside any of its word programs.
  \<^item> \<open>Net_TxCounter\<close>, \<open>Net_Replay\<close>, \<open>Net_Link\<close>, \<open>Net_Epoch\<close>, \<open>Net_Pairing\<close>, \<open>Net_Handshake\<close>: the kernels of \<open>crates/net\<close>.
  \<^item> \<open>Radio_Air\<close>, \<open>Radio_Frame\<close>: airtime, the duty governor, the hop schedule; CCM and the frame codec.
  \<^item> \<open>Fw_Storage\<close>: \<open>Kv\<close>, \<open>Nv\<close> and \<open>Scoped\<close> of the firmware; \<open>fw_abs\<close> is the durable map they implement.
  \<^item> \<open>Fw_Net\<close>, \<open>Fw_Access\<close>, \<open>Fw_Fhss\<close>, \<open>Fw_Pairing\<close>: \<open>Net\<close> with every method: boot, peers, send, receive, LBT and AFA, bulk
    transfers, hopping, OTA pairing, the keyed join. \<open>Fw_Peers\<close>, \<open>Fw_Watermark\<close>, \<open>Fw_Nonce\<close>, \<open>Fw_Life\<close>, \<open>Fw_Recv\<close>,
    \<open>Fw_Pairing_Props\<close>: the peer-table invariant, the durable watermark, and what holds over a device's whole life.
  \<^item> \<open>Gw_Registry\<close>, \<open>Gw_Queue\<close>, \<open>Gw_App\<close>: the registry, the downlink queue, the gateway's handlers, turn and boot;
    \<open>Gw_Mirror\<close>, \<open>Gw_Life\<close>, \<open>Gw_Boot\<close>, \<open>Gw_Props\<close>: that peer table, pending flags and registry stay in step.
  \<^item> \<open>Proto_Frame\<close>, \<open>Proto_Ring\<close>: console frames with their streaming decoder, and the transmit ring.
  \<^item> \<open>Shell_Kernel\<close>, \<open>Shell\<close>, \<open>Shell_Props\<close>: settings, command tree, paging, dispatch, completion.
  \<^item> \<open>Node_App\<close>, \<open>Node_Props\<close>: the push-button application and its promises.

  \<^bold>\<open>State and operations.\<close> A Rust struct is a record with the field names prefixed, a method a function that returns the
  changed record, an error a left injection or an option. Words keep their width, and wrapping, saturating and checked
  arithmetic are written out. What comes from outside (frames heard, clocks, the random generator, whether a
  transmission worked, what other tasks do to the store) is an argument, one element of a list or one call of a
  function per use. A loop bounded only by what arrives recurses on that list and returns \<open>None\<close>, or the
  result so far, at its end: the list is the fuel, and a theorem about what such a loop leaves behind holds for every length
  of it. \<open>pairing_completes\<close>, \<open>set_bytes_succeeds\<close> and \<open>console_response_whole\<close> say that the result is reached, and how much input
  is enough. Loops that always end (\<open>sink_push_loop\<close>, the codec's scans, the chunk stream) have termination proofs.

  \<^bold>\<open>Interfaces.\<close> The locales are the contracts between components, each interpreted on the code's own definitions:
  \<open>durable_cell\<close> (what the TX counter needs of the store, given by \<open>Fw_Watermark\<close>), \<open>bucket_store\<close> (what the registry needs,
  given by the application namespace in \<open>Gw_Mirror\<close>), \<open>downlink_queue\<close> and \<open>bounded_fifo\<close> (the contracts of queue and ring) and
  \<open>store_sink\<close> (what the shell needs of a transport, given by the console and by the radio in \<open>Node_Props\<close>).

  \<^bold>\<open>What is shown.\<close> The store is a durable map under any sequence of calls and clean power cuts. No nonce is used
  twice under a key, over any life of a device, and a raised counter floor is final. A received message is
  authentic, addressed to this device and within one boot never delivered twice; across a boot the replay lanes
  lag by less than a persist period. Both ends of a pairing derive one key, bound to what
  they exchanged, and an undisturbed pairing completes. The gateway serves exactly its registered nodes under
  their registered keys, hands its host only authentic uplinks, and nothing from the air changes a registered
  node. The node has exactly its gateway as a peer, a failed pairing changes nothing, a remote line changes no
  address and no pairing, and within a boot a command delivered again, with no other run in between, is not run again. The ring and the queue refine a bounded
  FIFO, airtime stays within the duty cycle, every hop cycle visits each channel once, frames survive the wire, and a shell response
  reaches the host whole.

  \<^bold>\<open>Assumptions.\<close> Every statement about cuts of power is about clean ones (\<open>clean\<close>, \<open>clean_event\<close>): the word whose program is
  cut reads as before or erased. The device model and the crate's tests have a third tear, a garbled word, and
  it is excluded, also where a check would detect it. With clean cuts the order of the writes alone makes an
  operation atomic; a garbled header or superblock word is told from a good one only by its CRC (or, a header's, by the bound on
  its length: \<open>garbled_header_refused\<close>), and a CRC can match by chance. AES,
  SHA-256, HMAC, HKDF and X25519, COBS, postcard and the schema tags are parameters; the laws used of them (a codec reads
  back what it encoded, a key exchange commutes) are hypotheses of the theorems, with witnesses for concrete functions.
  A bulk source answers the same offset with the same bytes. After a cut of power the turn
  under way runs on in the model with every write failing, and the next step is a boot. A factory wipe is proved apart
  (\<open>wipe_freezes\<close>) and is no event of a life. Other users of the store keep to their own namespaces.

  \<^bold>\<open>Not modelled.\<close> Drivers (radio registers, USB, clocks, sensors, LED, watchdog), the executor, log lines, the
  printed text of the informational shell commands; the climate monitor, which repeats the node's structure; the
  host tools, flasher, bench and examples, which are programs around I/O; the schema fingerprint, a hash computed at build time.
\<close>

end
